(* ===== verification/Prelude.thy ===== *)
theory Prelude
  imports Main "HOL-Library.Word"
begin

text \<open>
  Shared vocabulary of the development: the machine types of the 32-bit x86 target, the
  ways kernel code can fail (\<^verbatim>\<open>ASSERT\<close> and \<^verbatim>\<open>PANIC\<close> of lib/debug.h, a divide
  error, an access outside an object), the sequencing of fallible computations, and the
  generic lemmas on lists and words that several components use.
\<close>

unbundle bit_operations_syntax

section \<open>Machine types\<close>

type_synonym u8 = "8 word"
type_synonym u16 = "16 word"
type_synonym u32 = "32 word"
type_synonym u64 = "64 word"

section \<open>Failures of kernel code\<close>

datatype kerror =
    Assert_fail    \<comment> \<open>a failed \<^verbatim>\<open>ASSERT\<close> or a reached \<^verbatim>\<open>NOT_REACHED\<close>\<close>
  | Kernel_panic   \<comment> \<open>an explicit \<^verbatim>\<open>PANIC\<close>\<close>
  | Divide_error   \<comment> \<open>the processor's \<^verbatim>\<open>#DE\<close> exception\<close>
  | Bad_access     \<comment> \<open>an access outside the object or array that is meant\<close>

type_synonym 'a outcome = "kerror + 'a"

definition kbind :: "'a outcome \<Rightarrow> ('a \<Rightarrow> 'b outcome) \<Rightarrow> 'b outcome" where
  "kbind m f = (case m of Inl e \<Rightarrow> Inl e | Inr x \<Rightarrow> f x)"

definition kassert :: "bool \<Rightarrow> unit outcome" where
  "kassert P = (if P then Inr () else Inl Assert_fail)"

text \<open>A computation that must return: \<open>returns m\<close> says that no failure happened.\<close>

definition returns :: "'a outcome \<Rightarrow> bool" where
  "returns m \<longleftrightarrow> (case m of Inl _ \<Rightarrow> False | Inr _ \<Rightarrow> True)"

lemma kbind_simps [simp]:
  "kbind (Inr x) f = f x"
  "kbind (Inl e) f = Inl e"
  by (simp_all add: kbind_def)

lemma kbind_Inr_conv: "kbind m f = Inr y \<longleftrightarrow> (\<exists>x. m = Inr x \<and> f x = Inr y)"
  by (cases m) auto

lemma kbind_InrE [elim!]:
  assumes "kbind m f = Inr y"
  obtains x where "m = Inr x" "f x = Inr y"
  using assms by (auto simp: kbind_Inr_conv)

lemma kbind_cong: "m = m' \<Longrightarrow> (\<And>x. m' = Inr x \<Longrightarrow> f x = g x) \<Longrightarrow> kbind m f = kbind m' g"
  by (cases m') auto

lemma kbind_assoc: "kbind (kbind m f) g = kbind m (\<lambda>x. kbind (f x) g)"
  by (cases m) auto

lemma kassert_simps [simp]:
  "kassert True = Inr ()"
  "kassert False = Inl Assert_fail"
  "kassert P = Inr u \<longleftrightarrow> P"
  by (auto simp: kassert_def)

lemma returns_simps [simp]:
  "returns (Inr x)" "\<not> returns (Inl e)"
  by (simp_all add: returns_def)

lemma returns_conv: "returns m \<longleftrightarrow> (\<exists>x. m = Inr x)"
  by (cases m) auto

section \<open>Pointers, and loops that may not end\<close>

text \<open>
  An address of the kernel's memory; C gives no meaning to a pointer that runs past the end of
  the address space, so addresses do not wrap. A loop that may run forever has a result of type
  \<open>'a run\<close>, in which \<^const>\<open>None\<close> means that it does not end.
\<close>

type_synonym addr = nat

definition NULL :: addr where "NULL = 0"

type_synonym 'a run = "'a outcome option"

text \<open>Sequencing of computations that may fail or not return.\<close>

definition rbind :: "'a run \<Rightarrow> ('a \<Rightarrow> 'b run) \<Rightarrow> 'b run" where
  "rbind m f = Option.bind m (\<lambda>r. case r of Inl e \<Rightarrow> Some (Inl e) | Inr x \<Rightarrow> f x)"

lemma rbind_simps [simp]:
  "rbind None f = None"
  "rbind (Some (Inl e)) f = Some (Inl e)"
  "rbind (Some (Inr x)) f = f x"
  by (simp_all add: rbind_def)

lemma rbind_mono [partial_function_mono]:
  assumes "mono_option m" "\<And>y. mono_option (\<lambda>f. g y f)"
  shows "mono_option (\<lambda>f. rbind (m f) (\<lambda>y. g y f))"
  unfolding rbind_def
proof (rule bind_mono [OF assms(1)])
  fix r :: "'c outcome"
  show "mono_option (\<lambda>f. case r of Inl e \<Rightarrow> Some (Inl e) | Inr x \<Rightarrow> g x f)"
    using assms(2) by (cases r) (simp_all add: option.const_mono)
qed

section \<open>Sizes\<close>

text \<open>
  \<^verbatim>\<open>size_t\<close> has 32 bits. Where code computes with sizes by loop counters and indices, the model
  keeps them as natural numbers and writes the wrap-around out.
\<close>

definition SIZE_MAX :: nat where "SIZE_MAX = 4294967295"

definition sz :: "nat \<Rightarrow> nat" where "sz n = n mod 4294967296"

lemma sz_id [simp]: "n < 4294967296 \<Longrightarrow> sz n = n"
  by (simp add: sz_def)

lemma sz_less [simp]: "sz n < 4294967296"
  by (simp add: sz_def)

definition DIV_ROUND_UP :: "nat \<Rightarrow> nat \<Rightarrow> nat" where
  "DIV_ROUND_UP x step = sz (x + step - 1) div step"

lemma DIV_ROUND_UP_eq: "0 < step \<Longrightarrow> x + step \<le> 4294967296 \<Longrightarrow> DIV_ROUND_UP x step = (x + step - 1) div step"
  by (simp add: DIV_ROUND_UP_def)

text \<open>Reading and writing one cell of an array, with the accesses outside of it as failures.\<close>

definition arr_get :: "'a list \<Rightarrow> nat \<Rightarrow> 'a outcome" where
  "arr_get xs i = (if i < length xs then Inr (xs ! i) else Inl Bad_access)"

definition arr_set :: "'a list \<Rightarrow> nat \<Rightarrow> 'a \<Rightarrow> 'a list outcome" where
  "arr_set xs i v = (if i < length xs then Inr (xs[i := v]) else Inl Bad_access)"

lemma arr_simps [simp]:
  "i < length xs \<Longrightarrow> arr_get xs i = Inr (xs ! i)"
  "\<not> i < length xs \<Longrightarrow> arr_get xs i = Inl Bad_access"
  "i < length xs \<Longrightarrow> arr_set xs i v = Inr (xs[i := v])"
  "\<not> i < length xs \<Longrightarrow> arr_set xs i v = Inl Bad_access"
  by (simp_all add: arr_get_def arr_set_def)

section \<open>Named collections\<close>

named_theorems layout \<open>constants of the address and page-table layout\<close>
named_theorems ops \<open>definitions of the operations of a component\<close>

section \<open>Words\<close>

lemma unat_u32_less: "unat (w :: u32) < 4294967296"
  using unsigned_less [of w, where 'a=nat] by simp

lemma unat_u64_less: "unat (w :: u64) < 18446744073709551616"
  using unsigned_less [of w, where 'a=nat] by simp

lemma unat_u8_less: "unat (w :: u8) < 256"
  using unsigned_less [of w, where 'a=nat] by simp

lemma unat_add_no_overflow:
  fixes a b :: "'a::len word"
  assumes "unat a + unat b < 2 ^ LENGTH('a)"
  shows "unat (a + b) = unat a + unat b"
  using assms by (simp add: unat_word_ariths)

lemma unat_mult_no_overflow:
  fixes a b :: "'a::len word"
  assumes "unat a * unat b < 2 ^ LENGTH('a)"
  shows "unat (a * b) = unat a * unat b"
  using assms by (simp add: unat_word_ariths)

lemma word_eqI_unat: "unat a = unat b \<Longrightarrow> a = b"
  by (simp add: word_unat_eq_iff)

section \<open>Bytes\<close>

text \<open>A 32-bit number in memory: four bytes, the lowest first.\<close>

definition le32 :: "nat \<Rightarrow> u8 list" where
  "le32 n = [of_nat n, of_nat (n div 256), of_nat (n div 65536), of_nat (n div 16777216)]"

definition de32 :: "u8 list \<Rightarrow> nat" where
  "de32 bs = unat (bs ! 0) + 256 * unat (bs ! 1) + 65536 * unat (bs ! 2) + 16777216 * unat (bs ! 3)"

lemma length_le32 [simp]: "length (le32 n) = 4"
  by (simp add: le32_def)

lemma unat_of_nat_u8: "unat (of_nat n :: u8) = n mod 256"
  by (simp add: unat_of_nat take_bit_eq_mod)

lemma de32_le32 [simp]:
  assumes "n < 4294967296"
  shows "de32 (le32 n @ rest) = n"
proof -
  define a b c where "a = n div 256" "b = a div 256" "c = b div 256"
  have "n div 65536 = b" "n div 16777216 = c"
    using div_mult2_eq [of n 256 256] div_mult2_eq [of n 65536 256] by (simp_all add: a_b_c_def)
  moreover have "n = 256 * a + n mod 256" "a = 256 * b + a mod 256" "b = 256 * c + b mod 256"
    by (simp_all add: a_b_c_def)
  moreover have "c < 256"
    using assms by (simp add: a_b_c_def div_mult2_eq [symmetric] less_mult_imp_div_less)
  ultimately show ?thesis
    unfolding de32_def le32_def by (simp add: unat_of_nat_u8 a_b_c_def(1) [symmetric])
qed

lemma de32_less: "de32 bs < 4294967296"
  using unat_u8_less [of "bs ! 0"] unat_u8_less [of "bs ! 1"] unat_u8_less [of "bs ! 2"]
    unat_u8_less [of "bs ! 3"]
  by (simp add: de32_def)

end
