(* ===== verification/Vaddr.thy ===== *)
theory Vaddr
  imports Prelude
begin

text \<open>
  Virtual addresses and page-table entries: threads/vaddr.h, threads/pte.h and the rounding
  macros of lib/round.h. Addresses and entries are 32-bit words, so the additions of
  \<^verbatim>\<open>pg_round_up\<close> and \<^verbatim>\<open>ptov\<close> wrap as on the machine. Shown: an address is
  the sum of its three index fields, rounding is correct away from the top page, \<^verbatim>\<open>ptov\<close>
  and \<^verbatim>\<open>vtop\<close> are inverse, and an entry built for a page gives that page back.
\<close>

section \<open>Virtual addresses (vaddr.h)\<close>

definition BITMASK :: "nat \<Rightarrow> nat \<Rightarrow> u32" where
  "BITMASK shift cnt = push_bit shift (push_bit cnt 1 - 1)"

definition PGBITS :: nat where "PGBITS = 12"
definition PGSIZE :: u32 where "PGSIZE = push_bit PGBITS 1"
definition PGMASK :: u32 where "PGMASK = BITMASK 0 PGBITS"

definition pg_ofs :: "u32 \<Rightarrow> u32" where
  "pg_ofs va = va AND PGMASK"

definition pg_no :: "u32 \<Rightarrow> u32" where
  "pg_no va = drop_bit PGBITS va"

definition pg_round_up :: "u32 \<Rightarrow> u32" where
  "pg_round_up va = (va + PGSIZE - 1) AND NOT PGMASK"

definition pg_round_down :: "u32 \<Rightarrow> u32" where
  "pg_round_down va = va AND NOT PGMASK"

definition PHYS_BASE :: u32 where "PHYS_BASE = 0xc0000000"

definition is_user_vaddr :: "u32 \<Rightarrow> bool" where
  "is_user_vaddr va \<longleftrightarrow> va < PHYS_BASE"

definition is_kernel_vaddr :: "u32 \<Rightarrow> bool" where
  "is_kernel_vaddr va \<longleftrightarrow> va \<ge> PHYS_BASE"

definition ptov :: "u32 \<Rightarrow> u32 outcome" where
  "ptov paddr = kbind (kassert (paddr < PHYS_BASE)) (\<lambda>_. Inr (paddr + PHYS_BASE))"

definition vtop :: "u32 \<Rightarrow> u32 outcome" where
  "vtop va = kbind (kassert (is_kernel_vaddr va)) (\<lambda>_. Inr (va - PHYS_BASE))"

section \<open>Page tables (pte.h)\<close>

definition PTBITS :: nat where "PTBITS = 10"
definition PTSHIFT :: nat where "PTSHIFT = PGBITS"
definition PTMASK :: u32 where "PTMASK = BITMASK PTSHIFT PTBITS"
definition PDSHIFT :: nat where "PDSHIFT = PTSHIFT + PTBITS"

definition pt_no :: "u32 \<Rightarrow> u32" where
  "pt_no va = drop_bit PTSHIFT (va AND PTMASK)"

definition pd_no :: "u32 \<Rightarrow> u32" where
  "pd_no va = drop_bit PDSHIFT va"

definition PTE_ADDR :: u32 where "PTE_ADDR = 0xfffff000"
definition PTE_P :: u32 where "PTE_P = 0x1"
definition PTE_W :: u32 where "PTE_W = 0x2"
definition PTE_U :: u32 where "PTE_U = 0x4"
definition PTE_A :: u32 where "PTE_A = 0x20"
definition PTE_D :: u32 where "PTE_D = 0x40"

definition pde_create :: "u32 \<Rightarrow> u32 outcome" where
  "pde_create pt = kbind (kassert (pg_ofs pt = 0)) (\<lambda>_.
     kbind (vtop pt) (\<lambda>p. Inr (p OR PTE_U OR PTE_P OR PTE_W)))"

definition pde_get_pt :: "u32 \<Rightarrow> u32 outcome" where
  "pde_get_pt pde = kbind (kassert (pde AND PTE_P \<noteq> 0)) (\<lambda>_. ptov (pde AND PTE_ADDR))"

definition pte_create_kernel :: "u32 \<Rightarrow> bool \<Rightarrow> u32 outcome" where
  "pte_create_kernel page writable = kbind (kassert (pg_ofs page = 0)) (\<lambda>_.
     kbind (vtop page) (\<lambda>p. Inr (p OR PTE_P OR (if writable then PTE_W else 0))))"

definition pte_create_user :: "u32 \<Rightarrow> bool \<Rightarrow> u32 outcome" where
  "pte_create_user page writable =
     kbind (pte_create_kernel page writable) (\<lambda>pte. Inr (pte OR PTE_U))"

definition pte_get_page :: "u32 \<Rightarrow> u32 outcome" where
  "pte_get_page pte = ptov (pte AND PTE_ADDR)"

lemmas [layout] =
  PGBITS_def PTBITS_def PTSHIFT_def PDSHIFT_def PHYS_BASE_def
  PTE_ADDR_def PTE_P_def PTE_W_def PTE_U_def PTE_A_def PTE_D_def

lemma PGSIZE_val [layout]: "PGSIZE = 4096"
  by (simp add: PGSIZE_def PGBITS_def)

lemma PGMASK_val [layout]: "PGMASK = 4095"
  by (simp add: PGMASK_def BITMASK_def PGBITS_def)

lemma PTMASK_val [layout]: "PTMASK = 4190208"
  by (simp add: PTMASK_def BITMASK_def PTSHIFT_def PGBITS_def PTBITS_def)

section \<open>Arithmetic reading of the fields\<close>

lemma PGMASK_mask: "PGMASK = mask 12"
  by (simp add: PGMASK_val mask_eq_exp_minus_1)

lemma unat_pg_ofs: "unat (pg_ofs va) = unat va mod 4096"
  by (simp add: pg_ofs_def PGMASK_mask flip: take_bit_eq_mask)
    (simp add: unsigned_take_bit_eq take_bit_eq_mod unat_mod)

lemma unat_pg_no: "unat (pg_no va) = unat va div 4096"
  by (simp add: pg_no_def PGBITS_def drop_bit_eq_div unat_div)

lemma unat_pd_no: "unat (pd_no va) = unat va div 4194304"
  by (simp add: pd_no_def layout drop_bit_eq_div unat_div)

lemma PTMASK_mask: "PTMASK = push_bit 12 (mask 10)"
  by (simp add: PTMASK_val mask_eq_exp_minus_1)

lemma pt_no_take: "pt_no va = take_bit 10 (drop_bit 12 va)"
  unfolding pt_no_def PTMASK_mask
  by (rule bit_word_eqI) (auto simp: layout bit_simps)

lemma unat_pt_no: "unat (pt_no va) = unat va div 4096 mod 1024"
  by (simp add: pt_no_take take_bit_eq_mod drop_bit_eq_div unat_div unat_mod)

lemmas unat_fields = unat_pg_ofs unat_pg_no unat_pd_no unat_pt_no

lemma and_not_PGMASK: "va AND NOT PGMASK = push_bit 12 (drop_bit 12 va)"
  unfolding PGMASK_mask by (rule bit_word_eqI) (auto simp: bit_simps)

lemma pg_round_down_sub: "pg_round_down va = va - pg_ofs va"
  using bits_ident [of 12 va] unfolding pg_round_down_def pg_ofs_def and_not_PGMASK
  by (simp add: PGMASK_mask algebra_simps flip: take_bit_eq_mask)

lemma unat_pg_round_down: "unat (pg_round_down va) = unat va - unat va mod 4096"
  by (simp add: pg_round_down_sub unat_sub word_le_nat_alt unat_pg_ofs)

lemma pg_round_up_down: "pg_round_up va = pg_round_down (va + 4095)"
  by (simp add: pg_round_up_def pg_round_down_def layout algebra_simps)

lemma unat_pg_round_up:
  assumes "unat va + 4095 < 4294967296"
  shows "unat (pg_round_up va) = (unat va + 4095) div 4096 * 4096"
  using assms
  by (simp add: pg_round_up_down unat_pg_round_down unat_add_no_overflow minus_mod_eq_div_mult)

section \<open>Translation between physical and kernel virtual addresses\<close>

lemma ptov_eq: "ptov p = Inr v \<longleftrightarrow> p < PHYS_BASE \<and> v = p + PHYS_BASE"
  by (auto simp: ptov_def kbind_Inr_conv)

lemma vtop_eq: "vtop p = Inr v \<longleftrightarrow> PHYS_BASE \<le> p \<and> v = p - PHYS_BASE"
  by (auto simp: vtop_def kbind_Inr_conv is_kernel_vaddr_def)

lemma vtop_bound: "PHYS_BASE \<le> v \<Longrightarrow> unat (v - PHYS_BASE) < 0x40000000"
  using unat_u32_less [of v] by (simp add: layout unat_sub word_le_nat_alt)

lemma vtop_ptov:
  assumes "vtop v = Inr p"
  shows "ptov p = Inr v"
  using assms vtop_bound [of v] by (auto simp: vtop_eq ptov_eq word_less_nat_alt layout)

lemma PTE_ADDR_PGMASK: "PTE_ADDR = NOT PGMASK"
  by (simp add: layout)

lemma aligned_bit:
  assumes "pg_ofs a = 0" "n < 12"
  shows "\<not> bit a n"
proof
  assume "bit a n"
  with \<open>n < 12\<close> have "bit (pg_ofs a) n"
    by (simp add: pg_ofs_def PGMASK_mask bit_simps)
  with assms(1) show False by simp
qed

lemma aligned_PTE_ADDR: "pg_ofs a = 0 \<Longrightarrow> a AND PTE_ADDR = a"
  using pg_round_down_sub [of a] by (simp add: pg_round_down_def PTE_ADDR_PGMASK)

lemma aligned_and_flags:
  "pg_ofs a = 0 \<Longrightarrow> (a OR f) AND PTE_ADDR = a OR (f AND PTE_ADDR)"
  by (simp add: bit.conj_disj_distrib2 aligned_PTE_ADDR)

lemma flag_of_aligned:
  assumes "pg_ofs a = 0" "f AND PGMASK = f"
  shows "a AND f = 0"
proof -
  have "a AND f = pg_ofs a AND f"
    using assms(2) unfolding pg_ofs_def by (metis and.assoc and.commute)
  then show ?thesis using assms by simp
qed

lemma aligned_flags:
  assumes "pg_ofs p = 0"
  shows "p AND PTE_P = 0" "p AND PTE_U = 0" "p AND PTE_W = 0" "p AND PTE_A = 0" "p AND PTE_D = 0"
  by (rule flag_of_aligned [OF assms]; simp add: layout)+

lemma unat_vtop: "PHYS_BASE \<le> v \<Longrightarrow> unat (v - PHYS_BASE) = unat v - 0xc0000000"
  by (simp add: layout unat_sub word_le_nat_alt)

lemma pg_ofs_vtop:
  assumes a: "PHYS_BASE \<le> v"
  shows "pg_ofs (v - PHYS_BASE) = pg_ofs v"
proof (rule word_eqI_unat)
  from a have "786432 * 4096 \<le> unat v" by (simp add: layout word_le_nat_alt)
  then obtain k where k: "unat v = 786432 * 4096 + k" using le_Suc_ex by blast
  then have "unat v mod 4096 = k mod 4096" by (simp only: mod_mult_self3)
  then show "unat (pg_ofs (v - PHYS_BASE)) = unat (pg_ofs v)"
    using a k by (simp add: unat_pg_ofs unat_vtop)
qed

lemma kernel_page_vtop:
  assumes "is_kernel_vaddr page" "pg_ofs page = 0"
  obtains p where "vtop page = Inr p" "ptov p = Inr page" "pg_ofs p = 0"
  using assms vtop_ptov [of page]
  by (auto simp: vtop_eq is_kernel_vaddr_def pg_ofs_vtop)

section \<open>Properties\<close>

text \<open>
  A 32-bit virtual address is exactly its page-directory index, page-table index and page
  offset put together: the three fields lie below 1024, 1024 and 4096, and the address is
  their weighted sum, so the x86 page walk over \<^verbatim>\<open>pd_no\<close>, \<^verbatim>\<open>pt_no\<close> and
  \<^verbatim>\<open>pg_ofs\<close> loses nothing.
\<close>

theorem va_fields:
  "unat va = unat (pd_no va) * 4194304 + unat (pt_no va) * 4096 + unat (pg_ofs va) \<and>
   unat (pd_no va) < 1024 \<and> unat (pt_no va) < 1024 \<and> unat (pg_ofs va) < 4096"
proof -
  have "unat va div 4194304 = unat va div 4096 div 1024"
    by (simp flip: div_mult2_eq)
  with div_mult_mod_eq [of "unat va" 4096] div_mult_mod_eq [of "unat va div 4096" 1024]
  have "unat va = unat va div 4194304 * 4194304 + unat va div 4096 mod 1024 * 4096 + unat va mod 4096"
    by linarith
  then show ?thesis
    using unat_u32_less [of va] by (simp add: unat_fields)
qed

text \<open>
  Round trip of page-table entries: for every page-aligned kernel address,
  \<^verbatim>\<open>pte_create_user\<close> returns an entry from which \<^verbatim>\<open>pte_get_page\<close> recovers the
  page; the entry is present and user-accessible, writable exactly as asked, and starts
  neither accessed nor dirty.
\<close>

theorem pte_create_user_roundtrip:
  assumes "is_kernel_vaddr page" "pg_ofs page = 0"
  shows "\<exists>pte. pte_create_user page w = Inr pte \<and> pte_get_page pte = Inr page \<and>
     pte AND PTE_P \<noteq> 0 \<and> pte AND PTE_U \<noteq> 0 \<and> (pte AND PTE_W \<noteq> 0 \<longleftrightarrow> w) \<and>
     pte AND PTE_A = 0 \<and> pte AND PTE_D = 0"
proof -
  obtain p where v: "vtop page = Inr p" "ptov p = Inr page" and al: "pg_ofs p = 0"
    using assms by (rule kernel_page_vtop)
  show ?thesis
    using assms(2) v aligned_PTE_ADDR [OF al] aligned_flags [OF al]
    by (simp add: pte_create_user_def pte_create_kernel_def pte_get_page_def
        or.assoc bit.conj_disj_distrib2) (simp add: layout)
qed

theorem pte_create_user_roundtrip_witness:
  "is_kernel_vaddr 0xc0100000 \<and> pg_ofs 0xc0100000 = 0 \<and>
   (\<exists>pte. pte_create_user 0xc0100000 True = Inr pte \<and> pte_get_page pte = Inr 0xc0100000)"
  using pte_create_user_roundtrip [of "0xc0100000" True]
  by (auto simp: is_kernel_vaddr_def pg_ofs_def layout)

end
