(* ===== verification/Arithmetic.thy ===== *)
theory Arithmetic
  imports Prelude "HOL-Library.Signed_Division"
begin

text \<open>
  The 64-bit division routines of lib/arithmetic.c, which replace libgcc's
  \<^verbatim>\<open>__udivdi3\<close> and relatives. Division is built from the processor's 64-by-32-bit
  \<^verbatim>\<open>divl\<close>, which traps when the divisor is zero or the quotient does not fit; the
  model returns \<^const>\<open>Divide_error\<close> there. Shown: \<^verbatim>\<open>nlz\<close> counts leading zeros,
  unsigned and signed division return the exact quotient and never trap for a nonzero
  divisor, and the remainder routines return the remainder cut to 32 bits.
\<close>

definition divl :: "u64 \<Rightarrow> u32 \<Rightarrow> u32 outcome" where
  "divl n d =
     (if d = 0 \<or> 2 ^ 32 \<le> unat n div unat d then Inl Divide_error
      else Inr (word_of_nat (unat n div unat d)))"

definition nlz :: "u32 \<Rightarrow> nat" where
  "nlz x =
     (let n = 0;
          (n, x) = (if x \<le> 0x0000FFFF then (n + 16, push_bit 16 x) else (n, x));
          (n, x) = (if x \<le> 0x00FFFFFF then (n + 8, push_bit 8 x) else (n, x));
          (n, x) = (if x \<le> 0x0FFFFFFF then (n + 4, push_bit 4 x) else (n, x));
          (n, x) = (if x \<le> 0x3FFFFFFF then (n + 2, push_bit 2 x) else (n, x))
      in if x \<le> 0x7FFFFFFF then n + 1 else n)"

definition udiv64 :: "u64 \<Rightarrow> u64 \<Rightarrow> u64 outcome" where
  "udiv64 n d =
     (if drop_bit 32 d = 0 then
        (let b = push_bit 32 1 :: u64;
             n1 = ucast (drop_bit 32 n) :: u32;
             n0 = ucast n :: u32;
             d0 = ucast d :: u32
         in if d0 = 0 then Inl Divide_error
            else kbind (divl (b * ucast (n1 mod d0) + ucast n0) d0)
                   (\<lambda>q. Inr (ucast q + b * ucast (n1 div d0))))
      else if n < d then Inr 0
      else
        (let d1 = ucast (drop_bit 32 d) :: u32;
             s = nlz d1
         in kbind (divl (drop_bit 1 n) (ucast (drop_bit 32 (push_bit s d))))
              (\<lambda>q0. let q = ucast (drop_bit (31 - s) q0) :: u64
                    in Inr (if n - (q - 1) * d < d then q - 1 else q))))"

definition umod64 :: "u64 \<Rightarrow> u64 \<Rightarrow> u32 outcome" where
  "umod64 n d = kbind (udiv64 n d) (\<lambda>q. Inr (ucast (n - d * q)))"

text \<open>Signed 64-bit values are words read with \<^const>\<open>sint\<close>.\<close>

definition sdiv64 :: "u64 \<Rightarrow> u64 \<Rightarrow> u64 outcome" where
  "sdiv64 n d =
     (let n_abs = (if 0 \<le> sint n then n else - n);
          d_abs = (if 0 \<le> sint d then d else - d)
      in kbind (udiv64 n_abs d_abs)
           (\<lambda>q_abs. Inr (if (sint n < 0) = (sint d < 0) then q_abs else - q_abs)))"

definition smod64 :: "u64 \<Rightarrow> u64 \<Rightarrow> u32 outcome" where
  "smod64 n d = kbind (sdiv64 n d) (\<lambda>q. Inr (ucast (n - d * q)))"

text \<open>The entry points that the compiler calls widen the results again.\<close>

definition divdi3 :: "u64 \<Rightarrow> u64 \<Rightarrow> u64 outcome" where "divdi3 n d = sdiv64 n d"
definition moddi3 :: "u64 \<Rightarrow> u64 \<Rightarrow> u64 outcome" where
  "moddi3 n d = kbind (smod64 n d) (\<lambda>r. Inr (scast r))"
definition udivdi3 :: "u64 \<Rightarrow> u64 \<Rightarrow> u64 outcome" where "udivdi3 n d = udiv64 n d"
definition umoddi3 :: "u64 \<Rightarrow> u64 \<Rightarrow> u64 outcome" where
  "umoddi3 n d = kbind (umod64 n d) (\<lambda>r. Inr (ucast r))"

section \<open>Leading zeros\<close>

lemma unat_push_bit_no_overflow:
  fixes x :: "'a::len word"
  assumes "unat x * 2 ^ k < 2 ^ LENGTH('a)"
  shows "unat (push_bit k x) = unat x * 2 ^ k"
  using assms
  by (simp only: unsigned_push_bit_eq) (simp add: take_bit_eq_mod push_bit_eq_mult)

text \<open>One halving step: either the value is already large, or shifting makes it large.\<close>

lemma nlz_step:
  fixes x y t :: u32
  assumes "(m, y) = (if x \<le> t then (n + k, push_bit k x) else (n, x))"
    and "unat x = x0 * 2 ^ n" "2 ^ a \<le> unat x" "unat t + 1 = 2 ^ (a + k)" "a + k + k = 32"
  shows "unat y = x0 * 2 ^ m \<and> 2 ^ (a + k) \<le> unat y \<and> m \<le> n + k"
proof (cases "x \<le> t")
  case True
  then have "unat x < 2 ^ (a + k)" using assms(4) by (simp add: word_le_nat_alt)
  then have "unat x * 2 ^ k < 2 ^ (a + k) * 2 ^ k" by simp
  also have "\<dots> = 2 ^ LENGTH(32)" using assms(5) by (simp flip: power_add)
  finally have "unat (push_bit k x) = unat x * 2 ^ k" by (rule unat_push_bit_no_overflow)
  with True assms(1,2,3) show ?thesis by (simp add: power_add)
next
  case False
  with assms show ?thesis by (simp add: word_le_nat_alt)
qed

lemma nlz_spec:
  assumes "x \<noteq> 0"
  shows "nlz x \<le> 31 \<and> 2 ^ 31 \<le> unat x * 2 ^ nlz x \<and> unat x * 2 ^ nlz x < 2 ^ 32"
proof -
  obtain n1 :: nat and x1 :: u32 where
    1: "(n1, x1) = (if x \<le> 0xFFFF then (0 + 16, push_bit 16 x) else (0, x))"
    by (metis surj_pair)
  obtain n2 x2 where 2: "(n2, x2) = (if x1 \<le> 0xFFFFFF then (n1 + 8, push_bit 8 x1) else (n1, x1))"
    by (metis surj_pair)
  obtain n3 x3 where 3: "(n3, x3) = (if x2 \<le> 0xFFFFFFF then (n2 + 4, push_bit 4 x2) else (n2, x2))"
    by (metis surj_pair)
  obtain n4 x4 where 4: "(n4, x4) = (if x3 \<le> 0x3FFFFFFF then (n3 + 2, push_bit 2 x3) else (n3, x3))"
    by (metis surj_pair)
  have nlz: "nlz x = (if x4 \<le> 0x7FFFFFFF then n4 + 1 else n4)"
    unfolding nlz_def Let_def by (simp only: 1 [symmetric] 2 [symmetric] 3 [symmetric] 4 [symmetric] prod.case)
  have "1 \<le> unat x" using assms by (simp add: Suc_le_eq unat_gt_0)
  then have s1: "unat x1 = unat x * 2 ^ n1 \<and> 2 ^ 16 \<le> unat x1 \<and> n1 \<le> 16"
    using nlz_step [OF 1, where a = 0 and ?x0.0 = "unat x"] by simp
  then have s2: "unat x2 = unat x * 2 ^ n2 \<and> 2 ^ 24 \<le> unat x2 \<and> n2 \<le> 24"
    using nlz_step [OF 2, where a = 16 and ?x0.0 = "unat x"] by simp
  then have s3: "unat x3 = unat x * 2 ^ n3 \<and> 2 ^ 28 \<le> unat x3 \<and> n3 \<le> 28"
    using nlz_step [OF 3, where a = 24 and ?x0.0 = "unat x"] by simp
  then have s4: "unat x4 = unat x * 2 ^ n4 \<and> 2 ^ 30 \<le> unat x4 \<and> n4 \<le> 30"
    using nlz_step [OF 4, where a = 28 and ?x0.0 = "unat x"] by simp
  then show ?thesis
    using unat_u32_less [of x4] by (auto simp: nlz word_le_nat_alt)
qed

section \<open>The quotient estimate\<close>

text \<open>
  The normalised divisor \<open>v\<close> has its top bit set; dividing by it and shifting back gives
  the quotient or one more.
\<close>

lemma estimate_bounds:
  fixes N D v t q :: nat
  assumes N: "N < 2 ^ 64" and v: "2 ^ 31 \<le> v" and t: "t = 2 \<or> 4 \<le> t"
    and VD: "v * t \<le> D" and DV: "D < (v + 1) * t" and q: "q = N div (v * t)"
  shows "N div D \<le> q \<and> q \<le> N div D + 1"
proof
  have V: "0 < v * t" using v t by auto
  show "N div D \<le> q" unfolding q using VD V by (rule div_le_mono2 [rotated])
  have "q * (v * t) \<le> N" unfolding q by simp
  have "q * t * 2 ^ 31 \<le> q * t * v" using v by (rule mult_le_mono2)
  also have "\<dots> = q * (v * t)" by (simp add: ac_simps)
  also have "\<dots> < 2 ^ 64" using \<open>q * (v * t) \<le> N\<close> N by (rule le_less_trans)
  finally have qt: "q * t < 2 ^ 33" by simp
  have small: "(q - 1) * (t - 1) \<le> v * t"
  proof (cases "t = 2")
    case True
    with qt v show ?thesis by simp
  next
    case False
    then have "4 \<le> t" using t by simp
    have "(q - 1) * (t - 1) \<le> q * t" by (intro mult_le_mono) auto
    also have "\<dots> \<le> 2 ^ 31 * 4" using qt by simp
    also have "\<dots> \<le> v * t" using v \<open>4 \<le> t\<close> by (intro mult_le_mono) auto
    finally show ?thesis .
  qed
  show "q \<le> N div D + 1"
  proof (cases "q = 0")
    case False
    have "D \<le> v * t + (t - 1)" using DV by (simp add: algebra_simps)
    then have "(q - 1) * D \<le> (q - 1) * (v * t) + (q - 1) * (t - 1)"
      by (metis distrib_left mult_le_mono2)
    also have "\<dots> \<le> (q - 1) * (v * t) + v * t" using small by simp
    also have "\<dots> = q * (v * t)" using False by (cases q) (simp_all add: algebra_simps)
    also have "\<dots> \<le> N" by fact
    finally have "q - 1 \<le> N div D"
      using VD V less_le_trans [OF V VD] by (metis div_le_mono nonzero_mult_div_cancel_right not_less0)
    then show ?thesis by simp
  qed simp
qed

section \<open>Unsigned division\<close>

lemma unat_high_half: "unat (ucast (drop_bit 32 n :: u64) :: u32) = unat n div 4294967296"
  using unat_u64_less [of n]
  by (simp add: unsigned_ucast_eq take_bit_eq_mod drop_bit_eq_div unat_div)

lemma unat_low_half: "unat (ucast (n :: u64) :: u32) = unat n mod 4294967296"
  by (simp add: unsigned_ucast_eq take_bit_eq_mod)

lemma unat_widen: "unat (ucast (x :: u32) :: u64) = unat x"
  using unat_u32_less [of x] by (simp add: unsigned_ucast_eq take_bit_eq_mod)

lemma divl_ok:
  assumes "d \<noteq> 0" "unat n div unat d < 4294967296"
  shows "\<exists>q. divl n d = Inr q \<and> unat q = unat n div unat d"
  using assms by (auto simp: divl_def unat_of_nat)

lemma two_step_div:
  fixes N D B :: nat
  assumes "0 < D"
  shows "N div D = B * (N div B div D) + (B * (N div B mod D) + N mod B) div D"
proof -
  have "N = B * (D * (N div B div D) + N div B mod D) + N mod B" by simp
  also have "\<dots> = B * (N div B mod D) + N mod B + D * (B * (N div B div D))"
    by (simp only: algebra_simps)
  finally have "N div D = (B * (N div B mod D) + N mod B + D * (B * (N div B div D))) div D" by simp
  then show ?thesis using assms by (simp only: div_mult_self2)
qed

lemma two_step_bound:
  fixes N D B :: nat
  assumes "0 < D" "0 < B"
  shows "B * (N div B mod D) + N mod B < B * D"
proof -
  have "B * (N div B mod D) + N mod B < B * Suc (N div B mod D)" using assms(2) by simp
  also have "\<dots> \<le> B * D" using assms(1) by (intro mult_le_mono2) (simp add: Suc_le_eq)
  finally show ?thesis .
qed

lemma unat_join_halves:
  fixes h l :: u32
  shows "unat (push_bit 32 1 * ucast h + ucast l :: u64) = 4294967296 * unat h + unat l"
  using unat_u32_less [of h] unat_u32_less [of l]
  by (simp add: unat_add_no_overflow unat_mult_no_overflow unat_widen)

lemma high_half_zero: "drop_bit 32 d = 0 \<longleftrightarrow> unat (d :: u64) < 4294967296"
  by (simp only: unat_eq_0 [symmetric] unat_drop_bit_eq) (simp add: drop_bit_eq_div div_eq_0_iff)

lemma udiv64_narrow:
  assumes "d \<noteq> 0" "drop_bit 32 d = 0"
  shows "\<exists>q. udiv64 n d = Inr q \<and> unat q = unat n div unat d"
proof -
  let ?B = "4294967296 :: nat" and ?N = "unat n" and ?D = "unat d"
  let ?n1 = "ucast (drop_bit 32 n) :: u32" and ?n0 = "ucast n :: u32" and ?d0 = "ucast d :: u32"
  have D: "0 < ?D" "?D < ?B" using assms by (auto simp: unat_gt_0 high_half_zero)
  have d0: "unat ?d0 = ?D" unfolding unat_low_half using D by simp
  then have "?d0 \<noteq> 0" using D(1) by (metis less_irrefl unat_0)
  let ?m = "push_bit 32 1 * ucast (?n1 mod ?d0) + ucast ?n0 :: u64"
  have m: "unat ?m = ?B * (?N div ?B mod ?D) + ?N mod ?B"
    unfolding unat_join_halves unat_mod d0 unat_high_half unat_low_half [of n] ..
  have "unat ?m < ?D * ?B" unfolding m using two_step_bound [of ?D ?B ?N] D by (simp add: ac_simps)
  then obtain q where q: "divl ?m ?d0 = Inr q" "unat q = unat ?m div ?D"
    using divl_ok [OF \<open>?d0 \<noteq> 0\<close>, of ?m] unfolding d0 by (auto simp: less_mult_imp_div_less ac_simps)
  have "unat (ucast q + push_bit 32 1 * ucast (?n1 div ?d0) :: u64) = ?N div ?D"
    unfolding add.commute [of "ucast q"] unat_join_halves q(2) [unfolded m] unat_div d0 unat_high_half
    using two_step_div [of ?D ?N ?B] D(1) by simp
  then show ?thesis using assms \<open>?d0 \<noteq> 0\<close> q(1) by (simp add: udiv64_def)
qed

text \<open>The normalised divisor of the wide case: its high half and how it brackets \<open>d\<close>.\<close>

lemma normalise_divisor:
  fixes D s :: nat
  defines "B \<equiv> 2 ^ 32 :: nat"
  assumes s: "s \<le> 31" "2 ^ 31 \<le> D div B * 2 ^ s" "D div B * 2 ^ s < 2 ^ 32"
  shows "D * 2 ^ s < 2 ^ 64" "2 ^ 31 \<le> D * 2 ^ s div B" "D * 2 ^ s div B < B"
    "D * 2 ^ s div B * 2 ^ (32 - s) \<le> D" "D < (D * 2 ^ s div B + 1) * 2 ^ (32 - s)"
proof -
  have split: "(2::nat) ^ 32 = 2 ^ (32 - s) * 2 ^ s" using s(1) by (simp flip: power_add)
  have Bpos: "0 < B" by (simp add: B_def)
  from s(3) have "D div B < 2 ^ (32 - s)" unfolding split by simp
  then have "D < 2 ^ (32 - s) * B" using Bpos by (simp add: div_less_iff_less_mult)
  then have "D * 2 ^ s < 2 ^ (32 - s) * B * 2 ^ s" by simp
  also have "\<dots> = 2 ^ 64" using split by (simp add: B_def ac_simps)
  finally show lt: "D * 2 ^ s < 2 ^ 64" .
  have "D div B * 2 ^ s \<le> D * 2 ^ s div B" using Bpos
    by (metis div_mult_mod_eq div_le_mono le_add1 mult.commute mult.left_commute nonzero_mult_div_cancel_left mult_le_mono1 not_less0)
  then show "2 ^ 31 \<le> D * 2 ^ s div B" using s(2) by simp
  show "D * 2 ^ s div B < B" using lt by (simp add: B_def div_less_iff_less_mult)
  have "D * 2 ^ s div B * B \<le> D * 2 ^ s" by simp
  then show "D * 2 ^ s div B * 2 ^ (32 - s) \<le> D" unfolding B_def split by (simp add: mult.assoc [symmetric])
  have "D * 2 ^ s < (D * 2 ^ s div B + 1) * B" using Bpos
    by (metis add.commute mod_less_divisor add_less_cancel_left div_mult_mod_eq distrib_right mult_1)
  then show "D < (D * 2 ^ s div B + 1) * 2 ^ (32 - s)" unfolding B_def split by (simp add: mult.assoc [symmetric])
qed

lemma correction:
  fixes n d q :: u64
  assumes "d \<noteq> 0" "d \<le> n" "unat n div unat d \<le> unat q" "unat q \<le> unat n div unat d + 1"
  shows "unat (if n - (q - 1) * d < d then q - 1 else q) = unat n div unat d"
proof -
  let ?N = "unat n" and ?D = "unat d" and ?Q = "unat n div unat d"
  have D: "0 < ?D" "?D \<le> ?N" using assms(1,2) by (auto simp: unat_gt_0 word_le_nat_alt)
  then have "1 \<le> ?Q" by (simp add: Suc_le_eq div_greater_zero_iff)
  then have q1: "unat (q - 1) = unat q - 1"
    using assms(3) by (subst unat_sub) (auto simp: word_le_nat_alt)
  have "unat q - 1 \<le> ?Q" using assms(4) by simp
  then have "(unat q - 1) * ?D \<le> ?Q * ?D" by (rule mult_le_mono1)
  then have le: "(unat q - 1) * ?D \<le> ?N" using div_times_less_eq_dividend order_trans by blast
  then have p: "unat ((q - 1) * d) = (unat q - 1) * ?D"
    using unat_u64_less [of n] by (subst unat_mult_no_overflow) (simp_all add: q1)
  then have "unat (n - (q - 1) * d) = ?N - (unat q - 1) * ?D"
    using le by (subst unat_sub) (simp_all add: word_le_nat_alt)
  then have lt: "n - (q - 1) * d < d \<longleftrightarrow> ?N - (unat q - 1) * ?D < ?D"
    by (simp add: word_less_nat_alt)
  consider "unat q = ?Q" | "unat q = ?Q + 1" using assms(3,4) by linarith
  then show ?thesis
  proof cases
    case 1
    obtain k where k: "?Q = Suc k" using \<open>1 \<le> ?Q\<close> by (cases ?Q) auto
    then have "k * ?D + ?D \<le> ?N" using div_times_less_eq_dividend [of ?N ?D] by simp
    then have "?D \<le> ?N - (unat q - 1) * ?D" using 1 k by simp
    then have "\<not> n - (q - 1) * d < d" using lt by simp
    then show ?thesis using 1 by simp
  next
    case 2
    have "?N - ?Q * ?D < ?D" using D(1) by (simp add: minus_div_mult_eq_mod)
    then show ?thesis using 2 lt q1 by simp
  qed
qed

lemma udiv64_wide:
  assumes "drop_bit 32 d \<noteq> 0" "d \<le> n"
  shows "\<exists>q. udiv64 n d = Inr q \<and> unat q = unat n div unat d"
proof -
  let ?B = "2 ^ 32 :: nat" and ?N = "unat n" and ?D = "unat d"
  let ?d1 = "ucast (drop_bit 32 d) :: u32"
  define s where "s = nlz ?d1"
  let ?v = "ucast (drop_bit 32 (push_bit s d)) :: u32"
  have d1: "unat ?d1 = ?D div ?B" unfolding unat_high_half by simp
  moreover have "?D div ?B \<noteq> 0" using assms(1) by (simp add: high_half_zero div_eq_0_iff)
  ultimately have "?d1 \<noteq> 0" by (metis unat_0)
  then have s: "s \<le> 31" "2 ^ 31 \<le> ?D div ?B * 2 ^ s" "?D div ?B * 2 ^ s < 2 ^ 32"
    using nlz_spec [of ?d1] unfolding s_def d1 by blast+
  note norm = normalise_divisor [OF s]
  have "unat (push_bit s d) = ?D * 2 ^ s"
    by (rule unat_push_bit_no_overflow) (use norm(1) in simp)
  then have v: "unat ?v = ?D * 2 ^ s div ?B" unfolding unat_high_half by simp
  have "?v \<noteq> 0" using norm(2) v by (metis unat_0 le_zero_eq power_not_zero zero_neq_numeral)
  have n2: "unat (drop_bit 1 n) = ?N div 2" by (simp add: drop_bit_eq_div unat_div)
  have "?N div 2 < unat ?v * ?B"
  proof -
    have "?N div 2 < 2 ^ 31 * ?B" using unat_u64_less [of n] by simp
    also have "\<dots> \<le> unat ?v * ?B" using norm(2) v by (intro mult_le_mono1) simp
    finally show ?thesis .
  qed
  then have "?N div 2 div unat ?v < 4294967296" by (simp add: less_mult_imp_div_less ac_simps)
  with divl_ok [OF \<open>?v \<noteq> 0\<close>, of "drop_bit 1 n", unfolded n2]
  obtain q0 where q0: "divl (drop_bit 1 n) ?v = Inr q0" "unat q0 = ?N div 2 div unat ?v"
    by blast
  let ?q = "ucast (drop_bit (31 - s) q0) :: u64"
  have "(2::nat) ^ (32 - s) = 2 * 2 ^ (31 - s)"
    using s(1) by (simp add: Suc_diff_le flip: power_Suc)
  then have q: "unat ?q = ?N div (unat ?v * 2 ^ (32 - s))"
    unfolding unat_widen unat_drop_bit_eq q0(2)
    by (simp add: drop_bit_eq_div div_mult2_eq [symmetric] ac_simps)
  have t: "(2::nat) ^ (32 - s) = 2 \<or> 4 \<le> (2::nat) ^ (32 - s)"
  proof (cases "s = 31")
    case False
    then have "(2::nat) ^ 2 \<le> 2 ^ (32 - s)" using s(1) by (intro power_increasing) auto
    then show ?thesis by simp
  qed simp
  have "?N div ?D \<le> unat ?q \<and> unat ?q \<le> ?N div ?D + 1"
    using norm(2,4,5) by (intro estimate_bounds [OF _ _ t, of _ "unat ?v"])
      (use q v unat_u64_less [of n] in simp_all)
  moreover have "d \<noteq> 0" using assms(1) by auto
  ultimately have "unat (if n - (?q - 1) * d < d then ?q - 1 else ?q) = ?N div ?D"
    using assms(2) by (intro correction) auto
  moreover have "udiv64 n d = Inr (if n - (?q - 1) * d < d then ?q - 1 else ?q)"
    unfolding udiv64_def Let_def s_def [symmetric] using assms q0(1) by (simp add: leD)
  ultimately show ?thesis by blast
qed

lemma udiv64_ok:
  assumes "d \<noteq> 0"
  shows "udiv64 n d = Inr (n div d)"
proof -
  have "\<exists>q. udiv64 n d = Inr q \<and> unat q = unat n div unat d"
  proof (cases "drop_bit 32 d = 0 \<or> d \<le> n")
    case True
    then show ?thesis using udiv64_narrow [OF assms] udiv64_wide by blast
  next
    case False
    then show ?thesis by (auto simp: udiv64_def word_less_nat_alt not_le)
  qed
  then show ?thesis by (auto intro!: word_eqI_unat simp: unat_div)
qed

section \<open>Signed values\<close>

lemma sint_u64_range: "- (2 ^ 63) \<le> sint (w :: u64) \<and> sint w < 2 ^ 63"
  using sint_range_size [of w] by (simp add: word_size)

lemma sint_of_int_u64:
  assumes "- (2 ^ 63) \<le> x" "x < 2 ^ 63"
  shows "sint (word_of_int x :: u64) = x"
  using assms by (simp add: int_word_sint)

lemma abs_u64: "(if 0 \<le> sint n then n else - n) = (word_of_int \<bar>sint n\<bar> :: u64)"
  by (simp add: of_int_sint)

lemma udiv_of_int:
  assumes "0 \<le> x" "x < 2 ^ 64" "0 \<le> y" "y < 2 ^ 64"
  shows "(word_of_int x :: u64) div word_of_int y = word_of_int (x div y)"
  using assms by (simp add: word_div_def uint_word_of_int)

lemma sdiv_abs: "(a :: int) sdiv b = (if (a < 0) = (b < 0) then \<bar>a\<bar> div \<bar>b\<bar> else - (\<bar>a\<bar> div \<bar>b\<bar>))"
  by (auto simp: signed_divide_int_def sgn_if)

section \<open>Properties\<close>

text \<open>
  C40. Unsigned 64-bit division is exact and does not trap: for every nonzero divisor,
  \<^verbatim>\<open>__udivdi3\<close> returns the quotient rounded down, in both the narrow and the wide case;
  for a zero divisor it raises the divide error.
\<close>

theorem udivdi3_correct:
  "udivdi3 n d = (if d = 0 then Inl Divide_error else Inr (n div d))"
  by (simp add: udivdi3_def udiv64_ok) (simp add: udiv64_def)

text \<open>
  Signed 64-bit division truncates towards zero as C requires: for every nonzero divisor
  \<^verbatim>\<open>__divdi3\<close> returns, without trapping, the quotient of the signed values, except for the
  one overflowing case of the least value divided by -1.
\<close>

theorem divdi3_correct:
  assumes "d \<noteq> 0" "\<not> (sint n = - (2 ^ 63) \<and> sint d = -1)"
  shows "\<exists>q. divdi3 n d = Inr q \<and> sint q = sint n sdiv sint d"
proof -
  let ?a = "sint n" and ?b = "sint d"
  let ?q = "\<bar>?a\<bar> div \<bar>?b\<bar>"
  have ab: "\<bar>?a\<bar> \<le> 2 ^ 63" "\<bar>?b\<bar> \<le> 2 ^ 63" using sint_u64_range [of n] sint_u64_range [of d] by auto
  have "word_of_int ?b = d" by simp
  then have b0: "?b \<noteq> 0" using assms(1) by (metis of_int_0)
  have le: "?q \<le> \<bar>?a\<bar>" using zdiv_mono2 [of "\<bar>?a\<bar>" 1 "\<bar>?b\<bar>"] b0 by simp
  have q0: "0 \<le> ?q" using b0 by (simp add: div_int_pos_iff)
  have "word_of_int \<bar>?b\<bar> \<noteq> (0 :: u64)" using abs_u64 [of d] assms(1) by (metis neg_equal_0_iff_equal)
  then have "udiv64 (word_of_int \<bar>?a\<bar>) (word_of_int \<bar>?b\<bar>) = Inr (word_of_int ?q)"
    using ab by (simp add: udiv64_ok udiv_of_int)
  then have "divdi3 n d = Inr (word_of_int (?a sdiv ?b))"
    by (simp add: divdi3_def sdiv64_def abs_u64 sdiv_abs)
  moreover have "?a sdiv ?b < 2 ^ 63"
  proof (cases "\<bar>?b\<bar> = 1")
    case True
    then show ?thesis using assms(2) sint_u64_range [of n] by (auto simp: sdiv_abs abs_if split: if_splits)
  next
    case False
    then have "?q \<le> \<bar>?a\<bar> div 2" using b0 by (intro zdiv_mono2) auto
    moreover note q0
    moreover have "\<bar>?a\<bar> div 2 < 2 ^ 63" using zdiv_mono1 [OF ab(1), of 2] by simp
    ultimately have "?q < 2 ^ 63" "- ?q < 2 ^ 63" by linarith+
    then show ?thesis unfolding sdiv_abs by (simp split: if_splits)
  qed
  moreover have "- (2 ^ 63) \<le> ?a sdiv ?b"
  proof -
    have "- (2 ^ 63) \<le> - ?q" "- (2 ^ 63) \<le> ?q" using le ab(1) q0 by linarith+
    then show ?thesis unfolding sdiv_abs by (simp split: if_splits)
  qed
  ultimately show ?thesis by (simp add: sint_of_int_u64)
qed

theorem divdi3_correct_witness:
  "(2 :: u64) \<noteq> 0 \<and> (\<exists>q. divdi3 (- 7) 2 = Inr q \<and> sint q = - 3)"
  using divdi3_correct [of 2 "- 7"] by (simp add: sdiv_abs)

text \<open>
  The remainder routines keep only 32 bits: \<^verbatim>\<open>__umoddi3\<close> returns the remainder
  reduced modulo \<open>2 ^ 32\<close>, so a remainder of \<open>2 ^ 32\<close> or more is not returned.
\<close>

theorem umoddi3_truncates:
  assumes "d \<noteq> 0"
  shows "umoddi3 n d = Inr ((n mod d) mod 4294967296)"
proof -
  have "n - d * (n div d) = n mod d" by (simp add: minus_mult_div_eq_mod)
  moreover have "ucast (ucast w :: u32) = w mod 4294967296" for w :: u64
    by (rule word_eqI_unat) (simp add: unat_widen unat_low_half unat_mod)
  ultimately show ?thesis
    using assms unfolding umoddi3_def umod64_def by (simp add: udiv64_ok)
qed
theorem umoddi3_truncates_witness:
  "umoddi3 0x100000000 0x200000000 = Inr 0 \<and> (0x100000000 :: u64) mod 0x200000000 = 0x100000000"
  using umoddi3_truncates [of "0x200000000" "0x100000000"] by simp

end
