(* ===== verification/KList.thy ===== *)
theory KList
  imports Prelude
begin

text \<open>
  The kernel's doubly linked lists, lib/kernel/list.c. Elements live in a heap from
  addresses to \<^verbatim>\<open>struct list_elem\<close>; a \<^verbatim>\<open>struct list\<close> is given by the addresses
  of its two header elements. Every operation is the sequence of pointer assignments of the
  source, so aliasing is explicit. A loop that follows links may run forever on a damaged
  list: such operations have type \<open>'a run\<close>, in which \<^const>\<open>None\<close> means that
  the loop does not end.

  The predicate \<open>dll h l xs\<close> says that list \<open>l\<close> is well formed in heap \<open>h\<close> and holds
  exactly the elements \<open>xs\<close>. Each operation is shown to return, to keep its list well formed,
  to act on \<open>xs\<close> as the comment in the source promises, and to change nothing outside.
\<close>

section \<open>Data\<close>

record list_elem =
  prv :: addr
  nxt :: addr

type_synonym heap = "addr \<Rightarrow> list_elem"

record klist =
  head :: addr
  tail :: addr

definition set_prev :: "heap \<Rightarrow> addr \<Rightarrow> addr \<Rightarrow> heap" where
  "set_prev h a v = h(a := (h a)\<lparr>prv := v\<rparr>)"

definition set_next :: "heap \<Rightarrow> addr \<Rightarrow> addr \<Rightarrow> heap" where
  "set_next h a v = h(a := (h a)\<lparr>nxt := v\<rparr>)"

section \<open>Operations without loops\<close>

definition is_head :: "heap \<Rightarrow> addr \<Rightarrow> bool" where
  "is_head h elem \<longleftrightarrow> elem \<noteq> NULL \<and> prv (h elem) = NULL \<and> nxt (h elem) \<noteq> NULL"

definition is_interior :: "heap \<Rightarrow> addr \<Rightarrow> bool" where
  "is_interior h elem \<longleftrightarrow> elem \<noteq> NULL \<and> prv (h elem) \<noteq> NULL \<and> nxt (h elem) \<noteq> NULL"

definition list_is_interior :: "heap \<Rightarrow> addr \<Rightarrow> bool" where
  "list_is_interior h elem = is_interior h elem"

definition is_tail :: "heap \<Rightarrow> addr \<Rightarrow> bool" where
  "is_tail h elem \<longleftrightarrow> elem \<noteq> NULL \<and> prv (h elem) \<noteq> NULL \<and> nxt (h elem) = NULL"

definition list_init :: "heap \<Rightarrow> klist \<Rightarrow> heap" where
  "list_init h l =
     (let h = set_prev h (head l) NULL;
          h = set_next h (head l) (tail l);
          h = set_prev h (tail l) (head l)
      in set_next h (tail l) NULL)"

definition list_begin :: "heap \<Rightarrow> klist \<Rightarrow> addr" where
  "list_begin h l = nxt (h (head l))"

definition list_next :: "heap \<Rightarrow> addr \<Rightarrow> addr outcome" where
  "list_next h elem =
     kbind (kassert (is_head h elem \<or> is_interior h elem)) (\<lambda>_. Inr (nxt (h elem)))"

definition list_end :: "klist \<Rightarrow> addr" where "list_end l = tail l"

definition list_rbegin :: "heap \<Rightarrow> klist \<Rightarrow> addr" where
  "list_rbegin h l = prv (h (tail l))"

definition list_prev :: "heap \<Rightarrow> addr \<Rightarrow> addr outcome" where
  "list_prev h elem =
     kbind (kassert (is_interior h elem \<or> is_tail h elem)) (\<lambda>_. Inr (prv (h elem)))"

definition list_rend :: "klist \<Rightarrow> addr" where "list_rend l = head l"
definition list_head :: "klist \<Rightarrow> addr" where "list_head l = head l"
definition list_tail :: "klist \<Rightarrow> addr" where "list_tail l = tail l"

definition list_insert :: "heap \<Rightarrow> addr \<Rightarrow> addr \<Rightarrow> heap outcome" where
  "list_insert h before elem =
     kbind (kassert (is_interior h before \<or> is_tail h before)) (\<lambda>_.
     kbind (kassert (elem \<noteq> NULL)) (\<lambda>_.
       let h = set_prev h elem (prv (h before));
           h = set_next h elem before;
           h = set_next h (prv (h before)) elem
       in Inr (set_prev h before elem)))"

definition list_splice :: "heap \<Rightarrow> addr \<Rightarrow> addr \<Rightarrow> addr \<Rightarrow> heap outcome" where
  "list_splice h before first lst =
     kbind (kassert (is_interior h before \<or> is_tail h before)) (\<lambda>_.
     if first = lst then Inr h
     else
       kbind (list_prev h lst) (\<lambda>lst.
       kbind (kassert (is_interior h first)) (\<lambda>_.
       kbind (kassert (is_interior h lst)) (\<lambda>_.
         let h = set_next h (prv (h first)) (nxt (h lst));
             h = set_prev h (nxt (h lst)) (prv (h first));
             h = set_prev h first (prv (h before));
             h = set_next h lst before;
             h = set_next h (prv (h before)) first
         in Inr (set_prev h before lst)))))"

definition list_push_front :: "heap \<Rightarrow> klist \<Rightarrow> addr \<Rightarrow> heap outcome" where
  "list_push_front h l elem = list_insert h (list_begin h l) elem"

definition list_push_back :: "heap \<Rightarrow> klist \<Rightarrow> addr \<Rightarrow> heap outcome" where
  "list_push_back h l elem = list_insert h (list_end l) elem"

definition list_remove :: "heap \<Rightarrow> addr \<Rightarrow> (heap \<times> addr) outcome" where
  "list_remove h elem =
     kbind (kassert (is_interior h elem)) (\<lambda>_.
       let h = set_next h (prv (h elem)) (nxt (h elem));
           h = set_prev h (nxt (h elem)) (prv (h elem))
       in Inr (h, nxt (h elem)))"

definition list_empty :: "heap \<Rightarrow> klist \<Rightarrow> bool" where
  "list_empty h l \<longleftrightarrow> list_begin h l = list_end l"

definition list_front :: "heap \<Rightarrow> klist \<Rightarrow> addr outcome" where
  "list_front h l = kbind (kassert (\<not> list_empty h l)) (\<lambda>_. Inr (nxt (h (head l))))"

definition list_back :: "heap \<Rightarrow> klist \<Rightarrow> addr outcome" where
  "list_back h l = kbind (kassert (\<not> list_empty h l)) (\<lambda>_. Inr (prv (h (tail l))))"

definition list_pop_front :: "heap \<Rightarrow> klist \<Rightarrow> (heap \<times> addr) outcome" where
  "list_pop_front h l =
     kbind (list_front h l) (\<lambda>front. kbind (list_remove h front) (\<lambda>(h, _). Inr (h, front)))"

definition list_pop_back :: "heap \<Rightarrow> klist \<Rightarrow> (heap \<times> addr) outcome" where
  "list_pop_back h l =
     kbind (list_back h l) (\<lambda>back. kbind (list_remove h back) (\<lambda>(h, _). Inr (h, back)))"

section \<open>Operations with loops\<close>

partial_function (option) list_size_loop :: "heap \<Rightarrow> klist \<Rightarrow> addr \<Rightarrow> nat \<Rightarrow> nat run" where
  "list_size_loop h l e cnt =
     (if e = list_end l then Some (Inr cnt)
      else rbind (Some (list_next h e)) (\<lambda>e'. list_size_loop h l e' (cnt + 1)))"

definition list_size :: "heap \<Rightarrow> klist \<Rightarrow> nat run" where
  "list_size h l = list_size_loop h l (list_begin h l) 0"

text \<open>\<^verbatim>\<open>swap (&e->prev, &e->next)\<close> and the two cross-element swaps of \<^verbatim>\<open>list_reverse\<close>.\<close>

definition swap_links :: "heap \<Rightarrow> addr \<Rightarrow> heap" where
  "swap_links h e = (let t = prv (h e); h = set_prev h e (nxt (h e)) in set_next h e t)"

definition swap_next_prev :: "heap \<Rightarrow> addr \<Rightarrow> addr \<Rightarrow> heap" where
  "swap_next_prev h a b = (let t = nxt (h a); h = set_next h a (prv (h b)) in set_prev h b t)"

definition swap_prev_next :: "heap \<Rightarrow> addr \<Rightarrow> addr \<Rightarrow> heap" where
  "swap_prev_next h a b = (let t = prv (h a); h = set_prev h a (nxt (h b)) in set_next h b t)"

partial_function (option) list_reverse_loop :: "heap \<Rightarrow> klist \<Rightarrow> addr \<Rightarrow> heap run" where
  "list_reverse_loop h l e =
     (if e = list_end l then Some (Inr h)
      else let h = swap_links h e in list_reverse_loop h l (prv (h e)))"

definition list_reverse :: "heap \<Rightarrow> klist \<Rightarrow> heap run" where
  "list_reverse h l =
     (if list_empty h l then Some (Inr h)
      else rbind (list_reverse_loop h l (list_begin h l)) (\<lambda>h.
        let h = swap_next_prev h (head l) (tail l)
        in Some (Inr (swap_prev_next h (nxt (h (head l))) (prv (h (tail l)))))))"

section \<open>Well-formed lists\<close>

lemma set_links [simp]:
  "prv (set_prev h a v b) = (if b = a then v else prv (h b))"
  "nxt (set_prev h a v b) = nxt (h b)"
  "prv (set_next h a v b) = prv (h b)"
  "nxt (set_next h a v b) = (if b = a then v else nxt (h b))"
  by (simp_all add: set_prev_def set_next_def)

lemma set_other:
  "b \<noteq> a \<Longrightarrow> set_prev h a v b = h b" "b \<noteq> a \<Longrightarrow> set_next h a v b = h b"
  by (simp_all add: set_prev_def set_next_def)

fun linked :: "heap \<Rightarrow> addr list \<Rightarrow> bool" where
  "linked h (a # b # cs) \<longleftrightarrow> nxt (h a) = b \<and> prv (h b) = a \<and> linked h (b # cs)"
| "linked h _ \<longleftrightarrow> True"

text \<open>A null-terminated chain of distinct elements in both directions.\<close>

definition chain :: "heap \<Rightarrow> addr list \<Rightarrow> bool" where
  "chain h as \<longleftrightarrow> distinct as \<and> NULL \<notin> set as \<and> linked h as \<and>
     prv (h (hd as)) = NULL \<and> nxt (h (List.last as)) = NULL"

definition nodes :: "klist \<Rightarrow> addr list \<Rightarrow> addr list" where
  "nodes l xs = head l # xs @ [tail l]"

definition dll :: "heap \<Rightarrow> klist \<Rightarrow> addr list \<Rightarrow> bool" where
  "dll h l xs \<longleftrightarrow> chain h (nodes l xs)"

lemma linked_append: "linked h (as @ p # bs) \<longleftrightarrow> linked h (as @ [p]) \<and> linked h (p # bs)"
  by (induction h as rule: linked.induct) (auto split: list.splits)

lemma linked_split:
  "linked h (as @ p # b # cs) \<longleftrightarrow>
     linked h (as @ [p]) \<and> nxt (h p) = b \<and> prv (h b) = p \<and> linked h (b # cs)"
  by (subst linked_append) simp

lemma linked_Cons:
  "bs \<noteq> [] \<Longrightarrow> linked h (a # bs) \<longleftrightarrow> nxt (h a) = hd bs \<and> prv (h (hd bs)) = a \<and> linked h bs"
  by (cases bs) auto

lemma linked_snoc:
  "bs \<noteq> [] \<Longrightarrow> linked h (bs @ [c]) \<longleftrightarrow>
     linked h bs \<and> nxt (h (List.last bs)) = c \<and> prv (h c) = List.last bs"
  by (cases bs rule: rev_cases) (auto simp: linked_split)

lemma linked_cong:
  assumes "\<forall>a \<in> set (butlast as). nxt (h' a) = nxt (h a)" "\<forall>a \<in> set (tl as). prv (h' a) = prv (h a)"
  shows "linked h' as = linked h as"
  using assms by (induction h as rule: linked.induct) (auto split: if_splits)

lemma linked_left:
  assumes "\<forall>a \<in> set as. nxt (h' a) = nxt (h a)" "\<forall>a \<in> insert p (set as). prv (h' a) = prv (h a)"
  shows "linked h' (as @ [p]) = linked h (as @ [p])"
  using assms by (intro linked_cong) (cases as; auto)+

lemma linked_right:
  assumes "\<forall>a \<in> insert b (set cs). nxt (h' a) = nxt (h a)" "\<forall>a \<in> set cs. prv (h' a) = prv (h a)"
  shows "linked h' (b # cs) = linked h (b # cs)"
  using assms by (intro linked_cong) (auto dest: in_set_butlastD split: if_splits)

text \<open>The positions of an element: what its links are and which tests it passes.\<close>

lemma chain_pair:
  assumes "chain h (as @ p # b # cs)"
  shows "nxt (h p) = b" "prv (h b) = p" "p \<noteq> NULL" "b \<noteq> NULL" "p \<noteq> b"
    "p \<notin> set as" "p \<notin> set cs" "b \<notin> set as" "b \<notin> set cs"
  using assms by (auto simp: chain_def linked_split)

lemma chain_next:
  assumes "chain h (as @ p # b # cs)"
  shows "is_head h p \<or> is_interior h p" "list_next h p = Inr b"
    "is_interior h b \<or> is_tail h b" "list_prev h b = Inr p"
  using chain_pair [OF assms]
  by (auto simp: is_head_def is_interior_def is_tail_def list_next_def list_prev_def)

lemma chain_interior:
  assumes "chain h (as @ p # e # b # cs)"
  shows "is_interior h e"
  using chain_pair [OF assms] chain_pair [of h "as @ [p]" e b cs] assms
  by (auto simp: is_interior_def)

definition insert_heap :: "heap \<Rightarrow> addr \<Rightarrow> addr \<Rightarrow> addr \<Rightarrow> heap" where
  "insert_heap h p e b = set_prev (set_next (set_next (set_prev h e p) e b) p e) b e"

lemma chain_insert:
  assumes c: "chain h (as @ p # b # cs)" and e: "e \<noteq> NULL" "e \<notin> set (as @ p # b # cs)"
  shows "list_insert h b e = Inr (insert_heap h p e b)"
    "chain (insert_heap h p e b) (as @ p # e # b # cs)"
proof -
  note pr = chain_pair [OF c] chain_next [OF c]
  show "list_insert h b e = Inr (insert_heap h p e b)"
    using pr e by (auto simp: list_insert_def insert_heap_def Let_def)
  let ?h = "insert_heap h p e b"
  have "linked ?h (as @ [p]) = linked h (as @ [p])" "linked ?h (b # cs) = linked h (b # cs)"
    using pr(5-9) e by (intro linked_left linked_right; auto simp: insert_heap_def)+
  moreover have "linked h (as @ [p]) \<and> linked h (b # cs)"
    using c by (simp add: chain_def linked_split)
  ultimately have "linked ?h (as @ p # e # b # cs)"
    using pr e by (subst linked_split) (auto simp: insert_heap_def)
  then show "chain ?h (as @ p # e # b # cs)"
    using c e by (cases as; cases cs rule: rev_cases) (auto simp: chain_def insert_heap_def)
qed

definition remove_heap :: "heap \<Rightarrow> addr \<Rightarrow> addr \<Rightarrow> heap" where
  "remove_heap h p b = set_prev (set_next h p b) b p"

lemma chain_remove:
  assumes c: "chain h (as @ p # e # b # cs)"
  shows "list_remove h e = Inr (remove_heap h p b, b)" "chain (remove_heap h p b) (as @ p # b # cs)"
proof -
  note pr = chain_pair [OF c] chain_pair [of h "as @ [p]" e b cs] chain_interior [OF c]
  show "list_remove h e = Inr (remove_heap h p b, b)"
    using pr c by (auto simp: list_remove_def remove_heap_def Let_def)
  let ?h = "remove_heap h p b"
  have d: "p \<notin> set cs" "b \<notin> set as" using c by (auto simp: chain_def)
  have "linked ?h (as @ [p]) = linked h (as @ [p])" "linked ?h (b # cs) = linked h (b # cs)"
    using d c by (intro linked_left linked_right; auto simp: remove_heap_def chain_def)+
  moreover have "linked h (as @ [p]) \<and> linked h (b # cs)"
    using c by (simp add: chain_def linked_split)
  ultimately have "linked ?h (as @ p # b # cs)"
    using pr by (subst linked_split) (auto simp: remove_heap_def)
  then show "chain ?h (as @ p # b # cs)"
    using c by (cases as; cases cs rule: rev_cases) (auto simp: chain_def remove_heap_def)
qed

section \<open>Operations on well-formed lists\<close>

text \<open>Nothing outside a set of addresses changes; other lists are then untouched.\<close>

definition same_outside :: "addr set \<Rightarrow> heap \<Rightarrow> heap \<Rightarrow> bool" where
  "same_outside A h h' \<longleftrightarrow> (\<forall>a. a \<notin> A \<longrightarrow> h' a = h a)"

lemma dll_frame:
  assumes "dll h l xs" "same_outside A h h'" "A \<inter> set (nodes l xs) = {}"
  shows "dll h' l xs"
proof -
  have eq: "h' a = h a" if "a \<in> set (nodes l xs)" for a
    using assms(2,3) that by (auto simp: same_outside_def)
  then have "linked h' (nodes l xs) = linked h (nodes l xs)"
    by (intro linked_cong) (auto dest: in_set_butlastD simp: nodes_def)
  then show ?thesis using assms(1) eq by (auto simp: dll_def chain_def nodes_def)
qed

lemma nodes_split:
  obtains as p b cs where "nodes l (xs @ ys) = as @ p # b # cs"
    "head l # xs = as @ [p]" "ys @ [tail l] = b # cs"
proof -
  obtain as p where "head l # xs = as @ [p]" by (cases "head l # xs" rule: rev_cases) auto
  moreover obtain b cs where "ys @ [tail l] = b # cs" by (cases "ys @ [tail l]") auto
  moreover have "nodes l (xs @ ys) = (head l # xs) @ (ys @ [tail l])" by (simp add: nodes_def)
  ultimately show thesis using that by auto
qed

lemma dll_init:
  assumes "head l \<noteq> NULL" "tail l \<noteq> NULL" "head l \<noteq> tail l"
  shows "dll (list_init h l) l [] \<and> same_outside {head l, tail l} h (list_init h l)"
  using assms
  by (auto simp: dll_def chain_def nodes_def list_init_def Let_def same_outside_def set_other)

lemma dll_insert:
  assumes "dll h l (xs @ ys)" "e \<noteq> NULL" "e \<notin> set (nodes l (xs @ ys))"
  shows "\<exists>h'. list_insert h (hd (ys @ [tail l])) e = Inr h' \<and> dll h' l (xs @ e # ys) \<and>
    same_outside (insert e (set (nodes l (xs @ ys)))) h h'"
proof -
  obtain as p b cs where n: "nodes l (xs @ ys) = as @ p # b # cs"
    and hs: "head l # xs = as @ [p]" "ys @ [tail l] = b # cs" by (rule nodes_split)
  have "nodes l (xs @ e # ys) = (head l # xs) @ e # (ys @ [tail l])" by (simp add: nodes_def)
  then have n': "nodes l (xs @ e # ys) = as @ p # e # b # cs" by (simp only: hs append.simps append_assoc)
  show ?thesis
    using chain_insert [of h as p b cs e] assms unfolding dll_def n n' hs(2)
    by (auto simp: same_outside_def insert_heap_def set_other)
qed

lemma dll_remove:
  assumes "dll h l (xs @ e # ys)"
  shows "\<exists>h'. list_remove h e = Inr (h', hd (ys @ [tail l])) \<and> dll h' l (xs @ ys) \<and>
    same_outside (set (nodes l (xs @ e # ys))) h h'"
proof -
  obtain as p b cs where n: "nodes l (xs @ ys) = as @ p # b # cs"
    and hs: "head l # xs = as @ [p]" "ys @ [tail l] = b # cs" by (rule nodes_split)
  have "nodes l (xs @ e # ys) = (head l # xs) @ e # (ys @ [tail l])" by (simp add: nodes_def)
  then have n': "nodes l (xs @ e # ys) = as @ p # e # b # cs" by (simp only: hs append.simps append_assoc)
  show ?thesis
    using chain_remove [of h as p e b cs] assms unfolding dll_def n n' hs(2)
    by (auto simp: same_outside_def remove_heap_def set_other)
qed

lemma dll_begin: "dll h l xs \<Longrightarrow> list_begin h l = hd (xs @ [tail l])"
  by (cases xs) (auto simp: dll_def chain_def nodes_def list_begin_def)

lemma dll_rbegin: "dll h l xs \<Longrightarrow> list_rbegin h l = List.last (head l # xs)"
proof -
  assume d: "dll h l xs"
  obtain as p b cs where n: "nodes l (xs @ []) = as @ p # b # cs"
    and hs: "head l # xs = as @ [p]" "[] @ [tail l] = b # cs" by (rule nodes_split)
  show ?thesis
    using chain_pair(2) [of h as p b cs] d n hs by (simp add: dll_def list_rbegin_def del: last.simps)
qed

lemma dll_empty: "dll h l xs \<Longrightarrow> list_empty h l \<longleftrightarrow> xs = []"
  by (cases xs) (auto simp: list_empty_def list_begin_def list_end_def dll_def chain_def nodes_def)

lemma dll_next: "dll h l (xs @ e # ys) \<Longrightarrow> list_next h e = Inr (hd (ys @ [tail l]))"
  using chain_next(2) [of h "head l # xs" e "hd (ys @ [tail l])" "tl (ys @ [tail l])"]
  by (simp add: dll_def nodes_def)

lemma dll_prev: "dll h l (xs @ ys) \<Longrightarrow> list_prev h (hd (ys @ [tail l])) = Inr (List.last (head l # xs))"
proof -
  assume d: "dll h l (xs @ ys)"
  obtain as p b cs where n: "nodes l (xs @ ys) = as @ p # b # cs"
    and hs: "head l # xs = as @ [p]" "ys @ [tail l] = b # cs" by (rule nodes_split)
  show ?thesis
    using chain_next(4) [of h as p b cs] d n hs by (simp add: dll_def del: last.simps)
qed

lemma dll_notin: "dll h l (xs @ e # ys) \<Longrightarrow> e \<noteq> tail l \<and> e \<noteq> head l \<and> e \<noteq> NULL"
  by (auto simp: dll_def chain_def nodes_def)

lemma dll_push_back:
  assumes "dll h l xs" "e \<noteq> NULL" "e \<notin> set (nodes l xs)"
  shows "\<exists>h'. list_push_back h l e = Inr h' \<and> dll h' l (xs @ [e]) \<and>
    same_outside (insert e (set (nodes l xs))) h h'"
  using dll_insert [of h l xs "[]" e] assms by (simp add: list_push_back_def list_end_def)

lemma dll_push_front:
  assumes "dll h l xs" "e \<noteq> NULL" "e \<notin> set (nodes l xs)"
  shows "\<exists>h'. list_push_front h l e = Inr h' \<and> dll h' l (e # xs) \<and>
    same_outside (insert e (set (nodes l xs))) h h'"
  using dll_insert [of h l "[]" xs e] assms by (simp add: list_push_front_def dll_begin)

lemma dll_pop_front:
  assumes "dll h l (e # xs)"
  shows "\<exists>h'. list_pop_front h l = Inr (h', e) \<and> dll h' l xs \<and>
    same_outside (set (nodes l (e # xs))) h h'"
  using dll_remove [of h l "[]" e xs] dll_begin [OF assms] assms
  by (auto simp: list_pop_front_def list_front_def dll_empty list_begin_def)

lemma dll_pop_back:
  assumes "dll h l (xs @ [e])"
  shows "\<exists>h'. list_pop_back h l = Inr (h', e) \<and> dll h' l xs \<and>
    same_outside (set (nodes l (xs @ [e]))) h h'"
  using dll_remove [of h l xs e "[]"] dll_rbegin [OF assms] assms
  by (auto simp: list_pop_back_def list_back_def dll_empty list_rbegin_def)

lemma list_size_loop_eq:
  "dll h l (xs @ ys) \<Longrightarrow> list_size_loop h l (hd (ys @ [tail l])) n = Some (Inr (n + length ys))"
proof (induction ys arbitrary: xs n)
  case Nil
  then show ?case by (simp add: list_size_loop.simps list_end_def)
next
  case (Cons e ys)
  from Cons.IH [of "xs @ [e]" "n + 1"] Cons.prems show ?case
    using dll_next [OF Cons.prems] dll_notin [OF Cons.prems]
    by (subst list_size_loop.simps) (simp add: list_end_def)
qed

lemma dll_size: "dll h l xs \<Longrightarrow> list_size h l = Some (Inr (length xs))"
  using list_size_loop_eq [of h l "[]" xs 0] by (simp add: list_size_def dll_begin)

section \<open>Reversal\<close>

definition flip :: "list_elem \<Rightarrow> list_elem" where
  "flip r = \<lparr>prv = nxt r, nxt = prv r\<rparr>"

lemma flip_sel [simp]: "prv (flip r) = nxt r" "nxt (flip r) = prv r"
  by (simp_all add: flip_def)

lemma swap_links_flip: "swap_links h e = h(e := flip (h e))"
  by (rule ext) (simp add: swap_links_def Let_def set_prev_def set_next_def flip_def)

lemma list_reverse_loop_eq:
  assumes "linked h (ys @ [tail l])" "distinct (ys @ [tail l])"
  shows "list_reverse_loop h l (hd (ys @ [tail l])) =
    Some (Inr (\<lambda>a. if a \<in> set ys then flip (h a) else h a))"
  using assms
proof (induction ys arbitrary: h)
  case Nil
  then show ?case by (simp add: list_reverse_loop.simps list_end_def)
next
  case (Cons e ys)
  define g where "g = h(e := flip (h e))"
  have "prv (g e) = hd (ys @ [tail l])" using Cons.prems by (cases ys) (auto simp: g_def)
  moreover have "linked g (ys @ [tail l]) = linked h (ys @ [tail l])"
    using Cons.prems by (intro linked_left) (auto simp: g_def)
  moreover have "(\<lambda>a. if a \<in> set ys then flip (g a) else g a) =
      (\<lambda>a. if a \<in> set (e # ys) then flip (h a) else h a)"
    using Cons.prems by (auto simp: fun_eq_iff g_def)
  ultimately show ?case
    using Cons.IH [of g] Cons.prems
    by (subst list_reverse_loop.simps)
      (simp add: linked_Cons list_end_def swap_links_flip Let_def flip: g_def)
qed

lemma linked_rev: "linked h xs \<Longrightarrow> linked (\<lambda>a. flip (h a)) (rev xs)"
  by (induction h xs rule: linked.induct) (auto simp: linked_split)

text \<open>The heap after the loop and the two final swaps, for a nonempty list.\<close>

definition reverse_heap :: "heap \<Rightarrow> klist \<Rightarrow> addr list \<Rightarrow> heap" where
  "reverse_heap h l xs =
     (let h1 = (\<lambda>a. if a \<in> set xs then flip (h a) else h a);
          h2 = set_prev (set_next h1 (head l) (List.last xs)) (tail l) (hd xs)
      in set_next (set_prev h2 (List.last xs) (head l)) (hd xs) (tail l))"

lemma dll_reverse_heap:
  assumes d: "dll h l xs" and ne: "xs \<noteq> []"
  shows "dll (reverse_heap h l xs) l (rev xs)"
proof -
  let ?h = "reverse_heap h l xs"
  have dist: "distinct (head l # xs @ [tail l])" "NULL \<notin> set (head l # xs @ [tail l])"
    using d by (auto simp: dll_def chain_def nodes_def)
  have lk: "linked h (head l # xs @ [tail l])" and ends: "prv (h (head l)) = NULL" "nxt (h (tail l)) = NULL"
    using d by (auto simp: dll_def chain_def nodes_def)
  then have "linked h xs" using ne by (simp add: linked_Cons linked_snoc)
  have "linked ?h (rev xs) = linked (\<lambda>a. flip (h a)) (rev xs)"
  proof (rule linked_cong)
    show "\<forall>a \<in> set (butlast (rev xs)). nxt (?h a) = nxt (flip (h a))"
      using dist ne by (cases xs) (auto simp: reverse_heap_def Let_def)
    show "\<forall>a \<in> set (tl (rev xs)). prv (?h a) = prv (flip (h a))"
      using dist ne by (cases xs rule: rev_cases) (auto simp: reverse_heap_def Let_def)
  qed
  with \<open>linked h xs\<close> have "linked ?h (rev xs)" using linked_rev by blast
  moreover have "nxt (?h (head l)) = List.last xs" "prv (?h (List.last xs)) = head l"
    "nxt (?h (hd xs)) = tail l" "prv (?h (tail l)) = hd xs"
    "prv (?h (head l)) = NULL" "nxt (?h (tail l)) = NULL"
    using dist ne ends hd_in_set [OF ne] last_in_set [OF ne]
    by (auto simp: reverse_heap_def Let_def)
  ultimately have "linked ?h (head l # rev xs @ [tail l])"
    using ne by (simp add: linked_Cons linked_snoc hd_append hd_rev last_rev)
  then show ?thesis
    using dist \<open>prv (?h (head l)) = NULL\<close> \<open>nxt (?h (tail l)) = NULL\<close>
    by (simp add: dll_def chain_def nodes_def)
qed

lemma dll_reverse:
  assumes d: "dll h l xs"
  shows "\<exists>h'. list_reverse h l = Some (Inr h') \<and> dll h' l (rev xs) \<and>
    same_outside (set (nodes l xs)) h h'"
proof (cases "xs = []")
  case True
  then show ?thesis using d by (simp add: list_reverse_def dll_empty same_outside_def)
next
  case False
  let ?h1 = "\<lambda>a. if a \<in> set xs then flip (h a) else h a"
  have lk: "linked h (head l # xs @ [tail l])" and dist: "distinct (head l # xs @ [tail l])"
    using d by (auto simp: dll_def chain_def nodes_def)
  then have "list_reverse_loop h l (hd (xs @ [tail l])) = Some (Inr ?h1)"
    by (intro list_reverse_loop_eq) (auto simp: linked_Cons)
  moreover have "nxt (h (head l)) = hd xs" "prv (h (tail l)) = List.last xs"
    "prv (h (hd xs)) = head l" "nxt (h (List.last xs)) = tail l"
    using lk False by (auto simp: linked_Cons linked_snoc)
  moreover have "hd xs \<noteq> head l" "hd xs \<noteq> tail l" "List.last xs \<noteq> head l" "List.last xs \<noteq> tail l"
    using dist hd_in_set [OF False] last_in_set [OF False] by auto
  ultimately have "list_reverse h l = Some (Inr (reverse_heap h l xs))"
    using d False dist
    by (auto simp: list_reverse_def dll_empty dll_begin swap_next_prev_def swap_prev_next_def
        reverse_heap_def Let_def)
  moreover have "same_outside (set (nodes l xs)) h (reverse_heap h l xs)"
    unfolding same_outside_def
  proof (intro allI impI)
    fix a assume "a \<notin> set (nodes l xs)"
    then have "a \<noteq> hd xs" "a \<noteq> List.last xs" "a \<noteq> head l" "a \<noteq> tail l" "a \<notin> set xs"
      using hd_in_set [OF False] last_in_set [OF False] by (auto simp: nodes_def)
    then show "reverse_heap h l xs a = h a" by (simp add: reverse_heap_def Let_def set_other)
  qed
  ultimately show ?thesis using dll_reverse_heap [OF d False] by blast
qed

section \<open>Splicing\<close>

text \<open>
  Moving the range \<open>cs\<close> of a chain in front of the element \<open>b\<close>, further left in the
  same chain, as the merge of \<^verbatim>\<open>list_sort\<close> does.
\<close>

lemma linked_app:
  assumes "xs \<noteq> []" "ys \<noteq> []"
  shows "linked h (xs @ ys) \<longleftrightarrow> linked h xs \<and> linked h ys \<and>
    nxt (h (List.last xs)) = hd ys \<and> prv (h (hd ys)) = List.last xs"
  using assms by (cases xs rule: rev_cases; cases ys) (auto simp: linked_split)

lemma linked_frame:
  assumes "distinct xs" "\<forall>a \<in> set xs - {List.last xs}. nxt (h' a) = nxt (h a)"
    "\<forall>a \<in> set xs - {hd xs}. prv (h' a) = prv (h a)"
  shows "linked h' xs = linked h xs"
proof (rule linked_cong)
  show "\<forall>a \<in> set (butlast xs). nxt (h' a) = nxt (h a)"
    using assms(1,2) by (cases xs rule: rev_cases) auto
  show "\<forall>a \<in> set (tl xs). prv (h' a) = prv (h a)"
    using assms(1,3) by (cases xs) auto
qed

definition splice_heap :: "heap \<Rightarrow> addr \<Rightarrow> addr \<Rightarrow> addr \<Rightarrow> addr \<Rightarrow> addr \<Rightarrow> addr \<Rightarrow> heap" where
  "splice_heap h p b q f z d =
     set_prev (set_next (set_next (set_prev (set_prev (set_next h q d) d q) f p) z b) p f) b z"

lemma splice_links:
  "nxt (splice_heap h p b q f z d a) = (if a = p then f else if a = z then b else if a = q then d else nxt (h a))"
  "prv (splice_heap h p b q f z d a) = (if a = b then z else if a = f then p else if a = d then q else prv (h a))"
  by (simp_all add: splice_heap_def)

lemma linked_splice:
  assumes ne: "A \<noteq> []" "B \<noteq> []" "C \<noteq> []" "D \<noteq> []"
    and dist: "distinct (A @ B @ C @ D)" and lk: "linked h (A @ B @ C @ D)"
    and ends: "List.last A = p" "hd B = b" "List.last B = q" "hd C = f" "List.last C = z" "hd D = d"
  shows "linked (splice_heap h p b q f z d) (A @ C @ B @ D) \<and>
    prv (splice_heap h p b q f z d (hd A)) = prv (h (hd A)) \<and>
    nxt (splice_heap h p b q f z d (List.last D)) = nxt (h (List.last D))"
proof -
  let ?h = "splice_heap h p b q f z d"
  have mem: "p \<in> set A" "b \<in> set B" "q \<in> set B" "f \<in> set C" "z \<in> set C" "d \<in> set D"
    "hd A \<in> set A" "List.last D \<in> set D"
    using ends ne hd_in_set last_in_set by metis+
  have dj: "set A \<inter> set B = {}" "set A \<inter> set C = {}" "set A \<inter> set D = {}"
    "set B \<inter> set C = {}" "set B \<inter> set D = {}" "set C \<inter> set D = {}" using dist by auto
  have "linked ?h X = linked h X" if "X \<in> {A, B, C, D}" for X
    using that dist mem dj ends by (intro linked_frame) (auto simp: splice_links)
  moreover have "linked h A" "linked h B" "linked h C" "linked h D"
    using lk ne by (simp_all add: linked_app)
  moreover have "nxt (?h p) = f" "prv (?h f) = p" "nxt (?h z) = b" "prv (?h b) = z"
    "nxt (?h q) = d" "prv (?h d) = q"
    using mem dj by (auto simp: splice_links)
  ultimately have "linked ?h (A @ C @ B @ D)"
    using ne ends by (simp add: linked_app)
  then show ?thesis using mem dj by (auto simp: splice_links)
qed

lemma chain_nonnull:
  assumes "chain h (xs @ x # ys)"
  shows "ys \<noteq> [] \<Longrightarrow> nxt (h x) \<noteq> NULL" "xs \<noteq> [] \<Longrightarrow> prv (h x) \<noteq> NULL"
proof -
  show "ys \<noteq> [] \<Longrightarrow> nxt (h x) \<noteq> NULL"
    using chain_pair(1,4) [of h xs x "hd ys" "tl ys"] assms by simp
  show "xs \<noteq> [] \<Longrightarrow> prv (h x) \<noteq> NULL"
    using chain_pair(2,3) [of h "butlast xs" "List.last xs" x ys] assms by (cases xs rule: rev_cases) auto
qed

lemma chain_splice:
  assumes c: "chain h (A @ B @ C @ D)" and ne: "A \<noteq> []" "B \<noteq> []" "C \<noteq> []" "D \<noteq> []"
  shows "\<exists>h'. list_splice h (hd B) (hd C) (hd D) = Inr h' \<and> chain h' (A @ C @ B @ D) \<and>
    same_outside (set (A @ B @ C @ D)) h h'"
proof -
  obtain p b q f z d where ends: "List.last A = p" "hd B = b" "List.last B = q" "hd C = f"
    "List.last C = z" "hd D = d" by blast
  have lk: "linked h (A @ B @ C @ D)" and dist: "distinct (A @ B @ C @ D)"
    and nl: "NULL \<notin> set (A @ B @ C @ D)" using c by (auto simp: chain_def)
  have mem: "p \<in> set A" "b \<in> set B" "q \<in> set B" "f \<in> set C" "z \<in> set C" "d \<in> set D"
    using ends ne hd_in_set last_in_set by metis+
  have links: "nxt (h q) = f" "prv (h f) = q" "nxt (h z) = d" "prv (h d) = z" "prv (h b) = p"
    using lk ne ends by (auto simp: linked_app)
  have distinct': "q \<noteq> z" "f \<noteq> d" "b \<noteq> d" "b \<noteq> f" "d \<noteq> z" "q \<noteq> p" "z \<noteq> p" using mem dist by auto
  have "z \<noteq> NULL" "f \<noteq> NULL" "b \<noteq> NULL" "d \<noteq> NULL" "p \<noteq> NULL" "q \<noteq> NULL" using mem nl by auto
  moreover have "nxt (h f) \<noteq> NULL"
    using chain_nonnull(1) [of h "A @ B" f "tl C @ D"] c ne ends by (cases C) simp_all
  moreover have "prv (h z) \<noteq> NULL"
    using chain_nonnull(2) [of h "A @ B @ butlast C" z D] c ne ends by (cases C rule: rev_cases) simp_all
  ultimately have "list_splice h b f d = Inr (splice_heap h p b q f z d)"
    using links distinct'
    by (simp add: list_splice_def list_prev_def is_interior_def is_tail_def Let_def splice_heap_def)
  moreover have "chain (splice_heap h p b q f z d) (A @ C @ B @ D)"
    using linked_splice [OF ne dist lk ends] c ne by (auto simp: chain_def hd_append)
  moreover have "same_outside (set (A @ B @ C @ D)) h (splice_heap h p b q f z d)"
    unfolding same_outside_def
  proof (intro allI impI)
    fix a assume "a \<notin> set (A @ B @ C @ D)"
    then have "a \<noteq> p" "a \<noteq> b" "a \<noteq> q" "a \<noteq> f" "a \<noteq> z" "a \<noteq> d" using mem by auto
    then show "splice_heap h p b q f z d a = h a" by (simp add: splice_heap_def set_other)
  qed
  ultimately show ?thesis using ends by blast
qed

end
