(* ===== verification/KListSort.thy ===== *)
theory KListSort
  imports KList "HOL-Library.Multiset"
begin

text \<open>
  The ordered operations of lib/kernel/list.c: \<^verbatim>\<open>list_sort\<close> with its helpers,
  \<^verbatim>\<open>list_insert_ordered\<close>, \<^verbatim>\<open>list_unique\<close>, \<^verbatim>\<open>list_max\<close> and
  \<^verbatim>\<open>list_min\<close>. The comparison \<^verbatim>\<open>less (a, b, aux)\<close> is supplied by the caller
  and is a parameter. The in-place natural merge sort is shown to return, and to leave a
  sorted, stable permutation, for every strict weak order.
\<close>

type_synonym less_func = "addr \<Rightarrow> addr \<Rightarrow> bool"

section \<open>Operations\<close>

partial_function (option) is_sorted_loop :: "less_func \<Rightarrow> heap \<Rightarrow> addr \<Rightarrow> addr \<Rightarrow> bool run" where
  "is_sorted_loop lt h a b =
     rbind (Some (list_next h a)) (\<lambda>a.
       if a = b then Some (Inr True)
       else rbind (Some (list_prev h a)) (\<lambda>p.
         if lt a p then Some (Inr False) else is_sorted_loop lt h a b))"

definition is_sorted :: "less_func \<Rightarrow> heap \<Rightarrow> addr \<Rightarrow> addr \<Rightarrow> bool run" where
  "is_sorted lt h a b = (if a \<noteq> b then is_sorted_loop lt h a b else Some (Inr True))"

partial_function (option) find_end_of_run_loop :: "less_func \<Rightarrow> heap \<Rightarrow> addr \<Rightarrow> addr \<Rightarrow> addr run" where
  "find_end_of_run_loop lt h a b =
     rbind (Some (list_next h a)) (\<lambda>a.
       if a = b then Some (Inr a)
       else rbind (Some (list_prev h a)) (\<lambda>p.
         if lt a p then Some (Inr a) else find_end_of_run_loop lt h a b))"

definition find_end_of_run :: "less_func \<Rightarrow> heap \<Rightarrow> addr \<Rightarrow> addr \<Rightarrow> addr run" where
  "find_end_of_run lt h a b =
     rbind (Some (kassert (a \<noteq> NULL \<and> b \<noteq> NULL \<and> a \<noteq> b))) (\<lambda>_. find_end_of_run_loop lt h a b)"

partial_function (option) inplace_merge_loop ::
  "less_func \<Rightarrow> heap \<Rightarrow> addr \<Rightarrow> addr \<Rightarrow> addr \<Rightarrow> heap run" where
  "inplace_merge_loop lt h a0 a1b0 b1 =
     (if a0 \<noteq> a1b0 \<and> a1b0 \<noteq> b1 then
        if \<not> lt a1b0 a0
        then rbind (Some (list_next h a0)) (\<lambda>a0. inplace_merge_loop lt h a0 a1b0 b1)
        else rbind (Some (list_next h a1b0)) (\<lambda>a1b0.
             rbind (Some (list_prev h a1b0)) (\<lambda>p.
             rbind (Some (list_splice h a0 p a1b0)) (\<lambda>h. inplace_merge_loop lt h a0 a1b0 b1)))
      else Some (Inr h))"

definition inplace_merge :: "less_func \<Rightarrow> heap \<Rightarrow> addr \<Rightarrow> addr \<Rightarrow> addr \<Rightarrow> heap run" where
  "inplace_merge lt h a0 a1b0 b1 =
     rbind (Some (kassert (a0 \<noteq> NULL \<and> a1b0 \<noteq> NULL \<and> b1 \<noteq> NULL))) (\<lambda>_.
     rbind (is_sorted lt h a0 a1b0) (\<lambda>s. rbind (Some (kassert s)) (\<lambda>_.
     rbind (is_sorted lt h a1b0 b1) (\<lambda>s. rbind (Some (kassert s)) (\<lambda>_.
       inplace_merge_loop lt h a0 a1b0 b1)))))"

partial_function (option) list_sort_pass ::
  "less_func \<Rightarrow> heap \<Rightarrow> klist \<Rightarrow> addr \<Rightarrow> nat \<Rightarrow> (heap \<times> nat) run" where
  "list_sort_pass lt h l a0 cnt =
     (if a0 = list_end l then Some (Inr (h, cnt))
      else rbind (find_end_of_run lt h a0 (list_end l)) (\<lambda>a1b0.
        if a1b0 = list_end l then Some (Inr (h, cnt + 1))
        else rbind (find_end_of_run lt h a1b0 (list_end l)) (\<lambda>b1.
          rbind (inplace_merge lt h a0 a1b0 b1) (\<lambda>h. list_sort_pass lt h l b1 (cnt + 1)))))"

partial_function (option) list_sort_loop :: "less_func \<Rightarrow> heap \<Rightarrow> klist \<Rightarrow> heap run" where
  "list_sort_loop lt h l =
     rbind (list_sort_pass lt h l (list_begin h l) 0) (\<lambda>r.
       if snd r > 1 then list_sort_loop lt (fst r) l else Some (Inr (fst r)))"

definition list_sort :: "less_func \<Rightarrow> heap \<Rightarrow> klist \<Rightarrow> heap run" where
  "list_sort lt h l =
     rbind (list_sort_loop lt h l) (\<lambda>h.
     rbind (is_sorted lt h (list_begin h l) (list_end l)) (\<lambda>s.
     rbind (Some (kassert s)) (\<lambda>_. Some (Inr h))))"

partial_function (option) list_insert_ordered_loop ::
  "less_func \<Rightarrow> heap \<Rightarrow> klist \<Rightarrow> addr \<Rightarrow> addr \<Rightarrow> addr run" where
  "list_insert_ordered_loop lt h l elem e =
     (if e = list_end l \<or> lt elem e then Some (Inr e)
      else rbind (Some (list_next h e)) (\<lambda>e. list_insert_ordered_loop lt h l elem e))"

definition list_insert_ordered :: "less_func \<Rightarrow> heap \<Rightarrow> klist \<Rightarrow> addr \<Rightarrow> heap run" where
  "list_insert_ordered lt h l elem =
     rbind (Some (kassert (elem \<noteq> NULL))) (\<lambda>_.
     rbind (list_insert_ordered_loop lt h l elem (list_begin h l)) (\<lambda>e. Some (list_insert h e elem)))"

text \<open>\<^verbatim>\<open>duplicates\<close> is a null pointer or a second list.\<close>

partial_function (option) list_unique_loop ::
  "less_func \<Rightarrow> heap \<Rightarrow> klist \<Rightarrow> klist option \<Rightarrow> addr \<Rightarrow> heap run" where
  "list_unique_loop lt h l duplicates elem =
     rbind (Some (list_next h elem)) (\<lambda>n.
       if n = list_end l then Some (Inr h)
       else if \<not> lt elem n \<and> \<not> lt n elem
       then rbind (Some (list_remove h n)) (\<lambda>r.
            rbind (Some (case duplicates of None \<Rightarrow> Inr (fst r) | Some d \<Rightarrow> list_push_back (fst r) d n))
              (\<lambda>h. list_unique_loop lt h l duplicates elem))
       else list_unique_loop lt h l duplicates n)"

definition list_unique :: "less_func \<Rightarrow> heap \<Rightarrow> klist \<Rightarrow> klist option \<Rightarrow> heap run" where
  "list_unique lt h l duplicates =
     (if list_empty h l then Some (Inr h)
      else list_unique_loop lt h l duplicates (list_begin h l))"

partial_function (option) list_max_loop :: "less_func \<Rightarrow> heap \<Rightarrow> klist \<Rightarrow> addr \<Rightarrow> addr \<Rightarrow> addr run" where
  "list_max_loop lt h l m e =
     (if e = list_end l then Some (Inr m)
      else let m = (if lt m e then e else m)
           in rbind (Some (list_next h e)) (\<lambda>e. list_max_loop lt h l m e))"

definition list_max :: "less_func \<Rightarrow> heap \<Rightarrow> klist \<Rightarrow> addr run" where
  "list_max lt h l =
     (let m = list_begin h l
      in if m \<noteq> list_end l
         then rbind (Some (list_next h m)) (\<lambda>e. list_max_loop lt h l m e)
         else Some (Inr m))"

partial_function (option) list_min_loop :: "less_func \<Rightarrow> heap \<Rightarrow> klist \<Rightarrow> addr \<Rightarrow> addr \<Rightarrow> addr run" where
  "list_min_loop lt h l m e =
     (if e = list_end l then Some (Inr m)
      else let m = (if lt e m then e else m)
           in rbind (Some (list_next h e)) (\<lambda>e. list_min_loop lt h l m e))"

definition list_min :: "less_func \<Rightarrow> heap \<Rightarrow> klist \<Rightarrow> addr run" where
  "list_min lt h l =
     (let m = list_begin h l
      in if m \<noteq> list_end l
         then rbind (Some (list_next h m)) (\<lambda>e. list_min_loop lt h l m e)
         else Some (Inr m))"

section \<open>Runs and merging on lists of elements\<close>

definition strict_weak :: "less_func \<Rightarrow> bool" where
  "strict_weak lt \<longleftrightarrow>
     (\<forall>x y. lt x y \<longrightarrow> \<not> lt y x) \<and> (\<forall>x y z. \<not> lt x y \<and> \<not> lt y z \<longrightarrow> \<not> lt x z)"

fun run_take :: "less_func \<Rightarrow> addr \<Rightarrow> addr list \<Rightarrow> addr list" where
  "run_take lt a [] = []"
| "run_take lt a (x # xs) = (if lt x a then [] else x # run_take lt x xs)"

fun run_rest :: "less_func \<Rightarrow> addr \<Rightarrow> addr list \<Rightarrow> addr list" where
  "run_rest lt a [] = []"
| "run_rest lt a (x # xs) = (if lt x a then x # xs else run_rest lt x xs)"

fun adj_sorted :: "less_func \<Rightarrow> addr list \<Rightarrow> bool" where
  "adj_sorted lt (x # y # zs) \<longleftrightarrow> \<not> lt y x \<and> adj_sorted lt (y # zs)"
| "adj_sorted lt _ \<longleftrightarrow> True"

fun kmerge :: "less_func \<Rightarrow> addr list \<Rightarrow> addr list \<Rightarrow> addr list" where
  "kmerge lt [] bs = bs"
| "kmerge lt as [] = as"
| "kmerge lt (a # as) (b # bs) =
     (if \<not> lt b a then a # kmerge lt as (b # bs) else b # kmerge lt (a # as) bs)"

fun nruns :: "less_func \<Rightarrow> addr list \<Rightarrow> nat" where
  "nruns lt [] = 0"
| "nruns lt [x] = 1"
| "nruns lt (x # y # zs) = (if lt y x then 1 else 0) + nruns lt (y # zs)"

lemma run_split: "run_take lt a xs @ run_rest lt a xs = xs"
  by (induction lt a xs rule: run_take.induct) auto

lemma run_rest_length [simp]: "length (run_rest lt a xs) \<le> length xs"
  by (induction lt a xs rule: run_rest.induct) auto

lemma adj_sorted_run: "adj_sorted lt (a # run_take lt a xs)"
  by (induction lt a xs rule: run_take.induct) auto

function kpass :: "less_func \<Rightarrow> addr list \<Rightarrow> addr list \<times> nat" where
  "kpass lt [] = ([], 0)"
| "kpass lt (a # xs) =
     (case run_rest lt a xs of
        [] \<Rightarrow> (a # xs, 1)
      | b # ys \<Rightarrow>
          (let (zs, n) = kpass lt (run_rest lt b ys)
           in (kmerge lt (a # run_take lt a xs) (b # run_take lt b ys) @ zs, n + 1)))"
  by pat_completeness auto
termination
proof (relation "measure (\<lambda>(lt, xs). length xs)")
  fix lt a xs b ys
  assume "run_rest lt a xs = b # ys"
  then have "Suc (length ys) \<le> length xs" using run_rest_length [of lt a xs] by simp
  then show "((lt, run_rest lt b ys), lt, a # xs) \<in> measure (\<lambda>(lt, xs). length xs)"
    using le_trans [OF run_rest_length [of lt b ys]] by (simp add: less_Suc_eq_le)
qed simp

lemma strict_weakD:
  assumes "strict_weak lt"
  shows "lt x y \<Longrightarrow> \<not> lt y x" "\<not> lt x y \<Longrightarrow> \<not> lt y z \<Longrightarrow> \<not> lt x z"
  using assms unfolding strict_weak_def by blast+

abbreviation ord_by :: "less_func \<Rightarrow> addr list \<Rightarrow> bool" where
  "ord_by lt \<equiv> sorted_wrt (\<lambda>x y. \<not> lt y x)"

lemma adj_sorted_wrt: "strict_weak lt \<Longrightarrow> adj_sorted lt xs \<longleftrightarrow> ord_by lt xs"
proof (induction lt xs rule: adj_sorted.induct)
  case (1 lt x y zs)
  have "\<not> lt z x" if "\<not> lt y x" "\<not> lt z y" for z
    using strict_weakD(2) [OF "1.prems"] that by blast
  then show ?case using 1 by auto
qed auto

lemma mset_kmerge: "mset (kmerge lt as bs) = mset as + mset bs"
  by (induction lt as bs rule: kmerge.induct) auto

lemma set_kmerge: "set (kmerge lt as bs) = set as \<union> set bs"
  by (induction lt as bs rule: kmerge.induct) auto

lemma sorted_kmerge:
  "strict_weak lt \<Longrightarrow> ord_by lt as \<Longrightarrow> ord_by lt bs \<Longrightarrow> ord_by lt (kmerge lt as bs)"
proof (induction lt as bs rule: kmerge.induct)
  case (3 lt a as b bs)
  note sw = strict_weakD [OF "3.prems"(1)]
  show ?case
  proof (cases "lt b a")
    case True
    then have "\<not> lt x b" if "x \<in> set (a # as)" for x
      using sw that "3.prems"(2) by (metis set_ConsD sorted_wrt.simps(2))
    then show ?thesis using 3 True by (auto simp: set_kmerge)
  next
    case False
    then have "\<not> lt x a" if "x \<in> set (b # bs)" for x
      using sw(2) that "3.prems"(3) by (metis set_ConsD sorted_wrt.simps(2))
    then show ?thesis using 3 False by (auto simp: set_kmerge)
  qed
qed auto

text \<open>Elements that compare equal to \<open>k\<close> keep their order.\<close>

definition eqv :: "less_func \<Rightarrow> addr \<Rightarrow> addr \<Rightarrow> bool" where
  "eqv lt k x \<longleftrightarrow> \<not> lt k x \<and> \<not> lt x k"

lemma stable_kmerge:
  "strict_weak lt \<Longrightarrow> ord_by lt as \<Longrightarrow>
    filter (eqv lt k) (kmerge lt as bs) = filter (eqv lt k) as @ filter (eqv lt k) bs"
proof (induction lt as bs rule: kmerge.induct)
  case (3 lt a as b bs)
  note sw = strict_weakD [OF "3.prems"(1)]
  show ?case
  proof (cases "lt b a \<and> eqv lt k b")
    case True
    have "\<not> eqv lt k x" if "x \<in> set (a # as)" for x
    proof -
      have "\<not> lt x a" using that "3.prems"(2) sw(1) by (cases "x = a") auto
      then show ?thesis using True sw(2) unfolding eqv_def by meson
    qed
    then have "filter (eqv lt k) (a # as) = []" by (simp add: filter_empty_conv)
    then show ?thesis using 3 True by simp
  next
    case False
    then show ?thesis using 3 by auto
  qed
qed auto

declare kpass.simps(2) [simp del]

lemma kpass_one: "run_rest lt a xs = [] \<Longrightarrow> kpass lt (a # xs) = (a # xs, 1)"
  by (simp add: kpass.simps)

lemma kpass_two:
  "run_rest lt a xs = b # ys \<Longrightarrow> kpass lt (a # xs) =
     (kmerge lt (a # run_take lt a xs) (b # run_take lt b ys) @ fst (kpass lt (run_rest lt b ys)),
      snd (kpass lt (run_rest lt b ys)) + 1)"
  by (simp add: kpass.simps case_prod_beta)

lemma kpass_perm: "mset (fst (kpass lt xs)) = mset xs"
proof (induction lt xs rule: kpass.induct)
  case (2 lt a xs)
  show ?case
  proof (cases "run_rest lt a xs")
    case Nil
    then show ?thesis by (simp add: kpass_one)
  next
    case (Cons b ys)
    have "mset xs = mset (run_take lt a xs) + mset (b # ys)"
      by (metis Cons mset_append run_split)
    moreover have "mset ys = mset (run_take lt b ys) + mset (run_rest lt b ys)"
      by (metis mset_append run_split)
    ultimately show ?thesis
      using "2.IH" [OF Cons] by (simp add: kpass_two [OF Cons] mset_kmerge del: kmerge.simps)
  qed
qed simp

lemma kpass_stable:
  "strict_weak lt \<Longrightarrow> filter (eqv lt k) (fst (kpass lt xs)) = filter (eqv lt k) xs"
proof (induction lt xs rule: kpass.induct)
  case (2 lt a xs)
  show ?case
  proof (cases "run_rest lt a xs")
    case Nil
    then show ?thesis by (simp add: kpass_one)
  next
    case (Cons b ys)
    have "filter (eqv lt k) (a # xs) = filter (eqv lt k) (a # run_take lt a xs) @
        filter (eqv lt k) (b # run_take lt b ys) @ filter (eqv lt k) (run_rest lt b ys)"
      by (metis Cons append_Cons filter_append run_split)
    moreover have "ord_by lt (a # run_take lt a xs)"
      using adj_sorted_run adj_sorted_wrt "2.prems" by blast
    ultimately show ?thesis
      using "2.IH" [OF Cons "2.prems"] "2.prems"
      by (simp only: kpass_two [OF Cons] fst_conv filter_append stable_kmerge append_assoc)
  qed
qed simp

text \<open>A pass halves the number of runs; its counter is the number of runs it wrote.\<close>

lemma nruns_run: "nruns lt (a # xs) = Suc (nruns lt (run_rest lt a xs))"
proof (induction xs arbitrary: a)
  case (Cons x xs)
  then show ?case by (cases xs) auto
qed simp

lemma nruns_append: "nruns lt (as @ bs) \<le> nruns lt as + nruns lt bs"
proof (induction lt as rule: nruns.induct)
  case (2 lt x)
  then show ?case by (cases bs) auto
qed auto

lemma nruns_sorted: "adj_sorted lt xs \<Longrightarrow> nruns lt xs \<le> 1"
  by (induction lt xs rule: nruns.induct) auto

lemma sorted_nruns: "nruns lt xs \<le> 1 \<Longrightarrow> adj_sorted lt xs"
proof (induction lt xs rule: nruns.induct)
  case (3 lt x y zs)
  have "1 \<le> nruns lt (y # zs)" by (simp add: nruns_run)
  with 3 show ?case by (auto split: if_splits)
qed auto

lemma kpass_count: "snd (kpass lt xs) = (nruns lt xs + 1) div 2"
proof (induction lt xs rule: kpass.induct)
  case (2 lt a xs)
  then show ?case
    by (cases "run_rest lt a xs") (auto simp: nruns_run kpass_one kpass_two)
qed simp

lemma kpass_runs: "strict_weak lt \<Longrightarrow> nruns lt (fst (kpass lt xs)) \<le> snd (kpass lt xs)"
proof (induction lt xs rule: kpass.induct)
  case (2 lt a xs)
  show ?case
  proof (cases "run_rest lt a xs")
    case Nil
    then show ?thesis by (simp add: nruns_run kpass_one)
  next
    case (Cons b ys)
    let ?m = "kmerge lt (a # run_take lt a xs) (b # run_take lt b ys)"
    have "ord_by lt ?m"
      using adj_sorted_run adj_sorted_wrt "2.prems" by (intro sorted_kmerge) blast+
    then have "nruns lt ?m \<le> 1" using adj_sorted_wrt nruns_sorted "2.prems" by blast
    with nruns_append [of lt ?m "fst (kpass lt (run_rest lt b ys))"] "2.IH" [OF Cons "2.prems"]
    show ?thesis unfolding kpass_two [OF Cons] fst_conv snd_conv by linarith
  qed
qed simp

section \<open>The loops on the heap\<close>

lemma notin_hd: "x \<notin> set Q \<Longrightarrow> Q \<noteq> [] \<Longrightarrow> x \<noteq> hd Q \<and> hd Q \<noteq> x"
  using hd_in_set by metis

lemma is_sorted_loop_eq:
  "chain h (P @ a # xs @ Q) \<Longrightarrow> Q \<noteq> [] \<Longrightarrow>
   is_sorted_loop lt h a (hd Q) = Some (Inr (adj_sorted lt (a # xs)))"
proof (induction xs arbitrary: P a)
  case Nil
  then show ?case
    using chain_next(2) [of h P a "hd Q" "tl Q"] by (simp add: is_sorted_loop.simps)
next
  case (Cons x xs)
  have "chain h (P @ a # x # (xs @ Q))" using Cons.prems by simp
  from chain_next [OF this] have "list_next h a = Inr x" "list_prev h x = Inr a" by auto
  moreover have "x \<noteq> hd Q" using Cons.prems hd_in_set [of Q] by (auto simp: chain_def)
  ultimately show ?case
    using Cons.IH [of "P @ [a]" x] Cons.prems by (subst is_sorted_loop.simps) simp
qed

lemma is_sorted_eq:
  assumes "chain h (P @ xs @ Q)" "Q \<noteq> []"
  shows "is_sorted lt h (hd (xs @ Q)) (hd Q) = Some (Inr (adj_sorted lt xs))"
proof (cases xs)
  case (Cons a ys)
  then have "a \<noteq> hd Q" using assms hd_in_set [of Q] by (auto simp: chain_def)
  then show ?thesis using is_sorted_loop_eq [of h P a ys Q] assms Cons by (simp add: is_sorted_def)
qed (simp add: is_sorted_def)

lemma find_end_of_run_loop_eq:
  "chain h (P @ a # xs @ Q) \<Longrightarrow> Q \<noteq> [] \<Longrightarrow>
   find_end_of_run_loop lt h a (hd Q) = Some (Inr (hd (run_rest lt a xs @ Q)))"
proof (induction xs arbitrary: P a)
  case Nil
  then show ?case
    using chain_next(2) [of h P a "hd Q" "tl Q"] by (simp add: find_end_of_run_loop.simps)
next
  case (Cons x xs)
  have "chain h (P @ a # x # (xs @ Q))" using Cons.prems by simp
  from chain_next [OF this] have "list_next h a = Inr x" "list_prev h x = Inr a" by auto
  moreover have "x \<noteq> hd Q" using Cons.prems hd_in_set [of Q] by (auto simp: chain_def)
  ultimately show ?case
    using Cons.IH [of "P @ [a]" x] Cons.prems by (subst find_end_of_run_loop.simps) simp
qed

lemma find_end_of_run_eq:
  assumes "chain h (P @ a # xs @ Q)" "Q \<noteq> []"
  shows "find_end_of_run lt h a (hd Q) = Some (Inr (hd (run_rest lt a xs @ Q)))"
  using find_end_of_run_loop_eq [OF assms, of lt] assms notin_hd [of NULL Q] notin_hd [of a Q]
  by (auto simp: find_end_of_run_def chain_def kassert_def)

lemma inplace_merge_loop_eq:
  "chain h (P @ as @ bs @ Q) \<Longrightarrow> P \<noteq> [] \<Longrightarrow> Q \<noteq> [] \<Longrightarrow>
   \<exists>h'. inplace_merge_loop lt h (hd (as @ bs @ Q)) (hd (bs @ Q)) (hd Q) = Some (Inr h') \<and>
     chain h' (P @ kmerge lt as bs @ Q) \<and> same_outside (set (P @ as @ bs @ Q)) h h'"
proof (induction lt as bs arbitrary: h P rule: kmerge.induct)
  case (3 lt a as b bs)
  have c: "chain h (P @ a # as @ b # bs @ Q)" using "3.prems"(1) by simp
  then have "a \<noteq> b" "b \<noteq> hd Q" using "3.prems"(3) hd_in_set [of Q] by (auto simp: chain_def)
  show ?case
  proof (cases "lt b a")
    case False
    have "chain h (P @ a # hd (as @ b # bs @ Q) # tl (as @ b # bs @ Q))" using c by (cases as) auto
    from chain_next(2) [OF this] show ?thesis
      using "3.IH"(1) [OF False, of h "P @ [a]"] "3.prems" False \<open>a \<noteq> b\<close> \<open>b \<noteq> hd Q\<close>
      by (subst inplace_merge_loop.simps) auto
  next
    case True
    have "chain h ((P @ a # as) @ b # hd (bs @ Q) # tl (bs @ Q))"
      using c "3.prems"(3) by (cases bs; cases Q) auto
    note nb = chain_next(2,4) [OF this]
    from chain_splice [of h P "a # as" "[b]" "bs @ Q"] "3.prems" c obtain g where
      g: "list_splice h a b (hd (bs @ Q)) = Inr g" "chain g (P @ [b] @ (a # as) @ bs @ Q)"
      "same_outside (set (P @ (a # as) @ [b] @ bs @ Q)) h g" by auto
    from "3.IH"(2) [OF _ , of g "P @ [b]"] True g(2) "3.prems" obtain h' where
      h': "inplace_merge_loop lt g (hd ((a # as) @ bs @ Q)) (hd (bs @ Q)) (hd Q) = Some (Inr h')"
      "chain h' ((P @ [b]) @ kmerge lt (a # as) bs @ Q)"
      "same_outside (set ((P @ [b]) @ (a # as) @ bs @ Q)) g h'" by auto
    have "inplace_merge_loop lt h a b (hd Q) = Some (Inr h')"
      using True \<open>a \<noteq> b\<close> \<open>b \<noteq> hd Q\<close> nb g(1) h'(1) by (subst inplace_merge_loop.simps) simp
    moreover have "same_outside (set (P @ (a # as) @ (b # bs) @ Q)) h h'"
      using g(3) h'(3) by (auto simp: same_outside_def)
    ultimately show ?thesis using h'(2) True by auto
  qed
qed (auto simp: inplace_merge_loop.simps same_outside_def)

lemma inplace_merge_eq:
  assumes c: "chain h (P @ as @ bs @ Q)" and ne: "P \<noteq> []" "as \<noteq> []" "bs \<noteq> []" "Q \<noteq> []"
    and s: "adj_sorted lt as" "adj_sorted lt bs"
  shows "\<exists>h'. inplace_merge lt h (hd as) (hd bs) (hd Q) = Some (Inr h') \<and>
     chain h' (P @ kmerge lt as bs @ Q) \<and> same_outside (set (P @ as @ bs @ Q)) h h'"
proof -
  have "hd as \<noteq> NULL" "hd bs \<noteq> NULL" "hd Q \<noteq> NULL"
    using c ne notin_hd [of NULL as] notin_hd [of NULL bs] notin_hd [of NULL Q]
    by (simp_all add: chain_def)
  moreover have "is_sorted lt h (hd as) (hd bs) = Some (Inr True)"
    using is_sorted_eq [of h P as "bs @ Q" lt] c ne s(1) by (simp add: hd_append)
  moreover have "is_sorted lt h (hd bs) (hd Q) = Some (Inr True)"
    using is_sorted_eq [of h "P @ as" bs Q lt] c ne s(2) by (simp add: hd_append)
  ultimately show ?thesis
    using inplace_merge_loop_eq [OF c ne(1,4), of lt] ne by (simp add: inplace_merge_def hd_append)
qed

lemma list_sort_pass_eq:
  "chain h (P @ xs @ [tail l]) \<Longrightarrow> P \<noteq> [] \<Longrightarrow>
   \<exists>h'. list_sort_pass lt h l (hd (xs @ [tail l])) n = Some (Inr (h', n + snd (kpass lt xs))) \<and>
     chain h' (P @ fst (kpass lt xs) @ [tail l]) \<and> same_outside (set (P @ xs @ [tail l])) h h'"
proof (induction lt xs arbitrary: h P n rule: kpass.induct)
  case (1 lt)
  then show ?case by (simp add: list_sort_pass.simps list_end_def same_outside_def)
next
  case (2 lt a xs)
  let ?t = "[tail l]"
  have a: "a \<noteq> tail l" using "2.prems"(1) by (auto simp: chain_def)
  have e1: "find_end_of_run lt h a (tail l) = Some (Inr (hd (run_rest lt a xs @ ?t)))"
    using find_end_of_run_eq [of h P a xs ?t lt] "2.prems" by simp
  show ?case
  proof (cases "run_rest lt a xs")
    case Nil
    then show ?thesis
      using a e1 "2.prems" by (subst list_sort_pass.simps) (simp add: list_end_def kpass_one same_outside_def)
  next
    case (Cons b ys)
    define as bs rs where "as = a # run_take lt a xs" and "bs = b # run_take lt b ys"
      and "rs = run_rest lt b ys"
    have xs: "a # xs = as @ b # ys" and ys: "b # ys = bs @ rs"
      using run_split [of lt a xs] run_split [of lt b ys] Cons by (simp_all add: as_def bs_def rs_def)
    have c: "chain h (P @ as @ bs @ rs @ ?t)" using "2.prems"(1) xs ys by simp
    have b: "b \<noteq> tail l" using c by (auto simp: chain_def bs_def)
    have e2: "find_end_of_run lt h b (tail l) = Some (Inr (hd (rs @ ?t)))"
      using find_end_of_run_eq [of h "P @ as" b ys ?t lt] "2.prems" xs by (simp add: rs_def)
    have "adj_sorted lt as" "adj_sorted lt bs" unfolding as_def bs_def by (rule adj_sorted_run)+
    with inplace_merge_eq [of h P as bs "rs @ ?t" lt] c "2.prems"(2) obtain g where
      g: "inplace_merge lt h a b (hd (rs @ ?t)) = Some (Inr g)"
      "chain g (P @ kmerge lt as bs @ rs @ ?t)"
      "same_outside (set (P @ as @ bs @ rs @ ?t)) h g" by (auto simp: as_def bs_def)
    with "2.IH" [OF Cons, of g "P @ kmerge lt as bs" "n + 1"] "2.prems"(2) obtain h' where
      h': "list_sort_pass lt g l (hd (rs @ ?t)) (n + 1) = Some (Inr (h', n + 1 + snd (kpass lt rs)))"
      "chain h' ((P @ kmerge lt as bs) @ fst (kpass lt rs) @ ?t)"
      "same_outside (set ((P @ kmerge lt as bs) @ rs @ ?t)) g h'" unfolding rs_def by auto
    have "same_outside (set (P @ (a # xs) @ ?t)) h h'"
      using g(3) h'(3) xs ys by (auto simp: same_outside_def set_kmerge)
    then show ?thesis
      using a b e1 e2 g(1) h' Cons
      by (subst list_sort_pass.simps) (simp add: list_end_def kpass_two as_def bs_def rs_def)
  qed
qed

lemma list_sort_loop_eq:
  assumes "strict_weak lt" "dll h l xs"
  shows "\<exists>h' ys. list_sort_loop lt h l = Some (Inr h') \<and> dll h' l ys \<and>
     mset ys = mset xs \<and> adj_sorted lt ys \<and> (\<forall>k. filter (eqv lt k) ys = filter (eqv lt k) xs) \<and>
     same_outside (set (nodes l xs)) h h'"
  using assms(2)
proof (induction "nruns lt xs" arbitrary: h xs rule: less_induct)
  case less
  have c: "chain h ([head l] @ xs @ [tail l])" using less.prems by (simp add: dll_def nodes_def)
  from list_sort_pass_eq [OF c, of lt 0] obtain g where
    g: "list_sort_pass lt h l (list_begin h l) 0 = Some (Inr (g, snd (kpass lt xs)))"
    "dll g l (fst (kpass lt xs))" "same_outside (set (nodes l xs)) h g"
    by (auto simp: dll_begin [OF less.prems] dll_def nodes_def)
  note kp = kpass_perm [of lt xs] kpass_stable [OF assms(1)] kpass_runs [OF assms(1), of xs]
  show ?case
  proof (cases "snd (kpass lt xs) > 1")
    case True
    then have "nruns lt (fst (kpass lt xs)) < nruns lt xs"
      using kp(3) kpass_count [of lt xs] by linarith
    from less.hyps [OF this g(2)] obtain h' ys where
      h': "list_sort_loop lt g l = Some (Inr h')" "dll h' l ys" "mset ys = mset xs" "adj_sorted lt ys"
      "\<forall>k. filter (eqv lt k) ys = filter (eqv lt k) xs"
      "same_outside (set (nodes l (fst (kpass lt xs)))) g h'" using kp(1,2) by auto
    have "set (fst (kpass lt xs)) = set xs" using kp(1) by (metis set_mset_mset)
    then have "same_outside (set (nodes l xs)) h h'"
      using g(3) h'(6) by (auto simp: same_outside_def nodes_def)
    then show ?thesis
      using True g(1) h' by (subst list_sort_loop.simps) auto
  next
    case False
    then have "adj_sorted lt (fst (kpass lt xs))" using kp(3) by (intro sorted_nruns) linarith
    then show ?thesis
      using False g kp(1,2) by (subst list_sort_loop.simps) auto
  qed
qed

lemma list_sort_ok:
  assumes "strict_weak lt" "dll h l xs"
  shows "\<exists>h' ys. list_sort lt h l = Some (Inr h') \<and> dll h' l ys \<and>
     mset ys = mset xs \<and> ord_by lt ys \<and> (\<forall>k. filter (eqv lt k) ys = filter (eqv lt k) xs) \<and>
     same_outside (set (nodes l xs)) h h'"
proof -
  obtain h' ys where *: "list_sort_loop lt h l = Some (Inr h')" "dll h' l ys"
    "mset ys = mset xs" "adj_sorted lt ys" "\<forall>k. filter (eqv lt k) ys = filter (eqv lt k) xs"
    "same_outside (set (nodes l xs)) h h'" using list_sort_loop_eq [OF assms] by blast
  have "is_sorted lt h' (list_begin h' l) (list_end l) = Some (Inr True)"
    using is_sorted_eq [of h' "[head l]" ys "[tail l]" lt] *(2,4)
    by (simp add: dll_begin list_end_def dll_def nodes_def)
  then have "list_sort lt h l = Some (Inr h')" using *(1) by (simp add: list_sort_def)
  then show ?thesis using * adj_sorted_wrt [OF assms(1)] by blast
qed

section \<open>Ordered insertion, extrema, duplicates\<close>

lemma list_insert_ordered_loop_eq:
  "dll h l (P @ xs) \<Longrightarrow> list_insert_ordered_loop lt h l e (hd (xs @ [tail l])) =
     Some (Inr (hd (dropWhile (\<lambda>x. \<not> lt e x) xs @ [tail l])))"
proof (induction xs arbitrary: P)
  case Nil
  then show ?case by (simp add: list_insert_ordered_loop.simps list_end_def)
next
  case (Cons x xs)
  from Cons.IH [of "P @ [x]"] Cons.prems show ?case
    using dll_next [OF Cons.prems] dll_notin [OF Cons.prems]
    by (subst list_insert_ordered_loop.simps) (auto simp: list_end_def)
qed

lemma list_insert_ordered_ok:
  assumes "dll h l xs" "e \<noteq> NULL" "e \<notin> set (nodes l xs)"
  shows "\<exists>h'. list_insert_ordered lt h l e = Some (Inr h') \<and>
     dll h' l (takeWhile (\<lambda>x. \<not> lt e x) xs @ e # dropWhile (\<lambda>x. \<not> lt e x) xs) \<and>
     same_outside (insert e (set (nodes l xs))) h h'"
  using dll_insert [of h l "takeWhile (\<lambda>x. \<not> lt e x) xs" "dropWhile (\<lambda>x. \<not> lt e x) xs" e]
    list_insert_ordered_loop_eq [of h l "[]" xs lt e] assms
  by (auto simp: list_insert_ordered_def dll_begin)

lemma ordered_insert_sorted:
  assumes "strict_weak lt" "ord_by lt xs"
  shows "ord_by lt (takeWhile (\<lambda>x. \<not> lt e x) xs @ e # dropWhile (\<lambda>x. \<not> lt e x) xs)"
  using assms(2)
proof (induction xs)
  case (Cons x xs)
  note sw = strict_weakD [OF assms(1)]
  show ?case
  proof (cases "lt e x")
    case True
    then have xe: "\<not> lt x e" by (rule sw(1))
    moreover have "\<not> lt z e" if "z \<in> set xs" for z
      using sw(2) [OF _ xe, of z] that Cons.prems by simp
    ultimately show ?thesis using True Cons.prems by simp
  next
    case False
    then have "\<forall>y \<in> set (takeWhile (\<lambda>x. \<not> lt e x) xs @ e # dropWhile (\<lambda>x. \<not> lt e x) xs). \<not> lt y x"
      using Cons.prems by (auto dest: set_takeWhileD set_dropWhileD)
    then show ?thesis using False Cons by simp
  qed
qed simp

lemma list_max_loop_eq:
  "dll h l (P @ xs) \<Longrightarrow> list_max_loop lt h l m (hd (xs @ [tail l])) =
     Some (Inr (foldl (\<lambda>m e. if lt m e then e else m) m xs))"
proof (induction xs arbitrary: P m)
  case Nil
  then show ?case by (simp add: list_max_loop.simps list_end_def)
next
  case (Cons x xs)
  from Cons.IH [of "P @ [x]"] Cons.prems show ?case
    using dll_next [OF Cons.prems] dll_notin [OF Cons.prems]
    by (subst list_max_loop.simps) (auto simp: list_end_def)
qed

lemma list_min_loop_eq:
  "dll h l (P @ xs) \<Longrightarrow> list_min_loop lt h l m (hd (xs @ [tail l])) =
     Some (Inr (foldl (\<lambda>m e. if lt e m then e else m) m xs))"
proof (induction xs arbitrary: P m)
  case Nil
  then show ?case by (simp add: list_min_loop.simps list_end_def)
next
  case (Cons x xs)
  from Cons.IH [of "P @ [x]"] Cons.prems show ?case
    using dll_next [OF Cons.prems] dll_notin [OF Cons.prems]
    by (subst list_min_loop.simps) (auto simp: list_end_def)
qed

text \<open>Keeping the better of two from left to right finds the first best element.\<close>

lemma foldl_first_best:
  assumes "strict_weak lt"
  shows "\<exists>us vs. m # xs = us @ foldl (\<lambda>m e. if lt m e then e else m) m xs # vs \<and>
     (\<forall>u \<in> set us. lt u (foldl (\<lambda>m e. if lt m e then e else m) m xs)) \<and>
     (\<forall>v \<in> set vs. \<not> lt (foldl (\<lambda>m e. if lt m e then e else m) m xs) v)"
proof (induction xs rule: rev_induct)
  case Nil
  then show ?case by (intro exI [of _ "[]"]) simp
next
  case (snoc x xs)
  note sw = strict_weakD [OF assms]
  let ?m = "foldl (\<lambda>m e. if lt m e then e else m) m xs"
  obtain us vs where *: "m # xs = us @ ?m # vs" "\<forall>u \<in> set us. lt u ?m" "\<forall>v \<in> set vs. \<not> lt ?m v"
    using snoc by blast
  show ?case
  proof (cases "lt ?m x")
    case True
    have "lt u x" if "u \<in> set us" for u
      using sw(2) [of u x ?m] sw(1) [OF True] *(2) that by blast
    moreover have "lt v x" if "v \<in> set vs" for v
      using sw(2) [of ?m v x] True *(3) that by blast
    ultimately have "lt u x" if "u \<in> set (us @ ?m # vs)" for u using that True by auto
    then show ?thesis using True *(1) by (intro exI [of _ "us @ ?m # vs"] exI [of _ "[]"]) auto
  next
    case False
    then show ?thesis using * by (intro exI [of _ us] exI [of _ "vs @ [x]"]) auto
  qed
qed

lemma list_max_ok:
  assumes "strict_weak lt" "dll h l (x # xs)"
  shows "\<exists>us m vs. list_max lt h l = Some (Inr m) \<and> x # xs = us @ m # vs \<and>
     (\<forall>u \<in> set us. lt u m) \<and> (\<forall>v \<in> set vs. \<not> lt m v)"
proof -
  have "list_max lt h l = Some (Inr (foldl (\<lambda>m e. if lt m e then e else m) x xs))"
    using list_max_loop_eq [of h l "[x]" xs lt x] dll_next [of h l "[]" x xs] dll_notin [of h l "[]" x xs] assms(2)
    by (auto simp: list_max_def dll_begin list_end_def)
  then show ?thesis using foldl_first_best [OF assms(1), of x xs] by blast
qed

lemma list_min_ok:
  assumes "strict_weak lt" "dll h l (x # xs)"
  shows "\<exists>us m vs. list_min lt h l = Some (Inr m) \<and> x # xs = us @ m # vs \<and>
     (\<forall>u \<in> set us. lt m u) \<and> (\<forall>v \<in> set vs. \<not> lt v m)"
proof -
  have "list_min lt h l = Some (Inr (foldl (\<lambda>m e. if lt e m then e else m) x xs))"
    using list_min_loop_eq [of h l "[x]" xs lt x] dll_next [of h l "[]" x xs] dll_notin [of h l "[]" x xs] assms(2)
    by (auto simp: list_min_def dll_begin list_end_def)
  moreover have "strict_weak (\<lambda>a b. lt b a)" using assms(1) unfolding strict_weak_def by blast
  ultimately show ?thesis using foldl_first_best [of "\<lambda>a b. lt b a" x xs] by blast
qed

text \<open>\<open>keep\<close> and \<open>drop_dups\<close>: what stays in the list after \<open>a\<close> and what is removed.\<close>

fun keep :: "less_func \<Rightarrow> addr \<Rightarrow> addr list \<Rightarrow> addr list" where
  "keep lt a [] = []"
| "keep lt a (x # xs) = (if eqv lt a x then keep lt a xs else x # keep lt x xs)"

fun drop_dups :: "less_func \<Rightarrow> addr \<Rightarrow> addr list \<Rightarrow> addr list" where
  "drop_dups lt a [] = []"
| "drop_dups lt a (x # xs) = (if eqv lt a x then x # drop_dups lt a xs else drop_dups lt x xs)"

lemma list_unique_loop_eq:
  "dll h l (P @ a # xs) \<Longrightarrow> dll h d ds \<Longrightarrow> set (nodes l (P @ a # xs)) \<inter> set (nodes d ds) = {} \<Longrightarrow>
   \<exists>h'. list_unique_loop lt h l (Some d) a = Some (Inr h') \<and>
     dll h' l (P @ a # keep lt a xs) \<and> dll h' d (ds @ drop_dups lt a xs)"
proof (induction lt a xs arbitrary: h P ds rule: keep.induct)
  case (1 lt a)
  then show ?case
    using dll_next [of h l P a "[]"] by (subst list_unique_loop.simps) (simp add: list_end_def)
next
  case (2 lt a x xs)
  have nx: "list_next h a = Inr x" using dll_next [of h l P a "x # xs"] "2.prems"(1) by simp
  have xt: "x \<noteq> tail l" "x \<noteq> NULL" using dll_notin [of h l "P @ [a]" x xs] "2.prems"(1) by auto
  show ?case
  proof (cases "eqv lt a x")
    case True
    from dll_remove [of h l "P @ [a]" x xs] "2.prems"(1) obtain g b where
      g: "list_remove h x = Inr (g, b)" "dll g l (P @ a # xs)"
      "same_outside (set (nodes l (P @ a # x # xs))) h g" by auto
    have gd: "dll g d ds" using dll_frame [OF "2.prems"(2) g(3) "2.prems"(3)] .
    have "x \<notin> set (nodes d ds)" using "2.prems"(3) by (auto simp: nodes_def)
    from dll_push_back [OF gd xt(2) this] obtain k where
      k: "list_push_back g d x = Inr k" "dll k d (ds @ [x])"
      "same_outside (insert x (set (nodes d ds))) g k" by auto
    have xl: "x \<notin> set (nodes l (P @ a # xs))"
      using "2.prems"(1) by (auto simp: dll_def chain_def nodes_def)
    moreover have "set (nodes l (P @ a # xs)) \<subseteq> set (nodes l (P @ a # x # xs))"
      by (auto simp: nodes_def)
    ultimately have "insert x (set (nodes d ds)) \<inter> set (nodes l (P @ a # xs)) = {}"
      using "2.prems"(3) by blast
    then have "dll k l (P @ a # xs)"
      by (rule dll_frame [OF g(2) k(3)])
    moreover have "set (nodes l (P @ a # xs)) \<inter> set (nodes d (ds @ [x])) = {}"
      using "2.prems"(3) xl by (auto simp: nodes_def)
    ultimately show ?thesis
      using "2.IH"(1) [OF True, of k P "ds @ [x]"] k(1,2) g(1) nx xt True
      by (subst list_unique_loop.simps) (auto simp: list_end_def eqv_def)
  next
    case False
    then show ?thesis
      using "2.IH"(2) [OF False, of h "P @ [a]" ds] "2.prems" nx xt
      by (subst list_unique_loop.simps) (auto simp: list_end_def eqv_def)
  qed
qed

section \<open>The list as a queue\<close>

text \<open>
  The run queue, the waiters of a semaphore and the free blocks of the allocator all use a
  list as a queue. The contract: pushing appends, popping takes the front. Clients rely on
  first-in first-out order, which follows from it.
\<close>

fun push_all :: "('h \<Rightarrow> addr \<Rightarrow> 'h outcome) \<Rightarrow> 'h \<Rightarrow> addr list \<Rightarrow> 'h outcome" where
  "push_all push h [] = Inr h"
| "push_all push h (e # es) = kbind (push h e) (\<lambda>h. push_all push h es)"

fun pop_many :: "('h \<Rightarrow> ('h \<times> addr) outcome) \<Rightarrow> nat \<Rightarrow> 'h \<Rightarrow> ('h \<times> addr list) outcome" where
  "pop_many pop 0 h = Inr (h, [])"
| "pop_many pop (Suc n) h =
     kbind (pop h) (\<lambda>(h, e). kbind (pop_many pop n h) (\<lambda>(h, es). Inr (h, e # es)))"

locale kernel_queue =
  fixes rep :: "'h \<Rightarrow> addr list \<Rightarrow> bool"
    and fresh :: "addr list \<Rightarrow> addr \<Rightarrow> bool"
    and push :: "'h \<Rightarrow> addr \<Rightarrow> 'h outcome"
    and pop :: "'h \<Rightarrow> ('h \<times> addr) outcome"
  assumes push_ok: "rep h xs \<Longrightarrow> fresh xs e \<Longrightarrow> \<exists>h'. push h e = Inr h' \<and> rep h' (xs @ [e])"
    and pop_ok: "rep h (e # xs) \<Longrightarrow> \<exists>h'. pop h = Inr (h', e) \<and> rep h' xs"
begin

lemma push_all_ok:
  "rep h xs \<Longrightarrow> (\<And>us e vs. es = us @ e # vs \<Longrightarrow> fresh (xs @ us) e) \<Longrightarrow>
   \<exists>h'. push_all push h es = Inr h' \<and> rep h' (xs @ es)"
proof (induction es arbitrary: h xs)
  case (Cons e es)
  from push_ok [OF Cons.prems(1), of e] Cons.prems(2) [of "[]" e es] obtain g where
    g: "push h e = Inr g" "rep g (xs @ [e])" by auto
  have "fresh ((xs @ [e]) @ us) f" if "es = us @ f # vs" for us f vs
    using Cons.prems(2) [of "e # us" f vs] that by simp
  from Cons.IH [OF g(2) this] g(1) show ?case by auto
qed auto

lemma pop_many_ok: "rep h (xs @ ys) \<Longrightarrow> \<exists>h'. pop_many pop (length xs) h = Inr (h', xs) \<and> rep h' ys"
proof (induction xs arbitrary: h)
  case (Cons e xs)
  from pop_ok [of h e "xs @ ys"] Cons.prems obtain g where "pop h = Inr (g, e)" "rep g (xs @ ys)"
    by auto
  with Cons.IH [of g] show ?case by auto
qed auto

lemma fifo:
  assumes "rep h xs" "\<And>us e vs. es = us @ e # vs \<Longrightarrow> fresh (xs @ us) e"
  shows "\<exists>h1 h2. push_all push h es = Inr h1 \<and>
    pop_many pop (length (xs @ es)) h1 = Inr (h2, xs @ es) \<and> rep h2 []"
proof -
  from push_all_ok [OF assms(1)] assms(2) obtain h1 where
    h1: "push_all push h es = Inr h1" "rep h1 (xs @ es)" by blast
  from pop_many_ok [of h1 "xs @ es" "[]"] h1(2) obtain h2 where
    "pop_many pop (length (xs @ es)) h1 = Inr (h2, xs @ es)" "rep h2 []" by auto
  with h1(1) show ?thesis by blast
qed

end

interpretation klq: kernel_queue "\<lambda>h. dll h l" "\<lambda>xs e. e \<noteq> NULL \<and> e \<notin> set (nodes l xs)"
  "\<lambda>h. list_push_back h l" "\<lambda>h. list_pop_front h l" for l
proof unfold_locales
  fix h xs e
  assume "dll h l xs" "e \<noteq> NULL \<and> e \<notin> set (nodes l xs)"
  then show "\<exists>h'. list_push_back h l e = Inr h' \<and> dll h' l (xs @ [e])"
    using dll_push_back by blast
next
  fix h e xs
  assume "dll h l (e # xs)"
  then show "\<exists>h'. list_pop_front h l = Inr (h', e) \<and> dll h' l xs"
    using dll_pop_front by blast
qed

section \<open>Properties\<close>

text \<open>A concrete list of the two elements 5 and 3, for the witnesses.\<close>

definition ex_list :: klist where "ex_list = \<lparr>head = 1, tail = 2\<rparr>"

definition ex_heap :: heap where
  "ex_heap = (\<lambda>_. \<lparr>prv = 0, nxt = 0\<rparr>)
     (1 := \<lparr>prv = 0, nxt = 5\<rparr>, 5 := \<lparr>prv = 1, nxt = 3\<rparr>, 3 := \<lparr>prv = 5, nxt = 2\<rparr>, 2 := \<lparr>prv = 3, nxt = 0\<rparr>)"

lemma ex_dll: "dll ex_heap ex_list [5, 3]"
  by (simp add: dll_def chain_def nodes_def ex_heap_def ex_list_def NULL_def)

lemma ex_order: "strict_weak (<)"
  by (auto simp: strict_weak_def)

text \<open>
  C7. \<^verbatim>\<open>list_sort\<close>, an in-place natural merge sort by pointer splicing, returns on every
  well-formed list and every strict weak order. None of its assertions fails, the list stays
  well formed, its elements are a sorted permutation of the old ones in which equal elements
  keep their order, and no other memory changes.
\<close>

theorem list_sort_correct:
  assumes "strict_weak lt" "dll h l xs"
  shows "\<exists>h' ys. list_sort lt h l = Some (Inr h') \<and> dll h' l ys \<and> mset ys = mset xs \<and>
     sorted_wrt (\<lambda>x y. \<not> lt y x) ys \<and>
     (\<forall>k. filter (eqv lt k) ys = filter (eqv lt k) xs) \<and> same_outside (set (nodes l xs)) h h'"
  using list_sort_ok [OF assms] .

theorem list_sort_correct_witness:
  "strict_weak (<) \<and> dll ex_heap ex_list [5, 3] \<and>
   (\<exists>h' ys. list_sort (<) ex_heap ex_list = Some (Inr h') \<and> dll h' ex_list ys \<and> mset ys = mset [5, 3])"
  using list_sort_correct [OF ex_order ex_dll] ex_order ex_dll by blast

text \<open>
  First in, first out: pushing any fresh elements at the back of a well-formed list and
  then popping from the front until the list is empty never fails and yields the old elements
  and then the new ones, each in order.
\<close>

theorem list_fifo:
  assumes "dll h l xs" "distinct es" "NULL \<notin> set es" "set es \<inter> set (nodes l xs) = {}"
  shows "\<exists>h1 h2. push_all (\<lambda>h. list_push_back h l) h es = Inr h1 \<and>
    pop_many (\<lambda>h. list_pop_front h l) (length (xs @ es)) h1 = Inr (h2, xs @ es) \<and> dll h2 l []"
  using assms by (intro klq.fifo) (auto simp: nodes_def)

theorem list_fifo_witness:
  "\<exists>h1 h2. push_all (\<lambda>h. list_push_back h ex_list) ex_heap [7, 6] = Inr h1 \<and>
    pop_many (\<lambda>h. list_pop_front h ex_list) 4 h1 = Inr (h2, [5, 3, 7, 6]) \<and> dll h2 ex_list []"
  using list_fifo [OF ex_dll, of "[7, 6]"]
  by (simp add: NULL_def nodes_def ex_list_def numeral_eq_Suc)

text \<open>
  \<^verbatim>\<open>list_reverse\<close>, which swaps the links of every element in place, returns on every
  well-formed list, leaves it well formed with its elements in the opposite order, and changes
  no other memory; so reversing twice gives the old order back.
\<close>

theorem list_reverse_correct:
  assumes "dll h l xs"
  shows "\<exists>h'. list_reverse h l = Some (Inr h') \<and> dll h' l (rev xs) \<and>
    same_outside (set (nodes l xs)) h h' \<and> (\<exists>h''. list_reverse h' l = Some (Inr h'') \<and> dll h'' l xs)"
  using dll_reverse [OF assms] dll_reverse [of _ l "rev xs"] by fastforce

theorem list_reverse_correct_witness:
  "\<exists>h'. list_reverse ex_heap ex_list = Some (Inr h') \<and> dll h' ex_list [3, 5]"
  using list_reverse_correct [OF ex_dll] by auto

text \<open>
  Moving the element range \<open>ys\<close> with \<^verbatim>\<open>list_splice\<close> to an earlier place of its
  list: the call returns, the list is well formed, and it holds the same elements with
  \<open>ys\<close> in front of \<open>us\<close>.
\<close>

theorem list_splice_correct:
  assumes "dll h l (xs @ us @ ys @ vs)" "us \<noteq> []" "ys \<noteq> []"
  shows "\<exists>h'. list_splice h (hd us) (hd ys) (hd (vs @ [tail l])) = Inr h' \<and>
    dll h' l (xs @ ys @ us @ vs)"
  using chain_splice [of h "head l # xs" us ys "vs @ [tail l]"] assms
  by (auto simp: dll_def nodes_def)

theorem list_splice_correct_witness:
  "\<exists>h'. list_splice ex_heap 5 3 2 = Inr h' \<and> dll h' ex_list [3, 5]"
  using list_splice_correct [of ex_heap ex_list "[]" "[5]" "[3]" "[]"] ex_dll
  by (simp add: ex_list_def)

text \<open>
  \<^verbatim>\<open>list_insert_ordered\<close> keeps a sorted list sorted: it returns, the new element is
  added once, after the elements equal to it, and the list is sorted afterwards.
\<close>

theorem list_insert_ordered_correct:
  assumes "strict_weak lt" "dll h l xs" "sorted_wrt (\<lambda>x y. \<not> lt y x) xs"
    and "e \<noteq> NULL" "e \<notin> set (nodes l xs)"
  shows "\<exists>h' us vs. list_insert_ordered lt h l e = Some (Inr h') \<and> xs = us @ vs \<and>
    dll h' l (us @ e # vs) \<and> sorted_wrt (\<lambda>x y. \<not> lt y x) (us @ e # vs) \<and> (\<forall>u \<in> set us. \<not> lt e u)"
proof -
  have "\<forall>u \<in> set (takeWhile (\<lambda>x. \<not> lt e x) xs). \<not> lt e u" by (auto dest: set_takeWhileD)
  moreover have "xs = takeWhile (\<lambda>x. \<not> lt e x) xs @ dropWhile (\<lambda>x. \<not> lt e x) xs" by simp
  ultimately show ?thesis
    using list_insert_ordered_ok [OF assms(2,4,5), of lt] ordered_insert_sorted [OF assms(1,3)] by blast
qed

theorem list_insert_ordered_correct_witness:
  "strict_weak (\<lambda>x y. y < x) \<and> dll ex_heap ex_list [5, 3] \<and>
   (\<exists>h'. \<exists>us vs. list_insert_ordered (\<lambda>x y. y < x) ex_heap ex_list 4 = Some (Inr h') \<and>
     dll h' ex_list (us @ 4 # vs) \<and> [5, 3] = us @ vs)"
proof -
  have "strict_weak (\<lambda>x y. y < x)" by (auto simp: strict_weak_def)
  then show ?thesis
    using list_insert_ordered_correct [of "\<lambda>x y. y < x" ex_heap ex_list "[5, 3]" 4] ex_dll
    by (auto simp: NULL_def nodes_def ex_list_def)
qed

text \<open>
  \<^verbatim>\<open>list_unique\<close> with a duplicates list: it returns, keeps of every group of adjacent
  equal elements the first, and appends the others in order to the duplicates list; both
  lists stay well formed and no element is lost.
\<close>

theorem list_unique_correct:
  assumes "dll h l (a # xs)" "dll h d ds" "set (nodes l (a # xs)) \<inter> set (nodes d ds) = {}"
  shows "\<exists>h'. list_unique lt h l (Some d) = Some (Inr h') \<and>
    dll h' l (a # keep lt a xs) \<and> dll h' d (ds @ drop_dups lt a xs) \<and>
    mset (keep lt a xs) + mset (drop_dups lt a xs) = mset xs"
proof -
  have "mset (keep lt a xs) + mset (drop_dups lt a xs) = mset xs"
    by (induction lt a xs rule: keep.induct) auto
  then show ?thesis
    using list_unique_loop_eq [of h l "[]" a xs d ds lt] assms
    by (auto simp: list_unique_def dll_empty dll_begin)
qed

theorem list_unique_correct_witness:
  "\<exists>h'. list_unique (\<lambda>_ _. False) (list_init ex_heap \<lparr>head = 8, tail = 9\<rparr>) ex_list
      (Some \<lparr>head = 8, tail = 9\<rparr>) = Some (Inr h') \<and> dll h' ex_list [5] \<and> dll h' \<lparr>head = 8, tail = 9\<rparr> [3]"
proof -
  let ?d = "\<lparr>head = 8, tail = 9\<rparr>"
  have "dll (list_init ex_heap ?d) ?d [] \<and> same_outside {8, 9} ex_heap (list_init ex_heap ?d)"
    using dll_init [of ?d ex_heap] by (simp add: NULL_def)
  moreover from this have "dll (list_init ex_heap ?d) ex_list [5, 3]"
    by (intro dll_frame [OF ex_dll, where A = "{8, 9}"]) (auto simp: nodes_def ex_list_def)
  ultimately show ?thesis
    using list_unique_correct [of "list_init ex_heap ?d" ex_list 5 "[3]" ?d "[]" "\<lambda>_ _. False"]
    by (auto simp: nodes_def ex_list_def eqv_def)
qed

text \<open>
  \<^verbatim>\<open>list_max\<close> and \<^verbatim>\<open>list_min\<close> return, on every nonempty well-formed list, the first
  of the largest and the first of the smallest elements.
\<close>

theorem list_max_min_correct:
  assumes "strict_weak lt" "dll h l (x # xs)"
  shows "(\<exists>us m vs. list_max lt h l = Some (Inr m) \<and> x # xs = us @ m # vs \<and>
       (\<forall>u \<in> set us. lt u m) \<and> (\<forall>v \<in> set vs. \<not> lt m v)) \<and>
     (\<exists>us m vs. list_min lt h l = Some (Inr m) \<and> x # xs = us @ m # vs \<and>
       (\<forall>u \<in> set us. lt m u) \<and> (\<forall>v \<in> set vs. \<not> lt v m))"
  using list_max_ok [OF assms] list_min_ok [OF assms] by blast

theorem list_max_min_correct_witness:
  "\<exists>m. list_max (<) ex_heap ex_list = Some (Inr m) \<and> m \<in> {5, 3}"
  using list_max_min_correct [OF ex_order ex_dll] by (auto simp: Cons_eq_append_conv)

end
