(* ===== verification/KString.thy ===== *)
theory KString
  imports Prelude
begin

text \<open>
  The memory and string routines of \<^verbatim>\<open>lib/string.c\<close>, on an explicit byte memory. Pointers may
  alias, so that overlapping copies are what they are in the source. The loops that look for a
  terminating null byte may not end on a memory without one; they are partial functions, and the
  lemmas show that they return on every null-terminated string. \<open>cstr m p s\<close> says that the
  string \<open>s\<close> is at address \<open>p\<close>.
\<close>

type_synonym memory = "addr \<Rightarrow> u8"

section \<open>Blocks of memory\<close>

fun copy_up :: "nat \<Rightarrow> memory \<Rightarrow> addr \<Rightarrow> addr \<Rightarrow> memory \<times> addr" where
  "copy_up 0 m dst src = (m, dst)"
| "copy_up (Suc cnt) m dst src = copy_up cnt (m(dst := m src)) (dst + 1) (src + 1)"

fun copy_down :: "nat \<Rightarrow> memory \<Rightarrow> addr \<Rightarrow> addr \<Rightarrow> memory \<times> addr" where
  "copy_down 0 m dst src = (m, dst)"
| "copy_down (Suc cnt) m dst src = copy_down cnt (m(dst - 1 := m (src - 1))) (dst - 1) (src - 1)"

definition memcpy :: "memory \<Rightarrow> addr \<Rightarrow> addr \<Rightarrow> nat \<Rightarrow> (memory \<times> addr) outcome" where
  "memcpy m dst0 src0 cnt =
     kbind (kassert (dst0 \<noteq> NULL \<or> cnt = 0)) (\<lambda>_.
     kbind (kassert (src0 \<noteq> NULL \<or> cnt = 0)) (\<lambda>_.
       Inr (fst (copy_up cnt m dst0 src0), dst0)))"

definition memmove :: "memory \<Rightarrow> addr \<Rightarrow> addr \<Rightarrow> nat \<Rightarrow> (memory \<times> addr) outcome" where
  "memmove m dst0 src0 cnt =
     kbind (kassert (dst0 \<noteq> NULL \<or> cnt = 0)) (\<lambda>_.
     kbind (kassert (src0 \<noteq> NULL \<or> cnt = 0)) (\<lambda>_.
       Inr (if dst0 < src0 then copy_up cnt m dst0 src0
            else copy_down cnt m (dst0 + cnt) (src0 + cnt))))"

fun memcmp_loop :: "memory \<Rightarrow> addr \<Rightarrow> addr \<Rightarrow> nat \<Rightarrow> int" where
  "memcmp_loop m a b 0 = 0"
| "memcmp_loop m a b (Suc cnt) =
     (if m a \<noteq> m b then (if m a > m b then 1 else - 1) else memcmp_loop m (a + 1) (b + 1) cnt)"

definition memcmp :: "memory \<Rightarrow> addr \<Rightarrow> addr \<Rightarrow> nat \<Rightarrow> int outcome" where
  "memcmp m a b cnt =
     kbind (kassert (a \<noteq> NULL \<or> cnt = 0)) (\<lambda>_.
     kbind (kassert (b \<noteq> NULL \<or> cnt = 0)) (\<lambda>_. Inr (memcmp_loop m a b cnt)))"

fun memchr_loop :: "memory \<Rightarrow> addr \<Rightarrow> u8 \<Rightarrow> nat \<Rightarrow> addr" where
  "memchr_loop m block ch 0 = NULL"
| "memchr_loop m block ch (Suc cnt) =
     (if m block = ch then block else memchr_loop m (block + 1) ch cnt)"

definition memchr :: "memory \<Rightarrow> addr \<Rightarrow> u32 \<Rightarrow> nat \<Rightarrow> addr outcome" where
  "memchr m block ch0 cnt =
     kbind (kassert (block \<noteq> NULL \<or> cnt = 0)) (\<lambda>_. Inr (memchr_loop m block (ucast ch0) cnt))"

fun memset_loop :: "memory \<Rightarrow> addr \<Rightarrow> u8 \<Rightarrow> nat \<Rightarrow> memory" where
  "memset_loop m dst v 0 = m"
| "memset_loop m dst v (Suc cnt) = memset_loop (m(dst := v)) (dst + 1) v cnt"

definition memset :: "memory \<Rightarrow> addr \<Rightarrow> u32 \<Rightarrow> nat \<Rightarrow> (memory \<times> addr) outcome" where
  "memset m dst0 value cnt =
     kbind (kassert (dst0 \<noteq> NULL \<or> cnt = 0)) (\<lambda>_.
       Inr (memset_loop m dst0 (ucast value) cnt, dst0))"

section \<open>Strings\<close>

partial_function (option) strcmp_loop :: "memory \<Rightarrow> addr \<Rightarrow> addr \<Rightarrow> int run" where
  "strcmp_loop m a b =
     (if m a \<noteq> 0 \<and> m a = m b then strcmp_loop m (a + 1) (b + 1)
      else Some (Inr (if m a < m b then - 1 else if m a > m b then 1 else 0)))"

definition strcmp :: "memory \<Rightarrow> addr \<Rightarrow> addr \<Rightarrow> int run" where
  "strcmp m a b =
     rbind (Some (kassert (a \<noteq> NULL))) (\<lambda>_. rbind (Some (kassert (b \<noteq> NULL))) (\<lambda>_. strcmp_loop m a b))"

partial_function (option) strchr_loop :: "memory \<Rightarrow> addr \<Rightarrow> u8 \<Rightarrow> addr run" where
  "strchr_loop m s c =
     (if m s = c then Some (Inr s)
      else if m s = 0 then Some (Inr NULL)
      else strchr_loop m (s + 1) c)"

definition strchr :: "memory \<Rightarrow> addr \<Rightarrow> u32 \<Rightarrow> addr run" where
  "strchr m s c0 = rbind (Some (kassert (s \<noteq> NULL))) (\<lambda>_. strchr_loop m s (ucast c0))"

partial_function (option) strcspn_loop :: "memory \<Rightarrow> addr \<Rightarrow> addr \<Rightarrow> nat \<Rightarrow> nat run" where
  "strcspn_loop m s stop len =
     (if m (s + len) \<noteq> 0
      then rbind (strchr m stop (ucast (m (s + len)))) (\<lambda>r.
             if r \<noteq> NULL then Some (Inr len) else strcspn_loop m s stop (len + 1))
      else Some (Inr len))"

definition strcspn :: "memory \<Rightarrow> addr \<Rightarrow> addr \<Rightarrow> nat run" where
  "strcspn m s stop = strcspn_loop m s stop 0"

partial_function (option) strpbrk :: "memory \<Rightarrow> addr \<Rightarrow> addr \<Rightarrow> addr run" where
  "strpbrk m s stop =
     (if m s \<noteq> 0
      then rbind (strchr m stop (ucast (m s))) (\<lambda>r.
             if r \<noteq> NULL then Some (Inr s) else strpbrk m (s + 1) stop)
      else Some (Inr NULL))"

partial_function (option) strrchr_loop :: "memory \<Rightarrow> addr \<Rightarrow> u8 \<Rightarrow> addr \<Rightarrow> addr run" where
  "strrchr_loop m s c p =
     (if m s \<noteq> 0 then strrchr_loop m (s + 1) c (if m s = c then s else p)
      else Some (Inr p))"

definition strrchr :: "memory \<Rightarrow> addr \<Rightarrow> u32 \<Rightarrow> addr run" where
  "strrchr m s c0 = strrchr_loop m s (ucast c0) NULL"

partial_function (option) strspn_loop :: "memory \<Rightarrow> addr \<Rightarrow> addr \<Rightarrow> nat \<Rightarrow> nat run" where
  "strspn_loop m s skip len =
     (if m (s + len) \<noteq> 0
      then rbind (strchr m skip (ucast (m (s + len)))) (\<lambda>r.
             if r = NULL then Some (Inr len) else strspn_loop m s skip (len + 1))
      else Some (Inr len))"

definition strspn :: "memory \<Rightarrow> addr \<Rightarrow> addr \<Rightarrow> nat run" where
  "strspn m s skip = strspn_loop m s skip 0"

partial_function (option) strlen_loop :: "memory \<Rightarrow> addr \<Rightarrow> addr run" where
  "strlen_loop m p = (if m p \<noteq> 0 then strlen_loop m (p + 1) else Some (Inr p))"

definition strlen :: "memory \<Rightarrow> addr \<Rightarrow> nat run" where
  "strlen m s =
     rbind (Some (kassert (s \<noteq> NULL))) (\<lambda>_. rbind (strlen_loop m s) (\<lambda>p. Some (Inr (p - s))))"

function strnlen_loop :: "memory \<Rightarrow> addr \<Rightarrow> nat \<Rightarrow> nat \<Rightarrow> nat" where
  "strnlen_loop m s maxlen len =
     (if m (s + len) \<noteq> 0 \<and> len < maxlen then strnlen_loop m s maxlen (len + 1) else len)"
  by pat_completeness auto
termination by (relation "measure (\<lambda>(m, s, maxlen, len). maxlen - len)") auto

definition strnlen :: "memory \<Rightarrow> addr \<Rightarrow> nat \<Rightarrow> nat" where
  "strnlen m s maxlen = strnlen_loop m s maxlen 0"

function strstr_loop :: "memory \<Rightarrow> addr \<Rightarrow> addr \<Rightarrow> nat \<Rightarrow> nat \<Rightarrow> nat \<Rightarrow> addr outcome" where
  "strstr_loop m haystack needle needle_len i lst =
     (if i \<le> lst
      then kbind (memcmp m (haystack + i) needle needle_len) (\<lambda>r.
             if r = 0 then Inr (haystack + i)
             else strstr_loop m haystack needle needle_len (i + 1) lst)
      else Inr NULL)"
  by pat_completeness auto
termination by (relation "measure (\<lambda>(m, h, n, l, i, lst). Suc lst - i)") auto

definition strstr :: "memory \<Rightarrow> addr \<Rightarrow> addr \<Rightarrow> addr run" where
  "strstr m haystack needle =
     rbind (strlen m haystack) (\<lambda>haystack_len.
     rbind (strlen m needle) (\<lambda>needle_len.
       if haystack_len \<ge> needle_len
       then Some (strstr_loop m haystack needle needle_len 0 (haystack_len - needle_len))
       else Some (Inr NULL)))"

definition strlcpy :: "memory \<Rightarrow> addr \<Rightarrow> addr \<Rightarrow> nat \<Rightarrow> (memory \<times> nat) run" where
  "strlcpy m dst src cnt =
     rbind (Some (kassert (dst \<noteq> NULL))) (\<lambda>_.
     rbind (Some (kassert (src \<noteq> NULL))) (\<lambda>_.
     rbind (strlen m src) (\<lambda>src_len.
       if cnt > 0
       then let dst_len = (if src_len < cnt - 1 then src_len else cnt - 1)
            in rbind (Some (memcpy m dst src dst_len)) (\<lambda>r.
                 Some (Inr ((fst r)(dst + dst_len := 0), src_len)))
       else Some (Inr (m, src_len)))))"

definition strlcat :: "memory \<Rightarrow> addr \<Rightarrow> addr \<Rightarrow> nat \<Rightarrow> (memory \<times> nat) run" where
  "strlcat m dst src cnt =
     rbind (Some (kassert (dst \<noteq> NULL))) (\<lambda>_.
     rbind (Some (kassert (src \<noteq> NULL))) (\<lambda>_.
     rbind (strlen m src) (\<lambda>src_len.
     rbind (strlen m dst) (\<lambda>dst_len.
       if cnt > 0 \<and> dst_len < cnt
       then let copy_cnt = (if src_len < cnt - dst_len - 1 then src_len else cnt - dst_len - 1)
            in rbind (Some (memcpy m (dst + dst_len) src copy_cnt)) (\<lambda>r.
                 Some (Inr ((fst r)(dst + (dst_len + copy_cnt) := 0), sz (src_len + dst_len))))
       else Some (Inr (m, sz (src_len + dst_len)))))))"

section \<open>The tokenizer\<close>

text \<open>The result of skipping leading delimiters: the end of the string, or the start of a token.\<close>

datatype skipped = At_end addr | Token_at addr

partial_function (option) skip_delims :: "memory \<Rightarrow> addr \<Rightarrow> addr \<Rightarrow> skipped run" where
  "skip_delims m delimiters s =
     rbind (strchr m delimiters (ucast (m s))) (\<lambda>r.
       if r \<noteq> NULL
       then if m s = 0 then Some (Inr (At_end s)) else skip_delims m delimiters (s + 1)
       else Some (Inr (Token_at s)))"

partial_function (option) skip_token :: "memory \<Rightarrow> addr \<Rightarrow> addr \<Rightarrow> addr run" where
  "skip_token m delimiters s =
     rbind (strchr m delimiters (ucast (m s))) (\<lambda>r.
       if r = NULL then skip_token m delimiters (s + 1) else Some (Inr s))"

text \<open>
  The variable that \<^verbatim>\<open>save_ptr\<close> points to is passed by value and returned: memory, saved
  position and token.
\<close>

definition strtok_r :: "memory \<Rightarrow> addr \<Rightarrow> addr \<Rightarrow> addr \<Rightarrow> (memory \<times> addr \<times> addr) run" where
  "strtok_r m s delimiters saved =
     rbind (Some (kassert (delimiters \<noteq> NULL))) (\<lambda>_.
     let s = (if s = NULL then saved else s) in
     rbind (Some (kassert (s \<noteq> NULL))) (\<lambda>_.
     rbind (skip_delims m delimiters s) (\<lambda>k. case k of
       At_end s \<Rightarrow> Some (Inr (m, s, NULL))
     | Token_at token \<Rightarrow> rbind (skip_token m delimiters token) (\<lambda>s.
         if m s \<noteq> 0 then Some (Inr (m(s := 0), s + 1, token))
         else Some (Inr (m, s, token))))))"

declare strnlen_loop.simps [simp del] strstr_loop.simps [simp del]

section \<open>What the block routines do\<close>

definition moved :: "memory \<Rightarrow> addr \<Rightarrow> addr \<Rightarrow> nat \<Rightarrow> memory" where
  "moved m dst src n = (\<lambda>x. if dst \<le> x \<and> x < dst + n then m (src + (x - dst)) else m x)"

lemma copy_up_moved:
  "dst \<le> src \<or> src + n \<le> dst \<Longrightarrow> copy_up n m dst src = (moved m dst src n, dst + n)"
proof (induction n arbitrary: m dst src)
  case 0
  then show ?case by (auto simp: moved_def fun_eq_iff)
next
  case (Suc n)
  then have "dst + 1 \<le> src + 1 \<or> src + 1 + n \<le> dst + 1" by auto
  from Suc.IH [OF this, of "m(dst := m src)"]
  have "copy_up n (m(dst := m src)) (dst + 1) (src + 1) = (moved (m(dst := m src)) (dst + 1) (src + 1) n, dst + 1 + n)" .
  moreover have "Suc (src + x - Suc dst) = src + x - dst" if "dst < x" for x using that by arith
  then have "moved (m(dst := m src)) (dst + 1) (src + 1) n = moved m dst src (Suc n)"
    using Suc.prems by (auto simp: moved_def fun_eq_iff le_Suc_eq Suc_le_eq)
  ultimately show ?case by simp
qed

lemma copy_down_moved:
  "src \<le> dst \<or> dst + n \<le> src \<Longrightarrow> copy_down n m (dst + n) (src + n) = (moved m dst src n, dst)"
proof (induction n arbitrary: m)
  case 0
  then show ?case by (auto simp: moved_def fun_eq_iff)
next
  case (Suc n)
  then have "src \<le> dst \<or> dst + n \<le> src" by auto
  from Suc.IH [OF this, of "m(dst + n := m (src + n))"]
  have "copy_down n (m(dst + n := m (src + n))) (dst + n) (src + n) = (moved (m(dst + n := m (src + n))) dst src n, dst)" .
  moreover have "moved (m(dst + n := m (src + n))) dst src n = moved m dst src (Suc n)"
    using Suc.prems by (auto simp: moved_def fun_eq_iff less_Suc_eq)
  ultimately show ?case by simp
qed

lemma memcpy_moved:
  assumes "dst \<noteq> NULL \<and> src \<noteq> NULL \<or> n = 0" "dst \<le> src \<or> src + n \<le> dst"
  shows "memcpy m dst src n = Inr (moved m dst src n, dst)"
  using assms by (auto simp: memcpy_def copy_up_moved)

lemma memset_loop_eq: "memset_loop m dst v n = (\<lambda>x. if dst \<le> x \<and> x < dst + n then v else m x)"
  by (induction n arbitrary: m dst) (auto simp: fun_eq_iff)

lemma memcmp_loop_zero: "memcmp_loop m a b n = 0 \<longleftrightarrow> (\<forall>i<n. m (a + i) = m (b + i))"
proof (induction n arbitrary: a b)
  case (Suc n)
  have "(\<forall>i<Suc n. m (a + i) = m (b + i)) \<longleftrightarrow> m a = m b \<and> (\<forall>i<n. m (a + 1 + i) = m (b + 1 + i))"
    by (auto simp: less_Suc_eq_0_disj)
  with Suc.IH [of "a + 1" "b + 1"] show ?case by simp
qed simp

section \<open>What the string routines do\<close>

fun cstr :: "memory \<Rightarrow> addr \<Rightarrow> u8 list \<Rightarrow> bool" where
  "cstr m p [] \<longleftrightarrow> m p = 0"
| "cstr m p (c # s) \<longleftrightarrow> c \<noteq> 0 \<and> m p = c \<and> cstr m (p + 1) s"

lemma cstr_iff:
  "cstr m p s \<longleftrightarrow> 0 \<notin> set s \<and> (\<forall>i<length s. m (p + i) = s ! i) \<and> m (p + length s) = 0"
proof (induction s arbitrary: p)
  case (Cons c s)
  have "(\<forall>i<length (c # s). m (p + i) = (c # s) ! i) \<longleftrightarrow> m p = c \<and> (\<forall>i<length s. m (p + 1 + i) = s ! i)"
    by (auto simp: less_Suc_eq_0_disj)
  with Cons.IH [of "p + 1"] show ?case by auto
qed simp

lemma cstr_append: "cstr m p (s @ t) \<longleftrightarrow> 0 \<notin> set s \<and> (\<forall>i<length s. m (p + i) = s ! i) \<and> cstr m (p + length s) t"
proof (induction s arbitrary: p)
  case (Cons c s)
  have "(\<forall>i<length (c # s). m (p + i) = (c # s) ! i) \<longleftrightarrow> m p = c \<and> (\<forall>i<length s. m (p + 1 + i) = s ! i)"
    by (auto simp: less_Suc_eq_0_disj)
  with Cons.IH [of "p + 1"] show ?case by auto
qed simp

lemma cstr_frame: "cstr m p s \<Longrightarrow> (\<And>x. p \<le> x \<Longrightarrow> x \<le> p + length s \<Longrightarrow> m' x = m x) \<Longrightarrow> cstr m' p s"
  by (auto simp: cstr_iff)

lemma strlen_loop_ok: "cstr m p s \<Longrightarrow> strlen_loop m p = Some (Inr (p + length s))"
  by (induction s arbitrary: p) (auto simp: strlen_loop.simps)

lemma strlen_ok: "cstr m p s \<Longrightarrow> p \<noteq> NULL \<Longrightarrow> strlen m p = Some (Inr (length s))"
  by (simp add: strlen_def strlen_loop_ok)

lemma strnlen_loop_ok:
  "cstr m p s \<Longrightarrow> len \<le> length s \<Longrightarrow> len \<le> maxlen \<Longrightarrow> strnlen_loop m p maxlen len = min (length s) maxlen"
proof (induction m p maxlen len rule: strnlen_loop.induct)
  case (1 m p maxlen len)
  then have "m (p + len) = 0 \<longleftrightarrow> len = length s"
    by (metis cstr_iff le_neq_implies_less nth_mem)
  with 1 show ?case by (cases "len = length s") (auto simp: strnlen_loop.simps [of m])
qed

lemma strchr_loop_ok:
  "cstr m p s \<Longrightarrow> strchr_loop m p c = Some (Inr
     (if c = 0 then p + length s else if c \<in> set s then p + length (takeWhile (\<lambda>x. x \<noteq> c) s) else NULL))"
  by (induction s arbitrary: p) (auto simp: strchr_loop.simps)

lemma ucast_u8_u32 [simp]: "(ucast (ucast (c :: u8) :: u32) :: u8) = c"
  by (rule bit_word_eqI) (simp add: bit_simps)

lemma strchr_mem:
  "cstr m p s \<Longrightarrow> p \<noteq> NULL \<Longrightarrow> \<exists>r. strchr m p (ucast (c :: u8)) = Some (Inr r) \<and> (r \<noteq> NULL \<longleftrightarrow> c = 0 \<or> c \<in> set s)"
  by (simp add: strchr_def strchr_loop_ok NULL_def)

lemma strcmp_loop_ok:
  "cstr m a s \<Longrightarrow> cstr m b t \<Longrightarrow> \<exists>r. strcmp_loop m a b = Some (Inr r) \<and>
     (r = 0 \<longleftrightarrow> s = t) \<and> (r < 0 \<longleftrightarrow> (s, t) \<in> lexord {(x, y). x < y})"
proof (induction s arbitrary: a b t)
  case Nil
  then show ?case by (cases t) (auto simp: strcmp_loop.simps word_gt_0)
next
  case (Cons c s)
  show ?case
  proof (cases t)
    case Nil
    with Cons.prems show ?thesis by (auto simp: strcmp_loop.simps [of m a] word_gt_0)
  next
    case (Cons d t')
    with Cons.prems Cons.IH [of "a + 1" "b + 1" t'] \<open>cstr m a (c # s)\<close> show ?thesis
      by (auto simp: strcmp_loop.simps [of m a])
  qed
qed

lemma strrchr_loop_ok:
  "cstr m p s \<Longrightarrow> strrchr_loop m p c q = Some (Inr
     (if c \<in> set s then p + length s - 1 - length (takeWhile (\<lambda>x. x \<noteq> c) (rev s)) else q))"
proof (induction s arbitrary: p q)
  case Nil
  then show ?case by (simp add: strrchr_loop.simps)
next
  case (Cons d s)
  have "takeWhile (\<lambda>x. x \<noteq> c) (rev (d # s)) = takeWhile (\<lambda>x. x \<noteq> c) (rev s)" if "c \<in> set s"
    using that by (simp add: takeWhile_append1)
  moreover have "takeWhile (\<lambda>x. x \<noteq> c) (rev (d # s)) = rev s" if "c \<notin> set s" "c = d"
    using that by (subst rev.simps, subst takeWhile_append2) auto
  ultimately show ?case using Cons by (auto simp: strrchr_loop.simps [of m p])
qed

lemma strspn_loop_ok:
  assumes "cstr m d D" "d \<noteq> NULL"
  shows "cstr m (p + len) s \<Longrightarrow> strspn_loop m p d len = Some (Inr (len + length (takeWhile (\<lambda>c. c \<in> set D) s)))"
proof (induction s arbitrary: len)
  case Nil
  then show ?case by (simp add: strspn_loop.simps)
next
  case (Cons c s)
  with strchr_mem [OF assms, of c] Cons.IH [of "len + 1"] show ?case
    by (auto simp: strspn_loop.simps [of m p d len])
qed

lemma strcspn_loop_ok:
  assumes "cstr m d D" "d \<noteq> NULL"
  shows "cstr m (p + len) s \<Longrightarrow> strcspn_loop m p d len = Some (Inr (len + length (takeWhile (\<lambda>c. c \<notin> set D) s)))"
proof (induction s arbitrary: len)
  case Nil
  then show ?case by (simp add: strcspn_loop.simps)
next
  case (Cons c s)
  with strchr_mem [OF assms, of c] Cons.IH [of "len + 1"] show ?case
    by (auto simp: strcspn_loop.simps [of m p d len])
qed

lemma strpbrk_ok:
  assumes "cstr m d D" "d \<noteq> NULL"
  shows "cstr m p s \<Longrightarrow> strpbrk m p d = Some (Inr
    (if set s \<inter> set D = {} then NULL else p + length (takeWhile (\<lambda>c. c \<notin> set D) s)))"
proof (induction s arbitrary: p)
  case Nil
  then show ?case by (simp add: strpbrk.simps)
next
  case (Cons c s)
  from strchr_mem [OF assms, of c] obtain r where
    "strchr m d (ucast c) = Some (Inr r)" "r \<noteq> NULL \<longleftrightarrow> c = 0 \<or> c \<in> set D" by blast
  with Cons show ?case
    by (cases "c \<in> set D"; cases "set s \<inter> set D = {}") (simp_all add: strpbrk.simps [of m p d])
qed

text \<open>Occurrences of one string in another.\<close>

definition occurs_at :: "u8 list \<Rightarrow> u8 list \<Rightarrow> nat \<Rightarrow> bool" where
  "occurs_at needle hay i \<longleftrightarrow> i + length needle \<le> length hay \<and> take (length needle) (drop i hay) = needle"

lemma memcmp_occurs:
  assumes "cstr m h hay" "cstr m n needle" "h \<noteq> NULL" "n \<noteq> NULL" "i + length needle \<le> length hay"
  shows "\<exists>r. memcmp m (h + i) n (length needle) = Inr r \<and> (r = 0 \<longleftrightarrow> occurs_at needle hay i)"
proof -
  have "(\<forall>k<length needle. m (h + i + k) = m (n + k)) \<longleftrightarrow> (\<forall>k<length needle. hay ! (i + k) = needle ! k)"
    using assms by (auto simp: cstr_iff add.assoc)
  also have "\<dots> \<longleftrightarrow> occurs_at needle hay i"
    using assms(5) by (auto simp: occurs_at_def list_eq_iff_nth_eq)
  finally show ?thesis
    using assms(3,4) memcmp_loop_zero [of m "h + i" n "length needle"] by (simp add: memcmp_def NULL_def)
qed

lemma strstr_loop_ok:
  assumes "cstr m h hay" "cstr m n needle" "h \<noteq> NULL" "n \<noteq> NULL" "lst + length needle = length hay"
  shows "\<exists>r. strstr_loop m h n (length needle) i lst = Inr r \<and>
    (r = NULL \<and> (\<forall>k\<ge>i. \<not> occurs_at needle hay k) \<or>
     (\<exists>k\<ge>i. r = h + k \<and> occurs_at needle hay k \<and> (\<forall>j. i \<le> j \<and> j < k \<longrightarrow> \<not> occurs_at needle hay j)))"
  using assms
proof (induction m h n "length needle" i lst rule: strstr_loop.induct)
  case (1 m h n i lst)
  show ?case
  proof (cases "i \<le> lst")
    case True
    from memcmp_occurs [OF "1.prems"(1-4), of i] True "1.prems"(5) obtain r where
      r: "memcmp m (h + i) n (length needle) = Inr r" "r = 0 \<longleftrightarrow> occurs_at needle hay i" by auto
    show ?thesis
    proof (cases "occurs_at needle hay i")
      case occ: True
      moreover have "\<not> (i \<le> j \<and> j < i)" for j by simp
      ultimately have "\<exists>k\<ge>i. h + i = h + k \<and> occurs_at needle hay k \<and> (\<forall>j. i \<le> j \<and> j < k \<longrightarrow> \<not> occurs_at needle hay j)"
        by blast
      with True r occ show ?thesis by (simp add: strstr_loop.simps [of m])
    next
      case False
      have step: "k = i \<or> i + 1 \<le> k" if "i \<le> k" for k using that by auto
      from "1.hyps" [OF True _ "1.prems"] r False obtain s where
        s: "strstr_loop m h n (length needle) (i + 1) lst = Inr s"
          "s = NULL \<and> (\<forall>k\<ge>i + 1. \<not> occurs_at needle hay k) \<or>
           (\<exists>k\<ge>i + 1. s = h + k \<and> occurs_at needle hay k \<and> (\<forall>j. i + 1 \<le> j \<and> j < k \<longrightarrow> \<not> occurs_at needle hay j))"
        by blast
      from s(2) have "s = NULL \<and> (\<forall>k\<ge>i. \<not> occurs_at needle hay k) \<or>
           (\<exists>k\<ge>i. s = h + k \<and> occurs_at needle hay k \<and> (\<forall>j. i \<le> j \<and> j < k \<longrightarrow> \<not> occurs_at needle hay j))"
        using step False by (metis Suc_eq_plus1 Suc_leD)
      with s(1) True r False show ?thesis by (simp add: strstr_loop.simps [of m])
    qed
  next
    case False
    then have "\<not> occurs_at needle hay k" if "k \<ge> i" for k
      using that "1.prems"(5) by (auto simp: occurs_at_def)
    with False show ?thesis by (auto simp: strstr_loop.simps [of m])
  qed
qed

section \<open>Tokens\<close>

function toks :: "u8 list \<Rightarrow> u8 list \<Rightarrow> u8 list list" where
  "toks D s = (let t = dropWhile (\<lambda>c. c \<in> set D) s
     in if t = [] then [] else takeWhile (\<lambda>c. c \<notin> set D) t # toks D (dropWhile (\<lambda>c. c \<notin> set D) t))"
  by pat_completeness auto
termination
proof (relation "measure (\<lambda>(D, s). length s)")
  fix D s t :: "u8 list"
  assume t: "t = dropWhile (\<lambda>c. c \<in> set D) s" "t \<noteq> []"
  then have "hd t \<notin> set D" using hd_dropWhile [of "\<lambda>c. c \<in> set D" s] by auto
  with t(2) have "length (dropWhile (\<lambda>c. c \<notin> set D) t) < length t"
    by (cases t) (auto simp: less_Suc_eq_le length_dropWhile_le)
  also have "length t \<le> length s" using t(1) by (simp add: length_dropWhile_le)
  finally show "((D, dropWhile (\<lambda>c. c \<notin> set D) t), D, s) \<in> measure (\<lambda>(D, s). length s)" by simp
qed simp

declare toks.simps [simp del]

lemma skip_delims_ok:
  assumes "cstr m d D" "d \<noteq> NULL"
  shows "cstr m p s \<Longrightarrow> skip_delims m d p = Some (Inr
    (if dropWhile (\<lambda>c. c \<in> set D) s = [] then At_end (p + length s)
     else Token_at (p + length (takeWhile (\<lambda>c. c \<in> set D) s))))"
proof (induction s arbitrary: p)
  case Nil
  with strchr_mem [OF assms, of 0] show ?case by (auto simp: skip_delims.simps)
next
  case (Cons c s)
  with strchr_mem [OF assms, of c] Cons.IH [of "p + 1"] show ?case
    by (auto simp: skip_delims.simps [of m d p])
qed

lemma skip_token_ok:
  assumes "cstr m d D" "d \<noteq> NULL"
  shows "cstr m p s \<Longrightarrow> skip_token m d p = Some (Inr (p + length (takeWhile (\<lambda>c. c \<notin> set D) s)))"
proof (induction s arbitrary: p)
  case Nil
  with strchr_mem [OF assms, of 0] show ?case by (auto simp: skip_token.simps)
next
  case (Cons c s)
  with strchr_mem [OF assms, of c] Cons.IH [of "p + 1"] show ?case
    by (auto simp: skip_token.simps [of m d p])
qed

text \<open>One call of the tokenizer at a position \<open>p\<close> where the string \<open>s\<close> is left.\<close>

lemma strtok_r_none:
  assumes "cstr m d D" "d \<noteq> NULL" "cstr m p s" "p \<noteq> NULL" "dropWhile (\<lambda>c. c \<in> set D) s = []"
    and "p = (if q = NULL then saved else q)"
  shows "strtok_r m q d saved = Some (Inr (m, p + length s, NULL))"
  using assms skip_delims_ok [OF assms(1-3)] by (auto simp: strtok_r_def Let_def)

lemma strtok_r_token:
  assumes D: "cstr m d D" "d \<noteq> NULL" and p: "cstr m p s" "p \<noteq> NULL"
    and s: "s = u @ t @ v" "u = takeWhile (\<lambda>c. c \<in> set D) s" "t = takeWhile (\<lambda>c. c \<notin> set D) (t @ v)" "t @ v \<noteq> []"
      "v = dropWhile (\<lambda>c. c \<notin> set D) (t @ v)"
    and q: "p = (if q = NULL then saved else q)"
  shows "strtok_r m q d saved = Some (Inr
    (if v = [] then (m, p + length s, p + length u)
     else (m(p + length u + length t := 0), p + length u + length t + 1, p + length u)))"
proof -
  have tv: "dropWhile (\<lambda>c. c \<in> set D) s = t @ v"
    using s(1,2) by (metis append.assoc append_same_eq same_append_eq takeWhile_dropWhile_id)
  have sk: "skip_delims m d p = Some (Inr (Token_at (p + length u)))"
    using skip_delims_ok [OF D p(1)] tv s(4) s(2) [symmetric] by auto
  have c1: "cstr m (p + length u) (t @ v)" using p(1) s(1) by (simp add: cstr_append)
  have st: "skip_token m d (p + length u) = Some (Inr (p + length u + length t))"
    using skip_token_ok [OF D c1] s(3) [symmetric] by simp
  have c2: "cstr m (p + length u + length t) v" using c1 by (simp add: cstr_append)
  then have "m (p + length u + length t) = 0 \<longleftrightarrow> v = []" by (cases v) auto
  moreover have "length s = length u + length t + length v" using s(1) by simp
  ultimately show ?thesis
    using sk st D(2) p(2) q by (auto simp: strtok_r_def Let_def add.assoc)
qed

text \<open>The loop over all tokens that the comment of the source shows.\<close>

partial_function (option) strtok_all :: "memory \<Rightarrow> addr \<Rightarrow> addr \<Rightarrow> addr \<Rightarrow> (memory \<times> addr list) run" where
  "strtok_all m s d saved =
     rbind (strtok_r m s d saved) (\<lambda>r.
       if snd (snd r) = NULL then Some (Inr (fst r, []))
       else rbind (strtok_all (fst r) NULL d (fst (snd r))) (\<lambda>q.
              Some (Inr (fst q, snd (snd r) # snd q))))"

lemma strtok_all_ok:
  assumes "cstr m d D" "d \<noteq> NULL" "cstr m p s" "p \<noteq> NULL" "p = (if q = NULL then saved else q)"
    and "d + length D < p \<or> p + length s < d"
  shows "\<exists>m' ps. strtok_all m q d saved = Some (Inr (m', ps)) \<and>
    list_all2 (\<lambda>x t. cstr m' x t \<and> p \<le> x \<and> x + length t \<le> p + length s) ps (toks D s) \<and>
    (\<forall>x. x < p \<or> p + length s \<le> x \<longrightarrow> m' x = m x)"
  using assms
proof (induction "length s" arbitrary: m p s q saved rule: less_induct)
  case less
  define w where "w = dropWhile (\<lambda>c. c \<in> set D) s"
  show ?case
  proof (cases "w = []")
    case True
    with strtok_r_none [OF less.prems(1-4) _ less.prems(5)] have
      "strtok_r m q d saved = Some (Inr (m, p + length s, NULL))" by (simp add: w_def)
    with True show ?thesis by (auto simp: strtok_all.simps [of m] toks.simps [of D s] w_def)
  next
    case False
    define u t v where "u = takeWhile (\<lambda>c. c \<in> set D) s"
      and "t = takeWhile (\<lambda>c. c \<notin> set D) w" and "v = dropWhile (\<lambda>c. c \<notin> set D) w"
    have w: "w = t @ v" by (simp add: t_def v_def)
    have s: "s = u @ t @ v" using w by (metis u_def w_def takeWhile_dropWhile_id)
    have hd: "hd w \<notin> set D" using hd_dropWhile [of "\<lambda>c. c \<in> set D" s] False by (simp add: w_def)
    then have "t \<noteq> []" using False by (cases w) (auto simp: t_def)
    have tk: "strtok_r m q d saved = Some (Inr
      (if v = [] then (m, p + length s, p + length u)
       else (m(p + length u + length t := 0), p + length u + length t + 1, p + length u)))"
      by (rule strtok_r_token [OF less.prems(1-4) s u_def _ _ _ less.prems(5)])
        (use w False t_def v_def in auto)
    have toks: "toks D s = t # toks D v"
      using False by (simp add: toks.simps [of D s] w_def [symmetric] t_def v_def)
    have ct: "cstr m (p + length u) (t @ v)" using less.prems(3) s by (simp add: cstr_append)
    show ?thesis
    proof (cases v)
      case Nil
      have e: "cstr m (p + length s) []" using less.prems(3) by (simp add: cstr_iff)
      have "strtok_r m NULL d (p + length s) = Some (Inr (m, p + length s, NULL))"
        using strtok_r_none [OF less.prems(1,2) e] less.prems(4) by (simp add: NULL_def)
      then have "strtok_all m NULL d (p + length s) = Some (Inr (m, []))"
        by (simp add: strtok_all.simps [of m])
      with tk Nil toks ct less.prems(4) s show ?thesis
        by (simp add: strtok_all.simps [of m q] NULL_def toks.simps [of D "[]"])
    next
      case (Cons c v')
      define m1 p1 where "m1 = m(p + length u + length t := 0)" and "p1 = p + length u + length t + 1"
      have "c \<in> set D" using Cons unfolding v_def dropWhile_eq_Cons_conv by blast
      then have toks1: "toks D v = toks D v'" unfolding Cons by (subst (1 2) toks.simps) simp
      have len: "length s = length u + length t + 1 + length v'" using s Cons by simp
      have d1: "cstr m1 d D"
        by (rule cstr_frame [OF less.prems(1)]) (use less.prems(6) len in \<open>auto simp: m1_def\<close>)
      have c1: "cstr m1 p1 v'"
      proof (rule cstr_frame [of m])
        have "cstr m (p + length u + length t) (c # v')" using ct Cons by (simp add: cstr_append)
        then show "cstr m p1 v'" by (simp add: p1_def)
      qed (simp add: m1_def p1_def)
      have t1: "cstr m1 (p + length u) t"
        using ct by (auto simp: cstr_append cstr_iff [of _ _ t] m1_def)
      have "length v' < length s" "p1 \<noteq> NULL" "p1 = (if NULL = NULL then p1 else NULL)"
        "d + length D < p1 \<or> p1 + length v' < d"
        using len less.prems(6) by (auto simp: p1_def NULL_def)
      from less.hyps [OF this(1) d1 less.prems(2) c1 this(2-4)] obtain m' ps where
        IH: "strtok_all m1 NULL d p1 = Some (Inr (m', ps))"
          "list_all2 (\<lambda>x t. cstr m' x t \<and> p1 \<le> x \<and> x + length t \<le> p1 + length v') ps (toks D v')"
          "\<And>x. x < p1 \<or> p1 + length v' \<le> x \<Longrightarrow> m' x = m1 x" by blast
      have run: "strtok_all m q d saved = Some (Inr (m', (p + length u) # ps))"
        using tk Cons IH(1) less.prems(4) by (simp add: strtok_all.simps [of m q] NULL_def m1_def p1_def)
      have "cstr m' (p + length u) t" by (rule cstr_frame [OF t1]) (use IH(3) in \<open>simp add: p1_def\<close>)
      moreover have "list_all2 (\<lambda>x t. cstr m' x t \<and> p \<le> x \<and> x + length t \<le> p + length s) ps (toks D v')"
        using IH(2) by (rule list_all2_mono) (auto simp: p1_def len)
      moreover have "m' x = m x" if "x < p \<or> p + length s \<le> x" for x
        using IH(3) [of x] that len by (auto simp: p1_def m1_def)
      ultimately show ?thesis using run toks toks1 s by simp
    qed
  qed
qed

section \<open>Bounded copies\<close>

lemma strlcpy_ok:
  assumes "cstr m src s" "src \<noteq> NULL" "dst \<noteq> NULL" "0 < n"
    and "dst \<le> src \<or> src + length s < dst"
  shows "\<exists>m'. strlcpy m dst src n = Some (Inr (m', length s)) \<and> cstr m' dst (take (n - 1) s) \<and>
    (\<forall>x. x < dst \<or> dst + n \<le> x \<longrightarrow> m' x = m x)"
proof -
  define k where "k = (if length s < n - 1 then length s else n - 1)"
  have k: "k \<le> length s" "k < n" using assms(4) by (auto simp: k_def)
  have mv: "memcpy m dst src k = Inr (moved m dst src k, dst)"
    using assms k by (intro memcpy_moved) auto
  define m1 where "m1 = (moved m dst src k)(dst + k := 0)"
  have "cstr m1 dst (take k s)"
    using assms(1) k by (auto simp: cstr_iff m1_def moved_def dest: in_set_takeD)
  moreover have "take k s = take (n - 1) s" by (simp add: k_def)
  moreover have "\<forall>x. x < dst \<or> dst + n \<le> x \<longrightarrow> m1 x = m x"
    using k by (auto simp: m1_def moved_def)
  moreover have "strlcpy m dst src n = rbind (Some (memcpy m dst src k)) (\<lambda>r.
      Some (Inr ((fst r)(dst + k := 0), length s)))"
    using assms unfolding strlcpy_def k_def by (simp add: strlen_ok Let_def)
  then have "strlcpy m dst src n = Some (Inr (m1, length s))" using mv by (simp add: m1_def)
  ultimately show ?thesis by auto
qed

lemma strlcat_ok:
  assumes "cstr m src s" "src \<noteq> NULL" "cstr m dst t" "dst \<noteq> NULL" "length t < n" "n + length s < 4294967296"
    and "dst + n \<le> src \<or> src + length s < dst"
  shows "\<exists>m'. strlcat m dst src n = Some (Inr (m', length s + length t)) \<and> cstr m' dst (take (n - 1) (t @ s)) \<and>
    (\<forall>x. x < dst \<or> dst + n \<le> x \<longrightarrow> m' x = m x)"
proof -
  define k where "k = (if length s < n - length t - 1 then length s else n - length t - 1)"
  have k: "k \<le> length s" "length t + k < n" using assms(5) by (auto simp: k_def)
  have mv: "memcpy m (dst + length t) src k = Inr (moved m (dst + length t) src k, dst + length t)"
    using assms k by (intro memcpy_moved) (auto simp: NULL_def)
  define m1 where "m1 = (moved m (dst + length t) src k)(dst + (length t + k) := 0)"
  have "cstr m1 dst (t @ take k s)"
  proof -
    have "m (src + i - length t) = s ! (i - length t)" if "\<not> i < length t" "i < length t + k" for i
    proof -
      have "src + i - length t = src + (i - length t)" "i - length t < length s" using that k by auto
      with assms(1) show ?thesis by (simp only: cstr_iff)
    qed
    with assms(1,3) k show ?thesis by (auto simp: cstr_iff m1_def moved_def nth_append dest: in_set_takeD)
  qed
  moreover have "t @ take k s = take (n - 1) (t @ s)"
    using assms(5) by (auto simp: k_def take_append) 
  moreover have "\<forall>x. x < dst \<or> dst + n \<le> x \<longrightarrow> m1 x = m x"
    using k by (auto simp: m1_def moved_def)
  moreover have "strlcat m dst src n = rbind (Some (memcpy m (dst + length t) src k)) (\<lambda>r.
      Some (Inr ((fst r)(dst + (length t + k) := 0), length s + length t)))"
    using assms unfolding strlcat_def k_def by (simp add: strlen_ok Let_def)
  then have "strlcat m dst src n = Some (Inr (m1, length s + length t))" using mv by (simp add: m1_def)
  ultimately show ?thesis by auto
qed

section \<open>Properties\<close>

text \<open>A memory that holds ``one  two'' at 100, a single blank at 50 and nothing else.\<close>

definition ex_mem :: memory where
  "ex_mem = (\<lambda>_. 0)(50 := 32, 100 := 111, 101 := 110, 102 := 101, 103 := 32, 104 := 32,
     105 := 116, 106 := 119, 107 := 111)"

lemma ex_strings:
  "cstr ex_mem 100 [111, 110, 101, 32, 32, 116, 119, 111]" "cstr ex_mem 50 [32]"
  "(100::addr) \<noteq> NULL" "(50::addr) \<noteq> NULL" "(200::addr) \<noteq> NULL"
  by (simp_all add: ex_mem_def NULL_def)

text \<open>
  \<^verbatim>\<open>memmove\<close> copies the block as it was before the call, whether or not the blocks overlap, and
  changes nothing else. It returns the start of the destination only when the copy runs
  downwards; when the destination lies below the source it returns the end of the block, which
  the comment ``Returns DST'' does not say.
\<close>

theorem memmove_correct:
  assumes "dst \<noteq> NULL" "src \<noteq> NULL"
  shows "memmove m dst src n = Inr
    (\<lambda>x. if dst \<le> x \<and> x < dst + n then m (src + (x - dst)) else m x, if dst < src then dst + n else dst)"
  using assms copy_up_moved [of dst src n m] copy_down_moved [of src dst n m]
  by (simp add: memmove_def moved_def)

theorem memmove_correct_witness:
  "\<exists>m'. memmove ex_mem 99 100 8 = Inr (m', 107) \<and> m' 99 = 111 \<and> m' 106 = 111 \<and> m' 107 = 111"
  using memmove_correct [of 99 100 ex_mem 8] by (simp add: NULL_def ex_mem_def)

text \<open>
  \<^verbatim>\<open>strlcpy\<close> and \<^verbatim>\<open>strlcat\<close> never write outside of the \<open>n\<close> bytes of the destination, always leave
  a terminated string there, cut to \<open>n - 1\<close> characters, and return the length that the result
  would have had without the cut.
\<close>

theorem strlcpy_strlcat_correct:
  assumes "cstr m src s" "src \<noteq> NULL" "cstr m dst t" "dst \<noteq> NULL" "length t < n" "n + length s < 4294967296"
    and "dst + n \<le> src \<or> src + length s < dst"
  shows "(\<exists>m'. strlcpy m dst src n = Some (Inr (m', length s)) \<and> cstr m' dst (take (n - 1) s) \<and>
      (\<forall>x. x < dst \<or> dst + n \<le> x \<longrightarrow> m' x = m x)) \<and>
    (\<exists>m'. strlcat m dst src n = Some (Inr (m', length s + length t)) \<and> cstr m' dst (take (n - 1) (t @ s)) \<and>
      (\<forall>x. x < dst \<or> dst + n \<le> x \<longrightarrow> m' x = m x))"
  using strlcpy_ok [OF assms(1,2,4), of n] strlcat_ok [OF assms] assms(5,7) by auto

theorem strlcpy_strlcat_correct_witness:
  "(\<exists>m'. strlcpy ex_mem 200 100 4 = Some (Inr (m', 8)) \<and> cstr m' 200 [111, 110, 101]) \<and>
   (\<exists>m'. strlcat ex_mem 200 100 4 = Some (Inr (m', 8)) \<and> cstr m' 200 [111, 110, 101])"
proof -
  have e: "cstr ex_mem 200 []" by (simp add: ex_mem_def)
  from strlcpy_strlcat_correct [OF ex_strings(1,3) e ex_strings(5), of 4] show ?thesis by auto
qed

text \<open>
  C34. Calling \<^verbatim>\<open>strtok_r\<close> until it returns a null pointer splits the string into its tokens: the
  maximal stretches of characters that are no delimiters, in order and each null-terminated in
  place. The loop ends, and no byte outside of the string changes.
\<close>

theorem strtok_r_tokens:
  assumes "cstr m d D" "d \<noteq> NULL" "cstr m p s" "p \<noteq> NULL" "d + length D < p \<or> p + length s < d"
  shows "\<exists>m' ps. strtok_all m p d saved = Some (Inr (m', ps)) \<and>
    list_all2 (\<lambda>x t. cstr m' x t \<and> p \<le> x \<and> x + length t \<le> p + length s) ps (toks D s) \<and>
    (\<forall>x. x < p \<or> p + length s \<le> x \<longrightarrow> m' x = m x)"
  using strtok_all_ok [OF assms(1-4), of p saved] assms by simp

theorem strtok_r_tokens_witness:
  "\<exists>m' ps. strtok_all ex_mem 100 50 0 = Some (Inr (m', ps)) \<and>
     list_all2 (\<lambda>x t. cstr m' x t \<and> 100 \<le> x \<and> x + length t \<le> 108) ps [[111, 110, 101], [116, 119, 111]]"
proof -
  have t: "toks [32] [111, 110, 101, 32, 32, 116, 119, 111] = [[111, 110, 101], [116, 119, 111]]"
    by (simp add: toks.simps)
  have "50 + length [32 :: u8] < (100 :: addr)" by simp
  with strtok_r_tokens [OF ex_strings(2,4,1,3), of 0] show ?thesis unfolding t by auto
qed

text \<open>
  Comparing and searching strings: \<^verbatim>\<open>strcmp\<close> returns on all terminated strings and is the
  lexicographic order of bytes, and \<^verbatim>\<open>strstr\<close> returns the first occurrence of the needle, or a
  null pointer exactly when there is none.
\<close>

theorem strcmp_strstr_correct:
  assumes "cstr m a s" "a \<noteq> NULL" "cstr m b t" "b \<noteq> NULL"
  shows "(\<exists>r. strcmp m a b = Some (Inr r) \<and> (r = 0 \<longleftrightarrow> s = t) \<and> (r < 0 \<longleftrightarrow> (s, t) \<in> lexord {(x, y). x < y})) \<and>
    (\<exists>r. strstr m a b = Some (Inr r) \<and>
      (r = NULL \<and> (\<forall>k. \<not> occurs_at t s k) \<or>
       (\<exists>k. r = a + k \<and> occurs_at t s k \<and> (\<forall>j<k. \<not> occurs_at t s j))))"
proof
  show "\<exists>r. strcmp m a b = Some (Inr r) \<and> (r = 0 \<longleftrightarrow> s = t) \<and> (r < 0 \<longleftrightarrow> (s, t) \<in> lexord {(x, y). x < y})"
    using strcmp_loop_ok [OF assms(1,3)] assms(2,4) by (simp add: strcmp_def)
  show "\<exists>r. strstr m a b = Some (Inr r) \<and>
      (r = NULL \<and> (\<forall>k. \<not> occurs_at t s k) \<or>
       (\<exists>k. r = a + k \<and> occurs_at t s k \<and> (\<forall>j<k. \<not> occurs_at t s j)))"
  proof (cases "length t \<le> length s")
    case True
    with strstr_loop_ok [OF assms(1,3,2,4), of "length s - length t" 0] assms show ?thesis
      by (auto simp: strstr_def strlen_ok)
  next
    case False
    with assms show ?thesis by (auto simp: strstr_def strlen_ok occurs_at_def)
  qed
qed

theorem strcmp_strstr_correct_witness:
  "\<exists>r. strstr ex_mem 100 50 = Some (Inr r) \<and>
      (r = NULL \<and> (\<forall>k. \<not> occurs_at [32] [111, 110, 101, 32, 32, 116, 119, 111] k) \<or>
       (\<exists>k. r = 100 + k \<and> occurs_at [32] [111, 110, 101, 32, 32, 116, 119, 111] k \<and>
         (\<forall>j<k. \<not> occurs_at [32] [111, 110, 101, 32, 32, 116, 119, 111] j)))"
  using strcmp_strstr_correct [OF ex_strings(1,3,2,4)] by blast

end
