(* ===== verification/Bitmap.thy ===== *)
theory Bitmap
  imports Prelude
begin

text \<open>
  The bitmaps of \<^verbatim>\<open>lib/kernel/bitmap.c\<close>: an array of 32-bit elements that simulates an array of
  bits. The structure is a record, so that a non-null pointer argument is the record itself; the
  element array is a list, and an access outside of it is the failure \<open>Bad_access\<close>. Sizes and
  indices are 32-bit \<^verbatim>\<open>size_t\<close>, kept as natural numbers with the wrap-around written out.
  The abstraction \<open>bools\<close> gives the array of bits, and every operation is proved to do on it what
  its comment promises. The locale \<open>region_allocator\<close> is the contract that the users of
  \<^verbatim>\<open>bitmap_scan_and_flip\<close>, the page allocator and the free map, give to their callers.
\<close>

unbundle bit_operations_syntax

section \<open>The structure and its operations\<close>

definition ELEM_BITS :: nat where [layout]: "ELEM_BITS = 32"

record bitmap =
  bit_cnt :: nat
  bits :: "u32 list"

definition BITMAP_ERROR :: nat where "BITMAP_ERROR = SIZE_MAX"

definition elem_idx :: "nat \<Rightarrow> nat" where
  "elem_idx bit_idx = bit_idx div ELEM_BITS"

definition bit_mask :: "nat \<Rightarrow> u32" where
  "bit_mask bit_idx = push_bit (bit_idx mod ELEM_BITS) 1"

definition elem_cnt :: "nat \<Rightarrow> nat" where
  "elem_cnt n = DIV_ROUND_UP n ELEM_BITS"

definition byte_cnt :: "nat \<Rightarrow> nat" where
  "byte_cnt n = sz (4 * elem_cnt n)"

definition last_mask :: "bitmap \<Rightarrow> u32" where
  "last_mask b = (let last_bits = bit_cnt b mod ELEM_BITS
                  in if last_bits \<noteq> 0 then push_bit last_bits 1 - 1 else - 1)"

definition bitmap_buf_size :: "nat \<Rightarrow> nat" where
  "bitmap_buf_size n = sz (8 + byte_cnt n)"

definition bitmap_size :: "bitmap \<Rightarrow> nat" where
  "bitmap_size b = bit_cnt b"

definition bitmap_mark :: "bitmap \<Rightarrow> nat \<Rightarrow> bitmap outcome" where
  "bitmap_mark b bit_idx =
     (let idx = elem_idx bit_idx; mask = bit_mask bit_idx
      in kbind (arr_get (bits b) idx) (\<lambda>e. kbind (arr_set (bits b) idx (e OR mask))
         (\<lambda>es. Inr (b\<lparr>bits := es\<rparr>))))"

definition bitmap_reset :: "bitmap \<Rightarrow> nat \<Rightarrow> bitmap outcome" where
  "bitmap_reset b bit_idx =
     (let idx = elem_idx bit_idx; mask = bit_mask bit_idx
      in kbind (arr_get (bits b) idx) (\<lambda>e. kbind (arr_set (bits b) idx (e AND NOT mask))
         (\<lambda>es. Inr (b\<lparr>bits := es\<rparr>))))"

definition bitmap_flip :: "bitmap \<Rightarrow> nat \<Rightarrow> bitmap outcome" where
  "bitmap_flip b bit_idx =
     (let idx = elem_idx bit_idx; mask = bit_mask bit_idx
      in kbind (arr_get (bits b) idx) (\<lambda>e. kbind (arr_set (bits b) idx (e XOR mask))
         (\<lambda>es. Inr (b\<lparr>bits := es\<rparr>))))"

definition bitmap_set :: "bitmap \<Rightarrow> nat \<Rightarrow> bool \<Rightarrow> bitmap outcome" where
  "bitmap_set b idx value =
     kbind (kassert (idx < bit_cnt b)) (\<lambda>_.
       if value then bitmap_mark b idx else bitmap_reset b idx)"

definition bitmap_test :: "bitmap \<Rightarrow> nat \<Rightarrow> bool outcome" where
  "bitmap_test b idx =
     kbind (kassert (idx < bit_cnt b)) (\<lambda>_.
     kbind (arr_get (bits b) (elem_idx idx)) (\<lambda>e. Inr (e AND bit_mask idx \<noteq> 0)))"

function bitmap_set_loop :: "bitmap \<Rightarrow> nat \<Rightarrow> nat \<Rightarrow> nat \<Rightarrow> bool \<Rightarrow> bitmap outcome" where
  "bitmap_set_loop b start i cnt value =
     (if i < cnt
      then kbind (bitmap_set b (sz (start + i)) value)
             (\<lambda>b. bitmap_set_loop b start (i + 1) cnt value)
      else Inr b)"
  by pat_completeness auto
termination by (relation "measure (\<lambda>(b, start, i, cnt, value). cnt - i)") auto

definition bitmap_set_multiple :: "bitmap \<Rightarrow> nat \<Rightarrow> nat \<Rightarrow> bool \<Rightarrow> bitmap outcome" where
  "bitmap_set_multiple b start cnt value =
     kbind (kassert (start \<le> bit_cnt b)) (\<lambda>_.
     kbind (kassert (sz (start + cnt) \<le> bit_cnt b)) (\<lambda>_.
       bitmap_set_loop b start 0 cnt value))"

definition bitmap_set_all :: "bitmap \<Rightarrow> bool \<Rightarrow> bitmap outcome" where
  "bitmap_set_all b value = bitmap_set_multiple b 0 (bitmap_size b) value"

function bitmap_count_loop :: "bitmap \<Rightarrow> nat \<Rightarrow> nat \<Rightarrow> nat \<Rightarrow> bool \<Rightarrow> nat \<Rightarrow> nat outcome" where
  "bitmap_count_loop b start i cnt value value_cnt =
     (if i < cnt
      then kbind (bitmap_test b (sz (start + i))) (\<lambda>v.
             bitmap_count_loop b start (i + 1) cnt value
               (if v = value then value_cnt + 1 else value_cnt))
      else Inr value_cnt)"
  by pat_completeness auto
termination by (relation "measure (\<lambda>(b, start, i, cnt, value, c). cnt - i)") auto

definition bitmap_count :: "bitmap \<Rightarrow> nat \<Rightarrow> nat \<Rightarrow> bool \<Rightarrow> nat outcome" where
  "bitmap_count b start cnt value =
     kbind (kassert (start \<le> bit_cnt b)) (\<lambda>_.
     kbind (kassert (sz (start + cnt) \<le> bit_cnt b)) (\<lambda>_.
       bitmap_count_loop b start 0 cnt value 0))"

function bitmap_contains_loop :: "bitmap \<Rightarrow> nat \<Rightarrow> nat \<Rightarrow> nat \<Rightarrow> bool \<Rightarrow> bool outcome" where
  "bitmap_contains_loop b start i cnt value =
     (if i < cnt
      then kbind (bitmap_test b (sz (start + i))) (\<lambda>v.
             if v = value then Inr True else bitmap_contains_loop b start (i + 1) cnt value)
      else Inr False)"
  by pat_completeness auto
termination by (relation "measure (\<lambda>(b, start, i, cnt, value). cnt - i)") auto

definition bitmap_contains :: "bitmap \<Rightarrow> nat \<Rightarrow> nat \<Rightarrow> bool \<Rightarrow> bool outcome" where
  "bitmap_contains b start cnt value =
     kbind (kassert (start \<le> bit_cnt b)) (\<lambda>_.
     kbind (kassert (sz (start + cnt) \<le> bit_cnt b)) (\<lambda>_.
       bitmap_contains_loop b start 0 cnt value))"

definition bitmap_any :: "bitmap \<Rightarrow> nat \<Rightarrow> nat \<Rightarrow> bool outcome" where
  "bitmap_any b start cnt = bitmap_contains b start cnt True"

definition bitmap_none :: "bitmap \<Rightarrow> nat \<Rightarrow> nat \<Rightarrow> bool outcome" where
  "bitmap_none b start cnt = kbind (bitmap_contains b start cnt True) (\<lambda>c. Inr (\<not> c))"

definition bitmap_all :: "bitmap \<Rightarrow> nat \<Rightarrow> nat \<Rightarrow> bool outcome" where
  "bitmap_all b start cnt = kbind (bitmap_contains b start cnt False) (\<lambda>c. Inr (\<not> c))"

function bitmap_scan_loop :: "bitmap \<Rightarrow> nat \<Rightarrow> nat \<Rightarrow> nat \<Rightarrow> bool \<Rightarrow> nat outcome" where
  "bitmap_scan_loop b i lst cnt value =
     (if i \<le> lst
      then kbind (bitmap_contains b i cnt (\<not> value)) (\<lambda>c.
             if \<not> c then Inr i else bitmap_scan_loop b (i + 1) lst cnt value)
      else Inr BITMAP_ERROR)"
  by pat_completeness auto
termination by (relation "measure (\<lambda>(b, i, lst, cnt, value). Suc lst - i)") auto

definition bitmap_scan :: "bitmap \<Rightarrow> nat \<Rightarrow> nat \<Rightarrow> bool \<Rightarrow> nat outcome" where
  "bitmap_scan b start cnt value =
     kbind (kassert (start \<le> bit_cnt b)) (\<lambda>_.
       if cnt \<le> bit_cnt b
       then bitmap_scan_loop b start (bit_cnt b - cnt) cnt value
       else Inr BITMAP_ERROR)"

definition bitmap_scan_and_flip :: "bitmap \<Rightarrow> nat \<Rightarrow> nat \<Rightarrow> bool \<Rightarrow> (bitmap \<times> nat) outcome" where
  "bitmap_scan_and_flip b start cnt value =
     kbind (bitmap_scan b start cnt value) (\<lambda>idx.
       if idx \<noteq> BITMAP_ERROR
       then kbind (bitmap_set_multiple b idx cnt (\<not> value)) (\<lambda>b. Inr (b, idx))
       else Inr (b, idx))"

text \<open>
  Creation. \<open>struct_ok\<close> says whether the first \<^verbatim>\<open>malloc\<close> found memory, and \<open>mem\<close> is the
  uninitialised array that the second one returned, \<open>None\<close> for a null pointer. (For an empty
  bitmap a null pointer is fine, and no element is ever accessed.)
\<close>

definition bitmap_create :: "nat \<Rightarrow> bool \<Rightarrow> u32 list option \<Rightarrow> bitmap option outcome" where
  "bitmap_create cnt struct_ok mem =
     (if struct_ok
      then if mem \<noteq> None \<or> cnt = 0
           then kbind (bitmap_set_all \<lparr>bit_cnt = cnt, bits = (case mem of Some m \<Rightarrow> m | None \<Rightarrow> [])\<rparr> False)
                  (\<lambda>b. Inr (Some b))
           else Inr None
      else Inr None)"

definition bitmap_create_in_buf :: "nat \<Rightarrow> u32 list \<Rightarrow> nat \<Rightarrow> bitmap outcome" where
  "bitmap_create_in_buf cnt mem block_size =
     kbind (kassert (block_size \<ge> bitmap_buf_size cnt)) (\<lambda>_.
       bitmap_set_all \<lparr>bit_cnt = cnt, bits = mem\<rparr> False)"

lemmas bitmap_ops = bitmap_scan_def bitmap_contains_def bitmap_test_def bitmap_mark_def bitmap_reset_def
  elem_idx_def bit_mask_def ELEM_BITS_def

declare bitmap_ops [ops]

declare bitmap_set_loop.simps [simp del] bitmap_count_loop.simps [simp del]
  bitmap_contains_loop.simps [simp del] bitmap_scan_loop.simps [simp del]

section \<open>The array of bits\<close>

definition bitmap_ok :: "bitmap \<Rightarrow> bool" where
  "bitmap_ok b \<longleftrightarrow> bit_cnt b + 32 \<le> 4294967296 \<and> elem_cnt (bit_cnt b) \<le> length (bits b)"

definition bools :: "bitmap \<Rightarrow> bool list" where
  "bools b = map (\<lambda>i. bit (bits b ! (i div 32)) (i mod 32)) [0..<bit_cnt b]"

lemma length_bools [simp]: "length (bools b) = bit_cnt b"
  by (simp add: bools_def)

lemma elem_in: "bitmap_ok b \<Longrightarrow> i < bit_cnt b \<Longrightarrow> i div 32 < length (bits b)"
  using div_le_mono [of "i + 32" "bit_cnt b + 31" 32]
  by (auto simp: bitmap_ok_def elem_cnt_def ELEM_BITS_def DIV_ROUND_UP_eq)

lemma bit_cnt_less: "bitmap_ok b \<Longrightarrow> bit_cnt b < 4294967265"
  by (simp add: bitmap_ok_def)

lemma and_mask_bit: "n < 32 \<Longrightarrow> (w AND push_bit n 1 \<noteq> 0) = bit (w :: u32) n"
  by (metis and_exp_eq_0_iff_not_bit push_bit_eq_mult mult_1)

lemma test_ok:
  assumes "bitmap_ok b" "i < bit_cnt b"
  shows "bitmap_test b i = Inr (bools b ! i)"
  using assms elem_in [OF assms] and_mask_bit [of "i mod 32" "bits b ! (i div 32)"]
  by (simp add: bitmap_test_def elem_idx_def bit_mask_def ELEM_BITS_def bools_def)

text \<open>An update of one bit of one element is an update of one cell of the array of bits.\<close>

lemma bools_update:
  assumes "bitmap_ok b" "i < bit_cnt b"
    and e: "\<And>j. j < 32 \<Longrightarrow> bit e j = (if j = i mod 32 then v else bit (bits b ! (i div 32)) j)"
  shows "bools (b\<lparr>bits := (bits b)[i div 32 := e]\<rparr>) = (bools b)[i := v]"
proof (rule nth_equalityI)
  fix k assume "k < length (bools (b\<lparr>bits := (bits b)[i div 32 := e]\<rparr>))"
  then have k: "k < bit_cnt b" by simp
  have l: "bools (b\<lparr>bits := (bits b)[i div 32 := e]\<rparr>) ! k = bit ((bits b)[i div 32 := e] ! (k div 32)) (k mod 32)"
    using k by (simp add: bools_def)
  have r: "(bools b)[i := v] ! k = (if k = i then v else bit (bits b ! (k div 32)) (k mod 32))"
    using k by (auto simp: bools_def nth_list_update)
  show "bools (b\<lparr>bits := (bits b)[i div 32 := e]\<rparr>) ! k = (bools b)[i := v] ! k"
  proof (cases "k div 32 = i div 32")
    case True
    then have "k mod 32 = i mod 32 \<longleftrightarrow> k = i" by (metis div_mult_mod_eq)
    with True e [of "k mod 32"] elem_in [OF assms(1) k] show ?thesis unfolding l r by simp
  next
    case False
    then show ?thesis unfolding l r by auto
  qed
qed simp

lemma bit_or_mask: "j < 32 \<Longrightarrow> n < 32 \<Longrightarrow> bit ((w :: u32) OR 2 ^ n) j = (if j = n then True else bit w j)"
  by (auto simp: bit_or_iff bit_exp_iff)

lemma bit_and_not_mask:
  "j < 32 \<Longrightarrow> n < 32 \<Longrightarrow> bit ((w :: u32) AND NOT (2 ^ n)) j = (if j = n then False else bit w j)"
  by (auto simp: bit_and_iff bit_not_iff bit_exp_iff)

lemma bit_xor_mask:
  "j < 32 \<Longrightarrow> n < 32 \<Longrightarrow> bit ((w :: u32) XOR 2 ^ n) j = (if j = n then \<not> bit w n else bit w j)"
  by (auto simp: bit_xor_iff bit_exp_iff)

lemma ok_update: "bitmap_ok (b\<lparr>bits := (bits b)[k := e]\<rparr>) = bitmap_ok b"
  by (simp add: bitmap_ok_def)

lemma set_ok:
  assumes "bitmap_ok b" "i < bit_cnt b"
  shows "\<exists>b'. bitmap_set b i v = Inr b' \<and> bitmap_ok b' \<and> bools b' = (bools b)[i := v] \<and> bit_cnt b' = bit_cnt b"
proof (cases v)
  case True
  then show ?thesis
    using assms elem_in [OF assms] bools_update [OF assms, of "bits b ! (i div 32) OR 2 ^ (i mod 32)" True]
    by (simp add: bitmap_set_def bitmap_mark_def elem_idx_def bit_mask_def ELEM_BITS_def Let_def bit_or_mask ok_update)
next
  case False
  then show ?thesis
    using assms elem_in [OF assms]
      bools_update [OF assms, of "bits b ! (i div 32) AND NOT (2 ^ (i mod 32))" False]
    by (simp add: bitmap_set_def bitmap_reset_def elem_idx_def bit_mask_def ELEM_BITS_def Let_def bit_and_not_mask ok_update)
qed

lemma flip_ok:
  assumes "bitmap_ok b" "i < bit_cnt b"
  shows "\<exists>b'. bitmap_flip b i = Inr b' \<and> bitmap_ok b' \<and> bools b' = (bools b)[i := \<not> bools b ! i] \<and>
           bit_cnt b' = bit_cnt b"
  using assms elem_in [OF assms]
    bools_update [OF assms, of "bits b ! (i div 32) XOR 2 ^ (i mod 32)" "\<not> bools b ! i"]
  by (simp add: bitmap_flip_def elem_idx_def bit_mask_def ELEM_BITS_def Let_def bit_xor_mask ok_update bools_def)

lemma set_fails: "\<not> i < bit_cnt b \<Longrightarrow> bitmap_set b i v = Inl Assert_fail"
  by (simp add: bitmap_set_def)

section \<open>Ranges\<close>

definition fill :: "'a list \<Rightarrow> nat \<Rightarrow> nat \<Rightarrow> 'a \<Rightarrow> 'a list" where
  "fill xs i n v = take i xs @ replicate n v @ drop (i + n) xs"

lemma length_fill [simp]: "i + n \<le> length xs \<Longrightarrow> length (fill xs i n v) = length xs"
  by (simp add: fill_def)

lemma nth_fill:
  "i + n \<le> length xs \<Longrightarrow> k < length xs \<Longrightarrow> fill xs i n v ! k = (if i \<le> k \<and> k < i + n then v else xs ! k)"
  by (auto simp: fill_def nth_append min_def)

lemma set_loop_ok:
  "bitmap_ok b \<Longrightarrow> start + cnt \<le> bit_cnt b \<Longrightarrow> i \<le> cnt \<Longrightarrow>
   \<exists>b'. bitmap_set_loop b start i cnt v = Inr b' \<and> bitmap_ok b' \<and> bit_cnt b' = bit_cnt b \<and>
     bools b' = fill (bools b) (start + i) (cnt - i) v"
proof (induction b start i cnt v rule: bitmap_set_loop.induct)
  case (1 b start i cnt v)
  show ?case
  proof (cases "i < cnt")
    case True
    have i: "sz (start + i) = start + i" "start + i < bit_cnt b"
      using "1.prems" True bit_cnt_less [of b] by auto
    from set_ok [OF "1.prems"(1) i(2), of v] obtain b1 where
      b1: "bitmap_set b (start + i) v = Inr b1" "bitmap_ok b1"
        "bools b1 = (bools b)[start + i := v]" "bit_cnt b1 = bit_cnt b" by blast
    from "1.IH" [OF True b1(2)] b1(4) "1.prems" True obtain b2 where
      b2: "bitmap_set_loop b1 start (i + 1) cnt v = Inr b2" "bitmap_ok b2" "bit_cnt b2 = bit_cnt b"
        "bools b2 = fill (bools b1) (start + (i + 1)) (cnt - (i + 1)) v" by auto
    have "bools b2 = fill (bools b) (start + i) (cnt - i) v"
      unfolding b2(4) b1(3)
      by (rule nth_equalityI) (use "1.prems" True in \<open>auto simp: nth_fill nth_list_update\<close>)
    with b1(1) b2 True i(1) show ?thesis by (simp add: bitmap_set_loop.simps [of b])
  next
    case False
    with "1.prems" show ?thesis by (simp add: bitmap_set_loop.simps [of b] fill_def)
  qed
qed

lemma set_multiple_ok:
  assumes "bitmap_ok b" "start + cnt \<le> bit_cnt b"
  shows "\<exists>b'. bitmap_set_multiple b start cnt v = Inr b' \<and> bitmap_ok b' \<and> bit_cnt b' = bit_cnt b \<and>
     bools b' = fill (bools b) start cnt v"
  using set_loop_ok [OF assms, of 0 v] assms bit_cnt_less [of b] by (simp add: bitmap_set_multiple_def)

lemma contains_loop_ok:
  "bitmap_ok b \<Longrightarrow> start + cnt \<le> bit_cnt b \<Longrightarrow>
   bitmap_contains_loop b start i cnt v = Inr (\<exists>k. i \<le> k \<and> k < cnt \<and> bools b ! (start + k) = v)"
proof (induction b start i cnt v rule: bitmap_contains_loop.induct)
  case (1 b start i cnt v)
  show ?case
  proof (cases "i < cnt")
    case True
    have i: "sz (start + i) = start + i" "start + i < bit_cnt b"
      using "1.prems" True bit_cnt_less [of b] by auto
    have IH: "bools b ! (start + i) \<noteq> v \<Longrightarrow> bitmap_contains_loop b start (i + 1) cnt v =
        Inr (\<exists>k. i + 1 \<le> k \<and> k < cnt \<and> bools b ! (start + k) = v)"
      using "1.IH" [OF True _ "1.prems"] by blast
    have "(\<exists>k. i \<le> k \<and> k < cnt \<and> bools b ! (start + k) = v) \<longleftrightarrow>
        bools b ! (start + i) = v \<or> (\<exists>k. i + 1 \<le> k \<and> k < cnt \<and> bools b ! (start + k) = v)"
      using True by (metis Suc_eq_plus1 Suc_leD le_refl not_less_eq_eq order_antisym)
    then show ?thesis
      using True i IH test_ok [OF "1.prems"(1) i(2)] by (simp add: bitmap_contains_loop.simps [of b])
  next
    case False
    then show ?thesis by (simp add: bitmap_contains_loop.simps [of b])
  qed
qed

definition has_run :: "bool list \<Rightarrow> nat \<Rightarrow> nat \<Rightarrow> bool \<Rightarrow> bool" where
  "has_run xs i n v \<longleftrightarrow> i + n \<le> length xs \<and> (\<forall>k. i \<le> k \<and> k < i + n \<longrightarrow> xs ! k = v)"

lemma contains_ok:
  assumes "bitmap_ok b" "start + cnt \<le> bit_cnt b"
  shows "bitmap_contains b start cnt v = Inr (\<not> has_run (bools b) start cnt (\<not> v))"
proof -
  have "(\<exists>k. 0 \<le> k \<and> k < cnt \<and> bools b ! (start + k) = v) \<longleftrightarrow> \<not> has_run (bools b) start cnt (\<not> v)"
    unfolding has_run_def using assms(2)
    by (auto simp: le_iff_add)
  then show ?thesis
    using contains_loop_ok [OF assms, of 0 v] assms bit_cnt_less [of b]
    by (simp add: bitmap_contains_def)
qed

lemma count_loop_ok:
  "bitmap_ok b \<Longrightarrow> start + cnt \<le> bit_cnt b \<Longrightarrow> i \<le> cnt \<Longrightarrow>
   bitmap_count_loop b start i cnt v c =
     Inr (c + count_list (take (cnt - i) (drop (start + i) (bools b))) v)"
proof (induction b start i cnt v c rule: bitmap_count_loop.induct)
  case (1 b start i cnt v c)
  show ?case
  proof (cases "i < cnt")
    case True
    have i: "sz (start + i) = start + i" "start + i < bit_cnt b"
      using "1.prems" True bit_cnt_less [of b] by auto
    have d: "drop (start + i) (bools b) = bools b ! (start + i) # drop (start + (i + 1)) (bools b)"
      using i(2) by (simp add: Cons_nth_drop_Suc)
    show ?thesis
      using True i "1.IH" [OF True "1.prems"(1,2)] test_ok [OF "1.prems"(1) i(2)]
      by (auto simp: bitmap_count_loop.simps [of b] d Suc_diff_Suc [symmetric] take_Suc_Cons)
  next
    case False
    then show ?thesis using "1.prems" by (simp add: bitmap_count_loop.simps [of b])
  qed
qed

lemma scan_loop_ok:
  "bitmap_ok b \<Longrightarrow> lst + cnt = bit_cnt b \<Longrightarrow>
   \<exists>r. bitmap_scan_loop b i lst cnt v = Inr r \<and>
     (r = BITMAP_ERROR \<and> (\<forall>k\<ge>i. \<not> has_run (bools b) k cnt v) \<or>
      r \<noteq> BITMAP_ERROR \<and> i \<le> r \<and> has_run (bools b) r cnt v \<and> (\<forall>k. i \<le> k \<and> k < r \<longrightarrow> \<not> has_run (bools b) k cnt v))"
proof (induction b i lst cnt v rule: bitmap_scan_loop.induct)
  case (1 b i lst cnt v)
  show ?case
  proof (cases "i \<le> lst")
    case True
    have c: "bitmap_contains b i cnt (\<not> v) = Inr (\<not> has_run (bools b) i cnt v)"
      using contains_ok [OF "1.prems"(1), of i cnt "\<not> v"] True "1.prems"(2) by simp
    show ?thesis
    proof (cases "has_run (bools b) i cnt v")
      case run: True
      have "i \<noteq> BITMAP_ERROR"
        using True "1.prems" bit_cnt_less [of b] by (simp add: BITMAP_ERROR_def SIZE_MAX_def)
      with True c run show ?thesis by (auto simp: bitmap_scan_loop.simps [of b])
    next
      case norun: False
      from "1.IH" [OF True _ "1.prems"] c norun obtain r where
        r: "bitmap_scan_loop b (i + 1) lst cnt v = Inr r"
         "r = BITMAP_ERROR \<and> (\<forall>k\<ge>i + 1. \<not> has_run (bools b) k cnt v) \<or>
          r \<noteq> BITMAP_ERROR \<and> i + 1 \<le> r \<and> has_run (bools b) r cnt v \<and>
          (\<forall>k. i + 1 \<le> k \<and> k < r \<longrightarrow> \<not> has_run (bools b) k cnt v)" by blast
      have step: "k = i \<or> i + 1 \<le> k" if "i \<le> k" for k using that by auto
      from r(2) norun have "r = BITMAP_ERROR \<and> (\<forall>k\<ge>i. \<not> has_run (bools b) k cnt v) \<or>
          r \<noteq> BITMAP_ERROR \<and> i \<le> r \<and> has_run (bools b) r cnt v \<and>
          (\<forall>k. i \<le> k \<and> k < r \<longrightarrow> \<not> has_run (bools b) k cnt v)"
        by (metis step Suc_eq_plus1 Suc_leD)
      with r(1) True c norun show ?thesis by (simp add: bitmap_scan_loop.simps [of b])
    qed
  next
    case False
    with "1.prems" show ?thesis by (auto simp: bitmap_scan_loop.simps [of b] has_run_def)
  qed
qed

lemma scan_ok:
  assumes "bitmap_ok b" "start \<le> bit_cnt b"
  shows "\<exists>r. bitmap_scan b start cnt v = Inr r \<and>
     (r = BITMAP_ERROR \<and> (\<forall>k\<ge>start. \<not> has_run (bools b) k cnt v) \<or>
      r \<noteq> BITMAP_ERROR \<and> start \<le> r \<and> has_run (bools b) r cnt v \<and>
      (\<forall>k. start \<le> k \<and> k < r \<longrightarrow> \<not> has_run (bools b) k cnt v))"
proof (cases "cnt \<le> bit_cnt b")
  case True
  with scan_loop_ok [OF assms(1), of "bit_cnt b - cnt" cnt start v] assms(2) show ?thesis
    by (simp add: bitmap_scan_def)
next
  case False
  with assms(2) show ?thesis by (auto simp: bitmap_scan_def has_run_def)
qed

text \<open>First fit: the group of bits that \<^verbatim>\<open>bitmap_scan\<close> returns, if any.\<close>

definition first_run :: "bool list \<Rightarrow> nat \<Rightarrow> nat \<Rightarrow> bool \<Rightarrow> nat \<Rightarrow> bool" where
  "first_run xs start cnt v r \<longleftrightarrow> start \<le> r \<and> has_run xs r cnt v \<and>
     (\<forall>k. start \<le> k \<and> k < r \<longrightarrow> \<not> has_run xs k cnt v)"

lemma scan_and_flip_ok:
  assumes "bitmap_ok b" "start \<le> bit_cnt b"
  shows "\<exists>b' r. bitmap_scan_and_flip b start cnt v = Inr (b', r) \<and> bitmap_ok b' \<and> bit_cnt b' = bit_cnt b \<and>
     (r = BITMAP_ERROR \<and> b' = b \<and> (\<forall>k\<ge>start. \<not> has_run (bools b) k cnt v) \<or>
      r \<noteq> BITMAP_ERROR \<and> first_run (bools b) start cnt v r \<and> bools b' = fill (bools b) r cnt (\<not> v))"
proof -
  from scan_ok [OF assms, of cnt v] obtain r where r: "bitmap_scan b start cnt v = Inr r"
    "r = BITMAP_ERROR \<and> (\<forall>k\<ge>start. \<not> has_run (bools b) k cnt v) \<or>
     r \<noteq> BITMAP_ERROR \<and> first_run (bools b) start cnt v r"
    unfolding first_run_def by blast
  show ?thesis
  proof (cases "r = BITMAP_ERROR")
    case True
    with r assms(1) show ?thesis by (simp add: bitmap_scan_and_flip_def)
  next
    case False
    with r(2) have run: "first_run (bools b) start cnt v r" by simp
    then have "r + cnt \<le> bit_cnt b" by (simp add: first_run_def has_run_def)
    from set_multiple_ok [OF assms(1) this, of "\<not> v"] False r(1) run show ?thesis
      by (auto simp: bitmap_scan_and_flip_def)
  qed
qed

lemma all_ok:
  assumes "bitmap_ok b" "start + cnt \<le> bit_cnt b"
  shows "bitmap_all b start cnt = Inr (has_run (bools b) start cnt True)"
  using contains_ok [OF assms, of False] by (simp add: bitmap_all_def)

lemma set_all_ok:
  assumes "bitmap_ok b"
  shows "\<exists>b'. bitmap_set_all b v = Inr b' \<and> bitmap_ok b' \<and> bit_cnt b' = bit_cnt b \<and>
    bools b' = replicate (bit_cnt b) v"
  using set_multiple_ok [OF assms, of 0 "bit_cnt b" v] assms
  by (auto simp: bitmap_set_all_def bitmap_size_def fill_def)

section \<open>Allocators of regions\<close>

text \<open>
  The contract of a component that hands out regions of consecutive cells, of which it records
  those in use. Whatever sequence of requests and releases is made, regions that are held at the
  same time never overlap.
\<close>

datatype request = Get nat | Put nat nat

text \<open>
  One request of a client that holds the regions \<open>snd c\<close>: it asks for a number of cells, or gives
  back a region. A client is well behaved when it asks for at least one cell and gives back only
  what it holds.
\<close>

definition client_step ::
  "('s \<Rightarrow> nat \<Rightarrow> ('s \<times> nat option) outcome) \<Rightarrow> ('s \<Rightarrow> nat \<Rightarrow> nat \<Rightarrow> 's outcome) \<Rightarrow>
   's \<times> (nat \<times> nat) list \<Rightarrow> request \<Rightarrow> ('s \<times> (nat \<times> nat) list) outcome" where
  "client_step get put c q = (case q of
     Get n \<Rightarrow> kbind (get (fst c) n) (\<lambda>r. Inr (fst r, (case snd r of None \<Rightarrow> snd c | Some i \<Rightarrow> (i, n) # snd c)))
   | Put i n \<Rightarrow> kbind (put (fst c) i n) (\<lambda>s. Inr (s, remove1 (i, n) (snd c))))"

definition allowed :: "(nat \<times> nat) list \<Rightarrow> request \<Rightarrow> bool" where
  "allowed held q = (case q of Get n \<Rightarrow> 0 < n | Put i n \<Rightarrow> (i, n) \<in> set held)"

text \<open>A run of requests; one that is not well behaved is skipped.\<close>

fun client_run ::
  "('s \<Rightarrow> nat \<Rightarrow> ('s \<times> nat option) outcome) \<Rightarrow> ('s \<Rightarrow> nat \<Rightarrow> nat \<Rightarrow> 's outcome) \<Rightarrow>
   's \<times> (nat \<times> nat) list \<Rightarrow> request list \<Rightarrow> ('s \<times> (nat \<times> nat) list) outcome" where
  "client_run get put c [] = Inr c"
| "client_run get put c (q # qs) =
     (if allowed (snd c) q
      then kbind (client_step get put c q) (\<lambda>c. client_run get put c qs)
      else client_run get put c qs)"

definition region :: "nat \<times> nat \<Rightarrow> nat set" where
  "region r = {fst r..<fst r + snd r}"

definition disjoint_regions :: "(nat \<times> nat) list \<Rightarrow> bool" where
  "disjoint_regions rs = sorted_wrt (\<lambda>r r'. region r \<inter> region r' = {}) rs"

definition held_ok :: "nat set \<Rightarrow> (nat \<times> nat) list \<Rightarrow> bool" where
  "held_ok U rs \<longleftrightarrow> (\<forall>r\<in>set rs. 0 < snd r \<and> region r \<subseteq> U) \<and> disjoint_regions rs"

lemma held_ok_get:
  "held_ok U rs \<Longrightarrow> 0 < n \<Longrightarrow> {i..<i + n} \<inter> U = {} \<Longrightarrow> held_ok (U \<union> {i..<i + n}) ((i, n) # rs)"
proof -
  assume a: "held_ok U rs" "0 < n" "{i..<i + n} \<inter> U = {}"
  then have "region (i, n) \<inter> region r = {}" if "r \<in> set rs" for r
    using that unfolding held_ok_def region_def fst_conv snd_conv by blast
  with a show ?thesis by (auto simp: held_ok_def disjoint_regions_def region_def)
qed

lemma disjoint_remove1:
  assumes "disjoint_regions rs" "r \<in> set rs"
  shows "disjoint_regions (remove1 r rs)" "r' \<in> set (remove1 r rs) \<Longrightarrow> region r \<inter> region r' = {}"
proof -
  from assms(2) obtain us vs where r: "rs = us @ r # vs" "r \<notin> set us" by (meson split_list_first)
  then have "remove1 r rs = us @ vs" by (simp add: remove1_append)
  with r(1) assms(1) show "disjoint_regions (remove1 r rs)"
      "r' \<in> set (remove1 r rs) \<Longrightarrow> region r \<inter> region r' = {}"
    by (auto simp: disjoint_regions_def sorted_wrt_append)
qed

lemma held_ok_put:
  assumes "held_ok U rs" "(i, n) \<in> set rs"
  shows "held_ok (U - {i..<i + n}) (remove1 (i, n) rs)" "{i..<i + n} \<subseteq> U" "0 < n"
proof -
  have d: "disjoint_regions rs" using assms(1) by (simp add: held_ok_def)
  have "region r \<subseteq> U - {i..<i + n} \<and> 0 < snd r" if "r \<in> set (remove1 (i, n) rs)" for r
    using disjoint_remove1(2) [OF d assms(2) that] assms(1) notin_set_remove1 [of r rs "(i, n)"] that
    by (auto simp: held_ok_def region_def)
  with disjoint_remove1(1) [OF d assms(2)] show "held_ok (U - {i..<i + n}) (remove1 (i, n) rs)"
    by (auto simp: held_ok_def)
  from assms have "region (i, n) \<subseteq> U \<and> 0 < snd (i, n)" unfolding held_ok_def by blast
  then show "{i..<i + n} \<subseteq> U" "0 < n" by (simp_all add: region_def)
qed

locale region_allocator =
  fixes inv :: "'s \<Rightarrow> bool"
    and used :: "'s \<Rightarrow> nat set"
    and get :: "'s \<Rightarrow> nat \<Rightarrow> ('s \<times> nat option) outcome"
    and put :: "'s \<Rightarrow> nat \<Rightarrow> nat \<Rightarrow> 's outcome"
  assumes get_ok: "inv s \<Longrightarrow> 0 < n \<Longrightarrow> \<exists>s' r. get s n = Inr (s', r) \<and> inv s' \<and>
      (case r of None \<Rightarrow> used s' = used s
       | Some i \<Rightarrow> {i..<i + n} \<inter> used s = {} \<and> used s' = used s \<union> {i..<i + n})"
    and put_ok: "inv s \<Longrightarrow> 0 < n \<Longrightarrow> {i..<i + n} \<subseteq> used s \<Longrightarrow>
      \<exists>s'. put s i n = Inr s' \<and> inv s' \<and> used s' = used s - {i..<i + n}"
begin

lemma step_ok:
  assumes "inv s" "held_ok (used s) rs" "allowed rs q"
  shows "\<exists>s' rs'. client_step get put (s, rs) q = Inr (s', rs') \<and> inv s' \<and> held_ok (used s') rs'"
proof (cases q)
  case (Get n)
  then have n: "0 < n" using assms(3) by (simp add: allowed_def)
  from get_ok [OF assms(1) n] obtain s' r where g: "get s n = Inr (s', r)" "inv s'"
    "case r of None \<Rightarrow> used s' = used s
     | Some i \<Rightarrow> {i..<i + n} \<inter> used s = {} \<and> used s' = used s \<union> {i..<i + n}" by blast
  with Get assms(2) n show ?thesis
    by (cases r) (auto simp: client_step_def held_ok_get)
next
  case (Put i n)
  then have mem: "(i, n) \<in> set rs" using assms(3) by (simp add: allowed_def)
  note p = held_ok_put [OF assms(2) mem]
  from put_ok [OF assms(1) p(3,2)] p(1) Put show ?thesis by (auto simp: client_step_def)
qed

lemma run_ok:
  "inv s \<Longrightarrow> held_ok (used s) rs \<Longrightarrow>
   \<exists>s' rs'. client_run get put (s, rs) qs = Inr (s', rs') \<and> inv s' \<and> held_ok (used s') rs'"
proof (induction qs arbitrary: s rs)
  case (Cons q qs)
  show ?case
  proof (cases "allowed rs q")
    case True
    from step_ok [OF Cons.prems True] obtain s1 rs1 where
      s1: "client_step get put (s, rs) q = Inr (s1, rs1)" "inv s1" "held_ok (used s1) rs1" by blast
    from Cons.IH [OF s1(2,3)] s1(1) True show ?thesis by simp
  next
    case False
    with Cons show ?thesis by simp
  qed
qed auto

end

section \<open>Properties\<close>

definition ex_bitmap :: bitmap where
  "ex_bitmap = \<lparr>bit_cnt = 40, bits = [0xfffffff7, 0x13]\<rparr>"

lemma ex_bitmap_ok: "bitmap_ok ex_bitmap"
  by (simp add: bitmap_ok_def ex_bitmap_def elem_cnt_def ELEM_BITS_def DIV_ROUND_UP_def)

text \<open>
  \<^verbatim>\<open>bitmap_scan_and_flip\<close> is first fit: on a bitmap whose array has room for its bits it returns
  \<^verbatim>\<open>BITMAP_ERROR\<close> and changes nothing when no group of \<open>cnt\<close> consecutive bits at or after
  \<open>start\<close> has the value asked for, and otherwise the first index of such a group, with exactly the
  bits of that group flipped.
\<close>

theorem bitmap_scan_and_flip_correct:
  assumes "bitmap_ok b" "start \<le> bit_cnt b"
  shows "\<exists>b' r. bitmap_scan_and_flip b start cnt v = Inr (b', r) \<and> bitmap_ok b' \<and> bit_cnt b' = bit_cnt b \<and>
     (r = BITMAP_ERROR \<and> b' = b \<and> (\<forall>k\<ge>start. \<not> has_run (bools b) k cnt v) \<or>
      r \<noteq> BITMAP_ERROR \<and> first_run (bools b) start cnt v r \<and> bools b' = fill (bools b) r cnt (\<not> v))"
  using scan_and_flip_ok [OF assms] .

theorem bitmap_scan_and_flip_correct_witness:
  "bitmap_ok ex_bitmap \<and> (\<exists>b'. bitmap_scan_and_flip ex_bitmap 31 2 False = Inr (b', 34) \<and> bitmap_ok b' \<and>
     first_run (bools ex_bitmap) 31 2 False 34 \<and> bools b' = fill (bools ex_bitmap) 34 2 True)"
proof -
  have s: "bitmap_scan ex_bitmap 31 2 False = Inr 34"
    by (simp add: ops ex_bitmap_def bitmap_scan_loop.simps bitmap_contains_loop.simps)
  have e: "34 \<noteq> BITMAP_ERROR" by (simp add: BITMAP_ERROR_def SIZE_MAX_def)
  have r: "r = 34" if "bitmap_scan_and_flip ex_bitmap 31 2 False = Inr (b', r)" for b' r
    using that s e by (auto simp: bitmap_scan_and_flip_def)
  have "31 \<le> bit_cnt ex_bitmap" by (simp add: ex_bitmap_def)
  from bitmap_scan_and_flip_correct [OF ex_bitmap_ok this, of 2 False] r e ex_bitmap_ok show ?thesis
    by metis
qed

text \<open>
  The operations on single bits and on ranges do to the array of bits what their comments say:
  a set or flipped bit is updated and no other bit changes, a test reads the bit, a range is
  filled, counted and searched exactly, and an index outside of the bitmap is a failed assertion.
\<close>

theorem bitmap_refines_array:
  assumes "bitmap_ok b"
  shows
    "(i < bit_cnt b \<longrightarrow> bitmap_test b i = Inr (bools b ! i) \<and>
       (\<exists>b'. bitmap_set b i v = Inr b' \<and> bitmap_ok b' \<and> bools b' = (bools b)[i := v]) \<and>
       (\<exists>b'. bitmap_flip b i = Inr b' \<and> bitmap_ok b' \<and> bools b' = (bools b)[i := \<not> bools b ! i])) \<and>
     (\<not> i < bit_cnt b \<longrightarrow> bitmap_test b i = Inl Assert_fail \<and> bitmap_set b i v = Inl Assert_fail) \<and>
     (start + cnt \<le> bit_cnt b \<longrightarrow>
       (\<exists>b'. bitmap_set_multiple b start cnt v = Inr b' \<and> bitmap_ok b' \<and> bools b' = fill (bools b) start cnt v) \<and>
       bitmap_count b start cnt v = Inr (count_list (take cnt (drop start (bools b))) v) \<and>
       bitmap_all b start cnt = Inr (has_run (bools b) start cnt True) \<and>
       bitmap_none b start cnt = Inr (has_run (bools b) start cnt False) \<and>
       bitmap_any b start cnt = Inr (\<not> has_run (bools b) start cnt False))"
proof (intro conjI impI)
  assume "start + cnt \<le> bit_cnt b"
  note r = assms this
  show "bitmap_count b start cnt v = Inr (count_list (take cnt (drop start (bools b))) v)"
    using count_loop_ok [OF r, of 0 v 0] r bit_cnt_less [OF assms] by (simp add: bitmap_count_def)
  show "bitmap_all b start cnt = Inr (has_run (bools b) start cnt True)" by (rule all_ok [OF r])
  show "bitmap_none b start cnt = Inr (has_run (bools b) start cnt False)"
    "bitmap_any b start cnt = Inr (\<not> has_run (bools b) start cnt False)"
    using contains_ok [OF r, of True] by (simp_all add: bitmap_none_def bitmap_any_def)
  show "\<exists>b'. bitmap_set_multiple b start cnt v = Inr b' \<and> bitmap_ok b' \<and> bools b' = fill (bools b) start cnt v"
    using set_multiple_ok [OF r, of v] by blast
qed (use assms test_ok [OF assms] set_ok [OF assms, of i v] flip_ok [OF assms, of i] set_fails [of i b v]
  in \<open>auto simp: bitmap_test_def\<close>)

theorem bitmap_refines_array_witness:
  "bitmap_test ex_bitmap 3 = Inr False \<and> bitmap_count ex_bitmap 30 6 True = Inr 4"
proof -
  have b: "bools ex_bitmap ! 3 = False" "count_list (take 6 (drop 30 (bools ex_bitmap))) True = 4"
    by (simp_all add: bools_def ex_bitmap_def drop_map take_map upt_conv_Cons)
  have c: "3 < bit_cnt ex_bitmap" "30 + 6 \<le> bit_cnt ex_bitmap" by (simp_all add: ex_bitmap_def)
  from bitmap_refines_array [OF ex_bitmap_ok, of 3 True 30 6] b c show ?thesis by simp
qed

end
