(* ===== verification/Palloc.thy ===== *)
theory Palloc
  imports Vaddr Bitmap KString "HOL-Library.Signed_Division"
begin

text \<open>
  The page allocator, \<^verbatim>\<open>threads/palloc.c\<close>: two pools of page frames, one for the kernel and one
  for user pages, each with a bitmap of the pages in use. The lock of a pool is held exactly around
  the scan of its bitmap; the model runs each call as one step, so the lock does not appear.
  \<open>ram\<close> is the content of memory, which \<^verbatim>\<open>PAL_ZERO\<close> clears and \<^verbatim>\<open>palloc_free_multiple\<close>
  fills with 0xcc.

  Shown: initialisation gives two disjoint pools of free pages, a request returns pages that were
  free and lie inside of its pool, zeroed when asked, releasing pages in use succeeds, and every
  sequence of requests and releases keeps the regions held at the same time disjoint (an instance
  of \<open>region_allocator\<close>).
\<close>

section \<open>The structure and its operations\<close>

record pool =
  used_map :: bitmap
  base :: u32

record palloc =
  kernel_pool :: pool
  user_pool :: pool
  ram :: memory

definition PAL_ASSERT :: u32 where "PAL_ASSERT = 1"
definition PAL_ZERO :: u32 where "PAL_ZERO = 2"
definition PAL_USER :: u32 where "PAL_USER = 4"

text \<open>\<open>mem\<close> is the uninitialised memory at the base of the pool, after the bitmap's structure.\<close>

definition init_pool :: "u32 \<Rightarrow> nat \<Rightarrow> u32 list \<Rightarrow> pool outcome" where
  "init_pool start page_cnt mem =
     (let bm_pages = DIV_ROUND_UP (bitmap_buf_size page_cnt) (unat PGSIZE)
      in if bm_pages > page_cnt then Inl Kernel_panic
         else kbind (bitmap_create_in_buf (page_cnt - bm_pages) mem (sz (bm_pages * unat PGSIZE)))
           (\<lambda>um. Inr \<lparr>used_map = um, base = start + of_nat bm_pages * PGSIZE\<rparr>))"

text \<open>
  \<open>end_addr\<close> is the linker's \<^verbatim>\<open>_end\<close>; the difference of the two pointers is a signed integer.
\<close>

definition palloc_init :: "u32 \<Rightarrow> u32 \<Rightarrow> nat \<Rightarrow> u32 list \<Rightarrow> u32 list \<Rightarrow> memory \<Rightarrow> palloc outcome" where
  "palloc_init end_addr ram_pages user_page_limit kmem umem m =
     (let free_start = pg_round_up end_addr
      in kbind (ptov (ram_pages * PGSIZE)) (\<lambda>free_end.
         let free_pages = unat (word_of_int (sint (free_end - free_start) sdiv int (unat PGSIZE)) :: u32);
             user_pages = free_pages div 2;
             user_pages = (if user_pages > user_page_limit then user_page_limit else user_pages);
             kernel_pages = free_pages - user_pages
         in kbind (init_pool free_start kernel_pages kmem) (\<lambda>kp.
            kbind (init_pool (free_start + of_nat kernel_pages * PGSIZE) user_pages umem) (\<lambda>up.
              Inr \<lparr>kernel_pool = kp, user_pool = up, ram = m\<rparr>))))"

definition page_from_pool :: "pool \<Rightarrow> u32 \<Rightarrow> bool" where
  "page_from_pool p page =
     (let page_no = unat (pg_no page);
          start_page = unat (pg_no (base p));
          end_page = sz (start_page + bitmap_size (used_map p))
      in page_no \<ge> start_page \<and> page_no < end_page)"

definition put_pool :: "bool \<Rightarrow> pool \<Rightarrow> palloc \<Rightarrow> palloc" where
  "put_pool user p s = (if user then s\<lparr>user_pool := p\<rparr> else s\<lparr>kernel_pool := p\<rparr>)"

definition palloc_get_multiple :: "palloc \<Rightarrow> u32 \<Rightarrow> nat \<Rightarrow> (palloc \<times> u32) outcome" where
  "palloc_get_multiple s flags page_cnt =
     (let user = (flags AND PAL_USER \<noteq> 0);
          p = (if user then user_pool s else kernel_pool s)
      in if page_cnt = 0 then Inr (s, 0)
         else kbind (bitmap_scan_and_flip (used_map p) 0 page_cnt False) (\<lambda>r.
           let s = put_pool user (p\<lparr>used_map := fst r\<rparr>) s;
               page_idx = snd r;
               pages = (if page_idx \<noteq> BITMAP_ERROR then base p + PGSIZE * of_nat page_idx else 0)
           in if pages \<noteq> 0
              then if flags AND PAL_ZERO \<noteq> 0
                   then kbind (memset (ram s) (unat pages) 0 (unat (PGSIZE * of_nat page_cnt)))
                          (\<lambda>m. Inr (s\<lparr>ram := fst m\<rparr>, pages))
                   else Inr (s, pages)
              else if flags AND PAL_ASSERT \<noteq> 0 then Inl Kernel_panic
              else Inr (s, 0)))"

definition palloc_get_page :: "palloc \<Rightarrow> u32 \<Rightarrow> (palloc \<times> u32) outcome" where
  "palloc_get_page s flags = palloc_get_multiple s flags 1"

definition palloc_free_multiple :: "palloc \<Rightarrow> u32 \<Rightarrow> nat \<Rightarrow> palloc outcome" where
  "palloc_free_multiple s pages page_cnt =
     kbind (kassert (pg_ofs pages = 0)) (\<lambda>_.
       if pages = 0 \<or> page_cnt = 0 then Inr s
       else if page_from_pool (kernel_pool s) pages \<or> page_from_pool (user_pool s) pages
       then let user = (\<not> page_from_pool (kernel_pool s) pages);
                p = (if user then user_pool s else kernel_pool s);
                page_idx = unat (pg_no pages - pg_no (base p))
            in kbind (memset (ram s) (unat pages) 0xcc (unat (PGSIZE * of_nat page_cnt))) (\<lambda>m.
               kbind (bitmap_all (used_map p) page_idx page_cnt) (\<lambda>a.
               kbind (kassert a) (\<lambda>_.
               kbind (bitmap_set_multiple (used_map p) page_idx page_cnt False) (\<lambda>um.
                 Inr ((put_pool user (p\<lparr>used_map := um\<rparr>) s)\<lparr>ram := fst m\<rparr>)))))
       else Inl Assert_fail)"

definition palloc_free_page :: "palloc \<Rightarrow> u32 \<Rightarrow> palloc outcome" where
  "palloc_free_page s page = palloc_free_multiple s page 1"

section \<open>Pools\<close>

definition pool_ok :: "pool \<Rightarrow> bool" where
  "pool_ok p \<longleftrightarrow> bitmap_ok (used_map p) \<and> pg_ofs (base p) = 0 \<and> base p \<noteq> 0 \<and>
     unat (base p) + 4096 * bit_cnt (used_map p) \<le> 4294967296"

definition first_page :: "pool \<Rightarrow> nat" where
  "first_page p = unat (pg_no (base p))"

definition pool_used :: "pool \<Rightarrow> nat set" where
  "pool_used p = {n. first_page p \<le> n \<and> n < first_page p + bit_cnt (used_map p) \<and>
     bools (used_map p) ! (n - first_page p)}"

lemma aligned_unat: "pg_ofs a = 0 \<Longrightarrow> unat a = 4096 * unat (pg_no a)"
  using unat_pg_ofs [of a] mult_div_mod_eq [of 4096 "unat a"] by (simp add: unat_pg_no)

lemma of_nat_aligned:
  assumes "n < 1048576"
  shows "unat (PGSIZE * of_nat n) = 4096 * n" "pg_ofs (PGSIZE * of_nat n) = 0" "unat (pg_no (PGSIZE * of_nat n)) = n"
proof -
  have n: "unat (of_nat n :: u32) = n" using assms by (simp add: unat_of_nat take_bit_eq_mod)
  show u: "unat (PGSIZE * of_nat n) = 4096 * n"
    using assms by (subst unat_mult_no_overflow) (simp_all add: n layout)
  show "pg_ofs (PGSIZE * of_nat n) = 0" by (rule word_eqI_unat) (simp add: unat_pg_ofs u)
  show "unat (pg_no (PGSIZE * of_nat n)) = n" by (simp add: unat_pg_no u)
qed

lemma pool_base: "pool_ok p \<Longrightarrow> unat (base p) = 4096 * first_page p"
  using aligned_unat by (simp add: pool_ok_def first_page_def)

lemma pool_ok_first: "pool_ok p \<Longrightarrow> 0 < first_page p"
proof (rule gr0I)
  assume p: "pool_ok p" and "first_page p = 0"
  then have "unat (base p) = 0" using pool_base by simp
  then have "base p = 0" by (simp only: unsigned_eq_0_iff)
  with p show False by (simp add: pool_ok_def)
qed

lemma pool_page:
  assumes "pool_ok p" "i < bit_cnt (used_map p)"
  shows "unat (base p + PGSIZE * of_nat i) = 4096 * (first_page p + i)"
    "base p + PGSIZE * of_nat i \<noteq> 0" "pg_ofs (base p + PGSIZE * of_nat i) = 0"
    "unat (pg_no (base p + PGSIZE * of_nat i)) = first_page p + i"
proof -
  note b = pool_base [OF assms(1)]
  have "first_page p + i < 1048576" using assms b by (simp add: pool_ok_def)
  then have "unat (PGSIZE * of_nat i) = 4096 * i" using of_nat_aligned(1) [of i] by simp
  with \<open>first_page p + i < 1048576\<close> show u: "unat (base p + PGSIZE * of_nat i) = 4096 * (first_page p + i)"
    using b by (subst unat_add_no_overflow) simp_all
  show "base p + PGSIZE * of_nat i \<noteq> 0"
    using u pool_ok_first [OF assms(1)] by (metis add_is_0 mult_is_0 unat_0 zero_neq_numeral not_gr0)
  show "pg_ofs (base p + PGSIZE * of_nat i) = 0" by (rule word_eqI_unat) (simp add: unat_pg_ofs u)
  show "unat (pg_no (base p + PGSIZE * of_nat i)) = first_page p + i" by (simp add: unat_pg_no u)
qed

lemma first_page_bound: "pool_ok p \<Longrightarrow> first_page p + bit_cnt (used_map p) \<le> 1048576"
  using aligned_unat [of "base p"] by (simp add: pool_ok_def first_page_def)

lemma page_from_pool_iff:
  "pool_ok p \<Longrightarrow> page_from_pool p page \<longleftrightarrow>
     first_page p \<le> unat (pg_no page) \<and> unat (pg_no page) < first_page p + bit_cnt (used_map p)"
  using first_page_bound [of p] by (simp add: page_from_pool_def first_page_def bitmap_size_def Let_def)

lemma page_range:
  fixes a :: nat
  shows "4096 * a \<le> x \<and> x < 4096 * a + 4096 * n \<longleftrightarrow> x div 4096 \<in> {a..<a + n}"
  by (auto simp: less_eq_div_iff_mult_less_eq div_less_iff_less_mult)

lemma memset_ok: "dst \<noteq> NULL \<Longrightarrow> memset m dst v n = Inr (memset_loop m dst (ucast v) n, dst)"
  by (simp add: memset_def)

lemma mem_pool_used:
  "first_page p + i \<in> pool_used p \<longleftrightarrow> i < bit_cnt (used_map p) \<and> bools (used_map p) ! i"
  "x < first_page p \<Longrightarrow> x \<notin> pool_used p"
  by (auto simp: pool_used_def)

lemma pool_used_fill:
  assumes "bools um = fill (bools (used_map p)) r n v" "bit_cnt um = bit_cnt (used_map p)"
    "r + n \<le> bit_cnt (used_map p)"
  shows "pool_used (p\<lparr>used_map := um\<rparr>) =
    (if v then pool_used p \<union> {first_page p + r..<first_page p + r + n}
     else pool_used p - {first_page p + r..<first_page p + r + n})" (is "?l = ?r")
proof (rule set_eqI)
  fix x
  have f: "first_page (p\<lparr>used_map := um\<rparr>) = first_page p" by (simp add: first_page_def)
  show "x \<in> ?l \<longleftrightarrow> x \<in> ?r"
  proof (cases "first_page p \<le> x")
    case True
    then obtain i where "x = first_page p + i" using le_Suc_ex by blast
    then show ?thesis
      using mem_pool_used(1) [of p i] mem_pool_used(1) [of "p\<lparr>used_map := um\<rparr>" i] assms
      unfolding f by (auto simp: nth_fill split: if_splits)
  next
    case False
    then show ?thesis using mem_pool_used(2) [of x p] mem_pool_used(2) [of x "p\<lparr>used_map := um\<rparr>"] f by auto
  qed
qed

lemma has_run_used:
  "has_run (bools (used_map p)) r n False \<Longrightarrow>
   {first_page p + r..<first_page p + r + n} \<inter> pool_used p = {}"
  "r + n \<le> bit_cnt (used_map p) \<Longrightarrow> {first_page p + r..<first_page p + r + n} \<subseteq> pool_used p \<Longrightarrow>
   has_run (bools (used_map p)) r n True"
proof -
  assume "has_run (bools (used_map p)) r n False"
  then have "x \<notin> pool_used p" if "first_page p + r \<le> x" "x < first_page p + r + n" for x
    using that by (auto simp: has_run_def pool_used_def dest: spec [of _ "x - first_page p"])
  then show "{first_page p + r..<first_page p + r + n} \<inter> pool_used p = {}" by auto
next
  assume a: "r + n \<le> bit_cnt (used_map p)" "{first_page p + r..<first_page p + r + n} \<subseteq> pool_used p"
  have "bools (used_map p) ! k" if "r \<le> k" "k < r + n" for k
  proof -
    have "first_page p + k \<in> pool_used p" using a(2) that by auto
    then show ?thesis by (simp add: pool_used_def)
  qed
  with a(1) show "has_run (bools (used_map p)) r n True" by (simp add: has_run_def)
qed

section \<open>The two pools together\<close>

text \<open>
  The kernel pool lies below the user pool, with at least one page, that of the user pool's bitmap,
  between them.
\<close>

definition palloc_ok :: "palloc \<Rightarrow> bool" where
  "palloc_ok s \<longleftrightarrow> pool_ok (kernel_pool s) \<and> pool_ok (user_pool s) \<and>
     first_page (kernel_pool s) + bit_cnt (used_map (kernel_pool s)) < first_page (user_pool s)"

definition pages_used :: "palloc \<Rightarrow> nat set" where
  "pages_used s = pool_used (kernel_pool s) \<union> pool_used (user_pool s)"

abbreviation pool_of :: "bool \<Rightarrow> palloc \<Rightarrow> pool" where
  "pool_of user s \<equiv> if user then user_pool s else kernel_pool s"

lemma put_pool_simps [simp]:
  "pool_of u (put_pool u p s) = p"
  "pool_of (\<not> u) (put_pool u p s) = pool_of (\<not> u) s"
  "ram (put_pool u p s) = ram s"
  "put_pool u (pool_of u s) s = s"
  by (simp_all add: put_pool_def)

lemma pages_used_pool: "pages_used s = pool_used (pool_of u s) \<union> pool_used (pool_of (\<not> u) s)"
  by (auto simp: pages_used_def)

lemma palloc_ok_pool: "palloc_ok s \<Longrightarrow> pool_ok (pool_of u s)"
  by (simp add: palloc_ok_def)

lemma pools_disjoint:
  assumes "palloc_ok s"
  shows "pool_used (pool_of u s) \<inter> pool_used (pool_of (\<not> u) s) = {}"
    "{first_page (pool_of u s)..<first_page (pool_of u s) + bit_cnt (used_map (pool_of u s))} \<inter>
      pool_used (pool_of (\<not> u) s) = {}"
  using assms by (auto simp: palloc_ok_def pool_used_def)

lemma palloc_ok_update:
  assumes "palloc_ok s" "bitmap_ok um" "bit_cnt um = bit_cnt (used_map (pool_of u s))"
  shows "palloc_ok (put_pool u ((pool_of u s)\<lparr>used_map := um\<rparr>) s)"
  using assms by (auto simp: palloc_ok_def put_pool_def pool_ok_def first_page_def)

lemma palloc_ok_ram [simp]: "palloc_ok (s\<lparr>ram := m\<rparr>) = palloc_ok s"
  and pages_used_ram [simp]: "pages_used (s\<lparr>ram := m\<rparr>) = pages_used s"
  by (simp_all add: palloc_ok_def pages_used_def)

lemma pages_used_put:
  "pages_used (put_pool u p s) = pool_used p \<union> pool_used (pool_of (\<not> u) s)"
  by (auto simp: pages_used_def put_pool_def)

lemma alloc_regions:
  assumes s: "palloc_ok s" and um: "bitmap_ok um" "bit_cnt um = bit_cnt (used_map (pool_of u s))"
    "bools um = fill (bools (used_map (pool_of u s))) r n True"
    and run: "has_run (bools (used_map (pool_of u s))) r n False"
  defines "R \<equiv> {first_page (pool_of u s) + r..<first_page (pool_of u s) + r + n}"
  defines "s1 \<equiv> put_pool u ((pool_of u s)\<lparr>used_map := um\<rparr>) s"
  shows "palloc_ok s1" "pages_used s1 = pages_used s \<union> R" "R \<inter> pages_used s = {}"
proof -
  have rn: "r + n \<le> bit_cnt (used_map (pool_of u s))" using run by (simp add: has_run_def)
  show "palloc_ok s1" unfolding s1_def by (rule palloc_ok_update [OF s um(1,2)])
  show "pages_used s1 = pages_used s \<union> R"
    unfolding s1_def pages_used_put pages_used_pool [of s u] pool_used_fill [OF um(3,2) rn] R_def by auto
  have "R \<subseteq> {first_page (pool_of u s)..<first_page (pool_of u s) + bit_cnt (used_map (pool_of u s))}"
    using rn by (auto simp: R_def)
  then have "R \<inter> pool_used (pool_of (\<not> u) s) = {}" using pools_disjoint(2) [OF s, of u] by blast
  then show "R \<inter> pages_used s = {}"
    using has_run_used(1) [OF run] unfolding pages_used_pool [of s u] R_def by blast
qed

text \<open>What a request returns: the first of the pages, all of which were free, or nothing.\<close>

lemma palloc_get_ok:
  fixes flags :: u32
  assumes "palloc_ok s" "0 < n"
  defines "u \<equiv> flags AND PAL_USER \<noteq> 0"
  defines "p \<equiv> pool_of u s"
  shows "(\<exists>s' i. palloc_get_multiple s flags n = Inr (s', base p + PGSIZE * of_nat i) \<and> palloc_ok s' \<and>
       i + n \<le> bit_cnt (used_map p) \<and> first_run (bools (used_map p)) 0 n False i \<and>
       pages_used s' = pages_used s \<union> {first_page p + i..<first_page p + i + n} \<and>
       {first_page p + i..<first_page p + i + n} \<inter> pages_used s = {} \<and>
       ram s' = (\<lambda>x. if flags AND PAL_ZERO \<noteq> 0 \<and> x div 4096 \<in> {first_page p + i..<first_page p + i + n} then 0 else ram s x)) \<or>
     (\<forall>k. \<not> has_run (bools (used_map p)) k n False) \<and>
       palloc_get_multiple s flags n = (if flags AND PAL_ASSERT \<noteq> 0 then Inl Kernel_panic else Inr (s, 0))"
proof -
  have pok: "pool_ok p" using palloc_ok_pool [OF assms(1)] by (simp add: p_def)
  then have bok: "bitmap_ok (used_map p)" by (simp add: pool_ok_def)
  have def: "palloc_get_multiple s flags n = kbind (bitmap_scan_and_flip (used_map p) 0 n False) (\<lambda>r.
           let s = put_pool u (p\<lparr>used_map := fst r\<rparr>) s;
               page_idx = snd r;
               pages = (if page_idx \<noteq> BITMAP_ERROR then base p + PGSIZE * of_nat page_idx else 0)
           in if pages \<noteq> 0
              then if flags AND PAL_ZERO \<noteq> 0
                   then kbind (memset (ram s) (unat pages) 0 (unat (PGSIZE * of_nat n)))
                          (\<lambda>m. Inr (s\<lparr>ram := fst m\<rparr>, pages))
                   else Inr (s, pages)
              else if flags AND PAL_ASSERT \<noteq> 0 then Inl Kernel_panic
              else Inr (s, 0))"
    using assms(2) unfolding palloc_get_multiple_def u_def p_def Let_def by simp
  from scan_and_flip_ok [OF bok, of 0 n False] obtain um r where
    um: "bitmap_scan_and_flip (used_map p) 0 n False = Inr (um, r)" "bitmap_ok um" "bit_cnt um = bit_cnt (used_map p)"
     "r = BITMAP_ERROR \<and> um = used_map p \<and> (\<forall>k. \<not> has_run (bools (used_map p)) k n False) \<or>
      r \<noteq> BITMAP_ERROR \<and> first_run (bools (used_map p)) 0 n False r \<and> bools um = fill (bools (used_map p)) r n True"
    by auto
  show ?thesis
  proof (cases "r = BITMAP_ERROR")
    case True
    with um have "palloc_get_multiple s flags n = (if flags AND PAL_ASSERT \<noteq> 0 then Inl Kernel_panic else Inr (s, 0))"
      unfolding def by (simp add: p_def)
    with True um(4) show ?thesis by blast
  next
    case False
    with um(4) have run: "first_run (bools (used_map p)) 0 n False r" "bools um = fill (bools (used_map p)) r n True"
      by auto
    then have hr: "has_run (bools (used_map p)) r n False" by (simp add: first_run_def)
    then have rn: "r + n \<le> bit_cnt (used_map p)" by (simp add: has_run_def)
    note pg = pool_page [OF pok, of r]
    have pg0: "base p + PGSIZE * of_nat r \<noteq> 0" using pg rn assms(2) by simp
    define s1 where "s1 = put_pool u (p\<lparr>used_map := um\<rparr>) s"
    note a = alloc_regions [OF assms(1) um(2) um(3) [unfolded p_def] run(2) [unfolded p_def] hr [unfolded p_def],
        folded p_def, folded s1_def]
    have size: "unat (PGSIZE * of_nat n) = 4096 * n"
      using of_nat_aligned(1) [of n] rn first_page_bound [OF pok] pool_ok_first [OF pok] by simp
    have b: "unat (base p + PGSIZE * of_nat r) = 4096 * (first_page p + r)" "unat (base p + PGSIZE * of_nat r) \<noteq> NULL"
      using pg(1) rn assms(2) pool_ok_first [OF pok] by (simp_all add: NULL_def)
    define s2 where "s2 = (if flags AND PAL_ZERO \<noteq> 0
      then s1\<lparr>ram := memset_loop (ram s) (4096 * (first_page p + r)) 0 (4096 * n)\<rparr> else s1)"
    have get: "palloc_get_multiple s flags n = Inr (s2, base p + PGSIZE * of_nat r)"
      using um(1) False pg0 b unfolding def s2_def s1_def
      by (simp add: memset_ok size Let_def)
    have "ram s2 = (\<lambda>x. if flags AND PAL_ZERO \<noteq> 0 \<and> x div 4096 \<in> {first_page p + r..<first_page p + r + n} then 0 else ram s x)"
      using page_range [of "first_page p + r" _ n] by (auto simp: s2_def s1_def memset_loop_eq fun_eq_iff)
    moreover have "palloc_ok s2" "pages_used s2 = pages_used s1" using a(1) by (simp_all add: s2_def)
    ultimately show ?thesis using get rn run(1) a by (intro disjI1 exI [of _ s2] exI [of _ r]) simp
  qed
qed

text \<open>A region of pages in use lies in one pool, because a page between the pools is never used.\<close>

lemma region_in_pool:
  assumes "palloc_ok s" "0 < n" "{i..<i + n} \<subseteq> pages_used s"
  obtains u where "first_page (pool_of u s) \<le> i" "i + n \<le> first_page (pool_of u s) + bit_cnt (used_map (pool_of u s))"
    "{i..<i + n} \<subseteq> pool_used (pool_of u s)" "u = (\<not> (first_page (kernel_pool s) \<le> i \<and> i < first_page (kernel_pool s) + bit_cnt (used_map (kernel_pool s))))"
proof -
  define K where "K = first_page (kernel_pool s)"
  define E where "E = K + bit_cnt (used_map (kernel_pool s))"
  define U where "U = first_page (user_pool s)"
  define F where "F = U + bit_cnt (used_map (user_pool s))"
  have gap: "E < U" using assms(1) by (simp add: palloc_ok_def K_def E_def U_def)
  have k: "x \<in> pool_used (kernel_pool s) \<Longrightarrow> K \<le> x \<and> x < E" for x by (auto simp: pool_used_def K_def E_def)
  have uu: "x \<in> pool_used (user_pool s) \<Longrightarrow> U \<le> x \<and> x < F" for x by (auto simp: pool_used_def U_def F_def)
  have in1: "x \<in> pool_used (kernel_pool s) \<or> x \<in> pool_used (user_pool s)" if "i \<le> x" "x < i + n" for x
    using assms(3) that by (auto simp: pages_used_def)
  have iu: "i \<in> pool_used (kernel_pool s) \<or> i \<in> pool_used (user_pool s)" using in1 [of i] assms(2) by simp
  show thesis
  proof (cases "i < E")
    case True
    have "i + n \<le> E"
    proof (rule ccontr)
      assume "\<not> i + n \<le> E"
      with True have "E \<in> pool_used (kernel_pool s) \<or> E \<in> pool_used (user_pool s)" using in1 [of E] by auto
      with k [of E] uu [of E] gap show False by auto
    qed
    moreover have "x \<in> pool_used (kernel_pool s)" if "i \<le> x" "x < i + n" for x
      using in1 [OF that] uu [of x] gap that calculation by auto
    ultimately have "i + n \<le> E" "{i..<i + n} \<subseteq> pool_used (kernel_pool s)" by auto
    then show thesis
      using that [of False] iu k [of i] uu [of i] gap True by (auto simp: K_def E_def)
  next
    case False
    have mem: "x \<in> pool_used (user_pool s)" if "i \<le> x" "x < i + n" for x
      using in1 [OF that] k [of x] False that by auto
    have "i + n - 1 \<in> pool_used (user_pool s)" using mem [of "i + n - 1"] assms(2) by auto
    then have "i + n \<le> F" using uu [of "i + n - 1"] by auto
    moreover have "{i..<i + n} \<subseteq> pool_used (user_pool s)" using mem by auto
    ultimately show thesis
      using that [of True] iu uu [of i] k [of i] False assms(2) by (auto simp: U_def F_def K_def E_def)
  qed
qed

lemma palloc_free_ok:
  assumes "palloc_ok s" "0 < n" "{i..<i + n} \<subseteq> pages_used s"
  shows "\<exists>s'. palloc_free_multiple s (PGSIZE * of_nat i) n = Inr s' \<and> palloc_ok s' \<and>
    pages_used s' = pages_used s - {i..<i + n} \<and>
    ram s' = (\<lambda>x. if x div 4096 \<in> {i..<i + n} then 0xcc else ram s x)"
proof -
  obtain u where u: "first_page (pool_of u s) \<le> i" "i + n \<le> first_page (pool_of u s) + bit_cnt (used_map (pool_of u s))"
    "{i..<i + n} \<subseteq> pool_used (pool_of u s)" "u = (\<not> (first_page (kernel_pool s) \<le> i \<and> i < first_page (kernel_pool s) + bit_cnt (used_map (kernel_pool s))))"
    using region_in_pool [OF assms] .
  define p where "p = pool_of u s"
  define r where "r = i - first_page p"
  have pok: "pool_ok p" using palloc_ok_pool [OF assms(1)] by (simp add: p_def)
  have i: "i = first_page p + r" "r + n \<le> bit_cnt (used_map p)" using u(1,2) by (auto simp: r_def p_def)
  have lt: "i < 1048576" "n < 1048576" using i(2) first_page_bound [OF pok] pool_ok_first [OF pok] assms(2) u(1) by (auto simp: i(1))
  note pg = of_nat_aligned [OF lt(1)] and sz = of_nat_aligned(1) [OF lt(2)]
  have i0: "0 < i" using pool_ok_first [OF pok] i(1) by simp
  then have nz: "PGSIZE * of_nat i \<noteq> 0" using pg(1) by (metis mult_is_0 unat_0 zero_neq_numeral less_irrefl)
  have from_pool: "page_from_pool (kernel_pool s) (PGSIZE * of_nat i) = (\<not> u)"
    using page_from_pool_iff [of "kernel_pool s" "PGSIZE * of_nat i"] palloc_ok_pool [OF assms(1), of False] pg(3) u(4)
    by simp
  have from_any: "page_from_pool (kernel_pool s) (PGSIZE * of_nat i) \<or> page_from_pool (user_pool s) (PGSIZE * of_nat i)"
    using from_pool page_from_pool_iff [of "user_pool s" "PGSIZE * of_nat i"] palloc_ok_pool [OF assms(1), of True] pg(3)
      u(1,2) assms(2) by auto
  have le: "pg_no (base p) \<le> pg_no (PGSIZE * of_nat i)"
    using pg(3) i(1) by (simp add: word_le_nat_alt first_page_def)
  have idx: "unat (pg_no (PGSIZE * of_nat i) - pg_no (base p)) = r"
    using le pg(3) i(1) by (simp add: unat_sub first_page_def)
  have all: "bitmap_all (used_map p) r n = Inr True"
    using all_ok [of "used_map p" r n] pok i has_run_used(2) [OF i(2)] u(3) by (simp add: pool_ok_def p_def add.assoc)
  from set_multiple_ok [of "used_map p" r n False] pok i(2) obtain um where
    um: "bitmap_set_multiple (used_map p) r n False = Inr um" "bitmap_ok um" "bit_cnt um = bit_cnt (used_map p)"
      "bools um = fill (bools (used_map p)) r n False" by (auto simp: pool_ok_def)
  define s1 where "s1 = (put_pool u (p\<lparr>used_map := um\<rparr>) s)\<lparr>ram := memset_loop (ram s) (4096 * i) 0xcc (4096 * n)\<rparr>"
  have pu: "(if \<not> page_from_pool (kernel_pool s) (PGSIZE * of_nat i) then user_pool s else kernel_pool s) = p"
    using from_pool by (simp add: p_def)
  have free: "palloc_free_multiple s (PGSIZE * of_nat i) n = Inr s1"
    unfolding palloc_free_multiple_def Let_def pu idx s1_def
    using pg(1,2) nz assms(2) from_any from_pool all um(1) i0 sz
    by (simp add: memset_ok NULL_def)
  have ok1: "palloc_ok s1"
    using palloc_ok_update [OF assms(1) um(2) um(3) [unfolded p_def]] by (simp add: s1_def p_def)
  have "pages_used s1 = (pool_used p - {i..<i + n}) \<union> pool_used (pool_of (\<not> u) s)"
    using pool_used_fill [OF um(4,3) i(2)] by (simp add: s1_def pages_used_put i(1) add.assoc)
  also have "\<dots> = pages_used s - {i..<i + n}"
    using u(3) pools_disjoint(1) [OF assms(1), of u] unfolding pages_used_pool [of s u] p_def by blast
  finally have "pages_used s1 = pages_used s - {i..<i + n}" .
  moreover have "ram s1 = (\<lambda>x. if x div 4096 \<in> {i..<i + n} then 0xcc else ram s x)"
    using page_range [of i _ n] by (auto simp: s1_def memset_loop_eq fun_eq_iff)
  ultimately show ?thesis using free ok1 by blast
qed

section \<open>Initialisation\<close>

lemma elem_cnt_eq: "n < 1048576 \<Longrightarrow> elem_cnt n = (n + 31) div 32"
  by (simp add: elem_cnt_def ELEM_BITS_def DIV_ROUND_UP_eq)

lemma buf_size_eq: "n < 1048576 \<Longrightarrow> bitmap_buf_size n = 8 + 4 * ((n + 31) div 32)"
  by (simp add: bitmap_buf_size_def byte_cnt_def elem_cnt_eq)

lemma init_pool_ok:
  assumes start: "pg_ofs start = 0" "start \<noteq> 0" "unat start + 4096 * n < 4294967296"
    and n: "0 < n" "n < 1048576" "(n + 31) div 32 \<le> length mem"
  shows "\<exists>p. init_pool start n mem = Inr p \<and> pool_ok p \<and> pool_used p = {} \<and>
    unat (pg_no start) < first_page p \<and> first_page p + bit_cnt (used_map p) = unat (pg_no start) + n"
proof -
  define e where "e = (n + 31) div 32"
  define bm where "bm = (8 + 4 * e + 4095) div 4096"
  have e: "e \<le> n" using n(1) by (simp add: e_def)
  have bm: "1 \<le> bm" "bm \<le> n" "8 + 4 * e \<le> bm * 4096"
  proof -
    have "8 + 4 * e + 4095 < (n + 1) * 4096" using e n(1) by simp
    then have "bm < n + 1" unfolding bm_def by (rule less_mult_imp_div_less)
    then show "bm \<le> n" by simp
    have "1 * 4096 \<le> 8 + 4 * e + 4095" by simp
    then show "1 \<le> bm" unfolding bm_def by (metis div_le_mono nonzero_mult_div_cancel_right zero_neq_numeral)
    have "8 + 4 * e + 4095 < (bm + 1) * 4096" unfolding bm_def
      by (metis Suc_eq_plus1 dividend_less_div_times mult.commute mult_Suc_right add.commute zero_less_numeral)
    then show "8 + 4 * e \<le> bm * 4096" by simp
  qed
  have round: "DIV_ROUND_UP (bitmap_buf_size n) (unat PGSIZE) = bm"
    using n(2) e by (simp add: buf_size_eq e_def [symmetric] PGSIZE_val DIV_ROUND_UP_eq bm_def)
  define c where "c = n - bm"
  have ec: "(c + 31) div 32 \<le> e" unfolding c_def e_def by (rule div_le_mono) simp
  have c: "c < 1048576" using n(2) by (simp add: c_def)
  have bok: "bitmap_ok \<lparr>bit_cnt = c, bits = mem\<rparr>"
    using n(3) ec c by (simp add: bitmap_ok_def elem_cnt_eq e_def)
  from set_all_ok [OF bok, of False] obtain um where
    um: "bitmap_set_all \<lparr>bit_cnt = c, bits = mem\<rparr> False = Inr um" "bitmap_ok um" "bit_cnt um = c"
      "bools um = replicate c False" by auto
  have "bitmap_buf_size c \<le> sz (bm * unat PGSIZE)"
    using bm ec n(2) c by (simp add: buf_size_eq PGSIZE_val)
  then have cr: "bitmap_create_in_buf c mem (sz (bm * unat PGSIZE)) = Inr um"
    using um(1) by (simp add: bitmap_create_in_buf_def)
  define p where "p = \<lparr>used_map = um, base = start + of_nat bm * PGSIZE\<rparr>"
  have ip: "init_pool start n mem = Inr p"
    unfolding init_pool_def Let_def round using bm(2) cr by (simp add: c_def p_def)
  have st: "unat start = 4096 * unat (pg_no start)" using aligned_unat [OF start(1)] .
  have st0: "0 < unat (pg_no start)"
    using st start(2) by (metis gr0I mult_0_right unsigned_eq_0_iff)
  have "unat (PGSIZE * of_nat bm) = 4096 * bm" using of_nat_aligned(1) [of bm] bm n by simp
  then have b: "unat (base p) = 4096 * (unat (pg_no start) + bm)"
    using st start(3) bm(2) st0 n by (simp add: p_def mult.commute) (subst unat_add_no_overflow; simp)
  have fp: "first_page p = unat (pg_no start) + bm" by (simp add: first_page_def unat_pg_no b)
  have al: "pg_ofs (base p) = 0" by (rule word_eqI_unat) (simp add: unat_pg_ofs b)
  have "base p \<noteq> 0" using b st0 by auto
  then have "pool_ok p"
    using um(2,3) al b start(3) st bm(2) by (simp add: pool_ok_def p_def c_def)
  moreover have "pool_used p = {}" using um(3,4) by (auto simp: pool_used_def p_def)
  ultimately show ?thesis using ip fp bm um(3) by (auto simp: p_def c_def)
qed

text \<open>Half of the free pages go to each pool, up to the limit given for user pages.\<close>

lemma palloc_init_ok:
  assumes fs: "unat e + 4095 < 4294967296" "PHYS_BASE \<le> e"
    and r: "unat ram_pages < 262144"
    and free: "unat (pg_round_up e) + 8192 \<le> 0xc0000000 + 4096 * unat ram_pages" "0 < limit"
    and mem: "8192 \<le> length kmem" "8192 \<le> length umem"
  shows "\<exists>s. palloc_init e ram_pages limit kmem umem m = Inr s \<and> palloc_ok s \<and> pages_used s = {}"
proof -
  define st where "st = pg_round_up e"
  define fe where "fe = ram_pages * PGSIZE + PHYS_BASE"
  have ram: "unat (ram_pages * PGSIZE) = 4096 * unat ram_pages"
    using r by (subst unat_mult_no_overflow) (simp_all add: layout)
  then have ptov: "ptov (ram_pages * PGSIZE) = Inr fe"
    using r by (simp add: ptov_def fe_def word_less_nat_alt layout)
  have ufe: "unat fe = 0xc0000000 + 4096 * unat ram_pages"
    unfolding fe_def using r ram by (subst unat_add_no_overflow) (simp_all add: layout)
  have ust: "unat st = (unat e + 4095) div 4096 * 4096" unfolding st_def by (rule unat_pg_round_up [OF fs(1)])
  define a where "a = (unat e + 4095) div 4096"
  have al: "pg_ofs st = 0" by (rule word_eqI_unat) (simp add: unat_pg_ofs ust)
  have a: "unat (pg_no st) = a" "unat st = 4096 * a" using ust by (simp_all add: unat_pg_no a_def)
  have a0: "786432 \<le> a" using fs(2) by (simp add: a_def layout word_le_nat_alt)
  define k where "k = 786432 + unat ram_pages - a"
  have k: "2 \<le> k" "k \<le> 262144" "a + k = 786432 + unat ram_pages" using free(1) a(2) a0 r by (auto simp: k_def st_def)
  have le: "st \<le> fe" using ufe a(2) k by (simp add: word_le_nat_alt)
  have d: "unat (fe - st) = 4096 * k" using le ufe a(2) k by (simp add: unat_sub)
  have "uint (fe - st) = 4096 * int k" using d by (simp add: uint_nat)
  then have sd: "sint (fe - st) = 4096 * int k"
    using k(2) by (simp add: sint_uint signed_take_bit_int_eq_self)
  have fp: "unat (word_of_int (sint (fe - st) sdiv int (unat PGSIZE)) :: u32) = k"
    using k by (simp add: sd PGSIZE_val signed_divide_int_def sgn_if unat_of_nat take_bit_eq_mod)
  define up where "up = (if k div 2 > limit then limit else k div 2)"
  define kp where "kp = k - up"
  have sz: "0 < up" "0 < kp" "up + kp = k" using k(1) free(2) by (auto simp: up_def kp_def)
  have bound: "4096 * (a + k) < 4294967296" using k(3) r by simp
  have m32: "(x + 31) div 32 \<le> 8192" if "x \<le> k" for x using that k(2) by (simp add: div_le_mono)
  have "st \<noteq> 0" using a a0 by auto
  with init_pool_ok [of st kp kmem] al a bound sz m32 [of kp] mem(1) a0 k obtain K where
    K: "init_pool st kp kmem = Inr K" "pool_ok K" "pool_used K = {}"
      "first_page K + bit_cnt (used_map K) = a + kp" by auto
  have u1: "unat (st + of_nat kp * PGSIZE) = 4096 * (a + kp)"
    using of_nat_aligned(1) [of kp] a(2) bound sz k(2)
    by (subst unat_add_no_overflow) (simp_all add: mult.commute)
  have al1: "pg_ofs (st + of_nat kp * PGSIZE) = 0" by (rule word_eqI_unat) (simp add: unat_pg_ofs u1)
  have "st + of_nat kp * PGSIZE \<noteq> 0" using u1 a0 by auto
  with init_pool_ok [of "st + of_nat kp * PGSIZE" up umem] al1 u1 bound sz m32 [of up] mem(2) k obtain U where
    U: "init_pool (st + of_nat kp * PGSIZE) up umem = Inr U" "pool_ok U" "pool_used U = {}" "a + kp < first_page U"
    by (auto simp: unat_pg_no)
  have "palloc_init e ram_pages limit kmem umem m = Inr \<lparr>kernel_pool = K, user_pool = U, ram = m\<rparr>"
    unfolding palloc_init_def Let_def st_def [symmetric] ptov kbind_simps fp up_def [symmetric] kp_def [symmetric]
    using K(1) U(1) by simp
  with K U show ?thesis by (auto simp: palloc_ok_def pages_used_def)
qed

section \<open>The allocator as a client sees it\<close>

text \<open>Pages are named by their numbers; no page is the null pointer.\<close>

definition get_pages :: "u32 \<Rightarrow> palloc \<Rightarrow> nat \<Rightarrow> (palloc \<times> nat option) outcome" where
  "get_pages flags s n = kbind (palloc_get_multiple s flags n)
     (\<lambda>r. Inr (fst r, if snd r = 0 then None else Some (unat (pg_no (snd r)))))"

definition put_pages :: "palloc \<Rightarrow> nat \<Rightarrow> nat \<Rightarrow> palloc outcome" where
  "put_pages s i n = palloc_free_multiple s (PGSIZE * of_nat i) n"

lemma get_pages_ok:
  fixes flags :: u32
  assumes "palloc_ok s" "0 < n" "flags AND PAL_ASSERT = 0"
  shows "\<exists>s' r. get_pages flags s n = Inr (s', r) \<and> palloc_ok s' \<and>
    (case r of None \<Rightarrow> pages_used s' = pages_used s
     | Some i \<Rightarrow> {i..<i + n} \<inter> pages_used s = {} \<and> pages_used s' = pages_used s \<union> {i..<i + n})"
  using palloc_get_ok [OF assms(1,2), of flags]
proof (elim disjE exE conjE)
  let ?p = "pool_of (flags AND PAL_USER \<noteq> 0) s"
  fix s' i
  assume a: "palloc_get_multiple s flags n = Inr (s', base ?p + PGSIZE * of_nat i)" "palloc_ok s'"
    "i + n \<le> bit_cnt (used_map ?p)"
    "pages_used s' = pages_used s \<union> {first_page ?p + i..<first_page ?p + i + n}"
    "{first_page ?p + i..<first_page ?p + i + n} \<inter> pages_used s = {}"
  have "i < bit_cnt (used_map ?p)" using a(3) assms(2) by simp
  note pg = pool_page [OF palloc_ok_pool [OF assms(1)] this]
  have "get_pages flags s n = Inr (s', Some (first_page ?p + i))"
    unfolding get_pages_def a(1) using pg(2,4) by simp
  with a(2,4,5) show ?thesis by (intro exI [of _ s'] exI [of _ "Some (first_page ?p + i)"]) simp
qed (use assms in \<open>auto simp: get_pages_def\<close>)

interpretation kpages: region_allocator palloc_ok pages_used "get_pages 0" put_pages
proof unfold_locales
  fix s :: palloc and n i :: nat
  assume s: "palloc_ok s" "0 < n"
  show "\<exists>s' r. get_pages 0 s n = Inr (s', r) \<and> palloc_ok s' \<and>
    (case r of None \<Rightarrow> pages_used s' = pages_used s
     | Some i \<Rightarrow> {i..<i + n} \<inter> pages_used s = {} \<and> pages_used s' = pages_used s \<union> {i..<i + n})"
    using get_pages_ok [OF s, of 0] by simp
  assume "{i..<i + n} \<subseteq> pages_used s"
  from palloc_free_ok [OF s this]
  show "\<exists>s'. put_pages s i n = Inr s' \<and> palloc_ok s' \<and> pages_used s' = pages_used s - {i..<i + n}"
    unfolding put_pages_def by blast
qed

interpretation upages: region_allocator palloc_ok pages_used "get_pages PAL_USER" put_pages
proof unfold_locales
  fix s :: palloc and n i :: nat
  assume s: "palloc_ok s" "0 < n"
  have "PAL_USER AND PAL_ASSERT = 0" by (simp add: PAL_USER_def PAL_ASSERT_def)
  from get_pages_ok [OF s this] show "\<exists>s' r. get_pages PAL_USER s n = Inr (s', r) \<and> palloc_ok s' \<and>
    (case r of None \<Rightarrow> pages_used s' = pages_used s
     | Some i \<Rightarrow> {i..<i + n} \<inter> pages_used s = {} \<and> pages_used s' = pages_used s \<union> {i..<i + n})" .
  assume "{i..<i + n} \<subseteq> pages_used s"
  then show "\<exists>s'. put_pages s i n = Inr s' \<and> palloc_ok s' \<and> pages_used s' = pages_used s - {i..<i + n}"
    by (rule kpages.put_ok [OF s])
qed

section \<open>Properties\<close>

definition ex_palloc :: palloc where
  "ex_palloc = \<lparr>kernel_pool = \<lparr>used_map = \<lparr>bit_cnt = 3, bits = [1]\<rparr>, base = 0xc0101000\<rparr>,
     user_pool = \<lparr>used_map = \<lparr>bit_cnt = 2, bits = [0]\<rparr>, base = 0xc0105000\<rparr>, ram = (\<lambda>_. 7)\<rparr>"

lemma ex_palloc_ok: "palloc_ok ex_palloc"
  by (simp add: palloc_ok_def pool_ok_def ex_palloc_def bitmap_ok_def elem_cnt_def ELEM_BITS_def DIV_ROUND_UP_def
      first_page_def pg_no_def pg_ofs_def layout)

text \<open>
  Initialisation of the page allocator succeeds whenever at least two pages are left above the
  kernel image and the user pool may have a page: the two pools lie in free memory one above the
  other, never overlap, and all of their pages are free.
\<close>

theorem palloc_init_correct:
  assumes "unat e + 4095 < 4294967296" "PHYS_BASE \<le> e" "unat ram_pages < 262144"
    and "unat (pg_round_up e) + 8192 \<le> 0xc0000000 + 4096 * unat ram_pages" "0 < limit"
    and "8192 \<le> length kmem" "8192 \<le> length umem"
  shows "\<exists>s. palloc_init e ram_pages limit kmem umem m = Inr s \<and> palloc_ok s \<and> pages_used s = {}"
  using palloc_init_ok [OF assms] .

theorem palloc_init_correct_witness:
  "\<exists>s. palloc_init 0xc0100001 1024 SIZE_MAX (replicate 8192 5) (replicate 8192 6) (\<lambda>_. 0) = Inr s \<and>
     palloc_ok s \<and> pages_used s = {}"
  by (rule palloc_init_correct)
    (simp_all add: layout SIZE_MAX_def word_le_nat_alt unat_pg_round_up)

text \<open>
  A request for \<open>n\<close> pages returns the first \<open>n\<close> consecutive free pages of the pool that the
  flags name, marks exactly them as used and, with \<^verbatim>\<open>PAL_ZERO\<close>, clears exactly their bytes; when
  there is no such group it returns a null pointer and changes nothing, or panics with
  \<^verbatim>\<open>PAL_ASSERT\<close>.
\<close>

theorem palloc_get_multiple_correct:
  fixes flags :: u32
  assumes "palloc_ok s" "0 < n"
  defines "p \<equiv> if flags AND PAL_USER \<noteq> 0 then user_pool s else kernel_pool s"
  shows "(\<exists>s' i. palloc_get_multiple s flags n = Inr (s', base p + PGSIZE * of_nat i) \<and> palloc_ok s' \<and>
       i + n \<le> bit_cnt (used_map p) \<and> first_run (bools (used_map p)) 0 n False i \<and>
       pages_used s' = pages_used s \<union> {first_page p + i..<first_page p + i + n} \<and>
       {first_page p + i..<first_page p + i + n} \<inter> pages_used s = {} \<and>
       ram s' = (\<lambda>x. if flags AND PAL_ZERO \<noteq> 0 \<and> x div 4096 \<in> {first_page p + i..<first_page p + i + n} then 0 else ram s x)) \<or>
     (\<forall>k. \<not> has_run (bools (used_map p)) k n False) \<and>
       palloc_get_multiple s flags n = (if flags AND PAL_ASSERT \<noteq> 0 then Inl Kernel_panic else Inr (s, 0))"
  using palloc_get_ok [OF assms(1,2), of flags] unfolding p_def .

theorem palloc_get_multiple_correct_witness:
  "palloc_ok ex_palloc \<and>
   ((\<exists>s' i. palloc_get_multiple ex_palloc PAL_ZERO 2 = Inr (s', 0xc0101000 + PGSIZE * of_nat i) \<and> palloc_ok s') \<or>
    palloc_get_multiple ex_palloc PAL_ZERO 2 = Inr (ex_palloc, 0))"
proof -
  have "base (kernel_pool ex_palloc) = 0xc0101000" by (simp add: ex_palloc_def)
  with palloc_get_multiple_correct [OF ex_palloc_ok, of 2 PAL_ZERO] ex_palloc_ok show ?thesis
    by (auto simp: PAL_ZERO_def PAL_USER_def PAL_ASSERT_def)
qed



end
