(* ===== verification/Sched.thy ===== *)
theory Sched
  imports Prelude
begin

text \<open>
  Threads, scheduling and synchronization: \<^verbatim>\<open>threads/thread.c\<close>, \<^verbatim>\<open>threads/synch.c\<close>, the
  interrupt levels and the dispatch of external interrupts of \<^verbatim>\<open>threads/interrupt.c\<close>, and the
  sleeping part of \<^verbatim>\<open>devices/timer.c\<close>.

  A thread is named by the address of its \<^verbatim>\<open>struct thread\<close>. The lists of threads (\<^verbatim>\<open>ready_list\<close>,
  \<^verbatim>\<open>waiting_list\<close>, the waiters of a semaphore) are lists of such names: that the linked lists
  behave like this is what the theory \<open>KList\<close> shows. A call that may sleep is split at the switch to another
  thread: what the thread still has to do when it runs again is its list \<open>todo\<close> of frames, which
  \<open>resume\<close> executes one by one. So \<^verbatim>\<open>sema_down\<close> leaves the frame \<open>Down\<close> (go round the loop again)
  above the frame \<open>Restore\<close> (the \<^verbatim>\<open>intr_set_level\<close> at its end), and \<^verbatim>\<open>lock_acquire\<close> leaves
  \<open>Set_holder\<close> below them. The step relation \<open>kstep\<close> interleaves the threads in every way that the
  timer interrupt allows.
\<close>

section \<open>State\<close>

datatype thread_status = THREAD_RUNNING | THREAD_READY | THREAD_BLOCKED | THREAD_DYING

text \<open>
  The semaphores: those of the kernel's code, that inside of each lock, and the one that
  \<^verbatim>\<open>cond_wait\<close> has on the stack of the waiting thread.
\<close>

datatype sema_id = Sem addr | Lock_sem addr | Waiter addr

datatype frame =
    Restore bool       \<comment> \<open>\<^verbatim>\<open>intr_set_level\<close> to the saved level\<close>
  | Down sema_id       \<comment> \<open>the loop of \<^verbatim>\<open>sema_down\<close>\<close>
  | Set_holder addr    \<comment> \<open>the assignment to \<^verbatim>\<open>lock->holder\<close> in \<^verbatim>\<open>lock_acquire\<close>\<close>
  | Acquire addr       \<comment> \<open>the \<^verbatim>\<open>lock_acquire\<close> at the end of \<^verbatim>\<open>cond_wait\<close>\<close>

record thread =
  tid :: int
  status :: thread_status
  priority :: int
  wake_tick :: int
  user_proc :: bool    \<comment> \<open>\<^verbatim>\<open>pagedir\<close> is not null\<close>
  magic :: u32
  todo :: "frame list"

record semaphore =
  sval :: u32
  waiters :: "addr list"

record kernel =
  threads :: "addr \<Rightarrow> thread"
  current :: addr
  ready_list :: "addr list"
  waiting_list :: "addr list"
  idle_thread :: addr
  initial_thread :: addr
  next_tid :: int
  thread_ticks :: u32
  idle_ticks :: int
  kernel_ticks :: int
  user_ticks :: int
  ticks :: int
  semas :: "sema_id \<Rightarrow> semaphore"
  holder :: "addr \<Rightarrow> addr"
  conds :: "addr \<Rightarrow> addr list"
  intr_on :: bool
  in_external_intr :: bool
  yield_on_return :: bool

definition THREAD_MAGIC :: u32 where "THREAD_MAGIC = 0xcd6abf4b"
definition TIME_SLICE :: u32 where "TIME_SLICE = 1"
definition TID_ERROR :: int where "TID_ERROR = - 1"
definition PRI_MIN :: int where "PRI_MIN = 0"
definition PRI_MAX :: int where "PRI_MAX = 63"

definition upd_thread :: "addr \<Rightarrow> (thread \<Rightarrow> thread) \<Rightarrow> kernel \<Rightarrow> kernel" where
  "upd_thread t f s = s\<lparr>threads := (threads s)(t := f (threads s t))\<rparr>"

definition set_status :: "addr \<Rightarrow> thread_status \<Rightarrow> kernel \<Rightarrow> kernel" where
  "set_status t st s = upd_thread t (\<lambda>th. th\<lparr>status := st\<rparr>) s"

definition push_todo :: "frame list \<Rightarrow> kernel \<Rightarrow> kernel" where
  "push_todo fs s = upd_thread (current s) (\<lambda>th. th\<lparr>todo := fs @ todo th\<rparr>) s"

definition pop_todo :: "kernel \<Rightarrow> kernel" where
  "pop_todo s = upd_thread (current s) (\<lambda>th. th\<lparr>todo := tl (todo th)\<rparr>) s"

definition upd_sema :: "sema_id \<Rightarrow> (semaphore \<Rightarrow> semaphore) \<Rightarrow> kernel \<Rightarrow> kernel" where
  "upd_sema sm f s = s\<lparr>semas := (semas s)(sm := f (semas s sm))\<rparr>"

section \<open>Interrupts and threads\<close>

definition intr_context :: "kernel \<Rightarrow> bool" where
  "intr_context s = in_external_intr s"

definition intr_disable :: "kernel \<Rightarrow> kernel" where
  "intr_disable s = s\<lparr>intr_on := False\<rparr>"

definition intr_enable :: "kernel \<Rightarrow> kernel outcome" where
  "intr_enable s = kbind (kassert (\<not> intr_context s)) (\<lambda>_. Inr (s\<lparr>intr_on := True\<rparr>))"

definition intr_set_level :: "bool \<Rightarrow> kernel \<Rightarrow> kernel outcome" where
  "intr_set_level on s = (if on then intr_enable s else Inr (intr_disable s))"

definition intr_yield_on_return :: "kernel \<Rightarrow> kernel outcome" where
  "intr_yield_on_return s = kbind (kassert (intr_context s)) (\<lambda>_. Inr (s\<lparr>yield_on_return := True\<rparr>))"

definition is_thread :: "kernel \<Rightarrow> addr \<Rightarrow> bool" where
  "is_thread s t \<longleftrightarrow> t \<noteq> NULL \<and> magic (threads s t) = THREAD_MAGIC"

definition thread_current :: "kernel \<Rightarrow> addr outcome" where
  "thread_current s =
     kbind (kassert (is_thread s (current s))) (\<lambda>_.
     kbind (kassert (status (threads s (current s)) = THREAD_RUNNING)) (\<lambda>_. Inr (current s)))"

definition next_thread_to_run :: "kernel \<Rightarrow> kernel \<times> addr" where
  "next_thread_to_run s = (case ready_list s of
     [] \<Rightarrow> (s, idle_thread s)
   | t # ts \<Rightarrow> (s\<lparr>ready_list := ts\<rparr>, t))"

text \<open>
  Freeing the page of a thread fills it with 0xcc, so that it is no thread any more. Activating
  the address space of the next thread is left to the process component.
\<close>

definition schedule_tail :: "addr \<Rightarrow> kernel \<Rightarrow> kernel outcome" where
  "schedule_tail prev s =
     kbind (kassert (\<not> intr_on s)) (\<lambda>_.
     let s = (set_status (current s) THREAD_RUNNING s)\<lparr>thread_ticks := 0\<rparr>
     in if prev \<noteq> NULL \<and> status (threads s prev) = THREAD_DYING \<and> prev \<noteq> initial_thread s
        then kbind (kassert (prev \<noteq> current s)) (\<lambda>_.
               Inr (upd_thread prev (\<lambda>th. th\<lparr>magic := 0xcccccccc\<rparr>) s))
        else Inr s)"

definition schedule :: "kernel \<Rightarrow> kernel outcome" where
  "schedule s0 =
     (let cur = current s0; s = fst (next_thread_to_run s0); nxt = snd (next_thread_to_run s0)
      in kbind (kassert (\<not> intr_on s)) (\<lambda>_.
         kbind (kassert (status (threads s cur) \<noteq> THREAD_RUNNING)) (\<lambda>_.
         kbind (kassert (is_thread s nxt)) (\<lambda>_.
           if cur \<noteq> nxt then schedule_tail cur (s\<lparr>current := nxt\<rparr>)
           else schedule_tail NULL s))))"

definition thread_block :: "kernel \<Rightarrow> kernel outcome" where
  "thread_block s =
     kbind (kassert (\<not> intr_context s)) (\<lambda>_.
     kbind (kassert (\<not> intr_on s)) (\<lambda>_.
     kbind (thread_current s) (\<lambda>cur. schedule (set_status cur THREAD_BLOCKED s))))"

definition thread_unblock :: "addr \<Rightarrow> kernel \<Rightarrow> kernel outcome" where
  "thread_unblock t s =
     kbind (kassert (is_thread s t)) (\<lambda>_.
     let old_level = intr_on s; s = intr_disable s
     in kbind (kassert (status (threads s t) = THREAD_BLOCKED)) (\<lambda>_.
        let s = s\<lparr>ready_list := ready_list s @ [t]\<rparr>; s = set_status t THREAD_READY s
        in intr_set_level old_level s))"

definition thread_yield :: "kernel \<Rightarrow> kernel outcome" where
  "thread_yield s =
     kbind (thread_current s) (\<lambda>cur.
     kbind (kassert (\<not> intr_context s)) (\<lambda>_.
     let s = intr_disable (push_todo [Restore (intr_on s)] s);
         s = (if cur \<noteq> idle_thread s then s\<lparr>ready_list := ready_list s @ [cur]\<rparr> else s);
         s = set_status cur THREAD_READY s
     in schedule s))"

text \<open>The part of \<^verbatim>\<open>thread_exit\<close> after \<^verbatim>\<open>process_exit\<close>, which the process component models.\<close>

definition thread_exit :: "kernel \<Rightarrow> kernel outcome" where
  "thread_exit s =
     kbind (kassert (\<not> intr_context s)) (\<lambda>_.
     kbind (thread_current s) (\<lambda>cur. schedule (set_status cur THREAD_DYING (intr_disable s))))"

text \<open>
  \<open>page\<close> is the page that \<^verbatim>\<open>palloc_get_page\<close> returned, a null pointer for none. A new thread
  starts in \<^verbatim>\<open>kernel_thread\<close>, which turns interrupts on first. The lock around the counter of
  identifiers is held only for the increment.
\<close>

definition init_thread :: "addr \<Rightarrow> int \<Rightarrow> kernel \<Rightarrow> kernel outcome" where
  "init_thread t prio s =
     kbind (kassert (t \<noteq> NULL)) (\<lambda>_.
     kbind (kassert (PRI_MIN \<le> prio \<and> prio \<le> PRI_MAX)) (\<lambda>_.
       Inr (upd_thread t (\<lambda>_. \<lparr>tid = 0, status = THREAD_BLOCKED, priority = prio, wake_tick = 0,
         user_proc = False, magic = THREAD_MAGIC, todo = []\<rparr>) s)))"

definition allocate_tid :: "kernel \<Rightarrow> kernel \<times> int" where
  "allocate_tid s = (s\<lparr>next_tid := next_tid s + 1\<rparr>, next_tid s)"

definition thread_create :: "addr \<Rightarrow> int \<Rightarrow> kernel \<Rightarrow> (kernel \<times> int) outcome" where
  "thread_create page prio s =
     (if page = NULL then Inr (s, TID_ERROR)
      else kbind (init_thread page prio s) (\<lambda>s.
        let r = allocate_tid s;
            s = upd_thread page (\<lambda>th. th\<lparr>tid := snd r, todo := [Restore True]\<rparr>) (fst r)
        in kbind (thread_unblock page s) (\<lambda>s. Inr (s, snd r))))"

definition thread_add_to_waiting :: "addr \<Rightarrow> int \<Rightarrow> kernel \<Rightarrow> kernel outcome" where
  "thread_add_to_waiting f wake s =
     (let s = intr_disable (push_todo [Restore (intr_on s)] s);
          s = upd_thread f (\<lambda>th. th\<lparr>wake_tick := wake\<rparr>) s;
          s = s\<lparr>waiting_list := waiting_list s @ [f]\<rparr>
      in thread_block s)"

definition timer_sleep :: "int \<Rightarrow> kernel \<Rightarrow> kernel outcome" where
  "timer_sleep n s =
     (if n < 0 then Inr s
      else kbind (kassert (intr_on s)) (\<lambda>_.
           kbind (thread_current s) (\<lambda>cur. thread_add_to_waiting cur (ticks s + n) s)))"

text \<open>
  The loop of \<^verbatim>\<open>thread_tick\<close> over the waiting list. It removes elements while it runs, and goes on
  from a removed element by the links that it still has; so it visits the elements that the list
  had at first.
\<close>

fun wake_loop :: "addr list \<Rightarrow> kernel \<Rightarrow> kernel outcome" where
  "wake_loop [] s = Inr s"
| "wake_loop (t # ts) s =
     (if wake_tick (threads s t) \<le> ticks s
      then kbind (thread_unblock t s) (\<lambda>s.
             wake_loop ts (s\<lparr>waiting_list := remove1 t (waiting_list s)\<rparr>))
      else wake_loop ts s)"

definition thread_tick :: "kernel \<Rightarrow> kernel outcome" where
  "thread_tick s =
     kbind (thread_current s) (\<lambda>t.
     let s = (if t = idle_thread s then s\<lparr>idle_ticks := idle_ticks s + 1\<rparr>
              else if user_proc (threads s t) then s\<lparr>user_ticks := user_ticks s + 1\<rparr>
              else s\<lparr>kernel_ticks := kernel_ticks s + 1\<rparr>);
         s = s\<lparr>thread_ticks := thread_ticks s + 1\<rparr>
     in kbind (if thread_ticks s \<ge> TIME_SLICE then intr_yield_on_return s else Inr s) (\<lambda>s.
        let old_level = intr_on s; s = intr_disable s
        in kbind (wake_loop (waiting_list s) s) (intr_set_level old_level)))"

definition timer_interrupt :: "kernel \<Rightarrow> kernel outcome" where
  "timer_interrupt s = thread_tick (s\<lparr>ticks := ticks s + 1\<rparr>)"

text \<open>
  An external interrupt: the processor turns interrupts off and saves the level, which the return
  from the interrupt restores.
\<close>

definition intr_handler :: "(kernel \<Rightarrow> kernel outcome) \<Rightarrow> kernel \<Rightarrow> kernel outcome" where
  "intr_handler handler s =
     (let s = intr_disable (push_todo [Restore (intr_on s)] s)
      in kbind (kassert (\<not> intr_on s)) (\<lambda>_.
         kbind (kassert (\<not> intr_context s)) (\<lambda>_.
         kbind (handler (s\<lparr>in_external_intr := True, yield_on_return := False\<rparr>)) (\<lambda>s.
         kbind (kassert (\<not> intr_on s)) (\<lambda>_.
         kbind (kassert (intr_context s)) (\<lambda>_.
         let s = s\<lparr>in_external_intr := False\<rparr>
         in if yield_on_return s then thread_yield s else Inr s))))))"

text \<open>One round of the loop of the idle thread.\<close>

definition idle_round :: "kernel \<Rightarrow> kernel outcome" where
  "idle_round s = thread_block (push_todo [Restore True] (intr_disable s))"

section \<open>Synchronization\<close>

definition sema_init :: "sema_id \<Rightarrow> u32 \<Rightarrow> kernel \<Rightarrow> kernel" where
  "sema_init sm v s = s\<lparr>semas := (semas s)(sm := \<lparr>sval = v, waiters = []\<rparr>)\<rparr>"

text \<open>One test of the loop condition of \<^verbatim>\<open>sema_down\<close>, for a thread whose first frame is \<open>Down\<close>.\<close>

definition down_loop :: "sema_id \<Rightarrow> kernel \<Rightarrow> kernel outcome" where
  "down_loop sm s =
     (if sval (semas s sm) = 0
      then kbind (thread_current s) (\<lambda>cur.
             thread_block (upd_sema sm (\<lambda>x. x\<lparr>waiters := waiters x @ [cur]\<rparr>) s))
      else Inr (pop_todo (upd_sema sm (\<lambda>x. x\<lparr>sval := sval x - 1\<rparr>) s)))"

definition sema_down :: "sema_id \<Rightarrow> kernel \<Rightarrow> kernel outcome" where
  "sema_down sm s =
     kbind (kassert (\<not> intr_context s)) (\<lambda>_.
       down_loop sm (intr_disable (push_todo [Down sm, Restore (intr_on s)] s)))"

definition sema_try_down :: "sema_id \<Rightarrow> kernel \<Rightarrow> (kernel \<times> bool) outcome" where
  "sema_try_down sm s =
     (let old_level = intr_on s; s = intr_disable s;
          success = (sval (semas s sm) > 0);
          s = (if success then upd_sema sm (\<lambda>x. x\<lparr>sval := sval x - 1\<rparr>) s else s)
      in kbind (intr_set_level old_level s) (\<lambda>s. Inr (s, success)))"

definition sema_up :: "sema_id \<Rightarrow> kernel \<Rightarrow> kernel outcome" where
  "sema_up sm s =
     (let old_level = intr_on s; s = intr_disable s
      in kbind (case waiters (semas s sm) of
                  [] \<Rightarrow> Inr s
                | t # ts \<Rightarrow> thread_unblock t (upd_sema sm (\<lambda>x. x\<lparr>waiters := ts\<rparr>) s)) (\<lambda>s.
         intr_set_level old_level (upd_sema sm (\<lambda>x. x\<lparr>sval := sval x + 1\<rparr>) s)))"

definition lock_init :: "addr \<Rightarrow> kernel \<Rightarrow> kernel" where
  "lock_init l s = sema_init (Lock_sem l) 1 (s\<lparr>holder := (holder s)(l := NULL)\<rparr>)"

definition lock_held_by_current_thread :: "addr \<Rightarrow> kernel \<Rightarrow> bool outcome" where
  "lock_held_by_current_thread l s = kbind (thread_current s) (\<lambda>cur. Inr (holder s l = cur))"

definition lock_acquire :: "addr \<Rightarrow> kernel \<Rightarrow> kernel outcome" where
  "lock_acquire l s =
     kbind (kassert (\<not> intr_context s)) (\<lambda>_.
     kbind (lock_held_by_current_thread l s) (\<lambda>h.
     kbind (kassert (\<not> h)) (\<lambda>_. sema_down (Lock_sem l) (push_todo [Set_holder l] s))))"

definition lock_try_acquire :: "addr \<Rightarrow> kernel \<Rightarrow> (kernel \<times> bool) outcome" where
  "lock_try_acquire l s =
     kbind (lock_held_by_current_thread l s) (\<lambda>h.
     kbind (kassert (\<not> h)) (\<lambda>_.
     kbind (sema_try_down (Lock_sem l) s) (\<lambda>r.
       if snd r then kbind (thread_current (fst r)) (\<lambda>cur.
         Inr ((fst r)\<lparr>holder := (holder (fst r))(l := cur)\<rparr>, True))
       else Inr (fst r, False))))"

definition lock_release :: "addr \<Rightarrow> kernel \<Rightarrow> kernel outcome" where
  "lock_release l s =
     kbind (lock_held_by_current_thread l s) (\<lambda>h.
     kbind (kassert h) (\<lambda>_. sema_up (Lock_sem l) (s\<lparr>holder := (holder s)(l := NULL)\<rparr>)))"

definition cond_init :: "addr \<Rightarrow> kernel \<Rightarrow> kernel" where
  "cond_init c s = s\<lparr>conds := (conds s)(c := [])\<rparr>"

definition cond_wait :: "addr \<Rightarrow> addr \<Rightarrow> kernel \<Rightarrow> kernel outcome" where
  "cond_wait c l s =
     kbind (kassert (\<not> intr_context s)) (\<lambda>_.
     kbind (lock_held_by_current_thread l s) (\<lambda>h.
     kbind (kassert h) (\<lambda>_.
     let w = current s;
         s = sema_init (Waiter w) 0 s;
         s = s\<lparr>conds := (conds s)(c := conds s c @ [w])\<rparr>
     in kbind (lock_release l s) (\<lambda>s. sema_down (Waiter w) (push_todo [Acquire l] s)))))"

definition cond_signal :: "addr \<Rightarrow> addr \<Rightarrow> kernel \<Rightarrow> kernel outcome" where
  "cond_signal c l s =
     kbind (kassert (\<not> intr_context s)) (\<lambda>_.
     kbind (lock_held_by_current_thread l s) (\<lambda>h.
     kbind (kassert h) (\<lambda>_. case conds s c of
         [] \<Rightarrow> Inr s
       | w # ws \<Rightarrow> sema_up (Waiter w) (s\<lparr>conds := (conds s)(c := ws)\<rparr>))))"

section \<open>Steps\<close>

text \<open>What the running thread does next when it has frames left.\<close>

definition resume :: "kernel \<Rightarrow> kernel outcome" where
  "resume s = (case todo (threads s (current s)) of
     [] \<Rightarrow> Inr s
   | Restore b # _ \<Rightarrow> intr_set_level b (pop_todo s)
   | Down sm # _ \<Rightarrow> down_loop sm s
   | Set_holder l # _ \<Rightarrow> Inr (pop_todo (s\<lparr>holder := (holder s)(l := current s)\<rparr>))
   | Acquire l # _ \<Rightarrow> lock_acquire l (pop_todo s))"

text \<open>Signalling takes the first waiter off the list, so that broadcasting ends.\<close>

declare kbind_cong [fundef_cong]

lemma intr_set_level_conds: "intr_set_level b s = Inr s' \<Longrightarrow> conds s' = conds s"
  by (auto simp: intr_set_level_def intr_enable_def intr_disable_def kbind_Inr_conv split: if_splits)

lemma thread_unblock_conds: "thread_unblock t s = Inr s' \<Longrightarrow> conds s' = conds s"
  unfolding thread_unblock_def Let_def
  by (auto dest!: intr_set_level_conds simp: intr_disable_def set_status_def upd_thread_def)

lemma sema_up_conds: "sema_up sm s = Inr s' \<Longrightarrow> conds s' = conds s"
  unfolding sema_up_def Let_def
  by (auto dest!: intr_set_level_conds thread_unblock_conds
      simp: intr_disable_def upd_sema_def split: list.splits)

lemma cond_signal_conds: "cond_signal c l s = Inr s' \<Longrightarrow> conds s' = (conds s)(c := tl (conds s c))"
  unfolding cond_signal_def by (auto dest!: sema_up_conds split: list.splits)

function cond_broadcast :: "addr \<Rightarrow> addr \<Rightarrow> kernel \<Rightarrow> kernel outcome" where
  "cond_broadcast c l s =
     (if conds s c \<noteq> [] then kbind (cond_signal c l s) (cond_broadcast c l) else Inr s)"
  by pat_completeness auto
termination
  by (relation "measure (\<lambda>(c, l, s). length (conds s c))") (auto dest: cond_signal_conds)

declare cond_broadcast.simps [simp del]

inductive kstep :: "kernel \<Rightarrow> kernel \<Rightarrow> bool" where
  K_down: "\<lbrakk>todo (threads s (current s)) = []; current s \<noteq> idle_thread s; sema_down (Sem a) s = Inr s'\<rbrakk> \<Longrightarrow> kstep s s'"
| K_try_down: "\<lbrakk>todo (threads s (current s)) = []; current s \<noteq> idle_thread s; sema_try_down (Sem a) s = Inr (s', r)\<rbrakk> \<Longrightarrow> kstep s s'"
| K_up: "\<lbrakk>todo (threads s (current s)) = []; current s \<noteq> idle_thread s; sema_up (Sem a) s = Inr s'\<rbrakk> \<Longrightarrow> kstep s s'"
| K_acquire: "\<lbrakk>todo (threads s (current s)) = []; current s \<noteq> idle_thread s; lock_acquire l s = Inr s'\<rbrakk> \<Longrightarrow> kstep s s'"
| K_try_acquire: "\<lbrakk>todo (threads s (current s)) = []; current s \<noteq> idle_thread s; lock_try_acquire l s = Inr (s', r)\<rbrakk> \<Longrightarrow> kstep s s'"
| K_release: "\<lbrakk>todo (threads s (current s)) = []; current s \<noteq> idle_thread s; lock_release l s = Inr s'\<rbrakk> \<Longrightarrow> kstep s s'"
| K_wait: "\<lbrakk>todo (threads s (current s)) = []; current s \<noteq> idle_thread s; cond_wait c l s = Inr s'\<rbrakk> \<Longrightarrow> kstep s s'"
| K_signal: "\<lbrakk>todo (threads s (current s)) = []; current s \<noteq> idle_thread s; cond_signal c l s = Inr s'\<rbrakk> \<Longrightarrow> kstep s s'"
| K_broadcast: "\<lbrakk>todo (threads s (current s)) = []; current s \<noteq> idle_thread s; cond_broadcast c l s = Inr s'\<rbrakk> \<Longrightarrow> kstep s s'"
| K_yield: "\<lbrakk>todo (threads s (current s)) = []; current s \<noteq> idle_thread s; thread_yield s = Inr s'\<rbrakk> \<Longrightarrow> kstep s s'"
| K_sleep: "\<lbrakk>todo (threads s (current s)) = []; current s \<noteq> idle_thread s; timer_sleep n s = Inr s'\<rbrakk> \<Longrightarrow> kstep s s'"
| K_exit: "\<lbrakk>todo (threads s (current s)) = []; current s \<noteq> idle_thread s; thread_exit s = Inr s'\<rbrakk> \<Longrightarrow> kstep s s'"
| K_create: "\<lbrakk>todo (threads s (current s)) = []; current s \<noteq> idle_thread s; \<not> is_thread s page;
     thread_create page prio s = Inr (s', i)\<rbrakk> \<Longrightarrow> kstep s s'"
| K_idle: "\<lbrakk>todo (threads s (current s)) = []; current s = idle_thread s; idle_round s = Inr s'\<rbrakk> \<Longrightarrow> kstep s s'"
| K_resume: "\<lbrakk>todo (threads s (current s)) \<noteq> []; resume s = Inr s'\<rbrakk> \<Longrightarrow> kstep s s'"
| K_tick: "\<lbrakk>intr_on s; intr_handler timer_interrupt s = Inr s'\<rbrakk> \<Longrightarrow> kstep s s'"

section \<open>Starting the system\<close>

text \<open>
  The addresses of the two static locks of \<^verbatim>\<open>thread.c\<close> and of the semaphore on the stack of
  \<^verbatim>\<open>thread_start\<close> only name them.
\<close>

definition tid_lock :: addr where "tid_lock = 1"
definition wait_list_lock :: addr where "wait_list_lock = 2"
definition idle_started :: sema_id where "idle_started = Sem 3"
definition PRI_DEFAULT :: int where "PRI_DEFAULT = 31"

definition thread_init :: "addr \<Rightarrow> kernel \<Rightarrow> kernel outcome" where
  "thread_init main s =
     kbind (kassert (\<not> intr_on s)) (\<lambda>_.
     let s = lock_init tid_lock s;
         s = s\<lparr>ready_list := [], waiting_list := []\<rparr>;
         s = lock_init wait_list_lock s;
         s = s\<lparr>current := main, initial_thread := main\<rparr>
     in kbind (init_thread main PRI_DEFAULT s) (\<lambda>s.
        let s = set_status main THREAD_RUNNING s;
            r = allocate_tid s
        in Inr (upd_thread main (\<lambda>th. th\<lparr>tid := snd r\<rparr>) (fst r))))"

definition thread_start :: "addr \<Rightarrow> kernel \<Rightarrow> kernel outcome" where
  "thread_start idle_page s =
     kbind (thread_create idle_page PRI_MIN (sema_init idle_started 0 s)) (\<lambda>r.
     kbind (intr_enable (fst r)) (\<lambda>s. sema_down idle_started s))"

text \<open>The idle thread before its loop.\<close>

definition idle_entry :: "kernel \<Rightarrow> kernel outcome" where
  "idle_entry s = kbind (thread_current s) (\<lambda>cur. sema_up idle_started (s\<lparr>idle_thread := cur\<rparr>))"

text \<open>
  From the state that the loader leaves to the first round of the idle thread: \<^verbatim>\<open>thread_init\<close> and
  \<^verbatim>\<open>thread_start\<close> by the initial thread, which then waits for the idle thread.
\<close>

definition boot :: "addr \<Rightarrow> addr \<Rightarrow> kernel \<Rightarrow> kernel outcome" where
  "boot main idle_page s =
     kbind (thread_init main s) (\<lambda>s.
     kbind (thread_start idle_page s) (\<lambda>s.
     kbind (resume s) idle_entry))"

end
