(* ===== verification/SchedInv.thy ===== *)
theory SchedInv
  imports Sched
begin

text \<open>
  What every reachable state of the scheduler satisfies. \<open>placed\<close> says that every thread is where its
  status says, \<open>wake_ok\<close> counts the threads woken from a semaphore, \<open>lock_ok\<close> the owners of a
  lock. Each operation is shown to return and to keep the invariant: it parks the running thread
  (\<open>parked\<close>) and switches, makes a blocked thread ready (\<open>unparked\<close>), or changes only what the
  running thread has left to do (\<open>set_todo\<close>). The invariant then holds after the start of the system
  and after every step, and the properties at the end follow from it.
\<close>

section \<open>Invariants\<close>

definition is_restore :: "frame \<Rightarrow> bool" where
  "is_restore f = (case f of Restore _ \<Rightarrow> True | _ \<Rightarrow> False)"

definition core :: "frame list \<Rightarrow> frame list" where
  "core fs = dropWhile is_restore fs"

definition retry :: "frame list \<Rightarrow> sema_id option" where
  "retry fs = (case fs of Down sm # _ \<Rightarrow> Some sm | _ \<Rightarrow> None)"

definition blocked_on :: "thread \<Rightarrow> sema_id option" where
  "blocked_on th = retry (todo th)"

text \<open>
  Every thread is where its status says, and the lists hold only threads of the right status.
  \<open>R\<close> is the set of threads that may be running: empty in the middle of a switch.
\<close>

definition thread_placed :: "addr set \<Rightarrow> kernel \<Rightarrow> addr \<Rightarrow> bool" where
  "thread_placed R s t \<longleftrightarrow> (case status (threads s t) of
     THREAD_RUNNING \<Rightarrow> t \<in> R
   | THREAD_READY \<Rightarrow> t = idle_thread s \<or> t \<in> set (ready_list s)
   | THREAD_BLOCKED \<Rightarrow> t = idle_thread s \<or> (case blocked_on (threads s t) of
        Some sm \<Rightarrow> t \<in> set (waiters (semas s sm)) | None \<Rightarrow> t \<in> set (waiting_list s))
   | THREAD_DYING \<Rightarrow> t = initial_thread s \<or> (t = current s \<and> R = {}))"

definition in_ready :: "kernel \<Rightarrow> addr \<Rightarrow> bool" where
  "in_ready s t \<longleftrightarrow> is_thread s t \<and> status (threads s t) = THREAD_READY \<and> t \<noteq> idle_thread s"

definition in_waiting :: "kernel \<Rightarrow> addr \<Rightarrow> bool" where
  "in_waiting s t \<longleftrightarrow> is_thread s t \<and> status (threads s t) = THREAD_BLOCKED \<and>
     blocked_on (threads s t) = None \<and> t \<noteq> idle_thread s"

definition in_waiters :: "kernel \<Rightarrow> sema_id \<Rightarrow> addr \<Rightarrow> bool" where
  "in_waiters s sm t \<longleftrightarrow> is_thread s t \<and> status (threads s t) = THREAD_BLOCKED \<and>
     blocked_on (threads s t) = Some sm"

definition placed :: "addr set \<Rightarrow> kernel \<Rightarrow> bool" where
  "placed R s \<longleftrightarrow> (\<forall>t. is_thread s t \<longrightarrow> thread_placed R s t) \<and>
     distinct (ready_list s) \<and> (\<forall>t\<in>set (ready_list s). in_ready s t) \<and>
     distinct (waiting_list s) \<and> (\<forall>t\<in>set (waiting_list s). in_waiting s t) \<and>
     (\<forall>sm. distinct (waiters (semas s sm)) \<and> (\<forall>t\<in>set (waiters (semas s sm)). in_waiters s sm t)) \<and>
     is_thread s (idle_thread s) \<and> list_all is_restore (todo (threads s (idle_thread s))) \<and>
     status (threads s (idle_thread s)) \<noteq> THREAD_DYING"

lemma upd_simps [simp]:
  "current (upd_thread t f s) = current s" "ready_list (upd_thread t f s) = ready_list s"
  "waiting_list (upd_thread t f s) = waiting_list s" "idle_thread (upd_thread t f s) = idle_thread s"
  "initial_thread (upd_thread t f s) = initial_thread s" "semas (upd_thread t f s) = semas s"
  "holder (upd_thread t f s) = holder s" "conds (upd_thread t f s) = conds s" "intr_on (upd_thread t f s) = intr_on s"
  "in_external_intr (upd_thread t f s) = in_external_intr s" "ticks (upd_thread t f s) = ticks s"
  "yield_on_return (upd_thread t f s) = yield_on_return s"
  "threads (upd_thread t f s) = (threads s)(t := f (threads s t))"
  "threads (upd_sema sm g s) = threads s" "current (upd_sema sm g s) = current s" "ready_list (upd_sema sm g s) = ready_list s"
  "waiting_list (upd_sema sm g s) = waiting_list s" "idle_thread (upd_sema sm g s) = idle_thread s"
  "initial_thread (upd_sema sm g s) = initial_thread s" "semas (upd_sema sm g s) = (semas s)(sm := g (semas s sm))"
  "holder (upd_sema sm g s) = holder s" "conds (upd_sema sm g s) = conds s" "intr_on (upd_sema sm g s) = intr_on s"
  "in_external_intr (upd_sema sm g s) = in_external_intr s" "ticks (upd_sema sm g s) = ticks s"
  "yield_on_return (upd_sema sm g s) = yield_on_return s"
  by (simp_all add: upd_thread_def upd_sema_def)

lemmas upd_defs = set_status_def push_todo_def pop_todo_def intr_disable_def intr_context_def

lemma is_thread_cong: "threads s' = threads s \<Longrightarrow> is_thread s' = is_thread s"
  by (simp add: is_thread_def fun_eq_iff)

text \<open>The state after a switch.\<close>

definition switched :: "kernel \<Rightarrow> kernel" where
  "switched s =
     (let n = snd (next_thread_to_run s);
          s1 = (set_status n THREAD_RUNNING ((fst (next_thread_to_run s))\<lparr>current := n\<rparr>))\<lparr>thread_ticks := 0\<rparr>
      in if current s \<noteq> n \<and> status (threads s (current s)) = THREAD_DYING \<and> current s \<noteq> initial_thread s
         then upd_thread (current s) (\<lambda>th. th\<lparr>magic := 0xcccccccc\<rparr>) s1 else s1)"

lemma schedule_switched:
  assumes "placed {} s" "\<not> intr_on s" "is_thread s (current s)"
  shows "schedule s = Inr (switched s)"
proof -
  define n where "n = snd (next_thread_to_run s)"
  define s0 where "s0 = fst (next_thread_to_run s)"
  have th: "threads s0 = threads s" "current s0 = current s" "initial_thread s0 = initial_thread s" "intr_on s0 = intr_on s"
    by (simp_all add: s0_def next_thread_to_run_def split: list.split)
  have n: "is_thread s n"
    using assms(1) by (auto simp: n_def next_thread_to_run_def placed_def in_ready_def split: list.split)
  then have n0: "is_thread s0 n" using th(1) by (simp add: is_thread_def)
  have st: "status (threads s (current s)) \<noteq> THREAD_RUNNING"
    using assms(1,3) by (auto simp: placed_def thread_placed_def split: thread_status.splits)
  have "current s \<noteq> NULL" using assms(3) by (simp add: is_thread_def)
  then show ?thesis
    using n0 st assms(2) unfolding schedule_def switched_def Let_def n_def [symmetric] s0_def [symmetric]
    by (cases "current s = n") (auto simp: th schedule_tail_def Let_def set_status_def upd_thread_def fun_upd_twist)
qed

definition chosen :: "kernel \<Rightarrow> addr" where
  "chosen s = (case ready_list s of [] \<Rightarrow> idle_thread s | t # _ \<Rightarrow> t)"

definition freed :: "kernel \<Rightarrow> bool" where
  "freed s \<longleftrightarrow> current s \<noteq> chosen s \<and> status (threads s (current s)) = THREAD_DYING \<and>
     current s \<noteq> initial_thread s"

lemma next_thread_eq: "next_thread_to_run s = (s\<lparr>ready_list := tl (ready_list s)\<rparr>, chosen s)"
  by (simp add: next_thread_to_run_def chosen_def split: list.split)

lemma switched_simps [simp]:
  "current (switched s) = chosen s" "ready_list (switched s) = tl (ready_list s)"
  "waiting_list (switched s) = waiting_list s" "idle_thread (switched s) = idle_thread s"
  "initial_thread (switched s) = initial_thread s" "semas (switched s) = semas s"
  "holder (switched s) = holder s" "conds (switched s) = conds s" "intr_on (switched s) = intr_on s"
  "in_external_intr (switched s) = in_external_intr s" "ticks (switched s) = ticks s"
  by (simp_all add: switched_def next_thread_eq set_status_def Let_def)

lemma switched_threads:
  "threads (switched s) t =
     (if t = chosen s then (threads s t)\<lparr>status := THREAD_RUNNING\<rparr>
      else if freed s \<and> t = current s then (threads s t)\<lparr>magic := 0xcccccccc\<rparr> else threads s t)"
  by (auto simp: switched_def next_thread_eq set_status_def Let_def freed_def)

lemma is_thread_switched:
  "is_thread (switched s) t \<longleftrightarrow> is_thread s t \<and> \<not> (freed s \<and> t = current s)"
  by (auto simp: is_thread_def switched_threads freed_def THREAD_MAGIC_def)

lemma blocked_on_restores: "list_all is_restore (todo th) \<Longrightarrow> blocked_on th = None"
  by (auto simp: blocked_on_def retry_def is_restore_def split: list.splits frame.splits)

lemma blocked_on_status [simp]: "blocked_on (th\<lparr>status := st\<rparr>) = blocked_on th"
  "blocked_on (th\<lparr>wake_tick := w\<rparr>) = blocked_on th" "blocked_on (th\<lparr>magic := m\<rparr>) = blocked_on th"
  by (simp_all add: blocked_on_def)

lemma placedD:
  assumes "placed R s"
  shows "is_thread s t \<Longrightarrow> thread_placed R s t" "distinct (ready_list s)"
    "t \<in> set (ready_list s) \<Longrightarrow> in_ready s t" "distinct (waiting_list s)"
    "t \<in> set (waiting_list s) \<Longrightarrow> in_waiting s t" "distinct (waiters (semas s sm))"
    "t \<in> set (waiters (semas s sm)) \<Longrightarrow> in_waiters s sm t"
    "is_thread s (idle_thread s)" "list_all is_restore (todo (threads s (idle_thread s)))"
    "status (threads s (idle_thread s)) \<noteq> THREAD_DYING" "blocked_on (threads s (idle_thread s)) = None"
  using assms blocked_on_restores by (auto simp: placed_def)

lemma placedI:
  assumes "\<And>t. is_thread s t \<Longrightarrow> thread_placed R s t" "distinct (ready_list s)"
    "\<And>t. t \<in> set (ready_list s) \<Longrightarrow> in_ready s t" "distinct (waiting_list s)"
    "\<And>t. t \<in> set (waiting_list s) \<Longrightarrow> in_waiting s t" "\<And>sm. distinct (waiters (semas s sm))"
    "\<And>sm t. t \<in> set (waiters (semas s sm)) \<Longrightarrow> in_waiters s sm t"
    "is_thread s (idle_thread s)" "list_all is_restore (todo (threads s (idle_thread s)))"
    "status (threads s (idle_thread s)) \<noteq> THREAD_DYING"
  shows "placed R s"
  using assms by (simp add: placed_def)

lemma chosen_cases:
  assumes "placed R s"
  shows "chosen s = idle_thread s \<and> ready_list s = [] \<or>
    chosen s \<noteq> idle_thread s \<and> status (threads s (chosen s)) = THREAD_READY \<and> ready_list s = chosen s # tl (ready_list s)"
  using placedD(3) [OF assms, of "chosen s"] by (auto simp: chosen_def in_ready_def split: list.splits)

lemma chosen_thread: "placed R s \<Longrightarrow> is_thread s (chosen s)"
  using placedD(3) [of R s] placedD(8) [of R s] by (auto simp: chosen_def in_ready_def split: list.splits)

lemma switched_status:
  "status (threads (switched s) t) = (if t = chosen s then THREAD_RUNNING else status (threads s t))"
  "todo (threads (switched s) t) = todo (threads s t)"
  "wake_tick (threads (switched s) t) = wake_tick (threads s t)"
  "blocked_on (threads (switched s) t) = blocked_on (threads s t)"
  by (simp_all add: switched_threads)

lemma switched_placed:
  assumes p: "placed {} s"
  shows "placed {chosen s} (switched s)"
proof (rule placedI)
  note ch = chosen_cases [OF p]
  fix t
  show "thread_placed {chosen s} (switched s) t" if "is_thread (switched s) t"
  proof (cases "t = chosen s")
    case False
    from that have t: "is_thread s t" "\<not> (freed s \<and> t = current s)" by (auto simp: is_thread_switched)
    have "t \<in> set (tl (ready_list s))" if "t \<in> set (ready_list s)" using ch that False by (metis set_ConsD empty_iff list.set(1))
    with placedD(1) [OF p t(1)] t(2) False ch show ?thesis
      by (auto simp: thread_placed_def switched_status freed_def split: thread_status.splits option.splits)
  qed (simp add: thread_placed_def switched_status)
  show "in_ready (switched s) t" if "t \<in> set (ready_list (switched s))"
  proof -
    have t: "t \<in> set (ready_list s)" "t \<noteq> chosen s"
      using that placedD(2) [OF p] by (cases "ready_list s"; auto simp: chosen_def)+
    with placedD(3) [OF p t(1)] show ?thesis by (auto simp: in_ready_def is_thread_switched switched_status freed_def)
  qed
  show "in_waiting (switched s) t" if "t \<in> set (waiting_list (switched s))"
    using placedD(5) [OF p, of t] that ch by (auto simp: in_waiting_def is_thread_switched switched_status freed_def)
  fix sm
  show "in_waiters (switched s) sm t" if "t \<in> set (waiters (semas (switched s) sm))"
    using placedD(7) [OF p, of t sm] that ch placedD(11) [OF p]
    by (auto simp: in_waiters_def is_thread_switched switched_status freed_def)
qed (use placedD [OF p] in \<open>auto simp: distinct_tl is_thread_switched switched_status freed_def\<close>)

text \<open>The shape of what a thread has left to do.\<close>

definition frames_ok :: "addr \<Rightarrow> frame list \<Rightarrow> bool" where
  "frames_ok t fs = (case fs of
     Down (Sem _) # r \<Rightarrow> core r = []
   | Down (Lock_sem l) # r \<Rightarrow> core r = [Set_holder l]
   | Down (Waiter w) # r \<Rightarrow> w = t \<and> (\<exists>l. core r = [Acquire l])
   | _ \<Rightarrow> core fs = [] \<or> (\<exists>l. core fs = [Set_holder l] \<or> core fs = [Acquire l]))"

text \<open>
  The threads that have been woken from a semaphore and have not tried again yet. As long as
  threads wait, there are at least as many of them as the semaphore's value.
\<close>

definition woken :: "sema_id \<Rightarrow> kernel \<Rightarrow> addr set" where
  "woken sm s = {t. is_thread s t \<and> status (threads s t) \<in> {THREAD_READY, THREAD_RUNNING} \<and>
     blocked_on (threads s t) = Some sm}"

definition wake_ok :: "sema_id \<Rightarrow> kernel \<Rightarrow> bool" where
  "wake_ok sm s \<longleftrightarrow> (waiters (semas s sm) \<noteq> [] \<longrightarrow> unat (sval (semas s sm)) \<le> card (woken sm s))"

text \<open>The threads that have taken the semaphore of a lock and not yet recorded themselves as holder.\<close>

definition tok :: "addr \<Rightarrow> kernel \<Rightarrow> addr set" where
  "tok l s = {t. is_thread s t \<and> core (todo (threads s t)) = [Set_holder l]}"

definition lock_ok :: "addr \<Rightarrow> kernel \<Rightarrow> bool" where
  "lock_ok l s \<longleftrightarrow> (sval (semas s (Lock_sem l)) = 1 \<and> holder s l = NULL \<and> tok l s = {}) \<or>
     (sval (semas s (Lock_sem l)) = 0 \<and> holder s l \<noteq> NULL \<and> tok l s = {}) \<or>
     (sval (semas s (Lock_sem l)) = 0 \<and> holder s l = NULL \<and> (\<exists>t. tok l s = {t}))"

definition base_inv :: "addr set \<Rightarrow> kernel \<Rightarrow> bool" where
  "base_inv R s \<longleftrightarrow> placed R s \<and> (\<forall>t. is_thread s t \<longrightarrow> frames_ok t (todo (threads s t))) \<and>
     (\<forall>sm. wake_ok sm s) \<and> finite {t. is_thread s t} \<and> is_thread s (current s)"

definition kernel_inv :: "kernel \<Rightarrow> bool" where
  "kernel_inv s \<longleftrightarrow> base_inv {current s} s \<and> status (threads s (current s)) = THREAD_RUNNING \<and>
     \<not> in_external_intr s \<and> (\<forall>l. lock_ok l s)"

text \<open>A thread that is about to retry on a semaphore runs with interrupts off.\<close>

definition sched_inv :: "kernel \<Rightarrow> bool" where
  "sched_inv s \<longleftrightarrow> kernel_inv s \<and> (intr_on s \<longrightarrow> retry (todo (threads s (current s))) = None)"

lemma sched_invD:
  assumes "sched_inv s"
  shows "kernel_inv s" "intr_on s \<longrightarrow> retry (todo (threads s (current s))) = None"
  using assms by (auto simp: sched_inv_def)

lemma sched_inv_off: "kernel_inv s \<Longrightarrow> \<not> intr_on s \<Longrightarrow> sched_inv s"
  by (simp add: sched_inv_def)

lemma base_invD:
  assumes "base_inv R s"
  shows "placed R s" "is_thread s t \<Longrightarrow> frames_ok t (todo (threads s t))" "wake_ok sm s"
    "finite {t. is_thread s t}" "is_thread s (current s)" "finite (woken sm s)"
proof -
  show "finite (woken sm s)"
    by (rule finite_subset [of _ "{t. is_thread s t}"]) (use assms in \<open>auto simp: base_inv_def woken_def\<close>)
qed (use assms in \<open>auto simp: base_inv_def\<close>)

lemma switched_woken:
  assumes "placed {} s"
  shows "woken sm (switched s) = woken sm s"
  using chosen_cases [OF assms] placedD(11) [OF assms]
  by (auto simp: woken_def is_thread_switched switched_status freed_def)

lemma switched_tok:
  assumes "status (threads s (current s)) = THREAD_DYING \<Longrightarrow> todo (threads s (current s)) = []"
  shows "tok l (switched s) = tok l s"
  using assms by (auto simp: tok_def is_thread_switched switched_status freed_def core_def)

lemma switched_base:
  assumes b: "base_inv {} s"
  shows "base_inv {current (switched s)} (switched s)"
    "status (threads (switched s) (current (switched s))) = THREAD_RUNNING"
proof -
  note p = base_invD(1) [OF b]
  have "finite {t. is_thread (switched s) t}"
    by (rule finite_subset [OF _ base_invD(4) [OF b]]) (auto simp: is_thread_switched)
  moreover have "is_thread (switched s) (chosen s)" using chosen_thread [OF p] by (auto simp: is_thread_switched freed_def)
  ultimately show "base_inv {current (switched s)} (switched s)"
    using switched_placed [OF p] base_invD [OF b] switched_woken [OF p]
    by (simp add: base_inv_def is_thread_switched switched_status wake_ok_def)
qed (simp add: switched_status)

text \<open>A switch from a state in which the running thread has been parked.\<close>

lemma schedule_ok:
  assumes b: "base_inv {} s" and "\<not> intr_on s" "\<not> in_external_intr s"
    and dy: "status (threads s (current s)) = THREAD_DYING \<Longrightarrow> todo (threads s (current s)) = []"
    and l: "\<And>l. lock_ok l s"
  shows "schedule s = Inr (switched s)" "kernel_inv (switched s)"
proof -
  show "schedule s = Inr (switched s)"
    by (rule schedule_switched [OF base_invD(1) [OF b] assms(2) base_invD(5) [OF b]])
  have "lock_ok l (switched s)" for l
    using l [of l] switched_tok [OF dy] by (simp add: lock_ok_def)
  with switched_base [OF b] assms(3) show "kernel_inv (switched s)" by (simp add: kernel_inv_def)
qed

section \<open>Parking the running thread\<close>

lemma running_nowhere:
  assumes "placed R s" "status (threads s t) = THREAD_RUNNING"
  shows "t \<notin> set (ready_list s)" "t \<notin> set (waiting_list s)" "t \<notin> set (waiters (semas s sm))"
  using placedD(3,5,7) [OF assms(1), of t] assms(2) by (auto simp: in_ready_def in_waiting_def in_waiters_def)

lemma is_thread_upd:
  "(\<And>th. magic (f th) = magic th) \<Longrightarrow> is_thread (upd_thread u f s) t = is_thread s t"
  by (simp add: is_thread_def)

lemma is_thread_simps [simp]:
  "is_thread (set_status u st s) = is_thread s" "is_thread (upd_sema sm g s) = is_thread s"
  "is_thread (push_todo fs s) = is_thread s" "is_thread (pop_todo s) = is_thread s"
  "is_thread (s\<lparr>ready_list := r\<rparr>) = is_thread s" "is_thread (s\<lparr>waiting_list := r\<rparr>) = is_thread s"
  "is_thread (s\<lparr>intr_on := b\<rparr>) = is_thread s" "is_thread (s\<lparr>holder := h\<rparr>) = is_thread s"
  "is_thread (s\<lparr>conds := c\<rparr>) = is_thread s" "is_thread (s\<lparr>semas := c2\<rparr>) = is_thread s"
  "is_thread (s\<lparr>in_external_intr := b\<rparr>) = is_thread s" "is_thread (s\<lparr>yield_on_return := b\<rparr>) = is_thread s"
  "is_thread (s\<lparr>ticks := n\<rparr>) = is_thread s" "is_thread (s\<lparr>thread_ticks := w\<rparr>) = is_thread s"
  "is_thread (s\<lparr>idle_ticks := n\<rparr>) = is_thread s" "is_thread (s\<lparr>kernel_ticks := n\<rparr>) = is_thread s"
  "is_thread (s\<lparr>user_ticks := n\<rparr>) = is_thread s" "is_thread (s\<lparr>next_tid := n\<rparr>) = is_thread s"
  "is_thread (intr_disable s) = is_thread s"
  by (auto simp: fun_eq_iff is_thread_def upd_defs)

text \<open>
  The running thread \<open>cur\<close> gets the status \<open>st\<close> and is entered in the list where that status puts it.
\<close>

definition parked :: "kernel \<Rightarrow> kernel \<Rightarrow> thread_status \<Rightarrow> bool" where
  "parked s s1 st \<longleftrightarrow> threads s1 = (threads s)(current s := (threads s (current s))\<lparr>status := st\<rparr>) \<and>
     current s1 = current s \<and> idle_thread s1 = idle_thread s \<and> initial_thread s1 = initial_thread s \<and>
     st \<noteq> THREAD_RUNNING \<and>
     ready_list s1 = (if st = THREAD_READY \<and> current s \<noteq> idle_thread s then ready_list s @ [current s] else ready_list s) \<and>
     waiting_list s1 = (if st = THREAD_BLOCKED \<and> current s \<noteq> idle_thread s \<and> blocked_on (threads s (current s)) = None
       then waiting_list s @ [current s] else waiting_list s) \<and>
     (\<forall>sm. sval (semas s1 sm) = sval (semas s sm) \<and>
       waiters (semas s1 sm) = (if st = THREAD_BLOCKED \<and> blocked_on (threads s (current s)) = Some sm
         then waiters (semas s sm) @ [current s] else waiters (semas s sm)) \<and>
       (st = THREAD_BLOCKED \<and> blocked_on (threads s (current s)) = Some sm \<longrightarrow> sval (semas s sm) = 0)) \<and>
     (st = THREAD_DYING \<longrightarrow> current s \<noteq> idle_thread s \<and> todo (threads s (current s)) = [])"

lemma parked_placed:
  assumes p: "placed {current s} s" and r: "status (threads s (current s)) = THREAD_RUNNING" "is_thread s (current s)"
    and k: "parked s s1 st"
  shows "placed {} s1"
proof (rule placedI)
  note nw = running_nowhere [OF p r(1)]
  have th: "threads s1 = (threads s)(current s := (threads s (current s))\<lparr>status := st\<rparr>)"
    "current s1 = current s" "idle_thread s1 = idle_thread s" "initial_thread s1 = initial_thread s"
    using k by (auto simp: parked_def)
  have it: "is_thread s1 = is_thread s" by (simp add: is_thread_def th fun_eq_iff)
  fix t
  show "thread_placed {} s1 t" if "is_thread s1 t"
    using placedD(1) [OF p, of t] that r k
    by (cases "t = current s"; auto simp: thread_placed_def it th parked_def split: thread_status.splits option.splits)
  show "in_ready s1 t" if "t \<in> set (ready_list s1)"
    using placedD(3) [OF p, of t] that r k nw by (auto simp: in_ready_def it th parked_def split: if_splits)
  show "in_waiting s1 t" if "t \<in> set (waiting_list s1)"
    using placedD(5) [OF p, of t] that r k nw by (auto simp: in_waiting_def it th parked_def split: if_splits)
  show "in_waiters s1 sm t" if "t \<in> set (waiters (semas s1 sm))" for sm
    using placedD(7) [OF p, of t sm] that r k nw by (auto simp: in_waiters_def it th parked_def split: if_splits)
  show "distinct (waiters (semas s1 sm))" for sm
    using placedD(6) [OF p, of sm] k nw by (auto simp: parked_def)
qed (use placedD [OF p] k running_nowhere [OF p r(1)] in \<open>auto simp: parked_def is_thread_def\<close>)

lemma parked_base:
  assumes b: "base_inv {current s} s" and r: "status (threads s (current s)) = THREAD_RUNNING"
    and k: "parked s s1 st"
  shows "base_inv {} s1" "(\<And>m. sval (semas s1 m) = sval (semas s m))" "tok l s1 = tok l s"
proof -
  have th: "threads s1 = (threads s)(current s := (threads s (current s))\<lparr>status := st\<rparr>)"
    "current s1 = current s" using k by (auto simp: parked_def)
  have it: "is_thread s1 = is_thread s" by (simp add: is_thread_def th fun_eq_iff)
  have todo: "todo (threads s1 t) = todo (threads s t)" for t by (simp add: th)
  show sv: "sval (semas s1 m) = sval (semas s m)" for m using k by (simp add: parked_def)
  show "tok l s1 = tok l s" by (simp add: tok_def it todo)
  have "wake_ok sm s1" for sm
  proof (cases "st = THREAD_BLOCKED \<and> blocked_on (threads s (current s)) = Some sm")
    case True
    with k have "sval (semas s sm) = 0" by (auto simp: parked_def)
    then show ?thesis by (simp add: wake_ok_def sv)
  next
    case False
    have "woken sm s1 = woken sm s"
      using False r k by (auto simp: woken_def it th parked_def) (metis thread_status.exhaust option.distinct(1) blocked_on_def retry_def list.case(1))+
    moreover have "waiters (semas s1 sm) = waiters (semas s sm)" using False k by (auto simp: parked_def)
    ultimately show ?thesis using base_invD(3) [OF b, of sm] by (simp add: wake_ok_def sv)
  qed
  then show "base_inv {} s1"
    using parked_placed [OF base_invD(1) [OF b] r base_invD(5) [OF b] k] base_invD [OF b] th
    by (simp add: base_inv_def it todo)
qed

lemma parked_schedule:
  assumes b: "base_inv {current s} s" and r: "status (threads s (current s)) = THREAD_RUNNING"
    and k: "parked s s1 st" and f: "\<not> intr_on s1" "\<not> in_external_intr s1" "holder s1 = holder s"
    and l: "\<And>l. lock_ok l s"
  shows "schedule s1 = Inr (switched s1)" "sched_inv (switched s1)"
proof -
  note pb = parked_base [OF b r k]
  have "lock_ok l s1" for l using l [of l] pb f(3) by (simp add: lock_ok_def)
  moreover have "todo (threads s1 (current s1)) = []" if "status (threads s1 (current s1)) = THREAD_DYING"
    using that k by (auto simp: parked_def)
  ultimately have "schedule s1 = Inr (switched s1)" "kernel_inv (switched s1)"
    using schedule_ok [OF pb(1) f(1,2)] by blast+
  with f(1) show "schedule s1 = Inr (switched s1)" "sched_inv (switched s1)" by (simp_all add: sched_inv_def)
qed

section \<open>Local steps of the running thread\<close>

lemmas inv_unfold = base_inv_def placed_def thread_placed_def in_ready_def in_waiting_def in_waiters_def
  wake_ok_def woken_def is_thread_def tok_def lock_ok_def

lemma base_inv_fields [simp]:
  "base_inv R (s\<lparr>intr_on := b\<rparr>) = base_inv R s" "base_inv R (s\<lparr>holder := h\<rparr>) = base_inv R s"
  "base_inv R (s\<lparr>conds := c\<rparr>) = base_inv R s" "base_inv R (s\<lparr>in_external_intr := b\<rparr>) = base_inv R s"
  "base_inv R (s\<lparr>yield_on_return := b\<rparr>) = base_inv R s" "base_inv R (s\<lparr>ticks := n\<rparr>) = base_inv R s"
  "base_inv R (s\<lparr>thread_ticks := w\<rparr>) = base_inv R s" "base_inv R (s\<lparr>idle_ticks := n\<rparr>) = base_inv R s"
  "base_inv R (s\<lparr>kernel_ticks := n\<rparr>) = base_inv R s" "base_inv R (s\<lparr>user_ticks := n\<rparr>) = base_inv R s"
  "base_inv R (s\<lparr>next_tid := n\<rparr>) = base_inv R s"
  by (simp_all add: inv_unfold cong: thread_status.case_cong option.case_cong)

lemma tok_fields [simp]:
  "tok l (s\<lparr>intr_on := b\<rparr>) = tok l s" "tok l (s\<lparr>holder := h\<rparr>) = tok l s" "tok l (s\<lparr>conds := c\<rparr>) = tok l s"
  "tok l (s\<lparr>in_external_intr := b\<rparr>) = tok l s" "tok l (s\<lparr>yield_on_return := b\<rparr>) = tok l s"
  "tok l (s\<lparr>ticks := n\<rparr>) = tok l s" "tok l (s\<lparr>semas := m\<rparr>) = tok l s" "tok l (upd_sema sm g s) = tok l s"
  "tok l (s\<lparr>ready_list := r\<rparr>) = tok l s" "tok l (s\<lparr>waiting_list := r\<rparr>) = tok l s"
  "tok l (s\<lparr>next_tid := n\<rparr>) = tok l s" "tok l (s\<lparr>thread_ticks := w\<rparr>) = tok l s"
  "tok l (s\<lparr>idle_ticks := n\<rparr>) = tok l s" "tok l (s\<lparr>kernel_ticks := n\<rparr>) = tok l s" "tok l (s\<lparr>user_ticks := n\<rparr>) = tok l s"
  "tok l (set_status t st s) = tok l s"
  by (auto simp: tok_def is_thread_def upd_defs)

lemma thread_current_ok:
  "base_inv R s \<Longrightarrow> status (threads s (current s)) = THREAD_RUNNING \<Longrightarrow> thread_current s = Inr (current s)"
  using base_invD(5) [of R s] by (simp add: thread_current_def)

definition set_todo :: "frame list \<Rightarrow> kernel \<Rightarrow> kernel" where
  "set_todo fs s = upd_thread (current s) (\<lambda>th. th\<lparr>todo := fs\<rparr>) s"

lemma todo_eqs:
  "push_todo fs s = set_todo (fs @ todo (threads s (current s))) s"
  "pop_todo s = set_todo (tl (todo (threads s (current s)))) s"
  by (simp_all add: push_todo_def pop_todo_def set_todo_def upd_thread_def)

lemma set_todo_simps [simp]:
  "current (set_todo fs s) = current s" "idle_thread (set_todo fs s) = idle_thread s"
  "semas (set_todo fs s) = semas s" "holder (set_todo fs s) = holder s" "conds (set_todo fs s) = conds s"
  "intr_on (set_todo fs s) = intr_on s" "in_external_intr (set_todo fs s) = in_external_intr s"
  "ready_list (set_todo fs s) = ready_list s" "waiting_list (set_todo fs s) = waiting_list s"
  "initial_thread (set_todo fs s) = initial_thread s" "ticks (set_todo fs s) = ticks s"
  "yield_on_return (set_todo fs s) = yield_on_return s"
  "is_thread (set_todo fs s) = is_thread s"
  "threads (set_todo fs s) = (threads s)(current s := (threads s (current s))\<lparr>todo := fs\<rparr>)"
  by (auto simp: set_todo_def is_thread_def fun_eq_iff)

text \<open>
  The running thread changes what it has left to do, without taking back a retry on a semaphore.
\<close>

lemma set_todo_placed:
  assumes p: "placed {current s} s" and r: "status (threads s (current s)) = THREAD_RUNNING"
    and i: "current s = idle_thread s \<Longrightarrow> list_all is_restore fs"
  shows "placed {current s} (set_todo fs s)"
proof (rule placedI)
  note nw = running_nowhere [OF p r]
  fix t
  show "thread_placed {current s} (set_todo fs s) t" if "is_thread (set_todo fs s) t"
    using placedD(1) [OF p, of t] that r
    by (cases "t = current s"; auto simp: thread_placed_def split: thread_status.splits option.splits)
  show "in_ready (set_todo fs s) t" if "t \<in> set (ready_list (set_todo fs s))"
    using placedD(3) [OF p, of t] that nw by (auto simp: in_ready_def)
  show "in_waiting (set_todo fs s) t" if "t \<in> set (waiting_list (set_todo fs s))"
    using placedD(5) [OF p, of t] that nw by (auto simp: in_waiting_def)
  show "in_waiters (set_todo fs s) sm t" if "t \<in> set (waiters (semas (set_todo fs s) sm))" for sm
    using placedD(7) [OF p, of t sm] that nw by (auto simp: in_waiters_def)
qed (use placedD [OF p] i in auto)

lemma retry_simps [simp]:
  "retry [] = None" "retry (Down sm # r) = Some sm" "retry (Restore b # r) = None"
  "retry (Set_holder l # r) = None" "retry (Acquire l # r) = None"
  "blocked_on (th\<lparr>todo := fs\<rparr>) = retry fs"
  by (simp_all add: retry_def blocked_on_def)

lemma set_todo_woken:
  assumes "status (threads s (current s)) = THREAD_RUNNING" "is_thread s (current s)"
  shows "woken sm (set_todo fs s) =
    (if retry fs = Some sm then insert (current s) (woken sm s) else woken sm s - {current s})"
  using assms by (auto simp: woken_def)

lemma set_todo_base:
  assumes b: "base_inv {current s} s" and r: "status (threads s (current s)) = THREAD_RUNNING"
    and i: "current s = idle_thread s \<Longrightarrow> list_all is_restore fs"
    and f: "frames_ok (current s) fs" and n: "blocked_on (threads s (current s)) = None"
  shows "base_inv {current s} (set_todo fs s)"
proof -
  have "woken sm s \<subseteq> woken sm (set_todo fs s)" for sm
    using n unfolding set_todo_woken [OF r base_invD(5) [OF b]] by (auto simp: woken_def)
  moreover have "finite (woken sm (set_todo fs s))" for sm
    by (rule finite_subset [OF _ base_invD(4) [OF b]]) (auto simp: woken_def)
  ultimately have "card (woken sm s) \<le> card (woken sm (set_todo fs s))" for sm by (simp add: card_mono)
  then have "wake_ok sm (set_todo fs s)" for sm
    using base_invD(3) [OF b, of sm] by (auto simp: wake_ok_def intro: order_trans)
  then show ?thesis
    using set_todo_placed [OF base_invD(1) [OF b] r i] base_invD [OF b] f by (simp add: base_inv_def)
qed

lemma set_todo_tok:
  assumes "is_thread s (current s)"
  shows "tok l (set_todo fs s) = (if core fs = [Set_holder l] then insert (current s) (tok l s) else tok l s - {current s})"
  using assms by (auto simp: tok_def)

section \<open>Semaphores\<close>

lemma kernel_invD:
  assumes "kernel_inv s"
  shows "base_inv {current s} s" "status (threads s (current s)) = THREAD_RUNNING" "\<not> in_external_intr s"
    "lock_ok l s" "is_thread s (current s)" "thread_current s = Inr (current s)"
    "frames_ok (current s) (todo (threads s (current s)))"
proof -
  show b: "base_inv {current s} s" and r: "status (threads s (current s)) = THREAD_RUNNING" and
    "\<not> in_external_intr s" "lock_ok l s" using assms by (auto simp: kernel_inv_def)
  show "is_thread s (current s)" "frames_ok (current s) (todo (threads s (current s)))"
    using base_invD [OF b] by auto
  show "thread_current s = Inr (current s)" using thread_current_ok [OF b r] .
qed

lemma thread_block_ok:
  assumes k: "kernel_inv s" and p: "parked s (set_status (current s) THREAD_BLOCKED s1) THREAD_BLOCKED"
    and f: "\<not> intr_on s1" "in_external_intr s1 = in_external_intr s" "holder s1 = holder s"
      "current s1 = current s" "threads s1 = threads s"
  shows "\<exists>s'. thread_block s1 = Inr s' \<and> sched_inv s'"
proof -
  note kd = kernel_invD [OF k]
  have "thread_current s1 = Inr (current s)"
    using kd(5,2) f(4,5) by (simp add: thread_current_def is_thread_def)
  then have "thread_block s1 = schedule (set_status (current s) THREAD_BLOCKED s1)"
    using f(1,2) kd(3) by (simp add: thread_block_def intr_context_def)
  moreover have "\<not> intr_on (set_status (current s) THREAD_BLOCKED s1)"
    "\<not> in_external_intr (set_status (current s) THREAD_BLOCKED s1)"
    "holder (set_status (current s) THREAD_BLOCKED s1) = holder s"
    using f kd(3) by (simp_all add: set_status_def)
  ultimately show ?thesis
    using parked_schedule [OF kd(1,2) p] kd(4) by metis
qed

text \<open>One round of the loop of \<^verbatim>\<open>sema_down\<close>: the thread is parked, or takes the semaphore.\<close>

lemma frames_ok_tl:
  assumes "frames_ok t (Down sm # r)"
  shows "frames_ok t r" "retry r = None" "core r = [Set_holder l] \<longleftrightarrow> sm = Lock_sem l" "core (Down sm # r) = Down sm # r"
proof -
  from assms have c: "core r = [] \<or> (\<exists>l. core r = [Set_holder l] \<or> core r = [Acquire l])"
    by (auto simp: frames_ok_def split: sema_id.splits)
  then have nd: "r \<noteq> Down m # r'" for m r' by (auto simp: core_def is_restore_def)
  then show "retry r = None" by (auto simp: retry_def split: list.splits frame.splits)
  show "frames_ok t r" using c nd by (auto simp: frames_ok_def split: list.splits frame.splits)
  show "core r = [Set_holder l] \<longleftrightarrow> sm = Lock_sem l" using assms by (auto simp: frames_ok_def split: sema_id.splits)
  show "core (Down sm # r) = Down sm # r" by (simp add: core_def is_restore_def)
qed

lemma placed_cong:
  assumes "threads s' = threads s" "current s' = current s" "ready_list s' = ready_list s"
    "waiting_list s' = waiting_list s" "idle_thread s' = idle_thread s" "initial_thread s' = initial_thread s"
    "\<And>m. waiters (semas s' m) = waiters (semas s m)"
  shows "placed R s' = placed R s"
  by (simp add: placed_def thread_placed_def in_ready_def in_waiting_def in_waiters_def is_thread_def assms
      cong: thread_status.case_cong option.case_cong)

lemma take_sema:
  assumes k: "kernel_inv s" and d: "todo (threads s (current s)) = Down sm # r" and v: "sval (semas s sm) \<noteq> 0"
  shows "sched_inv (pop_todo (upd_sema sm (\<lambda>x. x\<lparr>sval := sval x - 1\<rparr>) s))"
proof -
  note kd = kernel_invD [OF k] and b = base_invD [OF kernel_invD(1) [OF k]]
  let ?s0 = "upd_sema sm (\<lambda>x. x\<lparr>sval := sval x - 1\<rparr>) s"
  define s1 where "s1 = pop_todo ?s0"
  have s: "s1 = set_todo r ?s0" by (simp add: s1_def todo_eqs d)
  note fr = frames_ok_tl [OF kd(7) [unfolded d]]
  have ni: "current s \<noteq> idle_thread s" using placedD(11) [OF b(1)] d by (auto simp: blocked_on_def)
  have p0: "placed {current ?s0} ?s0" using b(1) by (subst placed_cong [of _ s]) auto
  have p: "placed {current s} s1"
    using set_todo_placed [OF p0] kd(2) ni unfolding s by simp
  have w0: "woken m ?s0 = woken m s" for m by (simp add: woken_def)
  have w: "woken m s1 = (if m = sm then woken sm s - {current s} else woken m s)" for m
    using set_todo_woken [of ?s0 m r] kd(2,5) fr(2) d unfolding s by (auto simp: w0 woken_def blocked_on_def)
  have cur: "current s \<in> woken sm s" using kd(2,5) d by (simp add: woken_def blocked_on_def)
  have "unat (sval (semas s sm) - 1) = unat (sval (semas s sm)) - 1"
    using v by (simp add: unat_minus_one)
  then have "wake_ok m s1" for m
    using b(3) [of m] w [of m] cur b(6) [of sm] by (auto simp: wake_ok_def s)
  then have base: "base_inv {current s1} s1" using p b fr(1) by (simp add: base_inv_def s)
  have t: "tok l s1 = (if sm = Lock_sem l then insert (current s) (tok l s) else tok l s)" for l
    using set_todo_tok [of ?s0 l r] kd(5) fr(3) [of l] d fr(4) unfolding s by (auto simp: tok_def)
  have "lock_ok l s1" for l
    using kd(4) [of l] t [of l] v by (auto simp: lock_ok_def s)
  with base kd(2,3) have "kernel_inv s1" by (simp add: kernel_inv_def s)
  moreover have "retry (todo (threads s1 (current s1))) = None" using fr(2) by (simp add: s)
  ultimately show ?thesis by (simp add: sched_inv_def flip: s1_def)
qed

lemma down_loop_ok:
  assumes k: "kernel_inv s" and d: "todo (threads s (current s)) = Down sm # r" and i: "\<not> intr_on s"
  shows "\<exists>s'. down_loop sm s = Inr s' \<and> sched_inv s'"
proof (cases "sval (semas s sm) = 0")
  case True
  note kd = kernel_invD [OF k]
  let ?s1 = "upd_sema sm (\<lambda>x. x\<lparr>waiters := waiters x @ [current s]\<rparr>) s"
  have ni: "current s \<noteq> idle_thread s" using placedD(11) [OF base_invD(1) [OF kd(1)]] d by (auto simp: blocked_on_def)
  have "parked s (set_status (current s) THREAD_BLOCKED ?s1) THREAD_BLOCKED"
    using True d ni by (auto simp: parked_def set_status_def blocked_on_def)
  from thread_block_ok [OF k this] i show ?thesis
    using True kd(6) by (simp add: down_loop_def)
next
  case False
  then show ?thesis using take_sema [OF k d False] by (simp add: down_loop_def)
qed

lemma kernel_inv_fields [simp]:
  "kernel_inv (s\<lparr>intr_on := b\<rparr>) = kernel_inv s" "kernel_inv (s\<lparr>conds := c\<rparr>) = kernel_inv s"
  "kernel_inv (s\<lparr>yield_on_return := b\<rparr>) = kernel_inv s" "kernel_inv (s\<lparr>ticks := n\<rparr>) = kernel_inv s"
  "kernel_inv (intr_disable s) = kernel_inv s"
  by (simp_all add: kernel_inv_def lock_ok_def intr_disable_def)

text \<open>The running thread, which has no lock half taken, changes what it has left to do.\<close>

lemma set_todo_kernel:
  assumes k: "kernel_inv s" and i: "current s = idle_thread s \<Longrightarrow> list_all is_restore fs"
    and f: "frames_ok (current s) fs" "retry (todo (threads s (current s))) = None"
    and c: "\<And>l. core (todo (threads s (current s))) = [Set_holder l] \<longleftrightarrow> core fs = [Set_holder l]"
  shows "kernel_inv (set_todo fs s)"
proof -
  note kd = kernel_invD [OF k]
  have "base_inv {current s} (set_todo fs s)"
    using set_todo_base [OF kd(1,2) i f(1)] f(2) by (simp add: blocked_on_def)
  moreover have "tok l (set_todo fs s) = tok l s" for l
    using c [of l] kd(5) unfolding set_todo_tok [OF kd(5)] by (auto simp: tok_def)
  ultimately show ?thesis using kd by (simp add: kernel_inv_def lock_ok_def)
qed

lemma enter_down:
  assumes k: "kernel_inv s" and t: "todo (threads s (current s)) = []" "current s \<noteq> idle_thread s"
    and f: "frames_ok (current s) (Down sm # r)"
  shows "\<exists>s'. down_loop sm (intr_disable (set_todo (Down sm # r) s)) = Inr s' \<and> sched_inv s'"
proof (rule down_loop_ok)
  have "kernel_inv (set_todo (Down sm # r) s)"
    by (rule set_todo_kernel [OF k _ f]) (use t in \<open>auto simp: core_def is_restore_def\<close>)
  then show "kernel_inv (intr_disable (set_todo (Down sm # r) s))" by simp
qed (simp_all add: intr_disable_def)

lemma set_todo_twice [simp]: "set_todo fs (set_todo gs s) = set_todo fs s"
  by (simp add: set_todo_def upd_thread_def)

lemma sema_down_push:
  assumes "kernel_inv s"
  shows "sema_down sm (push_todo fs s) =
    down_loop sm (intr_disable (set_todo (Down sm # Restore (intr_on s) # fs @ todo (threads s (current s))) s))"
  using kernel_invD(3) [OF assms] by (simp add: sema_down_def intr_context_def todo_eqs)

lemma sema_down_ok:
  assumes k: "kernel_inv s" and t: "todo (threads s (current s)) = []" "current s \<noteq> idle_thread s"
  shows "\<exists>s'. sema_down (Sem a) s = Inr s' \<and> sched_inv s'"
proof -
  have "push_todo [] s = s" by (simp add: push_todo_def upd_thread_def)
  with sema_down_push [OF k, of "Sem a" "[]"] enter_down [OF k t, of "Sem a" "[Restore (intr_on s)]"] t(1)
  show ?thesis by (simp add: frames_ok_def core_def is_restore_def)
qed

lemma lock_acquire_ok:
  assumes k: "kernel_inv s" and t: "todo (threads s (current s)) = []" "current s \<noteq> idle_thread s"
    and h: "holder s l \<noteq> current s"
  shows "\<exists>s'. lock_acquire l s = Inr s' \<and> sched_inv s'"
proof -
  have "lock_acquire l s = sema_down (Lock_sem l) (push_todo [Set_holder l] s)"
    using kernel_invD(3,6) [OF k] h by (simp add: lock_acquire_def intr_context_def lock_held_by_current_thread_def)
  with sema_down_push [OF k, of "Lock_sem l" "[Set_holder l]"] t(1)
    enter_down [OF k t, of "Lock_sem l" "[Restore (intr_on s), Set_holder l]"]
  show ?thesis by (simp add: frames_ok_def core_def is_restore_def)
qed

section \<open>Waking a thread\<close>

text \<open>
  A blocked thread \<open>t\<close> is taken off the list it is on, the waiters of a semaphore or the sleeping
  threads, and made ready.
\<close>

definition unparked :: "kernel \<Rightarrow> kernel \<Rightarrow> addr \<Rightarrow> bool" where
  "unparked s s1 t \<longleftrightarrow> threads s1 = (threads s)(t := (threads s t)\<lparr>status := THREAD_READY\<rparr>) \<and>
     current s1 = current s \<and> idle_thread s1 = idle_thread s \<and> initial_thread s1 = initial_thread s \<and>
     ready_list s1 = ready_list s @ [t] \<and> t \<noteq> idle_thread s \<and> is_thread s t \<and>
     status (threads s t) = THREAD_BLOCKED \<and>
     waiting_list s1 = (if blocked_on (threads s t) = None then remove1 t (waiting_list s) else waiting_list s) \<and>
     (\<forall>sm. waiters (semas s1 sm) =
       (if blocked_on (threads s t) = Some sm then remove1 t (waiters (semas s sm)) else waiters (semas s sm)))"

lemma unparked_placed:
  assumes p: "placed R s" and u: "unparked s s1 t"
  shows "placed R s1"
proof (rule placedI)
  have th: "threads s1 = (threads s)(t := (threads s t)\<lparr>status := THREAD_READY\<rparr>)"
    "current s1 = current s" "idle_thread s1 = idle_thread s" "initial_thread s1 = initial_thread s"
    "status (threads s t) = THREAD_BLOCKED" "t \<noteq> idle_thread s"
    using u by (auto simp: unparked_def)
  have it: "is_thread s1 = is_thread s" by (simp add: is_thread_def th fun_eq_iff)
  have nr: "t \<notin> set (ready_list s)" using placedD(3) [OF p, of t] th(5) by (auto simp: in_ready_def)
  fix x
  show "thread_placed R s1 x" if "is_thread s1 x"
    using placedD(1) [OF p, of x] that u
    by (cases "x = t"; auto simp: thread_placed_def it th unparked_def in_set_remove1 split: thread_status.splits option.splits)
  show "in_ready s1 x" if "x \<in> set (ready_list s1)"
    using placedD(3) [OF p, of x] that u by (auto simp: in_ready_def it th unparked_def split: if_splits)
  show "in_waiting s1 x" if "x \<in> set (waiting_list s1)"
    using placedD(4) [OF p] placedD(5) [OF p, of x] that u
    by (auto simp: in_waiting_def it th unparked_def split: if_splits dest: notin_set_remove1)
  show "in_waiters s1 sm x" if "x \<in> set (waiters (semas s1 sm))" for sm
    using placedD(6) [OF p, of sm] placedD(7) [OF p, of x sm] that u
    by (auto simp: in_waiters_def it th unparked_def split: if_splits dest: notin_set_remove1)
  show "distinct (ready_list s1)" using placedD(2) [OF p] u nr by (simp add: unparked_def)
qed (use placedD [OF p] u in \<open>auto simp: unparked_def is_thread_def distinct_remove1\<close>)

lemma unparked_base:
  assumes b: "base_inv R s" and u: "unparked s s1 t"
    and v: "\<And>m. waiters (semas s m) \<noteq> [] \<Longrightarrow> unat (sval (semas s1 m)) \<le> unat (sval (semas s m)) + (if blocked_on (threads s t) = Some m then 1 else 0)"
  shows "base_inv R s1" "tok l s1 = tok l s"
proof -
  have th: "threads s1 = (threads s)(t := (threads s t)\<lparr>status := THREAD_READY\<rparr>)"
    "current s1 = current s" "status (threads s t) = THREAD_BLOCKED" "is_thread s t"
    using u by (auto simp: unparked_def)
  have it: "is_thread s1 = is_thread s" by (simp add: is_thread_def th fun_eq_iff)
  have todo: "todo (threads s1 x) = todo (threads s x)" for x by (simp add: th)
  show "tok l s1 = tok l s" by (simp add: tok_def it todo)
  have w: "woken m s1 = (if blocked_on (threads s t) = Some m then insert t (woken m s) else woken m s)" for m
    using th by (auto simp: woken_def it)
  have "t \<notin> woken m s" for m using th(3) by (simp add: woken_def)
  then have card: "card (woken m s1) = card (woken m s) + (if blocked_on (threads s t) = Some m then 1 else 0)" for m
    using base_invD(6) [OF b, of m] by (simp add: w)
  have "wake_ok m s1" for m
  proof (cases "waiters (semas s m) = []")
    case True
    then have "waiters (semas s1 m) = []" using u by (simp add: unparked_def)
    then show ?thesis by (simp add: wake_ok_def)
  next
    case False
    then show ?thesis using base_invD(3) [OF b, of m] v [OF False] card [of m] by (simp add: wake_ok_def)
  qed
  then show "base_inv R s1"
    using unparked_placed [OF base_invD(1) [OF b] u] base_invD [OF b] th by (simp add: base_inv_def it todo)
qed

text \<open>What \<^verbatim>\<open>sema_up\<close> keeps, and the value that it leaves.\<close>

definition same_cpu :: "kernel \<Rightarrow> kernel \<Rightarrow> bool" where
  "same_cpu s s' \<longleftrightarrow> current s' = current s \<and> idle_thread s' = idle_thread s \<and> holder s' = holder s \<and> conds s' = conds s \<and>
     intr_on s' = intr_on s \<and> in_external_intr s' = in_external_intr s \<and>
     threads s' (current s) = threads s (current s) \<and> ticks s' = ticks s"

lemma thread_unblock_eq:
  assumes "is_thread s t" "status (threads s t) = THREAD_BLOCKED" "intr_on s \<longrightarrow> \<not> in_external_intr s"
  shows "thread_unblock t s = Inr ((set_status t THREAD_READY (s\<lparr>ready_list := ready_list s @ [t]\<rparr>)))"
  using assms by (simp add: thread_unblock_def Let_def upd_defs intr_set_level_def intr_enable_def upd_thread_def)

lemma unat_plus_one_le: "unat (v + 1 :: u32) \<le> unat v + 1"
  by (metis add.commute le_refl plus_1_eq_Suc unat_word_ariths(1) unat_1 mod_less_eq_dividend)

lemma sema_up_ok:
  assumes b: "base_inv R s" and r: "status (threads s (current s)) = THREAD_RUNNING"
    and i: "intr_on s \<longrightarrow> \<not> in_external_intr s"
  shows "\<exists>s'. sema_up sm s = Inr s' \<and> base_inv R s' \<and> same_cpu s s' \<and> (\<forall>l. tok l s' = tok l s) \<and>
    (\<forall>m. sval (semas s' m) = (if m = sm then sval (semas s m) + 1 else sval (semas s m)))"
proof (cases "waiters (semas s sm)")
  case Nil
  define s1 where "s1 = upd_sema sm (\<lambda>x. x\<lparr>sval := sval x + 1\<rparr>) s"
  have up: "sema_up sm s = Inr s1"
    using Nil i by (simp add: sema_up_def Let_def intr_disable_def intr_set_level_def intr_enable_def intr_context_def
        s1_def upd_sema_def)
  have "placed R s1" using base_invD(1) [OF b] by (subst placed_cong [of _ s]) (auto simp: s1_def)
  moreover have "wake_ok m s1" for m using base_invD(3) [OF b, of m] Nil by (auto simp: wake_ok_def s1_def woken_def)
  ultimately have "base_inv R s1" using base_invD [OF b] by (simp add: base_inv_def s1_def)
  then show ?thesis using up by (auto simp: s1_def same_cpu_def)
next
  case (Cons t ts)
  note p = base_invD(1) [OF b]
  have t: "is_thread s t" "status (threads s t) = THREAD_BLOCKED" "blocked_on (threads s t) = Some sm"
    using placedD(7) [OF p, of t sm] Cons by (auto simp: in_waiters_def)
  have nt: "t \<noteq> idle_thread s" "t \<noteq> current s" using t r placedD(11) [OF p] by auto
  define s1 where "s1 = upd_sema sm (\<lambda>x. x\<lparr>waiters := ts, sval := sval x + 1\<rparr>)
    (set_status t THREAD_READY (s\<lparr>ready_list := ready_list s @ [t]\<rparr>))"
  have ub: "thread_unblock t (upd_sema sm (\<lambda>x. x\<lparr>waiters := ts\<rparr>) (intr_disable s)) =
    Inr (set_status t THREAD_READY ((upd_sema sm (\<lambda>x. x\<lparr>waiters := ts\<rparr>) (intr_disable s))\<lparr>ready_list := ready_list s @ [t]\<rparr>))"
    using t by (subst thread_unblock_eq) (auto simp: intr_disable_def)
  have up: "sema_up sm s = Inr s1"
    using Cons i ub by (simp add: sema_up_def Let_def intr_set_level_def intr_enable_def intr_context_def upd_defs
        s1_def upd_sema_def upd_thread_def)
  have up1: "unparked s s1 t"
    using t nt Cons by (auto simp: unparked_def s1_def set_status_def)
  have "unat (sval (semas s1 m)) \<le> unat (sval (semas s m)) + (if blocked_on (threads s t) = Some m then 1 else 0)" for m
    using unat_plus_one_le t(3) by (auto simp: s1_def set_status_def)
  then have "base_inv R s1" "\<And>l. tok l s1 = tok l s"
    using unparked_base [OF b up1] by blast+
  then show ?thesis using up nt(2) by (auto simp: same_cpu_def s1_def set_status_def)
qed

lemma sema_up_kernel:
  assumes k0: "sched_inv s" and sm: "\<And>l. sm \<noteq> Lock_sem l"
  shows "\<exists>s'. sema_up sm s = Inr s' \<and> sched_inv s' \<and> same_cpu s s'"
proof -
  note k = sched_invD(1) [OF k0] and lv = sched_invD(2) [OF k0]
  note kd = kernel_invD [OF k]
  from sema_up_ok [OF kd(1,2)] kd(3) obtain s' where u: "sema_up sm s = Inr s'" "base_inv {current s} s'"
    "same_cpu s s'" "\<And>l. tok l s' = tok l s"
    "\<And>m. sval (semas s' m) = (if m = sm then sval (semas s m) + 1 else sval (semas s m))" by blast
  have "lock_ok l s'" for l using kd(4) [of l] u(3-5) sm [of l] by (auto simp: lock_ok_def same_cpu_def)
  with u kd(2,3) lv show ?thesis by (auto simp: sched_inv_def kernel_inv_def same_cpu_def)
qed

lemma lock_release_ok:
  assumes k0: "sched_inv s" and h: "holder s l = current s"
  shows "\<exists>s'. lock_release l s = Inr s' \<and> sched_inv s' \<and> same_cpu (s\<lparr>holder := (holder s)(l := NULL)\<rparr>) s'"
proof -
  note k = sched_invD(1) [OF k0] and lv = sched_invD(2) [OF k0]
  note kd = kernel_invD [OF k]
  let ?s = "s\<lparr>holder := (holder s)(l := NULL)\<rparr>"
  have nn: "current s \<noteq> NULL" using kd(5) by (simp add: is_thread_def)
  have b: "base_inv {current s} ?s" "status (threads ?s (current ?s)) = THREAD_RUNNING" using kd(1,2) by simp_all
  from sema_up_ok [OF b, of "Lock_sem l"] kd(3) obtain s' where u: "sema_up (Lock_sem l) ?s = Inr s'" "base_inv {current s} s'"
    "same_cpu ?s s'" "\<And>l. tok l s' = tok l ?s"
    "\<And>m. sval (semas s' m) = (if m = Lock_sem l then sval (semas s m) + 1 else sval (semas s m))" by auto
  have "lock_ok l' s'" for l'
    using kd(4) [of l'] kd(4) [of l] u(3-5) h nn by (cases "l' = l") (auto simp: lock_ok_def same_cpu_def)
  moreover have "lock_release l s = Inr s'"
    using u(1) kd(6) h by (simp add: lock_release_def lock_held_by_current_thread_def)
  ultimately show ?thesis using u kd(2,3) lv by (auto simp: sched_inv_def kernel_inv_def same_cpu_def)
qed

lemma sval_pred:
  assumes b: "base_inv R s" and v: "sval (semas s sm) \<noteq> 0"
  shows "base_inv R (upd_sema sm (\<lambda>x. x\<lparr>sval := sval x - 1\<rparr>) s)" (is "base_inv R ?s1")
proof -
  have p: "placed R ?s1" using base_invD(1) [OF b] by (subst placed_cong [of _ s]) auto
  have "unat (sval (semas s sm) - 1) \<le> unat (sval (semas s sm))" using v by (simp add: unat_minus_one)
  then have "wake_ok m ?s1" for m
    using base_invD(3) [OF b, of m] by (auto simp: wake_ok_def woken_def split: if_splits intro: order_trans)
  with p show ?thesis using base_invD [OF b] by (simp add: base_inv_def)
qed

lemma sema_try_down_eq:
  assumes "intr_on s \<longrightarrow> \<not> in_external_intr s"
  shows "sema_try_down sm s = Inr (if sval (semas s sm) \<noteq> 0 then (upd_sema sm (\<lambda>x. x\<lparr>sval := sval x - 1\<rparr>) s, True) else (s, False))"
  using assms by (simp add: sema_try_down_def Let_def intr_disable_def intr_set_level_def intr_enable_def intr_context_def
      upd_sema_def word_gt_0)

lemma sema_try_down_ok:
  assumes k0: "sched_inv s"
  shows "\<exists>s' r. sema_try_down (Sem a) s = Inr (s', r) \<and> sched_inv s'"
proof -
  note k = sched_invD(1) [OF k0] and lv = sched_invD(2) [OF k0]
  note kd = kernel_invD [OF k]
  have "sched_inv (upd_sema (Sem a) (\<lambda>x. x\<lparr>sval := sval x - 1\<rparr>) s)" if "sval (semas s (Sem a)) \<noteq> 0"
    using sval_pred [OF kd(1) that] kd lv by (simp add: sched_inv_def kernel_inv_def lock_ok_def)
  then show ?thesis using sema_try_down_eq [of s "Sem a"] kd(3) k0 by auto
qed

lemma lock_try_acquire_ok:
  assumes k0: "sched_inv s" and h: "holder s l \<noteq> current s"
  shows "\<exists>s' r. lock_try_acquire l s = Inr (s', r) \<and> sched_inv s'"
proof (cases "sval (semas s (Lock_sem l)) = 0")
  case True
  then have "lock_try_acquire l s = Inr (s, False)"
    using sema_try_down_eq [of s "Lock_sem l"] kernel_invD [OF sched_invD(1) [OF k0]] h
    by (simp add: lock_try_acquire_def lock_held_by_current_thread_def)
  with k0 show ?thesis by blast
next
  case False
  note k = sched_invD(1) [OF k0] and lv = sched_invD(2) [OF k0]
  note kd = kernel_invD [OF k]
  define s1 where "s1 = upd_sema (Lock_sem l) (\<lambda>x. x\<lparr>sval := sval x - 1\<rparr>) s"
  have b: "base_inv {current s} s1" unfolding s1_def by (rule sval_pred [OF kd(1) False])
  have cur: "thread_current s1 = Inr (current s)" using thread_current_ok [OF b] kd(2) by (simp add: s1_def)
  have nn: "current s \<noteq> NULL" using kd(5) by (simp add: is_thread_def)
  have "lock_ok l' (s1\<lparr>holder := (holder s)(l := current s)\<rparr>)" for l'
    using kd(4) [of l'] False nn by (auto simp: lock_ok_def s1_def)
  then have "sched_inv (s1\<lparr>holder := (holder s)(l := current s)\<rparr>)"
    using b kd(2,3) lv by (simp add: sched_inv_def kernel_inv_def s1_def)
  moreover have "lock_try_acquire l s = Inr (s1\<lparr>holder := (holder s)(l := current s)\<rparr>, True)"
    using sema_try_down_eq [of s "Lock_sem l"] kd(3,6) h False cur
    by (simp add: lock_try_acquire_def lock_held_by_current_thread_def s1_def [symmetric]) (simp add: s1_def)
  ultimately show ?thesis by blast
qed

lemma cond_signal_ok:
  assumes k0: "sched_inv s" and h: "holder s l = current s"
  shows "\<exists>s'. cond_signal c l s = Inr s' \<and> sched_inv s' \<and> holder s' = holder s \<and> current s' = current s"
proof (cases "conds s c")
  case Nil
  then show ?thesis using kernel_invD [OF sched_invD(1) [OF k0]] k0 h
    by (simp add: cond_signal_def intr_context_def lock_held_by_current_thread_def)
next
  case (Cons w ws)
  have "sched_inv (s\<lparr>conds := (conds s)(c := ws)\<rparr>)" using k0 by (simp add: sched_inv_def)
  from sema_up_kernel [OF this, of "Waiter w"] kernel_invD [OF sched_invD(1) [OF k0]] h Cons show ?thesis
    by (auto simp: cond_signal_def intr_context_def lock_held_by_current_thread_def same_cpu_def)
qed

lemma cond_broadcast_ok:
  "sched_inv s \<Longrightarrow> holder s l = current s \<Longrightarrow> \<exists>s'. cond_broadcast c l s = Inr s' \<and> sched_inv s'"
proof (induction c l s rule: cond_broadcast.induct)
  case (1 c l s)
  from cond_signal_ok [OF "1.prems", of c] obtain s1 where
    s1: "cond_signal c l s = Inr s1" "sched_inv s1" "holder s1 l = current s1" using "1.prems"(2) by auto
  show ?case
  proof (cases "conds s c = []")
    case False
    from "1.IH" [OF False s1] s1(1) False show ?thesis by (simp add: cond_broadcast.simps [of c l s])
  next
    case True
    with "1.prems" show ?thesis by (simp add: cond_broadcast.simps [of c l s])
  qed
qed

lemma cond_wait_ok:
  assumes k: "kernel_inv s" and t: "todo (threads s (current s)) = []" "current s \<noteq> idle_thread s"
    and h: "holder s l = current s"
  shows "\<exists>s'. cond_wait c l s = Inr s' \<and> sched_inv s'"
proof -
  note kd = kernel_invD [OF k] and p = base_invD(1) [OF kernel_invD(1) [OF k]]
  define w where "w = current s"
  define s1 where "s1 = (sema_init (Waiter w) 0 s)\<lparr>conds := (conds s)(c := conds s c @ [w])\<rparr>"
  have "x \<notin> set (waiters (semas s (Waiter w)))" for x
  proof
    assume "x \<in> set (waiters (semas s (Waiter w)))"
    from placedD(7) [OF p this] base_invD(2) [OF kd(1), of x] have
      x: "status (threads s x) = THREAD_BLOCKED" "retry (todo (threads s x)) = Some (Waiter w)" "frames_ok x (todo (threads s x))"
      by (auto simp: in_waiters_def blocked_on_def)
    then obtain r where "todo (threads s x) = Down (Waiter w) # r" by (auto simp: retry_def split: list.splits frame.splits)
    with x(3) have "x = current s" by (simp add: frames_ok_def w_def)
    with x(1) kd(2) show False by simp
  qed
  then have e: "waiters (semas s (Waiter w)) = []" by (cases "waiters (semas s (Waiter w))") auto
  have "placed {current s} s1" using p e by (subst placed_cong [of _ s]) (auto simp: s1_def sema_init_def)
  moreover have "wake_ok m s1" for m
    using base_invD(3) [OF kd(1), of m] by (auto simp: wake_ok_def s1_def sema_init_def woken_def is_thread_def)
  ultimately have "base_inv {current s} s1"
    using base_invD [OF kd(1)] by (simp add: base_inv_def s1_def sema_init_def)
  then have k1: "kernel_inv s1" using kd by (simp add: kernel_inv_def lock_ok_def s1_def sema_init_def)
  have s1: "holder s1 l = current s1" "threads s1 = threads s" "idle_thread s1 = idle_thread s" "current s1 = current s"
    using h by (simp_all add: s1_def sema_init_def)
  have k1s: "sched_inv s1" using k1 t(1) s1 by (simp add: sched_inv_def)
  from lock_release_ok [OF k1s s1(1)] obtain s2 where
    s2: "lock_release l s1 = Inr s2" "sched_inv s2" "current s2 = current s" "idle_thread s2 = idle_thread s"
      "threads s2 (current s) = threads s (current s)" using s1 by (auto simp: same_cpu_def)
  have "cond_wait c l s = sema_down (Waiter w) (push_todo [Acquire l] s2)"
    using kd(3,6) h s2(1) by (simp add: cond_wait_def intr_context_def lock_held_by_current_thread_def Let_def
        s1_def w_def [symmetric] sema_init_def)
  with sema_down_push [OF sched_invD(1) [OF s2(2)], of "Waiter w" "[Acquire l]"]
    enter_down [OF sched_invD(1) [OF s2(2)], of "Waiter w" "[Restore (intr_on s2), Acquire l]"] s2 t
  show ?thesis by (simp add: frames_ok_def core_def is_restore_def w_def)
qed

section \<open>Yielding, sleeping, creating and ending threads\<close>

lemma frames_ok_Restore [simp]:
  "retry fs = None \<Longrightarrow> frames_ok t (Restore b # fs) = frames_ok t fs"
  "core (Restore b # fs) = core fs"
  by (auto simp: frames_ok_def core_def is_restore_def retry_def split: list.splits frame.splits)

lemma push_restore_kernel:
  assumes k: "kernel_inv s" and r: "retry (todo (threads s (current s))) = None"
  shows "kernel_inv (push_todo [Restore b] s)"
proof -
  note kd = kernel_invD [OF k]
  have "list_all is_restore (todo (threads s (current s)))" if "current s = idle_thread s"
    using placedD(9) [OF base_invD(1) [OF kd(1)]] that by simp
  then show ?thesis
    unfolding todo_eqs using r kd(7) by (intro set_todo_kernel [OF k]) (auto simp: is_restore_def)
qed

lemma thread_yield_ok:
  assumes k: "kernel_inv s" and r: "retry (todo (threads s (current s))) = None"
  shows "\<exists>s'. thread_yield s = Inr s' \<and> sched_inv s'"
proof -
  define s0 where "s0 = intr_disable (push_todo [Restore (intr_on s)] s)"
  have k0: "kernel_inv s0" using push_restore_kernel [OF k r] by (simp add: s0_def)
  note kd = kernel_invD [OF k0]
  define s1 where "s1 = set_status (current s0) THREAD_READY
    (if current s0 \<noteq> idle_thread s0 then s0\<lparr>ready_list := ready_list s0 @ [current s0]\<rparr> else s0)"
  have p: "parked s0 s1 THREAD_READY" by (auto simp: parked_def s1_def set_status_def)
  have f: "\<not> intr_on s1" "\<not> in_external_intr s1" "holder s1 = holder s0"
    using kd(3) by (auto simp: s1_def s0_def upd_defs)
  have "current s0 = current s" by (simp add: s0_def upd_defs)
  then have "thread_yield s = schedule s1"
    using kernel_invD(3,6) [OF k] by (simp add: thread_yield_def intr_context_def Let_def s1_def s0_def)
  then show ?thesis using parked_schedule [OF kd(1,2) p f kd(4)] by simp
qed

lemma kernel_inv_wake_tick [simp]:
  "kernel_inv (upd_thread t (\<lambda>th. th\<lparr>wake_tick := w\<rparr>) s) = kernel_inv s" (is "kernel_inv ?s = _")
proof -
  have th: "is_thread ?s = is_thread s" "\<And>x. status (threads ?s x) = status (threads s x)"
    "\<And>x. todo (threads ?s x) = todo (threads s x)" "\<And>x. blocked_on (threads ?s x) = blocked_on (threads s x)"
    by (auto simp: is_thread_def fun_eq_iff)
  show ?thesis
    unfolding kernel_inv_def base_inv_def placed_def thread_placed_def in_ready_def in_waiting_def in_waiters_def
      wake_ok_def woken_def lock_ok_def tok_def th by (simp only: upd_simps)
qed

lemma timer_sleep_ok:
  assumes k0: "sched_inv s" and t: "todo (threads s (current s)) = []" "current s \<noteq> idle_thread s" and i: "intr_on s"
  shows "\<exists>s'. timer_sleep n s = Inr s' \<and> sched_inv s'"
proof (cases "n < 0")
  case False
  note k = sched_invD(1) [OF k0] and lv = sched_invD(2) [OF k0]
  define s0 where "s0 = upd_thread (current s) (\<lambda>th. th\<lparr>wake_tick := ticks s + n\<rparr>) (intr_disable (push_todo [Restore (intr_on s)] s))"
  have kp: "kernel_inv (push_todo [Restore (intr_on s)] s)" using push_restore_kernel [OF k] t(1) by simp
  have oth: "current s0 = current s" "ready_list s0 = ready_list s" "waiting_list s0 = waiting_list s" "semas s0 = semas s"
    "idle_thread s0 = idle_thread s" "initial_thread s0 = initial_thread s" "holder s0 = holder s"
    "in_external_intr s0 = in_external_intr s" "\<not> intr_on s0"
    by (simp_all add: s0_def upd_defs)
  have k0: "kernel_inv s0" using kp by (simp add: s0_def)
  note kd = kernel_invD [OF k0]
  let ?s1 = "s0\<lparr>waiting_list := waiting_list s0 @ [current s0]\<rparr>"
  have nb: "blocked_on (threads s0 (current s0)) = None" using t(1) by (simp add: s0_def upd_defs blocked_on_def)
  have "parked s0 (set_status (current s0) THREAD_BLOCKED ?s1) THREAD_BLOCKED"
    using nb t(2) oth by (auto simp: parked_def set_status_def)
  from thread_block_ok [OF k0 this] oth obtain s' where s': "thread_block ?s1 = Inr s'" "sched_inv s'" by auto
  have "timer_sleep n s = thread_block ?s1"
    using False i kernel_invD(6) [OF k] oth(1)
    by (simp add: timer_sleep_def thread_add_to_waiting_def Let_def s0_def)
  with s' show ?thesis by simp
qed (use k0 in \<open>simp add: timer_sleep_def\<close>)

lemma thread_exit_ok:
  assumes k: "kernel_inv s" and t: "todo (threads s (current s)) = []" "current s \<noteq> idle_thread s"
  shows "\<exists>s'. thread_exit s = Inr s' \<and> sched_inv s'"
proof -
  note kd = kernel_invD [OF k]
  let ?s1 = "set_status (current s) THREAD_DYING (intr_disable s)"
  have p: "parked s ?s1 THREAD_DYING" using t by (auto simp: parked_def upd_defs)
  have "thread_exit s = schedule ?s1" using kd(3,6) by (simp add: thread_exit_def intr_context_def)
  moreover have "\<not> intr_on ?s1" "\<not> in_external_intr ?s1" "holder ?s1 = holder s" using kd(3) by (simp_all add: upd_defs)
  ultimately show ?thesis using parked_schedule [OF kd(1,2) p _ _ _ kd(4)] by simp
qed

lemma idle_round_ok:
  assumes k: "kernel_inv s" and t: "todo (threads s (current s)) = []" "current s = idle_thread s"
  shows "\<exists>s'. idle_round s = Inr s' \<and> sched_inv s'"
proof -
  define s0 where "s0 = push_todo [Restore True] (intr_disable s)"
  have "kernel_inv (intr_disable s)" using k by simp
  from push_restore_kernel [OF this, of True] t have k0: "kernel_inv s0" by (simp add: s0_def intr_disable_def)
  have "current s0 = idle_thread s0" "blocked_on (threads s0 (current s0)) = None" "\<not> intr_on s0"
    using t by (simp_all add: s0_def upd_defs blocked_on_def)
  then have "parked s0 (set_status (current s0) THREAD_BLOCKED s0) THREAD_BLOCKED"
    by (auto simp: parked_def set_status_def)
  from thread_block_ok [OF k0 this] \<open>\<not> intr_on s0\<close> show ?thesis by (simp add: idle_round_def s0_def)
qed

text \<open>A new thread: its page was no thread before, and it is entered in the ready list.\<close>

lemma new_thread_base:
  assumes b: "base_inv R s" and n: "\<not> is_thread s page" "page \<noteq> NULL"
    and th: "threads s1 = (threads s)(page := th)" "magic th = THREAD_MAGIC" "status th = THREAD_READY" "todo th = [Restore True]"
    and f: "current s1 = current s" "idle_thread s1 = idle_thread s" "initial_thread s1 = initial_thread s"
      "waiting_list s1 = waiting_list s" "semas s1 = semas s" "ready_list s1 = ready_list s @ [page]"
  shows "base_inv R s1" "tok l s1 = tok l s"
proof -
  note p = base_invD(1) [OF b]
  have it: "is_thread s1 t \<longleftrightarrow> is_thread s t \<or> t = page" for t using n th by (auto simp: is_thread_def)
  have old: "is_thread s t \<Longrightarrow> threads s1 t = threads s t" for t using n th by auto
  have nb: "blocked_on th = None" using th(4) by (simp add: blocked_on_def)
  have np: "page \<noteq> idle_thread s" "page \<notin> set (ready_list s)" using n placedD(3,8) [OF p] by (auto simp: in_ready_def)
  have "placed R s1"
  proof (rule placedI)
    fix t
    show "thread_placed R s1 t" if "is_thread s1 t"
      using that placedD(1) [OF p, of t] old [of t]
      by (cases "t = page"; auto simp: it th f thread_placed_def split: thread_status.splits option.splits)
    show "in_ready s1 t" if "t \<in> set (ready_list s1)"
      using that placedD(3) [OF p, of t] np th n by (auto simp: f in_ready_def it)
    show "in_waiting s1 t" if "t \<in> set (waiting_list s1)"
      using that placedD(5) [OF p, of t] n by (auto simp: f in_waiting_def it th)
    show "in_waiters s1 sm t" if "t \<in> set (waiters (semas s1 sm))" for sm
      using that placedD(7) [OF p, of t sm] n by (auto simp: f in_waiters_def it th)
  qed (use placedD [OF p] np in \<open>auto simp: f it th\<close>)
  moreover have "woken m s1 = woken m s" for m using n nb by (auto simp: woken_def it th)
  moreover have "{t. is_thread s1 t} = insert page {t. is_thread s t}" by (auto simp: it)
  moreover have "frames_ok t (todo (threads s1 t))" if "is_thread s1 t" for t
    using that base_invD(2) [OF b, of t] old [of t] th by (auto simp: it frames_ok_def core_def is_restore_def)
  ultimately show "base_inv R s1" using base_invD [OF b] by (simp add: base_inv_def wake_ok_def f it)
  show "tok l s1 = tok l s" using n by (auto simp: tok_def it th core_def is_restore_def)
qed

lemma thread_create_ok:
  assumes k0: "sched_inv s" and n: "\<not> is_thread s page" and p: "PRI_MIN \<le> prio" "prio \<le> PRI_MAX"
  shows "\<exists>s' i. thread_create page prio s = Inr (s', i) \<and> sched_inv s'"
proof (cases "page = NULL")
  case False
  note k = sched_invD(1) [OF k0] and kd = kernel_invD [OF sched_invD(1) [OF k0]]
  define th where "th = \<lparr>tid = next_tid s, status = THREAD_READY, priority = prio, wake_tick = 0, user_proc = False,
    magic = THREAD_MAGIC, todo = [Restore True]\<rparr>"
  define s1 where "s1 = s\<lparr>threads := (threads s)(page := th), next_tid := next_tid s + 1, ready_list := ready_list s @ [page]\<rparr>"
  have c: "thread_create page prio s = Inr (s1, next_tid s)"
    using False p kd(3) unfolding thread_create_def init_thread_def allocate_tid_def Let_def
    by (simp, subst thread_unblock_eq) (auto simp: is_thread_def s1_def th_def upd_thread_def set_status_def)
  have "base_inv {current s} s1" "tok l s1 = tok l s" for l
    using new_thread_base [OF kd(1) n False, of s1 th] by (auto simp: s1_def th_def)
  moreover have "threads s1 (current s) = threads s (current s)" using kd(5) n by (auto simp: s1_def)
  ultimately have "sched_inv s1"
    using kd k0 by (auto simp: sched_inv_def kernel_inv_def lock_ok_def s1_def)
  with c show ?thesis by blast
qed (use k0 in \<open>simp add: thread_create_def\<close>)

section \<open>Timer ticks\<close>

abbreviation due :: "kernel \<Rightarrow> addr \<Rightarrow> bool" where
  "due s t \<equiv> wake_tick (threads s t) \<le> ticks s"

lemma filter_remove1: "distinct xs \<Longrightarrow> remove1 t xs = filter (\<lambda>x. x \<noteq> t) xs"
  by (induction xs) (auto intro!: filter_True [symmetric])

lemma wake_loop_ok:
  "base_inv R s \<Longrightarrow> distinct ts \<Longrightarrow> set ts \<subseteq> set (waiting_list s) \<Longrightarrow> \<not> intr_on s \<Longrightarrow>
   status (threads s (current s)) = THREAD_RUNNING \<Longrightarrow>
   \<exists>s'. wake_loop ts s = Inr s' \<and> base_inv R s' \<and> same_cpu s s' \<and> (\<forall>l. tok l s' = tok l s) \<and> semas s' = semas s \<and>
     yield_on_return s' = yield_on_return s \<and> (\<forall>t. wake_tick (threads s' t) = wake_tick (threads s t)) \<and>
     ready_list s' = ready_list s @ filter (due s) ts \<and>
     waiting_list s' = filter (\<lambda>t. \<not> (t \<in> set ts \<and> due s t)) (waiting_list s)"
proof (induction ts arbitrary: s)
  case Nil
  then show ?case by (simp add: same_cpu_def)
next
  case (Cons t ts)
  note b = Cons.prems(1) and p = base_invD(1) [OF Cons.prems(1)]
  have t: "t \<in> set (waiting_list s)" "t \<notin> set ts" using Cons.prems by auto
  then have iw: "in_waiting s t" using placedD(5) [OF p] by simp
  have ct: "t \<noteq> current s" using iw Cons.prems(5) by (auto simp: in_waiting_def)
  show ?case
  proof (cases "due s t")
    case True
    define s1 where "s1 = (set_status t THREAD_READY (s\<lparr>ready_list := ready_list s @ [t]\<rparr>))\<lparr>waiting_list := remove1 t (waiting_list s)\<rparr>"
    have ub: "thread_unblock t s = Inr (set_status t THREAD_READY (s\<lparr>ready_list := ready_list s @ [t]\<rparr>))"
      using iw Cons.prems(4) by (intro thread_unblock_eq) (auto simp: in_waiting_def)
    have u: "unparked s s1 t" using iw by (auto simp: unparked_def s1_def set_status_def in_waiting_def)
    have b1: "base_inv R s1" "\<And>l. tok l s1 = tok l s"
      using unparked_base [OF b u] by (auto simp: s1_def set_status_def)
    have s1: "set ts \<subseteq> set (waiting_list s1)" "\<not> intr_on s1" "status (threads s1 (current s1)) = THREAD_RUNNING"
      "distinct ts" "\<And>x. due s1 x = due s x" "semas s1 = semas s" "yield_on_return s1 = yield_on_return s"
      "\<And>x. wake_tick (threads s1 x) = wake_tick (threads s x)" "ready_list s1 = ready_list s @ [t]"
      "waiting_list s1 = filter (\<lambda>x. x \<noteq> t) (waiting_list s)" "same_cpu s s1"
      using Cons.prems t ct filter_remove1 [OF placedD(4) [OF p], of t] by (auto simp: s1_def set_status_def same_cpu_def)
    from Cons.IH [OF b1(1) s1(4,1,2,3)] obtain s2 where s2: "wake_loop ts s1 = Inr s2" "base_inv R s2" "same_cpu s1 s2"
      "\<And>l. tok l s2 = tok l s1" "semas s2 = semas s1" "yield_on_return s2 = yield_on_return s1"
      "\<And>t. wake_tick (threads s2 t) = wake_tick (threads s1 t)"
      "ready_list s2 = ready_list s1 @ filter (due s1) ts"
      "waiting_list s2 = filter (\<lambda>t. \<not> (t \<in> set ts \<and> due s1 t)) (waiting_list s1)" by blast
    have "wake_loop (t # ts) s = Inr s2" using True ub s2(1) by (simp add: s1_def) (simp add: upd_defs)
    moreover have "same_cpu s s2" using s1(11) s2(3) by (simp add: same_cpu_def)
    moreover have "waiting_list s2 = filter (\<lambda>x. \<not> (x \<in> set (t # ts) \<and> due s x)) (waiting_list s)"
      using True by (auto simp: s2(9) s1(5,10) intro!: filter_cong)
    moreover have "ready_list s2 = ready_list s @ filter (due s) (t # ts)" using True by (simp add: s2(8) s1(5,9))
    ultimately show ?thesis using s2(2,4-7) s1(6-8) b1(2) by auto
  next
    case False
    from Cons.IH [OF b] Cons.prems obtain s2 where s2: "wake_loop ts s = Inr s2" "base_inv R s2" "same_cpu s s2"
      "\<And>l. tok l s2 = tok l s" "semas s2 = semas s" "yield_on_return s2 = yield_on_return s"
      "\<And>t. wake_tick (threads s2 t) = wake_tick (threads s t)"
      "ready_list s2 = ready_list s @ filter (due s) ts"
      "waiting_list s2 = filter (\<lambda>t. \<not> (t \<in> set ts \<and> due s t)) (waiting_list s)" by auto
    have "filter (\<lambda>x. \<not> (x \<in> set (t # ts) \<and> due s x)) (waiting_list s) = waiting_list s2"
      using False by (auto simp: s2(9) intro!: filter_cong)
    with s2 False show ?thesis by auto
  qed
qed

lemma thread_tick_ok:
  assumes b: "base_inv R s" and r: "status (threads s (current s)) = THREAD_RUNNING"
    and i: "in_external_intr s" "\<not> intr_on s"
  shows "\<exists>s'. thread_tick s = Inr s' \<and> base_inv R s' \<and> same_cpu s s' \<and> (\<forall>l. tok l s' = tok l s) \<and> semas s' = semas s \<and>
     (\<forall>t. wake_tick (threads s' t) = wake_tick (threads s t)) \<and>
     ready_list s' = ready_list s @ filter (due s) (waiting_list s) \<and>
     waiting_list s' = filter (\<lambda>t. \<not> due s t) (waiting_list s)"
proof -
  define s0 where "s0 = (if current s = idle_thread s then s\<lparr>idle_ticks := idle_ticks s + 1\<rparr>
      else if user_proc (threads s (current s)) then s\<lparr>user_ticks := user_ticks s + 1\<rparr>
      else s\<lparr>kernel_ticks := kernel_ticks s + 1\<rparr>)\<lparr>thread_ticks := thread_ticks s + 1\<rparr>"
  define s1 where "s1 = (if thread_ticks s0 \<ge> TIME_SLICE then s0\<lparr>yield_on_return := True\<rparr> else s0)"
  have eq: "threads s1 = threads s" "current s1 = current s" "waiting_list s1 = waiting_list s" "ready_list s1 = ready_list s"
    "ticks s1 = ticks s" "semas s1 = semas s" "idle_thread s1 = idle_thread s" "holder s1 = holder s" "conds s1 = conds s"
    "in_external_intr s1" "\<not> intr_on s1" "base_inv R s1" "\<And>l. tok l s1 = tok l s"
    using b i by (simp_all add: s1_def s0_def)
  have cur: "thread_current s = Inr (current s)" by (rule thread_current_ok [OF b r])
  have s1i: "intr_disable s1 = s1" using eq(11) by (simp add: intr_disable_def)
  have run: "thread_tick s = kbind (wake_loop (waiting_list s) s1) (intr_set_level False)"
  proof -
    have "(if thread_ticks s0 \<ge> TIME_SLICE then intr_yield_on_return s0 else Inr s0) = Inr s1"
      using i by (simp add: s1_def intr_yield_on_return_def intr_context_def s0_def)
    then show ?thesis
      using eq(3,11) s1i unfolding thread_tick_def cur kbind_simps Let_def s0_def by (auto simp: s1i)
  qed
  have "distinct (waiting_list s)" using placedD(4) [OF base_invD(1) [OF b]] .
  with wake_loop_ok [OF eq(12), of "waiting_list s"] eq r obtain s2 where s2: "wake_loop (waiting_list s) s1 = Inr s2" "base_inv R s2" "same_cpu s1 s2"
      "\<And>l. tok l s2 = tok l s1" "semas s2 = semas s1" "\<And>t. wake_tick (threads s2 t) = wake_tick (threads s1 t)"
      "ready_list s2 = ready_list s1 @ filter (due s1) (waiting_list s)"
      "waiting_list s2 = filter (\<lambda>t. \<not> (t \<in> set (waiting_list s) \<and> due s1 t)) (waiting_list s1)" by auto
  have fin: "thread_tick s = Inr s2"
    using run s2(1,3) eq(11) by (auto simp: intr_set_level_def intr_disable_def same_cpu_def)
  have "waiting_list s2 = filter (\<lambda>t. \<not> due s t) (waiting_list s)"
    by (auto simp: s2(8) eq intro!: filter_cong)
  moreover have "same_cpu s s2" using s2(3) eq i by (auto simp: same_cpu_def)
  ultimately show ?thesis using fin s2 eq by (auto simp: same_cpu_def)
qed

lemma tick_ok:
  assumes k0: "sched_inv s" and i: "intr_on s"
  shows "\<exists>s'. intr_handler timer_interrupt s = Inr s' \<and> sched_inv s'"
proof -
  note k = sched_invD(1) [OF k0] and lv = sched_invD(2) [OF k0]
  have k1: "kernel_inv (push_todo [Restore True] s)" using push_restore_kernel [OF k] lv i by simp
  note kd = kernel_invD [OF k1]
  define s1 where "s1 = (intr_disable (push_todo [Restore True] s))\<lparr>in_external_intr := True, yield_on_return := False, ticks := ticks s + 1\<rparr>"
  have b1: "base_inv {current s1} s1" using kd(1) by (simp add: s1_def upd_defs)
  have e1: "status (threads s1 (current s1)) = THREAD_RUNNING" "in_external_intr s1" "\<not> intr_on s1"
    using kd(2) by (simp_all add: s1_def upd_defs)
  from thread_tick_ok [OF b1 e1] obtain s2 where s2: "thread_tick s1 = Inr s2" "base_inv {current s1} s2" "same_cpu s1 s2"
    "\<And>l. tok l s2 = tok l s1" "semas s2 = semas s1" by blast
  define s3 where "s3 = s2\<lparr>in_external_intr := False\<rparr>"
  have "lock_ok l s3" for l
    using kd(4) [of l] s2(3-5) by (simp add: lock_ok_def s3_def same_cpu_def s1_def upd_defs)
  then have k3: "kernel_inv s3" using s2 e1 by (simp add: kernel_inv_def s3_def same_cpu_def)
  have r3: "retry (todo (threads s3 (current s3))) = None" using s2(3) by (simp add: s3_def same_cpu_def s1_def upd_defs)
  have l3: "\<not> intr_on s3" using s2(3) e1 by (simp add: s3_def same_cpu_def)
  have "intr_handler timer_interrupt s = (if yield_on_return s3 then thread_yield s3 else Inr s3)"
  proof -
    have h: "timer_interrupt ((intr_disable (push_todo [Restore (intr_on s)] s))\<lparr>in_external_intr := True, yield_on_return := False\<rparr>) = Inr s2"
      using s2(1) i by (simp add: timer_interrupt_def s1_def upd_defs)
    have n: "\<not> in_external_intr (intr_disable (push_todo [Restore (intr_on s)] s))" "\<not> intr_on (intr_disable (push_todo [Restore (intr_on s)] s))"
      using kernel_invD(3) [OF k] by (simp_all add: upd_defs)
    show ?thesis
      unfolding intr_handler_def Let_def using h n s2(3) e1 by (simp add: intr_context_def same_cpu_def s3_def)
  qed
  moreover have "sched_inv s3" using sched_inv_off [OF k3 l3] .
  ultimately show ?thesis using thread_yield_ok [OF k3 r3] by auto
qed

section \<open>Resuming, and the invariant\<close>

lemma resume_ok:
  assumes k0: "sched_inv s" and t: "todo (threads s (current s)) \<noteq> []"
    and d: "\<And>sm r. todo (threads s (current s)) = Down sm # r \<Longrightarrow> \<not> intr_on s"
    and a: "\<And>l r. todo (threads s (current s)) = Acquire l # r \<Longrightarrow> holder s l \<noteq> current s"
  shows "\<exists>s'. resume s = Inr s' \<and> sched_inv s'"
proof -
  note k = sched_invD(1) [OF k0] and kd = kernel_invD [OF sched_invD(1) [OF k0]]
  have idle: "list_all is_restore (todo (threads s (current s)))" if "current s = idle_thread s"
    using placedD(9) [OF base_invD(1) [OF kd(1)]] that by simp
  obtain f r where fr: "todo (threads s (current s)) = f # r" using t by (cases "todo (threads s (current s))") auto
  note fo = kd(7) [unfolded fr]
  show ?thesis
  proof (cases f)
    case (Restore b)
    have rt: "retry r = None" using fo Restore by (auto simp: frames_ok_def core_def is_restore_def retry_def split: list.splits frame.splits)
    have "kernel_inv (set_todo r s)"
      using fo rt fr idle Restore by (intro set_todo_kernel [OF k]) auto
    then have "sched_inv ((set_todo r s)\<lparr>intr_on := b\<rparr>)" using rt by (simp add: sched_inv_def)
    moreover have "resume s = Inr ((set_todo r s)\<lparr>intr_on := b\<rparr>)"
      using fr Restore kd(3) by (simp add: resume_def intr_set_level_def intr_enable_def intr_disable_def intr_context_def todo_eqs)
    ultimately show ?thesis by blast
  next
    case (Down sm)
    with fr d down_loop_ok [OF k] show ?thesis by (simp add: resume_def)
  next
    case (Set_holder l)
    have r: "r = []" and ni: "current s \<noteq> idle_thread s" using fo Set_holder idle fr
      by (auto simp: frames_ok_def core_def is_restore_def)
    have tk: "current s \<in> tok l s" using kd(5) fr Set_holder r by (simp add: tok_def core_def is_restore_def)
    then have lk: "sval (semas s (Lock_sem l)) = 0" "holder s l = NULL" "tok l s = {current s}" using kd(4) [of l] by (auto simp: lock_ok_def)
    define s1 where "s1 = set_todo [] (s\<lparr>holder := (holder s)(l := current s)\<rparr>)"
    have "base_inv {current s} (s\<lparr>holder := (holder s)(l := current s)\<rparr>)" using kd(1) by simp
    from set_todo_base [of "s\<lparr>holder := (holder s)(l := current s)\<rparr>" "[]"] this kd(2) fr Set_holder
    have "base_inv {current s} s1" by (simp add: s1_def frames_ok_def core_def blocked_on_def)
    moreover have "tok l' s1 = tok l' s - {current s}" for l'
      using set_todo_tok [of "s\<lparr>holder := (holder s)(l := current s)\<rparr>" l' "[]"] kd(5) by (simp add: s1_def core_def)
    moreover have "current s \<notin> tok l' s" if "l' \<noteq> l" for l'
      using that fr Set_holder by (auto simp: tok_def core_def is_restore_def)
    moreover have "current s \<noteq> NULL" using kd(5) by (simp add: is_thread_def)
    ultimately have "lock_ok l' s1" for l'
      using kd(4) [of l'] lk by (cases "l' = l") (auto simp: lock_ok_def s1_def)
    then have "sched_inv s1"
      using \<open>base_inv {current s} s1\<close> kd(2,3) by (simp add: sched_inv_def kernel_inv_def s1_def)
    moreover have "resume s = Inr s1" using fr Set_holder r by (simp add: resume_def todo_eqs s1_def)
    ultimately show ?thesis by blast
  next
    case (Acquire l)
    have r: "r = []" and ni: "current s \<noteq> idle_thread s" using fo Acquire idle fr
      by (auto simp: frames_ok_def core_def is_restore_def)
    have "kernel_inv (set_todo [] s)"
      using fr Acquire ni by (intro set_todo_kernel [OF k]) (auto simp: frames_ok_def core_def is_restore_def)
    from lock_acquire_ok [OF this, of l] ni a fr Acquire r show ?thesis by (simp add: resume_def todo_eqs)
  qed
qed

text \<open>
  Memory before the kernel starts: no page holds a thread, no lock is held, no thread waits.
\<close>

definition blank :: "kernel \<Rightarrow> bool" where
  "blank s \<longleftrightarrow> (\<forall>t. \<not> is_thread s t) \<and> (\<forall>l. holder s l = NULL \<and> sval (semas s (Lock_sem l)) = 1) \<and>
     (\<forall>sm. waiters (semas s sm) = []) \<and> \<not> intr_on s \<and> \<not> in_external_intr s"

lemmas boot_defs = boot_def thread_init_def thread_start_def init_thread_def PRI_MIN_def PRI_MAX_def PRI_DEFAULT_def
  lock_init_def sema_init_def allocate_tid_def thread_create_def thread_unblock_def upd_thread_def set_status_def
  intr_disable_def intr_set_level_def intr_enable_def intr_context_def sema_down_def down_loop_def push_todo_def
  thread_current_def thread_block_def schedule_def next_thread_to_run_def schedule_tail_def upd_sema_def idle_started_def
  resume_def pop_todo_def idle_entry_def sema_up_def

text \<open>The state with two threads, the initial thread ready and the idle thread running.\<close>

lemma two_threads_inv:
  assumes it: "\<And>t. is_thread s t \<longleftrightarrow> t = m \<or> t = i" and ne: "m \<noteq> i" and c: "current s = i" "idle_thread s = i"
    and l: "ready_list s = [m]" "waiting_list s = []" "\<And>sm. waiters (semas s sm) = []"
    and m: "status (threads s m) = THREAD_READY" "todo (threads s m) = [Down (Sem a), Restore True]"
    and i: "status (threads s i) = THREAD_RUNNING" "todo (threads s i) = []" "\<not> in_external_intr s"
    and k: "\<And>l. holder s l = NULL" "\<And>l. sval (semas s (Lock_sem l)) = 1"
  shows "sched_inv s"
proof -
  have "placed {current s} s"
    by (rule placedI) (use assms in \<open>auto simp: thread_placed_def in_ready_def\<close>)
  moreover have "{t. is_thread s t} = {m, i}" using it by auto
  moreover have "tok l s = {}" for l using it m i by (auto simp: tok_def core_def is_restore_def)
  ultimately show ?thesis
    using assms by (auto simp: sched_inv_def kernel_inv_def base_inv_def wake_ok_def lock_ok_def frames_ok_def core_def is_restore_def)
qed

lemma boot_ok:
  assumes b: "blank s" and n: "main \<noteq> NULL" "idle_page \<noteq> NULL" "main \<noteq> idle_page"
  shows "\<exists>s'. boot main idle_page s = Inr s' \<and> sched_inv s' \<and> current s' = idle_page \<and> idle_thread s' = idle_page \<and>
    ready_list s' = [main]"
proof -
  have i: "\<not> intr_on s" "\<not> in_external_intr s" "waiters (semas s m) = []" "holder s l = NULL"
    "sval (semas s (Lock_sem l)) = 1" "magic (threads s t) = THREAD_MAGIC \<Longrightarrow> t = NULL" for m l t
    using b by (auto simp: blank_def is_thread_def)
  show ?thesis
    using n i apply (simp add: boot_defs Let_def is_thread_def)
    by (rule two_threads_inv [of _ main idle_page]) (auto simp: is_thread_def)
qed

section \<open>Properties\<close>

lemma lock_acquire_held: "lock_acquire l s = Inr s' \<Longrightarrow> holder s l \<noteq> current s"
  by (auto simp: lock_acquire_def lock_held_by_current_thread_def thread_current_def)

lemma lock_held_needed:
  "lock_release l s = Inr s' \<Longrightarrow> holder s l = current s"
  "cond_wait c l s = Inr s' \<Longrightarrow> holder s l = current s"
  "cond_signal c l s = Inr s' \<Longrightarrow> holder s l = current s"
  "lock_try_acquire l s = Inr (s', r) \<Longrightarrow> holder s l \<noteq> current s"
  by (auto simp: lock_release_def cond_wait_def cond_signal_def lock_try_acquire_def lock_held_by_current_thread_def
      thread_current_def)

lemma kstep_inv:
  assumes k: "sched_inv s" and k1: "kernel_inv s" and st: "kstep s s'"
  shows "sched_inv s'"
  using st
proof cases
  case (K_broadcast c l)
  show ?thesis
  proof (cases "conds s c = []")
    case True
    then show ?thesis using K_broadcast k by (simp add: cond_broadcast.simps [of c l s])
  next
    case False
    then have "holder s l = current s"
      using K_broadcast(3) lock_held_needed(3) [of c l s] by (auto simp: cond_broadcast.simps [of c l s])
    with cond_broadcast_ok [OF k] K_broadcast show ?thesis by (metis sum.inject(2))
  qed
next
  case (K_create page prio i)
  have "PRI_MIN \<le> prio \<and> prio \<le> PRI_MAX \<or> page = NULL"
    using K_create(4) by (auto simp: thread_create_def init_thread_def split: if_splits)
  then show ?thesis
    using thread_create_ok [OF k K_create(3), of prio] K_create(4) k by (auto simp: thread_create_def)
next
  case K_resume
  have d: "\<not> intr_on s" if "todo (threads s (current s)) = Down sm # r" for sm r
    using sched_invD(2) [OF k] that by auto
  have a: "holder s l \<noteq> current s" if "todo (threads s (current s)) = Acquire l # r" for l r
    using K_resume(2) that lock_acquire_held [of l "pop_todo s" s'] by (simp add: resume_def pop_todo_def)
  from resume_ok [OF k K_resume(1) d a] K_resume(2) show ?thesis by auto
next
  case (K_sleep n)
  have "n < 0 \<or> intr_on s" using K_sleep(3) by (auto simp: timer_sleep_def split: if_splits)
  then show ?thesis
    using timer_sleep_ok [OF k K_sleep(1,2), of n] K_sleep(3) k by (auto simp: timer_sleep_def)
next
  case (K_down a)
  then show ?thesis using sema_down_ok [OF k1, of a] by auto
next
  case (K_try_down a r)
  then show ?thesis using sema_try_down_ok [OF k, of a] by auto
next
  case (K_up a)
  then show ?thesis using sema_up_kernel [OF k, of "Sem a"] by auto
next
  case (K_acquire l)
  then show ?thesis using lock_acquire_ok [OF k1 _ _ lock_acquire_held, of l] by auto
next
  case (K_try_acquire l r)
  then show ?thesis using lock_try_acquire_ok [OF k lock_held_needed(4)] by auto
next
  case (K_release l)
  then show ?thesis using lock_release_ok [OF k lock_held_needed(1)] by auto
next
  case (K_wait c l)
  then show ?thesis using cond_wait_ok [OF k1 K_wait(1,2) lock_held_needed(2) [OF K_wait(3)], of c] by auto
next
  case (K_signal c l)
  then show ?thesis using cond_signal_ok [OF k lock_held_needed(3) [OF K_signal(3)], of c] by auto
next
  case K_yield
  then show ?thesis using thread_yield_ok [OF k1] by auto
next
  case K_exit
  then show ?thesis using thread_exit_ok [OF k1] by auto
next
  case K_idle
  then show ?thesis using idle_round_ok [OF k1] by auto
next
  case K_tick
  then show ?thesis using tick_ok [OF k] by auto
qed

text \<open>The states that the kernel reaches after it has started, by any interleaving of its threads.\<close>

definition reachable :: "kernel \<Rightarrow> bool" where
  "reachable s \<longleftrightarrow> (\<exists>s0 main idle_page b. blank s0 \<and> main \<noteq> NULL \<and> idle_page \<noteq> NULL \<and> main \<noteq> idle_page \<and>
     boot main idle_page s0 = Inr b \<and> kstep\<^sup>*\<^sup>* b s)"

lemma reachable_inv:
  assumes "reachable s"
  shows "sched_inv s"
proof -
  from assms obtain s0 m i b where b: "blank s0" "m \<noteq> NULL" "i \<noteq> NULL" "m \<noteq> i" "boot m i s0 = Inr b" "kstep\<^sup>*\<^sup>* b s"
    unfolding reachable_def by blast
  from boot_ok [OF b(1-4)] b(5) have "sched_inv b" by auto
  with b(6) show ?thesis by (induction rule: rtranclp_induct) (auto intro: kstep_inv sched_invD(1))
qed

text \<open>An example: the state after the start with threads at 4096 and 8192.\<close>

definition blank0 :: kernel where
  "blank0 = \<lparr>threads = (\<lambda>_. \<lparr>tid = 0, status = THREAD_BLOCKED, priority = 0, wake_tick = 0, user_proc = False, magic = 0, todo = []\<rparr>),
     current = 0, ready_list = [], waiting_list = [], idle_thread = 0, initial_thread = 0, next_tid = 1, thread_ticks = 0,
     idle_ticks = 0, kernel_ticks = 0, user_ticks = 0, ticks = 0, semas = (\<lambda>sm. \<lparr>sval = (case sm of Lock_sem _ \<Rightarrow> 1 | _ \<Rightarrow> 0), waiters = []\<rparr>),
     holder = (\<lambda>_. NULL), conds = (\<lambda>_. []), intr_on = False, in_external_intr = False, yield_on_return = False\<rparr>"

text \<open>
  A run: after the start the idle thread blocks, the initial thread goes on, takes the semaphore
  that the idle thread has raised, and then waits on another one.
\<close>

definition ex_view :: "kernel \<Rightarrow> thread_status \<Rightarrow> frame list \<Rightarrow> thread_status \<Rightarrow> frame list \<Rightarrow> addr \<Rightarrow> addr list \<Rightarrow> u32 \<Rightarrow> addr list \<Rightarrow> bool \<Rightarrow> bool" where
  "ex_view s ms mt ist it cur rdy v w on \<longleftrightarrow> current s = cur \<and> idle_thread s = 6 \<and> initial_thread s = 5 \<and> ready_list s = rdy \<and>
     magic (threads s 5) = THREAD_MAGIC \<and> magic (threads s 6) = THREAD_MAGIC \<and> status (threads s 5) = ms \<and> status (threads s 6) = ist \<and>
     todo (threads s 5) = mt \<and> todo (threads s 6) = it \<and> semas s (Sem 3) = \<lparr>sval = v, waiters = []\<rparr> \<and>
     semas s (Sem 7) = \<lparr>sval = 0, waiters = w\<rparr> \<and> intr_on s = on \<and> \<not> in_external_intr s \<and> ticks s = 0"

lemmas ex_simps = ex_view_def boot_defs Let_def is_thread_def NULL_def idle_round_def

lemma ex_start: "\<exists>s. boot 5 6 blank0 = Inr s \<and> ex_view s THREAD_READY [Down (Sem 3), Restore True] THREAD_RUNNING [] 6 [5] 1 [] True"
  by (simp add: ex_simps blank0_def)

lemma ex_idle:
  "ex_view s THREAD_READY [Down (Sem 3), Restore True] THREAD_RUNNING [] 6 [5] 1 [] True \<Longrightarrow>
   \<exists>s'. kstep s s' \<and> ex_view s' THREAD_RUNNING [Down (Sem 3), Restore True] THREAD_BLOCKED [Restore True] 5 [] 1 [] False"
  by (rule exI, rule conjI, rule K_idle) (auto simp: ex_simps)

lemma ex_take:
  "ex_view s THREAD_RUNNING [Down (Sem 3), Restore True] THREAD_BLOCKED [Restore True] 5 [] 1 [] False \<Longrightarrow>
   \<exists>s'. kstep s s' \<and> ex_view s' THREAD_RUNNING [Restore True] THREAD_BLOCKED [Restore True] 5 [] 0 [] False"
  by (rule exI, rule conjI, rule K_resume) (auto simp: ex_simps)

lemma ex_restore:
  "ex_view s THREAD_RUNNING [Restore True] THREAD_BLOCKED [Restore True] 5 [] 0 [] False \<Longrightarrow>
   \<exists>s'. kstep s s' \<and> ex_view s' THREAD_RUNNING [] THREAD_BLOCKED [Restore True] 5 [] 0 [] True"
  by (rule exI, rule conjI, rule K_resume) (auto simp: ex_simps)

lemma ex_wait:
  "ex_view s THREAD_RUNNING [] THREAD_BLOCKED [Restore True] 5 [] 0 [] True \<Longrightarrow>
   \<exists>s'. kstep s s' \<and> ex_view s' THREAD_BLOCKED [Down (Sem 7), Restore True] THREAD_RUNNING [Restore True] 6 [] 0 [5] False"
  by (rule exI, rule conjI, rule K_down [of _ 7]) (auto simp: ex_simps)

lemma reachable_step: "reachable s \<Longrightarrow> kstep s s' \<Longrightarrow> reachable s'"
  unfolding reachable_def by (meson rtranclp.rtrancl_into_rtrancl)

lemma ex_reachable:
  "\<exists>s. reachable s \<and> ex_view s THREAD_READY [Down (Sem 3), Restore True] THREAD_RUNNING [] 6 [5] 1 [] True"
  "\<exists>s. reachable s \<and> ex_view s THREAD_BLOCKED [Down (Sem 7), Restore True] THREAD_RUNNING [Restore True] 6 [] 0 [5] False"
proof -
  obtain s0 where s0: "boot 5 6 blank0 = Inr s0" "ex_view s0 THREAD_READY [Down (Sem 3), Restore True] THREAD_RUNNING [] 6 [5] 1 [] True"
    using ex_start by blast
  have "blank blank0" by (simp add: blank_def blank0_def is_thread_def THREAD_MAGIC_def)
  moreover have "(5::addr) \<noteq> NULL" "(6::addr) \<noteq> NULL" "(5::addr) \<noteq> 6" by (simp_all add: NULL_def)
  ultimately have r0: "reachable s0" unfolding reachable_def using s0(1) by blast
  with s0(2) show "\<exists>s. reachable s \<and> ex_view s THREAD_READY [Down (Sem 3), Restore True] THREAD_RUNNING [] 6 [5] 1 [] True" by blast
  from ex_idle [OF s0(2)] r0 obtain s1 where "reachable s1" "ex_view s1 THREAD_RUNNING [Down (Sem 3), Restore True] THREAD_BLOCKED [Restore True] 5 [] 1 [] False"
    using reachable_step by blast
  then obtain s2 where "reachable s2" "ex_view s2 THREAD_RUNNING [Restore True] THREAD_BLOCKED [Restore True] 5 [] 0 [] False"
    using ex_take reachable_step by blast
  then obtain s3 where "reachable s3" "ex_view s3 THREAD_RUNNING [] THREAD_BLOCKED [Restore True] 5 [] 0 [] True"
    using ex_restore reachable_step by blast
  then show "\<exists>s. reachable s \<and> ex_view s THREAD_BLOCKED [Down (Sem 7), Restore True] THREAD_RUNNING [Restore True] 6 [] 0 [5] False"
    using ex_wait reachable_step by blast
qed



text \<open>
  C16. No wake-up is lost: in every reachable state, if threads wait on a semaphore whose value is
  positive, then at least as many threads as the value have been woken from it, are ready or
  running, and will try again; so the waiters are never left behind with a semaphore that is free.
\<close>

theorem no_lost_wakeup:
  assumes "reachable s" "waiters (semas s sm) \<noteq> []"
  shows "unat (sval (semas s sm)) \<le> card {t. is_thread s t \<and> (status (threads s t) = THREAD_READY \<or> t = current s) \<and>
     (\<exists>r. todo (threads s t) = Down sm # r)}"
proof -
  note k = kernel_invD [OF sched_invD(1) [OF reachable_inv [OF assms(1)]]]
  have run: "t = current s" if "is_thread s t" "status (threads s t) = THREAD_RUNNING" for t
    using placedD(1) [OF base_invD(1) [OF k(1)] that(1)] that(2) by (simp add: thread_placed_def)
  have "blocked_on th = Some sm \<longleftrightarrow> (\<exists>r. todo th = Down sm # r)" for th
    by (auto simp: blocked_on_def retry_def split: list.splits frame.splits)
  then have "woken sm s = {t. is_thread s t \<and> (status (threads s t) = THREAD_READY \<or> t = current s) \<and>
     (\<exists>r. todo (threads s t) = Down sm # r)}"
    using run k(2) by (auto simp: woken_def)
  then show ?thesis using base_invD(3) [OF k(1), of sm] assms(2) by (simp add: wake_ok_def)
qed

theorem no_lost_wakeup_witness:
  "\<exists>s. reachable s \<and> waiters (semas s (Sem 7)) = [5] \<and>
   unat (sval (semas s (Sem 7))) \<le> card {t. is_thread s t \<and> (status (threads s t) = THREAD_READY \<or> t = current s) \<and>
     (\<exists>r. todo (threads s t) = Down (Sem 7) # r)}"
proof -
  obtain s where s: "reachable s" "waiters (semas s (Sem 7)) = [5]" using ex_reachable(2) by (auto simp: ex_view_def)
  with no_lost_wakeup [OF s(1), of "Sem 7"] show ?thesis by auto
qed





text \<open>
  C25. A timer tick in a reachable state wakes exactly the sleeping threads whose time has come: they
  leave the list of sleeping threads and are appended to the ready list in their order, and every
  thread that still sleeps has a wake-up time that is yet to come. So no thread wakes early, and
  none is overlooked although the loop removes elements from the list that it runs over.
\<close>

theorem timer_tick_wakes_due:
  assumes "reachable s"
  shows "\<exists>s'. timer_interrupt (s\<lparr>intr_on := False, in_external_intr := True\<rparr>) = Inr s' \<and> ticks s' = ticks s + 1 \<and>
    ready_list s' = ready_list s @ filter (\<lambda>t. wake_tick (threads s t) \<le> ticks s + 1) (waiting_list s) \<and>
    waiting_list s' = filter (\<lambda>t. wake_tick (threads s t) > ticks s + 1) (waiting_list s) \<and>
    (\<forall>t. wake_tick (threads s' t) = wake_tick (threads s t))"
proof -
  note k = kernel_invD [OF sched_invD(1) [OF reachable_inv [OF assms]]]
  define s1 where "s1 = s\<lparr>intr_on := False, in_external_intr := True, ticks := ticks s + 1\<rparr>"
  have "base_inv {current s} s1" "status (threads s1 (current s1)) = THREAD_RUNNING" "in_external_intr s1" "\<not> intr_on s1"
    using k(1,2) by (simp_all add: s1_def)
  from thread_tick_ok [OF this] show ?thesis
    by (simp add: timer_interrupt_def s1_def same_cpu_def not_le) blast
qed

theorem timer_tick_wakes_due_witness:
  "\<exists>s. reachable s \<and> (\<exists>s'. timer_interrupt (s\<lparr>intr_on := False, in_external_intr := True\<rparr>) = Inr s' \<and> ticks s' = 1)"
proof -
  obtain s where s: "reachable s" "ticks s = 0" using ex_reachable(2) by (auto simp: ex_view_def)
  with timer_tick_wakes_due [OF s(1)] show ?thesis by auto
qed

end
