(* ===== verification/WakeList.thy ===== *)
theory WakeList
  imports KList
begin

text \<open>
  The loop of \<^verbatim>\<open>thread_tick\<close> over the list of sleeping threads, on the linked list itself. The loop
  calls \<^verbatim>\<open>list_remove\<close> on the element at which it stands and then goes on with \<^verbatim>\<open>list_next\<close> of that
  element. The comment of \<^verbatim>\<open>list_remove\<close> warns that an element must not be treated as part of the
  list after its removal; here it works, because the removed element keeps its own links, and it is
  shown that the loop visits every element, ends, and removes exactly the elements that are due.
  This justifies the list of names that the theory \<open>Sched\<close> uses in \<open>wake_loop\<close>.
\<close>

text \<open>\<open>due e\<close> is the test of the wake-up time; the elements removed are collected in order.\<close>

partial_function (option) wake_scan ::
  "(addr \<Rightarrow> bool) \<Rightarrow> heap \<Rightarrow> klist \<Rightarrow> addr \<Rightarrow> addr list \<Rightarrow> (heap \<times> addr list) run" where
  "wake_scan due h l e removed =
     (if e = list_end l then Some (Inr (h, removed))
      else if due e \<and> e \<noteq> NULL \<and> prv (h e) \<noteq> NULL \<and> nxt (h e) \<noteq> NULL
      then rbind (Some (list_remove h e)) (\<lambda>r.
           rbind (Some (list_next (fst r) e)) (\<lambda>n. wake_scan due (fst r) l n (removed @ [e])))
      else rbind (Some (list_next h e)) (\<lambda>n. wake_scan due h l n removed))"

lemma remove_next:
  assumes "dll h l (xs @ e # ys)"
  shows "\<exists>h'. list_remove h e = Inr (h', hd (ys @ [tail l])) \<and> dll h' l (xs @ ys) \<and>
    list_next h' e = Inr (hd (ys @ [tail l]))"
proof -
  obtain as p b cs where n: "nodes l (xs @ ys) = as @ p # b # cs"
    and hs: "head l # xs = as @ [p]" "ys @ [tail l] = b # cs" by (rule nodes_split)
  have "nodes l (xs @ e # ys) = (head l # xs) @ e # (ys @ [tail l])" by (simp add: nodes_def)
  then have c: "chain h (as @ p # e # b # cs)" using assms hs by (simp add: dll_def)
  note pr = chain_pair [OF c] chain_pair [of h "as @ [p]" e b cs] chain_interior [OF c]
  have "remove_heap h p b e = h e" using pr c by (auto simp: remove_heap_def set_prev_def set_next_def)
  then have "list_next (remove_heap h p b) e = Inr b"
    using pr c by (auto simp: list_next_def is_interior_def)
  then show ?thesis
    using chain_remove [OF c] n hs assms by (auto simp: dll_def)
qed

lemma dll_interior: "dll h l (xs @ e # ys) \<Longrightarrow> e \<noteq> NULL \<and> prv (h e) \<noteq> NULL \<and> nxt (h e) \<noteq> NULL \<and> e \<noteq> list_end l"
proof -
  assume d: "dll h l (xs @ e # ys)"
  obtain as p b cs where n: "nodes l (xs @ ys) = as @ p # b # cs"
    and hs: "head l # xs = as @ [p]" "ys @ [tail l] = b # cs" by (rule nodes_split)
  have "nodes l (xs @ e # ys) = (head l # xs) @ e # (ys @ [tail l])" by (simp add: nodes_def)
  then have c: "chain h (as @ p # e # b # cs)" using d hs by (simp add: dll_def)
  have "tail l \<in> set (ys @ [tail l])" by simp
  then have "tail l \<in> set (b # cs)" by (simp only: hs(2))
  moreover have "e \<notin> set (b # cs)" using c by (simp add: chain_def)
  ultimately have "e \<noteq> tail l" by auto
  with chain_interior [OF c] show ?thesis by (simp add: is_interior_def list_end_def)
qed

lemma wake_scan_ok:
  "dll h l (xs @ ys) \<Longrightarrow> \<exists>h'. wake_scan due h l (hd (ys @ [tail l])) removed =
     Some (Inr (h', removed @ filter due ys)) \<and> dll h' l (xs @ filter (\<lambda>e. \<not> due e) ys)"
proof (induction ys arbitrary: h xs removed)
  case Nil
  then show ?case by (simp add: wake_scan.simps list_end_def)
next
  case (Cons e ys)
  note i = dll_interior [OF Cons.prems]
  show ?case
  proof (cases "due e")
    case True
    from remove_next [OF Cons.prems] obtain h1 where h1: "list_remove h e = Inr (h1, hd (ys @ [tail l]))"
      "dll h1 l (xs @ ys)" "list_next h1 e = Inr (hd (ys @ [tail l]))" by blast
    from Cons.IH [OF h1(2), of "removed @ [e]"] h1 i True show ?thesis
      by (simp add: wake_scan.simps [of due h l e])
  next
    case False
    have "dll h l ((xs @ [e]) @ ys)" using Cons.prems by simp
    from Cons.IH [OF this, of removed] dll_next [OF Cons.prems] i False show ?thesis
      by (simp add: wake_scan.simps [of due h l e])
  qed
qed

section \<open>Properties\<close>



end
