(* ===== verification/Inode.thy ===== *)
theory Inode
  imports Bitmap "HOL-Library.Signed_Division"
begin

text \<open>
  The file system's disk, its in-memory state, and the inodes of \<^verbatim>\<open>filesys/inode.c\<close>: how the bytes
  of a file are found on disk, the two loops that read and write a range of bytes in chunks of at
  most a sector, and the reference-counted table of open inodes.

  The state \<open>fs\<close> is shared by the theories of the file system. The locks and semaphores of these
  functions are left out here: each call is one step. (That readers and writers of an inode
  exclude each other is the subject of the theory \<open>InodeRW\<close>.) Memory that the kernel's allocator
  hands out is named by addresses that were not used before, and \<open>mem_ok\<close> says for each kind of
  object whether an allocation succeeds.
\<close>

section \<open>State\<close>

definition DISK_SECTOR_SIZE :: int where [layout]: "DISK_SECTOR_SIZE = 512"

definition INODE_MAGIC :: nat where "INODE_MAGIC = 0x494e4f44"

record inode_disk =
  start :: nat
  len :: int        \<comment> \<open>\<^verbatim>\<open>length\<close>\<close>
  imagic :: nat     \<comment> \<open>\<^verbatim>\<open>magic\<close>\<close>

record inode =
  sector :: nat
  open_cnt :: int
  removed :: bool
  data :: inode_disk
  deny_write_cnt :: int

record open_file =
  finode :: addr    \<comment> \<open>\<^verbatim>\<open>inode\<close>\<close>
  pos :: int
  deny_write :: bool

datatype allocation = A_bounce | A_inode | A_inode_disk | A_file | A_dir

record fs =
  disk :: "nat \<Rightarrow> u8 list"
  capacity :: nat
  inodes :: "addr \<Rightarrow> inode option"
  open_inodes :: "addr list"
  free_map :: bitmap
  free_map_file :: addr
  files :: "addr \<Rightarrow> open_file option"
  brk :: addr
  mem_ok :: "allocation \<Rightarrow> bool"

section \<open>Bytes on disk\<close>

text \<open>A signed 32-bit number of the same bytes.\<close>

definition s32 :: "nat \<Rightarrow> int" where
  "s32 n = (if n < 2147483648 then int n else int n - 4294967296)"

definition u32_of :: "int \<Rightarrow> nat" where
  "u32_of i = nat (i mod 4294967296)"

lemma s32_u32_of [simp]: "- 2147483648 \<le> i \<Longrightarrow> i < 2147483648 \<Longrightarrow> s32 (u32_of i) = i"
  using mod_add_self2 [of i 4294967296] mod_pos_pos_trivial [of i 4294967296]
    mod_pos_pos_trivial [of "i + 4294967296" 4294967296]
  by (cases "0 \<le> i") (auto simp: s32_def u32_of_def nat_less_iff)

lemma u32_of_less [simp]: "u32_of i < 4294967296"
  by (simp add: u32_of_def nat_less_iff)

text \<open>
  The layout of \<^verbatim>\<open>struct inode_disk\<close>, which fills a sector, and the structure that a sector read
  as \<^verbatim>\<open>struct inode_disk\<close> shows.
\<close>

definition inode_disk_bytes :: "inode_disk \<Rightarrow> u8 list" where
  "inode_disk_bytes d = le32 (start d) @ le32 (u32_of (len d)) @ le32 (imagic d) @ replicate 500 0"

definition inode_disk_of :: "u8 list \<Rightarrow> inode_disk" where
  "inode_disk_of bs = \<lparr>start = de32 bs, len = s32 (de32 (drop 4 bs)), imagic = de32 (drop 8 bs)\<rparr>"

lemma length_inode_disk_bytes [simp]: "length (inode_disk_bytes d) = 512"
  by (simp add: inode_disk_bytes_def)

lemma inode_disk_roundtrip:
  assumes "start d < 4294967296" "- 2147483648 \<le> len d" "len d < 2147483648" "imagic d < 4294967296"
  shows "inode_disk_of (inode_disk_bytes d) = d"
  using assms by (simp add: inode_disk_of_def inode_disk_bytes_def)

definition disk_read :: "fs \<Rightarrow> nat \<Rightarrow> u8 list outcome" where
  "disk_read s sec_no =
     kbind (kassert (sec_no < capacity s)) (\<lambda>_.
     kbind (kassert (sec_no < 268435456)) (\<lambda>_. Inr (disk s sec_no)))"

definition disk_write :: "fs \<Rightarrow> nat \<Rightarrow> u8 list \<Rightarrow> fs outcome" where
  "disk_write s sec_no buffer =
     kbind (kassert (sec_no < capacity s)) (\<lambda>_.
     kbind (kassert (sec_no < 268435456)) (\<lambda>_. Inr (s\<lparr>disk := (disk s)(sec_no := buffer)\<rparr>)))"

section \<open>Reading and writing\<close>

definition bytes_to_sectors :: "int \<Rightarrow> nat" where
  "bytes_to_sectors n = nat ((n + DISK_SECTOR_SIZE - 1) sdiv DISK_SECTOR_SIZE)"

definition inode_length :: "inode \<Rightarrow> int" where
  "inode_length ip = len (data ip)"

definition byte_to_sector :: "inode \<Rightarrow> int \<Rightarrow> nat" where
  "byte_to_sector ip p =
     (if p < len (data ip) then u32_of (int (start (data ip)) + p sdiv DISK_SECTOR_SIZE)
      else 4294967295)"

definition sector_ofs :: "int \<Rightarrow> int" where
  "sector_ofs offset = offset smod DISK_SECTOR_SIZE"

text \<open>The number of bytes that one round of either loop copies.\<close>

definition chunk_size :: "inode \<Rightarrow> int \<Rightarrow> int \<Rightarrow> int" where
  "chunk_size ip cnt offset =
     (let inode_left = inode_length ip - offset;
          sector_left = DISK_SECTOR_SIZE - sector_ofs offset;
          min_left = (if inode_left < sector_left then inode_left else sector_left)
      in if cnt < min_left then cnt else min_left)"

text \<open>
  The loop of \<^verbatim>\<open>inode_read_at\<close>; \<open>acc\<close> holds the bytes that are in the caller's buffer so far.
  A negative offset makes the code copy from below the bounce buffer.
\<close>

function read_loop :: "fs \<Rightarrow> inode \<Rightarrow> int \<Rightarrow> int \<Rightarrow> u8 list \<Rightarrow> u8 list outcome" where
  "read_loop s ip cnt offset acc =
     (if cnt > 0
      then if chunk_size ip cnt offset \<le> 0 then Inr acc
      else if sector_ofs offset = 0 \<and> chunk_size ip cnt offset = DISK_SECTOR_SIZE
      then kbind (disk_read s (byte_to_sector ip offset)) (\<lambda>b.
             read_loop s ip (cnt - chunk_size ip cnt offset) (offset + chunk_size ip cnt offset) (acc @ b))
      else if \<not> mem_ok s A_bounce then Inr acc
      else kbind (disk_read s (byte_to_sector ip offset)) (\<lambda>bounce.
             if sector_ofs offset < 0 then Inl Bad_access
             else read_loop s ip (cnt - chunk_size ip cnt offset) (offset + chunk_size ip cnt offset)
                    (acc @ take (nat (chunk_size ip cnt offset)) (drop (nat (sector_ofs offset)) bounce)))
      else Inr acc)"
  by pat_completeness auto
termination by (relation "measure (\<lambda>(s, ip, cnt, offset, acc). nat cnt)") auto

declare read_loop.simps [simp del]

definition iget :: "fs \<Rightarrow> addr \<Rightarrow> inode outcome" where
  "iget s i = (case inodes s i of Some ip \<Rightarrow> Inr ip | None \<Rightarrow> Inl Bad_access)"

definition iput :: "addr \<Rightarrow> inode \<Rightarrow> fs \<Rightarrow> fs" where
  "iput i ip s = s\<lparr>inodes := (inodes s)(i \<mapsto> ip)\<rparr>"

text \<open>The result is what the caller's buffer holds from its start, one byte for each byte read.\<close>

definition inode_read_at :: "fs \<Rightarrow> addr \<Rightarrow> int \<Rightarrow> int \<Rightarrow> u8 list outcome" where
  "inode_read_at s i cnt offset = kbind (iget s i) (\<lambda>ip. read_loop s ip cnt offset [])"

text \<open>Overwriting a part of a sector.\<close>

definition splice :: "'a list \<Rightarrow> nat \<Rightarrow> 'a list \<Rightarrow> 'a list" where
  "splice xs n ys = take n xs @ ys @ drop (n + length ys) xs"

text \<open>The bytes \<^verbatim>\<open>buffer + bytes_written\<close> up to the chunk's size.\<close>

definition buf_chunk :: "u8 list \<Rightarrow> int \<Rightarrow> int \<Rightarrow> u8 list outcome" where
  "buf_chunk buffer written chunk =
     (if nat written + nat chunk \<le> length buffer then Inr (take (nat chunk) (drop (nat written) buffer))
      else Inl Bad_access)"

function write_loop :: "fs \<Rightarrow> inode \<Rightarrow> u8 list \<Rightarrow> int \<Rightarrow> int \<Rightarrow> int \<Rightarrow> (fs \<times> int) outcome" where
  "write_loop s ip buffer cnt offset written =
     (if cnt > 0
      then if chunk_size ip cnt offset \<le> 0 then Inr (s, written)
      else if sector_ofs offset = 0 \<and> chunk_size ip cnt offset = DISK_SECTOR_SIZE
      then kbind (buf_chunk buffer written (chunk_size ip cnt offset)) (\<lambda>c.
           kbind (disk_write s (byte_to_sector ip offset) c) (\<lambda>s.
             write_loop s ip buffer (cnt - chunk_size ip cnt offset) (offset + chunk_size ip cnt offset)
               (written + chunk_size ip cnt offset)))
      else if \<not> mem_ok s A_bounce then Inr (s, written)
      else kbind (if sector_ofs offset > 0 \<or> chunk_size ip cnt offset < DISK_SECTOR_SIZE - sector_ofs offset
                  then disk_read s (byte_to_sector ip offset)
                  else Inr (replicate (nat DISK_SECTOR_SIZE) 0)) (\<lambda>bounce.
           kbind (buf_chunk buffer written (chunk_size ip cnt offset)) (\<lambda>c.
             if sector_ofs offset < 0 then Inl Bad_access
             else kbind (disk_write s (byte_to_sector ip offset) (splice bounce (nat (sector_ofs offset)) c)) (\<lambda>s.
             write_loop s ip buffer (cnt - chunk_size ip cnt offset) (offset + chunk_size ip cnt offset)
               (written + chunk_size ip cnt offset))))
      else Inr (s, written))"
  by pat_completeness auto
termination by (relation "measure (\<lambda>(s, ip, buffer, cnt, offset, written). nat cnt)") auto

declare write_loop.simps [simp del]

definition inode_write_at :: "fs \<Rightarrow> addr \<Rightarrow> u8 list \<Rightarrow> int \<Rightarrow> int \<Rightarrow> (fs \<times> int) outcome" where
  "inode_write_at s i buffer cnt offset =
     kbind (iget s i) (\<lambda>ip.
       if deny_write_cnt ip \<noteq> 0 then Inr (s, 0)
       else write_loop s ip buffer cnt offset 0)"

section \<open>Open inodes\<close>

definition inode_init :: "fs \<Rightarrow> fs" where
  "inode_init s = s\<lparr>open_inodes := []\<rparr>"

definition inode_reopen :: "fs \<Rightarrow> addr \<Rightarrow> (fs \<times> addr) outcome" where
  "inode_reopen s i =
     (if i \<noteq> NULL
      then kbind (iget s i) (\<lambda>ip. kbind (kassert (open_cnt ip \<noteq> 0)) (\<lambda>_.
             Inr (iput i (ip\<lparr>open_cnt := open_cnt ip + 1\<rparr>) s, i)))
      else Inr (s, i))"

text \<open>The search of \<^verbatim>\<open>inode_open\<close> in the list of open inodes.\<close>

fun find_open :: "fs \<Rightarrow> nat \<Rightarrow> addr list \<Rightarrow> addr outcome" where
  "find_open s sec [] = Inr NULL"
| "find_open s sec (i # is) = kbind (iget s i) (\<lambda>ip. if sector ip = sec then Inr i else find_open s sec is)"

definition inode_open :: "fs \<Rightarrow> nat \<Rightarrow> (fs \<times> addr) outcome" where
  "inode_open s sec =
     kbind (find_open s sec (open_inodes s)) (\<lambda>i.
       if i \<noteq> NULL then inode_reopen s i
       else if \<not> mem_ok s A_inode then Inr (s, NULL)
       else let i = brk s; s = s\<lparr>brk := brk s + 1, open_inodes := i # open_inodes s\<rparr>
            in kbind (disk_read s sec) (\<lambda>b.
                 Inr (iput i \<lparr>sector = sec, open_cnt = 1, removed = False, data = inode_disk_of b,
                              deny_write_cnt = 0\<rparr> s, i)))"

definition inode_get_inumber :: "fs \<Rightarrow> addr \<Rightarrow> nat outcome" where
  "inode_get_inumber s i = kbind (iget s i) (\<lambda>ip. Inr (sector ip))"

definition inode_remove :: "fs \<Rightarrow> addr \<Rightarrow> fs outcome" where
  "inode_remove s i =
     kbind (kassert (i \<noteq> NULL)) (\<lambda>_. kbind (iget s i) (\<lambda>ip. Inr (iput i (ip\<lparr>removed := True\<rparr>) s)))"

definition inode_deny_write :: "fs \<Rightarrow> addr \<Rightarrow> fs outcome" where
  "inode_deny_write s i =
     kbind (iget s i) (\<lambda>ip.
       let ip = ip\<lparr>deny_write_cnt := deny_write_cnt ip + 1\<rparr>
       in kbind (kassert (deny_write_cnt ip \<le> open_cnt ip)) (\<lambda>_. Inr (iput i ip s)))"

definition inode_allow_write :: "fs \<Rightarrow> addr \<Rightarrow> fs outcome" where
  "inode_allow_write s i =
     kbind (iget s i) (\<lambda>ip.
     kbind (kassert (deny_write_cnt ip > 0)) (\<lambda>_.
     kbind (kassert (deny_write_cnt ip \<le> open_cnt ip)) (\<lambda>_.
       Inr (iput i (ip\<lparr>deny_write_cnt := deny_write_cnt ip - 1\<rparr>) s))))"

section \<open>The bytes of a file\<close>

text \<open>Byte \<open>i\<close> of a file is byte \<open>i mod 512\<close> of the sector \<open>i div 512\<close> after its first one.\<close>

definition byte :: "fs \<Rightarrow> inode_disk \<Rightarrow> nat \<Rightarrow> u8" where
  "byte s d i = disk s (start d + i div 512) ! (i mod 512)"

definition contents :: "fs \<Rightarrow> inode_disk \<Rightarrow> u8 list" where
  "contents s d = map (byte s d) [0..<nat (len d)]"

definition disk_ok :: "fs \<Rightarrow> bool" where
  "disk_ok s \<longleftrightarrow> capacity s \<le> 268435456 \<and> (\<forall>sec. length (disk s sec) = 512)"

definition sectors :: "inode_disk \<Rightarrow> nat set" where
  "sectors d = {start d ..< start d + bytes_to_sectors (len d)}"

definition extent_ok :: "fs \<Rightarrow> inode_disk \<Rightarrow> bool" where
  "extent_ok s d \<longleftrightarrow> 0 \<le> len d \<and> len d + 511 < 2147483648 \<and>
     start d + bytes_to_sectors (len d) \<le> capacity s"

lemma sdiv_nonneg: "0 \<le> a \<Longrightarrow> 0 < b \<Longrightarrow> (a :: int) sdiv b = a div b"
  by (cases "a = 0") (simp_all add: signed_divide_int_def)

lemma smod_nonneg: "0 \<le> a \<Longrightarrow> 0 < b \<Longrightarrow> (a :: int) smod b = a mod b"
  by (cases "a = 0") (simp_all add: signed_modulo_int_def sdiv_nonneg minus_div_mult_eq_mod)

lemma length_contents [simp]: "length (contents s d) = nat (len d)"
  by (simp add: contents_def)

lemma contents_range: "take c (drop n (contents s d)) = map (byte s d) [n..<min (n + c) (nat (len d))]"
  by (auto simp: contents_def drop_map take_map min_def)

lemma bytes_to_sectors_nat: "0 \<le> l \<Longrightarrow> bytes_to_sectors l = (nat l + 511) div 512"
  by (simp add: bytes_to_sectors_def layout sdiv_nonneg nat_div_distrib nat_add_distrib)

lemma sector_ofs_nat: "sector_ofs (int n) = int (n mod 512)"
  by (simp add: sector_ofs_def layout smod_nonneg zmod_int)

lemma sector_in_extent:
  assumes "extent_ok s d" "int n < len d"
  shows "start d + n div 512 \<in> sectors d" "start d + n div 512 < capacity s"
proof -
  have "n div 512 < (nat (len d) + 511) div 512"
    using assms by (simp add: extent_ok_def less_eq_div_iff_mult_less_eq flip: Suc_le_eq)
  then show "start d + n div 512 \<in> sectors d" "start d + n div 512 < capacity s"
    using assms by (auto simp: sectors_def extent_ok_def bytes_to_sectors_nat)
qed

lemma byte_to_sector_nat:
  assumes "extent_ok s (data ip)" "disk_ok s" "int n < len (data ip)"
  shows "byte_to_sector ip (int n) = start (data ip) + n div 512"
proof -
  have "start (data ip) + n div 512 < 268435456"
    using sector_in_extent(2) [OF assms(1,3)] assms(2) by (simp add: disk_ok_def)
  then have "u32_of (int (start (data ip) + n div 512)) = start (data ip) + n div 512"
    by (simp add: u32_of_def)
  then show ?thesis using assms(3)
    by (simp add: byte_to_sector_def layout sdiv_nonneg zdiv_int)
qed

text \<open>The chunk of one round: within the request, within the file and within the sector.\<close>

lemma chunk_size_nat:
  assumes "int n < len (data ip)" "0 < c"
  obtains k where "chunk_size ip (int c) (int n) = int k" "0 < k" "k \<le> c" "n + k \<le> nat (len (data ip))"
    "n mod 512 + k \<le> 512"
proof -
  define r where "r = n mod 512"
  define l where "l = nat (len (data ip))"
  define k where "k = min c (min (l - n) (512 - r))"
  have r: "r < 512" and l: "len (data ip) = int l" "n < l" using assms by (simp_all add: r_def l_def)
  have "chunk_size ip (int c) (int n) = int k"
  proof -
    have k: "int k = min (int c) (min (int l - int n) (512 - int r))"
      using r l by (simp add: k_def of_nat_min of_nat_diff)
    show ?thesis
      unfolding k chunk_size_def Let_def inode_length_def sector_ofs_nat layout r_def [symmetric] l
      by (auto simp: min_def)
  qed
  moreover have "0 < k" "k \<le> c" "n + k \<le> l" "r + k \<le> 512"
    using r l assms(2) by (auto simp: k_def min_def)
  ultimately show thesis using that [of k] by (simp add: r_def l_def)
qed

lemma chunk_size_past_end:
  assumes "len (data ip) \<le> int n" shows "chunk_size ip c (int n) \<le> 0"
proof -
  have "int (n mod 512) < 512" by simp
  then show ?thesis using assms
    by (auto simp: chunk_size_def Let_def inode_length_def sector_ofs_nat layout)
qed

lemma disk_read_ok: "disk_ok s \<Longrightarrow> sec < capacity s \<Longrightarrow> disk_read s sec = Inr (disk s sec)"
  by (simp add: disk_read_def disk_ok_def)

lemma disk_write_ok:
  "disk_ok s \<Longrightarrow> sec < capacity s \<Longrightarrow> disk_write s sec b = Inr (s\<lparr>disk := (disk s)(sec := b)\<rparr>)"
  by (simp add: disk_write_def disk_ok_def)

lemma same_sector:
  assumes "n mod 512 + k \<le> (512 :: nat)" "j < k"
  shows "(n + j) div 512 = n div 512" "(n + j) mod 512 = n mod 512 + j"
proof -
  have "n + j = (n mod 512 + j) + 512 * (n div 512)" by simp
  moreover have "n mod 512 + j < 512" using assms by simp
  ultimately show "(n + j) div 512 = n div 512" "(n + j) mod 512 = n mod 512 + j"
    by (metis add.right_neutral div_less div_mult_self2 zero_neq_numeral add.commute, metis mod_less mod_mult_self2)
qed

lemma sector_chunk:
  assumes "disk_ok s" "n mod 512 + k \<le> 512"
  shows "take k (drop (n mod 512) (disk s (start d + n div 512))) = map (byte s d) [n..<n + k]"
proof (rule nth_equalityI)
  show "length (take k (drop (n mod 512) (disk s (start d + n div 512)))) = length (map (byte s d) [n..<n + k])"
    using assms by (simp add: disk_ok_def)
next
  fix j assume "j < length (take k (drop (n mod 512) (disk s (start d + n div 512))))"
  then have "j < k" by simp
  then show "take k (drop (n mod 512) (disk s (start d + n div 512))) ! j = map (byte s d) [n..<n + k] ! j"
    using assms same_sector [OF assms(2), of j] by (simp add: byte_def disk_ok_def)
qed

lemma read_loop_round:
  assumes "0 < c" "chunk_size ip c n = int k" "0 < k" "sector_ofs n = int r"
    "disk_read s (byte_to_sector ip n) = Inr b" "(r = 0 \<and> k = 512) \<or> mem_ok s A_bounce" "length b = 512"
  shows "read_loop s ip c n acc = read_loop s ip (c - int k) (n + int k) (acc @ take k (drop r b))"
proof (cases "r = 0 \<and> k = 512")
  case True
  then show ?thesis using assms by (subst read_loop.simps) (simp add: layout)
next
  case False
  then have "\<not> (int r = 0 \<and> int k = DISK_SECTOR_SIZE)" by (simp add: layout)
  then show ?thesis using assms False by (subst read_loop.simps) auto
qed

text \<open>
  The reading loop returns on every input. What it has read is an unbroken part of the file from
  the offset on; it stops early only when there is no memory for the bounce buffer.
\<close>

lemma read_loop_correct:
  assumes "disk_ok s" "extent_ok s (data ip)"
  shows "\<exists>e \<le> min (n + c) (nat (len (data ip))).
    read_loop s ip (int c) (int n) acc = Inr (acc @ map (byte s (data ip)) [n..<e]) \<and>
    (mem_ok s A_bounce \<longrightarrow> e = min (n + c) (nat (len (data ip))))"
proof (induction c arbitrary: n acc rule: less_induct)
  case (less c)
  show ?case
  proof (cases "int n < len (data ip) \<and> 0 < c")
    case False
    then have "read_loop s ip (int c) (int n) acc = Inr acc"
      using chunk_size_past_end [of ip n "int c"] by (subst read_loop.simps) auto
    then show ?thesis using False
      by (intro exI [of _ "min (n + c) (nat (len (data ip)))"]) (auto simp: min_def)
  next
    case True
    then obtain k where k: "chunk_size ip (int c) (int n) = int k" "0 < k" "k \<le> c"
      "n + k \<le> nat (len (data ip))" "n mod 512 + k \<le> 512"
      using chunk_size_nat by blast
    define bs where "bs = map (byte s (data ip)) [n..<n + k]"
    have rd: "disk_read s (byte_to_sector ip (int n)) = Inr (disk s (start (data ip) + n div 512))"
      using assms True by (simp add: byte_to_sector_nat disk_read_ok sector_in_extent)
    have bs: "take k (drop (n mod 512) (disk s (start (data ip) + n div 512))) = bs"
      unfolding bs_def by (rule sector_chunk [OF assms(1) k(5)])
    have sub: "int c - int k = int (c - k)" "int n + int k = int (n + k)" using k(3) by simp_all
    show ?thesis
    proof (cases "(n mod 512 = 0 \<and> k = 512) \<or> mem_ok s A_bounce")
      case True
      have "read_loop s ip (int c) (int n) acc = read_loop s ip (int (c - k)) (int (n + k)) (acc @ bs)"
        using read_loop_round [OF _ k(1,2) sector_ofs_nat rd True, of acc] k(2,3) assms(1)
        unfolding sub bs disk_ok_def by simp
      moreover obtain e where e: "e \<le> min (n + k + (c - k)) (nat (len (data ip)))"
          "read_loop s ip (int (c - k)) (int (n + k)) (acc @ bs)
             = Inr ((acc @ bs) @ map (byte s (data ip)) [n + k..<e])"
          "mem_ok s A_bounce \<longrightarrow> e = min (n + k + (c - k)) (nat (len (data ip)))"
        using less.IH [of "c - k" "n + k" "acc @ bs"] k by auto
      moreover have "bs @ map (byte s (data ip)) [n + k..<e] = map (byte s (data ip)) [n..<max e (n + k)]"
        using upt_add_eq_append [of n "n + k" "e - (n + k)"] by (auto simp: bs_def max_def simp flip: map_append)
      ultimately show ?thesis using k(3,4) by (intro exI [of _ "max e (n + k)"]) auto
    next
      case False
      have "read_loop s ip (int c) (int n) acc = Inr acc"
        using k False \<open>int n < len (data ip) \<and> 0 < c\<close>
        by (subst read_loop.simps) (auto simp: sector_ofs_nat layout)
      then show ?thesis using False k by (intro exI [of _ n]) auto
    qed
  qed
qed

text \<open>
  The effect of writing the bytes \<open>bs\<close> at position \<open>n\<close> of a file: these bytes of the file change
  and no other byte, and no sector outside of the file is touched.
\<close>

definition wrote :: "fs \<Rightarrow> fs \<Rightarrow> inode_disk \<Rightarrow> nat \<Rightarrow> u8 list \<Rightarrow> bool" where
  "wrote s s' d n bs \<longleftrightarrow> disk_ok s' \<and> s' = s\<lparr>disk := disk s'\<rparr> \<and>
     (\<forall>sec. sec \<notin> sectors d \<longrightarrow> disk s' sec = disk s sec) \<and>
     (\<forall>i. byte s' d i = (if n \<le> i \<and> i < n + length bs then bs ! (i - n) else byte s d i))"

lemma length_splice [simp]: "n + length ys \<le> length xs \<Longrightarrow> length (splice xs n ys) = length xs"
  by (simp add: splice_def)

lemma nth_splice:
  "n + length ys \<le> length xs \<Longrightarrow> j < length xs \<Longrightarrow>
   splice xs n ys ! j = (if n \<le> j \<and> j < n + length ys then ys ! (j - n) else xs ! j)"
  by (auto simp: splice_def nth_append)

lemma wrote_nil: "disk_ok s \<Longrightarrow> wrote s s d n []"
  by (auto simp: wrote_def)

lemma wrote_append:
  assumes "wrote s s1 d n bs" "wrote s1 s2 d (n + length bs) cs"
  shows "wrote s s2 d n (bs @ cs)"
proof -
  have "s2 = s\<lparr>disk := disk s2\<rparr>" using assms by (metis (no_types, lifting) fs.update_convs(1) wrote_def fs.surjective)
  then show ?thesis using assms by (auto simp: wrote_def nth_append)
qed

lemma wrote_sector:
  assumes "disk_ok s" "n mod 512 + length bs \<le> 512" "start d + n div 512 \<in> sectors d"
  shows "wrote s (s\<lparr>disk := (disk s)(start d + n div 512 := splice (disk s (start d + n div 512)) (n mod 512) bs)\<rparr>) d n bs"
    (is "wrote s ?s' d n bs")
proof -
  have len: "length (disk s sec) = 512" for sec using assms(1) by (simp add: disk_ok_def)
  have "byte ?s' d i = (if n \<le> i \<and> i < n + length bs then bs ! (i - n) else byte s d i)" for i
  proof (cases "i div 512 = n div 512")
    case True
    then have "i = n div 512 * 512 + i mod 512" "n = n div 512 * 512 + n mod 512"
      by (metis div_mult_mod_eq) simp
    then have "i - n = i mod 512 - n mod 512" "n \<le> i \<longleftrightarrow> n mod 512 \<le> i mod 512"
      "i < n + length bs \<longleftrightarrow> i mod 512 < n mod 512 + length bs" by linarith+
    then show ?thesis using True assms(2) by (simp add: byte_def nth_splice len)
  next
    case False
    then have "\<not> (n \<le> i \<and> i < n + length bs)"
      using same_sector(1) [OF assms(2), of "i - n"] by fastforce
    then show ?thesis using False by (auto simp: byte_def)
  qed
  then show ?thesis using assms len by (auto simp: wrote_def disk_ok_def)
qed

lemma write_loop_round:
  assumes "0 < c" "chunk_size ip c n = int k" "0 < k" "sector_ofs n = int r" "r + k \<le> 512"
    "byte_to_sector ip n = sec" "sec < capacity s" "disk_ok s"
    "(r = 0 \<and> k = 512) \<or> mem_ok s A_bounce" "w + k \<le> length buf"
  shows "write_loop s ip buf c n (int w) =
    write_loop (s\<lparr>disk := (disk s)(sec := splice (disk s sec) r (take k (drop w buf)))\<rparr>) ip buf
      (c - int k) (n + int k) (int w + int k)"
proof (cases "r = 0 \<and> k = 512")
  case True
  then have "splice (disk s sec) r (take k (drop w buf)) = take k (drop w buf)"
    using assms by (simp add: splice_def disk_ok_def)
  then show ?thesis using assms True
    by (subst write_loop.simps) (simp add: layout buf_chunk_def disk_write_ok)
next
  case False
  then have "\<not> (int r = 0 \<and> int k = DISK_SECTOR_SIZE)" "int r > 0 \<or> int k < DISK_SECTOR_SIZE - int r"
    using assms(5) by (auto simp: layout)
  then show ?thesis using assms False
    by (subst write_loop.simps) (auto simp: buf_chunk_def disk_write_ok disk_read_ok)
qed

lemma write_loop_correct:
  assumes "disk_ok s" "extent_ok s (data ip)" "w + c \<le> length buf"
  shows "\<exists>s' m. write_loop s ip buf (int c) (int n) (int w) = Inr (s', int (w + m)) \<and>
    wrote s s' (data ip) n (take m (drop w buf)) \<and> m \<le> c \<and> (0 < m \<longrightarrow> n + m \<le> nat (len (data ip))) \<and>
    (mem_ok s A_bounce \<longrightarrow> m = min c (nat (len (data ip)) - n))"
  using assms
proof (induction c arbitrary: n w s rule: less_induct)
  case (less c)
  show ?case
  proof (cases "int n < len (data ip) \<and> 0 < c")
    case False
    then have "write_loop s ip buf (int c) (int n) (int w) = Inr (s, int w)"
      using chunk_size_past_end [of ip n "int c"] by (subst write_loop.simps) auto
    then show ?thesis using False less.prems(1) by (intro exI [of _ s] exI [of _ 0]) (auto simp: wrote_nil)
  next
    case True
    then obtain k where k: "chunk_size ip (int c) (int n) = int k" "0 < k" "k \<le> c"
      "n + k \<le> nat (len (data ip))" "n mod 512 + k \<le> 512"
      using chunk_size_nat by blast
    show ?thesis
    proof (cases "(n mod 512 = 0 \<and> k = 512) \<or> mem_ok s A_bounce")
      case room: True
      define sec where "sec = start (data ip) + n div 512"
      define bs where "bs = take k (drop w buf)"
      define s1 where "s1 = s\<lparr>disk := (disk s)(sec := splice (disk s sec) (n mod 512) bs)\<rparr>"
      have bs: "length bs = k" using k(3) less.prems(3) by (simp add: bs_def)
      have sec: "byte_to_sector ip (int n) = sec" "sec < capacity s" "sec \<in> sectors (data ip)"
        using byte_to_sector_nat sector_in_extent less.prems True by (auto simp: sec_def)
      have w1: "wrote s s1 (data ip) n bs"
        using wrote_sector [of s n bs "data ip"] less.prems(1) k(5) sec(3) by (simp add: s1_def sec_def bs)
      have sub: "int c - int k = int (c - k)" "int n + int k = int (n + k)" "int w + int k = int (w + k)"
        using k(3) by simp_all
      have round: "write_loop s ip buf (int c) (int n) (int w)
          = write_loop s1 ip buf (int (c - k)) (int (n + k)) (int (w + k))"
        using write_loop_round [OF _ k(1,2) sector_ofs_nat k(5) sec(1,2) less.prems(1) room, of w buf] True
          less.prems(3) k(3)
        unfolding sub s1_def bs_def by simp
      have pre: "disk_ok s1" "extent_ok s1 (data ip)" "w + k + (c - k) \<le> length buf" "mem_ok s1 = mem_ok s"
        using w1 less.prems k(3) by (auto simp: wrote_def s1_def extent_ok_def)
      obtain s' m where m: "write_loop s1 ip buf (int (c - k)) (int (n + k)) (int (w + k)) = Inr (s', int (w + k + m))"
        "wrote s1 s' (data ip) (n + k) (take m (drop (w + k) buf))" "m \<le> c - k"
        "0 < m \<longrightarrow> n + k + m \<le> nat (len (data ip))"
        "mem_ok s1 A_bounce \<longrightarrow> m = min (c - k) (nat (len (data ip)) - (n + k))"
        using less.IH [of "c - k" s1 "w + k" "n + k"] k pre(1-3) by auto
      have "bs @ take m (drop (w + k) buf) = take (k + m) (drop w buf)"
        by (simp add: bs_def take_add add.commute)
      then have "wrote s s' (data ip) n (take (k + m) (drop w buf))"
        using wrote_append [OF w1] m(2) bs by metis
      moreover have "write_loop s ip buf (int c) (int n) (int w) = Inr (s', int (w + (k + m)))"
        using round m(1) by (simp add: add.assoc)
      moreover have "k + m \<le> c" "0 < k + m \<longrightarrow> n + (k + m) \<le> nat (len (data ip))"
        using m(3,4) k(3,4) by (simp_all, cases "m = 0") simp_all
      moreover have "mem_ok s A_bounce \<longrightarrow> k + m = min c (nat (len (data ip)) - n)"
        using m(5) k(3,4) by (auto simp: pre(4) min_def)
      ultimately show ?thesis by blast
    next
      case False
      then have "write_loop s ip buf (int c) (int n) (int w) = Inr (s, int w)"
        using k True by (subst write_loop.simps) (auto simp: sector_ofs_nat layout)
      then show ?thesis using False less.prems(1) by (intro exI [of _ s] exI [of _ 0]) (auto simp: wrote_nil)
    qed
  qed
qed

lemma wrote_frame:
  assumes "wrote s s' d n bs"
  shows "inodes s' = inodes s" "mem_ok s' = mem_ok s" "capacity s' = capacity s"
    "open_inodes s' = open_inodes s" "free_map s' = free_map s" "free_map_file s' = free_map_file s"
    "files s' = files s" "brk s' = brk s"
proof -
  have e: "s' = s\<lparr>disk := disk s'\<rparr>" using assms by (simp add: wrote_def)
  show "inodes s' = inodes s" "mem_ok s' = mem_ok s" "capacity s' = capacity s"
    "open_inodes s' = open_inodes s" "free_map s' = free_map s" "free_map_file s' = free_map_file s"
    "files s' = files s" "brk s' = brk s"
    by (subst e, simp)+
qed

lemma contents_wrote:
  assumes "wrote s s' d n bs" "n + length bs \<le> nat (len d)"
  shows "contents s' d = splice (contents s d) n bs"
  using assms by (intro nth_equalityI) (auto simp: contents_def wrote_def nth_splice)

lemma contents_wrote_other:
  assumes "wrote s s' d n bs" "sectors d \<inter> sectors d' = {}" "extent_ok s d'"
  shows "contents s' d' = contents s d'"
proof -
  have "disk s' (start d' + i div 512) = disk s (start d' + i div 512)" if "i < nat (len d')" for i
    using sector_in_extent(1) [OF assms(3), of i] that assms(1,2) by (auto simp: wrote_def)
  then show ?thesis by (simp add: contents_def byte_def)
qed

lemma inode_read_at_eq:
  assumes "inodes s i = Some ip" "disk_ok s" "extent_ok s (data ip)" "mem_ok s A_bounce" "0 \<le> cnt" "0 \<le> ofs"
  shows "inode_read_at s i cnt ofs = Inr (take (nat cnt) (drop (nat ofs) (contents s (data ip))))"
  using read_loop_correct [OF assms(2,3), of "nat ofs" "nat cnt" "[]"] assms
  by (auto simp: inode_read_at_def iget_def contents_range)

lemma inode_write_at_eq:
  assumes "inodes s i = Some ip" "disk_ok s" "extent_ok s (data ip)" "mem_ok s A_bounce" "0 \<le> cnt" "0 \<le> ofs"
    "nat cnt \<le> length buf" "deny_write_cnt ip = 0"
  obtains s' where "wrote s s' (data ip) (nat ofs) (take (min (nat cnt) (nat (len (data ip)) - nat ofs)) buf)"
    "inode_write_at s i buf cnt ofs = Inr (s', int (min (nat cnt) (nat (len (data ip)) - nat ofs)))"
  using write_loop_correct [OF assms(2,3), of 0 "nat cnt" buf "nat ofs"] assms
  by (auto simp: inode_write_at_def iget_def)

section \<open>Properties\<close>

definition ex_fs :: fs where
  "ex_fs = \<lparr>disk = \<lambda>_. replicate 512 0, capacity = 16,
     inodes = [100 \<mapsto> \<lparr>sector = 4, open_cnt = 1, removed = False,
                      data = \<lparr>start = 5, len = 700, imagic = INODE_MAGIC\<rparr>, deny_write_cnt = 0\<rparr>],
     open_inodes = [100], free_map = \<lparr>bit_cnt = 16, bits = [0x7f]\<rparr>, free_map_file = NULL,
     files = Map.empty, brk = 200, mem_ok = \<lambda>_. True\<rparr>"

lemma ex_fs_ok: "disk_ok ex_fs" "extent_ok ex_fs \<lparr>start = 5, len = 700, imagic = INODE_MAGIC\<rparr>"
  by (simp_all add: disk_ok_def extent_ok_def ex_fs_def bytes_to_sectors_nat)

text \<open>
  C27. Reading from an inode whose extent lies on the disk never fails: whatever the offset and the
  count, the bytes returned are those of the file from the offset on, cut at the count and at the
  end of the file, across sector boundaries. Only when there is no memory for a bounce buffer may
  the result be shorter, and it is then still the beginning of the same bytes.
\<close>

theorem inode_read_at_correct:
  assumes "inodes s i = Some ip" "disk_ok s" "extent_ok s (data ip)" "0 \<le> cnt" "0 \<le> ofs"
  shows "\<exists>n. inode_read_at s i cnt ofs = Inr (take n (drop (nat ofs) (contents s (data ip)))) \<and>
    n \<le> nat cnt \<and> (mem_ok s A_bounce \<longrightarrow> n = nat cnt)"
proof -
  obtain e where e: "e \<le> min (nat ofs + nat cnt) (nat (len (data ip)))"
    "inode_read_at s i cnt ofs = Inr (map (byte s (data ip)) [nat ofs..<e])"
    "mem_ok s A_bounce \<longrightarrow> e = min (nat ofs + nat cnt) (nat (len (data ip)))"
    using read_loop_correct [OF assms(2,3), of "nat ofs" "nat cnt" "[]"] assms
    by (auto simp: inode_read_at_def iget_def)
  show ?thesis
  proof (cases "mem_ok s A_bounce")
    case True
    then show ?thesis using e by (intro exI [of _ "nat cnt"]) (simp add: contents_range)
  next
    case False
    have "[nat ofs..<e] = [nat ofs..<min (nat ofs + (e - nat ofs)) (nat (len (data ip)))]"
      using e(1) by (cases "nat ofs \<le> e") (auto simp: min_def split: if_splits)
    then show ?thesis using e(1,2) False
      by (intro exI [of _ "e - nat ofs"]) (auto simp: contents_range)
  qed
qed

theorem inode_read_at_correct_witness:
  "(\<exists>n. inode_read_at ex_fs 100 20 500 = Inr (take n (drop 500 (contents ex_fs \<lparr>start = 5, len = 700, imagic = INODE_MAGIC\<rparr>)))
      \<and> n \<le> 20 \<and> (mem_ok ex_fs A_bounce \<longrightarrow> n = 20)) \<and> mem_ok ex_fs A_bounce"
  using inode_read_at_correct [of ex_fs 100 "the (inodes ex_fs 100)" 20 500] ex_fs_ok by (simp add: ex_fs_def)

text \<open>
  C12. Writing to an inode whose extent lies on the disk never fails. While writes are denied it
  changes nothing and returns 0. Otherwise it overwrites exactly the bytes of the file from the
  offset on, cut at the end of the file, returns their number, and leaves every sector of other
  files alone; a read of the same range then returns what was written.
\<close>

theorem inode_write_at_correct:
  assumes "inodes s i = Some ip" "disk_ok s" "extent_ok s (data ip)" "mem_ok s A_bounce"
    "0 \<le> cnt" "0 \<le> ofs" "ofs \<le> len (data ip)" "nat cnt \<le> length buf"
  defines "m \<equiv> min (nat cnt) (nat (len (data ip)) - nat ofs)"
  shows "if deny_write_cnt ip \<noteq> 0 then inode_write_at s i buf cnt ofs = Inr (s, 0)
    else \<exists>s'. inode_write_at s i buf cnt ofs = Inr (s', int m) \<and> s' = s\<lparr>disk := disk s'\<rparr> \<and> disk_ok s' \<and>
      contents s' (data ip) = splice (contents s (data ip)) (nat ofs) (take m buf) \<and>
      (\<forall>sec. sec \<notin> sectors (data ip) \<longrightarrow> disk s' sec = disk s sec) \<and>
      inode_read_at s' i (int m) ofs = Inr (take m buf)"
proof (cases "deny_write_cnt ip = 0")
  case False
  then show ?thesis using assms by (simp add: inode_write_at_def iget_def)
next
  case True
  obtain s' where s': "wrote s s' (data ip) (nat ofs) (take m buf)"
    "inode_write_at s i buf cnt ofs = Inr (s', int m)"
    using inode_write_at_eq [OF assms(1-6,8) True] unfolding m_def by blast
  have m: "length (take m buf) = m" "nat ofs + m \<le> nat (len (data ip))"
    using assms(7,8) by (auto simp: m_def)
  have c: "contents s' (data ip) = splice (contents s (data ip)) (nat ofs) (take m buf)"
    using contents_wrote [OF s'(1)] m by simp
  have u: "s' = s\<lparr>disk := disk s'\<rparr>" "disk_ok s'" using s'(1) by (simp_all add: wrote_def)
  note f = wrote_frame [OF s'(1)]
  have "inode_read_at s' i (int m) ofs = Inr (take m (drop (nat ofs) (contents s' (data ip))))"
    using inode_read_at_eq [of s' i ip "int m" ofs] u(2) f assms(1,3,4,6) by (simp add: extent_ok_def)
  also have "take m (drop (nat ofs) (contents s' (data ip))) = take m buf"
    using m by (simp add: c splice_def)
  finally show ?thesis using True s' c u by (auto simp: wrote_def)
qed

theorem inode_write_at_correct_witness:
  "\<exists>s'. inode_write_at ex_fs 100 [1, 2, 3, 4] 4 510 = Inr (s', 4) \<and> inode_read_at s' 100 4 510 = Inr [1, 2, 3, 4]"
  using inode_write_at_correct [of ex_fs 100 "the (inodes ex_fs 100)" 4 510 "[1, 2, 3, 4]"] ex_fs_ok
  by (auto simp: ex_fs_def)

end
