(* ===== verification/InodeRW.thy ===== *)
theory InodeRW
  imports Inode
begin

text \<open>
  Concurrent calls of \<^verbatim>\<open>inode_read_at\<close> and \<^verbatim>\<open>inode_write_at\<close> on one inode
  (\<^verbatim>\<open>filesys/inode.c\<close>). The threads take turns at every statement that touches shared state:
  the operations on the semaphores \<^verbatim>\<open>r_sema\<close> and \<^verbatim>\<open>w_sema\<close>, the accesses to \<^verbatim>\<open>n_readers\<close>, and
  each round of the loops that copy one chunk. A thread for which \<^verbatim>\<open>sema_down\<close> finds the value 0
  has to wait; which thread goes on is left open. The number of denied writes stays as it is
  while the calls run.

  The loops are the ones of the theory \<open>Inode\<close>, cut into rounds. It is shown that the calls behave as
  if each of them were one step, in some order, and that all of them return.
\<close>

section \<open>Rounds of the loops\<close>

definition read_round :: "fs \<Rightarrow> inode \<Rightarrow> int \<Rightarrow> int \<Rightarrow> u8 list \<Rightarrow> (int \<times> int \<times> u8 list) option outcome" where
  "read_round s ip cnt offset acc =
     (let chunk = chunk_size ip cnt offset
      in if cnt \<le> 0 \<or> chunk \<le> 0 then Inr None
         else if sector_ofs offset = 0 \<and> chunk = DISK_SECTOR_SIZE
         then kbind (disk_read s (byte_to_sector ip offset)) (\<lambda>b. Inr (Some (cnt - chunk, offset + chunk, acc @ b)))
         else if \<not> mem_ok s A_bounce then Inr None
         else kbind (disk_read s (byte_to_sector ip offset)) (\<lambda>bounce.
                if sector_ofs offset < 0 then Inl Bad_access
                else Inr (Some (cnt - chunk, offset + chunk, acc @ take (nat chunk) (drop (nat (sector_ofs offset)) bounce)))))"

definition write_round :: "fs \<Rightarrow> inode \<Rightarrow> u8 list \<Rightarrow> int \<Rightarrow> int \<Rightarrow> int \<Rightarrow> (fs \<times> int \<times> int \<times> int) option outcome" where
  "write_round s ip buffer cnt offset written =
     (let chunk = chunk_size ip cnt offset
      in if cnt \<le> 0 \<or> chunk \<le> 0 then Inr None
         else if sector_ofs offset = 0 \<and> chunk = DISK_SECTOR_SIZE
         then kbind (buf_chunk buffer written chunk) (\<lambda>c.
              kbind (disk_write s (byte_to_sector ip offset) c) (\<lambda>s. Inr (Some (s, cnt - chunk, offset + chunk, written + chunk))))
         else if \<not> mem_ok s A_bounce then Inr None
         else kbind (if sector_ofs offset > 0 \<or> chunk < DISK_SECTOR_SIZE - sector_ofs offset
                     then disk_read s (byte_to_sector ip offset)
                     else Inr (replicate (nat DISK_SECTOR_SIZE) 0)) (\<lambda>bounce.
              kbind (buf_chunk buffer written chunk) (\<lambda>c.
                if sector_ofs offset < 0 then Inl Bad_access
                else kbind (disk_write s (byte_to_sector ip offset) (splice bounce (nat (sector_ofs offset)) c)) (\<lambda>s.
                       Inr (Some (s, cnt - chunk, offset + chunk, written + chunk))))))"

section \<open>Threads\<close>

datatype request = Read_at int int | Write_at "u8 list" int int

datatype answer = Read_answer "u8 list" | Write_answer int

text \<open>Where a thread is in its call; the places of a reader come first, in the order of the code.\<close>

datatype pc =
    R_start | R_test | R_first | R_inc | R_enter
  | R_loop int int "u8 list"
  | R_leave "u8 list" | R_dec "u8 list" | R_last "u8 list" | R_open "u8 list" | R_exit "u8 list"
  | W_start | W_lock
  | W_loop int int int
  | W_unlock int
  | Done answer

text \<open>The shared state; \<open>log\<close> only records the order in which the loops end.\<close>

record rw =
  r_sema :: nat
  w_sema :: nat
  n_readers :: int
  store :: fs
  pc :: "nat \<Rightarrow> pc"
  log :: "(nat \<times> answer) list"

definition goto :: "nat \<Rightarrow> pc \<Rightarrow> rw \<Rightarrow> rw" where
  "goto t p s = s\<lparr>pc := (pc s)(t := p)\<rparr>"

definition answer_log :: "nat \<Rightarrow> answer \<Rightarrow> rw \<Rightarrow> rw" where
  "answer_log t a s = s\<lparr>log := log s @ [(t, a)]\<rparr>"

definition reader_loop_step :: "addr \<Rightarrow> rw \<Rightarrow> nat \<Rightarrow> int \<Rightarrow> int \<Rightarrow> u8 list \<Rightarrow> rw option" where
  "reader_loop_step i s t cnt ofs acc =
     (case kbind (iget (store s) i) (\<lambda>ip. read_round (store s) ip cnt ofs acc) of
        Inl _ \<Rightarrow> None
      | Inr None \<Rightarrow> Some (goto t (R_leave acc) (answer_log t (Read_answer acc) s))
      | Inr (Some (c, p, a)) \<Rightarrow> Some (goto t (R_loop c p a) s))"

definition writer_loop_step :: "addr \<Rightarrow> u8 list \<Rightarrow> rw \<Rightarrow> nat \<Rightarrow> int \<Rightarrow> int \<Rightarrow> int \<Rightarrow> rw option" where
  "writer_loop_step i buf s t cnt ofs written =
     (case kbind (iget (store s) i) (\<lambda>ip. write_round (store s) ip buf cnt ofs written) of
        Inl _ \<Rightarrow> None
      | Inr None \<Rightarrow> Some (goto t (W_unlock written) (answer_log t (Write_answer written) s))
      | Inr (Some (st, c, p, w)) \<Rightarrow> Some (goto t (W_loop c p w) (s\<lparr>store := st\<rparr>)))"

text \<open>One step of a reader; there is none while it waits for a semaphore.\<close>

definition reader_step :: "addr \<Rightarrow> rw \<Rightarrow> nat \<Rightarrow> int \<Rightarrow> int \<Rightarrow> rw option" where
  "reader_step i s t cnt ofs = (case pc s t of
     R_start \<Rightarrow> if r_sema s > 0 then Some (goto t R_test (s\<lparr>r_sema := r_sema s - 1\<rparr>)) else None
   | R_test \<Rightarrow> Some (goto t (if n_readers s = 0 then R_first else R_inc) s)
   | R_first \<Rightarrow> if w_sema s > 0 then Some (goto t R_inc (s\<lparr>w_sema := w_sema s - 1\<rparr>)) else None
   | R_inc \<Rightarrow> Some (goto t R_enter (s\<lparr>n_readers := n_readers s + 1\<rparr>))
   | R_enter \<Rightarrow> Some (goto t (R_loop cnt ofs []) (s\<lparr>r_sema := r_sema s + 1\<rparr>))
   | R_loop c p a \<Rightarrow> reader_loop_step i s t c p a
   | R_leave a \<Rightarrow> if r_sema s > 0 then Some (goto t (R_dec a) (s\<lparr>r_sema := r_sema s - 1\<rparr>)) else None
   | R_dec a \<Rightarrow> Some (goto t (R_last a) (s\<lparr>n_readers := n_readers s - 1\<rparr>))
   | R_last a \<Rightarrow> Some (goto t (if n_readers s = 0 then R_open a else R_exit a) s)
   | R_open a \<Rightarrow> Some (goto t (R_exit a) (s\<lparr>w_sema := w_sema s + 1\<rparr>))
   | R_exit a \<Rightarrow> Some (goto t (Done (Read_answer a)) (s\<lparr>r_sema := r_sema s + 1\<rparr>))
   | _ \<Rightarrow> None)"

definition writer_step :: "addr \<Rightarrow> rw \<Rightarrow> nat \<Rightarrow> u8 list \<Rightarrow> int \<Rightarrow> int \<Rightarrow> rw option" where
  "writer_step i s t buf cnt ofs = (case pc s t of
     W_start \<Rightarrow> (case iget (store s) i of Inl _ \<Rightarrow> None | Inr ip \<Rightarrow>
       if deny_write_cnt ip \<noteq> 0 then Some (goto t (Done (Write_answer 0)) (answer_log t (Write_answer 0) s))
       else Some (goto t W_lock s))
   | W_lock \<Rightarrow> if w_sema s > 0 then Some (goto t (W_loop cnt ofs 0) (s\<lparr>w_sema := w_sema s - 1\<rparr>)) else None
   | W_loop c p w \<Rightarrow> writer_loop_step i buf s t c p w
   | W_unlock n \<Rightarrow> Some (goto t (Done (Write_answer n)) (s\<lparr>w_sema := w_sema s + 1\<rparr>))
   | _ \<Rightarrow> None)"

definition rw_step :: "addr \<Rightarrow> (nat \<Rightarrow> request) \<Rightarrow> rw \<Rightarrow> nat \<Rightarrow> rw option" where
  "rw_step i req s t = (case req t of
     Read_at cnt ofs \<Rightarrow> reader_step i s t cnt ofs
   | Write_at buf cnt ofs \<Rightarrow> writer_step i s t buf cnt ofs)"

definition rw_start :: "(nat \<Rightarrow> request) \<Rightarrow> fs \<Rightarrow> rw" where
  "rw_start req st = \<lparr>r_sema = 1, w_sema = 1, n_readers = 0, store = st,
     pc = (\<lambda>t. case req t of Read_at _ _ \<Rightarrow> R_start | Write_at _ _ _ \<Rightarrow> W_start), log = []\<rparr>"

text \<open>\<open>rw_run i req T st n s\<close>: \<open>n\<close> steps of the threads \<open>T\<close>, all starting their calls on the store \<open>st\<close>, lead to \<open>s\<close>.\<close>

inductive rw_run :: "addr \<Rightarrow> (nat \<Rightarrow> request) \<Rightarrow> nat set \<Rightarrow> fs \<Rightarrow> nat \<Rightarrow> rw \<Rightarrow> bool"
  for i req T st where
  start: "rw_run i req T st 0 (rw_start req st)"
| step: "rw_run i req T st n s \<Longrightarrow> t \<in> T \<Longrightarrow> rw_step i req s t = Some s' \<Longrightarrow> rw_run i req T st (Suc n) s'"

section \<open>The calls as single steps\<close>

fun perform :: "addr \<Rightarrow> fs \<Rightarrow> request \<Rightarrow> (fs \<times> answer) outcome" where
  "perform i s (Read_at cnt ofs) = kbind (inode_read_at s i cnt ofs) (\<lambda>bs. Inr (s, Read_answer bs))"
| "perform i s (Write_at buf cnt ofs) = kbind (inode_write_at s i buf cnt ofs) (\<lambda>r. Inr (fst r, Write_answer (snd r)))"

text \<open>Performs the calls one after the other in the order of the log and compares the answers.\<close>

fun replay :: "addr \<Rightarrow> (nat \<Rightarrow> request) \<Rightarrow> fs \<Rightarrow> (nat \<times> answer) list \<Rightarrow> fs option" where
  "replay i req s [] = Some s"
| "replay i req s ((t, a) # l) = (case perform i s (req t) of
     Inl _ \<Rightarrow> None | Inr (s', b) \<Rightarrow> if a = b then replay i req s' l else None)"

lemma replay_append:
  "replay i req s (l @ [(t, a)]) = (case replay i req s l of None \<Rightarrow> None | Some s1 \<Rightarrow>
     (case perform i s1 (req t) of Inl _ \<Rightarrow> None | Inr (s2, b) \<Rightarrow> if a = b then Some s2 else None))"
  by (induction l arbitrary: s) (auto split: sum.splits)

lemma read_loop_unfold:
  "read_loop s ip cnt ofs acc = kbind (read_round s ip cnt ofs acc) (\<lambda>r. case r of
     None \<Rightarrow> Inr acc | Some (c, p, a) \<Rightarrow> read_loop s ip c p a)"
  by (subst read_loop.simps) (simp add: read_round_def Let_def kbind_assoc if_distrib [of "\<lambda>m. kbind m _"] cong: if_cong)

lemma write_loop_unfold:
  "write_loop s ip buf cnt ofs w = kbind (write_round s ip buf cnt ofs w) (\<lambda>r. case r of
     None \<Rightarrow> Inr (s, w) | Some (s', c, p, w') \<Rightarrow> write_loop s' ip buf c p w')"
  by (subst write_loop.simps) (simp add: write_round_def Let_def kbind_assoc if_distrib [of "\<lambda>m. kbind m _"] cong: if_cong)

lemma read_round_less: "read_round s ip cnt ofs acc = Inr (Some (c, p, a)) \<Longrightarrow> nat c < nat cnt"
  by (auto simp: read_round_def Let_def split: if_splits)

lemma write_round_less: "write_round s ip buf cnt ofs w = Inr (Some (s', c, p, w')) \<Longrightarrow> nat c < nat cnt \<and> inodes s' = inodes s"
  by (auto simp: write_round_def disk_write_def Let_def split: if_splits)

section \<open>Who is where\<close>

fun place :: "pc \<Rightarrow> nat" where
  "place R_start = 0" | "place R_test = 1" | "place R_first = 2" | "place R_inc = 3" | "place R_enter = 4"
| "place (R_loop _ _ _) = 5" | "place (R_leave _) = 6" | "place (R_dec _) = 7" | "place (R_last _) = 8"
| "place (R_open _) = 9" | "place (R_exit _) = 10" | "place W_start = 11" | "place W_lock = 12"
| "place (W_loop _ _ _) = 13" | "place (W_unlock _) = 14" | "place (Done _) = 15"

definition places :: "nat set \<Rightarrow> (nat \<Rightarrow> pc) \<Rightarrow> nat \<Rightarrow> nat" where
  "places T f k = card {t \<in> T. place (f t) = k}"

lemma places_pos: "finite T \<Longrightarrow> t \<in> T \<Longrightarrow> 0 < places T f (place (f t))"
  by (auto simp: places_def card_gt_0_iff)

lemma places_0: "finite T \<Longrightarrow> places T f k = 0 \<Longrightarrow> t \<in> T \<Longrightarrow> place (f t) \<noteq> k"
  by (auto simp: places_def)

lemma places_ex: "0 < places T f k \<Longrightarrow> \<exists>t \<in> T. place (f t) = k"
  by (auto simp: places_def card_gt_0_iff)

lemma places_1: "finite T \<Longrightarrow> places T f k = 1 \<Longrightarrow> t \<in> T \<Longrightarrow> u \<in> T \<Longrightarrow> place (f t) = k \<Longrightarrow> place (f u) = k \<Longrightarrow> t = u"
  unfolding places_def One_nat_def card_1_singleton_iff by (metis (mono_tags, lifting) mem_Collect_eq singletonD)

text \<open>A step of one thread moves it from one place to another.\<close>

lemma places_move:
  assumes "finite T" "t \<in> T" "place (f t) \<noteq> place p"
  shows "places T (f(t := p)) = (places T f)(place (f t) := places T f (place (f t)) - 1, place p := places T f (place p) + 1)"
proof
  fix k
  define a where "a = place (f t)"
  have "{u \<in> T. place ((f(t := p)) u) = k} =
      (if k = place p then insert t {u \<in> T. place (f u) = k} else if k = a then {u \<in> T. place (f u) = k} - {t}
       else {u \<in> T. place (f u) = k})"
    using assms by (auto simp: a_def)
  then show "places T (f(t := p)) k = ((places T f)(place (f t) := places T f (place (f t)) - 1, place p := places T f (place p) + 1)) k"
    using assms by (auto simp: places_def a_def)
qed

lemma places_same: "place (f t) = place p \<Longrightarrow> places T (f(t := p)) = places T f"
  by (auto simp: places_def fun_eq_iff intro!: arg_cong [of _ _ card])

text \<open>
  One thread at most is between the two operations on \<^verbatim>\<open>r_sema\<close>; \<^verbatim>\<open>n_readers\<close> counts the readers
  from its increment to its decrement; \<^verbatim>\<open>w_sema\<close> is held by one writer or by the readers together.
\<close>

definition control :: "nat \<Rightarrow> nat \<Rightarrow> int \<Rightarrow> (nat \<Rightarrow> nat) \<Rightarrow> bool" where
  "control r w n c \<longleftrightarrow> r + c 1 + c 2 + c 3 + c 4 + c 7 + c 8 + c 9 + c 10 = 1 \<and>
     n = int (c 4 + c 5 + c 6 + c 7) \<and>
     w + c 13 + c 14 + (if 0 < n \<or> 0 < c 3 + c 8 + c 9 then 1 else 0) = 1 \<and>
     (0 < c 2 + c 9 \<longrightarrow> n = 0)"

abbreviation controlled :: "nat set \<Rightarrow> rw \<Rightarrow> bool" where
  "controlled T s \<equiv> control (r_sema s) (w_sema s) (n_readers s) (places T (pc s))"

text \<open>The moves of readers and writers from one place to the next keep this.\<close>

lemma control_moves:
  assumes "control r w n c"
  shows "0 < c 0 \<Longrightarrow> 0 < r \<Longrightarrow> control (r - 1) w n (c(0 := c 0 - 1, 1 := c 1 + 1))"
    and "0 < c 1 \<Longrightarrow> n = 0 \<Longrightarrow> control r w n (c(1 := c 1 - 1, 2 := c 2 + 1))"
    and "0 < c 1 \<Longrightarrow> n \<noteq> 0 \<Longrightarrow> control r w n (c(1 := c 1 - 1, 3 := c 3 + 1))"
    and "0 < c 2 \<Longrightarrow> 0 < w \<Longrightarrow> control r (w - 1) n (c(2 := c 2 - 1, 3 := c 3 + 1))"
    and "0 < c 3 \<Longrightarrow> control r w (n + 1) (c(3 := c 3 - 1, 4 := c 4 + 1))"
    and "0 < c 4 \<Longrightarrow> control (r + 1) w n (c(4 := c 4 - 1, 5 := c 5 + 1))"
    and "0 < c 5 \<Longrightarrow> control r w n (c(5 := c 5 - 1, 6 := c 6 + 1))"
    and "0 < c 6 \<Longrightarrow> 0 < r \<Longrightarrow> control (r - 1) w n (c(6 := c 6 - 1, 7 := c 7 + 1))"
    and "0 < c 7 \<Longrightarrow> control r w (n - 1) (c(7 := c 7 - 1, 8 := c 8 + 1))"
    and "0 < c 8 \<Longrightarrow> n = 0 \<Longrightarrow> control r w n (c(8 := c 8 - 1, 9 := c 9 + 1))"
    and "0 < c 8 \<Longrightarrow> n \<noteq> 0 \<Longrightarrow> control r w n (c(8 := c 8 - 1, 10 := c 10 + 1))"
    and "0 < c 9 \<Longrightarrow> control r (w + 1) n (c(9 := c 9 - 1, 10 := c 10 + 1))"
    and "0 < c 10 \<Longrightarrow> control (r + 1) w n (c(10 := c 10 - 1, 15 := c 15 + 1))"
    and "control r w n (c(11 := x, 12 := y))"
    and "control r w n (c(11 := x, 15 := y))"
    and "0 < c 12 \<Longrightarrow> 0 < w \<Longrightarrow> control r (w - 1) n (c(12 := c 12 - 1, 13 := c 13 + 1))"
    and "0 < c 13 \<Longrightarrow> control r w n (c(13 := c 13 - 1, 14 := c 14 + 1))"
    and "0 < c 14 \<Longrightarrow> control r (w + 1) n (c(14 := c 14 - 1, 15 := c 15 + 1))"
  using assms unfolding control_def by (simp_all split: if_splits, linarith+)

lemma goto_simps [simp]:
  "r_sema (goto t p s) = r_sema s" "w_sema (goto t p s) = w_sema s" "n_readers (goto t p s) = n_readers s"
  "store (goto t p s) = store s" "log (goto t p s) = log s" "pc (goto t p s) = (pc s)(t := p)"
  by (simp_all add: goto_def)

lemma answer_log_simps [simp]:
  "r_sema (answer_log t a s) = r_sema s" "w_sema (answer_log t a s) = w_sema s" "n_readers (answer_log t a s) = n_readers s"
  "store (answer_log t a s) = store s" "log (answer_log t a s) = log s @ [(t, a)]" "pc (answer_log t a s) = pc s"
  by (simp_all add: answer_log_def)

lemma reader_control:
  assumes "finite T" "t \<in> T" "controlled T s" "reader_step i s t cnt ofs = Some s'"
  shows "controlled T s'"
proof -
  note m = places_move [OF assms(1,2)] and p = places_pos [OF assms(1,2), of "pc s"] and c = control_moves [OF assms(3)]
  show ?thesis
  proof (cases "pc s t")
    case (R_loop d q a)
    consider "s' = goto t (R_leave a) (answer_log t (Read_answer a) s)" | d' q' a' where "s' = goto t (R_loop d' q' a') s"
      using assms(4) R_loop by (auto simp: reader_step_def reader_loop_step_def split: sum.splits option.splits prod.splits)
    then show ?thesis
    proof cases
      case 1
      then show ?thesis using p c(7) R_loop by (simp add: m)
    next
      case 2
      then show ?thesis using assms(3) R_loop by (simp add: places_same)
    qed
  next
    case R_test
    then show ?thesis using assms(4) p c(2,3) by (auto simp: reader_step_def m)
  next
    case R_last
    then show ?thesis using assms(4) p c(10,11) by (auto simp: reader_step_def m)
  qed (use assms(4) p c(1,4,5,6,8,9,12,13) in \<open>auto simp: reader_step_def m split: if_splits\<close>)
qed

lemma writer_control:
  assumes "finite T" "t \<in> T" "controlled T s" "writer_step i s t buf cnt ofs = Some s'"
  shows "controlled T s'"
proof -
  note m = places_move [OF assms(1,2)] and p = places_pos [OF assms(1,2), of "pc s"] and c = control_moves [OF assms(3)]
  show ?thesis
  proof (cases "pc s t")
    case (W_loop d q w)
    consider "s' = goto t (W_unlock w) (answer_log t (Write_answer w) s)" | d' q' w' st where "s' = goto t (W_loop d' q' w') (s\<lparr>store := st\<rparr>)"
      using assms(4) W_loop by (auto simp: writer_step_def writer_loop_step_def split: sum.splits option.splits prod.splits)
    then show ?thesis
    proof cases
      case 1
      then show ?thesis using p c(17) W_loop by (simp add: m)
    next
      case 2
      then show ?thesis using assms(3) W_loop by (simp add: places_same)
    qed
  qed (use assms(4) p c(14-16,18) in \<open>auto simp: writer_step_def m split: if_splits sum.splits\<close>)
qed

lemma rw_control:
  assumes "finite T" "t \<in> T" "controlled T s" "rw_step i req s t = Some s'"
  shows "controlled T s'"
  using reader_control [OF assms(1-3)] writer_control [OF assms(1-3)] assms(4)
  by (cases "req t") (auto simp: rw_step_def)

text \<open>A writer in its loop is alone with the file.\<close>

lemma exclusion:
  assumes "finite T" "controlled T s" "t \<in> T" "place (pc s t) = 13" "u \<in> T"
  shows "place (pc s u) \<noteq> 5" "place (pc s u) = 13 \<Longrightarrow> u = t"
proof -
  have "0 < places T (pc s) 13" using places_pos [OF assms(1,3), of "pc s"] assms(4) by simp
  then have "places T (pc s) 13 = 1 \<and> places T (pc s) 5 = 0" using assms(2) by (auto simp: control_def split: if_splits)
  then show "place (pc s u) \<noteq> 5" "place (pc s u) = 13 \<Longrightarrow> u = t"
    using places_0 [OF assms(1)] places_1 [OF assms(1)] assms(3-5) by metis+
qed

lemma start_control:
  assumes "finite T"
  shows "controlled T (rw_start req st)"
proof -
  have p: "place (pc (rw_start req st) t) = 0 \<or> place (pc (rw_start req st) t) = 11" for t
    by (cases "req t") (simp_all add: rw_start_def)
  have "places T (pc (rw_start req st)) k = 0" if "k \<noteq> 0" "k \<noteq> 11" for k
  proof -
    have "{t \<in> T. place (pc (rw_start req st) t) = k} = {}" using p that by force
    then show ?thesis unfolding places_def by (simp only: card.empty)
  qed
  then show ?thesis by (simp add: control_def) (simp add: rw_start_def)
qed

section \<open>The order of the calls\<close>

fun request_ok :: "request \<Rightarrow> bool" where
  "request_ok (Read_at cnt ofs) = (0 \<le> cnt \<and> 0 \<le> ofs)"
| "request_ok (Write_at buf cnt ofs) = (0 \<le> cnt \<and> 0 \<le> ofs \<and> nat cnt \<le> length buf)"

text \<open>The inode is open, its extent is on the disk and memory for the bounce buffers is there.\<close>

definition file_ok :: "addr \<Rightarrow> inode \<Rightarrow> fs \<Rightarrow> bool" where
  "file_ok i ip s \<longleftrightarrow> inodes s i = Some ip \<and> disk_ok s \<and> extent_ok s (data ip) \<and> mem_ok s A_bounce"

lemma iget_ok [simp]: "file_ok i ip s \<Longrightarrow> iget s i = Inr ip"
  by (simp add: file_ok_def iget_def)

lemma perform_ok:
  assumes "file_ok i ip s" "request_ok q"
  shows "\<exists>s' a. perform i s q = Inr (s', a) \<and> file_ok i ip s'"
proof (cases q)
  case (Read_at cnt ofs)
  then show ?thesis using inode_read_at_eq [of s i ip cnt ofs] assms by (auto simp: file_ok_def)
next
  case (Write_at buf cnt ofs)
  show ?thesis
  proof (cases "deny_write_cnt ip = 0")
    case True
    have w: "inodes s i = Some ip" "disk_ok s" "extent_ok s (data ip)" "mem_ok s A_bounce" "0 \<le> cnt" "0 \<le> ofs" "nat cnt \<le> length buf"
      using assms by (simp_all add: file_ok_def Write_at)
    obtain s' n bs where s': "inode_write_at s i buf cnt ofs = Inr (s', n)" "wrote s s' (data ip) (nat ofs) bs"
      using inode_write_at_eq [OF w True] by metis
    have "disk_ok s'" using s'(2) by (simp add: wrote_def)
    then have "file_ok i ip s'" using w(1,3,4) wrote_frame(1-3) [OF s'(2)] by (simp add: file_ok_def extent_ok_def)
    then show ?thesis using s'(1) by (simp add: Write_at)
  next
    case False
    then show ?thesis using assms by (auto simp: Write_at inode_write_at_def)
  qed
qed

fun answered :: "pc \<Rightarrow> answer option" where
  "answered (R_leave a) = Some (Read_answer a)" | "answered (R_dec a) = Some (Read_answer a)"
| "answered (R_last a) = Some (Read_answer a)" | "answered (R_open a) = Some (Read_answer a)"
| "answered (R_exit a) = Some (Read_answer a)" | "answered (W_unlock n) = Some (Write_answer n)"
| "answered (Done a) = Some a" | "answered _ = None"

text \<open>
  What is true of the place of one thread: \<open>s0\<close> is the store after the calls in the log, and what is
  left of a loop gives the result of the whole call.
\<close>

fun on_course :: "addr \<Rightarrow> inode \<Rightarrow> fs \<Rightarrow> fs \<Rightarrow> request \<Rightarrow> pc \<Rightarrow> bool" where
  "on_course i ip s0 s (Read_at cnt ofs) p = (case p of
     R_loop c q a \<Rightarrow> read_loop s ip c q a = inode_read_at s0 i cnt ofs
   | Done _ \<Rightarrow> True | _ \<Rightarrow> place p \<le> 10)"
| "on_course i ip s0 s (Write_at buf cnt ofs) p = (case p of
     W_lock \<Rightarrow> deny_write_cnt ip = 0
   | W_loop c q w \<Rightarrow> write_loop s ip buf c q w = inode_write_at s0 i buf cnt ofs
   | Done _ \<Rightarrow> True | _ \<Rightarrow> 11 \<le> place p)"

definition log_ok :: "nat set \<Rightarrow> rw \<Rightarrow> bool" where
  "log_ok T s \<longleftrightarrow> distinct (map fst (log s)) \<and> fst ` set (log s) \<subseteq> T \<and>
     (\<forall>t \<in> T. \<forall>a. answered (pc s t) = Some a \<longleftrightarrow> (t, a) \<in> set (log s))"

definition rw_ok :: "addr \<Rightarrow> inode \<Rightarrow> (nat \<Rightarrow> request) \<Rightarrow> nat set \<Rightarrow> fs \<Rightarrow> rw \<Rightarrow> bool" where
  "rw_ok i ip req T st s \<longleftrightarrow> controlled T s \<and> log_ok T s \<and> inodes (store s) i = Some ip \<and>
     (\<exists>s0. replay i req st (log s) = Some s0 \<and> file_ok i ip s0 \<and>
        ((\<forall>t \<in> T. place (pc s t) \<noteq> 13) \<longrightarrow> store s = s0) \<and>
        (\<forall>t \<in> T. on_course i ip s0 (store s) (req t) (pc s t)))"

lemma log_ok_goto:
  assumes "log_ok T s" "t \<in> T" "answered p = answered (pc s t)" "log s' = log s" "pc s' = (pc s)(t := p)"
  shows "log_ok T s'"
  using assms by (auto simp: log_ok_def)

lemma log_ok_answer:
  assumes "log_ok T s" "t \<in> T" "answered (pc s t) = None" "answered p = Some a"
    "log s' = log s @ [(t, a)]" "pc s' = (pc s)(t := p)"
  shows "log_ok T s'"
proof -
  have n: "t \<notin> fst ` set (log s)" using assms(1-3) by (fastforce simp: log_ok_def)
  then have "(t, b) \<notin> set (log s)" for b by force
  then show ?thesis using assms n by (auto simp: log_ok_def)
qed

text \<open>A step that changes neither the store nor the log.\<close>

lemma rw_ok_quiet:
  assumes "rw_ok i ip req T st s" "t \<in> T" "controlled T s'" "log s' = log s" "store s' = store s" "pc s' = (pc s)(t := p)"
    "answered p = answered (pc s t)" "place (pc s t) \<noteq> 13" 
    "\<And>s0. file_ok i ip s0 \<Longrightarrow> (place p = 13 \<or> place p = 5 \<longrightarrow> store s = s0) \<Longrightarrow>
       on_course i ip s0 (store s) (req t) (pc s t) \<Longrightarrow> on_course i ip s0 (store s) (req t) p"
    "place p = 13 \<or> place p = 5 \<Longrightarrow> \<forall>u \<in> T. place (pc s u) \<noteq> 13"
  shows "rw_ok i ip req T st s'"
proof -
  obtain s0 where s0: "replay i req st (log s) = Some s0" "file_ok i ip s0"
    "(\<forall>t \<in> T. place (pc s t) \<noteq> 13) \<longrightarrow> store s = s0" "\<forall>t \<in> T. on_course i ip s0 (store s) (req t) (pc s t)"
    using assms(1) by (auto simp: rw_ok_def)
  have "on_course i ip s0 (store s) (req t) p"
    using assms(9) [OF s0(2)] s0(3,4) assms(2,10) by blast
  moreover have "(\<forall>u \<in> T. place (pc s' u) \<noteq> 13) \<longrightarrow> store s = s0" using s0(3) assms(6,8) by auto
  ultimately show ?thesis
    using assms(1-7) s0 log_ok_goto [OF _ assms(2,7,4,6)] unfolding rw_ok_def by (intro conjI exI [of _ s0]) auto
qed

text \<open>A step that ends a call's loop, or the call: the store is then the one after the calls in the log.\<close>

lemma rw_ok_answer:
  assumes "rw_ok i ip req T st s" "t \<in> T" "controlled T s'" "log s' = log s @ [(t, a)]" "store s' = store s" "pc s' = (pc s)(t := p)"
    "answered p = Some a" "answered (pc s t) = None" "place p \<noteq> 5" "place p \<noteq> 12" "place p \<noteq> 13"
    "request_ok (req t)" "place p \<le> 10 \<Longrightarrow> \<exists>c q. req t = Read_at c q" "11 \<le> place p \<Longrightarrow> \<exists>b c q. req t = Write_at b c q"
    "\<And>s0. replay i req st (log s) = Some s0 \<Longrightarrow> file_ok i ip s0 \<Longrightarrow> ((\<forall>t \<in> T. place (pc s t) \<noteq> 13) \<Longrightarrow> store s = s0) \<Longrightarrow>
       on_course i ip s0 (store s) (req t) (pc s t) \<Longrightarrow> \<exists>s1. perform i s0 (req t) = Inr (s1, a) \<and>
         ((\<forall>u \<in> T. u = t \<or> place (pc s u) \<noteq> 13) \<longrightarrow> store s = s1) \<and>
         (s1 = s0 \<or> (\<forall>u \<in> T. u = t \<or> place (pc s u) \<noteq> 5 \<and> place (pc s u) \<noteq> 13))"
  shows "rw_ok i ip req T st s'"
proof -
  obtain s0 where s0: "replay i req st (log s) = Some s0" "file_ok i ip s0"
    "(\<forall>t \<in> T. place (pc s t) \<noteq> 13) \<longrightarrow> store s = s0" "\<forall>t \<in> T. on_course i ip s0 (store s) (req t) (pc s t)"
    using assms(1) by (auto simp: rw_ok_def)
  obtain s1 where s1: "perform i s0 (req t) = Inr (s1, a)" "(\<forall>u \<in> T. u = t \<or> place (pc s u) \<noteq> 13) \<longrightarrow> store s = s1"
    "s1 = s0 \<or> (\<forall>u \<in> T. u = t \<or> place (pc s u) \<noteq> 5 \<and> place (pc s u) \<noteq> 13)"
    using assms(15) [OF s0(1,2)] s0(3,4) assms(2) by blast
  have ok1: "file_ok i ip s1" using perform_ok [OF s0(2) assms(12)] s1(1) by simp
  have "on_course i ip s1 (store s) (req u) (pc s' u)" if "u \<in> T" for u
  proof (cases "u = t")
    case True
    then show ?thesis using assms(6,7,9-11,13,14) by (cases "req t"; cases p) auto
  next
    case False
    then have "on_course i ip s0 (store s) (req u) (pc s u)" "s1 = s0 \<or> place (pc s u) \<noteq> 5 \<and> place (pc s u) \<noteq> 13"
      using s0(4) s1(3) that by auto
    then show ?thesis using False assms(6) by (cases "req u"; cases "pc s u") auto
  qed
  moreover have "replay i req st (log s') = Some s1" using s0(1) s1(1) by (simp add: assms(4) replay_append)
  moreover have "(\<forall>u \<in> T. place (pc s' u) \<noteq> 13) \<longrightarrow> store s' = s1"
    using s1(2) assms(5,6) by (auto split: if_splits)
  moreover have "log_ok T s'" using log_ok_answer [OF _ assms(2,8,7,4,6)] assms(1) by (simp add: rw_ok_def)
  ultimately show ?thesis using assms(1,3,5) ok1 by (auto simp: rw_ok_def)
qed

lemma no_writer:
  assumes "finite T" "controlled T s" "t \<in> T" "place (pc s t) = 5 \<or> place (pc s t) = 4 \<or> 0 < w_sema s"
  shows "\<forall>u \<in> T. place (pc s u) \<noteq> 13"
proof (rule ccontr)
  assume "\<not> ?thesis"
  then obtain u where u: "u \<in> T" "place (pc s u) = 13" by blast
  then have "0 < places T (pc s) 13" using places_pos [OF assms(1) u(1), of "pc s"] by simp
  moreover have "0 < w_sema s \<or> 0 < places T (pc s) 4 + places T (pc s) 5"
    using places_pos [OF assms(1,3), of "pc s"] assms(4) by auto
  ultimately show False using assms(2) by (auto simp: control_def split: if_splits)
qed

lemma reader_ok:
  assumes "finite T" "t \<in> T" "rw_ok i ip req T st s" "req t = Read_at cnt ofs" "0 \<le> cnt" "0 \<le> ofs"
    "reader_step i s t cnt ofs = Some s'"
  shows "rw_ok i ip req T st s'"
proof -
  have ctl: "controlled T s" "controlled T s'"
    using assms(3) reader_control [OF assms(1,2) _ assms(7)] by (simp_all add: rw_ok_def)
  have iv: "iget (store s) i = Inr ip" using assms(3) by (simp add: rw_ok_def iget_def)
  note quiet = rw_ok_quiet [OF assms(3,2) ctl(2)]
  show ?thesis
  proof (cases "pc s t")
    case (R_loop c q a)
    have nw: "\<forall>u \<in> T. place (pc s u) \<noteq> 13" using no_writer [OF assms(1) ctl(1) assms(2)] R_loop by simp
    show ?thesis
    proof (cases "read_round (store s) ip c q a")
      case (Inl e)
      then show ?thesis using assms(7) iv R_loop by (simp add: reader_step_def reader_loop_step_def)
    next
      case (Inr r)
      then have rl: "read_loop (store s) ip c q a = (case r of None \<Rightarrow> Inr a | Some (c', q', a') \<Rightarrow> read_loop (store s) ip c' q' a')"
        by (subst read_loop_unfold) simp
      show ?thesis
      proof (cases r)
        case None
        have s': "s' = goto t (R_leave a) (answer_log t (Read_answer a) s)"
          using assms(7) iv R_loop Inr None by (simp add: reader_step_def reader_loop_step_def)
        show ?thesis
          by (rule rw_ok_answer [OF assms(3,2) ctl(2), where p = "R_leave a" and a = "Read_answer a"])
            (use s' R_loop assms(4-6) nw rl None in \<open>auto simp: file_ok_def\<close>)
      next
        case (Some x)
        obtain c' q' a' where x: "x = (c', q', a')" by (cases x)
        have s': "s' = goto t (R_loop c' q' a') s"
          using assms(7) iv R_loop Inr Some x by (simp add: reader_step_def reader_loop_step_def)
        show ?thesis
          by (rule quiet [where p = "R_loop c' q' a'"]) (use s' R_loop assms(4) nw rl Some x in auto)
      qed
    qed
  next
    case R_enter
    have nw: "\<forall>u \<in> T. place (pc s u) \<noteq> 13" using no_writer [OF assms(1) ctl(1) assms(2)] R_enter by simp
    show ?thesis
      by (rule quiet [where p = "R_loop cnt ofs []"])
        (use R_enter assms(4,7) nw in \<open>auto simp: reader_step_def inode_read_at_def\<close>)
  qed (rule quiet [where p = "pc s' t"]; use assms(7) in \<open>auto simp: reader_step_def assms(4) split: if_splits\<close>)+
qed

text \<open>A round of a writer: nobody else is in a loop.\<close>

lemma rw_ok_round:
  assumes "finite T" "t \<in> T" "rw_ok i ip req T st s" "req t = Write_at buf cnt ofs" "pc s t = W_loop c q w"
    "write_round (store s) ip buf c q w = Inr (Some (st', c', q', w'))"
    "s' = goto t (W_loop c' q' w') (s\<lparr>store := st'\<rparr>)" "controlled T s'"
  shows "rw_ok i ip req T st s'"
proof -
  obtain s0 where s0: "replay i req st (log s) = Some s0" "file_ok i ip s0"
    "\<forall>t \<in> T. on_course i ip s0 (store s) (req t) (pc s t)"
    using assms(3) by (auto simp: rw_ok_def)
  have ctl: "controlled T s" using assms(3) by (simp add: rw_ok_def)
  have t13: "place (pc s t) = 13" using assms(5) by simp
  note ex = exclusion [OF assms(1) ctl assms(2) t13]
  have "write_loop (store s) ip buf c q w = inode_write_at s0 i buf cnt ofs"
    using s0(3) assms(2) by (auto simp: assms(4,5) dest!: bspec [of T _ t])
  then have wl: "write_loop st' ip buf c' q' w' = inode_write_at s0 i buf cnt ofs"
    using assms(6) by (subst (asm) write_loop_unfold) simp
  have "on_course i ip s0 st' (req u) (pc s' u)" if "u \<in> T" for u
  proof (cases "u = t")
    case True
    then show ?thesis using wl by (simp add: assms(4,7))
  next
    case False
    then have "place (pc s u) \<noteq> 5" "place (pc s u) \<noteq> 13" using ex [OF that] by auto
    moreover have "on_course i ip s0 (store s) (req u) (pc s u)" using s0(3) that by blast
    ultimately show ?thesis using False by (cases "req u"; cases "pc s u") (auto simp: assms(7))
  qed
  moreover have "log_ok T s'"
    by (rule log_ok_goto [OF _ assms(2), of s "W_loop c' q' w'"]) (use assms(3) in \<open>simp_all add: rw_ok_def assms(5,7)\<close>)
  moreover have "inodes st' i = Some ip" using write_round_less [OF assms(6)] assms(3) by (simp add: rw_ok_def)
  moreover have "\<exists>u \<in> T. place (pc s' u) = 13" by (rule bexI [OF _ assms(2)]) (simp add: assms(7))
  moreover have "store s' = st'" "log s' = log s" by (simp_all add: assms(7))
  ultimately show ?thesis using s0(1,2) assms(8) unfolding rw_ok_def by auto
qed

lemma writer_ok:
  assumes "finite T" "t \<in> T" "rw_ok i ip req T st s" "req t = Write_at buf cnt ofs" "request_ok (req t)"
    "writer_step i s t buf cnt ofs = Some s'"
  shows "rw_ok i ip req T st s'"
proof -
  have ctl: "controlled T s" "controlled T s'"
    using assms(3) writer_control [OF assms(1,2) _ assms(6)] by (simp_all add: rw_ok_def)
  have iv: "iget (store s) i = Inr ip" using assms(3) by (simp add: rw_ok_def iget_def)
  note quiet = rw_ok_quiet [OF assms(3,2) ctl(2)]
  show ?thesis
  proof (cases "pc s t")
    case (W_loop c q w)
    have t13: "place (pc s t) = 13" using W_loop by simp
    note ex = exclusion [OF assms(1) ctl(1) assms(2) t13]
    show ?thesis
    proof (cases "write_round (store s) ip buf c q w")
      case (Inl e)
      then show ?thesis using assms(6) iv W_loop by (simp add: writer_step_def writer_loop_step_def)
    next
      case (Inr r)
      show ?thesis
      proof (cases r)
        case None
        have wl: "write_loop (store s) ip buf c q w = Inr (store s, w)" using Inr None by (subst write_loop_unfold) simp
        have s': "s' = goto t (W_unlock w) (answer_log t (Write_answer w) s)"
          using assms(6) iv W_loop Inr None by (simp add: writer_step_def writer_loop_step_def)
        show ?thesis
          by (rule rw_ok_answer [OF assms(3,2) ctl(2), where p = "W_unlock w" and a = "Write_answer w"])
            (use s' W_loop assms(4,5) wl ex in \<open>auto dest!: sym [of "Inr (store s, w)"]\<close>)
      next
        case (Some x)
        then obtain st' c' q' w' where x: "r = Some (st', c', q', w')" by (cases x) auto
        show ?thesis using assms(6) iv W_loop Inr x ctl(2)
          by (intro rw_ok_round [OF assms(1-4) W_loop]) (auto simp: writer_step_def writer_loop_step_def)
      qed
    qed
  next
    case W_lock
    then have w: "0 < w_sema s" using assms(6) by (simp add: writer_step_def split: if_splits)
    have nw: "\<forall>u \<in> T. place (pc s u) \<noteq> 13" using no_writer [OF assms(1) ctl(1) assms(2)] w by simp
    show ?thesis
      by (rule quiet [where p = "W_loop cnt ofs 0"])
        (use W_lock assms(4,6) nw w in \<open>auto simp: writer_step_def inode_write_at_def\<close>)
  next
    case W_start
    show ?thesis
    proof (cases "deny_write_cnt ip = 0")
      case True
      then show ?thesis using W_start assms(4,6) iv
        by (intro quiet [where p = W_lock]) (auto simp: writer_step_def)
    next
      case False
      then have s': "s' = goto t (Done (Write_answer 0)) (answer_log t (Write_answer 0) s)"
        using W_start assms(6) iv by (simp add: writer_step_def)
      have all: "(\<forall>u \<in> T. u = t \<or> place (pc s u) \<noteq> 13) \<Longrightarrow> (\<forall>u \<in> T. place (pc s u) \<noteq> 13)" using W_start by auto
      show ?thesis
        by (rule rw_ok_answer [OF assms(3,2) ctl(2), where p = "Done (Write_answer 0)" and a = "Write_answer 0"])
          (use s' W_start assms(4,5) False all in \<open>auto simp: inode_write_at_def\<close>)
    qed
  qed (rule quiet [where p = "pc s' t"]; use assms(6) in \<open>auto simp: writer_step_def assms(4) split: if_splits\<close>)+
qed

lemma rw_step_ok:
  assumes "finite T" "t \<in> T" "rw_ok i ip req T st s" "request_ok (req t)" "rw_step i req s t = Some s'"
  shows "rw_ok i ip req T st s'"
  using assms reader_ok [OF assms(1-3)] writer_ok [OF assms(1-3)] by (cases "req t") (auto simp: rw_step_def)

lemma rw_start_ok:
  assumes "finite T" "file_ok i ip st"
  shows "rw_ok i ip req T st (rw_start req st)"
proof -
  have c: "on_course i ip st st (req t) (pc (rw_start req st) t)" "answered (pc (rw_start req st) t) = None" for t
    by (cases "req t"; simp add: rw_start_def)+
  have l: "log (rw_start req st) = []" "store (rw_start req st) = st" by (simp_all add: rw_start_def)
  have "log_ok T (rw_start req st)" using c(2) l by (simp add: log_ok_def)
  moreover have "inodes st i = Some ip" using assms(2) by (simp add: file_ok_def)
  ultimately show ?thesis using start_control [OF assms(1)] assms(2) c(1) l by (simp add: rw_ok_def)
qed

lemma rw_run_ok:
  assumes "finite T" "file_ok i ip st" "\<forall>t \<in> T. request_ok (req t)" "rw_run i req T st n s"
  shows "rw_ok i ip req T st s"
  using assms(4) by induction (auto intro: rw_start_ok rw_step_ok assms(1-3) [rule_format])

section \<open>Every call returns\<close>

text \<open>An upper bound of the steps that a thread has left.\<close>

fun req_size :: "request \<Rightarrow> nat" where
  "req_size (Read_at cnt ofs) = nat cnt"
| "req_size (Write_at buf cnt ofs) = nat cnt"

fun left :: "nat \<Rightarrow> pc \<Rightarrow> nat" where
  "left n (R_loop c q a) = nat c + 6"
| "left n (W_loop c q w) = nat c + 2"
| "left n (Done a) = 0"
| "left n p = (if place p \<le> 4 then n + 11 - place p else if place p \<le> 10 then 11 - place p
    else if place p \<le> 12 then n + 15 - place p else 1)"

definition work :: "nat set \<Rightarrow> (nat \<Rightarrow> request) \<Rightarrow> rw \<Rightarrow> nat" where
  "work T req s = (\<Sum>t \<in> T. left (req_size (req t)) (pc s t))"

lemma work_less:
  assumes "finite T" "t \<in> T" "pc s' = (pc s)(t := p)" "left (req_size (req t)) p < left (req_size (req t)) (pc s t)"
  shows "work T req s' < work T req s"
  unfolding work_def
  by (rule sum_strict_mono_ex1 [OF assms(1)]) (use assms(2-4) in \<open>auto intro!: bexI [of _ t]\<close>)

lemma step_left:
  assumes "rw_step i req s t = Some s'"
  shows "\<exists>p. pc s' = (pc s)(t := p) \<and> left (req_size (req t)) p < left (req_size (req t)) (pc s t)"
proof (cases "req t")
  case (Read_at cnt ofs)
  show ?thesis
    by (cases "pc s t") (use assms Read_at in \<open>auto simp: rw_step_def reader_step_def reader_loop_step_def
        split: if_splits sum.splits option.splits prod.splits dest!: read_round_less\<close>)
next
  case (Write_at buf cnt ofs)
  show ?thesis
    by (cases "pc s t") (use assms Write_at in \<open>auto simp: rw_step_def writer_step_def writer_loop_step_def
        split: if_splits sum.splits option.splits prod.splits dest!: write_round_less\<close>)
qed

lemma rw_run_work:
  assumes "finite T" "rw_run i req T st n s"
  shows "n + work T req s \<le> work T req (rw_start req st)"
  using assms(2)
proof induction
  case (step n s t s')
  then show ?case using step_left [OF step(3)] work_less [OF assms(1) step(2), of s' s] by fastforce
qed simp

text \<open>A thread can go on unless it waits for a semaphore.\<close>

lemma loops_go_on:
  assumes "rw_ok i ip req T st s" "t \<in> T" "request_ok (req t)" "place (pc s t) = 5 \<or> place (pc s t) = 13 \<or> place (pc s t) = 11"
  shows "rw_step i req s t \<noteq> None"
proof -
  obtain s0 where s0: "file_ok i ip s0" "on_course i ip s0 (store s) (req t) (pc s t)"
    using assms(1,2) by (auto simp: rw_ok_def)
  have iv: "iget (store s) i = Inr ip" using assms(1) by (simp add: rw_ok_def iget_def)
  obtain s1 a where p: "perform i s0 (req t) = Inr (s1, a)" using perform_ok [OF s0(1) assms(3)] by blast
  show ?thesis
  proof (cases "req t")
    case (Read_at cnt ofs)
    with s0(2) assms(4) obtain c q a where r: "pc s t = R_loop c q a" "read_loop (store s) ip c q a = inode_read_at s0 i cnt ofs"
      by (cases "pc s t") auto
    have "\<exists>r. read_round (store s) ip c q a = Inr r"
      using p r(2) Read_at by (subst (asm) read_loop_unfold) auto
    then show ?thesis using r(1) iv Read_at
      by (auto simp: rw_step_def reader_step_def reader_loop_step_def split: option.splits prod.splits)
  next
    case (Write_at buf cnt ofs)
    show ?thesis
    proof (cases "pc s t = W_start")
      case True
      then show ?thesis using iv Write_at by (auto simp: rw_step_def writer_step_def)
    next
      case False
      with s0(2) assms(4) Write_at obtain c q w where w: "pc s t = W_loop c q w"
          "write_loop (store s) ip buf c q w = inode_write_at s0 i buf cnt ofs"
        by (cases "pc s t") auto
      have "\<exists>r. write_round (store s) ip buf c q w = Inr r"
        using p w(2) Write_at by (subst (asm) write_loop_unfold) auto
      then show ?thesis using w(1) iv Write_at
        by (auto simp: rw_step_def writer_step_def writer_loop_step_def split: option.splits prod.splits)
    qed
  qed
qed

lemma goes_on:
  assumes "rw_ok i ip req T st s" "t \<in> T" "request_ok (req t)" "place (pc s t) \<noteq> 15"
    "place (pc s t) \<in> {0, 6} \<Longrightarrow> 0 < r_sema s" "place (pc s t) \<in> {2, 12} \<Longrightarrow> 0 < w_sema s"
  shows "rw_step i req s t \<noteq> None"
proof (cases "place (pc s t) = 5 \<or> place (pc s t) = 13 \<or> place (pc s t) = 11")
  case True
  then show ?thesis by (rule loops_go_on [OF assms(1-3)])
next
  case False
  obtain s0 where "on_course i ip s0 (store s) (req t) (pc s t)" using assms(1,2) by (auto simp: rw_ok_def)
  then show ?thesis using False assms(4-6)
    by (cases "req t"; cases "pc s t") (auto simp: rw_step_def reader_step_def writer_step_def)
qed

text \<open>No deadlock: as long as a call has not returned, some thread can go on.\<close>

lemma some_goes_on:
  assumes "finite T" "rw_ok i ip req T st s" "\<forall>t \<in> T. request_ok (req t)" "u \<in> T" "place (pc s u) \<noteq> 15"
  shows "\<exists>t \<in> T. rw_step i req s t \<noteq> None"
proof -
  define c where "c = places T (pc s)"
  have ctl: "control (r_sema s) (w_sema s) (n_readers s) c" using assms(2) by (simp add: rw_ok_def c_def)
  have go: "\<exists>t \<in> T. rw_step i req s t \<noteq> None" if "0 < c k" "k \<noteq> 15" "k = 0 \<or> k = 6 \<Longrightarrow> 0 < r_sema s" "k = 2 \<or> k = 12 \<Longrightarrow> 0 < w_sema s" for k
    using places_ex [of T "pc s" k] goes_on [OF assms(2)] assms(3) that by (fastforce simp: c_def)
  show ?thesis
  proof (cases "\<exists>k \<in> {1, 3, 4, 5, 7, 8, 9, 10, 11, 13, 14}. 0 < c k")
    case True
    then obtain k where "k \<in> {1, 3, 4, 5, 7, 8, 9, 10, 11, 13, 14}" "0 < c k" by blast
    then show ?thesis by (intro go [of k]) auto
  next
    case False
    then have z: "r_sema s + c 2 = 1" "n_readers s = int (c 6)" "w_sema s + (if 0 < c 6 then 1 else 0) = 1" "0 < c 2 \<longrightarrow> c 6 = 0"
      using ctl by (auto simp: control_def split: if_splits)
    define k where "k = place (pc s u)"
    have "0 < c k" using places_pos [OF assms(1,4), of "pc s"] by (simp add: c_def k_def)
    moreover have "k < 16" by (cases "pc s u") (simp_all add: k_def)
    ultimately have "0 < c 0 \<or> 0 < c 2 \<or> 0 < c 6 \<or> 0 < c 12"
      using False assms(5) by (fastforce simp: k_def [symmetric] less_Suc_eq numeral_eq_Suc)
    then show ?thesis
      using z go [of 0] go [of 2] go [of 6] go [of 12] by (cases "0 < c 2"; cases "0 < c 6") auto
  qed
qed

section \<open>Properties\<close>

text \<open>
  C5. Concurrent calls of \<^verbatim>\<open>inode_read_at\<close> and \<^verbatim>\<open>inode_write_at\<close> on one inode refine atomic ones:
  however the steps of any number of threads interleave, there is an order of the calls that have
  left their loops, each once, such that performing these calls one after the other as single
  steps gives every thread the answer it got, and, when no writer is in its loop, the disk that
  there is now. While a writer is in its loop, no reader and no other writer is.
\<close>

theorem rw_linearizable:
  assumes "finite T" "file_ok i ip st" "\<forall>t \<in> T. request_ok (req t)" "rw_run i req T st n s"
  shows "\<exists>s0. replay i req st (log s) = Some s0 \<and> distinct (map fst (log s)) \<and>
    (\<forall>t \<in> T. \<forall>a. pc s t = Done a \<longrightarrow> (t, a) \<in> set (log s)) \<and>
    ((\<forall>t \<in> T. place (pc s t) \<noteq> place (W_loop 0 0 0)) \<longrightarrow> store s = s0) \<and>
    (\<forall>t \<in> T. \<forall>u \<in> T. place (pc s t) = place (W_loop 0 0 0) \<longrightarrow>
       place (pc s u) \<noteq> place (R_loop 0 0 []) \<and> (place (pc s u) = place (W_loop 0 0 0) \<longrightarrow> u = t))"
proof -
  have ok: "rw_ok i ip req T st s" by (rule rw_run_ok [OF assms])
  then have ctl: "controlled T s" and log: "log_ok T s" by (simp_all add: rw_ok_def)
  have "(t, a) \<in> set (log s)" if "t \<in> T" "pc s t = Done a" for t a
  proof -
    have "answered (pc s t) = Some a" using that(2) by simp
    then show ?thesis using log that(1) unfolding log_ok_def by blast
  qed
  moreover have "distinct (map fst (log s))" using log by (simp add: log_ok_def)
  ultimately show ?thesis using ok exclusion [OF assms(1) ctl] by (auto simp: rw_ok_def)
qed

text \<open>
  C18. Every call returns: a run of the threads never takes more steps than a bound that only depends
  on the sizes asked for, and in every state that a run reaches some thread can take a step,
  without a failing assertion, unless all calls have returned. So there is no deadlock between
  \<^verbatim>\<open>r_sema\<close> and \<^verbatim>\<open>w_sema\<close>, and whatever thread is chosen at each step, all calls come to their end.
\<close>

theorem rw_all_return:
  assumes "finite T" "file_ok i ip st" "\<forall>t \<in> T. request_ok (req t)" "rw_run i req T st n s"
  shows "n \<le> (\<Sum>t \<in> T. req_size (req t) + 11) \<and>
    ((\<exists>t \<in> T. rw_step i req s t \<noteq> None) \<or> (\<forall>t \<in> T. \<exists>a. pc s t = Done a))"
proof
  have "n \<le> work T req (rw_start req st)" using rw_run_work [OF assms(1,4)] by simp
  also have "\<dots> \<le> (\<Sum>t \<in> T. req_size (req t) + 11)"
    unfolding work_def by (rule sum_mono) (simp add: rw_start_def split: request.split)
  finally show "n \<le> (\<Sum>t \<in> T. req_size (req t) + 11)" .
  have "\<exists>a. p = Done a" if "place p = 15" for p using that by (cases p) simp_all
  then show "(\<exists>t \<in> T. rw_step i req s t \<noteq> None) \<or> (\<forall>t \<in> T. \<exists>a. pc s t = Done a)"
    using some_goes_on [OF assms(1) rw_run_ok [OF assms] assms(3)] by blast
qed

definition ex_req :: "nat \<Rightarrow> request" where
  "ex_req t = (if t = 0 then Write_at [1, 2, 3] 3 511 else Read_at 4 510)"

lemma ex_file_ok: "file_ok 100 (the (inodes ex_fs 100)) ex_fs"
  using ex_fs_ok by (simp add: file_ok_def) (simp add: ex_fs_def)

theorem rw_linearizable_witness:
  "\<exists>s0. replay 100 ex_req ex_fs (log (rw_start ex_req ex_fs)) = Some s0 \<and> store (rw_start ex_req ex_fs) = s0"
proof -
  have "rw_run 100 ex_req {0, 1, 2} ex_fs 0 (rw_start ex_req ex_fs)" by (rule rw_run.start)
  from rw_linearizable [OF _ ex_file_ok _ this] show ?thesis
    by (auto simp: ex_req_def rw_start_def)
qed

theorem rw_all_return_witness:
  "\<exists>s n t. rw_run 100 ex_req {0, 1, 2} ex_fs (Suc n) s \<and> Suc n \<le> (\<Sum>t \<in> {0, 1, 2}. req_size (ex_req t) + 11) \<and>
    rw_step 100 ex_req s t \<noteq> None"
proof -
  define s where "s = goto 1 R_test ((rw_start ex_req ex_fs)\<lparr>r_sema := 0\<rparr>)"
  have "rw_step 100 ex_req (rw_start ex_req ex_fs) 1 = Some s"
    by (simp add: rw_step_def ex_req_def reader_step_def rw_start_def s_def)
  then have run: "rw_run 100 ex_req {0, 1, 2} ex_fs (Suc 0) s" by (rule rw_run.step [OF rw_run.start, of 1, rotated]) simp
  have "pc s 0 = W_start" by (simp add: s_def rw_start_def ex_req_def)
  moreover have "\<forall>t \<in> {0, 1, 2}. request_ok (ex_req t)" by (simp add: ex_req_def)
  ultimately show ?thesis using rw_all_return [OF _ ex_file_ok _ run] run by fastforce
qed

end
