(* ===== verification/FreeMap.thy ===== *)
theory FreeMap
  imports Inode
begin

text \<open>
  The free map of \<^verbatim>\<open>filesys/free-map.c\<close>, with the functions of \<^verbatim>\<open>lib/kernel/bitmap.c\<close> that keep a
  bitmap in a file; creating and closing inodes (\<^verbatim>\<open>filesys/inode.c\<close>), which allocate and release
  sectors; and open files (\<^verbatim>\<open>filesys/file.c\<close>). A released object is taken out of the tables of the
  state, so that a later use of its address is a \<open>Bad_access\<close>.
\<close>

section \<open>Bitmaps in files\<close>

definition fget :: "fs \<Rightarrow> addr \<Rightarrow> open_file outcome" where
  "fget s f = (case files s f of Some fl \<Rightarrow> Inr fl | None \<Rightarrow> Inl Bad_access)"

definition fput :: "addr \<Rightarrow> open_file \<Rightarrow> fs \<Rightarrow> fs" where
  "fput f fl s = s\<lparr>files := (files s)(f \<mapsto> fl)\<rparr>"

definition file_read_at :: "fs \<Rightarrow> addr \<Rightarrow> int \<Rightarrow> int \<Rightarrow> u8 list outcome" where
  "file_read_at s f cnt file_ofs = kbind (fget s f) (\<lambda>fl. inode_read_at s (finode fl) cnt file_ofs)"

definition file_write_at :: "fs \<Rightarrow> addr \<Rightarrow> u8 list \<Rightarrow> int \<Rightarrow> int \<Rightarrow> (fs \<times> int) outcome" where
  "file_write_at s f buffer cnt file_ofs =
     kbind (fget s f) (\<lambda>fl. inode_write_at s (finode fl) buffer cnt file_ofs)"

text \<open>The elements of a bitmap as bytes in memory, and back.\<close>

definition bitmap_bytes :: "bitmap \<Rightarrow> u8 list" where
  "bitmap_bytes b = concat (map (\<lambda>w. le32 (unat w)) (bits b))"

fun words_of :: "u8 list \<Rightarrow> u32 list" where
  "words_of (a # b # c # d # bs) = of_nat (de32 [a, b, c, d]) # words_of bs"
| "words_of bs = []"

definition bitmap_file_size :: "bitmap \<Rightarrow> nat" where
  "bitmap_file_size b = byte_cnt (bit_cnt b)"

definition bitmap_read :: "bitmap \<Rightarrow> addr \<Rightarrow> fs \<Rightarrow> (bitmap \<times> bool) outcome" where
  "bitmap_read b f s =
     (if bit_cnt b > 0
      then let cnt = int (byte_cnt (bit_cnt b)); lst = elem_cnt (bit_cnt b) - 1
           in kbind (file_read_at s f cnt 0) (\<lambda>bs.
              let ws = words_of (splice (bitmap_bytes b) 0 bs)
              in kbind (arr_get ws lst) (\<lambda>w.
                 kbind (arr_set ws lst (w AND last_mask b)) (\<lambda>ws.
                   Inr (b\<lparr>bits := ws\<rparr>, int (length bs) = cnt))))
      else Inr (b, True))"

definition bitmap_write :: "bitmap \<Rightarrow> addr \<Rightarrow> fs \<Rightarrow> (fs \<times> bool) outcome" where
  "bitmap_write b f s =
     (let cnt = int (byte_cnt (bit_cnt b))
      in kbind (file_write_at s f (bitmap_bytes b) cnt 0) (\<lambda>r. Inr (fst r, snd r = cnt)))"

section \<open>The free map\<close>

definition FREE_MAP_SECTOR :: nat where "FREE_MAP_SECTOR = 0"
definition ROOT_DIR_SECTOR :: nat where "ROOT_DIR_SECTOR = 1"

text \<open>\<open>struct_ok\<close> and \<open>mem\<close> are what the two allocations of \<^verbatim>\<open>bitmap_create\<close> return.\<close>

definition free_map_init :: "bool \<Rightarrow> u32 list option \<Rightarrow> fs \<Rightarrow> fs outcome" where
  "free_map_init struct_ok mem s =
     kbind (bitmap_create (capacity s) struct_ok mem) (\<lambda>fm. case fm of
       None \<Rightarrow> Inl Kernel_panic
     | Some b \<Rightarrow> kbind (bitmap_mark b FREE_MAP_SECTOR) (\<lambda>b.
                kbind (bitmap_mark b ROOT_DIR_SECTOR) (\<lambda>b. Inr (s\<lparr>free_map := b\<rparr>))))"

definition free_map_allocate :: "fs \<Rightarrow> nat \<Rightarrow> (fs \<times> nat option) outcome" where
  "free_map_allocate s cnt =
     kbind (bitmap_scan_and_flip (free_map s) 0 cnt False) (\<lambda>r.
       let s = s\<lparr>free_map := fst r\<rparr>; sec = snd r
       in if sec \<noteq> BITMAP_ERROR \<and> free_map_file s \<noteq> NULL
          then kbind (bitmap_write (free_map s) (free_map_file s) s) (\<lambda>w.
                 if \<not> snd w
                 then kbind (bitmap_set_multiple (free_map (fst w)) sec cnt False) (\<lambda>b.
                        Inr ((fst w)\<lparr>free_map := b\<rparr>, None))
                 else Inr (fst w, Some sec))
          else Inr (s, if sec \<noteq> BITMAP_ERROR then Some sec else None))"

definition free_map_release :: "fs \<Rightarrow> nat \<Rightarrow> nat \<Rightarrow> fs outcome" where
  "free_map_release s sec cnt =
     kbind (bitmap_all (free_map s) sec cnt) (\<lambda>a.
     kbind (kassert a) (\<lambda>_.
     kbind (bitmap_set_multiple (free_map s) sec cnt False) (\<lambda>b.
     let s = s\<lparr>free_map := b\<rparr>
     in kbind (bitmap_write (free_map s) (free_map_file s) s) (\<lambda>w. Inr (fst w)))))"

section \<open>Creating and closing inodes\<close>

fun zero_sectors :: "fs \<Rightarrow> nat \<Rightarrow> nat \<Rightarrow> fs outcome" where
  "zero_sectors s sec 0 = Inr s"
| "zero_sectors s sec (Suc n) =
     kbind (disk_write s sec (replicate (nat DISK_SECTOR_SIZE) 0)) (\<lambda>s. zero_sectors s (sz (sec + 1)) n)"

definition inode_create :: "fs \<Rightarrow> nat \<Rightarrow> int \<Rightarrow> (fs \<times> bool) outcome" where
  "inode_create s sec l =
     kbind (kassert (l \<ge> 0)) (\<lambda>_.
       if mem_ok s A_inode_disk
       then let cnt = bytes_to_sectors l
            in kbind (free_map_allocate s cnt) (\<lambda>r. case snd r of
                 None \<Rightarrow> Inr (fst r, False)
               | Some st \<Rightarrow>
                   kbind (disk_write (fst r) sec (inode_disk_bytes \<lparr>start = st, len = l, imagic = INODE_MAGIC\<rparr>)) (\<lambda>s.
                   kbind (if cnt > 0 then zero_sectors s st cnt else Inr s) (\<lambda>s. Inr (s, True))))
       else Inr (s, False))"

definition inode_close :: "fs \<Rightarrow> addr \<Rightarrow> fs outcome" where
  "inode_close s i =
     (if i = NULL then Inr s
      else kbind (iget s i) (\<lambda>ip.
        let ip = ip\<lparr>open_cnt := open_cnt ip - 1\<rparr>; s = iput i ip s
        in if open_cnt ip = 0
           then let s = s\<lparr>open_inodes := remove1 i (open_inodes s)\<rparr>
                in kbind (if removed ip
                          then kbind (free_map_release s (sector ip) 1) (\<lambda>s.
                               free_map_release s (start (data ip)) (bytes_to_sectors (len (data ip))))
                          else Inr s) (\<lambda>s. Inr (s\<lparr>inodes := (inodes s)(i := None)\<rparr>))
           else Inr s))"

section \<open>Open files\<close>

definition file_open :: "fs \<Rightarrow> addr \<Rightarrow> (fs \<times> addr) outcome" where
  "file_open s i =
     (if i \<noteq> NULL \<and> mem_ok s A_file
      then let f = brk s
           in Inr (fput f \<lparr>finode = i, pos = 0, deny_write = False\<rparr> (s\<lparr>brk := brk s + 1\<rparr>), f)
      else kbind (inode_close s i) (\<lambda>s. Inr (s, NULL)))"

definition file_reopen :: "fs \<Rightarrow> addr \<Rightarrow> (fs \<times> addr) outcome" where
  "file_reopen s f =
     kbind (fget s f) (\<lambda>fl. kbind (inode_reopen s (finode fl)) (\<lambda>r. file_open (fst r) (snd r)))"

definition file_deny_write :: "fs \<Rightarrow> addr \<Rightarrow> fs outcome" where
  "file_deny_write s f =
     kbind (kassert (f \<noteq> NULL)) (\<lambda>_. kbind (fget s f) (\<lambda>fl.
       if \<not> deny_write fl then inode_deny_write (fput f (fl\<lparr>deny_write := True\<rparr>) s) (finode fl) else Inr s))"

definition file_allow_write :: "fs \<Rightarrow> addr \<Rightarrow> fs outcome" where
  "file_allow_write s f =
     kbind (kassert (f \<noteq> NULL)) (\<lambda>_. kbind (fget s f) (\<lambda>fl.
       if deny_write fl then inode_allow_write (fput f (fl\<lparr>deny_write := False\<rparr>) s) (finode fl) else Inr s))"

definition file_close :: "fs \<Rightarrow> addr \<Rightarrow> fs outcome" where
  "file_close s f =
     (if f \<noteq> NULL
      then kbind (file_allow_write s f) (\<lambda>s. kbind (fget s f) (\<lambda>fl.
           kbind (inode_close s (finode fl)) (\<lambda>s. Inr (s\<lparr>files := (files s)(f := None)\<rparr>))))
      else Inr s)"

definition file_get_inode :: "fs \<Rightarrow> addr \<Rightarrow> addr outcome" where
  "file_get_inode s f = kbind (fget s f) (\<lambda>fl. Inr (finode fl))"

definition file_read :: "fs \<Rightarrow> addr \<Rightarrow> int \<Rightarrow> (fs \<times> u8 list) outcome" where
  "file_read s f cnt =
     kbind (fget s f) (\<lambda>fl. kbind (inode_read_at s (finode fl) cnt (pos fl)) (\<lambda>bs.
       Inr (fput f (fl\<lparr>pos := pos fl + int (length bs)\<rparr>) s, bs)))"

definition file_write :: "fs \<Rightarrow> addr \<Rightarrow> u8 list \<Rightarrow> int \<Rightarrow> (fs \<times> int) outcome" where
  "file_write s f buffer cnt =
     kbind (fget s f) (\<lambda>fl. kbind (inode_write_at s (finode fl) buffer cnt (pos fl)) (\<lambda>r.
       Inr (fput f (fl\<lparr>pos := pos fl + snd r\<rparr>) (fst r), snd r)))"

definition file_length :: "fs \<Rightarrow> addr \<Rightarrow> int outcome" where
  "file_length s f =
     kbind (kassert (f \<noteq> NULL)) (\<lambda>_. kbind (fget s f) (\<lambda>fl. kbind (iget s (finode fl)) (\<lambda>ip. Inr (inode_length ip))))"

definition file_seek :: "fs \<Rightarrow> addr \<Rightarrow> int \<Rightarrow> fs outcome" where
  "file_seek s f new_pos =
     kbind (kassert (f \<noteq> NULL)) (\<lambda>_. kbind (kassert (new_pos \<ge> 0)) (\<lambda>_.
     kbind (fget s f) (\<lambda>fl. Inr (fput f (fl\<lparr>pos := new_pos\<rparr>) s))))"

definition file_tell :: "fs \<Rightarrow> addr \<Rightarrow> int outcome" where
  "file_tell s f = kbind (kassert (f \<noteq> NULL)) (\<lambda>_. kbind (fget s f) (\<lambda>fl. Inr (pos fl)))"

section \<open>The free map on disk\<close>

definition free_map_open :: "fs \<Rightarrow> fs outcome" where
  "free_map_open s =
     kbind (inode_open s FREE_MAP_SECTOR) (\<lambda>i.
     kbind (file_open (fst i) (snd i)) (\<lambda>f.
     let s = (fst f)\<lparr>free_map_file := snd f\<rparr>
     in if free_map_file s = NULL then Inl Kernel_panic
        else kbind (bitmap_read (free_map s) (free_map_file s) s) (\<lambda>r.
          if \<not> snd r then Inl Kernel_panic else Inr (s\<lparr>free_map := fst r\<rparr>))))"

definition free_map_close :: "fs \<Rightarrow> fs outcome" where
  "free_map_close s = file_close s (free_map_file s)"

definition free_map_create :: "fs \<Rightarrow> fs outcome" where
  "free_map_create s =
     kbind (inode_create s FREE_MAP_SECTOR (int (bitmap_file_size (free_map s)))) (\<lambda>c.
       if \<not> snd c then Inl Kernel_panic
       else kbind (inode_open (fst c) FREE_MAP_SECTOR) (\<lambda>i.
            kbind (file_open (fst i) (snd i)) (\<lambda>f.
            let s = (fst f)\<lparr>free_map_file := snd f\<rparr>
            in if free_map_file s = NULL then Inl Kernel_panic
               else kbind (bitmap_write (free_map s) (free_map_file s) s) (\<lambda>r.
                 if \<not> snd r then Inl Kernel_panic else Inr (fst r)))))"

section \<open>The free map as an allocator of sectors\<close>

lemma words_of_bytes: "words_of (concat (map (\<lambda>w. le32 (unat w)) ws) @ rest) = ws @ words_of rest"
proof (induction ws)
  case (Cons w ws)
  have "de32 (le32 (unat w)) = unat w" using de32_le32 [OF unat_u32_less, of w "[]"] by simp
  with Cons show ?case by (simp add: le32_def)
qed simp

lemma words_of_bitmap_bytes [simp]: "words_of (bitmap_bytes b) = bits b"
  using words_of_bytes [of "bits b" "[]"] by (simp add: bitmap_bytes_def)

lemma length_bitmap_bytes [simp]: "length (bitmap_bytes b) = 4 * length (bits b)"
  by (simp add: bitmap_bytes_def length_concat comp_def sum_list_triv)

lemma byte_cnt_eq: "bitmap_ok b \<Longrightarrow> byte_cnt (bit_cnt b) = 4 * elem_cnt (bit_cnt b)"
  using div_le_mono [of "bit_cnt b + 31" 4294967295 32]
  by (simp add: byte_cnt_def bitmap_ok_def elem_cnt_def ELEM_BITS_def DIV_ROUND_UP_eq)

lemma byte_cnt_le: "bitmap_ok b \<Longrightarrow> byte_cnt (bit_cnt b) \<le> 4 * length (bits b)"
  by (simp add: byte_cnt_eq bitmap_ok_def)

definition used_sectors :: "fs \<Rightarrow> nat set" where
  "used_sectors s = {i. i < bit_cnt (free_map s) \<and> bools (free_map s) ! i}"

text \<open>The inode of the free map file.\<close>

definition map_inode :: "fs \<Rightarrow> inode" where
  "map_inode s = the (inodes s (finode (the (files s (free_map_file s)))))"

text \<open>
  The state in which the free map is in use: there is a bit for each sector, and the file of the
  free map is open, has room for the bits and may be written.
\<close>

definition freemap_ok :: "fs \<Rightarrow> bool" where
  "freemap_ok s \<longleftrightarrow> disk_ok s \<and> mem_ok s A_bounce \<and> bitmap_ok (free_map s) \<and> bit_cnt (free_map s) = capacity s \<and>
     free_map_file s \<noteq> NULL \<and> files s (free_map_file s) \<noteq> None \<and>
     inodes s (finode (the (files s (free_map_file s)))) \<noteq> None \<and>
     deny_write_cnt (map_inode s) = 0 \<and> extent_ok s (data (map_inode s)) \<and>
     len (data (map_inode s)) = int (byte_cnt (bit_cnt (free_map s)))"

text \<open>The file holds the bits that are in memory.\<close>

definition synced :: "fs \<Rightarrow> bool" where
  "synced s \<longleftrightarrow> contents s (data (map_inode s)) = take (byte_cnt (bit_cnt (free_map s))) (bitmap_bytes (free_map s))"

text \<open>What an update of the free map leaves alone.\<close>

definition map_updated :: "fs \<Rightarrow> fs \<Rightarrow> bool" where
  "map_updated s s' \<longleftrightarrow> s' = s\<lparr>free_map := free_map s', disk := disk s'\<rparr> \<and>
     (\<forall>sec. sec \<notin> sectors (data (map_inode s)) \<longrightarrow> disk s' sec = disk s sec)"

lemma set_map_simps [simp]:
  "map_inode (s\<lparr>free_map := b\<rparr>) = map_inode s"
  "disk_ok (s\<lparr>free_map := b\<rparr>) = disk_ok s"
  "extent_ok (s\<lparr>free_map := b\<rparr>) d = extent_ok s d"
  by (simp_all add: map_inode_def disk_ok_def extent_ok_def)

lemma freemap_ok_frame:
  assumes "freemap_ok s" "disk_ok s'" "capacity s' = capacity s" "mem_ok s' = mem_ok s" "free_map s' = free_map s"
    "free_map_file s' = free_map_file s" "files s' = files s"
    "inodes s' (finode (the (files s (free_map_file s)))) = inodes s (finode (the (files s (free_map_file s))))"
  shows "freemap_ok s'" "map_inode s' = map_inode s"
proof -
  show m: "map_inode s' = map_inode s" using assms by (simp add: map_inode_def)
  have "extent_ok s' d = extent_ok s d" for d by (simp add: extent_ok_def assms(3))
  then show "freemap_ok s'" using assms unfolding freemap_ok_def m by simp
qed

lemma freemap_ok_set_map:
  "freemap_ok s \<Longrightarrow> bitmap_ok b \<Longrightarrow> bit_cnt b = bit_cnt (free_map s) \<Longrightarrow> freemap_ok (s\<lparr>free_map := b\<rparr>)"
  by (simp add: freemap_ok_def)

lemma bitmap_write_ok:
  assumes "freemap_ok s"
  obtains s' where "bitmap_write (free_map s) (free_map_file s) s = Inr (s', True)" "freemap_ok s'" "synced s'"
    "free_map s' = free_map s" "map_updated s s'"
proof -
  define f where "f = the (files s (free_map_file s))"
  define cnt where "cnt = byte_cnt (bit_cnt (free_map s))"
  have f: "files s (free_map_file s) = Some f" "inodes s (finode f) = Some (map_inode s)"
    using assms by (auto simp: freemap_ok_def f_def map_inode_def)
  have cnt: "cnt \<le> length (bitmap_bytes (free_map s))" "len (data (map_inode s)) = int cnt"
    using assms byte_cnt_le [of "free_map s"] by (simp_all add: freemap_ok_def cnt_def)
  obtain s' where s': "wrote s s' (data (map_inode s)) 0 (take cnt (bitmap_bytes (free_map s)))"
    "inode_write_at s (finode f) (bitmap_bytes (free_map s)) (int cnt) 0 = Inr (s', int cnt)"
    using inode_write_at_eq [OF f(2), of "int cnt" 0 "bitmap_bytes (free_map s)"] assms cnt
    by (auto simp: freemap_ok_def)
  note fr = wrote_frame [OF s'(1)]
  have mi: "map_inode s' = map_inode s" by (simp add: map_inode_def fr)
  have "contents s' (data (map_inode s)) = take cnt (bitmap_bytes (free_map s))"
    using contents_wrote [OF s'(1)] cnt by (simp add: splice_def)
  then have "synced s'" by (simp add: synced_def mi fr cnt_def)
  moreover have "freemap_ok s'" using assms s'(1) by (auto simp: freemap_ok_def mi fr wrote_def extent_ok_def)
  moreover have "map_updated s s'" using s'(1) by (auto simp: map_updated_def wrote_def fr)
  moreover have "bitmap_write (free_map s) (free_map_file s) s = Inr (s', True)"
    using f s'(2) by (simp add: bitmap_write_def file_write_at_def fget_def cnt_def)
  ultimately show thesis using that fr(5) by blast
qed

lemma used_fill_True:
  assumes "bit_cnt b' = bit_cnt b" "bools b' = fill (bools b) i n True" "i + n \<le> bit_cnt b"
  shows "{k. k < bit_cnt b' \<and> bools b' ! k} = {k. k < bit_cnt b \<and> bools b ! k} \<union> {i..<i + n}"
  using assms by (auto simp: nth_fill split: if_splits)

lemma used_fill_False:
  assumes "bit_cnt b' = bit_cnt b" "bools b' = fill (bools b) i n False" "i + n \<le> bit_cnt b"
  shows "{k. k < bit_cnt b' \<and> bools b' ! k} = {k. k < bit_cnt b \<and> bools b ! k} - {i..<i + n}"
  using assms by (auto simp: nth_fill split: if_splits)

lemma free_map_allocate_ok:
  assumes "freemap_ok s"
  shows "(\<exists>s' i. free_map_allocate s n = Inr (s', Some i) \<and> freemap_ok s' \<and> synced s' \<and> map_updated s s' \<and>
      i + n \<le> capacity s \<and> {i..<i + n} \<inter> used_sectors s = {} \<and> used_sectors s' = used_sectors s \<union> {i..<i + n}) \<or>
    free_map_allocate s n = Inr (s, None) \<and> (\<forall>k. \<not> has_run (bools (free_map s)) k n False)"
proof -
  have b: "bitmap_ok (free_map s)" using assms by (simp add: freemap_ok_def)
  from scan_and_flip_ok [OF b, of 0 n False] obtain b' r where
    r: "bitmap_scan_and_flip (free_map s) 0 n False = Inr (b', r)" "bitmap_ok b'" "bit_cnt b' = bit_cnt (free_map s)"
     "r = BITMAP_ERROR \<and> b' = free_map s \<and> (\<forall>k. \<not> has_run (bools (free_map s)) k n False) \<or>
      r \<noteq> BITMAP_ERROR \<and> first_run (bools (free_map s)) 0 n False r \<and> bools b' = fill (bools (free_map s)) r n True"
    by auto
  show ?thesis
  proof (cases "r = BITMAP_ERROR")
    case True
    then show ?thesis using r(1,4) by (simp add: free_map_allocate_def)
  next
    case False
    with r(4) have run: "has_run (bools (free_map s)) r n False" "bools b' = fill (bools (free_map s)) r n True"
      by (simp_all add: first_run_def)
    define s1 where "s1 = s\<lparr>free_map := b'\<rparr>"
    have s1: "freemap_ok s1" using freemap_ok_set_map [OF assms r(2,3)] by (simp add: s1_def)
    obtain s' where s': "bitmap_write (free_map s1) (free_map_file s1) s1 = Inr (s', True)" "freemap_ok s'" "synced s'"
      "free_map s' = free_map s1" "map_updated s1 s'" using bitmap_write_ok [OF s1] by blast
    have "free_map_allocate s n = Inr (s', Some r)"
      using r(1) s'(1) False s1 by (simp add: free_map_allocate_def s1_def freemap_ok_def)
    moreover have "r + n \<le> capacity s" using run(1) assms by (simp add: has_run_def freemap_ok_def)
    moreover have "{r..<r + n} \<inter> used_sectors s = {}" using run(1) by (auto simp: has_run_def used_sectors_def)
    moreover have "used_sectors s' = used_sectors s \<union> {r..<r + n}"
      using used_fill_True [OF r(3) run(2)] run(1) s'(4) by (simp add: used_sectors_def s1_def has_run_def)
    moreover have "map_updated s s'"
      using s'(5) s'(4) by (simp add: map_updated_def s1_def map_inode_def)
    ultimately show ?thesis using s'(2,3) by blast
  qed
qed

lemma used_range: "{i..<i + n} \<subseteq> used_sectors s \<Longrightarrow> 0 < n \<Longrightarrow> i + n \<le> bit_cnt (free_map s)"
proof -
  assume a: "{i..<i + n} \<subseteq> used_sectors s" "0 < n"
  have "i + n - 1 \<in> used_sectors s" using a(2) by (intro subsetD [OF a(1)]) simp
  then show ?thesis using a(2) by (auto simp: used_sectors_def)
qed

lemma free_map_release_ok:
  assumes "freemap_ok s" "{i..<i + n} \<subseteq> used_sectors s" "i + n \<le> bit_cnt (free_map s)"
  shows "\<exists>s'. free_map_release s i n = Inr s' \<and> freemap_ok s' \<and> synced s' \<and> map_updated s s' \<and>
    used_sectors s' = used_sectors s - {i..<i + n}"
proof -
  have b: "bitmap_ok (free_map s)" using assms(1) by (simp add: freemap_ok_def)
  note i = assms(3)
  have "has_run (bools (free_map s)) i n True"
    using assms(2) i by (auto simp: has_run_def used_sectors_def subset_iff)
  then have a: "bitmap_all (free_map s) i n = Inr True" using all_ok [OF b i] by simp
  obtain b' where b': "bitmap_set_multiple (free_map s) i n False = Inr b'" "bitmap_ok b'"
    "bit_cnt b' = bit_cnt (free_map s)" "bools b' = fill (bools (free_map s)) i n False"
    using set_multiple_ok [OF b i, of False] by blast
  define s1 where "s1 = s\<lparr>free_map := b'\<rparr>"
  have s1: "freemap_ok s1" using freemap_ok_set_map [OF assms(1) b'(2,3)] by (simp add: s1_def)
  obtain s' where s': "bitmap_write (free_map s1) (free_map_file s1) s1 = Inr (s', True)" "freemap_ok s'" "synced s'"
    "free_map s' = free_map s1" "map_updated s1 s'" using bitmap_write_ok [OF s1] by blast
  have "free_map_release s i n = Inr s'" using a b'(1) s'(1) by (simp add: free_map_release_def s1_def)
  moreover have "used_sectors s' = used_sectors s - {i..<i + n}"
    using used_fill_False [OF b'(3,4) i] s'(4) by (simp add: used_sectors_def s1_def)
  moreover have "map_updated s s'" using s'(5) s'(4) by (simp add: map_updated_def s1_def map_inode_def)
  ultimately show ?thesis using s'(2,3) by blast
qed

interpretation sector_map: region_allocator "\<lambda>s. freemap_ok s \<and> synced s" used_sectors free_map_allocate free_map_release
proof unfold_locales
  fix s :: fs and n i :: nat
  assume s: "freemap_ok s \<and> synced s" "0 < n"
  show "\<exists>s' r. free_map_allocate s n = Inr (s', r) \<and> (freemap_ok s' \<and> synced s') \<and>
    (case r of None \<Rightarrow> used_sectors s' = used_sectors s
     | Some i \<Rightarrow> {i..<i + n} \<inter> used_sectors s = {} \<and> used_sectors s' = used_sectors s \<union> {i..<i + n})"
    using free_map_allocate_ok [of s n] s(1) by fastforce
  assume "{i..<i + n} \<subseteq> used_sectors s"
  from free_map_release_ok [OF conjunct1 [OF s(1)] this used_range [OF this s(2)]]
  show "\<exists>s'. free_map_release s i n = Inr s' \<and> (freemap_ok s' \<and> synced s') \<and> used_sectors s' = used_sectors s - {i..<i + n}"
    by blast
qed

section \<open>Reading the free map back\<close>

lemma bit_last_mask:
  assumes "k < 32" "bit_cnt b mod 32 = 0 \<or> k < bit_cnt b mod 32"
  shows "bit (last_mask b) k"
proof (cases "bit_cnt b mod 32 = 0")
  case True
  then show ?thesis using assms(1) by (simp add: last_mask_def ELEM_BITS_def)
next
  case False
  have "(push_bit (bit_cnt b mod 32) 1 - 1 :: u32) = mask (bit_cnt b mod 32)"
    by (simp add: mask_eq_exp_minus_1 push_bit_eq_mult)
  then show ?thesis using False assms by (simp add: last_mask_def ELEM_BITS_def Let_def bit_mask_iff)
qed

lemma words_of_take: "words_of (take (4 * n) (bitmap_bytes b) @ rest) = take n (bits b) @ words_of rest"
proof -
  have "take (4 * n) (concat (map (\<lambda>w. le32 (unat w)) ws)) = concat (map (\<lambda>w. le32 (unat w)) (take n ws))" for ws :: "u32 list"
  proof (induction ws arbitrary: n)
    case (Cons w ws)
    then show ?case by (cases n) (auto simp: take_Cons')
  qed simp
  then show ?thesis by (simp add: bitmap_bytes_def words_of_bytes)
qed

lemma drop_bitmap_bytes: "drop (4 * n) (bitmap_bytes b) = bitmap_bytes (b\<lparr>bits := drop n (bits b)\<rparr>)"
proof -
  have "drop (4 * n) (concat (map (\<lambda>w. le32 (unat w)) ws)) = concat (map (\<lambda>w. le32 (unat w)) (drop n ws))" for ws :: "u32 list"
  proof (induction ws arbitrary: n)
    case (Cons w ws)
    then show ?case by (cases n) (auto simp: drop_Cons')
  qed simp
  then show ?thesis by (simp add: bitmap_bytes_def)
qed

text \<open>The bits that \<^verbatim>\<open>bitmap_read\<close> makes of the bytes of another bitmap of the same size.\<close>

lemma bitmap_read_bits:
  assumes "bitmap_ok b" "bitmap_ok fm" "bit_cnt b = bit_cnt fm" "0 < bit_cnt fm"
  defines "e \<equiv> elem_cnt (bit_cnt b)"
  defines "ws \<equiv> words_of (splice (bitmap_bytes b) 0 (take (4 * e) (bitmap_bytes fm)))"
  shows "e - 1 < length ws" "bitmap_ok (b\<lparr>bits := ws[e - 1 := ws ! (e - 1) AND last_mask b]\<rparr>)"
    "bools (b\<lparr>bits := ws[e - 1 := ws ! (e - 1) AND last_mask b]\<rparr>) = bools fm"
proof -
  have e: "e \<le> length (bits fm)" "e \<le> length (bits b)" "0 < e" "e = (bit_cnt fm + 31) div 32"
    using assms(1-4) by (auto simp: e_def bitmap_ok_def elem_cnt_def ELEM_BITS_def DIV_ROUND_UP_eq div_greater_zero_iff)
  have ws: "ws = take e (bits fm) @ drop e (bits b)"
    using e(1,2) by (simp add: ws_def splice_def words_of_take drop_bitmap_bytes min_def)
  then have l: "length ws = length (bits b)" using e by simp
  show "e - 1 < length ws" using l e by simp
  show "bitmap_ok (b\<lparr>bits := ws[e - 1 := ws ! (e - 1) AND last_mask b]\<rparr>)"
    using assms(1) l by (simp add: bitmap_ok_def)
  have "bit (ws[e - 1 := ws ! (e - 1) AND last_mask b] ! (i div 32)) (i mod 32) = bit (bits fm ! (i div 32)) (i mod 32)"
    if "i < bit_cnt fm" for i
  proof -
    have le: "i div 32 < e" using that div_le_mono [of "i + 32" "bit_cnt fm + 31" 32] by (simp add: e(4))
    then have w: "ws ! (i div 32) = bits fm ! (i div 32)" using e by (simp add: ws nth_append)
    show ?thesis
    proof (cases "i div 32 = e - 1")
      case True
      have "bit_cnt b mod 32 = 0 \<or> i mod 32 < bit_cnt b mod 32"
      proof (rule ccontr)
        assume no: "\<not> ?thesis"
        define q r where "q = bit_cnt fm div 32" "r = bit_cnt fm mod 32"
        have r: "0 < r" "r \<le> i mod 32" "r < 32" "bit_cnt fm = 32 * q + r"
          using no assms(3) by (auto simp: q_r_def)
        have "e = q + 1" unfolding e(4) r(4) using r(1,3) by (intro div_nat_eqI) simp_all
        moreover have "i = 32 * (e - 1) + i mod 32" using True by (metis mult_div_mod_eq)
        ultimately show False using that r(2,4) by simp
      qed
      then have "bit (last_mask b) (i mod 32)" by (intro bit_last_mask) simp_all
      moreover have "e - 1 < length ws" using l e by simp
      then have "ws[e - 1 := ws ! (e - 1) AND last_mask b] ! (i div 32) = bits fm ! (i div 32) AND last_mask b"
        using w unfolding True by simp
      ultimately show ?thesis by (simp add: bit_and_iff)
    next
      case False
      then show ?thesis using w by simp
    qed
  qed
  then show "bools (b\<lparr>bits := ws[e - 1 := ws ! (e - 1) AND last_mask b]\<rparr>) = bools fm"
    by (simp add: bools_def assms(3))
qed

lemma map_file_read:
  assumes "freemap_ok s"
  shows "file_read_at s (free_map_file s) (len (data (map_inode s))) 0 = Inr (contents s (data (map_inode s)))"
proof -
  obtain f where f: "files s (free_map_file s) = Some f" "inodes s (finode f) = Some (map_inode s)"
    using assms by (auto simp: freemap_ok_def map_inode_def)
  have s: "disk_ok s" "extent_ok s (data (map_inode s))" "mem_ok s A_bounce" "0 \<le> len (data (map_inode s))"
    using assms by (auto simp: freemap_ok_def extent_ok_def)
  show ?thesis using inode_read_at_eq [OF f(2) s, of 0] f(1)
    by (simp add: file_read_at_def fget_def)
qed

section \<open>New inodes\<close>

lemma zero_sectors_ok:
  "disk_ok s \<Longrightarrow> st + n \<le> capacity s \<Longrightarrow>
   zero_sectors s st n = Inr (s\<lparr>disk := \<lambda>x. if st \<le> x \<and> x < st + n then replicate 512 0 else disk s x\<rparr>)"
proof (induction n arbitrary: s st)
  case 0
  have "(\<lambda>x. if st \<le> x \<and> x < st + 0 then replicate 512 0 else disk s x) = disk s"
    by (rule ext) auto
  then show ?case by simp
next
  case (Suc n)
  define s1 where "s1 = s\<lparr>disk := (disk s)(st := replicate 512 0)\<rparr>"
  have w: "disk_write s st (replicate 512 0) = Inr s1" using Suc.prems by (simp add: disk_write_ok s1_def)
  have s1: "disk_ok s1" "st + 1 + n \<le> capacity s1" using Suc.prems by (auto simp: disk_ok_def s1_def)
  have "sz (st + 1) = st + 1" using Suc.prems by (simp add: disk_ok_def)
  then show ?case using Suc.IH [OF s1] w by (auto simp: layout s1_def fun_eq_iff)
qed

lemma freemap_ok_map_updated:
  assumes "map_updated s s'"
  shows "map_inode s' = map_inode s" "capacity s' = capacity s" "mem_ok s' = mem_ok s" "inodes s' = inodes s"
    "files s' = files s" "open_inodes s' = open_inodes s" "brk s' = brk s" "free_map_file s' = free_map_file s"
proof -
  have e: "s' = s\<lparr>free_map := free_map s', disk := disk s'\<rparr>" using assms by (simp add: map_updated_def)
  show "map_inode s' = map_inode s" "capacity s' = capacity s" "mem_ok s' = mem_ok s" "inodes s' = inodes s"
    "files s' = files s" "open_inodes s' = open_inodes s" "brk s' = brk s" "free_map_file s' = free_map_file s"
    by (subst e, simp add: map_inode_def)+
qed

text \<open>Changing sectors outside of the free map file leaves the free map in order.\<close>

lemma freemap_other_sectors:
  assumes "freemap_ok s" "\<forall>x. length (dk x) = 512"
  shows "freemap_ok (s\<lparr>disk := dk\<rparr>)"
    and "synced s \<Longrightarrow> \<forall>x\<in>sectors (data (map_inode s)). dk x = disk s x \<Longrightarrow> synced (s\<lparr>disk := dk\<rparr>)"
proof -
  have m: "map_inode (s\<lparr>disk := dk\<rparr>) = map_inode s" by (simp add: map_inode_def)
  show "freemap_ok (s\<lparr>disk := dk\<rparr>)"
    using assms by (auto simp: freemap_ok_def m disk_ok_def extent_ok_def)
  assume sy: "synced s" and dk: "\<forall>x\<in>sectors (data (map_inode s)). dk x = disk s x"
  have x: "extent_ok s (data (map_inode s))" using assms(1) by (simp add: freemap_ok_def)
  have "contents (s\<lparr>disk := dk\<rparr>) (data (map_inode s)) = contents s (data (map_inode s))"
    using sector_in_extent(1) [OF x] dk by (auto simp: contents_def byte_def)
  then show "synced (s\<lparr>disk := dk\<rparr>)" using sy by (simp add: synced_def m)
qed

text \<open>
  A new inode in sector \<open>sec\<close>: it can be read back, its extent was free and is now in use, its
  bytes are zero, and no sector of anything else has changed, the file of the free map apart.
\<close>

definition created :: "fs \<Rightarrow> fs \<Rightarrow> nat \<Rightarrow> inode_disk \<Rightarrow> bool" where
  "created s s' sec d \<longleftrightarrow> freemap_ok s' \<and> synced s' \<and>
     inode_disk_of (disk s' sec) = d \<and> extent_ok s' d \<and> contents s' d = replicate (nat (len d)) 0 \<and>
     sectors d \<inter> used_sectors s = {} \<and> used_sectors s' = used_sectors s \<union> sectors d \<and>
     s' = s\<lparr>free_map := free_map s', disk := disk s'\<rparr> \<and>
     (\<forall>x. x \<noteq> sec \<and> x \<notin> sectors d \<and> x \<notin> sectors (data (map_inode s)) \<longrightarrow> disk s' x = disk s x)"

lemma inode_create_ok:
  assumes "freemap_ok s" "mem_ok s A_inode_disk" "0 \<le> l" "l + 511 < 2147483648"
    "sec \<in> used_sectors s" "sec \<notin> sectors (data (map_inode s))" "sectors (data (map_inode s)) \<subseteq> used_sectors s"
  shows "inode_create s sec l = Inr (s, False) \<and> (\<forall>k. \<not> has_run (bools (free_map s)) k (bytes_to_sectors l) False) \<or>
    (\<exists>s' st. inode_create s sec l = Inr (s', True) \<and> created s s' sec \<lparr>start = st, len = l, imagic = INODE_MAGIC\<rparr>)"
  using free_map_allocate_ok [OF assms(1), of "bytes_to_sectors l"]
proof (elim disjE exE conjE)
  fix s1 st
  define n where "n = bytes_to_sectors l"
  define d where "d = \<lparr>start = st, len = l, imagic = INODE_MAGIC\<rparr>"
  assume a: "free_map_allocate s (bytes_to_sectors l) = Inr (s1, Some st)" "freemap_ok s1" "synced s1" "map_updated s s1"
    "st + bytes_to_sectors l \<le> capacity s" "{st..<st + bytes_to_sectors l} \<inter> used_sectors s = {}"
    "used_sectors s1 = used_sectors s \<union> {st..<st + bytes_to_sectors l}"
  note fr = freemap_ok_map_updated [OF a(4)]
  have ok: "disk_ok s" "disk_ok s1" using assms(1) a(2) by (simp_all add: freemap_ok_def)
  have sec: "sec < capacity s" using assms(1,5) by (simp add: used_sectors_def freemap_ok_def)
  define dk where "dk = (\<lambda>x. if st \<le> x \<and> x < st + n then replicate 512 0 else
     if x = sec then inode_disk_bytes d else disk s1 x)"
  define s' where "s' = s1\<lparr>disk := dk\<rparr>"
  have cr: "inode_create s sec l = Inr (s', True)"
  proof -
    define s2 where "s2 = s1\<lparr>disk := (disk s1)(sec := inode_disk_bytes d)\<rparr>"
    have "disk_ok s2" "st + n \<le> capacity s2" using ok a(5) by (auto simp: disk_ok_def s2_def n_def fr)
    then have z: "zero_sectors s2 st n = Inr s'"
      using zero_sectors_ok [of s2 st n] by (simp add: s2_def s'_def dk_def fun_eq_iff)
    moreover have "n = 0 \<Longrightarrow> s2 = s'" using z by simp
    moreover have "disk_write s1 sec (inode_disk_bytes d) = Inr s2"
      using disk_write_ok ok(2) sec by (simp add: fr s2_def)
    ultimately show ?thesis using assms(2,3) a(1) by (auto simp: inode_create_def n_def d_def Let_def)
  qed
  have d: "sectors d = {st..<st + n}" by (simp add: sectors_def d_def n_def)
  have sec_d: "sec \<notin> sectors d" "sectors (data (map_inode s)) \<inter> sectors d = {}"
    using a(6) assms(5,7) unfolding d n_def by blast+
  have dk: "\<forall>x. length (dk x) = 512" using ok(2) by (simp add: dk_def disk_ok_def)
  have "\<forall>x\<in>sectors (data (map_inode s1)). dk x = disk s1 x"
    using sec_d(2) assms(6) unfolding fr(1) d by (auto simp: dk_def)
  note m = freemap_other_sectors [OF a(2) dk]
  have sy: "freemap_ok s'" "synced s'" using m(1) m(2) [OF a(3)] \<open>\<forall>x\<in>_. _\<close> unfolding s'_def by blast+
  have "\<not> (st \<le> sec \<and> sec < st + n)" using sec_d(1) unfolding d by simp
  then have "inode_disk_of (disk s' sec) = d"
    using assms(3,4) a(5) ok(1) inode_disk_roundtrip [of d]
    by (auto simp: s'_def dk_def d_def disk_ok_def INODE_MAGIC_def)
  moreover have x: "extent_ok s' d"
    using assms(3,4) a(5) by (simp add: extent_ok_def d_def s'_def fr)
  moreover have "contents s' d = replicate (nat l) 0"
  proof -
    have "byte s' d i = 0" if "i < nat l" for i
      using sector_in_extent(1) [OF x, of i] that unfolding d
      by (simp add: byte_def s'_def dk_def d_def)
    then show ?thesis by (intro nth_equalityI) (simp_all add: contents_def d_def)
  qed
  moreover have "used_sectors s' = used_sectors s \<union> sectors d" using a(7) by (simp add: used_sectors_def s'_def d n_def)
  moreover have "s' = s\<lparr>free_map := free_map s', disk := disk s'\<rparr>"
  proof -
    obtain b D where "s1 = s\<lparr>free_map := b, disk := D\<rparr>" using a(4) by (auto simp: map_updated_def)
    then show ?thesis by (simp add: s'_def)
  qed
  moreover have "disk s' x = disk s x" if "x \<noteq> sec" "x \<notin> sectors d" "x \<notin> sectors (data (map_inode s))" for x
    using that a(4) unfolding d by (auto simp: s'_def dk_def map_updated_def)
  moreover have "sectors d \<inter> used_sectors s = {}" using a(6) by (simp add: d n_def)
  moreover have "nat (len d) = nat l" by (simp add: d_def)
  ultimately have "created s s' sec d" using sy unfolding created_def by simp
  then show ?thesis using cr unfolding d_def by blast
qed (use assms in \<open>simp add: inode_create_def\<close>)

section \<open>The table of open inodes\<close>

text \<open>
  The invariant of the table of open inodes: the list holds each open inode once, no two of them
  are for the same sector, each has at least one opener and at most as many denials of writes,
  and addresses from \<open>brk\<close> on are unused.
\<close>

definition table_ok :: "fs \<Rightarrow> bool" where
  "table_ok s \<longleftrightarrow> distinct (open_inodes s) \<and> dom (inodes s) = set (open_inodes s) \<and>
     NULL \<notin> set (open_inodes s) \<and> NULL < brk s \<and> (\<forall>i\<in>set (open_inodes s). i < brk s) \<and>
     (\<forall>i ip. inodes s i = Some ip \<longrightarrow> 0 < open_cnt ip \<and> 0 \<le> deny_write_cnt ip \<and> deny_write_cnt ip \<le> open_cnt ip) \<and>
     (\<forall>i j ip jp. inodes s i = Some ip \<and> inodes s j = Some jp \<and> sector ip = sector jp \<longrightarrow> i = j)"

lemma table_ok_unique:
  "table_ok s \<Longrightarrow> inodes s i = Some ip \<Longrightarrow> inodes s j = Some jp \<Longrightarrow> sector ip = sector jp \<Longrightarrow> i = j"
  unfolding table_ok_def by blast

lemma find_open_ok:
  assumes "set is \<subseteq> dom (inodes s)" "NULL \<notin> set is"
  shows "\<exists>i. find_open s sec is = Inr i \<and>
    (i \<noteq> NULL \<longrightarrow> i \<in> set is \<and> sector (the (inodes s i)) = sec) \<and>
    (i = NULL \<longrightarrow> (\<forall>j\<in>set is. sector (the (inodes s j)) \<noteq> sec))"
  using assms
proof (induction "is")
  case (Cons a as)
  then obtain ap where "inodes s a = Some ap" by auto
  with Cons show ?case by (cases "sector ap = sec") (auto simp: iget_def)
qed simp

lemma table_ok_update:
  assumes "table_ok s" "inodes s i = Some ip" "sector ip' = sector ip" "0 < open_cnt ip'"
    "0 \<le> deny_write_cnt ip'" "deny_write_cnt ip' \<le> open_cnt ip'"
  shows "table_ok (iput i ip' s)"
  using assms unfolding table_ok_def iput_def by (auto split: if_splits)

lemma table_ok_insert:
  assumes "table_ok s" "0 < open_cnt ip" "deny_write_cnt ip = 0" "\<forall>j jp. inodes s j = Some jp \<longrightarrow> sector jp \<noteq> sector ip"
  shows "table_ok (iput (brk s) ip (s\<lparr>brk := brk s + 1, open_inodes := brk s # open_inodes s\<rparr>))"
proof -
  have "brk s \<notin> set (open_inodes s)" "brk s \<noteq> NULL" using assms(1) by (auto simp: table_ok_def)
  moreover have "\<forall>i\<in>set (open_inodes s). i < brk s + 1" using assms(1) by (auto simp: table_ok_def)
  ultimately show ?thesis
    using assms unfolding table_ok_def iput_def by (auto split: if_splits) metis
qed

lemma inode_open_ok:
  assumes "table_ok s" "disk_ok s" "sec < capacity s" "mem_ok s A_inode"
  shows "\<exists>s' i ip. inode_open s sec = Inr (s', i) \<and> i \<noteq> NULL \<and> table_ok s' \<and> inodes s' i = Some ip \<and> sector ip = sec \<and>
    (if i \<in> dom (inodes s)
     then s' = iput i ip s \<and> ip = (the (inodes s i))\<lparr>open_cnt := open_cnt (the (inodes s i)) + 1\<rparr>
     else s' = iput i ip (s\<lparr>brk := brk s + 1, open_inodes := i # open_inodes s\<rparr>) \<and>
       (\<forall>j jp. inodes s j = Some jp \<longrightarrow> sector jp \<noteq> sec) \<and>
       ip = \<lparr>sector = sec, open_cnt = 1, removed = False, data = inode_disk_of (disk s sec), deny_write_cnt = 0\<rparr>)"
proof -
  have dom: "set (open_inodes s) = dom (inodes s)" "NULL \<notin> set (open_inodes s)"
    using assms(1) by (auto simp: table_ok_def)
  from find_open_ok [of "open_inodes s" s sec] dom obtain j where
    j: "find_open s sec (open_inodes s) = Inr j"
      "j \<noteq> NULL \<Longrightarrow> j \<in> dom (inodes s) \<and> sector (the (inodes s j)) = sec"
      "j = NULL \<Longrightarrow> \<forall>k\<in>dom (inodes s). sector (the (inodes s k)) \<noteq> sec" by auto
  show ?thesis
  proof (cases "j = NULL")
    case False
    then obtain jp where jp: "inodes s j = Some jp" "sector jp = sec" using j(2) by auto
    then have jc: "0 < open_cnt jp" "0 \<le> deny_write_cnt jp" "deny_write_cnt jp \<le> open_cnt jp"
      using assms(1) unfolding table_ok_def by blast+
    define jp' where "jp' = jp\<lparr>open_cnt := open_cnt jp + 1\<rparr>"
    have "inode_open s sec = Inr (iput j jp' s, j)"
      using False j(1) jp jc by (simp add: inode_open_def inode_reopen_def iget_def jp'_def)
    moreover have "table_ok (iput j jp' s)"
      using jc by (intro table_ok_update [OF assms(1) jp(1)]) (simp_all add: jp'_def)
    moreover have "inodes (iput j jp' s) j = Some jp'" "sector jp' = sec" using jp(2) by (simp_all add: iput_def jp'_def)
    ultimately show ?thesis using False jp(1) by (intro exI) (auto simp: jp'_def)
  next
    case True
    define i where "i = brk s"
    define ip where "ip = \<lparr>sector = sec, open_cnt = 1, removed = False, data = inode_disk_of (disk s sec), deny_write_cnt = 0\<rparr>"
    define s' where "s' = iput i ip (s\<lparr>brk := brk s + 1, open_inodes := i # open_inodes s\<rparr>)"
    have o: "inode_open s sec = Inr (s', i)"
      using True j(1) assms(2-4) by (simp add: inode_open_def i_def ip_def s'_def disk_read_def disk_ok_def Let_def)
    have i: "i \<notin> dom (inodes s)" "i \<noteq> NULL"
      using assms(1) dom by (auto simp: table_ok_def i_def)
    have new: "sector jp \<noteq> sec" if "inodes s k = Some jp" for k jp using j(3) [OF True] that by force
    have "table_ok s'"
      unfolding s'_def i_def by (rule table_ok_insert [OF assms(1)]) (simp_all add: ip_def new)
    moreover have "inodes s' i = Some ip" "sector ip = sec" by (simp_all add: s'_def iput_def ip_def)
    ultimately show ?thesis using o i new by (intro exI) (auto simp: s'_def ip_def)
  qed
qed

text \<open>Closing an inode that others have open, or the last reference to one that was not removed.\<close>

lemma inode_close_shared:
  assumes "inodes s i = Some ip" "i \<noteq> NULL" "open_cnt ip \<noteq> 1"
  shows "inode_close s i = Inr (iput i (ip\<lparr>open_cnt := open_cnt ip - 1\<rparr>) s)"
  using assms by (simp add: inode_close_def iget_def Let_def)

lemma inode_close_last:
  assumes "inodes s i = Some ip" "i \<noteq> NULL" "open_cnt ip = 1" "\<not> removed ip"
  shows "inode_close s i = Inr (s\<lparr>inodes := (inodes s)(i := None), open_inodes := remove1 i (open_inodes s)\<rparr>)"
  using assms by (simp add: inode_close_def iget_def Let_def iput_def)

text \<open>Opening a sector whose inode is open already, and closing what was opened last.\<close>

lemma inode_open_again:
  assumes "table_ok s" "disk_ok s" "sec < capacity s" "mem_ok s A_inode" "inodes s i = Some ip" "sector ip = sec"
  shows "\<exists>s'. inode_open s sec = Inr (s', i) \<and> table_ok s' \<and>
    open_cnt (the (inodes s' i)) = open_cnt (the (inodes s i)) + 1"
proof -
  obtain s' j jp where j: "inode_open s sec = Inr (s', j)" "table_ok s'" "inodes s' j = Some jp" "sector jp = sec"
    and cj: "if j \<in> dom (inodes s)
     then s' = iput j jp s \<and> jp = (the (inodes s j))\<lparr>open_cnt := open_cnt (the (inodes s j)) + 1\<rparr>
     else (\<forall>k kp. inodes s k = Some kp \<longrightarrow> sector kp \<noteq> sec)"
    using inode_open_ok [OF assms(1-4)] by (metis (no_types, lifting))
  have jd: "j \<in> dom (inodes s)" using cj assms(5,6) by (auto split: if_splits)
  with cj have "sector (the (inodes s j)) = sec" using j(4) by simp
  then have "j = i" using table_ok_unique [OF assms(1) _ assms(5), of j] assms(6) jd by auto
  then show ?thesis using j cj jd by simp
qed

lemma inode_close_opened:
  assumes "table_ok s" "i \<noteq> NULL" "inodes s1 i = Some ip"
    and c: "if i \<in> dom (inodes s)
     then s1 = iput i ip s \<and> ip = (the (inodes s i))\<lparr>open_cnt := open_cnt (the (inodes s i)) + 1\<rparr>
     else s1 = iput i ip (s\<lparr>brk := brk s + 1, open_inodes := i # open_inodes s\<rparr>) \<and>
       (\<forall>j jp. inodes s j = Some jp \<longrightarrow> sector jp \<noteq> sec) \<and>
       ip = \<lparr>sector = sec, open_cnt = 1, removed = False, data = inode_disk_of (disk s sec), deny_write_cnt = 0\<rparr>"
  shows "\<exists>s3. inode_close s1 i = Inr s3 \<and> table_ok s3 \<and> inodes s3 = inodes s \<and> open_inodes s3 = open_inodes s"
proof (cases "i \<in> dom (inodes s)")
  case True
  then obtain jp where jp: "inodes s i = Some jp" "0 < open_cnt jp" using assms(1) unfolding table_ok_def by blast
  have s1: "s1 = iput i ip s" "ip = jp\<lparr>open_cnt := open_cnt jp + 1\<rparr>" using c True jp(1) by auto
  have "inode_close s1 i = Inr (iput i (ip\<lparr>open_cnt := open_cnt ip - 1\<rparr>) s1)"
    using jp(2) s1(2) by (intro inode_close_shared [OF assms(3,2)]) simp
  moreover have "iput i (ip\<lparr>open_cnt := open_cnt ip - 1\<rparr>) s1 = s"
    using jp(1) by (simp add: s1 iput_def map_upd_triv)
  ultimately show ?thesis using assms(1) by simp
next
  case False
  then have s1: "s1 = iput i ip (s\<lparr>brk := brk s + 1, open_inodes := i # open_inodes s\<rparr>)"
    "open_cnt ip = 1" "\<not> removed ip" using c by auto
  define s3 where "s3 = s1\<lparr>inodes := (inodes s1)(i := None), open_inodes := remove1 i (open_inodes s1)\<rparr>"
  have e: "inodes s3 = inodes s" "open_inodes s3 = open_inodes s" "brk s3 = brk s + 1"
    using False by (auto simp: s3_def s1(1) iput_def fun_eq_iff)
  have "inode_close s1 i = Inr s3" unfolding s3_def by (rule inode_close_last [OF assms(3,2) s1(2,3)])
  moreover have "table_ok s3" using assms(1) unfolding table_ok_def e by auto
  ultimately show ?thesis using e by blast
qed

text \<open>The last reference to a removed inode gives its sectors back.\<close>

lemma inode_close_removed:
  assumes "freemap_ok s" "inodes s i = Some ip" "i \<noteq> NULL" "open_cnt ip = 1" "removed ip"
    "i \<noteq> finode (the (files s (free_map_file s)))" "extent_ok s (data ip)"
    "sector ip \<in> used_sectors s" "sectors (data ip) \<subseteq> used_sectors s" "sector ip \<notin> sectors (data ip)"
  shows "\<exists>s'. inode_close s i = Inr s' \<and> freemap_ok s' \<and> synced s' \<and> inodes s' = (inodes s)(i := None) \<and>
    used_sectors s' = used_sectors s - {sector ip} - sectors (data ip) \<and>
    capacity s' = capacity s \<and> mem_ok s' = mem_ok s \<and>
    (\<forall>x. x \<notin> sectors (data (map_inode s)) \<longrightarrow> disk s' x = disk s x)"
proof -
  define ip0 where "ip0 = ip\<lparr>open_cnt := 0\<rparr>"
  define s0 where "s0 = (iput i ip0 s)\<lparr>open_inodes := remove1 i (open_inodes s)\<rparr>"
  define s1 where "s1 s' = s'\<lparr>inodes := (inodes s')(i := None)\<rparr>" for s' :: fs
  have m0: "map_inode s0 = map_inode s" using assms(6) by (simp add: map_inode_def s0_def iput_def)
  have u0: "used_sectors s0 = used_sectors s" "bit_cnt (free_map s0) = capacity s"
    using assms(1) by (simp_all add: used_sectors_def s0_def iput_def freemap_ok_def)
  have f0: "freemap_ok s0" using assms(1,6) by (auto simp: freemap_ok_def m0 s0_def iput_def disk_ok_def extent_ok_def map_inode_def)
  have b1: "sector ip + 1 \<le> bit_cnt (free_map s0)"
    using assms(1,8) u0 by (simp add: used_sectors_def freemap_ok_def Suc_le_eq)
  from free_map_release_ok [OF f0 _ b1] assms(8) u0 obtain s2 where
    s2: "free_map_release s0 (sector ip) 1 = Inr s2" "freemap_ok s2" "map_updated s0 s2"
      "used_sectors s2 = used_sectors s - {sector ip}" by auto
  note fr2 = freemap_ok_map_updated [OF s2(3)]
  have c2: "start (data ip) + bytes_to_sectors (len (data ip)) \<le> bit_cnt (free_map s2)"
    using s2(2) assms(7) fr2(2) by (simp add: freemap_ok_def extent_ok_def s0_def iput_def)
  have "{start (data ip)..<start (data ip) + bytes_to_sectors (len (data ip))} \<subseteq> used_sectors s2"
    using assms(9,10) by (auto simp: s2(4) sectors_def)
  from free_map_release_ok [OF s2(2) this c2] obtain s3 where
    s3: "free_map_release s2 (start (data ip)) (bytes_to_sectors (len (data ip))) = Inr s3" "freemap_ok s3" "synced s3"
      "map_updated s2 s3" "used_sectors s3 = used_sectors s - {sector ip} - sectors (data ip)"
    by (auto simp: s2(4) sectors_def)
  note fr3 = freemap_ok_map_updated [OF s3(4)]
  have "inode_close s i = Inr (s1 s3)"
    using assms(2-5) s2(1) s3(1) by (simp add: inode_close_def iget_def Let_def ip0_def s0_def iput_def s1_def)
  moreover have "inodes (s1 s3) = (inodes s)(i := None)"
    by (simp add: s1_def fr3 fr2 s0_def iput_def)
  moreover have m: "map_inode (s1 s3) = map_inode s3"
    using assms(6) by (simp add: map_inode_def s1_def fr3 fr2 s0_def iput_def)
  moreover have "freemap_ok (s1 s3)"
    using s3(2) assms(6) fr3 fr2 unfolding freemap_ok_def m
    by (auto simp: s1_def disk_ok_def extent_ok_def s0_def iput_def)
  moreover have "synced (s1 s3)" using s3(3) unfolding synced_def m
    by (simp add: s1_def contents_def byte_def [abs_def])
  moreover have "used_sectors (s1 s3) = used_sectors s - {sector ip} - sectors (data ip)"
    using s3(5) by (simp add: s1_def used_sectors_def)
  moreover have "capacity (s1 s3) = capacity s" "mem_ok (s1 s3) = mem_ok s"
    by (simp_all add: s1_def fr3 fr2 s0_def iput_def)
  moreover have "disk (s1 s3) x = disk s x" if "x \<notin> sectors (data (map_inode s))" for x
    using that s2(3) s3(4) unfolding map_updated_def fr2(1) m0 by (simp add: s1_def s0_def iput_def)
  ultimately show ?thesis by blast
qed

section \<open>Properties\<close>

definition ex_freemap :: fs where
  "ex_freemap = \<lparr>disk = (\<lambda>_. replicate 512 0)(2 := le32 7 @ replicate 508 0), capacity = 16,
     inodes = [100 \<mapsto> \<lparr>sector = 0, open_cnt = 1, removed = False,
                      data = \<lparr>start = 2, len = 4, imagic = INODE_MAGIC\<rparr>, deny_write_cnt = 0\<rparr>],
     open_inodes = [100], free_map = \<lparr>bit_cnt = 16, bits = [7]\<rparr>, free_map_file = 150,
     files = [150 \<mapsto> \<lparr>finode = 100, pos = 0, deny_write = False\<rparr>], brk = 200, mem_ok = \<lambda>_. True\<rparr>"

lemma ex_freemap_ok: "freemap_ok ex_freemap" "synced ex_freemap" "table_ok ex_freemap" "disk_ok ex_freemap"
proof -
  have u: "elem_cnt 16 = 1" "byte_cnt 16 = 4"
    by (simp_all add: elem_cnt_def byte_cnt_def ELEM_BITS_def DIV_ROUND_UP_def)
  have m: "map_inode ex_freemap = the (inodes ex_freemap 100)" by (simp add: map_inode_def ex_freemap_def)
  show "freemap_ok ex_freemap" "disk_ok ex_freemap" unfolding freemap_ok_def m
    by (simp_all add: ex_freemap_def disk_ok_def extent_ok_def bitmap_ok_def u bytes_to_sectors_nat NULL_def)
  show "synced ex_freemap" unfolding synced_def m
    by (simp add: ex_freemap_def u contents_def byte_def upt_conv_Cons bitmap_bytes_def le32_def)
  show "table_ok ex_freemap" by (simp add: table_ok_def ex_freemap_def NULL_def)
qed

text \<open>
  C10. Whatever sequence of requests for sectors and releases of held sectors is made, no call fails,
  groups of sectors that are held at the same time never overlap, and after every call the file
  of the free map on disk holds the bits that are in memory.
\<close>

theorem free_map_regions_disjoint:
  assumes "freemap_ok s" "synced s"
  shows "\<exists>s' held. client_run free_map_allocate free_map_release (s, []) qs = Inr (s', held) \<and>
    freemap_ok s' \<and> synced s' \<and> disjoint_regions held \<and> (\<forall>r \<in> set held. region r \<subseteq> used_sectors s')"
proof -
  have "held_ok (used_sectors s) []" by (simp add: held_ok_def disjoint_regions_def)
  from sector_map.run_ok [OF conjI [OF assms] this, of qs] show ?thesis
    unfolding held_ok_def by blast
qed

theorem free_map_regions_disjoint_witness:
  "\<exists>s' held. client_run free_map_allocate free_map_release (ex_freemap, []) [Get 3, Get 2, Put 3 3, Get 4] = Inr (s', held) \<and>
    freemap_ok s' \<and> synced s' \<and> disjoint_regions held \<and> (\<forall>r \<in> set held. region r \<subseteq> used_sectors s')"
  by (rule free_map_regions_disjoint [OF ex_freemap_ok(1,2)])

text \<open>
  What was saved is read back: reading the file of the free map into any bitmap of the same size
  gives the same bits, although the file holds whole 32-bit elements and the reader clears the
  bits beyond the last one.
\<close>

theorem free_map_read_back:
  assumes "freemap_ok s" "synced s" "bitmap_ok b" "bit_cnt b = capacity s" "0 < capacity s"
  shows "\<exists>b'. bitmap_read b (free_map_file s) s = Inr (b', True) \<and> bitmap_ok b' \<and> bools b' = bools (free_map s)"
proof -
  define fm where "fm = free_map s"
  have fm: "bitmap_ok fm" "bit_cnt b = bit_cnt fm" "0 < bit_cnt fm" "len (data (map_inode s)) = int (byte_cnt (bit_cnt b))"
    using assms by (simp_all add: freemap_ok_def fm_def)
  have n: "byte_cnt (bit_cnt b) = 4 * elem_cnt (bit_cnt b)" using byte_cnt_eq [OF assms(3)] .
  have rd: "file_read_at s (free_map_file s) (int (byte_cnt (bit_cnt b))) 0 = Inr (take (4 * elem_cnt (bit_cnt b)) (bitmap_bytes fm))"
    using map_file_read [OF assms(1)] assms(2) fm n by (simp add: synced_def fm_def)
  have l: "length (take (4 * elem_cnt (bit_cnt b)) (bitmap_bytes fm)) = byte_cnt (bit_cnt b)"
    using byte_cnt_le [OF fm(1)] fm(2) n by simp
  note r = bitmap_read_bits [OF assms(3) fm(1-3)]
  have "0 < bit_cnt b" using fm by simp
  then show ?thesis
    using r rd l unfolding bitmap_read_def Let_def fm_def by simp
qed

theorem free_map_read_back_witness:
  "\<exists>b'. bitmap_read \<lparr>bit_cnt = 16, bits = [0xffffffff]\<rparr> (free_map_file ex_freemap) ex_freemap = Inr (b', True) \<and>
    bitmap_ok b' \<and> bools b' = bools (free_map ex_freemap)"
  using ex_freemap_ok
  by (intro free_map_read_back)
    (simp_all add: ex_freemap_def bitmap_ok_def elem_cnt_def ELEM_BITS_def DIV_ROUND_UP_def)

text \<open>
  Creating an inode of \<open>l\<close> bytes either fails without any change, exactly when the free map has
  no group of free sectors that is long enough, or takes such a group: the inode read back from
  its sector has the length asked for, all its bytes are zero, its sectors belonged to nobody,
  and no other sector on disk changes but those of the free map's own file.
\<close>

theorem inode_create_correct:
  assumes "freemap_ok s" "mem_ok s A_inode_disk" "0 \<le> l" "l + 511 < 2147483648"
    "sec \<in> used_sectors s" "sec \<notin> sectors (data (map_inode s))" "sectors (data (map_inode s)) \<subseteq> used_sectors s"
  shows "inode_create s sec l = Inr (s, False) \<and> (\<forall>k. \<not> has_run (bools (free_map s)) k (bytes_to_sectors l) False) \<or>
    (\<exists>s' st. inode_create s sec l = Inr (s', True) \<and> created s s' sec \<lparr>start = st, len = l, imagic = INODE_MAGIC\<rparr>)"
  by (rule inode_create_ok [OF assms])

theorem inode_create_correct_witness:
  "\<exists>s' st. inode_create ex_freemap 1 1000 = Inr (s', True) \<and>
     created ex_freemap s' 1 \<lparr>start = st, len = 1000, imagic = INODE_MAGIC\<rparr>"
proof -
  have b7: "bit (7 :: u32) k \<longleftrightarrow> k < 3" for k
  proof -
    have "(7 :: u32) = mask 3" by (simp add: mask_eq_exp_minus_1)
    then show ?thesis by (auto simp only: bit_mask_iff) simp_all
  qed
  have "bools (free_map ex_freemap) = map (bit (7 :: u32)) [0..<16]"
    by (simp add: bools_def ex_freemap_def)
  also have "\<dots> = map (\<lambda>k. k < 3) [0..<16]" by (rule map_cong [OF refl]) (rule b7)
  finally have b: "bools (free_map ex_freemap) = map (\<lambda>k. k < 3) [0..<16]" .
  have m: "sectors (data (map_inode ex_freemap)) = {2}"
    by (auto simp: map_inode_def ex_freemap_def sectors_def bytes_to_sectors_nat)
  have u: "used_sectors ex_freemap = {..<3}" unfolding used_sectors_def b by (auto simp: ex_freemap_def)
  have c: "bytes_to_sectors 1000 = 2" by (simp add: bytes_to_sectors_nat)
  have "has_run (bools (free_map ex_freemap)) 3 (bytes_to_sectors 1000) False"
    unfolding b has_run_def c by simp
  moreover have "mem_ok ex_freemap A_inode_disk" by (simp add: ex_freemap_def)
  ultimately show ?thesis
    using inode_create_correct [OF ex_freemap_ok(1), of 1000 1] unfolding m u by auto
qed

text \<open>
  The table of open inodes keeps its invariant: opening the inode of a sector returns the inode
  that is already open for this sector, if there is one, with one more opener, so that two
  openers always share it; and closing it again brings the table back to what it was.
\<close>

theorem inode_open_close:
  assumes "table_ok s" "disk_ok s" "sec < capacity s" "mem_ok s A_inode"
  shows "\<exists>s1 i. inode_open s sec = Inr (s1, i) \<and> i \<noteq> NULL \<and> table_ok s1 \<and> sector (the (inodes s1 i)) = sec \<and>
    (\<forall>j jp. inodes s j = Some jp \<and> sector jp = sec \<longrightarrow> i = j) \<and>
    (\<exists>s2. inode_open s1 sec = Inr (s2, i) \<and> table_ok s2 \<and>
       open_cnt (the (inodes s2 i)) = open_cnt (the (inodes s1 i)) + 1) \<and>
    (\<exists>s3. inode_close s1 i = Inr s3 \<and> table_ok s3 \<and> inodes s3 = inodes s \<and> open_inodes s3 = open_inodes s)"
proof -
  obtain s1 i ip where o: "inode_open s sec = Inr (s1, i)" "i \<noteq> NULL" "table_ok s1" "inodes s1 i = Some ip" "sector ip = sec"
    and c: "if i \<in> dom (inodes s)
     then s1 = iput i ip s \<and> ip = (the (inodes s i))\<lparr>open_cnt := open_cnt (the (inodes s i)) + 1\<rparr>
     else s1 = iput i ip (s\<lparr>brk := brk s + 1, open_inodes := i # open_inodes s\<rparr>) \<and>
       (\<forall>j jp. inodes s j = Some jp \<longrightarrow> sector jp \<noteq> sec) \<and>
       ip = \<lparr>sector = sec, open_cnt = 1, removed = False, data = inode_disk_of (disk s sec), deny_write_cnt = 0\<rparr>"
    using inode_open_ok [OF assms] by blast
  have pre: "disk_ok s1" "sec < capacity s1" "mem_ok s1 A_inode"
    using c assms(2-4) by (auto simp: iput_def disk_ok_def split: if_splits)
  have uniq: "i = j" if "inodes s j = Some jp" "sector jp = sec" for j jp
  proof (cases "i \<in> dom (inodes s)")
    case True
    then obtain kp where kp: "inodes s i = Some kp" by auto
    with c True o(5) have "sector kp = sec" by auto
    then show ?thesis using table_ok_unique [OF assms(1) kp that(1)] that(2) by simp
  qed (use that c in auto)
  show ?thesis
    using o uniq inode_open_again [OF o(3) pre o(4,5)] inode_close_opened [OF assms(1) o(2,4) c]
    by (intro exI [of _ s1] exI [of _ i]) auto
qed

theorem inode_open_close_witness:
  "\<exists>s1 i. inode_open ex_freemap 0 = Inr (s1, i) \<and> i = 100"
  using inode_open_close [OF ex_freemap_ok(3,4), of 0] by (auto simp: ex_freemap_def)

end
