(* ===== verification/Directory.thy ===== *)
theory Directory
  imports FreeMap
begin

text \<open>
  Directories (\<^verbatim>\<open>filesys/directory.c\<close>): a file that is an array of entries of 20 bytes, each with
  the sector of an inode, a name of at most 14 characters and a flag. A name is the list of its
  characters without the final null character. The specification of a directory is a map from
  names to sectors.
\<close>

section \<open>Entries\<close>

definition NAME_MAX :: nat where [layout]: "NAME_MAX = 14"

record dir =
  dinode :: addr   \<comment> \<open>\<^verbatim>\<open>inode\<close>\<close>
  dpos :: int      \<comment> \<open>\<^verbatim>\<open>pos\<close>\<close>

record dir_entry =
  inode_sector :: nat
  ename :: "u8 list"    \<comment> \<open>\<^verbatim>\<open>name\<close>, an array of \<^verbatim>\<open>NAME_MAX + 1\<close> characters\<close>
  in_use :: bool

definition ENTRY_SIZE :: nat where [layout]: "ENTRY_SIZE = 20"

definition dir_entry_of :: "u8 list \<Rightarrow> dir_entry" where
  "dir_entry_of bs = \<lparr>inode_sector = de32 bs, ename = take 15 (drop 4 bs), in_use = (bs ! 19 \<noteq> 0)\<rparr>"

definition dir_entry_bytes :: "dir_entry \<Rightarrow> u8 list" where
  "dir_entry_bytes e = le32 (inode_sector e) @ ename e @ [if in_use e then 1 else 0]"

text \<open>
  The comparison of a name with the array of an entry, as \<^verbatim>\<open>strcmp\<close> makes it: it reads beyond the
  array only when the array agrees with the name to its end.
\<close>

fun name_eq :: "u8 list \<Rightarrow> u8 list \<Rightarrow> bool outcome" where
  "name_eq _ [] = Inl Bad_access"
| "name_eq [] (b # bs) = Inr (b = 0)"
| "name_eq (a # as) (b # bs) = (if a = b then name_eq as bs else Inr False)"

section \<open>Operations\<close>

definition dir_create :: "fs \<Rightarrow> nat \<Rightarrow> nat \<Rightarrow> (fs \<times> bool) outcome" where
  "dir_create s sec entry_cnt = inode_create s sec (s32 (sz (entry_cnt * ENTRY_SIZE)))"

definition dir_open :: "fs \<Rightarrow> addr \<Rightarrow> (fs \<times> dir option) outcome" where
  "dir_open s i =
     (if i \<noteq> NULL \<and> mem_ok s A_dir then Inr (s, Some \<lparr>dinode = i, dpos = 0\<rparr>)
      else kbind (inode_close s i) (\<lambda>s. Inr (s, None)))"

definition dir_open_root :: "fs \<Rightarrow> (fs \<times> dir option) outcome" where
  "dir_open_root s = kbind (inode_open s ROOT_DIR_SECTOR) (\<lambda>r. dir_open (fst r) (snd r))"

definition dir_reopen :: "fs \<Rightarrow> dir \<Rightarrow> (fs \<times> dir option) outcome" where
  "dir_reopen s d = kbind (inode_reopen s (dinode d)) (\<lambda>r. dir_open (fst r) (snd r))"

definition dir_close :: "fs \<Rightarrow> dir option \<Rightarrow> fs outcome" where
  "dir_close s d = (case d of Some d \<Rightarrow> inode_close s (dinode d) | None \<Rightarrow> Inr s)"

definition dir_get_inode :: "dir \<Rightarrow> addr" where
  "dir_get_inode d = dinode d"

text \<open>
  A short read ends the loops below. A read of a whole entry lies within the file, so that they
  end for every inode.
\<close>

lemma read_loop_length:
  "read_loop s ip cnt ofs acc = Inr bs \<Longrightarrow> cnt < 512 \<Longrightarrow>
   int (length bs) \<le> int (length acc) + max 0 (min cnt (len (data ip) - ofs))"
proof (induction s ip cnt ofs acc rule: read_loop.induct)
  case (1 s ip cnt ofs acc)
  define k where "k = chunk_size ip cnt ofs"
  show ?case
  proof (cases "cnt > 0 \<and> k > 0")
    case False
    then have "bs = acc" using "1.prems"(1) by (subst (asm) read_loop.simps) (auto simp: k_def split: if_splits)
    then show ?thesis by simp
  next
    case True
    have k: "k \<le> cnt" "k \<le> len (data ip) - ofs"
      by (auto simp: k_def chunk_size_def Let_def inode_length_def)
    then have "k \<noteq> DISK_SECTOR_SIZE" using "1.prems"(2) by (simp add: layout)
    with "1.prems"(1) True consider "bs = acc"
      | b where "mem_ok s A_bounce" "disk_read s (byte_to_sector ip ofs) = Inr b" "\<not> sector_ofs ofs < 0"
        "read_loop s ip (cnt - k) (ofs + k) (acc @ take (nat k) (drop (nat (sector_ofs ofs)) b)) = Inr bs"
      by (subst (asm) read_loop.simps) (auto simp: k_def split: if_splits)
    then show ?thesis
    proof cases
      case 2
      define acc' where "acc' = acc @ take (nat k) (drop (nat (sector_ofs ofs)) b)"
      have "int (length bs) \<le> int (length acc') + max 0 (min (cnt - k) (len (data ip) - (ofs + k)))"
        unfolding acc'_def k_def
        by (rule "1.IH"(2)) (use 2 True \<open>k \<noteq> DISK_SECTOR_SIZE\<close> "1.prems"(2) in \<open>auto simp: k_def\<close>)
      moreover have "int (length acc') \<le> int (length acc) + k" using True by (auto simp: acc'_def of_nat_min)
      ultimately show ?thesis using k True by (auto simp: min_def max_def split: if_splits)
    qed simp
  qed
qed

lemma entry_read_within:
  assumes "inode_read_at s i 20 (int ofs) = Inr bs" "length bs = 20"
  shows "ofs + 20 \<le> nat (len (data (the (inodes s i))))"
proof -
  obtain ip where ip: "inodes s i = Some ip" "read_loop s ip 20 (int ofs) [] = Inr bs"
    using assms(1) by (auto simp: inode_read_at_def iget_def split: option.splits)
  show ?thesis using read_loop_length [OF ip(2)] assms(2) ip(1) by (simp add: min_def max_def split: if_splits)
qed

declare kbind_cong [fundef_cong]

function lookup_loop :: "fs \<Rightarrow> addr \<Rightarrow> u8 list \<Rightarrow> nat \<Rightarrow> (dir_entry \<times> nat) option outcome" where
  "lookup_loop s i name ofs =
     kbind (inode_read_at s i (int ENTRY_SIZE) (int ofs)) (\<lambda>bs.
       if length bs = ENTRY_SIZE
       then if in_use (dir_entry_of bs)
            then kbind (name_eq name (ename (dir_entry_of bs))) (\<lambda>eq.
                   if eq then Inr (Some (dir_entry_of bs, ofs))
                   else lookup_loop s i name (ofs + ENTRY_SIZE))
            else lookup_loop s i name (ofs + ENTRY_SIZE)
       else Inr None)"
  by pat_completeness auto
termination
  by (relation "measure (\<lambda>(s, i, name, ofs). nat (len (data (the (inodes s i)))) - ofs)")
    (auto simp: layout dest: entry_read_within)

declare lookup_loop.simps [simp del]

definition lookup :: "fs \<Rightarrow> dir \<Rightarrow> u8 list \<Rightarrow> (dir_entry \<times> nat) option outcome" where
  "lookup s d name = lookup_loop s (dinode d) name 0"

definition dir_lookup :: "fs \<Rightarrow> dir \<Rightarrow> u8 list \<Rightarrow> (fs \<times> addr) outcome" where
  "dir_lookup s d name =
     kbind (lookup s d name) (\<lambda>r. case r of
       Some e \<Rightarrow> inode_open s (inode_sector (fst e))
     | None \<Rightarrow> Inr (s, NULL))"

text \<open>
  The search of \<^verbatim>\<open>dir_add\<close> for a free slot; \<open>e\<close> is the content of the local entry, which a short
  read fills only in part.
\<close>

function find_slot :: "fs \<Rightarrow> addr \<Rightarrow> nat \<Rightarrow> u8 list \<Rightarrow> (u8 list \<times> nat) outcome" where
  "find_slot s i ofs e =
     kbind (inode_read_at s i (int ENTRY_SIZE) (int ofs)) (\<lambda>bs.
       if length bs = ENTRY_SIZE
       then if \<not> in_use (dir_entry_of bs) then Inr (bs, ofs)
            else find_slot s i (ofs + ENTRY_SIZE) bs
       else Inr (splice e 0 bs, ofs))"
  by pat_completeness auto
termination
  by (relation "measure (\<lambda>(s, i, ofs, e). nat (len (data (the (inodes s i)))) - ofs)")
    (auto simp: layout dest: entry_read_within)

declare find_slot.simps [simp del]

text \<open>\<^verbatim>\<open>strlcpy\<close> into the array of an entry: the characters behind the terminator stay.\<close>

definition set_name :: "u8 list \<Rightarrow> u8 list \<Rightarrow> u8 list" where
  "set_name name old = splice old 0 (take NAME_MAX name @ [0])"

text \<open>\<open>e\<close> is what the local variable of \<^verbatim>\<open>dir_add\<close> holds at first.\<close>

definition dir_add :: "u8 list \<Rightarrow> fs \<Rightarrow> dir \<Rightarrow> u8 list \<Rightarrow> nat \<Rightarrow> (fs \<times> bool) outcome" where
  "dir_add e s d name sec =
     (if name = [] \<or> length name > NAME_MAX then Inr (s, False)
      else kbind (lookup s d name) (\<lambda>found.
        if found \<noteq> None then Inr (s, False)
        else kbind (find_slot s (dinode d) 0 e) (\<lambda>slot.
          let old = dir_entry_of (fst slot);
              e = \<lparr>inode_sector = sec, ename = set_name name (ename old), in_use = True\<rparr>
          in kbind (inode_write_at s (dinode d) (dir_entry_bytes e) (int ENTRY_SIZE) (int (snd slot))) (\<lambda>w.
               Inr (fst w, snd w = int ENTRY_SIZE)))))"

definition dir_remove :: "fs \<Rightarrow> dir \<Rightarrow> u8 list \<Rightarrow> (fs \<times> bool) outcome" where
  "dir_remove s d name =
     kbind (lookup s d name) (\<lambda>found. case found of
       None \<Rightarrow> Inr (s, False)
     | Some (e, ofs) \<Rightarrow>
         kbind (inode_open s (inode_sector e)) (\<lambda>r.
           let s = fst r; inode = snd r
           in if inode = NULL then Inr (s, False)
              else kbind (inode_write_at s (dinode d) (dir_entry_bytes (e\<lparr>in_use := False\<rparr>)) (int ENTRY_SIZE) (int ofs)) (\<lambda>w.
                   let s = fst w
                   in if snd w \<noteq> int ENTRY_SIZE then kbind (inode_close s inode) (\<lambda>s. Inr (s, False))
                      else kbind (inode_remove s inode) (\<lambda>s.
                           kbind (inode_close s inode) (\<lambda>s. Inr (s, True))))))"

text \<open>The next entry in use, with the position behind it; \<open>None\<close> at the end of the directory.\<close>

function readdir_loop :: "fs \<Rightarrow> addr \<Rightarrow> nat \<Rightarrow> (u8 list option \<times> nat) outcome" where
  "readdir_loop s i ofs =
     kbind (inode_read_at s i (int ENTRY_SIZE) (int ofs)) (\<lambda>bs.
       if length bs = ENTRY_SIZE
       then if in_use (dir_entry_of bs)
            then Inr (Some (take NAME_MAX (takeWhile (\<lambda>c. c \<noteq> 0) (ename (dir_entry_of bs)))), ofs + ENTRY_SIZE)
            else readdir_loop s i (ofs + ENTRY_SIZE)
       else Inr (None, ofs))"
  by pat_completeness auto
termination
  by (relation "measure (\<lambda>(s, i, ofs). nat (len (data (the (inodes s i)))) - ofs)")
    (auto simp: layout dest: entry_read_within)

declare readdir_loop.simps [simp del]

definition dir_readdir :: "fs \<Rightarrow> dir \<Rightarrow> (dir \<times> u8 list option) outcome" where
  "dir_readdir s d =
     kbind (readdir_loop s (dinode d) (nat (dpos d))) (\<lambda>r. Inr (d\<lparr>dpos := int (snd r)\<rparr>, fst r))"

section \<open>A directory as an array of entries\<close>

definition ents :: "fs \<Rightarrow> inode_disk \<Rightarrow> dir_entry list" where
  "ents s d = map (\<lambda>k. dir_entry_of (take 20 (drop (20 * k) (contents s d)))) [0..<nat (len d) div 20]"

definition cname :: "dir_entry \<Rightarrow> u8 list" where
  "cname e = takeWhile (\<lambda>c. c \<noteq> 0) (ename e)"

text \<open>The entry of a name.\<close>

definition named :: "u8 list \<Rightarrow> dir_entry \<Rightarrow> bool" where
  "named name e \<longleftrightarrow> in_use e \<and> cname e = name"

text \<open>A well-formed array: the names in use are terminated and no name is used twice.\<close>

definition names_ok :: "dir_entry list \<Rightarrow> bool" where
  "names_ok es \<longleftrightarrow> (\<forall>e\<in>set es. in_use e \<longrightarrow> 0 \<in> set (ename e)) \<and>
     (\<forall>j < length es. \<forall>k < length es. in_use (es ! j) \<and> in_use (es ! k) \<and> cname (es ! j) = cname (es ! k) \<longrightarrow> j = k)"

text \<open>The map from names to sectors that an array of entries stands for.\<close>

definition dir_map :: "dir_entry list \<Rightarrow> u8 list \<Rightarrow> nat option" where
  "dir_map es name = map_option inode_sector (find (named name) es)"

lemma length_ents [simp]: "length (ents s d) = nat (len d) div 20"
  by (simp add: ents_def)

lemma name_eq_cname: "0 \<in> set bs \<Longrightarrow> 0 \<notin> set name \<Longrightarrow> name_eq name bs = Inr (takeWhile (\<lambda>c. c \<noteq> 0) bs = name)"
  by (induction name bs rule: name_eq.induct) auto

lemma dir_entry_roundtrip:
  "inode_sector e < 4294967296 \<Longrightarrow> length (ename e) = 15 \<Longrightarrow> dir_entry_of (dir_entry_bytes e) = e"
  by (simp add: dir_entry_of_def dir_entry_bytes_def nth_append)

lemma length_dir_entry_bytes: "length (ename e) = 15 \<Longrightarrow> length (dir_entry_bytes e) = 20"
  by (simp add: dir_entry_bytes_def)

text \<open>A directory that is open and can be read and written.\<close>

definition dir_ok :: "fs \<Rightarrow> addr \<Rightarrow> inode \<Rightarrow> bool" where
  "dir_ok s i ip \<longleftrightarrow> inodes s i = Some ip \<and> disk_ok s \<and> extent_ok s (data ip) \<and> mem_ok s A_bounce \<and>
     deny_write_cnt ip = 0 \<and> 20 dvd len (data ip) \<and> names_ok (ents s (data ip))"

lemma dir_len:
  assumes "dir_ok s i ip"
  shows "nat (len (data ip)) = 20 * (nat (len (data ip)) div 20)"
proof -
  obtain k where "len (data ip) = 20 * k" "0 \<le> k" using assms by (auto simp: dir_ok_def extent_ok_def elim!: dvdE)
  then show ?thesis by (simp add: nat_mult_distrib)
qed

lemma read_entry:
  assumes "dir_ok s i ip"
  shows "inode_read_at s i 20 (20 * int k) = Inr (take 20 (drop (20 * k) (contents s (data ip))))"
  using inode_read_at_eq [of s i ip 20 "20 * int k"] assms by (simp add: dir_ok_def nat_mult_distrib)

lemma read_entry_length:
  assumes "dir_ok s i ip"
  shows "length (take 20 (drop (20 * k) (contents s (data ip)))) = (if k < nat (len (data ip)) div 20 then 20 else 0)"
  using dir_len [OF assms] by auto

lemma find_upt: "k < n \<Longrightarrow> find P [k..<n] = (if P k then Some k else find P [Suc k..<n])"
  by (simp add: upt_conv_Cons)

lemma lookup_loop_ok:
  assumes "dir_ok s i ip" "0 \<notin> set name"
  defines "es \<equiv> ents s (data ip)"
  shows "lookup_loop s i name (20 * k) =
    Inr (map_option (\<lambda>j. (es ! j, 20 * j)) (find (\<lambda>j. named name (es ! j)) [k..<length es]))"
proof (induction "length es - k" arbitrary: k)
  case 0
  then have "\<not> k < nat (len (data ip)) div 20" by (simp add: es_def)
  then show ?case using 0 read_entry_length [OF assms(1), of k]
    by (subst lookup_loop.simps) (simp add: read_entry [OF assms(1)] layout)
next
  case (Suc m)
  then have k: "k < length es" "m = length es - (k + 1)" by simp_all
  have e: "dir_entry_of (take 20 (drop (20 * k) (contents s (data ip)))) = es ! k"
    using k by (simp add: es_def ents_def)
  have l: "length (take 20 (drop (20 * k) (contents s (data ip)))) = ENTRY_SIZE"
    using read_entry_length [OF assms(1), of k] k by (simp add: es_def layout)
  have "in_use (es ! k) \<Longrightarrow> 0 \<in> set (ename (es ! k))"
    using assms(1) k(1) by (auto simp: dir_ok_def names_ok_def es_def)
  then have q: "in_use (es ! k) \<Longrightarrow> name_eq name (ename (es ! k)) = Inr (named name (es ! k))"
    using name_eq_cname [OF _ assms(2)] by (simp add: named_def cname_def)
  have "20 * k + 20 = 20 * (k + 1)" by simp
  then have IH: "lookup_loop s i name (20 * k + 20) =
      Inr (map_option (\<lambda>j. (es ! j, 20 * j)) (find (\<lambda>j. named name (es ! j)) [Suc k..<length es]))"
    using Suc.hyps(1) [OF k(2)] by (simp add: add.commute)
  show ?case
    unfolding find_upt [OF k(1)]
    by (subst lookup_loop.simps) (use q l in \<open>auto simp: read_entry [OF assms(1)] e IH named_def layout\<close>)
qed

lemma find_slot_ok:
  assumes "dir_ok s i ip"
  defines "es \<equiv> ents s (data ip)"
  shows "\<exists>b. find_slot s i (20 * k) e =
    Inr (b, 20 * (case find (\<lambda>j. \<not> in_use (es ! j)) [k..<length es] of Some j \<Rightarrow> j | None \<Rightarrow> max k (length es)))
    \<and> (length e = 20 \<longrightarrow> length b = 20)"
proof (induction "length es - k" arbitrary: k e)
  case 0
  then have "\<not> k < nat (len (data ip)) div 20" by (simp add: es_def)
  then show ?case using 0 read_entry_length [OF assms(1), of k]
    by (subst find_slot.simps) (simp add: read_entry [OF assms(1)] layout splice_def)
next
  case (Suc m)
  then have k: "k < length es" "m = length es - (k + 1)" by simp_all
  define b where "b = take 20 (drop (20 * k) (contents s (data ip)))"
  have e: "dir_entry_of b = es ! k" using k by (simp add: es_def ents_def b_def)
  have l: "length b = ENTRY_SIZE"
    using read_entry_length [OF assms(1), of k] k by (simp add: es_def layout b_def)
  have "20 * k + 20 = 20 * (k + 1)" by simp
  then have IH: "\<exists>b'. find_slot s i (20 * k + 20) b =
      Inr (b', 20 * (case find (\<lambda>j. \<not> in_use (es ! j)) [Suc k..<length es] of Some j \<Rightarrow> j | None \<Rightarrow> max (k + 1) (length es)))
      \<and> (length b = 20 \<longrightarrow> length b' = 20)"
    using Suc.hyps(1) [OF k(2), of b] by (simp add: add.commute)
  have mx: "max (k + 1) (length es) = max k (length es)" using k by simp
  show ?case
    unfolding find_upt [OF k(1)]
    by (subst find_slot.simps) (use IH l mx in \<open>auto simp: read_entry [OF assms(1)] b_def [symmetric] e layout\<close>)
qed

section \<open>Updates of an entry\<close>

lemma slice_splice:
  assumes "length bs = 20" "20 * j + 20 \<le> length c" "20 * k + 20 \<le> length c"
  shows "take 20 (drop (20 * k) (splice c (20 * j) bs)) = (if k = j then bs else take 20 (drop (20 * k) c))"
proof (rule nth_equalityI)
  fix m assume "m < length (take 20 (drop (20 * k) (splice c (20 * j) bs)))"
  then have m: "m < 20" "20 * k + m < length c" using assms by auto
  then have "(20 * j \<le> 20 * k + m \<and> 20 * k + m < 20 * j + 20) \<longleftrightarrow> k = j" by linarith
  then show "take 20 (drop (20 * k) (splice c (20 * j) bs)) ! m = (if k = j then bs else take 20 (drop (20 * k) c)) ! m"
    using m assms by (simp add: nth_splice)
qed (use assms in auto)

lemma ents_wrote:
  assumes "wrote s s' d (20 * j) bs" "length bs = 20" "j < nat (len d) div 20"
  shows "ents s' d = (ents s d)[j := dir_entry_of bs]"
proof -
  have l: "20 * k + 20 \<le> nat (len d)" if "k < nat (len d) div 20" for k
    using that by (simp add: less_eq_div_iff_mult_less_eq Suc_le_eq [symmetric])
  have c: "contents s' d = splice (contents s d) (20 * j) bs"
    using contents_wrote [OF assms(1)] l [OF assms(3)] assms(2) by simp
  show ?thesis
    using l assms(2,3) by (intro nth_equalityI) (auto simp: ents_def c slice_splice nth_list_update)
qed

lemma dir_map_Some:
  assumes "names_ok es" "j < length es" "named name (es ! j)"
  shows "dir_map es name = Some (inode_sector (es ! j))"
proof -
  obtain e where e: "find (named name) es = Some e"
    using assms(2,3) by (cases "find (named name) es") (auto simp: find_None_iff)
  then obtain k where "k < length es" "named name (es ! k)" "e = es ! k" by (auto simp: find_Some_iff)
  then have "k = j" using assms unfolding names_ok_def named_def by blast
  with e \<open>e = es ! k\<close> show ?thesis by (simp add: dir_map_def)
qed

lemma dir_map_None: "dir_map es name = None \<longleftrightarrow> (\<forall>j < length es. \<not> named name (es ! j))"
  by (auto simp: dir_map_def find_None_iff in_set_conv_nth)

lemma names_ok_update:
  assumes "names_ok es" "in_use e \<longrightarrow> 0 \<in> set (ename e) \<and> (\<forall>k < length es. k \<noteq> j \<longrightarrow> \<not> named (cname e) (es ! k))"
  shows "names_ok (es[j := e])"
proof -
  have "0 \<in> set (ename x)" if "x \<in> set (es[j := e])" "in_use x" for x
    using that assms set_update_subset_insert [of es j e] by (auto simp: names_ok_def)
  moreover have "a = b" if "a < length es" "b < length es" "in_use (es[j := e] ! a)" "in_use (es[j := e] ! b)"
      "cname (es[j := e] ! a) = cname (es[j := e] ! b)" for a b
    using that assms unfolding names_ok_def named_def by (cases "a = j"; cases "b = j") auto
  ultimately show ?thesis unfolding names_ok_def by auto
qed

lemma dir_map_insert:
  assumes "names_ok es" "j < length es" "\<not> in_use (es ! j)" "in_use e" "0 \<in> set (ename e)" "dir_map es (cname e) = None"
  shows "names_ok (es[j := e]) \<and> dir_map (es[j := e]) = (dir_map es)(cname e \<mapsto> inode_sector e)"
proof -
  have fresh: "\<forall>k < length es. \<not> named (cname e) (es ! k)" using assms(6) by (simp add: dir_map_None)
  then have n: "names_ok (es[j := e])" using assms by (intro names_ok_update) auto
  have "dir_map (es[j := e]) name = ((dir_map es)(cname e \<mapsto> inode_sector e)) name" for name
  proof (cases "name = cname e")
    case True
    then show ?thesis using dir_map_Some [OF n, of j name] assms by (simp add: named_def)
  next
    case False
    show ?thesis
    proof (cases "dir_map es name")
      case None
      then have "dir_map (es[j := e]) name = None"
        using False unfolding dir_map_None
        by (metis length_list_update named_def nth_list_update_eq nth_list_update_neq)
      then show ?thesis using None False by simp
    next
      case (Some v)
      then obtain k where k: "k < length es" "named name (es ! k)"
        using dir_map_None [of es name] by auto
      then have "k \<noteq> j" using assms(3) by (auto simp: named_def)
      then show ?thesis using dir_map_Some [OF n, of k name] dir_map_Some [OF assms(1) k] k False by simp
    qed
  qed
  then show ?thesis using n by blast
qed

lemma dir_map_delete:
  assumes "names_ok es" "j < length es" "named name (es ! j)"
  shows "names_ok (es[j := (es ! j)\<lparr>in_use := False\<rparr>]) \<and>
    dir_map (es[j := (es ! j)\<lparr>in_use := False\<rparr>]) = (dir_map es)(name := None)"
proof -
  define e where "e = (es ! j)\<lparr>in_use := False\<rparr>"
  have n: "names_ok (es[j := e])" using assms(1) by (intro names_ok_update) (simp_all add: e_def)
  have un: "k = j" if "k < length es" "named name (es ! k)" for k
    using that assms unfolding names_ok_def named_def by blast
  have "dir_map (es[j := e]) x = ((dir_map es)(name := None)) x" for x
  proof (cases "\<exists>k < length es. k \<noteq> j \<and> named x (es ! k)")
    case True
    then obtain k where k: "k < length es" "k \<noteq> j" "named x (es ! k)" by blast
    then have "x \<noteq> name" using un by blast
    then show ?thesis using dir_map_Some [OF n, of k x] dir_map_Some [OF assms(1) k(1,3)] k by simp
  next
    case False
    then have "dir_map (es[j := e]) x = None"
      unfolding dir_map_None length_list_update
      by (metis assms(2) dir_entry.select_convs(3) dir_entry.surjective dir_entry.update_convs(3) e_def named_def
          nth_list_update_eq nth_list_update_neq)
    moreover have "x \<noteq> name \<Longrightarrow> dir_map es x = None"
      using False assms(3) by (auto simp: dir_map_None named_def)
    ultimately show ?thesis by simp
  qed
  then show ?thesis using n unfolding e_def by blast
qed

lemma set_name_ok:
  assumes "0 \<notin> set name" "length name \<le> 14" "length old = 15"
  shows "length (set_name name old) = 15" "0 \<in> set (set_name name old)"
    "takeWhile (\<lambda>c. c \<noteq> 0) (set_name name old) = name"
proof -
  have n: "set_name name old = name @ 0 # drop (Suc (length name)) old"
    using assms(2) by (simp add: set_name_def splice_def layout)
  show "length (set_name name old) = 15" "0 \<in> set (set_name name old)" using assms(2,3) by (simp_all add: n)
  have "\<And>c. c \<in> set name \<Longrightarrow> c \<noteq> 0" using assms(1) by blast
  then show "takeWhile (\<lambda>c. c \<noteq> 0) (set_name name old) = name" unfolding n by (subst takeWhile_append2) auto
qed

section \<open>Looking up, adding and removing\<close>

lemma lookup_cases:
  assumes "dir_ok s (dinode d) ip" "0 \<notin> set name"
  defines "es \<equiv> ents s (data ip)"
  obtains (absent) "lookup s d name = Inr None" "dir_map es name = None"
  | (found) j where "lookup s d name = Inr (Some (es ! j, 20 * j))" "j < length es" "named name (es ! j)"
      "dir_map es name = Some (inode_sector (es ! j))"
proof (cases "find (\<lambda>j. named name (es ! j)) [0..<length es]")
  case None
  then have "lookup s d name = Inr None" "dir_map es name = None"
    using lookup_loop_ok [OF assms(1,2), of 0] by (auto simp: lookup_def es_def find_None_iff dir_map_None)
  then show thesis by (rule absent)
next
  case (Some j)
  then have "lookup s d name = Inr (Some (es ! j, 20 * j))"
    using lookup_loop_ok [OF assms(1,2), of 0] by (simp add: lookup_def es_def)
  moreover have "j < length es" "named name (es ! j)" using Some by (auto simp: find_Some_iff)
  moreover have "names_ok es" using assms(1) by (simp add: dir_ok_def es_def)
  ultimately show thesis using found dir_map_Some by blast
qed

lemma inode_write_at_end:
  assumes "inodes s i = Some ip" "deny_write_cnt ip = 0" "len (data ip) \<le> int n"
  shows "inode_write_at s i buf cnt (int n) = Inr (s, 0)"
  using assms chunk_size_past_end [OF assms(3), of cnt] unfolding inode_write_at_def iget_def
  by (subst write_loop.simps) auto

lemma write_entry:
  assumes "dir_ok s i ip" "length (ename e) = 15" "j < length (ents s (data ip))"
  obtains s' where "inode_write_at s i (dir_entry_bytes e) (int ENTRY_SIZE) (int (20 * j)) = Inr (s', int ENTRY_SIZE)"
    "wrote s s' (data ip) (20 * j) (dir_entry_bytes e)"
proof -
  define n where "n = nat (len (data ip)) div 20"
  have n: "nat (len (data ip)) = 20 * n" "j < n" using dir_len [OF assms(1)] assms(3) by (simp_all add: n_def)
  have "min (nat 20) (nat (len (data ip)) - nat (int (20 * j))) = 20" unfolding n(1) using n(2) by (auto simp: min_def)
  then show thesis
    using inode_write_at_eq [of s i ip 20 "int (20 * j)" "dir_entry_bytes e"] assms(1,2) that
    by (auto simp: dir_ok_def layout length_dir_entry_bytes simp del: of_nat_mult)
qed

lemma dir_ok_wrote:
  assumes "dir_ok s i ip" "wrote s s' (data ip) n bs" "names_ok (ents s' (data ip))"
  shows "dir_ok s' i ip"
  using assms wrote_frame [OF assms(2)] by (auto simp: dir_ok_def wrote_def extent_ok_def)

lemma dir_add_ok:
  assumes "dir_ok s (dinode d) ip" "0 \<notin> set name" "sec < 4294967296" "length e0 = 20"
  defines "es \<equiv> ents s (data ip)"
  shows "if name \<noteq> [] \<and> length name \<le> 14 \<and> dir_map es name = None \<and> (\<exists>e\<in>set es. \<not> in_use e)
    then \<exists>s' n bs. dir_add e0 s d name sec = Inr (s', True) \<and> wrote s s' (data ip) n bs \<and> dir_ok s' (dinode d) ip \<and>
      dir_map (ents s' (data ip)) = (dir_map es)(name \<mapsto> sec)
    else dir_add e0 s d name sec = Inr (s, False)"
proof (cases "name \<noteq> [] \<and> length name \<le> 14 \<and> dir_map es name = None")
  case False
  have "dir_add e0 s d name sec = Inr (s, False)"
    using assms(1,2) by (cases rule: lookup_cases) (use False in \<open>auto simp: dir_add_def layout es_def\<close>)
  then show ?thesis using False by auto
next
  case True
  then have lk: "lookup s d name = Inr None"
    using lookup_cases [OF assms(1,2)] by (metis es_def option.distinct(1))
  obtain b where b: "find_slot s (dinode d) 0 e0 =
      Inr (b, 20 * (case find (\<lambda>j. \<not> in_use (es ! j)) [0..<length es] of Some j \<Rightarrow> j | None \<Rightarrow> length es))" "length b = 20"
    using find_slot_ok [OF assms(1), of 0 e0] assms(4) unfolding es_def [symmetric] max_0L by auto
  define e where "e = \<lparr>inode_sector = sec, ename = set_name name (ename (dir_entry_of b)), in_use = True\<rparr>"
  have "length (ename (dir_entry_of b)) = 15" using b(2) by (simp add: dir_entry_of_def)
  note nm = set_name_ok [OF assms(2) conjunct1 [OF conjunct2 [OF True]] this]
  have e: "length (ename e) = 15" "cname e = name" "0 \<in> set (ename e)" "in_use e" "inode_sector e = sec"
    using nm by (simp_all add: e_def cname_def)
  have add: "dir_add e0 s d name sec = kbind (inode_write_at s (dinode d) (dir_entry_bytes e) (int ENTRY_SIZE)
      (int (20 * (case find (\<lambda>j. \<not> in_use (es ! j)) [0..<length es] of Some j \<Rightarrow> j | None \<Rightarrow> length es))))
      (\<lambda>w. Inr (fst w, snd w = int ENTRY_SIZE))"
    using True by (simp add: dir_add_def lk b(1) e_def layout)
  show ?thesis
  proof (cases "find (\<lambda>j. \<not> in_use (es ! j)) [0..<length es]")
    case None
    then have "\<forall>e\<in>set es. in_use e" by (auto simp: find_None_iff in_set_conv_nth)
    moreover have "len (data ip) \<le> int (20 * length es)"
      using dir_len [OF assms(1)] by (simp add: es_def)
    then have "inode_write_at s (dinode d) (dir_entry_bytes e) (int ENTRY_SIZE) (int (20 * length es)) = Inr (s, 0)"
      using assms(1) by (intro inode_write_at_end) (auto simp: dir_ok_def)
    ultimately show ?thesis using add None by (auto simp: layout simp del: of_nat_mult)
  next
    case (Some j)
    then have j: "j < length es" "\<not> in_use (es ! j)" by (auto simp: find_Some_iff)
    obtain s' where s': "inode_write_at s (dinode d) (dir_entry_bytes e) (int ENTRY_SIZE) (int (20 * j)) = Inr (s', int ENTRY_SIZE)"
      "wrote s s' (data ip) (20 * j) (dir_entry_bytes e)"
      using write_entry [OF assms(1) e(1)] j(1) unfolding es_def by blast
    have es': "ents s' (data ip) = es[j := e]"
      using ents_wrote [OF s'(2)] j(1) dir_entry_roundtrip [of e] e assms(3) by (simp add: es_def length_dir_entry_bytes)
    have "names_ok es" using assms(1) by (simp add: dir_ok_def es_def)
    then have m: "names_ok (es[j := e])" "dir_map (es[j := e]) = (dir_map es)(name \<mapsto> sec)"
      using dir_map_insert [OF _ j e(4,3)] True e(2,5) by auto
    then have "dir_ok s' (dinode d) ip" using dir_ok_wrote [OF assms(1) s'(2)] es' by simp
    then show ?thesis using True add Some s' m j es' by (auto simp: simp del: of_nat_mult intro!: exI [of _ s'])
  qed
qed

text \<open>
  Removal. \<open>target s v\<close> is the content of the inode in sector \<open>v\<close>, as the table of open inodes has
  it or as it is on disk. It can be removed when it is neither the directory itself nor the file
  of the free map, and its sectors are in use.
\<close>

definition is_open :: "fs \<Rightarrow> nat \<Rightarrow> bool" where
  "is_open s v \<longleftrightarrow> (\<exists>ip \<in> ran (inodes s). sector ip = v)"

definition removable :: "fs \<Rightarrow> inode \<Rightarrow> nat \<Rightarrow> bool" where
  "removable s ip v \<longleftrightarrow> v < capacity s \<and> v \<noteq> sector ip \<and> v \<noteq> sector (map_inode s) \<and>
     (is_open s v \<or>
      (let t = inode_disk_of (disk s v)
       in extent_ok s t \<and> v \<in> used_sectors s \<and> sectors t \<subseteq> used_sectors s \<and> v \<notin> sectors t))"

lemma dir_remove_ok:
  assumes d: "dir_ok s (dinode d) ip" and name: "0 \<notin> set name" and t: "table_ok s" and f: "freemap_ok s"
    and mem: "mem_ok s A_inode" and v: "dir_map (ents s (data ip)) name = Some v" and r: "removable s ip v"
    and apart: "sectors (data ip) \<inter> sectors (data (map_inode s)) = {}"
  shows "\<exists>s'. dir_remove s d name = Inr (s', True) \<and> dir_ok s' (dinode d) ip \<and> freemap_ok s' \<and>
    dir_map (ents s' (data ip)) = (dir_map (ents s (data ip)))(name := None) \<and>
    used_sectors s' = (if is_open s v then used_sectors s
                       else used_sectors s - {v} - sectors (inode_disk_of (disk s v)))"
proof -
  define es where "es = ents s (data ip)"
  obtain j where j: "lookup s d name = Inr (Some (es ! j, 20 * j))" "j < length es" "named name (es ! j)"
      "inode_sector (es ! j) = v"
    using d name by (cases rule: lookup_cases) (use v in \<open>auto simp: es_def\<close>)
  have dk: "disk_ok s" using d by (simp add: dir_ok_def)
  obtain s1 i tp where o: "inode_open s v = Inr (s1, i)" "i \<noteq> NULL" "inodes s1 i = Some tp" "sector tp = v"
    and c: "if i \<in> dom (inodes s)
     then s1 = iput i tp s \<and> tp = (the (inodes s i))\<lparr>open_cnt := open_cnt (the (inodes s i)) + 1\<rparr>
     else s1 = iput i tp (s\<lparr>brk := brk s + 1, open_inodes := i # open_inodes s\<rparr>) \<and>
       (\<forall>j jp. inodes s j = Some jp \<longrightarrow> sector jp \<noteq> v) \<and>
       tp = \<lparr>sector = v, open_cnt = 1, removed = False, data = inode_disk_of (disk s v), deny_write_cnt = 0\<rparr>"
    using inode_open_ok [OF t dk _ mem] r unfolding removable_def by blast
  have fr1: "inodes s1 = (inodes s)(i \<mapsto> tp)" "disk s1 = disk s" "capacity s1 = capacity s" "mem_ok s1 = mem_ok s"
    "free_map s1 = free_map s" "free_map_file s1 = free_map_file s" "files s1 = files s"
    using c by (auto simp: iput_def split: if_splits)
  define mi where "mi = finode (the (files s (free_map_file s)))"
  have mi: "inodes s mi = Some (map_inode s)" using f by (auto simp: freemap_ok_def map_inode_def mi_def)
  have op: "is_open s v \<longleftrightarrow> i \<in> dom (inodes s)"
  proof
    assume "is_open s v"
    then show "i \<in> dom (inodes s)" using c by (auto simp: is_open_def ran_def split: if_splits)
  next
    assume id: "i \<in> dom (inodes s)"
    then obtain kp where kp: "inodes s i = Some kp" by auto
    moreover have "tp = kp\<lparr>open_cnt := open_cnt kp + 1\<rparr>" using c id kp by simp
    then have "sector kp = v" using o(4) by simp
    ultimately show "is_open s v" by (auto simp: is_open_def ran_def)
  qed
  have other: "i \<noteq> k" if "inodes s k = Some kp" "sector kp \<noteq> v" for k kp
    using that c o(4) by (auto split: if_splits)
  have i: "i \<noteq> dinode d" "i \<noteq> mi"
    using other [of "dinode d" ip] other [OF mi] d r by (auto simp: dir_ok_def removable_def)
  have d1: "dir_ok s1 (dinode d) ip" "ents s1 (data ip) = es"
    using d i(1) by (auto simp: dir_ok_def fr1 disk_ok_def extent_ok_def ents_def contents_def byte_def [abs_def] es_def)
  define e where "e = (es ! j)\<lparr>in_use := False\<rparr>"
  have el: "length (ename (es ! j)) = 15" "inode_sector (es ! j) < 4294967296"
    using j(2) dir_len [OF d] read_entry_length [OF d, of j] by (auto simp: es_def ents_def dir_entry_of_def de32_less)
  obtain s2 where s2: "inode_write_at s1 (dinode d) (dir_entry_bytes e) (int ENTRY_SIZE) (int (20 * j)) = Inr (s2, int ENTRY_SIZE)"
    "wrote s1 s2 (data ip) (20 * j) (dir_entry_bytes e)"
    using write_entry [OF d1(1), of e j] el j(2) by (auto simp: e_def d1(2))
  note fr2 = wrote_frame [OF s2(2)]
  have es2: "ents s2 (data ip) = es[j := e]"
    using ents_wrote [OF s2(2)] j(2) dir_entry_roundtrip [of e] el d1(2)
    by (simp add: length_dir_entry_bytes e_def es_def)
  have "names_ok es" using d by (simp add: dir_ok_def es_def)
  then have m: "names_ok (es[j := e])" "dir_map (es[j := e]) = (dir_map es)(name := None)"
    using dir_map_delete [OF _ j(2,3)] by (simp_all add: e_def)
  then have d2: "dir_ok s2 (dinode d) ip" using dir_ok_wrote [OF d1(1) s2(2)] es2 by simp
  define tp' where "tp' = tp\<lparr>removed := True\<rparr>"
  define s3 where "s3 = iput i tp' s2"
  have rm: "inode_remove s2 i = Inr s3"
    using o(2,3) fr2(1) by (simp add: inode_remove_def iget_def s3_def tp'_def)
  have s3: "inodes s3 = (inodes s)(i \<mapsto> tp')" "disk s3 = disk s2" "files s3 = files s"
    "free_map_file s3 = free_map_file s" "capacity s3 = capacity s"
    by (simp_all add: s3_def iput_def fr2 fr1)
  have f3: "freemap_ok s3" "map_inode s3 = map_inode s"
    using freemap_ok_frame [OF f, of s3] d2 i(2) mi_def
    by (auto simp: s3_def iput_def fr2 fr1 dir_ok_def disk_ok_def)
  have u3: "used_sectors s3 = used_sectors s" by (simp add: used_sectors_def s3_def iput_def fr2 fr1)
  have fin: "dir_remove s d name = kbind (inode_close s3 i) (\<lambda>s. Inr (s, True))"
    unfolding dir_remove_def j(1) using j(4) o(1,2) s2(1) rm
    by (simp add: e_def Let_def del: of_nat_mult)
  show ?thesis
  proof (cases "is_open s v")
    case True
    then obtain kp where kp: "inodes s i = Some kp" "0 < open_cnt kp" using t op unfolding table_ok_def by blast
    moreover have "tp = kp\<lparr>open_cnt := open_cnt kp + 1\<rparr>" using c kp(1) op True by simp
    ultimately have "open_cnt tp' \<noteq> 1" by (simp add: tp'_def)
    then have cl: "inode_close s3 i = Inr (iput i (tp'\<lparr>open_cnt := open_cnt tp' - 1\<rparr>) s3)" (is "_ = Inr ?s4")
      using o(2) s3(1) by (intro inode_close_shared) auto
    have "dir_ok ?s4 (dinode d) ip" "ents ?s4 (data ip) = es[j := e]"
      using d2 i(1) es2 s3
      by (auto simp: dir_ok_def iput_def disk_ok_def extent_ok_def ents_def contents_def byte_def [abs_def] s3_def fr2 fr1)
    moreover have "freemap_ok ?s4"
      using freemap_ok_frame(1) [OF f3(1), of ?s4] i(2) f3(1)
      by (auto simp: iput_def mi_def s3_def fr2 fr1 freemap_ok_def disk_ok_def)
    moreover have "used_sectors ?s4 = used_sectors s" using u3 by (simp add: used_sectors_def iput_def)
    ultimately show ?thesis using fin cl m(2) True by (simp add: es_def)
  next
    case False
    then have tp: "open_cnt tp' = 1" "removed tp'" "data tp' = inode_disk_of (disk s v)" "sector tp' = v"
      using c op by (auto simp: tp'_def)
    have "\<exists>s'. inode_close s3 i = Inr s' \<and> freemap_ok s' \<and> synced s' \<and> inodes s' = (inodes s3)(i := None) \<and>
        used_sectors s' = used_sectors s3 - {sector tp'} - sectors (data tp') \<and> capacity s' = capacity s3 \<and>
        mem_ok s' = mem_ok s3 \<and> (\<forall>x. x \<notin> sectors (data (map_inode s3)) \<longrightarrow> disk s' x = disk s3 x)"
      using r False i(2) unfolding removable_def Let_def
      by (intro inode_close_removed [OF f3(1) _ o(2) tp(1,2)])
        (auto simp: s3 tp u3 mi_def extent_ok_def)
    then obtain s' where s': "inode_close s3 i = Inr s'" "freemap_ok s'" "inodes s' = (inodes s3)(i := None)"
      "used_sectors s' = used_sectors s - {v} - sectors (inode_disk_of (disk s v))" "capacity s' = capacity s3"
      "mem_ok s' = mem_ok s3" "\<forall>x. x \<notin> sectors (data (map_inode s)) \<longrightarrow> disk s' x = disk s3 x"
      unfolding u3 tp(3,4) f3(2) by blast
    have cont: "contents s' (data ip) = contents s2 (data ip)"
    proof -
      have x: "extent_ok s2 (data ip)" using d2 by (simp add: dir_ok_def)
      have "byte s' (data ip) k = byte s2 (data ip) k" if "k < nat (len (data ip))" for k
      proof -
        have "start (data ip) + k div 512 \<in> sectors (data ip)" using sector_in_extent(1) [OF x, of k] that by simp
        then have "start (data ip) + k div 512 \<notin> sectors (data (map_inode s))" using apart by blast
        then show ?thesis using s'(7) s3(2) by (simp add: byte_def)
      qed
      then show ?thesis by (simp add: contents_def)
    qed
    then have "ents s' (data ip) = es[j := e]" using es2 by (simp add: ents_def)
    moreover have "dir_ok s' (dinode d) ip"
      using d2 i(1) s' m(1) calculation unfolding dir_ok_def
      by (auto simp: s3 fr2 fr1 s3_def iput_def extent_ok_def freemap_ok_def)
    ultimately show ?thesis using fin s'(1,2,4) m(2) False by (simp add: es_def)
  qed
qed

section \<open>A directory as a map from names\<close>

text \<open>
  The contract of a component that binds names: it can look a name up, and bind a name that fits
  and is not bound yet as long as there is room. What a client may rely on: a sequence of
  additions ends, and never changes or loses a binding that was there before.
\<close>

fun add_all :: "('s \<Rightarrow> 'k \<Rightarrow> 'v \<Rightarrow> ('s \<times> bool) outcome) \<Rightarrow> 's \<Rightarrow> ('k \<times> 'v) list \<Rightarrow> 's outcome" where
  "add_all add s [] = Inr s"
| "add_all add s ((k, v) # kvs) = kbind (add s k v) (\<lambda>r. add_all add (fst r) kvs)"

locale name_map =
  fixes inv :: "'s \<Rightarrow> bool"
    and abs :: "'s \<Rightarrow> 'k \<Rightarrow> 'v option"
    and okk :: "'k \<Rightarrow> bool"
    and okv :: "'v \<Rightarrow> bool"
    and fits :: "'k \<Rightarrow> bool"
    and room :: "'s \<Rightarrow> bool"
    and look :: "'s \<Rightarrow> 'k \<Rightarrow> 'v option outcome"
    and add :: "'s \<Rightarrow> 'k \<Rightarrow> 'v \<Rightarrow> ('s \<times> bool) outcome"
  assumes look_ok: "inv s \<Longrightarrow> okk k \<Longrightarrow> look s k = Inr (abs s k)"
    and add_ok: "inv s \<Longrightarrow> okk k \<Longrightarrow> okv v \<Longrightarrow>
      if fits k \<and> abs s k = None \<and> room s
      then \<exists>s'. add s k v = Inr (s', True) \<and> inv s' \<and> abs s' = (abs s)(k \<mapsto> v)
      else add s k v = Inr (s, False)"
begin

lemma add_keeps:
  assumes "inv s" "okk k" "okv v"
  shows "\<exists>s' b. add s k v = Inr (s', b) \<and> inv s' \<and> abs s \<subseteq>\<^sub>m abs s' \<and> dom (abs s') \<subseteq> insert k (dom (abs s))"
  using add_ok [OF assms] assms(1) by (auto simp: map_le_def split: if_splits)

lemma add_all_keeps:
  "inv s \<Longrightarrow> \<forall>(k, v) \<in> set kvs. okk k \<and> okv v \<Longrightarrow>
   \<exists>s'. add_all add s kvs = Inr s' \<and> inv s' \<and> abs s \<subseteq>\<^sub>m abs s' \<and> dom (abs s') \<subseteq> dom (abs s) \<union> fst ` set kvs"
proof (induction kvs arbitrary: s)
  case (Cons kv kvs)
  obtain k v where kv: "kv = (k, v)" "okk k" "okv v" using Cons.prems(2) by (cases kv) auto
  obtain s1 b where s1: "add s k v = Inr (s1, b)" "inv s1" "abs s \<subseteq>\<^sub>m abs s1" "dom (abs s1) \<subseteq> insert k (dom (abs s))"
    using add_keeps [OF Cons.prems(1) kv(2,3)] by blast
  obtain s' where "add_all add s1 kvs = Inr s'" "inv s'" "abs s1 \<subseteq>\<^sub>m abs s'" "dom (abs s') \<subseteq> dom (abs s1) \<union> fst ` set kvs"
    using Cons.IH [OF s1(2)] Cons.prems(2) by auto
  then show ?case using s1 kv(1) by (auto intro: map_le_trans)
qed auto

end

text \<open>The operations of a directory as a client of the contract calls them.\<close>

definition dir_get :: "dir \<Rightarrow> fs \<Rightarrow> u8 list \<Rightarrow> nat option outcome" where
  "dir_get d s name = kbind (lookup s d name) (\<lambda>r. Inr (map_option (inode_sector \<circ> fst) r))"

lemma dir_get_ok:
  assumes "dir_ok s (dinode d) ip" "0 \<notin> set name"
  shows "dir_get d s name = Inr (dir_map (ents s (data ip)) name)"
  using assms by (cases rule: lookup_cases) (auto simp: dir_get_def)

interpretation dirmap: name_map "\<lambda>s. dir_ok s (dinode d) ip" "\<lambda>s. dir_map (ents s (data ip))"
  "\<lambda>name. 0 \<notin> set name" "\<lambda>sec. sec < 4294967296" "\<lambda>name. name \<noteq> [] \<and> length name \<le> 14"
  "\<lambda>s. \<exists>e\<in>set (ents s (data ip)). \<not> in_use e" "dir_get d" "\<lambda>s. dir_add (replicate 20 c) s d"
  for d :: dir and ip :: inode and c :: u8
proof unfold_locales
  fix s :: fs and name :: "u8 list" and sec :: nat
  assume s: "dir_ok s (dinode d) ip" "0 \<notin> set name"
  show "dir_get d s name = Inr (dir_map (ents s (data ip)) name)" by (rule dir_get_ok [OF s])
  assume "sec < 4294967296"
  from dir_add_ok [OF s this, of "replicate 20 c"]
  show "if (name \<noteq> [] \<and> length name \<le> 14) \<and> dir_map (ents s (data ip)) name = None \<and> (\<exists>e\<in>set (ents s (data ip)). \<not> in_use e)
    then \<exists>s'. dir_add (replicate 20 c) s d name sec = Inr (s', True) \<and> dir_ok s' (dinode d) ip \<and>
      dir_map (ents s' (data ip)) = (dir_map (ents s (data ip)))(name \<mapsto> sec)
    else dir_add (replicate 20 c) s d name sec = Inr (s, False)"
    by (auto split: if_splits)
qed

section \<open>Properties\<close>

definition ex_entry :: "u8 list \<Rightarrow> nat \<Rightarrow> dir_entry" where
  "ex_entry name sec = \<lparr>inode_sector = sec, ename = set_name name (replicate 15 0), in_use = True\<rparr>"

definition ex_root :: inode where
  "ex_root = \<lparr>sector = 1, open_cnt = 1, removed = False,
     data = \<lparr>start = 3, len = 60, imagic = INODE_MAGIC\<rparr>, deny_write_cnt = 0\<rparr>"

definition ex_dir :: fs where
  "ex_dir = ex_freemap\<lparr>
     disk := (disk ex_freemap)(3 := dir_entry_bytes (ex_entry [97] 5) @ replicate 492 0,
                               5 := inode_disk_bytes \<lparr>start = 6, len = 3, imagic = INODE_MAGIC\<rparr>),
     inodes := (inodes ex_freemap)(101 \<mapsto> ex_root), open_inodes := [101, 100],
     free_map := \<lparr>bit_cnt = 16, bits = [0x7f]\<rparr>\<rparr>"

abbreviation ex_d :: dir where "ex_d \<equiv> \<lparr>dinode = 101, dpos = 0\<rparr>"

lemma ex_ents: "ents ex_dir (data ex_root) = [ex_entry [97] 5,
   \<lparr>inode_sector = 0, ename = replicate 15 0, in_use = False\<rparr>, \<lparr>inode_sector = 0, ename = replicate 15 0, in_use = False\<rparr>]"
proof -
  define b where "b = dir_entry_bytes (ex_entry [97] 5)"
  have b: "length b = 20" "dir_entry_of b = ex_entry [97] 5"
    unfolding b_def using set_name_ok [of "[97]" "replicate 15 0"]
    by (auto intro!: length_dir_entry_bytes dir_entry_roundtrip simp: ex_entry_def)
  have "contents ex_dir (data ex_root) = take 60 (b @ replicate 492 0)"
    using b(1) by (intro nth_equalityI)
      (auto simp: contents_def byte_def ex_dir_def ex_root_def b_def nth_append)
  then have c: "contents ex_dir (data ex_root) = b @ replicate 40 0" using b(1) by simp
  have "[0..<3] = [0, 1, 2::nat]" by (simp add: upt_conv_Cons)
  then show ?thesis
    unfolding ents_def c using b by (simp add: ex_root_def dir_entry_of_def de32_def)
qed

lemma ex_dir_used: "used_sectors ex_dir = {..<7}"
proof -
  have b7: "bit (127 :: u32) k \<longleftrightarrow> k < 7" for k
  proof -
    have "(127 :: u32) = mask 7" by (simp add: mask_eq_exp_minus_1)
    then show ?thesis by (auto simp only: bit_mask_iff) simp_all
  qed
  have "bools (free_map ex_dir) = map (bit (127 :: u32)) [0..<16]" by (simp add: bools_def ex_dir_def)
  also have "\<dots> = map (\<lambda>k. k < 7) [0..<16]" by (rule map_cong [OF refl]) (rule b7)
  finally show ?thesis unfolding used_sectors_def by (auto simp: ex_dir_def)
qed

lemma ex_dir_ok: "dir_ok ex_dir 101 ex_root" "table_ok ex_dir" "freemap_ok ex_dir"
proof -
  have n: "0 \<in> set (ename (ex_entry [97] 5))" using set_name_ok [of "[97]" "replicate 15 0"] by (simp add: ex_entry_def)
  have nn: "names_ok (ents ex_dir (data ex_root))" unfolding ex_ents names_ok_def
    using n by (auto simp: less_Suc_eq nth_Cons' split: if_splits)
  have "length (dir_entry_bytes (ex_entry [97] 5)) = 20"
    using set_name_ok [of "[97]" "replicate 15 0"] by (auto intro!: length_dir_entry_bytes simp: ex_entry_def)
  then have dk: "disk_ok ex_dir" using ex_freemap_ok(4) by (auto simp: ex_dir_def disk_ok_def)
  show "dir_ok ex_dir 101 ex_root" using nn dk
    by (auto simp: dir_ok_def extent_ok_def bytes_to_sectors_nat) (auto simp: ex_dir_def ex_root_def ex_freemap_def bytes_to_sectors_nat)
  show "table_ok ex_dir" by (auto simp: table_ok_def ex_dir_def ex_freemap_def ex_root_def NULL_def split: if_splits)
  have u: "elem_cnt 16 = 1" "byte_cnt 16 = 4"
    by (simp_all add: elem_cnt_def byte_cnt_def ELEM_BITS_def DIV_ROUND_UP_def)
  have m: "map_inode ex_dir = the (inodes ex_dir 100)" by (simp add: map_inode_def ex_dir_def ex_freemap_def)
  show "freemap_ok ex_dir" using dk unfolding freemap_ok_def m
    by (simp add: ex_dir_def ex_freemap_def extent_ok_def bitmap_ok_def u bytes_to_sectors_nat NULL_def)
qed

text \<open>
  C11. Adding a name to a directory refines the update of a map: if the name is not empty, has at most
  14 characters, is not in the directory and there is a free entry, the call succeeds, and looking
  up any name then gives what the updated map gives; otherwise the call returns false and changes
  nothing.
\<close>

theorem dir_add_correct:
  assumes "dir_ok s (dinode d) ip" "0 \<notin> set name" "sec < 4294967296" "length e0 = 20"
  defines "m \<equiv> dir_map (ents s (data ip))"
  shows "if name \<noteq> [] \<and> length name \<le> 14 \<and> m name = None \<and> (\<exists>e\<in>set (ents s (data ip)). \<not> in_use e)
    then \<exists>s'. dir_add e0 s d name sec = Inr (s', True) \<and> dir_ok s' (dinode d) ip \<and>
      (\<forall>x. 0 \<notin> set x \<longrightarrow> dir_get d s' x = Inr ((m(name \<mapsto> sec)) x))
    else dir_add e0 s d name sec = Inr (s, False)"
  using dir_add_ok [OF assms(1-4)] dir_get_ok [of _ d ip] unfolding m_def by (auto split: if_splits)

theorem dir_add_correct_witness:
  "\<exists>s'. dir_add (replicate 20 7) ex_dir ex_d [98, 99] 7 = Inr (s', True) \<and> dir_get ex_d s' [98, 99] = Inr (Some 7) \<and>
    dir_get ex_d s' [97] = Inr (Some 5)"
proof -
  have m: "dir_map (ents ex_dir (data ex_root)) [98, 99] = None" "dir_map (ents ex_dir (data ex_root)) [97] = Some 5"
    using set_name_ok(3) [of "[97]" "replicate 15 0"] unfolding ex_ents dir_map_def
    by (simp_all add: named_def cname_def ex_entry_def)
  have "\<exists>e\<in>set (ents ex_dir (data ex_root)). \<not> in_use e" unfolding ex_ents by simp
  with dir_add_correct [of ex_dir ex_d ex_root "[98, 99]" 7 "replicate 20 7"] ex_dir_ok(1) m show ?thesis
    by auto
qed

text \<open>
  Whatever additions are made to a directory, one after the other, each call returns, and no
  binding that was there is lost or changed; names that were not asked for do not appear.
\<close>

theorem dir_additions_keep_bindings:
  assumes "dir_ok s (dinode d) ip" "\<forall>(name, sec) \<in> set kvs. 0 \<notin> set name \<and> sec < 4294967296"
  shows "\<exists>s'. add_all (\<lambda>s. dir_add (replicate 20 c) s d) s kvs = Inr s' \<and> dir_ok s' (dinode d) ip \<and>
    dir_map (ents s (data ip)) \<subseteq>\<^sub>m dir_map (ents s' (data ip)) \<and>
    dom (dir_map (ents s' (data ip))) \<subseteq> dom (dir_map (ents s (data ip))) \<union> fst ` set kvs"
  by (rule dirmap.add_all_keeps [OF assms])

theorem dir_additions_keep_bindings_witness:
  "\<exists>s'. add_all (\<lambda>s. dir_add (replicate 20 0) s ex_d) ex_dir [([98], 7), ([97], 8), ([99], 9), ([100], 10)] = Inr s' \<and>
    dir_ok s' 101 ex_root"
  using dir_additions_keep_bindings [of ex_dir ex_d ex_root "[([98], 7), ([97], 8), ([99], 9), ([100], 10)]" 0] ex_dir_ok(1)
  by auto

text \<open>
  Removing a name from a directory deletes exactly its binding. When nobody has the file open its
  inode and its data sectors are free afterwards; while somebody has it open they stay in use.
\<close>

theorem dir_remove_correct:
  assumes "dir_ok s (dinode d) ip" "0 \<notin> set name" "table_ok s" "freemap_ok s" "mem_ok s A_inode"
    "dir_map (ents s (data ip)) name = Some v" "removable s ip v"
    "sectors (data ip) \<inter> sectors (data (map_inode s)) = {}"
  shows "\<exists>s'. dir_remove s d name = Inr (s', True) \<and> dir_ok s' (dinode d) ip \<and> freemap_ok s' \<and>
    dir_map (ents s' (data ip)) = (dir_map (ents s (data ip)))(name := None) \<and>
    used_sectors s' = (if is_open s v then used_sectors s
                       else used_sectors s - {v} - sectors (inode_disk_of (disk s v)))"
  by (rule dir_remove_ok [OF assms])

theorem dir_remove_correct_witness:
  "\<exists>s'. dir_remove ex_dir ex_d [97] = Inr (s', True) \<and> dir_map (ents s' (data ex_root)) [97] = None \<and>
    used_sectors s' = used_sectors ex_dir - {5, 6}"
proof -
  have m: "dir_map (ents ex_dir (data ex_root)) [97] = Some 5"
    using set_name_ok(3) [of "[97]" "replicate 15 0"] unfolding ex_ents dir_map_def
    by (simp add: named_def cname_def ex_entry_def)
  define t where "t = \<lparr>start = 6, len = 3, imagic = INODE_MAGIC\<rparr>"
  have t: "inode_disk_of (disk ex_dir 5) = t"
    using inode_disk_roundtrip [of t] by (simp add: ex_dir_def t_def INODE_MAGIC_def)
  have st: "sectors t = {6}" by (auto simp: sectors_def t_def bytes_to_sectors_nat)
  note u = ex_dir_used
  have op: "\<not> is_open ex_dir 5" by (auto simp: is_open_def ran_def ex_dir_def ex_freemap_def ex_root_def split: if_splits)
  have mi: "map_inode ex_dir = the (inodes ex_freemap 100)" by (simp add: map_inode_def ex_dir_def ex_freemap_def)
  have r: "removable ex_dir ex_root 5"
    unfolding removable_def Let_def t st u mi
    by (simp add: op extent_ok_def t_def bytes_to_sectors_nat) (simp add: ex_dir_def ex_freemap_def ex_root_def)
  have sd: "sectors (data ex_root) \<inter> sectors (data (map_inode ex_dir)) = {}"
    unfolding mi by (auto simp: sectors_def ex_root_def ex_freemap_def bytes_to_sectors_nat)
  have mem: "mem_ok ex_dir A_inode" by (simp add: ex_dir_def ex_freemap_def)
  have d: "dir_ok ex_dir (dinode ex_d) ex_root" using ex_dir_ok(1) by simp
  have "used_sectors ex_dir - {5} - {6} = used_sectors ex_dir - {5, 6}" by blast
  with dir_remove_correct [OF d _ ex_dir_ok(2,3) mem m r sd] op t st show ?thesis by auto
qed

end
