(* ===== verification/Filesys.thy ===== *)
theory Filesys
  imports Directory
begin

text \<open>
  The file system's interface (\<^verbatim>\<open>filesys/filesys.c\<close>): formatting, creating, opening and removing files
  of the one directory, the root directory. Every call runs under \<^verbatim>\<open>filesys_lock\<close>, so that each is
  one step of the model.
\<close>

definition do_format :: "fs \<Rightarrow> fs outcome" where
  "do_format s =
     kbind (free_map_create s) (\<lambda>s.
     kbind (dir_create s ROOT_DIR_SECTOR 16) (\<lambda>r.
       if \<not> snd r then Inl Kernel_panic else free_map_close (fst r)))"

text \<open>\<open>has_disk\<close> says whether \<^verbatim>\<open>disk_get (0, 1)\<close> finds a disk.\<close>

definition filesys_init :: "bool \<Rightarrow> bool \<Rightarrow> u32 list option \<Rightarrow> bool \<Rightarrow> fs \<Rightarrow> fs outcome" where
  "filesys_init has_disk struct_ok mem format s =
     (if \<not> has_disk then Inl Kernel_panic
      else kbind (free_map_init struct_ok mem (inode_init s)) (\<lambda>s.
           kbind (if format then do_format s else Inr s) free_map_open))"

definition filesys_done :: "fs \<Rightarrow> fs outcome" where
  "filesys_done s = free_map_close s"

text \<open>
  The conjunction that computes \<^verbatim>\<open>success\<close> is evaluated from left to right; a step that is not
  reached leaves the sector 0. \<open>e0\<close> is the initial content of the local entry of \<^verbatim>\<open>dir_add\<close>.
\<close>

definition filesys_create :: "u8 list \<Rightarrow> fs \<Rightarrow> u8 list \<Rightarrow> int \<Rightarrow> (fs \<times> bool) outcome" where
  "filesys_create e0 s name initial_size =
     kbind (dir_open_root s) (\<lambda>r0. let s = fst r0; dir = snd r0 in
     kbind (case dir of
         None \<Rightarrow> Inr (s, 0, False)
       | Some d \<Rightarrow> kbind (free_map_allocate s 1) (\<lambda>r. let s = fst r in case snd r of
           None \<Rightarrow> Inr (s, 0, False)
         | Some isec \<Rightarrow> kbind (inode_create s isec initial_size) (\<lambda>r. let s = fst r in
             if \<not> snd r then Inr (s, isec, False)
             else kbind (dir_add e0 s d name isec) (\<lambda>r. Inr (fst r, isec, snd r))))) (\<lambda>r.
     let s = fst r; isec = fst (snd r); success = snd (snd r)
     in kbind (if \<not> success \<and> isec \<noteq> 0 then free_map_release s isec 1 else Inr s) (\<lambda>s.
        kbind (dir_close s dir) (\<lambda>s. Inr (s, success)))))"

definition filesys_open :: "fs \<Rightarrow> u8 list \<Rightarrow> (fs \<times> addr) outcome" where
  "filesys_open s name =
     kbind (dir_open_root s) (\<lambda>r.
     kbind (case snd r of Some d \<Rightarrow> dir_lookup (fst r) d name | None \<Rightarrow> Inr (fst r, NULL)) (\<lambda>l.
     kbind (dir_close (fst l) (snd r)) (\<lambda>s. file_open s (snd l))))"

definition filesys_remove :: "fs \<Rightarrow> u8 list \<Rightarrow> (fs \<times> bool) outcome" where
  "filesys_remove s name =
     kbind (dir_open_root s) (\<lambda>r.
     kbind (case snd r of Some d \<Rightarrow> dir_remove (fst r) d name | None \<Rightarrow> Inr (fst r, False)) (\<lambda>l.
     kbind (dir_close (fst l) (snd r)) (\<lambda>s. Inr (s, snd l))))"

end
