(* ===== verification/FilesysInv.thy ===== *)
theory FilesysInv
  imports Filesys
begin

text \<open>
  The consistency of the whole file system, and the calls of \<^verbatim>\<open>filesys/filesys.c\<close> as operations on a map
  from names to contents: the free map, the table of open inodes, the root directory and the
  files' inodes together form a disk on which no two files share a sector.
\<close>

section \<open>Consistency\<close>

text \<open>The inode on disk in a sector, the sectors that belong to it, and the bindings of the root directory.\<close>

definition dnode :: "fs \<Rightarrow> nat \<Rightarrow> inode_disk" where
  "dnode s v = inode_disk_of (disk s v)"

definition extent :: "fs \<Rightarrow> nat \<Rightarrow> nat set" where
  "extent s v = insert v (sectors (dnode s v))"

definition bindings :: "fs \<Rightarrow> u8 list \<Rightarrow> nat option" where
  "bindings s = dir_map (ents s (dnode s ROOT_DIR_SECTOR))"

text \<open>The inodes that are in use: of the root directory, of the names bound there, and those that are open.\<close>

definition live :: "fs \<Rightarrow> nat set" where
  "live s = insert ROOT_DIR_SECTOR (ran (bindings s) \<union> sector ` ran (inodes s))"

definition fs_ok :: "fs \<Rightarrow> bool" where
  "fs_ok s \<longleftrightarrow> freemap_ok s \<and> synced s \<and> table_ok s \<and> sector (map_inode s) = FREE_MAP_SECTOR \<and>
     (\<forall>ip \<in> ran (inodes s). data ip = dnode s (sector ip)) \<and>
     (\<forall>ip \<in> ran (inodes s). sector ip = ROOT_DIR_SECTOR \<longrightarrow> deny_write_cnt ip = 0 \<and> \<not> removed ip) \<and>
     (\<forall>v \<in> live s. extent_ok s (dnode s v) \<and> v \<notin> sectors (dnode s v) \<and> extent s v \<subseteq> used_sectors s) \<and>
     (\<forall>u \<in> live s. \<forall>v \<in> live s. u \<noteq> v \<longrightarrow> extent s u \<inter> extent s v = {}) \<and>
     20 dvd len (dnode s ROOT_DIR_SECTOR) \<and> names_ok (ents s (dnode s ROOT_DIR_SECTOR)) \<and>
     inj_on (bindings s) (dom (bindings s)) \<and> ran (bindings s) \<inter> {FREE_MAP_SECTOR, ROOT_DIR_SECTOR} = {}"

text \<open>The file system as its users see it: the content of each name.\<close>

definition files_of :: "fs \<Rightarrow> u8 list \<Rightarrow> u8 list option" where
  "files_of s name = map_option (\<lambda>v. contents s (dnode s v)) (bindings s name)"

text \<open>The root directory has a free entry.\<close>

definition room :: "fs \<Rightarrow> bool" where
  "room s \<longleftrightarrow> (\<exists>e \<in> set (ents s (dnode s ROOT_DIR_SECTOR)). \<not> in_use e)"

lemmas fs_sectors = FREE_MAP_SECTOR_def ROOT_DIR_SECTOR_def

definition same_table :: "fs \<Rightarrow> fs \<Rightarrow> bool" where
  "same_table s s' \<longleftrightarrow> inodes s' = inodes s \<and> open_inodes s' = open_inodes s \<and> brk s' = brk s \<and> capacity s' = capacity s \<and>
     mem_ok s' = mem_ok s \<and> files s' = files s \<and> free_map_file s' = free_map_file s"

lemma same_table_simps:
  assumes "same_table s s'"
  shows "table_ok s' = table_ok s" "map_inode s' = map_inode s" "extent_ok s' d = extent_ok s d"
  using assms by (simp_all add: same_table_def table_ok_def map_inode_def extent_ok_def)

lemma root_live [simp, intro]: "ROOT_DIR_SECTOR \<in> live s"
  by (simp add: live_def)

lemma bound_live: "bindings s name = Some v \<Longrightarrow> v \<in> live s"
  by (auto simp: live_def ranI)

lemma open_live: "inodes s i = Some ip \<Longrightarrow> sector ip \<in> live s"
  by (auto simp: live_def intro: ranI)

lemma map_live:
  assumes "fs_ok s"
  shows "FREE_MAP_SECTOR \<in> live s" "data (map_inode s) = dnode s FREE_MAP_SECTOR"
proof -
  have m: "inodes s (finode (the (files s (free_map_file s)))) = Some (map_inode s)"
    using assms by (auto simp: fs_ok_def freemap_ok_def map_inode_def)
  show "FREE_MAP_SECTOR \<in> live s" using open_live [OF m] assms by (simp add: fs_ok_def)
  show "data (map_inode s) = dnode s FREE_MAP_SECTOR" using ranI [of "inodes s", OF m] assms by (auto simp: fs_ok_def)
qed

lemma extent_apart:
  assumes "fs_ok s" "u \<in> live s" "v \<in> live s" "u \<noteq> v"
  shows "extent s u \<inter> extent s v = {}" "u \<notin> sectors (dnode s v)" "sectors (dnode s u) \<inter> sectors (dnode s v) = {}"
proof -
  show e: "extent s u \<inter> extent s v = {}" using assms unfolding fs_ok_def by blast
  show "u \<notin> sectors (dnode s v)" "sectors (dnode s u) \<inter> sectors (dnode s v) = {}" using e by (auto simp: extent_def)
qed

lemma live_ok:
  assumes "fs_ok s" "v \<in> live s"
  shows "extent_ok s (dnode s v)" "v \<notin> sectors (dnode s v)" "extent s v \<subseteq> used_sectors s" "v < capacity s"
proof -
  show "extent_ok s (dnode s v)" "v \<notin> sectors (dnode s v)" and u: "extent s v \<subseteq> used_sectors s"
    using assms unfolding fs_ok_def by blast+
  have "v \<in> used_sectors s" using u by (auto simp: extent_def)
  then show "v < capacity s" using assms(1) by (simp add: used_sectors_def fs_ok_def freemap_ok_def)
qed

lemma contents_same:
  assumes "extent_ok s d" "\<forall>x \<in> sectors d. disk s' x = disk s x"
  shows "contents s' d = contents s d"
  using assms sector_in_extent(1) [OF assms(1)] by (auto simp: contents_def byte_def)

lemma ents_same: "contents s' d = contents s d \<Longrightarrow> ents s' d = ents s d"
  by (simp add: ents_def)

text \<open>A change of the disk outside of all files, that of the free map apart.\<close>

lemma fs_ok_frame:
  assumes "fs_ok s" "same_table s s'" "freemap_ok s'" "synced s'"
    "\<forall>v \<in> live s. disk s' v = disk s v" "\<forall>v \<in> live s - {FREE_MAP_SECTOR}. \<forall>x \<in> sectors (dnode s v). disk s' x = disk s x"
    "\<forall>v \<in> live s. extent s v \<subseteq> used_sectors s'"
  shows "fs_ok s'" "bindings s' = bindings s" "live s' = live s" "\<And>v. v \<in> live s \<Longrightarrow> dnode s' v = dnode s v"
    "files_of s' = files_of s" "ents s' (dnode s ROOT_DIR_SECTOR) = ents s (dnode s ROOT_DIR_SECTOR)"
proof -
  show dn: "dnode s' v = dnode s v" if "v \<in> live s" for v using assms(5) that by (simp add: dnode_def)
  have c: "contents s' (dnode s v) = contents s (dnode s v)" if "v \<in> live s" "v \<noteq> FREE_MAP_SECTOR" for v
    using contents_same [of s "dnode s v" s'] live_ok(1) [OF assms(1)] assms(6) that by blast
  show ee: "ents s' (dnode s ROOT_DIR_SECTOR) = ents s (dnode s ROOT_DIR_SECTOR)"
    by (rule ents_same [OF c [OF root_live]]) (simp add: fs_sectors)
  show bi: "bindings s' = bindings s" using ee dn [OF root_live] by (simp add: bindings_def)
  note st = same_table_simps [OF assms(2)]
  have in': "inodes s' = inodes s" using assms(2) by (simp add: same_table_def)
  show lv: "live s' = live s" by (simp add: live_def bi in')
  have ex: "extent s' v = extent s v" if "v \<in> live s" for v using dn [OF that] by (simp add: extent_def)
  have op: "sector ip \<in> live s" if "ip \<in> ran (inodes s)" for ip using that by (auto simp: live_def)
  show "files_of s' = files_of s"
  proof
    fix name
    show "files_of s' name = files_of s name"
    proof (cases "bindings s name")
      case (Some v)
      have "v \<noteq> FREE_MAP_SECTOR" using Some assms(1) ranI [of "bindings s" name v] by (auto simp: fs_ok_def)
      then show ?thesis using Some c [of v] dn [of v] bound_live [OF Some] by (simp add: files_of_def bi)
    qed (simp add: files_of_def bi)
  qed
  show "fs_ok s'"
    using assms(1,3,4,7) unfolding fs_ok_def lv st bi in' by (simp add: dn ex op ee)
qed

text \<open>Binding a name to an inode of its own.\<close>

lemma fs_ok_bind:
  assumes "fs_ok s" "wrote s s' (dnode s ROOT_DIR_SECTOR) n bs" "names_ok (ents s' (dnode s ROOT_DIR_SECTOR))"
    "dir_map (ents s' (dnode s ROOT_DIR_SECTOR)) = (bindings s)(name \<mapsto> v)" "bindings s name = None"
    "\<forall>u \<in> live s. extent s u \<inter> extent s v = {}" "extent_ok s (dnode s v)" "v \<notin> sectors (dnode s v)" "extent s v \<subseteq> used_sectors s"
  shows "fs_ok s'" "files_of s' = (files_of s)(name \<mapsto> contents s (dnode s v))" "inodes s' = inodes s"
proof -
  note fr = wrote_frame [OF assms(2)]
  have dk: "disk s' x = disk s x" if "x \<notin> sectors (dnode s ROOT_DIR_SECTOR)" for x using assms(2) that by (auto simp: wrote_def)
  have v: "v \<notin> live s" using assms(6) by (auto simp: extent_def)
  have apart: "x \<notin> sectors (dnode s ROOT_DIR_SECTOR)" if "x \<in> extent s u" "u \<in> insert v (live s)" "u \<noteq> ROOT_DIR_SECTOR" for x u
    using that assms(6) extent_apart(1) [OF assms(1) root_live, of u] root_live [of s] by (auto simp: extent_def)
  have dn: "dnode s' u = dnode s u" if "u \<in> insert v (live s)" for u
  proof (cases "u = ROOT_DIR_SECTOR")
    case True
    then show ?thesis using dk live_ok(2) [OF assms(1) root_live] by (simp add: dnode_def)
  next
    case False
    then show ?thesis using dk apart [of u u] that by (simp add: dnode_def extent_def)
  qed
  have c: "contents s' (dnode s u) = contents s (dnode s u)" if "u \<in> insert v (live s)" "u \<noteq> ROOT_DIR_SECTOR" for u
    using contents_same [of s "dnode s u" s'] live_ok(1) [OF assms(1)] assms(7) that apart dk by (auto simp: extent_def)
  have bi: "bindings s' = (bindings s)(name \<mapsto> v)" using assms(4) dn [of ROOT_DIR_SECTOR] by (simp add: bindings_def)
  have ra: "ran (bindings s') = insert v (ran (bindings s))" using assms(5) by (simp add: bi)
  have lv: "live s' = insert v (live s)" by (auto simp: live_def ra fr)
  have ex: "extent s' u = extent s u" if "u \<in> insert v (live s)" for u using dn [OF that] by (simp add: extent_def)
  have mi: "map_inode s' = map_inode s" by (simp add: map_inode_def fr)
  have m0: "FREE_MAP_SECTOR \<in> live s" "data (map_inode s) = dnode s FREE_MAP_SECTOR" by (rule map_live [OF assms(1)])+
  have us: "used_sectors s' = used_sectors s" by (simp add: used_sectors_def fr)
  have eo: "extent_ok s' d = extent_ok s d" for d by (simp add: extent_ok_def fr)
  have "freemap_ok s'" using assms(1,2) by (auto simp: fs_ok_def wrote_def fr intro: freemap_ok_frame(1) [of s])
  moreover have "synced s'" using assms(1) c [of FREE_MAP_SECTOR] m0 by (simp add: synced_def mi fs_ok_def fr fs_sectors)
  moreover have "table_ok s'" using assms(1) by (simp add: fs_ok_def table_ok_def fr)
  moreover have "data ip = dnode s' (sector ip)" if "ip \<in> ran (inodes s')" for ip
    using that assms(1) dn [of "sector ip"] by (auto simp: fs_ok_def fr live_def)
  moreover have "extent_ok s' (dnode s' u) \<and> u \<notin> sectors (dnode s' u) \<and> extent s' u \<subseteq> used_sectors s'" if "u \<in> live s'" for u
    using that assms(7-9) live_ok(1-3) [OF assms(1), of u] by (cases "u = v") (simp_all add: lv dn ex us eo)
  moreover have "extent s' u \<inter> extent s' w = {}" if "u \<in> live s'" "w \<in> live s'" "u \<noteq> w" for u w
    using that assms(6) extent_apart(1) [OF assms(1), of u w] by (cases "u = v"; cases "w = v") (auto simp: lv ex)
  moreover have "inj_on (bindings s') (dom (bindings s'))"
  proof -
    have "v \<notin> ran (bindings s)" using v by (simp add: live_def)
    then show ?thesis using assms(1) by (auto simp: bi fs_ok_def inj_on_def ran_def)
  qed
  moreover have "ran (bindings s') \<inter> {FREE_MAP_SECTOR, ROOT_DIR_SECTOR} = {}"
    using assms(1) v m0(1) by (auto simp: ra fs_ok_def)
  ultimately show "fs_ok s'"
    using assms(1,3) dn [of ROOT_DIR_SECTOR] unfolding fs_ok_def mi by (simp add: fr)
  show "inodes s' = inodes s" by (rule fr)
  show "files_of s' = (files_of s)(name \<mapsto> contents s (dnode s v))"
  proof
    fix x
    have w: "w \<noteq> ROOT_DIR_SECTOR \<and> w \<in> live s" if "bindings s x = Some w" for w
      using that assms(1) bound_live [OF that] ranI [of "bindings s" x w] by (auto simp: fs_ok_def)
    show "files_of s' x = ((files_of s)(name \<mapsto> contents s (dnode s v))) x"
    proof (cases "x = name")
      case True
      have "v \<noteq> ROOT_DIR_SECTOR" using v by auto
      then show ?thesis using True c [of v] dn [of v] by (simp add: files_of_def bi)
    next
      case False
      then show ?thesis using w c dn by (cases "bindings s x") (simp_all add: files_of_def bi)
    qed
  qed
qed

section \<open>Opening and closing\<close>

lemma fs_ok_table:
  assumes "fs_ok s" "table_ok s'" "disk s' = disk s" "capacity s' = capacity s" "mem_ok s' = mem_ok s" "free_map s' = free_map s"
    "free_map_file s' = free_map_file s" "files s' = files s" "map_inode s' = map_inode s"
    "inodes s' (finode (the (files s (free_map_file s)))) \<noteq> None"
    "\<forall>ip \<in> ran (inodes s'). sector ip \<in> live s \<and> data ip = dnode s (sector ip) \<and>
       (sector ip = ROOT_DIR_SECTOR \<longrightarrow> deny_write_cnt ip = 0 \<and> \<not> removed ip)"
  shows "fs_ok s'" "bindings s' = bindings s" "files_of s' = files_of s" "used_sectors s' = used_sectors s"
    "dnode s' v = dnode s v" "ents s' (dnode s ROOT_DIR_SECTOR) = ents s (dnode s ROOT_DIR_SECTOR)"
proof -
  show dn: "dnode s' v = dnode s v" for v using assms(3) by (simp add: dnode_def)
  have c: "contents s' d = contents s d" for d using assms(3) by (simp add: contents_def byte_def [abs_def])
  then show en: "ents s' (dnode s ROOT_DIR_SECTOR) = ents s (dnode s ROOT_DIR_SECTOR)" by (simp add: ents_def)
  show bi: "bindings s' = bindings s" using en dn by (simp add: bindings_def)
  show "files_of s' = files_of s" by (rule ext) (simp add: files_of_def bi c dn)
  show us: "used_sectors s' = used_sectors s" using assms(6) by (simp add: used_sectors_def)
  have lv: "live s' \<subseteq> live s" using assms(11) by (auto simp: live_def bi)
  have eo: "extent_ok s' d = extent_ok s d" for d by (simp add: extent_ok_def assms(4))
  have ex: "extent s' v = extent s v" for v by (simp add: extent_def dn)
  have f: "freemap_ok s" "synced s" using assms(1) by (simp_all add: fs_ok_def)
  have dk: "disk_ok s' = disk_ok s" by (simp add: disk_ok_def assms(3,4))
  have "freemap_ok s'" using f(1) assms(4-10) dk eo unfolding freemap_ok_def by simp
  moreover have "synced s'" using f(2) assms(6,9) c by (simp add: synced_def)
  moreover have "\<forall>v \<in> live s'. extent_ok s (dnode s v) \<and> v \<notin> sectors (dnode s v) \<and> extent s v \<subseteq> used_sectors s"
    using lv live_ok(1-3) [OF assms(1)] by blast
  moreover have "\<forall>u \<in> live s'. \<forall>v \<in> live s'. u \<noteq> v \<longrightarrow> extent s u \<inter> extent s v = {}"
    using lv extent_apart(1) [OF assms(1)] by blast
  ultimately show "fs_ok s'" using assms(1,2,9,11) unfolding fs_ok_def dn bi us eo ex en by simp
qed

lemma fs_open:
  assumes "fs_ok s" "v \<in> live s" "mem_ok s A_inode" "v \<noteq> FREE_MAP_SECTOR"
  obtains s' i ip where "inode_open s v = Inr (s', i)" "i \<noteq> NULL" "inodes s' i = Some ip" "sector ip = v" "data ip = dnode s v"
    "fs_ok s'" "files_of s' = files_of s" "bindings s' = bindings s" "disk s' = disk s" "mem_ok s' = mem_ok s" "used_sectors s' = used_sectors s"
    "inodes s' = (inodes s)(i \<mapsto> ip)" "files s' = files s" "brk s \<le> brk s'" "\<forall>jp. inodes s i = Some jp \<longrightarrow> sector jp = v"
proof -
  have t: "table_ok s" "disk_ok s" using assms(1) by (simp_all add: fs_ok_def freemap_ok_def)
  obtain s' i ip where o: "inode_open s v = Inr (s', i)" "i \<noteq> NULL" "table_ok s'" "inodes s' i = Some ip" "sector ip = v"
    and c: "if i \<in> dom (inodes s)
     then s' = iput i ip s \<and> ip = (the (inodes s i))\<lparr>open_cnt := open_cnt (the (inodes s i)) + 1\<rparr>
     else s' = iput i ip (s\<lparr>brk := brk s + 1, open_inodes := i # open_inodes s\<rparr>) \<and>
       (\<forall>j jp. inodes s j = Some jp \<longrightarrow> sector jp \<noteq> v) \<and>
       ip = \<lparr>sector = v, open_cnt = 1, removed = False, data = inode_disk_of (disk s v), deny_write_cnt = 0\<rparr>"
    using inode_open_ok [OF t live_ok(4) [OF assms(1,2)] assms(3)] by blast
  have fr: "inodes s' = (inodes s)(i \<mapsto> ip)" "disk s' = disk s" "capacity s' = capacity s" "mem_ok s' = mem_ok s"
    "free_map s' = free_map s" "free_map_file s' = free_map_file s" "files s' = files s"
    using c by (auto simp: iput_def split: if_splits)
  have sc: "\<forall>jp. inodes s i = Some jp \<longrightarrow> sector jp = v" using c o(5) by (auto simp: domI)
  have br: "brk s \<le> brk s'" using c by (auto simp: iput_def split: if_splits)
  define mi where "mi = finode (the (files s (free_map_file s)))"
  have mi: "inodes s mi = Some (map_inode s)" using assms(1) by (auto simp: fs_ok_def freemap_ok_def map_inode_def mi_def)
  have r: "\<forall>jp \<in> ran (inodes s). data jp = dnode s (sector jp) \<and> (sector jp = ROOT_DIR_SECTOR \<longrightarrow> deny_write_cnt jp = 0 \<and> \<not> removed jp)"
    using assms(1) unfolding fs_ok_def by blast
  have ip: "data ip = dnode s v \<and> (v = ROOT_DIR_SECTOR \<longrightarrow> deny_write_cnt ip = 0 \<and> \<not> removed ip)"
  proof (cases "i \<in> dom (inodes s)")
    case True
    then obtain kp where kp: "inodes s i = Some kp" by auto
    then have e: "ip = kp\<lparr>open_cnt := open_cnt kp + 1\<rparr>" using c True by simp
    have "kp \<in> ran (inodes s)" using kp by (rule ranI)
    then show ?thesis using r o(5) by (auto simp: e)
  next
    case False
    then show ?thesis using c by (auto simp: dnode_def)
  qed
  have mi': "inodes s' mi \<noteq> None" using mi by (simp add: fr)
  have False: "i \<noteq> mi"
  proof
    assume "i = mi"
    then have "sector ip = sector (map_inode s)" using c mi by (simp add: domI)
    then show False using assms(1,4) o(5) by (simp add: fs_ok_def)
  qed
  have m: "map_inode s' = map_inode s" using False by (simp add: map_inode_def fr mi_def)
  have "\<forall>jp \<in> ran (inodes s'). sector jp \<in> live s \<and> data jp = dnode s (sector jp) \<and>
     (sector jp = ROOT_DIR_SECTOR \<longrightarrow> deny_write_cnt jp = 0 \<and> \<not> removed jp)"
      using r ip o(5) assms(2) by (auto simp: fr ran_def live_def split: if_splits)
  note k = fs_ok_table [OF assms(1) o(3) fr(2-7) m mi' [unfolded mi_def] this]
  show thesis by (rule that [OF o(1,2,4,5) conjunct1 [OF ip] k(1,3,2) fr(2,4) k(4) fr(1,7) br sc])
qed

text \<open>Closing the root directory.\<close>

lemma fs_close_root:
  assumes "fs_ok s" "inodes s i = Some ip" "i \<noteq> NULL" "sector ip = ROOT_DIR_SECTOR"
  shows "\<exists>s'. inode_close s i = Inr s' \<and> fs_ok s' \<and> files_of s' = files_of s \<and> used_sectors s' = used_sectors s \<and>
    mem_ok s' = mem_ok s \<and> (\<forall>j. j \<noteq> i \<longrightarrow> inodes s' j = inodes s j) \<and> files s' = files s \<and> brk s' = brk s \<and> disk s' = disk s"
proof -
  define mi where "mi = finode (the (files s (free_map_file s)))"
  have mi: "inodes s mi = Some (map_inode s)" using assms(1) by (auto simp: fs_ok_def freemap_ok_def map_inode_def mi_def)
  have "sector (map_inode s) = 0" using assms(1) by (simp add: fs_ok_def fs_sectors)
  then have ne: "i \<noteq> mi" using mi assms(2,4) by (auto simp: fs_sectors)
  have t: "table_ok s" using assms(1) by (simp add: fs_ok_def)
  have r: "\<forall>jp \<in> ran (inodes s). data jp = dnode s (sector jp) \<and> (sector jp = ROOT_DIR_SECTOR \<longrightarrow> deny_write_cnt jp = 0 \<and> \<not> removed jp)"
    using assms(1) unfolding fs_ok_def by blast
  have ip: "deny_write_cnt ip = 0" "\<not> removed ip" "data ip = dnode s ROOT_DIR_SECTOR" "0 < open_cnt ip"
    using r ranI [of "inodes s", OF assms(2)] assms(2,4) t unfolding table_ok_def by fastforce+
  show ?thesis
  proof (cases "open_cnt ip = 1")
    case True
    define s' where "s' = s\<lparr>inodes := (inodes s)(i := None), open_inodes := remove1 i (open_inodes s)\<rparr>"
    have cl: "inode_close s i = Inr s'" unfolding s'_def by (rule inode_close_last [OF assms(2,3) True ip(2)])
    have t': "table_ok s'" using t unfolding table_ok_def s'_def by (auto split: if_splits)
    have "\<forall>jp \<in> ran (inodes s'). sector jp \<in> live s \<and> data jp = dnode s (sector jp) \<and>
       (sector jp = ROOT_DIR_SECTOR \<longrightarrow> deny_write_cnt jp = 0 \<and> \<not> removed jp)"
      using r by (auto simp: s'_def ran_def live_def split: if_splits)
    from fs_ok_table [OF assms(1) t' _ _ _ _ _ _ _ _ this] ne mi
    show ?thesis using cl by (auto simp: s'_def map_inode_def mi_def)
  next
    case False
    define s' where "s' = iput i (ip\<lparr>open_cnt := open_cnt ip - 1\<rparr>) s"
    have cl: "inode_close s i = Inr s'" unfolding s'_def by (rule inode_close_shared [OF assms(2,3) False])
    have t': "table_ok s'" unfolding s'_def using False ip by (intro table_ok_update [OF t assms(2)]) auto
    have "\<forall>jp \<in> ran (inodes s'). sector jp \<in> live s \<and> data jp = dnode s (sector jp) \<and>
       (sector jp = ROOT_DIR_SECTOR \<longrightarrow> deny_write_cnt jp = 0 \<and> \<not> removed jp)"
      using r ip assms(4) by (auto simp: s'_def iput_def ran_def live_def split: if_splits)
    from fs_ok_table [OF assms(1) t' _ _ _ _ _ _ _ _ this] ne mi
    show ?thesis using cl by (auto simp: s'_def iput_def map_inode_def mi_def)
  qed
qed

section \<open>Creating a file\<close>

lemma map_updated_same_table: "map_updated s s' \<Longrightarrow> same_table s s'"
  using freemap_ok_map_updated [of s s'] by (simp add: same_table_def)

text \<open>A sector that is used by no inode.\<close>

definition unowned :: "fs \<Rightarrow> nat \<Rightarrow> bool" where
  "unowned s x \<longleftrightarrow> (\<forall>u \<in> live s. x \<notin> extent s u)"

lemma free_unowned: "fs_ok s \<Longrightarrow> x \<notin> used_sectors s \<Longrightarrow> unowned s x"
  using live_ok(3) by (auto simp: unowned_def)

text \<open>The free map may change as long as the sectors of the inodes stay in use.\<close>

lemma fs_ok_map_updated:
  assumes "fs_ok s" "map_updated s s'" "freemap_ok s'" "synced s'" "\<forall>x. x \<in> used_sectors s \<and> \<not> unowned s x \<longrightarrow> x \<in> used_sectors s'"
  shows "fs_ok s'" "files_of s' = files_of s" "bindings s' = bindings s" "live s' = live s" "\<And>v. v \<in> live s \<Longrightarrow> dnode s' v = dnode s v"
    "room s' = room s"
proof -
  have m: "data (map_inode s) = dnode s FREE_MAP_SECTOR" "FREE_MAP_SECTOR \<in> live s" using map_live [OF assms(1)] by simp_all
  have dk: "disk s' x = disk s x" if "x \<notin> sectors (dnode s FREE_MAP_SECTOR)" for x
    using assms(2) that by (auto simp: map_updated_def m(1))
  have d1: "\<forall>v \<in> live s. disk s' v = disk s v"
    using dk extent_apart(2) [OF assms(1)] live_ok(2) [OF assms(1)] m(2) by metis
  have d2: "\<forall>v \<in> live s - {FREE_MAP_SECTOR}. \<forall>x \<in> sectors (dnode s v). disk s' x = disk s x"
    using dk extent_apart(3) [OF assms(1) _ m(2)] by blast
  have u: "\<forall>v \<in> live s. extent s v \<subseteq> used_sectors s'"
    using assms(5) live_ok(3) [OF assms(1)] by (fastforce simp: unowned_def)
  note fr = fs_ok_frame [OF assms(1) map_updated_same_table [OF assms(2)] assms(3,4) d1 d2 u]
  show "fs_ok s'" "files_of s' = files_of s" "bindings s' = bindings s" "live s' = live s" "\<And>v. v \<in> live s \<Longrightarrow> dnode s' v = dnode s v"
    by (fact fr)+
  show "room s' = room s" using fr(4) [OF root_live] fr(6) by (simp add: room_def)
qed

lemma unowned_frame:
  assumes "live s' = live s" "\<And>v. v \<in> live s \<Longrightarrow> dnode s' v = dnode s v"
  shows "unowned s' x = unowned s x"
  using assms by (simp add: unowned_def extent_def)

lemma fs_allocate:
  assumes "fs_ok s"
  obtains (none) "free_map_allocate s 1 = Inr (s, None)"
  | (sector) s' v where "free_map_allocate s 1 = Inr (s', Some v)" "fs_ok s'" "files_of s' = files_of s" "bindings s' = bindings s" "same_table s s'"
      "v \<notin> used_sectors s" "used_sectors s' = insert v (used_sectors s)" "unowned s' v" "room s' = room s"
proof -
  have f: "freemap_ok s" using assms by (simp add: fs_ok_def)
  from free_map_allocate_ok [OF f, of 1] show thesis
  proof (elim disjE exE conjE)
    fix s' v
    assume a: "free_map_allocate s 1 = Inr (s', Some v)" "freemap_ok s'" "synced s'" "map_updated s s'"
      "{v..<v + 1} \<inter> used_sectors s = {}" "used_sectors s' = used_sectors s \<union> {v..<v + 1}"
    have v: "{v..<v + 1} = {v}" by auto
    note k = fs_ok_map_updated [OF assms a(4,2,3)]
    have "unowned s' v = unowned s v" using a(6) k by (intro unowned_frame) simp_all
    moreover have "v \<notin> used_sectors s" using a(5) by (simp add: v)
    ultimately show thesis
      using a(1,6) k(1-3,6) map_updated_same_table [OF a(4)] free_unowned [OF assms]
      by (intro sector [of s' v]) (simp_all add: v)
  qed (use none in auto)
qed

lemma fs_release:
  assumes "fs_ok s" "v \<in> used_sectors s" "unowned s v"
  shows "\<exists>s'. free_map_release s v 1 = Inr s' \<and> fs_ok s' \<and> files_of s' = files_of s \<and> same_table s s' \<and>
    used_sectors s' = used_sectors s - {v}"
proof -
  have f: "freemap_ok s" using assms by (simp add: fs_ok_def)
  have v: "{v..<v + 1} = {v}" by auto
  have b: "v + 1 \<le> bit_cnt (free_map s)" using assms(2) by (simp add: used_sectors_def)
  obtain s' where a: "free_map_release s v 1 = Inr s'" "freemap_ok s'" "synced s'" "map_updated s s'" "used_sectors s' = used_sectors s - {v}"
    using free_map_release_ok [OF f _ b] assms(2) by (auto simp: v)
  have "\<forall>x. x \<in> used_sectors s \<and> \<not> unowned s x \<longrightarrow> x \<in> used_sectors s'" using a(5) assms(3) by auto
  from fs_ok_map_updated(1,2) [OF assms(1) a(4,2,3) this] show ?thesis
    using a map_updated_same_table [OF a(4)] by blast
qed

lemma fs_inode_create:
  assumes "fs_ok s" "mem_ok s A_inode_disk" "0 \<le> l" "l + 511 < 2147483648" "v \<in> used_sectors s" "unowned s v"
  obtains (none) "inode_create s v l = Inr (s, False)"
  | (made) s' where "inode_create s v l = Inr (s', True)" "fs_ok s'" "files_of s' = files_of s" "bindings s' = bindings s" "same_table s s'"
      "extent_ok s' (dnode s' v)" "v \<notin> sectors (dnode s' v)" "contents s' (dnode s' v) = replicate (nat l) 0"
      "\<forall>x \<in> extent s' v. unowned s' x" "used_sectors s' = used_sectors s \<union> extent s' v"
      "sectors (dnode s' v) \<inter> used_sectors s = {}" "len (dnode s' v) = l" "room s' = room s"
proof -
  have f: "freemap_ok s" using assms by (simp add: fs_ok_def)
  have m: "data (map_inode s) = dnode s FREE_MAP_SECTOR" "FREE_MAP_SECTOR \<in> live s" using map_live [OF assms(1)] by simp_all
  have vm: "v \<notin> sectors (data (map_inode s))" using assms(6) m by (auto simp: unowned_def extent_def)
  have mu: "sectors (data (map_inode s)) \<subseteq> used_sectors s" using live_ok(3) [OF assms(1) m(2)] by (auto simp: extent_def m(1))
  from inode_create_ok [OF f assms(2-5) vm mu] show thesis
  proof (elim disjE exE conjE)
    fix s' st
    define d where "d = \<lparr>start = st, len = l, imagic = INODE_MAGIC\<rparr>"
    assume a: "inode_create s v l = Inr (s', True)" "created s s' v \<lparr>start = st, len = l, imagic = INODE_MAGIC\<rparr>"
    then have c: "freemap_ok s'" "synced s'" "dnode s' v = d" "extent_ok s' d" "contents s' d = replicate (nat l) 0"
      "sectors d \<inter> used_sectors s = {}" "used_sectors s' = used_sectors s \<union> sectors d"
      "s' = s\<lparr>free_map := free_map s', disk := disk s'\<rparr>"
      "\<And>x. x \<noteq> v \<and> x \<notin> sectors d \<and> x \<notin> sectors (dnode s FREE_MAP_SECTOR) \<Longrightarrow> disk s' x = disk s x"
      unfolding created_def d_def [symmetric] by (auto simp: dnode_def d_def m(1) [unfolded dnode_def])
    have st: "same_table s s'" unfolding same_table_def by (intro conjI; subst c(8), simp)
    have own: "x \<noteq> v \<and> x \<notin> sectors d" if "x \<in> extent s u" "u \<in> live s" for x u
      using that assms(6) c(6) live_ok(3) [OF assms(1) that(2)] by (auto simp: unowned_def)
    have d1: "\<forall>u \<in> live s. disk s' u = disk s u"
    proof
      fix u
      assume u: "u \<in> live s"
      then have "u \<notin> sectors (dnode s FREE_MAP_SECTOR)" using extent_apart(2) [OF assms(1) _ m(2)] live_ok(2) [OF assms(1) m(2)] by metis
      then show "disk s' u = disk s u" using c(9) own [of u u] u by (simp add: extent_def)
    qed
    have d2: "\<forall>u \<in> live s - {FREE_MAP_SECTOR}. \<forall>x \<in> sectors (dnode s u). disk s' x = disk s x"
    proof (intro ballI)
      fix u x
      assume u: "u \<in> live s - {FREE_MAP_SECTOR}" "x \<in> sectors (dnode s u)"
      then have "x \<notin> sectors (dnode s FREE_MAP_SECTOR)" using extent_apart(3) [OF assms(1) _ m(2)] by blast
      then show "disk s' x = disk s x" using c(9) own [of x u] u by (simp add: extent_def)
    qed
    have us: "\<forall>u \<in> live s. extent s u \<subseteq> used_sectors s'" using live_ok(3) [OF assms(1)] c(7) by blast
    note fr = fs_ok_frame [OF assms(1) st c(1,2) d1 d2 us]
    have un: "unowned s' x = unowned s x" for x by (rule unowned_frame [OF fr(3,4)])
    have ex: "extent s' v = insert v (sectors d)" by (simp add: extent_def c(3))
    have "\<forall>x \<in> extent s' v. unowned s' x"
      using assms(6) free_unowned [OF assms(1)] c(6) by (auto simp: ex un)
    moreover have "v \<notin> sectors d" using c(6) assms(5) by blast
    moreover have "used_sectors s' = used_sectors s \<union> extent s' v" using c(7) assms(5) by (auto simp: ex)
    moreover have "len d = l" by (simp add: d_def)
    moreover have "room s' = room s" using fr(4) [OF root_live] fr(6) by (simp add: room_def)
    ultimately show thesis using a(1) fr(1,2,5) st c(4,5,6) by (intro made [of s']) (simp_all add: c(3))
  qed (use none in blast)
qed

lemma fs_dir_ok:
  assumes "fs_ok s" "inodes s i = Some ip" "sector ip = ROOT_DIR_SECTOR"
  shows "dir_ok s i ip" "data ip = dnode s ROOT_DIR_SECTOR"
proof -
  have r: "ip \<in> ran (inodes s)" using assms(2) by (rule ranI)
  then show d: "data ip = dnode s ROOT_DIR_SECTOR" using assms(1,3) by (auto simp: fs_ok_def)
  show "dir_ok s i ip" using assms r live_ok(1) [OF assms(1) root_live] unfolding dir_ok_def d
    by (auto simp: fs_ok_def freemap_ok_def)
qed

text \<open>What the name must be, and when the directory takes it.\<close>

definition can_bind :: "fs \<Rightarrow> u8 list \<Rightarrow> bool" where
  "can_bind s name \<longleftrightarrow> name \<noteq> [] \<and> length name \<le> NAME_MAX \<and> files_of s name = None \<and> room s"

lemma files_of_None: "files_of s name = None \<longleftrightarrow> bindings s name = None"
  by (simp add: files_of_def)

lemma fs_dir_add:
  assumes "fs_ok s" "inodes s (dinode d) = Some ip" "sector ip = ROOT_DIR_SECTOR" "0 \<notin> set name" "length e0 = 20"
    "extent_ok s (dnode s v)" "v \<notin> sectors (dnode s v)" "\<forall>x \<in> extent s v. unowned s x" "extent s v \<subseteq> used_sectors s"
  shows "if can_bind s name
    then \<exists>s'. dir_add e0 s d name v = Inr (s', True) \<and> fs_ok s' \<and>
      files_of s' = (files_of s)(name \<mapsto> contents s (dnode s v)) \<and> inodes s' = inodes s \<and> mem_ok s' = mem_ok s
    else dir_add e0 s d name v = Inr (s, False)"
proof -
  note d = fs_dir_ok [OF assms(1-3)]
  have "v \<in> used_sectors s" using assms(9) by (simp add: extent_def)
  then have "v < capacity s" using assms(1) by (simp add: used_sectors_def fs_ok_def freemap_ok_def)
  then have v: "v < 4294967296" using assms(1) by (simp add: fs_ok_def freemap_ok_def disk_ok_def)
  have ap: "\<forall>u \<in> live s. extent s u \<inter> extent s v = {}" using assms(8) by (auto simp: unowned_def)
  note add = dir_add_ok [OF d(1) assms(4) v assms(5), unfolded d(2) bindings_def [symmetric]]
  show ?thesis
  proof (cases "can_bind s name")
    case True
    then obtain s' n bs where a: "dir_add e0 s d name v = Inr (s', True)" "wrote s s' (dnode s ROOT_DIR_SECTOR) n bs"
      "dir_ok s' (dinode d) ip" "dir_map (ents s' (dnode s ROOT_DIR_SECTOR)) = (bindings s)(name \<mapsto> v)"
      using add by (auto simp: can_bind_def room_def layout files_of_None)
    have "names_ok (ents s' (dnode s ROOT_DIR_SECTOR))" using a(3) by (simp add: dir_ok_def d(2))
    moreover have "bindings s name = None" using True by (simp add: can_bind_def files_of_None)
    ultimately show ?thesis
      using fs_ok_bind [OF assms(1) a(2) _ a(4) _ ap assms(6,7,9)] True a(1) wrote_frame(2) [OF a(2)] by auto
  next
    case False
    then show ?thesis using add by (auto simp: can_bind_def room_def layout files_of_None split: if_splits)
  qed
qed

lemma filesys_create_ok:
  assumes "fs_ok s" "\<forall>a. mem_ok s a" "0 \<notin> set name" "0 \<le> l" "l + 511 < 2147483648" "length e0 = 20"
  shows "\<exists>s' b. filesys_create e0 s name l = Inr (s', b) \<and> fs_ok s' \<and> (\<forall>a. mem_ok s' a) \<and> (b \<longrightarrow> can_bind s name) \<and>
    files_of s' = (if b then (files_of s)(name \<mapsto> replicate (nat l) 0) else files_of s)"
proof -
  obtain s1 i ip where o: "inode_open s ROOT_DIR_SECTOR = Inr (s1, i)" "i \<noteq> NULL" "inodes s1 i = Some ip" "sector ip = ROOT_DIR_SECTOR"
    "fs_ok s1" "files_of s1 = files_of s" "bindings s1 = bindings s" "disk s1 = disk s" "mem_ok s1 = mem_ok s"
    using fs_open [OF assms(1) root_live] assms(2) by (metis One_nat_def fs_sectors zero_neq_one)
  define d where "d = \<lparr>dinode = i, dpos = 0\<rparr>"
  have root: "dir_open_root s = Inr (s1, Some d)" using o(1,2,9) assms(2) by (simp add: dir_open_root_def dir_open_def d_def)
  have cb: "can_bind s1 name = can_bind s name"
    using o(6,8) by (simp add: can_bind_def room_def dnode_def ents_def contents_def byte_def [abs_def])
  have fin: "\<exists>s'. dir_close t (Some d) = Inr s' \<and> fs_ok s' \<and> files_of s' = files_of t \<and> (\<forall>a. mem_ok s' a)"
    if "fs_ok t" "inodes t i = Some ip" "\<forall>a. mem_ok t a" for t
    using fs_close_root [OF that(1,2) o(2,4)] that(3) by (auto simp: dir_close_def d_def)
  from o(5) show ?thesis
  proof (cases rule: fs_allocate)
    case none
    from fin [OF o(5,3)] o(9) assms(2) show ?thesis
      using none o(6) by (auto simp: filesys_create_def root Let_def intro!: exI [of _ False])
  next
    case (sector s2 v)
    have v0: "v \<noteq> 0" using sector(8) map_live(1) [OF sector(2)] by (auto simp: unowned_def extent_def fs_sectors)
    have s2: "inodes s2 i = Some ip" "\<forall>a. mem_ok s2 a" using sector(5) o(3,9) assms(2) by (simp_all add: same_table_def)
    have rel: "\<exists>s'. kbind (free_map_release t v 1) (\<lambda>s. dir_close s (Some d)) = Inr s' \<and> fs_ok s' \<and> files_of s' = files_of t \<and> (\<forall>a. mem_ok s' a)"
      if t: "fs_ok t" "inodes t i = Some ip" "\<forall>a. mem_ok t a" "v \<in> used_sectors t" "unowned t v" for t
    proof -
      obtain t' where t': "free_map_release t v 1 = Inr t'" "fs_ok t'" "files_of t' = files_of t" "same_table t t'"
        using fs_release [OF t(1,4,5)] by blast
      then show ?thesis using fin [OF t'(2)] t(2,3) by (auto simp: same_table_def)
    qed
    have v2: "v \<in> used_sectors s2" using sector(7) by simp
    from sector(2) s2(2) [rule_format, of A_inode_disk] assms(4,5) v2 sector(8) show ?thesis
    proof (cases rule: fs_inode_create)
      case none
      from rel [OF sector(2) s2 v2 sector(8)] show ?thesis
        using none sector(1,3) o(6) v0 by (auto simp: filesys_create_def root Let_def kbind_assoc [symmetric] intro!: exI [of _ False])
    next
      case (made s3)
      have s3: "inodes s3 (dinode d) = Some ip" "\<forall>a. mem_ok s3 a" using made(5) s2 by (simp_all add: same_table_def d_def)
      have v3: "v \<in> used_sectors s3" "unowned s3 v" "extent s3 v \<subseteq> used_sectors s3" using made(9,10) by (auto simp: extent_def)
      have fs: "files_of s3 = files_of s" using made(3) sector(3) o(6) by simp
      note add = fs_dir_add [OF made(2) s3(1) o(4) assms(3,6) made(6,7,9) v3(3)]
      show ?thesis
      proof (cases "can_bind s3 name")
        case True
        then obtain s4 where s4: "dir_add e0 s3 d name v = Inr (s4, True)" "fs_ok s4"
          "files_of s4 = (files_of s3)(name \<mapsto> replicate (nat l) 0)" "inodes s4 = inodes s3" "mem_ok s4 = mem_ok s3"
          using add made(8) by auto
        from fin [OF s4(2)] s4(4,5) s3 obtain s5 where s5: "dir_close s4 (Some d) = Inr s5" "fs_ok s5" "files_of s5 = files_of s4" "\<forall>a. mem_ok s5 a"
          by (auto simp: d_def)
        have "can_bind s1 name" using True fs made(13) sector(9) o(6) by (simp add: can_bind_def)
        then have "can_bind s name" by (simp add: cb)
        then show ?thesis using sector(1) made(1) s4(1,3) s5 fs by (auto simp: filesys_create_def root Let_def)
      next
        case False
        then have "dir_add e0 s3 d name v = Inr (s3, False)" using add by simp
        moreover obtain s' where "kbind (free_map_release s3 v 1) (\<lambda>s. dir_close s (Some d)) = Inr s'" "fs_ok s'" "files_of s' = files_of s3" "\<forall>a. mem_ok s' a"
          using rel [OF made(2) _ s3(2) v3(1,2)] s3(1) by (auto simp: d_def)
        ultimately show ?thesis
          using sector(1) made(1) fs v0 by (auto simp: filesys_create_def root Let_def kbind_assoc [symmetric] intro!: exI [of _ False])
      qed
    qed
  qed
qed

section \<open>Opening a file\<close>

lemma fs_ok_new_file:
  assumes "fs_ok s" "b \<notin> dom (files s)" "brk s \<le> b"
  shows "fs_ok (s\<lparr>files := (files s)(b \<mapsto> f), brk := Suc b\<rparr>)" (is "fs_ok ?s")
    "files_of (s\<lparr>files := (files s)(b \<mapsto> f), brk := Suc b\<rparr>) = files_of s"
proof -
  have fm: "files s (free_map_file s) \<noteq> None" using assms(1) by (simp add: fs_ok_def freemap_ok_def)
  then have ne: "free_map_file s \<noteq> b" using assms(2) by auto
  have m: "map_inode ?s = map_inode s" using ne by (simp add: map_inode_def)
  have t: "table_ok ?s" using assms(1,3) by (auto simp: fs_ok_def table_ok_def)
  have "disk_ok ?s = disk_ok s" "extent_ok ?s d = extent_ok s d" for d by (simp_all add: disk_ok_def extent_ok_def)
  then have f: "freemap_ok ?s" using assms(1) ne unfolding fs_ok_def freemap_ok_def m by simp
  have c: "contents ?s d = contents s d" for d by (simp add: contents_def byte_def [abs_def])
  have d: "dnode ?s v = dnode s v" "extent ?s v = extent s v" for v by (simp_all add: dnode_def extent_def)
  have e: "ents ?s d = ents s d" for d by (simp add: ents_def c)
  have b: "bindings ?s = bindings s" by (simp add: bindings_def d e)
  have l: "live ?s = live s" by (simp add: live_def b)
  have sy: "synced ?s" using assms(1) by (simp add: fs_ok_def synced_def m c)
  have us: "used_sectors ?s = used_sectors s" by (simp add: used_sectors_def)
  have eo: "extent_ok ?s d = extent_ok s d" for d by (simp add: extent_ok_def)
  show "fs_ok ?s" using assms(1) f t sy unfolding fs_ok_def m d e b l us eo by simp
  show "files_of ?s = files_of s" by (rule ext) (simp add: files_of_def b d c)
qed

text \<open>
  Opening a name: a file at position 0 whose inode has the content that the name stands for, or a
  null pointer when there is no such name.
\<close>

definition opened :: "fs \<Rightarrow> addr \<Rightarrow> u8 list option \<Rightarrow> bool" where
  "opened s f r \<longleftrightarrow> (case r of None \<Rightarrow> f = NULL | Some bs \<Rightarrow> f \<noteq> NULL \<and>
     (\<exists>i ip. files s f = Some \<lparr>finode = i, pos = 0, deny_write = False\<rparr> \<and> inodes s i = Some ip \<and> contents s (data ip) = bs))"

lemma filesys_open_ok:
  assumes "fs_ok s" "\<forall>a. mem_ok s a" "0 \<notin> set name" "\<forall>f \<in> dom (files s). f < brk s"
  shows "\<exists>s' f. filesys_open s name = Inr (s', f) \<and> fs_ok s' \<and> files_of s' = files_of s \<and> opened s' f (files_of s name) \<and>
    (\<forall>g \<in> dom (files s). files s' g = files s g)"
proof -
  obtain s1 i ip where o: "inode_open s ROOT_DIR_SECTOR = Inr (s1, i)" "i \<noteq> NULL" "inodes s1 i = Some ip" "sector ip = ROOT_DIR_SECTOR"
    "fs_ok s1" "files_of s1 = files_of s" "bindings s1 = bindings s" "disk s1 = disk s" "mem_ok s1 = mem_ok s" "files s1 = files s" "brk s \<le> brk s1"
    using fs_open [OF assms(1) root_live] assms(2) by (metis One_nat_def fs_sectors zero_neq_one)
  define d where "d = \<lparr>dinode = i, dpos = 0\<rparr>"
  have root: "dir_open_root s = Inr (s1, Some d)" using o(1,2,9) assms(2) by (simp add: dir_open_root_def dir_open_def d_def)
  note dk = fs_dir_ok [OF o(5,3,4)]
  have dk1: "dir_ok s1 (dinode d) ip" using dk(1) by (simp add: d_def)
  have bi: "dir_map (ents s1 (data ip)) = bindings s" using o(7) by (simp add: dk(2) bindings_def)
  show ?thesis
  proof (cases "bindings s name")
    case None
    then have lk: "lookup s1 d name = Inr None" using lookup_cases [OF dk1 assms(3)] bi by (metis option.distinct(1))
    obtain s2 where s2: "inode_close s1 i = Inr s2" "fs_ok s2" "files_of s2 = files_of s1" "files s2 = files s1"
      using fs_close_root [OF o(5,3,2,4)] by blast
    have "inode_close s2 NULL = Inr s2" by (simp add: inode_close_def)
    then have "filesys_open s name = Inr (s2, NULL)"
      using root lk s2(1) by (simp add: filesys_open_def dir_lookup_def dir_close_def d_def file_open_def)
    then show ?thesis using s2 None o(6,10) by (simp add: opened_def files_of_def)
  next
    case (Some v)
    then obtain e where lk: "lookup s1 d name = Inr (Some e)" "inode_sector (fst e) = v"
      using lookup_cases [OF dk1 assms(3)] bi by (metis fst_conv option.distinct(1) option.inject)
    have v: "v \<in> live s1" "v \<noteq> FREE_MAP_SECTOR" "v \<noteq> ROOT_DIR_SECTOR"
      using bound_live [of s1 name v] Some o(7) ranI [of "bindings s", OF Some] assms(1) by (auto simp: fs_ok_def)
    obtain s2 i2 ip2 where p: "inode_open s1 v = Inr (s2, i2)" "i2 \<noteq> NULL" "inodes s2 i2 = Some ip2" "sector ip2 = v" "data ip2 = dnode s1 v"
      "fs_ok s2" "files_of s2 = files_of s1" "disk s2 = disk s1" "mem_ok s2 = mem_ok s1" "inodes s2 = (inodes s1)(i2 \<mapsto> ip2)" "files s2 = files s1" "brk s1 \<le> brk s2" "\<forall>jp. inodes s1 i2 = Some jp \<longrightarrow> sector jp = v"
      using fs_open [OF o(5) v(1) _ v(2)] o(9) assms(2) by metis
    have ne: "i2 \<noteq> i" using p(13) o(3,4) v(3) by auto
    obtain s3 where s3: "inode_close s2 i = Inr s3" "fs_ok s3" "files_of s3 = files_of s2" "mem_ok s3 = mem_ok s2"
      "inodes s3 i2 = Some ip2" "files s3 = files s2" "brk s3 = brk s2" "disk s3 = disk s2"
      using fs_close_root [OF p(6) _ o(2,4)] o(3) ne p(3,10) by (auto simp: fun_upd_apply)
    define f where "f = brk s3"
    define s4 where "s4 = s3\<lparr>files := (files s3)(f \<mapsto> \<lparr>finode = i2, pos = 0, deny_write = False\<rparr>), brk := Suc f\<rparr>"
    have "brk s \<le> f" using o(11) p(12) s3(7) by (simp add: f_def)
    moreover have "files s3 = files s" using o(10) p(11) s3(6) by simp
    ultimately have fd: "f \<notin> dom (files s3)" using assms(4) leD by metis
    have op: "filesys_open s name = Inr (s4, f)"
      using root lk p(1) s3(1,4) p(2,9) o(9) assms(2)
      by (simp add: filesys_open_def dir_lookup_def dir_close_def d_def file_open_def fput_def s4_def f_def Let_def)
    have k: "fs_ok s4" "files_of s4 = files_of s3" unfolding s4_def using fs_ok_new_file [OF s3(2) fd] by (simp_all add: f_def)
    have "contents s4 (data ip2) = contents s (dnode s v)"
      using p(5,8) o(8) s3(8) by (simp add: s4_def contents_def byte_def [abs_def] dnode_def)
    moreover have "f \<noteq> NULL" using s3(2) by (auto simp: f_def fs_ok_def table_ok_def)
    ultimately have "opened s4 f (files_of s name)" using Some s3(5) by (simp add: opened_def files_of_def s4_def)
    moreover have "\<forall>g \<in> dom (files s). files s4 g = files s g" using fd s3(6) p(11) o(10) by (auto simp: s4_def)
    ultimately show ?thesis using op k s3(3) p(7) o(6) by auto
  qed
qed

section \<open>Properties\<close>

definition ex_disk :: fs where
  "ex_disk = ex_dir\<lparr>disk := (disk ex_dir)(0 := inode_disk_bytes \<lparr>start = 2, len = 4, imagic = INODE_MAGIC\<rparr>,
     1 := inode_disk_bytes \<lparr>start = 3, len = 60, imagic = INODE_MAGIC\<rparr>, 2 := le32 0x7f @ replicate 508 0)\<rparr>"

lemma ex_disk_nodes:
  "dnode ex_disk 0 = \<lparr>start = 2, len = 4, imagic = INODE_MAGIC\<rparr>"
  "dnode ex_disk 1 = \<lparr>start = 3, len = 60, imagic = INODE_MAGIC\<rparr>"
  "dnode ex_disk 5 = \<lparr>start = 6, len = 3, imagic = INODE_MAGIC\<rparr>"
  by (simp_all add: dnode_def ex_disk_def ex_dir_def inode_disk_roundtrip INODE_MAGIC_def)

lemma ex_disk_ents: "ents ex_disk (data ex_root) = ents ex_dir (data ex_root)"
  by (rule ents_same) (simp add: contents_def byte_def ex_disk_def ex_root_def)

lemma ex_disk_bindings: "bindings ex_disk = [[97] \<mapsto> 5]"
proof
  fix name
  have r: "dnode ex_disk ROOT_DIR_SECTOR = data ex_root" using ex_disk_nodes(2) by (simp add: ex_root_def fs_sectors)
  have n: "cname (ex_entry [97] 5) = [97]" using set_name_ok [of "[97]" "replicate 15 0"] by (simp add: ex_entry_def cname_def)
  show "bindings ex_disk name = [[97] \<mapsto> 5] name"
    unfolding bindings_def r ex_disk_ents ex_ents using n by (auto simp: dir_map_def named_def ex_entry_def)
qed

lemma ex_disk_ok: "fs_ok ex_disk"
proof -
  have dk: "disk_ok ex_disk" using ex_dir_ok(3) by (auto simp: freemap_ok_def disk_ok_def ex_disk_def)
  have mi: "map_inode ex_disk = map_inode ex_dir" "map_inode ex_dir = the (inodes ex_dir 100)"
    by (simp_all add: ex_disk_def map_inode_def ex_dir_def ex_freemap_def)
  have f: "freemap_ok ex_disk" by (rule freemap_ok_frame(1) [OF ex_dir_ok(3) dk]) (simp_all add: ex_disk_def)
  have u: "elem_cnt 16 = 1" "byte_cnt 16 = 4"
    by (simp_all add: elem_cnt_def byte_cnt_def ELEM_BITS_def DIV_ROUND_UP_def)
  have sy: "synced ex_disk" unfolding synced_def mi
    by (simp add: ex_disk_def ex_dir_def ex_freemap_def u contents_def byte_def upt_conv_Cons bitmap_bytes_def le32_def)
  have t: "table_ok ex_disk" using ex_dir_ok(2) by (simp add: table_ok_def ex_disk_def)
  have ra: "ran (inodes ex_disk) = {the (inodes ex_disk 100), ex_root}"
    by (simp add: ex_disk_def ex_dir_def ex_freemap_def insert_commute)
  have s0: "sector (the (inodes ex_disk 100)) = 0" "data (the (inodes ex_disk 100)) = dnode ex_disk 0"
    unfolding ex_disk_nodes by (simp_all add: ex_disk_def ex_dir_def ex_freemap_def)
  have lv: "live ex_disk = {0, 1, 5}" by (auto simp: live_def ex_disk_bindings ra s0 fs_sectors ex_root_def)
  have us: "used_sectors ex_disk = {..<7}" using ex_dir_used by (simp add: used_sectors_def ex_disk_def)
  have ex: "extent ex_disk 0 = {0, 2}" "extent ex_disk 1 = {1, 3}" "extent ex_disk 5 = {5, 6}"
    unfolding extent_def ex_disk_nodes sectors_def by (auto simp: bytes_to_sectors_nat)
  have r: "dnode ex_disk ROOT_DIR_SECTOR = data ex_root" using ex_disk_nodes(2) by (simp add: ex_root_def fs_sectors)
  have "names_ok (ents ex_disk (dnode ex_disk ROOT_DIR_SECTOR))" unfolding r ex_disk_ents using ex_dir_ok(1) by (simp add: dir_ok_def)
  moreover have "\<forall>v \<in> live ex_disk. extent_ok ex_disk (dnode ex_disk v) \<and> v \<notin> sectors (dnode ex_disk v) \<and> extent ex_disk v \<subseteq> used_sectors ex_disk"
  proof -
    have "capacity ex_disk = 16" by (simp add: ex_disk_def ex_dir_def ex_freemap_def)
    then show ?thesis unfolding lv us ball_simps ex ex_disk_nodes by (simp add: extent_ok_def sectors_def bytes_to_sectors_nat)
  qed
  moreover have "\<forall>u \<in> live ex_disk. \<forall>v \<in> live ex_disk. u \<noteq> v \<longrightarrow> extent ex_disk u \<inter> extent ex_disk v = {}"
    unfolding lv using ex by auto
  moreover have "sector (map_inode ex_disk) = FREE_MAP_SECTOR" unfolding mi
    by (simp add: ex_dir_def ex_freemap_def fs_sectors)
  moreover have "\<forall>ip \<in> ran (inodes ex_disk). data ip = dnode ex_disk (sector ip)"
  proof -
    have "sector ex_root = 1" "data ex_root = dnode ex_disk 1" unfolding ex_disk_nodes by (simp_all add: ex_root_def)
    then show ?thesis unfolding ra using s0 by simp
  qed
  moreover have "\<forall>ip \<in> ran (inodes ex_disk). sector ip = ROOT_DIR_SECTOR \<longrightarrow> deny_write_cnt ip = 0 \<and> \<not> removed ip"
    unfolding ra using s0(1) by (simp add: fs_sectors ex_root_def)
  moreover have "20 dvd len (dnode ex_disk ROOT_DIR_SECTOR)" unfolding r by (simp add: ex_root_def)
  moreover have "inj_on (bindings ex_disk) (dom (bindings ex_disk))" "ran (bindings ex_disk) \<inter> {FREE_MAP_SECTOR, ROOT_DIR_SECTOR} = {}"
    unfolding ex_disk_bindings by (simp_all add: fs_sectors)
  ultimately show ?thesis using f sy t unfolding fs_ok_def by blast
qed

text \<open>
  C2. Creating a file keeps the file system consistent and updates the map from names to contents:
  from any consistent state and given memory, \<^verbatim>\<open>filesys_create\<close> never fails an assertion; it
  leaves a consistent disk, on which the free map in memory and on disk agree and no two inodes
  share a sector; if it returns true, the name was valid and new and now stands for a file of
  zeros of the size asked for, and every other file has its old content; if it returns false,
  every file has its old content.
\<close>

theorem filesys_create_correct:
  assumes "fs_ok s" "\<forall>a. mem_ok s a" "0 \<notin> set name" "0 \<le> l" "l + 511 < 2147483648" "length e0 = 20"
  shows "\<exists>s' b. filesys_create e0 s name l = Inr (s', b) \<and> fs_ok s' \<and>
    (b \<longrightarrow> name \<noteq> [] \<and> length name \<le> NAME_MAX \<and> files_of s name = None) \<and>
    files_of s' = (if b then (files_of s)(name \<mapsto> replicate (nat l) 0) else files_of s)"
  using filesys_create_ok [OF assms] unfolding can_bind_def by blast

theorem filesys_create_correct_witness:
  "\<exists>s' b. filesys_create (replicate 20 9) ex_disk [98, 99] 700 = Inr (s', b) \<and> fs_ok s' \<and>
    files_of s' [98, 99] = (if b then Some (replicate 700 0) else None)"
proof -
  have m: "\<forall>a. mem_ok ex_disk a" by (simp add: ex_disk_def ex_dir_def ex_freemap_def)
  have "files_of ex_disk [98, 99] = None" by (simp add: files_of_None ex_disk_bindings)
  moreover obtain s' b where "filesys_create (replicate 20 9) ex_disk [98, 99] 700 = Inr (s', b)" "fs_ok s'"
      "files_of s' = (if b then (files_of ex_disk)([98, 99] \<mapsto> replicate 700 0) else files_of ex_disk)"
    using filesys_create_correct [OF ex_disk_ok m, of "[98, 99]" 700 "replicate 20 9"] by fastforce
  ultimately show ?thesis by (intro exI [of _ s'] exI [of _ b]) simp
qed

text \<open>
  C31. Opening a file by name: from any consistent state \<^verbatim>\<open>filesys_open\<close> returns a new open file at
  position 0 on an inode with exactly the content that the name stands for, or a null pointer when
  the name is not bound; the directory is closed again, and no file, no open file and no
  sector changes.
\<close>

theorem filesys_open_correct:
  assumes "fs_ok s" "\<forall>a. mem_ok s a" "0 \<notin> set name" "\<forall>f \<in> dom (files s). f < brk s"
  shows "\<exists>s' f. filesys_open s name = Inr (s', f) \<and> fs_ok s' \<and> files_of s' = files_of s \<and> opened s' f (files_of s name) \<and>
    (\<forall>g \<in> dom (files s). files s' g = files s g)"
  by (rule filesys_open_ok [OF assms])

theorem filesys_open_correct_witness:
  "\<exists>s' f. filesys_open ex_disk [97] = Inr (s', f) \<and> fs_ok s' \<and> f \<noteq> NULL \<and>
    (\<exists>s' f. filesys_open ex_disk [98] = Inr (s', f) \<and> fs_ok s' \<and> f = NULL)"
proof -
  have m: "\<forall>a. mem_ok ex_disk a" "\<forall>f \<in> dom (files ex_disk). f < brk ex_disk"
    by (simp_all add: ex_disk_def ex_dir_def ex_freemap_def)
  have "files_of ex_disk [98] = None" "files_of ex_disk [97] \<noteq> None" by (simp_all add: files_of_def ex_disk_bindings)
  then show ?thesis
    using filesys_open_correct [OF ex_disk_ok m(1) _ m(2), of "[97]"] filesys_open_correct [OF ex_disk_ok m(1) _ m(2), of "[98]"]
    by (auto simp: opened_def)
qed

end
