(* ===== verification/Pagedir.thy ===== *)
theory Pagedir
  imports Palloc
begin

text \<open>
  Page directories (\<^verbatim>\<open>userprog/pagedir.c\<close>): the two-level page tables of a process, kept in pages of the
  page allocator, whose memory holds their entries as 32-bit words. The translation lookaside
  buffer of the processor is not modelled: re-activating a directory only sets the register again.
\<close>

section \<open>Words in memory\<close>

definition rd32 :: "memory \<Rightarrow> nat \<Rightarrow> u32" where
  "rd32 m a = of_nat (de32 [m a, m (a + 1), m (a + 2), m (a + 3)])"

definition wr32 :: "memory \<Rightarrow> nat \<Rightarrow> u32 \<Rightarrow> memory" where
  "wr32 m a w = (let bs = le32 (unat w) in m(a := bs ! 0, a + 1 := bs ! 1, a + 2 := bs ! 2, a + 3 := bs ! 3))"

record vm =
  pal :: palloc
  cr3 :: u32             \<comment> \<open>the page directory base register\<close>
  base_page_dir :: u32
  ram_pages :: u32

definition ld :: "vm \<Rightarrow> u32 \<Rightarrow> u32" where
  "ld v a = rd32 (ram (pal v)) (unat a)"

definition st :: "vm \<Rightarrow> u32 \<Rightarrow> u32 \<Rightarrow> vm" where
  "st v a w = v\<lparr>pal := (pal v)\<lparr>ram := wr32 (ram (pal v)) (unat a) w\<rparr>\<rparr>"

section \<open>Operations\<close>

definition pagedir_create :: "vm \<Rightarrow> (vm \<times> u32) outcome" where
  "pagedir_create v =
     kbind (palloc_get_page (pal v) 0) (\<lambda>r. let p = fst r; pd = snd r in
       if pd \<noteq> 0
       then kbind (memcpy (ram p) (unat pd) (unat (base_page_dir v)) (unat PGSIZE)) (\<lambda>m.
              Inr (v\<lparr>pal := p\<lparr>ram := fst m\<rparr>\<rparr>, pd))
       else Inr (v\<lparr>pal := p\<rparr>, pd))"

text \<open>The loops of \<^verbatim>\<open>pagedir_destroy\<close> over the entries of a page table and of the directory.\<close>

fun free_ptes :: "vm \<Rightarrow> u32 \<Rightarrow> nat list \<Rightarrow> vm outcome" where
  "free_ptes v pt [] = Inr v"
| "free_ptes v pt (k # ks) =
     (let pte = ld v (pt + 4 * of_nat k)
      in kbind (if pte AND PTE_P \<noteq> 0
                then kbind (pte_get_page pte) (\<lambda>page. kbind (palloc_free_page (pal v) page) (\<lambda>p. Inr (v\<lparr>pal := p\<rparr>)))
                else Inr v) (\<lambda>v. free_ptes v pt ks))"

fun free_pdes :: "vm \<Rightarrow> u32 \<Rightarrow> nat list \<Rightarrow> vm outcome" where
  "free_pdes v pd [] = Inr v"
| "free_pdes v pd (k # ks) =
     (let pde = ld v (pd + 4 * of_nat k)
      in kbind (if pde AND PTE_P \<noteq> 0
                then kbind (pde_get_pt pde) (\<lambda>pt.
                     kbind (free_ptes v pt [0..<1024]) (\<lambda>v.
                     kbind (palloc_free_page (pal v) pt) (\<lambda>p. Inr (v\<lparr>pal := p\<rparr>))))
                else Inr v) (\<lambda>v. free_pdes v pd ks))"

definition pagedir_destroy :: "vm \<Rightarrow> u32 \<Rightarrow> vm outcome" where
  "pagedir_destroy v pd =
     (if pd = 0 then Inr v
      else kbind (kassert (pd \<noteq> base_page_dir v)) (\<lambda>_.
           kbind (free_pdes v pd [0..<unat (pd_no PHYS_BASE)]) (\<lambda>v.
           kbind (palloc_free_page (pal v) pd) (\<lambda>p. Inr (v\<lparr>pal := p\<rparr>)))))"

definition lookup_page :: "vm \<Rightarrow> u32 \<Rightarrow> u32 \<Rightarrow> bool \<Rightarrow> (vm \<times> u32) outcome" where
  "lookup_page v pd vaddr create =
     kbind (kassert (pd \<noteq> 0)) (\<lambda>_.
     kbind (kassert (\<not> create \<or> is_user_vaddr vaddr)) (\<lambda>_.
     let pde = pd + 4 * pd_no vaddr
     in kbind (if ld v pde = 0
               then if create
                    then kbind (palloc_get_page (pal v) PAL_ZERO) (\<lambda>r.
                      let v = v\<lparr>pal := fst r\<rparr>; pt = snd r
                      in if pt = 0 then Inr (v, False)
                         else kbind (pde_create pt) (\<lambda>w. Inr (st v pde w, True)))
                    else Inr (v, False)
               else Inr (v, True)) (\<lambda>r.
          if \<not> snd r then Inr (fst r, 0)
          else kbind (pde_get_pt (ld (fst r) pde)) (\<lambda>pt. Inr (fst r, pt + 4 * pt_no vaddr)))))"

definition pagedir_set_page :: "vm \<Rightarrow> u32 \<Rightarrow> u32 \<Rightarrow> u32 \<Rightarrow> bool \<Rightarrow> (vm \<times> bool) outcome" where
  "pagedir_set_page v pd upage kpage writable =
     kbind (kassert (pg_ofs upage = 0)) (\<lambda>_.
     kbind (kassert (pg_ofs kpage = 0)) (\<lambda>_.
     kbind (kassert (is_user_vaddr upage)) (\<lambda>_.
     kbind (vtop kpage) (\<lambda>phys.
     kbind (kassert (drop_bit PTSHIFT phys < ram_pages v)) (\<lambda>_.
     kbind (kassert (pd \<noteq> base_page_dir v)) (\<lambda>_.
     kbind (lookup_page v pd upage True) (\<lambda>r. let v = fst r; pte = snd r in
       if pte \<noteq> 0
       then kbind (kassert (ld v pte AND PTE_P = 0)) (\<lambda>_.
            kbind (pte_create_user kpage writable) (\<lambda>w. Inr (st v pte w, True)))
       else Inr (v, False))))))))"

definition pagedir_get_page :: "vm \<Rightarrow> u32 \<Rightarrow> u32 \<Rightarrow> u32 outcome" where
  "pagedir_get_page v pd uaddr =
     kbind (kassert (is_user_vaddr uaddr)) (\<lambda>_.
     kbind (lookup_page v pd uaddr False) (\<lambda>r. let pte = snd r in
       if pte \<noteq> 0 \<and> ld v pte AND PTE_P \<noteq> 0
       then kbind (pte_get_page (ld v pte)) (\<lambda>page. Inr (page + pg_ofs uaddr))
       else Inr 0))"

definition pagedir_activate :: "vm \<Rightarrow> u32 \<Rightarrow> vm outcome" where
  "pagedir_activate v pd =
     kbind (vtop (if pd = 0 then base_page_dir v else pd)) (\<lambda>phys. Inr (v\<lparr>cr3 := phys\<rparr>))"

definition active_pd :: "vm \<Rightarrow> u32 outcome" where
  "active_pd v = ptov (cr3 v)"

definition invalidate_pagedir :: "vm \<Rightarrow> u32 \<Rightarrow> vm outcome" where
  "invalidate_pagedir v pd = kbind (active_pd v) (\<lambda>a. if a = pd then pagedir_activate v pd else Inr v)"

definition pagedir_clear_page :: "vm \<Rightarrow> u32 \<Rightarrow> u32 \<Rightarrow> vm outcome" where
  "pagedir_clear_page v pd upage =
     kbind (kassert (pg_ofs upage = 0)) (\<lambda>_.
     kbind (kassert (is_user_vaddr upage)) (\<lambda>_.
     kbind (lookup_page v pd upage False) (\<lambda>r. let pte = snd r in
       if pte \<noteq> 0 \<and> ld v pte AND PTE_P \<noteq> 0
       then invalidate_pagedir (st v pte (ld v pte AND NOT PTE_P)) pd
       else Inr v)))"

definition pagedir_is_dirty :: "vm \<Rightarrow> u32 \<Rightarrow> u32 \<Rightarrow> bool outcome" where
  "pagedir_is_dirty v pd vpage =
     kbind (lookup_page v pd vpage False) (\<lambda>r. Inr (snd r \<noteq> 0 \<and> ld v (snd r) AND PTE_D \<noteq> 0))"

definition pagedir_set_dirty :: "vm \<Rightarrow> u32 \<Rightarrow> u32 \<Rightarrow> bool \<Rightarrow> vm outcome" where
  "pagedir_set_dirty v pd vpage dirty =
     kbind (lookup_page v pd vpage False) (\<lambda>r. let pte = snd r in
       if pte \<noteq> 0
       then if dirty then Inr (st v pte (ld v pte OR PTE_D))
            else invalidate_pagedir (st v pte (ld v pte AND NOT PTE_D)) pd
       else Inr v)"

definition pagedir_is_accessed :: "vm \<Rightarrow> u32 \<Rightarrow> u32 \<Rightarrow> bool outcome" where
  "pagedir_is_accessed v pd vpage =
     kbind (lookup_page v pd vpage False) (\<lambda>r. Inr (snd r \<noteq> 0 \<and> ld v (snd r) AND PTE_A \<noteq> 0))"

definition pagedir_set_accessed :: "vm \<Rightarrow> u32 \<Rightarrow> u32 \<Rightarrow> bool \<Rightarrow> vm outcome" where
  "pagedir_set_accessed v pd vpage accessed =
     kbind (lookup_page v pd vpage False) (\<lambda>r. let pte = snd r in
       if pte \<noteq> 0
       then if accessed then Inr (st v pte (ld v pte OR PTE_A))
            else invalidate_pagedir (st v pte (ld v pte AND NOT PTE_A)) pd
       else Inr v)"

section \<open>Words of a page\<close>

text \<open>Word \<open>k\<close> of the page with the number \<open>p\<close>.\<close>

definition word_at :: "memory \<Rightarrow> nat \<Rightarrow> nat \<Rightarrow> u32" where
  "word_at m p k = rd32 m (4096 * p + 4 * k)"

lemma rd_wr_same [simp]: "rd32 (wr32 m a w) a = w"
proof -
  have "de32 (le32 (unat w) @ []) = unat w" by (rule de32_le32) (rule unat_u32_less)
  then show ?thesis by (simp add: rd32_def wr32_def Let_def de32_def le32_def)
qed

lemma rd_wr_other: "a + 4 \<le> b \<or> b + 4 \<le> a \<Longrightarrow> rd32 (wr32 m a w) b = rd32 m b"
  by (auto simp: rd32_def wr32_def Let_def)

lemma word_at_wr:
  assumes "i < 1024" "k < 1024"
  shows "word_at (wr32 m (4096 * p + 4 * i) w) q k = (if p = q \<and> i = k then w else word_at m q k)"
proof (cases "p = q \<and> i = k")
  case False
  then have "4096 * p + 4 * i + 4 \<le> 4096 * q + 4 * k \<or> 4096 * q + 4 * k + 4 \<le> 4096 * p + 4 * i"
    using assms by (cases "p = q") (auto simp: less_eq_Suc_le [symmetric] neq_iff)
  then show ?thesis using False by (auto simp: word_at_def rd_wr_other)
qed (simp add: word_at_def)

lemma wr32_other_page:
  assumes "i < 1024" "x div 4096 \<noteq> p" "m x = m' x"
  shows "wr32 m (4096 * p + 4 * i) w x = m' x"
proof -
  have "(4096 * p + 4 * i + j) div 4096 = p" if "j < 4" for j using assms(1) that by (intro div_nat_eqI) auto
  from this [of 0] this [of 1] this [of 2] this [of 3] show ?thesis
    using assms(2,3) by (auto simp: wr32_def Let_def)
qed

lemma word_at_frame:
  assumes "k < 1024" "\<And>x. x div 4096 = q \<Longrightarrow> m' x = m x"
  shows "word_at m' q k = word_at m q k"
proof -
  have "(4096 * q + 4 * k + j) div 4096 = q" if "j < 4" for j using assms(1) that by (intro div_nat_eqI) auto
  from this [of 0] this [of 1] this [of 2] this [of 3] show ?thesis
    by (simp add: word_at_def rd32_def assms(2))
qed

lemma word_at_zero:
  assumes "k < 1024" "\<And>x. x div 4096 = q \<Longrightarrow> m x = 0"
  shows "word_at m q k = 0"
  using word_at_frame [OF assms(1), of q m "\<lambda>_. 0"] assms(2) by (simp add: word_at_def rd32_def de32_def)

section \<open>Walking the tables\<close>

text \<open>The number of the page that holds the page table of a directory entry.\<close>

definition table_page :: "u32 \<Rightarrow> nat" where
  "table_page pde = unat pde div 4096 + 786432"

definition entry_ok :: "u32 \<Rightarrow> bool" where
  "entry_ok w \<longleftrightarrow> w AND PTE_P \<noteq> 0 \<and> unat w < 0x40000000"

lemma unat_PTE_ADDR: "unat (w AND PTE_ADDR) = 4096 * (unat w div 4096)"
  using unat_pg_round_down [of w] by (simp add: PTE_ADDR_PGMASK pg_round_down_def minus_mod_eq_mult_div)

lemma ptov_PTE_ADDR:
  assumes "unat w < 0x40000000"
  shows "\<exists>p. ptov (w AND PTE_ADDR) = Inr p \<and> unat p = 4096 * table_page w"
proof -
  have a: "unat (w AND PTE_ADDR) = 4096 * (unat w div 4096)" by (rule unat_PTE_ADDR)
  have le: "4096 * (unat w div 4096) \<le> unat w" by simp
  have "unat ((w AND PTE_ADDR) + PHYS_BASE) = unat (w AND PTE_ADDR) + unat PHYS_BASE"
    using a le assms by (intro unat_add_no_overflow) (simp add: layout)
  moreover have "w AND PTE_ADDR < PHYS_BASE" using a le assms by (simp add: word_less_nat_alt layout)
  ultimately show ?thesis using a by (auto simp: ptov_eq table_page_def layout)
qed

lemma pde_get_pt_ok:
  assumes "entry_ok pde"
  shows "\<exists>pt. pde_get_pt pde = Inr pt \<and> unat pt = 4096 * table_page pde"
  using ptov_PTE_ADDR [of pde] assms by (auto simp: pde_get_pt_def entry_ok_def)

text \<open>An entry that is made of a page of the kernel's half of the address space points to this page.\<close>

lemma entry_of_page:
  assumes "pg_ofs page = 0" "unat page = 4096 * n" "786432 \<le> n" "f AND PTE_ADDR = 0" "f AND PTE_P \<noteq> 0"
  shows "entry_ok (page - PHYS_BASE OR f) \<and> table_page (page - PHYS_BASE OR f) = n"
proof -
  have k: "PHYS_BASE \<le> page" using assms(2,3) by (simp add: word_le_nat_alt layout)
  define p where "p = page - PHYS_BASE"
  have p: "pg_ofs p = 0" "unat p = 4096 * (n - 786432)" using k assms(1,2) by (simp_all add: p_def pg_ofs_vtop unat_vtop)
  have "(p OR f) AND PTE_ADDR = p" using aligned_and_flags [OF p(1), of f] assms(4) by simp
  then have d: "unat (p OR f) div 4096 = n - 786432" using unat_PTE_ADDR [of "p OR f"] p(2) by simp
  have n: "n < 1048576" using assms(2) unat_u32_less [of page] by simp
  have "(p OR f) AND PTE_P \<noteq> 0"
  proof -
    have "f AND PTE_P = 1" using assms(5) by (simp add: layout and_one_eq odd_iff_mod_2_eq_one)
    then have "(p OR f) AND PTE_P = (p AND PTE_P) OR 1" by (simp add: bit.conj_disj_distrib2)
    then show ?thesis using aligned_flags(1) [OF p(1)] by simp
  qed
  moreover have "unat (p OR f) < 0x40000000"
    using d n mult_div_mod_eq [of 4096 "unat (p OR f)"]
      mod_less_divisor [of 4096 "unat (p OR f)"] by linarith
  ultimately show ?thesis using d assms(3) by (simp add: entry_ok_def table_page_def p_def)
qed

definition pdi :: "u32 \<Rightarrow> nat" where "pdi va = unat (pd_no va)"
definition pti :: "u32 \<Rightarrow> nat" where "pti va = unat (pt_no va)"

lemma pti_less: "pti va < 1024" by (simp add: pti_def unat_pt_no)

lemma pdi_user: "is_user_vaddr va \<Longrightarrow> pdi va < 768"
  by (simp add: pdi_def unat_pd_no is_user_vaddr_def word_less_nat_alt layout less_mult_imp_div_less)

lemma unat_index:
  fixes b k :: u32
  assumes "unat b = 4096 * n" "unat k < 1024"
  shows "unat (b + 4 * k) = 4096 * n + 4 * unat k"
proof -
  have n: "n < 1048576" using assms(1) unat_u32_less [of b] by simp
  have "unat (4 * k) = 4 * unat k" using assms(2) by (subst unat_mult_no_overflow) simp_all
  then show ?thesis using assms n by (subst unat_add_no_overflow) simp_all
qed

text \<open>
  A page directory of a process: its page and the pages of its page tables are in use, different
  from each other and in the kernel's half, and every present entry of a page table points there.
\<close>

definition pde_at :: "vm \<Rightarrow> u32 \<Rightarrow> nat \<Rightarrow> u32" where
  "pde_at v pd k = word_at (ram (pal v)) (unat (pg_no pd)) k"

definition pte_at :: "vm \<Rightarrow> u32 \<Rightarrow> nat \<Rightarrow> nat \<Rightarrow> u32" where
  "pte_at v pd i k = (if pde_at v pd i = 0 then 0 else word_at (ram (pal v)) (table_page (pde_at v pd i)) k)"

definition pools_high :: "palloc \<Rightarrow> bool" where
  "pools_high s \<longleftrightarrow> PHYS_BASE \<le> base (kernel_pool s) \<and> PHYS_BASE \<le> base (user_pool s)"

definition pd_ok :: "vm \<Rightarrow> u32 \<Rightarrow> bool" where
  "pd_ok v pd \<longleftrightarrow> palloc_ok (pal v) \<and> pools_high (pal v) \<and> pg_ofs pd = 0 \<and> pd \<noteq> 0 \<and> unat (pg_no pd) \<in> pages_used (pal v) \<and>
     (\<forall>i < 768. pde_at v pd i \<noteq> 0 \<longrightarrow> entry_ok (pde_at v pd i) \<and> table_page (pde_at v pd i) \<in> pages_used (pal v) - {unat (pg_no pd)}) \<and>
     (\<forall>i < 768. \<forall>j < 768. pde_at v pd i \<noteq> 0 \<and> pde_at v pd j \<noteq> 0 \<and>
        table_page (pde_at v pd i) = table_page (pde_at v pd j) \<longrightarrow> i = j) \<and>
     (\<forall>i < 768. \<forall>k < 1024. pte_at v pd i k AND PTE_P \<noteq> 0 \<longrightarrow> unat (pte_at v pd i k) < 0x40000000)"

text \<open>The entry of the page tables for a virtual address, 0 when there is no page table.\<close>

abbreviation pte_of :: "vm \<Rightarrow> u32 \<Rightarrow> u32 \<Rightarrow> u32" where
  "pte_of v pd va \<equiv> pte_at v pd (pdi va) (pti va)"

lemma ld_pde:
  assumes "pg_ofs pd = 0"
  shows "ld v (pd + 4 * pd_no va) = pde_at v pd (pdi va)" "unat (pd + 4 * pd_no va) = 4096 * unat (pg_no pd) + 4 * pdi va"
proof -
  have "unat (pd_no va) < 1024" using unat_u32_less [of va] by (simp add: unat_pd_no less_mult_imp_div_less)
  then show "unat (pd + 4 * pd_no va) = 4096 * unat (pg_no pd) + 4 * pdi va"
    using unat_index [OF aligned_unat [OF assms]] by (simp add: pdi_def)
  then show "ld v (pd + 4 * pd_no va) = pde_at v pd (pdi va)"
    by (simp add: ld_def pde_at_def word_at_def)
qed

lemma lookup_page_found:
  assumes "pd_ok v pd" "is_user_vaddr va" "pde_at v pd (pdi va) \<noteq> 0"
  obtains pte where "lookup_page v pd va c = Inr (v, pte)" "pte \<noteq> 0"
    "unat pte = 4096 * table_page (pde_at v pd (pdi va)) + 4 * pti va" "ld v pte = pte_of v pd va"
proof -
  have pd: "pg_ofs pd = 0" "pd \<noteq> 0" using assms(1) by (simp_all add: pd_ok_def)
  have "entry_ok (pde_at v pd (pdi va))" using assms pdi_user unfolding pd_ok_def by blast
  then obtain pt where pt: "pde_get_pt (pde_at v pd (pdi va)) = Inr pt" "unat pt = 4096 * table_page (pde_at v pd (pdi va))"
    using pde_get_pt_ok by blast
  define pte where "pte = pt + 4 * pt_no va"
  have u: "unat pte = 4096 * table_page (pde_at v pd (pdi va)) + 4 * pti va"
    using unat_index [OF pt(2), of "pt_no va"] pti_less [of va] by (simp add: pte_def pti_def)
  then have "pte \<noteq> 0" by (auto simp: table_page_def)
  moreover have "lookup_page v pd va c = Inr (v, pte)"
    using assms(2,3) pd pt(1) by (simp add: lookup_page_def ld_pde pte_def)
  moreover have "ld v pte = pte_of v pd va" using assms(3) u by (simp add: ld_def pte_at_def word_at_def)
  ultimately show thesis using that u by blast
qed

lemma lookup_page_missing:
  assumes "pd_ok v pd" "is_user_vaddr va" "pde_at v pd (pdi va) = 0"
  shows "lookup_page v pd va False = Inr (v, 0)"
  using assms by (simp add: lookup_page_def ld_pde pd_ok_def)

text \<open>What the page tables say of a user address is what \<^verbatim>\<open>pagedir_get_page\<close> returns.\<close>

lemma pagedir_get_page_eq:
  assumes "pd_ok v pd" "is_user_vaddr va"
  shows "\<exists>page. (pte_of v pd va AND PTE_P \<noteq> 0 \<longrightarrow> pte_get_page (pte_of v pd va) = Inr page) \<and>
    pagedir_get_page v pd va = Inr (if pte_of v pd va AND PTE_P \<noteq> 0 then page + pg_ofs va else 0)"
proof (cases "pde_at v pd (pdi va) = 0")
  case True
  then show ?thesis using lookup_page_missing [OF assms] assms(2) by (simp add: pagedir_get_page_def pte_at_def)
next
  case False
  obtain pte where pte: "lookup_page v pd va False = Inr (v, pte)" "pte \<noteq> 0" "ld v pte = pte_of v pd va"
    using lookup_page_found [OF assms False] by blast
  show ?thesis
  proof (cases "pte_of v pd va AND PTE_P = 0")
    case True
    then show ?thesis using pte assms(2) by (simp add: pagedir_get_page_def)
  next
    case nz: False
    then have "unat (pte_of v pd va) < 0x40000000" using assms pdi_user pti_less unfolding pd_ok_def by blast
    then obtain page where "pte_get_page (pte_of v pd va) = Inr page"
      using ptov_PTE_ADDR unfolding pte_get_page_def by blast
    then show ?thesis using pte assms(2) nz by (simp add: pagedir_get_page_def)
  qed
qed

section \<open>Changing an entry\<close>

text \<open>The allocator never changes where its pools are and how large they are.\<close>

definition geometry :: "palloc \<Rightarrow> (u32 \<times> nat) \<times> (u32 \<times> nat)" where
  "geometry s = ((base (kernel_pool s), bit_cnt (used_map (kernel_pool s))), (base (user_pool s), bit_cnt (used_map (user_pool s))))"

text \<open>The pages of the directory and of its page tables, and how they and the memory may change when a table is added.\<close>

definition tables :: "vm \<Rightarrow> u32 \<Rightarrow> nat set" where
  "tables v pd = insert (unat (pg_no pd)) {table_page (pde_at v pd i) |i. i < 768 \<and> pde_at v pd i \<noteq> 0}"

definition grows :: "u32 \<Rightarrow> vm \<Rightarrow> vm \<Rightarrow> bool" where
  "grows pd v v' \<longleftrightarrow> pages_used (pal v) \<subseteq> pages_used (pal v') \<and> tables v pd \<subseteq> tables v' pd \<and>
     (tables v' pd - tables v pd) \<inter> pages_used (pal v) = {} \<and> geometry (pal v') = geometry (pal v) \<and>
     (\<forall>x. x div 4096 \<in> pages_used (pal v) - tables v pd \<longrightarrow> ram (pal v') x = ram (pal v) x)"

text \<open>Writing one entry of one page table changes this entry and no other.\<close>

lemma set_entry:
  assumes "pd_ok v pd" "i < 768" "k < 1024" "pde_at v pd i \<noteq> 0"
    "unat a = 4096 * table_page (pde_at v pd i) + 4 * k" "w AND PTE_P \<noteq> 0 \<longrightarrow> unat w < 0x40000000"
  shows "pd_ok (st v a w) pd"
    and "\<And>j m. j < 768 \<Longrightarrow> m < 1024 \<Longrightarrow> pte_at (st v a w) pd j m = (if j = i \<and> m = k then w else pte_at v pd j m)"
    and "\<And>j. j < 768 \<Longrightarrow> pde_at (st v a w) pd j = pde_at v pd j"
proof -
  define P where "P = unat (pg_no pd)"
  define T where "T = table_page (pde_at v pd i)"
  have T: "T \<noteq> P" using assms(1,2,4) unfolding pd_ok_def T_def P_def by blast
  have r: "ram (pal (st v a w)) = wr32 (ram (pal v)) (4096 * T + 4 * k) w"
    using assms(5) by (simp add: st_def T_def)
  show pde: "pde_at (st v a w) pd j = pde_at v pd j" if "j < 768" for j
    using T that assms(3) by (simp add: pde_at_def r word_at_wr P_def)
  show pte: "pte_at (st v a w) pd j m = (if j = i \<and> m = k then w else pte_at v pd j m)" if "j < 768" "m < 1024" for j m
  proof (cases "pde_at v pd j = 0")
    case True
    then show ?thesis using assms(4) pde [OF that(1)] by (auto simp: pte_at_def)
  next
    case False
    have "table_page (pde_at v pd j) = T \<longleftrightarrow> j = i"
      using assms(1,2,4) that(1) False unfolding pd_ok_def T_def by blast
    then show ?thesis using False pde [OF that(1)] that(2) assms(3) by (auto simp: pte_at_def r word_at_wr)
  qed
  have p: "palloc_ok (pal (st v a w)) = palloc_ok (pal v)" "pages_used (pal (st v a w)) = pages_used (pal v)"
    "pools_high (pal (st v a w)) = pools_high (pal v)" by (simp_all add: st_def pools_high_def)
  show "pd_ok (st v a w) pd" using assms(1,6) unfolding pd_ok_def p by (auto simp: pde pte)
qed

lemma set_loop_size: "bitmap_set_loop b start i cnt v = Inr b' \<Longrightarrow> bit_cnt b' = bit_cnt b"
proof (induction b start i cnt v rule: bitmap_set_loop.induct)
  case (1 b start i cnt v)
  then show ?case
    by (auto simp: bitmap_set_def bitmap_mark_def bitmap_reset_def Let_def simp del: bitmap_set_loop.simps
        simp: bitmap_set_loop.simps [of b start i cnt v] split: if_splits)
qed

lemma scan_and_flip_size: "bitmap_scan_and_flip b start cnt v = Inr (b', r) \<Longrightarrow> bit_cnt b' = bit_cnt b"
  by (auto simp: bitmap_scan_and_flip_def bitmap_set_multiple_def dest!: set_loop_size split: if_splits)

lemma geometry_ram [simp]: "geometry (s\<lparr>ram := m\<rparr>) = geometry s"
  by (simp add: geometry_def)

lemma palloc_get_multiple_geometry:
  "palloc_get_multiple s flags n = Inr (s', r) \<Longrightarrow> geometry s' = geometry s"
  unfolding palloc_get_multiple_def Let_def geometry_def
  by (auto simp: put_pool_def dest!: scan_and_flip_size split: if_splits)

lemma palloc_free_multiple_geometry:
  "palloc_free_multiple s pages n = Inr s' \<Longrightarrow> geometry s' = geometry s"
  unfolding palloc_free_multiple_def Let_def geometry_def bitmap_set_multiple_def
  by (auto simp: put_pool_def dest!: set_loop_size split: if_splits)

lemma geometry_eq:
  assumes "geometry s' = geometry s"
  shows "pools_high s' = pools_high s" "first_page (pool_of u s') = first_page (pool_of u s)"
    "bit_cnt (used_map (pool_of u s')) = bit_cnt (used_map (pool_of u s))"
  using assms by (auto simp: geometry_def pools_high_def first_page_def)

lemma palloc_get_page_cases:
  assumes "palloc_ok s" "pools_high s" "flags AND PAL_ASSERT = 0"
  obtains (none) "palloc_get_page s flags = Inr (s, 0)"
  | (page) s' pg n where "palloc_get_page s flags = Inr (s', pg)" "palloc_ok s'" "pools_high s'" "pg \<noteq> 0" "pg_ofs pg = 0"
      "unat pg = 4096 * n" "786432 \<le> n" "n \<notin> pages_used s" "pages_used s' = insert n (pages_used s)"
      "ram s' = (\<lambda>x. if flags AND PAL_ZERO \<noteq> 0 \<and> x div 4096 = n then 0 else ram s x)" "geometry s' = geometry s"
      "n < first_page (pool_of (flags AND PAL_USER \<noteq> 0) s) + bit_cnt (used_map (pool_of (flags AND PAL_USER \<noteq> 0) s))"
proof -
  define p where "p = pool_of (flags AND PAL_USER \<noteq> 0) s"
  have p: "pool_ok p" "PHYS_BASE \<le> base p"
    using palloc_ok_pool [OF assms(1)] assms(2) by (simp_all add: p_def pools_high_def)
  then have fp: "786432 \<le> first_page p" using pool_base [OF p(1)] by (simp add: word_le_nat_alt layout)
  from palloc_get_ok [OF assms(1) zero_less_one, of flags, folded p_def] show thesis
  proof (elim disjE exE conjE)
    fix s' i
    assume a: "palloc_get_multiple s flags 1 = Inr (s', base p + PGSIZE * of_nat i)" "palloc_ok s'" "i + 1 \<le> bit_cnt (used_map p)"
      "pages_used s' = pages_used s \<union> {first_page p + i..<first_page p + i + 1}"
      "{first_page p + i..<first_page p + i + 1} \<inter> pages_used s = {}"
      "ram s' = (\<lambda>x. if flags AND PAL_ZERO \<noteq> 0 \<and> x div 4096 \<in> {first_page p + i..<first_page p + i + 1} then 0 else ram s x)"
    have one: "x \<in> {first_page p + i..<first_page p + i + 1} \<longleftrightarrow> x = first_page p + i" for x by auto
    note pg = pool_page [OF p(1), of i]
    have g: "geometry s' = geometry s" by (rule palloc_get_multiple_geometry [OF a(1)])
    show thesis
      by (rule page [of s' "base p + PGSIZE * of_nat i" "first_page p + i"])
        (use a pg fp g geometry_eq(1) [OF g] assms(2) in \<open>auto simp: palloc_get_page_def one p_def\<close>)
  qed (use assms(3) none in \<open>auto simp: palloc_get_page_def\<close>)
qed

lemma lookup_page_create:
  assumes "pd_ok v pd" "is_user_vaddr va" "pde_at v pd (pdi va) = 0"
  obtains (none) "lookup_page v pd va True = Inr (v, 0)"
  | (made) v' pte where "lookup_page v pd va True = Inr (v', pte)" "pte \<noteq> 0" "pd_ok v' pd" "pde_at v' pd (pdi va) \<noteq> 0"
      "unat pte = 4096 * table_page (pde_at v' pd (pdi va)) + 4 * pti va" "ld v' pte = pte_of v' pd va"
      "\<And>i k. i < 768 \<Longrightarrow> k < 1024 \<Longrightarrow> pte_at v' pd i k = pte_at v pd i k" "grows pd v v'"
proof -
  have pd: "pg_ofs pd = 0" "pd \<noteq> 0" "palloc_ok (pal v)" "pools_high (pal v)" using assms(1) by (simp_all add: pd_ok_def)
  have fl: "PAL_ZERO AND PAL_ASSERT = 0" "PAL_ZERO AND PAL_ZERO \<noteq> 0" by (simp_all add: PAL_ZERO_def PAL_ASSERT_def)
  define P where "P = unat (pg_no pd)"
  have P: "P \<in> pages_used (pal v)" using assms(1) by (simp add: pd_ok_def P_def)
  have i: "pdi va < 768" by (rule pdi_user [OF assms(2)])
  from pd(3,4) fl(1) show thesis
  proof (cases rule: palloc_get_page_cases)
    case none
    then have "lookup_page v pd va True = Inr (v, 0)"
      using assms(2,3) pd(1,2) by (simp add: lookup_page_def ld_pde)
    then show thesis by (rule that(1))
  next
    case (page s' pg n)
    define e where "e = pg - PHYS_BASE OR (PTE_U OR PTE_P OR PTE_W)"
    have e: "entry_ok e" "table_page e = n"
      using entry_of_page [OF page(5,6,7), of "PTE_U OR PTE_P OR PTE_W"] by (simp_all add: e_def layout)
    have pde: "pde_create pg = Inr e"
      using page(5-7) by (simp add: pde_create_def vtop_def is_kernel_vaddr_def word_le_nat_alt layout e_def or.assoc)
    define v1 where "v1 = v\<lparr>pal := s'\<rparr>"
    define v' where "v' = st v1 (pd + 4 * pd_no va) e"
    have r: "ram (pal v') = wr32 (ram s') (4096 * P + 4 * pdi va) e"
      by (simp add: v'_def st_def v1_def ld_pde [OF pd(1)] P_def)
    have nP: "n \<noteq> P" using P page(8) by blast
    have fr: "word_at (ram s') q k = word_at (ram (pal v)) q k" if "q \<noteq> n" "k < 1024" for q k
      using that page(10) by (intro word_at_frame) auto
    have z: "word_at (ram s') n k = 0" if "k < 1024" for k
      using that page(10) fl(2) by (intro word_at_zero) auto
    have pde': "pde_at v' pd j = (if j = pdi va then e else pde_at v pd j)" if "j < 768" for j
      using that i nP by (simp add: pde_at_def r P_def [symmetric] word_at_wr fr)
    have e0: "e \<noteq> 0" using e(1) by (auto simp: entry_ok_def)
    have tb: "table_page (pde_at v pd j) \<noteq> n \<and> table_page (pde_at v pd j) \<noteq> P \<and>
        table_page (pde_at v pd j) \<in> pages_used (pal v) \<and> entry_ok (pde_at v pd j)" if "j < 768" "pde_at v pd j \<noteq> 0" for j
      using assms(1) that page(8) unfolding pd_ok_def P_def by blast
    have pte': "pte_at v' pd j k = pte_at v pd j k" if "j < 768" "k < 1024" for j k
    proof (cases "j = pdi va")
      case True
      then show ?thesis using that e0 e(2) assms(3) nP i by (simp add: pte_at_def pde' r word_at_wr z)
    next
      case False
      then show ?thesis using that tb [OF that(1)] i by (auto simp: pte_at_def pde' r word_at_wr fr)
    qed
    have p: "palloc_ok (pal v')" "pages_used (pal v') = insert n (pages_used (pal v))" "pools_high (pal v')"
      using page(2,3,9) by (simp_all add: v'_def st_def v1_def pools_high_def)
    have ok: "pd_ok v' pd"
      using assms(1) unfolding pd_ok_def p(2)
      using p(1,3) e tb nP P page(8) by (auto simp: pde' pte' P_def split: if_splits)
    obtain pte where pte: "lookup_page v' pd va True = Inr (v', pte)" "pte \<noteq> 0"
        "unat pte = 4096 * table_page (pde_at v' pd (pdi va)) + 4 * pti va" "ld v' pte = pte_of v' pd va"
      using lookup_page_found [OF ok assms(2)] pde' [OF i] e0 by (metis (full_types))
    have "lookup_page v pd va True = lookup_page v' pd va True"
      using assms(2,3) pd(1,2) page(1,4) pde e0 pde' [OF i]
      by (simp add: lookup_page_def ld_pde v1_def v'_def Let_def)
    moreover have "grows pd v v'"
    proof -
      have "{table_page (pde_at v' pd j) |j. j < 768 \<and> pde_at v' pd j \<noteq> 0}
          = insert n {table_page (pde_at v pd j) |j. j < 768 \<and> pde_at v pd j \<noteq> 0}" (is "?A = ?B")
      proof
        show "?A \<subseteq> ?B" using pde' e(2) by (auto split: if_splits)
        have "n \<in> ?A" by (intro CollectI exI [of _ "pdi va"]) (simp add: pde' i e(2) e0)
        moreover have "table_page (pde_at v pd j) \<in> ?A" if "j < 768" "pde_at v pd j \<noteq> 0" for j
          by (intro CollectI exI [of _ j]) (use that assms(3) in \<open>auto simp: pde'\<close>)
        ultimately show "?B \<subseteq> ?A" by blast
      qed
      then have "tables v' pd = insert n (tables v pd)" by (simp add: tables_def insert_commute)
      moreover have "ram (pal v') x = ram (pal v) x" if "x div 4096 \<in> pages_used (pal v) - tables v pd" for x
        using that nP page(8,10) i unfolding r by (intro wr32_other_page) (auto simp: tables_def P_def)
      ultimately show ?thesis
        using p(2) page(8,11) unfolding grows_def by (auto simp: v'_def st_def v1_def)
    qed
    ultimately show thesis using that(2) pte ok pde' [OF i] e0 pte' by simp
  qed
qed

section \<open>The address space of a process\<close>

lemma same_page: "pdi a = pdi b \<and> pti a = pti b \<longleftrightarrow> pg_round_down a = pg_round_down b"
proof -
  have d: "unat va div 4194304 = unat va div 4096 div 1024" for va :: u32 by (simp flip: div_mult2_eq)
  have p: "unat (pg_round_down va) = 4096 * (unat va div 4096)" for va
    by (simp add: unat_pg_round_down minus_mod_eq_mult_div)
  have "pdi a = pdi b \<and> pti a = pti b \<longleftrightarrow> unat a div 4096 = unat b div 4096"
    unfolding pdi_def pti_def unat_pd_no unat_pt_no d by (metis div_mult_mod_eq)
  also have "\<dots> \<longleftrightarrow> unat (pg_round_down a) = unat (pg_round_down b)" by (simp add: p)
  finally show ?thesis by (simp add: word_unat_eq_iff)
qed

lemma aligned_round: "pg_ofs a = 0 \<Longrightarrow> pg_round_down a = a"
  by (simp add: pg_round_down_sub)

text \<open>
  An address space as a partial map of pages to pages: where a user address is mapped to.
\<close>

definition translate :: "vm \<Rightarrow> u32 \<Rightarrow> u32 \<Rightarrow> u32 option" where
  "translate v pd va = (case pagedir_get_page v pd va of Inl _ \<Rightarrow> None | Inr a \<Rightarrow> if a = 0 then None else Some a)"

lemma page_plus_ofs:
  assumes "unat page = 4096 * n" "786432 \<le> n"
  shows "page + pg_ofs va \<noteq> 0"
proof -
  have n: "n < 1048576" using assms(1) unat_u32_less [of page] by simp
  have "unat (pg_ofs va) < 4096" by (simp add: unat_pg_ofs)
  then have "unat (page + pg_ofs va) = unat page + unat (pg_ofs va)"
    using assms n by (intro unat_add_no_overflow) simp
  then show ?thesis using assms by auto
qed

lemma translate_eq:
  assumes "pd_ok v pd" "is_user_vaddr va"
  shows "translate v pd va = (if pte_of v pd va AND PTE_P = 0 then None
    else case pte_get_page (pte_of v pd va) of Inl _ \<Rightarrow> None | Inr page \<Rightarrow> Some (page + pg_ofs va))"
proof (cases "pte_of v pd va AND PTE_P = 0")
  case True
  then show ?thesis using pagedir_get_page_eq [OF assms] by (auto simp: translate_def)
next
  case False
  then have "unat (pte_of v pd va) < 0x40000000" using assms pdi_user pti_less unfolding pd_ok_def by blast
  then obtain page where p: "pte_get_page (pte_of v pd va) = Inr page" "unat page = 4096 * table_page (pte_of v pd va)"
    using ptov_PTE_ADDR [of "pte_of v pd va"] by (auto simp: pte_get_page_def)
  have "page + pg_ofs va \<noteq> 0" by (rule page_plus_ofs [OF p(2)]) (simp add: table_page_def)
  then show ?thesis using False p(1) pagedir_get_page_eq [OF assms] by (auto simp: translate_def)
qed

lemma get_page_ok: "pd_ok v pd \<Longrightarrow> is_user_vaddr va \<Longrightarrow> \<exists>a. pagedir_get_page v pd va = Inr a"
  using pagedir_get_page_eq by blast

lemma translate_get_page:
  assumes "pd_ok v pd" "is_user_vaddr va"
  shows "pagedir_get_page v pd va = Inr (case translate v pd va of None \<Rightarrow> 0 | Some a \<Rightarrow> a)"
  using get_page_ok [OF assms] by (auto simp: translate_def)

text \<open>Writing the entry of a page changes how this page is translated and nothing else.\<close>

lemma translate_set_entry:
  assumes "pd_ok v pd" "is_user_vaddr u" "pde_at v pd (pdi u) \<noteq> 0"
    "unat a = 4096 * table_page (pde_at v pd (pdi u)) + 4 * pti u" "w AND PTE_P \<noteq> 0 \<longrightarrow> unat w < 0x40000000"
    "is_user_vaddr va"
  shows "translate (st v a w) pd va = (if pg_round_down va = pg_round_down u
    then if w AND PTE_P = 0 then None else case pte_get_page w of Inl _ \<Rightarrow> None | Inr page \<Rightarrow> Some (page + pg_ofs va)
    else translate v pd va)"
proof -
  note e = set_entry [OF assms(1) pdi_user [OF assms(2)] pti_less assms(3,4,5)]
  have "pte_of (st v a w) pd va = (if pg_round_down va = pg_round_down u then w else pte_of v pd va)"
    using e(2) [OF pdi_user [OF assms(6)] pti_less] by (simp add: same_page)
  then show ?thesis using translate_eq [OF e(1) assms(6)] translate_eq [OF assms(1,6)] by simp
qed

lemma user_pte:
  assumes "PHYS_BASE \<le> kpage" "pg_ofs kpage = 0"
  obtains w where "pte_create_user kpage wr = Inr w" "entry_ok w" "pte_get_page w = Inr kpage"
proof -
  have k: "is_kernel_vaddr kpage" using assms(1) by (simp add: is_kernel_vaddr_def)
  obtain p where v: "vtop kpage = Inr p" "ptov p = Inr kpage" and al: "pg_ofs p = 0"
    using k assms(2) by (rule kernel_page_vtop)
  define f where "f = PTE_P OR (if wr then PTE_W else 0) OR PTE_U"
  have f: "f AND PTE_ADDR = 0" "f AND PTE_P \<noteq> 0" by (simp_all add: f_def layout)
  have c: "pte_create_user kpage wr = Inr (p OR f)" using assms(2) v(1)
    by (simp add: pte_create_user_def pte_create_kernel_def f_def or.assoc)
  have "unat kpage = 4096 * unat (pg_no kpage)" by (rule aligned_unat [OF assms(2)])
  then have "entry_ok (p OR f)"
    using entry_of_page [OF assms(2) _ _ f, of "unat (pg_no kpage)"] v(1) assms(1)
    by (auto simp: vtop_eq word_le_nat_alt layout)
  moreover have "pte_get_page (p OR f) = Inr kpage"
    using aligned_and_flags [OF al, of f] f(1) v(2) by (simp add: pte_get_page_def)
  ultimately show thesis using that c by blast
qed

lemma set_page_lookup:
  assumes "pd_ok v pd" "is_user_vaddr u"
  obtains (none) "lookup_page v pd u True = Inr (v, 0)"
  | (entry) v' pte where "lookup_page v pd u True = Inr (v', pte)" "pte \<noteq> 0" "pd_ok v' pd" "pde_at v' pd (pdi u) \<noteq> 0"
      "unat pte = 4096 * table_page (pde_at v' pd (pdi u)) + 4 * pti u" "ld v' pte = pte_of v pd u"
      "\<And>va. is_user_vaddr va \<Longrightarrow> translate v' pd va = translate v pd va" "grows pd v v'"
      "\<And>i k. i < 768 \<Longrightarrow> k < 1024 \<Longrightarrow> pte_at v' pd i k = pte_at v pd i k"
proof (cases "pde_at v pd (pdi u) = 0")
  case False
  obtain pte where p: "lookup_page v pd u True = Inr (v, pte)" "pte \<noteq> 0"
    "unat pte = 4096 * table_page (pde_at v pd (pdi u)) + 4 * pti u" "ld v pte = pte_of v pd u"
    using lookup_page_found [OF assms False] .
  show thesis by (rule entry [OF p(1,2) assms(1) False p(3,4)]) (simp_all add: grows_def)
next
  case True
  from assms True show thesis
  proof (cases rule: lookup_page_create)
    case none
    then show thesis by (rule that(1))
  next
    case (made v' pte)
    have "ld v' pte = pte_of v pd u" using made(6,7) pdi_user [OF assms(2)] pti_less by simp
    moreover have "translate v' pd va = translate v pd va" if "is_user_vaddr va" for va
      using translate_eq [OF made(3) that] translate_eq [OF assms(1) that] made(7) [OF pdi_user [OF that] pti_less] by simp
    ultimately show thesis using made by (intro entry)
  qed
qed

lemma set_page_ok:
  assumes "pd_ok v pd" "is_user_vaddr u" "pg_ofs u = 0" "PHYS_BASE \<le> kpage" "pg_ofs kpage = 0"
    "drop_bit PTSHIFT (kpage - PHYS_BASE) < ram_pages v" "pd \<noteq> base_page_dir v" "translate v pd u = None"
  shows "\<exists>v' ok. pagedir_set_page v pd u kpage wr = Inr (v', ok) \<and> pd_ok v' pd \<and> (\<not> ok \<longrightarrow> v' = v) \<and>
    (\<forall>va. is_user_vaddr va \<longrightarrow> translate v' pd va =
       (if ok \<and> pg_round_down va = u then Some (kpage + pg_ofs va) else translate v pd va))"
proof -
  have vt: "vtop kpage = Inr (kpage - PHYS_BASE)" using assms(4) by (simp add: vtop_eq)
  obtain w where w: "pte_create_user kpage wr = Inr w" "entry_ok w" "pte_get_page w = Inr kpage"
    using user_pte [OF assms(4,5)] .
  have np: "pte_of v pd u AND PTE_P = 0"
  proof (rule ccontr)
    assume nz: "pte_of v pd u AND PTE_P \<noteq> 0"
    then obtain page where "pte_get_page (pte_of v pd u) = Inr page" using pagedir_get_page_eq [OF assms(1,2)] by blast
    then show False using nz assms(8) translate_eq [OF assms(1,2)] by simp
  qed
  from assms(1,2) show ?thesis
  proof (cases rule: set_page_lookup)
    case none
    then show ?thesis using assms vt by (auto simp: pagedir_set_page_def)
  next
    case (entry v' pte)
    have w': "w AND PTE_P \<noteq> 0 \<longrightarrow> unat w < 0x40000000" using w(2) by (simp add: entry_ok_def)
    have "pagedir_set_page v pd u kpage wr = Inr (st v' pte w, True)"
      using assms vt entry(1,2,6) np w(1) by (simp add: pagedir_set_page_def)
    moreover have "pd_ok (st v' pte w) pd"
      by (rule set_entry [OF entry(3) pdi_user [OF assms(2)] pti_less entry(4,5) w'])
    moreover have "translate (st v' pte w) pd va = (if pg_round_down va = u then Some (kpage + pg_ofs va) else translate v pd va)"
      if "is_user_vaddr va" for va
      using translate_set_entry [OF entry(3) assms(2) entry(4,5) w' that] entry(7) [OF that] w(2,3) aligned_round [OF assms(3)]
      by (simp add: entry_ok_def)
    ultimately show ?thesis by auto
  qed
qed

lemma invalidate_ok:
  assumes "cr3 v < PHYS_BASE" "PHYS_BASE \<le> pd" "pd \<noteq> 0"
  shows "\<exists>c < PHYS_BASE. invalidate_pagedir v pd = Inr (v\<lparr>cr3 := c\<rparr>)"
proof -
  have a: "active_pd v = Inr (cr3 v + PHYS_BASE)" using assms(1) by (simp add: active_pd_def ptov_eq)
  have "pd - PHYS_BASE < PHYS_BASE" using vtop_bound [OF assms(2)] by (simp add: word_less_nat_alt layout)
  moreover have "vtop pd = Inr (pd - PHYS_BASE)" using assms(2) by (simp add: vtop_eq)
  moreover have "v = v\<lparr>cr3 := cr3 v\<rparr>" by simp
  ultimately show ?thesis using a assms unfolding invalidate_pagedir_def pagedir_activate_def by auto
qed

lemma pd_ok_cr3 [simp]: "pd_ok (v\<lparr>cr3 := c\<rparr>) pd = pd_ok v pd"
  by (simp add: pd_ok_def pde_at_def pte_at_def)

lemma lookup_page_only:
  "lookup_page v pd va False = kbind (kassert (pd \<noteq> 0)) (\<lambda>_.
     if ld v (pd + 4 * pd_no va) = 0 then Inr (v, 0)
     else kbind (pde_get_pt (ld v (pd + 4 * pd_no va))) (\<lambda>pt. Inr (v, pt + 4 * pt_no va)))"
  by (cases "pd = 0") (simp_all add: lookup_page_def Let_def)

lemma translate_cr3 [simp]: "translate (v\<lparr>cr3 := c\<rparr>) pd va = translate v pd va"
proof -
  have l: "ld (v\<lparr>cr3 := c\<rparr>) a = ld v a" for a by (simp add: ld_def)
  have "pagedir_get_page (v\<lparr>cr3 := c\<rparr>) pd va = pagedir_get_page v pd va"
    unfolding pagedir_get_page_def lookup_page_only l
    by (cases "pd = 0"; cases "pde_get_pt (ld v (pd + 4 * pd_no va))") (simp_all add: l kassert_def)
  then show ?thesis by (simp add: translate_def)
qed

lemma and_not_present: "(w AND NOT PTE_P) AND PTE_P = (0 :: u32)"
  by (simp add: and.assoc)

lemma clear_page_ok:
  assumes "pd_ok v pd" "is_user_vaddr u" "pg_ofs u = 0" "cr3 v < PHYS_BASE" "PHYS_BASE \<le> pd"
  shows "\<exists>v'. pagedir_clear_page v pd u = Inr v' \<and> pd_ok v' pd \<and> cr3 v' < PHYS_BASE \<and>
    (\<forall>va. is_user_vaddr va \<longrightarrow> translate v' pd va = (if pg_round_down va = u then None else translate v pd va))"
proof (cases "pte_of v pd u AND PTE_P = 0")
  case True
  have "pagedir_clear_page v pd u = Inr v"
  proof (cases "pde_at v pd (pdi u) = 0")
    case True
    then show ?thesis using lookup_page_missing [OF assms(1,2)] assms(2,3) by (simp add: pagedir_clear_page_def)
  next
    case False
    obtain pte where "lookup_page v pd u False = Inr (v, pte)" "ld v pte = pte_of v pd u"
      using lookup_page_found [OF assms(1,2) False] by blast
    then show ?thesis using \<open>pte_of v pd u AND PTE_P = 0\<close> assms(2,3) by (simp add: pagedir_clear_page_def)
  qed
  moreover have "translate v pd va = None" if "is_user_vaddr va" "pg_round_down va = u" for va
    using translate_eq [OF assms(1) that(1)] same_page [of va u] that(2) aligned_round [OF assms(3)] True by simp
  ultimately show ?thesis using assms by auto
next
  case False
  then have nz: "pde_at v pd (pdi u) \<noteq> 0" by (auto simp: pte_at_def)
  obtain pte where pte: "lookup_page v pd u False = Inr (v, pte)" "pte \<noteq> 0"
    "unat pte = 4096 * table_page (pde_at v pd (pdi u)) + 4 * pti u" "ld v pte = pte_of v pd u"
    using lookup_page_found [OF assms(1,2) nz] .
  define w where "w = pte_of v pd u AND NOT PTE_P"
  have w: "w AND PTE_P \<noteq> 0 \<longrightarrow> unat w < 0x40000000" "w AND PTE_P = 0" by (simp_all add: w_def and_not_present)
  note e = set_entry [OF assms(1) pdi_user [OF assms(2)] pti_less nz pte(3) w(1)]
  have "pd \<noteq> 0" using assms(1) by (simp add: pd_ok_def)
  then obtain c where c: "c < PHYS_BASE" "invalidate_pagedir (st v pte w) pd = Inr ((st v pte w)\<lparr>cr3 := c\<rparr>)"
    using invalidate_ok [of "st v pte w" pd] assms(4,5) by (auto simp: st_def)
  have "pagedir_clear_page v pd u = Inr ((st v pte w)\<lparr>cr3 := c\<rparr>)"
    using pte(1,2,4) assms(2,3) False c(2) by (simp add: pagedir_clear_page_def w_def)
  then show ?thesis
    using e(1) c(1) translate_set_entry [OF assms(1,2) nz pte(3) w(1)] w(2) aligned_round [OF assms(3)] by simp
qed

text \<open>No operation on a directory touches the other fields of the machine.\<close>

definition same_machine :: "vm \<Rightarrow> vm \<Rightarrow> bool" where
  "same_machine v v' \<longleftrightarrow> base_page_dir v' = base_page_dir v \<and> ram_pages v' = ram_pages v"

lemma st_fields [simp]:
  "cr3 (st v a w) = cr3 v" "base_page_dir (st v a w) = base_page_dir v" "ram_pages (st v a w) = ram_pages v"
  by (simp_all add: st_def)

lemma lookup_page_frame:
  "lookup_page v pd va c = Inr (v', p) \<Longrightarrow> same_machine v v' \<and> cr3 v' = cr3 v"
  by (auto simp: lookup_page_def same_machine_def kbind_def kassert_def Let_def split: sum.splits if_splits)

lemma set_page_frame:
  assumes "pagedir_set_page v pd u k w = Inr (v', b)"
  shows "same_machine v v' \<and> cr3 v' = cr3 v"
proof -
  obtain v1 pte where l: "lookup_page v pd u True = Inr (v1, pte)" and v': "v' \<in> insert v1 (range (st v1 pte))"
    using assms by (auto simp: pagedir_set_page_def kbind_def kassert_def Let_def split: sum.splits if_splits)
  show ?thesis using lookup_page_frame [OF l] v' by (auto simp: same_machine_def)
qed

lemma clear_page_frame: "pagedir_clear_page v pd u = Inr v' \<Longrightarrow> same_machine v v'"
  by (auto simp: pagedir_clear_page_def invalidate_pagedir_def pagedir_activate_def same_machine_def kbind_def kassert_def Let_def
      split: sum.splits if_splits)

section \<open>Address spaces as an interface\<close>

datatype space_op = Map_page u32 u32 bool | Unmap_page u32

text \<open>What an operation, with its result, does to the abstract map.\<close>

fun apply_op :: "(u32 \<Rightarrow> u32 option) \<Rightarrow> space_op \<times> bool \<Rightarrow> u32 \<Rightarrow> u32 option" where
  "apply_op m (Map_page u k w, ok) = (\<lambda>va. if ok \<and> pg_round_down va = u then Some (k + pg_ofs va) else m va)"
| "apply_op m (Unmap_page u, ok) = (\<lambda>va. if pg_round_down va = u then None else m va)"

text \<open>A page is only mapped when no earlier operation may have left it mapped; \<open>M\<close> are the pages that may be.\<close>

fun may_run :: "u32 set \<Rightarrow> space_op list \<Rightarrow> bool" where
  "may_run M [] = True"
| "may_run M (Map_page u k w # ops) = (u \<notin> M \<and> may_run (insert u M) ops)"
| "may_run M (Unmap_page u # ops) = may_run (M - {u}) ops"

fun space_run :: "('s \<Rightarrow> space_op \<Rightarrow> ('s \<times> bool) outcome) \<Rightarrow> 's \<Rightarrow> space_op list \<Rightarrow> ('s \<times> bool list) outcome" where
  "space_run step s [] = Inr (s, [])"
| "space_run step s (op # ops) =
     kbind (step s op) (\<lambda>r. kbind (space_run step (fst r) ops) (\<lambda>q. Inr (fst q, snd r # snd q)))"

definition user_page :: "u32 \<Rightarrow> bool" where
  "user_page u \<longleftrightarrow> is_user_vaddr u \<and> pg_ofs u = 0"

locale address_space =
  fixes ok :: "'s \<Rightarrow> bool"
    and tr :: "'s \<Rightarrow> u32 \<Rightarrow> u32 option"
    and step :: "'s \<Rightarrow> space_op \<Rightarrow> ('s \<times> bool) outcome"
    and legal :: "space_op \<Rightarrow> bool"
  assumes legal_page: "legal (Map_page u k w) \<Longrightarrow> user_page u" "legal (Unmap_page u) \<Longrightarrow> user_page u"
    and map_ok: "ok s \<Longrightarrow> legal (Map_page u k w) \<Longrightarrow> tr s u = None \<Longrightarrow>
      \<exists>s' b. step s (Map_page u k w) = Inr (s', b) \<and> ok s' \<and>
        (\<forall>va. is_user_vaddr va \<longrightarrow> tr s' va = apply_op (tr s) (Map_page u k w, b) va)"
    and unmap_ok: "ok s \<Longrightarrow> legal (Unmap_page u) \<Longrightarrow>
      \<exists>s' b. step s (Unmap_page u) = Inr (s', b) \<and> ok s' \<and>
        (\<forall>va. is_user_vaddr va \<longrightarrow> tr s' va = apply_op (tr s) (Unmap_page u, b) va)"
begin

lemma apply_op_cong:
  "(\<And>va. is_user_vaddr va \<Longrightarrow> m va = m' va) \<Longrightarrow> is_user_vaddr va \<Longrightarrow> foldl apply_op m ops va = foldl apply_op m' ops va"
proof (induction ops arbitrary: m m')
  case (Cons op ops)
  have "is_user_vaddr x \<Longrightarrow> apply_op m op x = apply_op m' op x" for x
    using Cons.prems(1) by (cases op; cases "fst op") auto
  then show ?case using Cons.IH [of "apply_op m op" "apply_op m' op"] Cons.prems(2) by simp
qed simp

lemma step_refines:
  assumes "ok s" "legal op" "\<And>u. user_page u \<Longrightarrow> tr s u \<noteq> None \<Longrightarrow> u \<in> M" "may_run M (op # ops)"
  obtains s' b M' where "step s op = Inr (s', b)" "ok s'" "may_run M' ops"
    "\<And>va. is_user_vaddr va \<Longrightarrow> tr s' va = apply_op (tr s) (op, b) va"
    "\<And>u. user_page u \<Longrightarrow> tr s' u \<noteq> None \<Longrightarrow> u \<in> M'"
proof (cases op)
  case (Map_page u k w)
  have u: "user_page u" "tr s u = None" using assms legal_page(1) unfolding Map_page by fastforce+
  obtain s' b where s': "step s op = Inr (s', b)" "ok s'"
    "\<And>va. is_user_vaddr va \<Longrightarrow> tr s' va = apply_op (tr s) (op, b) va"
    using map_ok [OF assms(1) _ u(2)] assms(2) unfolding Map_page by blast
  show thesis
  proof (rule that [OF s'(1,2) _ s'(3)])
    show "may_run (insert u M) ops" using assms(4) by (simp add: Map_page)
    show "x \<in> insert u M" if "user_page x" "tr s' x \<noteq> None" for x
      using that s'(3) [of x] assms(3) [of x] by (auto simp: Map_page user_page_def aligned_round split: if_splits)
  qed
next
  case (Unmap_page u)
  have u: "user_page u" using assms legal_page(2) unfolding Unmap_page by fastforce
  obtain s' b where s': "step s op = Inr (s', b)" "ok s'"
    "\<And>va. is_user_vaddr va \<Longrightarrow> tr s' va = apply_op (tr s) (op, b) va"
    using unmap_ok [OF assms(1)] assms(2) unfolding Unmap_page by blast
  show thesis
  proof (rule that [OF s'(1,2) _ s'(3)])
    show "may_run (M - {u}) ops" using assms(4) by (simp add: Unmap_page)
    show "x \<in> M - {u}" if "user_page x" "tr s' x \<noteq> None" for x
      using that s'(3) [of x] assms(3) [of x] by (auto simp: Unmap_page user_page_def aligned_round split: if_splits)
  qed
qed

lemma run_refines:
  assumes "ok s" "\<forall>op \<in> set ops. legal op" "\<And>u. user_page u \<Longrightarrow> tr s u \<noteq> None \<Longrightarrow> u \<in> M" "may_run M ops"
  shows "\<exists>s' bs. space_run step s ops = Inr (s', bs) \<and> ok s' \<and> length bs = length ops \<and>
    (\<forall>va. is_user_vaddr va \<longrightarrow> tr s' va = foldl apply_op (tr s) (zip ops bs) va)"
  using assms
proof (induction ops arbitrary: s M)
  case (Cons op ops)
  obtain s' b M' where s': "step s op = Inr (s', b)" "ok s'" "may_run M' ops"
    "\<And>va. is_user_vaddr va \<Longrightarrow> tr s' va = apply_op (tr s) (op, b) va"
    "\<And>u. user_page u \<Longrightarrow> tr s' u \<noteq> None \<Longrightarrow> u \<in> M'"
    using step_refines [OF Cons.prems(1) _ Cons.prems(3,4)] Cons.prems(2) by (metis list.set_intros(1))
  obtain s2 bs where r: "space_run step s' ops = Inr (s2, bs)" "ok s2" "length bs = length ops"
    "\<And>va. is_user_vaddr va \<Longrightarrow> tr s2 va = foldl apply_op (tr s') (zip ops bs) va"
    using Cons.IH [OF s'(2) _ s'(5,3)] Cons.prems(2) by auto
  have "tr s2 va = foldl apply_op (apply_op (tr s) (op, b)) (zip ops bs) va" if "is_user_vaddr va" for va
    using r(4) [OF that] apply_op_cong [OF s'(4) that] by simp
  then show ?case using s'(1) r by auto
qed simp

end

definition space_step :: "u32 \<Rightarrow> vm \<Rightarrow> space_op \<Rightarrow> (vm \<times> bool) outcome" where
  "space_step pd v op = (case op of
     Map_page u k w \<Rightarrow> pagedir_set_page v pd u k w
   | Unmap_page u \<Rightarrow> kbind (pagedir_clear_page v pd u) (\<lambda>v. Inr (v, True)))"

text \<open>The calls that the assertions of the code allow: user pages, and kernel pages of the memory that there is.\<close>

definition space_legal :: "u32 \<Rightarrow> space_op \<Rightarrow> bool" where
  "space_legal rp op = (case op of
     Map_page u k w \<Rightarrow> user_page u \<and> PHYS_BASE \<le> k \<and> pg_ofs k = 0 \<and> drop_bit PTSHIFT (k - PHYS_BASE) < rp
   | Unmap_page u \<Rightarrow> user_page u)"

definition space_ok :: "u32 \<Rightarrow> u32 \<Rightarrow> vm \<Rightarrow> bool" where
  "space_ok rp pd v \<longleftrightarrow> pd_ok v pd \<and> pd \<noteq> base_page_dir v \<and> ram_pages v = rp \<and> cr3 v < PHYS_BASE \<and> PHYS_BASE \<le> pd"

interpretation pds: address_space "space_ok rp pd" "\<lambda>v. translate v pd" "space_step pd" "space_legal rp" for rp pd
proof unfold_locales
  fix u k w v
  assume a: "space_ok rp pd v" "space_legal rp (Map_page u k w)" "translate v pd u = None"
  obtain v' b where r: "pagedir_set_page v pd u k w = Inr (v', b)" "pd_ok v' pd"
    "\<And>va. is_user_vaddr va \<Longrightarrow> translate v' pd va = (if b \<and> pg_round_down va = u then Some (k + pg_ofs va) else translate v pd va)"
    using set_page_ok [of v pd u k w] a by (auto simp: space_ok_def space_legal_def user_page_def)
  then show "\<exists>s' b. space_step pd v (Map_page u k w) = Inr (s', b) \<and> space_ok rp pd s' \<and>
      (\<forall>va. is_user_vaddr va \<longrightarrow> translate s' pd va = apply_op (translate v pd) (Map_page u k w, b) va)"
    using a(1) set_page_frame [OF r(1)] by (auto simp: space_step_def space_ok_def same_machine_def)
next
  fix u v
  assume a: "space_ok rp pd v" "space_legal rp (Unmap_page u)"
  obtain v' where r: "pagedir_clear_page v pd u = Inr v'" "pd_ok v' pd" "cr3 v' < PHYS_BASE"
    "\<And>va. is_user_vaddr va \<Longrightarrow> translate v' pd va = (if pg_round_down va = u then None else translate v pd va)"
    using clear_page_ok [of v pd u] a by (auto simp: space_ok_def space_legal_def user_page_def)
  then show "\<exists>s' b. space_step pd v (Unmap_page u) = Inr (s', b) \<and> space_ok rp pd s' \<and>
      (\<forall>va. is_user_vaddr va \<longrightarrow> translate s' pd va = apply_op (translate v pd) (Unmap_page u, b) va)"
    using a(1) clear_page_frame [OF r(1)] by (auto simp: space_step_def space_ok_def same_machine_def)
qed (auto simp: space_legal_def)

section \<open>Properties\<close>

definition ex_vm :: vm where
  "ex_vm = \<lparr>pal = ex_palloc\<lparr>ram := \<lambda>_. 0\<rparr>, cr3 = 0x100000, base_page_dir = 0xc0100000, ram_pages = 1024\<rparr>"

lemma ex_vm_words: "word_at (ram (pal ex_vm)) q k = 0"
  by (simp add: ex_vm_def word_at_def rd32_def de32_def)

lemma ex_vm_ok: "space_ok 1024 0xc0101000 ex_vm"
proof -
  have "palloc_ok (pal ex_vm)" using ex_palloc_ok by (simp add: ex_vm_def)
  moreover have "pools_high (pal ex_vm)" "786689 \<in> pages_used (pal ex_vm)"
    by (simp_all add: ex_vm_def pools_high_def ex_palloc_def layout word_le_nat_alt pages_used_def
        pool_used_def first_page_def pg_no_def bools_def)
  moreover have "pde_at ex_vm pd i = 0" "pte_at ex_vm pd i k = 0" for pd i k by (simp_all add: pde_at_def pte_at_def ex_vm_words)
  ultimately show ?thesis by (simp add: space_ok_def pd_ok_def pg_no_def pg_ofs_def layout word_le_nat_alt word_less_nat_alt)
      (simp add: ex_vm_def)
qed

text \<open>
  C6. Refinement of page directories: whatever sequence of \<^verbatim>\<open>pagedir_set_page\<close> and
  \<^verbatim>\<open>pagedir_clear_page\<close> calls is made on a well-formed directory, with arguments that the
  assertions allow and without mapping a page twice, no call fails, the directory stays
  well-formed, and for every user address \<^verbatim>\<open>pagedir_get_page\<close> then returns what the abstract
  partial map says: the kernel page of the last successful mapping of its page plus the offset, and
  a null pointer for a page that is not mapped. A mapping fails only by returning false, which
  changes nothing.
\<close>

theorem pagedir_refines_map:
  assumes "space_ok rp pd v" "\<forall>op \<in> set ops. space_legal rp op"
    "\<forall>u. user_page u \<and> translate v pd u \<noteq> None \<longrightarrow> u \<in> M" "may_run M ops"
  shows "\<exists>v' bs. space_run (space_step pd) v ops = Inr (v', bs) \<and> space_ok rp pd v' \<and> length bs = length ops \<and>
    (\<forall>va. is_user_vaddr va \<longrightarrow> pagedir_get_page v' pd va =
       Inr (case foldl apply_op (translate v pd) (zip ops bs) va of None \<Rightarrow> 0 | Some a \<Rightarrow> a))"
proof -
  obtain v' bs where r: "space_run (space_step pd) v ops = Inr (v', bs)" "space_ok rp pd v'" "length bs = length ops"
    "\<And>va. is_user_vaddr va \<Longrightarrow> translate v' pd va = foldl apply_op (translate v pd) (zip ops bs) va"
    using pds.run_refines [OF assms(1,2) _ assms(4)] assms(3) by blast
  then show ?thesis using translate_get_page [of v' pd] by (auto simp: space_ok_def)
qed

theorem pagedir_refines_map_witness:
  "\<exists>v' bs. space_run (space_step 0xc0101000) ex_vm [Map_page 0x8048000 0xc0105000 True, Unmap_page 0x8048000, Map_page 0x8048000 0xc0106000 False] = Inr (v', bs) \<and>
     length bs = 3 \<and> pagedir_get_page v' 0xc0101000 0x8048004 = Inr (if bs ! 2 then 0xc0106004 else 0)"
proof -
  define ops where "ops = [Map_page 0x8048000 0xc0105000 True, Unmap_page 0x8048000, Map_page 0x8048000 0xc0106000 False]"
  have l: "\<forall>op \<in> set ops. space_legal 1024 op"
    by (simp add: ops_def space_legal_def user_page_def is_user_vaddr_def pg_ofs_def layout word_less_nat_alt word_le_nat_alt PTSHIFT_def)
  have ok: "pd_ok ex_vm 0xc0101000" using ex_vm_ok by (simp add: space_ok_def)
  have t: "translate ex_vm 0xc0101000 u = None" if "is_user_vaddr u" for u
    using translate_eq [OF ok that] by (simp add: pte_at_def pde_at_def ex_vm_words)
  have n: "\<forall>u. user_page u \<and> translate ex_vm 0xc0101000 u \<noteq> None \<longrightarrow> u \<in> {}" using t by (auto simp: user_page_def)
  have u: "is_user_vaddr 0x8048004" by (simp add: is_user_vaddr_def layout)
  obtain v' bs where r: "space_run (space_step 0xc0101000) ex_vm ops = Inr (v', bs)" "length bs = 3"
    "pagedir_get_page v' 0xc0101000 0x8048004 = Inr (case foldl apply_op (translate ex_vm 0xc0101000) (zip ops bs) 0x8048004 of None \<Rightarrow> 0 | Some a \<Rightarrow> a)"
    using pagedir_refines_map [OF ex_vm_ok l n] u by (auto simp: ops_def)
  obtain a b c where bs: "bs = [a, b, c]" using r(2) by (auto simp: length_Suc_conv numeral_3_eq_3)
  show ?thesis using r t [OF u] by (simp add: ops_def bs pg_round_down_def pg_ofs_def layout)
qed

end
