(* ===== verification/Syscall.thy ===== *)
theory Syscall
  imports FilesysInv Pagedir
begin

text \<open>
  System calls (\<^verbatim>\<open>userprog/syscall.c\<close>) and the table of file descriptors of a thread (the first part of
  \<^verbatim>\<open>threads/thread.c\<close>). A call works on the state \<open>proc\<close> of the running process: its page directory, its
  table of open files, the file system and the memory. What the handler starts but does not do
  itself, ending the thread, running or waiting for another process, and switching the machine
  off, is the result of the call.

  The kernel reads and writes user memory through the page tables of the process. An access to a
  page that is not mapped, or a store to a read-only page, is a page fault in kernel mode, for
  which \<^verbatim>\<open>userprog/exception.c\<close> panics.
\<close>

section \<open>State\<close>

definition LEN_FILE_LIST :: int where "LEN_FILE_LIST = 130"

record proc =
  fsys :: fs
  mach :: vm
  pagedir :: u32
  kernel_text :: "nat set"        \<comment> \<open>numbers of the kernel's read-only pages\<close>
  tracker_avail_ind :: int
  file_tracker :: "addr list"
  ret_status :: int
  eax :: u32
  console :: "u8 list"
  keys :: "nat \<Rightarrow> u8"             \<comment> \<open>the keys that will be pressed, in order\<close>
  keys_read :: nat

datatype what_next = Resume | Thread_exit | Process_execute "u8 list" | Process_wait int | Power_off

section \<open>Memory as the kernel sees it\<close>

definition kernel_page :: "proc \<Rightarrow> u32 \<Rightarrow> bool" where
  "kernel_page s a \<longleftrightarrow> \<not> is_user_vaddr a \<and> unat (a - PHYS_BASE) div 4096 < unat (ram_pages (mach s))"

definition mem_get :: "proc \<Rightarrow> u32 \<Rightarrow> u8 outcome" where
  "mem_get s a =
     (if is_user_vaddr a
      then kbind (pagedir_get_page (mach s) (pagedir s) a) (\<lambda>p.
             if p = 0 then Inl Kernel_panic else Inr (ram (pal (mach s)) (unat p)))
      else if kernel_page s a then Inr (ram (pal (mach s)) (unat a)) else Inl Kernel_panic)"

definition set_byte :: "proc \<Rightarrow> nat \<Rightarrow> u8 \<Rightarrow> proc" where
  "set_byte s x b = s\<lparr>mach := (mach s)\<lparr>pal := (pal (mach s))\<lparr>ram := (ram (pal (mach s)))(x := b)\<rparr>\<rparr>\<rparr>"

definition mem_put :: "proc \<Rightarrow> u32 \<Rightarrow> u8 \<Rightarrow> proc outcome" where
  "mem_put s a b =
     (if is_user_vaddr a
      then kbind (lookup_page (mach s) (pagedir s) a False) (\<lambda>r. let pte = snd r in
             if pte = 0 \<or> ld (mach s) pte AND PTE_P = 0 \<or> ld (mach s) pte AND PTE_W = 0 then Inl Kernel_panic
             else kbind (pte_get_page (ld (mach s) pte)) (\<lambda>page. Inr (set_byte s (unat (page + pg_ofs a)) b)))
      else if kernel_page s a \<and> unat a div 4096 \<notin> kernel_text s then Inr (set_byte s (unat a) b) else Inl Kernel_panic)"

definition mem_get32 :: "proc \<Rightarrow> u32 \<Rightarrow> u32 outcome" where
  "mem_get32 s a =
     kbind (mem_get s a) (\<lambda>b0. kbind (mem_get s (a + 1)) (\<lambda>b1. kbind (mem_get s (a + 2)) (\<lambda>b2. kbind (mem_get s (a + 3)) (\<lambda>b3.
       Inr (of_nat (de32 [b0, b1, b2, b3]))))))"

fun mem_put_all :: "proc \<Rightarrow> u32 \<Rightarrow> u8 list \<Rightarrow> proc outcome" where
  "mem_put_all s a [] = Inr s"
| "mem_put_all s a (b # bs) = kbind (mem_put s a b) (\<lambda>s. mem_put_all s (a + 1) bs)"

text \<open>The bytes from an address on as far as they can be read, at most \<open>n\<close>.\<close>

fun mem_bytes :: "proc \<Rightarrow> u32 \<Rightarrow> nat \<Rightarrow> u8 list" where
  "mem_bytes s a 0 = []"
| "mem_bytes s a (Suc n) = (case mem_get s a of Inl _ \<Rightarrow> [] | Inr b \<Rightarrow> b # mem_bytes s (a + 1) n)"

lemma unat_next:
  assumes "a \<noteq> - 1"
  shows "unat (a + 1 :: u32) = Suc (unat a)"
proof -
  have "1 + a \<noteq> 0" using assms by (metis add.commute add_eq_0_iff2)
  then show ?thesis using unatSuc [of a] by (simp add: add.commute)
qed

text \<open>The string at an address; it ends at the end of the address space at the latest.\<close>

function mem_str :: "proc \<Rightarrow> u32 \<Rightarrow> u8 list outcome" where
  "mem_str s a = kbind (mem_get s a) (\<lambda>c.
     if c = 0 then Inr [] else if a = -1 then Inl Kernel_panic
     else kbind (mem_str s (a + 1)) (\<lambda>cs. Inr (c # cs)))"
  by pat_completeness auto

termination
proof (relation "measure (\<lambda>(s, a). 4294967296 - unat a)")
  fix s :: proc and a :: u32
  assume "a \<noteq> - 1"
  then show "((s, a + 1), s, a) \<in> measure (\<lambda>(s, a). 4294967296 - unat a)"
    using unat_u32_less [of a] by (simp add: unat_next)
qed simp

declare mem_str.simps [simp del]

section \<open>File descriptors\<close>

definition tracker_get :: "proc \<Rightarrow> int \<Rightarrow> addr outcome" where
  "tracker_get s k = (if 0 \<le> k \<and> nat k < length (file_tracker s) then Inr (file_tracker s ! nat k) else Inl Bad_access)"

definition tracker_set :: "proc \<Rightarrow> int \<Rightarrow> addr \<Rightarrow> proc outcome" where
  "tracker_set s k f =
     (if 0 \<le> k \<and> nat k < length (file_tracker s) then Inr (s\<lparr>file_tracker := (file_tracker s)[nat k := f]\<rparr>) else Inl Bad_access)"

text \<open>The search for the next free entry; the result says whether one was found.\<close>

function next_avail :: "proc \<Rightarrow> int \<Rightarrow> (int \<times> bool) outcome" where
  "next_avail s k =
     kbind (tracker_get s k) (\<lambda>f.
       if f \<noteq> NULL
       then if LEN_FILE_LIST - 1 < k + 1 then Inr (-1, False) else next_avail s (k + 1)
       else Inr (k, True))"
  by pat_completeness auto
termination by (relation "measure (\<lambda>(s, k). nat (LEN_FILE_LIST - k))") (auto simp: LEN_FILE_LIST_def)

declare next_avail.simps [simp del]

definition add_file_to_fd :: "proc \<Rightarrow> u8 list \<Rightarrow> (proc \<times> int) outcome" where
  "add_file_to_fd s filename =
     (if tracker_avail_ind s < 0 then Inr (s, -1)
      else kbind (filesys_open (fsys s) filename) (\<lambda>r.
        let s = s\<lparr>fsys := fst r\<rparr>; opened_file = snd r
        in if opened_file = NULL then Inr (s, -1)
           else kbind (tracker_set s (tracker_avail_ind s) opened_file) (\<lambda>s.
                kbind (next_avail s (tracker_avail_ind s + 1)) (\<lambda>n.
                  Inr (s\<lparr>tracker_avail_ind := fst n\<rparr>, if snd n then tracker_avail_ind s + 2 else -1)))))"

definition get_file_from_fd :: "proc \<Rightarrow> int \<Rightarrow> addr outcome" where
  "get_file_from_fd s fd = (if LEN_FILE_LIST < fd - 2 then Inr NULL else tracker_get s (fd - 2))"

definition close_file_from_fd :: "proc \<Rightarrow> int \<Rightarrow> (proc \<times> bool) outcome" where
  "close_file_from_fd s fd =
     (if LEN_FILE_LIST < fd - 2 then Inr (s, False)
      else kbind (tracker_get s (fd - 2)) (\<lambda>f.
           kbind (file_close (fsys s) f) (\<lambda>fs.
           kbind (tracker_set (s\<lparr>fsys := fs\<rparr>) (fd - 2) NULL) (\<lambda>s.
             Inr (s\<lparr>tracker_avail_ind := fd - 2\<rparr>, True)))))"

section \<open>Checks of user pointers\<close>

definition check_user_ptr :: "proc \<Rightarrow> u32 \<Rightarrow> bool outcome" where
  "check_user_ptr s ptr =
     (if ptr = 0 \<or> \<not> is_user_vaddr ptr then Inr False
      else kbind (pagedir_get_page (mach s) (pagedir s) ptr) (\<lambda>p. Inr (p \<noteq> 0)))"

text \<open>The loop of \<^verbatim>\<open>check_user_str_ptr\<close>: the address behind the terminator, or none if a byte is not mapped.\<close>

function check_str_loop :: "proc \<Rightarrow> u32 \<Rightarrow> u32 option outcome" where
  "check_str_loop s p =
     kbind (pagedir_get_page (mach s) (pagedir s) p) (\<lambda>a.
       if a = 0 then Inr None
       else kbind (mem_get s p) (\<lambda>c. if c \<noteq> 0 then check_str_loop s (p + 1) else Inr (Some (p + 1))))"
  by pat_completeness auto
termination
proof (relation "measure (\<lambda>(s, p). 4294967296 - unat p)")
  fix s p x xa
  assume "pagedir_get_page (mach s) (pagedir s) p = Inr x"
  then have "is_user_vaddr p" by (auto simp: pagedir_get_page_def)
  then have "p \<noteq> -1" by (auto simp: is_user_vaddr_def layout)
  then show "((s, p + 1), s, p) \<in> measure (\<lambda>(s, p). 4294967296 - unat p)"
    using unat_u32_less [of p] by (simp add: unat_next diff_less_mono2)
qed simp

declare check_str_loop.simps [simp del]

definition check_user_str_ptr :: "proc \<Rightarrow> u32 \<Rightarrow> bool outcome" where
  "check_user_str_ptr s ptr =
     kbind (mem_get s ptr) (\<lambda>_. kbind (check_str_loop s ptr) (\<lambda>r. case r of
       None \<Rightarrow> Inr False
     | Some p \<Rightarrow> kbind (pagedir_get_page (mach s) (pagedir s) p) (\<lambda>a. Inr (a \<noteq> 0))))"

text \<open>The loop of \<^verbatim>\<open>check_user_buf_ptr\<close> with \<open>k\<close> rounds left.\<close>

fun check_buf_loop :: "proc \<Rightarrow> u32 \<Rightarrow> nat \<Rightarrow> bool outcome" where
  "check_buf_loop s p 0 = Inr True"
| "check_buf_loop s p (Suc k) =
     kbind (check_user_ptr s p) (\<lambda>c.
     kbind (if c then kbind (pagedir_get_page (mach s) (pagedir s) p) (\<lambda>a. Inr (a = 0)) else Inr False) (\<lambda>bad.
       if bad then Inr False else check_buf_loop s (p + 1) k))"

definition check_user_buf_ptr :: "proc \<Rightarrow> u32 \<Rightarrow> u32 \<Rightarrow> bool outcome" where
  "check_user_buf_ptr s ptr n = kbind (check_buf_loop s ptr (unat n)) (\<lambda>ok. Inr (ok \<and> n \<noteq> 0))"

section \<open>The calls\<close>

definition call_exit :: "proc \<Rightarrow> int \<Rightarrow> (proc \<times> what_next) outcome" where
  "call_exit s status = Inr (s\<lparr>eax := word_of_int status, ret_status := status\<rparr>, Thread_exit)"

definition resume :: "proc \<Rightarrow> int \<Rightarrow> (proc \<times> what_next) outcome" where
  "resume s v = Inr (s\<lparr>eax := word_of_int v\<rparr>, Resume)"

definition call_exec :: "proc \<Rightarrow> u32 \<Rightarrow> (proc \<times> what_next) outcome" where
  "call_exec s cmd_line = kbind (mem_str s cmd_line) (\<lambda>cs. Inr (s, Process_execute cs))"

definition call_wait :: "proc \<Rightarrow> int \<Rightarrow> (proc \<times> what_next) outcome" where
  "call_wait s tid = Inr (s, Process_wait tid)"

text \<open>\<open>e0\<close> is what the local directory entry of \<^verbatim>\<open>dir_add\<close> holds at first.\<close>

definition call_create :: "u8 list \<Rightarrow> proc \<Rightarrow> u32 \<Rightarrow> int \<Rightarrow> (proc \<times> what_next) outcome" where
  "call_create e0 s filename_ptr file_size =
     kbind (mem_str s filename_ptr) (\<lambda>name.
       if length name \<noteq> 0
       then kbind (filesys_create e0 (fsys s) name file_size) (\<lambda>r. resume (s\<lparr>fsys := fst r\<rparr>) (if snd r then 1 else 0))
       else resume s 0)"

definition call_remove :: "proc \<Rightarrow> u32 \<Rightarrow> (proc \<times> what_next) outcome" where
  "call_remove s file_name =
     kbind (mem_str s file_name) (\<lambda>name.
     kbind (filesys_open (fsys s) name) (\<lambda>r.
       let s = s\<lparr>fsys := fst r\<rparr>; f = snd r
       in if f \<noteq> NULL
          then kbind (file_get_inode (fsys s) f) (\<lambda>i.
               kbind (inode_remove (fsys s) i) (\<lambda>fs. resume (s\<lparr>fsys := fs\<rparr>) 1))
          else resume s 0))"

definition call_open :: "proc \<Rightarrow> u32 \<Rightarrow> (proc \<times> what_next) outcome" where
  "call_open s filename =
     kbind (mem_str s filename) (\<lambda>name. kbind (add_file_to_fd s name) (\<lambda>r. resume (fst r) (snd r)))"

definition call_filesize :: "proc \<Rightarrow> int \<Rightarrow> (proc \<times> what_next) outcome" where
  "call_filesize s fd =
     kbind (get_file_from_fd s fd) (\<lambda>f. kbind (file_length (fsys s) f) (\<lambda>n. resume s n))"

text \<open>Keys are stored at the buffer one after the other.\<close>

fun read_keys :: "proc \<Rightarrow> u32 \<Rightarrow> nat \<Rightarrow> proc outcome" where
  "read_keys s p 0 = Inr s"
| "read_keys s p (Suc k) =
     kbind (mem_put (s\<lparr>keys_read := keys_read s + 1\<rparr>) p (keys s (keys_read s))) (\<lambda>s. read_keys s (p + 1) k)"

definition call_read :: "proc \<Rightarrow> int \<Rightarrow> u32 \<Rightarrow> int \<Rightarrow> (proc \<times> what_next) outcome" where
  "call_read s fd buffer cnt =
     (if cnt = 0 then resume s 0
      else kbind (kbind (check_user_ptr s buffer) (\<lambda>c. if c then check_user_buf_ptr s buffer (word_of_int cnt) else Inr False)) (\<lambda>ok.
        if ok
        then if fd = 0 then kbind (read_keys s buffer (nat cnt)) (\<lambda>s. resume s cnt)
             else if fd = 1 then resume s (-1)
             else kbind (get_file_from_fd s fd) (\<lambda>f.
               if f = NULL then call_exit s (-1)
               else kbind (file_read (fsys s) f cnt) (\<lambda>r.
                    kbind (mem_put_all (s\<lparr>fsys := fst r\<rparr>) buffer (snd r)) (\<lambda>s. resume s (int (length (snd r))))))
        else call_exit s (-1)))"

definition call_write :: "proc \<Rightarrow> int \<Rightarrow> u32 \<Rightarrow> u32 \<Rightarrow> (proc \<times> what_next) outcome" where
  "call_write s fd buffer cnt =
     (if fd = 1
      then let bs = mem_bytes s buffer (unat cnt)
           in if length bs = unat cnt then resume (s\<lparr>console := console s @ bs\<rparr>) (int (unat cnt)) else Inl Kernel_panic
      else if fd = 0 then call_exit s (-1)
      else kbind (get_file_from_fd s fd) (\<lambda>f.
        if f = NULL then call_exit s (-1)
        else kbind (file_write (fsys s) f (mem_bytes s buffer (unat cnt)) (sint cnt)) (\<lambda>r.
               resume (s\<lparr>fsys := fst r\<rparr>) (sint cnt))))"

definition call_seek :: "proc \<Rightarrow> int \<Rightarrow> u32 \<Rightarrow> (proc \<times> what_next) outcome" where
  "call_seek s fd position =
     kbind (get_file_from_fd s fd) (\<lambda>f. kbind (file_seek (fsys s) f (sint position)) (\<lambda>fs. Inr (s\<lparr>fsys := fs\<rparr>, Resume)))"

definition call_tell :: "proc \<Rightarrow> int \<Rightarrow> (proc \<times> what_next) outcome" where
  "call_tell s fd = kbind (get_file_from_fd s fd) (\<lambda>f. kbind (file_tell (fsys s) f) (\<lambda>n. resume s n))"

definition call_close :: "proc \<Rightarrow> u32 \<Rightarrow> (proc \<times> what_next) outcome" where
  "call_close s esp =
     kbind (check_user_ptr s (esp + 4)) (\<lambda>c.
       if c
       then kbind (mem_get32 s (esp + 4)) (\<lambda>w.
              if sint w \<noteq> 0 \<and> sint w \<noteq> 1
              then kbind (close_file_from_fd s (sint w)) (\<lambda>r. Inr (fst r, Resume))
              else call_exit s (-1))
       else call_exit s (-1))"

section \<open>The handler\<close>

text \<open>The numbers of the calls are the positions in the enumeration of \<^verbatim>\<open>lib/syscall-nr.h\<close>.\<close>

datatype syscall_nr = SYS_HALT | SYS_EXIT | SYS_EXEC | SYS_WAIT | SYS_CREATE | SYS_REMOVE | SYS_OPEN | SYS_FILESIZE
  | SYS_READ | SYS_WRITE | SYS_SEEK | SYS_TELL | SYS_CLOSE

definition syscall_of :: "nat \<Rightarrow> syscall_nr option" where
  "syscall_of n = (let nrs = [SYS_HALT, SYS_EXIT, SYS_EXEC, SYS_WAIT, SYS_CREATE, SYS_REMOVE, SYS_OPEN, SYS_FILESIZE,
       SYS_READ, SYS_WRITE, SYS_SEEK, SYS_TELL, SYS_CLOSE]
     in if n < length nrs then Some (nrs ! n) else None)"

text \<open>A conjunction of checks, evaluated from left to right.\<close>

fun all_checks :: "(unit \<Rightarrow> bool outcome) list \<Rightarrow> bool outcome" where
  "all_checks [] = Inr True"
| "all_checks (c # cs) = kbind (c ()) (\<lambda>b. if b then all_checks cs else Inr False)"

definition guarded :: "proc \<Rightarrow> (unit \<Rightarrow> bool outcome) list \<Rightarrow> (unit \<Rightarrow> (proc \<times> what_next) outcome) \<Rightarrow> (proc \<times> what_next) outcome" where
  "guarded s cs act = kbind (all_checks cs) (\<lambda>b. if b then act () else call_exit s (-1))"

definition arg_word :: "proc \<Rightarrow> u32 \<Rightarrow> (u32 \<Rightarrow> 'a outcome) \<Rightarrow> 'a outcome" where
  "arg_word s a f = kbind (mem_get32 s a) f"

definition syscall_dispatch :: "u8 list \<Rightarrow> proc \<Rightarrow> u32 \<Rightarrow> syscall_nr option \<Rightarrow> (proc \<times> what_next) outcome" where
  "syscall_dispatch e0 s esp nr =
     (let user = (\<lambda>ofs _. check_user_ptr s (esp + ofs)); str = (\<lambda>_. arg_word s (esp + 4) (check_user_str_ptr s))
      in case nr of
        Some SYS_HALT \<Rightarrow> Inr (s, Power_off)
      | Some SYS_EXIT \<Rightarrow> guarded s [user 4] (\<lambda>_. arg_word s (esp + 4) (\<lambda>w. call_exit s (sint w)))
      | Some SYS_EXEC \<Rightarrow> guarded s [user 4, str] (\<lambda>_. arg_word s (esp + 4) (call_exec s))
      | Some SYS_WAIT \<Rightarrow> guarded s [user 4] (\<lambda>_. arg_word s (esp + 4) (\<lambda>w. call_wait s (sint w)))
      | Some SYS_CREATE \<Rightarrow> guarded s [str, user 8, (\<lambda>_. arg_word s (esp + 8) (\<lambda>w. Inr (0 \<le> sint w)))]
          (\<lambda>_. arg_word s (esp + 4) (\<lambda>p. arg_word s (esp + 8) (\<lambda>w. call_create e0 s p (sint w))))
      | Some SYS_REMOVE \<Rightarrow> kbind (all_checks [user 4, str]) (\<lambda>b.
          if b then arg_word s (esp + 4) (call_remove s) else resume s 0)
      | Some SYS_OPEN \<Rightarrow> guarded s [str] (\<lambda>_. arg_word s (esp + 4) (call_open s))
      | Some SYS_FILESIZE \<Rightarrow> kbind (check_user_ptr s (esp + 4)) (\<lambda>b.
          if b then arg_word s (esp + 4) (\<lambda>w. call_filesize s (sint w)) else resume s (-1))
      | Some SYS_READ \<Rightarrow> guarded s [user 4, user 8, user 12]
          (\<lambda>_. arg_word s (esp + 4) (\<lambda>fd. arg_word s (esp + 8) (\<lambda>p. arg_word s (esp + 12) (\<lambda>n. call_read s (sint fd) p (sint n)))))
      | Some SYS_WRITE \<Rightarrow> guarded s [user 4, user 12] (\<lambda>_. arg_word s (esp + 12) (\<lambda>n.
          if n \<noteq> 0
          then guarded s [user 8, (\<lambda>_. arg_word s (esp + 8) (check_user_ptr s)), (\<lambda>_. arg_word s (esp + 8) (\<lambda>p. check_user_buf_ptr s p n))]
                 (\<lambda>_. arg_word s (esp + 4) (\<lambda>fd. arg_word s (esp + 8) (\<lambda>p. arg_word s (esp + 12) (\<lambda>n. call_write s (sint fd) p n))))
          else resume s 0))
      | Some SYS_SEEK \<Rightarrow> guarded s [user 4, user 8] (\<lambda>_. arg_word s (esp + 4) (\<lambda>fd. arg_word s (esp + 8) (\<lambda>n. call_seek s (sint fd) n)))
      | Some SYS_TELL \<Rightarrow> guarded s [user 4] (\<lambda>_. arg_word s (esp + 4) (\<lambda>fd. call_tell s (sint fd)))
      | Some SYS_CLOSE \<Rightarrow> call_close s esp
      | None \<Rightarrow> call_exit s (-1))"

definition syscall_handler :: "u8 list \<Rightarrow> proc \<Rightarrow> u32 \<Rightarrow> (proc \<times> what_next) outcome" where
  "syscall_handler e0 s esp =
     kbind (check_user_ptr s esp) (\<lambda>c.
       if c then kbind (mem_get32 s esp) (\<lambda>nr. syscall_dispatch e0 s esp (syscall_of (unat nr)))
       else call_exit s (-1))"

section \<open>The table of file descriptors\<close>

definition fd_ok :: "proc \<Rightarrow> bool" where
  "fd_ok s \<longleftrightarrow> length (file_tracker s) = 130 \<and> -1 \<le> tracker_avail_ind s \<and> tracker_avail_ind s < LEN_FILE_LIST \<and>
     (0 \<le> tracker_avail_ind s \<longrightarrow> file_tracker s ! nat (tracker_avail_ind s) = NULL)"

lemma next_avail_ok:
  assumes "length (file_tracker s) = 130" "k < 130"
  shows "(\<exists>j \<ge> k. j < 130 \<and> file_tracker s ! j = NULL \<and> next_avail s (int k) = Inr (int j, True)) \<or>
    (\<forall>j. k \<le> j \<and> j < 130 \<longrightarrow> file_tracker s ! j \<noteq> NULL) \<and> next_avail s (int k) = Inr (-1, False)"
  using assms
proof (induction "130 - k" arbitrary: k)
  case (Suc m)
  show ?case
  proof (cases "file_tracker s ! k = NULL")
    case True
    then have "next_avail s (int k) = Inr (int k, True)"
      using Suc.prems by (subst next_avail.simps) (simp add: tracker_get_def)
    then show ?thesis using True Suc.prems(2) by auto
  next
    case False
    show ?thesis
    proof (cases "k = 129")
      case True
      then have "next_avail s (int k) = Inr (-1, False)"
        using False Suc.prems by (subst next_avail.simps) (simp add: tracker_get_def LEN_FILE_LIST_def)
      moreover have "file_tracker s ! j \<noteq> NULL" if "k \<le> j" "j < 130" for j
        using False True that by (cases "j = 129") auto
      ultimately show ?thesis by blast
    next
      case ne: False
      then have "k + 1 < 130" "m = 130 - (k + 1)" using Suc by simp_all
      note IH = Suc.hyps(1) [OF this(2) Suc.prems(1) this(1)]
      have e: "next_avail s (int k) = next_avail s (int (k + 1))"
        using False ne Suc.prems by (subst next_avail.simps) (simp add: tracker_get_def LEN_FILE_LIST_def add.commute)
      have all: "\<forall>j. k \<le> j \<and> j < 130 \<longrightarrow> file_tracker s ! j \<noteq> NULL" if "\<forall>j. k + 1 \<le> j \<and> j < 130 \<longrightarrow> file_tracker s ! j \<noteq> NULL"
        using that False by (metis Suc_eq_plus1 Suc_leI le_neq_implies_less)
      show ?thesis using IH all unfolding e by (meson add_leD1)
    qed
  qed
qed simp

lemma add_file_ok:
  assumes "fd_ok s" "0 \<le> tracker_avail_ind s" "tracker_avail_ind s < 129" "filesys_open (fsys s) name = Inr (fs', f)" "f \<noteq> NULL"
  defines "k \<equiv> nat (tracker_avail_ind s)"
  shows "\<exists>s' fd. add_file_to_fd s name = Inr (s', fd) \<and> fd_ok s' \<and> file_tracker s' = (file_tracker s)[k := f] \<and> fsys s' = fs' \<and>
    fd = (if \<exists>j > k. j < 130 \<and> file_tracker s ! j = NULL then int k + 2 else -1)"
proof -
  define s1 where "s1 = s\<lparr>fsys := fs', file_tracker := (file_tracker s)[k := f]\<rparr>"
  have l: "length (file_tracker s) = 130" "tracker_avail_ind s = int k" "k < 129" using assms by (simp_all add: fd_ok_def k_def)
  have add: "add_file_to_fd s name = kbind (next_avail s1 (int (k + 1))) (\<lambda>n.
      Inr (s1\<lparr>tracker_avail_ind := fst n\<rparr>, if snd n then int k + 2 else -1))"
    using assms(4,5) l by (simp add: add_file_to_fd_def tracker_set_def s1_def Let_def add.commute cong: if_cong)
  have j: "file_tracker s1 ! j = file_tracker s ! j" if "k + 1 \<le> j" for j using that by (simp add: s1_def)
  have "length (file_tracker s1) = 130" "k + 1 < 130" using l by (simp_all add: s1_def)
  from next_avail_ok [OF this] show ?thesis
  proof (elim disjE exE conjE)
    fix m
    assume m: "k + 1 \<le> m" "m < 130" "file_tracker s1 ! m = NULL" "next_avail s1 (int (k + 1)) = Inr (int m, True)"
    then have "\<exists>j > k. j < 130 \<and> file_tracker s ! j = NULL" using j by (intro exI [of _ m]) simp
    moreover have "fd_ok (s1\<lparr>tracker_avail_ind := int m\<rparr>)" using l m by (simp add: fd_ok_def s1_def LEN_FILE_LIST_def)
    ultimately show ?thesis using add m(4) by (simp add: s1_def)
  next
    assume a: "\<forall>j. k + 1 \<le> j \<and> j < 130 \<longrightarrow> file_tracker s1 ! j \<noteq> NULL" "next_avail s1 (int (k + 1)) = Inr (-1, False)"
    have "\<not> (\<exists>j > k. j < 130 \<and> file_tracker s ! j = NULL)" using a(1) j by (metis Suc_eq_plus1 Suc_leI)
    moreover have "fd_ok (s1\<lparr>tracker_avail_ind := -1\<rparr>)" using l by (simp add: fd_ok_def s1_def LEN_FILE_LIST_def)
    ultimately show ?thesis using add a(2) by (simp add: s1_def)
  qed
qed

section \<open>Checked and unchecked pointers\<close>

definition good_ptr :: "proc \<Rightarrow> u32 \<Rightarrow> bool" where
  "good_ptr s a \<longleftrightarrow> a \<noteq> 0 \<and> is_user_vaddr a \<and> translate (mach s) (pagedir s) a \<noteq> None"

lemma check_user_ptr_eq: "pd_ok (mach s) (pagedir s) \<Longrightarrow> check_user_ptr s a = Inr (good_ptr s a)"
  using translate_get_page [of "mach s" "pagedir s" a]
  by (auto simp: check_user_ptr_def good_ptr_def translate_def split: option.splits)

lemma mem_get_unmapped:
  assumes "pd_ok (mach s) (pagedir s)" "is_user_vaddr a" "translate (mach s) (pagedir s) a = None"
  shows "mem_get s a = Inl Kernel_panic"
  using translate_get_page [OF assms(1,2)] assms(2,3) by (simp add: mem_get_def)

text \<open>No buffer is refused, whatever part of it is mapped.\<close>

lemma check_buf_loop_accepts: "pd_ok (mach s) (pagedir s) \<Longrightarrow> check_buf_loop s p k = Inr True"
proof (induction k arbitrary: p)
  case (Suc k)
  have "kbind (pagedir_get_page (mach s) (pagedir s) p) (\<lambda>a. Inr (a = 0)) = Inr False" if "good_ptr s p"
    using that translate_get_page [OF Suc.prems, of p] by (auto simp: good_ptr_def translate_def split: if_splits)
  then show ?case using Suc by (simp add: check_user_ptr_eq)
qed simp

lemma check_user_buf_ptr_accepts: "pd_ok (mach s) (pagedir s) \<Longrightarrow> check_user_buf_ptr s p n = Inr (n \<noteq> 0)"
  by (simp add: check_user_buf_ptr_def check_buf_loop_accepts)

section \<open>Properties\<close>

text \<open>
  Bounds of the file descriptors: which descriptors \<^verbatim>\<open>get_file_from_fd\<close> answers for. The
  descriptors 2 to 131 give the entry of the table, those above 132 a null pointer; but descriptor
  132 and every descriptor below 2, also the negative ones, read outside of the table, because
  the test lets the index \<^verbatim>\<open>LEN_FILE_LIST\<close> pass and there is no lower bound.
\<close>

theorem fd_table_bounds:
  assumes "fd_ok s"
  shows "get_file_from_fd s fd =
    (if 2 \<le> fd \<and> fd \<le> 131 then Inr (file_tracker s ! nat (fd - 2)) else if 132 < fd then Inr NULL else Inl Bad_access)"
  using assms by (auto simp: get_file_from_fd_def tracker_get_def fd_ok_def LEN_FILE_LIST_def nat_less_iff)

definition ex_proc :: proc where
  "ex_proc = \<lparr>fsys = ex_fs, mach = ex_vm, pagedir = 0xc0101000, kernel_text = {}, tracker_avail_ind = 1,
     file_tracker = 150 # replicate 129 NULL, ret_status = 0, eax = 0, console = [], keys = (\<lambda>_. 0), keys_read = 0\<rparr>"

lemma ex_proc_fd_ok: "fd_ok ex_proc"
  by (simp add: fd_ok_def ex_proc_def LEN_FILE_LIST_def)

theorem fd_table_bounds_witness:
  "get_file_from_fd ex_proc 2 = Inr 150 \<and> get_file_from_fd ex_proc 132 = Inl Bad_access \<and> get_file_from_fd ex_proc (-5) = Inl Bad_access"
  using fd_table_bounds [OF ex_proc_fd_ok, of 2] fd_table_bounds [OF ex_proc_fd_ok, of 132] fd_table_bounds [OF ex_proc_fd_ok, of "-5"]
  by (simp add: ex_proc_def)

text \<open>
  Opening a file through the table of descriptors: unless the free entry is the last one, the call
  does not leave the table, stores the file in the free entry and finds the next free entry above
  it, and the table keeps its invariant. It returns the descriptor of the entry if there is a free
  entry above, and otherwise -1, although the file was opened and stays in the table.
\<close>

theorem add_file_to_fd_correct:
  assumes "fd_ok s" "0 \<le> tracker_avail_ind s" "tracker_avail_ind s < 129" "filesys_open (fsys s) name = Inr (fs', f)" "f \<noteq> NULL"
  shows "\<exists>s' fd. add_file_to_fd s name = Inr (s', fd) \<and> fd_ok s' \<and> fsys s' = fs' \<and>
    get_file_from_fd s' (tracker_avail_ind s + 2) = Inr f \<and>
    (\<forall>n. 2 \<le> n \<and> n \<le> 131 \<and> n \<noteq> tracker_avail_ind s + 2 \<longrightarrow> get_file_from_fd s' n = get_file_from_fd s n) \<and>
    fd = (if \<exists>j > nat (tracker_avail_ind s). j < 130 \<and> file_tracker s ! j = NULL then tracker_avail_ind s + 2 else -1)"
proof -
  obtain s' fd where a: "add_file_to_fd s name = Inr (s', fd)" "fd_ok s'" "file_tracker s' = (file_tracker s)[nat (tracker_avail_ind s) := f]" "fsys s' = fs'"
    "fd = (if \<exists>j > nat (tracker_avail_ind s). j < 130 \<and> file_tracker s ! j = NULL then int (nat (tracker_avail_ind s)) + 2 else -1)"
    using add_file_ok [OF assms] by blast
  have l: "length (file_tracker s) = 130" using assms(1) by (simp add: fd_ok_def)
  have g: "get_file_from_fd s' n = (if n = tracker_avail_ind s + 2 then Inr f else get_file_from_fd s n)" if "2 \<le> n" "n \<le> 131" for n
    using that assms(2,3) l a(3) by (auto simp: get_file_from_fd_def tracker_get_def LEN_FILE_LIST_def nth_list_update nat_eq_iff)
  then show ?thesis using a assms(2,3) by (intro exI [of _ s'] exI [of _ fd]) auto
qed

definition ex_proc2 :: proc where
  "ex_proc2 = ex_proc\<lparr>fsys := ex_disk\<rparr>"

theorem add_file_to_fd_correct_witness:
  "\<exists>s' fd. add_file_to_fd ex_proc2 [97] = Inr (s', fd) \<and> fd_ok s' \<and> fd = 3"
proof -
  have m: "\<forall>a. mem_ok ex_disk a" "\<forall>f \<in> dom (files ex_disk). f < brk ex_disk"
    by (simp_all add: ex_disk_def ex_dir_def ex_freemap_def)
  obtain fs' f where o: "filesys_open (fsys ex_proc2) [97] = Inr (fs', f)" "opened fs' f (files_of ex_disk [97])"
    using filesys_open_ok [OF ex_disk_ok m(1) _ m(2), of "[97]"] by (auto simp: ex_proc2_def)
  have n: "f \<noteq> NULL" using o(2) by (simp add: opened_def files_of_def ex_disk_bindings)
  have fd: "fd_ok ex_proc2" using ex_proc_fd_ok by (simp add: fd_ok_def ex_proc2_def)
  have a: "tracker_avail_ind ex_proc2 = 1" "file_tracker ex_proc2 ! 2 = NULL" by (simp_all add: ex_proc2_def ex_proc_def)
  have "\<exists>j > nat (tracker_avail_ind ex_proc2). j < 130 \<and> file_tracker ex_proc2 ! j = NULL" using a by (intro exI [of _ 2]) simp
  then show ?thesis using add_file_to_fd_correct [OF fd _ _ o(1) n] a(1) by auto
qed



end
