(* ===== verification/Loader.thy ===== *)
theory Loader
  imports Syscall
begin

text \<open>
  Loading an executable (\<^verbatim>\<open>load\<close> and its helpers in \<^verbatim>\<open>userprog/process.c\<close>): the ELF headers, the checks of a
  segment, the loop that reads a segment page by page into fresh user pages, the stack page and
  the arguments on it.

  The state is that of the running process. \<^verbatim>\<open>load_segment\<close> ends because every round takes bytes off
  the two counts; the counts are 32-bit words, so that this is a theorem about the counts that
  \<^verbatim>\<open>load\<close> computes, and the loop is modelled as one that need not end.
\<close>

section \<open>ELF headers\<close>

definition de16 :: "u8 list \<Rightarrow> nat" where
  "de16 bs = unat (bs ! 0) + 256 * unat (bs ! 1)"

record Elf32_Ehdr =
  e_ident :: "u8 list"
  e_type :: nat
  e_machine :: nat
  e_version :: u32
  e_entry :: u32
  e_phoff :: u32
  e_shoff :: u32
  e_flags :: u32
  e_ehsize :: nat
  e_phentsize :: nat
  e_phnum :: nat
  e_shentsize :: nat
  e_shnum :: nat
  e_shstrndx :: nat

record Elf32_Phdr =
  p_type :: u32
  p_offset :: u32
  p_vaddr :: u32
  p_paddr :: u32
  p_filesz :: u32
  p_memsz :: u32
  p_flags :: u32
  p_align :: u32

definition EHDR_SIZE :: nat where "EHDR_SIZE = 52"
definition PHDR_SIZE :: nat where "PHDR_SIZE = 32"

definition word32_at :: "u8 list \<Rightarrow> nat \<Rightarrow> u32" where
  "word32_at bs n = of_nat (de32 (drop n bs))"

definition ehdr_of :: "u8 list \<Rightarrow> Elf32_Ehdr" where
  "ehdr_of bs = \<lparr>e_ident = take 16 bs, e_type = de16 (drop 16 bs), e_machine = de16 (drop 18 bs), e_version = word32_at bs 20,
     e_entry = word32_at bs 24, e_phoff = word32_at bs 28, e_shoff = word32_at bs 32, e_flags = word32_at bs 36,
     e_ehsize = de16 (drop 40 bs), e_phentsize = de16 (drop 42 bs), e_phnum = de16 (drop 44 bs), e_shentsize = de16 (drop 46 bs),
     e_shnum = de16 (drop 48 bs), e_shstrndx = de16 (drop 50 bs)\<rparr>"

definition phdr_of :: "u8 list \<Rightarrow> Elf32_Phdr" where
  "phdr_of bs = \<lparr>p_type = word32_at bs 0, p_offset = word32_at bs 4, p_vaddr = word32_at bs 8, p_paddr = word32_at bs 12,
     p_filesz = word32_at bs 16, p_memsz = word32_at bs 20, p_flags = word32_at bs 24, p_align = word32_at bs 28\<rparr>"

definition PF_W :: u32 where "PF_W = 2"

definition ehdr_valid :: "Elf32_Ehdr \<Rightarrow> bool" where
  "ehdr_valid h \<longleftrightarrow> take 7 (e_ident h) = [0x7f, 0x45, 0x4c, 0x46, 1, 1, 1] \<and> e_type h = 2 \<and> e_machine h = 3 \<and>
     e_version h = 1 \<and> e_phentsize h = PHDR_SIZE \<and> \<not> e_phnum h > 1024"

section \<open>Pages of the process\<close>

definition set_ram :: "proc \<Rightarrow> memory \<Rightarrow> proc" where
  "set_ram s m = s\<lparr>mach := (mach s)\<lparr>pal := (pal (mach s))\<lparr>ram := m\<rparr>\<rparr>\<rparr>"

definition set_pal :: "proc \<Rightarrow> palloc \<Rightarrow> proc" where
  "set_pal s p = s\<lparr>mach := (mach s)\<lparr>pal := p\<rparr>\<rparr>"

definition install_page :: "proc \<Rightarrow> u32 \<Rightarrow> u32 \<Rightarrow> bool \<Rightarrow> (proc \<times> bool) outcome" where
  "install_page s upage kpage writable =
     kbind (pagedir_get_page (mach s) (pagedir s) upage) (\<lambda>a.
       if a = 0
       then kbind (pagedir_set_page (mach s) (pagedir s) upage kpage writable) (\<lambda>r. Inr (s\<lparr>mach := fst r\<rparr>, snd r))
       else Inr (s, False))"

definition free_page :: "proc \<Rightarrow> u32 \<Rightarrow> proc outcome" where
  "free_page s kpage = kbind (palloc_free_page (pal (mach s)) kpage) (\<lambda>p. Inr (set_pal s p))"

definition setup_stack :: "proc \<Rightarrow> (proc \<times> u32 option) outcome" where
  "setup_stack s =
     kbind (palloc_get_page (pal (mach s)) (PAL_USER OR PAL_ZERO)) (\<lambda>r.
       let s = set_pal s (fst r); kpage = snd r
       in if kpage \<noteq> 0
          then kbind (install_page s (PHYS_BASE - PGSIZE) kpage True) (\<lambda>r.
                 if snd r then Inr (fst r, Some PHYS_BASE)
                 else kbind (free_page (fst r) kpage) (\<lambda>s. Inr (s, None)))
          else Inr (s, None))"

section \<open>Segments\<close>

definition validate_segment :: "fs \<Rightarrow> Elf32_Phdr \<Rightarrow> addr \<Rightarrow> bool outcome" where
  "validate_segment s phdr f =
     (if p_offset phdr AND PGMASK \<noteq> p_vaddr phdr AND PGMASK then Inr False
      else kbind (file_length s f) (\<lambda>l. Inr (
        \<not> p_offset phdr > word_of_int l \<and>
        \<not> p_memsz phdr < p_filesz phdr \<and>
        p_memsz phdr \<noteq> 0 \<and>
        is_user_vaddr (p_vaddr phdr) \<and>
        is_user_vaddr (p_vaddr phdr + p_memsz phdr) \<and>
        \<not> p_vaddr phdr + p_memsz phdr < p_vaddr phdr \<and>
        \<not> p_vaddr phdr < PGSIZE)))"

text \<open>What \<^verbatim>\<open>load\<close> computes of a segment: where it starts and how many bytes are read and cleared.\<close>

definition ROUND_UP :: "u32 \<Rightarrow> u32 \<Rightarrow> u32" where
  "ROUND_UP x step = (x + step - 1) div step * step"

definition segment_bytes :: "Elf32_Phdr \<Rightarrow> u32 \<times> u32" where
  "segment_bytes phdr =
     (let page_offset = p_vaddr phdr AND PGMASK
      in if p_filesz phdr > 0
         then let read_bytes = page_offset + p_filesz phdr
              in (read_bytes, ROUND_UP (page_offset + p_memsz phdr) PGSIZE - read_bytes)
         else (0, ROUND_UP (page_offset + p_memsz phdr) PGSIZE))"

text \<open>The bytes that were read, stored at the kernel address of a page.\<close>

definition store_bytes :: "memory \<Rightarrow> nat \<Rightarrow> u8 list \<Rightarrow> memory" where
  "store_bytes m a bs = (\<lambda>x. if a \<le> x \<and> x < a + length bs then bs ! (x - a) else m x)"

definition load_page :: "proc \<Rightarrow> addr \<Rightarrow> u32 \<Rightarrow> u32 \<Rightarrow> bool \<Rightarrow> (proc \<times> bool) outcome" where
  "load_page s f upage page_read_bytes writable =
     kbind (palloc_get_page (pal (mach s)) PAL_USER) (\<lambda>r.
       let s = set_pal s (fst r); kpage = snd r
       in if kpage = 0 then Inr (s, False)
          else kbind (file_read (fsys s) f (sint page_read_bytes)) (\<lambda>q.
            let s = set_ram (s\<lparr>fsys := fst q\<rparr>) (store_bytes (ram (pal (mach s))) (unat kpage) (snd q))
            in if int (length (snd q)) \<noteq> sint page_read_bytes
               then kbind (free_page s kpage) (\<lambda>s. Inr (s, False))
               else kbind (memset (ram (pal (mach s))) (unat (kpage + page_read_bytes)) 0 (unat (PGSIZE - page_read_bytes))) (\<lambda>m.
                    kbind (install_page (set_ram s (fst m)) upage kpage writable) (\<lambda>r.
                      if snd r then Inr r
                      else kbind (free_page (fst r) kpage) (\<lambda>s. Inr (s, False))))))"

partial_function (option) load_pages :: "proc \<Rightarrow> addr \<Rightarrow> u32 \<Rightarrow> u32 \<Rightarrow> u32 \<Rightarrow> bool \<Rightarrow> (proc \<times> bool) run" where
  "load_pages s f upage read_bytes zero_bytes writable =
     (if read_bytes > 0 \<or> zero_bytes > 0
      then rbind (Some (load_page s f upage (if read_bytes < PGSIZE then read_bytes else PGSIZE) writable)) (\<lambda>r.
             if \<not> snd r then Some (Inr (fst r, False))
             else load_pages (fst r) f (upage + PGSIZE)
                    (read_bytes - (if read_bytes < PGSIZE then read_bytes else PGSIZE))
                    (zero_bytes - (PGSIZE - (if read_bytes < PGSIZE then read_bytes else PGSIZE))) writable)
      else Some (Inr (s, True)))"

definition load_segment :: "proc \<Rightarrow> addr \<Rightarrow> int \<Rightarrow> u32 \<Rightarrow> u32 \<Rightarrow> u32 \<Rightarrow> bool \<Rightarrow> (proc \<times> bool) run" where
  "load_segment s f ofs upage read_bytes zero_bytes writable =
     rbind (Some (kassert ((read_bytes + zero_bytes) mod PGSIZE = 0))) (\<lambda>_.
     rbind (Some (kassert (pg_ofs upage = 0))) (\<lambda>_.
     rbind (Some (kassert (ofs smod int (unat PGSIZE) = 0))) (\<lambda>_.
     rbind (Some (file_seek (fsys s) f ofs)) (\<lambda>fs.
       load_pages (s\<lparr>fsys := fs\<rparr>) f upage read_bytes zero_bytes writable))))"

section \<open>The executable\<close>

definition PT_LOAD :: u32 where "PT_LOAD = 1"
definition PT_DYNAMIC :: u32 where "PT_DYNAMIC = 2"
definition PT_INTERP :: u32 where "PT_INTERP = 3"
definition PT_SHLIB :: u32 where "PT_SHLIB = 5"

definition load_phdr :: "proc \<Rightarrow> addr \<Rightarrow> Elf32_Phdr \<Rightarrow> (proc \<times> bool) run" where
  "load_phdr s f phdr =
     (if p_type phdr = PT_DYNAMIC \<or> p_type phdr = PT_INTERP \<or> p_type phdr = PT_SHLIB then Some (Inr (s, False))
      else if p_type phdr = PT_LOAD
      then rbind (Some (validate_segment (fsys s) phdr f)) (\<lambda>valid.
             if valid
             then load_segment s f (sint (p_offset phdr AND NOT PGMASK)) (p_vaddr phdr AND NOT PGMASK)
                    (fst (segment_bytes phdr)) (snd (segment_bytes phdr)) (p_flags phdr AND PF_W \<noteq> 0)
             else Some (Inr (s, False)))
      else Some (Inr (s, True)))"

text \<open>The loop over the program headers with \<open>n\<close> of them left.\<close>

fun load_phdrs :: "proc \<Rightarrow> addr \<Rightarrow> int \<Rightarrow> nat \<Rightarrow> (proc \<times> bool) run" where
  "load_phdrs s f file_ofs 0 = Some (Inr (s, True))"
| "load_phdrs s f file_ofs (Suc n) =
     rbind (Some (file_length (fsys s) f)) (\<lambda>l.
       if file_ofs < 0 \<or> file_ofs > l then Some (Inr (s, False))
       else rbind (Some (file_seek (fsys s) f file_ofs)) (\<lambda>fs.
            rbind (Some (file_read fs f (int PHDR_SIZE))) (\<lambda>r.
              let s = s\<lparr>fsys := fst r\<rparr>
              in if length (snd r) \<noteq> PHDR_SIZE then Some (Inr (s, False))
                 else rbind (load_phdr s f (phdr_of (snd r))) (\<lambda>q.
                        if \<not> snd q then Some (Inr (fst q, False))
                        else load_phdrs (fst q) f (sint (word_of_int (file_ofs + int PHDR_SIZE) :: u32)) n))))"

definition load_file :: "proc \<Rightarrow> addr \<Rightarrow> (proc \<times> u32 option) run" where
  "load_file s f =
     rbind (Some (file_read (fsys s) f (int EHDR_SIZE))) (\<lambda>r.
       let s = s\<lparr>fsys := fst r\<rparr>; ehdr = ehdr_of (snd r)
       in if length (snd r) \<noteq> EHDR_SIZE \<or> \<not> ehdr_valid ehdr then Some (Inr (s, None))
          else rbind (load_phdrs s f (sint (e_phoff ehdr)) (e_phnum ehdr)) (\<lambda>q.
                 Some (Inr (fst q, if snd q then Some (e_entry ehdr) else None))))"

section \<open>Arguments on the stack\<close>

text \<open>Counts the arguments: a space followed by another character begins a new one.\<close>

fun count_args :: "u8 list \<Rightarrow> nat" where
  "count_args [] = 1"
| "count_args [c] = 1"
| "count_args (c # d # cs) = (if c = 32 \<and> d \<noteq> 32 then 1 else 0) + count_args (d # cs)"

definition mem_put32 :: "proc \<Rightarrow> u32 \<Rightarrow> u32 \<Rightarrow> proc outcome" where
  "mem_put32 s a w = mem_put_all s a (le32 (unat w))"

fun put_words :: "proc \<Rightarrow> u32 \<Rightarrow> u32 list \<Rightarrow> proc outcome" where
  "put_words s a [] = Inr s"
| "put_words s a (w # ws) = kbind (mem_put32 s a w) (\<lambda>s. put_words s (a + 4) ws)"

text \<open>
  The tokens are found by \<^verbatim>\<open>strtok_r\<close> in the copy of the command line on the stack, which is the memory as
  the kernel sees it; \<open>delim\<close> is the address of the string of the one delimiter.
\<close>

definition user_view :: "proc \<Rightarrow> memory" where
  "user_view s = (\<lambda>x. case mem_get s (of_nat x) of Inl _ \<Rightarrow> 0 | Inr b \<Rightarrow> b)"

definition push_args :: "addr \<Rightarrow> proc \<Rightarrow> u32 \<Rightarrow> u8 list \<Rightarrow> (proc \<times> u32) run" where
  "push_args delim s esp cmd_line =
     (let n = length cmd_line; quad_offset = (n + 1) mod 4; stri = esp - of_nat (n + 1); number_args = count_args cmd_line;
          esp = stri - of_nat ((4 - quad_offset) + 4) - of_nat (4 * number_args)
      in rbind (Some (mem_put_all s stri (cmd_line @ [0]))) (\<lambda>s.
         rbind (strtok_all (user_view s) (unat stri) delim NULL) (\<lambda>r.
         rbind (Some (mem_put_all s stri (map (fst r) [unat stri..<unat stri + n + 1]))) (\<lambda>s.
         rbind (Some (put_words s esp (map of_nat (snd r)))) (\<lambda>s.
         rbind (Some (mem_put32 s (esp - 4) esp)) (\<lambda>s.
         rbind (Some (mem_put32 s (esp - 8) (of_nat number_args))) (\<lambda>s.
           Some (Inr (s, esp - 12)))))))))"

definition process_activate :: "proc \<Rightarrow> proc outcome" where
  "process_activate s = kbind (pagedir_activate (mach s) (pagedir s)) (\<lambda>v. Inr (s\<lparr>mach := v\<rparr>))"

text \<open>The end of \<^verbatim>\<open>process_exit\<close>: the process gives its page directory back, after it has left it.\<close>

definition release_pagedir :: "proc \<Rightarrow> proc outcome" where
  "release_pagedir s =
     (let pd = pagedir s
      in if pd = 0 then Inr s
         else let s = s\<lparr>pagedir := 0\<rparr>
              in kbind (pagedir_activate (mach s) 0) (\<lambda>v.
                 kbind (pagedir_destroy v pd) (\<lambda>v. Inr (s\<lparr>mach := v\<rparr>))))"

text \<open>
  The whole of \<^verbatim>\<open>load\<close>: the entry point and the stack pointer on success. (The task state segment, which
  \<^verbatim>\<open>process_activate\<close> also updates, is not modelled.)
\<close>

definition load :: "addr \<Rightarrow> proc \<Rightarrow> u8 list \<Rightarrow> u8 list \<Rightarrow> (proc \<times> (u32 \<times> u32) option) run" where
  "load delim s file_name cmd_line =
     rbind (Some (pagedir_create (mach s))) (\<lambda>r.
       let s = s\<lparr>mach := fst r, pagedir := snd r\<rparr>
       in if snd r = 0 then Some (Inr (s, None))
          else rbind (Some (process_activate s)) (\<lambda>s.
               rbind (Some (setup_stack s)) (\<lambda>st. case snd st of
                 None \<Rightarrow> Some (Inr (fst st, None))
               | Some esp \<Rightarrow>
                 rbind (push_args delim (fst st) esp cmd_line) (\<lambda>a.
                 rbind (Some (filesys_open (fsys (fst a)) file_name)) (\<lambda>q.
                   let s = (fst a)\<lparr>fsys := fst q\<rparr>; f = snd q
                   in if f = NULL then Some (Inr (s, None))
                      else rbind (load_file s f) (\<lambda>l.
                           rbind (Some (file_close (fsys (fst l)) f)) (\<lambda>fs.
                             Some (Inr ((fst l)\<lparr>fsys := fs\<rparr>, map_option (\<lambda>eip. (eip, snd a)) (snd l))))))))))"

section \<open>The geometry of a segment\<close>

lemma round_up_page:
  assumes "unat x + 4095 < 4294967296"
  shows "unat (ROUND_UP x PGSIZE) = (unat x + 4095) div 4096 * 4096"
proof -
  have e: "x + PGSIZE - 1 = x + 4095" by (simp add: layout)
  have a: "unat (x + 4095) = unat x + 4095" using assms by (subst unat_add_no_overflow) simp_all
  have "unat ((x + 4095) div 4096) = (unat x + 4095) div 4096" by (simp add: unat_div a)
  moreover have "(unat x + 4095) div 4096 * 4096 < 4294967296" using assms by (meson div_times_less_eq_dividend le_less_trans)
  ultimately show ?thesis unfolding ROUND_UP_def e by (simp add: layout) (subst unat_mult_no_overflow; simp)
qed

end
