(* ===== verification/Frames.thy ===== *)
theory Frames
  imports Pagedir
begin

text \<open>
  The frames behind an address space: every page that is mapped for the user is a page in use that
  holds no page table, so that what the kernel does with other pages, allocating, filling or freeing
  them, changes no byte that the process sees.
\<close>

section \<open>Frames\<close>

definition frames :: "vm \<Rightarrow> u32 \<Rightarrow> nat set" where
  "frames v pd = {table_page (pte_at v pd i k) |i k. i < 768 \<and> k < 1024 \<and> pte_at v pd i k AND PTE_P \<noteq> 0}"

definition as_ok :: "vm \<Rightarrow> u32 \<Rightarrow> bool" where
  "as_ok v pd \<longleftrightarrow> pd_ok v pd \<and> frames v pd \<subseteq> pages_used (pal v) - tables v pd \<and> pd \<noteq> base_page_dir v \<and>
     first_page (user_pool (pal v)) + bit_cnt (used_map (user_pool (pal v))) \<le> 786432 + unat (ram_pages v)"

text \<open>The byte that the process sees at an address.\<close>

definition ubyte :: "vm \<Rightarrow> u32 \<Rightarrow> u32 \<Rightarrow> u8 option" where
  "ubyte v pd va = map_option (\<lambda>a. ram (pal v) (unat a)) (translate v pd va)"

lemma as_okD: "as_ok v pd \<Longrightarrow> pd_ok v pd"
  by (simp add: as_ok_def)

lemma tables_used: "pd_ok v pd \<Longrightarrow> tables v pd \<subseteq> pages_used (pal v)"
  by (auto simp: pd_ok_def tables_def)

lemma mem_frames: "i < 768 \<Longrightarrow> k < 1024 \<Longrightarrow> pte_at v pd i k AND PTE_P \<noteq> 0 \<Longrightarrow> table_page (pte_at v pd i k) \<in> frames v pd"
  unfolding frames_def by blast

lemma tables_cong: "(\<And>i. i < 768 \<Longrightarrow> pde_at v' pd i = pde_at v pd i) \<Longrightarrow> tables v' pd = tables v pd"
  unfolding tables_def by (intro arg_cong [where f = "insert _"] Collect_cong) metis

lemma frames_cong: "(\<And>i k. i < 768 \<Longrightarrow> k < 1024 \<Longrightarrow> pte_at v' pd i k = pte_at v pd i k) \<Longrightarrow> frames v' pd = frames v pd"
  unfolding frames_def by (intro Collect_cong) metis

lemma page_ofs_div:
  assumes "unat page = 4096 * n"
  shows "unat (page + pg_ofs va) = 4096 * n + unat (pg_ofs va)" "unat (page + pg_ofs va) div 4096 = n"
proof -
  have n: "n < 1048576" using assms unat_u32_less [of page] by simp
  have o: "unat (pg_ofs va) < 4096" by (simp add: unat_pg_ofs)
  show u: "unat (page + pg_ofs va) = 4096 * n + unat (pg_ofs va)"
    using n o by (subst unat_add_no_overflow) (simp_all add: assms)
  show "unat (page + pg_ofs va) div 4096 = n" using o by (simp add: u)
qed

lemma translate_frame:
  assumes "pd_ok v pd" "is_user_vaddr va" "translate v pd va = Some a"
  shows "unat a div 4096 \<in> frames v pd"
proof -
  have p: "pte_of v pd va AND PTE_P \<noteq> 0" using translate_eq [OF assms(1,2)] assms(3) by (auto split: if_splits)
  then have "unat (pte_of v pd va) < 0x40000000" using assms pdi_user pti_less unfolding pd_ok_def by blast
  then obtain page where pg: "pte_get_page (pte_of v pd va) = Inr page" "unat page = 4096 * table_page (pte_of v pd va)"
    using ptov_PTE_ADDR [of "pte_of v pd va"] by (auto simp: pte_get_page_def)
  then have "a = page + pg_ofs va" using translate_eq [OF assms(1,2)] assms(3) p by simp
  then show ?thesis using page_ofs_div(2) [OF pg(2)] mem_frames [OF pdi_user [OF assms(2)] pti_less p] by simp
qed

section \<open>Pages outside the address space\<close>

text \<open>
  The allocator may take, fill and free a page that is neither a page table nor mapped.
\<close>

lemma outside_words:
  assumes "pd_ok v pd" "n \<notin> tables v pd" "\<forall>x. x div 4096 \<noteq> n \<longrightarrow> ram p' x = ram (pal v) x"
  shows "\<And>i. i < 768 \<Longrightarrow> pde_at (v\<lparr>pal := p'\<rparr>) pd i = pde_at v pd i"
    and "\<And>i k. i < 768 \<Longrightarrow> k < 1024 \<Longrightarrow> pte_at (v\<lparr>pal := p'\<rparr>) pd i k = pte_at v pd i k"
proof -
  have w: "word_at (ram p') q k = word_at (ram (pal v)) q k" if "q \<in> tables v pd" "k < 1024" for q k
    using that(2) by (rule word_at_frame) (use that(1) assms(2,3) in metis)
  show d: "pde_at (v\<lparr>pal := p'\<rparr>) pd i = pde_at v pd i" if "i < 768" for i
    using that by (simp add: pde_at_def w tables_def)
  show "pte_at (v\<lparr>pal := p'\<rparr>) pd i k = pte_at v pd i k" if "i < 768" "k < 1024" for i k
  proof (cases "pde_at v pd i = 0")
    case False
    then have "table_page (pde_at v pd i) \<in> tables v pd" using that(1) by (auto simp: tables_def)
    then show ?thesis using that d [OF that(1)] by (simp add: pte_at_def w)
  qed (simp add: pte_at_def d [OF that(1)])
qed

lemma as_ok_outside:
  assumes "as_ok v pd" "palloc_ok p'" "geometry p' = geometry (pal v)" "n \<notin> tables v pd" "n \<notin> frames v pd"
    "pages_used (pal v) - {n} \<subseteq> pages_used p'" "\<forall>x. x div 4096 \<noteq> n \<longrightarrow> ram p' x = ram (pal v) x"
  shows "as_ok (v\<lparr>pal := p'\<rparr>) pd" "tables (v\<lparr>pal := p'\<rparr>) pd = tables v pd" "frames (v\<lparr>pal := p'\<rparr>) pd = frames v pd"
    and "\<And>va. is_user_vaddr va \<Longrightarrow> translate (v\<lparr>pal := p'\<rparr>) pd va = translate v pd va"
    and "\<And>va. is_user_vaddr va \<Longrightarrow> ubyte (v\<lparr>pal := p'\<rparr>) pd va = ubyte v pd va"
proof -
  have ok: "pd_ok v pd" by (rule as_okD [OF assms(1)])
  note w = outside_words [OF ok assms(4,7)]
  show t: "tables (v\<lparr>pal := p'\<rparr>) pd = tables v pd" using w(1) by (rule tables_cong)
  show f: "frames (v\<lparr>pal := p'\<rparr>) pd = frames v pd" using w(2) by (rule frames_cong)
  have ts: "q \<in> pages_used p'" if "q \<in> tables v pd" for q using that tables_used [OF ok] assms(4,6) by blast
  have tm: "table_page (pde_at v pd i) \<in> tables v pd" if "i < 768" "pde_at v pd i \<noteq> 0" for i using that by (auto simp: tables_def)
  have pd: "unat (pg_no pd) \<in> tables v pd" by (simp add: tables_def)
  note g = geometry_eq [OF assms(3)]
  have ok': "pd_ok (v\<lparr>pal := p'\<rparr>) pd"
    using ok assms(2) g(1) ts [OF pd] ts [OF tm] unfolding pd_ok_def by (simp add: w)
  show "as_ok (v\<lparr>pal := p'\<rparr>) pd"
    using assms(1,5,6) ok' g(2,3) [of True] unfolding as_ok_def t f by auto
  show tr: "translate (v\<lparr>pal := p'\<rparr>) pd va = translate v pd va" if "is_user_vaddr va" for va
    using translate_eq [OF ok that] translate_eq [OF ok' that] w(2) [OF pdi_user [OF that] pti_less] by simp
  show "ubyte (v\<lparr>pal := p'\<rparr>) pd va = ubyte v pd va" if "is_user_vaddr va" for va
    using translate_frame [OF ok that] assms(5,7) tr [OF that] by (cases "translate v pd va") (auto simp: ubyte_def)
qed

section \<open>Mapping a frame\<close>

lemma frames_set_entry:
  assumes "pd_ok v pd" "i < 768" "k < 1024" "pde_at v pd i \<noteq> 0" "unat a = 4096 * table_page (pde_at v pd i) + 4 * k" "entry_ok w"
  shows "frames (st v a w) pd \<subseteq> insert (table_page w) (frames v pd)" "tables (st v a w) pd = tables v pd"
proof -
  have "w AND PTE_P \<noteq> 0 \<longrightarrow> unat w < 0x40000000" using assms(6) by (simp add: entry_ok_def)
  note e = set_entry [OF assms(1-5) this]
  show "tables (st v a w) pd = tables v pd" using e(3) by (rule tables_cong)
  show "frames (st v a w) pd \<subseteq> insert (table_page w) (frames v pd)"
    using e(2) mem_frames [of _ _ v pd] unfolding frames_def [of "st v a w"] by (auto split: if_splits)
qed

text \<open>What \<^verbatim>\<open>pagedir_set_page\<close> does with a page in use that holds no page table.\<close>

lemma set_page_frames:
  assumes "as_ok v pd" "user_page u" "unat kpage = 4096 * n" "786432 \<le> n" "n < 786432 + unat (ram_pages v)"
    "n \<in> pages_used (pal v) - tables v pd" "translate v pd u = None"
  shows "\<exists>v' ok. pagedir_set_page v pd u kpage wr = Inr (v', ok) \<and> (\<not> ok \<longrightarrow> v' = v) \<and> as_ok v' pd \<and> grows pd v v' \<and>
    (\<forall>va. is_user_vaddr va \<longrightarrow> translate v' pd va =
       (if ok \<and> pg_round_down va = u then Some (kpage + pg_ofs va) else translate v pd va))"
proof -
  have ok: "pd_ok v pd" by (rule as_okD [OF assms(1)])
  have u: "is_user_vaddr u" "pg_ofs u = 0" using assms(2) by (simp_all add: user_page_def)
  have k: "PHYS_BASE \<le> kpage" "pg_ofs kpage = 0"
    using assms(3,4) by (auto simp: word_le_nat_alt layout intro: word_eqI_unat simp: unat_pg_ofs)
  have "unat (drop_bit PTSHIFT (kpage - PHYS_BASE)) = n - 786432"
    using assms(3,4) k(1) by (simp add: unat_drop_bit_eq drop_bit_eq_div unat_vtop PTSHIFT_def PGBITS_def unat_div)
  then have fit: "drop_bit PTSHIFT (kpage - PHYS_BASE) < ram_pages v" using assms(4,5) by (simp add: word_less_nat_alt)
  have b: "pd \<noteq> base_page_dir v" using assms(1) by (simp add: as_ok_def)
  obtain v' r where s: "pagedir_set_page v pd u kpage wr = Inr (v', r)" "pd_ok v' pd" "\<not> r \<Longrightarrow> v' = v"
    "\<And>va. is_user_vaddr va \<Longrightarrow> translate v' pd va = (if r \<and> pg_round_down va = u then Some (kpage + pg_ofs va) else translate v pd va)"
    using set_page_ok [OF ok u k fit b assms(7)] by metis
  have "as_ok v' pd \<and> grows pd v v'" if r
  proof -
    obtain w where w: "pte_create_user kpage wr = Inr w" "entry_ok w" "pte_get_page w = Inr kpage" using user_pte [OF k] .
    have vt: "vtop kpage = Inr (kpage - PHYS_BASE)" using k(1) by (simp add: vtop_eq)
    from ok u(1) show ?thesis
    proof (cases rule: set_page_lookup)
      case none
      then show ?thesis using s(1) that u k b fit vt by (simp add: pagedir_set_page_def)
    next
      case (entry v1 pte)
      have v': "v' = st v1 pte w"
        using s(1) that u k b fit vt entry(1,2) w(1) by (auto simp: pagedir_set_page_def Let_def)
      have tw: "table_page w = n"
        using w(2,3) ptov_PTE_ADDR [of w] assms(3) by (auto simp: entry_ok_def pte_get_page_def)
      note f = frames_set_entry [OF entry(3) pdi_user [OF u(1)] pti_less entry(4,5) w(2)]
      have i: "pdi u < 768" by (rule pdi_user [OF u(1)])
      have T: "table_page (pde_at v1 pd (pdi u)) \<in> tables v1 pd" using i entry(4) by (auto simp: tables_def)
      have pal: "pages_used (pal v') = pages_used (pal v1)" "geometry (pal v') = geometry (pal v1)" by (simp_all add: v' st_def)
      have ram: "ram (pal v') x = ram (pal v1) x" if "x div 4096 \<notin> tables v1 pd" for x
        using that T pti_less [of u] unfolding v' st_def by (simp add: entry(5)) (rule wr32_other_page; auto)
      have gr: "grows pd v v'"
        using entry(8) ram f(2) unfolding grows_def pal by (auto simp: v' [symmetric])
      have fr: "frames v1 pd = frames v pd" using entry(9) by (rule frames_cong)
      have "frames v' pd \<subseteq> pages_used (pal v') - tables v' pd"
        using f(1) assms(1,6) gr unfolding v' [symmetric] fr tw as_ok_def grows_def by blast
      moreover have "same_machine v v'" using set_page_frame [OF s(1)] by simp
      ultimately show ?thesis
        using gr s(2) assms(1) geometry_eq(2,3) [of "pal v'" "pal v" True] unfolding as_ok_def same_machine_def grows_def by simp
    qed
  qed
  moreover have "as_ok v' pd \<and> grows pd v v'" if "\<not> r" using that s(3) assms(1) by (simp add: grows_def)
  ultimately show ?thesis using s by blast
qed

lemma set_page_bytes:
  assumes "as_ok v pd" "grows pd v v'" "unat kpage = 4096 * n" "n \<in> pages_used (pal v) - tables v pd"
    "translate v' pd va = (if c then Some (kpage + pg_ofs va) else translate v pd va)" "is_user_vaddr va"
  shows "ubyte v' pd va = (if c then Some (ram (pal v) (4096 * n + unat (pg_ofs va))) else ubyte v pd va)"
proof (cases c)
  case True
  have "ram (pal v') (unat (kpage + pg_ofs va)) = ram (pal v) (unat (kpage + pg_ofs va))"
    using assms(2,4) page_ofs_div(2) [OF assms(3)] unfolding grows_def by simp
  then show ?thesis using True assms(5) page_ofs_div(1) [OF assms(3)] by (simp add: ubyte_def)
next
  case False
  have "ram (pal v') (unat a) = ram (pal v) (unat a)" if "translate v pd va = Some a" for a
    using translate_frame [OF as_okD [OF assms(1)] assms(6) that] assms(1,2) unfolding as_ok_def grows_def by blast
  then show ?thesis using False assms(5) by (cases "translate v pd va") (simp_all add: ubyte_def)
qed

section \<open>Pages for the user\<close>

text \<open>A page that the kernel holds for itself: in use, no page table, not mapped.\<close>

definition held :: "vm \<Rightarrow> u32 \<Rightarrow> nat \<Rightarrow> bool" where
  "held v pd n \<longleftrightarrow> n \<in> pages_used (pal v) \<and> n \<notin> tables v pd \<and> n \<notin> frames v pd \<and> 786432 \<le> n \<and> n < 786432 + unat (ram_pages v)"

text \<open>The process sees the same in two states.\<close>

definition same_view :: "u32 \<Rightarrow> vm \<Rightarrow> vm \<Rightarrow> bool" where
  "same_view pd v v' \<longleftrightarrow> (\<forall>va. is_user_vaddr va \<longrightarrow> translate v' pd va = translate v pd va \<and> ubyte v' pd va = ubyte v pd va)"

lemma same_view_refl [simp]: "same_view pd v v"
  by (simp add: same_view_def)

lemma same_view_trans: "same_view pd v v' \<Longrightarrow> same_view pd v' v'' \<Longrightarrow> same_view pd v v''"
  by (simp add: same_view_def)

lemma get_user_page:
  assumes "as_ok v pd" "flags AND PAL_ASSERT = 0" "flags AND PAL_USER \<noteq> 0"
  obtains (none) "palloc_get_page (pal v) flags = Inr (pal v, 0)"
  | (page) p' pg n where "palloc_get_page (pal v) flags = Inr (p', pg)" "pg \<noteq> 0" "unat pg = 4096 * n"
      "as_ok (v\<lparr>pal := p'\<rparr>) pd" "held (v\<lparr>pal := p'\<rparr>) pd n" "same_view pd v (v\<lparr>pal := p'\<rparr>)"
      "flags AND PAL_ZERO \<noteq> 0 \<Longrightarrow> \<forall>x. x div 4096 = n \<longrightarrow> ram p' x = 0"
proof -
  have ok: "pd_ok v pd" by (rule as_okD [OF assms(1)])
  then have "palloc_ok (pal v)" "pools_high (pal v)" by (simp_all add: pd_ok_def)
  from this assms(2) show thesis
  proof (cases rule: palloc_get_page_cases)
    case none
    then show thesis by (rule that(1))
  next
    case (page p' pg n)
    have n: "n \<notin> tables v pd" "n \<notin> frames v pd"
      using page(8) tables_used [OF ok] assms(1) unfolding as_ok_def by blast+
    note o = as_ok_outside [OF assms(1) page(2,11) n, unfolded page(9,10)]
    have "n < 786432 + unat (ram_pages v)" using page(12) assms(1,3) by (simp add: as_ok_def)
    then have "held (v\<lparr>pal := p'\<rparr>) pd n" using o(2,3) n page(7,9) by (auto simp: held_def)
    moreover have "as_ok (v\<lparr>pal := p'\<rparr>) pd" "same_view pd v (v\<lparr>pal := p'\<rparr>)" using o(1,4,5) by (auto simp: same_view_def)
    ultimately show thesis using page by (intro that(2) [of p' pg n]) auto
  qed
qed

lemma fill_held:
  assumes "as_ok v pd" "held v pd n" "\<forall>x. x div 4096 \<noteq> n \<longrightarrow> m x = ram (pal v) x"
  defines "v' \<equiv> v\<lparr>pal := (pal v)\<lparr>ram := m\<rparr>\<rparr>"
  shows "as_ok v' pd" "held v' pd n" "same_view pd v v'"
proof -
  have p: "palloc_ok ((pal v)\<lparr>ram := m\<rparr>)" using as_okD [OF assms(1)] by (simp add: pd_ok_def)
  have n: "n \<notin> tables v pd" "n \<notin> frames v pd" using assms(2) by (simp_all add: held_def)
  note o = as_ok_outside [OF assms(1) p geometry_ram n, folded v'_def]
  show "as_ok v' pd" "same_view pd v v'" using o(1,4,5) assms(3) by (simp_all add: same_view_def)
  show "held v' pd n" using o(2,3) assms(2,3) by (auto simp: held_def) (simp_all add: v'_def)
qed

lemma free_held:
  assumes "as_ok v pd" "held v pd n" "unat pg = 4096 * n"
  shows "\<exists>p'. palloc_free_page (pal v) pg = Inr p' \<and> as_ok (v\<lparr>pal := p'\<rparr>) pd \<and> same_view pd v (v\<lparr>pal := p'\<rparr>)"
proof -
  have p: "palloc_ok (pal v)" using as_okD [OF assms(1)] by (simp add: pd_ok_def)
  have n: "n \<notin> tables v pd" "n \<notin> frames v pd" "{n..<n + 1} \<subseteq> pages_used (pal v)" using assms(2) by (auto simp: held_def)
  have "n < 1048576" using assms(3) unat_u32_less [of pg] by simp
  then have pg: "pg = PGSIZE * of_nat n" using of_nat_aligned(1) assms(3) by (intro word_eqI_unat) simp
  obtain p' where f: "palloc_free_multiple (pal v) pg 1 = Inr p'" "palloc_ok p'" "pages_used p' = pages_used (pal v) - {n..<n + 1}"
    "ram p' = (\<lambda>x. if x div 4096 \<in> {n..<n + 1} then 0xcc else ram (pal v) x)"
    using palloc_free_ok [OF p zero_less_one n(3)] unfolding pg by blast
  have u: "pages_used (pal v) - {n} \<subseteq> pages_used p'" "\<forall>x. x div 4096 \<noteq> n \<longrightarrow> ram p' x = ram (pal v) x" unfolding f(3,4) by auto
  note o = as_ok_outside [OF assms(1) f(2) palloc_free_multiple_geometry [OF f(1)] n(1,2) u]
  show ?thesis using f(1) o(1,4,5) by (simp add: palloc_free_page_def same_view_def)
qed

end
