(* ===== verification/LoaderProps.thy ===== *)
theory LoaderProps
  imports Loader Frames
begin

text \<open>
  Correctness of the loader: an open file as a list of bytes and a position, one page, one segment
  and the loop over the program headers, with what the process sees at its addresses afterwards.
\<close>

section \<open>An open file being read\<close>

definition reading :: "fs \<Rightarrow> addr \<Rightarrow> u8 list \<Rightarrow> int \<Rightarrow> bool" where
  "reading s f cs p \<longleftrightarrow> f \<noteq> NULL \<and> disk_ok s \<and> 0 \<le> p \<and> (\<exists>fl ip. files s f = Some fl \<and> pos fl = p \<and> inodes s (finode fl) = Some ip \<and>
     extent_ok s (data ip) \<and> contents s (data ip) = cs)"

lemma reading_fput: "reading s f cs p \<Longrightarrow> files s f = Some fl \<Longrightarrow> 0 \<le> q \<Longrightarrow> reading (fput f (fl\<lparr>pos := q\<rparr>) s) f cs q"
  by (auto simp: reading_def fput_def disk_ok_def extent_ok_def contents_def byte_def)

lemma reading_length:
  assumes "reading s f cs p"
  shows "file_length s f = Inr (int (length cs))" "length cs < 2147483137"
  using assms by (auto simp: reading_def file_length_def fget_def iget_def inode_length_def extent_ok_def)

lemma reading_seek: "reading s f cs p \<Longrightarrow> 0 \<le> q \<Longrightarrow> \<exists>s'. file_seek s f q = Inr s' \<and> reading s' f cs q"
  using reading_fput [of s f cs p] by (auto simp: reading_def file_seek_def fget_def)

text \<open>A read gives the bytes of the file from the position on, fewer at its end or when there is no memory.\<close>

lemma reading_read:
  assumes "reading s f cs p" "0 \<le> cnt"
  obtains s' bs where "file_read s f cnt = Inr (s', bs)" "bs = take (length bs) (drop (nat p) cs)" "int (length bs) \<le> cnt"
    "reading s' f cs (p + int (length bs))"
proof -
  obtain fl ip where f: "files s f = Some fl" "pos fl = p" "inodes s (finode fl) = Some ip" "disk_ok s" "0 \<le> p"
    "extent_ok s (data ip)" "contents s (data ip) = cs"
    using assms(1) by (auto simp: reading_def)
  obtain e where e: "e \<le> min (nat p + nat cnt) (nat (len (data ip)))"
    "read_loop s ip cnt p [] = Inr (map (byte s (data ip)) [nat p..<e])"
    using read_loop_correct [OF f(4,6), of "nat p" "nat cnt" "[]"] assms(2) f(5) by auto
  define bs where "bs = map (byte s (data ip)) [nat p..<e]"
  have "bs = take (length bs) (drop (nat p) cs)"
    using e(1) contents_range [of "e - nat p" "nat p" s "data ip"]
    by (cases "e \<le> nat p") (auto simp: bs_def f(7) [symmetric] min_absorb1)
  moreover have "int (length bs) \<le> cnt" using e(1) assms(2) by (auto simp: bs_def)
  moreover have "file_read s f cnt = Inr (fput f (fl\<lparr>pos := p + int (length bs)\<rparr>) s, bs)"
    using f(1-3) e(2) by (simp add: file_read_def fget_def inode_read_at_def iget_def bs_def)
  moreover have "reading (fput f (fl\<lparr>pos := p + int (length bs)\<rparr>) s) f cs (p + int (length bs))"
    using f(5) by (intro reading_fput [OF assms(1) f(1)]) simp
  ultimately show thesis using that by blast
qed

section \<open>One page\<close>

lemma sint_of_int_u32: "0 \<le> i \<Longrightarrow> i < 2147483648 \<Longrightarrow> sint (word_of_int i :: u32) = i"
  by (subst signed_of_int) (simp add: signed_take_bit_int_eq_self)

lemma sint_small: "unat (w :: u32) < 2147483648 \<Longrightarrow> sint w = int (unat w)"
proof -
  assume "unat w < 2147483648"
  then have "uint w < 2147483648" using unat_eq_nat_uint [of w] by linarith
  then have "signed_take_bit 31 (uint w) = uint w" by (intro signed_take_bit_int_eq_self) (simp_all add: order_trans [OF _ uint_ge_0])
  then show ?thesis by (simp add: sint_uint)
qed

text \<open>A process with a file that is being read.\<close>

definition loading :: "proc \<Rightarrow> addr \<Rightarrow> u8 list \<Rightarrow> int \<Rightarrow> bool" where
  "loading s f cs p \<longleftrightarrow> as_ok (mach s) (pagedir s) \<and> reading (fsys s) f cs p"

abbreviation seen :: "proc \<Rightarrow> u32 \<Rightarrow> u8 option" where
  "seen s va \<equiv> ubyte (mach s) (pagedir s) va"

text \<open>Loading never changes a byte that was mapped before.\<close>

definition keeps :: "proc \<Rightarrow> proc \<Rightarrow> bool" where
  "keeps s s' \<longleftrightarrow> (\<forall>va. is_user_vaddr va \<and> seen s va \<noteq> None \<longrightarrow> seen s' va = seen s va)"

lemma keeps_refl [simp]: "keeps s s"
  by (simp add: keeps_def)

lemma keeps_trans: "keeps s s' \<Longrightarrow> keeps s' s'' \<Longrightarrow> keeps s s''"
  by (simp add: keeps_def)

lemma unmapped_page:
  assumes "pd_ok v pd" "is_user_vaddr va" "is_user_vaddr u" "pg_round_down va = u" "pg_ofs u = 0" "translate v pd u = None"
  shows "ubyte v pd va = None"
proof -
  have "pte_of v pd va = pte_of v pd u" using same_page [of va u] assms(4,5) aligned_round by simp
  then have "translate v pd va = None"
    using assms(6) translate_eq [OF assms(1,2)] translate_eq [OF assms(1,3)] by (auto split: if_splits sum.splits)
  then show ?thesis by (simp add: ubyte_def)
qed

lemma install_page_ok:
  assumes "as_ok (mach s) (pagedir s)" "held (mach s) (pagedir s) n" "user_page u" "unat kpage = 4096 * n"
  shows "\<exists>v' ok. install_page s u kpage wr = Inr (s\<lparr>mach := v'\<rparr>, ok) \<and> as_ok v' (pagedir s) \<and> (\<not> ok \<longrightarrow> v' = mach s) \<and>
    (ok \<longrightarrow> translate (mach s) (pagedir s) u = None) \<and>
    (\<forall>va. is_user_vaddr va \<longrightarrow> ubyte v' (pagedir s) va =
       (if ok \<and> pg_round_down va = u then Some (ram (pal (mach s)) (4096 * n + unat (pg_ofs va))) else seen s va))"
proof (cases "translate (mach s) (pagedir s) u")
  case None
  have u: "is_user_vaddr u" using assms(3) by (simp add: user_page_def)
  have h: "786432 \<le> n" "n < 786432 + unat (ram_pages (mach s))" "n \<in> pages_used (pal (mach s)) - tables (mach s) (pagedir s)"
    using assms(2) by (simp_all add: held_def)
  obtain v' ok where v': "pagedir_set_page (mach s) (pagedir s) u kpage wr = Inr (v', ok)" "\<not> ok \<longrightarrow> v' = mach s" "as_ok v' (pagedir s)"
    "grows (pagedir s) (mach s) v'" and tr: "\<And>va. is_user_vaddr va \<Longrightarrow> translate v' (pagedir s) va =
       (if ok \<and> pg_round_down va = u then Some (kpage + pg_ofs va) else translate (mach s) (pagedir s) va)"
    using set_page_frames [OF assms(1,3,4) h None] by blast
  have "install_page s u kpage wr = Inr (s\<lparr>mach := v'\<rparr>, ok)"
    using translate_get_page [OF as_okD [OF assms(1)] u] None v'(1) by (simp add: install_page_def)
  moreover note set_page_bytes [OF assms(1) v'(4) assms(4) h(3) tr]
  ultimately show ?thesis using v'(2,3) None by (intro exI [of _ v'] exI [of _ ok]) simp
next
  case (Some a)
  then have "a \<noteq> 0" by (auto simp: translate_def split: sum.splits if_splits)
  then have "install_page s u kpage wr = Inr (s, False)"
    using translate_get_page [OF as_okD [OF assms(1)]] Some assms(3) by (simp add: install_page_def user_page_def)
  then show ?thesis using assms(1) by (intro exI [of _ "mach s"] exI [of _ False]) simp
qed

text \<open>The memory of the new page once the bytes are read and the rest is cleared.\<close>

lemma page_memory:
  assumes "unat kpage = 4096 * n" "0 < n" "unat r \<le> 4096" "length bs = unat r"
  shows "\<exists>m' a. memset (store_bytes m (unat kpage) bs) (unat (kpage + r)) 0 (unat (PGSIZE - r)) = Inr (m', a) \<and>
    (\<forall>x. x div 4096 \<noteq> n \<longrightarrow> m' x = m x) \<and> (\<forall>i < 4096. m' (4096 * n + i) = (if i < unat r then bs ! i else 0))"
proof -
  define m1 where "m1 = store_bytes m (unat kpage) bs"
  define m2 where "m2 = (\<lambda>x. if 4096 * n + unat r \<le> x \<and> x < 4096 * n + 4096 then 0 else m1 x)"
  have z: "unat (PGSIZE - r) = 4096 - unat r" using assms(3) by (subst unat_sub) (simp_all add: word_le_nat_alt layout)
  have m: "memset m1 (unat (kpage + r)) 0 (unat (PGSIZE - r)) = Inr (m2, unat (kpage + r))"
  proof (cases "unat r = 4096")
    case False
    have "n < 1048576" using assms(1) unat_u32_less [of kpage] by simp
    then have a: "unat (kpage + r) = 4096 * n + unat r" using assms(1,3) False by (subst unat_add_no_overflow) simp_all
    then show ?thesis using assms(2,3) z by (simp add: memset_def memset_loop_eq m2_def kassert_def NULL_def)
  next
    case True
    then have "m2 = m1" by (intro ext) (auto simp: m2_def)
    then show ?thesis using True z by (simp add: memset_def)
  qed
  have d: "x div 4096 = n \<longleftrightarrow> 4096 * n \<le> x \<and> x < 4096 * n + 4096" for x by auto
  have "m2 x = m x" if "x div 4096 \<noteq> n" for x using that assms by (auto simp: m2_def m1_def store_bytes_def d)
  moreover have "m2 (4096 * n + i) = (if i < unat r then bs ! i else 0)" if "i < 4096" for i
    using that assms by (auto simp: m2_def m1_def store_bytes_def)
  ultimately show ?thesis using m unfolding m1_def by blast
qed

lemma free_page_ok:
  assumes "as_ok (mach s) (pagedir s)" "held (mach s) (pagedir s) n" "unat kpage = 4096 * n"
  shows "\<exists>v'. free_page s kpage = Inr (s\<lparr>mach := v'\<rparr>) \<and> as_ok v' (pagedir s) \<and> same_view (pagedir s) (mach s) v'"
  using free_held [OF assms] by (auto simp: free_page_def set_pal_def)

text \<open>A held page is installed at a user page that is not mapped yet, or freed.\<close>

lemma install_or_free:
  assumes "as_ok (mach s) (pagedir s)" "held (mach s) (pagedir s) n" "user_page u" "unat kpage = 4096 * n"
  shows "\<exists>s' ok. kbind (install_page s u kpage wr) (\<lambda>r. if snd r then Inr r else kbind (free_page (fst r) kpage) (\<lambda>s. Inr (s, False))) =
      Inr (s', ok) \<and> as_ok (mach s') (pagedir s) \<and> pagedir s' = pagedir s \<and> fsys s' = fsys s \<and> keeps s s' \<and>
    (\<forall>va. is_user_vaddr va \<longrightarrow> seen s' va =
       (if ok \<and> pg_round_down va = u then Some (ram (pal (mach s)) (4096 * n + unat (pg_ofs va))) else seen s va))"
proof -
  obtain v' ok where i: "install_page s u kpage wr = Inr (s\<lparr>mach := v'\<rparr>, ok)" "as_ok v' (pagedir s)" "\<not> ok \<longrightarrow> v' = mach s"
    "ok \<longrightarrow> translate (mach s) (pagedir s) u = None" "\<And>va. is_user_vaddr va \<Longrightarrow> ubyte v' (pagedir s) va =
       (if ok \<and> pg_round_down va = u then Some (ram (pal (mach s)) (4096 * n + unat (pg_ofs va))) else seen s va)"
    using install_page_ok [OF assms] by blast
  show ?thesis
  proof (cases ok)
    case True
    have "seen s va = None" if "is_user_vaddr va" "pg_round_down va = u" for va
      using unmapped_page [OF as_okD [OF assms(1)] that(1) _ that(2)] assms(3) i(4) True by (simp add: user_page_def)
    then have "keeps s (s\<lparr>mach := v'\<rparr>)" using i(5) by (auto simp: keeps_def)
    then show ?thesis using i True by (intro exI [of _ "s\<lparr>mach := v'\<rparr>"] exI [of _ True]) simp
  next
    case False
    obtain v'' where "free_page s kpage = Inr (s\<lparr>mach := v''\<rparr>)" "as_ok v'' (pagedir s)" "same_view (pagedir s) (mach s) v''"
      using free_page_ok [OF assms(1,2,4)] by blast
    then show ?thesis using i False by (intro exI [of _ "s\<lparr>mach := v''\<rparr>"] exI [of _ False]) (simp add: same_view_def keeps_def)
  qed
qed

lemma load_page_ok:
  assumes "loading s f cs p" "user_page u" "unat r \<le> 4096"
  shows "\<exists>s' ok q. load_page s f u r wr = Inr (s', ok) \<and> loading s' f cs q \<and> pagedir s' = pagedir s \<and> keeps s s' \<and>
    (ok \<longrightarrow> q = p + int (unat r) \<and> unat r \<le> length cs - nat p) \<and>
    (\<forall>va. is_user_vaddr va \<longrightarrow> seen s' va = (if ok \<and> pg_round_down va = u
       then Some (if unat (pg_ofs va) < unat r then cs ! (nat p + unat (pg_ofs va)) else 0) else seen s va))"
proof -
  have as: "as_ok (mach s) (pagedir s)" and rd: "reading (fsys s) f cs p" using assms(1) by (simp_all add: loading_def)
  have fl: "PAL_USER AND PAL_ASSERT = 0" "PAL_USER AND PAL_USER \<noteq> 0" by (simp_all add: PAL_USER_def PAL_ASSERT_def)
  from as fl show ?thesis
  proof (cases rule: get_user_page)
    case none
    have "load_page s f u r wr = Inr (s, False)" by (simp add: load_page_def none set_pal_def)
    then show ?thesis using assms(1) by (intro exI [of _ s] exI [of _ False] exI [of _ p]) simp
  next
    case (page p' pg n)
    have sr: "sint r = int (unat r)" using assms(3) by (intro sint_small) simp
    obtain fs' bs where rb: "file_read (fsys s) f (sint r) = Inr (fs', bs)" "bs = take (length bs) (drop (nat p) cs)"
      "int (length bs) \<le> sint r" "reading fs' f cs (p + int (length bs))"
      using reading_read [OF rd, of "sint r"] sr by auto
    define m1 where "m1 = store_bytes (ram p') (unat pg) bs"
    define s1 where "s1 = set_ram (set_pal s p'\<lparr>fsys := fs'\<rparr>) m1"
    have s1: "load_page s f u r wr =
        (if int (length bs) \<noteq> sint r then kbind (free_page s1 pg) (\<lambda>s. Inr (s, False))
         else kbind (memset m1 (unat (pg + r)) 0 (unat (PGSIZE - r))) (\<lambda>m.
              kbind (install_page (set_ram s1 (fst m)) u pg wr) (\<lambda>r.
                if snd r then Inr r else kbind (free_page (fst r) pg) (\<lambda>s. Inr (s, False)))))"
      using page(1,2) rb(1) by (simp add: load_page_def s1_def m1_def set_pal_def set_ram_def)
    define v1 where "v1 = (mach s)\<lparr>pal := p'\<rparr>"
    have n: "0 < n" using page(5) by (simp add: held_def)
    have le: "length bs \<le> unat r" using rb(3) sr by linarith
    have m1: "\<forall>x. x div 4096 \<noteq> n \<longrightarrow> m1 x = ram (pal v1) x"
      using le assms(3) page(3) by (auto simp: m1_def store_bytes_def v1_def)
    note h = fill_held [OF page(4,5) [folded v1_def]]
    have s1v: "mach s1 = v1\<lparr>pal := (pal v1)\<lparr>ram := m1\<rparr>\<rparr>" "pagedir s1 = pagedir s" "fsys s1 = fs'"
      by (simp_all add: s1_def v1_def set_ram_def set_pal_def)
    have f1: "as_ok (mach s1) (pagedir s)" "held (mach s1) (pagedir s) n" "same_view (pagedir s) (mach s) (mach s1)"
      using h [OF m1] same_view_trans [OF page(6) [folded v1_def]] by (simp_all add: s1v)
    show ?thesis
    proof (cases "int (length bs) = sint r")
      case False
      obtain v' where v': "free_page s1 pg = Inr (s1\<lparr>mach := v'\<rparr>)" "as_ok v' (pagedir s)" "same_view (pagedir s) (mach s1) v'"
        using free_page_ok [of s1 n pg] f1 page(3) s1v(2) by auto
      have "load_page s f u r wr = Inr (s1\<lparr>mach := v'\<rparr>, False)" using s1 v'(1) False by simp
      moreover have "loading (s1\<lparr>mach := v'\<rparr>) f cs (p + int (length bs))" using v'(2) rb(4) by (simp add: loading_def s1v)
      ultimately show ?thesis using same_view_trans [OF f1(3) v'(3)] s1v(2)
        by (intro exI [of _ "s1\<lparr>mach := v'\<rparr>"] exI [of _ False] exI) (simp add: same_view_def keeps_def)
    next
      case True
      then have len: "length bs = unat r" using sr by linarith
      obtain m2 a where m2: "memset m1 (unat (pg + r)) 0 (unat (PGSIZE - r)) = Inr (m2, a)" "\<forall>x. x div 4096 \<noteq> n \<longrightarrow> m2 x = ram p' x"
        "\<And>i. i < 4096 \<Longrightarrow> m2 (4096 * n + i) = (if i < unat r then bs ! i else 0)"
        using page_memory [OF page(3) n assms(3) len, of "ram p'"] unfolding m1_def by blast
      define s2 where "s2 = set_ram s1 m2"
      have s2v: "mach s2 = v1\<lparr>pal := (pal v1)\<lparr>ram := m2\<rparr>\<rparr>" "pagedir s2 = pagedir s" "fsys s2 = fs'"
        by (simp_all add: s2_def set_ram_def s1v)
      have f2: "as_ok (mach s2) (pagedir s)" "held (mach s2) (pagedir s) n" "same_view (pagedir s) (mach s) (mach s2)"
        using h [of m2] m2(2) same_view_trans [OF page(6) [folded v1_def]] by (simp_all add: s2v v1_def)
      obtain s' ok where i: "load_page s f u r wr = Inr (s', ok)" "as_ok (mach s') (pagedir s)" "pagedir s' = pagedir s" "fsys s' = fs'" "keeps s2 s'"
        "\<And>va. is_user_vaddr va \<Longrightarrow> seen s' va = (if ok \<and> pg_round_down va = u then Some (m2 (4096 * n + unat (pg_ofs va))) else seen s2 va)"
        using install_or_free [of s2 n u pg wr] f2(1,2) assms(2) page(3) s1 m2(1) True s2v by (auto simp: s2_def [symmetric])
      have ln: "unat r \<le> length cs - nat p" using arg_cong [OF rb(2), of length] len by simp
      have "bs = take (unat r) (drop (nat p) cs)" using rb(2) len by simp
      then have b: "unat r \<le> length cs - nat p" "\<And>j. j < unat r \<Longrightarrow> bs ! j = cs ! (nat p + j)"
        using ln by simp_all
      have "seen s2 va = seen s va" if "is_user_vaddr va" for va using f2(3) that by (simp add: same_view_def s2v(2))
      then have "keeps s s'" using i(5) by (auto simp: keeps_def)
      then show ?thesis using i b m2(3) rb(4) len \<open>\<And>va. is_user_vaddr va \<Longrightarrow> seen s2 va = seen s va\<close>
        by (intro exI [of _ s'] exI [of _ ok] exI [of _ "p + int (unat r)"]) (simp add: loading_def unat_pg_ofs)
    qed
  qed
qed

section \<open>One segment\<close>

lemma in_page:
  assumes "pg_ofs u = 0"
  shows "pg_round_down va = u \<longleftrightarrow> unat u \<le> unat va \<and> unat va < unat u + 4096"
    and "unat u \<le> unat va \<Longrightarrow> unat va < unat u + 4096 \<Longrightarrow> unat (pg_ofs va) = unat va - unat u"
proof -
  have u: "unat u = 4096 * unat (pg_no u)" by (rule aligned_unat [OF assms])
  have r: "unat (pg_round_down va) = 4096 * (unat va div 4096)" by (simp add: unat_pg_round_down minus_mod_eq_mult_div)
  have d: "unat va div 4096 = n \<longleftrightarrow> 4096 * n \<le> unat va \<and> unat va < 4096 * n + 4096" for n by auto
  show "pg_round_down va = u \<longleftrightarrow> unat u \<le> unat va \<and> unat va < unat u + 4096"
    using d [of "unat (pg_no u)"] r u by (auto simp: word_unat_eq_iff)
  assume "unat u \<le> unat va" "unat va < unat u + 4096"
  then have "unat va div 4096 = unat (pg_no u)" using d [of "unat (pg_no u)"] u by simp
  then show "unat (pg_ofs va) = unat va - unat u" by (simp add: unat_pg_ofs u minus_mult_div_eq_mod [symmetric])
qed

text \<open>What a page takes off the two counts.\<close>

lemma page_counts:
  fixes r z :: u32
  assumes "unat r + unat z = 4096 * Suc k"
  defines "pr \<equiv> (if r < PGSIZE then r else PGSIZE)"
  shows "unat pr = min (unat r) 4096" "unat (r - pr) = unat r - unat pr" "unat (r - pr) + unat (z - (PGSIZE - pr)) = 4096 * k"
proof -
  show pr: "unat pr = min (unat r) 4096" by (auto simp: pr_def word_less_nat_alt layout)
  show r: "unat (r - pr) = unat r - unat pr" using pr by (intro unat_sub) (simp add: word_le_nat_alt)
  have q: "unat (PGSIZE - pr) = 4096 - unat pr" using pr by (subst unat_sub) (simp_all add: word_le_nat_alt layout)
  have "4096 - unat pr \<le> unat z" using assms(1) pr by (simp add: min_def split: if_splits)
  then have "unat (z - (PGSIZE - pr)) = unat z - (4096 - unat pr)" using q by (subst unat_sub) (simp_all add: word_le_nat_alt)
  then show "unat (r - pr) + unat (z - (PGSIZE - pr)) = 4096 * k" using r pr assms(1) by (simp add: min_def)
qed

definition in_range :: "u32 \<Rightarrow> nat \<Rightarrow> u32 \<Rightarrow> bool" where
  "in_range u n va \<longleftrightarrow> unat u \<le> unat va \<and> unat va < unat u + n"

lemma load_pages_ok:
  assumes "loading s f cs p" "unat r + unat z = 4096 * k" "pg_ofs u = 0" "unat u + 4096 * k \<le> unat PHYS_BASE"
  shows "\<exists>s' ok q. load_pages s f u r z wr = Some (Inr (s', ok)) \<and> loading s' f cs q \<and> pagedir s' = pagedir s \<and> keeps s s' \<and>
    (ok \<longrightarrow> unat r \<le> length cs - nat p) \<and>
    (\<forall>va. is_user_vaddr va \<longrightarrow> (\<not> in_range u (4096 * k) va \<longrightarrow> seen s' va = seen s va) \<and>
      (in_range u (4096 * k) va \<and> ok \<longrightarrow> seen s' va = Some (if unat va - unat u < unat r then cs ! (nat p + (unat va - unat u)) else 0)))"
  using assms
proof (induction k arbitrary: s p u r z)
  case 0
  then have "r = 0" "z = 0" by (simp_all add: word_unat_eq_iff)
  then have "load_pages s f u r z wr = Some (Inr (s, True))" by (simp add: load_pages.simps)
  then show ?case using 0 \<open>r = 0\<close> by (intro exI [of _ s] exI [of _ True] exI [of _ p]) (auto simp: in_range_def)
next
  case (Suc k)
  define pr where "pr = (if r < PGSIZE then r else PGSIZE)"
  note pc = page_counts [OF Suc.prems(2), folded pr_def]
  have u: "user_page u" using Suc.prems(3,4) by (simp add: user_page_def is_user_vaddr_def word_less_nat_alt layout)
  have c: "r > 0 \<or> z > 0" using Suc.prems(2) by (auto simp: word_less_nat_alt)
  obtain s1 ok q where p1: "load_page s f u pr wr = Inr (s1, ok)" "loading s1 f cs q" "pagedir s1 = pagedir s"
    "ok \<Longrightarrow> q = p + int (unat pr) \<and> unat pr \<le> length cs - nat p"
    "\<And>va. is_user_vaddr va \<Longrightarrow> seen s1 va = (if ok \<and> pg_round_down va = u
       then Some (if unat (pg_ofs va) < unat pr then cs ! (nat p + unat (pg_ofs va)) else 0) else seen s va)" "keeps s s1"
    using load_page_ok [OF Suc.prems(1) u, of pr wr] pc(1) by auto
  show ?case
  proof (cases ok)
    case False
    then have "load_pages s f u r z wr = Some (Inr (s1, False))"
      using p1(1) c by (subst load_pages.simps) (simp add: pr_def)
    then show ?thesis using p1 False by (intro exI [of _ s1] exI [of _ False] exI [of _ q]) simp
  next
    case True
    have u': "unat (u + PGSIZE) = unat u + 4096" using Suc.prems(4) by (subst unat_add_no_overflow) (simp_all add: layout)
    have st: "load_pages s f u r z wr = load_pages s1 f (u + PGSIZE) (r - pr) (z - (PGSIZE - pr)) wr"
      using p1(1) c True by (subst load_pages.simps) (simp add: pr_def)
    have "pg_ofs (u + PGSIZE) = 0" using Suc.prems(3) u' by (simp add: word_unat_eq_iff unat_pg_ofs)
    from Suc.IH [OF p1(2) pc(3) this] Suc.prems(4) u' obtain s' ok' q' where l:
      "load_pages s f u r z wr = Some (Inr (s', ok'))" "loading s' f cs q'" "pagedir s' = pagedir s"
      "ok' \<longrightarrow> unat (r - pr) \<le> length cs - nat q"
      "\<And>va. is_user_vaddr va \<Longrightarrow> (\<not> in_range (u + PGSIZE) (4096 * k) va \<longrightarrow> seen s' va = seen s1 va) \<and>
        (in_range (u + PGSIZE) (4096 * k) va \<and> ok' \<longrightarrow>
          seen s' va = Some (if unat va - unat (u + PGSIZE) < unat (r - pr) then cs ! (nat q + (unat va - unat (u + PGSIZE))) else 0))" "keeps s1 s'"
      unfolding st using p1(3) by auto
    have q: "nat q = nat p + unat pr" using p1(4) True Suc.prems(1) by (simp add: loading_def reading_def nat_add_distrib)
    have "unat r \<le> length cs - nat p" if ok'
    proof -
      have "unat r - unat pr \<le> length cs - (nat p + unat pr)" using l(4) that by (simp only: pc(2) q)
      moreover have "unat pr \<le> length cs - nat p" "unat pr \<le> unat r" using p1(4) True pc(1) by simp_all
      ultimately show ?thesis by linarith
    qed
    moreover have "(\<not> in_range u (4096 * Suc k) va \<longrightarrow> seen s' va = seen s va) \<and> (in_range u (4096 * Suc k) va \<and> ok' \<longrightarrow>
        seen s' va = Some (if unat va - unat u < unat r then cs ! (nat p + (unat va - unat u)) else 0))" if "is_user_vaddr va" for va
    proof (cases "unat u \<le> unat va \<and> unat va < unat u + 4096")
      case In: True
      then show ?thesis using l(5) [OF that] p1(5) [OF that] True in_page [OF Suc.prems(3), of va] pc(1) u' by (auto simp: in_range_def)
    next
      case Out: False
      then have "seen s1 va = seen s va" using p1(5) [OF that] in_page(1) [OF Suc.prems(3), of va] by auto
      then show ?thesis using l(5) [OF that] Out u' pc(1,2) q by (auto simp: in_range_def min_def split: if_splits)
    qed
    ultimately show ?thesis using l(1-3) keeps_trans [OF p1(6) l(6)] by blast
  qed
qed

section \<open>Program headers\<close>

text \<open>
  The pages of a segment that passes the checks: the start of its first page, their number, and the
  start of the part of the file.
\<close>

definition seg_start :: "Elf32_Phdr \<Rightarrow> u32" where
  "seg_start ph = p_vaddr ph AND NOT PGMASK"

definition seg_pages :: "Elf32_Phdr \<Rightarrow> nat" where
  "seg_pages ph = (unat (p_vaddr ph) mod 4096 + unat (p_memsz ph) + 4095) div 4096"

lemma validate_segment_iff:
  assumes "reading s f cs p"
  shows "validate_segment s ph f = Inr (pg_ofs (p_offset ph) = pg_ofs (p_vaddr ph) \<and> unat (p_offset ph) \<le> length cs \<and>
    unat (p_filesz ph) \<le> unat (p_memsz ph) \<and> 0 < unat (p_memsz ph) \<and>
    unat (p_vaddr ph) + unat (p_memsz ph) < unat PHYS_BASE \<and> 4096 \<le> unat (p_vaddr ph))"
proof -
  have l: "unat (word_of_int (int (length cs)) :: u32) = length cs"
    using reading_length(2) [OF assms] by (simp add: unat_of_nat take_bit_eq_mod)
  have a: "is_user_vaddr (p_vaddr ph) \<and> is_user_vaddr (p_vaddr ph + p_memsz ph) \<and> \<not> p_vaddr ph + p_memsz ph < p_vaddr ph \<longleftrightarrow>
    unat (p_vaddr ph) + unat (p_memsz ph) < unat PHYS_BASE"
  proof (cases "unat (p_vaddr ph) + unat (p_memsz ph) < 4294967296")
    case True
    then have "unat (p_vaddr ph + p_memsz ph) = unat (p_vaddr ph) + unat (p_memsz ph)" by (intro unat_add_no_overflow) simp
    then show ?thesis by (auto simp: is_user_vaddr_def word_less_nat_alt)
  next
    case False
    then have "unat (p_vaddr ph + p_memsz ph) = unat (p_vaddr ph) + unat (p_memsz ph) - 4294967296"
      using unat_u32_less [of "p_vaddr ph"] unat_u32_less [of "p_memsz ph"]
      by (simp add: unat_word_ariths mod_if)
    then show ?thesis using False unat_u32_less [of "p_memsz ph"] by (auto simp: word_less_nat_alt layout)
  qed
  show ?thesis using reading_length(1) [OF assms] l a
    by (auto simp: validate_segment_def pg_ofs_def word_less_nat_alt word_le_nat_alt layout unat_gt_0 not_less)
qed


lemma segment_geometry:
  assumes "unat (p_filesz ph) \<le> unat (p_memsz ph)" "unat (p_vaddr ph) + unat (p_memsz ph) < unat PHYS_BASE" "4096 \<le> unat (p_vaddr ph)"
  shows "pg_ofs (seg_start ph) = 0" "unat (seg_start ph) = unat (p_vaddr ph) - unat (p_vaddr ph) mod 4096"
    "unat (fst (segment_bytes ph)) = (if p_filesz ph = 0 then 0 else unat (p_vaddr ph) mod 4096 + unat (p_filesz ph))"
    "unat (fst (segment_bytes ph)) + unat (snd (segment_bytes ph)) = 4096 * seg_pages ph"
    "4096 \<le> unat (seg_start ph)" "unat (seg_start ph) + 4096 * seg_pages ph \<le> unat PHYS_BASE"
    "unat (p_vaddr ph) + unat (p_memsz ph) \<le> unat (seg_start ph) + 4096 * seg_pages ph"
proof -
  define V where "V = unat (p_vaddr ph)"
  define M where "M = unat (p_memsz ph)"
  define F where "F = unat (p_filesz ph)"
  define o1 where "o1 = V mod 4096"
  note d = V_def [symmetric] M_def [symmetric] F_def [symmetric]
  have o1: "o1 < 4096" "o1 \<le> V" by (simp_all add: o1_def)
  have lim: "V + M < 3221225472" using assms(2) by (simp add: d layout)
  have po: "unat (p_vaddr ph AND PGMASK) = o1" using unat_pg_ofs [of "p_vaddr ph"] by (simp add: pg_ofs_def o1_def V_def)
  show su: "unat (seg_start ph) = V - V mod 4096"
    using unat_pg_round_down [of "p_vaddr ph"] by (simp add: seg_start_def pg_round_down_def V_def)
  then show "pg_ofs (seg_start ph) = 0" by (simp add: word_unat_eq_iff unat_pg_ofs minus_mod_eq_mult_div)
  show "4096 \<le> unat (seg_start ph)" using assms(3) unfolding su d by (simp add: minus_mod_eq_mult_div)
  have um: "unat ((p_vaddr ph AND PGMASK) + p_memsz ph) = o1 + M" using po lim o1 by (subst unat_add_no_overflow) (simp_all add: M_def)
  have uf: "unat ((p_vaddr ph AND PGMASK) + p_filesz ph) = o1 + F" using po lim o1 assms(1) by (subst unat_add_no_overflow) (simp_all add: d)
  have ru: "unat (ROUND_UP ((p_vaddr ph AND PGMASK) + p_memsz ph) PGSIZE) = 4096 * seg_pages ph"
    using lim o1 by (subst round_up_page) (simp_all add: um seg_pages_def o1_def d)
  show f: "unat (fst (segment_bytes ph)) = (if p_filesz ph = 0 then 0 else V mod 4096 + F)"
    using uf by (simp add: segment_bytes_def Let_def o1_def word_neq_0_conv [symmetric])
  have up: "o1 + M \<le> 4096 * seg_pages ph" by (simp add: seg_pages_def d o1_def)
  show "V + M \<le> unat (seg_start ph) + 4096 * seg_pages ph" using up o1 unfolding su o1_def by linarith
  have "unat (ROUND_UP ((p_vaddr ph AND PGMASK) + p_memsz ph) PGSIZE - ((p_vaddr ph AND PGMASK) + p_filesz ph)) = 4096 * seg_pages ph - (o1 + F)"
    using up assms(1) by (subst unat_sub) (simp_all add: word_le_nat_alt ru uf d)
  then show "unat (fst (segment_bytes ph)) + unat (snd (segment_bytes ph)) = 4096 * seg_pages ph"
    using uf ru up assms(1) by (simp add: segment_bytes_def Let_def d)
  show "unat (seg_start ph) + 4096 * seg_pages ph \<le> unat PHYS_BASE"
  proof -
    define a where "a = V div 4096"
    have a: "V = 4096 * a + o1" by (simp add: a_def o1_def)
    have "a < 786432" "o1 + M + 4095 \<le> 4096 * (786432 - a) + 4095" using lim unfolding a by linarith+
    then have "seg_pages ph \<le> 786432 - a" using div_le_mono [of "o1 + M + 4095" "4096 * (786432 - a) + 4095" 4096]
      by (simp add: seg_pages_def d o1_def)
    moreover have "unat (seg_start ph) = 4096 * a" by (simp add: su a_def minus_mod_eq_mult_div)
    ultimately show ?thesis using \<open>a < 786432\<close> by (simp add: layout)
  qed
qed


lemma seg_offset:
  assumes "reading s f cs p" "unat (p_offset ph) \<le> length cs"
  shows "sint (p_offset ph AND NOT PGMASK) = int (unat (p_offset ph) - unat (p_offset ph) mod 4096)"
proof -
  have "unat (p_offset ph AND NOT PGMASK) = unat (p_offset ph) - unat (p_offset ph) mod 4096"
    using unat_pg_round_down [of "p_offset ph"] by (simp add: pg_round_down_def)
  moreover have "unat (p_offset ph) - unat (p_offset ph) mod 4096 < 2147483648"
    using assms(2) reading_length(2) [OF assms(1)] by simp
  ultimately show ?thesis using sint_small [of "p_offset ph AND NOT PGMASK"] by simp
qed

text \<open>The segment of a header, as the process sees it.\<close>

definition seg_loaded :: "proc \<Rightarrow> u8 list \<Rightarrow> Elf32_Phdr \<Rightarrow> bool" where
  "seg_loaded s cs ph \<longleftrightarrow> unat (p_offset ph) + unat (p_filesz ph) \<le> length cs \<and>
     (\<forall>i < unat (p_memsz ph). seen s (p_vaddr ph + of_nat i) =
        Some (if i < unat (p_filesz ph) then cs ! (unat (p_offset ph) + i) else 0))"

text \<open>What the loop over the pages leaves is the segment: the offsets in the file and in memory agree within a page.\<close>

lemma seg_loadedI:
  assumes "pg_ofs (p_offset ph) = pg_ofs (p_vaddr ph)" "unat (p_offset ph) \<le> length cs"
    "unat (p_filesz ph) \<le> unat (p_memsz ph)" "unat (p_vaddr ph) + unat (p_memsz ph) < unat PHYS_BASE"
    "unat r = (if p_filesz ph = 0 then 0 else unat (p_vaddr ph) mod 4096 + unat (p_filesz ph))"
    "q = int (unat (p_offset ph) - unat (p_offset ph) mod 4096)" "unat r \<le> length cs - nat q"
    "unat (seg_start ph) = unat (p_vaddr ph) - unat (p_vaddr ph) mod 4096"
    "unat (p_vaddr ph) + unat (p_memsz ph) \<le> unat (seg_start ph) + 4096 * seg_pages ph"
    "\<And>va. is_user_vaddr va \<Longrightarrow> in_range (seg_start ph) (4096 * seg_pages ph) va \<Longrightarrow> seen s va =
      Some (if unat va - unat (seg_start ph) < unat r then cs ! (nat q + (unat va - unat (seg_start ph))) else 0)"
  shows "seg_loaded s cs ph"
proof -
  define V where "V = unat (p_vaddr ph)"
  define F where "F = unat (p_filesz ph)"
  define o1 where "o1 = V mod 4096"
  have P: "unat (p_offset ph) mod 4096 = o1" using arg_cong [OF assms(1), of unat] by (simp add: unat_pg_ofs o1_def V_def)
  have o1: "o1 \<le> V" "o1 \<le> unat (p_offset ph)" using P by (auto simp: o1_def)
  have st: "unat (seg_start ph) = V - o1" using assms(8) by (simp add: V_def o1_def)
  have q: "nat q = unat (p_offset ph) - o1" unfolding assms(6) P by (simp only: nat_int)
  have F0: "p_filesz ph = 0 \<longleftrightarrow> F = 0" by (simp add: F_def word_unat_eq_iff)
  have r: "unat r = (if F = 0 then 0 else o1 + F)" using assms(5) by (simp add: F0 o1_def V_def F_def [symmetric])
  have "unat (p_offset ph) + F \<le> length cs" using assms(2,7) r q o1 by (auto split: if_splits)
  moreover have "seen s (p_vaddr ph + of_nat i) = Some (if i < F then cs ! (unat (p_offset ph) + i) else 0)"
    if i: "i < unat (p_memsz ph)" for i
  proof -
    have "i < 4294967296" using i unat_u32_less [of "p_memsz ph"] by simp
    then have "unat (of_nat i :: u32) = i" by (simp add: unat_of_nat take_bit_eq_mod)
    then have va: "unat (p_vaddr ph + of_nat i) = V + i"
      using i assms(4) by (subst unat_add_no_overflow) (simp_all add: V_def layout)
    have "is_user_vaddr (p_vaddr ph + of_nat i)" "in_range (seg_start ph) (4096 * seg_pages ph) (p_vaddr ph + of_nat i)"
      using i assms(4,9) by (simp_all add: is_user_vaddr_def word_less_nat_alt in_range_def va V_def [symmetric] st)
    from assms(10) [OF this] show ?thesis using va st q r o1 by auto
  qed
  ultimately show ?thesis by (simp add: seg_loaded_def F_def)
qed

lemma load_segment_ok:
  assumes "loading s f cs p" "validate_segment (fsys s) ph f = Inr True"
  shows "\<exists>s' ok q. load_segment s f (sint (p_offset ph AND NOT PGMASK)) (seg_start ph) (fst (segment_bytes ph)) (snd (segment_bytes ph)) wr =
      Some (Inr (s', ok)) \<and> loading s' f cs q \<and> pagedir s' = pagedir s \<and> keeps s s' \<and> (ok \<longrightarrow> seg_loaded s' cs ph) \<and>
    (\<forall>va. is_user_vaddr va \<and> \<not> in_range (seg_start ph) (4096 * seg_pages ph) va \<longrightarrow> seen s' va = seen s va)"
proof -
  have rd: "reading (fsys s) f cs p" using assms(1) by (simp add: loading_def)
  have v: "pg_ofs (p_offset ph) = pg_ofs (p_vaddr ph)" "unat (p_offset ph) \<le> length cs"
    "unat (p_filesz ph) \<le> unat (p_memsz ph)" "0 < unat (p_memsz ph)"
    "unat (p_vaddr ph) + unat (p_memsz ph) < unat PHYS_BASE" "4096 \<le> unat (p_vaddr ph)"
    using assms(2) validate_segment_iff [OF rd, of ph] by simp_all
  note g = segment_geometry [OF v(3,5,6)]
  define r where "r = fst (segment_bytes ph)"
  define z where "z = snd (segment_bytes ph)"
  define q where "q = int (unat (p_offset ph) - unat (p_offset ph) mod 4096)"
  note so = seg_offset [OF rd v(2), folded q_def]
  have q: "0 \<le> q" "q smod int (unat PGSIZE) = 0" by (simp_all add: q_def layout smod_nonneg minus_mod_eq_mult_div zmod_int [symmetric])
  have as1: "(r + z) mod PGSIZE = 0"
  proof -
    have "unat (r + z) = 4096 * seg_pages ph"
      using g(4,6) by (subst unat_add_no_overflow) (simp_all add: r_def z_def layout)
    then show ?thesis by (simp add: word_unat_eq_iff unat_mod layout)
  qed
  obtain fs' where sk: "file_seek (fsys s) f q = Inr fs'" "reading fs' f cs q" using reading_seek [OF rd q(1)] by blast
  have ld: "loading (s\<lparr>fsys := fs'\<rparr>) f cs q" using assms(1) sk(2) by (simp add: loading_def)
  have fld: "pagedir (s\<lparr>fsys := fs'\<rparr>) = pagedir s" "mach (s\<lparr>fsys := fs'\<rparr>) = mach s"
    "keeps (s\<lparr>fsys := fs'\<rparr>) s' = keeps s s'" for s' by (simp_all add: keeps_def)
  have ls: "load_segment s f q (seg_start ph) r z wr = load_pages (s\<lparr>fsys := fs'\<rparr>) f (seg_start ph) r z wr"
    using as1 g(1) q(2) sk(1) by (simp add: load_segment_def)
  obtain s' ok q' where l: "load_pages (s\<lparr>fsys := fs'\<rparr>) f (seg_start ph) r z wr = Some (Inr (s', ok))" "loading s' f cs q'" "pagedir s' = pagedir s"
    "ok \<Longrightarrow> unat r \<le> length cs - nat q"
    "\<And>va. is_user_vaddr va \<Longrightarrow> (\<not> in_range (seg_start ph) (4096 * seg_pages ph) va \<longrightarrow> seen s' va = seen s va) \<and>
      (in_range (seg_start ph) (4096 * seg_pages ph) va \<and> ok \<longrightarrow> seen s' va =
        Some (if unat va - unat (seg_start ph) < unat r then cs ! (nat q + (unat va - unat (seg_start ph))) else 0))" "keeps s s'"
    using load_pages_ok [OF ld g(4) [folded r_def z_def] g(1,6), of wr, unfolded fld] by blast
  have "seg_loaded s' cs ph" if ok
    using l(5) that by (intro seg_loadedI [OF v(1,2,3,5) g(3) [folded r_def] q_def l(4) [OF that] g(2,7)]) blast
  then show ?thesis using l ls so by (auto simp: r_def z_def)
qed

section \<open>The whole executable\<close>

lemma seen_user: "seen s va \<noteq> None \<Longrightarrow> is_user_vaddr va"
  by (auto simp: ubyte_def translate_def pagedir_get_page_def kassert_def split: if_splits)

lemma seg_loaded_keeps:
  assumes "keeps s s'" "seg_loaded s cs ph"
  shows "seg_loaded s' cs ph"
proof -
  have "seen s' (p_vaddr ph + of_nat i) = seen s (p_vaddr ph + of_nat i)" if "i < unat (p_memsz ph)" for i
    using assms that seen_user [of s "p_vaddr ph + of_nat i"] by (auto simp: keeps_def seg_loaded_def)
  then show ?thesis using assms(2) by (simp add: seg_loaded_def)
qed

text \<open>What a header that is accepted says, and what it leaves in memory.\<close>

definition header_done :: "proc \<Rightarrow> u8 list \<Rightarrow> Elf32_Phdr \<Rightarrow> bool" where
  "header_done s cs ph \<longleftrightarrow> p_type ph \<notin> {PT_DYNAMIC, PT_INTERP, PT_SHLIB} \<and>
     (p_type ph = PT_LOAD \<longrightarrow> seg_loaded s cs ph \<and> PGSIZE \<le> p_vaddr ph \<and> unat (p_vaddr ph) + unat (p_memsz ph) < unat PHYS_BASE)"

lemma header_done_keeps: "keeps s s' \<Longrightarrow> header_done s cs ph \<Longrightarrow> header_done s' cs ph"
  using seg_loaded_keeps by (auto simp: header_done_def)

lemma load_phdr_ok:
  assumes "loading s f cs p"
  shows "\<exists>s' ok q. load_phdr s f ph = Some (Inr (s', ok)) \<and> loading s' f cs q \<and> pagedir s' = pagedir s \<and> keeps s s' \<and>
    (ok \<longrightarrow> header_done s' cs ph)"
proof (cases "p_type ph = PT_LOAD")
  case False
  have "\<exists>ok. load_phdr s f ph = Some (Inr (s, ok)) \<and> (ok \<longrightarrow> header_done s cs ph)"
    using False by (auto simp: load_phdr_def header_done_def)
  then show ?thesis using assms keeps_refl by metis
next
  case True
  have rd: "reading (fsys s) f cs p" using assms by (simp add: loading_def)
  have ty: "PT_LOAD \<noteq> PT_DYNAMIC" "PT_LOAD \<noteq> PT_INTERP" "PT_LOAD \<noteq> PT_SHLIB"
    by (simp_all add: PT_LOAD_def PT_DYNAMIC_def PT_INTERP_def PT_SHLIB_def)
  obtain b where b: "validate_segment (fsys s) ph f = Inr b" using validate_segment_iff [OF rd] by blast
  show ?thesis
  proof (cases b)
    case False
    then have "load_phdr s f ph = Some (Inr (s, False))" using True ty b by (simp add: load_phdr_def)
    then show ?thesis using assms by (intro exI [of _ s] exI [of _ False] exI [of _ p]) simp
  next
    case bt: True
    then have v: "validate_segment (fsys s) ph f = Inr True" using b by simp
    define w where "w \<longleftrightarrow> p_flags ph AND PF_W \<noteq> 0"
    have "load_phdr s f ph = load_segment s f (sint (p_offset ph AND NOT PGMASK)) (seg_start ph) (fst (segment_bytes ph)) (snd (segment_bytes ph)) w"
      using True ty v by (simp add: load_phdr_def seg_start_def w_def)
    moreover have "PGSIZE \<le> p_vaddr ph \<and> unat (p_vaddr ph) + unat (p_memsz ph) < unat PHYS_BASE"
      using v validate_segment_iff [OF rd, of ph] by (simp add: word_le_nat_alt layout)
    ultimately show ?thesis using load_segment_ok [OF assms v, of w] True ty by (fastforce simp: header_done_def)
  qed
qed

definition header_at :: "u8 list \<Rightarrow> nat \<Rightarrow> Elf32_Phdr" where
  "header_at cs n = phdr_of (take PHDR_SIZE (drop n cs))"

lemma load_phdrs_ok:
  assumes "loading s f cs p"
  shows "\<exists>s' ok q. load_phdrs s f ofs n = Some (Inr (s', ok)) \<and> loading s' f cs q \<and> pagedir s' = pagedir s \<and> keeps s s' \<and>
    (ok \<longrightarrow> (\<forall>j < n. header_done s' cs (header_at cs (nat ofs + 32 * j))))"
  using assms
proof (induction n arbitrary: s p ofs)
  case 0
  then show ?case by (intro exI [of _ s] exI [of _ True] exI [of _ p]) simp
next
  case (Suc n)
  have rd: "reading (fsys s) f cs p" using Suc.prems by (simp add: loading_def)
  note fl = reading_length [OF rd]
  show ?case
  proof (cases "ofs < 0 \<or> ofs > int (length cs)")
    case True
    then have "load_phdrs s f ofs (Suc n) = Some (Inr (s, False))" using fl by simp
    then show ?thesis using Suc.prems by (intro exI [of _ s] exI [of _ False] exI [of _ p]) simp
  next
    case False
    obtain fs1 where sk: "file_seek (fsys s) f ofs = Inr fs1" "reading fs1 f cs ofs" using reading_seek [OF rd] False by (meson not_less)
    obtain fs2 bs where r: "file_read fs1 f 32 = Inr (fs2, bs)" "bs = take (length bs) (drop (nat ofs) cs)"
      "reading fs2 f cs (ofs + int (length bs))"
      by (rule reading_read [OF sk(2), of 32]) auto
    define s1 where "s1 = s\<lparr>fsys := fs2\<rparr>"
    have l1: "loading s1 f cs (ofs + int (length bs))" and k1: "keeps s s1" "pagedir s1 = pagedir s"
      using Suc.prems r(3) by (simp_all add: loading_def s1_def keeps_def)
    have step: "load_phdrs s f ofs (Suc n) = (if length bs \<noteq> 32 then Some (Inr (s1, False))
        else rbind (load_phdr s1 f (phdr_of bs)) (\<lambda>q. if \<not> snd q then Some (Inr (fst q, False))
          else load_phdrs (fst q) f (sint (word_of_int (ofs + 32) :: u32)) n))"
      using False fl(1) sk(1) r(1) by (simp add: PHDR_SIZE_def s1_def Let_def cong: if_cong)
    show ?thesis
    proof (cases "length bs = 32")
      case len: True
      have ph: "phdr_of bs = header_at cs (nat ofs)" using r(2) len by (simp add: header_at_def PHDR_SIZE_def)
      obtain s2 ok q where p2: "load_phdr s1 f (phdr_of bs) = Some (Inr (s2, ok))" "loading s2 f cs q" "pagedir s2 = pagedir s" "keeps s s2"
        "ok \<longrightarrow> header_done s2 cs (header_at cs (nat ofs))"
        using load_phdr_ok [OF l1, of "phdr_of bs"] keeps_trans [OF k1(1)] k1(2) unfolding ph by auto
      show ?thesis
      proof (cases ok)
        case True
        have nx: "sint (word_of_int (ofs + 32) :: u32) = ofs + 32" using False fl(2) by (intro sint_of_int_u32) auto
        obtain s' ok' q' where p3: "load_phdrs s2 f (ofs + 32) n = Some (Inr (s', ok'))" "loading s' f cs q'" "pagedir s' = pagedir s" "keeps s2 s'"
          "ok' \<longrightarrow> (\<forall>j < n. header_done s' cs (header_at cs (nat (ofs + 32) + 32 * j)))"
          using Suc.IH [OF p2(2), of "ofs + 32"] p2(3) by auto
        have "header_done s' cs (header_at cs (nat ofs + 32 * j))" if "j < Suc n" ok' for j
          using that p3(5) header_done_keeps [OF p3(4)] p2(5) True False
          by (cases j) (auto simp: nat_add_distrib add.assoc)
        then show ?thesis using step len p2(1) True nx p3 keeps_trans [OF p2(4) p3(4)] by auto
      qed (use step len p2 in \<open>auto intro!: exI [of _ s2] exI [of _ False] exI [of _ q]\<close>)
    qed (use step l1 k1 in \<open>auto intro!: exI [of _ s1] exI [of _ False] exI\<close>)
  qed
qed

lemma load_file_ok:
  assumes "loading s f cs 0"
  shows "\<exists>s' entry q. load_file s f = Some (Inr (s', entry)) \<and> loading s' f cs q \<and> pagedir s' = pagedir s \<and> keeps s s' \<and>
    (\<forall>a. entry = Some a \<longrightarrow> EHDR_SIZE \<le> length cs \<and> ehdr_valid (ehdr_of (take EHDR_SIZE cs)) \<and> a = e_entry (ehdr_of (take EHDR_SIZE cs)) \<and>
      (\<forall>j < e_phnum (ehdr_of (take EHDR_SIZE cs)).
        header_done s' cs (header_at cs (nat (sint (e_phoff (ehdr_of (take EHDR_SIZE cs)))) + 32 * j))))"
proof -
  have rd: "reading (fsys s) f cs 0" using assms by (simp add: loading_def)
  obtain fs1 bs where r: "file_read (fsys s) f 52 = Inr (fs1, bs)" "bs = take (length bs) cs" "reading fs1 f cs (int (length bs))"
    by (rule reading_read [OF rd, of 52]) auto
  define s1 where "s1 = s\<lparr>fsys := fs1\<rparr>"
  have l1: "loading s1 f cs (int (length bs))" and k1: "keeps s s1" "pagedir s1 = pagedir s"
    using assms r(3) by (simp_all add: loading_def s1_def keeps_def)
  show ?thesis
  proof (cases "length bs = 52 \<and> ehdr_valid (ehdr_of bs)")
    case False
    then have "load_file s f = Some (Inr (s1, None))" using r(1) by (auto simp: load_file_def EHDR_SIZE_def s1_def Let_def)
    then show ?thesis using l1 k1 by (intro exI [of _ s1] exI [of _ None] exI) simp
  next
    case True
    then have bs: "take EHDR_SIZE cs = bs" "EHDR_SIZE \<le> length cs"
      using r(2) arg_cong [OF r(2), of length] by (auto simp: EHDR_SIZE_def)
    obtain s' ok q where p: "load_phdrs s1 f (sint (e_phoff (ehdr_of bs))) (e_phnum (ehdr_of bs)) = Some (Inr (s', ok))"
      "loading s' f cs q" "pagedir s' = pagedir s" "keeps s1 s'"
      "ok \<longrightarrow> (\<forall>j < e_phnum (ehdr_of bs). header_done s' cs (header_at cs (nat (sint (e_phoff (ehdr_of bs))) + 32 * j)))"
      using load_phdrs_ok [OF l1] k1(2) by metis
    have "load_file s f = Some (Inr (s', if ok then Some (e_entry (ehdr_of bs)) else None))"
      using True r(1) p(1) by (simp add: load_file_def EHDR_SIZE_def s1_def Let_def)
    then show ?thesis using p(2,3,5) keeps_trans [OF k1(1) p(4)] True unfolding bs(1) using bs(2)
      by (intro exI [of _ s'] exI [of _ "if ok then _ else _"] exI [of _ q]) auto
  qed
qed

section \<open>Properties\<close>

text \<open>
  C21. Bounds of a segment: when \<^verbatim>\<open>validate_segment\<close> accepts a header, the numbers that \<^verbatim>\<open>load\<close> computes
  from it satisfy the assertions of \<^verbatim>\<open>load_segment\<close> without any wrap-around: the first page is aligned and
  is not page 0, the bytes to read and to clear add up to whole pages that end at or below
  \<^verbatim>\<open>PHYS_BASE\<close>, the pages cover the segment, and the offset in the file is aligned and not negative.
\<close>

theorem validate_segment_bounds:
  assumes "reading s f cs p" "validate_segment s ph f = Inr True"
  shows "pg_ofs (seg_start ph) = 0 \<and> PGSIZE \<le> seg_start ph \<and>
    unat (fst (segment_bytes ph)) + unat (snd (segment_bytes ph)) = 4096 * seg_pages ph \<and>
    unat (seg_start ph) + 4096 * seg_pages ph \<le> unat PHYS_BASE \<and>
    seg_start ph \<le> p_vaddr ph \<and> unat (p_vaddr ph) + unat (p_memsz ph) \<le> unat (seg_start ph) + 4096 * seg_pages ph \<and>
    0 \<le> sint (p_offset ph AND NOT PGMASK) \<and> sint (p_offset ph AND NOT PGMASK) mod 4096 = 0"
proof -
  have v: "unat (p_offset ph) \<le> length cs" "unat (p_filesz ph) \<le> unat (p_memsz ph)"
    "unat (p_vaddr ph) + unat (p_memsz ph) < unat PHYS_BASE" "4096 \<le> unat (p_vaddr ph)"
    using assms(2) validate_segment_iff [OF assms(1), of ph] by simp_all
  show ?thesis using segment_geometry [OF v(2,3,4)] seg_offset [OF assms(1) v(1)]
    by (simp add: word_le_nat_alt layout minus_mod_eq_mult_div zmod_int [symmetric])
qed

text \<open>A small executable: one header, and four bytes of code after it.\<close>

definition ex_elf :: "u8 list" where
  "ex_elf = [0x7f, 0x45, 0x4c, 0x46, 1, 1, 1] @ replicate 9 0 @ [2, 0, 3, 0, 1, 0, 0, 0, 0x54, 0x80, 4, 8, 52, 0, 0, 0] @ replicate 8 0 @
     [52, 0, 32, 0, 1, 0, 0, 0, 0, 0, 0, 0] @
     [1, 0, 0, 0, 0, 0, 0, 0, 0, 0x80, 4, 8, 0, 0x80, 4, 8, 88, 0, 0, 0, 96, 0, 0, 0, 5, 0, 0, 0, 0, 16, 0, 0] @ replicate 4 0x90"

definition ex_load :: proc where
  "ex_load = ex_proc\<lparr>fsys := ex_fs\<lparr>disk := (\<lambda>_. replicate 512 0)(5 := ex_elf @ replicate 424 0),
     inodes := [100 \<mapsto> \<lparr>sector = 4, open_cnt = 1, removed = False,
       data = \<lparr>start = 5, len = 88, imagic = INODE_MAGIC\<rparr>, deny_write_cnt = 0\<rparr>],
     files := [150 \<mapsto> \<lparr>finode = 100, pos = 0, deny_write = False\<rparr>]\<rparr>\<rparr>"

lemma length_ex_elf [simp]: "length ex_elf = 88" by (simp add: ex_elf_def)

lemma ex_load_ok: "loading ex_load 150 ex_elf 0"
proof -
  have pd: "pd_ok ex_vm 0xc0101000" "0xc0101000 \<noteq> base_page_dir ex_vm" using ex_vm_ok by (simp_all add: space_ok_def)
  have "frames ex_vm 0xc0101000 = {}" by (simp add: frames_def pte_at_def pde_at_def ex_vm_words)
  then have as: "as_ok ex_vm 0xc0101000"
    using pd by (simp add: as_ok_def) (simp add: ex_vm_def ex_palloc_def first_page_def pg_no_def PGBITS_def)
  define d where "d = \<lparr>start = 5, len = 88, imagic = INODE_MAGIC\<rparr>"
  have "contents (fsys ex_load) d = ex_elf"
    by (rule nth_equalityI) (simp_all add: contents_def byte_def ex_load_def d_def nth_append)
  then have "reading (fsys ex_load) 150 ex_elf 0"
    by (simp add: reading_def disk_ok_def extent_ok_def bytes_to_sectors_nat d_def) (simp add: ex_load_def ex_fs_def NULL_def bytes_to_sectors_nat)
  then show ?thesis using as by (simp add: loading_def ex_load_def ex_proc_def)
qed

definition ex_phdr :: Elf32_Phdr where
  "ex_phdr = \<lparr>p_type = 1, p_offset = 0, p_vaddr = 0x8048000, p_paddr = 0x8048000, p_filesz = 88, p_memsz = 96, p_flags = 5, p_align = 0x1000\<rparr>"

theorem validate_segment_bounds_witness:
  "seg_start ex_phdr = 0x8048000 \<and> seg_pages ex_phdr = 1 \<and>
   unat (fst (segment_bytes ex_phdr)) + unat (snd (segment_bytes ex_phdr)) = 4096 * seg_pages ex_phdr"
proof -
  have r: "reading (fsys ex_load) 150 ex_elf 0" using ex_load_ok by (simp add: loading_def)
  have "validate_segment (fsys ex_load) ex_phdr 150 = Inr True"
    using validate_segment_iff [OF r, of ex_phdr] by (simp add: ex_phdr_def pg_ofs_def layout)
  from validate_segment_bounds [OF r this] show ?thesis by (simp add: ex_phdr_def seg_start_def seg_pages_def layout)
qed

text \<open>
  C4. Loading an executable: for every content of the file, \<^verbatim>\<open>load\<close>'s reading of it returns without a
  failed assertion, keeps the page tables well-formed and leaves every byte that was mapped before
  as it was. When it succeeds, the file begins with a valid ELF header, whose entry point it returns;
  no program header is of a kind that is refused; and for each loadable segment, which lies between
  page 0 and \<^verbatim>\<open>PHYS_BASE\<close>, the process sees at the segment's addresses the bytes of the file followed by
  zeros up to the size in memory.
\<close>

theorem load_file_correct:
  assumes "loading s f cs 0"
  shows "\<exists>s' entry q. load_file s f = Some (Inr (s', entry)) \<and> loading s' f cs q \<and> keeps s s' \<and>
    (\<forall>a. entry = Some a \<longrightarrow> EHDR_SIZE \<le> length cs \<and> ehdr_valid (ehdr_of (take EHDR_SIZE cs)) \<and> a = e_entry (ehdr_of (take EHDR_SIZE cs)) \<and>
      (\<forall>j < e_phnum (ehdr_of (take EHDR_SIZE cs)).
        header_done s' cs (header_at cs (nat (sint (e_phoff (ehdr_of (take EHDR_SIZE cs)))) + 32 * j))))"
  using load_file_ok [OF assms] by blast

theorem load_file_correct_witness:
  "\<exists>s' entry. load_file ex_load 150 = Some (Inr (s', entry)) \<and>
     (entry \<noteq> None \<longrightarrow> entry = Some 0x8048054 \<and> seen s' 0x8048054 = Some 0x90 \<and> seen s' 0x8048058 = Some 0)"
proof -
  define eh where "eh = ehdr_of (take EHDR_SIZE ex_elf)"
  have e: "e_entry eh = 0x8048054" "e_phnum eh = 1" "e_phoff eh = 52"
    by (simp_all add: eh_def ehdr_of_def ex_elf_def EHDR_SIZE_def word32_at_def de32_def de16_def)
  have h: "header_at ex_elf 52 = ex_phdr"
    by (simp add: header_at_def phdr_of_def ex_phdr_def ex_elf_def PHDR_SIZE_def word32_at_def de32_def)
  obtain s' entry where l: "load_file ex_load 150 = Some (Inr (s', entry))"
    "\<And>a. entry = Some a \<Longrightarrow> a = e_entry eh \<and> (\<forall>j < e_phnum eh. header_done s' ex_elf (header_at ex_elf (nat (sint (e_phoff eh)) + 32 * j)))"
    using load_file_correct [OF ex_load_ok] unfolding eh_def [symmetric] by blast
  have "seen s' 0x8048054 = Some 0x90 \<and> seen s' 0x8048058 = Some 0" if "entry = Some a" for a
  proof -
    have "seg_loaded s' ex_elf ex_phdr" using l(2) [OF that] e h by (simp add: header_done_def ex_phdr_def PT_LOAD_def)
    then have "\<forall>i < 96. seen s' (0x8048000 + of_nat i) = Some (if i < 88 then ex_elf ! i else 0)" by (simp add: seg_loaded_def ex_phdr_def)
    from this [THEN spec, of 84] this [THEN spec, of 88] show ?thesis by (simp add: ex_elf_def nth_append)
  qed
  then show ?thesis using l e(1) by auto
qed



end
