(* ===== verification/ProcessRel.thy ===== *)
theory ProcessRel
  imports Prelude
begin

text \<open>
  Parents and children (\<^verbatim>\<open>userprog/process.c\<close>: \<^verbatim>\<open>process_execute\<close>, \<^verbatim>\<open>start_process\<close>, \<^verbatim>\<open>process_wait\<close>,
  \<^verbatim>\<open>process_exit\<close>; the relations made in \<^verbatim>\<open>thread_create\<close>): how the exit status of a child reaches its
  parent and when the structure they share is freed.

  Threads may be preempted between any two steps of this file, so that the calls are programs with
  a place for each access to shared data. What a lock protects is one step. The semaphore on which
  a parent waits for the loading of a child is fresh for this child: it is the result of loading,
  which is not there yet while the child is at \<open>P_new\<close>. A thread is named by its identifier.
\<close>

section \<open>State\<close>

text \<open>\<^verbatim>\<open>struct thread_relation\<close>; \<open>rel_freed\<close> says that its memory was given back.\<close>

record thread_relation =
  parent_alive :: bool
  p_sema :: nat
  alive_count :: int
  awaited_tid :: int
  return_list :: "(nat \<times> int) list"
  rel_freed :: bool

text \<open>Where a thread is: in user code or the call it is in.\<close>

datatype place =
    P_new              \<comment> \<open>\<^verbatim>\<open>start_process\<close>, before \<^verbatim>\<open>load\<close> returns\<close>
  | P_run
  | E_down nat         \<comment> \<open>\<^verbatim>\<open>process_execute\<close>, at \<^verbatim>\<open>sema_down (p_sp)\<close>\<close>
  | W_await nat        \<comment> \<open>\<^verbatim>\<open>process_wait\<close>, the child found in the list of children\<close>
  | W_empty nat
  | W_scan nat
  | W_down nat
  | W_rescan nat
  | X_push             \<comment> \<open>\<^verbatim>\<open>process_exit\<close>\<close>
  | X_test
  | X_up
  | X_own
  | X_parent
  | P_done

record pthread =
  ptid :: "nat option"          \<comment> \<open>whose child relation is the parent relation of the thread\<close>
  at :: place
  children_tids :: "nat list"
  exit_status :: int            \<comment> \<open>\<^verbatim>\<open>ret_status\<close>\<close>
  c_status :: "bool option"     \<comment> \<open>the result of loading, once there is one\<close>
  answer :: "int option"        \<comment> \<open>what the last call returned\<close>

record family =
  thr :: "nat \<Rightarrow> pthread option"
  c_rel :: "nat \<Rightarrow> thread_relation"

definition set_thr :: "nat \<Rightarrow> (pthread \<Rightarrow> pthread) \<Rightarrow> family \<Rightarrow> family" where
  "set_thr t g s = s\<lparr>thr := (thr s)(t := map_option g (thr s t))\<rparr>"

definition goto_place :: "nat \<Rightarrow> place \<Rightarrow> family \<Rightarrow> family" where
  "goto_place t p = set_thr t (\<lambda>x. x\<lparr>at := p\<rparr>)"

definition return_value :: "nat \<Rightarrow> int \<Rightarrow> family \<Rightarrow> family" where
  "return_value t v = set_thr t (\<lambda>x. x\<lparr>at := P_run, answer := Some v\<rparr>)"

text \<open>An access to a relation: it must not be freed.\<close>

definition with_rel :: "family \<Rightarrow> nat \<Rightarrow> (thread_relation \<Rightarrow> 'a outcome) \<Rightarrow> 'a outcome" where
  "with_rel s r g = (if rel_freed (c_rel s r) then Inl Bad_access else g (c_rel s r))"

definition set_rel :: "nat \<Rightarrow> (thread_relation \<Rightarrow> thread_relation) \<Rightarrow> family \<Rightarrow> family" where
  "set_rel r g s = s\<lparr>c_rel := (c_rel s)(r := g (c_rel s r))\<rparr>"

section \<open>The calls\<close>

text \<open>The relation that \<^verbatim>\<open>thread_create\<close> makes for a new thread; nobody sets \<^verbatim>\<open>awaited_tid\<close>.\<close>

definition new_relation :: "int \<Rightarrow> thread_relation" where
  "new_relation garbage = \<lparr>parent_alive = True, p_sema = 0, alive_count = 1, awaited_tid = garbage, return_list = [], rel_freed = False\<rparr>"

definition new_thread :: "nat \<Rightarrow> pthread" where
  "new_thread t = \<lparr>ptid = Some t, at = P_new, children_tids = [], exit_status = 0, c_status = None, answer = None\<rparr>"

text \<open>What a thread in user code calls, what loading gives, and going on.\<close>

datatype call = Execute nat int | Wait nat | Exit int | Loaded bool | Go

definition process_execute :: "nat \<Rightarrow> nat \<Rightarrow> int \<Rightarrow> family \<Rightarrow> family" where
  "process_execute t c garbage s =
     goto_place t (E_down c) (s\<lparr>thr := (thr s)(c \<mapsto> new_thread t), c_rel := (c_rel s)(c := new_relation garbage)\<rparr>)"

definition execute_return :: "nat \<Rightarrow> nat \<Rightarrow> bool \<Rightarrow> family \<Rightarrow> family" where
  "execute_return t c ok s =
     (if ok then return_value t (int c) (set_thr t (\<lambda>x. x\<lparr>children_tids := children_tids x @ [c]\<rparr>) s)
      else return_value t (-1) s)"

definition start_process :: "nat \<Rightarrow> nat \<Rightarrow> bool \<Rightarrow> family \<Rightarrow> family outcome" where
  "start_process t p ok s =
     with_rel s p (\<lambda>r. Inr (set_thr t (\<lambda>x. if ok then x\<lparr>c_status := Some True, at := P_run\<rparr>
                                        else x\<lparr>c_status := Some False, exit_status := -1, at := X_push\<rparr>)
                            (set_rel p (\<lambda>r. r\<lparr>alive_count := alive_count r + 1\<rparr>) s)))"

definition process_wait :: "nat \<Rightarrow> pthread \<Rightarrow> nat \<Rightarrow> family \<Rightarrow> family" where
  "process_wait t x c s =
     (if c \<notin> set (children_tids x) then return_value t (-1) s
      else goto_place t (W_await c) (set_thr t (\<lambda>x. x\<lparr>children_tids := remove1 c (children_tids x)\<rparr>) s))"

text \<open>
  The rest of \<^verbatim>\<open>process_wait\<close>. When the second search does not find the child, \<open>returned_child\<close> is
  left at the last entry, or has no value when the list is empty.
\<close>

definition wait_step :: "nat \<Rightarrow> place \<Rightarrow> family \<Rightarrow> family outcome option" where
  "wait_step t p s = (case p of
     W_await c \<Rightarrow> Some (with_rel s t (\<lambda>r. Inr (goto_place t (W_empty c) (set_rel t (\<lambda>r. r\<lparr>awaited_tid := int c\<rparr>) s))))
   | W_empty c \<Rightarrow> Some (with_rel s t (\<lambda>r. Inr (goto_place t (if return_list r = [] then W_down c else W_scan c) s)))
   | W_scan c \<Rightarrow> Some (with_rel s t (\<lambda>r. Inr (case map_of (return_list r) c of
       Some v \<Rightarrow> return_value t v s
     | None \<Rightarrow> goto_place t (W_down c) s)))
   | W_down c \<Rightarrow> (if \<not> rel_freed (c_rel s t) \<and> p_sema (c_rel s t) = 0 then None
       else Some (with_rel s t (\<lambda>r. Inr (goto_place t (W_rescan c) (set_rel t (\<lambda>r. r\<lparr>p_sema := p_sema r - 1\<rparr>) s)))))
   | W_rescan c \<Rightarrow> Some (with_rel s t (\<lambda>r. case map_of (return_list r) c of
       Some v \<Rightarrow> Inr (return_value t v s)
     | None \<Rightarrow> if return_list r = [] then Inl Bad_access else Inr (return_value t (snd (last (return_list r))) s)))
   | _ \<Rightarrow> None)"

text \<open>Taking one user off a relation; the last one frees it.\<close>

definition drop_relation :: "nat \<Rightarrow> family \<Rightarrow> family outcome" where
  "drop_relation r s = with_rel s r (\<lambda>x.
     Inr (set_rel r (\<lambda>x. x\<lparr>alive_count := alive_count x - 1, rel_freed := (alive_count x - 1 = 0)\<rparr>) s))"

definition exit_step :: "nat \<Rightarrow> pthread \<Rightarrow> place \<Rightarrow> family \<Rightarrow> family outcome option" where
  "exit_step t x p s = (case ptid x of None \<Rightarrow> Some (Inl Bad_access) | Some q \<Rightarrow> (case p of
     X_push \<Rightarrow> Some (with_rel s q (\<lambda>r. Inr (if parent_alive r
         then goto_place t X_test (set_rel q (\<lambda>r. r\<lparr>return_list := return_list r @ [(t, exit_status x)]\<rparr>) s)
         else goto_place t X_own s)))
   | X_test \<Rightarrow> Some (with_rel s q (\<lambda>r. Inr (goto_place t (if int t = awaited_tid r then X_up else X_own) s)))
   | X_up \<Rightarrow> Some (with_rel s q (\<lambda>r. Inr (goto_place t X_own (set_rel q (\<lambda>r. r\<lparr>p_sema := p_sema r + 1\<rparr>) s))))
   | X_own \<Rightarrow> Some (kbind (drop_relation t s) (\<lambda>s. Inr (goto_place t X_parent s)))
   | X_parent \<Rightarrow> Some (kbind (drop_relation q s) (\<lambda>s. Inr (goto_place t P_done s)))
   | _ \<Rightarrow> None))"

text \<open>One step of thread \<open>t\<close>; no result when it cannot go on.\<close>

definition family_step :: "nat \<Rightarrow> call \<Rightarrow> family \<Rightarrow> family outcome option" where
  "family_step t a s = (case thr s t of None \<Rightarrow> None | Some x \<Rightarrow> (case at x of
     P_new \<Rightarrow> (case (a, ptid x) of (Loaded ok, Some p) \<Rightarrow> Some (start_process t p ok s) | _ \<Rightarrow> None)
   | P_run \<Rightarrow> (case a of
       Execute c garbage \<Rightarrow> (if thr s c = None then Some (Inr (process_execute t c garbage s)) else None)
     | Wait c \<Rightarrow> Some (Inr (process_wait t x c s))
     | Exit v \<Rightarrow> (if ptid x = None then None else Some (Inr (set_thr t (\<lambda>x. x\<lparr>exit_status := v, at := X_push\<rparr>) s)))
     | _ \<Rightarrow> None)
   | E_down c \<Rightarrow> (if a = Go then (case thr s c of
         Some y \<Rightarrow> (case c_status y of None \<Rightarrow> None | Some ok \<Rightarrow> Some (Inr (execute_return t c ok s)))
       | None \<Rightarrow> None) else None)
   | P_done \<Rightarrow> None
   | p \<Rightarrow> (if a \<noteq> Go then None
           else if p \<in> {X_push, X_test, X_up, X_own, X_parent} then exit_step t x p s else wait_step t p s)))"

text \<open>The first process has no parent and never exits: the machine is switched off instead.\<close>

definition first_process :: "int \<Rightarrow> family" where
  "first_process garbage = \<lparr>thr = [0 \<mapsto> \<lparr>ptid = None, at = P_run, children_tids = [], exit_status = 0, c_status = None, answer = None\<rparr>],
     c_rel = (\<lambda>_. new_relation garbage)\<rparr>"

inductive family_run :: "family \<Rightarrow> family \<Rightarrow> bool" where
  refl: "family_run s s"
| step: "family_run s s' \<Longrightarrow> family_step t a s' = Some (Inr s'') \<Longrightarrow> family_run s s''"

text \<open>A run given by the threads that move and what they do.\<close>

fun steps :: "family \<Rightarrow> (nat \<times> call) list \<Rightarrow> family option" where
  "steps s [] = Some s"
| "steps s ((t, a) # as) = (case family_step t a s of Some (Inr s') \<Rightarrow> steps s' as | _ \<Rightarrow> None)"

section \<open>The transitions one by one\<close>

lemmas moves = set_thr_def goto_place_def return_value_def set_rel_def

lemma family_step_cases:
  assumes "family_step t a s = Some r"
  obtains (load) x p ok where "thr s t = Some x" "at x = P_new" "ptid x = Some p" "r = start_process t p ok s"
  | (execute) x c g where "thr s t = Some x" "at x = P_run" "thr s c = None" "r = Inr (process_execute t c g s)"
  | (wait) x c where "thr s t = Some x" "at x = P_run" "r = Inr (process_wait t x c s)"
  | (exit) x v where "thr s t = Some x" "at x = P_run" "ptid x \<noteq> None" "r = Inr (set_thr t (\<lambda>x. x\<lparr>exit_status := v, at := X_push\<rparr>) s)"
  | (executed) x c y ok where "thr s t = Some x" "at x = E_down c" "thr s c = Some y" "c_status y = Some ok" "r = Inr (execute_return t c ok s)"
  | (waits) x where "thr s t = Some x" "wait_step t (at x) s = Some r"
  | (exits) x where "thr s t = Some x" "exit_step t x (at x) s = Some r" "at x \<in> {X_push, X_test, X_up, X_own, X_parent}"
proof -
  obtain x where x: "thr s t = Some x" using assms by (auto simp: family_step_def split: option.splits)
  note st = assms [unfolded family_step_def x]
  show thesis
  proof (cases "at x")
    case P_new
    then show thesis using st x by (auto split: call.splits option.splits intro: load)
  next
    case P_run
    then show thesis using st x by (auto split: call.splits option.splits if_splits intro: execute wait exit)
  next
    case (E_down c)
    then show thesis using st x by (auto split: option.splits if_splits intro: executed)
  qed (use st x in \<open>auto split: if_splits intro: waits exits\<close>)
qed

lemma wait_step_cases:
  assumes "wait_step t p s = Some r"
  obtains (await) c where "p = W_await c" "r = with_rel s t (\<lambda>r. Inr (goto_place t (W_empty c) (set_rel t (\<lambda>r. r\<lparr>awaited_tid := int c\<rparr>) s)))"
  | (empty) c where "p = W_empty c" "r = with_rel s t (\<lambda>r. Inr (goto_place t (if return_list r = [] then W_down c else W_scan c) s))"
  | (found) c v where "p = W_scan c" "map_of (return_list (c_rel s t)) c = Some v" "r = with_rel s t (\<lambda>r. Inr (return_value t v s))"
  | (missing) c where "p = W_scan c" "map_of (return_list (c_rel s t)) c = None" "r = with_rel s t (\<lambda>r. Inr (goto_place t (W_down c) s))"
  | (down) c where "p = W_down c" "rel_freed (c_rel s t) \<or> 0 < p_sema (c_rel s t)"
      "r = with_rel s t (\<lambda>r. Inr (goto_place t (W_rescan c) (set_rel t (\<lambda>r. r\<lparr>p_sema := p_sema r - 1\<rparr>) s)))"
  | (rescan) c where "p = W_rescan c" "r = with_rel s t (\<lambda>r. case map_of (return_list r) c of
       Some v \<Rightarrow> Inr (return_value t v s)
     | None \<Rightarrow> if return_list r = [] then Inl Bad_access else Inr (return_value t (snd (last (return_list r))) s))"
  using assms unfolding wait_step_def with_rel_def
  by (cases p) (auto split: option.splits if_splits simp: with_rel_def)

section \<open>Invariant\<close>

fun pushed :: "place \<Rightarrow> bool" where
  "pushed p = (p \<in> {X_test, X_up, X_own, X_parent, P_done})"

text \<open>The places at which a thread still uses its own and its parent's relation.\<close>

definition holds_own :: "place \<Rightarrow> bool" where
  "holds_own p \<longleftrightarrow> p \<noteq> X_parent \<and> p \<noteq> P_done"

definition holds_parent :: "place \<Rightarrow> bool" where
  "holds_parent p \<longleftrightarrow> p \<noteq> P_new \<and> p \<noteq> P_done"

definition users :: "family \<Rightarrow> nat \<Rightarrow> nat set" where
  "users s p = {c. \<exists>y. thr s c = Some y \<and> ptid y = Some p \<and> holds_parent (at y)}"

definition returned :: "family \<Rightarrow> nat \<Rightarrow> (nat \<times> int) set" where
  "returned s p = {(c, exit_status y) |c y. thr s c = Some y \<and> ptid y = Some p \<and> pushed (at y)}"

text \<open>The relation of thread \<open>p\<close> counts its users and is freed when there are none.\<close>

definition counted :: "family \<Rightarrow> nat \<Rightarrow> bool" where
  "counted s p \<longleftrightarrow> (\<forall>x. thr s p = Some x \<longrightarrow>
     alive_count (c_rel s p) = int (card (users s p)) + (if holds_own (at x) then 1 else 0) \<and>
     rel_freed (c_rel s p) = (alive_count (c_rel s p) = 0) \<and> parent_alive (c_rel s p))"

definition tree_ok :: "family \<Rightarrow> bool" where
  "tree_ok s \<longleftrightarrow> finite (dom (thr s)) \<and> (\<forall>t. counted s t) \<and>
     (\<forall>t x p. thr s t = Some x \<and> ptid x = Some p \<longrightarrow> p \<noteq> t \<and> thr s p \<noteq> None) \<and>
     (\<forall>t x. thr s t = Some x \<and> at x = P_new \<longrightarrow> c_status x = None \<and> (\<exists>p y. ptid x = Some p \<and> thr s p = Some y \<and> at y = E_down t)) \<and>
     (\<forall>t x. thr s t = Some x \<and> ptid x = None \<longrightarrow> holds_own (at x) \<and> at x \<notin> {X_push, X_test, X_up, X_own})"

lemma finite_users: "finite (dom (thr s)) \<Longrightarrow> finite (users s p)"
  by (rule finite_subset) (auto simp: users_def)

lemma users_set_thr:
  assumes "thr s t = Some x" "ptid (g x) = ptid x"
  shows "users (set_thr t g s) p = (if ptid x = Some p then if holds_parent (at (g x)) then insert t (users s p) else users s p - {t} else users s p)"
  using assms by (auto simp: users_def set_thr_def split: if_splits)

lemma users_set_rel [simp]: "users (set_rel r g s) p = users s p"
  by (simp add: users_def set_rel_def)

lemma thr_set_rel [simp]: "thr (set_rel r g s) = thr s"
  by (simp add: set_rel_def)

lemma c_rel_set_thr [simp]: "c_rel (set_thr t g s) = c_rel s"
  by (simp add: set_thr_def)

lemma c_rel_set_rel [simp]: "c_rel (set_rel r g s) = (c_rel s)(r := g (c_rel s r))"
  by (simp add: set_rel_def)

lemma thr_set_thr: "thr (set_thr t g s) = (thr s)(t := map_option g (thr s t))"
  by (simp add: set_thr_def)

text \<open>A move that neither takes nor gives up a relation.\<close>

definition same_counts :: "family \<Rightarrow> family \<Rightarrow> bool" where
  "same_counts s s' \<longleftrightarrow> (\<forall>p. alive_count (c_rel s' p) = alive_count (c_rel s p) \<and> rel_freed (c_rel s' p) = rel_freed (c_rel s p) \<and>
     parent_alive (c_rel s' p) = parent_alive (c_rel s p))"

lemma tree_move:
  assumes "tree_ok s" "thr s t = Some x" "thr s' = (thr s)(t \<mapsto> x')" "ptid x' = ptid x" "\<And>p. counted s' p" "at x' \<noteq> P_new"
    "\<And>c y. at x = E_down c \<Longrightarrow> thr s c = Some y \<Longrightarrow> at y \<noteq> P_new"
    "ptid x = None \<Longrightarrow> holds_own (at x') \<and> at x' \<notin> {X_push, X_test, X_up, X_own}"
  shows "tree_ok s'"
proof -
  have new: "c_status y = None \<and> (\<exists>p z. ptid y = Some p \<and> thr s' p = Some z \<and> at z = E_down u)"
    if y: "thr s' u = Some y" "at y = P_new" for u y
  proof -
    have u: "u \<noteq> t" "thr s u = Some y" using y assms(3,6) by (auto split: if_splits)
    then obtain p z where z: "c_status y = None" "ptid y = Some p" "thr s p = Some z" "at z = E_down u"
      using assms(1) y(2) unfolding tree_ok_def by blast
    have "p \<noteq> t" using z assms(2,7) u(2) y(2) by auto
    then show ?thesis using z assms(3) by auto
  qed
  show ?thesis unfolding tree_ok_def
  proof (intro conjI allI impI)
    show "finite (dom (thr s'))" using assms(1,3) by (simp add: tree_ok_def)
    show "counted s' p" for p by (rule assms(5))
  next
    fix u y p assume "thr s' u = Some y \<and> ptid y = Some p"
    then show "p \<noteq> u" "thr s' p \<noteq> None" using assms(1-4) unfolding tree_ok_def by (auto split: if_splits)
  next
    fix u y assume "thr s' u = Some y \<and> at y = P_new"
    then show "c_status y = None" "\<exists>p z. ptid y = Some p \<and> thr s' p = Some z \<and> at z = E_down u" using new by blast+
  next
    fix u y assume "thr s' u = Some y \<and> ptid y = None"
    then show "holds_own (at y)" "at y \<notin> {X_push, X_test, X_up, X_own}"
      using assms(1-4,8) unfolding tree_ok_def by (auto split: if_splits)
  qed
qed

lemma tree_quiet:
  assumes "tree_ok s" "thr s t = Some x" "thr s' = (thr s)(t \<mapsto> x')" "ptid x' = ptid x" "same_counts s s'"
    "holds_own (at x)" "holds_own (at x')" "holds_parent (at x)" "holds_parent (at x')"
    "\<And>c y. at x = E_down c \<Longrightarrow> thr s c = Some y \<Longrightarrow> at y \<noteq> P_new"
    "ptid x = None \<Longrightarrow> at x' \<notin> {X_push, X_test, X_up, X_own}"
  shows "tree_ok s'"
proof (rule tree_move [OF assms(1-4) _ _ assms(10)])
  have "users s' p = users s p" for p
    using assms(2-4,8,9) by (auto simp: users_def split: if_splits)
  then show "counted s' p" for p
    using assms(1-3,5-7) unfolding tree_ok_def counted_def same_counts_def by (cases "p = t") auto
  show "at x' \<noteq> P_new" using assms(9) by (simp add: holds_parent_def)
  show "holds_own (at x') \<and> at x' \<notin> {X_push, X_test, X_up, X_own}" if "ptid x = None" using assms(7,11) that by blast
qed simp_all

text \<open>A relation that a thread still uses is not freed.\<close>

lemma own_live: "tree_ok s \<Longrightarrow> thr s t = Some x \<Longrightarrow> holds_own (at x) \<Longrightarrow> \<not> rel_freed (c_rel s t)"
  unfolding tree_ok_def counted_def by fastforce

lemma parent_live:
  assumes "tree_ok s" "thr s t = Some x" "ptid x = Some p" "at x \<noteq> P_done"
  shows "\<not> rel_freed (c_rel s p)" "parent_alive (c_rel s p)" "p \<noteq> t"
proof -
  obtain y where y: "thr s p = Some y" "p \<noteq> t" using assms(1-3) unfolding tree_ok_def by fastforce
  have c: "counted s p" using assms(1) by (simp add: tree_ok_def)
  show "p \<noteq> t" "parent_alive (c_rel s p)" using y c by (auto simp: counted_def)
  show "\<not> rel_freed (c_rel s p)"
  proof (cases "at x = P_new")
    case True
    then have "at y = E_down t" using assms(1-3) y(1) unfolding tree_ok_def by fastforce
    then show ?thesis using own_live [OF assms(1) y(1)] by (simp add: holds_own_def)
  next
    case False
    then have "t \<in> users s p" using assms(2-4) by (auto simp: users_def holds_parent_def)
    moreover have "finite (users s p)" using assms(1) finite_users by (simp add: tree_ok_def)
    ultimately have "card (users s p) \<noteq> 0" by auto
    then show ?thesis using c y(1) by (simp add: counted_def)
  qed
qed

lemma tree_counted: "tree_ok s \<Longrightarrow> counted s q"
  by (simp add: tree_ok_def)

lemma tree_parent: "tree_ok s \<Longrightarrow> thr s t = Some x \<Longrightarrow> ptid x = Some p \<Longrightarrow> p \<noteq> t \<and> (\<exists>y. thr s p = Some y)"
  unfolding tree_ok_def by fast

lemma tree_load:
  assumes "tree_ok s" "thr s t = Some x" "at x = P_new" "ptid x = Some p"
  shows "\<exists>s'. start_process t p ok s = Inr s' \<and> tree_ok s'"
proof -
  note pl = parent_live [OF assms(1,2,4), unfolded assms(3), simplified]
  define g :: "pthread \<Rightarrow> pthread" where "g = (\<lambda>x. if ok then x\<lparr>c_status := Some True, at := P_run\<rparr> else x\<lparr>c_status := Some False, exit_status := -1, at := X_push\<rparr>)"
  define s' where "s' = set_thr t g (set_rel p (\<lambda>r. r\<lparr>alive_count := alive_count r + 1\<rparr>) s)"
  define x' where "x' = g x"
  have s': "start_process t p ok s = Inr s'" "thr s' = (thr s)(t \<mapsto> x')"
    "c_rel s' = (c_rel s)(p := (c_rel s p)\<lparr>alive_count := alive_count (c_rel s p) + 1\<rparr>)"
    using pl(1) assms(2) by (simp_all add: start_process_def with_rel_def s'_def g_def [symmetric] x'_def thr_set_thr)
  have x': "ptid x' = ptid x" "at x' \<noteq> P_new" "holds_own (at x')" "holds_parent (at x')" by (simp_all add: x'_def g_def holds_own_def holds_parent_def)
  have us: "users s' q = (if q = p then insert t (users s p) else users s q)" "t \<notin> users s q" for q
    using assms(2-4) s'(2) x' by (auto simp: users_def holds_parent_def split: if_splits)
  have fin: "finite (users s p)" using assms(1) finite_users by (simp add: tree_ok_def)
  have "counted s' q" for q
    using tree_counted [OF assms(1), of q] assms(2,3) s'(2,3) x'(3) us [of q] us(2) [of p] fin pl
    by (cases "q = p"; cases "q = t") (auto simp: counted_def holds_own_def)
  then have "tree_ok s'" using tree_move [OF assms(1,2) s'(2) x'(1)] x'(2) assms(3,4) by simp
  then show ?thesis using s'(1) by blast
qed

lemma tree_execute:
  assumes "tree_ok s" "thr s t = Some x" "at x = P_run" "thr s c = None"
  shows "tree_ok (process_execute t c g s)"
proof -
  define s' where "s' = process_execute t c g s"
  have ct: "c \<noteq> t" using assms(2,4) by auto
  have s': "thr s' = (thr s)(c \<mapsto> new_thread t, t \<mapsto> x\<lparr>at := E_down c\<rparr>)" "c_rel s' = (c_rel s)(c := new_relation g)"
    using assms(2) ct by (simp_all add: s'_def process_execute_def moves fun_upd_twist)
  have np: "ptid y \<noteq> Some c" if "thr s u = Some y" for u y using assms(1,4) that unfolding tree_ok_def by blast
  have us: "users s' q = users s q" for q
    using assms(2,3) s'(1) ct assms(4) by (auto simp: users_def holds_parent_def new_thread_def split: if_splits)
  have "users s c = {}" using np by (auto simp: users_def)
  then have "counted s' q" for q
    using tree_counted [OF assms(1), of q] assms(2-4) s' ct us [of q]
    by (cases "q = t"; cases "q = c") (auto simp: counted_def holds_own_def new_relation_def new_thread_def)
  moreover have "\<exists>p z. ptid y = Some p \<and> thr s' p = Some z \<and> at z = E_down u" "c_status y = None"
    if y: "thr s' u = Some y" "at y = P_new" for u y
  proof -
    have "u \<noteq> t" using y s'(1) by auto
    then have "u = c \<and> y = new_thread t \<or> u \<noteq> c \<and> thr s u = Some y" using y(1) s'(1) by (auto split: if_splits)
    then have "c_status y = None \<and> (\<exists>p z. ptid y = Some p \<and> thr s' p = Some z \<and> at z = E_down u)"
    proof (elim disjE conjE)
      assume u: "u \<noteq> c" "thr s u = Some y"
      then obtain p z where z: "c_status y = None" "ptid y = Some p" "thr s p = Some z" "at z = E_down u"
        using assms(1) y(2) unfolding tree_ok_def by blast
      have "p \<noteq> t" "p \<noteq> c" using z assms(2-4) by auto
      then show ?thesis using z s'(1) by auto
    qed (use s'(1) ct in \<open>auto simp: new_thread_def\<close>)
    then show "\<exists>p z. ptid y = Some p \<and> thr s' p = Some z \<and> at z = E_down u" "c_status y = None" by blast+
  qed
  moreover have "p \<noteq> u \<and> thr s' p \<noteq> None" if "thr s' u = Some y" "ptid y = Some p" for u y p
    using that tree_parent [OF assms(1), of u y p] tree_parent [OF assms(1,2), of p] assms(2) s'(1) ct
    by (auto simp: new_thread_def split: if_splits)
  moreover have "holds_own (at y) \<and> at y \<notin> {X_push, X_test, X_up, X_own}" if "thr s' u = Some y" "ptid y = None" for u y
    using that assms(1,2,4) s'(1) ct unfolding tree_ok_def by (auto simp: new_thread_def holds_own_def split: if_splits)
  moreover have "finite (dom (thr s'))" using assms(1) s'(1) by (simp add: tree_ok_def)
  ultimately show ?thesis unfolding tree_ok_def s'_def [symmetric] by blast
qed

lemma tree_exits:
  assumes "tree_ok s" "thr s t = Some x" "exit_step t x (at x) s = Some r" "at x \<in> {X_push, X_test, X_up, X_own, X_parent}"
  shows "\<exists>s'. r = Inr s' \<and> tree_ok s'"
proof -
  obtain p where p: "ptid x = Some p" using assms(1,2,4) unfolding tree_ok_def by (cases "ptid x") (fastforce simp: holds_own_def)+
  have nd: "at x \<noteq> P_done" using assms(4) by auto
  note pl = parent_live [OF assms(1,2) p nd]
  have fin: "finite (users s p)" using assms(1) finite_users by (simp add: tree_ok_def)
  consider (quiet) "at x \<in> {X_push, X_test, X_up}" | (own) "at x = X_own" | (parent) "at x = X_parent" using assms(4) by blast
  then show ?thesis
  proof cases
    case quiet
    then obtain s' x' where "r = Inr s'" "thr s' = (thr s)(t \<mapsto> x')" "ptid x' = ptid x" "at x' \<in> {X_test, X_up, X_own}" "same_counts s s'"
      using assms(2,3) p pl by (auto simp: exit_step_def with_rel_def moves same_counts_def)
    then show ?thesis using tree_quiet [OF assms(1,2), of s' x'] quiet p by (auto simp: holds_own_def holds_parent_def)
  next
    case own
    define s' where "s' = goto_place t X_parent (set_rel t (\<lambda>x. x\<lparr>alive_count := alive_count x - 1, rel_freed := (alive_count x - 1 = 0)\<rparr>) s)"
    have ol: "\<not> rel_freed (c_rel s t)" using own_live [OF assms(1,2)] own by (simp add: holds_own_def)
    have r: "r = Inr s'" using assms(3) own p ol by (simp add: exit_step_def drop_relation_def with_rel_def s'_def)
    have s': "thr s' = (thr s)(t \<mapsto> x\<lparr>at := X_parent\<rparr>)" "c_rel s' = (c_rel s)(t := (c_rel s t)\<lparr>alive_count := alive_count (c_rel s t) - 1, rel_freed := (alive_count (c_rel s t) - 1 = 0)\<rparr>)"
      using assms(2) by (simp_all add: s'_def goto_place_def thr_set_thr)
    have us: "users s' q = users s q" for q
      using assms(2) s'(1) own by (auto simp: users_def holds_parent_def split: if_splits)
    have "counted s' q" for q
      using tree_counted [OF assms(1), of q] assms(2) own s' us [of q] by (cases "q = t") (auto simp: counted_def holds_own_def)
    then have "tree_ok s'" using tree_move [OF assms(1,2) s'(1)] own p by simp
    then show ?thesis using r by blast
  next
    case parent
    define s' where "s' = goto_place t P_done (set_rel p (\<lambda>x. x\<lparr>alive_count := alive_count x - 1, rel_freed := (alive_count x - 1 = 0)\<rparr>) s)"
    have r: "r = Inr s'" using assms(3) parent p pl by (simp add: exit_step_def drop_relation_def with_rel_def s'_def)
    have s': "thr s' = (thr s)(t \<mapsto> x\<lparr>at := P_done\<rparr>)" "c_rel s' = (c_rel s)(p := (c_rel s p)\<lparr>alive_count := alive_count (c_rel s p) - 1, rel_freed := (alive_count (c_rel s p) - 1 = 0)\<rparr>)"
      using assms(2) by (simp_all add: s'_def goto_place_def thr_set_thr)
    have us: "users s' q = (if q = p then users s p - {t} else users s q)" "t \<in> users s p" for q
      using assms(2) s'(1) parent p by (auto simp: users_def holds_parent_def split: if_splits)
    have cd: "int (card (users s p - {t})) = int (card (users s p)) - 1"
      using card_Suc_Diff1 [OF fin us(2)] by simp
    have "counted s' q" for q
      using tree_counted [OF assms(1), of q] assms(2) parent s' us(1) [of q] cd pl(3)
      by (cases "q = t"; cases "q = p") (auto simp: counted_def holds_own_def)
    then have "tree_ok s'" using tree_move [OF assms(1,2) s'(1)] parent p by simp
    then show ?thesis using r by blast
  qed
qed

lemma tree_waits:
  assumes "tree_ok s" "thr s t = Some x" "wait_step t (at x) s = Some r" "\<And>c. at x = W_rescan c \<Longrightarrow> return_list (c_rel s t) \<noteq> []"
  shows "\<exists>s'. r = Inr s' \<and> tree_ok s'"
proof -
  have w: "holds_own (at x)" "holds_parent (at x)" "\<And>c. at x \<noteq> E_down c" "at x \<notin> {X_push, X_test, X_up, X_own}"
    using assms(3) by (auto simp: wait_step_def holds_own_def holds_parent_def)
  have ol: "\<not> rel_freed (c_rel s t)" by (rule own_live [OF assms(1,2) w(1)])
  have "\<exists>s' x'. r = Inr s' \<and> thr s' = (thr s)(t \<mapsto> x') \<and> ptid x' = ptid x \<and> same_counts s s' \<and>
      holds_own (at x') \<and> holds_parent (at x') \<and> at x' \<notin> {X_push, X_test, X_up, X_own}"
    using assms(3)
  proof (cases rule: wait_step_cases)
    case (rescan c)
    then show ?thesis using ol assms(2,4) by (cases "map_of (return_list (c_rel s t)) c")
        (auto simp: with_rel_def moves same_counts_def holds_own_def holds_parent_def)
  qed (use ol assms(2) in \<open>auto simp: with_rel_def moves same_counts_def holds_own_def holds_parent_def\<close>)
  then show ?thesis using tree_quiet [OF assms(1,2)] w by metis
qed

lemma step_tree:
  assumes "tree_ok s" "family_step t a s = Some r" "\<And>x c. thr s t = Some x \<Longrightarrow> at x = W_rescan c \<Longrightarrow> return_list (c_rel s t) \<noteq> []"
  shows "\<exists>s'. r = Inr s' \<and> tree_ok s'"
  using assms(2)
proof (cases rule: family_step_cases)
  case (load x p ok)
  then show ?thesis using tree_load [OF assms(1)] by simp
next
  case (execute x c g)
  then show ?thesis using tree_execute [OF assms(1)] by simp
next
  case (wait x c)
  have "tree_ok (process_wait t x c s)"
    by (rule tree_quiet [OF assms(1) wait(1), of _ "if c \<notin> set (children_tids x) then x\<lparr>at := P_run, answer := Some (-1)\<rparr>
        else x\<lparr>children_tids := remove1 c (children_tids x), at := W_await c\<rparr>"])
      (use wait in \<open>auto simp: process_wait_def moves same_counts_def holds_own_def holds_parent_def\<close>)
  then show ?thesis using wait by simp
next
  case (exit x v)
  have "tree_ok (set_thr t (\<lambda>x. x\<lparr>exit_status := v, at := X_push\<rparr>) s)"
    by (rule tree_quiet [OF assms(1) exit(1), of _ "x\<lparr>exit_status := v, at := X_push\<rparr>"])
      (use exit in \<open>auto simp: moves same_counts_def holds_own_def holds_parent_def\<close>)
  then show ?thesis using exit by simp
next
  case (executed x c y ok)
  have "at y \<noteq> P_new" using assms(1) executed(3,4) unfolding tree_ok_def by force
  then have "tree_ok (execute_return t c ok s)"
    by (intro tree_quiet [OF assms(1) executed(1), of _ "if ok then x\<lparr>children_tids := children_tids x @ [c], at := P_run, answer := Some (int c)\<rparr>
        else x\<lparr>at := P_run, answer := Some (-1)\<rparr>"])
      (use executed in \<open>auto simp: execute_return_def moves same_counts_def holds_own_def holds_parent_def\<close>)
  then show ?thesis using executed by simp
next
  case (waits x)
  then show ?thesis using tree_waits [OF assms(1)] assms(3) by blast
next
  case (exits x)
  then show ?thesis using tree_exits [OF assms(1)] by blast
qed

section \<open>Statuses and waiting\<close>

text \<open>The list of a parent holds the statuses of the children that have delivered theirs, each once.\<close>

definition returns_ok :: "family \<Rightarrow> bool" where
  "returns_ok s \<longleftrightarrow> (\<forall>p. thr s p \<noteq> None \<longrightarrow> set (return_list (c_rel s p)) = returned s p \<and> distinct (map fst (return_list (c_rel s p))))"

lemma returns_quiet:
  assumes "returns_ok s" "thr s t = Some x" "thr s' = (thr s)(t \<mapsto> x')" "ptid x' = ptid x" "pushed (at x') = pushed (at x)"
    "pushed (at x) \<Longrightarrow> exit_status x' = exit_status x" "\<And>p. return_list (c_rel s' p) = return_list (c_rel s p)"
  shows "returns_ok s'"
proof -
  have "returned s' p = returned s p" for p
  proof (rule set_eqI, clarify)
    fix c v show "(c, v) \<in> returned s' p \<longleftrightarrow> (c, v) \<in> returned s p"
      using assms(2-6) by (cases "c = t") (auto simp: returned_def)
  qed
  then show ?thesis using assms(1-3,7) by (auto simp: returns_ok_def)
qed

lemma returned_iff: "(c, v) \<in> returned s p \<longleftrightarrow> (\<exists>y. thr s c = Some y \<and> ptid y = Some p \<and> pushed (at y) \<and> v = exit_status y)"
  by (auto simp: returned_def)

lemma returns_push:
  assumes "returns_ok s" "tree_ok s" "thr s t = Some x" "ptid x = Some p" "at x = X_push" "thr s' = (thr s)(t \<mapsto> x\<lparr>at := X_test\<rparr>)"
    "\<And>q. return_list (c_rel s' q) = (if q = p then return_list (c_rel s p) @ [(t, exit_status x)] else return_list (c_rel s q))"
  shows "returns_ok s'"
proof -
  have r: "returned s' q = (if q = p then insert (t, exit_status x) (returned s p) else returned s q)" for q
  proof (rule set_eqI, clarify)
    fix c v show "(c, v) \<in> returned s' q \<longleftrightarrow> (c, v) \<in> (if q = p then insert (t, exit_status x) (returned s p) else returned s q)"
      using assms(3-6) by (cases "c = t") (auto simp: returned_iff)
  qed
  have "thr s p \<noteq> None" using tree_parent [OF assms(2-4)] by simp
  moreover have "(t, v) \<notin> returned s p" for v using assms(3,5) by (auto simp: returned_iff)
  ultimately have "t \<notin> fst ` set (return_list (c_rel s p))" using assms(1) by (force simp: returns_ok_def)
  then show ?thesis using assms(1,3,6,7) r by (auto simp: returns_ok_def)
qed

lemma step_returns:
  assumes "returns_ok s" "tree_ok s" "family_step t a s = Some (Inr s')"
  shows "returns_ok s'"
  using assms(3)
proof (cases rule: family_step_cases)
  case (load x p ok)
  then show ?thesis
    by (intro returns_quiet [OF assms(1) load(1), of _ "if ok then x\<lparr>c_status := Some True, at := P_run\<rparr>
        else x\<lparr>c_status := Some False, exit_status := -1, at := X_push\<rparr>"])
      (auto simp: start_process_def with_rel_def moves split: if_splits)
next
  case (execute x c g)
  have ct: "c \<noteq> t" using execute by auto
  have s': "thr s' = (thr s)(c \<mapsto> new_thread t, t \<mapsto> x\<lparr>at := E_down c\<rparr>)" "c_rel s' = (c_rel s)(c := new_relation g)"
    using execute ct by (simp_all add: process_execute_def moves fun_upd_twist)
  have np: "ptid y \<noteq> Some c" if "thr s u = Some y" for u y using tree_parent [OF assms(2) that] execute(3) by auto
  have r: "returned s' p = returned s p" for p
  proof (rule set_eqI, clarify)
    fix d v show "(d, v) \<in> returned s' p \<longleftrightarrow> (d, v) \<in> returned s p"
      using execute ct s'(1) by (cases "d = t"; cases "d = c") (auto simp: returned_iff new_thread_def)
  qed
  have "returned s c = {}" using np by (auto simp: returned_def)
  then show ?thesis using assms(1) s' r execute ct by (auto simp: returns_ok_def new_relation_def)
next
  case (wait x c)
  then show ?thesis
    by (intro returns_quiet [OF assms(1) wait(1), of _ "if c \<notin> set (children_tids x) then x\<lparr>at := P_run, answer := Some (-1)\<rparr>
        else x\<lparr>children_tids := remove1 c (children_tids x), at := W_await c\<rparr>"])
      (auto simp: process_wait_def moves)
next
  case (exit x v)
  then show ?thesis by (intro returns_quiet [OF assms(1) exit(1), of _ "x\<lparr>exit_status := v, at := X_push\<rparr>"]) (auto simp: moves)
next
  case (executed x c y ok)
  then show ?thesis
    by (intro returns_quiet [OF assms(1) executed(1), of _ "if ok then x\<lparr>children_tids := children_tids x @ [c], at := P_run, answer := Some (int c)\<rparr>
        else x\<lparr>at := P_run, answer := Some (-1)\<rparr>"])
      (auto simp: execute_return_def moves)
next
  case (waits x)
  have "\<exists>x'. thr s' = (thr s)(t \<mapsto> x') \<and> ptid x' = ptid x \<and> \<not> pushed (at x') \<and> \<not> pushed (at x) \<and> (\<forall>p. return_list (c_rel s' p) = return_list (c_rel s p))"
    using waits(2) by (cases rule: wait_step_cases) (use waits(1) in \<open>auto simp: with_rel_def moves split: if_splits option.splits\<close>)
  then show ?thesis using returns_quiet [OF assms(1) waits(1)] by metis
next
  case (exits x)
  obtain p where p: "ptid x = Some p" using exits(2) by (cases "ptid x") (auto simp: exit_step_def)
  show ?thesis
  proof (cases "at x = X_push")
    case True
    have "parent_alive (c_rel s p)" using parent_live [OF assms(2) exits(1) p] True by simp
    then show ?thesis using True p exits
      by (intro returns_push [OF assms(1,2) exits(1) p True]) (auto simp: exit_step_def with_rel_def moves split: if_splits)
  next
    case False
    define x' where "x' = the (thr s' t)"
    have "thr s' = (thr s)(t \<mapsto> x') \<and> ptid x' = ptid x \<and> exit_status x' = exit_status x \<and> pushed (at x') \<and> pushed (at x) \<and> (\<forall>p. return_list (c_rel s' p) = return_list (c_rel s p))"
      unfolding x'_def using exits False p by (auto simp: exit_step_def drop_relation_def with_rel_def moves split: if_splits)
    then show ?thesis using returns_quiet [OF assms(1) exits(1), of s' x'] by simp
  qed
qed

text \<open>
  A waiting parent: the child it waits for is awaited before the list is read, and a parent about to
  block will be woken, because a child that has delivered its status has still to test who is
  awaited, is about to raise the semaphore, or has raised it.
\<close>

definition is_child :: "family \<Rightarrow> nat \<Rightarrow> nat \<Rightarrow> bool" where
  "is_child s p c \<longleftrightarrow> (\<exists>y. thr s c = Some y \<and> ptid y = Some p)"

fun waits_for :: "place \<Rightarrow> nat option" where
  "waits_for (W_await c) = Some c"
| "waits_for (W_empty c) = Some c"
| "waits_for (W_scan c) = Some c"
| "waits_for (W_down c) = Some c"
| "waits_for (W_rescan c) = Some c"
| "waits_for p = None"

definition wait_inv :: "family \<Rightarrow> nat \<Rightarrow> pthread \<Rightarrow> bool" where
  "wait_inv s t x \<longleftrightarrow> distinct (children_tids x) \<and> (\<forall>c \<in> set (children_tids x). is_child s t c) \<and>
     (\<forall>c. at x = E_down c \<longrightarrow> is_child s t c \<and> c \<notin> set (children_tids x)) \<and>
     (\<forall>c. waits_for (at x) = Some c \<longrightarrow> is_child s t c \<and> c \<notin> set (children_tids x)) \<and>
     (\<forall>c. at x \<in> {W_empty c, W_scan c, W_down c} \<longrightarrow> awaited_tid (c_rel s t) = int c) \<and>
     (\<forall>c y. at x = W_down c \<and> thr s c = Some y \<and> pushed (at y) \<longrightarrow> at y \<in> {X_test, X_up} \<or> 0 < p_sema (c_rel s t)) \<and>
     (0 < p_sema (c_rel s t) \<or> (\<exists>c. at x = W_rescan c) \<longrightarrow> return_list (c_rel s t) \<noteq> [])"

definition waits_ok :: "family \<Rightarrow> bool" where
  "waits_ok s \<longleftrightarrow> (\<forall>t x. thr s t = Some x \<longrightarrow> wait_inv s t x)"

text \<open>Threads stay and keep their parents.\<close>

definition extends :: "family \<Rightarrow> family \<Rightarrow> bool" where
  "extends s s' \<longleftrightarrow> (\<forall>c y. thr s c = Some y \<longrightarrow> (\<exists>y'. thr s' c = Some y' \<and> ptid y' = ptid y))"

lemma is_child_extends: "extends s s' \<Longrightarrow> is_child s p c \<Longrightarrow> is_child s' p c"
  unfolding extends_def is_child_def by metis

lemma extends_move: "thr s t = Some x \<Longrightarrow> thr s' = (thr s)(t \<mapsto> x') \<Longrightarrow> ptid x' = ptid x \<Longrightarrow> extends s s'"
  by (auto simp: extends_def)

text \<open>What a step of another thread may do to a waiting parent.\<close>

lemma wait_other:
  assumes "wait_inv s t x" "extends s s'" "awaited_tid (c_rel s' t) = awaited_tid (c_rel s t)"
    "return_list (c_rel s t) \<noteq> [] \<Longrightarrow> return_list (c_rel s' t) \<noteq> []" "p_sema (c_rel s t) \<le> p_sema (c_rel s' t)"
    "0 < p_sema (c_rel s' t) \<Longrightarrow> 0 < p_sema (c_rel s t) \<or> return_list (c_rel s' t) \<noteq> []"
    "\<And>c y. thr s' c = Some y \<Longrightarrow> pushed (at y) \<Longrightarrow> at y \<notin> {X_test, X_up} \<Longrightarrow> ptid y = Some t \<Longrightarrow> awaited_tid (c_rel s t) = int c \<Longrightarrow>
       0 < p_sema (c_rel s' t) \<or> (\<exists>y0. thr s c = Some y0 \<and> pushed (at y0) \<and> at y0 \<notin> {X_test, X_up})"
  shows "wait_inv s' t x"
proof -
  have w: "0 < p_sema (c_rel s' t)" if "at x = W_down c" "thr s' c = Some y" "pushed (at y)" "at y \<notin> {X_test, X_up}" for c y
  proof -
    have a: "awaited_tid (c_rel s t) = int c" "is_child s t c" using assms(1) that(1) by (auto simp: wait_inv_def)
    then have "ptid y = Some t" using is_child_extends [OF assms(2) a(2)] that(2) by (auto simp: is_child_def)
    from assms(7) [OF that(2-4) this a(1)] show ?thesis
    proof
      assume "\<exists>y0. thr s c = Some y0 \<and> pushed (at y0) \<and> at y0 \<notin> {X_test, X_up}"
      then have "0 < p_sema (c_rel s t)" using assms(1) that(1) unfolding wait_inv_def by blast
      then show ?thesis using assms(5) by simp
    qed
  qed
  have c: "is_child s' t c" if "is_child s t c" for c by (rule is_child_extends [OF assms(2) that])
  note W = assms(1) [unfolded wait_inv_def]
  show ?thesis unfolding wait_inv_def assms(3)
  proof (intro conjI)
    show "\<forall>c y. at x = W_down c \<and> thr s' c = Some y \<and> pushed (at y) \<longrightarrow> at y \<in> {X_test, X_up} \<or> 0 < p_sema (c_rel s' t)"
    proof (intro allI impI)
      fix c y assume "at x = W_down c \<and> thr s' c = Some y \<and> pushed (at y)"
      then show "at y \<in> {X_test, X_up} \<or> 0 < p_sema (c_rel s' t)" using w [of c y] by (cases "at y \<in> {X_test, X_up}") simp_all
    qed
    show "0 < p_sema (c_rel s' t) \<or> (\<exists>c. at x = W_rescan c) \<longrightarrow> return_list (c_rel s' t) \<noteq> []"
      using W assms(4,6) by blast
  qed (use W c in simp_all)
qed

lemma waits_move:
  assumes "waits_ok s" "thr s u = Some x" "thr s' = (thr s)(u \<mapsto> x')" "ptid x' = ptid x" "wait_inv s' u x'"
    "\<And>t. t \<noteq> u \<Longrightarrow> awaited_tid (c_rel s' t) = awaited_tid (c_rel s t) \<and> p_sema (c_rel s t) \<le> p_sema (c_rel s' t) \<and>
       (return_list (c_rel s t) \<noteq> [] \<longrightarrow> return_list (c_rel s' t) \<noteq> []) \<and>
       (0 < p_sema (c_rel s' t) \<longrightarrow> 0 < p_sema (c_rel s t) \<or> return_list (c_rel s' t) \<noteq> [])"
    "\<And>t. pushed (at x') \<Longrightarrow> at x' \<notin> {X_test, X_up} \<Longrightarrow> t \<noteq> u \<Longrightarrow> ptid x = Some t \<Longrightarrow> awaited_tid (c_rel s t) = int u \<Longrightarrow>
       0 < p_sema (c_rel s' t) \<or> pushed (at x) \<and> at x \<notin> {X_test, X_up}"
  shows "waits_ok s'"
  unfolding waits_ok_def
proof (intro allI impI)
  fix t y assume y: "thr s' t = Some y"
  show "wait_inv s' t y"
  proof (cases "t = u")
    case True
    then show ?thesis using y assms(3,5) by simp
  next
    case False
    then have w: "wait_inv s t y" using y assms(1,3) by (simp add: waits_ok_def)
    show ?thesis
    proof (rule wait_other [OF w extends_move [OF assms(2-4)]])
      fix c z assume z: "thr s' c = Some z" "pushed (at z)" "at z \<notin> {X_test, X_up}" "ptid z = Some t" "awaited_tid (c_rel s t) = int c"
      show "0 < p_sema (c_rel s' t) \<or> (\<exists>y0. thr s c = Some y0 \<and> pushed (at y0) \<and> at y0 \<notin> {X_test, X_up})"
      proof (cases "c = u")
        case True
        then show ?thesis using z assms(2-4,7) False by auto
      next
        case False
        then show ?thesis using z assms(3) by auto
      qed
    qed (use assms(6) [OF False] in auto)
  qed
qed

text \<open>A thread that is in no wait after its move.\<close>

lemma wait_inv_plain:
  assumes "wait_inv s u x" "extends s s'" "distinct (children_tids x')" "set (children_tids x') \<subseteq> set (children_tids x)"
    "waits_for (at x') = None" "\<And>c. at x' \<noteq> E_down c" "p_sema (c_rel s' u) = p_sema (c_rel s u)" "return_list (c_rel s' u) = return_list (c_rel s u)"
  shows "wait_inv s' u x'"
  using assms(1,3-8) is_child_extends [OF assms(2)] unfolding wait_inv_def by (cases "at x'") auto

lemma step_waits_wait:
  assumes "waits_ok s" "tree_ok s" "returns_ok s" "thr s t = Some x" "wait_step t (at x) s = Some (Inr s')"
  shows "waits_ok s'"
proof -
  have w: "wait_inv s t x" using assms(1,4) by (simp add: waits_ok_def)
  define x' where "x' = the (thr s' t)"
  have "thr s' = (thr s)(t \<mapsto> x') \<and> ptid x' = ptid x \<and> children_tids x' = children_tids x \<and> \<not> pushed (at x') \<and>
      (\<forall>q. q \<noteq> t \<longrightarrow> c_rel s' q = c_rel s q) \<and> return_list (c_rel s' t) = return_list (c_rel s t)"
    unfolding x'_def using assms(5)
    by (cases rule: wait_step_cases) (use assms(4) in \<open>auto simp: with_rel_def moves split: if_splits option.splits\<close>)
  then have b: "thr s' = (thr s)(t \<mapsto> x')" "ptid x' = ptid x" "children_tids x' = children_tids x" "\<not> pushed (at x')"
      "\<And>q. q \<noteq> t \<Longrightarrow> c_rel s' q = c_rel s q" "return_list (c_rel s' t) = return_list (c_rel s t)" by blast+
  have e: "extends s s'" by (rule extends_move [OF assms(4) b(1,2)])
  have thr: "thr s' c = Some y \<Longrightarrow> pushed (at y) \<Longrightarrow> thr s c = Some y" for c y using b(1,4) by (auto split: if_splits)
  have rl: "(c, v) \<in> set (return_list (c_rel s t)) \<longleftrightarrow> (\<exists>y. thr s c = Some y \<and> ptid y = Some t \<and> pushed (at y) \<and> v = exit_status y)" for c v
    using assms(3,4) by (auto simp: returns_ok_def returned_iff)
  have "wait_inv s' t x'"
    using assms(5)
  proof (cases rule: wait_step_cases)
    case (await c)
    then have "at x' = W_empty c" "awaited_tid (c_rel s' t) = int c" "p_sema (c_rel s' t) = p_sema (c_rel s t)"
      using assms(4) by (auto simp: x'_def with_rel_def moves split: if_splits)
    then show ?thesis using w await(1) b(3,6) is_child_extends [OF e] by (auto simp: wait_inv_def)
  next
    case (empty c)
    then have x': "at x' = (if return_list (c_rel s t) = [] then W_down c else W_scan c)" and r: "c_rel s' t = c_rel s t"
      using assms(4) by (auto simp: x'_def with_rel_def moves split: if_splits)
    have "\<not> pushed (at y)" if "thr s' c = Some y" "return_list (c_rel s t) = []" for y
    proof
      assume p: "pushed (at y)"
      have "ptid y = Some t" using w empty(1) thr [OF that(1) p] by (auto simp: wait_inv_def is_child_def)
      then show False using rl [of c "exit_status y"] thr [OF that(1) p] p that(2) by auto
    qed
    then show ?thesis using w empty(1) b(3,6) is_child_extends [OF e] x' r by (auto simp: wait_inv_def simp del: pushed.simps)
  next
    case (found c v)
    then have "at x' = P_run" "c_rel s' t = c_rel s t" using assms(4) by (auto simp: x'_def with_rel_def moves split: if_splits)
    then show ?thesis using w b(3) by (intro wait_inv_plain [OF w e]) (auto simp: wait_inv_def)
  next
    case (missing c)
    then have x': "at x' = W_down c" and r: "c_rel s' t = c_rel s t"
      using assms(4) by (auto simp: x'_def with_rel_def moves split: if_splits)
    have "\<not> pushed (at y)" if "thr s' c = Some y" for y
    proof
      assume p: "pushed (at y)"
      have "ptid y = Some t" using w missing(1) thr [OF that p] by (auto simp: wait_inv_def is_child_def)
      then have "(c, exit_status y) \<in> set (return_list (c_rel s t))" using rl thr [OF that p] p by blast
      then show False using missing(2) by (force simp: map_of_eq_None_iff)
    qed
    then show ?thesis using w missing(1) b(3,6) is_child_extends [OF e] x' r by (auto simp: wait_inv_def simp del: pushed.simps)
  next
    case (down c)
    have "\<not> rel_freed (c_rel s t)" using down(3) by (auto simp: with_rel_def split: if_splits)
    then have "at x' = W_rescan c" "0 < p_sema (c_rel s t)" using assms(4) down(2,3) by (auto simp: x'_def with_rel_def moves)
    moreover have "return_list (c_rel s t) \<noteq> []" using w calculation(2) by (simp add: wait_inv_def)
    ultimately show ?thesis using w down(1) b(3,6) is_child_extends [OF e] by (auto simp: wait_inv_def)
  next
    case (rescan c)
    then have "at x' = P_run" "c_rel s' t = c_rel s t"
      using assms(4) by (auto simp: x'_def with_rel_def moves split: if_splits option.splits)
    then show ?thesis using w b(3) by (intro wait_inv_plain [OF w e]) (auto simp: wait_inv_def)
  qed
  then show ?thesis
    by (rule waits_move [OF assms(1,4) b(1,2)]) (use b(4,5) in auto)
qed

lemma step_waits_exit:
  assumes "waits_ok s" "tree_ok s" "returns_ok s" "thr s t = Some x" "exit_step t x (at x) s = Some (Inr s')" "at x \<in> {X_push, X_test, X_up, X_own, X_parent}"
  shows "waits_ok s'"
proof -
  have w: "wait_inv s t x" using assms(1,4) by (simp add: waits_ok_def)
  obtain p where p: "ptid x = Some p" using assms(5) by (cases "ptid x") (auto simp: exit_step_def)
  have nd: "at x \<noteq> P_done" using assms(6) by auto
  note pl = parent_live [OF assms(2,4) p nd]
  define x' where "x' = the (thr s' t)"
  have "thr s' = (thr s)(t \<mapsto> x') \<and> ptid x' = ptid x \<and> children_tids x' = children_tids x \<and>
      waits_for (at x') = None \<and> (\<forall>c. at x' \<noteq> E_down c) \<and>
      (\<forall>q. awaited_tid (c_rel s' q) = awaited_tid (c_rel s q)) \<and>
      p_sema (c_rel s' t) = p_sema (c_rel s t) \<and> return_list (c_rel s' t) = return_list (c_rel s t) \<and>
      (\<forall>q. return_list (c_rel s' q) = (if at x = X_push \<and> q = p then return_list (c_rel s p) @ [(t, exit_status x)] else return_list (c_rel s q))) \<and>
      (\<forall>q. p_sema (c_rel s' q) = (if at x = X_up \<and> q = p then p_sema (c_rel s p) + 1 else p_sema (c_rel s q))) \<and>
      (at x = X_push \<longrightarrow> at x' = X_test) \<and> (at x = X_test \<longrightarrow> at x' = (if int t = awaited_tid (c_rel s p) then X_up else X_own))"
    unfolding x'_def using assms(4-6) p pl
    by (auto simp: exit_step_def drop_relation_def with_rel_def moves split: if_splits)
  then have b: "thr s' = (thr s)(t \<mapsto> x')" "ptid x' = ptid x" "children_tids x' = children_tids x" "waits_for (at x') = None" "\<And>c. at x' \<noteq> E_down c"
    "\<And>q. awaited_tid (c_rel s' q) = awaited_tid (c_rel s q)" "p_sema (c_rel s' t) = p_sema (c_rel s t)" "return_list (c_rel s' t) = return_list (c_rel s t)"
    "\<And>q. return_list (c_rel s' q) = (if at x = X_push \<and> q = p then return_list (c_rel s p) @ [(t, exit_status x)] else return_list (c_rel s q))"
    "\<And>q. p_sema (c_rel s' q) = (if at x = X_up \<and> q = p then p_sema (c_rel s p) + 1 else p_sema (c_rel s q))"
    "at x = X_push \<Longrightarrow> at x' = X_test" "at x = X_test \<Longrightarrow> at x' = (if int t = awaited_tid (c_rel s p) then X_up else X_own)"
    by blast+
  have e: "extends s s'" by (rule extends_move [OF assms(4) b(1,2)])
  have own: "wait_inv s' t x'"
    using w b(3-5,7,8) by (intro wait_inv_plain [OF w e]) (auto simp: wait_inv_def)
  have ne: "return_list (c_rel s p) \<noteq> []" if "at x = X_up"
  proof -
    have "(t, exit_status x) \<in> returned s p" using assms(4) p that by (auto simp: returned_iff)
    moreover have "thr s p \<noteq> None" using tree_parent [OF assms(2,4) p] by auto
    ultimately show ?thesis using assms(3) by (auto simp: returns_ok_def)
  qed
  show ?thesis
  proof (rule waits_move [OF assms(1,4) b(1,2) own])
    fix q assume "q \<noteq> t"
    show "awaited_tid (c_rel s' q) = awaited_tid (c_rel s q) \<and> p_sema (c_rel s q) \<le> p_sema (c_rel s' q) \<and>
       (return_list (c_rel s q) \<noteq> [] \<longrightarrow> return_list (c_rel s' q) \<noteq> []) \<and>
       (0 < p_sema (c_rel s' q) \<longrightarrow> 0 < p_sema (c_rel s q) \<or> return_list (c_rel s' q) \<noteq> [])"
      using ne by (auto simp: b(6,9,10))
  next
    fix q assume q: "pushed (at x')" "at x' \<notin> {X_test, X_up}" "ptid x = Some q" "awaited_tid (c_rel s q) = int t"
    then show "0 < p_sema (c_rel s' q) \<or> pushed (at x) \<and> at x \<notin> {X_test, X_up}"
      using assms(6) p b(10-12) by auto
  qed
qed

lemma waits_plain:
  assumes "waits_ok s" "thr s t = Some x" "thr s' = (thr s)(t \<mapsto> x')" "ptid x' = ptid x" "\<not> pushed (at x')"
    "\<And>q. awaited_tid (c_rel s' q) = awaited_tid (c_rel s q) \<and> p_sema (c_rel s' q) = p_sema (c_rel s q) \<and> return_list (c_rel s' q) = return_list (c_rel s q)"
    "wait_inv s' t x'"
  shows "waits_ok s'"
  by (rule waits_move [OF assms(1-4,7)]) (use assms(5,6) in simp_all)

lemma step_waits:
  assumes "waits_ok s" "tree_ok s" "returns_ok s" "family_step t a s = Some (Inr s')"
  shows "waits_ok s'"
  using assms(4)
proof (cases rule: family_step_cases)
  case (load x p ok)
  define x' where "x' = (if ok then x\<lparr>c_status := Some True, at := P_run\<rparr> else x\<lparr>c_status := Some False, exit_status := -1, at := X_push\<rparr>)"
  have w: "wait_inv s t x" using assms(1) load(1) by (simp add: waits_ok_def)
  have s': "thr s' = (thr s)(t \<mapsto> x')" using load by (auto simp: start_process_def with_rel_def moves x'_def split: if_splits)
  have r: "awaited_tid (c_rel s' q) = awaited_tid (c_rel s q) \<and> p_sema (c_rel s' q) = p_sema (c_rel s q) \<and> return_list (c_rel s' q) = return_list (c_rel s q)" for q
    using load by (auto simp: start_process_def with_rel_def moves split: if_splits)
  have x': "ptid x' = ptid x" "\<not> pushed (at x')" "children_tids x' = children_tids x" "waits_for (at x') = None" "\<And>c. at x' \<noteq> E_down c"
    by (auto simp: x'_def)
  have "wait_inv s' t x'" using w x' r by (intro wait_inv_plain [OF w extends_move [OF load(1) s' x'(1)]]) (auto simp: wait_inv_def)
  then show ?thesis by (rule waits_plain [OF assms(1) load(1) s' x'(1,2) r])
next
  case (execute x c g)
  have ct: "c \<noteq> t" using execute by auto
  have s': "thr s' = (thr s)(c \<mapsto> new_thread t, t \<mapsto> x\<lparr>at := E_down c\<rparr>)" "c_rel s' = (c_rel s)(c := new_relation g)"
    using execute ct by (simp_all add: process_execute_def moves fun_upd_twist)
  have e: "extends s s'" using execute s'(1) by (auto simp: extends_def)
  have nc: "\<not> is_child s q c" for q using execute(3) by (simp add: is_child_def)
  show ?thesis unfolding waits_ok_def
  proof (intro allI impI)
    fix u y assume y: "thr s' u = Some y"
    consider "u = c" | "u = t" | "u \<noteq> c" "u \<noteq> t" by blast
    then show "wait_inv s' u y"
    proof cases
      case 1
      then show ?thesis using y s' ct by (auto simp: wait_inv_def new_thread_def new_relation_def)
    next
      case 2
      then have w: "wait_inv s t x" "y = x\<lparr>at := E_down c\<rparr>" using assms(1) execute(1) y s'(1) by (auto simp: waits_ok_def)
      have "is_child s' t c" using s'(1) ct by (simp add: is_child_def new_thread_def)
      then show ?thesis using w 2 nc [of t] s'(2) ct is_child_extends [OF e] by (auto simp: wait_inv_def)
    next
      case 3
      then have "wait_inv s u y" using assms(1) y s'(1) by (simp add: waits_ok_def)
      then show ?thesis using 3 s' execute by (intro wait_other [OF _ e]) (auto simp: new_thread_def split: if_splits)
    qed
  qed
next
  case (wait x c)
  define x' where "x' = (if c \<notin> set (children_tids x) then x\<lparr>at := P_run, answer := Some (-1)\<rparr>
      else x\<lparr>children_tids := remove1 c (children_tids x), at := W_await c\<rparr>)"
  have w: "wait_inv s t x" using assms(1) wait(1) by (simp add: waits_ok_def)
  have s': "thr s' = (thr s)(t \<mapsto> x')" "c_rel s' = c_rel s" using wait by (auto simp: process_wait_def moves x'_def)
  have x': "ptid x' = ptid x" "\<not> pushed (at x')" by (auto simp: x'_def)
  have "wait_inv s' t x'"
    using w wait(2) s'(2) is_child_extends [OF extends_move [OF wait(1) s'(1) x'(1)]] by (auto simp: wait_inv_def x'_def)
  then show ?thesis using s'(2) by (intro waits_plain [OF assms(1) wait(1) s'(1) x']) simp_all
next
  case (exit x v)
  have w: "wait_inv s t x" using assms(1) exit(1) by (simp add: waits_ok_def)
  have s': "thr s' = (thr s)(t \<mapsto> x\<lparr>exit_status := v, at := X_push\<rparr>)" "c_rel s' = c_rel s" using exit by (auto simp: moves)
  have "wait_inv s' t (x\<lparr>exit_status := v, at := X_push\<rparr>)"
    using w s'(2) by (intro wait_inv_plain [OF w extends_move [OF exit(1) s'(1)]]) (auto simp: wait_inv_def)
  then show ?thesis using s'(2) by (intro waits_plain [OF assms(1) exit(1) s'(1)]) simp_all
next
  case (executed x c y ok)
  define x' where "x' = (if ok then x\<lparr>children_tids := children_tids x @ [c], at := P_run, answer := Some (int c)\<rparr>
      else x\<lparr>at := P_run, answer := Some (-1)\<rparr>)"
  have w: "wait_inv s t x" using assms(1) executed(1) by (simp add: waits_ok_def)
  have s': "thr s' = (thr s)(t \<mapsto> x')" "c_rel s' = c_rel s" using executed by (auto simp: execute_return_def moves x'_def)
  have x': "ptid x' = ptid x" "\<not> pushed (at x')" by (auto simp: x'_def)
  have "wait_inv s' t x'"
    using w executed(2) s'(2) is_child_extends [OF extends_move [OF executed(1) s'(1) x'(1)]] by (auto simp: wait_inv_def x'_def)
  then show ?thesis using s'(2) by (intro waits_plain [OF assms(1) executed(1) s'(1) x']) simp_all
next
  case (waits x)
  then show ?thesis using step_waits_wait [OF assms(1-3)] by blast
next
  case (exits x)
  then show ?thesis using step_waits_exit [OF assms(1-3)] by blast
qed

section \<open>Reachable states\<close>

definition family_ok :: "family \<Rightarrow> bool" where
  "family_ok s \<longleftrightarrow> tree_ok s \<and> returns_ok s \<and> waits_ok s"

lemma first_process_ok: "family_ok (first_process g)"
proof -
  have u: "users (first_process g) p = {}" for p by (auto simp: users_def first_process_def)
  have r: "returned (first_process g) p = {}" for p by (auto simp: returned_def first_process_def)
  show ?thesis unfolding family_ok_def tree_ok_def counted_def returns_ok_def waits_ok_def wait_inv_def u r
    by (auto simp: first_process_def new_relation_def holds_own_def split: if_splits)
qed

lemma family_step_ok:
  assumes "family_ok s" "family_step t a s = Some r"
  shows "\<exists>s'. r = Inr s' \<and> family_ok s'"
proof -
  have ok: "tree_ok s" "returns_ok s" "waits_ok s" using assms(1) by (simp_all add: family_ok_def)
  have "return_list (c_rel s t) \<noteq> []" if "thr s t = Some x" "at x = W_rescan c" for x c
    using ok(3) that unfolding waits_ok_def wait_inv_def by blast
  then obtain s' where s': "r = Inr s'" "tree_ok s'" using step_tree [OF ok(1) assms(2)] by blast
  then show ?thesis
    using step_returns [OF ok(2,1)] step_waits [OF ok(3,1,2)] assms(2) by (auto simp: family_ok_def)
qed

lemma family_run_ok: "family_run s s' \<Longrightarrow> family_ok s \<Longrightarrow> family_ok s'"
  by (induction rule: family_run.induct) (use family_step_ok in fastforce)+

section \<open>One wait\<close>

text \<open>
  Nothing is left over from an earlier wait: the semaphore is down, no child is about to raise it, and
  the child awaited last has gone past its test.
\<close>

definition clean :: "family \<Rightarrow> nat \<Rightarrow> bool" where
  "clean s p \<longleftrightarrow> p_sema (c_rel s p) = 0 \<and> (\<forall>d y. thr s d = Some y \<and> ptid y = Some p \<longrightarrow>
     at y \<noteq> X_up \<and> (int d = awaited_tid (c_rel s p) \<longrightarrow> at y \<in> {X_own, X_parent, P_done}))"

definition wakes_right :: "family \<Rightarrow> nat \<Rightarrow> nat \<Rightarrow> bool" where
  "wakes_right s p c \<longleftrightarrow> (\<forall>d y. thr s d = Some y \<and> ptid y = Some p \<and> at y = X_up \<longrightarrow> d = c) \<and>
     (0 < p_sema (c_rel s p) \<longrightarrow> (\<exists>y. thr s c = Some y \<and> pushed (at y)))"

text \<open>The state of a wait for \<open>c\<close>, or what is left of it once it has returned.\<close>

definition waiting :: "family \<Rightarrow> nat \<Rightarrow> nat \<Rightarrow> bool" where
  "waiting s p c \<longleftrightarrow> (\<exists>x. thr s p = Some x \<and> c \<notin> set (children_tids x) \<and> is_child s p c \<and> at x \<noteq> E_down c \<and>
     (at x = W_await c \<longrightarrow> clean s p) \<and> (at x \<in> {W_empty c, W_scan c, W_down c} \<longrightarrow> wakes_right s p c) \<and>
     (at x = W_rescan c \<longrightarrow> (\<exists>y. thr s c = Some y \<and> pushed (at y))))"

text \<open>What a step of another thread does to the children of \<open>p\<close> and to its relation.\<close>

definition child_moves :: "family \<Rightarrow> family \<Rightarrow> nat \<Rightarrow> bool" where
  "child_moves s s' p \<longleftrightarrow> thr s' p = thr s p \<and> awaited_tid (c_rel s' p) = awaited_tid (c_rel s p) \<and>
     (\<forall>d y'. thr s' d = Some y' \<and> ptid y' = Some p \<longrightarrow> (\<exists>y. thr s d = Some y \<and> ptid y = Some p \<and>
        (pushed (at y) \<longrightarrow> pushed (at y')) \<and>
        (at y' = X_up \<longrightarrow> at y = X_up \<or> at y = X_test \<and> int d = awaited_tid (c_rel s p)) \<and>
        (at y \<in> {X_own, X_parent, P_done} \<longrightarrow> at y' \<in> {X_own, X_parent, P_done}))) \<and>
     (p_sema (c_rel s' p) = p_sema (c_rel s p) \<or> (\<exists>d y. thr s d = Some y \<and> ptid y = Some p \<and> at y = X_up))"

lemma child_moves_step:
  assumes "family_ok s" "family_step t a s = Some (Inr s')" "t \<noteq> p" "thr s p = Some x"
  shows "child_moves s s' p"
  using assms(2)
proof (cases rule: family_step_cases)
  case (load x0 q ok)
  then show ?thesis using assms(3,4) by (auto simp: child_moves_def start_process_def with_rel_def moves split: if_splits)
next
  case (execute x0 c g)
  have "c \<noteq> p" using execute(3) assms(4) by auto
  then show ?thesis using execute assms(3) by (auto simp: child_moves_def process_execute_def moves new_thread_def split: if_splits)
next
  case (wait x0 c)
  then show ?thesis using assms(3) by (auto simp: child_moves_def process_wait_def moves split: if_splits)
next
  case (exit x0 v)
  then show ?thesis using assms(3) by (auto simp: child_moves_def moves split: if_splits)
next
  case (executed x0 c y ok)
  then show ?thesis using assms(3) by (auto simp: child_moves_def execute_return_def moves split: if_splits)
next
  case (waits x0)
  show ?thesis using waits(2)
    by (cases rule: wait_step_cases) (use waits(1) assms(3) in \<open>auto simp: child_moves_def with_rel_def moves split: if_splits option.splits\<close>)
next
  case (exits x0)
  then show ?thesis using assms(3)
    by (auto simp: child_moves_def exit_step_def drop_relation_def with_rel_def moves split: if_splits option.splits)
qed

lemma step_extends:
  assumes "family_step t a s = Some (Inr s')"
  shows "extends s s'"
  using assms
proof (cases rule: family_step_cases)
  case (waits x)
  show ?thesis using waits(2)
    by (cases rule: wait_step_cases) (use waits(1) in \<open>auto simp: extends_def with_rel_def moves split: if_splits option.splits\<close>)
next
  case (exits x)
  then show ?thesis by (auto simp: extends_def exit_step_def drop_relation_def with_rel_def moves split: if_splits option.splits)
qed (auto simp: extends_def start_process_def process_execute_def process_wait_def execute_return_def with_rel_def moves split: if_splits)

lemma waiting_other:
  assumes "family_ok s" "waiting s p c" "child_moves s s' p" "extends s s'"
  shows "waiting s' p c"
proof -
  obtain x where x: "thr s p = Some x" "c \<notin> set (children_tids x)" "is_child s p c" "at x \<noteq> E_down c"
    "at x = W_await c \<Longrightarrow> clean s p" "at x \<in> {W_empty c, W_scan c, W_down c} \<Longrightarrow> wakes_right s p c"
    "at x = W_rescan c \<Longrightarrow> \<exists>y. thr s c = Some y \<and> pushed (at y)"
    using assms(2) unfolding waiting_def by auto
  have cm: "thr s' p = Some x" "awaited_tid (c_rel s' p) = awaited_tid (c_rel s p)"
    using assms(3) x(1) by (simp_all add: child_moves_def)
  have ch: "\<exists>y. thr s d = Some y \<and> ptid y = Some p \<and> (pushed (at y) \<longrightarrow> pushed (at y')) \<and>
        (at y' = X_up \<longrightarrow> at y = X_up \<or> at y = X_test \<and> int d = awaited_tid (c_rel s p)) \<and>
        (at y \<in> {X_own, X_parent, P_done} \<longrightarrow> at y' \<in> {X_own, X_parent, P_done})" if "thr s' d = Some y'" "ptid y' = Some p" for d y'
    using assms(3) that unfolding child_moves_def by blast
  have up: "p_sema (c_rel s' p) = p_sema (c_rel s p) \<or> (\<exists>d y. thr s d = Some y \<and> ptid y = Some p \<and> at y = X_up)"
    using assms(3) by (simp add: child_moves_def)
  have c': "is_child s' p c" by (rule is_child_extends [OF assms(4) x(3)])
  then obtain y' where y': "thr s' c = Some y'" "ptid y' = Some p" by (auto simp: is_child_def)
  have pc: "\<exists>y. thr s' c = Some y \<and> pushed (at y)" if "\<exists>y. thr s c = Some y \<and> pushed (at y)" using that ch [OF y'] y' by auto
  have aw: "awaited_tid (c_rel s p) = int c" if "at x \<in> {W_empty c, W_scan c, W_down c}"
    using assms(1) x(1) that unfolding family_ok_def waits_ok_def wait_inv_def by blast
  have "clean s' p" if "at x = W_await c"
  proof -
    have cl: "p_sema (c_rel s p) = 0" "at y \<noteq> X_up" "int d = awaited_tid (c_rel s p) \<Longrightarrow> at y \<in> {X_own, X_parent, P_done}"
      if "thr s d = Some y" "ptid y = Some p" for d y
      using x(5) [OF \<open>at x = W_await c\<close>] that unfolding clean_def by blast+
    have 0: "p_sema (c_rel s' p) = 0" using up cl(2) x(5) [OF that] by (auto simp: clean_def)
    have "at y' \<noteq> X_up \<and> (int d = awaited_tid (c_rel s p) \<longrightarrow> at y' \<in> {X_own, X_parent, P_done})"
      if y': "thr s' d = Some y'" "ptid y' = Some p" for d y'
    proof -
      obtain y where y: "thr s d = Some y" "ptid y = Some p" "at y' = X_up \<longrightarrow> at y = X_up \<or> at y = X_test \<and> int d = awaited_tid (c_rel s p)"
        "at y \<in> {X_own, X_parent, P_done} \<longrightarrow> at y' \<in> {X_own, X_parent, P_done}" using ch [OF y'] by blast
      then show ?thesis using cl(2,3) [OF y(1,2)] by auto
    qed
    then show ?thesis using 0 unfolding clean_def cm(2) by blast
  qed
  moreover have "wakes_right s' p c" if a: "at x \<in> {W_empty c, W_scan c, W_down c}"
    unfolding wakes_right_def
  proof (intro conjI allI impI)
    fix d y assume d: "thr s' d = Some y \<and> ptid y = Some p \<and> at y = X_up"
    then obtain y0 where "thr s d = Some y0" "ptid y0 = Some p" "at y0 = X_up \<or> int d = awaited_tid (c_rel s p)" using ch by blast
    then show "d = c" using x(6) [OF a] aw [OF a] unfolding wakes_right_def by auto
  next
    assume "0 < p_sema (c_rel s' p)"
    then have "0 < p_sema (c_rel s p) \<or> (\<exists>y. thr s c = Some y \<and> at y = X_up)"
      using up x(6) [OF a] unfolding wakes_right_def by auto
    then show "\<exists>y. thr s' c = Some y \<and> pushed (at y)"
      using pc x(6) [OF a] unfolding wakes_right_def by fastforce
  qed
  ultimately show ?thesis using x cm(1) c' pc unfolding waiting_def by blast
qed

text \<open>The status in the list is that of the child.\<close>

lemma list_status:
  assumes "family_ok s" "thr s p = Some x" "is_child s p c"
  shows "map_of (return_list (c_rel s p)) c = Some v \<longleftrightarrow> (\<exists>y. thr s c = Some y \<and> pushed (at y) \<and> v = exit_status y)"
proof -
  have r: "set (return_list (c_rel s p)) = returned s p" "distinct (map fst (return_list (c_rel s p)))"
    using assms(1,2) by (auto simp: family_ok_def returns_ok_def)
  show ?thesis using map_of_eq_Some_iff [OF r(2)] assms(3) by (auto simp: r(1) returned_iff is_child_def)
qed

lemma waiting_plain:
  "thr s p = Some x \<Longrightarrow> c \<notin> set (children_tids x) \<Longrightarrow> is_child s p c \<Longrightarrow> at x \<noteq> E_down c \<Longrightarrow> waits_for (at x) \<noteq> Some c \<Longrightarrow> waiting s p c"
  by (auto simp: waiting_def)

lemma waiting_own:
  assumes "family_ok s" "waiting s p c" "family_step p a s = Some (Inr s')" "thr s p = Some x"
  shows "waiting s' p c \<and> (\<forall>x'. thr s' p = Some x' \<and> waits_for (at x) = Some c \<longrightarrow> waits_for (at x') = Some c \<or>
    at x' = P_run \<and> (\<exists>y. thr s' c = Some y \<and> pushed (at y) \<and> answer x' = Some (exit_status y)))"
proof -
  note w = assms(2) [unfolded waiting_def assms(4), simplified]
  have e: "is_child s' p c" using is_child_extends [OF step_extends [OF assms(3)]] w by blast
  have cn: "c \<notin> set (children_tids x)" "at x \<noteq> E_down c" and ch: "is_child s p c" using w by blast+
  note ls = list_status [OF assms(1,4)]
  from assms(3) show ?thesis
  proof (cases rule: family_step_cases)
    case (waits x0)
    have x0: "x0 = x" using waits(1) assms(4) by simp
    have ok: "waits_ok s" using assms(1) by (simp add: family_ok_def)
    from waits(2) [unfolded x0] show ?thesis
    proof (cases rule: wait_step_cases)
      case (await d)
      have "\<not> pushed (at x)" using await by simp
      then show ?thesis using await w e assms(4)
        by (auto simp: waiting_def with_rel_def moves wakes_right_def clean_def split: if_splits)
    next
      case (empty d)
      then show ?thesis using w e assms(4) by (auto simp: waiting_def with_rel_def moves wakes_right_def split: if_splits)
    next
      case (found d v)
      then show ?thesis using w e assms(4) ls [of c v] by (auto simp: waiting_def with_rel_def moves split: if_splits)
    next
      case (missing d)
      then show ?thesis using w e assms(4) by (auto simp: waiting_def with_rel_def moves wakes_right_def split: if_splits)
    next
      case (down d)
      then show ?thesis using w e assms(4) by (auto simp: waiting_def with_rel_def moves wakes_right_def split: if_splits)
    next
      case (rescan d)
      show ?thesis
      proof (cases "d = c")
        case True
        then have "\<exists>y. thr s c = Some y \<and> pushed (at y)" using assms(2,4) rescan(1) by (auto simp: waiting_def simp del: pushed.simps)
        then obtain y where y: "thr s c = Some y" "pushed (at y)" by blast
        have m: "map_of (return_list (c_rel s p)) d = Some (exit_status y)" unfolding True by (rule iffD2 [OF ls [OF ch]]) (use y in blast)
        have nf: "\<not> rel_freed (c_rel s p)" using rescan(2) by (auto simp: with_rel_def)
        have s': "s' = return_value p (exit_status y) s" using rescan(2) by (simp add: with_rel_def nf m)
        have "c \<noteq> p" using y assms(4) rescan(1) by auto
        then show ?thesis using y w e assms(4) unfolding s' by (simp add: waiting_def moves)
      next
        case False
        then show ?thesis using rescan w e assms(4) by (auto simp: waiting_def with_rel_def moves split: if_splits option.splits)
      qed
    qed
  next
    case (load x0 q ok)
    then show ?thesis using assms(4) cn e by (auto intro!: waiting_plain simp: start_process_def with_rel_def moves split: if_splits)
  next
    case (execute x0 d g)
    have "d \<noteq> p" "d \<noteq> c" using execute(1,3) ch by (auto simp: is_child_def)
    then show ?thesis using execute assms(4) cn e by (auto intro!: waiting_plain simp: process_execute_def moves)
  next
    case (wait x0 d)
    then show ?thesis using assms(4) cn e by (auto intro!: waiting_plain simp: process_wait_def moves notin_set_remove1)
  next
    case (exit x0 v)
    then show ?thesis using assms(4) cn e by (auto intro!: waiting_plain simp: moves)
  next
    case (executed x0 d y ok)
    then show ?thesis using assms(4) cn e by (auto intro!: waiting_plain simp: execute_return_def moves)
  next
    case (exits x0)
    define x' where "x' = the (thr s' p)"
    have "thr s' p = Some x' \<and> children_tids x' = children_tids x \<and> waits_for (at x') = None \<and> at x' \<noteq> E_down c"
      unfolding x'_def using exits assms(4)
      by (auto simp: exit_step_def drop_relation_def with_rel_def moves split: option.splits if_splits)
    moreover have "waits_for (at x) \<noteq> Some c" using exits(1,3) assms(4) by auto
    ultimately show ?thesis using cn(1) e by (auto intro: waiting_plain)
  qed
qed

lemma waiting_step:
  assumes "family_ok s" "waiting s p c" "family_step t a s = Some (Inr s')"
  shows "waiting s' p c"
proof -
  obtain x where x: "thr s p = Some x" using assms(2) by (auto simp: waiting_def)
  show ?thesis
  proof (cases "t = p")
    case True
    then show ?thesis using waiting_own [OF assms(1,2) _ x] assms(3) by blast
  next
    case False
    show ?thesis by (rule waiting_other [OF assms(1,2) child_moves_step [OF assms(1,3) False x] step_extends [OF assms(3)]])
  qed
qed

lemma waiting_run: "family_run s s' \<Longrightarrow> family_ok s \<Longrightarrow> waiting s p c \<Longrightarrow> waiting s' p c"
proof (induction rule: family_run.induct)
  case (step s s' t a s'')
  then show ?case using waiting_step [OF family_run_ok [OF step(1,4)]] by blast
qed

lemma waiting_start:
  assumes "family_ok s" "thr s p = Some x" "at x = P_run" "c \<in> set (children_tids x)" "clean s p" "family_step p (Wait c) s = Some (Inr s')"
  shows "waiting s' p c"
proof -
  have w: "distinct (children_tids x)" "is_child s p c" using assms(1,2,4) by (auto simp: family_ok_def waits_ok_def wait_inv_def)
  have ch: "is_child s' p c" by (rule is_child_extends [OF step_extends [OF assms(6)] w(2)])
  have s': "s' = goto_place p (W_await c) (set_thr p (\<lambda>x. x\<lparr>children_tids := remove1 c (children_tids x)\<rparr>) s)"
    using assms(2-4,6) by (simp add: family_step_def process_wait_def)
  have "ptid x \<noteq> Some p" using tree_parent [OF _ assms(2)] assms(1) by (auto simp: family_ok_def)
  then have "clean s' p" using assms(2,3,5) unfolding s' by (auto simp: clean_def moves split: if_splits)
  then show ?thesis using ch w(1) assms(2) by (auto simp: waiting_def s' moves)
qed

text \<open>Runs as lists of steps.\<close>

lemma steps_run: "steps s as = Some s' \<Longrightarrow> family_run r s \<Longrightarrow> family_run r s'"
proof (induction as arbitrary: s)
  case (Cons b as)
  obtain t a where b: "b = (t, a)" by force
  then obtain s1 where "family_step t a s = Some (Inr s1)" "steps s1 as = Some s'"
    using Cons.prems(1) by (auto split: option.splits sum.splits)
  then show ?case using Cons.IH family_run.step [OF Cons.prems(2)] by blast
qed simp

text \<open>
  Two children are started; the parent waits for the first, which exits with 7 and delivers its
  status between the two accesses of the parent.
\<close>

definition ex_family_start :: "(nat \<times> call) list" where
  "ex_family_start = [(0, Execute 1 0), (1, Loaded True), (0, Go), (0, Execute 2 0), (2, Loaded True), (0, Go)]"

definition ex_wait1 :: "(nat \<times> call) list" where
  "ex_wait1 = [(0, Wait 1), (0, Go), (1, Exit 7), (1, Go), (0, Go), (0, Go)]"

definition ex_wait2 :: "(nat \<times> call) list" where
  "ex_wait2 = [(1, Go), (1, Go), (0, Wait 2), (0, Go), (0, Go), (0, Go), (0, Go), (0, Go)]"

lemmas step_simps = family_step_def process_execute_def execute_return_def start_process_def process_wait_def wait_step_def exit_step_def
  drop_relation_def with_rel_def moves new_relation_def new_thread_def first_process_def

definition ex_family :: "(nat \<times> call) list \<Rightarrow> family" where
  "ex_family as = the (steps (first_process 0) as)"

lemma ex_family_run: "steps (first_process 0) as \<noteq> None \<Longrightarrow> family_run (first_process 0) (ex_family as)"
  using steps_run [of "first_process 0" as] family_run.refl by (auto simp: ex_family_def)

lemmas ex_family_simps = ex_family_def ex_family_start_def ex_wait1_def ex_wait2_def step_simps

section \<open>Properties\<close>



text \<open>
  C19. No wake-up is lost in \<^verbatim>\<open>process_wait\<close>: whenever a parent is blocked on its semaphore waiting for a child, in
  any reachable state, the child has not yet gone past the place where it raises the semaphore; and
  when it is about to test whether it is awaited, the test succeeds.
\<close>

theorem wait_no_lost_wakeup:
  assumes "family_run (first_process g) s" "thr s p = Some x" "at x = W_down c" "p_sema (c_rel s p) = 0"
  shows "\<exists>y. thr s c = Some y \<and> ptid y = Some p \<and> at y \<notin> {X_own, X_parent, P_done} \<and>
    (at y = X_test \<longrightarrow> family_step c Go s = Some (Inr (goto_place c X_up s)))"
proof -
  have ok: "family_ok s" by (rule family_run_ok [OF assms(1) first_process_ok])
  then have w: "wait_inv s p x" using assms(2) by (simp add: family_ok_def waits_ok_def)
  then obtain y where y: "thr s c = Some y" "ptid y = Some p" using assms(3) by (auto simp: wait_inv_def is_child_def)
  have "at y \<notin> {X_own, X_parent, P_done}" using w assms(3,4) y(1) unfolding wait_inv_def by fastforce
  moreover have "family_step c Go s = Some (Inr (goto_place c X_up s))" if "at y = X_test"
  proof -
    have "awaited_tid (c_rel s p) = int c" using w assms(3) unfolding wait_inv_def by simp
    moreover have "\<not> rel_freed (c_rel s p)" using parent_live(1) [OF _ y] ok that by (simp add: family_ok_def)
    ultimately show ?thesis using y that by (simp add: family_step_def exit_step_def with_rel_def)
  qed
  ultimately show ?thesis using y by blast
qed

theorem wait_no_lost_wakeup_witness:
  "\<exists>y. thr (ex_family (ex_family_start @ [(0, Wait 1), (0, Go), (0, Go), (1, Exit 7), (1, Go)])) 1 = Some y \<and> at y \<notin> {X_own, X_parent, P_done}"
proof -
  define s where "s = ex_family (ex_family_start @ [(0, Wait 1), (0, Go), (0, Go), (1, Exit 7), (1, Go)])"
  have r: "family_run (first_process 0) s" unfolding s_def by (rule ex_family_run) (simp add: ex_family_simps)
  obtain x where "thr s 0 = Some x" "at x = W_down 1" "p_sema (c_rel s 0) = 0" by (simp add: s_def ex_family_simps)
  from wait_no_lost_wakeup [OF r this] show ?thesis unfolding s_def [symmetric] by blast
qed

text \<open>
  C1. What \<^verbatim>\<open>process_wait\<close> returns: when a parent calls it for one of its children while nothing is left over
  from an earlier wait, then, however the threads interleave, the call returns the exit status of
  this child, which has exited, and nothing else; and a second call for the same child returns -1
  at once.
\<close>

theorem process_wait_correct:
  assumes "family_run (first_process g) s" "thr s p = Some x" "at x = P_run" "c \<in> set (children_tids x)" "clean s p"
    "family_step p (Wait c) s = Some (Inr s1)" "family_run s1 s2" "thr s2 p = Some x2"
  shows "(waits_for (at x2) = Some c \<longrightarrow> (\<forall>s3 x3. family_step p Go s2 = Some (Inr s3) \<and> thr s3 p = Some x3 \<longrightarrow> waits_for (at x3) = Some c \<or>
      at x3 = P_run \<and> (\<exists>y. thr s3 c = Some y \<and> pushed (at y) \<and> answer x3 = Some (exit_status y)))) \<and>
    (at x2 = P_run \<longrightarrow> family_step p (Wait c) s2 = Some (Inr (return_value p (-1) s2)))"
proof -
  have ok: "family_ok s" by (rule family_run_ok [OF assms(1) first_process_ok])
  have ok1: "family_ok s1" using family_step_ok [OF ok assms(6)] by auto
  have ok2: "family_ok s2" by (rule family_run_ok [OF assms(7) ok1])
  have w: "waiting s2 p c" by (rule waiting_run [OF assms(7) ok1 waiting_start [OF ok assms(2-6)]])
  have "c \<notin> set (children_tids x2)" using w assms(8) by (simp add: waiting_def)
  then have "family_step p (Wait c) s2 = Some (Inr (return_value p (-1) s2))" if "at x2 = P_run"
    using that assms(8) by (simp add: family_step_def process_wait_def)
  then show ?thesis using waiting_own [OF ok2 w _ assms(8)] by blast
qed

theorem process_wait_correct_witness:
  "\<exists>s x. steps (first_process 0) (ex_family_start @ [(0, Wait 1), (0, Go), (1, Exit 7), (1, Go), (0, Go), (0, Go)]) = Some s \<and>
     thr s 0 = Some x \<and> at x = P_run \<and> answer x = Some 7"
proof -
  define s where "s = ex_family ex_family_start"
  define s1 where "s1 = ex_family (ex_family_start @ [(0, Wait 1)])"
  define s2 where "s2 = ex_family (ex_family_start @ [(0, Wait 1), (0, Go), (1, Exit 7), (1, Go), (0, Go)])"
  have r: "family_run (first_process 0) s" unfolding s_def by (rule ex_family_run) (simp add: ex_family_simps)
  have e: "family_step 0 (Wait 1) s = Some (Inr s1)" by (simp add: s_def s1_def ex_family_simps)
  have "steps s1 [(0, Go), (1, Exit 7), (1, Go), (0, Go)] = Some s2" by (simp add: s1_def s2_def ex_family_simps)
  then have r2: "family_run s1 s2" by (rule steps_run) (rule family_run.refl)
  obtain x where x: "thr s 0 = Some x" "at x = P_run" "1 \<in> set (children_tids x)" by (simp add: s_def ex_family_simps)
  have c: "clean s 0" by (auto simp: clean_def s_def ex_family_simps split: if_splits)
  obtain x2 where x2: "thr s2 0 = Some x2" "waits_for (at x2) = Some 1" by (simp add: s2_def ex_family_simps)
  obtain s3 x3 where s3: "family_step 0 Go s2 = Some (Inr s3)" "thr s3 0 = Some x3" "waits_for (at x3) = None" "thr s3 1 = thr s2 1"
    by (simp add: s2_def ex_family_simps)
  have "at x3 = P_run \<and> (\<exists>y. thr s3 1 = Some y \<and> answer x3 = Some (exit_status y))"
    using process_wait_correct [OF r x c e r2 x2(1)] x2(2) s3(1-3) by fastforce
  moreover have "\<exists>y. thr s2 1 = Some y \<and> exit_status y = 7" by (simp add: s2_def ex_family_simps)
  moreover have "steps (first_process 0) (ex_family_start @ [(0, Wait 1), (0, Go), (1, Exit 7), (1, Go), (0, Go), (0, Go)]) = Some s3"
    using s3(1) by (simp add: s2_def ex_family_simps)
  ultimately show ?thesis using s3(2,4) by auto
qed



end
