(* ===== verification/CmdLine.thy ===== *)
theory CmdLine
  imports KString
begin

text \<open>
  What \<^verbatim>\<open>process_execute\<close> (\<^verbatim>\<open>userprog/process.c\<close>) does with the command line before it starts a process: the copy
  with the superfluous spaces removed and the name of the executable. The copy is a buffer of one
  byte more than the command line is long; an access outside of it is a failure.
\<close>

section \<open>The loops\<close>

text \<open>The loop that moves the rest of the buffer one to the left, from index \<open>k\<close> on; \<open>n\<close> is the length of the command line.\<close>

partial_function (option) shift_loop :: "u8 list \<Rightarrow> nat \<Rightarrow> nat \<Rightarrow> u8 list run" where
  "shift_loop buf k n =
     (if k < n
      then rbind (Some (arr_get buf (k + 1))) (\<lambda>c.
           rbind (Some (arr_set buf k c)) (\<lambda>buf. shift_loop buf (k + 1) n))
      else Some (Inr buf))"

partial_function (option) squeeze_loop :: "u8 list \<Rightarrow> nat \<Rightarrow> bool \<Rightarrow> nat \<Rightarrow> u8 list run" where
  "squeeze_loop buf stri prv_ch_sp n =
     (if stri < n
      then rbind (Some (arr_get buf stri)) (\<lambda>c.
        if c = 32
        then if prv_ch_sp
             then rbind (shift_loop buf stri n) (\<lambda>buf.
                  rbind (Some (arr_set buf (n - 1) 0)) (\<lambda>buf. squeeze_loop buf stri True n))
             else squeeze_loop buf (stri + 1) True n
        else squeeze_loop buf (stri + 1) False n)
      else Some (Inr buf))"

partial_function (option) trim_loop :: "u8 list \<Rightarrow> nat \<Rightarrow> u8 list run" where
  "trim_loop buf stri =
     rbind (Some (arr_get buf stri)) (\<lambda>c.
       if c = 32 then rbind (Some (arr_set buf stri 0)) (\<lambda>buf. trim_loop buf (sz (stri + SIZE_MAX))) else Some (Inr buf))"

partial_function (option) name_loop :: "u8 list \<Rightarrow> nat \<Rightarrow> nat run" where
  "name_loop buf it =
     rbind (Some (arr_get buf it)) (\<lambda>c. if c \<noteq> 32 \<and> c \<noteq> 0 then name_loop buf (it + 1) else Some (Inr it))"

text \<open>The string at the start of a buffer.\<close>

definition buf_str :: "u8 list \<Rightarrow> u8 list" where
  "buf_str = takeWhile (\<lambda>c. c \<noteq> 0)"

text \<open>The name of the executable and the command line that are handed to the new process.\<close>

definition prepare_command :: "u8 list \<Rightarrow> (u8 list \<times> u8 list) run" where
  "prepare_command command_line =
     (let n = length command_line; cmd_copy = command_line @ [0]
      in rbind (squeeze_loop cmd_copy 0 True n) (\<lambda>cmd_copy.
         rbind (trim_loop cmd_copy n) (\<lambda>cmd_copy.
         rbind (name_loop cmd_copy 0) (\<lambda>it.
           Some (Inr (take it command_line, buf_str cmd_copy))))))"

section \<open>Words\<close>

text \<open>A string without the spaces that follow a space or begin it.\<close>

fun squeeze :: "bool \<Rightarrow> u8 list \<Rightarrow> u8 list" where
  "squeeze p [] = []"
| "squeeze p (c # cs) = (if c = 32 then if p then squeeze True cs else 32 # squeeze True cs else c # squeeze False cs)"

text \<open>The words of a string; they are its tokens for the delimiter that is a space.\<close>

fun words :: "u8 list \<Rightarrow> u8 list \<Rightarrow> u8 list list" where
  "words w [] = (if w = [] then [] else [w])"
| "words w (c # cs) = (if c = 32 then if w = [] then words [] cs else w # words [] cs else words (w @ [c]) cs)"

lemma words_squeeze: "words w (squeeze (w = []) cs) = words w cs"
  by (induction w cs rule: words.induct) (auto split: if_splits)

lemma toks_space: "toks [32] (32 # cs) = toks [32] cs"
  by (simp add: toks.simps [of _ "32 # cs"] toks.simps [of _ cs])

lemma words_toks:
  "words w cs = (if w = [] then toks [32] cs else (w @ takeWhile (\<lambda>c. c \<noteq> 32) cs) # toks [32] (dropWhile (\<lambda>c. c \<noteq> 32) cs))"
proof (induction w cs rule: words.induct)
  case (1 w)
  then show ?case by (simp add: toks.simps)
next
  case (2 w c cs)
  then show ?case by (auto simp: toks_space) (simp add: toks.simps [of _ "c # cs"])
qed

lemma toks_squeeze: "toks [32] (squeeze True cs) = toks [32] cs"
  using words_squeeze [of "[]" cs] by (simp add: words_toks)

lemma squeeze_adjacent: "successively (\<lambda>a b. \<not> (a = 32 \<and> b = 32)) (squeeze p cs) \<and> (p \<longrightarrow> squeeze p cs = [] \<or> hd (squeeze p cs) \<noteq> 32)"
proof (induction p cs rule: squeeze.induct)
  case (2 p c cs)
  then show ?case by (cases "squeeze True cs"; cases "squeeze False cs") auto
qed simp

lemma set_squeeze: "set (squeeze p cs) \<subseteq> set cs"
  by (induction p cs rule: squeeze.induct) auto

section \<open>The loops compute them\<close>

lemma shift_loop_ok:
  assumes "k \<le> n" "n < length buf"
  shows "shift_loop buf k n = Some (Inr (take k buf @ take (n - k) (drop (k + 1) buf) @ drop n buf))"
  using assms
proof (induction "n - k" arbitrary: buf k)
  case 0
  then show ?case by (simp add: shift_loop.simps)
next
  case (Suc m)
  define buf' where "buf' = buf[k := buf ! (k + 1)]"
  have k: "k < n" using Suc by simp
  have "shift_loop buf k n = shift_loop buf' (k + 1) n"
    using k Suc.prems by (subst shift_loop.simps) (simp add: buf'_def)
  also have "\<dots> = Some (Inr (take (k + 1) buf' @ take (n - (k + 1)) (drop (k + 1 + 1) buf') @ drop n buf'))"
    using Suc k by (intro Suc.hyps(1)) (simp_all add: buf'_def)
  also have "\<dots> = Some (Inr (take k buf @ take (n - k) (drop (k + 1) buf) @ drop n buf))"
  proof -
    have a: "take (k + 1) buf' = take k buf @ [buf ! (k + 1)]" using k Suc.prems by (simp add: buf'_def take_Suc_conv_app_nth)
    have b: "drop (k + 1 + 1) buf' = drop (k + 2) buf" "drop n buf' = drop n buf" using k by (simp_all add: buf'_def drop_update_cancel)
    have "drop (k + 1) buf = buf ! (k + 1) # drop (k + 2) buf" using k Suc.prems by (simp add: Cons_nth_drop_Suc)
    moreover have "n - k = Suc (n - (k + 1))" using k by simp
    ultimately have "take (n - k) (drop (k + 1) buf) = buf ! (k + 1) # take (n - (k + 1)) (drop (k + 2) buf)" by simp
    then show ?thesis unfolding a b by simp
  qed
  finally show ?case .
qed

lemma squeeze_loop_ok:
  assumes "length ds = stri" "stri + length rest + length pad = n" "set pad \<subseteq> {0}" "0 \<notin> set rest"
  shows "\<exists>pad'. squeeze_loop (ds @ rest @ pad @ [0]) stri p n = Some (Inr (ds @ squeeze p rest @ pad' @ [0])) \<and> set pad' \<subseteq> {0} \<and>
    length ds + length (squeeze p rest) + length pad' = n"
  using assms
proof (induction "2 * length rest + length pad" arbitrary: ds rest pad stri p rule: less_induct)
  case less
  show ?case
  proof (cases rest)
    case Nil
    show ?thesis
    proof (cases pad)
      case Nil
      then show ?thesis using less.prems \<open>rest = []\<close> by (intro exI [of _ "[]"]) (simp add: squeeze_loop.simps)
    next
      case (Cons z zs)
      then have z: "z = 0" using less.prems(3) by simp
      have "squeeze_loop (ds @ rest @ pad @ [0]) stri p n = squeeze_loop ((ds @ [0]) @ [] @ zs @ [0]) (stri + 1) False n"
        using less.prems Cons z \<open>rest = []\<close> by (subst squeeze_loop.simps) (simp add: nth_append)
      moreover obtain pad' where "squeeze_loop ((ds @ [0]) @ [] @ zs @ [0]) (stri + 1) False n = Some (Inr ((ds @ [0]) @ squeeze False [] @ pad' @ [0]))" "set pad' \<subseteq> {0}"
        "length (ds @ [0]) + length pad' = n"
        using less.hyps [of "[]" zs "ds @ [0]" "stri + 1" False] less.prems Cons \<open>rest = []\<close> by auto
      ultimately show ?thesis using \<open>rest = []\<close> by (intro exI [of _ "0 # pad'"]) simp
    qed
  next
    case (Cons c rs)
    have n: "stri < n" using less.prems Cons by simp
    have get: "arr_get (ds @ rest @ pad @ [0]) stri = Inr c" using less.prems(1) Cons by (simp add: nth_append)
    consider (remove) "c = 32" p | (keep) "\<not> (c = 32 \<and> p)" by blast
    then show ?thesis
    proof cases
      case remove
      have sh: "shift_loop (ds @ rest @ pad @ [0]) stri n = Some (Inr (ds @ rs @ pad @ [0, 0]))"
      proof -
        have l: "n - stri = Suc (length rs + length pad)" "stri \<le> n" "n = length (ds @ rest @ pad)" using less.prems Cons by simp_all
        have "drop n ((ds @ rest @ pad) @ [0]) = [0]" unfolding l(3) by simp
        then show ?thesis using less.prems(1) l(1,2) Cons l(3) by (subst shift_loop_ok) simp_all
      qed
      have "arr_set (ds @ rs @ pad @ [0, 0]) (n - 1) 0 = Inr (ds @ rs @ (pad @ [0]) @ [0])"
      proof -
        define xs where "xs = ds @ rs @ pad"
        have "arr_set (xs @ [0, 0]) (length xs) 0 = Inr (xs @ [0, 0])" by (simp add: arr_set_def list_update_append)
        moreover have "n - 1 = length xs" using less.prems Cons by (simp add: xs_def)
        ultimately show ?thesis by (simp add: xs_def)
      qed
      then have "squeeze_loop (ds @ rest @ pad @ [0]) stri p n = squeeze_loop (ds @ rs @ (pad @ [0]) @ [0]) stri True n"
        using n get sh remove by (subst squeeze_loop.simps) simp
      then show ?thesis using less.hyps [of rs "pad @ [0]" "ds" stri True] less.prems Cons remove by auto
    next
      case keep
      then have "squeeze_loop (ds @ rest @ pad @ [0]) stri p n = squeeze_loop ((ds @ [c]) @ rs @ pad @ [0]) (stri + 1) (c = 32) n"
        using n get Cons by (subst squeeze_loop.simps) auto
      then show ?thesis using less.hyps [of rs pad "ds @ [c]" "stri + 1" "c = 32"] less.prems Cons keep by auto
    qed
  qed
qed

lemma name_loop_ok:
  assumes "0 \<notin> set s"
  shows "name_loop (ds @ s @ 0 # zs) (length ds) = Some (Inr (length ds + length (takeWhile (\<lambda>c. c \<noteq> 32) s)))"
  using assms
proof (induction s arbitrary: ds)
  case Nil
  then show ?case by (subst name_loop.simps) (simp add: nth_append)
next
  case (Cons c s)
  show ?case
  proof (cases "c = 32")
    case True
    then show ?thesis by (subst name_loop.simps) (simp add: nth_append)
  next
    case False
    have "name_loop (ds @ (c # s) @ 0 # zs) (length ds) = name_loop ((ds @ [c]) @ s @ 0 # zs) (length (ds @ [c]))"
      using False Cons.prems by (subst name_loop.simps) (simp add: nth_append)
    then show ?thesis using Cons.IH [of "ds @ [c]"] Cons.prems False by simp
  qed
qed

lemma prepare_command_eq:
  assumes "0 \<notin> set cs"
  shows "prepare_command cs = Some (Inr (take (length (takeWhile (\<lambda>c. c \<noteq> 32) (squeeze True cs))) cs, squeeze True cs))"
proof -
  define s where "s = squeeze True cs"
  have s0: "0 \<notin> set s" using assms set_squeeze by (auto simp: s_def)
  obtain pad' where sq: "squeeze_loop (cs @ [0]) 0 True (length cs) = Some (Inr (s @ pad' @ [0]))" "set pad' \<subseteq> {0}"
    "length s + length pad' = length cs"
    using squeeze_loop_ok [of "[]" 0 cs "[]" "length cs" True] assms by (auto simp: s_def)
  obtain zs where zs: "pad' @ [0] = 0 # zs" using sq(2) by (cases pad') auto
  have "trim_loop (s @ pad' @ [0]) (length cs) = Some (Inr (s @ pad' @ [0]))"
    unfolding sq(3) [symmetric] by (subst trim_loop.simps) (simp add: nth_append)
  moreover have "name_loop (s @ pad' @ [0]) 0 = Some (Inr (length (takeWhile (\<lambda>c. c \<noteq> 32) s)))"
    using name_loop_ok [OF s0, of "[]" zs] zs by simp
  moreover have "buf_str (s @ pad' @ [0]) = s" unfolding buf_str_def zs using s0 by (subst takeWhile_append2) auto
  ultimately show ?thesis using sq(1) by (simp add: prepare_command_def s_def)
qed

section \<open>Properties\<close>

text \<open>
  C33. The command line of a new process: for every string the loops stay within the copy and return. The
  command line handed on has the same words for \<^verbatim>\<open>strtok_r\<close> as the original, does not begin with a space and
  has no two spaces side by side. The name of the executable is the first word when the string does
  not begin with a space; otherwise it is a part of the string of the right length that begins with
  the spaces.
\<close>

theorem prepare_command_correct:
  assumes "0 \<notin> set cs"
  shows "\<exists>name line. prepare_command cs = Some (Inr (name, line)) \<and> toks [32] line = toks [32] cs \<and>
    (line = [] \<or> hd line \<noteq> 32) \<and> successively (\<lambda>a b. \<not> (a = 32 \<and> b = 32)) line \<and>
    name = take (length (takeWhile (\<lambda>c. c \<noteq> 32) line)) cs \<and>
    (cs = [] \<or> hd cs \<noteq> 32 \<longrightarrow> name = takeWhile (\<lambda>c. c \<noteq> 32) cs)"
proof -
  have w: "takeWhile (\<lambda>c. c \<noteq> 32) (squeeze p cs) = takeWhile (\<lambda>c. c \<noteq> 32) cs" if "cs = [] \<or> hd cs \<noteq> 32 \<or> \<not> p" for p
    using that by (induction p cs rule: squeeze.induct) auto
  have "take (length (takeWhile (\<lambda>c. c \<noteq> 32) cs)) cs = takeWhile (\<lambda>c. c \<noteq> 32) cs"
    by (simp add: takeWhile_eq_take [symmetric])
  then show ?thesis using prepare_command_eq [OF assms] toks_squeeze squeeze_adjacent [of True cs] w [of True] by auto
qed

theorem prepare_command_correct_witness:
  "\<exists>name line. prepare_command [108, 115, 32, 32, 97] = Some (Inr (name, line)) \<and> name = [108, 115] \<and>
     toks [32] line = toks [32] [108, 115, 32, 32, 97]"
  using prepare_command_correct [of "[108, 115, 32, 32, 97]"] by fastforce

end
