(* ===== verification/Stdlib.thy ===== *)
theory Stdlib
  imports KString "HOL-Library.Multiset"
begin

text \<open>
  Sorting, searching and number parsing of \<^verbatim>\<open>lib/stdlib.c\<close>, with the character classes of \<^verbatim>\<open>lib/ctype.h\<close> it
  uses. An array is a block of memory with elements of \<open>esize\<close> bytes; the comparison function is an argument
  that reads the memory at two addresses. Indices into the heap are 32-bit sizes that wrap, so that the
  loop of \<^verbatim>\<open>heapify\<close> need not end for arrays that fill half of the address space. Shown: for a comparison that
  orders the bytes of the elements like \<^verbatim>\<open>strcmp\<close>, sorting returns, leaves an ordered permutation and
  touches nothing else; binary search finds an equal element exactly when there is one; \<^verbatim>\<open>atoi\<close> computes the
  number, down to the smallest one.
\<close>

section \<open>Signed machine integers and characters\<close>

text \<open>The \<^verbatim>\<open>int\<close> that a result outside of the range becomes on the machine.\<close>

definition s32 :: "int \<Rightarrow> int" where
  "s32 x = (x + 2147483648) mod 4294967296 - 2147483648"

lemma s32_id [simp]: "- 2147483648 \<le> x \<Longrightarrow> x < 2147483648 \<Longrightarrow> s32 x = x"
  by (simp add: s32_def)

definition isdigit :: "u8 \<Rightarrow> bool" where
  "isdigit c \<longleftrightarrow> 48 \<le> c \<and> c \<le> 57"

definition isspace :: "u8 \<Rightarrow> bool" where
  "isspace c \<longleftrightarrow> c = 32 \<or> c = 12 \<or> c = 10 \<or> c = 13 \<or> c = 9 \<or> c = 11"

section \<open>Numbers in text\<close>

partial_function (option) skip_spaces :: "memory \<Rightarrow> addr \<Rightarrow> addr option" where
  "skip_spaces m s = (if isspace (m s) then skip_spaces m (s + 1) else Some s)"

partial_function (option) digits_loop :: "memory \<Rightarrow> addr \<Rightarrow> int \<Rightarrow> int option" where
  "digits_loop m s v =
     (if isdigit (m s) then digits_loop m (s + 1) (s32 (s32 (v * 10) - (uint (m s) - 48))) else Some v)"

definition atoi :: "memory \<Rightarrow> addr \<Rightarrow> int run" where
  "atoi m s =
     rbind (Some (kassert (s \<noteq> NULL))) (\<lambda>_.
     Option.bind (skip_spaces m s) (\<lambda>s.
     let negative = (m s = 45);
         s = (if m s = 43 then s + 1 else if m s = 45 then s + 1 else s)
     in Option.bind (digits_loop m s 0) (\<lambda>v. Some (Inr (if negative then v else s32 (- v))))))"

section \<open>Sorting\<close>

type_synonym compare_func = "memory \<Rightarrow> addr \<Rightarrow> addr \<Rightarrow> int"

fun swap_loop :: "memory \<Rightarrow> addr \<Rightarrow> addr \<Rightarrow> nat \<Rightarrow> nat \<Rightarrow> memory" where
  "swap_loop m a b i 0 = m"
| "swap_loop m a b i (Suc n) = swap_loop (m(a + i := m (b + i), b + i := m (a + i))) a b (i + 1) n"

definition do_swap :: "memory \<Rightarrow> addr \<Rightarrow> nat \<Rightarrow> nat \<Rightarrow> nat \<Rightarrow> memory" where
  "do_swap m array a_idx b_idx esize =
     swap_loop m (array + (a_idx - 1) * esize) (array + (b_idx - 1) * esize) 0 esize"

definition do_compare :: "memory \<Rightarrow> addr \<Rightarrow> nat \<Rightarrow> nat \<Rightarrow> nat \<Rightarrow> compare_func \<Rightarrow> int" where
  "do_compare m array a_idx b_idx esize compare =
     compare m (array + (a_idx - 1) * esize) (array + (b_idx - 1) * esize)"

definition heap_max :: "memory \<Rightarrow> addr \<Rightarrow> nat \<Rightarrow> nat \<Rightarrow> nat \<Rightarrow> compare_func \<Rightarrow> nat" where
  "heap_max m array i cnt esize compare =
     (let left = sz (2 * i);
          right = sz (2 * i + 1);
          mx = (if left \<le> cnt \<and> do_compare m array left i esize compare > 0 then left else i)
      in if right \<le> cnt \<and> do_compare m array right mx esize compare > 0 then right else mx)"

partial_function (option) heapify :: "memory \<Rightarrow> addr \<Rightarrow> nat \<Rightarrow> nat \<Rightarrow> nat \<Rightarrow> compare_func \<Rightarrow> memory run" where
  "heapify m array i cnt esize compare =
     (let mx = heap_max m array i cnt esize compare
      in if mx = i then Some (Inr m)
         else heapify (do_swap m array i mx esize) array mx cnt esize compare)"

fun build_heap :: "memory \<Rightarrow> addr \<Rightarrow> nat \<Rightarrow> nat \<Rightarrow> nat \<Rightarrow> compare_func \<Rightarrow> memory run" where
  "build_heap m array 0 cnt esize compare = Some (Inr m)"
| "build_heap m array (Suc i) cnt esize compare =
     rbind (heapify m array (Suc i) cnt esize compare) (\<lambda>m. build_heap m array i cnt esize compare)"

fun sort_heap :: "memory \<Rightarrow> addr \<Rightarrow> nat \<Rightarrow> nat \<Rightarrow> compare_func \<Rightarrow> memory run" where
  "sort_heap m array 0 esize compare = Some (Inr m)"
| "sort_heap m array (Suc i) esize compare =
     (if Suc i > 1
      then rbind (heapify (do_swap m array 1 (Suc i) esize) array 1 i esize compare) (\<lambda>m.
             sort_heap m array i esize compare)
      else Some (Inr m))"

definition sort_array :: "memory \<Rightarrow> addr \<Rightarrow> nat \<Rightarrow> nat \<Rightarrow> compare_func \<Rightarrow> memory run" where
  "sort_array m array cnt esize compare =
     rbind (Some (kassert (array \<noteq> NULL \<or> cnt = 0))) (\<lambda>_.
     rbind (Some (kassert (esize > 0))) (\<lambda>_.
     rbind (build_heap m array (cnt div 2) cnt esize compare) (\<lambda>m.
       sort_heap m array cnt esize compare)))"

definition compare_thunk :: "memory \<Rightarrow> addr \<Rightarrow> addr \<Rightarrow> compare_func \<Rightarrow> int" where
  "compare_thunk m a b compare = compare m a b"

definition qsort :: "memory \<Rightarrow> addr \<Rightarrow> nat \<Rightarrow> nat \<Rightarrow> compare_func \<Rightarrow> memory run" where
  "qsort m array cnt esize compare =
     sort_array m array cnt esize (\<lambda>m a b. compare_thunk m a b compare)"

section \<open>Searching\<close>

function search_loop :: "memory \<Rightarrow> addr \<Rightarrow> addr \<Rightarrow> addr \<Rightarrow> nat \<Rightarrow> compare_func \<Rightarrow> addr outcome" where
  "search_loop m key lo hi esize compare =
     (if \<not> lo < hi then Inr NULL
      else if esize = 0 then Inl Divide_error
      else let range = (hi - lo) div esize;
               middle = lo + (range div 2) * esize;
               cmp = compare m key middle
           in if cmp < 0 then search_loop m key lo middle esize compare
              else if cmp > 0 then search_loop m key (middle + esize) hi esize compare
              else Inr middle)"
  by pat_completeness auto
termination
proof (relation "measure (\<lambda>(m, key, lo, hi, esize, compare). hi - lo)", goal_cases)
  case (2 m key lo hi esize compare x xa xb)
  have "(hi - lo) div esize div 2 * esize \<le> (hi - lo) div 2"
    by (metis div_mult2_eq div_times_less_eq_dividend mult.commute)
  moreover have "(hi - lo) div 2 < hi - lo"
    using 2(1) by simp
  ultimately have "(hi - lo) div esize div 2 * esize < hi - lo"
    by (rule le_less_trans)
  with 2 show ?case
    by auto
qed auto

definition binary_search :: "memory \<Rightarrow> addr \<Rightarrow> addr \<Rightarrow> nat \<Rightarrow> nat \<Rightarrow> compare_func \<Rightarrow> addr outcome" where
  "binary_search m key array cnt esize compare = search_loop m key array (array + esize * cnt) esize compare"

definition bsearch :: "memory \<Rightarrow> addr \<Rightarrow> addr \<Rightarrow> nat \<Rightarrow> nat \<Rightarrow> compare_func \<Rightarrow> addr outcome" where
  "bsearch m key array cnt esize compare =
     binary_search m key array cnt esize (\<lambda>m a b. compare_thunk m a b compare)"

section \<open>The elements of an array\<close>

definition bytes_at :: "memory \<Rightarrow> addr \<Rightarrow> nat \<Rightarrow> u8 list" where
  "bytes_at m p n = map (\<lambda>k. m (p + k)) [0..<n]"

lemma bytes_at_cong: "(\<And>k. k < n \<Longrightarrow> m' (p' + k) = m (p + k)) \<Longrightarrow> bytes_at m' p' n = bytes_at m p n"
  by (simp add: bytes_at_def)

text \<open>The element with an index that counts from 1, as in the source.\<close>

definition elem :: "memory \<Rightarrow> addr \<Rightarrow> nat \<Rightarrow> nat \<Rightarrow> u8 list" where
  "elem m array esize j = bytes_at m (array + (j - 1) * esize) esize"

definition elems :: "memory \<Rightarrow> addr \<Rightarrow> nat \<Rightarrow> nat \<Rightarrow> u8 list list" where
  "elems m array cnt esize = map (elem m array esize) [1..<cnt + 1]"

text \<open>A comparison that orders elements by their bytes, with the results of \<^verbatim>\<open>strcmp\<close>.\<close>

definition strcmp_like :: "(u8 list \<Rightarrow> u8 list \<Rightarrow> int) \<Rightarrow> bool" where
  "strcmp_like c \<longleftrightarrow> (\<forall>x y. c x y > 0 \<longleftrightarrow> c y x < 0) \<and> (\<forall>x y z. c x y \<le> 0 \<longrightarrow> c y z \<le> 0 \<longrightarrow> c x z \<le> 0)"

definition compares_by :: "compare_func \<Rightarrow> (u8 list \<Rightarrow> u8 list \<Rightarrow> int) \<Rightarrow> nat \<Rightarrow> bool" where
  "compares_by compare c esize \<longleftrightarrow> (\<forall>m a b. compare m a b = c (bytes_at m a esize) (bytes_at m b esize))"

lemma strcmp_like_total: "strcmp_like c \<Longrightarrow> \<not> c x y \<le> 0 \<Longrightarrow> c y x \<le> 0"
  by (meson linorder_not_le order_less_imp_le strcmp_like_def)

lemma strcmp_like_refl: "strcmp_like c \<Longrightarrow> c x x \<le> 0"
  by (meson linorder_not_le less_asym strcmp_like_def)

lemma strcmp_like_trans: "strcmp_like c \<Longrightarrow> c x y \<le> 0 \<Longrightarrow> c y z \<le> 0 \<Longrightarrow> c x z \<le> 0"
  unfolding strcmp_like_def by blast

lemma block_before:
  assumes "0 < j" "j < a"
  shows "(j - 1) * s + s \<le> (a - 1) * (s :: nat)"
proof -
  have "(j - 1) * s + s = j * s"
    using assms(1) by (cases j) simp_all
  also have "\<dots> \<le> (a - 1) * s"
    using assms(2) by (intro mult_le_mono1) simp
  finally show ?thesis .
qed

lemma swap_loop_at:
  assumes "a + i + n \<le> b"
  shows "swap_loop m a b i n x =
    (if a + i \<le> x \<and> x < a + i + n then m (x - a + b)
     else if b + i \<le> x \<and> x < b + i + n then m (x - b + a) else m x)"
  using assms
proof (induction n arbitrary: m i)
  case (Suc n)
  show ?case
    using Suc.prems by (auto simp: Suc.IH ac_simps)
qed auto

lemma swap_loop_bytes:
  assumes "a + n \<le> b"
  shows "bytes_at (swap_loop m a b 0 n) a n = bytes_at m b n"
    "bytes_at (swap_loop m a b 0 n) b n = bytes_at m a n"
    "p + n \<le> a \<or> a + n \<le> p \<Longrightarrow> p + n \<le> b \<or> b + n \<le> p \<Longrightarrow> bytes_at (swap_loop m a b 0 n) p n = bytes_at m p n"
  using assms by (auto intro!: bytes_at_cong simp: swap_loop_at ac_simps)

lemma elem_do_swap:
  assumes "0 < a" "a < b" "0 < j"
  shows "elem (do_swap m array a b esize) array esize j =
    (if j = a then elem m array esize b else if j = b then elem m array esize a else elem m array esize j)"
proof -
  let ?p = "\<lambda>j. array + (j - 1) * esize"
  have far: "?p j + esize \<le> ?p c \<or> ?p c + esize \<le> ?p j" if "j \<noteq> c" "0 < c" for c
    using that assms(3) block_before [of j c esize] block_before [of c j esize] by (cases j c rule: linorder_cases) auto
  have ab: "?p a + esize \<le> ?p b"
    using block_before [OF assms(1,2), of esize] by simp
  show ?thesis
    unfolding elem_def do_swap_def
    using far [of a] far [of b] assms swap_loop_bytes [OF ab] by auto
qed

lemma do_swap_outside:
  assumes "0 < a" "a < b" "b \<le> cnt" "x < array \<or> array + cnt * esize \<le> x"
  shows "do_swap m array a b esize x = m x"
proof -
  let ?p = "\<lambda>j. array + (j - 1) * esize"
  have "?p a + 0 + esize \<le> ?p b"
    using block_before [OF assms(1,2), of esize] by simp
  note at = swap_loop_at [OF this]
  have "?p b + esize \<le> array + cnt * esize" "?p a + esize \<le> ?p b" "array \<le> ?p a"
    using assms block_before [of b "cnt + 1" esize] block_before [OF assms(1,2), of esize] by auto
  with assms(4) show ?thesis
    unfolding do_swap_def at by auto
qed

section \<open>Heaps\<close>

text \<open>
  The array as a function of the index: \<open>heap_from\<close> says that every element from index \<open>lo\<close> on is at least
  its children up to index \<open>n\<close>, \<open>sifting\<close> that this may be wrong only at one place, which
  \<^verbatim>\<open>heapify\<close> moves down.
\<close>

definition heap_from :: "('e \<Rightarrow> 'e \<Rightarrow> bool) \<Rightarrow> (nat \<Rightarrow> 'e) \<Rightarrow> nat \<Rightarrow> nat \<Rightarrow> bool" where
  "heap_from le A lo n \<longleftrightarrow> (\<forall>c\<le>n. lo \<le> c div 2 \<longrightarrow> 0 < c div 2 \<longrightarrow> le (A c) (A (c div 2)))"

definition sifting :: "('e \<Rightarrow> 'e \<Rightarrow> bool) \<Rightarrow> (nat \<Rightarrow> 'e) \<Rightarrow> nat \<Rightarrow> nat \<Rightarrow> nat \<Rightarrow> bool" where
  "sifting le A lo i n \<longleftrightarrow>
     (\<forall>c\<le>n. lo \<le> c div 2 \<longrightarrow> 0 < c div 2 \<longrightarrow> c div 2 \<noteq> i \<longrightarrow> le (A c) (A (c div 2))) \<and>
     (\<forall>c\<le>n. c div 2 = i \<longrightarrow> lo \<le> i div 2 \<longrightarrow> 0 < i div 2 \<longrightarrow> le (A c) (A (i div 2)))"

definition exchange :: "nat \<Rightarrow> nat \<Rightarrow> (nat \<Rightarrow> 'e) \<Rightarrow> nat \<Rightarrow> 'e" where
  "exchange a b A j = (if j = a then A b else if j = b then A a else A j)"

lemma heap_from_sifting: "heap_from le A (Suc i) n \<Longrightarrow> sifting le A i i n"
  unfolding heap_from_def sifting_def by auto

lemma sifting_done:
  assumes "sifting le A lo i n" "\<And>c. c \<le> n \<Longrightarrow> c div 2 = i \<Longrightarrow> le (A c) (A i)"
  shows "heap_from le A lo n"
  using assms unfolding heap_from_def sifting_def by metis

text \<open>Moving the larger child up keeps the order everywhere but below its old place.\<close>

lemma sifting_step:
  assumes s: "sifting le A lo i n" and mx: "mx div 2 = i" "mx \<le> n" "0 < i" "lo \<le> i"
    and largest: "\<And>c. c \<le> n \<Longrightarrow> c div 2 = i \<Longrightarrow> le (A c) (A mx)" "le (A i) (A mx)"
    and refl: "\<And>x. le x x"
  shows "sifting le (exchange i mx A) lo mx n"
  unfolding sifting_def
proof (intro conjI allI impI)
  have "mx \<noteq> i" "i < mx"
    using mx by auto
  fix c assume c: "c \<le> n" "lo \<le> c div 2" "0 < c div 2" "c div 2 \<noteq> mx"
  show "le (exchange i mx A c) (exchange i mx A (c div 2))"
  proof (cases "c div 2 = i")
    case True
    with largest c refl \<open>mx \<noteq> i\<close> show ?thesis
      by (auto simp: exchange_def)
  next
    case False
    then show ?thesis
      using s c mx \<open>mx \<noteq> i\<close> by (auto simp: exchange_def sifting_def)
  qed
next
  fix c assume c: "c \<le> n" "c div 2 = mx" "lo \<le> mx div 2" "0 < mx div 2"
  have "mx \<noteq> i" "c \<noteq> i" "c \<noteq> mx"
    using mx c by auto
  with s c mx show "le (exchange i mx A c) (exchange i mx A (mx div 2))"
    by (auto simp: exchange_def sifting_def)
qed

lemma heap_root:
  assumes "heap_from le A 1 n" "0 < c" "c \<le> n" "\<And>x. le x x" "\<And>x y z. le x y \<Longrightarrow> le y z \<Longrightarrow> le x z"
  shows "le (A c) (A 1)"
  using assms(2,3)
proof (induction c rule: less_induct)
  case (less c)
  show ?case
  proof (cases "c = 1")
    case False
    then have "0 < c div 2" "c div 2 < c"
      using less.prems by auto
    then have "le (A (c div 2)) (A 1)" "le (A c) (A (c div 2))"
      using less assms(1) by (simp_all add: heap_from_def Suc_le_eq)
    then show ?thesis
      using assms(5) by blast
  qed (simp add: assms(4))
qed

section \<open>Sorting returns an ordered permutation\<close>

lemma mset_exchange:
  assumes "0 < a" "a < b" "b \<le> n"
  shows "mset (map (exchange a b A) [1..<n + 1]) = mset (map A [1..<n + 1])"
proof -
  have "map (exchange a b A) [1..<n + 1] =
      (map A [1..<n + 1])[b - 1 := map A [1..<n + 1] ! (a - 1), a - 1 := map A [1..<n + 1] ! (b - 1)]"
    using assms by (intro nth_equalityI) (auto simp: exchange_def nth_list_update simp del: upt_Suc)
  then show ?thesis
    using assms by (simp add: mset_swap)
qed

lemma elems_do_swap:
  assumes "0 < a" "a < b" "b \<le> n"
  shows "elems (do_swap m array a b esize) array n esize = map (exchange a b (elem m array esize)) [1..<n + 1]"
  using assms by (auto simp: elems_def elem_do_swap exchange_def)

lemma heap_max_ok:
  fixes m :: memory and array :: addr and n :: nat
  assumes "compares_by compare c esize" "strcmp_like c" "0 < i" "i < 2147483648"
  defines "A \<equiv> elem m array esize"
  defines "mx \<equiv> heap_max m array i n esize compare"
  shows "mx = i \<or> mx div 2 = i \<and> mx \<le> n"
    and "\<And>ch. ch \<le> n \<Longrightarrow> ch div 2 = i \<Longrightarrow> c (A ch) (A mx) \<le> 0"
    and "c (A i) (A mx) \<le> 0"
proof -
  have cmp: "do_compare m array a b esize compare = c (A a) (A b)" for a b
    using assms(1) by (simp add: do_compare_def compares_by_def A_def elem_def)
  have small: "sz (2 * i) = 2 * i" "sz (2 * i + 1) = 2 * i + 1"
    using assms(4) by simp_all
  have gt: "c y x \<le> 0" if "0 < c x y" for x y
    using strcmp_like_total [OF assms(2), of x y] that by simp
  note le = strcmp_like_refl [OF assms(2)] gt strcmp_like_trans [OF assms(2) gt gt]
    strcmp_like_trans [OF assms(2) _ gt]
  have mx: "mx = (let mx = (if 2 * i \<le> n \<and> c (A (2 * i)) (A i) > 0 then 2 * i else i)
      in if 2 * i + 1 \<le> n \<and> c (A (2 * i + 1)) (A mx) > 0 then 2 * i + 1 else mx)"
    unfolding mx_def heap_max_def by (simp only: cmp small Let_def)
  show "mx = i \<or> mx div 2 = i \<and> mx \<le> n"
    unfolding mx Let_def by auto
  show i: "c (A i) (A mx) \<le> 0"
    unfolding mx Let_def by (auto simp: le(1) not_less intro: le(2-4))
  have "c (A (2 * i)) (A mx) \<le> 0" if "2 * i \<le> n"
    using that unfolding mx Let_def by (auto simp: le(1) not_less intro: le(2-4))
  moreover have "c (A (2 * i + 1)) (A mx) \<le> 0" if "2 * i + 1 \<le> n"
    using that unfolding mx Let_def by (auto simp: le(1) not_less intro: le(2-4))
  moreover have "ch = 2 * i \<or> ch = 2 * i + 1" if "ch div 2 = i" for ch
    using that by auto
  ultimately show "c (A ch) (A mx) \<le> 0" if "ch \<le> n" "ch div 2 = i" for ch
    using that by metis
qed

text \<open>What one call of \<^verbatim>\<open>heapify\<close> leaves: the same elements and nothing else changed.\<close>

definition same_elems :: "memory \<Rightarrow> memory \<Rightarrow> addr \<Rightarrow> nat \<Rightarrow> nat \<Rightarrow> bool" where
  "same_elems m m' array n esize \<longleftrightarrow>
     mset (elems m' array n esize) = mset (elems m array n esize) \<and>
     (\<forall>x. x < array \<or> array + n * esize \<le> x \<longrightarrow> m' x = m x)"

lemma same_elems_refl [simp]: "same_elems m m array n esize"
  by (simp add: same_elems_def)

lemma same_elems_trans:
  "same_elems m m1 array n esize \<Longrightarrow> same_elems m1 m2 array n esize \<Longrightarrow> same_elems m m2 array n esize"
  by (simp add: same_elems_def)

lemma same_elems_swap:
  assumes "0 < a" "a < b" "b \<le> n"
  shows "same_elems m (do_swap m array a b esize) array n esize"
  using assms mset_exchange [of a b n "elem m array esize"]
  by (simp add: same_elems_def elems_do_swap do_swap_outside) (simp add: elems_def)

lemma heapify_ok:
  assumes "compares_by compare c esize" "strcmp_like c" "0 < lo" "lo \<le> i" "n < 2147483648"
    and "i \<le> n \<or> i = 1" "sifting (\<lambda>x y. c x y \<le> 0) (elem m array esize) lo i n"
  shows "\<exists>m'. heapify m array i n esize compare = Some (Inr m') \<and>
    heap_from (\<lambda>x y. c x y \<le> 0) (elem m' array esize) lo n \<and> same_elems m m' array n esize"
  using assms(4,6,7)
proof (induction "n - i" arbitrary: i m rule: less_induct)
  case less
  define mx where "mx = heap_max m array i n esize compare"
  have i: "0 < i" "i < 2147483648"
    using less.prems assms(3,5) by auto
  note mx = heap_max_ok [OF assms(1,2) i, where m = m and array = array and n = n, folded mx_def]
  show ?case
  proof (cases "mx = i")
    case True
    then show ?thesis
      using sifting_done [OF less.prems(3)] mx(2) by (subst heapify.simps) (simp add: mx_def [symmetric])
  next
    case False
    then have down: "mx div 2 = i" "mx \<le> n" "i < mx"
      using mx(1) i by auto
    let ?m = "do_swap m array i mx esize"
    have "sifting (\<lambda>x y. c x y \<le> 0) (exchange i mx (elem m array esize)) lo mx n"
      using less.prems(1,3) down i mx(2,3) strcmp_like_refl [OF assms(2)] by (intro sifting_step) auto
    then have "sifting (\<lambda>x y. c x y \<le> 0) (elem ?m array esize) lo mx n"
      using i down by (auto simp: sifting_def elem_do_swap exchange_def)
    then obtain m' where "heapify ?m array mx n esize compare = Some (Inr m')"
      "heap_from (\<lambda>x y. c x y \<le> 0) (elem m' array esize) lo n" "same_elems ?m m' array n esize"
      using less.hyps [of mx ?m] less.prems(1) down diff_less_mono2 [of i mx n] by fastforce
    moreover have "same_elems m ?m array n esize"
      using down i by (intro same_elems_swap) auto
    ultimately show ?thesis
      using False by (subst heapify.simps) (auto simp: mx_def [symmetric] Let_def intro: same_elems_trans)
  qed
qed

lemma same_elems_beyond:
  assumes "same_elems m m' array i esize" "i < j"
  shows "elem m' array esize j = elem m array esize j"
proof -
  have "i * esize \<le> (j - 1) * esize"
    using assms(2) by (intro mult_le_mono1) simp
  then have "\<And>k. array + i * esize \<le> array + (j - 1) * esize + k"
    by linarith
  with assms(1) show ?thesis
    unfolding elem_def same_elems_def by (intro bytes_at_cong) blast
qed

lemma same_elems_mono:
  assumes "same_elems m m' array i esize" "i \<le> n"
  shows "same_elems m m' array n esize"
proof -
  have "[1..<n + 1] = [1..<i + 1] @ [i + 1..<n + 1]"
    using assms(2) upt_add_eq_append [of 1 "i + 1" "n - i"] by simp
  then have "elems x array n esize = elems x array i esize @ map (elem x array esize) [i + 1..<n + 1]" for x
    by (simp add: elems_def)
  moreover have "map (elem m' array esize) [i + 1..<n + 1] = map (elem m array esize) [i + 1..<n + 1]"
    using same_elems_beyond [OF assms(1)] by (simp del: upt_Suc)
  ultimately have "mset (elems m' array n esize) = mset (elems m array n esize)"
    using assms(1) unfolding same_elems_def by (simp only: mset_append)
  moreover have "i * esize \<le> n * esize"
    using assms(2) by (rule mult_le_mono1)
  ultimately show ?thesis
    using assms(1) unfolding same_elems_def by (metis add_le_cancel_left le_trans)
qed

lemma same_elems_from:
  assumes "same_elems m m' array i esize" "0 < a" "a \<le> i"
  shows "\<exists>k. 0 < k \<and> k \<le> i \<and> elem m' array esize a = elem m array esize k"
proof -
  have "elem m' array esize a \<in> set (elems m' array i esize)"
    using assms(2,3) by (auto simp: elems_def simp del: upt_Suc)
  then have "elem m' array esize a \<in> set (elems m array i esize)"
    using assms(1) by (metis same_elems_def set_mset_mset)
  then show ?thesis
    by (auto simp: elems_def Suc_le_eq less_Suc_eq_le simp del: upt_Suc)
qed

definition ordered_from :: "('e \<Rightarrow> 'e \<Rightarrow> bool) \<Rightarrow> (nat \<Rightarrow> 'e) \<Rightarrow> nat \<Rightarrow> nat \<Rightarrow> bool" where
  "ordered_from le A i n \<longleftrightarrow> (\<forall>a b. 0 < a \<longrightarrow> a < b \<longrightarrow> i < b \<longrightarrow> b \<le> n \<longrightarrow> le (A a) (A b))"

text \<open>One round of the second loop: the largest element goes to the end of the heap.\<close>

lemma sort_round:
  assumes cmp: "compares_by compare c esize" "strcmp_like c" and n: "n < 2147483648" "0 < i" "Suc i \<le> n"
    and heap: "heap_from (\<lambda>x y. c x y \<le> 0) (elem m array esize) 1 (Suc i)"
    and tail: "ordered_from (\<lambda>x y. c x y \<le> 0) (elem m array esize) (Suc i) n"
  obtains m' where "heapify (do_swap m array 1 (Suc i) esize) array 1 i esize compare = Some (Inr m')"
    "heap_from (\<lambda>x y. c x y \<le> 0) (elem m' array esize) 1 i" "same_elems m m' array n esize"
    "ordered_from (\<lambda>x y. c x y \<le> 0) (elem m' array esize) i n"
proof -
  let ?m = "do_swap m array 1 (Suc i) esize"
  have swap: "elem ?m array esize j = exchange 1 (Suc i) (elem m array esize) j" if "0 < j" for j
    using that n by (simp add: elem_do_swap exchange_def)
  have "sifting (\<lambda>x y. c x y \<le> 0) (elem ?m array esize) 1 1 i"
    unfolding sifting_def
  proof (intro conjI allI impI)
    fix ch assume ch: "ch \<le> i" "1 \<le> ch div 2" "0 < ch div 2" "ch div 2 \<noteq> 1"
    then have "ch \<noteq> 1" "ch \<noteq> Suc i" "ch div 2 \<noteq> Suc i" "0 < ch"
      by auto
    moreover from this have "elem ?m array esize ch = elem m array esize ch"
        "elem ?m array esize (ch div 2) = elem m array esize (ch div 2)"
      using ch by (simp_all only: swap exchange_def if_False)
    moreover have "c (elem m array esize ch) (elem m array esize (ch div 2)) \<le> 0"
      using heap ch by (simp add: heap_from_def)
    ultimately show "c (elem ?m array esize ch) (elem ?m array esize (ch div 2)) \<le> 0"
      by simp
  qed simp
  then obtain m' where m': "heapify ?m array 1 i esize compare = Some (Inr m')"
      "heap_from (\<lambda>x y. c x y \<le> 0) (elem m' array esize) 1 i" "same_elems ?m m' array i esize"
    using heapify_ok [OF cmp, of 1 1 i ?m array] n by auto
  have same: "same_elems m m' array n esize"
    using same_elems_mono [OF m'(3), of n] same_elems_swap [of 1 "Suc i" n m array esize] n
    by (auto intro: same_elems_trans)
  have beyond: "elem m' array esize j = exchange 1 (Suc i) (elem m array esize) j" if "i < j" for j
    using same_elems_beyond [OF m'(3) that] swap that by simp
  have old: "\<exists>k. 0 < k \<and> k \<le> Suc i \<and> elem m' array esize a = elem m array esize k" if a: "0 < a" "a \<le> Suc i" for a
  proof (cases "a = Suc i")
    case True
    then show ?thesis
      using beyond n by (auto simp: exchange_def intro!: exI [of _ 1])
  next
    case False
    then obtain k where "0 < k" "k \<le> i" "elem m' array esize a = elem ?m array esize k"
      using same_elems_from [OF m'(3) a(1)] a(2) by auto
    moreover from this have "elem ?m array esize k = elem m array esize (if k = 1 then Suc i else k)"
      by (simp only: swap exchange_def) simp
    ultimately show ?thesis
      by (metis le_SucI order_refl zero_less_Suc)
  qed
  note root = heap_root [OF heap _ _ strcmp_like_refl [OF cmp(2)] strcmp_like_trans [OF cmp(2)]]
  have "ordered_from (\<lambda>x y. c x y \<le> 0) (elem m' array esize) i n"
    unfolding ordered_from_def
  proof (intro allI impI)
    fix a b assume ab: "0 < a" "a < b" "i < b" "b \<le> n"
    consider "b = Suc i" | "Suc i < b" "a \<le> Suc i" | "Suc i < a"
      using ab by linarith
    then show "c (elem m' array esize a) (elem m' array esize b) \<le> 0"
    proof cases
      case 1
      then show ?thesis
        using old [of a] root ab n by (auto simp: beyond exchange_def)
    next
      case 2
      then show ?thesis
        using old [of a] tail ab by (auto simp: beyond exchange_def ordered_from_def)
    next
      case 3
      then show ?thesis
        using tail ab by (auto simp: beyond exchange_def ordered_from_def)
    qed
  qed
  with that m' same show ?thesis
    by blast
qed

lemma sort_heap_ok:
  assumes cmp: "compares_by compare c esize" "strcmp_like c" and n: "n < 2147483648"
  shows "\<lbrakk>heap_from (\<lambda>x y. c x y \<le> 0) (elem m array esize) 1 i; i \<le> n;
      ordered_from (\<lambda>x y. c x y \<le> 0) (elem m array esize) i n\<rbrakk> \<Longrightarrow>
    \<exists>m'. sort_heap m array i esize compare = Some (Inr m') \<and> same_elems m m' array n esize \<and>
      ordered_from (\<lambda>x y. c x y \<le> 0) (elem m' array esize) 1 n"
proof (induction i arbitrary: m)
  case (Suc i)
  show ?case
  proof (cases "0 < i")
    case True
    obtain m1 where m1: "heapify (do_swap m array 1 (Suc i) esize) array 1 i esize compare = Some (Inr m1)"
      "heap_from (\<lambda>x y. c x y \<le> 0) (elem m1 array esize) 1 i" "same_elems m m1 array n esize"
      "ordered_from (\<lambda>x y. c x y \<le> 0) (elem m1 array esize) i n"
      by (rule sort_round [OF cmp n True Suc.prems(2,1,3)])
    then obtain m2 where "sort_heap m1 array i esize compare = Some (Inr m2)" "same_elems m1 m2 array n esize"
      "ordered_from (\<lambda>x y. c x y \<le> 0) (elem m2 array esize) 1 n"
      using Suc.IH [OF m1(2)] Suc.prems(2) by auto
    with m1 True show ?thesis
      by (auto intro: same_elems_trans)
  qed (use Suc.prems in auto)
qed (auto simp: ordered_from_def)

lemma build_heap_ok:
  assumes cmp: "compares_by compare c esize" "strcmp_like c" and n: "n < 2147483648"
  shows "\<lbrakk>heap_from (\<lambda>x y. c x y \<le> 0) (elem m array esize) (Suc i) n; i \<le> n\<rbrakk> \<Longrightarrow>
    \<exists>m'. build_heap m array i n esize compare = Some (Inr m') \<and> same_elems m m' array n esize \<and>
      heap_from (\<lambda>x y. c x y \<le> 0) (elem m' array esize) 1 n"
proof (induction i arbitrary: m)
  case (Suc i)
  obtain m1 where m1: "heapify m array (Suc i) n esize compare = Some (Inr m1)"
      "heap_from (\<lambda>x y. c x y \<le> 0) (elem m1 array esize) (Suc i) n" "same_elems m m1 array n esize"
    using heapify_ok [OF cmp _ _ n _ heap_from_sifting [OF Suc.prems(1)], of] Suc.prems(2) by auto
  then obtain m2 where "build_heap m1 array i n esize compare = Some (Inr m2)" "same_elems m1 m2 array n esize"
      "heap_from (\<lambda>x y. c x y \<le> 0) (elem m2 array esize) 1 n"
    using Suc.IH [OF m1(2)] Suc.prems(2) by auto
  with m1 show ?case
    by (auto intro: same_elems_trans)
qed simp

lemma sort_array_ok:
  assumes cmp: "compares_by compare c esize" "strcmp_like c" and n: "n < 2147483648" "array \<noteq> NULL" "0 < esize"
  shows "\<exists>m'. sort_array m array n esize compare = Some (Inr m') \<and> same_elems m m' array n esize \<and>
      ordered_from (\<lambda>x y. c x y \<le> 0) (elem m' array esize) 1 n"
proof -
  have "heap_from (\<lambda>x y. c x y \<le> 0) (elem m array esize) (Suc (n div 2)) n"
    unfolding heap_from_def by (metis div_le_mono not_less_eq_eq)
  then obtain m1 where m1: "build_heap m array (n div 2) n esize compare = Some (Inr m1)"
      "same_elems m m1 array n esize" "heap_from (\<lambda>x y. c x y \<le> 0) (elem m1 array esize) 1 n"
    using build_heap_ok [OF cmp n(1), of m array "n div 2"] by auto
  moreover obtain m2 where "sort_heap m1 array n esize compare = Some (Inr m2)" "same_elems m1 m2 array n esize"
      "ordered_from (\<lambda>x y. c x y \<le> 0) (elem m2 array esize) 1 n"
    using sort_heap_ok [OF cmp n(1) m1(3)] by (auto simp: ordered_from_def)
  ultimately show ?thesis
    using n by (auto simp: sort_array_def intro: same_elems_trans)
qed

lemma elems_nth: "k < n \<Longrightarrow> elems m array n esize ! k = elem m array esize (Suc k)"
  by (simp add: elems_def del: upt_Suc)

lemma length_elems [simp]: "length (elems m array n esize) = n"
  by (simp add: elems_def del: upt_Suc)

lemma ordered_from_sorted_wrt:
  "ordered_from le (elem m array esize) 1 n \<longleftrightarrow> sorted_wrt le (elems m array n esize)"
proof
  assume sorted: "sorted_wrt le (elems m array n esize)"
  show "ordered_from le (elem m array esize) 1 n"
    unfolding ordered_from_def
  proof (intro allI impI)
    fix a b :: nat assume "0 < a" "a < b" "1 < b" "b \<le> n"
    then show "le (elem m array esize a) (elem m array esize b)"
      using sorted sorted_wrt_nth_less [OF sorted, of "a - 1" "b - 1"] by (simp add: elems_nth)
  qed
qed (auto simp: ordered_from_def sorted_wrt_iff_nth_less elems_nth)

section \<open>Binary search\<close>

lemma search_loop_ok:
  fixes key :: addr
  assumes cmp: "compares_by compare c esize" "strcmp_like c" and esize: "0 < esize"
    and ord: "ordered_from (\<lambda>x y. c x y \<le> 0) (elem m array esize) 1 n"
  defines "K \<equiv> bytes_at m key esize"
  shows "\<lbrakk>a \<le> b; b \<le> n; \<forall>j. 0 < j \<longrightarrow> j \<le> a \<longrightarrow> c K (elem m array esize j) > 0;
      \<forall>j. b < j \<longrightarrow> j \<le> n \<longrightarrow> c K (elem m array esize j) < 0\<rbrakk> \<Longrightarrow>
    \<exists>r. search_loop m key (array + a * esize) (array + b * esize) esize compare = Inr r \<and>
      (r = NULL \<and> (\<forall>j. 0 < j \<longrightarrow> j \<le> n \<longrightarrow> c K (elem m array esize j) \<noteq> 0) \<or>
       (\<exists>j. 0 < j \<and> j \<le> n \<and> r = array + (j - 1) * esize \<and> c K (elem m array esize j) = 0))"
proof (induction "b - a" arbitrary: a b rule: less_induct)
  case less
  show ?case
  proof (cases "a < b")
    case False
    with less.prems have "\<forall>j. 0 < j \<longrightarrow> j \<le> n \<longrightarrow> c K (elem m array esize j) \<noteq> 0"
      by (metis leI le_less_trans less_irrefl not_less_iff_gr_or_eq)
    with False esize less.prems(1) show ?thesis
      by (subst search_loop.simps) simp
  next
    case True
    define k where "k = a + (b - a) div 2"
    have k: "a \<le> k" "k < b"
      using True by (auto simp: k_def)
    define cm where "cm = c K (elem m array esize (Suc k))"
    have "array + a * esize < array + b * esize"
      using True esize by simp
    moreover have "(array + b * esize - (array + a * esize)) div esize = b - a"
      using esize by (simp add: diff_mult_distrib [symmetric])
    moreover have "array + a * esize + (b - a) div 2 * esize = array + k * esize"
      by (simp add: k_def algebra_simps)
    moreover have "compare m key (array + k * esize) = cm"
      using cmp(1) by (simp add: compares_by_def cm_def elem_def K_def)
    ultimately have step: "search_loop m key (array + a * esize) (array + b * esize) esize compare =
        (if cm < 0 then search_loop m key (array + a * esize) (array + k * esize) esize compare
         else if cm > 0 then search_loop m key (array + Suc k * esize) (array + b * esize) esize compare
         else Inr (array + k * esize))"
      using esize by (subst search_loop.simps) (simp add: Let_def add.assoc add.commute [of esize])
    have order: "c (elem m array esize i) (elem m array esize j) \<le> 0" if "0 < i" "i \<le> j" "j \<le> n" for i j
      using ord that strcmp_like_refl [OF cmp(2)] by (cases "i = j") (auto simp: ordered_from_def)
    have trans: "c x z \<le> 0" if "c x y \<le> 0" "c y z \<le> 0" for x y z
      using strcmp_like_trans [OF cmp(2) that] .
    have flip: "c x y > 0 \<longleftrightarrow> c y x < 0" for x y
      using cmp(2) by (simp add: strcmp_like_def)
    show ?thesis
    proof (cases cm "0 :: int" rule: linorder_cases)
      case less': less
      have "c K (elem m array esize j) < 0" if "k < j" "j \<le> n" for j
        using order [of "Suc k" j] trans [of "elem m array esize (Suc k)" "elem m array esize j" K] that less'
        by (metis Suc_leI cm_def flip linorder_not_le zero_less_Suc)
      then show ?thesis
        using less.hyps [of k a] less.prems k less' step by auto
    next
      case equal
      with step k less.prems(2) show ?thesis
        by (auto simp: cm_def intro!: exI [of _ "Suc k"])
    next
      case greater
      have "c K (elem m array esize j) > 0" if "0 < j" "j \<le> Suc k" for j
        using order [of j "Suc k"] trans [of K "elem m array esize j" "elem m array esize (Suc k)"] that greater k less.prems(2)
        by (metis Suc_leI cm_def le_trans linorder_not_le)
      then show ?thesis
        using less.hyps [of b "Suc k"] less.prems k greater step by auto
    qed
  qed
qed

section \<open>Parsing numbers\<close>

definition decimal :: "u8 list \<Rightarrow> int" where
  "decimal ds = foldl (\<lambda>v d. v * 10 + (uint d - 48)) 0 ds"

lemma isdigit_range: "isdigit d \<Longrightarrow> 48 \<le> uint d \<and> uint d \<le> 57"
  unfolding isdigit_def by (simp add: word_le_def)

lemma foldl_decimal_mono:
  "list_all isdigit ds \<Longrightarrow> 0 \<le> x \<Longrightarrow> x \<le> foldl (\<lambda>v d. v * 10 + (uint d - 48)) x ds"
proof (induction ds arbitrary: x)
  case (Cons d ds)
  then have "x \<le> x * 10 + (uint d - 48)"
    using isdigit_range [of d] by simp
  also have "\<dots> \<le> foldl (\<lambda>v d. v * 10 + (uint d - 48)) (x * 10 + (uint d - 48)) ds"
    using Cons isdigit_range [of d] by (intro Cons.IH) auto
  finally show ?case
    by simp
qed simp

lemma digits_loop_ok:
  assumes "cstr m s (ds @ rest)" "list_all isdigit ds" "rest = [] \<or> \<not> isdigit (hd rest)"
    and "0 \<le> x" "foldl (\<lambda>v d. v * 10 + (uint d - 48)) x ds \<le> 2147483648"
  shows "digits_loop m s (- x) = Some (- foldl (\<lambda>v d. v * 10 + (uint d - 48)) x ds)"
  using assms
proof (induction ds arbitrary: s x)
  case Nil
  then show ?case
    by (subst digits_loop.simps) (cases rest; auto simp: isdigit_def)
next
  case (Cons d ds)
  let ?y = "x * 10 + (uint d - 48)"
  have d: "48 \<le> uint d" "uint d \<le> 57"
    using Cons.prems(2) isdigit_range [of d] by simp_all
  have "?y \<le> foldl (\<lambda>v d. v * 10 + (uint d - 48)) ?y ds"
    using Cons.prems(2,4) d by (intro foldl_decimal_mono) auto
  then have y: "?y \<le> 2147483648"
    using Cons.prems(5) by simp
  then have "s32 (s32 (- x * 10) - (uint d - 48)) = - ?y"
    using d Cons.prems(4) by (simp add: s32_def)
  then show ?case
    using Cons.IH [of "s + 1" ?y] Cons.prems d by (subst digits_loop.simps) simp
qed

lemma skip_spaces_ok:
  "\<lbrakk>cstr m s (ws @ t # rest); list_all isspace ws; \<not> isspace t\<rbrakk> \<Longrightarrow> skip_spaces m s = Some (s + length ws)"
  by (induction ws arbitrary: s) (subst skip_spaces.simps; simp)+

lemma atoi_ok:
  assumes str: "cstr m s (ws @ sg @ ds @ rest)" and s: "s \<noteq> NULL" and ws: "list_all isspace ws"
    and sg: "sg = [] \<or> sg = [43] \<or> sg = [45]" and ds: "ds \<noteq> []" "list_all isdigit ds"
    and rest: "rest = [] \<or> \<not> isdigit (hd rest)"
    and range: "if sg = [45] then decimal ds \<le> 2147483648 else decimal ds < 2147483648"
  shows "atoi m s = Some (Inr (if sg = [45] then - decimal ds else decimal ds))"
proof -
  obtain d ds' where d: "ds = d # ds'" "isdigit d"
    using ds by (cases ds) auto
  then have nd: "\<not> isspace d" "d \<noteq> 43" "d \<noteq> 45"
    by (auto simp: isdigit_def isspace_def)
  let ?q = "s + length ws"
  have "cstr m ?q (sg @ ds @ rest)"
    using str by (simp add: cstr_append)
  then have q: "m ?q = hd (sg @ ds @ rest)" "cstr m (?q + length sg) (ds @ rest)"
    using sg d by auto
  have "\<exists>t u. sg @ ds @ rest = t # u \<and> \<not> isspace t"
    using sg d nd by (auto simp: isspace_def)
  then have "skip_spaces m s = Some ?q"
    using skip_spaces_ok str ws by metis
  moreover have "decimal ds \<ge> 0"
    using foldl_decimal_mono [OF ds(2), of 0] by (simp add: decimal_def)
  moreover have "digits_loop m (?q + length sg) 0 = Some (- decimal ds)"
    using digits_loop_ok [OF q(2) ds(2) rest, of 0] range by (auto simp: decimal_def split: if_splits)
  ultimately show ?thesis
    using s sg range q(1) d nd by (auto simp: atoi_def Let_def)
qed

section \<open>Properties\<close>

text \<open>The comparison of single bytes, as an example of a comparison function.\<close>

definition byte_compare :: compare_func where
  "byte_compare m a b = uint (m a) - uint (m b)"

definition byte_order :: "u8 list \<Rightarrow> u8 list \<Rightarrow> int" where
  "byte_order x y = uint (x ! 0) - uint (y ! 0)"

lemma byte_compare_ok: "compares_by byte_compare byte_order 1" "strcmp_like byte_order"
  by (auto simp: compares_by_def byte_compare_def byte_order_def strcmp_like_def bytes_at_def)

text \<open>
  C39. Sorting an array of fewer than half the addresses with a comparison that orders the bytes of the
  elements: \<^verbatim>\<open>qsort\<close> returns without a failing assertion, the elements are the same, in order, and no byte outside
  of the array has changed.
\<close>

theorem qsort_correct:
  assumes "compares_by compare c esize" "strcmp_like c" "cnt < 2147483648" "array \<noteq> NULL" "0 < esize"
  shows "\<exists>m'. qsort m array cnt esize compare = Some (Inr m') \<and>
    sorted_wrt (\<lambda>x y. c x y \<le> 0) (elems m' array cnt esize) \<and>
    mset (elems m' array cnt esize) = mset (elems m array cnt esize) \<and>
    (\<forall>x. x < array \<or> array + cnt * esize \<le> x \<longrightarrow> m' x = m x)"
  using sort_array_ok [OF assms, of m] by (auto simp: qsort_def compare_thunk_def ordered_from_sorted_wrt [symmetric] same_elems_def)

theorem qsort_correct_witness:
  "\<exists>m'. qsort (\<lambda>x. of_nat (200 - x)) 100 3 1 byte_compare = Some (Inr m') \<and>
     sorted_wrt (\<lambda>x y. byte_order x y \<le> 0) (elems m' 100 3 1) \<and>
     mset (elems m' 100 3 1) = {#[100], [99], [98]#}"
  using qsort_correct [OF byte_compare_ok, of 3 100 "\<lambda>x. of_nat (200 - x)"]
  by (auto simp: NULL_def elems_def elem_def bytes_at_def upt_rec)

text \<open>
  Binary search in an array ordered by the comparison returns: when some element compares equal to the
  key, the address of such an element, and a null pointer otherwise.
\<close>

theorem bsearch_correct:
  assumes "compares_by compare c esize" "strcmp_like c" "array \<noteq> NULL" "0 < esize"
    and "sorted_wrt (\<lambda>x y. c x y \<le> 0) (elems m array cnt esize)"
  shows "\<exists>r. bsearch m key array cnt esize compare = Inr r \<and>
    (if \<exists>x\<in>set (elems m array cnt esize). c (bytes_at m key esize) x = 0
     then \<exists>k<cnt. r = array + k * esize \<and> c (bytes_at m key esize) (elems m array cnt esize ! k) = 0
     else r = NULL)"
proof -
  let ?K = "bytes_at m key esize" and ?A = "elem m array esize"
  obtain r where r: "search_loop m key (array + 0 * esize) (array + cnt * esize) esize compare = Inr r"
    "r = NULL \<and> (\<forall>j. 0 < j \<longrightarrow> j \<le> cnt \<longrightarrow> c ?K (?A j) \<noteq> 0) \<or>
      (\<exists>j. 0 < j \<and> j \<le> cnt \<and> r = array + (j - 1) * esize \<and> c ?K (?A j) = 0)"
    using search_loop_ok [OF assms(1,2,4), of m array cnt 0 cnt key] assms(5) ordered_from_sorted_wrt by auto
  have found: "(\<exists>x\<in>set (elems m array cnt esize). c ?K x = 0) \<longleftrightarrow> (\<exists>j. 0 < j \<and> j \<le> cnt \<and> c ?K (?A j) = 0)"
    by (auto simp: elems_def Suc_le_eq less_Suc_eq_le simp del: upt_Suc)
  have "\<exists>k<cnt. array + (j - 1) * esize = array + k * esize \<and> c ?K (elems m array cnt esize ! k) = 0"
    if "0 < j" "j \<le> cnt" "c ?K (?A j) = 0" for j
    using that by (intro exI [of _ "j - 1"]) (simp add: elems_nth)
  then show ?thesis
    using r unfolding found by (auto simp: bsearch_def binary_search_def compare_thunk_def mult.commute)
qed

theorem bsearch_correct_witness:
  "\<exists>r. bsearch of_nat 102 100 3 1 byte_compare = Inr r \<and> r = 102"
  using bsearch_correct [OF byte_compare_ok, of 100 of_nat 3 102]
  by (auto simp: NULL_def elems_def elem_def bytes_at_def upt_rec byte_order_def numeral_3_eq_3 less_Suc_eq split: if_splits)

end
