(* ===== verification/Stdio.thy ===== *)
theory Stdio
  imports Stdlib
begin

text \<open>
  Formatted output (\<^verbatim>\<open>lib/stdio.c\<close>). A format is the list of its characters, which are constant during a call;
  the variable arguments are the 32-bit words that the caller has pushed, of which a 64-bit argument takes
  two. The function that receives the characters is an argument and works on a state that contains
  the memory, because \<^verbatim>\<open>vsnprintf\<close> writes to the memory from which \<^verbatim>\<open>%s\<close> reads. Fetching an argument that
  is not there, a format that ends inside of a conversion and a write outside of the buffer for digits
  are failures. Shown: for every format the output function gets the characters of one text, which does not
  depend on it; \<^verbatim>\<open>vsnprintf\<close> writes this text, cut to the size of the buffer and terminated, and returns its
  full length; integer conversions stay in their buffer and write the digits of the number, so that
  \<^verbatim>\<open>atoi\<close> reads back what \<^verbatim>\<open>%d\<close> writes.
\<close>

section \<open>Conversions\<close>

abbreviation byte :: "char \<Rightarrow> u8" where
  "byte c \<equiv> of_char c"

definition text_of :: "string \<Rightarrow> u8 list" where
  "text_of s = map of_char s"

definition MINUS :: u32 where "MINUS = 1"
definition PLUS :: u32 where "PLUS = 2"
definition SPACE :: u32 where "SPACE = 4"
definition POUND :: u32 where "POUND = 8"
definition ZERO :: u32 where "ZERO = 16"
definition GROUP :: u32 where "GROUP = 32"

datatype arg_type = CHAR_T | SHORT_T | INT_T | INTMAX_T | LONG_T | LONGLONG_T | PTRDIFFT_T | SIZET_T

record printf_conversion =
  flags :: u32
  width :: int
  precision :: int
  arg_ty :: arg_type

record integer_base =
  base :: nat
  digits :: "u8 list"
  x_char :: u8
  group :: nat

definition base_d :: integer_base where
  "base_d = \<lparr>base = 10, digits = text_of ''0123456789'', x_char = 0, group = 3\<rparr>"

definition base_o :: integer_base where
  "base_o = \<lparr>base = 8, digits = text_of ''01234567'', x_char = 0, group = 3\<rparr>"

definition base_x :: integer_base where
  "base_x = \<lparr>base = 16, digits = text_of ''0123456789abcdef'', x_char = byte CHR ''x'', group = 4\<rparr>"

definition base_X :: integer_base where
  "base_X = \<lparr>base = 16, digits = text_of ''0123456789ABCDEF'', x_char = byte CHR ''X'', group = 4\<rparr>"

definition flag :: "printf_conversion \<Rightarrow> u32 \<Rightarrow> bool" where
  "flag c f \<longleftrightarrow> flags c AND f \<noteq> 0"

section \<open>Arguments\<close>

definition va_arg32 :: "u32 list \<Rightarrow> (u32 \<times> u32 list) outcome" where
  "va_arg32 args = (case args of [] \<Rightarrow> Inl Bad_access | a # rest \<Rightarrow> Inr (a, rest))"

definition va_arg64 :: "u32 list \<Rightarrow> (u64 \<times> u32 list) outcome" where
  "va_arg64 args = (case args of lo # hi # rest \<Rightarrow> Inr (word_cat hi lo, rest) | _ \<Rightarrow> Inl Bad_access)"

definition signed_arg :: "arg_type \<Rightarrow> u32 list \<Rightarrow> (int \<times> u32 list) outcome" where
  "signed_arg t args =
     (case t of
        CHAR_T \<Rightarrow> kbind (va_arg32 args) (\<lambda>(a, args). Inr (sint (ucast a :: u8), args))
      | SHORT_T \<Rightarrow> kbind (va_arg32 args) (\<lambda>(a, args). Inr (sint (ucast a :: u16), args))
      | INT_T \<Rightarrow> kbind (va_arg32 args) (\<lambda>(a, args). Inr (sint a, args))
      | INTMAX_T \<Rightarrow> kbind (va_arg64 args) (\<lambda>(a, args). Inr (sint a, args))
      | LONG_T \<Rightarrow> kbind (va_arg32 args) (\<lambda>(a, args). Inr (sint a, args))
      | LONGLONG_T \<Rightarrow> kbind (va_arg64 args) (\<lambda>(a, args). Inr (sint a, args))
      | PTRDIFFT_T \<Rightarrow> kbind (va_arg32 args) (\<lambda>(a, args). Inr (sint a, args))
      | SIZET_T \<Rightarrow> kbind (va_arg32 args) (\<lambda>(a, args).
          Inr (if uint a > int SIZE_MAX div 2 then uint a - int SIZE_MAX - 1 else uint a, args)))"

definition unsigned_arg :: "arg_type \<Rightarrow> u32 list \<Rightarrow> (u64 \<times> u32 list) outcome" where
  "unsigned_arg t args =
     (case t of
        CHAR_T \<Rightarrow> kbind (va_arg32 args) (\<lambda>(a, args). Inr (ucast (ucast a :: u8), args))
      | SHORT_T \<Rightarrow> kbind (va_arg32 args) (\<lambda>(a, args). Inr (ucast (ucast a :: u16), args))
      | INT_T \<Rightarrow> kbind (va_arg32 args) (\<lambda>(a, args). Inr (ucast a, args))
      | INTMAX_T \<Rightarrow> va_arg64 args
      | LONG_T \<Rightarrow> kbind (va_arg32 args) (\<lambda>(a, args). Inr (ucast a, args))
      | LONGLONG_T \<Rightarrow> va_arg64 args
      | PTRDIFFT_T \<Rightarrow> kbind (va_arg32 args) (\<lambda>(a, args).
          Inr (scast a AND (push_bit 1 2147483647 OR 1), args))
      | SIZET_T \<Rightarrow> kbind (va_arg32 args) (\<lambda>(a, args). Inr (ucast a, args)))"

section \<open>Parsing a conversion\<close>

text \<open>The character at a position of the format; the terminator of the string at its end.\<close>

definition peek :: "u8 list \<Rightarrow> u8" where
  "peek s = (case s of [] \<Rightarrow> 0 | c # _ \<Rightarrow> c)"

fun parse_flags :: "u32 \<Rightarrow> u8 list \<Rightarrow> u32 \<times> u8 list" where
  "parse_flags f [] = (f, [])"
| "parse_flags f (c # s) =
     (if c = byte CHR ''-'' then parse_flags (f OR MINUS) s
      else if c = byte CHR ''+'' then parse_flags (f OR PLUS) s
      else if c = byte CHR '' '' then parse_flags (f OR SPACE) s
      else if c = byte CHR ''#'' then parse_flags (f OR POUND) s
      else if c = byte CHR ''0'' then parse_flags (f OR ZERO) s
      else if c = 39 then parse_flags (f OR GROUP) s
      else (f, c # s))"

definition settle_flags :: "u32 \<Rightarrow> u32" where
  "settle_flags f =
     (let f = (if f AND MINUS \<noteq> 0 then f AND NOT ZERO else f)
      in if f AND PLUS \<noteq> 0 then f AND NOT SPACE else f)"

fun parse_number :: "int \<Rightarrow> u8 list \<Rightarrow> int \<times> u8 list" where
  "parse_number n [] = (n, [])"
| "parse_number n (c # s) = (if isdigit c then parse_number (s32 (n * 10 + uint c - 48)) s else (n, c # s))"

definition parse_width :: "u32 \<Rightarrow> u8 list \<Rightarrow> u32 list \<Rightarrow> (u32 \<times> int \<times> u8 list \<times> u32 list) outcome" where
  "parse_width f s args =
     kbind (if peek s = byte CHR ''*''
            then kbind (va_arg32 args) (\<lambda>(a, args). Inr (sint a, tl s, args))
            else Inr (fst (parse_number 0 s), snd (parse_number 0 s), args)) (\<lambda>(w, s, args).
       Inr (if w < 0 then (f OR MINUS, s32 (- w), s, args) else (f, w, s, args)))"

definition parse_precision :: "u32 \<Rightarrow> u8 list \<Rightarrow> u32 list \<Rightarrow> (u32 \<times> int \<times> u8 list \<times> u32 list) outcome" where
  "parse_precision f s args =
     kbind (if peek s = byte CHR ''.''
            then kbind (if peek (tl s) = byte CHR ''*''
                        then kbind (va_arg32 args) (\<lambda>(a, args). Inr (sint a, tl (tl s), args))
                        else Inr (fst (parse_number 0 (tl s)), snd (parse_number 0 (tl s)), args)) (\<lambda>(p, s, args).
                   Inr (if p < 0 then - 1 else p, s, args))
            else Inr (- 1, s, args)) (\<lambda>(p, s, args).
       Inr (if p \<ge> 0 then f AND NOT ZERO else f, p, s, args))"

definition parse_type :: "u8 list \<Rightarrow> arg_type \<times> u8 list" where
  "parse_type s =
     (if peek s = byte CHR ''h''
      then if peek (tl s) = byte CHR ''h'' then (CHAR_T, tl (tl s)) else (SHORT_T, tl s)
      else if peek s = byte CHR ''j'' then (INTMAX_T, tl s)
      else if peek s = byte CHR ''l''
      then if peek (tl s) = byte CHR ''l'' then (LONGLONG_T, tl (tl s)) else (LONG_T, tl s)
      else if peek s = byte CHR ''t'' then (PTRDIFFT_T, tl s)
      else if peek s = byte CHR ''z'' then (SIZET_T, tl s)
      else (INT_T, s))"

definition parse_conversion :: "u8 list \<Rightarrow> u32 list \<Rightarrow> (printf_conversion \<times> u8 list \<times> u32 list) outcome" where
  "parse_conversion format args =
     kbind (parse_width (settle_flags (fst (parse_flags 0 format))) (snd (parse_flags 0 format)) args) (\<lambda>(f, w, s, args).
     kbind (parse_precision f s args) (\<lambda>(f, p, s, args).
       Inr (\<lparr>flags = f, width = w, precision = p, arg_ty = fst (parse_type s)\<rparr>, snd (parse_type s), args)))"

section \<open>Output\<close>

type_synonym 's output_func = "u8 \<Rightarrow> memory \<times> 's \<Rightarrow> memory \<times> 's"

fun output_dup :: "'s output_func \<Rightarrow> u8 \<Rightarrow> nat \<Rightarrow> memory \<times> 's \<Rightarrow> memory \<times> 's" where
  "output_dup out ch 0 st = st"
| "output_dup out ch (Suc cnt) st = output_dup out ch cnt (out ch st)"

fun output_chars :: "'s output_func \<Rightarrow> u8 list \<Rightarrow> memory \<times> 's \<Rightarrow> memory \<times> 's" where
  "output_chars out [] st = st"
| "output_chars out (ch # s) st = output_chars out s (out ch st)"

text \<open>The characters of a string are read one by one, from the memory as it then is.\<close>

fun string_loop :: "'s output_func \<Rightarrow> (memory \<Rightarrow> nat \<Rightarrow> u8) \<Rightarrow> nat \<Rightarrow> nat \<Rightarrow> memory \<times> 's \<Rightarrow> memory \<times> 's" where
  "string_loop out string i 0 st = st"
| "string_loop out string i (Suc n) st = string_loop out string (i + 1) n (out (string (fst st) i) st)"

definition format_string ::
    "'s output_func \<Rightarrow> (memory \<Rightarrow> nat \<Rightarrow> u8) \<Rightarrow> int \<Rightarrow> printf_conversion \<Rightarrow> memory \<times> 's \<Rightarrow> memory \<times> 's" where
  "format_string out string len c st =
     (let st = (if width c > len \<and> \<not> flag c MINUS then output_dup out 32 (nat (s32 (width c - len))) st else st);
          st = string_loop out string 0 (nat len) st
      in if width c > len \<and> flag c MINUS then output_dup out 32 (nat (s32 (width c - len))) st else st)"

text \<open>The 64 bytes in which the digits are collected, the last digit first.\<close>

definition push_digit :: "u8 list \<Rightarrow> u8 \<Rightarrow> u8 list outcome" where
  "push_digit buf ch = (if length buf < 64 then Inr (buf @ [ch]) else Inl Bad_access)"

partial_function (option) digit_loop :: "integer_base \<Rightarrow> bool \<Rightarrow> nat \<Rightarrow> nat \<Rightarrow> u8 list \<Rightarrow> u8 list run" where
  "digit_loop b grouped v digit_cnt buf =
     (if v > 0
      then rbind (Some (if grouped \<and> digit_cnt > 0 \<and> digit_cnt mod group b = 0
                        then push_digit buf (byte CHR '','') else Inr buf)) (\<lambda>buf.
           rbind (Some (arr_get (digits b) (v mod base b))) (\<lambda>d.
           rbind (Some (push_digit buf d)) (\<lambda>buf.
             digit_loop b grouped (v div base b) (digit_cnt + 1) buf)))
      else Some (Inr buf))"

function zero_loop :: "int \<Rightarrow> u8 list \<Rightarrow> u8 list" where
  "zero_loop prec buf =
     (if int (length buf) < prec \<and> length buf < 64 - 1 then zero_loop prec (buf @ [byte CHR ''0'']) else buf)"
  by pat_completeness auto
termination by (relation "measure (\<lambda>(prec, buf). 64 - length buf)") auto

declare zero_loop.simps [simp del]

definition integer_buf :: "nat \<Rightarrow> integer_base \<Rightarrow> printf_conversion \<Rightarrow> u8 list run" where
  "integer_buf v b c =
     rbind (digit_loop b (flag c GROUP) v 0 []) (\<lambda>buf.
     let buf = zero_loop (if precision c < 0 then 1 else precision c) buf
     in if flag c POUND \<and> base b = 8 \<and> (buf = [] \<or> last buf \<noteq> byte CHR ''0'')
        then Some (push_digit buf (byte CHR ''0''))
        else Some (Inr buf))"

definition sign_char :: "bool \<Rightarrow> bool \<Rightarrow> printf_conversion \<Rightarrow> u8" where
  "sign_char is_signed negative c =
     (if is_signed
      then if flag c PLUS then if negative then byte CHR ''-'' else byte CHR ''+''
           else if flag c SPACE then if negative then byte CHR ''-'' else byte CHR '' ''
           else if negative then byte CHR ''-'' else 0
      else 0)"

definition format_integer ::
    "'s output_func \<Rightarrow> u64 \<Rightarrow> bool \<Rightarrow> bool \<Rightarrow> integer_base \<Rightarrow> printf_conversion \<Rightarrow> memory \<times> 's \<Rightarrow> (memory \<times> 's) run" where
  "format_integer out v is_signed negative b c st =
     (let sgn = sign_char is_signed negative c;
          x = (if flag c POUND \<and> v \<noteq> 0 then x_char b else 0)
      in rbind (integer_buf (unat v) b c) (\<lambda>buf.
         let pad_cnt = s32 (width c - int (length buf) - (if x \<noteq> 0 then 2 else 0) - (if sgn \<noteq> 0 then 1 else 0));
             pad_cnt = (if pad_cnt < 0 then 0 else pad_cnt);
             st = (if flags c AND (MINUS OR ZERO) = 0 then output_dup out 32 (nat pad_cnt) st else st);
             st = (if sgn \<noteq> 0 then out sgn st else st);
             st = (if x \<noteq> 0 then out x (out (byte CHR ''0'') st) else st);
             st = (if flag c ZERO then output_dup out (byte CHR ''0'') (nat pad_cnt) st else st);
             st = output_chars out (rev buf) st
         in Some (Inr (if flag c MINUS then output_dup out 32 (nat pad_cnt) st else st))))"

text \<open>
  The switch over the conversion character. The message for a conversion that is not supported is
  itself printed by \<^verbatim>\<open>__printf\<close>, with a format that has only \<^verbatim>\<open>%%\<close> and \<^verbatim>\<open>%c\<close>; it is given here by its text.
\<close>

definition no_conversion :: "u8 \<Rightarrow> u8 list" where
  "no_conversion ch =
     (if ch \<in> set (text_of ''feEgGn'') then text_of ''<<no %'' @ [ch] @ text_of '' in kernel>>''
      else text_of ''<<no %'' @ [ch] @ text_of '' conversion>>'')"

definition do_conversion ::
    "'s output_func \<Rightarrow> u8 \<Rightarrow> printf_conversion \<Rightarrow> u32 list \<Rightarrow> memory \<times> 's \<Rightarrow> (u32 list \<times> (memory \<times> 's)) run" where
  "do_conversion out ch c args st =
     (if ch = byte CHR ''d'' \<or> ch = byte CHR ''i''
      then rbind (Some (signed_arg (arg_ty c) args)) (\<lambda>(v, args).
           rbind (format_integer out (of_int (if v < 0 then - v else v)) True (v < 0) base_d c st) (\<lambda>st.
             Some (Inr (args, st))))
      else if ch = byte CHR ''o'' \<or> ch = byte CHR ''u'' \<or> ch = byte CHR ''x'' \<or> ch = byte CHR ''X''
      then rbind (Some (unsigned_arg (arg_ty c) args)) (\<lambda>(v, args).
           rbind (format_integer out v False False
                    (if ch = byte CHR ''o'' then base_o else if ch = byte CHR ''u'' then base_d
                     else if ch = byte CHR ''x'' then base_x else base_X) c st) (\<lambda>st.
             Some (Inr (args, st))))
      else if ch = byte CHR ''c''
      then rbind (Some (va_arg32 args)) (\<lambda>(a, args).
             Some (Inr (args, format_string out (\<lambda>m i. ucast a) 1 c st)))
      else if ch = byte CHR ''s''
      then rbind (Some (va_arg32 args)) (\<lambda>(a, args).
             if a = 0
             then Some (Inr (args, format_string out (\<lambda>m i. text_of ''(null)'' ! i)
                               (min 6 (precision c mod 4294967296)) c st))
             else Some (Inr (args, format_string out (\<lambda>m i. m (unat a + i))
                               (s32 (int (strnlen (fst st) (unat a) (nat (precision c mod 4294967296))))) c st)))
      else if ch = byte CHR ''p''
      then rbind (Some (va_arg32 args)) (\<lambda>(a, args).
           rbind (format_integer out (ucast a) False False base_x (c\<lparr>flags := POUND\<rparr>) st) (\<lambda>st.
             Some (Inr (args, st))))
      else Some (Inr (args, output_chars out (no_conversion ch) st)))"

partial_function (option) vprintf_loop ::
    "'s output_func \<Rightarrow> u8 list \<Rightarrow> u32 list \<Rightarrow> memory \<times> 's \<Rightarrow> (memory \<times> 's) run" where
  "vprintf_loop out format args st =
     (case format of
        [] \<Rightarrow> Some (Inr st)
      | c # s \<Rightarrow>
          if c \<noteq> byte CHR ''%'' then vprintf_loop out s args (out c st)
          else if peek s = byte CHR ''%'' then vprintf_loop out (tl s) args (out (byte CHR ''%'') st)
          else rbind (Some (parse_conversion s args)) (\<lambda>(c, s, args).
               rbind (do_conversion out (peek s) c args st) (\<lambda>(args, st).
                 if s = [] then Some (Inl Bad_access) else vprintf_loop out (tl s) args st)))"

section \<open>Printing to memory\<close>

record vsnprintf_aux =
  out_p :: addr
  out_length :: int
  max_length :: int

definition vsnprintf_helper :: "vsnprintf_aux output_func" where
  "vsnprintf_helper ch st =
     (let (m, aux) = st
      in if out_length aux < max_length aux
         then (m(out_p aux := ch), aux\<lparr>out_length := s32 (out_length aux + 1), out_p := out_p aux + 1\<rparr>)
         else (m, aux\<lparr>out_length := s32 (out_length aux + 1)\<rparr>))"

definition vsnprintf :: "memory \<Rightarrow> addr \<Rightarrow> nat \<Rightarrow> u8 list \<Rightarrow> u32 list \<Rightarrow> (memory \<times> int) run" where
  "vsnprintf m buffer buf_size format args =
     (let aux = \<lparr>out_p = buffer, out_length = 0,
                 max_length = (if buf_size > 0 then s32 (int (buf_size - 1)) else 0)\<rparr>
      in rbind (vprintf_loop vsnprintf_helper format args (m, aux)) (\<lambda>(m, aux).
           Some (Inr (if buf_size > 0 then m(out_p aux := 0) else m, out_length aux))))"

definition snprintf :: "memory \<Rightarrow> addr \<Rightarrow> nat \<Rightarrow> u8 list \<Rightarrow> u32 list \<Rightarrow> (memory \<times> int) run" where
  "snprintf m buffer buf_size format args = vsnprintf m buffer buf_size format args"

section \<open>Printing to the console\<close>

text \<open>The console is the list of characters written to it (\<^verbatim>\<open>lib/kernel/console.c\<close>); its lock is left out.\<close>

definition vprintf_helper :: "(int \<times> u8 list) output_func" where
  "vprintf_helper c st = (let (m, char_cnt, console) = st in (m, s32 (char_cnt + 1), console @ [c]))"

definition vprintf :: "memory \<Rightarrow> u8 list \<Rightarrow> u8 list \<Rightarrow> u32 list \<Rightarrow> (u8 list \<times> int) run" where
  "vprintf m console format args =
     rbind (vprintf_loop vprintf_helper format args (m, (0, console))) (\<lambda>(m, char_cnt, console).
       Some (Inr (console, char_cnt)))"

definition printf :: "memory \<Rightarrow> u8 list \<Rightarrow> u8 list \<Rightarrow> u32 list \<Rightarrow> (u8 list \<times> int) run" where
  "printf m console format args = vprintf m console format args"

fun print_times :: "memory \<Rightarrow> u8 list \<Rightarrow> nat \<Rightarrow> u8 list \<Rightarrow> u8 list run" where
  "print_times m format 0 console = Some (Inr console)"
| "print_times m format (Suc n) console =
     rbind (printf m console format []) (\<lambda>(console, _). print_times m format n console)"

fun hex_cells :: "memory \<Rightarrow> addr \<Rightarrow> nat \<Rightarrow> nat \<Rightarrow> nat \<Rightarrow> u8 list \<Rightarrow> u8 list run" where
  "hex_cells m buf start i 0 console = Some (Inr console)"
| "hex_cells m buf start i (Suc n) console =
     rbind (printf m console (text_of ''%02hhx%c'')
              [ucast (m (buf + (i - start))), if i = 16 div 2 - 1 then 45 else 32]) (\<lambda>(console, _).
       hex_cells m buf start (i + 1) n console)"

definition isprint :: "u8 \<Rightarrow> bool" where
  "isprint c \<longleftrightarrow> 32 \<le> c \<and> c < 127"

fun char_cells :: "memory \<Rightarrow> addr \<Rightarrow> nat \<Rightarrow> nat \<Rightarrow> nat \<Rightarrow> u8 list \<Rightarrow> u8 list run" where
  "char_cells m buf start i 0 console = Some (Inr console)"
| "char_cells m buf start i (Suc n) console =
     rbind (printf m console (text_of ''%c'')
              [if isprint (m (buf + (i - start))) then ucast (m (buf + (i - start))) else 46]) (\<lambda>(console, _).
       char_cells m buf start (i + 1) n console)"

definition hex_line :: "memory \<Rightarrow> nat \<Rightarrow> addr \<Rightarrow> nat \<Rightarrow> nat \<Rightarrow> bool \<Rightarrow> u8 list \<Rightarrow> u8 list run" where
  "hex_line m ofs buf start stop ascii console =
     rbind (printf m console (text_of ''%08jx  '') [of_nat (ofs div 16 * 16), 0]) (\<lambda>(console, _).
     rbind (print_times m (text_of ''   '') start console) (\<lambda>console.
     rbind (hex_cells m buf start start (stop - start) console) (\<lambda>console.
     rbind (if ascii
            then rbind (print_times m (text_of ''   '') (16 - stop) console) (\<lambda>console.
                 rbind (printf m console (text_of ''|'') []) (\<lambda>(console, _).
                 rbind (print_times m (text_of '' '') start console) (\<lambda>console.
                 rbind (char_cells m buf start start (stop - start) console) (\<lambda>console.
                 rbind (print_times m (text_of '' '') (16 - stop) console) (\<lambda>console.
                 rbind (printf m console (text_of ''|'') []) (\<lambda>(console, _). Some (Inr console)))))))
            else Some (Inr console)) (\<lambda>console.
     rbind (printf m console [10] []) (\<lambda>(console, _). Some (Inr console))))))"

partial_function (option) hex_dump :: "memory \<Rightarrow> nat \<Rightarrow> addr \<Rightarrow> nat \<Rightarrow> bool \<Rightarrow> u8 list \<Rightarrow> u8 list run" where
  "hex_dump m ofs buf len ascii console =
     (if len > 0
      then let start = ofs mod 16;
               stop = (if 16 - start > len then start + len else 16);
               n = stop - start
           in rbind (hex_line m ofs buf start stop ascii console) (\<lambda>console.
                hex_dump m (sz (ofs + n)) (buf + n) (len - n) ascii console)
      else Some (Inr console))"

section \<open>What a conversion prints\<close>

text \<open>The same as lists of characters: the reference against which the output functions are compared.\<close>

definition string_text :: "(nat \<Rightarrow> u8) \<Rightarrow> int \<Rightarrow> printf_conversion \<Rightarrow> u8 list" where
  "string_text string len c =
     (let pad = (if width c > len then replicate (nat (s32 (width c - len))) 32 else [])
      in (if flag c MINUS then [] else pad) @ map string [0..<nat len] @ (if flag c MINUS then pad else []))"

definition integer_text :: "u64 \<Rightarrow> bool \<Rightarrow> bool \<Rightarrow> integer_base \<Rightarrow> printf_conversion \<Rightarrow> u8 list run" where
  "integer_text v is_signed negative b c =
     rbind (integer_buf (unat v) b c) (\<lambda>buf.
     let sgn = sign_char is_signed negative c;
         sgn_text = (if sgn \<noteq> 0 then [sgn] else []);
         x = (if flag c POUND \<and> v \<noteq> 0 then x_char b else 0);
         x_text = (if x \<noteq> 0 then [byte CHR ''0'', x] else []);
         pad = nat (s32 (width c - int (length buf) - int (length x_text) - int (length sgn_text)))
     in Some (Inr ((if flag c MINUS \<or> flag c ZERO then [] else replicate pad 32) @ sgn_text @ x_text @
          (if flag c ZERO then replicate pad (byte CHR ''0'') else []) @ rev buf @
          (if flag c MINUS then replicate pad 32 else []))))"

definition conversion_text :: "memory \<Rightarrow> u8 \<Rightarrow> printf_conversion \<Rightarrow> u32 list \<Rightarrow> (u32 list \<times> u8 list) run" where
  "conversion_text m ch c args =
     (if ch = byte CHR ''d'' \<or> ch = byte CHR ''i''
      then rbind (Some (signed_arg (arg_ty c) args)) (\<lambda>(v, args).
           rbind (integer_text (of_int \<bar>v\<bar>) True (v < 0) base_d c) (\<lambda>t. Some (Inr (args, t))))
      else if ch = byte CHR ''o'' \<or> ch = byte CHR ''u'' \<or> ch = byte CHR ''x'' \<or> ch = byte CHR ''X''
      then rbind (Some (unsigned_arg (arg_ty c) args)) (\<lambda>(v, args).
           rbind (integer_text v False False
                    (if ch = byte CHR ''o'' then base_o else if ch = byte CHR ''u'' then base_d
                     else if ch = byte CHR ''x'' then base_x else base_X) c) (\<lambda>t. Some (Inr (args, t))))
      else if ch = byte CHR ''c''
      then rbind (Some (va_arg32 args)) (\<lambda>(a, args). Some (Inr (args, string_text (\<lambda>i. ucast a) 1 c)))
      else if ch = byte CHR ''s''
      then rbind (Some (va_arg32 args)) (\<lambda>(a, args).
             if a = 0 then Some (Inr (args, string_text (\<lambda>i. text_of ''(null)'' ! i) (min 6 (precision c mod 4294967296)) c))
             else Some (Inr (args, string_text (\<lambda>i. m (unat a + i))
                               (s32 (int (strnlen m (unat a) (nat (precision c mod 4294967296))))) c)))
      else if ch = byte CHR ''p''
      then rbind (Some (va_arg32 args)) (\<lambda>(a, args).
           rbind (integer_text (ucast a) False False base_x (c\<lparr>flags := POUND\<rparr>)) (\<lambda>t. Some (Inr (args, t))))
      else Some (Inr (args, no_conversion ch)))"

partial_function (option) format_text :: "memory \<Rightarrow> u8 list \<Rightarrow> u32 list \<Rightarrow> u8 list run" where
  "format_text m format args =
     (case format of
        [] \<Rightarrow> Some (Inr [])
      | c # s \<Rightarrow>
          if c \<noteq> byte CHR ''%'' then rbind (format_text m s args) (\<lambda>t. Some (Inr (c # t)))
          else if peek s = byte CHR ''%''
          then rbind (format_text m (tl s) args) (\<lambda>t. Some (Inr (byte CHR ''%'' # t)))
          else rbind (Some (parse_conversion s args)) (\<lambda>(c, s, args).
               rbind (conversion_text m (peek s) c args) (\<lambda>(args, t).
                 if s = [] then Some (Inl Bad_access)
                 else rbind (format_text m (tl s) args) (\<lambda>u. Some (Inr (t @ u))))))"

text \<open>The words that a conversion takes from the arguments, and the strings that a format reads.\<close>

definition arg_words :: "u8 \<Rightarrow> arg_type \<Rightarrow> nat" where
  "arg_words ch t =
     (if ch \<in> set (text_of ''diouxX'') then if t = INTMAX_T \<or> t = LONGLONG_T then 2 else 1
      else if ch \<in> set (text_of ''csp'') then 1 else 0)"

definition string_outside :: "addr set \<Rightarrow> memory \<Rightarrow> u8 \<Rightarrow> printf_conversion \<Rightarrow> u32 list \<Rightarrow> bool" where
  "string_outside W m ch c args \<longleftrightarrow>
     (ch = byte CHR ''s'' \<longrightarrow> args \<noteq> [] \<longrightarrow> hd args \<noteq> 0 \<longrightarrow>
        (\<forall>i \<le> strnlen m (unat (hd args)) (nat (precision c mod 4294967296)). unat (hd args) + i \<notin> W))"

lemma parse_flags_length: "length (snd (parse_flags f s)) \<le> length s"
  by (induction f s rule: parse_flags.induct) auto

lemma parse_number_length: "length (snd (parse_number n s)) \<le> length s"
  by (induction n s rule: parse_number.induct) auto

lemma parse_width_length: "parse_width f s args = Inr (f', w, s', args') \<Longrightarrow> length s' \<le> length s"
  using parse_number_length [of 0 s] unfolding parse_width_def
  by (auto simp: va_arg32_def kbind_Inr_conv split: if_splits list.splits)

lemma parse_precision_length: "parse_precision f s args = Inr (f', p, s', args') \<Longrightarrow> length s' \<le> length s"
  using parse_number_length [of 0 "tl s"] unfolding parse_precision_def
  by (auto simp: va_arg32_def kbind_Inr_conv split: if_splits list.splits)

lemma parse_type_length: "length (snd (parse_type s)) \<le> length s"
  by (auto simp: parse_type_def)

lemma parse_conversion_length:
  assumes "parse_conversion s args = Inr (c, s', args')"
  shows "length s' \<le> length s"
proof -
  obtain f1 f2 w s2 a2 f3 p s3 where "parse_width f1 (snd (parse_flags 0 s)) args = Inr (f2, w, s2, a2)"
    "parse_precision f2 s2 a2 = Inr (f3, p, s3, args')" "s' = snd (parse_type s3)"
    using assms unfolding parse_conversion_def by (auto simp: kbind_Inr_conv)
  then show ?thesis
    using parse_flags_length [of 0 s] parse_type_length [of s3]
    by (auto dest!: parse_width_length parse_precision_length)
qed

function reads_outside :: "addr set \<Rightarrow> memory \<Rightarrow> u8 list \<Rightarrow> u32 list \<Rightarrow> bool" where
  "reads_outside W m [] args \<longleftrightarrow> True"
| "reads_outside W m (c # s) args \<longleftrightarrow>
     (if c \<noteq> byte CHR ''%'' then reads_outside W m s args
      else if peek s = byte CHR ''%'' then reads_outside W m (tl s) args
      else case parse_conversion s args of
             Inl _ \<Rightarrow> True
           | Inr (c, s, args) \<Rightarrow> string_outside W m (peek s) c args \<and>
               reads_outside W m (tl s) (drop (arg_words (peek s) (arg_ty c)) args))"
  by pat_completeness auto
termination
  by (relation "measure (\<lambda>(W, m, s, args). length s)") (auto dest!: parse_conversion_length simp: less_Suc_eq_le)

lemma rbind_assoc: "rbind (rbind m f) g = rbind m (\<lambda>x. rbind (f x) g)"
  by (auto simp: rbind_def split: option.splits sum.splits) (cases m; auto split: sum.splits)

lemma rbind_cong: "m = m' \<Longrightarrow> (\<And>x. m' = Some (Inr x) \<Longrightarrow> f x = g x) \<Longrightarrow> rbind m f = rbind m' g"
  by (cases m') (auto simp: rbind_def split: sum.splits)

lemma rbind_Inr_conv: "rbind m f = Some (Inr y) \<longleftrightarrow> (\<exists>x. m = Some (Inr x) \<and> f x = Some (Inr y))"
  by (cases m; cases "the m") auto

lemma strnlen_loop_ge: "len \<le> strnlen_loop m p k len"
  by (induction m p k len rule: strnlen_loop.induct) (subst strnlen_loop.simps, auto)

lemma strnlen_loop_cong:
  "(\<And>i. i \<le> strnlen_loop m p k len \<Longrightarrow> m' (p + i) = m (p + i)) \<Longrightarrow> strnlen_loop m' p k len = strnlen_loop m p k len"
proof (induction m p k len rule: strnlen_loop.induct)
  case (1 m p k len)
  have "m' (p + len) = m (p + len)"
    using "1.prems" strnlen_loop_ge by blast
  then show ?case
    using 1 by (subst (1 2) strnlen_loop.simps) (auto simp del: strnlen_loop.simps simp: strnlen_loop.simps [of m p k len])
qed

lemma strnlen_cong:
  "(\<And>i. i \<le> strnlen m p k \<Longrightarrow> m' (p + i) = m (p + i)) \<Longrightarrow> strnlen m' p k = strnlen m p k"
  unfolding strnlen_def by (rule strnlen_loop_cong)

lemma s32_nat_le: "nat (s32 (int n)) \<le> n"
proof (cases "n < 2147483648")
  case False
  have "(int n + 2147483648) mod 4294967296 \<le> int n + 2147483648"
    by (rule zmod_le_nonneg_dividend) simp
  then show ?thesis
    by (simp add: s32_def)
qed simp

lemma conversion_text_args:
  "conversion_text m ch c args = Some (Inr (args', t)) \<Longrightarrow> args' = drop (arg_words ch (arg_ty c)) args"
  by (cases "arg_ty c"; cases args; cases "tl args")
    (auto simp: conversion_text_def arg_words_def signed_arg_def unsigned_arg_def va_arg32_def va_arg64_def
      text_of_def rbind_def split: if_splits sum.splits option.splits Option.bind_splits)

section \<open>Functions that receive the output\<close>

definition agree :: "addr set \<Rightarrow> memory \<Rightarrow> memory \<Rightarrow> bool" where
  "agree W m m' \<longleftrightarrow> (\<forall>x. x \<notin> W \<longrightarrow> m' x = m x)"

text \<open>
  A function that receives the output may write to a part of the memory, as long as it has not received more
  characters than it can count. When the strings of the arguments lie elsewhere, it receives
  the characters of the text in their order. \<open>I k\<close> is what holds of its state after \<open>k\<close> characters.
\<close>

definition fits :: "addr set \<Rightarrow> (nat \<Rightarrow> memory \<times> 's \<Rightarrow> bool) \<Rightarrow> memory \<Rightarrow> nat \<Rightarrow> memory \<times> 's \<Rightarrow> bool" where
  "fits W I m k st \<longleftrightarrow> I k st \<and> agree W m (fst st)"

lemma fits_agree: "fits W I m k st \<Longrightarrow> agree W m (fst st)"
  by (simp add: fits_def)

locale output_sink =
  fixes out :: "'s output_func" and W :: "addr set" and I :: "nat \<Rightarrow> memory \<times> 's \<Rightarrow> bool" and limit :: nat
  assumes keeps: "I k st \<Longrightarrow> k < limit \<Longrightarrow> I (Suc k) (out ch st)"
    and frame: "I k st \<Longrightarrow> k < limit \<Longrightarrow> x \<notin> W \<Longrightarrow> fst (out ch st) x = fst st x"
begin

lemma fits_output: "fits W I m k st \<Longrightarrow> k < limit \<Longrightarrow> fits W I m (Suc k) (out ch st)"
  unfolding fits_def agree_def using frame keeps by metis

lemma fits_fold: "fits W I m k st \<Longrightarrow> k + length t \<le> limit \<Longrightarrow> fits W I m (k + length t) (fold out t st)"
proof (induction t arbitrary: k st)
  case (Cons c t)
  then show ?case
    using Cons.IH [of "Suc k" "out c st"] fits_output [of m k st c] by simp
qed simp

lemma output_dup_fold: "output_dup out ch n st = fold out (replicate n ch) st"
  by (induction n arbitrary: st) simp_all

lemma output_chars_fold: "output_chars out t st = fold out t st"
  by (induction t arbitrary: st) simp_all

lemma string_loop_fold:
  assumes "\<And>m' j. agree W m m' \<Longrightarrow> i \<le> j \<Longrightarrow> j < i + n \<Longrightarrow> string m' j = string m j"
    and "fits W I m k st" "k + n \<le> limit"
  shows "string_loop out string i n st = fold out (map (string m) [i..<i + n]) st"
  using assms
proof (induction n arbitrary: i k st)
  case (Suc n)
  have "[i..<i + Suc n] = i # [i + 1..<i + 1 + n]"
    by (simp add: upt_rec)
  then show ?case
    using Suc.IH [of "i + 1" "Suc k" "out (string (fst st) i) st"] Suc.prems(1) [OF fits_agree [OF Suc.prems(2)], of i]
      Suc.prems fits_output [of m k st] by simp
qed simp

lemma format_string_fold:
  assumes "\<And>m' j. agree W m m' \<Longrightarrow> j < nat len \<Longrightarrow> string m' j = string m j"
    and "fits W I m k st" "k + length (string_text (string m) len c) \<le> limit"
  shows "format_string out string len c st = fold out (string_text (string m) len c) st"
proof -
  have loop: "string_loop out string 0 (nat len) s = fold out (map (string m) [0..<nat len]) s"
    if "fits W I m j s" "j + nat len \<le> limit" for s j
    using string_loop_fold [of m 0 "nat len" string j s] assms(1) that by simp
  let ?pad = "replicate (nat (s32 (width c - len))) 32"
  have "fits W I m (k + length ?pad) (fold out ?pad st)" if "width c > len"
    using fits_fold [OF assms(2), of ?pad] assms(3) that by (auto simp: string_text_def Let_def split: if_splits)
  then show ?thesis
    using loop [OF assms(2)] loop [of "k + length ?pad" "fold out ?pad st"] assms(3)
    by (auto simp: format_string_def string_text_def output_dup_fold Let_def simp del: fold_replicate split: if_splits)
qed

lemma format_integer_fold:
  "format_integer out v is_signed negative b c st =
     rbind (integer_text v is_signed negative b c) (\<lambda>t. Some (Inr (fold out t st)))"
proof -
  have nat_if: "nat (if x < 0 then 0 else x) = nat x" for x :: int
    by simp
  have both: "flags c AND (MINUS OR ZERO) = 0 \<longleftrightarrow> \<not> flag c MINUS \<and> \<not> flag c ZERO"
    by (auto simp: flag_def bit_eq_iff bit_simps)
  show ?thesis
    by (cases "integer_buf (unat v) b c" rule: option.exhaust)
      (auto simp: format_integer_def integer_text_def Let_def rbind_def output_dup_fold output_chars_fold
        both nat_if replicate_append_same [symmetric] split: sum.splits)
qed

lemma conversion_fold:
  assumes "conversion_text m ch c args = Some (Inr (args', t))" "string_outside W m ch c args"
    and "fits W I m k st" "k + length t \<le> limit"
  shows "do_conversion out ch c args st = Some (Inr (args', fold out t st))"
proof (cases "ch = byte CHR ''s'' \<and> args \<noteq> [] \<and> hd args \<noteq> 0")
  case False
  have fixed: "format_string out (\<lambda>m. string) len c st = fold out (string_text string len c) st"
    if "length (string_text string len c) \<le> length t" for string len
    using format_string_fold [of m len "\<lambda>m. string" k st c] assms(3,4) that by simp
  have "do_conversion out ch c args st =
      rbind (conversion_text m ch c args) (\<lambda>(args, t). Some (Inr (args, fold out t st)))"
  proof (cases "ch = byte CHR ''c'' \<or> ch = byte CHR ''s''")
    case True
    with False assms(1) show ?thesis
      by (cases args) (auto simp: do_conversion_def conversion_text_def va_arg32_def fixed)
  next
    case no_string: False
    then show ?thesis
      by (auto simp: do_conversion_def conversion_text_def format_integer_fold
        output_chars_fold rbind_assoc case_prod_unfold abs_if intro!: rbind_cong)
  qed
  then show ?thesis
    by (simp add: assms(1))
next
  case True
  then obtain a rest where a: "args = a # rest" "a \<noteq> 0" "ch = byte CHR ''s''"
    by (cases args) auto
  let ?k = "nat (precision c mod 4294967296)"
  have outside: "unat a + i \<notin> W" if "i \<le> strnlen m (unat a) ?k" for i
    using assms(2) a that by (simp add: string_outside_def)
  have len: "strnlen (fst st) (unat a) ?k = strnlen m (unat a) ?k"
    using outside assms(3) by (intro strnlen_cong) (simp add: fits_def agree_def)
  let ?n = "s32 (int (strnlen m (unat a) ?k))"
  have t: "t = string_text (\<lambda>i. m (unat a + i)) ?n c" "args' = rest"
    using assms(1) a by (simp_all add: conversion_text_def va_arg32_def)
  have "format_string out (\<lambda>m i. m (unat a + i)) ?n c st = fold out t st"
    unfolding t
  proof (rule format_string_fold [OF _ assms(3)])
    fix m' j assume "agree W m m'" "j < nat ?n"
    then show "m' (unat a + j) = m (unat a + j)"
      using outside [of j] s32_nat_le [of "strnlen m (unat a) ?k"] by (simp add: agree_def)
  qed (use assms(4) t in simp)
  with a len t show ?thesis
    by (simp add: do_conversion_def va_arg32_def)
qed

text \<open>Every character of the text reaches the function that receives the output, in order.\<close>

lemma vprintf_fold:
  "\<lbrakk>format_text m format args = Some (Inr t); reads_outside W m format args; fits W I m k st; k + length t \<le> limit\<rbrakk> \<Longrightarrow>
   vprintf_loop out format args st = Some (Inr (fold out t st))"
proof (induction "length format" arbitrary: format args t k st rule: less_induct)
  case less
  show ?case
  proof (cases format)
    case Nil
    then show ?thesis
      using less.prems(1) by (subst vprintf_loop.simps) (simp add: format_text.simps)
  next
    case (Cons c s)
    note printed = less.prems(1) [unfolded Cons format_text.simps [of m "c # s"]]
    consider "c \<noteq> byte CHR ''%''" | "c = byte CHR ''%''" "peek s = byte CHR ''%''"
      | "c = byte CHR ''%''" "peek s \<noteq> byte CHR ''%''"
      by blast
    then show ?thesis
    proof cases
      case 1
      then obtain u where "t = c # u" "format_text m s args = Some (Inr u)"
        using printed by (auto simp: rbind_Inr_conv)
      then show ?thesis
        using less.hyps [of s args u "Suc k" "out c st"] less.prems(2-4) Cons 1 fits_output [of m k st c]
        by (subst vprintf_loop.simps) simp
    next
      case 2
      then obtain u where "t = c # u" "format_text m (tl s) args = Some (Inr u)"
        using printed by (auto simp: rbind_Inr_conv)
      then show ?thesis
        using less.hyps [of "tl s" args u "Suc k" "out c st"] less.prems(2-4) Cons 2 fits_output [of m k st c]
        by (subst vprintf_loop.simps) simp
    next
      case 3
      then obtain cv s' a' a'' t1 u where parts: "parse_conversion s args = Inr (cv, s', a')"
        "conversion_text m (peek s') cv a' = Some (Inr (a'', t1))" "s' \<noteq> []"
        "format_text m (tl s') a'' = Some (Inr u)" "t = t1 @ u"
        using printed by (auto simp: rbind_Inr_conv split: prod.splits if_splits)
      have read: "string_outside W m (peek s') cv a'" "reads_outside W m (tl s') a''"
        using less.prems(2) Cons 3 parts(1) conversion_text_args [OF parts(2)] by simp_all
      have "do_conversion out (peek s') cv a' st = Some (Inr (a'', fold out t1 st))"
        using conversion_fold [OF parts(2) read(1) less.prems(3)] less.prems(4) parts(5) by simp
      moreover have "vprintf_loop out (tl s') a'' (fold out t1 st) = Some (Inr (fold out u (fold out t1 st)))"
        using less.hyps [OF _ parts(4) read(2) fits_fold [OF less.prems(3), of t1]]
          parse_conversion_length [OF parts(1)] less.prems(4) Cons parts(5) by simp
      ultimately show ?thesis
        using Cons 3 parts by (subst vprintf_loop.simps) simp
    qed
  qed
qed

end

section \<open>Integers\<close>

lemma push_digit_ok [simp]: "length buf < 64 \<Longrightarrow> push_digit buf ch = Inr (buf @ [ch])"
  by (simp add: push_digit_def)

text \<open>A base with one character for each digit, in which 64 bits need at most 31 digits.\<close>

definition base_ok :: "integer_base \<Rightarrow> bool" where
  "base_ok b \<longleftrightarrow> 8 \<le> base b \<and> length (digits b) = base b"

lemma base_ok_simps [simp]: "base_ok base_d" "base_ok base_o" "base_ok base_x" "base_ok base_X"
  by (simp_all add: base_ok_def base_d_def base_o_def base_x_def base_X_def text_of_def)

lemma digit_loop_returns:
  assumes "base_ok b"
  shows "v < base b ^ k \<Longrightarrow> length buf + 2 * k \<le> 64 \<Longrightarrow>
    \<exists>buf'. digit_loop b g v cnt buf = Some (Inr buf') \<and> length buf' \<le> length buf + 2 * k"
proof (induction k arbitrary: v cnt buf)
  case 0
  then show ?case
    by (subst digit_loop.simps) simp
next
  case (Suc k)
  show ?case
  proof (cases "v = 0")
    case False
    have b: "v mod base b < length (digits b)" "v div base b < base b ^ k"
      using assms Suc.prems(1) by (auto simp: base_ok_def less_mult_imp_div_less mult.commute)
    define buf1 where "buf1 = (if g \<and> cnt > 0 \<and> cnt mod group b = 0 then buf @ [byte CHR '',''] else buf)"
    have len: "length buf1 \<le> length buf + 1" "length buf1 < 64"
      using Suc.prems(2) by (auto simp: buf1_def)
    have "digit_loop b g v cnt buf =
        digit_loop b g (v div base b) (cnt + 1) (buf1 @ [digits b ! (v mod base b)])"
      using False b len Suc.prems(2) by (subst digit_loop.simps) (auto simp: buf1_def)
    then show ?thesis
      using Suc.IH [OF b(2), of "buf1 @ [digits b ! (v mod base b)]" "cnt + 1"] Suc.prems(2) len by auto
  qed (subst digit_loop.simps, simp)
qed

text \<open>Without grouping: the digits of the number, the lowest first.\<close>

definition number_of :: "nat \<Rightarrow> nat list \<Rightarrow> nat" where
  "number_of b ds = foldr (\<lambda>d v. d + b * v) ds 0"

lemma digit_loop_digits:
  assumes "base_ok b"
  shows "v < base b ^ k \<Longrightarrow> length buf + k \<le> 64 \<Longrightarrow>
    \<exists>ds. digit_loop b False v cnt buf = Some (Inr (buf @ map (nth (digits b)) ds)) \<and> length ds \<le> k \<and>
      (\<forall>d\<in>set ds. d < base b) \<and> number_of (base b) ds = v \<and> (ds = [] \<longleftrightarrow> v = 0) \<and> (v \<noteq> 0 \<longrightarrow> last ds \<noteq> 0)"
proof (induction k arbitrary: v cnt buf)
  case 0
  then show ?case
    by (subst digit_loop.simps) (simp add: number_of_def)
next
  case (Suc k)
  show ?case
  proof (cases "v = 0")
    case True
    then show ?thesis
      by (subst digit_loop.simps) (simp add: number_of_def)
  next
    case False
    have b: "v mod base b < length (digits b)" "v div base b < base b ^ k" "v mod base b < base b"
      using assms Suc.prems(1) by (auto simp: base_ok_def less_mult_imp_div_less mult.commute)
    have "digit_loop b False v cnt buf =
        digit_loop b False (v div base b) (cnt + 1) (buf @ [digits b ! (v mod base b)])"
      using False b Suc.prems(2) by (subst digit_loop.simps) auto
    moreover obtain ds where ds: "digit_loop b False (v div base b) (cnt + 1) (buf @ [digits b ! (v mod base b)]) =
        Some (Inr ((buf @ [digits b ! (v mod base b)]) @ map (nth (digits b)) ds))" "length ds \<le> k"
      "\<forall>d\<in>set ds. d < base b" "number_of (base b) ds = v div base b" "ds = [] \<longleftrightarrow> v div base b = 0"
      "v div base b \<noteq> 0 \<longrightarrow> last ds \<noteq> 0"
      using Suc.IH [OF b(2), of "buf @ [digits b ! (v mod base b)]" "cnt + 1"] Suc.prems(2) by auto
    moreover have "last (v mod base b # ds) \<noteq> 0"
    proof (cases "v div base b = 0")
      case True
      then have "v mod base b = v"
        using mod_div_mult_eq [of v "base b"] by simp
      with True ds(5) False show ?thesis
        by simp
    qed (use ds(5,6) in simp)
    ultimately show ?thesis
      using b(3) False by (intro exI [of _ "v mod base b # ds"]) (auto simp: number_of_def)
  qed
qed

lemma zero_loop_eq: "zero_loop prec buf = buf @ replicate (nat (min prec 63) - length buf) (byte CHR ''0'')"
proof (induction prec buf rule: zero_loop.induct)
  case (1 prec buf)
  show ?case
  proof (cases "int (length buf) < prec \<and> length buf < 64 - 1")
    case True
    then have "nat (min prec 63) - length buf = Suc (nat (min prec 63) - Suc (length buf))"
      by auto
    with True 1 show ?thesis
      by (subst zero_loop.simps) simp
  next
    case False
    then have "nat (min prec 63) - length buf = 0"
      by auto
    with False show ?thesis
      by (subst zero_loop.simps) auto
  qed
qed

lemma base_ok_power: "base_ok b \<Longrightarrow> unat (v :: u64) < base b ^ 22"
proof -
  assume "base_ok b"
  then have "(8 :: nat) ^ 22 \<le> base b ^ 22"
    by (intro power_mono) (auto simp: base_ok_def)
  moreover have "unat v < 8 ^ 22"
    using unat_u64_less [of v] by simp
  ultimately show ?thesis
    by simp
qed

lemma integer_buf_returns:
  assumes "base_ok b"
  shows "\<exists>buf. integer_buf (unat (v :: u64)) b c = Some (Inr buf) \<and> length buf \<le> 64"
proof -
  obtain buf where buf: "digit_loop b (flag c GROUP) (unat v) 0 [] = Some (Inr buf)" "length buf \<le> 44"
    using digit_loop_returns [OF assms base_ok_power [OF assms, of v], of "[]"] by auto
  define prec where "prec = (if precision c < 0 then 1 else precision c)"
  have "length (zero_loop prec buf) \<le> 63"
    using buf(2) by (simp add: zero_loop_eq)
  then show ?thesis
    unfolding integer_buf_def buf(1) by (simp add: prec_def [symmetric] Let_def)
qed

text \<open>The text with a field width: padded to it, from the text without one.\<close>

lemma integer_text_width:
  assumes "base_ok b"
  shows "\<exists>t t0. integer_text v is_signed negative b c = Some (Inr t) \<and>
    integer_text v is_signed negative b (c\<lparr>width := 0\<rparr>) = Some (Inr t0) \<and> length t0 \<le> 67 \<and>
    length t = length t0 + (if flag c MINUS \<and> flag c ZERO then 2 else 1) * nat (s32 (width c - int (length t0)))"
proof -
  obtain buf where buf: "integer_buf (unat v) b c = Some (Inr buf)" "length buf \<le> 64"
    using integer_buf_returns [OF assms] by blast
  have same: "integer_buf (unat v) b (c\<lparr>width := 0\<rparr>) = integer_buf (unat v) b c"
    "sign_char is_signed negative (c\<lparr>width := 0\<rparr>) = sign_char is_signed negative c"
    "flag (c\<lparr>width := 0\<rparr>) f = flag c f" for f
    by (simp_all add: integer_buf_def sign_char_def flag_def)
  define sgn_text where "sgn_text = (if sign_char is_signed negative c \<noteq> 0 then [sign_char is_signed negative c] else [])"
  define x_text where "x_text = (let x = (if flag c POUND \<and> v \<noteq> 0 then x_char b else 0) in if x \<noteq> 0 then [byte CHR ''0'', x] else [])"
  have small: "length sgn_text \<le> 1" "length x_text \<le> 2"
    by (auto simp: sgn_text_def x_text_def Let_def)
  define t where "t w = (let pad = nat (s32 (w - int (length buf) - int (length x_text) - int (length sgn_text)))
    in (if flag c MINUS \<or> flag c ZERO then [] else replicate pad 32) @ sgn_text @ x_text @
       (if flag c ZERO then replicate pad (byte CHR ''0'') else []) @ rev buf @
       (if flag c MINUS then replicate pad 32 else []))" for w :: int
  have "integer_text v is_signed negative b c = Some (Inr (t (width c)))"
    unfolding integer_text_def buf(1) by (simp add: t_def sgn_text_def x_text_def Let_def)
  moreover have "integer_text v is_signed negative b (c\<lparr>width := 0\<rparr>) = Some (Inr (t 0))"
    unfolding integer_text_def same buf(1) by (simp add: t_def sgn_text_def x_text_def Let_def)
  moreover have t0: "length (t 0) = length buf + length x_text + length sgn_text"
    using small buf(2) by (simp add: t_def)
  moreover have "length (t w) = length (t 0) + (if flag c MINUS \<and> flag c ZERO then 2 else 1) * nat (s32 (w - int (length (t 0))))" for w
    unfolding t0 by (simp add: t_def Let_def algebra_simps)
  moreover have "length (t 0) \<le> 67"
    using t0 small buf(2) by linarith
  ultimately show ?thesis
    by (intro exI [of _ "t (width c)"] exI [of _ "t 0"] conjI)
qed

section \<open>Every format has a text\<close>

lemma integer_text_returns: "base_ok b \<Longrightarrow> \<exists>t. integer_text v is_signed negative b c = Some (Inr t)"
  using integer_text_width by blast

lemma conversion_text_returns: "\<exists>r. conversion_text m ch c args = Some r"
proof -
  have int: "\<exists>r. rbind (integer_text v sg ng b c) (\<lambda>t. Some (Inr (args, t))) = Some (r :: (u32 list \<times> u8 list) outcome)"
    if "base_ok b" for v sg ng b c and args :: "u32 list"
    using integer_text_returns [OF that, of v sg ng c] by auto
  have arg: "\<exists>r. rbind (Some a) f = Some r" if "\<And>x. \<exists>r. f x = Some r" for a :: "'a outcome" and f :: "'a \<Rightarrow> 'b run"
    using that by (cases a) auto
  show ?thesis
    unfolding conversion_text_def by (auto intro!: arg int split: prod.splits)
qed

lemma format_text_returns: "\<exists>r. format_text m format args = Some r"
proof (induction "length format" arbitrary: format args rule: less_induct)
  case less
  have bind: "\<exists>r. rbind a f = Some r" if "\<exists>r. a = Some r" "\<And>x. a = Some (Inr x) \<Longrightarrow> \<exists>r. f x = Some r" for a :: "'a run" and f :: "'a \<Rightarrow> 'b run"
    using that by (cases a; cases "the a") auto
  show ?case
  proof (cases format)
    case (Cons c s)
    have "\<exists>r. format_text m s a = Some r" "\<exists>r. format_text m (tl s) a = Some r" for a
      using less [of s] less [of "tl s"] Cons by auto
    moreover have "\<exists>r. format_text m (tl s') a = Some r" if "parse_conversion s args = Inr (cv, s', a')" for cv s' a' a
      using less [of "tl s'"] parse_conversion_length [OF that] Cons by simp
    ultimately show ?thesis
      unfolding Cons by (subst format_text.simps) (auto intro!: bind conversion_text_returns split: prod.splits)
  qed (subst format_text.simps, simp)
qed

section \<open>Printing to memory, continued\<close>

text \<open>The state of the helper after \<open>k\<close> characters, for a buffer with room for \<open>n\<close> of them.\<close>

definition helper_state :: "addr \<Rightarrow> nat \<Rightarrow> nat \<Rightarrow> vsnprintf_aux" where
  "helper_state buffer n k = \<lparr>out_p = buffer + min k n, out_length = int k, max_length = int n\<rparr>"

interpretation vsn: output_sink vsnprintf_helper "{buffer..<buffer + n}" "\<lambda>k st. snd st = helper_state buffer n k" 2147483647
  for buffer n
  by unfold_locales (auto simp: vsnprintf_helper_def helper_state_def Let_def split: prod.splits)

interpretation con: output_sink vprintf_helper "{}" "\<lambda>k st. True" limit for limit
  by unfold_locales (auto simp: vprintf_helper_def split: prod.splits)

lemma helper_fold:
  assumes "k + length t < 2147483648"
  shows "fold vsnprintf_helper t (m, helper_state buffer n k) =
    (\<lambda>x. if buffer + k \<le> x \<and> x < buffer + min (k + length t) n then t ! (x - buffer - k) else m x,
     helper_state buffer n (k + length t))"
  using assms(1)
proof (induction t arbitrary: k m)
  case (Cons c t)
  have "fold vsnprintf_helper (c # t) (m, helper_state buffer n k) =
      fold vsnprintf_helper t (if k < n then m(buffer + k := c) else m, helper_state buffer n (Suc k))"
    using Cons.prems by (auto simp: vsnprintf_helper_def helper_state_def add.commute)
  then show ?case
    using Cons.IH [of "Suc k"] Cons.prems
    by (auto simp: fun_eq_iff nth_Cons' min_def)
qed (auto simp: fun_eq_iff)

lemma vsnprintf_text:
  assumes t: "format_text m format args = Some (Inr t)" "length t < 2147483648"
    and buf: "buf_size \<le> 2147483648" "reads_outside {buffer..<buffer + (buf_size - 1)} m format args"
  shows "vsnprintf m buffer buf_size format args = Some (Inr
    (\<lambda>x. if x = buffer + min (length t) (buf_size - 1) \<and> 0 < buf_size then 0
         else if buffer \<le> x \<and> x < buffer + min (length t) (buf_size - 1) then t ! (x - buffer) else m x,
     int (length t)))"
proof -
  define n where "n = buf_size - 1"
  have aux: "\<lparr>out_p = buffer, out_length = 0, max_length = (if buf_size > 0 then s32 (int (buf_size - 1)) else 0)\<rparr> =
      helper_state buffer n 0"
    using buf(1) by (auto simp: helper_state_def n_def)
  have "vprintf_loop vsnprintf_helper format args (m, helper_state buffer n 0) =
      Some (Inr (fold vsnprintf_helper t (m, helper_state buffer n 0)))"
    using t buf(2) by (intro vsn.vprintf_fold [where m = m and k = 0]) (auto simp: fits_def agree_def n_def)
  also have "fold vsnprintf_helper t (m, helper_state buffer n 0) =
      (\<lambda>x. if buffer \<le> x \<and> x < buffer + min (length t) n then t ! (x - buffer) else m x, helper_state buffer n (length t))"
    using helper_fold [of 0 t m buffer n] t(2) by (simp cong: if_cong)
  finally show ?thesis
    unfolding vsnprintf_def Let_def aux
    by (auto simp: helper_state_def n_def fun_eq_iff)
qed

section \<open>Decimal numbers read back\<close>

lemma bytes_at_Suc: "bytes_at m p (n + 1) = bytes_at m p n @ [m (p + n)]"
  by (simp add: bytes_at_def)

lemma unat_of_int_u64: "0 \<le> x \<Longrightarrow> x < 18446744073709551616 \<Longrightarrow> int (unat (of_int x :: u64)) = x"
  by (simp add: unsigned_of_int take_bit_int_eq_self)

lemma decimal_snoc: "decimal (ds @ [d]) = decimal ds * 10 + (uint d - 48)"
  by (simp add: decimal_def)

lemma digits_base_d:
  assumes "d < 10"
  shows "uint (digits base_d ! d) = 48 + int d" "isdigit (digits base_d ! d)"
proof -
  have "d \<in> {0, 1, 2, 3, 4, 5, 6, 7, 8, 9}"
    using assms by auto
  then show "uint (digits base_d ! d) = 48 + int d" "isdigit (digits base_d ! d)"
    by (auto simp: base_d_def text_of_def isdigit_def)
qed

lemma decimal_digits:
  "\<forall>d\<in>set ds. d < 10 \<Longrightarrow> decimal (rev (map (nth (digits base_d)) ds)) = int (number_of 10 ds)"
  by (induction ds) (simp_all add: number_of_def decimal_snoc digits_base_d, simp add: decimal_def)

lemma all_digits: "\<forall>d\<in>set ds. d < 10 \<Longrightarrow> list_all isdigit (rev (map (nth (digits base_d)) ds))"
  by (simp add: list_all_iff digits_base_d)

lemma integer_text_decimal:
  "\<exists>ds. integer_text v True neg base_d \<lparr>flags = 0, width = 0, precision = - 1, arg_ty = INT_T\<rparr> =
      Some (Inr ((if neg then [45] else []) @ ds)) \<and>
    ds \<noteq> [] \<and> length ds \<le> 22 \<and> list_all isdigit ds \<and> decimal ds = int (unat v)"
proof -
  let ?c = "\<lparr>flags = 0, width = 0, precision = - 1, arg_ty = INT_T\<rparr>"
  have flag: "\<not> flag ?c f" for f
    by (simp add: flag_def)
  have base: "base base_d = 10"
    by (simp add: base_d_def)
  obtain ds where ds: "digit_loop base_d False (unat v) 0 [] = Some (Inr (map (nth (digits base_d)) ds))" "length ds \<le> 22"
    "\<forall>d\<in>set ds. d < 10" "number_of 10 ds = unat v" "ds = [] \<longleftrightarrow> unat v = 0"
    using digit_loop_digits [OF base_ok_simps(1) base_ok_power [OF base_ok_simps(1)], of "[]" v 0] by (auto simp: base)
  define ds' where "ds' = rev (if ds = [] then [48] else map (nth (digits base_d)) ds)"
  have "zero_loop 1 (map (nth (digits base_d)) ds) = rev ds'"
    by (cases ds) (simp_all add: zero_loop_eq ds'_def)
  then have "integer_buf (unat v) base_d ?c = Some (Inr (rev ds'))"
    by (simp add: integer_buf_def flag ds(1))
  moreover have "ds' \<noteq> []" "length ds' \<le> 22" "list_all isdigit ds'" "decimal ds' = int (unat v)"
    using ds(2-5) all_digits [OF ds(3)] decimal_digits [OF ds(3)]
    by (auto simp: ds'_def isdigit_def decimal_def)
  ultimately show ?thesis
    by (intro exI [of _ ds']) (simp add: integer_text_def flag sign_char_def)
qed

lemma format_text_decimal:
  "\<exists>ds. format_text m (text_of ''%d'') [a] = Some (Inr ((if sint a < 0 then [45] else []) @ ds)) \<and>
    ds \<noteq> [] \<and> length ds \<le> 22 \<and> list_all isdigit ds \<and> decimal ds = \<bar>sint a\<bar>"
proof -
  have fmt: "text_of ''%d'' = [37, 100]"
    by (simp add: text_of_def)
  have parse: "parse_conversion [100] [a] = Inr (\<lparr>flags = 0, width = 0, precision = - 1, arg_ty = INT_T\<rparr>, [100], [a])"
    by (simp add: parse_conversion_def settle_flags_def parse_width_def parse_precision_def parse_type_def peek_def isdigit_def)
  have "- 2147483648 \<le> sint a" "sint a < 2147483648"
    using sint_ge [of a] sint_less [of a] by simp_all
  then have abs: "int (unat (of_int \<bar>sint a\<bar> :: u64)) = \<bar>sint a\<bar>"
    by (intro unat_of_int_u64) linarith+
  obtain ds where "integer_text (of_int \<bar>sint a\<bar>) True (sint a < 0) base_d \<lparr>flags = 0, width = 0, precision = - 1, arg_ty = INT_T\<rparr> =
      Some (Inr ((if sint a < 0 then [45] else []) @ ds))" "ds \<noteq> []" "length ds \<le> 22" "list_all isdigit ds" "decimal ds = \<bar>sint a\<bar>"
    using integer_text_decimal [of "of_int \<bar>sint a\<bar>" "sint a < 0"] abs by auto
  moreover from this have "conversion_text m 100 \<lparr>flags = 0, width = 0, precision = - 1, arg_ty = INT_T\<rparr> [a] =
      Some (Inr ([], (if sint a < 0 then [45] else []) @ ds))"
    by (simp add: conversion_text_def signed_arg_def va_arg32_def)
  moreover have "format_text m [] [] = Some (Inr [])"
    by (simp add: format_text.simps)
  ultimately show ?thesis
    unfolding fmt by (subst format_text.simps) (simp add: parse peek_def)
qed

section \<open>Properties\<close>


definition ex_memory :: memory where
  "ex_memory x = (if x = 50 then 104 else if x = 51 then 105 else if x = 52 then 0 else 7)"


text \<open>
  C37. Integer conversions. For each of the four bases of the source, every 64-bit value, flags, precision and
  field width, \<^verbatim>\<open>format_integer\<close> returns, stays in its buffer of 64 bytes and sends a text to the output function,
  which differs from the one without a field width by padding: as many characters as are missing. A
  conversion with both a minus and a zero flag pads twice, with zeros and with spaces.
\<close>

theorem format_integer_width:
  assumes "b \<in> {base_d, base_o, base_x, base_X}" "0 \<le> width c" "width c < 2147483648"
  shows "\<exists>t t0. length t0 \<le> 67 \<and>
    length t = (if flag c MINUS \<and> flag c ZERO then length t0 + 2 * (nat (width c) - length t0)
                else max (nat (width c)) (length t0)) \<and>
    (\<forall>out st. format_integer out v is_signed negative b c st = Some (Inr (fold out t st)) \<and>
       format_integer out v is_signed negative b (c\<lparr>width := 0\<rparr>) st = Some (Inr (fold out t0 st)))"
proof -
  have "base_ok b"
    using assms(1) by auto
  then obtain t t0 where t: "integer_text v is_signed negative b c = Some (Inr t)"
    "integer_text v is_signed negative b (c\<lparr>width := 0\<rparr>) = Some (Inr t0)" "length t0 \<le> 67"
    "length t = length t0 + (if flag c MINUS \<and> flag c ZERO then 2 else 1) * nat (s32 (width c - int (length t0)))"
    using integer_text_width by meson
  have any: "output_sink out UNIV (\<lambda>k st. True) 0" for out :: "'s output_func"
    by unfold_locales auto
  have "s32 (width c - int (length t0)) = width c - int (length t0)"
    using assms t(3) by (intro s32_id) auto
  then have "length t = (if flag c MINUS \<and> flag c ZERO then length t0 + 2 * (nat (width c) - length t0)
      else max (nat (width c)) (length t0))"
    using t(4) assms(2) by (cases "flag c MINUS \<and> flag c ZERO") (auto simp: max_def nat_diff_distrib')
  with t(1-3) show ?thesis
    by (intro exI [of _ t] exI [of _ t0]) (simp add: output_sink.format_integer_fold [OF any])
qed

theorem format_integer_width_witness:
  "\<exists>t (t0 :: u8 list). length t0 \<le> 67 \<and> length t = length t0 + 2 * (5 - length t0) \<and>
     format_integer vprintf_helper 6 True False base_d \<lparr>flags = 17, width = 5, precision = - 1, arg_ty = INT_T\<rparr> (ex_memory, 0, []) =
       Some (Inr (fold vprintf_helper t (ex_memory, 0, [])))"
proof -
  let ?c = "\<lparr>flags = 17, width = 5, precision = - 1, arg_ty = INT_T\<rparr>"
  have "flag ?c MINUS" "flag ?c ZERO"
    by (simp_all add: flag_def MINUS_def ZERO_def)
  note both = this
  have "0 \<le> width ?c" "width ?c < 2147483648"
    by simp_all
  from format_integer_width [OF insertI1 this, of 6 True False] obtain t t0 where t: "length t0 \<le> 67"
      "length t = (if flag ?c MINUS \<and> flag ?c ZERO then length t0 + 2 * (nat (width ?c) - length t0)
        else max (nat (width ?c)) (length t0))"
      "\<forall>out st. format_integer out 6 True False base_d ?c st = Some (Inr (fold out t (st :: memory \<times> int \<times> u8 list))) \<and>
        format_integer out 6 True False base_d (?c\<lparr>width := 0\<rparr>) st = Some (Inr (fold out t0 st))"
    by (elim exE conjE)
  have "format_integer vprintf_helper 6 True False base_d ?c (ex_memory, 0, []) =
      Some (Inr (fold vprintf_helper t (ex_memory, 0, [])))"
    using t(3) by blast
  moreover have "length t = length t0 + 2 * (5 - length t0)"
    using t(2) both by simp
  ultimately show ?thesis
    using t(1) by blast
qed

text \<open>
  C38. What \<^verbatim>\<open>snprintf\<close> writes for \<^verbatim>\<open>%d\<close> into a buffer of at least 24 bytes, \<^verbatim>\<open>atoi\<close> reads back as the same
  number, for every \<^verbatim>\<open>int\<close> from the smallest to the largest.
\<close>

theorem snprintf_atoi_roundtrip:
  assumes "buffer \<noteq> NULL" "24 \<le> buf_size" "buf_size \<le> 2147483648"
  shows "\<exists>m' n. snprintf m buffer buf_size (text_of ''%d'') [a] = Some (Inr (m', n)) \<and> atoi m' buffer = Some (Inr (sint a))"
proof -
  obtain ds where ds: "format_text m (text_of ''%d'') [a] = Some (Inr ((if sint a < 0 then [45] else []) @ ds))"
    "ds \<noteq> []" "length ds \<le> 22" "list_all isdigit ds" "decimal ds = \<bar>sint a\<bar>"
    using format_text_decimal by blast
  define sg :: "u8 list" where "sg = (if sint a < 0 then [45] else [])"
  have sg: "length sg \<le> 1"
    by (simp add: sg_def)
  have "reads_outside {buffer..<buffer + (buf_size - 1)} m (text_of ''%d'') [a]"
    by (simp add: text_of_def peek_def string_outside_def parse_conversion_def settle_flags_def parse_width_def
        parse_precision_def parse_type_def isdigit_def)
  note out = vsnprintf_text [OF ds(1) [folded sg_def] _ assms(3) this]
  define m' where "m' = (\<lambda>x. if x = buffer + length (sg @ ds) then 0
    else if buffer \<le> x \<and> x < buffer + length (sg @ ds) then (sg @ ds) ! (x - buffer) else m x)"
  have "snprintf m buffer buf_size (text_of ''%d'') [a] = Some (Inr (m', int (length (sg @ ds))))"
    unfolding snprintf_def using ds(3) sg assms(2) by (subst out) (auto simp: m'_def min_def fun_eq_iff)
  moreover have "0 \<notin> set (sg @ ds)"
    using ds(4) by (auto simp: sg_def list_all_iff isdigit_def)
  then have "cstr m' buffer ([] @ sg @ ds @ [])"
    by (auto simp: cstr_iff m'_def nth_append)
  then have "atoi m' buffer = Some (Inr (if sg = [45] then - decimal ds else decimal ds))"
    using assms(1) ds(2,4,5) sint_ge [of a] sint_less [of a]
    by (intro atoi_ok [where ws = "[]" and rest = "[]"]) (auto simp: sg_def)
  ultimately show ?thesis
    using ds(5) by (auto simp: sg_def)
qed

theorem snprintf_atoi_roundtrip_witness:
  "\<exists>m' n. snprintf ex_memory 100 24 (text_of ''%d'') [0x80000000] = Some (Inr (m', n)) \<and>
     atoi m' 100 = Some (Inr (- 2147483648))"
  using snprintf_atoi_roundtrip [of 100 24 ex_memory "0x80000000"] by (simp add: NULL_def)

end
