(* ===== verification/KHash.thy ===== *)
theory KHash
  imports KListSort KString
begin

text \<open>
  Hash tables with chaining (\<^verbatim>\<open>lib/kernel/hash.c\<close>) on the linked lists of \<^verbatim>\<open>lib/kernel/list.c\<close>. The buckets
  are an array of \<^verbatim>\<open>struct list\<close>, 16 bytes each, in memory from the block allocator, whose answer is an argument of the
  operations that ask for it (a null pointer when there is no memory). The hash and comparison functions of a table are
  functions of the address of an element, since the table does not change what they read. A
  destructor or action works on a state of its own. Shown: a table implements a set of elements of which
  no two are equal under the comparison, through every insertion, replacement, deletion and search, with
  the buckets moved or not; iterating visits every element once.
\<close>

section \<open>The structure\<close>

record hash_table =
  h_elem_cnt :: nat
  h_bucket_cnt :: nat
  h_buckets :: addr
  h_hash :: "addr \<Rightarrow> u32"
  h_less :: "addr \<Rightarrow> addr \<Rightarrow> bool"

definition bucket :: "addr \<Rightarrow> nat \<Rightarrow> klist" where
  "bucket b i = \<lparr>head = b + 16 * i, tail = b + 16 * i + 8\<rparr>"

definition bucket_idx :: "hash_table \<Rightarrow> addr \<Rightarrow> nat" where
  "bucket_idx t e = unat (h_hash t e AND (of_nat (h_bucket_cnt t) - 1))"

definition find_bucket :: "hash_table \<Rightarrow> addr \<Rightarrow> klist" where
  "find_bucket t e = bucket (h_buckets t) (bucket_idx t e)"

definition hash_equal :: "hash_table \<Rightarrow> addr \<Rightarrow> addr \<Rightarrow> bool" where
  "hash_equal t hi e \<longleftrightarrow> \<not> h_less t hi e \<and> \<not> h_less t e hi"

partial_function (option) find_elem_loop :: "heap \<Rightarrow> hash_table \<Rightarrow> klist \<Rightarrow> addr \<Rightarrow> addr \<Rightarrow> addr run" where
  "find_elem_loop h t l i e =
     (if i \<noteq> list_end l
      then if hash_equal t i e then Some (Inr i)
           else rbind (Some (list_next h i)) (\<lambda>i. find_elem_loop h t l i e)
      else Some (Inr NULL))"

definition find_elem :: "heap \<Rightarrow> hash_table \<Rightarrow> klist \<Rightarrow> addr \<Rightarrow> addr run" where
  "find_elem h t l e = find_elem_loop h t l (list_begin h l) e"

definition insert_elem :: "heap \<Rightarrow> hash_table \<Rightarrow> klist \<Rightarrow> addr \<Rightarrow> (heap \<times> hash_table) outcome" where
  "insert_elem h t l e =
     (let t = t\<lparr>h_elem_cnt := sz (h_elem_cnt t + 1)\<rparr>
      in kbind (list_push_front h l e) (\<lambda>h. Inr (h, t)))"

definition remove_elem :: "heap \<Rightarrow> hash_table \<Rightarrow> addr \<Rightarrow> (heap \<times> hash_table) outcome" where
  "remove_elem h t e =
     (let t = t\<lparr>h_elem_cnt := sz (h_elem_cnt t + SIZE_MAX)\<rparr>
      in kbind (list_remove h e) (\<lambda>(h, _). Inr (h, t)))"

section \<open>The number of buckets\<close>

definition turn_off_least_1bit :: "u32 \<Rightarrow> u32" where
  "turn_off_least_1bit x = x AND (x - 1)"

definition is_power_of_2 :: "u32 \<Rightarrow> bool" where
  "is_power_of_2 x \<longleftrightarrow> x \<noteq> 0 \<and> turn_off_least_1bit x = 0"

partial_function (option) power_loop :: "u32 \<Rightarrow> u32 option" where
  "power_loop n = (if \<not> is_power_of_2 n then power_loop (turn_off_least_1bit n) else Some n)"

definition MIN_BUCKETS :: nat where "MIN_BUCKETS = 4"
definition BEST_ELEMS_PER_BUCKET :: nat where "BEST_ELEMS_PER_BUCKET = 2"

fun init_loop :: "heap \<Rightarrow> addr \<Rightarrow> nat \<Rightarrow> nat \<Rightarrow> heap" where
  "init_loop h b i 0 = h"
| "init_loop h b i (Suc n) = init_loop (list_init h (bucket b i)) b (i + 1) n"

partial_function (option) move_loop :: "heap \<Rightarrow> hash_table \<Rightarrow> klist \<Rightarrow> addr \<Rightarrow> heap run" where
  "move_loop h t old_bucket elem =
     (if elem \<noteq> list_end old_bucket
      then rbind (Some (list_next h elem)) (\<lambda>nx.
           rbind (Some (list_remove h elem)) (\<lambda>(h, _).
           rbind (Some (list_push_front h (find_bucket t elem) elem)) (\<lambda>h.
             move_loop h t old_bucket nx)))
      else Some (Inr h))"

fun move_buckets :: "heap \<Rightarrow> hash_table \<Rightarrow> addr \<Rightarrow> nat \<Rightarrow> nat \<Rightarrow> heap run" where
  "move_buckets h t old_buckets i 0 = Some (Inr h)"
| "move_buckets h t old_buckets i (Suc n) =
     rbind (move_loop h t (bucket old_buckets i) (list_begin h (bucket old_buckets i))) (\<lambda>h.
       move_buckets h t old_buckets (i + 1) n)"

definition rehash :: "heap \<Rightarrow> hash_table \<Rightarrow> addr \<Rightarrow> (heap \<times> hash_table) run" where
  "rehash h t new_buckets =
     (let n = h_elem_cnt t div BEST_ELEMS_PER_BUCKET;
          n = (if n < MIN_BUCKETS then MIN_BUCKETS else n)
      in Option.bind (power_loop (of_nat n)) (\<lambda>w.
         if unat w = h_bucket_cnt t \<or> new_buckets = NULL then Some (Inr (h, t))
         else let h' = init_loop h new_buckets 0 (unat w);
                  t' = t\<lparr>h_buckets := new_buckets, h_bucket_cnt := unat w\<rparr>
              in rbind (move_buckets h' t' (h_buckets t) 0 (h_bucket_cnt t)) (\<lambda>h. Some (Inr (h, t')))))"

section \<open>Operations\<close>

partial_function (option) destroy_loop :: "(addr \<Rightarrow> 's \<Rightarrow> 's) \<Rightarrow> heap \<Rightarrow> klist \<Rightarrow> 's \<Rightarrow> (heap \<times> 's) run" where
  "destroy_loop destructor h l s =
     (if \<not> list_empty h l
      then rbind (Some (list_pop_front h l)) (\<lambda>(h, e). destroy_loop destructor h l (destructor e s))
      else Some (Inr (h, s)))"

fun clear_loop :: "(addr \<Rightarrow> 's \<Rightarrow> 's) option \<Rightarrow> heap \<Rightarrow> addr \<Rightarrow> nat \<Rightarrow> nat \<Rightarrow> 's \<Rightarrow> (heap \<times> 's) run" where
  "clear_loop destructor h b i 0 s = Some (Inr (h, s))"
| "clear_loop destructor h b i (Suc n) s =
     rbind (case destructor of None \<Rightarrow> Some (Inr (h, s)) | Some d \<Rightarrow> destroy_loop d h (bucket b i) s) (\<lambda>(h, s).
       clear_loop destructor (list_init h (bucket b i)) b (i + 1) n s)"

definition hash_clear :: "(addr \<Rightarrow> 's \<Rightarrow> 's) option \<Rightarrow> heap \<Rightarrow> hash_table \<Rightarrow> 's \<Rightarrow> (heap \<times> hash_table \<times> 's) run" where
  "hash_clear destructor h t s =
     rbind (clear_loop destructor h (h_buckets t) 0 (h_bucket_cnt t) s) (\<lambda>(h, s).
       Some (Inr (h, t\<lparr>h_elem_cnt := 0\<rparr>, s)))"

definition hash_init :: "heap \<Rightarrow> addr \<Rightarrow> (addr \<Rightarrow> u32) \<Rightarrow> (addr \<Rightarrow> addr \<Rightarrow> bool) \<Rightarrow> (heap \<times> hash_table \<times> bool) run" where
  "hash_init h block hash lt =
     (let t = \<lparr>h_elem_cnt = 0, h_bucket_cnt = 4, h_buckets = block, h_hash = hash, h_less = lt\<rparr>
      in if block \<noteq> NULL
         then rbind (hash_clear (None :: (addr \<Rightarrow> unit \<Rightarrow> unit) option) h t ()) (\<lambda>(h, t, _). Some (Inr (h, t, True)))
         else Some (Inr (h, t, False)))"

definition hash_destroy :: "(addr \<Rightarrow> 's \<Rightarrow> 's) option \<Rightarrow> heap \<Rightarrow> hash_table \<Rightarrow> 's \<Rightarrow> (heap \<times> hash_table \<times> 's) run" where
  "hash_destroy destructor h t s =
     (if destructor \<noteq> None then hash_clear destructor h t s else Some (Inr (h, t, s)))"

definition hash_insert :: "heap \<Rightarrow> hash_table \<Rightarrow> addr \<Rightarrow> addr \<Rightarrow> (heap \<times> hash_table \<times> addr) run" where
  "hash_insert h t block new =
     rbind (find_elem h t (find_bucket t new) new) (\<lambda>old.
     rbind (Some (if old = NULL then insert_elem h t (find_bucket t new) new else Inr (h, t))) (\<lambda>(h, t).
     rbind (rehash h t block) (\<lambda>(h, t). Some (Inr (h, t, old)))))"

definition hash_replace :: "heap \<Rightarrow> hash_table \<Rightarrow> addr \<Rightarrow> addr \<Rightarrow> (heap \<times> hash_table \<times> addr) run" where
  "hash_replace h t block new =
     rbind (find_elem h t (find_bucket t new) new) (\<lambda>old.
     rbind (Some (if old \<noteq> NULL then remove_elem h t old else Inr (h, t))) (\<lambda>(h, t').
     rbind (Some (insert_elem h t' (find_bucket t new) new)) (\<lambda>(h, t).
     rbind (rehash h t block) (\<lambda>(h, t). Some (Inr (h, t, old))))))"

definition hash_find :: "heap \<Rightarrow> hash_table \<Rightarrow> addr \<Rightarrow> addr run" where
  "hash_find h t e = find_elem h t (find_bucket t e) e"

definition hash_delete :: "heap \<Rightarrow> hash_table \<Rightarrow> addr \<Rightarrow> addr \<Rightarrow> (heap \<times> hash_table \<times> addr) run" where
  "hash_delete h t block e =
     rbind (find_elem h t (find_bucket t e) e) (\<lambda>found.
       if found \<noteq> NULL
       then rbind (Some (remove_elem h t found)) (\<lambda>(h, t).
            rbind (rehash h t block) (\<lambda>(h, t). Some (Inr (h, t, found))))
       else Some (Inr (h, t, found)))"

partial_function (option) apply_list :: "(addr \<Rightarrow> 's \<Rightarrow> 's) \<Rightarrow> heap \<Rightarrow> klist \<Rightarrow> addr \<Rightarrow> 's \<Rightarrow> 's run" where
  "apply_list act h l elem s =
     (if elem \<noteq> list_end l
      then rbind (Some (list_next h elem)) (\<lambda>nx. apply_list act h l nx (act elem s))
      else Some (Inr s))"

fun apply_loop :: "(addr \<Rightarrow> 's \<Rightarrow> 's) \<Rightarrow> heap \<Rightarrow> addr \<Rightarrow> nat \<Rightarrow> nat \<Rightarrow> 's \<Rightarrow> 's run" where
  "apply_loop act h b i 0 s = Some (Inr s)"
| "apply_loop act h b i (Suc n) s =
     rbind (apply_list act h (bucket b i) (list_begin h (bucket b i)) s) (\<lambda>s. apply_loop act h b (i + 1) n s)"

definition hash_apply :: "(addr \<Rightarrow> 's \<Rightarrow> 's) \<Rightarrow> heap \<Rightarrow> hash_table \<Rightarrow> 's \<Rightarrow> 's run" where
  "hash_apply act h t s = apply_loop act h (h_buckets t) 0 (h_bucket_cnt t) s"

record hash_iterator =
  it_hash :: hash_table
  it_bucket :: nat
  it_elem :: addr

definition hash_first :: "hash_table \<Rightarrow> hash_iterator" where
  "hash_first t = \<lparr>it_hash = t, it_bucket = 0, it_elem = list_head (bucket (h_buckets t) 0)\<rparr>"

function next_loop :: "heap \<Rightarrow> hash_table \<Rightarrow> nat \<Rightarrow> addr \<Rightarrow> nat \<times> addr" where
  "next_loop h t b e =
     (if e = list_end (bucket (h_buckets t) b)
      then if b + 1 \<ge> h_bucket_cnt t then (b + 1, NULL)
           else next_loop h t (b + 1) (list_begin h (bucket (h_buckets t) (b + 1)))
      else (b, e))"
  by pat_completeness auto
termination by (relation "measure (\<lambda>(h, t, b, e). h_bucket_cnt t - b)") auto

declare next_loop.simps [simp del]

definition hash_next :: "heap \<Rightarrow> hash_iterator \<Rightarrow> (hash_iterator \<times> addr) outcome" where
  "hash_next h i =
     kbind (list_next h (it_elem i)) (\<lambda>e.
       let (b, e) = next_loop h (it_hash i) (it_bucket i) e
       in Inr (i\<lparr>it_bucket := b, it_elem := e\<rparr>, e))"

definition hash_cur :: "hash_iterator \<Rightarrow> addr" where "hash_cur i = it_elem i"
definition hash_size :: "hash_table \<Rightarrow> nat" where "hash_size t = h_elem_cnt t"
definition hash_empty :: "hash_table \<Rightarrow> bool" where "hash_empty t \<longleftrightarrow> h_elem_cnt t = 0"

section \<open>Hash functions\<close>

definition FNV_32_PRIME :: u32 where "FNV_32_PRIME = 16777619"
definition FNV_32_BASIS :: u32 where "FNV_32_BASIS = 2166136261"

fun bytes_loop :: "memory \<Rightarrow> addr \<Rightarrow> nat \<Rightarrow> u32 \<Rightarrow> u32" where
  "bytes_loop m buf 0 hash = hash"
| "bytes_loop m buf (Suc n) hash = bytes_loop m (buf + 1) n ((hash * FNV_32_PRIME) XOR ucast (m buf))"

definition hash_bytes :: "memory \<Rightarrow> addr \<Rightarrow> nat \<Rightarrow> u32 outcome" where
  "hash_bytes m buf n = kbind (kassert (buf \<noteq> NULL)) (\<lambda>_. Inr (bytes_loop m buf n FNV_32_BASIS))"

partial_function (option) hash_string_loop :: "memory \<Rightarrow> addr \<Rightarrow> u32 \<Rightarrow> u32 option" where
  "hash_string_loop m s hash =
     (if m s \<noteq> 0 then hash_string_loop m (s + 1) ((hash * FNV_32_PRIME) XOR ucast (m s)) else Some hash)"

definition hash_string :: "memory \<Rightarrow> addr \<Rightarrow> u32 run" where
  "hash_string m s =
     rbind (Some (kassert (s \<noteq> NULL))) (\<lambda>_. Option.bind (hash_string_loop m s FNV_32_BASIS) (\<lambda>x. Some (Inr x)))"

text \<open>The integer is a local variable, whose four bytes are hashed.\<close>

definition hash_int :: "u32 \<Rightarrow> u32 outcome" where
  "hash_int i = hash_bytes (\<lambda>a. le32 (unat i) ! (a - 4)) 4 4"

section \<open>Families of lists\<close>

definition family :: "heap \<Rightarrow> klist list \<Rightarrow> addr list list \<Rightarrow> bool" where
  "family h ls xs \<longleftrightarrow> length xs = length ls \<and> (\<forall>i<length ls. dll h (ls ! i) (xs ! i)) \<and>
     (\<forall>i<length ls. \<forall>j<length ls. i \<noteq> j \<longrightarrow> set (nodes (ls ! i) (xs ! i)) \<inter> set (nodes (ls ! j) (xs ! j)) = {})"

definition headers :: "klist list \<Rightarrow> addr set" where
  "headers ls = head ` set ls \<union> tail ` set ls"

lemma in_concat_nth: "x \<in> set (concat zs) \<longleftrightarrow> (\<exists>j<length zs. x \<in> set (zs ! j))"
  by (simp only: set_concat UN_iff Bex_def) (metis in_set_conv_nth)

lemma family_nth: "family h ls xs \<Longrightarrow> i < length ls \<Longrightarrow> dll h (ls ! i) (xs ! i)"
  by (simp add: family_def)

lemma family_disjoint:
  "family h ls xs \<Longrightarrow> i < length ls \<Longrightarrow> j < length ls \<Longrightarrow> j \<noteq> i \<Longrightarrow>
   set (nodes (ls ! i) (xs ! i)) \<inter> set (nodes (ls ! j) (xs ! j)) = {}"
  by (simp add: family_def)

lemma family_change:
  assumes f: "family h ls xs" and i: "i < length ls" and d: "dll h' (ls ! i) ys" and s: "same_outside A h h'"
    and A: "\<And>j. j < length ls \<Longrightarrow> j \<noteq> i \<Longrightarrow> A \<inter> set (nodes (ls ! j) (xs ! j)) = {}" "set (nodes (ls ! i) ys) \<subseteq> A"
  shows "family h' ls (xs[i := ys])"
proof -
  have len: "length xs = length ls"
    using f by (simp add: family_def)
  have "dll h' (ls ! j) (xs[i := ys] ! j)" if "j < length ls" for j
    using dll_frame [OF family_nth [OF f that] s] A(1) [OF that] d that len by (cases "j = i") auto
  moreover have "set (nodes (ls ! j) (xs[i := ys] ! j)) \<inter> set (nodes (ls ! k) (xs[i := ys] ! k)) = {}"
    if jk: "j < length ls" "k < length ls" "j \<noteq> k" for j k
  proof -
    consider "j = i" "k \<noteq> i" | "k = i" "j \<noteq> i" | "j \<noteq> i" "k \<noteq> i"
      using jk(3) by blast
    then show ?thesis
    proof cases
      case 1
      then show ?thesis
        using disjoint_iff A(2) A(1) [OF jk(2)] len i by fastforce
    next
      case 2
      then show ?thesis
        using disjoint_iff A(2) A(1) [OF jk(1)] len i by fastforce
    next
      case 3
      then show ?thesis
        using family_disjoint [OF f jk(1,2)] jk(3) by simp
    qed
  qed
  ultimately show ?thesis
    using len by (simp add: family_def)
qed

lemma nodes_set: "set (nodes l xs) = {head l, tail l} \<union> set xs"
  by (auto simp: nodes_def)

lemma family_push:
  assumes f: "family h ls xs" and i: "i < length ls" and e: "e \<noteq> NULL" "e \<notin> headers ls" "e \<notin> set (concat xs)"
  shows "\<exists>h'. list_push_front h (ls ! i) e = Inr h' \<and> family h' ls (xs[i := e # xs ! i]) \<and>
    same_outside (headers ls \<union> set (concat xs) \<union> {e}) h h'"
proof -
  have len: "length xs = length ls"
    using f by (simp add: family_def)
  have sub: "set (nodes (ls ! j) (xs ! j)) \<subseteq> headers ls \<union> set (concat xs)" if "j < length ls" for j
    using that len by (auto simp: nodes_set headers_def)
  then have fresh: "e \<notin> set (nodes (ls ! j) (xs ! j))" if "j < length ls" for j
    using e that by blast
  obtain h' where h': "list_push_front h (ls ! i) e = Inr h'" "dll h' (ls ! i) (e # xs ! i)"
    "same_outside (insert e (set (nodes (ls ! i) (xs ! i)))) h h'"
    using dll_push_front [OF family_nth [OF f i] e(1) fresh [OF i]] by blast
  have "insert e (set (nodes (ls ! i) (xs ! i))) \<inter> set (nodes (ls ! j) (xs ! j)) = {}" if "j < length ls" "j \<noteq> i" for j
    using family_disjoint [OF f i that(1)] fresh [OF that(1)] that(2) by blast
  then have "family h' ls (xs[i := e # xs ! i])"
    by (intro family_change [OF f i h'(2,3)]) (auto simp: nodes_set)
  moreover have "same_outside (headers ls \<union> set (concat xs) \<union> {e}) h h'"
    using h'(3) sub [OF i] by (auto simp: same_outside_def)
  ultimately show ?thesis
    using h'(1) by blast
qed

lemma family_remove:
  assumes f: "family h ls xs" and i: "i < length ls" "xs ! i = as @ e # bs"
  shows "\<exists>h'. list_remove h e = Inr (h', hd (bs @ [tail (ls ! i)])) \<and> family h' ls (xs[i := as @ bs]) \<and>
    same_outside (headers ls \<union> set (concat xs)) h h'"
proof -
  have len: "length xs = length ls"
    using f by (simp add: family_def)
  obtain h' where h': "list_remove h e = Inr (h', hd (bs @ [tail (ls ! i)]))" "dll h' (ls ! i) (as @ bs)"
    "same_outside (set (nodes (ls ! i) (xs ! i))) h h'"
    using dll_remove [of h "ls ! i" as e bs] family_nth [OF f i(1)] i(2) by auto
  have "family h' ls (xs[i := as @ bs])"
    using family_disjoint [OF f i(1)] i(2) by (intro family_change [OF f i(1) h'(2,3)]) (auto simp: nodes_set)
  moreover have "set (nodes (ls ! i) (xs ! i)) \<subseteq> headers ls \<union> set (concat xs)"
    using i(1) len by (auto simp: nodes_set headers_def)
  then have "same_outside (headers ls \<union> set (concat xs)) h h'"
    using h'(3) by (auto simp: same_outside_def)
  ultimately show ?thesis
    using h'(1) by blast
qed

lemma family_fresh:
  assumes f: "family h ls xs" and i: "i < length ls" "xs ! i = as @ e # bs"
  shows "e \<noteq> NULL" "e \<notin> headers ls" "e \<notin> set (concat (xs[i := as @ bs]))"
proof -
  have len: "length xs = length ls"
    using f by (simp add: family_def)
  have e: "e \<in> set (nodes (ls ! i) (xs ! i))" "e \<noteq> head (ls ! i)" "e \<noteq> tail (ls ! i)" "e \<notin> set (as @ bs)" "e \<noteq> NULL"
    using family_nth [OF f i(1)] i(2) by (auto simp: dll_def chain_def nodes_def)
  have other: "e \<notin> set (nodes (ls ! j) (xs ! j))" if "j < length ls" "j \<noteq> i" for j
    using family_disjoint [OF f i(1) that] e(1) by blast
  show "e \<noteq> NULL"
    by (rule e(5))
  show "e \<notin> headers ls"
    using e(2,3) other by (auto simp: headers_def in_set_conv_nth nodes_set) metis+
  show "e \<notin> set (concat (xs[i := as @ bs]))"
    using e(4) other len i(1) by (auto simp: in_concat_nth nodes_set nth_list_update simp del: set_concat split: if_splits)
qed

lemma family_add:
  assumes f: "family h ls xs" and l: "head l \<noteq> NULL" "tail l \<noteq> NULL" "head l \<noteq> tail l"
    and new: "{head l, tail l} \<inter> (headers ls \<union> set (concat xs)) = {}"
  shows "family (list_init h l) (ls @ [l]) (xs @ [[]])"
proof -
  have len: "length xs = length ls"
    using f by (simp add: family_def)
  have dj: "{head l, tail l} \<inter> set (nodes (ls ! j) (xs ! j)) = {}" if "j < length ls" for j
    using new that len by (fastforce simp: nodes_set headers_def)
  note init = dll_init [OF l, of h]
  have "dll (list_init h l) (ls ! j) (xs ! j)" if "j < length ls" for j
    using dll_frame [OF family_nth [OF f that] conjunct2 [OF init] dj [OF that]] .
  moreover have "set (nodes l []) = {head l, tail l}"
    by (auto simp: nodes_set)
  ultimately show ?thesis
    using f init dj len by (auto simp: family_def nth_append less_Suc_eq disjoint_iff)
qed

lemma family_drop: "family h (ls @ ls') (xs @ xs') \<Longrightarrow> length xs = length ls \<Longrightarrow> family h ls' xs'"
  unfolding family_def
proof (elim conjE, intro conjI allI impI)
  assume a: "length xs = length ls" "\<forall>i<length (ls @ ls'). dll h ((ls @ ls') ! i) ((xs @ xs') ! i)"
    "\<forall>i<length (ls @ ls'). \<forall>j<length (ls @ ls'). i \<noteq> j \<longrightarrow>
       set (nodes ((ls @ ls') ! i) ((xs @ xs') ! i)) \<inter> set (nodes ((ls @ ls') ! j) ((xs @ xs') ! j)) = {}"
  fix i assume i: "i < length ls'"
  show "dll h (ls' ! i) (xs' ! i)"
    using a(1,2) i by (auto simp: nth_append dest: spec [of _ "length ls + i"])
  fix j assume j: "j < length ls'" "i \<noteq> j"
  show "set (nodes (ls' ! i) (xs' ! i)) \<inter> set (nodes (ls' ! j) (xs' ! j)) = {}"
    using a(1) a(3) [rule_format, of "length ls + i" "length ls + j"] i j by (simp add: nth_append)
qed simp

lemma bucket_sel [simp]: "head (bucket b i) = b + 16 * i" "tail (bucket b i) = b + 16 * i + 8"
  by (simp_all add: bucket_def)

lemma headers_append: "headers (ls @ ls') = headers ls \<union> headers ls'"
  by (auto simp: headers_def)

lemma concat_replicate_empty: "concat (xs @ replicate n []) = concat xs"
  by (induction n) (simp_all add: replicate_append_same [symmetric])

lemma headers_bucket: "headers (map (bucket b) [0..<n]) \<subseteq> {b..<b + 16 * n}"
  by (auto simp: headers_def bucket_def)

lemma init_loop_family:
  assumes "b \<noteq> NULL" "{b..<b + 16 * (i + n)} \<inter> (headers ls \<union> set (concat xs)) = {}" "length xs = length ls"
  shows "family h (ls @ map (bucket b) [0..<i]) (xs @ replicate i []) \<Longrightarrow>
    family (init_loop h b i n) (ls @ map (bucket b) [0..<i + n]) (xs @ replicate (i + n) []) \<and>
    same_outside {b..<b + 16 * (i + n)} h (init_loop h b i n)"
  using assms
proof (induction n arbitrary: h i)
  case (Suc n)
  have "{head (bucket b i), tail (bucket b i)} \<inter> headers (map (bucket b) [0..<i]) = {}"
    using headers_bucket [of b i] by (auto simp: bucket_def)
  moreover have "{head (bucket b i), tail (bucket b i)} \<subseteq> {b..<b + 16 * (i + Suc n)}"
    by (auto simp: bucket_def)
  ultimately have "{head (bucket b i), tail (bucket b i)} \<inter>
      (headers (ls @ map (bucket b) [0..<i]) \<union> set (concat (xs @ replicate i []))) = {}"
    using Suc.prems(3) unfolding headers_append concat_replicate_empty by blast
  then have fam: "family (list_init h (bucket b i)) ((ls @ map (bucket b) [0..<i]) @ [bucket b i]) ((xs @ replicate i []) @ [[]])"
    using Suc.prems(2) by (intro family_add [OF Suc.prems(1)]) (auto simp: NULL_def)
  have "xs @ [[]] @ replicate (i + n) [] = xs @ replicate (i + Suc n) []"
    by simp
  moreover have "same_outside {b..<b + 16 * (i + Suc n)} h (list_init h (bucket b i))"
    using dll_init [of "bucket b i" h] Suc.prems(2) by (auto simp: bucket_def NULL_def same_outside_def)
  ultimately show ?case
    using Suc.IH [of "list_init h (bucket b i)" "i + 1"] fam Suc.prems
    by (auto simp: replicate_append_same same_outside_def)
qed (simp add: same_outside_def)

section \<open>Powers of two\<close>

lemma high_bit:
  assumes "n \<noteq> 0" "(n :: nat) < 4294967296"
  obtains k where "k < 32" "2 ^ k \<le> n" "n < 2 ^ Suc k"
proof -
  define k where "k = Max {j. 2 ^ j \<le> n}"
  have fin: "finite {j. 2 ^ j \<le> n}"
    by (rule finite_subset [of _ "{..n}"]) (auto intro: order_trans [OF less_imp_le [OF less_exp]])
  have "0 \<in> {j. 2 ^ j \<le> n}"
    using assms(1) by simp
  then have k: "2 ^ k \<le> n"
    using Max_in [OF fin] unfolding k_def by blast
  have "\<not> 2 ^ Suc k \<le> n"
    using Max_ge [OF fin, of "Suc k"] unfolding k_def [symmetric] by auto
  moreover have "k < 32"
  proof (rule ccontr)
    assume "\<not> k < 32"
    then have "(2 :: nat) ^ 32 \<le> 2 ^ k"
      by (intro power_increasing) auto
    with k assms(2) show False
      by simp
  qed
  ultimately show thesis
    using that k by simp
qed

lemma bit_high:
  assumes "2 ^ k \<le> unat (x :: u32)" "unat x < 2 ^ Suc k"
  shows "bit x k"
proof -
  have "unat x div 2 ^ k = 1"
    using assms by (intro div_nat_eqI) auto
  then have "bit (unat x) k"
    by (simp add: bit_iff_odd)
  then show ?thesis
    by (simp add: bit_unsigned_iff)
qed

lemma not_power_of_2:
  assumes "x \<noteq> 0" "2 ^ k < unat x" "unat x < 2 ^ Suc k"
  shows "turn_off_least_1bit x \<noteq> 0"
proof -
  have "unat (x - 1) = unat x - 1"
    using assms(1) by (simp add: unat_minus_one)
  then have "bit x k" "bit (x - 1) k"
    using assms by (intro bit_high; simp)+
  then have "bit (turn_off_least_1bit x) k"
    by (simp add: turn_off_least_1bit_def bit_and_iff)
  then show ?thesis
    by auto
qed

lemma power_loop_ok: "n \<noteq> 0 \<Longrightarrow> \<exists>w k. power_loop n = Some w \<and> k < 32 \<and> unat w = 2 ^ k \<and> w \<le> n"
proof (induction "unat n" arbitrary: n rule: less_induct)
  case less
  have "unat n \<noteq> 0"
    using less.prems by (simp add: unat_eq_zero)
  then obtain k where k: "k < 32" "2 ^ k \<le> unat n" "unat n < 2 ^ Suc k"
    by (rule high_bit [OF _ unat_u32_less])
  show ?case
  proof (cases "is_power_of_2 n")
    case True
    then have "\<not> 2 ^ k < unat n"
      using not_power_of_2 k(3) by (auto simp: is_power_of_2_def)
    then show ?thesis
      using k True by (subst power_loop.simps) auto
  next
    case False
    have "turn_off_least_1bit n \<le> n - 1" "n - 1 < n"
      using less.prems \<open>unat n \<noteq> 0\<close>
      by (simp_all add: turn_off_least_1bit_def word_and_le1 word_less_nat_alt unat_minus_one)
    then have "unat (turn_off_least_1bit n) < unat n" "turn_off_least_1bit n \<le> n"
      by (auto simp: word_less_nat_alt word_le_nat_alt)
    moreover have "turn_off_least_1bit n \<noteq> 0"
      using False less.prems by (simp add: is_power_of_2_def)
    ultimately obtain w k where "power_loop (turn_off_least_1bit n) = Some w" "k < 32" "unat w = 2 ^ k" "w \<le> n"
      using less.hyps [of "turn_off_least_1bit n"] order_trans by blast
    then show ?thesis
      using False by (subst power_loop.simps) auto
  qed
qed

lemma bucket_idx_less:
  assumes "h_bucket_cnt t = 2 ^ k" "k < 32"
  shows "bucket_idx t e < h_bucket_cnt t"
proof -
  have "of_nat (h_bucket_cnt t) - 1 = (mask k :: u32)"
    using assms(1) by (simp add: mask_eq_exp_minus_1)
  then have "bucket_idx t e = unat (take_bit k (h_hash t e))"
    by (simp add: bucket_idx_def take_bit_eq_mask)
  also have "\<dots> < 2 ^ k"
    by (simp add: unsigned_take_bit_eq)
  finally show ?thesis
    by (simp add: assms(1))
qed

section \<open>Well-formed tables\<close>

definition blists :: "hash_table \<Rightarrow> klist list" where
  "blists t = map (bucket (h_buckets t)) [0..<h_bucket_cnt t]"

text \<open>The lists of the buckets hold the elements, each in the bucket of its hash value.\<close>

definition table_ok :: "heap \<Rightarrow> hash_table \<Rightarrow> addr list list \<Rightarrow> bool" where
  "table_ok h t xs \<longleftrightarrow> family h (blists t) xs \<and> (\<exists>k<32. h_bucket_cnt t = 2 ^ k) \<and> h_buckets t \<noteq> NULL \<and>
     h_elem_cnt t = length (concat xs) \<and> length (concat xs) < 4294967296 \<and>
     (\<forall>i<length xs. \<forall>e\<in>set (xs ! i). bucket_idx t e = i)"

lemma length_blists [simp]: "length (blists t) = h_bucket_cnt t"
  by (simp add: blists_def)

lemma blists_nth [simp]: "i < h_bucket_cnt t \<Longrightarrow> blists t ! i = bucket (h_buckets t) i"
  by (simp add: blists_def)

lemma table_length: "table_ok h t xs \<Longrightarrow> length xs = h_bucket_cnt t"
  by (simp add: table_ok_def family_def)

lemma table_idx: "table_ok h t xs \<Longrightarrow> bucket_idx t e < h_bucket_cnt t"
  using bucket_idx_less by (auto simp: table_ok_def)

lemma table_bucket:
  assumes "table_ok h t xs"
  shows "dll h (find_bucket t e) (xs ! bucket_idx t e)"
  using assms family_nth [of h "blists t" xs "bucket_idx t e"] table_idx [OF assms]
  by (simp add: table_ok_def find_bucket_def)

text \<open>The functions of a table: the comparison is a strict weak order, and equal elements have equal hash values.\<close>

definition hash_funs_ok :: "hash_table \<Rightarrow> bool" where
  "hash_funs_ok t \<longleftrightarrow> strict_weak (h_less t) \<and> (\<forall>a b. hash_equal t a b \<longrightarrow> h_hash t a = h_hash t b)"

lemma hash_equal_refl: "hash_funs_ok t \<Longrightarrow> hash_equal t a a"
  unfolding hash_funs_ok_def hash_equal_def using strict_weakD(1) [of "h_less t" a a] by (elim conjE) blast

lemma hash_equal_sym: "hash_equal t a b \<Longrightarrow> hash_equal t b a"
  by (simp add: hash_equal_def)

lemma hash_equal_trans:
  assumes "hash_funs_ok t" "hash_equal t a b" "hash_equal t b c"
  shows "hash_equal t a c"
proof -
  have "strict_weak (h_less t)"
    using assms(1) by (simp add: hash_funs_ok_def)
  from strict_weakD(2) [OF this] show ?thesis
    using assms(2,3) by (simp add: hash_equal_def) blast
qed

text \<open>The answer of a search in a set of elements.\<close>

definition answer :: "hash_table \<Rightarrow> addr set \<Rightarrow> addr \<Rightarrow> addr \<Rightarrow> bool" where
  "answer t S e r \<longleftrightarrow> (if r = NULL then \<forall>x\<in>S. \<not> hash_equal t x e else r \<in> S \<and> hash_equal t r e)"

lemma find_elem_loop_ok:
  "dll h l (as @ bs) \<Longrightarrow> find_elem_loop h t l (hd (bs @ [tail l])) e =
     Some (Inr (case find (\<lambda>x. hash_equal t x e) bs of None \<Rightarrow> NULL | Some x \<Rightarrow> x))"
proof (induction bs arbitrary: as)
  case Nil
  show ?case
    by (subst find_elem_loop.simps) (simp add: list_end_def)
next
  case (Cons b bs)
  then show ?case
    using Cons.IH [of "as @ [b]"] dll_next [OF Cons.prems] dll_notin [OF Cons.prems]
    by (subst find_elem_loop.simps) (simp add: list_end_def)
qed

lemma find_elem_ok:
  assumes "table_ok h t xs" "hash_funs_ok t"
  shows "\<exists>r. find_elem h t (find_bucket t e) e = Some (Inr r) \<and> answer t (set (concat xs)) e r \<and>
    (r \<noteq> NULL \<longrightarrow> r \<in> set (xs ! bucket_idx t e))"
proof -
  note d = table_bucket [OF assms(1), of e]
  define ys where "ys = xs ! bucket_idx t e"
  define r where "r = (case find (\<lambda>x. hash_equal t x e) ys of None \<Rightarrow> NULL | Some x \<Rightarrow> x)"
  have "find_elem h t (find_bucket t e) e = Some (Inr r)"
    using find_elem_loop_ok [of h "find_bucket t e" "[]" ys t e] d dll_begin [OF d]
    by (simp add: find_elem_def r_def ys_def)
  moreover have idx: "bucket_idx t e < length xs"
    using table_idx [OF assms(1)] table_length [OF assms(1)] by simp
  have "x \<in> set ys" if x: "x \<in> set (concat xs)" "hash_equal t x e" for x
  proof -
    obtain i where "i < length xs" "x \<in> set (xs ! i)"
      using x(1) unfolding in_concat_nth by blast
    moreover have "bucket_idx t x = bucket_idx t e"
      using assms(2) x(2) by (simp add: bucket_idx_def hash_funs_ok_def)
    ultimately show ?thesis
      using assms(1) by (auto simp: table_ok_def ys_def)
  qed
  moreover have "x \<in> set (concat xs)" "x \<noteq> NULL" if "x \<in> set ys" for x
  proof -
    show "x \<in> set (concat xs)"
      unfolding in_concat_nth using that idx ys_def by blast
    show "x \<noteq> NULL"
      using that d by (auto simp: ys_def [symmetric] dll_def chain_def nodes_set)
  qed
  moreover have "if r = NULL then \<forall>x\<in>set ys. \<not> hash_equal t x e else r \<in> set ys \<and> hash_equal t r e"
  proof (cases "find (\<lambda>x. hash_equal t x e) ys")
    case None
    then have "r = NULL" "\<forall>x\<in>set ys. \<not> hash_equal t x e"
      unfolding find_None_iff by (simp_all add: r_def None)
    then show ?thesis
      by simp
  next
    case (Some x)
    then have "x \<in> set ys" "hash_equal t x e"
      by (auto simp: find_Some_iff)
    with Some calculation(4) show ?thesis
      by (simp add: r_def)
  qed
  ultimately show ?thesis
    unfolding answer_def ys_def [symmetric] by (metis (full_types))
qed

section \<open>Moving the elements\<close>

definition placed_in :: "hash_table \<Rightarrow> nat \<Rightarrow> addr list list \<Rightarrow> bool" where
  "placed_in t n xs \<longleftrightarrow> (\<forall>i<length xs. n \<le> i \<longrightarrow> (\<forall>e\<in>set (xs ! i). n + bucket_idx t e = i))"

lemma mset_concat_update:
  "i < length xs \<Longrightarrow> mset (concat (xs[i := ys])) + mset (xs ! i) = mset (concat xs) + mset ys"
proof (induction xs arbitrary: i)
  case (Cons x xs)
  then show ?case
    by (cases i) (auto simp: ac_simps)
qed simp

text \<open>The lists of a rehash: the old buckets, then the new ones.\<close>

definition both_lists :: "addr \<Rightarrow> nat \<Rightarrow> hash_table \<Rightarrow> klist list" where
  "both_lists old n t = map (bucket old) [0..<n] @ blists t"

lemma both_lists_nth:
  "i < n \<Longrightarrow> both_lists old n t ! i = bucket old i"
  "j < h_bucket_cnt t \<Longrightarrow> both_lists old n t ! (n + j) = bucket (h_buckets t) j"
  by (simp_all add: both_lists_def nth_append)

lemma length_both_lists [simp]: "length (both_lists old n t) = n + h_bucket_cnt t"
  by (simp add: both_lists_def)

lemma move_one:
  assumes f: "family h (both_lists old n t) xs" and cnt: "h_bucket_cnt t = 2 ^ k" "k < 32"
    and i: "i < n" "xs ! i = e # rest" and p: "placed_in t n xs"
  obtains h1 h' where "list_next h e = Inr (hd (rest @ [tail (bucket old i)]))"
    "list_remove h e = Inr (h1, hd (rest @ [tail (bucket old i)]))"
    "list_push_front h1 (find_bucket t e) e = Inr h'"
    "family h' (both_lists old n t) (xs[i := rest, n + bucket_idx t e := e # xs ! (n + bucket_idx t e)])"
    "placed_in t n (xs[i := rest, n + bucket_idx t e := e # xs ! (n + bucket_idx t e)])"
    "mset (concat (xs[i := rest, n + bucket_idx t e := e # xs ! (n + bucket_idx t e)])) = mset (concat xs)"
    "same_outside (headers (both_lists old n t) \<union> set (concat xs)) h h'"
proof -
  let ?j = "n + bucket_idx t e" and ?ls = "both_lists old n t"
  have j: "bucket_idx t e < h_bucket_cnt t" "?j < length ?ls" "?j \<noteq> i" and il: "i < length ?ls" and len: "length xs = length ?ls"
    using bucket_idx_less [OF cnt] i(1) f by (auto simp: family_def)
  have nx: "list_next h e = Inr (hd (rest @ [tail (bucket old i)]))"
    using dll_next [of h "bucket old i" "[]" e rest] family_nth [OF f il] i both_lists_nth(1) by simp
  obtain h1 where h1: "list_remove h e = Inr (h1, hd (rest @ [tail (?ls ! i)]))" "family h1 ?ls (xs[i := rest])"
    "same_outside (headers ?ls \<union> set (concat xs)) h h1"
    using family_remove [OF f il, of "[]" e rest] i(2) by auto
  note fresh = family_fresh [OF f il, of "[]" e rest, simplified append_Nil, OF i(2)]
  obtain h' where h': "list_push_front h1 (?ls ! ?j) e = Inr h'" "family h' ?ls (xs[i := rest, ?j := e # xs[i := rest] ! ?j])"
    "same_outside (headers ?ls \<union> set (concat (xs[i := rest])) \<union> {e}) h1 h'"
    using family_push [OF h1(2) j(2) fresh] by blast
  have same: "xs[i := rest] ! ?j = xs ! ?j"
    using j(3) by simp
  have "mset (concat (xs[i := rest])) + {#e#} = mset (concat xs)"
    using mset_concat_update [of i xs rest] il len i(2) by simp
  moreover have "mset (concat (xs[i := rest, ?j := e # xs ! ?j])) = mset (concat (xs[i := rest])) + {#e#}"
    using mset_concat_update [of ?j "xs[i := rest]" "e # xs ! ?j"] j len same by simp
  ultimately have m: "mset (concat (xs[i := rest, ?j := e # xs ! ?j])) = mset (concat xs)"
    "set (concat (xs[i := rest])) \<union> {e} = set (concat xs)"
    by (simp_all only:) (metis set_mset_add_mset_insert add_mset_add_single set_mset_mset Un_commute insert_is_Un)
  have "placed_in t n (xs[i := rest, ?j := e # xs ! ?j])"
    using p i(1) len j(2) unfolding placed_in_def by (auto simp: nth_list_update)
  moreover have "same_outside (headers ?ls \<union> set (concat xs)) h h'"
    using h1(3) h'(3) m(2) unfolding same_outside_def by (metis Un_iff)
  ultimately show thesis
    using that [of h1 h'] nx h1(1) h'(1,2) m(1) i(1) j(1) both_lists_nth same by (simp only: find_bucket_def)
qed

lemma move_loop_ok:
  assumes cnt: "h_bucket_cnt t = 2 ^ k" "k < 32" and i: "i < n"
  shows "\<lbrakk>family h (both_lists old n t) xs; xs ! i = rest; placed_in t n xs\<rbrakk> \<Longrightarrow>
    \<exists>h' xs'. move_loop h t (bucket old i) (hd (rest @ [tail (bucket old i)])) = Some (Inr h') \<and>
      family h' (both_lists old n t) xs' \<and> placed_in t n xs' \<and> mset (concat xs') = mset (concat xs) \<and>
      xs' ! i = [] \<and> (\<forall>j<n. j \<noteq> i \<longrightarrow> xs' ! j = xs ! j) \<and>
      same_outside (headers (both_lists old n t) \<union> set (concat xs)) h h'"
proof (induction rest arbitrary: h xs)
  case Nil
  then show ?case
    by (subst move_loop.simps) (auto simp: list_end_def same_outside_def)
next
  case (Cons e rest)
  let ?xs = "xs[i := rest, n + bucket_idx t e := e # xs ! (n + bucket_idx t e)]"
  obtain h1 h2 where step: "list_next h e = Inr (hd (rest @ [tail (bucket old i)]))"
    "list_remove h e = Inr (h1, hd (rest @ [tail (bucket old i)]))"
    "list_push_front h1 (find_bucket t e) e = Inr h2" "family h2 (both_lists old n t) ?xs"
    "placed_in t n ?xs" "mset (concat ?xs) = mset (concat xs)"
    "same_outside (headers (both_lists old n t) \<union> set (concat xs)) h h2"
    by (rule move_one [OF Cons.prems(1) cnt i Cons.prems(2,3)])
  have len: "length xs = n + h_bucket_cnt t"
    using Cons.prems(1) by (simp add: family_def)
  have "?xs ! i = rest"
    using i len by simp
  then obtain h' xs' where IH: "move_loop h2 t (bucket old i) (hd (rest @ [tail (bucket old i)])) = Some (Inr h')"
      "family h' (both_lists old n t) xs'" "placed_in t n xs'" "mset (concat xs') = mset (concat ?xs)"
      "xs' ! i = []" "\<forall>j<n. j \<noteq> i \<longrightarrow> xs' ! j = ?xs ! j"
      "same_outside (headers (both_lists old n t) \<union> set (concat ?xs)) h2 h'"
    using Cons.IH [OF step(4) _ step(5)] by blast
  have "e \<noteq> tail (bucket old i)"
    using family_nth [OF Cons.prems(1), of i] Cons.prems(2) i dll_notin [of h "bucket old i" "[]" e rest]
    by (simp add: both_lists_nth)
  then have "move_loop h t (bucket old i) (hd ((e # rest) @ [tail (bucket old i)])) = Some (Inr h')"
    using step(1-3) IH(1) by (subst move_loop.simps) (simp add: list_end_def)
  moreover have "same_outside (headers (both_lists old n t) \<union> set (concat xs)) h h'"
    using step(7) IH(7) mset_eq_setD [OF step(6)] unfolding same_outside_def by metis
  ultimately show ?case
    using IH(2-6) step(6) by (intro exI [of _ h'] exI [of _ xs']) simp
qed

lemma move_buckets_ok:
  assumes cnt: "h_bucket_cnt t = 2 ^ k" "k < 32"
  shows "\<lbrakk>family h (both_lists old n t) xs; placed_in t n xs; i + j = n; \<forall>l<i. xs ! l = []\<rbrakk> \<Longrightarrow>
    \<exists>h' xs'. move_buckets h t old i j = Some (Inr h') \<and> family h' (both_lists old n t) xs' \<and> placed_in t n xs' \<and>
      mset (concat xs') = mset (concat xs) \<and> (\<forall>l<n. xs' ! l = []) \<and>
      same_outside (headers (both_lists old n t) \<union> set (concat xs)) h h'"
proof (induction j arbitrary: h xs i)
  case 0
  then show ?case
    by (intro exI [of _ h] exI [of _ xs]) (simp add: same_outside_def)
next
  case (Suc j)
  have i: "i < n"
    using Suc.prems(3) by simp
  have "list_begin h (bucket old i) = hd (xs ! i @ [tail (bucket old i)])"
    using dll_begin [OF family_nth [OF Suc.prems(1), of i]] i by (simp add: both_lists_nth)
  then obtain h1 xs1 where one: "move_loop h t (bucket old i) (list_begin h (bucket old i)) = Some (Inr h1)"
      "family h1 (both_lists old n t) xs1" "placed_in t n xs1" "mset (concat xs1) = mset (concat xs)"
      "xs1 ! i = []" "\<forall>j<n. j \<noteq> i \<longrightarrow> xs1 ! j = xs ! j"
      "same_outside (headers (both_lists old n t) \<union> set (concat xs)) h h1"
    using move_loop_ok [OF cnt i Suc.prems(1) refl Suc.prems(2)] by auto
  have "\<forall>l<i + 1. xs1 ! l = []"
    using one(5,6) Suc.prems(4) i by (metis Suc_eq_plus1 less_Suc_eq less_trans)
  then obtain h' xs' where "move_buckets h1 t old (i + 1) j = Some (Inr h')" "family h' (both_lists old n t) xs'"
      "placed_in t n xs'" "mset (concat xs') = mset (concat xs1)" "\<forall>l<n. xs' ! l = []"
      "same_outside (headers (both_lists old n t) \<union> set (concat xs1)) h1 h'"
    using Suc.IH [OF one(2,3), of "i + 1"] Suc.prems(3) by auto
  moreover from this(6) have "same_outside (headers (both_lists old n t) \<union> set (concat xs)) h h'"
    using one(7) mset_eq_setD [OF one(4)] unfolding same_outside_def by metis
  ultimately show ?case
    using one(1,4) by (intro exI [of _ h'] exI [of _ xs']) simp
qed

section \<open>Changing the number of buckets\<close>

text \<open>A block that the allocator may return: its bytes belong neither to the table nor to its elements.\<close>

definition block_free :: "hash_table \<Rightarrow> addr set \<Rightarrow> addr \<Rightarrow> bool" where
  "block_free t E block \<longleftrightarrow> block = NULL \<or>
     {block..<block + 16 * max MIN_BUCKETS (h_elem_cnt t)} \<inter>
       (E \<union> {h_buckets t..<h_buckets t + 16 * h_bucket_cnt t}) = {}"

definition area :: "hash_table \<Rightarrow> addr set" where
  "area t = {h_buckets t..<h_buckets t + 16 * h_bucket_cnt t}"

lemma headers_blists: "headers (blists t) \<subseteq> area t"
  unfolding blists_def area_def by (rule headers_bucket)

lemma rehash_ok:
  assumes ok: "table_ok h t xs" and block: "block_free t (set (concat xs)) block"
  shows "\<exists>h' t' xs'. rehash h t block = Some (Inr (h', t')) \<and> table_ok h' t' xs' \<and>
    mset (concat xs') = mset (concat xs) \<and> h_hash t' = h_hash t \<and> h_less t' = h_less t \<and>
    area t' \<subseteq> area t \<union> (if block = NULL then {} else {block..<block + 16 * max MIN_BUCKETS (h_elem_cnt t)}) \<and>
    same_outside (area t \<union> area t' \<union> set (concat xs)) h h'"
proof -
  define n where "n = (if h_elem_cnt t div BEST_ELEMS_PER_BUCKET < MIN_BUCKETS then MIN_BUCKETS else h_elem_cnt t div BEST_ELEMS_PER_BUCKET)"
  have cnt: "h_elem_cnt t = length (concat xs)" "length (concat xs) < 4294967296" "family h (blists t) xs"
    using ok by (simp_all add: table_ok_def)
  have n: "0 < n" "n \<le> max MIN_BUCKETS (h_elem_cnt t)" "n < 4294967296"
    using cnt(1,2) by (auto simp: n_def MIN_BUCKETS_def BEST_ELEMS_PER_BUCKET_def)
  then have un: "unat (of_nat n :: u32) = n"
    by (simp add: unat_of_nat take_bit_nat_eq_self)
  then have "(of_nat n :: u32) \<noteq> 0"
    using n(1) by (metis less_irrefl unat_0)
  then obtain w k where w: "power_loop (of_nat n) = Some w" "k < 32" "unat w = 2 ^ k" "unat w \<le> n"
    using power_loop_ok [of "of_nat n"] un by (auto simp: word_le_nat_alt)
  show ?thesis
  proof (cases "unat w = h_bucket_cnt t \<or> block = NULL")
    case True
    then show ?thesis
      using ok w(1) unfolding rehash_def Let_def n_def [symmetric]
      by (intro exI [of _ h] exI [of _ t] exI [of _ xs]) (auto simp: same_outside_def)
  next
    case False
    define t' where "t' = t\<lparr>h_buckets := block, h_bucket_cnt := unat w\<rparr>"
    define h0 where "h0 = init_loop h block 0 (unat w)"
    have b: "block \<noteq> NULL" "{block..<block + 16 * unat w} \<inter> (headers (blists t) \<union> set (concat xs)) = {}"
      using False block n(2) w(4) headers_blists [of t] by (fastforce simp: block_free_def area_def)+
    have both: "blists t @ map (bucket block) [0..<unat w] = both_lists (h_buckets t) (h_bucket_cnt t) t'"
      by (simp add: both_lists_def blists_def t'_def)
    have len: "length xs = h_bucket_cnt t"
      by (rule table_length [OF ok])
    have f0: "family h0 (both_lists (h_buckets t) (h_bucket_cnt t) t') (xs @ replicate (unat w) [])"
      using init_loop_family [of block 0 "unat w" "blists t" xs h] b cnt(3) len unfolding both [symmetric] h0_def by simp
    have s0: "same_outside (area t') h h0"
      using init_loop_family [of block 0 "unat w" "blists t" xs h] b cnt(3) len unfolding h0_def area_def t'_def by simp
    have p0: "placed_in t' (h_bucket_cnt t) (xs @ replicate (unat w) [])"
      using len by (auto simp: placed_in_def nth_append)
    have cnt': "h_bucket_cnt t' = 2 ^ k"
      using w(3) by (simp add: t'_def)
    obtain h' ys where mv: "move_buckets h0 t' (h_buckets t) 0 (h_bucket_cnt t) = Some (Inr h')"
        "family h' (both_lists (h_buckets t) (h_bucket_cnt t) t') ys" "placed_in t' (h_bucket_cnt t) ys"
        "mset (concat ys) = mset (concat (xs @ replicate (unat w) []))" "\<forall>l<h_bucket_cnt t. ys ! l = []"
        "same_outside (headers (both_lists (h_buckets t) (h_bucket_cnt t) t') \<union> set (concat (xs @ replicate (unat w) []))) h0 h'"
      using move_buckets_ok [OF cnt' w(2) f0 p0, of 0] by auto
    have "headers (both_lists (h_buckets t) (h_bucket_cnt t) t') \<subseteq> area t \<union> area t'"
      using headers_blists [of t] headers_blists [of t'] unfolding both_lists_def headers_append blists_def by blast
    then have same: "same_outside (area t \<union> area t' \<union> set (concat xs)) h h'"
      using s0 mv(6) unfolding concat_replicate_empty same_outside_def by (metis UnCI UnE subsetD)
    define zs where "zs = drop (h_bucket_cnt t) ys"
    have ly: "length ys = h_bucket_cnt t + h_bucket_cnt t'"
      using mv(2) by (simp add: family_def)
    have ys: "ys = replicate (h_bucket_cnt t) [] @ zs"
      using mv(5) ly by (intro nth_equalityI) (auto simp: zs_def nth_append)
    have "family h' (blists t') zs"
      using mv(2) unfolding ys both_lists_def by (rule family_drop) simp
    moreover have m: "mset (concat zs) = mset (concat xs)"
      using mv(4) unfolding concat_replicate_empty by (simp add: ys)
    then have "length (concat zs) = length (concat xs)"
      by (rule mset_eq_length)
    moreover have "\<forall>i<length zs. \<forall>e\<in>set (zs ! i). bucket_idx t' e = i"
    proof (intro allI impI ballI)
      fix i e assume "i < length zs" "e \<in> set (zs ! i)"
      then show "bucket_idx t' e = i"
        using mv(3) [unfolded placed_in_def, rule_format, of "h_bucket_cnt t + i" e] by (simp add: ys nth_append)
    qed
    ultimately have "table_ok h' t' zs"
      using cnt cnt' w(2) b(1) by (auto simp: table_ok_def t'_def)
    moreover have "rehash h t block = Some (Inr (h', t'))"
      using False w(1) mv(1) [unfolded h0_def t'_def] unfolding rehash_def Let_def n_def [symmetric] by (simp add: t'_def)
    moreover have "area t' \<subseteq> {block..<block + 16 * max MIN_BUCKETS (h_elem_cnt t)}"
      using w(4) n(2) by (auto simp: area_def t'_def)
    ultimately show ?thesis
      using m same b(1) by (intro exI [of _ h'] exI [of _ t'] exI [of _ zs]) (auto simp: t'_def)
  qed
qed

section \<open>Tables as sets\<close>

lemma family_Cons:
  assumes "family h (l # ls) (x # xs)"
  shows "dll h l x" "family h ls xs" "set x \<inter> set (concat xs) = {}"
proof -
  show "dll h l x"
    using family_nth [OF assms, of 0] by simp
  show "family h ls xs"
    using family_drop [of h "[l]" ls "[x]" xs] assms by simp
  have len: "length xs = length ls"
    using assms by (simp add: family_def)
  have False if y: "y \<in> set x" "y \<in> set (concat xs)" for y
  proof -
    obtain j where j: "j < length xs" "y \<in> set (xs ! j)"
      using y(2) unfolding in_concat_nth by blast
    have "y \<in> set (nodes l x)" "y \<in> set (nodes (ls ! j) (xs ! j))"
      using y(1) j(2) by (simp_all add: nodes_set)
    then show False
      using family_disjoint [OF assms, of 0 "Suc j"] j(1) len by (auto simp: disjoint_iff)
  qed
  then show "set x \<inter> set (concat xs) = {}"
    by blast
qed

lemma family_distinct: "family h ls xs \<Longrightarrow> distinct (concat xs)"
proof (induction xs arbitrary: ls)
  case (Cons x xs)
  then obtain l ls' where ls: "ls = l # ls'"
    by (cases ls) (auto simp: family_def)
  have "distinct x"
    using family_Cons(1) [of h l ls' x xs] Cons.prems ls by (auto simp: dll_def chain_def nodes_def)
  then show ?case
    using Cons.IH family_Cons(2,3) [of h l ls' x xs] Cons.prems ls by auto
qed simp

text \<open>
  What a table promises its users, who see only a set of elements: operations that answer with the element equal
  to their argument, if there is one, and change the set accordingly.
\<close>

datatype hash_op =
    Insert_op addr addr   \<comment> \<open>the element and the answer of the allocator\<close>
  | Replace_op addr addr
  | Find_op addr
  | Delete_op addr addr

fun op_key :: "hash_op \<Rightarrow> addr" where
  "op_key (Insert_op e _) = e"
| "op_key (Replace_op e _) = e"
| "op_key (Find_op e) = e"
| "op_key (Delete_op e _) = e"

fun set_op :: "addr set \<Rightarrow> hash_op \<Rightarrow> addr \<Rightarrow> addr set" where
  "set_op S (Insert_op e _) r = (if r = NULL then insert e S else S)"
| "set_op S (Replace_op e _) r = insert e (S - {r})"
| "set_op S (Find_op _) r = S"
| "set_op S (Delete_op _ _) r = S - {r}"

definition search :: "(addr \<Rightarrow> addr \<Rightarrow> bool) \<Rightarrow> addr set \<Rightarrow> addr \<Rightarrow> addr \<Rightarrow> bool" where
  "search eq S e r \<longleftrightarrow> (if r = NULL then \<forall>x\<in>S. \<not> eq x e else r \<in> S \<and> eq r e)"

fun answers :: "(addr \<Rightarrow> addr \<Rightarrow> bool) \<Rightarrow> addr set \<Rightarrow> hash_op list \<Rightarrow> addr list \<Rightarrow> bool" where
  "answers eq S [] [] \<longleftrightarrow> True"
| "answers eq S (op # ops) (r # rs) \<longleftrightarrow> search eq S (op_key op) r \<and> answers eq (set_op S op r) ops rs"
| "answers eq S _ _ \<longleftrightarrow> False"

fun set_after :: "addr set \<Rightarrow> hash_op list \<Rightarrow> addr list \<Rightarrow> addr set" where
  "set_after S (op # ops) (r # rs) = set_after (set_op S op r) ops rs"
| "set_after S _ _ = S"

fun run_ops :: "('s \<Rightarrow> hash_op \<Rightarrow> ('s \<times> addr) run) \<Rightarrow> 's \<Rightarrow> hash_op list \<Rightarrow> ('s \<times> addr list) run" where
  "run_ops step s [] = Some (Inr (s, []))"
| "run_ops step s (op # ops) =
     rbind (step s op) (\<lambda>(s, r). rbind (run_ops step s ops) (\<lambda>(s, rs). Some (Inr (s, r # rs))))"

fun legal_run :: "('s \<Rightarrow> hash_op \<Rightarrow> ('s \<times> addr) run) \<Rightarrow> ('s \<Rightarrow> hash_op \<Rightarrow> bool) \<Rightarrow> 's \<Rightarrow> hash_op list \<Rightarrow> bool" where
  "legal_run step legal s [] \<longleftrightarrow> True"
| "legal_run step legal s (op # ops) \<longleftrightarrow>
     legal s op \<and> (\<forall>s' r. step s op = Some (Inr (s', r)) \<longrightarrow> legal_run step legal s' ops)"

locale keyed_set =
  fixes rep :: "'s \<Rightarrow> addr set \<Rightarrow> bool"
    and step :: "'s \<Rightarrow> hash_op \<Rightarrow> ('s \<times> addr) run"
    and legal :: "'s \<Rightarrow> hash_op \<Rightarrow> bool"
    and eq :: "addr \<Rightarrow> addr \<Rightarrow> bool"
  assumes step_ok: "rep s S \<Longrightarrow> legal s op \<Longrightarrow>
      \<exists>s' r. step s op = Some (Inr (s', r)) \<and> search eq S (op_key op) r \<and> rep s' (set_op S op r)"
begin

lemma run_ok:
  "rep s S \<Longrightarrow> legal_run step legal s ops \<Longrightarrow>
   \<exists>s' rs. run_ops step s ops = Some (Inr (s', rs)) \<and> answers eq S ops rs \<and> rep s' (set_after S ops rs)"
proof (induction ops arbitrary: s S)
  case (Cons op ops)
  obtain s1 r where r: "step s op = Some (Inr (s1, r))" "search eq S (op_key op) r" "rep s1 (set_op S op r)"
    using step_ok [OF Cons.prems(1), of op] Cons.prems(2) by auto
  then obtain s2 rs where "run_ops step s1 ops = Some (Inr (s2, rs))" "answers eq (set_op S op r) ops rs"
      "rep s2 (set_after (set_op S op r) ops rs)"
    using Cons.IH [OF r(3)] Cons.prems(2) by auto
  with r show ?case
    by (intro exI [of _ s2] exI [of _ "r # rs"]) simp
qed simp

end

definition hash_step :: "heap \<times> hash_table \<Rightarrow> hash_op \<Rightarrow> ((heap \<times> hash_table) \<times> addr) run" where
  "hash_step s op =
     (let pack = (\<lambda>(h, t, r). Some (Inr ((h, t), r)))
      in case op of
           Insert_op e block \<Rightarrow> rbind (hash_insert (fst s) (snd s) block e) pack
         | Replace_op e block \<Rightarrow> rbind (hash_replace (fst s) (snd s) block e) pack
         | Find_op e \<Rightarrow> rbind (hash_find (fst s) (snd s) e) (\<lambda>r. Some (Inr (s, r)))
         | Delete_op e block \<Rightarrow> rbind (hash_delete (fst s) (snd s) block e) pack)"

text \<open>
  \<open>E\<close> are the addresses of elements, which are outside of the blocks that the allocator returns. The count of
  elements must fit into its 32 bits.
\<close>

definition free_block :: "addr set \<Rightarrow> hash_table \<Rightarrow> addr \<Rightarrow> bool" where
  "free_block E t block \<longleftrightarrow> block = NULL \<or>
     {block..<block + 16 * max MIN_BUCKETS (h_elem_cnt t + 1)} \<inter> (E \<union> area t) = {}"

definition hash_legal :: "addr set \<Rightarrow> heap \<times> hash_table \<Rightarrow> hash_op \<Rightarrow> bool" where
  "hash_legal E s op \<longleftrightarrow> op_key op \<in> E \<and> h_elem_cnt (snd s) + 1 < 4294967296 \<and>
     (case op of Insert_op _ block \<Rightarrow> free_block E (snd s) block | Replace_op _ block \<Rightarrow> free_block E (snd s) block
      | Find_op _ \<Rightarrow> True | Delete_op _ block \<Rightarrow> free_block E (snd s) block)"

definition hash_rep :: "addr set \<Rightarrow> (addr \<Rightarrow> u32) \<Rightarrow> (addr \<Rightarrow> addr \<Rightarrow> bool) \<Rightarrow> heap \<times> hash_table \<Rightarrow> addr set \<Rightarrow> bool" where
  "hash_rep E f lt s S \<longleftrightarrow> NULL \<notin> E \<and> S \<subseteq> E \<and> area (snd s) \<inter> E = {} \<and> h_hash (snd s) = f \<and> h_less (snd s) = lt \<and>
     hash_funs_ok (snd s) \<and> (\<exists>xs. table_ok (fst s) (snd s) xs \<and> set (concat xs) = S) \<and>
     (\<forall>a\<in>S. \<forall>b\<in>S. \<not> lt a b \<longrightarrow> \<not> lt b a \<longrightarrow> a = b)"

lemma count_irrelevant [simp]:
  "bucket_idx (t\<lparr>h_elem_cnt := n\<rparr>) = bucket_idx t" "blists (t\<lparr>h_elem_cnt := n\<rparr>) = blists t"
  "area (t\<lparr>h_elem_cnt := n\<rparr>) = area t" "find_bucket (t\<lparr>h_elem_cnt := n\<rparr>) = find_bucket t"
  "hash_equal (t\<lparr>h_elem_cnt := n\<rparr>) = hash_equal t" "hash_funs_ok (t\<lparr>h_elem_cnt := n\<rparr>) = hash_funs_ok t"
  by (auto simp: bucket_idx_def blists_def area_def find_bucket_def hash_equal_def hash_funs_ok_def fun_eq_iff)

lemma insert_elem_ok:
  assumes ok: "table_ok h t xs" and e: "e \<noteq> NULL" "e \<notin> area t" "e \<notin> set (concat xs)"
    and cnt: "h_elem_cnt t + 1 < 4294967296"
  shows "\<exists>h' xs'. insert_elem h t (find_bucket t e) e = Inr (h', t\<lparr>h_elem_cnt := h_elem_cnt t + 1\<rparr>) \<and>
    table_ok h' (t\<lparr>h_elem_cnt := h_elem_cnt t + 1\<rparr>) xs' \<and> set (concat xs') = insert e (set (concat xs))"
proof -
  let ?i = "bucket_idx t e"
  have i: "?i < length (blists t)" "length xs = length (blists t)"
    using table_idx [OF ok] table_length [OF ok] by simp_all
  have f: "family h (blists t) xs"
    using ok by (simp add: table_ok_def)
  obtain h' where h': "list_push_front h (blists t ! ?i) e = Inr h'" "family h' (blists t) (xs[?i := e # xs ! ?i])"
    using family_push [OF f i(1) e(1) _ e(3)] e(2) headers_blists [of t] by blast
  have "mset (concat (xs[?i := e # xs ! ?i])) = add_mset e (mset (concat xs))"
    using mset_concat_update [of ?i xs "e # xs ! ?i"] i by simp
  then have m: "set (concat (xs[?i := e # xs ! ?i])) = insert e (set (concat xs))"
    "length (concat (xs[?i := e # xs ! ?i])) = length (concat xs) + 1"
    by (metis set_mset_mset set_mset_add_mset_insert) (metis mset_eq_length size_mset size_add_mset Suc_eq_plus1 \<open>mset _ = _\<close>)
  have "table_ok h' (t\<lparr>h_elem_cnt := h_elem_cnt t + 1\<rparr>) (xs[?i := e # xs ! ?i])"
    using ok h'(2) m(2) cnt i by (auto simp: table_ok_def nth_list_update split: if_splits)
  then show ?thesis
    using h'(1) m(1) cnt i by (intro exI [of _ h'] exI [of _ "xs[?i := e # xs ! ?i]"])
      (simp add: insert_elem_def find_bucket_def)
qed

lemma sz_dec: "0 < c \<Longrightarrow> c < 4294967296 \<Longrightarrow> sz (c + SIZE_MAX) = c - 1"
proof -
  assume c: "0 < c" "c < 4294967296"
  then have "c + SIZE_MAX = (c - 1) + 4294967296"
    by (simp add: SIZE_MAX_def)
  then have "sz (c + SIZE_MAX) = (c - 1) mod 4294967296"
    unfolding sz_def by (simp only: mod_add_self2)
  then show ?thesis
    using c by simp
qed

lemma remove_elem_ok:
  assumes ok: "table_ok h t xs" and e: "e \<in> set (concat xs)"
  shows "\<exists>h' xs'. remove_elem h t e = Inr (h', t\<lparr>h_elem_cnt := h_elem_cnt t - 1\<rparr>) \<and>
    table_ok h' (t\<lparr>h_elem_cnt := h_elem_cnt t - 1\<rparr>) xs' \<and> set (concat xs') = set (concat xs) - {e}"
proof -
  obtain i where i: "i < length xs" "e \<in> set (xs ! i)"
    using e unfolding in_concat_nth by blast
  then obtain as bs where ab: "xs ! i = as @ e # bs"
    by (auto simp: in_set_conv_decomp)
  have il: "i < length (blists t)" and f: "family h (blists t) xs"
    using i(1) ok table_length [OF ok] by (simp_all add: table_ok_def)
  obtain h' z where h': "list_remove h e = Inr (h', z)" "family h' (blists t) (xs[i := as @ bs])"
    using family_remove [OF f il ab] by blast
  have mset: "add_mset e (mset (concat (xs[i := as @ bs]))) = mset (concat xs)"
    using mset_concat_update [OF i(1), of "as @ bs"] ab by simp
  then have "insert e (set (concat (xs[i := as @ bs]))) = set (concat xs)"
    "length (concat (xs[i := as @ bs])) + 1 = length (concat xs)"
    by (metis set_mset_mset set_mset_add_mset_insert) (metis mset size_mset size_add_mset Suc_eq_plus1)
  moreover have "e \<notin> set (concat (xs[i := as @ bs]))"
    by (rule family_fresh(3) [OF f il ab])
  ultimately have m: "set (concat (xs[i := as @ bs])) = set (concat xs) - {e}"
    "length (concat (xs[i := as @ bs])) + 1 = length (concat xs)"
    by blast+
  have cnt: "h_elem_cnt t = length (concat xs)" "length (concat xs) < 4294967296"
    using ok by (simp_all add: table_ok_def)
  then have "sz (h_elem_cnt t + SIZE_MAX) = h_elem_cnt t - 1"
    using m(2) by (intro sz_dec) linarith+
  moreover have "table_ok h' (t\<lparr>h_elem_cnt := h_elem_cnt t - 1\<rparr>) (xs[i := as @ bs])"
    using ok h'(2) m(2) cnt i ab by (auto simp: table_ok_def nth_list_update split: if_splits)
  ultimately show ?thesis
    using h'(1) m(1) by (intro exI [of _ h'] exI [of _ "xs[i := as @ bs]"]) (simp add: remove_elem_def)
qed

lemma rehash_rep:
  assumes rep: "hash_rep E f lt (h, t) S"
    and block: "block = NULL \<or> {block..<block + 16 * max MIN_BUCKETS (h_elem_cnt t)} \<inter> (E \<union> area t) = {}"
  shows "\<exists>h' t'. rehash h t block = Some (Inr (h', t')) \<and> hash_rep E f lt (h', t') S"
proof -
  obtain xs where xs: "table_ok h t xs" "set (concat xs) = S"
    using rep by (auto simp: hash_rep_def)
  have "block_free t (set (concat xs)) block"
    using block xs(2) rep by (auto simp: block_free_def hash_rep_def area_def)
  then obtain h' t' xs' where r: "rehash h t block = Some (Inr (h', t'))" "table_ok h' t' xs'"
    "mset (concat xs') = mset (concat xs)" "h_hash t' = h_hash t" "h_less t' = h_less t"
    "area t' \<subseteq> area t \<union> (if block = NULL then {} else {block..<block + 16 * max MIN_BUCKETS (h_elem_cnt t)})"
    using rehash_ok [OF xs(1)] by blast
  have "area t' \<inter> E = {}"
    using r(6) block rep by (auto simp: hash_rep_def split: if_splits)
  moreover have "hash_funs_ok t' = hash_funs_ok t"
    by (simp add: hash_funs_ok_def hash_equal_def r(4,5))
  moreover have "set (concat xs') = S"
    using mset_eq_setD [OF r(3)] xs(2) by simp
  ultimately have "hash_rep E f lt (h', t') S"
    using rep r(2,4,5) unfolding hash_rep_def by auto
  with r(1) show ?thesis
    by blast
qed

lemma free_block_mono:
  assumes "free_block E t block" "area t1 = area t" "h_elem_cnt t1 \<le> h_elem_cnt t + 1"
  shows "block = NULL \<or> {block..<block + 16 * max MIN_BUCKETS (h_elem_cnt t1)} \<inter> (E \<union> area t1) = {}"
proof -
  have "{block..<block + 16 * max MIN_BUCKETS (h_elem_cnt t1)} \<subseteq> {block..<block + 16 * max MIN_BUCKETS (h_elem_cnt t + 1)}"
    using assms(3) by auto
  then show ?thesis
    using assms(1,2) unfolding free_block_def by blast
qed

lemma hash_insert_rep:
  assumes rep: "hash_rep E f lt (h, t) S" and e: "e \<in> E" "h_elem_cnt t + 1 < 4294967296" "free_block E t block"
  shows "\<exists>h' t' r. hash_insert h t block e = Some (Inr (h', t', r)) \<and> answer t S e r \<and>
    hash_rep E f lt (h', t') (if r = NULL then insert e S else S)"
proof -
  obtain xs where xs: "table_ok h t xs" "set (concat xs) = S" and fo: "hash_funs_ok t"
    using rep by (auto simp: hash_rep_def)
  obtain r where r: "find_elem h t (find_bucket t e) e = Some (Inr r)" "answer t S e r"
    using find_elem_ok [OF xs(1) fo, of e] xs(2) by auto
  have e0: "e \<noteq> NULL" "e \<notin> area t"
    using rep e(1) unfolding hash_rep_def by (auto simp: disjoint_iff)
  have "\<exists>h1 t1. (if r = NULL then insert_elem h t (find_bucket t e) e else Inr (h, t)) = Inr (h1, t1) \<and>
      hash_rep E f lt (h1, t1) (if r = NULL then insert e S else S) \<and> area t1 = area t \<and> h_elem_cnt t1 \<le> h_elem_cnt t + 1"
  proof (cases "r = NULL")
    case True
    then have no: "\<forall>x\<in>S. \<not> hash_equal t x e"
      using r(2) by (simp add: answer_def)
    then have "e \<notin> S"
      using hash_equal_refl [OF fo] by blast
    then obtain h1 xs1 where i: "insert_elem h t (find_bucket t e) e = Inr (h1, t\<lparr>h_elem_cnt := h_elem_cnt t + 1\<rparr>)"
      "table_ok h1 (t\<lparr>h_elem_cnt := h_elem_cnt t + 1\<rparr>) xs1" "set (concat xs1) = insert e S"
      using insert_elem_ok [OF xs(1) e0 _ e(2)] xs(2) by auto
    have "hash_rep E f lt (h1, t\<lparr>h_elem_cnt := h_elem_cnt t + 1\<rparr>) (insert e S)"
      using rep e(1) i(2,3) no unfolding hash_rep_def by (auto simp: hash_equal_def)
    with True i(1) show ?thesis
      by auto
  qed (use rep in auto)
  then obtain h1 t1 where s1: "(if r = NULL then insert_elem h t (find_bucket t e) e else Inr (h, t)) = Inr (h1, t1)"
      "hash_rep E f lt (h1, t1) (if r = NULL then insert e S else S)" "area t1 = area t" "h_elem_cnt t1 \<le> h_elem_cnt t + 1"
    by blast
  obtain h' t' where "rehash h1 t1 block = Some (Inr (h', t'))" "hash_rep E f lt (h', t') (if r = NULL then insert e S else S)"
    using rehash_rep [OF s1(2) free_block_mono [OF e(3) s1(3,4)]] by blast
  then show ?thesis
    using r s1(1) by (intro exI [of _ h'] exI [of _ t'] exI [of _ r]) (simp add: hash_insert_def)
qed

lemma remove_rep:
  assumes rep: "hash_rep E f lt (h, t) S" and r: "r \<in> S"
  shows "\<exists>h' t'. remove_elem h t r = Inr (h', t') \<and> hash_rep E f lt (h', t') (S - {r}) \<and>
    t' = t\<lparr>h_elem_cnt := h_elem_cnt t - 1\<rparr>"
proof -
  obtain xs where xs: "table_ok h t xs" "set (concat xs) = S"
    using rep by (auto simp: hash_rep_def)
  obtain h' xs' where "remove_elem h t r = Inr (h', t\<lparr>h_elem_cnt := h_elem_cnt t - 1\<rparr>)"
    "table_ok h' (t\<lparr>h_elem_cnt := h_elem_cnt t - 1\<rparr>) xs'" "set (concat xs') = S - {r}"
    using remove_elem_ok [OF xs(1), of r] xs(2) r by auto
  then show ?thesis
    using rep unfolding hash_rep_def by auto
qed

lemma hash_delete_rep:
  assumes rep: "hash_rep E f lt (h, t) S" and e: "free_block E t block"
  shows "\<exists>h' t' r. hash_delete h t block e = Some (Inr (h', t', r)) \<and> answer t S e r \<and> hash_rep E f lt (h', t') (S - {r})"
proof -
  obtain xs where xs: "table_ok h t xs" "set (concat xs) = S" and fo: "hash_funs_ok t"
    using rep by (auto simp: hash_rep_def)
  obtain r where r: "find_elem h t (find_bucket t e) e = Some (Inr r)" "answer t S e r"
    using find_elem_ok [OF xs(1) fo, of e] xs(2) by auto
  show ?thesis
  proof (cases "r = NULL")
    case True
    have "S - {NULL} = S"
      using rep by (auto simp: hash_rep_def)
    with True r rep show ?thesis
      by (intro exI [of _ h] exI [of _ t] exI [of _ r]) (simp add: hash_delete_def)
  next
    case False
    then obtain h1 t1 where s1: "remove_elem h t r = Inr (h1, t1)" "hash_rep E f lt (h1, t1) (S - {r})"
        "t1 = t\<lparr>h_elem_cnt := h_elem_cnt t - 1\<rparr>"
      using remove_rep [OF rep, of r] r(2) by (auto simp: answer_def)
    obtain h' t' where "rehash h1 t1 block = Some (Inr (h', t'))" "hash_rep E f lt (h', t') (S - {r})"
      using rehash_rep [OF s1(2) free_block_mono [OF e]] unfolding s1(3) by fastforce
    then show ?thesis
      using r s1(1) False by (intro exI [of _ h'] exI [of _ t'] exI [of _ r]) (simp add: hash_delete_def)
  qed
qed

lemma hash_replace_rep:
  assumes rep: "hash_rep E f lt (h, t) S" and e: "e \<in> E" "h_elem_cnt t + 1 < 4294967296" "free_block E t block"
  shows "\<exists>h' t' r. hash_replace h t block e = Some (Inr (h', t', r)) \<and> answer t S e r \<and>
    hash_rep E f lt (h', t') (insert e (S - {r}))"
proof -
  obtain xs where xs: "table_ok h t xs" "set (concat xs) = S" and fo: "hash_funs_ok t"
    and null: "NULL \<notin> S" and uniq: "\<And>a b. a \<in> S \<Longrightarrow> b \<in> S \<Longrightarrow> hash_equal t a b \<Longrightarrow> a = b"
    using rep by (auto simp: hash_rep_def hash_equal_def)
  obtain r where r: "find_elem h t (find_bucket t e) e = Some (Inr r)" "answer t S e r"
    using find_elem_ok [OF xs(1) fo, of e] xs(2) by auto
  have "\<exists>h1 t1. (if r \<noteq> NULL then remove_elem h t r else Inr (h, t)) = Inr (h1, t1) \<and>
      hash_rep E f lt (h1, t1) (S - {r}) \<and> (\<exists>n\<le>h_elem_cnt t. t1 = t\<lparr>h_elem_cnt := n\<rparr>)"
  proof (cases "r = NULL")
    case False
    then show ?thesis
      using remove_rep [OF rep, of r] r(2) by (auto simp: answer_def intro!: exI [of _ "h_elem_cnt t - 1"])
  qed (use rep null in \<open>auto intro!: exI [of _ "h_elem_cnt t"]\<close>)
  then obtain h1 t1 n where s1: "(if r \<noteq> NULL then remove_elem h t r else Inr (h, t)) = Inr (h1, t1)"
      "hash_rep E f lt (h1, t1) (S - {r})" "t1 = t\<lparr>h_elem_cnt := n\<rparr>" "n \<le> h_elem_cnt t"
    by blast
  obtain ys where ys: "table_ok h1 t1 ys" "set (concat ys) = S - {r}"
    using s1(2) by (auto simp: hash_rep_def)
  have no: "\<not> hash_equal t x e" if "x \<in> S - {r}" for x
  proof
    assume x: "hash_equal t x e"
    show False
    proof (cases "r = NULL")
      case False
      then have "r \<in> S" "hash_equal t r e"
        using r(2) by (simp_all add: answer_def)
      then have "x = r"
        using uniq [OF _ _ hash_equal_trans [OF fo x hash_equal_sym]] that by blast
      with that show False
        by simp
    qed (use r(2) x that in \<open>auto simp: answer_def\<close>)
  qed
  have "e \<noteq> NULL" "e \<notin> area t"
    using rep e(1) unfolding hash_rep_def by (auto simp: disjoint_iff)
  moreover have "e \<notin> set (concat ys)"
    unfolding ys(2) using no hash_equal_refl [OF fo] by blast
  moreover have "area t1 = area t" "h_elem_cnt t1 + 1 < 4294967296"
    using e(2) s1(3,4) by simp_all
  ultimately have e0: "e \<noteq> NULL" "e \<notin> area t1" "e \<notin> set (concat ys)" "h_elem_cnt t1 + 1 < 4294967296"
    by simp_all
  obtain h2 zs where i: "insert_elem h1 t1 (find_bucket t1 e) e = Inr (h2, t1\<lparr>h_elem_cnt := h_elem_cnt t1 + 1\<rparr>)"
    "table_ok h2 (t1\<lparr>h_elem_cnt := h_elem_cnt t1 + 1\<rparr>) zs" "set (concat zs) = insert e (S - {r})"
    using insert_elem_ok [OF ys(1) e0] ys(2) by auto
  have rep2: "hash_rep E f lt (h2, t1\<lparr>h_elem_cnt := h_elem_cnt t1 + 1\<rparr>) (insert e (S - {r}))"
    using rep s1(3) e(1) i(2,3) no unfolding hash_rep_def by (auto simp: hash_equal_def simp del: set_concat)
  obtain h' t' where "rehash h2 (t1\<lparr>h_elem_cnt := h_elem_cnt t1 + 1\<rparr>) block = Some (Inr (h', t'))"
      "hash_rep E f lt (h', t') (insert e (S - {r}))"
    using rehash_rep [OF rep2 free_block_mono [OF e(3)]] s1(3,4) by auto
  then show ?thesis
    using r s1(1,3) i(1) by (intro exI [of _ h'] exI [of _ t'] exI [of _ r]) (simp add: hash_replace_def)
qed

lemma hash_find_rep:
  assumes rep: "hash_rep E f lt (h, t) S"
  shows "\<exists>r. hash_find h t e = Some (Inr r) \<and> answer t S e r"
proof -
  obtain xs where xs: "table_ok h t xs" "set (concat xs) = S" and fo: "hash_funs_ok t"
    using rep by (auto simp: hash_rep_def)
  then show ?thesis
    using find_elem_ok [OF xs(1) fo, of e] xs(2) by (auto simp: hash_find_def)
qed

interpretation hs: keyed_set "hash_rep E f lt" hash_step "hash_legal E" "\<lambda>a b. \<not> lt a b \<and> \<not> lt b a" for E f lt
proof unfold_locales
  fix s S op
  assume rep: "hash_rep E f lt s S" and legal: "hash_legal E s op"
  obtain h t where s: "s = (h, t)"
    by (cases s)
  have eq: "answer t S e r \<longleftrightarrow> search (\<lambda>a b. \<not> lt a b \<and> \<not> lt b a) S e r" for e r
    using rep by (auto simp: s hash_rep_def answer_def search_def hash_equal_def)
  show "\<exists>s' r. hash_step s op = Some (Inr (s', r)) \<and> search (\<lambda>a b. \<not> lt a b \<and> \<not> lt b a) S (op_key op) r \<and>
      hash_rep E f lt s' (set_op S op r)"
  proof (cases op)
    case (Insert_op e block)
    then have "e \<in> E" "h_elem_cnt t + 1 < 4294967296" "free_block E t block"
      using legal by (simp_all add: s hash_legal_def)
    then obtain h' t' r where "hash_insert h t block e = Some (Inr (h', t', r))" "answer t S e r"
        "hash_rep E f lt (h', t') (if r = NULL then insert e S else S)"
      using hash_insert_rep [OF rep [unfolded s]] by blast
    then show ?thesis
      using Insert_op by (intro exI [of _ "(h', t')"] exI [of _ r]) (simp add: s hash_step_def eq)
  next
    case (Replace_op e block)
    then show ?thesis
      using hash_replace_rep [of E f lt h t S e block] rep legal by (auto simp: s hash_step_def hash_legal_def eq)
  next
    case (Find_op e)
    then show ?thesis
      using hash_find_rep [of E f lt h t S e] rep by (auto simp: s hash_step_def eq)
  next
    case (Delete_op e block)
    then show ?thesis
      using hash_delete_rep [of E f lt h t S block e] rep legal by (auto simp: s hash_step_def hash_legal_def eq)
  qed
qed

lemma hash_rep_size:
  assumes "hash_rep E f lt (h, t) S"
  shows "hash_size t = card S"
proof -
  obtain xs where xs: "table_ok h t xs" "set (concat xs) = S"
    using assms by (auto simp: hash_rep_def)
  then have "distinct (concat xs)" "h_elem_cnt t = length (concat xs)"
    using family_distinct by (auto simp: table_ok_def)
  then show ?thesis
    using xs(2) distinct_card by (metis hash_size_def)
qed

lemma clear_loop_None: "clear_loop None h b i n s = Some (Inr (init_loop h b i n, s))"
  by (induction n arbitrary: h i) simp_all

lemma hash_init_ok:
  assumes "block \<noteq> NULL" "NULL \<notin> E" "{block..<block + 64} \<inter> E = {}"
    and t: "t = \<lparr>h_elem_cnt = 0, h_bucket_cnt = 4, h_buckets = block, h_hash = f, h_less = lt\<rparr>" and "hash_funs_ok t"
  shows "\<exists>h'. hash_init h block f lt = Some (Inr (h', t, True)) \<and> hash_rep E f lt (h', t) {}"
proof -
  let ?h = "init_loop h block 0 4"
  have fam: "family ?h (blists t) (replicate 4 [])"
    using init_loop_family [of block 0 4 "[]" "[]" h] assms(1) by (simp add: blists_def t family_def headers_def)
  have empty: "concat (replicate 4 []) = ([] :: addr list)"
    by (simp add: eval_nat_numeral)
  have "hash_init h block f lt = Some (Inr (?h, t, True))"
    using assms(1) by (simp add: hash_init_def hash_clear_def clear_loop_None t)
  moreover have "table_ok ?h t (replicate 4 [])"
    using fam assms(1) unfolding table_ok_def empty by (auto simp: t intro!: exI [of _ 2])
  then have "hash_rep E f lt (?h, t) {}"
    using assms empty unfolding hash_rep_def by (auto simp: area_def t intro!: exI [of _ "replicate 4 []"])
  ultimately show ?thesis
    by blast
qed

section \<open>Visiting the elements\<close>

lemma apply_list_ok:
  "dll h l (as @ bs) \<Longrightarrow> apply_list act h l (hd (bs @ [tail l])) s = Some (Inr (fold act bs s))"
proof (induction bs arbitrary: as s)
  case Nil
  show ?case
    by (subst apply_list.simps) (simp add: list_end_def)
next
  case (Cons b bs)
  then show ?case
    using Cons.IH [of "as @ [b]" "act b s"] dll_next [OF Cons.prems] dll_notin [OF Cons.prems]
    by (subst apply_list.simps) (simp add: list_end_def)
qed

lemma apply_loop_ok:
  assumes "family h (blists t) xs"
  shows "i + n = h_bucket_cnt t \<Longrightarrow> apply_loop act h (h_buckets t) i n s = Some (Inr (fold act (concat (drop i xs)) s))"
proof (induction n arbitrary: i s)
  case 0
  then show ?case
    using assms by (simp add: family_def)
next
  case (Suc n)
  have i: "i < h_bucket_cnt t" "i < length xs"
    using Suc.prems assms by (auto simp: family_def)
  have d: "dll h (bucket (h_buckets t) i) (xs ! i)"
    using family_nth [OF assms, of i] i by simp
  have "apply_list act h (bucket (h_buckets t) i) (list_begin h (bucket (h_buckets t) i)) s = Some (Inr (fold act (xs ! i) s))"
    unfolding dll_begin [OF d] by (rule apply_list_ok [where as = "[]"]) (simp add: d)
  moreover have "drop i xs = xs ! i # drop (i + 1) xs"
    using i(2) by (simp add: Cons_nth_drop_Suc)
  ultimately show ?case
    using Suc by simp
qed

text \<open>The client's loop around \<^verbatim>\<open>hash_next\<close>, as the comment of \<^verbatim>\<open>hash_first\<close> gives it.\<close>

partial_function (option) iterate :: "heap \<Rightarrow> hash_iterator \<Rightarrow> addr list run" where
  "iterate h i =
     rbind (Some (hash_next h i)) (\<lambda>(i, e).
       if e = NULL then Some (Inr []) else rbind (iterate h i) (\<lambda>es. Some (Inr (hash_cur i # es))))"

lemma dll_step: "dll h l (as @ bs) \<Longrightarrow> list_next h (List.last (head l # as)) = Inr (hd (bs @ [tail l]))"
proof -
  assume d: "dll h l (as @ bs)"
  obtain us p b cs where n: "nodes l (as @ bs) = us @ p # b # cs"
    and hs: "head l # as = us @ [p]" "bs @ [tail l] = b # cs" by (rule nodes_split)
  show ?thesis
    using chain_next(2) [of h us p b cs] d n hs by (simp add: dll_def del: last.simps)
qed

lemma next_loop_ok:
  assumes f: "family h (blists t) xs"
  shows "b < h_bucket_cnt t \<Longrightarrow> xs ! b = as @ bs \<Longrightarrow>
    (bs @ concat (drop (b + 1) xs) = [] \<longrightarrow> snd (next_loop h t b (hd (bs @ [tail (bucket (h_buckets t) b)]))) = NULL) \<and>
    (\<forall>e rest. bs @ concat (drop (b + 1) xs) = e # rest \<longrightarrow>
      (\<exists>b' as' bs'. next_loop h t b (hd (bs @ [tail (bucket (h_buckets t) b)])) = (b', e) \<and> b' < h_bucket_cnt t \<and>
        xs ! b' = as' @ e # bs' \<and> rest = bs' @ concat (drop (b' + 1) xs)))"
proof (induction "h_bucket_cnt t - b" arbitrary: b as bs rule: less_induct)
  case less
  have len: "length xs = h_bucket_cnt t"
    using f by (simp add: family_def)
  show ?case
  proof (cases bs)
    case (Cons e bs')
    have "e \<noteq> tail (bucket (h_buckets t) b)"
      using family_nth [OF f, of b] less.prems Cons dll_notin [of h "bucket (h_buckets t) b" as e bs'] by simp
    then have "next_loop h t b e = (b, e)"
      by (subst next_loop.simps) (simp add: list_end_def)
    then show ?thesis
      using Cons less.prems by auto
  next
    case Nil
    show ?thesis
    proof (cases "b + 1 < h_bucket_cnt t")
      case True
      have "next_loop h t b (tail (bucket (h_buckets t) b)) =
          next_loop h t (b + 1) (hd (xs ! (b + 1) @ [tail (bucket (h_buckets t) (b + 1))]))"
        using True dll_begin [OF family_nth [OF f, of "b + 1"]] by (subst next_loop.simps) (simp add: list_end_def)
      moreover have "drop (b + 1) xs = xs ! (b + 1) # drop (b + 1 + 1) xs"
        using True len by (simp add: Cons_nth_drop_Suc)
      ultimately show ?thesis
        using less.hyps [of "b + 1" "[]" "xs ! (b + 1)"] True Nil by simp
    next
      case False
      then have "next_loop h t b (tail (bucket (h_buckets t) b)) = (b + 1, NULL)"
        by (subst next_loop.simps) (simp add: list_end_def)
      with False Nil len show ?thesis
        by simp
    qed
  qed
qed

lemma iterate_ok:
  assumes f: "family h (blists t) xs"
  shows "\<lbrakk>b < h_bucket_cnt t; xs ! b = as @ bs; it_hash i = t; it_bucket i = b;
      it_elem i = List.last (head (bucket (h_buckets t) b) # as)\<rbrakk> \<Longrightarrow>
    iterate h i = Some (Inr (bs @ concat (drop (b + 1) xs)))"
proof (induction "length (bs @ concat (drop (b + 1) xs))" arbitrary: b as bs i rule: less_induct)
  case less
  have d: "dll h (bucket (h_buckets t) b) (as @ bs)"
    using family_nth [OF f, of b] less.prems(1,2) by simp
  define nl where "nl = next_loop h t b (hd (bs @ [tail (bucket (h_buckets t) b)]))"
  have next_e: "hash_next h i = Inr (i\<lparr>it_bucket := fst nl, it_elem := snd nl\<rparr>, snd nl)"
    using dll_step [OF d] less.prems(3-5) by (simp add: hash_next_def nl_def case_prod_unfold Let_def)
  note nl = next_loop_ok [OF f less.prems(1,2), folded nl_def]
  show ?case
  proof (cases "bs @ concat (drop (b + 1) xs)")
    case Nil
    then have "snd nl = NULL"
      using nl by blast
    then show ?thesis
      using next_e Nil by (subst iterate.simps) simp
  next
    case (Cons e rest)
    then obtain b' as' bs' where n: "nl = (b', e)" "b' < h_bucket_cnt t" "xs ! b' = as' @ e # bs'"
        "rest = bs' @ concat (drop (b' + 1) xs)"
      using nl by blast
    have "e \<noteq> NULL"
      using family_nth [OF f, of b'] n(2,3) dll_notin [of h "bucket (h_buckets t) b'" as' e bs'] by simp
    moreover have "length (bs' @ concat (drop (b' + 1) xs)) < length (bs @ concat (drop (b + 1) xs))"
      using Cons n(4) by (metis length_Cons lessI)
    then have "iterate h (i\<lparr>it_bucket := b', it_elem := e\<rparr>) = Some (Inr (bs' @ concat (drop (b' + 1) xs)))"
      using n(2,3) less.prems(3) by (intro less.hyps [of bs' b' "as' @ [e]"]) simp_all
    ultimately show ?thesis
      using next_e n(1,4) Cons by (subst iterate.simps) (simp add: hash_cur_def)
  qed
qed

lemma destroy_loop_ok:
  assumes "k < length ls"
  shows "family h ls xs \<Longrightarrow> xs ! k = ys \<Longrightarrow>
    \<exists>h'. destroy_loop d h (ls ! k) s = Some (Inr (h', fold d ys s)) \<and> family h' ls (xs[k := []])"
proof (induction ys arbitrary: h xs s)
  case Nil
  then show ?case
    using dll_empty [OF family_nth [OF Nil.prems(1) assms]] assms
    by (subst destroy_loop.simps) (simp, metis list_update_id)
next
  case (Cons e ys)
  have len: "length xs = length ls"
    using Cons.prems(1) by (simp add: family_def)
  have dl: "dll h (ls ! k) (e # ys)"
    using family_nth [OF Cons.prems(1) assms] Cons.prems(2) by simp
  obtain h1 where h1: "list_remove h e = Inr (h1, hd (ys @ [tail (ls ! k)]))" "family h1 ls (xs[k := ys])"
    using family_remove [OF Cons.prems(1) assms, of "[]" e ys] Cons.prems(2) by auto
  have "list_pop_front h (ls ! k) = Inr (h1, e)"
    using dll_empty [OF dl] dll_begin [OF dl] h1(1) by (simp add: list_pop_front_def list_front_def list_begin_def)
  moreover obtain h' where "destroy_loop d h1 (ls ! k) (d e s) = Some (Inr (h', fold d ys (d e s)))"
      "family h' ls (xs[k := []])"
    using Cons.IH [OF h1(2), of "d e s"] assms len by auto
  ultimately show ?case
    using dll_empty [OF dl] by (subst destroy_loop.simps) simp
qed

lemma clear_loop_ok:
  assumes "\<forall>l<length ls. ls ! l = bucket b l"
  shows "\<lbrakk>family h ls xs; i + n = length ls; \<forall>l<i. xs ! l = []\<rbrakk> \<Longrightarrow>
    \<exists>h'. clear_loop (Some d) h b i n s = Some (Inr (h', fold d (concat (drop i xs)) s)) \<and>
      family h' ls (replicate (length ls) [])"
proof (induction n arbitrary: h xs i s)
  case 0
  then have "xs = replicate (length ls) []"
    by (auto simp: family_def intro: nth_equalityI)
  with 0 show ?case
    by auto
next
  case (Suc n)
  have len: "length xs = length ls" and i: "i < length ls"
    using Suc.prems by (auto simp: family_def)
  obtain h1 where h1: "destroy_loop d h (bucket b i) s = Some (Inr (h1, fold d (xs ! i) s))" "family h1 ls (xs[i := []])"
    using destroy_loop_ok [OF i Suc.prems(1) refl, of d s] assms i by auto
  have dl: "dll h1 (ls ! i) []"
    using family_nth [OF h1(2) i] i len by simp
  then have "dll (list_init h1 (ls ! i)) (ls ! i) []" "same_outside (set (nodes (ls ! i) [])) h1 (list_init h1 (ls ! i))"
    using dll_init [of "ls ! i" h1] by (auto simp: dll_def chain_def nodes_def)
  then have "family (list_init h1 (ls ! i)) ls ((xs[i := []])[i := []])"
    using family_disjoint [OF h1(2) i] i len by (intro family_change [OF h1(2) i]) auto
  then have fam: "family (list_init h1 (bucket b i)) ls (xs[i := []])"
    using assms i by simp
  have "\<forall>l<i + 1. xs[i := []] ! l = []"
    using Suc.prems(3) i len by (auto simp: less_Suc_eq nth_list_update)
  then obtain h' where "clear_loop (Some d) (list_init h1 (bucket b i)) b (i + 1) n (fold d (xs ! i) s) =
        Some (Inr (h', fold d (concat (drop (i + 1) (xs[i := []]))) (fold d (xs ! i) s)))"
      "family h' ls (replicate (length ls) [])"
    using Suc.IH [OF fam, of "i + 1"] Suc.prems(2) by auto
  moreover have "drop i xs = xs ! i # drop (i + 1) xs" "drop (i + 1) (xs[i := []]) = drop (i + 1) xs"
    using i len by (simp_all add: Cons_nth_drop_Suc)
  ultimately show ?case
    using h1(1) by auto
qed

lemma hash_clear_rep:
  assumes rep: "hash_rep E f lt (h, t) S" and xs: "table_ok h t xs"
  shows "\<exists>h' t'. hash_clear (Some d) h t s = Some (Inr (h', t', fold d (concat xs) s)) \<and> hash_rep E f lt (h', t') {}"
proof -
  let ?n = "h_bucket_cnt t" and ?t = "t\<lparr>h_elem_cnt := 0\<rparr>"
  have ok: "family h (blists t) xs" "\<exists>k<32. ?n = 2 ^ k" "h_buckets t \<noteq> NULL"
    using xs by (simp_all add: table_ok_def)
  obtain h' where h': "clear_loop (Some d) h (h_buckets t) 0 ?n s = Some (Inr (h', fold d (concat xs) s))"
      "family h' (blists t) (replicate ?n [])"
    using clear_loop_ok [of "blists t" "h_buckets t" h xs 0 ?n d s] ok(1) by auto
  have empty: "concat (replicate n []) = ([] :: addr list)" for n
    by (induction n) simp_all
  have "table_ok h' ?t (replicate ?n [])"
    using h'(2) ok(2,3) unfolding table_ok_def empty by simp
  then have "hash_rep E f lt (h', ?t) {}"
    using rep empty [of ?n] unfolding hash_rep_def by (auto intro!: exI [of _ "replicate ?n []"])
  then show ?thesis
    using h'(1) by (intro exI [of _ h'] exI [of _ ?t]) (simp add: hash_clear_def)
qed

section \<open>Properties\<close>

text \<open>
  C29. A hash table implements a set of elements of which no two are equal. A new table is
  empty; then every sequence of insertions, replacements, searches and deletions returns without a failing assertion,
  with the block allocator giving a fresh block or none at each change of the number of buckets. Each
  call answers with the element of the set that equals its argument, or a null pointer when there is
  none, the table then stands for the set that the calls make, and \<^verbatim>\<open>hash_size\<close> is its size.
\<close>

theorem hash_refines_set:
  assumes "block \<noteq> NULL" "NULL \<notin> E" "{block..<block + 64} \<inter> E = {}"
    and "strict_weak lt" "\<forall>a b. \<not> lt a b \<and> \<not> lt b a \<longrightarrow> f a = f b"
  shows "\<exists>h1 t1. hash_init h block f lt = Some (Inr (h1, t1, True)) \<and> hash_size t1 = 0 \<and>
    (\<forall>ops. legal_run hash_step (hash_legal E) (h1, t1) ops \<longrightarrow>
      (\<exists>h2 t2 rs. run_ops hash_step (h1, t1) ops = Some (Inr ((h2, t2), rs)) \<and>
        answers (\<lambda>a b. \<not> lt a b \<and> \<not> lt b a) {} ops rs \<and>
        hash_rep E f lt (h2, t2) (set_after {} ops rs) \<and> hash_size t2 = card (set_after {} ops rs)))"
proof -
  define t where "t = \<lparr>h_elem_cnt = 0, h_bucket_cnt = 4, h_buckets = block, h_hash = f, h_less = lt\<rparr>"
  have "hash_funs_ok t"
    using assms(4,5) unfolding hash_funs_ok_def hash_equal_def t_def by simp
  then obtain h1 where h1: "hash_init h block f lt = Some (Inr (h1, t, True))" "hash_rep E f lt (h1, t) {}"
    using hash_init_ok [OF assms(1-3) t_def] by blast
  have "\<exists>h2 t2 rs. run_ops hash_step (h1, t) ops = Some (Inr ((h2, t2), rs)) \<and>
        answers (\<lambda>a b. \<not> lt a b \<and> \<not> lt b a) {} ops rs \<and>
        hash_rep E f lt (h2, t2) (set_after {} ops rs) \<and> hash_size t2 = card (set_after {} ops rs)"
    if "legal_run hash_step (hash_legal E) (h1, t) ops" for ops
    using hs.run_ok [OF h1(2) that] hash_rep_size by fast
  then show ?thesis
    using h1(1) by (intro exI [of _ h1] exI [of _ t]) (simp add: t_def hash_size_def)
qed

definition ex_links :: heap where
  "ex_links a = \<lparr>prv = 0, nxt = 0\<rparr>"

lemma ex_block_apart: "{64..<64 + 64} \<inter> {5000..6000::addr} = {}"
  by auto

lemma ex_hash_respects: "\<forall>a b::nat. \<not> a < b \<and> \<not> b < a \<longrightarrow> (of_nat a :: u32) = of_nat b"
  by (metis linorder_neqE_nat)

theorem hash_refines_set_witness:
  "\<exists>h1 t1 h2 t2 r. hash_init ex_links 64 of_nat (<) = Some (Inr (h1, t1, True)) \<and>
     run_ops hash_step (h1, t1) [Insert_op 5000 0] = Some (Inr ((h2, t2), [r])) \<and> r = 0 \<and> hash_size t2 = 1"
proof -
  let ?E = "{5000..6000}"
  obtain h1 t1 where t1: "hash_init ex_links 64 of_nat (<) = Some (Inr (h1, t1, True))" "hash_size t1 = 0"
    "legal_run hash_step (hash_legal ?E) (h1, t1) [Insert_op 5000 0] \<Longrightarrow>
      \<exists>h2 t2 rs. run_ops hash_step (h1, t1) [Insert_op 5000 0] = Some (Inr ((h2, t2), rs)) \<and>
        answers (\<lambda>a b. \<not> a < b \<and> \<not> b < a) {} [Insert_op 5000 0] rs \<and>
        hash_size t2 = card (set_after {} [Insert_op 5000 0] rs)"
    using hash_refines_set [OF _ _ ex_block_apart ex_order ex_hash_respects, of ex_links] unfolding NULL_def
    by fastforce
  have "legal_run hash_step (hash_legal ?E) (h1, t1) [Insert_op 5000 0]"
    using t1(2) by (simp add: hash_legal_def free_block_def NULL_def hash_size_def)
  then obtain h2 t2 rs where run: "run_ops hash_step (h1, t1) [Insert_op 5000 0] = Some (Inr ((h2, t2), rs))"
      "answers (\<lambda>a b. \<not> a < b \<and> \<not> b < a) {} [Insert_op 5000 0] rs" "hash_size t2 = card (set_after {} [Insert_op 5000 0] rs)"
    using t1(3) by blast
  obtain r where "rs = [r]"
    using run(2) by (cases rs; cases "tl rs") auto
  moreover have "r = 0"
    using run(2) \<open>rs = [r]\<close> by (auto simp: search_def NULL_def split: if_splits)
  ultimately show ?thesis
    using t1(1) run(1,3) by (auto simp: NULL_def)
qed

text \<open>
  Visiting a table. The loop with \<^verbatim>\<open>hash_first\<close> and \<^verbatim>\<open>hash_next\<close> returns, without a failing assertion, every
  element of the set exactly once; \<^verbatim>\<open>hash_apply\<close> calls its action for the same elements in the same order,
  and \<^verbatim>\<open>hash_clear\<close> its destructor, after which the table is an empty set.
\<close>

theorem hash_visits_all:
  assumes "hash_rep E f lt (h, t) S"
  shows "\<exists>es. iterate h (hash_first t) = Some (Inr es) \<and> distinct es \<and> set es = S \<and>
    hash_apply act h t s = Some (Inr (fold act es s)) \<and>
    (\<exists>h' t'. hash_clear (Some act) h t s = Some (Inr (h', t', fold act es s)) \<and> hash_rep E f lt (h', t') {})"
proof -
  obtain xs where xs: "table_ok h t xs" "set (concat xs) = S"
    using assms by (auto simp: hash_rep_def)
  then have fam: "family h (blists t) xs" and n: "0 < h_bucket_cnt t" "length xs = h_bucket_cnt t"
    using table_length [OF xs(1)] by (auto simp: table_ok_def)
  have "xs ! 0 @ concat (drop 1 xs) = concat xs"
    using n by (cases xs) auto
  then have "iterate h (hash_first t) = Some (Inr (concat xs))"
    using iterate_ok [OF fam n(1), of "[]" "xs ! 0" "hash_first t"] by (simp add: hash_first_def list_head_def)
  moreover have "hash_apply act h t s = Some (Inr (fold act (concat xs) s))"
    using apply_loop_ok [OF fam, of 0 "h_bucket_cnt t" act s] by (simp add: hash_apply_def)
  ultimately show ?thesis
    using xs(2) family_distinct [OF fam] hash_clear_rep [OF assms xs(1), of act s] by blast
qed

theorem hash_visits_all_witness:
  "\<exists>h t. iterate h (hash_first t) = Some (Inr [5000]) \<and> hash_apply (\<lambda>e n. n + e) h t 7 = Some (Inr 5007)"
proof -
  let ?E = "{5000..6000} :: addr set"
  define t where "t = \<lparr>h_elem_cnt = 0, h_bucket_cnt = 4, h_buckets = 64, h_hash = of_nat, h_less = (<)\<rparr>"
  have "hash_funs_ok t"
    using ex_order ex_hash_respects by (simp add: hash_funs_ok_def hash_equal_def t_def)
  then obtain h where rep: "hash_rep ?E of_nat (<) (h, t) {}"
    using hash_init_ok [OF _ _ ex_block_apart t_def, of ex_links] unfolding NULL_def by fastforce
  have e: "5000 \<in> ?E" "h_elem_cnt t + 1 < 4294967296" "free_block ?E t NULL"
    by (simp_all add: t_def free_block_def)
  obtain h1 t1 r where h1: "answer t {} 5000 r" "hash_rep ?E of_nat (<) (h1, t1) (if r = NULL then insert 5000 {} else {})"
    using hash_insert_rep [OF rep e] by blast
  have "r = NULL"
    using h1(1) by (simp add: answer_def split: if_splits)
  then have rep1: "hash_rep ?E of_nat (<) (h1, t1) {5000}"
    using h1(2) by simp
  obtain es where es: "iterate h1 (hash_first t1) = Some (Inr es)" "distinct es" "set es = {5000}"
    "hash_apply (\<lambda>e n. n + e) h1 t1 7 = Some (Inr (fold (\<lambda>e n. n + e) es 7))"
    using hash_visits_all [OF rep1, of "\<lambda>e n. n + e" 7] by blast
  have "es = [5000]"
    using es(2) distinct_card [OF es(2)] es(3) by (cases es; cases "tl es") auto
  with es show ?thesis
    by (intro exI [of _ h1] exI [of _ t1]) simp
qed

end
