(* ===== verification/Malloc.thy ===== *)
theory Malloc
  imports KHash Palloc
begin

text \<open>
  The block allocator (\<^verbatim>\<open>threads/malloc.c\<close>) on top of the page allocator and the linked lists. Memory is split by
  the kind of what it holds: the headers of arenas, the links of free blocks and the bytes of
  the pages (\<open>ram\<close> of the page allocator); that the parts do not overlap is part of what is shown. The
  descriptors, of 48 bytes each, lie at an address below the pages of the kernel. The lock of a descriptor makes a call on it
  one step and is left out. Shown: blocks in use are disjoint byte arrays that keep their contents
  through every sequence of calls, and no assertion fails; the sizes for which the computations
  wrap around are described too.
\<close>

section \<open>The structures\<close>

record desc =
  d_block_size :: nat
  d_blocks_per_arena :: nat
  d_free_list :: klist

record arena =
  a_magic :: u32
  a_desc :: "nat option"
  a_free_cnt :: nat

record mstate =
  descs :: "desc list"
  arenas :: "addr \<Rightarrow> arena"
  links :: heap
  pages :: palloc

definition ARENA_MAGIC :: u32 where "ARENA_MAGIC = 0x9a548eed"
definition ARENA_SIZE :: nat where "ARENA_SIZE = 12"

definition desc_list :: "addr \<Rightarrow> nat \<Rightarrow> klist" where
  "desc_list a i = \<lparr>head = a + 48 * i + 8, tail = a + 48 * i + 16\<rparr>"

section \<open>Operations\<close>

partial_function (option) init_descs :: "addr \<Rightarrow> nat \<Rightarrow> desc list \<Rightarrow> heap \<Rightarrow> (desc list \<times> heap) run" where
  "init_descs a block_size ds h =
     (if block_size < 4096 div 2
      then rbind (Some (kassert (length ds + 1 \<le> 10))) (\<lambda>_.
           let l = desc_list a (length ds);
               d = \<lparr>d_block_size = block_size, d_blocks_per_arena = (4096 - ARENA_SIZE) div block_size, d_free_list = l\<rparr>
           in init_descs a (sz (block_size * 2)) (ds @ [d]) (list_init h l))
      else Some (Inr (ds, h)))"

definition malloc_init :: "addr \<Rightarrow> mstate \<Rightarrow> mstate run" where
  "malloc_init a s =
     rbind (init_descs a 16 (descs s) (links s)) (\<lambda>(ds, h). Some (Inr (s\<lparr>descs := ds, links := h\<rparr>)))"

definition block_to_arena :: "mstate \<Rightarrow> addr \<Rightarrow> addr outcome" where
  "block_to_arena s b =
     (let a = unat (pg_round_down (of_nat b));
          ofs = unat (pg_ofs (of_nat b))
      in kbind (kassert (a \<noteq> NULL)) (\<lambda>_.
         kbind (kassert (a_magic (arenas s a) = ARENA_MAGIC)) (\<lambda>_.
         case a_desc (arenas s a) of
           None \<Rightarrow> kbind (kassert (ofs = ARENA_SIZE)) (\<lambda>_. Inr a)
         | Some k \<Rightarrow> kbind (arr_get (descs s) k) (\<lambda>d.
             kbind (kassert (sz (ofs + 4294967296 - ARENA_SIZE) mod d_block_size d = 0)) (\<lambda>_. Inr a)))))"

definition arena_to_block :: "mstate \<Rightarrow> addr \<Rightarrow> nat \<Rightarrow> addr outcome" where
  "arena_to_block s a idx =
     kbind (kassert (a \<noteq> NULL)) (\<lambda>_.
     kbind (kassert (a_magic (arenas s a) = ARENA_MAGIC)) (\<lambda>_.
     case a_desc (arenas s a) of
       None \<Rightarrow> Inl Bad_access
     | Some k \<Rightarrow> kbind (arr_get (descs s) k) (\<lambda>d.
         kbind (kassert (idx < d_blocks_per_arena d)) (\<lambda>_. Inr (a + ARENA_SIZE + idx * d_block_size d)))))"

fun find_desc :: "desc list \<Rightarrow> nat \<Rightarrow> nat \<Rightarrow> nat" where
  "find_desc [] nbytes k = k"
| "find_desc (d # ds) nbytes k = (if d_block_size d \<ge> nbytes then k else find_desc ds nbytes (k + 1))"

definition malloc_big :: "mstate \<Rightarrow> nat \<Rightarrow> (mstate \<times> addr) outcome" where
  "malloc_big s nbytes =
     (let page_cnt = DIV_ROUND_UP (sz (nbytes + ARENA_SIZE)) 4096
      in kbind (palloc_get_multiple (pages s) 0 page_cnt) (\<lambda>(pl, a).
         let s = s\<lparr>pages := pl\<rparr>
         in if a = 0 then Inr (s, NULL)
            else Inr (s\<lparr>arenas := (arenas s)(unat a := \<lparr>a_magic = ARENA_MAGIC, a_desc = None, a_free_cnt = page_cnt\<rparr>)\<rparr>,
                      unat a + ARENA_SIZE)))"

fun fill_arena :: "mstate \<Rightarrow> klist \<Rightarrow> addr \<Rightarrow> nat \<Rightarrow> nat \<Rightarrow> mstate outcome" where
  "fill_arena s l a i 0 = Inr s"
| "fill_arena s l a i (Suc n) =
     kbind (arena_to_block s a i) (\<lambda>b.
     kbind (list_push_back (links s) l b) (\<lambda>h.
       fill_arena (s\<lparr>links := h\<rparr>) l a (i + 1) n))"

definition new_arena :: "mstate \<Rightarrow> nat \<Rightarrow> desc \<Rightarrow> (mstate \<times> bool) outcome" where
  "new_arena s k d =
     kbind (palloc_get_page (pages s) 0) (\<lambda>(pl, a).
       let s = s\<lparr>pages := pl\<rparr>
       in if a = 0 then Inr (s, False)
          else kbind (fill_arena (s\<lparr>arenas := (arenas s)(unat a :=
                   \<lparr>a_magic = ARENA_MAGIC, a_desc = Some k, a_free_cnt = d_blocks_per_arena d\<rparr>)\<rparr>)
                 (d_free_list d) (unat a) 0 (d_blocks_per_arena d)) (\<lambda>s. Inr (s, True)))"

definition take_block :: "mstate \<Rightarrow> desc \<Rightarrow> (mstate \<times> addr) outcome" where
  "take_block s d =
     kbind (list_pop_front (links s) (d_free_list d)) (\<lambda>(h, b).
     let s = s\<lparr>links := h\<rparr>
     in kbind (block_to_arena s b) (\<lambda>a.
        let cnt = sz (a_free_cnt (arenas s a) + SIZE_MAX)
        in Inr (s\<lparr>arenas := (arenas s)(a := (arenas s a)\<lparr>a_free_cnt := cnt\<rparr>)\<rparr>, b)))"

definition malloc :: "mstate \<Rightarrow> nat \<Rightarrow> (mstate \<times> addr) outcome" where
  "malloc s nbytes =
     (if nbytes = 0 then Inr (s, NULL)
      else let k = find_desc (descs s) nbytes 0
           in if k = length (descs s) then malloc_big s nbytes
              else let d = descs s ! k
                   in if list_empty (links s) (d_free_list d)
                      then kbind (new_arena s k d) (\<lambda>(s, ok). if ok then take_block s d else Inr (s, NULL))
                      else take_block s d)"

definition set_bytes :: "mstate \<Rightarrow> memory \<Rightarrow> mstate" where
  "set_bytes s m = s\<lparr>pages := (pages s)\<lparr>ram := m\<rparr>\<rparr>"

definition calloc :: "mstate \<Rightarrow> nat \<Rightarrow> nat \<Rightarrow> (mstate \<times> addr) outcome" where
  "calloc s a b =
     (let nbytes = sz (a * b)
      in if nbytes < a \<or> nbytes < b then Inr (s, NULL)
         else kbind (malloc s nbytes) (\<lambda>(s, p).
           if p \<noteq> NULL
           then kbind (memset (ram (pages s)) p 0 nbytes) (\<lambda>(m, _). Inr (set_bytes s m, p))
           else Inr (s, p)))"

definition block_size :: "mstate \<Rightarrow> addr \<Rightarrow> nat outcome" where
  "block_size s block =
     kbind (block_to_arena s block) (\<lambda>a.
     case a_desc (arenas s a) of
       Some k \<Rightarrow> kbind (arr_get (descs s) k) (\<lambda>d. Inr (d_block_size d))
     | None \<Rightarrow> Inr (sz (sz (4096 * a_free_cnt (arenas s a)) + 4294967296 - unat (pg_ofs (of_nat block)))))"

fun empty_arena :: "mstate \<Rightarrow> addr \<Rightarrow> nat \<Rightarrow> nat \<Rightarrow> mstate outcome" where
  "empty_arena s a i 0 = Inr s"
| "empty_arena s a i (Suc n) =
     kbind (arena_to_block s a i) (\<lambda>b.
     kbind (list_remove (links s) b) (\<lambda>(h, _).
       empty_arena (s\<lparr>links := h\<rparr>) a (i + 1) n))"

definition free_small :: "mstate \<Rightarrow> addr \<Rightarrow> addr \<Rightarrow> desc \<Rightarrow> mstate outcome" where
  "free_small s b a d =
     kbind (memset (ram (pages s)) b 0xcc (d_block_size d)) (\<lambda>(m, _).
     let s = set_bytes s m
     in kbind (list_push_front (links s) (d_free_list d) b) (\<lambda>h.
        let cnt = sz (a_free_cnt (arenas s a) + 1);
            s = s\<lparr>links := h, arenas := (arenas s)(a := (arenas s a)\<lparr>a_free_cnt := cnt\<rparr>)\<rparr>
        in if cnt \<ge> d_blocks_per_arena d
           then kbind (kassert (cnt = d_blocks_per_arena d)) (\<lambda>_.
                kbind (empty_arena s a 0 (d_blocks_per_arena d)) (\<lambda>s.
                kbind (palloc_free_page (pages s) (of_nat a)) (\<lambda>pl. Inr (s\<lparr>pages := pl\<rparr>))))
           else Inr s))"

definition free :: "mstate \<Rightarrow> addr \<Rightarrow> mstate outcome" where
  "free s p =
     (if p \<noteq> NULL
      then kbind (block_to_arena s p) (\<lambda>a.
           case a_desc (arenas s a) of
             Some k \<Rightarrow> kbind (arr_get (descs s) k) (\<lambda>d. free_small s p a d)
           | None \<Rightarrow> kbind (palloc_free_multiple (pages s) (of_nat a) (a_free_cnt (arenas s a))) (\<lambda>pl.
               Inr (s\<lparr>pages := pl\<rparr>)))
      else Inr s)"

definition realloc :: "mstate \<Rightarrow> addr \<Rightarrow> nat \<Rightarrow> (mstate \<times> addr) outcome" where
  "realloc s old_block new_size =
     (if new_size = 0 then kbind (free s old_block) (\<lambda>s. Inr (s, NULL))
      else kbind (malloc s new_size) (\<lambda>(s, new_block).
        if old_block \<noteq> NULL \<and> new_block \<noteq> NULL
        then kbind (block_size s old_block) (\<lambda>old_size.
             let min_size = (if new_size < old_size then new_size else old_size)
             in kbind (memcpy (ram (pages s)) new_block old_block min_size) (\<lambda>(m, _).
                kbind (free (set_bytes s m) old_block) (\<lambda>s. Inr (s, new_block))))
        else Inr (s, new_block)))"

section \<open>The invariant\<close>

definition bsize :: "nat \<Rightarrow> nat" where "bsize k = 16 * 2 ^ k"
definition bcount :: "nat \<Rightarrow> nat" where "bcount k = 4084 div bsize k"
definition blk :: "nat \<Rightarrow> nat \<Rightarrow> nat \<Rightarrow> addr" where "blk k p i = 4096 * p + 12 + i * bsize k"

definition std_descs :: "addr \<Rightarrow> desc list" where
  "std_descs A = map (\<lambda>k. \<lparr>d_block_size = bsize k, d_blocks_per_arena = bcount k, d_free_list = desc_list A k\<rparr>) [0..<7]"

text \<open>
  \<open>S\<close> gives the descriptor of each page that is an arena of small blocks, \<open>B\<close> the number of pages of each big
  block, \<open>fl\<close> the free lists.
\<close>

definition free_in :: "nat \<Rightarrow> nat \<Rightarrow> addr list \<Rightarrow> nat set" where
  "free_in k p xs = {i. i < bcount k \<and> blk k p i \<in> set xs}"

definition small_ok :: "mstate \<Rightarrow> (nat \<rightharpoonup> nat) \<Rightarrow> addr list list \<Rightarrow> nat \<Rightarrow> nat \<Rightarrow> bool" where
  "small_ok s S fl p k \<longleftrightarrow> k < 7 \<and> p \<in> pages_used (pages s) \<and> first_page (kernel_pool (pages s)) \<le> p \<and>
     arenas s (4096 * p) = \<lparr>a_magic = ARENA_MAGIC, a_desc = Some k,
       a_free_cnt = card (free_in k p (fl ! k))\<rparr>"

definition big_ok :: "mstate \<Rightarrow> (nat \<rightharpoonup> nat) \<Rightarrow> nat \<Rightarrow> nat \<Rightarrow> bool" where
  "big_ok s S p n \<longleftrightarrow> 0 < n \<and> {p..<p + n} \<subseteq> pages_used (pages s) \<and> first_page (kernel_pool (pages s)) \<le> p \<and>
     {p..<p + n} \<inter> dom S = {} \<and>
     arenas s (4096 * p) = \<lparr>a_magic = ARENA_MAGIC, a_desc = None, a_free_cnt = n\<rparr>"

definition arenas_ok :: "mstate \<Rightarrow> (nat \<rightharpoonup> nat) \<Rightarrow> (nat \<rightharpoonup> nat) \<Rightarrow> addr list list \<Rightarrow> bool" where
  "arenas_ok s S B fl \<longleftrightarrow> (\<forall>p k. S p = Some k \<longrightarrow> small_ok s S fl p k) \<and> (\<forall>p n. B p = Some n \<longrightarrow> big_ok s S p n) \<and>
     (\<forall>p n q m. B p = Some n \<longrightarrow> B q = Some m \<longrightarrow> p \<noteq> q \<longrightarrow> {p..<p + n} \<inter> {q..<q + m} = {})"

definition lists_ok :: "addr \<Rightarrow> mstate \<Rightarrow> (nat \<rightharpoonup> nat) \<Rightarrow> addr list list \<Rightarrow> bool" where
  "lists_ok A s S fl \<longleftrightarrow> family (links s) (map (desc_list A) [0..<7]) fl \<and>
     (\<forall>k<7. \<forall>b\<in>set (fl ! k). \<exists>p i. S p = Some k \<and> i < bcount k \<and> b = blk k p i)"

definition base_ok :: "addr \<Rightarrow> mstate \<Rightarrow> bool" where
  "base_ok A s \<longleftrightarrow> palloc_ok (pages s) \<and> descs s = std_descs A \<and> 0 < A \<and>
     A + 480 \<le> 4096 * first_page (kernel_pool (pages s))"

definition malloc_inv :: "addr \<Rightarrow> mstate \<Rightarrow> (nat \<rightharpoonup> nat) \<Rightarrow> (nat \<rightharpoonup> nat) \<Rightarrow> addr list list \<Rightarrow> bool" where
  "malloc_inv A s S B fl \<longleftrightarrow> base_ok A s \<and> arenas_ok s S B fl \<and> lists_ok A s S fl"

definition has_live :: "(nat \<rightharpoonup> nat) \<Rightarrow> addr list list \<Rightarrow> bool" where
  "has_live S fl \<longleftrightarrow> (\<forall>p k. S p = Some k \<longrightarrow> (\<exists>i<bcount k. blk k p i \<notin> set (fl ! k)))"

definition live :: "(nat \<rightharpoonup> nat) \<Rightarrow> (nat \<rightharpoonup> nat) \<Rightarrow> addr list list \<Rightarrow> (addr \<times> nat) set" where
  "live S B fl = {(blk k p i, bsize k) | k p i. S p = Some k \<and> i < bcount k \<and> blk k p i \<notin> set (fl ! k)} \<union>
     {(4096 * p + 12, 4096 * n - 12) | p n. B p = Some n}"

definition malloc_rep :: "addr \<Rightarrow> mstate \<Rightarrow> (addr \<times> nat) set \<Rightarrow> bool" where
  "malloc_rep A s L \<longleftrightarrow> (\<exists>S B fl. malloc_inv A s S B fl \<and> has_live S fl \<and> L = live S B fl)"


section \<open>Places of blocks\<close>

lemma bsize_pos [simp]: "0 < bsize k"
  by (simp add: bsize_def)

lemma blk_fits: "i < bcount k \<Longrightarrow> 12 + i * bsize k + bsize k \<le> 4096"
proof -
  assume "i < bcount k"
  then have "(i + 1) * bsize k \<le> bcount k * bsize k"
    by (intro mult_le_mono1) simp
  also have "\<dots> \<le> 4084"
    by (simp add: bcount_def)
  finally show ?thesis
    by simp
qed

lemma blk_page:
  assumes "i < bcount k" "x < bsize k"
  shows "(blk k p i + x) div 4096 = p" "(blk k p i + x) mod 4096 = 12 + i * bsize k + x"
proof -
  have b: "12 + i * bsize k + x < 4096"
    using blk_fits [OF assms(1)] assms(2) by simp
  have "(4096 * p + (12 + i * bsize k + x)) div 4096 = p" "(4096 * p + (12 + i * bsize k + x)) mod 4096 = 12 + i * bsize k + x"
    using b by (simp_all del: add.assoc)
  then show "(blk k p i + x) div 4096 = p" "(blk k p i + x) mod 4096 = 12 + i * bsize k + x"
    unfolding blk_def by (simp_all add: add.assoc)
qed

lemmas blk_page0 = blk_page [where x = 0, simplified]

lemma blk_inj: "i < bcount k \<Longrightarrow> j < bcount k \<Longrightarrow> blk k p i = blk k q j \<longleftrightarrow> p = q \<and> i = j"
proof -
  assume b: "i < bcount k" "j < bcount k"
  have "p = q" if "blk k p i = blk k q j"
    using blk_page0(1) [OF b(1), of p] blk_page0(1) [OF b(2), of q] that by simp
  then show ?thesis
    using bsize_pos [of k] unfolding blk_def by (metis add_left_cancel mult_cancel2 nat_less_le)
qed

lemma bcount_bounds: "k < 7 \<Longrightarrow> 0 < bcount k \<and> bcount k < 256"
proof -
  assume "k < 7"
  then have "k = 0 \<or> k = 1 \<or> k = 2 \<or> k = 3 \<or> k = 4 \<or> k = 5 \<or> k = 6"
    by linarith
  then show ?thesis
    by (auto simp: bcount_def bsize_def)
qed

lemma std_descs_nth [simp]:
  "length (std_descs A) = 7"
  "k < 7 \<Longrightarrow> std_descs A ! k = \<lparr>d_block_size = bsize k, d_blocks_per_arena = bcount k, d_free_list = desc_list A k\<rparr>"
  by (simp_all add: std_descs_def)

lemma pages_used_bound: "palloc_ok s \<Longrightarrow> p \<in> pages_used s \<Longrightarrow> p < 1048576"
  using first_page_bound palloc_ok_pool [of s True] palloc_ok_pool [of s False]
  by (fastforce simp: pages_used_def pool_used_def)

lemma pages_used_first: "palloc_ok s \<Longrightarrow> 0 < n \<Longrightarrow> {p..<p + n} \<subseteq> pages_used s \<Longrightarrow> p < 1048576"
  by (rule pages_used_bound) auto

lemma addr_page:
  assumes "x div 4096 < 1048576"
  shows "unat (pg_round_down (of_nat x)) = 4096 * (x div 4096)" "unat (pg_ofs (of_nat x)) = x mod 4096"
proof -
  have "x < 4294967296"
    using assms by simp
  then have u: "unat (of_nat x :: u32) = x"
    by (simp add: unat_of_nat take_bit_eq_mod)
  show "unat (pg_round_down (of_nat x)) = 4096 * (x div 4096)" "unat (pg_ofs (of_nat x)) = x mod 4096"
    unfolding unat_pg_round_down unat_pg_ofs u by (simp_all add: minus_mod_eq_mult_div)
qed

lemma of_nat_page: "(of_nat (4096 * p) :: u32) = PGSIZE * of_nat p"
  by (simp add: layout)

section \<open>Headers\<close>

lemma block_to_arena_small:
  assumes "base_ok A s" "small_ok s S fl p k" "i < bcount k"
  shows "block_to_arena s (blk k p i) = Inr (4096 * p)"
proof -
  have p: "p < 1048576" "k < 7" "descs s = std_descs A" "0 < p"
    using assms(1,2) pages_used_bound by (auto simp: base_ok_def small_ok_def)
  note g = blk_page0 [OF assms(3), of p]
  have a: "unat (pg_round_down (of_nat (blk k p i))) = 4096 * p" "unat (pg_ofs (of_nat (blk k p i))) = 12 + i * bsize k"
    using addr_page [of "blk k p i"] p(1) g by simp_all
  have "sz (12 + i * bsize k + 4294967296 - ARENA_SIZE) = i * bsize k"
    using blk_fits [OF assms(3)] by (simp add: sz_def ARENA_SIZE_def)
  then show ?thesis
    unfolding block_to_arena_def a using assms(2) p by (simp add: small_ok_def NULL_def)
qed

lemma block_to_arena_cong:
  "arenas s' = arenas s \<Longrightarrow> descs s' = descs s \<Longrightarrow> block_to_arena s' b = block_to_arena s b"
  unfolding block_to_arena_def by (simp cong: option.case_cong)

lemma block_to_arena_big:
  assumes "base_ok A s" "big_ok s S p n"
  shows "block_to_arena s (4096 * p + 12) = Inr (4096 * p)"
proof -
  have p: "p < 1048576" "0 < p"
    using assms pages_used_first by (auto simp: base_ok_def big_ok_def)
  have d: "(4096 * p + 12) div 4096 = p" "(4096 * p + 12) mod 4096 = 12"
    by simp_all
  show ?thesis
    unfolding block_to_arena_def using addr_page [of "4096 * p + 12"] p d assms(2)
    by (simp add: big_ok_def NULL_def ARENA_SIZE_def)
qed

lemma arena_to_block_ok:
  assumes "descs s = std_descs A" "0 < p" "k < 7" "i < bcount k"
    and "a_magic (arenas s (4096 * p)) = ARENA_MAGIC" "a_desc (arenas s (4096 * p)) = Some k"
  shows "arena_to_block s (4096 * p) i = Inr (blk k p i)"
  using assms by (simp add: arena_to_block_def NULL_def blk_def ARENA_SIZE_def)

section \<open>Pages\<close>

lemma palloc_pool_kept:
  "palloc_get_multiple s f n = Inr (s', r) \<Longrightarrow> base (kernel_pool s') = base (kernel_pool s)"
  "palloc_free_multiple s a n = Inr s' \<Longrightarrow> base (kernel_pool s') = base (kernel_pool s)"
  by (auto simp: palloc_get_multiple_def palloc_free_multiple_def put_pool_def Let_def split: if_splits)

definition run_of_pages :: "palloc \<Rightarrow> nat \<Rightarrow> bool" where
  "run_of_pages s n \<longleftrightarrow> (\<exists>i. has_run (bools (used_map (kernel_pool s))) i n False)"

lemma get_pages_cases:
  assumes "palloc_ok s" "0 < n"
  obtains (found) s' p where "palloc_get_multiple s 0 n = Inr (s', PGSIZE * of_nat p)" "PGSIZE * of_nat p \<noteq> (0 :: u32)"
      "unat (PGSIZE * of_nat p :: u32) = 4096 * p" "palloc_ok s'"
      "pages_used s' = pages_used s \<union> {p..<p + n}" "{p..<p + n} \<inter> pages_used s = {}" "ram s' = ram s"
      "first_page (kernel_pool s') = first_page (kernel_pool s)" "first_page (kernel_pool s) \<le> p"
  | (none) "palloc_get_multiple s 0 n = Inr (s, 0)" "\<not> run_of_pages s n"
proof -
  let ?p = "kernel_pool s"
  show thesis
    using palloc_get_ok [OF assms, of 0]
  proof (elim disjE exE conjE)
    fix s' i
    assume a: "palloc_get_multiple s 0 n = Inr (s', base (pool_of ((0 :: u32) AND PAL_USER \<noteq> 0) s) + PGSIZE * of_nat i)" "palloc_ok s'"
      "i + n \<le> bit_cnt (used_map (pool_of ((0 :: u32) AND PAL_USER \<noteq> 0) s))"
      "pages_used s' = pages_used s \<union> {first_page (pool_of ((0 :: u32) AND PAL_USER \<noteq> 0) s) + i..<first_page (pool_of ((0 :: u32) AND PAL_USER \<noteq> 0) s) + i + n}"
      "{first_page (pool_of ((0 :: u32) AND PAL_USER \<noteq> 0) s) + i..<first_page (pool_of ((0 :: u32) AND PAL_USER \<noteq> 0) s) + i + n} \<inter> pages_used s = {}"
      "ram s' = (\<lambda>x. if (0 :: u32) AND PAL_ZERO \<noteq> 0 \<and> x div 4096 \<in> {first_page (pool_of ((0 :: u32) AND PAL_USER \<noteq> 0) s) + i..<first_page (pool_of ((0 :: u32) AND PAL_USER \<noteq> 0) s) + i + n} then 0 else ram s x)"
    have i: "i < bit_cnt (used_map ?p)"
      using a(3) assms(2) by simp
    note ok = palloc_ok_pool [OF assms(1), of False, simplified]
    note pg = pool_page [OF ok i]
    have "first_page ?p + i < 1048576"
      using first_page_bound [OF ok] i by simp
    then have "unat (PGSIZE * of_nat (first_page ?p + i) :: u32) = 4096 * (first_page ?p + i)"
      by (rule of_nat_aligned)
    moreover from this have "base ?p + PGSIZE * of_nat i = PGSIZE * of_nat (first_page ?p + i)"
      using pg(1) by (intro word_eqI_unat) simp
    ultimately show thesis
      using a pg palloc_pool_kept(1) [OF a(1)]
      by (intro found [of s' "first_page ?p + i"]) (simp_all add: first_page_def)
  qed (use none in \<open>simp add: run_of_pages_def\<close>)
qed

lemma put_pages_ok:
  assumes "palloc_ok s" "0 < n" "{p..<p + n} \<subseteq> pages_used s"
  shows "\<exists>s'. palloc_free_multiple s (of_nat (4096 * p)) n = Inr s' \<and> palloc_ok s' \<and>
    pages_used s' = pages_used s - {p..<p + n} \<and> first_page (kernel_pool s') = first_page (kernel_pool s) \<and>
    ram s' = (\<lambda>x. if x div 4096 \<in> {p..<p + n} then 0xcc else ram s x)"
proof -
  have "p < 1048576"
    using assms by (rule pages_used_first)
  then show ?thesis
    using palloc_free_ok [OF assms] palloc_pool_kept(2) [of s "PGSIZE * of_nat p" n] unfolding of_nat_page
    by (fastforce simp: first_page_def)
qed


section \<open>Free lists\<close>

lemma family_push_back:
  assumes f: "family h ls xs" and i: "i < length ls" and e: "e \<noteq> NULL" "e \<notin> headers ls" "e \<notin> set (concat xs)"
  shows "\<exists>h'. list_push_back h (ls ! i) e = Inr h' \<and> family h' ls (xs[i := xs ! i @ [e]])"
proof -
  have len: "length xs = length ls"
    using f by (simp add: family_def)
  have fresh: "e \<notin> set (nodes (ls ! j) (xs ! j))" if "j < length ls" for j
    using that len e(2,3) by (auto simp: nodes_set headers_def)
  obtain h' where h': "list_push_back h (ls ! i) e = Inr h'" "dll h' (ls ! i) (xs ! i @ [e])"
    "same_outside (insert e (set (nodes (ls ! i) (xs ! i)))) h h'"
    using dll_push_back [OF family_nth [OF f i] e(1) fresh [OF i]] by blast
  have "insert e (set (nodes (ls ! i) (xs ! i))) \<inter> set (nodes (ls ! j) (xs ! j)) = {}" if "j < length ls" "j \<noteq> i" for j
    using family_disjoint [OF f i that(1)] fresh [OF that(1)] that(2) by blast
  then have "family h' ls (xs[i := xs ! i @ [e]])"
    by (intro family_change [OF f i h'(2,3)]) (auto simp: nodes_set)
  then show ?thesis
    using h'(1) by blast
qed

lemma family_pop_front:
  assumes f: "family h ls xs" and i: "i < length ls" "xs ! i = e # ys"
  shows "\<exists>h'. list_pop_front h (ls ! i) = Inr (h', e) \<and> family h' ls (xs[i := ys])"
proof -
  have d: "dll h (ls ! i) (e # ys)"
    using family_nth [OF f i(1)] i(2) by simp
  obtain h' where h': "list_pop_front h (ls ! i) = Inr (h', e)" "dll h' (ls ! i) ys"
    "same_outside (set (nodes (ls ! i) (e # ys))) h h'"
    using dll_pop_front [OF d] by blast
  have "family h' ls (xs[i := ys])"
    using family_disjoint [OF f i(1)] i(2) by (intro family_change [OF f i(1) h'(2,3)]) (auto simp: nodes_set)
  then show ?thesis
    using h'(1) by blast
qed

lemma lists_ok_length: "lists_ok A s S fl \<Longrightarrow> length fl = 7"
  by (simp add: lists_ok_def family_def)

lemma lists_ok_distinct: "lists_ok A s S fl \<Longrightarrow> k < 7 \<Longrightarrow> distinct (fl ! k)"
  using family_distinct [of "links s" "map (desc_list A) [0..<7]" fl]
  by (auto simp: lists_ok_def distinct_concat_iff family_def)

lemma free_in_finite [simp]: "finite (free_in k p xs)"
  by (simp add: free_in_def)

lemma free_in_Cons:
  "i < bcount k \<Longrightarrow> free_in k q (blk k p i # xs) = (if q = p then insert i (free_in k q xs) else free_in k q xs)"
  by (auto simp: free_in_def blk_inj)

lemma free_in_card: "k < 7 \<Longrightarrow> card (free_in k p xs) \<le> bcount k"
  using card_mono [of "{..<bcount k}" "free_in k p xs"] by (auto simp: free_in_def)

section \<open>Taking a block\<close>

lemma arenas_change:
  assumes ok: "arenas_ok s S B fl" and p: "S p = Some k" "k < length fl" and pg: "pages s' = pages s"
    and ar: "arenas s' = (arenas s)(4096 * p := (arenas s (4096 * p))\<lparr>a_free_cnt := card (free_in k p xs)\<rparr>)"
    and other: "\<And>q. q \<noteq> p \<Longrightarrow> free_in k q xs = free_in k q (fl ! k)"
  shows "arenas_ok s' S B (fl[k := xs])"
proof -
  have "small_ok s' S (fl[k := xs]) q j" if q: "S q = Some j" for q j
  proof -
    have "small_ok s S fl q j" "small_ok s S fl p k"
      using ok q p(1) by (simp_all add: arenas_ok_def)
    then show ?thesis
      using p q other unfolding small_ok_def ar pg by (cases "q = p"; cases "j = k") auto
  qed
  moreover have "big_ok s' S q n" if q: "B q = Some n" for q n
  proof -
    have "big_ok s S q n"
      using ok q by (simp add: arenas_ok_def)
    moreover from this have "q \<noteq> p"
      using domI [of S, OF p(1)] unfolding big_ok_def
      by (metis atLeastLessThan_iff disjoint_iff less_add_same_cancel1 order_refl)
    ultimately show ?thesis
      unfolding big_ok_def ar pg by simp
  qed
  ultimately show ?thesis
    using ok unfolding arenas_ok_def by blast
qed

lemma take_block_ok:
  assumes inv: "malloc_inv A s S B fl" and k: "k < 7" and fl: "fl ! k = e # xs"
  shows "\<exists>s' p i. take_block s (std_descs A ! k) = Inr (s', e) \<and> malloc_inv A s' S B (fl[k := xs]) \<and>
    pages s' = pages s \<and> S p = Some k \<and> i < bcount k \<and> e = blk k p i \<and> e \<notin> set xs"
proof -
  have ok: "base_ok A s" "arenas_ok s S B fl" "lists_ok A s S fl"
    using inv by (simp_all add: malloc_inv_def)
  note len = lists_ok_length [OF ok(3)]
  obtain p i where e: "S p = Some k" "i < bcount k" "e = blk k p i"
    using ok(3) k fl unfolding lists_ok_def by (metis list.set_intros(1))
  have sm: "small_ok s S fl p k"
    using ok(2) e(1) by (simp add: arenas_ok_def)
  have new: "e \<notin> set xs"
    using lists_ok_distinct [OF ok(3) k] fl by simp
  then have i: "i \<notin> free_in k p xs"
    using e by (simp add: free_in_def)
  obtain h where h: "list_pop_front (links s) (desc_list A k) = Inr (h, e)"
      "family h (map (desc_list A) [0..<7]) (fl[k := xs])"
    using family_pop_front [of "links s" "map (desc_list A) [0..<7]" fl k e xs] ok(3) k fl
    by (auto simp: lists_ok_def)
  have cnt: "card (free_in k p (fl ! k)) = card (free_in k p xs) + 1"
    using i unfolding fl e(3) by (simp add: free_in_Cons e(2))
  define s' where "s' = s\<lparr>links := h, arenas := (arenas s)(4096 * p :=
    (arenas s (4096 * p))\<lparr>a_free_cnt := card (free_in k p xs)\<rparr>)\<rparr>"
  have "a_free_cnt (arenas s (4096 * p)) = card (free_in k p xs) + 1"
    using sm cnt by (simp add: small_ok_def)
  moreover have "card (free_in k p xs) < 256"
    using free_in_card [OF k, of p xs] bcount_bounds [OF k] by simp
  ultimately have "sz (a_free_cnt (arenas s (4096 * p)) + SIZE_MAX) = card (free_in k p xs)"
    by (simp add: SIZE_MAX_def sz_def)
  moreover have "block_to_arena (s\<lparr>links := h\<rparr>) e = Inr (4096 * p)"
    using block_to_arena_small [OF ok(1) sm e(2)] e(3) block_to_arena_cong [of "s\<lparr>links := h\<rparr>" s e] by simp
  ultimately have "take_block s (std_descs A ! k) = Inr (s', e)"
    using h(1) k by (simp add: take_block_def s'_def)
  moreover have "arenas_ok s' S B (fl[k := xs])"
    using fl k len e(2) by (intro arenas_change [OF ok(2) e(1)]) (auto simp: s'_def e(3) free_in_Cons)
  moreover have "lists_ok A s' S (fl[k := xs])"
    using ok(3) h(2) k fl len unfolding lists_ok_def s'_def by (auto simp: nth_list_update)
  moreover have "base_ok A s'"
    using ok(1) by (simp add: base_ok_def s'_def)
  moreover have "pages s' = pages s"
    by (simp add: s'_def)
  ultimately show ?thesis
    using e new unfolding malloc_inv_def by blast
qed


section \<open>Making an arena\<close>

lemma headers_low:
  assumes "base_ok A s" "first_page (kernel_pool (pages s)) \<le> p" "4096 * p \<le> x"
  shows "x \<notin> headers (map (desc_list A) [0..<7])"
proof
  assume "x \<in> headers (map (desc_list A) [0..<7])"
  then have "x < A + 480"
    by (auto simp: headers_def desc_list_def)
  then show False
    using assms by (simp add: base_ok_def)
qed

lemma fill_arena_ok:
  assumes "descs s = std_descs A" "0 < p" "k < 7" "i + n \<le> bcount k"
    and "a_magic (arenas s (4096 * p)) = ARENA_MAGIC" "a_desc (arenas s (4096 * p)) = Some k"
    and "family (links s) (map (desc_list A) [0..<7]) fl"
    and "\<And>j. j < bcount k \<Longrightarrow> blk k p j \<notin> headers (map (desc_list A) [0..<7])"
    and "\<And>j. i \<le> j \<Longrightarrow> j < bcount k \<Longrightarrow> blk k p j \<notin> set (concat fl)"
  shows "\<exists>h. fill_arena s (desc_list A k) (4096 * p) i n = Inr (s\<lparr>links := h\<rparr>) \<and>
    family h (map (desc_list A) [0..<7]) (fl[k := fl ! k @ map (blk k p) [i..<i + n]])"
  using assms
proof (induction n arbitrary: s i fl)
  case 0
  then show ?case
    by (intro exI [of _ "links s"]) simp
next
  case (Suc n)
  let ?ls = "map (desc_list A) [0..<7]"
  have len: "length fl = 7"
    using Suc.prems(7) by (simp add: family_def)
  have i: "i < bcount k"
    using Suc.prems(4) by simp
  have at: "arena_to_block s (4096 * p) i = Inr (blk k p i)"
    by (rule arena_to_block_ok [OF Suc.prems(1-3) i Suc.prems(5,6)])
  have "blk k p i \<noteq> NULL"
    by (simp add: blk_def NULL_def)
  then obtain h where h: "list_push_back (links s) (?ls ! k) (blk k p i) = Inr h" "family h ?ls (fl[k := fl ! k @ [blk k p i]])"
    using family_push_back [OF Suc.prems(7), of k "blk k p i"] Suc.prems(3,8,9) i by auto
  let ?fl = "fl[k := fl ! k @ [blk k p i]]"
  have "blk k p j \<notin> set (concat ?fl)" if "i + 1 \<le> j" "j < bcount k" for j
  proof
    assume "blk k p j \<in> set (concat ?fl)"
    then obtain m where m: "m < 7" "blk k p j \<in> set (?fl ! m)"
      unfolding in_concat_nth len length_list_update by blast
    then have "blk k p j \<in> set (fl ! m) \<or> blk k p j = blk k p i"
      using len Suc.prems(3) by (auto simp: nth_list_update split: if_splits)
    then show False
      using Suc.prems(9) [of j] that m(1) len blk_inj [OF that(2) i] unfolding in_concat_nth by fastforce
  qed
  with Suc.prems obtain h' where h': "fill_arena (s\<lparr>links := h\<rparr>) (desc_list A k) (4096 * p) (i + 1) n = Inr (s\<lparr>links := h'\<rparr>)"
    "family h' ?ls (?fl[k := ?fl ! k @ map (blk k p) [i + 1..<i + 1 + n]])"
    using Suc.IH [of "s\<lparr>links := h\<rparr>" "i + 1" ?fl] h(2) by auto
  have "map (blk k p) [i..<i + Suc n] = blk k p i # map (blk k p) [i + 1..<i + 1 + n]"
    by (simp add: upt_conv_Cons del: upt_Suc)
  then have "?fl[k := ?fl ! k @ map (blk k p) [i + 1..<i + 1 + n]] = fl[k := fl ! k @ map (blk k p) [i..<i + Suc n]]"
    using Suc.prems(3) len by (simp del: upt_Suc add_Suc_right)
  then show ?case
    using h' at h(1) Suc.prems(3) by (intro exI [of _ h']) (simp del: upt_Suc add_Suc_right)
qed

lemma set_blocks: "set (map (blk k p) [0..<bcount k]) = {blk k p i | i. i < bcount k}"
  by auto

lemma free_in_blocks: "free_in k q (map (blk k p) [0..<bcount k]) = (if q = p then {..<bcount k} else {})"
  by (auto simp: free_in_def blk_inj)

lemma new_arena_ok:
  assumes inv: "malloc_inv A s S B fl" and k: "k < 7" and fl: "fl ! k = []"
  shows "new_arena s k (std_descs A ! k) = Inr (s, False) \<or>
    (\<exists>s' p. new_arena s k (std_descs A ! k) = Inr (s', True) \<and> p \<notin> pages_used (pages s) \<and>
      malloc_inv A s' (S(p \<mapsto> k)) B (fl[k := map (blk k p) [0..<bcount k]]) \<and> ram (pages s') = ram (pages s))"
proof -
  have ok: "base_ok A s" "arenas_ok s S B fl" "lists_ok A s S fl"
    using inv by (simp_all add: malloc_inv_def)
  note len = lists_ok_length [OF ok(3)]
  have pok: "palloc_ok (pages s)"
    using ok(1) by (simp add: base_ok_def)
  show ?thesis
  proof (rule get_pages_cases [OF pok, of 1])
    assume "palloc_get_multiple (pages s) 0 1 = Inr (pages s, 0)"
    then show ?thesis
      by (simp add: new_arena_def palloc_get_page_def)
  next
    fix pl p
    assume g: "palloc_get_multiple (pages s) 0 1 = Inr (pl, PGSIZE * of_nat p)" "PGSIZE * of_nat p \<noteq> (0 :: u32)"
      "unat (PGSIZE * of_nat p :: u32) = 4096 * p" "palloc_ok pl"
      "pages_used pl = pages_used (pages s) \<union> {p..<p + 1}" "{p..<p + 1} \<inter> pages_used (pages s) = {}" "ram pl = ram (pages s)"
      "first_page (kernel_pool pl) = first_page (kernel_pool (pages s))" "first_page (kernel_pool (pages s)) \<le> p"
    have p: "p \<notin> pages_used (pages s)" "0 < p"
      using g(6,9) ok(1) by (auto simp: base_ok_def)
    define s1 where "s1 = s\<lparr>pages := pl, arenas := (arenas s)(4096 * p :=
      \<lparr>a_magic = ARENA_MAGIC, a_desc = Some k, a_free_cnt = bcount k\<rparr>)\<rparr>"
    have old: "b div 4096 \<in> pages_used (pages s)" if "b \<in> set (concat fl)" for b
      using that ok(2,3) len unfolding in_concat_nth lists_ok_def arenas_ok_def small_ok_def
      by (metis blk_page0(1))
    have fresh: "blk k p j \<notin> set (concat fl)" if "j < bcount k" for j
      using old [of "blk k p j"] blk_page0(1) [OF that] p(1) by metis
    have "blk k p j \<notin> headers (map (desc_list A) [0..<7])" for j
      using headers_low [OF ok(1) g(9)] by (simp add: blk_def)
    then obtain h where h: "fill_arena s1 (desc_list A k) (4096 * p) 0 (bcount k) = Inr (s1\<lparr>links := h\<rparr>)"
      "family h (map (desc_list A) [0..<7]) (fl[k := map (blk k p) [0..<bcount k]])"
      using fill_arena_ok [of s1 A p k 0 "bcount k" fl] ok(1,3) p(2) k fresh fl
      by (auto simp: s1_def base_ok_def lists_ok_def)
    let ?s = "s1\<lparr>links := h\<rparr>" and ?S = "S(p \<mapsto> k)" and ?fl = "fl[k := map (blk k p) [0..<bcount k]]"
    have Sp: "S p = None"
      using p(1) ok(2) by (cases "S p") (auto simp: arenas_ok_def small_ok_def)
    have "small_ok ?s ?S ?fl q j" if "?S q = Some j" for q j
    proof (cases "q = p")
      case True
      then show ?thesis
        using that k len g(5,8,9) by (auto simp: small_ok_def s1_def free_in_blocks)
    next
      case False
      then have "small_ok s S fl q j"
        using that ok(2) by (simp add: arenas_ok_def)
      moreover have "free_in j q (?fl ! j) = free_in j q (fl ! j)"
        using False fl k len by (cases "j = k") (auto simp: free_in_blocks, simp add: free_in_def)
      ultimately show ?thesis
        using False g(5,8) by (simp add: small_ok_def s1_def)
    qed
    moreover have "big_ok ?s ?S q n" if "B q = Some n" for q n
    proof -
      have b: "big_ok s S q n"
        using that ok(2) by (simp add: arenas_ok_def)
      then have "p \<notin> {q..<q + n}"
        using p(1) by (auto simp: big_ok_def)
      with b show ?thesis
        using g(5,8) by (auto simp: big_ok_def s1_def)
    qed
    ultimately have "arenas_ok ?s ?S B ?fl"
      using ok(2) unfolding arenas_ok_def by blast
    moreover have "lists_ok A ?s ?S ?fl"
      using ok(3) h(2) k len Sp unfolding lists_ok_def
      by (auto simp: nth_list_update) (metis option.distinct(1))+
    moreover have "base_ok A ?s"
      using ok(1) g(4,8) by (simp add: base_ok_def s1_def)
    moreover have "new_arena s k (std_descs A ! k) = Inr (?s, True)"
      using g(1,2,3) h(1) k by (simp add: new_arena_def palloc_get_page_def s1_def)
    ultimately show ?thesis
      using p(1) g(7) unfolding malloc_inv_def by (intro disjI2 exI [of _ ?s] exI [of _ p]) (simp add: s1_def)
  qed simp
qed


section \<open>Blocks in use\<close>

lemma live_cases:
  assumes "(b, n) \<in> live S B fl"
  obtains (small) k p i where "S p = Some k" "i < bcount k" "b = blk k p i" "n = bsize k" "b \<notin> set (fl ! k)"
  | (big) p m where "B p = Some m" "b = 4096 * p + 12" "n = 4096 * m - 12"
  using assms by (auto simp: live_def)

lemma small_region: "i < bcount k \<Longrightarrow> x \<in> {blk k p i..<blk k p i + bsize k} \<Longrightarrow> x div 4096 = p"
  using blk_page(1) [of i k "x - blk k p i" p] by (simp add: less_diff_conv2)

lemma big_region: "(x :: nat) \<in> {4096 * p + 12..<4096 * p + 12 + (4096 * m - 12)} \<Longrightarrow> x div 4096 \<in> {p..<p + m}"
  using page_range [of p x m] by auto

lemma small_apart:
  assumes "i < j"
  shows "{blk k p i..<blk k p i + bsize k} \<inter> {blk k p j..<blk k p j + bsize k} = {}"
proof -
  have "(i + 1) * bsize k \<le> j * bsize k"
    using assms by (intro mult_le_mono1) simp
  then show ?thesis
    by (auto simp: blk_def)
qed

lemma small_not_big: "arenas_ok s S B fl \<Longrightarrow> S p = Some k \<Longrightarrow> B q = Some j \<Longrightarrow> p \<notin> {q..<q + j}"
  using domI [of S p k] unfolding arenas_ok_def big_ok_def by (meson disjoint_iff)

lemma big_pos: "arenas_ok s S B fl \<Longrightarrow> B q = Some j \<Longrightarrow> 0 < j"
  by (simp add: arenas_ok_def big_ok_def)

lemma live_disjoint:
  assumes ok: "arenas_ok s S B fl" and l: "(b, n) \<in> live S B fl" "(c, m) \<in> live S B fl" and ne: "b \<noteq> c"
  shows "{b..<b + n} \<inter> {c..<c + m} = {}"
proof -
  note bigs = small_not_big [OF ok]
  have apart: "{q..<q + j} \<inter> {q'..<q' + j'} = {}" if "B q = Some j" "B q' = Some j'" "q \<noteq> q'" for q j q' j'
    using ok that unfolding arenas_ok_def by blast
  show ?thesis
    using l(1)
  proof (cases rule: live_cases)
    case b: (small k p i)
    show ?thesis
      using l(2)
    proof (cases rule: live_cases)
      case c: (small k' q j)
      show ?thesis
      proof (cases "p = q")
        case True
        then have "i \<noteq> j" "k = k'"
          using b c ne by auto
        then show ?thesis
          using small_apart [of i j k p] small_apart [of j i k p] True b c by (cases "i < j") auto
      next
        case False
        then show ?thesis
          using small_region [OF b(2)] small_region [OF c(2)] unfolding b c by blast
      qed
    next
      case c: (big q j)
      show ?thesis
        using small_region [OF b(2)] big_region bigs [OF b(1) c(1)] unfolding b c by blast
    qed
  next
    case b: (big p i)
    show ?thesis
      using l(2)
    proof (cases rule: live_cases)
      case c: (small k q j)
      show ?thesis
        using small_region [OF c(2)] big_region bigs [OF c(1) b(1)] unfolding b c by blast
    next
      case c: (big q j)
      then have "p \<noteq> q"
        using b ne by auto
      then show ?thesis
        using big_region apart [OF b(1) c(1)] unfolding b c by blast
    qed
  qed
qed

lemma live_size:
  assumes ok: "arenas_ok s S B fl" and l: "(b, n) \<in> live S B fl" "(b, m) \<in> live S B fl"
  shows "n = m"
proof -
  note bigs = small_not_big [OF ok]
  have pos: "q \<in> {q..<q + j}" if "B q = Some j" for q j
    using big_pos [OF ok that] by simp
  have pg: "b div 4096 = (4096 * q + 12) div 4096 \<Longrightarrow> b div 4096 = q" for q
    by simp
  show ?thesis
    using l(1)
  proof (cases rule: live_cases)
    case b: (small k p i)
    show ?thesis
      using l(2)
    proof (cases rule: live_cases)
      case c: (small k' q j)
      then show ?thesis
        using b blk_page0(1) [OF b(2), of p] blk_page0(1) [OF c(2), of q] by simp
    next
      case c: (big q j)
      then show ?thesis
        using b blk_page0(1) [OF b(2), of p] bigs [OF b(1) c(1)] pos [OF c(1)] pg [of q] by simp
    qed
  next
    case b: (big p i)
    show ?thesis
      using l(2)
    proof (cases rule: live_cases)
      case c: (small k q j)
      then show ?thesis
        using b blk_page0(1) [OF c(2), of q] bigs [OF c(1) b(1)] pos [OF b(1)] pg [of p] by simp
    next
      case c: (big q j)
      then show ?thesis
        using b by simp
    qed
  qed
qed

lemma live_take:
  assumes "S p = Some k" "i < bcount k" "k < length fl" "fl ! k = blk k p i # xs" "blk k p i \<notin> set xs"
  shows "live S B (fl[k := xs]) = insert (blk k p i, bsize k) (live S B fl)"
proof -
  have "{(blk j q m, bsize j) | j q m. S q = Some j \<and> m < bcount j \<and> blk j q m \<notin> set (fl[k := xs] ! j)} =
    insert (blk k p i, bsize k) {(blk j q m, bsize j) | j q m. S q = Some j \<and> m < bcount j \<and> blk j q m \<notin> set (fl ! j)}"
    (is "?l = ?r")
  proof (intro set_eqI iffI)
    fix x
    assume "x \<in> ?l"
    then obtain j q m where x: "x = (blk j q m, bsize j)" "S q = Some j" "m < bcount j" "blk j q m \<notin> set (fl[k := xs] ! j)"
      by blast
    show "x \<in> ?r"
    proof (cases "j = k \<and> blk j q m = blk k p i")
      case False
      then have "blk j q m \<notin> set (fl ! j)"
        using x(4) assms(3,4) by (cases "j = k") auto
      then show ?thesis
        using x by blast
    next
      case True
      then show ?thesis
        using x(1) by auto
    qed
  next
    fix x
    assume "x \<in> ?r"
    then consider "x = (blk k p i, bsize k)" | j q m where "x = (blk j q m, bsize j)" "S q = Some j" "m < bcount j" "blk j q m \<notin> set (fl ! j)"
      by blast
    then show "x \<in> ?l"
    proof cases
      case 1
      then show ?thesis
        using assms by fastforce
    next
      case 2
      then have "blk j q m \<notin> set (fl[k := xs] ! j)"
        using assms(3,4) by (cases "j = k") auto
      with 2 show ?thesis
        by blast
    qed
  qed
  then show ?thesis
    by (simp add: live_def)
qed

lemma live_new:
  assumes "S p = None" "fl ! k = []" "k < length fl"
  shows "live (S(p \<mapsto> k)) B (fl[k := map (blk k p) [0..<bcount k]]) = live S B fl"
proof -
  have "(S(p \<mapsto> k)) q = Some j \<and> m < bcount j \<and> blk j q m \<notin> set (fl[k := map (blk k p) [0..<bcount k]] ! j) \<longleftrightarrow>
    S q = Some j \<and> m < bcount j \<and> blk j q m \<notin> set (fl ! j)" for q j m
    using assms blk_inj [of m k] by (cases "q = p"; cases "j = k") auto
  then show ?thesis
    by (simp add: live_def)
qed


section \<open>Allocation\<close>

lemma find_desc_ok:
  "k \<le> find_desc ds n k \<and> find_desc ds n k \<le> k + length ds \<and>
   (find_desc ds n k < k + length ds \<longrightarrow> n \<le> d_block_size (ds ! (find_desc ds n k - k)))"
proof (induction ds arbitrary: k)
  case (Cons d ds)
  show ?case
  proof (cases "n \<le> d_block_size d")
    case False
    define r where "r = find_desc ds n (k + 1)"
    have r: "k + 1 \<le> r" "r \<le> k + 1 + length ds" "r < k + 1 + length ds \<longrightarrow> n \<le> d_block_size (ds ! (r - (k + 1)))"
      using Cons.IH [of "k + 1"] by (simp_all add: r_def)
    moreover have "r - k = Suc (r - (k + 1))"
      using r(1) by simp
    ultimately show ?thesis
      using False by (simp add: r_def)
  qed simp
qed simp

lemma big_page_cnt:
  assumes "0 < n" "n \<le> 4294967284"
  defines "c \<equiv> DIV_ROUND_UP (sz (n + ARENA_SIZE)) 4096"
  shows "c = 0 \<or> n \<le> 4096 * c - 12"
proof (cases "n + 12 + 4095 < 4294967296")
  case True
  then have "c = (n + 12 + 4095) div 4096"
    by (simp add: c_def DIV_ROUND_UP_def ARENA_SIZE_def)
  then show ?thesis
    using mult_div_mod_eq [of 4096 "n + 12 + 4095"] mod_less_divisor [of 4096 "n + 12 + 4095"] by arith
next
  case False
  have "c = 0"
  proof (cases "n + 12 = 4294967296")
    case True
    then show ?thesis
      by (simp add: c_def DIV_ROUND_UP_def ARENA_SIZE_def sz_def)
  next
    case neq: False
    then have "n + 12 < 4294967296"
      using assms(2) by simp
    moreover from this have "sz (n + 12 + 4095) = n + 12 + 4095 - 4294967296"
      using False by (simp add: sz_def mod_if)
    ultimately show ?thesis
      by (simp add: c_def DIV_ROUND_UP_def ARENA_SIZE_def)
  qed
  then show ?thesis
    by simp
qed

lemma malloc_big_ok:
  fixes n :: nat
  assumes inv: "malloc_inv A s S B fl"
  defines "c \<equiv> DIV_ROUND_UP (sz (n + ARENA_SIZE)) 4096"
  shows "malloc_big s n = Inr (s, NULL) \<and> (c \<noteq> 0 \<longrightarrow> \<not> run_of_pages (pages s) c) \<or>
    (\<exists>s' p. malloc_big s n = Inr (s', 4096 * p + 12) \<and> 0 < c \<and> B p = None \<and> S p = None \<and>
       malloc_inv A s' S (B(p \<mapsto> c)) fl \<and> ram (pages s') = ram (pages s))"
proof -
  have ok: "base_ok A s" "arenas_ok s S B fl" "lists_ok A s S fl"
    using inv by (simp_all add: malloc_inv_def)
  have pok: "palloc_ok (pages s)"
    using ok(1) by (simp add: base_ok_def)
  show ?thesis
  proof (cases "c = 0")
    case True
    then show ?thesis
      unfolding malloc_big_def c_def [symmetric] by (simp add: palloc_get_multiple_def)
  next
    case False
    then have c: "0 < c"
      by simp
    show ?thesis
    proof (rule get_pages_cases [OF pok c])
      assume "palloc_get_multiple (pages s) 0 c = Inr (pages s, 0)" "\<not> run_of_pages (pages s) c"
      then show ?thesis
        unfolding malloc_big_def c_def [symmetric] by simp
    next
      fix pl p
      assume g: "palloc_get_multiple (pages s) 0 c = Inr (pl, PGSIZE * of_nat p)" "PGSIZE * of_nat p \<noteq> (0 :: u32)"
        "unat (PGSIZE * of_nat p :: u32) = 4096 * p" "palloc_ok pl"
        "pages_used pl = pages_used (pages s) \<union> {p..<p + c}" "{p..<p + c} \<inter> pages_used (pages s) = {}" "ram pl = ram (pages s)"
        "first_page (kernel_pool pl) = first_page (kernel_pool (pages s))" "first_page (kernel_pool (pages s)) \<le> p"
      define s1 where "s1 = s\<lparr>pages := pl, arenas := (arenas s)(4096 * p :=
        \<lparr>a_magic = ARENA_MAGIC, a_desc = None, a_free_cnt = c\<rparr>)\<rparr>"
      have p: "p \<in> {p..<p + c}" "p \<notin> pages_used (pages s)"
        using g(6) c by (simp, metis atLeastLessThan_iff disjoint_iff less_add_same_cancel1 order_refl)
      have dom: "dom S \<inter> {p..<p + c} = {}"
        using ok(2) g(6) by (auto simp: arenas_ok_def small_ok_def)
      have old: "{q..<q + m} \<inter> {p..<p + c} = {} \<and> q \<noteq> p" if "B q = Some m" for q m
      proof -
        have "{q..<q + m} \<subseteq> pages_used (pages s)" "0 < m"
          using ok(2) that by (simp_all add: arenas_ok_def big_ok_def)
        moreover from this have "q \<in> pages_used (pages s)"
          by auto
        ultimately show ?thesis
          using g(6) p(2) by blast
      qed
      have Sp: "S p = None"
        using dom c by (cases "S p") auto
      have Bp: "B p = None"
        using old [of p] by (cases "B p") auto
      have "small_ok s1 S fl q j" if "S q = Some j" for q j
      proof -
        have "q \<noteq> p"
          using that Sp by auto
        then show ?thesis
          using ok(2) that g(5,8) by (simp add: arenas_ok_def small_ok_def s1_def)
      qed
      moreover have "big_ok s1 S q m" if "(B(p \<mapsto> c)) q = Some m" for q m
      proof (cases "q = p")
        case True
        then show ?thesis
          using that c dom g(5,8,9) by (auto simp: big_ok_def s1_def)
      next
        case False
        then have "big_ok s S q m"
          using that ok(2) by (simp add: arenas_ok_def)
        then show ?thesis
          using False g(5,8) by (auto simp: big_ok_def s1_def)
      qed
      moreover have "{q..<q + m} \<inter> {q'..<q' + m'} = {}"
        if q: "(B(p \<mapsto> c)) q = Some m" "(B(p \<mapsto> c)) q' = Some m'" "q \<noteq> q'" for q m q' m'
      proof (cases "q = p \<or> q' = p")
        case True
        then show ?thesis
          using q old [of q m] old [of q' m'] by (auto split: if_splits)
      next
        case False
        then show ?thesis
          using q ok(2) unfolding arenas_ok_def by (metis fun_upd_apply)
      qed
      ultimately have "arenas_ok s1 S (B(p \<mapsto> c)) fl"
        unfolding arenas_ok_def by blast
      moreover have "lists_ok A s1 S fl" "base_ok A s1"
        using ok(1,3) g(4,8) by (simp_all add: lists_ok_def base_ok_def s1_def)
      moreover have "malloc_big s n = Inr (s1, 4096 * p + 12)"
        unfolding malloc_big_def c_def [symmetric] using g(1-3) by (simp add: s1_def ARENA_SIZE_def)
      ultimately show ?thesis
        using c Bp Sp g(7) unfolding malloc_inv_def
        by (intro disjI2 exI [of _ s1] exI [of _ p]) (simp add: s1_def)
    qed
  qed
qed

lemma live_big: "B p = None \<Longrightarrow> live S (B(p \<mapsto> c)) fl = insert (4096 * p + 12, 4096 * c - 12) (live S B fl)"
  by (auto simp: live_def)

lemma live_page:
  assumes ok: "arenas_ok s S B fl" and "(b, n) \<in> live S B fl"
  shows "S (b div 4096) \<noteq> None \<or> B (b div 4096) \<noteq> None" "b \<noteq> NULL" "0 < n"
proof -
  have "S (b div 4096) \<noteq> None \<or> B (b div 4096) \<noteq> None" "b \<noteq> NULL \<and> 0 < n"
    using assms(2)
  proof (atomize (full), cases rule: live_cases)
    case (small k p i)
    then show "(S (b div 4096) \<noteq> None \<or> B (b div 4096) \<noteq> None) \<and> b \<noteq> NULL \<and> 0 < n"
      using blk_page0(1) [OF small(2), of p] by (simp add: NULL_def blk_def)
  next
    case (big p m)
    then show "(S (b div 4096) \<noteq> None \<or> B (b div 4096) \<noteq> None) \<and> b \<noteq> NULL \<and> 0 < n"
      using big_pos [OF ok big(1)] by (simp add: NULL_def)
  qed
  then show "S (b div 4096) \<noteq> None \<or> B (b div 4096) \<noteq> None" "b \<noteq> NULL" "0 < n"
    by simp_all
qed

lemma malloc_big_rep:
  fixes n :: nat
  assumes rep: "malloc_rep A s L"
  defines "c \<equiv> DIV_ROUND_UP (sz (n + ARENA_SIZE)) 4096"
  shows "\<exists>s' r. malloc_big s n = Inr (s', r) \<and> ram (pages s') = ram (pages s) \<and>
    (if r = NULL then malloc_rep A s' L \<and> (c \<noteq> 0 \<longrightarrow> \<not> run_of_pages (pages s) c)
     else c \<noteq> 0 \<and> r \<notin> fst ` L \<and> malloc_rep A s' (insert (r, 4096 * c - 12) L))"
proof -
  obtain S B fl where inv: "malloc_inv A s S B fl" "has_live S fl" "L = live S B fl"
    using rep by (auto simp: malloc_rep_def)
  have ar: "arenas_ok s S B fl"
    using inv by (simp add: malloc_inv_def)
  show ?thesis
    using malloc_big_ok [OF inv(1), of n, folded c_def]
  proof (elim disjE exE conjE)
    assume "malloc_big s n = Inr (s, NULL)" "c \<noteq> 0 \<longrightarrow> \<not> run_of_pages (pages s) c"
    then show ?thesis
      using rep by simp
  next
    fix s' p
    assume b: "malloc_big s n = Inr (s', 4096 * p + 12)" "0 < c" "B p = None" "S p = None"
      "malloc_inv A s' S (B(p \<mapsto> c)) fl" "ram (pages s') = ram (pages s)"
    have "4096 * p + 12 \<notin> fst ` L"
    proof
      assume "4096 * p + 12 \<in> fst ` L"
      then obtain m where "(4096 * p + 12, m) \<in> live S B fl"
        using inv(3) by auto
      from live_page(1) [OF ar this] show False
        using b(3,4) by simp
    qed
    moreover have "malloc_rep A s' (insert (4096 * p + 12, 4096 * c - 12) L)"
      using b(5) inv(2,3) live_big [of B p S c fl, OF b(3)] unfolding malloc_rep_def by metis
    ultimately show ?thesis
      using b(1,2,6) by (auto simp: NULL_def)
  qed
qed

lemma free_not_live:
  assumes ar: "arenas_ok s S B fl" and e: "e \<in> set (fl ! k)" "S p = Some k" "i < bcount k" "e = blk k p i"
  shows "e \<notin> fst ` live S B fl"
proof
  assume "e \<in> fst ` live S B fl"
  then obtain m where "(e, m) \<in> live S B fl"
    by auto
  then show False
  proof (cases rule: live_cases)
    case (small k' q j)
    then show False
      using e blk_page0(1) [OF e(3), of p] blk_page0(1) [of j k' q] by auto
  next
    case (big q j)
    then show False
      using small_not_big [OF ar e(2) big(1)] big_pos [OF ar big(1)] blk_page0(1) [OF e(3), of p] e(4) by simp
  qed
qed

lemma take_block_rep:
  assumes s: "malloc_inv A s S B fl" "fl ! k = e # xs" "k < 7"
    and hl: "\<And>q j. S q = Some j \<Longrightarrow> q \<noteq> e div 4096 \<Longrightarrow> \<exists>i<bcount j. blk j q i \<notin> set (fl ! j)"
  shows "\<exists>s' r. take_block s (std_descs A ! k) = Inr (s', r) \<and> ram (pages s') = ram (pages s) \<and> r \<noteq> NULL \<and>
    r \<notin> fst ` live S B fl \<and> malloc_rep A s' (insert (r, bsize k) (live S B fl))"
proof -
  obtain s' p i where t: "take_block s (std_descs A ! k) = Inr (s', e)" "malloc_inv A s' S B (fl[k := xs])"
    "pages s' = pages s" "S p = Some k" "i < bcount k" "e = blk k p i" "e \<notin> set xs"
    using take_block_ok [OF s(1,3,2)] by blast
  have len: "length fl = 7" and ar: "arenas_ok s S B fl"
    using s(1) lists_ok_length by (auto simp: malloc_inv_def)
  have L: "live S B (fl[k := xs]) = insert (e, bsize k) (live S B fl)"
    using live_take [of S p k i fl xs B] t s(2,3) len by simp
  have "has_live S (fl[k := xs])"
    unfolding has_live_def
  proof (intro allI impI)
    fix q j
    assume q: "S q = Some j"
    show "\<exists>i<bcount j. blk j q i \<notin> set (fl[k := xs] ! j)"
    proof (cases "q = p")
      case True
      then show ?thesis
        using t(4-7) q len s(3) by auto
    next
      case False
      then obtain i where "i < bcount j" "blk j q i \<notin> set (fl ! j)"
        using hl [OF q] blk_page0(1) [OF t(5), of p] t(6) by auto
      then show ?thesis
        using s(2,3) len by (cases "j = k") auto
    qed
  qed
  then have "malloc_rep A s' (insert (e, bsize k) (live S B fl))"
    using t(2) L unfolding malloc_rep_def by blast
  moreover have "e \<notin> fst ` live S B fl"
    using free_not_live [OF ar _ t(4-6)] s(2) by simp
  moreover have "e \<noteq> NULL"
    by (simp add: t(6) blk_def NULL_def)
  ultimately show ?thesis
    using t(1,3) by auto
qed

lemma malloc_ok:
  assumes rep: "malloc_rep A s L" and n: "n \<le> 4294967284"
  shows "\<exists>s' r. malloc s n = Inr (s', r) \<and> ram (pages s') = ram (pages s) \<and>
    (if r = NULL then malloc_rep A s' L
     else \<exists>m\<ge>n. r \<notin> fst ` L \<and> malloc_rep A s' (insert (r, m) L))"
proof -
  obtain S B fl where inv: "malloc_inv A s S B fl" "has_live S fl" "L = live S B fl"
    using rep by (auto simp: malloc_rep_def)
  have ok: "base_ok A s" "arenas_ok s S B fl" "lists_ok A s S fl"
    using inv by (simp_all add: malloc_inv_def)
  note len = lists_ok_length [OF ok(3)]
  have ds: "descs s = std_descs A"
    using ok(1) by (simp add: base_ok_def)
  define k where "k = find_desc (std_descs A) n 0"
  have k: "k \<le> 7" "k < 7 \<Longrightarrow> n \<le> bsize k"
    using find_desc_ok [of 0 "std_descs A" n] by (auto simp: k_def)
  have taken: "\<exists>s' r. take_block s1 (std_descs A ! k) = Inr (s', r) \<and> ram (pages s') = ram (pages s1) \<and> r \<noteq> NULL \<and>
      r \<notin> fst ` L \<and> malloc_rep A s' (insert (r, bsize k) L)"
    if "malloc_inv A s1 S1 B fl1" "fl1 ! k = e # xs" "live S1 B fl1 = L" "k < 7"
      and "\<And>q j. S1 q = Some j \<Longrightarrow> q \<noteq> e div 4096 \<Longrightarrow> \<exists>i<bcount j. blk j q i \<notin> set (fl1 ! j)" for s1 S1 fl1 e xs
    using take_block_rep [OF that(1,2,4)] that(3,5) by blast
  show ?thesis
  proof (cases "n = 0")
    case True
    then show ?thesis
      using rep by (simp add: malloc_def)
  next
    case n0: False
    show ?thesis
    proof (cases "k = 7")
      case True
      then have m: "malloc s n = malloc_big s n"
        using n0 by (simp add: malloc_def ds k_def)
      show ?thesis
        using malloc_big_rep [OF rep, of n] big_page_cnt [of n] n0 n unfolding m by fastforce
    next
      case False
      then have k7: "k < 7"
        using k(1) by simp
      have dl: "dll (links s) (desc_list A k) (fl ! k)"
        using family_nth [of "links s" "map (desc_list A) [0..<7]" fl k] ok(3) k7 by (simp add: lists_ok_def)
      show ?thesis
      proof (cases "fl ! k")
        case (Cons e xs)
        then have "malloc s n = take_block s (std_descs A ! k)"
          using n0 False k7 dll_empty [OF dl] by (simp add: malloc_def ds k_def [symmetric])
        then show ?thesis
          using taken [OF inv(1) Cons inv(3) [symmetric] k7] inv(2) k(2) [OF k7] unfolding has_live_def by fastforce
      next
        case Nil
        then have m: "malloc s n = kbind (new_arena s k (std_descs A ! k)) (\<lambda>(s, ok). if ok then take_block s (std_descs A ! k) else Inr (s, NULL))"
          using n0 False k7 dll_empty [OF dl] by (simp add: malloc_def ds k_def [symmetric] Let_def cong: if_cong prod.case_cong)
        show ?thesis
          using new_arena_ok [OF inv(1) k7 Nil]
        proof (elim disjE exE conjE)
          assume "new_arena s k (std_descs A ! k) = Inr (s, False)"
          then show ?thesis
            using m rep by simp
        next
          fix s1 p
          let ?bs = "map (blk k p) [0..<bcount k]"
          assume a: "new_arena s k (std_descs A ! k) = Inr (s1, True)" "p \<notin> pages_used (pages s)"
            "malloc_inv A s1 (S(p \<mapsto> k)) B (fl[k := ?bs])" "ram (pages s1) = ram (pages s)"
          have Sp: "S p = None"
            using a(2) ok(2) by (cases "S p") (auto simp: arenas_ok_def small_ok_def)
          have bs: "fl[k := ?bs] ! k = blk k p 0 # map (blk k p) [1..<bcount k]"
            using k7 len bcount_bounds [OF k7] by (simp add: upt_conv_Cons)
          have "\<exists>i<bcount j. blk j q i \<notin> set (fl[k := ?bs] ! j)"
            if q: "(S(p \<mapsto> k)) q = Some j" "q \<noteq> blk k p 0 div 4096" for q j
          proof -
            have "q \<noteq> p"
              using q(2) blk_page0(1) [of 0 k p] bcount_bounds [OF k7] by simp
            then obtain i where i: "i < bcount j" "blk j q i \<notin> set (fl ! j)"
              using q(1) inv(2) by (auto simp: has_live_def)
            then have "blk j q i \<notin> set (fl[k := ?bs] ! j)"
              using \<open>q \<noteq> p\<close> k7 len by (cases "j = k") (auto simp: blk_inj)
            with i(1) show ?thesis
              by blast
          qed
          moreover have "live (S(p \<mapsto> k)) B (fl[k := ?bs]) = L"
            using live_new [of S p fl k B] Sp Nil k7 len inv(3) by simp
          note taken [OF a(3) bs this k7]
          ultimately
          obtain s' r where t: "take_block s1 (std_descs A ! k) = Inr (s', r)" "ram (pages s') = ram (pages s1)" "r \<noteq> NULL"
            "r \<notin> fst ` L" "malloc_rep A s' (insert (r, bsize k) L)"
            by blast
          show ?thesis
            using t m a(1,4) k(2) [OF k7] by (intro exI [of _ s'] exI [of _ r]) auto
        qed
      qed
    qed
  qed
qed


section \<open>Release\<close>

lemma empty_arena_ok:
  assumes "descs s = std_descs A" "0 < p" "k < 7" "i + n \<le> bcount k"
    and "a_magic (arenas s (4096 * p)) = ARENA_MAGIC" "a_desc (arenas s (4096 * p)) = Some k"
    and "family (links s) (map (desc_list A) [0..<7]) fl"
    and "\<And>j. i \<le> j \<Longrightarrow> j < i + n \<Longrightarrow> blk k p j \<in> set (fl ! k)"
  shows "\<exists>h. empty_arena s (4096 * p) i n = Inr (s\<lparr>links := h\<rparr>) \<and>
    family h (map (desc_list A) [0..<7]) (fl[k := filter (\<lambda>b. b \<notin> blk k p ` {i..<i + n}) (fl ! k)])"
  using assms
proof (induction n arbitrary: s i fl)
  case 0
  then show ?case
    by (intro exI [of _ "links s"]) simp
next
  case (Suc n)
  let ?ls = "map (desc_list A) [0..<7]"
  have len: "length fl = 7"
    using Suc.prems(7) by (simp add: family_def)
  have i: "i < bcount k"
    using Suc.prems(4) by simp
  have at: "arena_to_block s (4096 * p) i = Inr (blk k p i)"
    by (rule arena_to_block_ok [OF Suc.prems(1-3) i Suc.prems(5,6)])
  obtain as bs where sp: "fl ! k = as @ blk k p i # bs"
    using Suc.prems(8) [of i] by (auto dest: split_list)
  have "distinct (fl ! k)"
    using family_distinct [OF Suc.prems(7)] len Suc.prems(3) by (auto simp: distinct_concat_iff)
  then have new: "blk k p i \<notin> set (as @ bs)"
    using sp by simp
  obtain h r where h: "list_remove (links s) (blk k p i) = Inr (h, r)" "family h ?ls (fl[k := as @ bs])"
    using family_remove [OF Suc.prems(7), of k as "blk k p i" bs] Suc.prems(3) sp by auto
  have "blk k p j \<in> set (as @ bs)" if "i + 1 \<le> j" "j < i + 1 + n" for j
  proof -
    have "blk k p j \<noteq> blk k p i"
      using blk_inj [of j k i p p] that i Suc.prems(4) by simp
    then show ?thesis
      using Suc.prems(8) [of j] that sp by simp
  qed
  with Suc.prems obtain h' where h': "empty_arena (s\<lparr>links := h\<rparr>) (4096 * p) (i + 1) n = Inr (s\<lparr>links := h'\<rparr>)"
    "family h' ?ls (fl[k := filter (\<lambda>b. b \<notin> blk k p ` {i + 1..<i + 1 + n}) (as @ bs)])"
    using Suc.IH [of "s\<lparr>links := h\<rparr>" "i + 1" "fl[k := as @ bs]"] h(2) len by auto
  have ins: "{i..<i + Suc n} = insert i {i + 1..<i + 1 + n}"
    by auto
  have "filter (\<lambda>b. b \<notin> blk k p ` {i..<i + Suc n}) xs = filter (\<lambda>b. b \<notin> blk k p ` {i + 1..<i + 1 + n}) xs"
    if "blk k p i \<notin> set xs" for xs
    using that unfolding ins by (intro filter_cong) auto
  then have "filter (\<lambda>b. b \<notin> blk k p ` {i..<i + Suc n}) (fl ! k) = filter (\<lambda>b. b \<notin> blk k p ` {i + 1..<i + 1 + n}) (as @ bs)"
    using new unfolding sp by simp
  then show ?case
    using h' at h(1) by (intro exI [of _ h']) simp
qed

lemma malloc_inv_bytes [simp]: "malloc_inv A (set_bytes s m) S B fl = malloc_inv A s S B fl"
  by (simp add: malloc_inv_def base_ok_def arenas_ok_def small_ok_def big_ok_def lists_ok_def set_bytes_def)

lemma memset_bytes:
  "dst \<noteq> NULL \<Longrightarrow> memset m dst v n = Inr (\<lambda>x. if dst \<le> x \<and> x < dst + n then ucast v else m x, dst)"
  by (simp add: memset_ok memset_loop_eq)


lemma push_free_block:
  assumes inv: "malloc_inv A s S B fl" and b: "S p = Some k" "i < bcount k" "blk k p i \<notin> set (fl ! k)"
  shows "\<exists>h. list_push_front (links s) (desc_list A k) (blk k p i) = Inr h \<and>
    malloc_inv A (s\<lparr>links := h, arenas := (arenas s)(4096 * p :=
      (arenas s (4096 * p))\<lparr>a_free_cnt := card (free_in k p (fl ! k)) + 1\<rparr>)\<rparr>) S B (fl[k := blk k p i # fl ! k])"
proof -
  have ok: "base_ok A s" "arenas_ok s S B fl" "lists_ok A s S fl"
    using inv by (simp_all add: malloc_inv_def)
  note len = lists_ok_length [OF ok(3)]
  have sm: "small_ok s S fl p k" and k: "k < 7"
    using ok(2) b(1) by (auto simp: arenas_ok_def small_ok_def)
  have "blk k p i \<notin> set (concat fl)"
  proof
    assume "blk k p i \<in> set (concat fl)"
    then obtain j where j: "j < 7" "blk k p i \<in> set (fl ! j)"
      unfolding in_concat_nth len by blast
    then obtain q m where "S q = Some j" "m < bcount j" "blk k p i = blk j q m"
      using ok(3) unfolding lists_ok_def by blast
    moreover from this have "q = p"
      using blk_page0(1) [OF b(2), of p] blk_page0(1) [of m j q] by simp
    ultimately show False
      using j(2) b(1,3) by simp
  qed
  moreover have "blk k p i \<notin> headers (map (desc_list A) [0..<7])"
    using headers_low [OF ok(1), of p "blk k p i"] sm by (simp add: small_ok_def blk_def)
  moreover have "blk k p i \<noteq> NULL"
    by (simp add: blk_def NULL_def)
  ultimately obtain h where h: "list_push_front (links s) (desc_list A k) (blk k p i) = Inr h"
      "family h (map (desc_list A) [0..<7]) (fl[k := blk k p i # fl ! k])"
    using family_push [of "links s" "map (desc_list A) [0..<7]" fl k "blk k p i"] ok(3) k by (auto simp: lists_ok_def)
  define s' where "s' = s\<lparr>links := h, arenas := (arenas s)(4096 * p :=
      (arenas s (4096 * p))\<lparr>a_free_cnt := card (free_in k p (fl ! k)) + 1\<rparr>)\<rparr>"
  have "card (free_in k p (blk k p i # fl ! k)) = card (free_in k p (fl ! k)) + 1"
    using b(3) by (simp add: free_in_Cons b(2)) (simp add: free_in_def)
  then have "arenas_ok s' S B (fl[k := blk k p i # fl ! k])"
    using k len b(2) by (intro arenas_change [OF ok(2) b(1)]) (simp_all add: s'_def free_in_Cons)
  moreover have "lists_ok A s' S (fl[k := blk k p i # fl ! k])"
    using ok(3) h(2) k len b(1,2) unfolding lists_ok_def s'_def by (auto simp: nth_list_update)
  moreover have "base_ok A s'"
    using ok(1) by (simp add: base_ok_def s'_def)
  ultimately have "malloc_inv A s' S B (fl[k := blk k p i # fl ! k])"
    by (simp add: malloc_inv_def)
  then show ?thesis
    using h(1) unfolding s'_def by blast
qed

lemma drop_arena:
  assumes inv: "malloc_inv A s S B fl" and p: "S p = Some k" "\<And>i. i < bcount k \<Longrightarrow> blk k p i \<in> set (fl ! k)"
  defines "fl' \<equiv> fl[k := filter (\<lambda>b. b \<notin> blk k p ` {0..<bcount k}) (fl ! k)]"
  shows "\<exists>s1 pl. empty_arena s (4096 * p) 0 (bcount k) = Inr s1 \<and> palloc_free_page (pages s1) (of_nat (4096 * p)) = Inr pl \<and>
    malloc_inv A (s1\<lparr>pages := pl\<rparr>) (S(p := None)) B fl' \<and> live (S(p := None)) B fl' = live S B fl \<and>
    ram pl = (\<lambda>x. if x div 4096 = p then 0xcc else ram (pages s) x)"
proof -
  have ok: "base_ok A s" "arenas_ok s S B fl" "lists_ok A s S fl"
    using inv by (simp_all add: malloc_inv_def)
  note len = lists_ok_length [OF ok(3)]
  have sm: "small_ok s S fl p k" and k: "k < 7"
    using ok(2) p(1) by (auto simp: arenas_ok_def small_ok_def)
  have p0: "0 < p" "p \<in> pages_used (pages s)"
    using sm ok(1) by (auto simp: small_ok_def base_ok_def)
  obtain h where h: "empty_arena s (4096 * p) 0 (bcount k) = Inr (s\<lparr>links := h\<rparr>)" "family h (map (desc_list A) [0..<7]) fl'"
    using empty_arena_ok [of s A p k 0 "bcount k" fl] ok(1,3) p0(1) k sm p(2)
    by (auto simp: base_ok_def lists_ok_def small_ok_def fl'_def)
  obtain pl where pl: "palloc_free_page (pages s) (of_nat (4096 * p)) = Inr pl" "palloc_ok pl"
    "pages_used pl = pages_used (pages s) - {p}" "first_page (kernel_pool pl) = first_page (kernel_pool (pages s))"
    "ram pl = (\<lambda>x. if x div 4096 = p then 0xcc else ram (pages s) x)"
    using put_pages_ok [of "pages s" 1 p] ok(1) p0(2) by (auto simp: base_ok_def palloc_free_page_def)
  let ?s = "s\<lparr>links := h, pages := pl\<rparr>" and ?S = "S(p := None)"
  have keep: "blk j q m \<in> set (fl' ! j) \<longleftrightarrow> blk j q m \<in> set (fl ! j)" if "q \<noteq> p" "m < bcount j" for j q m
    using that k len by (cases "j = k") (auto simp: fl'_def blk_inj)
  then have fr: "free_in j q (fl' ! j) = free_in j q (fl ! j)" if "q \<noteq> p" for j q
    using that by (auto simp: free_in_def)
  have "small_ok ?s ?S fl' q j" if "?S q = Some j" for q j
    using that ok(2) fr pl(3,4) by (auto simp: arenas_ok_def small_ok_def split: if_splits)
  moreover have "big_ok ?s ?S q n" if "B q = Some n" for q n
  proof -
    have "big_ok s S q n"
      using that ok(2) by (simp add: arenas_ok_def)
    then show ?thesis
      using small_not_big [OF ok(2) p(1) that] pl(3,4) unfolding big_ok_def by auto
  qed
  ultimately have "arenas_ok ?s ?S B fl'"
    using ok(2) unfolding arenas_ok_def by blast
  moreover have "\<exists>q i. ?S q = Some j \<and> i < bcount j \<and> b = blk j q i" if j: "j < 7" "b \<in> set (fl' ! j)" for j b
  proof -
    have "b \<in> set (fl ! j)"
      using j k len by (cases "j = k") (auto simp: fl'_def)
    then obtain q i where q: "S q = Some j" "i < bcount j" "b = blk j q i"
      using ok(3) j(1) unfolding lists_ok_def by blast
    moreover have "q \<noteq> p"
      using q j(2) p(1) k len by (auto simp: fl'_def)
    ultimately show ?thesis
      by auto
  qed
  then have "lists_ok A ?s ?S fl'"
    using h(2) by (simp add: lists_ok_def)
  moreover have "base_ok A ?s"
    using ok(1) pl(2,4) by (simp add: base_ok_def)
  moreover have "live ?S B fl' = live S B fl"
  proof -
    have "?S q = Some j \<and> m < bcount j \<and> blk j q m \<notin> set (fl' ! j) \<longleftrightarrow> S q = Some j \<and> m < bcount j \<and> blk j q m \<notin> set (fl ! j)" for q j m
      using keep [of q m j] p by (cases "q = p") auto
    then show ?thesis
      by (simp add: live_def)
  qed
  ultimately show ?thesis
    using h(1) pl(1,5) unfolding malloc_inv_def by auto
qed


lemma has_live_iff:
  assumes "arenas_ok s S B fl"
  shows "has_live S fl \<longleftrightarrow> (\<forall>p\<in>dom S. \<exists>x\<in>live S B fl. fst x div 4096 = p)"
proof (intro iffI ballI)
  fix p
  assume "has_live S fl" "p \<in> dom S"
  then obtain k i where i: "S p = Some k" "i < bcount k" "blk k p i \<notin> set (fl ! k)"
    unfolding has_live_def by blast
  then have "(blk k p i, bsize k) \<in> live S B fl"
    by (auto simp: live_def)
  then show "\<exists>x\<in>live S B fl. fst x div 4096 = p"
    using blk_page0(1) [OF i(2), of p] by force
next
  assume l: "\<forall>p\<in>dom S. \<exists>x\<in>live S B fl. fst x div 4096 = p"
  have "\<exists>i<bcount k. blk k p i \<notin> set (fl ! k)" if p: "S p = Some k" for p k
  proof -
    obtain b n where "(b, n) \<in> live S B fl" "b div 4096 = p"
      using l p by (metis domI prod.collapse)
    then show ?thesis
    proof (cases rule: live_cases)
      case (small k' q i)
      then show ?thesis
        using p \<open>b div 4096 = p\<close> blk_page0(1) [OF small(2), of q] by auto
    next
      case (big q m)
      then show ?thesis
        using \<open>b div 4096 = p\<close> small_not_big [OF assms p big(1)] big_pos [OF assms big(1)] by simp
    qed
  qed
  then show "has_live S fl"
    by (simp add: has_live_def)
qed

lemma has_live_removed:
  assumes "has_live S fl" "arenas_ok s S B fl" "arenas_ok s' S' B fl'" "dom S' \<subseteq> dom S"
    and L: "live S' B fl' = live S B fl - {(b, n)}"
    and p: "b div 4096 = p" "\<And>k. S' p = Some k \<Longrightarrow> \<exists>i<bcount k. blk k p i \<notin> set (fl' ! k)"
  shows "has_live S' fl'"
  unfolding has_live_def
proof (intro allI impI)
  fix q k
  assume q: "S' q = Some k"
  show "\<exists>i<bcount k. blk k q i \<notin> set (fl' ! k)"
  proof (cases "q = p")
    case True
    then show ?thesis
      using q p(2) by simp
  next
    case False
    have "q \<in> dom S"
      using q assms(4) by blast
    then obtain c m where x: "(c, m) \<in> live S B fl" "c div 4096 = q"
      using assms(1) has_live_iff [OF assms(2)] by (metis prod.collapse)
    moreover have "c \<noteq> b"
      using x(2) p(1) False by blast
    ultimately have "(c, m) \<in> live S' B fl'"
      using L by blast
    then show ?thesis
    proof (cases rule: live_cases)
      case (small k' q' i)
      then show ?thesis
        using q x(2) blk_page0(1) [OF small(2), of q'] by auto
    next
      case (big q' m)
      then show ?thesis
        using x(2) small_not_big [OF assms(3) q big(1)] big_pos [OF assms(3) big(1)] by simp
    qed
  qed
qed

lemma free_small_ok:
  assumes inv: "malloc_inv A s S B fl" "has_live S fl" and b: "S p = Some k" "i < bcount k" "blk k p i \<notin> set (fl ! k)"
  shows "\<exists>s' S' fl'. free_small s (blk k p i) (4096 * p) (std_descs A ! k) = Inr s' \<and> malloc_inv A s' S' B fl' \<and> has_live S' fl' \<and>
    live S' B fl' = live S B fl - {(blk k p i, bsize k)} \<and>
    (\<forall>x. ram (pages s') x \<noteq> ram (pages s) x \<longrightarrow> x \<in> {blk k p i..<blk k p i + bsize k} \<or> x div 4096 = p \<and> S' p = None)"
proof -
  let ?b = "blk k p i" and ?fl = "fl[k := blk k p i # fl ! k]"
  have ok: "base_ok A s" "arenas_ok s S B fl" "lists_ok A s S fl"
    using inv by (simp_all add: malloc_inv_def)
  note len = lists_ok_length [OF ok(3)]
  have sm: "small_ok s S fl p k" and k: "k < 7"
    using ok(2) b(1) by (auto simp: arenas_ok_def small_ok_def)
  define c where "c = card (free_in k p (fl ! k)) + 1"
  define m where "m = (\<lambda>x. if ?b \<le> x \<and> x < ?b + bsize k then ucast (0xcc :: u32) else ram (pages s) x)"
  define s0 where "s0 = set_bytes s m"
  have s0: "arenas s0 = arenas s" "links s0 = links s" "ram (pages s0) = m" "descs s0 = descs s"
    by (simp_all add: s0_def set_bytes_def)
  have ms: "memset (ram (pages s)) ?b 0xcc (bsize k) = Inr (m, ?b)"
    using memset_bytes [of ?b] by (simp add: m_def blk_def NULL_def)
  obtain h where h: "list_push_front (links s) (desc_list A k) ?b = Inr h"
    "malloc_inv A (s0\<lparr>links := h, arenas := (arenas s)(4096 * p := (arenas s (4096 * p))\<lparr>a_free_cnt := c\<rparr>)\<rparr>) S B ?fl"
    using push_free_block [of A s0 S B fl p k i] inv(1) b unfolding c_def [symmetric] s0(1,2) by (auto simp: s0_def)
  define s1 where "s1 = s0\<lparr>links := h, arenas := (arenas s)(4096 * p := (arenas s (4096 * p))\<lparr>a_free_cnt := c\<rparr>)\<rparr>"
  have inv1: "malloc_inv A s1 S B ?fl" and ar1: "arenas_ok s1 S B ?fl"
    using h(2) by (simp_all add: s1_def malloc_inv_def)
  have L0: "live S B fl = insert (?b, bsize k) (live S B ?fl)"
    using live_take [of S p k i ?fl "fl ! k" B] b k len by simp
  have "?b \<notin> fst ` live S B ?fl"
    using free_not_live [OF ar1 _ b(1,2) refl] k len by simp
  then have L1: "live S B ?fl = live S B fl - {(?b, bsize k)}"
    using L0 by force
  have c1: "c = card (free_in k p (?fl ! k))"
    using b k len by (simp add: c_def free_in_Cons) (simp add: free_in_def)
  have cs: "sz (a_free_cnt (arenas s0 (4096 * p)) + 1) = c"
    using free_in_card [OF k, of p "fl ! k"] bcount_bounds [OF k] sm by (simp add: s0 small_ok_def c_def)
  have run: "free_small s ?b (4096 * p) (std_descs A ! k) = (if c \<ge> bcount k
      then kbind (kassert (c = bcount k)) (\<lambda>_. kbind (empty_arena s1 (4096 * p) 0 (bcount k)) (\<lambda>s.
           kbind (palloc_free_page (pages s) (of_nat (4096 * p))) (\<lambda>pl. Inr (s\<lparr>pages := pl\<rparr>))))
      else Inr s1)"
    unfolding free_small_def using k ms h(1) cs by (simp add: s0_def [symmetric] s1_def s0 Let_def)
  have ram1: "ram (pages s1) = m"
    by (simp add: s1_def s0)
  show ?thesis
  proof (cases "c \<ge> bcount k")
    case False
    then have "free_in k p (?fl ! k) \<noteq> {..<bcount k}"
      using c1 by (metis card_lessThan order_refl)
    then have "\<exists>j<bcount k. blk k p j \<notin> set (?fl ! k)"
      by (auto simp: free_in_def)
    then have "has_live S ?fl"
      using b(1) by (intro has_live_removed [OF inv(2) ok(2) ar1 _ L1 blk_page0(1) [OF b(2)]]) auto
    then show ?thesis
      using False run inv1 L1 ram1 by (intro exI [of _ s1] exI [of _ S] exI [of _ ?fl]) (simp add: m_def)
  next
    case True
    have sub: "free_in k p (?fl ! k) \<subseteq> {..<bcount k}"
      by (auto simp: free_in_def)
    then have "free_in k p (?fl ! k) = {..<bcount k}" and cb: "c = bcount k"
      using card_subset_eq [of "{..<bcount k}" "free_in k p (?fl ! k)"] card_mono [OF _ sub] True c1 by auto
    then have "blk k p j \<in> set (?fl ! k)" if "j < bcount k" for j
      using that unfolding free_in_def by blast
    from drop_arena [OF inv1 b(1) this] obtain s2 pl fl' where d: "empty_arena s1 (4096 * p) 0 (bcount k) = Inr s2"
      "palloc_free_page (pages s2) (of_nat (4096 * p)) = Inr pl" "malloc_inv A (s2\<lparr>pages := pl\<rparr>) (S(p := None)) B fl'"
      "live (S(p := None)) B fl' = live S B ?fl" "ram pl = (\<lambda>x. if x div 4096 = p then 0xcc else ram (pages s1) x)"
      by blast
    have "has_live (S(p := None)) fl'"
      using d(3,4) L1 by (intro has_live_removed [OF inv(2) ok(2) _ _ _ blk_page0(1) [OF b(2), of p]]) (auto simp: malloc_inv_def)
    then show ?thesis
      using True run d L1 cb by (intro exI [of _ "s2\<lparr>pages := pl\<rparr>"] exI [of _ "S(p := None)"] exI [of _ fl']) (auto simp: ram1 m_def)
  qed
qed

end
