(* ===== verification/MallocProps.thy ===== *)
theory MallocProps
  imports Malloc
begin

text \<open>
  What the block allocator promises. Locale \<open>byte_heap\<close> is its contract: blocks in use are disjoint, a new one is
  apart from them and large enough, and allocation and release leave the bytes of the others alone. Proved
  in it once: a client that allocates, writes and releases in any order always reads back what it has
  written. The allocator interprets it; \<^verbatim>\<open>calloc\<close> and \<^verbatim>\<open>realloc\<close> follow from the same facts.
\<close>

section \<open>Release\<close>

lemma free_big_ok:
  assumes inv: "malloc_inv A s S B fl" "has_live S fl" and B: "B p = Some n"
  shows "\<exists>s'. free s (4096 * p + 12) = Inr s' \<and> malloc_inv A s' S (B(p := None)) fl \<and>
    live S (B(p := None)) fl = live S B fl - {(4096 * p + 12, 4096 * n - 12)} \<and>
    (\<forall>x. ram (pages s') x \<noteq> ram (pages s) x \<longrightarrow> x div 4096 \<in> {p..<p + n})"
proof -
  have ok: "base_ok A s" "arenas_ok s S B fl" "lists_ok A s S fl"
    using inv by (simp_all add: malloc_inv_def)
  have bg: "big_ok s S p n"
    using ok(2) B by (simp add: arenas_ok_def)
  obtain pl where pl: "palloc_free_multiple (pages s) (of_nat (4096 * p)) n = Inr pl" "palloc_ok pl"
    "pages_used pl = pages_used (pages s) - {p..<p + n}" "first_page (kernel_pool pl) = first_page (kernel_pool (pages s))"
    "ram pl = (\<lambda>x. if x div 4096 \<in> {p..<p + n} then 0xcc else ram (pages s) x)"
    using put_pages_ok [of "pages s" n p] ok(1) bg by (auto simp: base_ok_def big_ok_def)
  let ?s = "s\<lparr>pages := pl\<rparr>"
  have Sp: "S p = None"
    using small_not_big [OF ok(2) _ B, of p] big_pos [OF ok(2) B] by (cases "S p") auto
  have fr: "free s (4096 * p + 12) = Inr ?s"
    using block_to_arena_big [OF ok(1) bg] bg pl(1) by (simp add: free_def NULL_def big_ok_def)
  have "small_ok ?s S fl q j" if "S q = Some j" for q j
    using that ok(2) small_not_big [OF ok(2) that B] pl(3,4) by (simp add: arenas_ok_def small_ok_def)
  moreover have "big_ok ?s S q m" if q: "(B(p := None)) q = Some m" for q m
  proof -
    have "q \<noteq> p" "B q = Some m"
      using q by (auto split: if_splits)
    then have "{q..<q + m} \<inter> {p..<p + n} = {}" "big_ok s S q m"
      using ok(2) B unfolding arenas_ok_def by blast+
    then show ?thesis
      using pl(3,4) by (auto simp: big_ok_def)
  qed
  moreover have "{q..<q + m} \<inter> {q'..<q' + m'} = {}"
    if "(B(p := None)) q = Some m" "(B(p := None)) q' = Some m'" "q \<noteq> q'" for q m q' m'
    using that ok(2) unfolding arenas_ok_def by (metis fun_upd_apply option.distinct(1))
  ultimately have ar: "arenas_ok ?s S (B(p := None)) fl"
    unfolding arenas_ok_def by blast
  have lb: "lists_ok A ?s S fl" "base_ok A ?s"
    using ok(1,3) pl(2,4) by (simp_all add: lists_ok_def base_ok_def)
  have "live S (B(p := None)) fl = live S B fl - {(4096 * p + 12, 4096 * n - 12)}"
  proof -
    have "live S B fl = insert (4096 * p + 12, 4096 * n - 12) (live S (B(p := None)) fl)"
      using live_big [of "B(p := None)" p S n fl] B by (simp add: map_upd_triv)
    moreover have "(4096 * p + 12, m) \<notin> live S (B(p := None)) fl" for m
      using live_page(1) [OF ar, of "4096 * p + 12" m] Sp by auto
    ultimately show ?thesis
      by blast
  qed
  then show ?thesis
    using fr ar lb pl(5) unfolding malloc_inv_def by (intro exI [of _ ?s]) auto
qed

lemma free_ok:
  assumes rep: "malloc_rep A s L" and b: "(b, n) \<in> L"
  shows "\<exists>s'. free s b = Inr s' \<and> malloc_rep A s' (L - {(b, n)}) \<and>
    (\<forall>(c, m)\<in>L - {(b, n)}. \<forall>x\<in>{c..<c + m}. ram (pages s') x = ram (pages s) x)"
proof -
  obtain S B fl where inv: "malloc_inv A s S B fl" "has_live S fl" "L = live S B fl"
    using rep by (auto simp: malloc_rep_def)
  have ok: "base_ok A s" "arenas_ok s S B fl" "lists_ok A s S fl"
    using inv by (simp_all add: malloc_inv_def)
  have apart: "{c..<c + m} \<inter> {b..<b + n} = {}" if "(c, m) \<in> L - {(b, n)}" for c m
    using live_disjoint [OF ok(2), of c m b n] live_size [OF ok(2), of b n m] that b inv(3) by auto
  have "(b, n) \<in> live S B fl"
    using b inv(3) by simp
  then show ?thesis
  proof (cases rule: live_cases)
    case c: (small k p i)
    have sm: "small_ok s S fl p k" and k: "k < 7"
      using ok(2) c(1) by (auto simp: arenas_ok_def small_ok_def)
    have "free s b = free_small s b (4096 * p) (std_descs A ! k)"
      using block_to_arena_small [OF ok(1) sm c(2)] c(3) sm k ok(1)
      by (simp add: free_def blk_def NULL_def small_ok_def base_ok_def)
    then obtain s' S' fl' where f: "free s b = Inr s'" "malloc_inv A s' S' B fl'" "has_live S' fl'"
      "live S' B fl' = L - {(b, n)}"
      "\<And>x. ram (pages s') x \<noteq> ram (pages s) x \<Longrightarrow> x \<in> {b..<b + n} \<or> x div 4096 = p \<and> S' p = None"
      using free_small_ok [OF inv(1,2) c(1,2)] c(3,4,5) inv(3) by auto
    have "ram (pages s') x = ram (pages s) x" if cm: "(d, m) \<in> L - {(b, n)}" "x \<in> {d..<d + m}" for d m x
    proof (rule ccontr)
      assume ne: "ram (pages s') x \<noteq> ram (pages s) x"
      then have x: "x div 4096 = p" "S' p = None"
        using f(5) [OF ne] apart [OF cm(1)] cm(2) by auto
      have "(d, m) \<in> live S' B fl'"
        using cm(1) f(4) by simp
      then show False
      proof (cases rule: live_cases)
        case (small k' q j)
        then show False
          using small_region [OF small(2), of x q] cm(2) x by simp
      next
        case (big q j)
        then show False
          using big_region [of x q j] cm(2) x(1) small_not_big [OF ok(2) c(1) big(1)] by simp
      qed
    qed
    then show ?thesis
      using f(1-4) inv(3) unfolding malloc_rep_def by blast
  next
    case c: (big p j)
    obtain s' where f: "free s b = Inr s'" "malloc_inv A s' S (B(p := None)) fl" "live S (B(p := None)) fl = L - {(b, n)}"
      "\<And>x. ram (pages s') x \<noteq> ram (pages s) x \<Longrightarrow> x div 4096 \<in> {p..<p + j}"
      using free_big_ok [OF inv(1,2) c(1)] c(2,3) inv(3) by blast
    have "ram (pages s') x = ram (pages s) x" if cm: "(d, m) \<in> L - {(b, n)}" "x \<in> {d..<d + m}" for d m x
    proof (rule ccontr)
      assume "ram (pages s') x \<noteq> ram (pages s) x"
      then have x: "x div 4096 \<in> {p..<p + j}"
        by (rule f(4))
      have "(d, m) \<in> live S (B(p := None)) fl"
        using cm(1) f(3) by simp
      then show False
      proof (cases rule: live_cases)
        case (small k' q i)
        then show False
          using small_region [OF small(2), of x q] cm(2) x small_not_big [OF ok(2) small(1) c(1)] by simp
      next
        case (big q i)
        then have "q \<noteq> p" "B q = Some i"
          by (auto split: if_splits)
        then have "{q..<q + i} \<inter> {p..<p + j} = {}"
          using ok(2) c(1) unfolding arenas_ok_def by blast
        then show False
          using big_region [of x q i] cm(2) x big(2,3) by blast
      qed
    qed
    moreover have "has_live S fl"
      by (rule inv(2))
    ultimately show ?thesis
      using f(1-3) inv(3) unfolding malloc_rep_def by blast
  qed
qed

section \<open>Initialisation\<close>

lemma bsize_less: "k \<le> 7 \<Longrightarrow> bsize k < 2048 \<longleftrightarrow> k < 7"
proof -
  assume "k \<le> 7"
  moreover have "bsize k \<le> bsize 6" if "k \<le> 6"
    using that unfolding bsize_def by (intro mult_le_mono2 power_increasing) simp_all
  ultimately show ?thesis
    by (cases "k = 7") (auto simp: bsize_def)
qed

lemma init_descs_ok:
  assumes "k \<le> 7" "0 < A" "family h (map (desc_list A) [0..<k]) (replicate k [])"
  shows "\<exists>h'. init_descs A (bsize k) (take k (std_descs A)) h = Some (Inr (std_descs A, h')) \<and>
    family h' (map (desc_list A) [0..<7]) (replicate 7 [])"
  using assms
proof (induction "7 - k" arbitrary: k h)
  case 0
  then have "k = 7"
    by simp
  then show ?case
    using 0 by (simp add: init_descs.simps bsize_def)
next
  case (Suc n)
  then have k: "k < 7"
    by simp
  let ?h = "list_init h (desc_list A k)"
  have heads: "headers (map (desc_list A) [0..<k]) \<subseteq> {..<A + 48 * k}"
    by (auto simp: headers_def desc_list_def)
  have none: "concat (replicate k []) = ([] :: addr list)"
    by (induction k) simp_all
  have "family ?h (map (desc_list A) [0..<k] @ [desc_list A k]) (replicate k [] @ [[]])"
    using heads Suc.prems(2) unfolding none
    by (intro family_add [OF Suc.prems(3)]) (auto simp: desc_list_def NULL_def none)
  then have fam: "family ?h (map (desc_list A) [0..<Suc k]) (replicate (Suc k) [])"
    by (simp add: replicate_append_same)
  have "sz (bsize k * 2) = bsize (Suc k)"
    using bsize_less [of k] k by (simp add: bsize_def)
  moreover have "take (Suc k) (std_descs A) = take k (std_descs A) @
      [\<lparr>d_block_size = bsize k, d_blocks_per_arena = (4096 - ARENA_SIZE) div bsize k, d_free_list = desc_list A k\<rparr>]"
    using k by (simp add: take_Suc_conv_app_nth ARENA_SIZE_def bcount_def)
  ultimately have "init_descs A (bsize k) (take k (std_descs A)) h = init_descs A (bsize (Suc k)) (take (Suc k) (std_descs A)) ?h"
    using k bsize_less [of k] by (subst init_descs.simps) (simp add: Let_def)
  moreover have "n = 7 - Suc k"
    using Suc.hyps(2) by simp
  ultimately show ?case
    using Suc.hyps(1) [of "Suc k" ?h] fam k Suc.prems(2) by auto
qed

lemma malloc_init_ok:
  assumes "palloc_ok (pages s)" "0 < A" "A + 480 \<le> 4096 * first_page (kernel_pool (pages s))" "descs s = []"
  shows "\<exists>s'. malloc_init A s = Some (Inr s') \<and> malloc_rep A s' {}"
proof -
  have b: "bsize 0 = 16"
    by (simp add: bsize_def)
  obtain h where h: "init_descs A 16 [] (links s) = Some (Inr (std_descs A, h))" "family h (map (desc_list A) [0..<7]) (replicate 7 [])"
    using init_descs_ok [of 0 A "links s"] assms(2) unfolding b by (auto simp: family_def)
  let ?s = "s\<lparr>descs := std_descs A, links := h\<rparr>"
  have "malloc_inv A ?s Map.empty Map.empty (replicate 7 [])"
    using assms h(2) by (simp add: malloc_inv_def base_ok_def arenas_ok_def lists_ok_def)
  moreover have "live Map.empty Map.empty (replicate 7 []) = {}"
    by (simp add: live_def)
  ultimately have "malloc_rep A ?s {}"
    unfolding malloc_rep_def by (metis has_live_def option.distinct(1))
  then show ?thesis
    using h(1) assms(4) by (simp add: malloc_init_def)
qed


section \<open>A heap of byte arrays\<close>

text \<open>
  A client of an allocator: it asks for arrays, writes their cells and gives arrays back. It keeps a list of what it
  holds, the address of each array and what the array should contain.
\<close>

datatype heap_op = New nat | Drop nat | Store nat nat u8

type_synonym 's client = "'s \<times> (addr \<times> u8 list) list"

fun heap_step :: "('s \<Rightarrow> memory) \<Rightarrow> ('s \<Rightarrow> addr \<Rightarrow> u8 \<Rightarrow> 's) \<Rightarrow> ('s \<Rightarrow> nat \<Rightarrow> ('s \<times> addr) outcome) \<Rightarrow>
    ('s \<Rightarrow> addr \<Rightarrow> 's outcome) \<Rightarrow> 's client \<Rightarrow> heap_op \<Rightarrow> 's client outcome" where
  "heap_step bytes poke alloc release (s, hs) (New n) =
     kbind (alloc s n) (\<lambda>(s, r). Inr (s, if r = NULL then hs else hs @ [(r, map (bytes s) [r..<r + n])]))"
| "heap_step bytes poke alloc release (s, hs) (Drop i) =
     (if i < length hs then kbind (release s (fst (hs ! i))) (\<lambda>s. Inr (s, take i hs @ drop (i + 1) hs)) else Inr (s, hs))"
| "heap_step bytes poke alloc release (s, hs) (Store i j v) =
     (if i < length hs \<and> j < length (snd (hs ! i))
      then Inr (poke s (fst (hs ! i) + j) v, hs[i := (fst (hs ! i), (snd (hs ! i))[j := v])]) else Inr (s, hs))"

fun heap_run :: "('s \<Rightarrow> memory) \<Rightarrow> ('s \<Rightarrow> addr \<Rightarrow> u8 \<Rightarrow> 's) \<Rightarrow> ('s \<Rightarrow> nat \<Rightarrow> ('s \<times> addr) outcome) \<Rightarrow>
    ('s \<Rightarrow> addr \<Rightarrow> 's outcome) \<Rightarrow> 's client \<Rightarrow> heap_op list \<Rightarrow> 's client outcome" where
  "heap_run bytes poke alloc release c [] = Inr c"
| "heap_run bytes poke alloc release c (q # qs) =
     kbind (heap_step bytes poke alloc release c q) (\<lambda>c. heap_run bytes poke alloc release c qs)"

definition holds_arrays :: "memory \<Rightarrow> (addr \<times> u8 list) list \<Rightarrow> bool" where
  "holds_arrays m hs \<longleftrightarrow> (\<forall>(b, c)\<in>set hs. b \<noteq> NULL \<and> map m [b..<b + length c] = c) \<and>
     (\<forall>i<length hs. \<forall>j<length hs. i \<noteq> j \<longrightarrow>
       {fst (hs ! i)..<fst (hs ! i) + length (snd (hs ! i))} \<inter> {fst (hs ! j)..<fst (hs ! j) + length (snd (hs ! j))} = {})"

locale byte_heap =
  fixes rep :: "'s \<Rightarrow> (addr \<times> nat) set \<Rightarrow> bool"
    and bytes :: "'s \<Rightarrow> memory"
    and poke :: "'s \<Rightarrow> addr \<Rightarrow> u8 \<Rightarrow> 's"
    and alloc :: "'s \<Rightarrow> nat \<Rightarrow> ('s \<times> addr) outcome"
    and release :: "'s \<Rightarrow> addr \<Rightarrow> 's outcome"
    and limit :: nat
  assumes apart: "rep s L \<Longrightarrow> (b, n) \<in> L \<Longrightarrow> (c, m) \<in> L \<Longrightarrow> b \<noteq> c \<Longrightarrow> {b..<b + n} \<inter> {c..<c + m} = {}"
    and nonnull: "rep s L \<Longrightarrow> (b, n) \<in> L \<Longrightarrow> b \<noteq> NULL"
    and alloc_ok: "rep s L \<Longrightarrow> n \<le> limit \<Longrightarrow> \<exists>s' r. alloc s n = Inr (s', r) \<and> bytes s' = bytes s \<and>
      (if r = NULL then rep s' L else \<exists>m\<ge>n. r \<notin> fst ` L \<and> rep s' (insert (r, m) L))"
    and release_ok: "rep s L \<Longrightarrow> (b, n) \<in> L \<Longrightarrow> \<exists>s'. release s b = Inr s' \<and> rep s' (L - {(b, n)}) \<and>
      (\<forall>(c, m)\<in>L - {(b, n)}. \<forall>x\<in>{c..<c + m}. bytes s' x = bytes s x)"
    and poke_ok: "rep s L \<Longrightarrow> rep (poke s x v) L" "bytes (poke s x v) = (bytes s)(x := v)"
begin

text \<open>Each array that the client holds lies in a block of its own and has the contents that the client expects.\<close>

definition client_ok :: "'s client \<Rightarrow> bool" where
  "client_ok c \<longleftrightarrow> distinct (map fst (snd c)) \<and>
     (\<exists>L. rep (fst c) L \<and> (\<forall>(b, d)\<in>set (snd c). map (bytes (fst c)) [b..<b + length d] = d \<and> (\<exists>n. (b, n) \<in> L \<and> length d \<le> n)))"

lemma client_okI:
  assumes "rep s L" "distinct (map fst hs)"
    and "\<And>b d. (b, d) \<in> set hs \<Longrightarrow> map (bytes s) [b..<b + length d] = d \<and> (\<exists>n. (b, n) \<in> L \<and> length d \<le> n)"
  shows "client_ok (s, hs)"
  using assms unfolding client_ok_def by auto

lemma client_okE:
  assumes "client_ok (s, hs)"
  obtains L where "rep s L" "distinct (map fst hs)"
    "\<forall>b d. (b, d) \<in> set hs \<longrightarrow> map (bytes s) [b..<b + length d] = d \<and> (\<exists>n. (b, n) \<in> L \<and> length d \<le> n)"
  using assms unfolding client_ok_def fst_conv snd_conv by (elim conjE exE) (rule, auto)

lemma step_New:
  assumes c: "client_ok (s, hs)" and n: "n \<le> limit"
  shows "\<exists>c'. heap_step bytes poke alloc release (s, hs) (New n) = Inr c' \<and> client_ok c'"
proof -
  obtain L where L: "rep s L" "distinct (map fst hs)"
    "\<forall>b d. (b, d) \<in> set hs \<longrightarrow> map (bytes s) [b..<b + length d] = d \<and> (\<exists>n. (b, n) \<in> L \<and> length d \<le> n)"
    using c by (rule client_okE)
  note L3 = L(3) [rule_format]
  obtain s' r where r: "alloc s n = Inr (s', r)" "bytes s' = bytes s"
    "if r = NULL then rep s' L else \<exists>m\<ge>n. r \<notin> fst ` L \<and> rep s' (insert (r, m) L)"
    using alloc_ok [OF L(1) n] by blast
  show ?thesis
  proof (cases "r = NULL")
    case True
    then have "client_ok (s', hs)"
      using r(2,3) L(2) L3 by (intro client_okI) auto
    then show ?thesis
      using True r(1) by simp
  next
    case False
    then obtain m where m: "n \<le> m" "r \<notin> fst ` L" "rep s' (insert (r, m) L)"
      using r(3) by auto
    have "r \<notin> fst ` set hs"
      using L3 m(2) by force
    moreover have "map (bytes s') [b..<b + length d] = d \<and> (\<exists>k. (b, k) \<in> insert (r, m) L \<and> length d \<le> k)"
      if "(b, d) \<in> set (hs @ [(r, map (bytes s') [r..<r + n])])" for b d
      using that L3 [of b d] m(1) r(2) by (cases "(b, d) \<in> set hs") (metis insertCI, auto)
    ultimately have "client_ok (s', hs @ [(r, map (bytes s') [r..<r + n])])"
      using L(2) m(3) by (intro client_okI [of _ "insert (r, m) L"]) auto
    then show ?thesis
      using False r(1) by simp
  qed
qed

lemma step_Drop:
  assumes c: "client_ok (s, hs)"
  shows "\<exists>c'. heap_step bytes poke alloc release (s, hs) (Drop i) = Inr c' \<and> client_ok c'"
proof (cases "i < length hs")
  case True
  obtain L where L: "rep s L" "distinct (map fst hs)"
    "\<forall>b d. (b, d) \<in> set hs \<longrightarrow> map (bytes s) [b..<b + length d] = d \<and> (\<exists>n. (b, n) \<in> L \<and> length d \<le> n)"
    using c by (rule client_okE)
  note L3 = L(3) [rule_format]
  have sp: "hs = take i hs @ hs ! i # drop (i + 1) hs"
    using True by (simp add: id_take_nth_drop)
  let ?hs = "take i hs @ drop (i + 1) hs"
  obtain b d where bd: "hs ! i = (b, d)"
    by (cases "hs ! i")
  have sub: "set ?hs \<subseteq> set hs" and new: "b \<notin> fst ` set ?hs" and dist: "distinct (map fst ?hs)"
  proof -
    have "map fst hs = map fst (take i hs) @ b # map fst (drop (i + 1) hs)"
      using arg_cong [OF sp, of "map fst"] bd by simp
    then have "distinct (map fst (take i hs) @ b # map fst (drop (i + 1) hs))"
      using L(2) by simp
    then show "b \<notin> fst ` set ?hs" "distinct (map fst ?hs)"
      by auto
    show "set ?hs \<subseteq> set hs"
      using set_take_subset [of i hs] set_drop_subset [of "i + 1" hs] by auto
  qed
  obtain n where n: "(b, n) \<in> L"
    using L3 [of b d] True bd nth_mem by metis
  obtain s' where s': "release s b = Inr s'" "rep s' (L - {(b, n)})"
    "\<And>e m x. (e, m) \<in> L - {(b, n)} \<Longrightarrow> x \<in> {e..<e + m} \<Longrightarrow> bytes s' x = bytes s x"
    using release_ok [OF L(1) n] by blast
  have "map (bytes s') [e..<e + length f] = f \<and> (\<exists>n'. (e, n') \<in> L - {(b, n)} \<and> length f \<le> n')"
    if ef: "(e, f) \<in> set ?hs" for e f
  proof -
    have "e \<noteq> b"
      using ef new by force
    then obtain n' where n': "(e, n') \<in> L - {(b, n)}" "length f \<le> n'" "map (bytes s) [e..<e + length f] = f"
      using L3 [of e f] ef sub by blast
    then have "map (bytes s') [e..<e + length f] = map (bytes s) [e..<e + length f]"
      using s'(3) [OF n'(1)] n'(2) by (intro map_cong) auto
    then show ?thesis
      using n' by auto
  qed
  then have "client_ok (s', ?hs)"
    by (intro client_okI [OF s'(2) dist])
  then show ?thesis
    using True s'(1) bd by simp
qed (use c in simp)

lemma step_Store:
  assumes c: "client_ok (s, hs)"
  shows "\<exists>c'. heap_step bytes poke alloc release (s, hs) (Store i j v) = Inr c' \<and> client_ok c'"
proof (cases "i < length hs \<and> j < length (snd (hs ! i))")
  case True
  obtain L where L: "rep s L" "distinct (map fst hs)"
    "\<forall>b d. (b, d) \<in> set hs \<longrightarrow> map (bytes s) [b..<b + length d] = d \<and> (\<exists>n. (b, n) \<in> L \<and> length d \<le> n)"
    using c by (rule client_okE)
  note L3 = L(3) [rule_format]
  obtain b d where bd: "hs ! i = (b, d)"
    by (cases "hs ! i")
  have j: "i < length hs" "j < length d"
    using True bd by simp_all
  have mem: "(b, d) \<in> set hs"
    using j(1) bd nth_mem by metis
  obtain n where n: "(b, n) \<in> L" "length d \<le> n" "map (bytes s) [b..<b + length d] = d"
    using L3 [OF mem] by blast
  let ?s = "poke s (b + j) v" and ?hs = "hs[i := (b, d[j := v])]"
  have fst: "map fst ?hs = map fst hs"
    using j(1) bd by (metis fst_conv list_update_id map_update)
  have "map (bytes ?s) [e..<e + length f] = f \<and> (\<exists>n. (e, n) \<in> L \<and> length f \<le> n)" if ef: "(e, f) \<in> set ?hs" for e f
  proof (cases "e = b")
    case True
    have "(b, d[j := v]) \<in> set ?hs"
      using j(1) by (simp add: set_update_memI)
    then have "f = d[j := v]"
      using ef True L(2) fst by (metis eq_key_imp_eq_value)
    moreover have "map (bytes ?s) [b..<b + length d] = d[j := v]"
    proof (rule nth_equalityI)
      fix k
      assume "k < length (map (bytes ?s) [b..<b + length d])"
      moreover from this have "bytes s (b + k) = d ! k"
        using n(3) by (metis add_diff_cancel_left' length_map length_upt nth_map nth_upt nat_add_left_cancel_less)
      ultimately show "map (bytes ?s) [b..<b + length d] ! k = d[j := v] ! k"
        by (simp add: poke_ok(2) nth_list_update)
    qed simp
    ultimately show ?thesis
      using True n(1,2) by auto
  next
    case False
    then have "(e, f) \<in> set hs"
      using ef set_update_subset_insert [of hs i "(b, d[j := v])"] by blast
    then obtain m where m: "(e, m) \<in> L" "length f \<le> m" "map (bytes s) [e..<e + length f] = f"
      using L3 by blast
    have "b + j \<notin> {e..<e + m}"
      using apart [OF L(1) n(1) m(1)] False j(2) n(2) by auto
    then have "map (bytes ?s) [e..<e + length f] = map (bytes s) [e..<e + length f]"
      using m(2) by (auto simp: poke_ok(2))
    then show ?thesis
      using m by auto
  qed
  then have "client_ok (?s, ?hs)"
    using L(2) fst by (intro client_okI [OF poke_ok(1) [OF L(1)]]) auto
  then show ?thesis
    using True bd by simp
qed (use c in auto)

lemma run_client_ok:
  "client_ok c \<Longrightarrow> (\<forall>n. New n \<in> set qs \<longrightarrow> n \<le> limit) \<Longrightarrow>
   \<exists>c'. heap_run bytes poke alloc release c qs = Inr c' \<and> client_ok c'"
proof (induction qs arbitrary: c)
  case (Cons q qs)
  obtain s hs where sh: "c = (s, hs)"
    by (cases c)
  have "\<exists>c'. heap_step bytes poke alloc release c q = Inr c' \<and> client_ok c'"
    using Cons.prems step_New step_Drop step_Store unfolding sh by (cases q) (metis list.set_intros(1))+
  then obtain c' where c': "heap_step bytes poke alloc release c q = Inr c'" "client_ok c'"
    by blast
  then show ?case
    using Cons.IH [OF c'(2)] Cons.prems(2) by simp
qed simp

lemma client_ok_holds: "client_ok (s, hs) \<Longrightarrow> holds_arrays (bytes s) hs"
proof -
  assume "client_ok (s, hs)"
  then obtain L where L: "rep s L" "distinct (map fst hs)"
    "\<forall>b d. (b, d) \<in> set hs \<longrightarrow> map (bytes s) [b..<b + length d] = d \<and> (\<exists>n. (b, n) \<in> L \<and> length d \<le> n)"
    by (rule client_okE)
  note L3 = L(3) [rule_format]
  have "{fst (hs ! i)..<fst (hs ! i) + length (snd (hs ! i))} \<inter> {fst (hs ! j)..<fst (hs ! j) + length (snd (hs ! j))} = {}"
    if ij: "i < length hs" "j < length hs" "i \<noteq> j" for i j
  proof -
    obtain n m where "(fst (hs ! i), n) \<in> L" "length (snd (hs ! i)) \<le> n" "(fst (hs ! j), m) \<in> L" "length (snd (hs ! j)) \<le> m"
      using L3 ij(1,2) by (metis nth_mem prod.collapse)
    moreover have "fst (hs ! i) \<noteq> fst (hs ! j)"
      using L(2) ij by (metis distinct_conv_nth length_map nth_map)
    ultimately show ?thesis
      using apart [OF L(1)] by fastforce
  qed
  then show ?thesis
    using L(1) L3 nonnull [OF L(1)] unfolding holds_arrays_def by blast
qed

lemma run_holds:
  assumes "rep s {}" "\<forall>n. New n \<in> set qs \<longrightarrow> n \<le> limit"
  shows "\<exists>s' hs. heap_run bytes poke alloc release (s, []) qs = Inr (s', hs) \<and> holds_arrays (bytes s') hs"
proof -
  have "client_ok (s, [])"
    using assms(1) by (intro client_okI) auto
  then show ?thesis
    using run_client_ok [OF _ assms(2)] client_ok_holds by (metis surj_pair)
qed

end

section \<open>The block allocator is such a heap\<close>

definition block_bytes :: "mstate \<Rightarrow> memory" where
  "block_bytes s = ram (pages s)"

definition poke_byte :: "mstate \<Rightarrow> addr \<Rightarrow> u8 \<Rightarrow> mstate" where
  "poke_byte s x v = set_bytes s ((ram (pages s))(x := v))"

lemma malloc_rep_bytes [simp]: "malloc_rep A (set_bytes s m) L = malloc_rep A s L"
  by (simp add: malloc_rep_def)

lemma malloc_rep_apart:
  assumes "malloc_rep A s L" "(b, n) \<in> L" "(c, m) \<in> L" "b \<noteq> c"
  shows "{b..<b + n} \<inter> {c..<c + m} = {}"
  using assms live_disjoint unfolding malloc_rep_def malloc_inv_def by blast

lemma malloc_rep_nonnull: "malloc_rep A s L \<Longrightarrow> (b, n) \<in> L \<Longrightarrow> b \<noteq> NULL"
  using live_page(2) unfolding malloc_rep_def malloc_inv_def by blast

interpretation blocks: byte_heap "malloc_rep A" block_bytes poke_byte malloc free 4294967284
  using malloc_rep_apart [of A] malloc_rep_nonnull [of A] malloc_ok [of A] free_ok [of A]
  by unfold_locales (auto simp: block_bytes_def poke_byte_def set_bytes_def [symmetric], simp_all add: set_bytes_def)


section \<open>Cleared and resized blocks\<close>

lemma malloc_rep_size: "malloc_rep A s L \<Longrightarrow> (b, n) \<in> L \<Longrightarrow> (b, m) \<in> L \<Longrightarrow> n = m"
  using live_size unfolding malloc_rep_def malloc_inv_def by blast

lemma block_size_ok:
  assumes "malloc_rep A s L" "(b, n) \<in> L"
  shows "block_size s b = Inr n"
proof -
  obtain S B fl where inv: "malloc_inv A s S B fl" "L = live S B fl"
    using assms(1) by (auto simp: malloc_rep_def)
  have ok: "base_ok A s" "arenas_ok s S B fl"
    using inv by (simp_all add: malloc_inv_def)
  have "(b, n) \<in> live S B fl"
    using assms(2) inv(2) by simp
  then show ?thesis
  proof (cases rule: live_cases)
    case (small k p i)
    then have sm: "small_ok s S fl p k"
      using ok(2) by (simp add: arenas_ok_def)
    then show ?thesis
      using block_to_arena_small [OF ok(1) sm small(2)] small ok(1) by (simp add: block_size_def small_ok_def base_ok_def)
  next
    case (big p j)
    then have bg: "big_ok s S p j"
      using ok(2) by (simp add: arenas_ok_def)
    have used: "{p..<p + j} \<subseteq> pages_used (pages s)" "0 < j" "palloc_ok (pages s)" "0 < p"
      using bg ok(1) by (simp_all add: big_ok_def base_ok_def)
    have "p + j - 1 \<in> {p..<p + j}"
      using used(2) by simp
    then have last: "p + j - 1 < 1048576"
      using used(1,3) pages_used_bound by blast
    then have j: "j < 1048576"
      using used(4) by simp
    have "unat (pg_ofs (of_nat b)) = 12"
      using addr_page(2) [of b] last used(2) big(2) by simp
    then have "sz (sz (4096 * j) + 4294967296 - unat (pg_ofs (of_nat b))) = n"
      using j used(2) big(3) by (simp add: sz_def mod_if)
    then show ?thesis
      using block_to_arena_big [OF ok(1) bg] bg big(2) by (simp add: block_size_def big_ok_def)
  qed
qed


definition same_contents :: "(addr \<times> nat) set \<Rightarrow> mstate \<Rightarrow> mstate \<Rightarrow> bool" where
  "same_contents L s s' \<longleftrightarrow> (\<forall>(c, m)\<in>L. \<forall>x\<in>{c..<c + m}. block_bytes s' x = block_bytes s x)"

lemma same_contentsI:
  "(\<And>c m x. (c, m) \<in> L \<Longrightarrow> x \<in> {c..<c + m} \<Longrightarrow> block_bytes s' x = block_bytes s x) \<Longrightarrow> same_contents L s s'"
  by (auto simp: same_contents_def)

lemma same_contents_eq: "block_bytes s' = block_bytes s \<Longrightarrow> same_contents L s s'"
  by (simp add: same_contents_def)

lemma calloc_ok:
  assumes rep: "malloc_rep A s L" and ab: "a * b \<le> 4294967284"
  shows "\<exists>s' r. calloc s a b = Inr (s', r) \<and>
    (if r = NULL then malloc_rep A s' L
     else \<exists>m\<ge>a * b. r \<notin> fst ` L \<and> malloc_rep A s' (insert (r, m) L) \<and> (\<forall>x\<in>{r..<r + a * b}. block_bytes s' x = 0)) \<and> same_contents L s s'"
proof (cases "a * b < a \<or> a * b < b")
  case True
  then have "calloc s a b = Inr (s, NULL)"
    using ab by (simp add: calloc_def)
  then show ?thesis
    using rep by (simp add: same_contents_eq)
next
  case False
  obtain s1 r where r: "malloc s (a * b) = Inr (s1, r)" "ram (pages s1) = ram (pages s)"
    "if r = NULL then malloc_rep A s1 L else \<exists>m\<ge>a * b. r \<notin> fst ` L \<and> malloc_rep A s1 (insert (r, m) L)"
    using malloc_ok [OF rep ab] by blast
  show ?thesis
  proof (cases "r = NULL")
    case True
    then show ?thesis
      using r False ab by (intro exI [of _ s1] exI [of _ NULL]) (auto simp: calloc_def Let_def block_bytes_def same_contents_eq)
  next
    case r0: False
    then obtain m where m: "a * b \<le> m" "r \<notin> fst ` L" "malloc_rep A s1 (insert (r, m) L)"
      using r(3) by auto
    define s2 where "s2 = set_bytes s1 (\<lambda>x. if r \<le> x \<and> x < r + a * b then ucast (0 :: u32) else ram (pages s) x)"
    have "calloc s a b = Inr (s2, r)"
      using False ab r(1,2) r0 memset_bytes [OF r0] by (auto simp: calloc_def Let_def s2_def)
    moreover have "malloc_rep A s2 (insert (r, m) L)"
      using m(3) by (simp add: s2_def)
    moreover have "same_contents L s s2"
    proof (rule same_contentsI)
      fix c k x
      assume cx: "(c, k) \<in> L" "x \<in> {c..<c + k}"
      have "r \<noteq> c"
        using m(2) cx(1) by force
      then have "x \<notin> {r..<r + m}"
        using malloc_rep_apart [OF m(3), of r m c k] cx by auto
      then show "block_bytes s2 x = block_bytes s x"
        using m(1) by (auto simp: block_bytes_def s2_def set_bytes_def)
    qed
    moreover have "\<forall>x\<in>{r..<r + a * b}. block_bytes s2 x = 0"
      by (simp add: block_bytes_def s2_def set_bytes_def)
    ultimately show ?thesis
      using r0 m(1,2) by (intro exI [of _ s2] exI [of _ r]) auto
  qed
qed

lemma realloc_ok:
  assumes rep: "malloc_rep A s L" and old: "(b, n) \<in> L" and k: "0 < k" "k \<le> 4294967284"
  shows "\<exists>s' r. realloc s b k = Inr (s', r) \<and>
    (if r = NULL then malloc_rep A s' L \<and> block_bytes s' = block_bytes s
     else \<exists>m\<ge>k. r \<notin> fst ` L \<and> malloc_rep A s' (insert (r, m) (L - {(b, n)})) \<and>
       (\<forall>i<min k n. block_bytes s' (r + i) = block_bytes s (b + i))) \<and> same_contents (L - {(b, n)}) s s'"
proof -
  obtain s1 r where r: "malloc s k = Inr (s1, r)" "ram (pages s1) = ram (pages s)"
    "if r = NULL then malloc_rep A s1 L else \<exists>m\<ge>k. r \<notin> fst ` L \<and> malloc_rep A s1 (insert (r, m) L)"
    using malloc_ok [OF rep k(2)] by blast
  have b0: "b \<noteq> NULL"
    using malloc_rep_nonnull [OF rep old] .
  show ?thesis
  proof (cases "r = NULL")
    case True
    then show ?thesis
      using r k(1) by (simp add: realloc_def block_bytes_def same_contents_eq)
  next
    case r0: False
    then obtain m where m: "k \<le> m" "r \<notin> fst ` L" "malloc_rep A s1 (insert (r, m) L)"
      using r(3) by auto
    have rb: "r \<noteq> b"
      using m(2) old by force
    let ?n = "min k n" and ?L = "insert (r, m) L"
    define mv where "mv = moved (ram (pages s)) r b ?n"
    have dis: "{r..<r + m} \<inter> {b..<b + n} = {}"
      using malloc_rep_apart [OF m(3), of r m b n] old rb by simp
    have order: "r \<le> b \<or> b + ?n \<le> r"
    proof (rule ccontr)
      assume "\<not> ?thesis"
      then have "r \<in> {r..<r + m} \<inter> {b..<b + n}"
        using m(1) k(1) by auto
      then show False
        using dis by blast
    qed
    have cp: "memcpy (ram (pages s)) r b ?n = Inr (mv, r)"
      unfolding mv_def by (rule memcpy_moved) (use r0 b0 order in auto)
    have rep1: "malloc_rep A (set_bytes s1 mv) ?L"
      using m(3) by simp
    obtain s2 where s2: "free (set_bytes s1 mv) b = Inr s2" "malloc_rep A s2 (?L - {(b, n)})"
      "\<forall>(c, j)\<in>?L - {(b, n)}. \<forall>x\<in>{c..<c + j}. ram (pages s2) x = ram (pages (set_bytes s1 mv)) x"
      using free_ok [OF rep1, of b n] old by blast
    have kept: "block_bytes s2 x = mv x" if "(c, j) \<in> ?L - {(b, n)}" "x \<in> {c..<c + j}" for c j x
      using s2(3) that by (fastforce simp: block_bytes_def set_bytes_def)
    have "block_size s1 b = Inr n"
      using block_size_ok [OF m(3), of b n] old by simp
    moreover have "(if k < n then k else n) = ?n"
      by (simp add: min_def)
    ultimately have "realloc s b k = Inr (s2, r)"
      using k(1) r(1,2) b0 r0 cp s2(1) by (simp add: realloc_def)
    moreover have "?L - {(b, n)} = insert (r, m) (L - {(b, n)})"
      using rb by auto
    moreover have "block_bytes s2 (r + i) = block_bytes s (b + i)" if "i < ?n" for i
      using kept [of r m "r + i"] that m(1) rb by (simp add: mv_def moved_def block_bytes_def)
    moreover have "same_contents (L - {(b, n)}) s s2"
    proof (rule same_contentsI)
      fix c j x
      assume cx: "(c, j) \<in> L - {(b, n)}" "x \<in> {c..<c + j}"
      have "r \<noteq> c"
        using m(2) cx(1) by force
      then have "x \<notin> {r..<r + m}"
        using malloc_rep_apart [OF m(3), of r m c j] cx by auto
      then show "block_bytes s2 x = block_bytes s x"
        using kept [of c j x] cx m(1) by (auto simp: mv_def moved_def block_bytes_def)
    qed
    ultimately show ?thesis
      using r0 m(1,2) s2(2) by (intro exI [of _ s2] exI [of _ r]) auto
  qed
qed

section \<open>Properties\<close>

text \<open>
  C30. The block allocator implements a heap of byte arrays. After \<^verbatim>\<open>malloc_init\<close>, which returns, a client
  may allocate arrays with \<^verbatim>\<open>malloc\<close>, write their cells and release them with \<^verbatim>\<open>free\<close> in any order: every call
  returns without a failing assertion, whether memory is found or not, no two arrays that the client holds overlap, and
  each has the contents that the client has written. Sizes are at most 0xfffffff4.
\<close>

theorem malloc_refines_arrays:
  assumes "palloc_ok (pages s)" "0 < A" "A + 480 \<le> 4096 * first_page (kernel_pool (pages s))" "descs s = []"
    and "\<forall>n. New n \<in> set qs \<longrightarrow> n \<le> 4294967284"
  shows "\<exists>s1 s2 hs. malloc_init A s = Some (Inr s1) \<and> heap_run block_bytes poke_byte malloc free (s1, []) qs = Inr (s2, hs) \<and>
    holds_arrays (block_bytes s2) hs"
  using malloc_init_ok [OF assms(1-4)] blocks.run_holds [OF _ assms(5)] by blast

definition ex_mstate :: mstate where
  "ex_mstate = \<lparr>descs = [], arenas = (\<lambda>_. \<lparr>a_magic = 0, a_desc = None, a_free_cnt = 0\<rparr>),
     links = (\<lambda>_. \<lparr>prv = 0, nxt = 0\<rparr>), pages = ex_palloc\<rparr>"

lemma ex_mstate_ok:
  "palloc_ok (pages ex_mstate)" "descs ex_mstate = []"
  "64 + 480 \<le> 4096 * first_page (kernel_pool (pages ex_mstate))"
  using ex_palloc_ok by (simp_all add: ex_mstate_def ex_palloc_def first_page_def pg_no_def layout)

theorem malloc_refines_arrays_witness:
  "\<exists>s1 s2 hs. malloc_init 64 ex_mstate = Some (Inr s1) \<and>
     heap_run block_bytes poke_byte malloc free (s1, []) [New 20, New 20, Store 1 3 7, Drop 0, New 5000] = Inr (s2, hs) \<and>
     holds_arrays (block_bytes s2) hs"
  by (rule malloc_refines_arrays [OF ex_mstate_ok(1) _ ex_mstate_ok(3,2)]) auto

text \<open>
  \<^verbatim>\<open>calloc\<close> returns a null pointer or a new block of at least the product of its arguments whose bytes are zero,
  when the product is at most 0xfffffff4. \<^verbatim>\<open>realloc\<close> of a block in use returns a null pointer, and then
  changes nothing that is in use, or a new block with the contents of the old one, which is then free, up
  to the smaller of the two sizes. Both leave the contents of all other blocks alone.
\<close>

theorem calloc_realloc_correct:
  assumes "malloc_rep A s L" "a * b \<le> 4294967284" "(p, n) \<in> L" "0 < k" "k \<le> 4294967284"
  shows "(\<exists>s' r. calloc s a b = Inr (s', r) \<and> same_contents L s s' \<and>
      (if r = NULL then malloc_rep A s' L
       else \<exists>m\<ge>a * b. r \<notin> fst ` L \<and> malloc_rep A s' (insert (r, m) L) \<and> (\<forall>x\<in>{r..<r + a * b}. block_bytes s' x = 0))) \<and>
    (\<exists>s' r. realloc s p k = Inr (s', r) \<and> same_contents (L - {(p, n)}) s s' \<and>
      (if r = NULL then malloc_rep A s' L \<and> block_bytes s' = block_bytes s
       else \<exists>m\<ge>k. r \<notin> fst ` L \<and> malloc_rep A s' (insert (r, m) (L - {(p, n)})) \<and>
         (\<forall>i<min k n. block_bytes s' (r + i) = block_bytes s (p + i))))"
  using calloc_ok [OF assms(1,2)] realloc_ok [OF assms(1,3-5)] by blast

definition ex_block :: "heap \<Rightarrow> mstate" where
  "ex_block h = \<lparr>descs = std_descs 64, arenas = (\<lambda>_. \<lparr>a_magic = ARENA_MAGIC, a_desc = None, a_free_cnt = 1\<rparr>),
     links = h, pages = ex_palloc\<rparr>"

lemma ex_block_rep: "\<exists>h. malloc_rep 64 (ex_block h) {(3222278156, 4084)}"
proof -
  have "family (\<lambda>_. \<lparr>prv = 0, nxt = 0\<rparr>) (map (desc_list 64) [0..<0]) (replicate 0 [])"
    by (simp add: family_def)
  then obtain h where h: "family h (map (desc_list 64) [0..<7]) (replicate 7 [])"
    using init_descs_ok [of 0 64] by auto
  let ?B = "[786689 \<mapsto> 1]" and ?s = "ex_block h"
  have fp: "first_page (kernel_pool ex_palloc) = 786689"
    by (simp add: ex_palloc_def first_page_def pg_no_def layout)
  have used: "786689 \<in> pages_used ex_palloc"
    using mem_pool_used(1) [of "kernel_pool ex_palloc" 0] unfolding fp pages_used_def
    by (simp add: ex_palloc_def bools_def)
  have "base_ok 64 ?s" "lists_ok 64 ?s Map.empty (replicate 7 [])"
    using ex_palloc_ok fp h by (simp_all add: base_ok_def lists_ok_def ex_block_def)
  moreover have "{786689..<786689 + 1} = {786689 :: nat}"
    by auto
  then have "arenas_ok ?s Map.empty ?B (replicate 7 [])"
    using used fp by (auto simp: arenas_ok_def big_ok_def ex_block_def split: if_splits)
  moreover have "live Map.empty ?B (replicate 7 []) = {(3222278156, 4084)}"
    by (auto simp: live_def)
  ultimately show ?thesis
    unfolding malloc_rep_def malloc_inv_def by (metis has_live_def option.distinct(1))
qed

theorem calloc_realloc_correct_witness:
  "\<exists>s s' r s'' q. malloc_rep 64 s {(3222278156, 4084)} \<and> calloc s 3 5 = Inr (s', r) \<and>
     same_contents {(3222278156, 4084)} s s' \<and> realloc s 3222278156 100 = Inr (s'', q) \<and>
     (q \<noteq> NULL \<longrightarrow> block_bytes s'' (q + 99) = block_bytes s 3222278255)"
proof -
  obtain h where rep: "malloc_rep 64 (ex_block h) {(3222278156, 4084)}"
    using ex_block_rep by blast
  have "(3222278156, 4084) \<in> {(3222278156, 4084) :: addr \<times> nat}"
    by simp
  from calloc_realloc_correct [OF rep, of 3 5, OF _ this, of 100]
  obtain s' r s'' q where c: "calloc (ex_block h) 3 5 = Inr (s', r)" "same_contents {(3222278156, 4084)} (ex_block h) s'"
    "realloc (ex_block h) 3222278156 100 = Inr (s'', q)"
    "q \<noteq> NULL \<Longrightarrow> \<forall>i<min 100 4084. block_bytes s'' (q + i) = block_bytes (ex_block h) (3222278156 + i)"
    by (auto split: if_splits)
  have "q \<noteq> NULL \<longrightarrow> block_bytes s'' (q + 99) = block_bytes (ex_block h) 3222278255"
    using c(4) by (auto dest!: spec [of _ 99])
  with rep c(1-3) show ?thesis
    by blast
qed

text \<open>
  C32. Sizes that wrap around. For a size of more than 0xfffffff4 the sum with the size of an arena header wraps, so that \<^verbatim>\<open>malloc\<close>
  gives out a single page, with room for 4084 bytes, whenever a page is free; and \<^verbatim>\<open>calloc\<close> compares the wrapped
  product with its factors only, so that it allocates 131073 bytes for 65537 times 65537.
\<close>

theorem allocation_wraps:
  assumes "malloc_rep A s L" "4294967285 \<le> n" "n < 4294967296" "run_of_pages (pages s) 1"
  shows "(\<exists>s' r. malloc s n = Inr (s', r) \<and> r \<noteq> NULL \<and> malloc_rep A s' (insert (r, 4084) L)) \<and>
    calloc s 65537 65537 = kbind (malloc s 131073) (\<lambda>(s, p).
      if p \<noteq> NULL then kbind (memset (ram (pages s)) p 0 131073) (\<lambda>(m, _). Inr (set_bytes s m, p)) else Inr (s, p))"
proof -
  have ds: "descs s = std_descs A"
    using assms(1) by (auto simp: malloc_rep_def malloc_inv_def base_ok_def)
  define k where "k = find_desc (std_descs A) n 0"
  have "k \<le> 7 \<and> (k < 7 \<longrightarrow> n \<le> bsize k)"
    using find_desc_ok [of 0 "std_descs A" n] by (auto simp: k_def)
  then have "k = 7"
    using bsize_less [of k] assms(2) by (cases "k = 7") auto
  then have m: "malloc s n = malloc_big s n"
    using assms(2) by (simp add: malloc_def ds k_def)
  have "sz (n + 12) = n + 12 - 4294967296"
    using assms(2,3) by (simp add: sz_def mod_if)
  then have "DIV_ROUND_UP (sz (n + ARENA_SIZE)) 4096 = (n + 12 - 4294967296 + 4095) div 4096"
    using assms(2,3) by (simp add: DIV_ROUND_UP_def ARENA_SIZE_def)
  also have "\<dots> = 1"
    using assms(2,3) by (intro div_nat_eqI) auto
  finally have "\<exists>s' r. malloc s n = Inr (s', r) \<and> r \<noteq> NULL \<and> malloc_rep A s' (insert (r, 4084) L)"
    using malloc_big_rep [OF assms(1), of n] assms(4) unfolding m by (auto split: if_splits)
  moreover have "sz (65537 * 65537) = 131073"
    by (simp add: sz_def)
  ultimately show ?thesis
    by (simp add: calloc_def)
qed

theorem allocation_wraps_witness:
  "\<exists>s s' r. malloc s 4294967295 = Inr (s', r) \<and> r \<noteq> NULL \<and> malloc_rep 64 s' {(r, 4084), (3222278156, 4084)}"
proof -
  obtain h where rep: "malloc_rep 64 (ex_block h) {(3222278156, 4084)}"
    using ex_block_rep by blast
  have "run_of_pages (pages (ex_block h)) 1"
    unfolding run_of_pages_def by (intro exI [of _ 1]) (simp add: ex_block_def ex_palloc_def has_run_def bools_def bit_1_iff)
  with allocation_wraps [OF rep, of 4294967295] show ?thesis
    by auto
qed

end
