(* ===== verification/Intq.thy ===== *)
theory Intq
  imports Prelude
begin

text \<open>
  Interrupt queues (\<^verbatim>\<open>devices/intq.c\<close>) and the input buffer (\<^verbatim>\<open>devices/input.c\<close>): a ring of 64 bytes shared by
  kernel threads and interrupt handlers. Its functions run with interrupts off, so that a thread runs from one
  point where it blocks to the next in one step: it blocks in \<^verbatim>\<open>lock_acquire\<close> when another thread holds the lock of the
  queue, and in \<open>wait\<close>. The steps of any number of threads and of interrupt handlers interleave. Shown: the
  queue is first in, first out, no wake-up is lost, and with one thread no assertion fails; with two
  threads the assertion in \<open>wait\<close> can fail.
\<close>

section \<open>The queue\<close>

definition INTQ_BUFSIZE :: nat where "INTQ_BUFSIZE = 64"

text \<open>The lock is a semaphore with the queue of the threads that wait for it. A null pointer is \<^const>\<open>None\<close>.\<close>

record intq =
  lock_value :: nat
  lock_waiters :: "nat list"
  not_full :: "nat option"
  not_empty :: "nat option"
  q_buf :: "u8 list"
  q_head :: nat
  q_tail :: nat

datatype condition = Not_full | Not_empty

datatype call = Getc | Putc u8

text \<open>
  Where a thread is: not suspended in a call, blocked in or woken up from \<^verbatim>\<open>lock_acquire\<close>, blocked in or woken up from \<open>wait\<close>.
  \<open>level_off\<close> and \<open>context\<close> are the answers of \<^verbatim>\<open>intr_get_level\<close> (off) and \<^verbatim>\<open>intr_context\<close>.
\<close>

datatype place = Running | Lock_wait call | Lock_ready call | Cond_wait call | Cond_ready call

record intr_env =
  level_off :: bool
  in_context :: bool

record qsys =
  que :: intq
  at :: "nat \<Rightarrow> place"
  taken :: "u8 list"    \<comment> \<open>the bytes returned so far\<close>
  added :: "u8 list"    \<comment> \<open>the bytes added so far\<close>

definition intq_next :: "nat \<Rightarrow> nat" where
  "intq_next pos = (pos + 1) mod INTQ_BUFSIZE"

definition intq_init :: "u8 list \<Rightarrow> intq" where
  "intq_init mem = \<lparr>lock_value = 1, lock_waiters = [], not_full = None, not_empty = None, q_buf = mem, q_head = 0, q_tail = 0\<rparr>"

definition intq_empty :: "intr_env \<Rightarrow> intq \<Rightarrow> bool outcome" where
  "intq_empty e q = kbind (kassert (level_off e)) (\<lambda>_. Inr (q_head q = q_tail q))"

definition intq_full :: "intr_env \<Rightarrow> intq \<Rightarrow> bool outcome" where
  "intq_full e q = kbind (kassert (level_off e)) (\<lambda>_. Inr (intq_next (q_head q) = q_tail q))"

fun awaits :: "intr_env \<Rightarrow> intq \<Rightarrow> condition \<Rightarrow> bool outcome" where
  "awaits e q Not_empty = intq_empty e q"
| "awaits e q Not_full = intq_full e q"

fun waiter :: "condition \<Rightarrow> intq \<Rightarrow> nat option" where
  "waiter Not_empty q = not_empty q"
| "waiter Not_full q = not_full q"

fun set_waiter :: "condition \<Rightarrow> nat option \<Rightarrow> intq \<Rightarrow> intq" where
  "set_waiter Not_empty w q = q\<lparr>not_empty := w\<rparr>"
| "set_waiter Not_full w q = q\<lparr>not_full := w\<rparr>"

definition move :: "nat \<Rightarrow> place \<Rightarrow> qsys \<Rightarrow> qsys" where
  "move t p s = s\<lparr>at := (at s)(t := p)\<rparr>"

text \<open>\<^verbatim>\<open>thread_unblock\<close> asserts that the thread is blocked.\<close>

definition unblock :: "nat \<Rightarrow> qsys \<Rightarrow> qsys outcome" where
  "unblock t s = (case at s t of
       Cond_wait c \<Rightarrow> Inr (move t (Cond_ready c) s)
     | Lock_wait c \<Rightarrow> Inr (move t (Lock_ready c) s)
     | _ \<Rightarrow> Inl Assert_fail)"

section \<open>Waiting and signalling\<close>

fun waits_for :: "call \<Rightarrow> condition" where
  "waits_for Getc = Not_empty"
| "waits_for (Putc b) = Not_full"

definition wait :: "intr_env \<Rightarrow> nat \<Rightarrow> call \<Rightarrow> qsys \<Rightarrow> qsys outcome" where
  "wait e t c s =
     kbind (kassert (\<not> in_context e)) (\<lambda>_.
     kbind (kassert (level_off e)) (\<lambda>_.
     kbind (awaits e (que s) (waits_for c)) (\<lambda>w.
     kbind (kassert w) (\<lambda>_.
       Inr (move t (Cond_wait c) (s\<lparr>que := set_waiter (waits_for c) (Some t) (que s)\<rparr>))))))"

definition signal :: "intr_env \<Rightarrow> condition \<Rightarrow> qsys \<Rightarrow> qsys outcome" where
  "signal e k s =
     kbind (kassert (level_off e)) (\<lambda>_.
     kbind (awaits e (que s) k) (\<lambda>w.
     kbind (kassert (\<not> w)) (\<lambda>_.
       case waiter k (que s) of
         None \<Rightarrow> Inr s
       | Some t \<Rightarrow> kbind (unblock t s) (\<lambda>s. Inr (s\<lparr>que := set_waiter k None (que s)\<rparr>)))))"

text \<open>\<^verbatim>\<open>lock_acquire\<close> followed by \<open>wait\<close>, and \<^verbatim>\<open>lock_release\<close>.\<close>

definition acquire :: "intr_env \<Rightarrow> nat \<Rightarrow> call \<Rightarrow> qsys \<Rightarrow> qsys outcome" where
  "acquire e t c s =
     kbind (kassert (\<not> in_context e)) (\<lambda>_.
       if lock_value (que s) = 0
       then Inr (move t (Lock_wait c) (s\<lparr>que := (que s)\<lparr>lock_waiters := lock_waiters (que s) @ [t]\<rparr>\<rparr>))
       else wait e t c (s\<lparr>que := (que s)\<lparr>lock_value := lock_value (que s) - 1\<rparr>\<rparr>))"

definition release :: "qsys \<Rightarrow> qsys outcome" where
  "release s =
     kbind (case lock_waiters (que s) of
              [] \<Rightarrow> Inr s
            | t # ts \<Rightarrow> unblock t (s\<lparr>que := (que s)\<lparr>lock_waiters := ts\<rparr>\<rparr>)) (\<lambda>s.
       Inr (s\<lparr>que := (que s)\<lparr>lock_value := lock_value (que s) + 1\<rparr>\<rparr>))"

section \<open>Adding and removing bytes\<close>

definition intq_getc :: "intr_env \<Rightarrow> nat \<Rightarrow> qsys \<Rightarrow> qsys outcome" where
  "intq_getc e t s =
     kbind (kassert (level_off e)) (\<lambda>_.
     kbind (intq_empty e (que s)) (\<lambda>w.
       if w then kbind (kassert (\<not> in_context e)) (\<lambda>_. acquire e t Getc s)
       else kbind (arr_get (q_buf (que s)) (q_tail (que s))) (\<lambda>byte.
            kbind (signal e Not_full (s\<lparr>que := (que s)\<lparr>q_tail := intq_next (q_tail (que s))\<rparr>\<rparr>)) (\<lambda>s.
              Inr ((if in_context e then s else move t Running s)\<lparr>taken := taken s @ [byte]\<rparr>)))))"

definition intq_putc :: "intr_env \<Rightarrow> nat \<Rightarrow> u8 \<Rightarrow> qsys \<Rightarrow> qsys outcome" where
  "intq_putc e t byte s =
     kbind (kassert (level_off e)) (\<lambda>_.
     kbind (intq_full e (que s)) (\<lambda>w.
       if w then kbind (kassert (\<not> in_context e)) (\<lambda>_. acquire e t (Putc byte) s)
       else kbind (arr_set (q_buf (que s)) (q_head (que s)) byte) (\<lambda>b.
            kbind (signal e Not_empty (s\<lparr>que := (que s)\<lparr>q_buf := b, q_head := intq_next (q_head (que s))\<rparr>\<rparr>)) (\<lambda>s.
              Inr ((if in_context e then s else move t Running s)\<lparr>added := added s @ [byte]\<rparr>)))))"

fun enter :: "intr_env \<Rightarrow> nat \<Rightarrow> call \<Rightarrow> qsys \<Rightarrow> qsys outcome" where
  "enter e t Getc s = intq_getc e t s"
| "enter e t (Putc b) s = intq_putc e t b s"

definition input_init :: "u8 list \<Rightarrow> intq" where
  "input_init mem = intq_init mem"

definition input_getc :: "intr_env \<Rightarrow> nat \<Rightarrow> qsys \<Rightarrow> qsys outcome" where
  "input_getc e t s = intq_getc (e\<lparr>level_off := True\<rparr>) t s"

definition input_full :: "intr_env \<Rightarrow> intq \<Rightarrow> bool outcome" where
  "input_full e q = kbind (kassert (level_off e)) (\<lambda>_. intq_full e q)"

definition input_putc :: "intr_env \<Rightarrow> nat \<Rightarrow> u8 \<Rightarrow> qsys \<Rightarrow> qsys outcome" where
  "input_putc e t key s =
     kbind (kassert (level_off e)) (\<lambda>_.
     kbind (intq_full e (que s)) (\<lambda>w.
     kbind (kassert (\<not> w)) (\<lambda>_. intq_putc e t key s)))"

section \<open>Threads and handlers\<close>

definition thread_env :: intr_env where "thread_env = \<lparr>level_off = True, in_context = False\<rparr>"
definition handler_env :: intr_env where "handler_env = \<lparr>level_off = True, in_context = True\<rparr>"

text \<open>
  A thread calls, or goes on where it was woken up: in \<^verbatim>\<open>lock_acquire\<close>, whose loop tests the semaphore again, or after \<open>wait\<close>,
  where it releases the lock and tests the queue again. \<open>go\<close> is what the thread does then.
\<close>

fun go :: "nat \<Rightarrow> place \<Rightarrow> qsys \<Rightarrow> qsys outcome" where
  "go t (Lock_ready c) s = acquire thread_env t c (move t Running s)"
| "go t (Cond_ready c) s = kbind (release (move t Running s)) (\<lambda>s. enter thread_env t c s)"
| "go t _ s = Inr s"

fun would_block :: "call \<Rightarrow> intq \<Rightarrow> bool" where
  "would_block Getc q \<longleftrightarrow> q_head q = q_tail q"
| "would_block (Putc b) q \<longleftrightarrow> intq_next (q_head q) = q_tail q"

datatype event = Call nat call | Resume nat | Handler call

text \<open>What an event does; \<^const>\<open>None\<close> when it cannot happen. A handler tests the queue before it calls.\<close>

fun event_result :: "event \<Rightarrow> qsys \<Rightarrow> qsys outcome option" where
  "event_result (Call t c) s = (if at s t = Running then Some (enter thread_env t c s) else None)"
| "event_result (Resume t) s =
     (case at s t of Lock_ready _ \<Rightarrow> Some (go t (at s t) s) | Cond_ready _ \<Rightarrow> Some (go t (at s t) s) | _ \<Rightarrow> None)"
| "event_result (Handler c) s = (if would_block c (que s) then None else Some (enter handler_env 0 c s))"

inductive qreach :: "u8 list \<Rightarrow> (event \<Rightarrow> bool) \<Rightarrow> qsys \<Rightarrow> bool" for mem ok where
  start: "qreach mem ok \<lparr>que = intq_init mem, at = (\<lambda>_. Running), taken = [], added = []\<rparr>"
| step: "qreach mem ok s \<Longrightarrow> ok v \<Longrightarrow> event_result v s = Some (Inr s') \<Longrightarrow> qreach mem ok s'"

section \<open>The ring\<close>

definition in_ring :: "intq \<Rightarrow> nat" where
  "in_ring q = (q_head q + 64 - q_tail q) mod 64"

definition ring :: "intq \<Rightarrow> u8 list" where
  "ring q = map (\<lambda>i. q_buf q ! ((q_tail q + i) mod 64)) [0..<in_ring q]"

definition ring_ok :: "intq \<Rightarrow> bool" where
  "ring_ok q \<longleftrightarrow> length (q_buf q) = 64 \<and> q_head q < 64 \<and> q_tail q < 64"

lemma length_ring [simp]: "length (ring q) = in_ring q"
  by (simp add: ring_def)

lemma in_ring_bound: "in_ring q < 64"
  by (simp add: in_ring_def)

lemma ring_empty: "ring_ok q \<Longrightarrow> q_head q = q_tail q \<longleftrightarrow> in_ring q = 0"
  by (auto simp: ring_ok_def in_ring_def mod_if)

lemma ring_full: "ring_ok q \<Longrightarrow> intq_next (q_head q) = q_tail q \<longleftrightarrow> in_ring q = 63"
  by (auto simp: ring_ok_def in_ring_def intq_next_def INTQ_BUFSIZE_def mod_if split: if_splits)

lemma mod64: "a < 64 \<Longrightarrow> b < 64 \<Longrightarrow> (a + b) mod 64 = (if a + b < 64 then a + b else a + b - 64 :: nat)"
  by (simp add: mod_if)

lemma ring_head: "ring_ok q \<Longrightarrow> (q_tail q + in_ring q) mod 64 = q_head q"
  by (auto simp: ring_ok_def in_ring_def mod_if)

lemma ring_get:
  assumes "ring_ok q" "q_head q \<noteq> q_tail q"
  defines "q' \<equiv> q\<lparr>q_tail := intq_next (q_tail q)\<rparr>"
  shows "ring q = q_buf q ! q_tail q # ring q'" "ring_ok q'"
proof -
  have n: "in_ring q = Suc (in_ring q')"
    using assms(1,2) unfolding q'_def ring_ok_def in_ring_def intq_next_def INTQ_BUFSIZE_def
    by (auto simp: mod_if)
  have "(q_tail q + Suc i) mod 64 = (intq_next (q_tail q) + i) mod 64" for i
    by (simp add: intq_next_def INTQ_BUFSIZE_def mod_simps)
  moreover have "q_tail q mod 64 = q_tail q"
    using assms(1) by (simp add: ring_ok_def)
  ultimately show "ring q = q_buf q ! q_tail q # ring q'"
    unfolding ring_def n by (simp add: map_upt_Suc q'_def del: upt_Suc)
  show "ring_ok q'"
    using assms(1) by (simp add: ring_ok_def q'_def intq_next_def INTQ_BUFSIZE_def)
qed

lemma ring_put:
  fixes b :: u8
  assumes "ring_ok q" "intq_next (q_head q) \<noteq> q_tail q"
  defines "q' \<equiv> q\<lparr>q_buf := (q_buf q)[q_head q := b], q_head := intq_next (q_head q)\<rparr>"
  shows "ring q' = ring q @ [b]" "ring_ok q'"
proof -
  have n: "in_ring q' = Suc (in_ring q)"
    using assms(1,2) unfolding q'_def ring_ok_def in_ring_def intq_next_def INTQ_BUFSIZE_def
    by (auto simp: mod_if split: if_splits)
  have t: "q_tail q < 64" "q_head q < 64" "length (q_buf q) = 64"
    using assms(1) by (simp_all add: ring_ok_def)
  have "q_head q \<noteq> (q_tail q + i) mod 64" if "i < in_ring q" for i
  proof -
    have "(q_tail q + i) mod 64 \<noteq> (q_tail q + in_ring q) mod 64"
      using that in_ring_bound [of q] t(1) by (auto simp: mod64)
    then show ?thesis
      using ring_head [OF assms(1)] by simp
  qed
  then have "map (\<lambda>i. q_buf q' ! ((q_tail q' + i) mod 64)) [0..<in_ring q] = ring q"
    unfolding ring_def by (intro map_cong) (auto simp: q'_def)
  moreover have "q_buf q' ! ((q_tail q' + in_ring q) mod 64) = b"
    using ring_head [OF assms(1)] t by (simp add: q'_def)
  ultimately show "ring q' = ring q @ [b]"
    unfolding ring_def [of q'] n by simp
  show "ring_ok q'"
    using assms(1) by (simp add: ring_ok_def q'_def intq_next_def INTQ_BUFSIZE_def)
qed

section \<open>The invariant\<close>

text \<open>
  The bytes in the ring are those added and not yet taken, in order. The thread in \<open>wait\<close> is the one that is
  registered, and what it waits for is not yet the case. The lock is taken exactly when a thread is in \<open>wait\<close> or has just
  been woken up there; when it is free and threads wait for it, one of them has been woken up.
\<close>

definition registered :: "qsys \<Rightarrow> bool" where
  "registered s \<longleftrightarrow> (\<forall>t c. at s t = Cond_wait c \<longrightarrow> waiter (waits_for c) (que s) = Some t \<and> would_block c (que s)) \<and>
     (\<forall>k t. waiter k (que s) = Some t \<longrightarrow> (\<exists>c. at s t = Cond_wait c \<and> waits_for c = k))"

definition holds_lock :: "place \<Rightarrow> bool" where
  "holds_lock p \<longleftrightarrow> (\<exists>c. p = Cond_wait c \<or> p = Cond_ready c)"

lemma holds_lock_simps [simp]:
  "holds_lock (Cond_wait c)" "holds_lock (Cond_ready c)" "\<not> holds_lock Running" "\<not> holds_lock (Lock_wait c)" "\<not> holds_lock (Lock_ready c)"
  by (simp_all add: holds_lock_def)

definition lock_ok :: "qsys \<Rightarrow> bool" where
  "lock_ok s \<longleftrightarrow> lock_value (que s) \<le> 1 \<and>
     (lock_value (que s) = 0 \<longrightarrow> (\<exists>t. holds_lock (at s t) \<and> (\<forall>u. holds_lock (at s u) \<longrightarrow> u = t))) \<and>
     (lock_value (que s) = 1 \<longrightarrow> (\<forall>t. \<not> holds_lock (at s t))) \<and>
     distinct (lock_waiters (que s)) \<and> (\<forall>t. t \<in> set (lock_waiters (que s)) \<longleftrightarrow> (\<exists>c. at s t = Lock_wait c))"

definition lock_woken :: "qsys \<Rightarrow> bool" where
  "lock_woken s \<longleftrightarrow> (lock_value (que s) \<noteq> 0 \<longrightarrow> lock_waiters (que s) \<noteq> [] \<longrightarrow> (\<exists>t c. at s t = Lock_ready c))"

definition qinv :: "qsys \<Rightarrow> bool" where
  "qinv s \<longleftrightarrow> ring_ok (que s) \<and> taken s @ ring (que s) = added s \<and> registered s \<and> lock_ok s"


lemma awaits_eq: "level_off e \<Longrightarrow> awaits e q (waits_for c) = Inr (would_block c q)"
  by (cases c) (simp_all add: intq_empty_def intq_full_def)

lemma envs [simp]: "level_off thread_env" "level_off handler_env" "\<not> in_context thread_env" "in_context handler_env"
  by (simp_all add: thread_env_def handler_env_def)

section \<open>Signalling\<close>

definition woken :: "place \<Rightarrow> place" where
  "woken p = (case p of Cond_wait c \<Rightarrow> Cond_ready c | _ \<Rightarrow> p)"

lemma woken_simps [simp]:
  "holds_lock (woken p) = holds_lock p" "woken p = Lock_wait c \<longleftrightarrow> p = Lock_wait c" "woken p = Lock_ready c \<longleftrightarrow> p = Lock_ready c"
  "woken p \<noteq> Cond_wait c" "woken Running = Running"
  by (cases p; auto simp: woken_def holds_lock_def)+

text \<open>When only threads that wait for \<open>k\<close> are in \<open>wait\<close>, then after a signal no thread is.\<close>

lemma signal_ok:
  assumes reg: "registered s" and only: "\<And>t c. at s t = Cond_wait c \<Longrightarrow> waits_for c = k" and off: "level_off e"
    and q1: "\<And>j. waiter j q1 = waiter j (que s)" and nb: "awaits e q1 k = Inr False"
  shows "signal e k (s\<lparr>que := q1\<rparr>) = Inr (s\<lparr>que := q1\<lparr>not_full := None, not_empty := None\<rparr>, at := woken \<circ> at s\<rparr>)"
proof -
  have other: "waiter j (que s) = None" if "j \<noteq> k" for j
    using reg only that unfolding registered_def by (metis option.exhaust)
  show ?thesis
  proof (cases "waiter k (que s)")
    case None
    then have "waiter j (que s) = None" for j
      using other by (cases "j = k") auto
    then have n: "not_full q1 = None" "not_empty q1 = None"
      using q1 [of Not_full] q1 [of Not_empty] by (metis waiter.simps)+
    have "at s t \<noteq> Cond_wait c" for t c
      using reg None only by (auto simp: registered_def)
    then have "woken \<circ> at s = at s"
      by (auto simp: woken_def fun_eq_iff split: place.splits)
    moreover have "q1\<lparr>not_full := None, not_empty := None\<rparr> = q1"
      using n by simp
    ultimately show ?thesis
      using off nb None q1 by (simp add: signal_def)
  next
    case (Some t)
    then obtain c where c: "at s t = Cond_wait c" "waits_for c = k"
      using reg unfolding registered_def by blast
    have "at s u \<noteq> Cond_wait d" if "u \<noteq> t" for u d
      using reg Some only that unfolding registered_def by (metis option.inject)
    then have w: "woken \<circ> at s = (at s)(t := Cond_ready c)"
      using c(1) by (auto simp: woken_def fun_eq_iff split: place.splits)
    have "set_waiter k None q1 = q1\<lparr>not_full := None, not_empty := None\<rparr>"
      using other [of Not_full] other [of Not_empty] q1 [of Not_full] q1 [of Not_empty] by (cases k) simp_all
    then show ?thesis
      using off nb Some q1 c(1) unfolding w by (simp add: signal_def unblock_def move_def)
  qed
qed

lemma waits_blocked: "registered s \<Longrightarrow> at s t = Cond_wait c \<Longrightarrow> would_block c (que s)"
  by (auto simp: registered_def)

lemma lock_ok_woken:
  assumes "lock_ok s" "lock_value (que s') = lock_value (que s)" "lock_waiters (que s') = lock_waiters (que s)"
    "\<And>t. at s' t = woken (at s t)"
  shows "lock_ok s'"
  using assms(1) unfolding lock_ok_def assms(2-4) woken_simps .

lemma lock_woken_woken:
  assumes "lock_woken s" "lock_value (que s') = lock_value (que s)" "lock_waiters (que s') = lock_waiters (que s)"
    "\<And>t. at s' t = woken (at s t)"
  shows "lock_woken s'"
  using assms(1) unfolding lock_woken_def assms(2-4) woken_simps .

lemma ring_waiters [simp]:
  "ring (q\<lparr>not_full := a, not_empty := b\<rparr>) = ring q" "ring_ok (q\<lparr>not_full := a, not_empty := b\<rparr>) = ring_ok q"
  by (simp_all add: ring_def in_ring_def ring_ok_def)

lemma enter_passes:
  assumes inv: "qinv s" "lock_woken s" and e: "level_off e" "in_context e \<or> at s t = Running" and nb: "\<not> would_block c (que s)"
  shows "\<exists>s'. enter e t c s = Inr s' \<and> qinv s' \<and> lock_woken s' \<and> (\<forall>u. at s' u = woken (at s u))"
proof -
  have ok: "ring_ok (que s)" "taken s @ ring (que s) = added s" "registered s" "lock_ok s"
    using inv by (simp_all add: qinv_def)
  have same: "(if in_context e then s1 else move t Running s1) = s1" if "at s1 = woken \<circ> at s" for s1
    using e(2) that by (auto simp: move_def fun_upd_idem_iff)
  have reg: "registered s'" if "not_full (que s') = None" "not_empty (que s') = None" "at s' = woken \<circ> at s" for s'
  proof -
    have "waiter k (que s') = None" for k
      using that(1,2) by (cases k) simp_all
    then show ?thesis
      using that(3) by (simp add: registered_def)
  qed
  show ?thesis
  proof (cases c)
    case Getc
    let ?q = "(que s)\<lparr>q_tail := intq_next (q_tail (que s))\<rparr>"
    have ne: "q_head (que s) \<noteq> q_tail (que s)"
      using nb Getc by simp
    note g = ring_get [OF ok(1) ne]
    have only: "waits_for d = Not_full" if "at s u = Cond_wait d" for u d
      using waits_blocked [OF ok(3) that] ne by (cases d) simp_all
    have "in_ring ?q \<noteq> 63"
      using g(1) in_ring_bound [of "que s"] length_ring [of "que s"] by simp
    then have nf: "awaits e ?q Not_full = Inr False"
      using ring_full [OF g(2)] e(1) by (simp add: intq_full_def)
    define s1 where "s1 = s\<lparr>que := ?q\<lparr>not_full := None, not_empty := None\<rparr>, at := woken \<circ> at s\<rparr>"
    have sg: "signal e Not_full (s\<lparr>que := ?q\<rparr>) = Inr s1"
    proof -
      have "waiter j ?q = waiter j (que s)" for j
        by (cases j) simp_all
      then show ?thesis
        using signal_ok [OF ok(3) only e(1) _ nf] by (auto simp: s1_def)
    qed
    define s' where "s' = s1\<lparr>taken := taken s @ [q_buf (que s) ! q_tail (que s)]\<rparr>"
    have "(if in_context e then s1 else move t Running s1) = s1" "taken s1 = taken s"
      by (rule same) (simp_all add: s1_def)
    then have "enter e t c s = Inr s'"
      using Getc e(1) ne ok(1) sg by (simp add: intq_getc_def intq_empty_def ring_ok_def s'_def)
    moreover have "taken s' @ ring (que s') = added s'"
      using ok(2) g(1) by (simp add: s'_def s1_def)
    moreover have "registered s'"
      by (rule reg) (simp_all add: s'_def s1_def)
    moreover have "lock_ok s'" "lock_woken s'"
      using lock_ok_woken [OF ok(4), of s'] lock_woken_woken [OF inv(2), of s'] by (simp_all add: s'_def s1_def)
    moreover have "ring_ok (que s')" "\<forall>u. at s' u = woken (at s u)"
      using g(2) by (simp_all add: s'_def s1_def)
    ultimately show ?thesis
      unfolding qinv_def by blast
  next
    case (Putc b)
    let ?q = "(que s)\<lparr>q_buf := (q_buf (que s))[q_head (que s) := b], q_head := intq_next (q_head (que s))\<rparr>"
    have ne: "intq_next (q_head (que s)) \<noteq> q_tail (que s)"
      using nb Putc by simp
    note g = ring_put [OF ok(1) ne, of b]
    have only: "waits_for d = Not_empty" if "at s u = Cond_wait d" for u d
      using waits_blocked [OF ok(3) that] ne by (cases d) simp_all
    have "in_ring ?q \<noteq> 0"
      using g(1) length_ring [of ?q] by simp
    then have nf: "awaits e ?q Not_empty = Inr False"
      using ring_empty [OF g(2)] e(1) by (simp add: intq_empty_def)
    define s1 where "s1 = s\<lparr>que := ?q\<lparr>not_full := None, not_empty := None\<rparr>, at := woken \<circ> at s\<rparr>"
    have sg: "signal e Not_empty (s\<lparr>que := ?q\<rparr>) = Inr s1"
    proof -
      have "waiter j ?q = waiter j (que s)" for j
        by (cases j) simp_all
      then show ?thesis
        using signal_ok [OF ok(3) only e(1) _ nf] by (auto simp: s1_def)
    qed
    define s' where "s' = s1\<lparr>added := added s @ [b]\<rparr>"
    have "(if in_context e then s1 else move t Running s1) = s1" "added s1 = added s"
      by (rule same) (simp_all add: s1_def)
    then have "enter e t c s = Inr s'"
      using Putc e(1) ne ok(1) sg by (simp add: intq_putc_def intq_full_def ring_ok_def s'_def)
    moreover have "taken s' @ ring (que s') = added s'"
      using ok(2) g(1) by (simp add: s'_def s1_def)
    moreover have "registered s'"
      by (rule reg) (simp_all add: s'_def s1_def)
    moreover have "lock_ok s'" "lock_woken s'"
      using lock_ok_woken [OF ok(4), of s'] lock_woken_woken [OF inv(2), of s'] by (simp_all add: s'_def s1_def)
    moreover have "ring_ok (que s')" "\<forall>u. at s' u = woken (at s u)"
      using g(2) by (simp_all add: s'_def s1_def)
    ultimately show ?thesis
      unfolding qinv_def by blast
  qed
qed


section \<open>Blocking\<close>

lemma waiter_set [simp]:
  "waiter k (set_waiter j w q) = (if k = j then w else waiter k q)" "ring (set_waiter j w q) = ring q"
  "ring_ok (set_waiter j w q) = ring_ok q" "would_block c (set_waiter j w q) = would_block c q"
  "lock_value (set_waiter j w q) = lock_value q" "lock_waiters (set_waiter j w q) = lock_waiters q"
  by (cases j; cases k; cases c; simp add: ring_def in_ring_def ring_ok_def)+

lemma ring_lock [simp]:
  "ring (q\<lparr>lock_value := v\<rparr>) = ring q" "ring_ok (q\<lparr>lock_value := v\<rparr>) = ring_ok q" "waiter k (q\<lparr>lock_value := v\<rparr>) = waiter k q"
  "would_block c (q\<lparr>lock_value := v\<rparr>) = would_block c q"
  "ring (q\<lparr>lock_waiters := w\<rparr>) = ring q" "ring_ok (q\<lparr>lock_waiters := w\<rparr>) = ring_ok q" "waiter k (q\<lparr>lock_waiters := w\<rparr>) = waiter k q"
  "would_block c (q\<lparr>lock_waiters := w\<rparr>) = would_block c q"
  by (cases k; cases c; simp add: ring_def in_ring_def ring_ok_def)+

lemma registered_move:
  assumes reg: "registered s" and at: "at s' = (at s)(t := p)" "\<And>c. at s t \<noteq> Cond_wait c" "\<And>c. p \<noteq> Cond_wait c"
    and q: "\<And>k. waiter k (que s') = waiter k (que s)" "\<And>c. would_block c (que s') = would_block c (que s)"
  shows "registered s'"
  unfolding registered_def q
proof (intro conjI allI impI)
  fix u c
  assume "at s' u = Cond_wait c"
  then have "at s u = Cond_wait c"
    using at by (auto split: if_splits)
  then show "waiter (waits_for c) (que s) = Some u" "would_block c (que s)"
    using reg by (simp_all add: registered_def)
next
  fix k u
  assume "waiter k (que s) = Some u"
  then obtain c where "at s u = Cond_wait c" "waits_for c = k"
    using reg unfolding registered_def by blast
  then show "\<exists>c. at s' u = Cond_wait c \<and> waits_for c = k"
    using at by auto
qed

lemma lock_ok_same:
  assumes "lock_ok s" "lock_value (que s') = lock_value (que s)" "lock_waiters (que s') = lock_waiters (que s)"
    "\<And>u. holds_lock (at s' u) = holds_lock (at s u)" "\<And>u. (\<exists>c. at s' u = Lock_wait c) = (\<exists>c. at s u = Lock_wait c)"
  shows "lock_ok s'"
  using assms(1) unfolding lock_ok_def assms(2-5) .

lemma acquire_blocks:
  assumes inv: "qinv s" and t: "at s t = Running" and v: "lock_value (que s) = 0"
  shows "\<exists>s'. acquire thread_env t c s = Inr s' \<and> qinv s' \<and> lock_woken s' \<and> at s' = (at s)(t := Lock_wait c)"
proof -
  have ok: "ring_ok (que s)" "taken s @ ring (que s) = added s" "registered s" "lock_ok s"
    using inv by (simp_all add: qinv_def)
  define s' where "s' = move t (Lock_wait c) (s\<lparr>que := (que s)\<lparr>lock_waiters := lock_waiters (que s) @ [t]\<rparr>\<rparr>)"
  have at': "at s' = (at s)(t := Lock_wait c)"
    by (simp add: s'_def move_def)
  have "registered s'"
    by (rule registered_move [OF ok(3) at']) (simp_all add: t s'_def move_def)
  moreover have "t \<notin> set (lock_waiters (que s))"
    using ok(4) t by (simp add: lock_ok_def)
  moreover have "holds_lock (at s' u) = holds_lock (at s u)" for u
    using t by (simp add: at' holds_lock_def)
  moreover have "lock_value (que s') = lock_value (que s)" "lock_waiters (que s') = lock_waiters (que s) @ [t]"
    by (simp_all add: s'_def move_def)
  ultimately have "lock_ok s'"
    using ok(4) v t unfolding lock_ok_def at' by auto
  with \<open>registered s'\<close> have "qinv s'"
    using ok(1,2) by (simp add: qinv_def s'_def move_def)
  moreover have "acquire thread_env t c s = Inr s'"
    using v by (simp add: acquire_def s'_def)
  moreover have "lock_woken s'"
    using v by (simp add: lock_woken_def s'_def move_def)
  ultimately show ?thesis
    using at' by blast
qed

lemma acquire_waits:
  assumes inv: "qinv s" and t: "at s t = Running" and v: "lock_value (que s) \<noteq> 0" and b: "would_block c (que s)"
  shows "\<exists>s'. acquire thread_env t c s = Inr s' \<and> qinv s' \<and> lock_woken s' \<and> at s' = (at s)(t := Cond_wait c)"
proof -
  have ok: "ring_ok (que s)" "taken s @ ring (que s) = added s" "registered s" "lock_ok s"
    using inv by (simp_all add: qinv_def)
  have v1: "lock_value (que s) = 1" "\<And>u. \<not> holds_lock (at s u)"
    using ok(4) v by (auto simp: lock_ok_def)
  define s' where "s' = move t (Cond_wait c) (s\<lparr>que := set_waiter (waits_for c) (Some t) ((que s)\<lparr>lock_value := 0\<rparr>)\<rparr>)"
  have at': "at s' = (at s)(t := Cond_wait c)"
    by (simp add: s'_def move_def)
  have none: "waiter k (que s) = None" for k
    using ok(3) v1(2) unfolding registered_def holds_lock_def by (metis option.exhaust)
  have "at s u \<noteq> Cond_wait d" for u d
    using v1(2) [of u] by (auto simp: holds_lock_def)
  then have "registered s'"
    using none b by (auto simp: registered_def s'_def move_def)
  moreover have "lock_ok s'"
    using ok(4) v1 t unfolding lock_ok_def by (auto simp: s'_def move_def holds_lock_def)
  ultimately have "qinv s'"
    using ok(1,2) by (simp add: qinv_def s'_def move_def)
  moreover have "acquire thread_env t c s = Inr s'"
    using v v1(1) b by (simp add: acquire_def wait_def awaits_eq s'_def)
  moreover have "lock_woken s'"
    by (simp add: lock_woken_def s'_def move_def)
  ultimately show ?thesis
    using at' by blast
qed

lemma acquire_fails:
  assumes "qinv s" "lock_value (que s) \<noteq> 0" "\<not> would_block c (que s)"
  shows "acquire thread_env t c s = Inl Assert_fail"
  using assms(2,3) by (simp add: acquire_def wait_def awaits_eq)

lemma enter_acquires: "would_block c (que s) \<Longrightarrow> enter thread_env t c s = acquire thread_env t c s"
  by (cases c) (simp_all add: intq_getc_def intq_putc_def intq_empty_def intq_full_def)

lemma enter_ok:
  assumes "qinv s" "lock_woken s" "at s t = Running"
  shows "\<exists>s'. enter thread_env t c s = Inr s' \<and> qinv s' \<and> lock_woken s'"
proof (cases "would_block c (que s)")
  case True
  then show ?thesis
    using acquire_blocks [OF assms(1,3)] acquire_waits [OF assms(1,3)] enter_acquires by (cases "lock_value (que s) = 0") metis+
next
  case False
  then show ?thesis
    using enter_passes [OF assms(1,2), of thread_env t c] assms(3) by auto
qed

lemma release_ok:
  assumes inv: "qinv s" and t: "at s t = Cond_ready c"
  shows "\<exists>s'. release (move t Running s) = Inr s' \<and> qinv s' \<and> lock_woken s' \<and> at s' t = Running"
proof -
  have ok: "ring_ok (que s)" "taken s @ ring (que s) = added s" "registered s" "lock_ok s"
    using inv by (simp_all add: qinv_def)
  have h: "holds_lock (at s t)"
    using t by (simp add: holds_lock_def)
  then have v: "lock_value (que s) = 0" "\<And>u. holds_lock (at s u) \<Longrightarrow> u = t"
    using ok(4) unfolding lock_ok_def by (auto simp: le_Suc_eq)
  have nw: "at s u \<noteq> Cond_wait d" for u d
    using v(2) [of u] t by (auto simp: holds_lock_def)
  then have none: "waiter k (que s) = None" for k
    using ok(3) unfolding registered_def by (metis option.exhaust)
  have lw: "distinct (lock_waiters (que s))" "\<And>u. u \<in> set (lock_waiters (que s)) \<longleftrightarrow> (\<exists>d. at s u = Lock_wait d)"
    using ok(4) by (simp_all add: lock_ok_def)
  have fin: "qinv s' \<and> lock_woken s'"
    if s': "que s' = (que s)\<lparr>lock_waiters := ws, lock_value := 1\<rparr>" "taken s' = taken s" "added s' = added s"
      and at': "\<And>u. \<not> holds_lock (at s' u)" and ws: "distinct ws" "\<And>u. u \<in> set ws \<longleftrightarrow> (\<exists>d. at s' u = Lock_wait d)"
      and wk: "ws \<noteq> [] \<Longrightarrow> \<exists>u d. at s' u = Lock_ready d" for s' ws
  proof -
    have "at s' u \<noteq> Cond_wait d" for u d
      using at' [of u] by (auto simp: holds_lock_def)
    then have "registered s'"
      using none by (simp add: registered_def s')
    moreover have "lock_ok s'"
      using at' ws by (simp add: lock_ok_def s')
    ultimately show ?thesis
      using ok(1,2) wk by (simp add: qinv_def lock_woken_def s')
  qed
  show ?thesis
  proof (cases "lock_waiters (que s)")
    case Nil
    let ?s = "(move t Running s)\<lparr>que := (que s)\<lparr>lock_value := 1\<rparr>\<rparr>"
    have "que ?s = (que s)\<lparr>lock_waiters := [], lock_value := 1\<rparr>"
      using Nil by simp
    then have "qinv ?s \<and> lock_woken ?s"
      using v(2) lw(2) Nil t by (intro fin) (auto simp: move_def holds_lock_def)
    then show ?thesis
      using Nil v(1) by (intro exI [of _ ?s]) (simp add: release_def move_def)
  next
    case (Cons u us)
    then obtain d where u: "at s u = Lock_wait d"
      using lw(2) by auto
    then have ut: "u \<noteq> t"
      using t by auto
    let ?s = "(move u (Lock_ready d) (move t Running s))\<lparr>que := (que s)\<lparr>lock_waiters := us, lock_value := 1\<rparr>\<rparr>"
    have "qinv ?s \<and> lock_woken ?s"
    proof (rule fin)
      show "que ?s = (que s)\<lparr>lock_waiters := us, lock_value := 1\<rparr>" "taken ?s = taken s" "added ?s = added s"
        by (simp_all add: move_def)
      show "\<not> holds_lock (at ?s x)" for x
      proof (cases "x = t")
        case False
        then have "\<not> holds_lock (at s x)"
          using v(2) by blast
        then show ?thesis
          using False by (simp add: move_def)
      qed (use ut in \<open>simp add: move_def\<close>)
      show "distinct us"
        using lw(1) Cons by simp
      show "x \<in> set us \<longleftrightarrow> (\<exists>d. at ?s x = Lock_wait d)" for x
        using lw(1) lw(2) [of x] Cons t u ut by (auto simp: move_def)
      show "\<exists>u d. at ?s u = Lock_ready d"
        by (intro exI [of _ u] exI [of _ d]) (simp add: move_def)
    qed
    then show ?thesis
      using Cons v(1) u ut by (intro exI [of _ ?s]) (simp add: release_def move_def unblock_def)
  qed
qed

section \<open>Reachable states\<close>

lemma qinv_running:
  assumes "qinv s" "at s t = Lock_ready c"
  shows "qinv (move t Running s)"
proof -
  let ?s = "move t Running s"
  have at: "at ?s = (at s)(t := Running)"
    by (simp add: move_def)
  have "registered s" "lock_ok s"
    using assms(1) by (simp_all add: qinv_def)
  then have "registered ?s" "lock_ok ?s"
    using registered_move [OF _ at] lock_ok_same [of s ?s] assms(2) by (simp_all add: move_def holds_lock_def)
  then show ?thesis
    using assms(1) by (simp add: qinv_def move_def)
qed

lemma event_ok:
  assumes inv: "qinv s" "lock_woken s" and ev: "event_result v s = Some r"
  shows "(\<exists>s'. r = Inr s' \<and> qinv s' \<and> lock_woken s') \<or>
    (r = Inl Assert_fail \<and> (\<exists>t c. v = Resume t \<and> at s t = Lock_ready c \<and> lock_value (que s) \<noteq> 0 \<and> \<not> would_block c (que s)))"
proof (cases v)
  case (Call t c)
  then show ?thesis
    using ev enter_ok [OF inv, of t c] by (auto split: if_splits)
next
  case (Handler c)
  then show ?thesis
    using ev enter_passes [OF inv, of handler_env 0 c] by (auto split: if_splits)
next
  case (Resume t)
  show ?thesis
  proof (cases "at s t")
    case (Lock_ready c)
    let ?s = "move t Running s"
    note i = qinv_running [OF inv(1) Lock_ready]
    have r: "r = acquire thread_env t c ?s" and q: "que ?s = que s" "at ?s t = Running"
      using ev Resume Lock_ready by (simp_all add: move_def)
    show ?thesis
    proof (cases "lock_value (que s) = 0 \<or> would_block c (que s)")
      case True
      then show ?thesis
        using acquire_blocks [OF i q(2), of c] acquire_waits [OF i q(2), of c] r q(1) by (cases "lock_value (que s) = 0") auto
    next
      case False
      then show ?thesis
        using acquire_fails [OF i, of c t] r q(1) Resume Lock_ready by simp
    qed
  next
    case (Cond_ready c)
    then have r: "r = kbind (release (move t Running s)) (\<lambda>s. enter thread_env t c s)"
      using ev Resume by simp
    obtain s1 where s1: "release (move t Running s) = Inr s1" "qinv s1" "lock_woken s1" "at s1 t = Running"
      using release_ok [OF inv(1) Cond_ready] by blast
    then show ?thesis
      using enter_ok [OF s1(2-4), of c] r by auto
  qed (use ev Resume in simp_all)
qed

lemma qreach_inv: "qreach mem ok s \<Longrightarrow> length mem = 64 \<Longrightarrow> qinv s \<and> lock_woken s"
proof (induction rule: qreach.induct)
  case start
  have "waiter k (intq_init mem) = None" for k
    by (cases k) (simp_all add: intq_init_def)
  then show ?case
    using start by (simp add: qinv_def ring_ok_def ring_def in_ring_def registered_def lock_ok_def lock_woken_def holds_lock_def intq_init_def)
next
  case (step s v s')
  then show ?case
    using event_ok [of s v "Inr s'"] by auto
qed


lemma wakes:
  assumes inv: "qinv s" "lock_woken s" and ev: "event_result v s = Some (Inr s')" "\<forall>t. v \<noteq> Resume t"
    and new: "taken s' \<noteq> taken s \<or> added s' \<noteq> added s" and t: "at s t = Cond_wait c"
  shows "at s' t = Cond_ready c"
proof -
  obtain e u d where e: "enter e u d s = Inr s'" "level_off e" "in_context e \<or> at s u = Running" "e = thread_env \<or> \<not> would_block d (que s)"
    using ev by (cases v) (auto split: if_splits intro: envs)
  have "\<not> would_block d (que s)"
  proof
    assume b: "would_block d (que s)"
    then have "s' = (if lock_value (que s) = 0 then s' else s')" "acquire thread_env u d s = Inr s'"
      using e enter_acquires by auto
    then have "taken s' = taken s" "added s' = added s"
      using b by (auto simp: acquire_def wait_def awaits_eq move_def split: if_splits)
    then show False
      using new by simp
  qed
  then have "at s' t = woken (at s t)"
    using enter_passes [OF inv e(2,3), of d] e(1) by auto
  then show ?thesis
    using t by (simp add: woken_def)
qed

section \<open>One thread\<close>

fun only :: "nat \<Rightarrow> event \<Rightarrow> bool" where
  "only t (Call u c) \<longleftrightarrow> u = t"
| "only t (Resume u) \<longleftrightarrow> u = t"
| "only t (Handler c) \<longleftrightarrow> True"

definition alone :: "nat \<Rightarrow> qsys \<Rightarrow> bool" where
  "alone t s \<longleftrightarrow> (\<forall>u. u \<noteq> t \<longrightarrow> at s u = Running) \<and> (\<forall>c. at s t \<noteq> Lock_wait c \<and> at s t \<noteq> Lock_ready c)"

lemma alone_woken: "alone t s \<Longrightarrow> \<forall>u. at s' u = woken (at s u) \<Longrightarrow> alone t s'"
  by (simp add: alone_def)

lemma alone_enter:
  assumes inv: "qinv s" "lock_woken s" "alone t s" and t: "at s t = Running" and e: "enter thread_env t c s = Inr s'"
  shows "alone t s'"
proof (cases "would_block c (que s)")
  case True
  have "lock_value (que s) \<noteq> 0"
  proof
    assume "lock_value (que s) = 0"
    then obtain u where "holds_lock (at s u)"
      using inv(1) unfolding qinv_def lock_ok_def by blast
    then show False
      using inv(3) t by (cases "u = t") (auto simp: alone_def)
  qed
  then have "at s' = (at s)(t := Cond_wait c)"
    using acquire_waits [OF inv(1) t _ True] enter_acquires [OF True] e by auto
  then show ?thesis
    using inv(3) by (simp add: alone_def)
next
  case False
  then show ?thesis
    using enter_passes [OF inv(1,2), of thread_env t c] t e alone_woken [OF inv(3)] by auto
qed

lemma alone_release:
  assumes inv: "qinv s" "alone t s" and r: "release (move t Running s) = Inr s'"
  shows "alone t s'"
proof -
  have "lock_waiters (que s) = []"
  proof (rule ccontr)
    assume "lock_waiters (que s) \<noteq> []"
    then obtain u c where "at s u = Lock_wait c"
      using inv(1) unfolding qinv_def lock_ok_def by (meson last_in_set)
    then show False
      using inv(2) by (cases "u = t") (auto simp: alone_def)
  qed
  then have "s' = (move t Running s)\<lparr>que := (que s)\<lparr>lock_value := lock_value (que s) + 1\<rparr>\<rparr>"
    using r by (auto simp: release_def move_def)
  then show ?thesis
    using inv(2) by (simp add: alone_def move_def)
qed

lemma alone_event:
  assumes inv: "qinv s" "lock_woken s" "alone t s" and v: "only t v" and ev: "event_result v s = Some (Inr s')"
  shows "alone t s'"
proof (cases v)
  case (Call u c)
  then show ?thesis
    using v ev alone_enter [OF inv] by (auto split: if_splits)
next
  case (Handler c)
  then show ?thesis
    using ev enter_passes [OF inv(1,2), of handler_env 0 c] alone_woken [OF inv(3)] by (auto split: if_splits)
next
  case (Resume u)
  show ?thesis
  proof (cases "at s t")
    case (Cond_ready c)
    obtain s1 where s1: "release (move t Running s) = Inr s1" "qinv s1" "lock_woken s1" "at s1 t = Running"
      using release_ok [OF inv(1) Cond_ready] by blast
    moreover have "enter thread_env t c s1 = Inr s'"
      using ev v Resume Cond_ready s1(1) by simp
    ultimately show ?thesis
      using alone_enter [OF s1(2,3) _ s1(4)] alone_release [OF inv(1,3) s1(1)] by blast
  qed (use ev v Resume inv(3) in \<open>auto simp: alone_def\<close>)
qed

lemma qreach_alone: "qreach mem (only t) s \<Longrightarrow> length mem = 64 \<Longrightarrow> alone t s"
proof (induction rule: qreach.induct)
  case start
  then show ?case
    by (simp add: alone_def)
next
  case (step s v s')
  then show ?case
    using qreach_inv [OF step.hyps(1)] alone_event by blast
qed

section \<open>Properties\<close>

fun run_events :: "event list \<Rightarrow> qsys \<Rightarrow> qsys option" where
  "run_events [] s = Some s"
| "run_events (v # vs) s = (case event_result v s of Some (Inr s') \<Rightarrow> run_events vs s' | _ \<Rightarrow> None)"

lemma qreach_run: "qreach mem ok s \<Longrightarrow> run_events vs s = Some s' \<Longrightarrow> list_all ok vs \<Longrightarrow> qreach mem ok s'"
  by (induction vs arbitrary: s) (auto split: option.splits sum.splits intro: qreach.step)

text \<open>
  C24. An interrupt queue is a queue of at most 63 bytes. In every interleaving of any number of threads with interrupt
  handlers the bytes taken and those in the ring are the bytes added, in the same order. A thread in
  \<open>wait\<close> waits for something that is not yet the case, and a call or handler that adds or takes a byte wakes it up. The only
  step that can fail is that of a thread that has waited for the lock of the queue.
\<close>

theorem intq_fifo:
  assumes "qreach mem ok s" "length mem = 64"
  shows "taken s @ ring (que s) = added s \<and> length (ring (que s)) \<le> 63 \<and>
    (\<forall>t c. at s t = Cond_wait c \<longrightarrow> would_block c (que s)) \<and>
    (\<forall>v s' t c. event_result v s = Some (Inr s') \<and> (\<forall>u. v \<noteq> Resume u) \<and> (taken s' \<noteq> taken s \<or> added s' \<noteq> added s) \<and>
       at s t = Cond_wait c \<longrightarrow> at s' t = Cond_ready c) \<and>
    (\<forall>v e. event_result v s = Some (Inl e) \<longrightarrow> (\<exists>t c. v = Resume t \<and> at s t = Lock_ready c))"
proof -
  have inv: "qinv s" "lock_woken s"
    using qreach_inv [OF assms] by simp_all
  have "\<exists>t c. v = Resume t \<and> at s t = Lock_ready c" if "event_result v s = Some (Inl e)" for v e
    using event_ok [OF inv that] by auto
  moreover have "taken s @ ring (que s) = added s" "registered s"
    using inv(1) by (simp_all add: qinv_def)
  ultimately show ?thesis
    using in_ring_bound [of "que s"] wakes [OF inv] waits_blocked [of s] by (simp add: less_Suc_eq_le [symmetric]) blast
qed

definition ex_ring :: "u8 list" where "ex_ring = replicate 64 0"

lemma ex_ring_length: "length ex_ring = 64"
  by (simp add: ex_ring_def)

definition ex_start :: qsys where
  "ex_start = \<lparr>que = intq_init ex_ring, at = (\<lambda>_. Running), taken = [], added = []\<rparr>"

lemma ex_run:
  assumes "\<not> Option.is_none (run_events vs ex_start)" "list_all ok vs"
  shows "qreach ex_ring ok (the (run_events vs ex_start))"
  using assms qreach_run [of ex_ring ok ex_start vs] qreach.start [of ex_ring ok]
  by (cases "run_events vs ex_start") (auto simp: ex_start_def)

theorem intq_fifo_witness:
  "\<exists>s. qreach ex_ring (\<lambda>_. True) s \<and> added s = [7, 8] \<and> taken s = [7] \<and> ring (que s) = [8]"
proof -
  let ?vs = "[Call 1 Getc, Handler (Putc 7), Resume 1, Handler (Putc 8)]"
  let ?s = "the (run_events ?vs ex_start)"
  have "\<not> Option.is_none (run_events ?vs ex_start)" and r: "added ?s = [7, 8]" "taken ?s = [7]"
    by code_simp+
  then have q: "qreach ex_ring (\<lambda>_. True) ?s"
    by (intro ex_run) simp_all
  have "taken ?s @ ring (que ?s) = added ?s"
    using intq_fifo [OF q ex_ring_length] by (rule conjunct1)
  then have "ring (que ?s) = [8]"
    unfolding r append.simps by blast
  then show ?thesis
    using q r by blast
qed

text \<open>
  With one thread no assertion of the queue fails, whatever the interrupt handlers do between its steps, provided that a handler
  tests the queue before it calls.
\<close>

theorem intq_one_thread_safe:
  assumes "qreach mem (only t) s" "length mem = 64" "only t v" "event_result v s = Some r"
  shows "\<exists>s'. r = Inr s'"
proof -
  have inv: "qinv s" "lock_woken s"
    using qreach_inv [OF assms(1,2)] by simp_all
  show ?thesis
    using event_ok [OF inv assms(4)] qreach_alone [OF assms(1,2)] assms(3) by (auto simp: alone_def)
qed

theorem intq_one_thread_safe_witness:
  "\<exists>s s'. qreach ex_ring (only 1) s \<and> event_result (Resume 1) s = Some (Inr s')"
proof -
  let ?vs = "[Call 1 Getc, Handler (Putc 7)]"
  let ?s = "the (run_events ?vs ex_start)"
  have "\<not> Option.is_none (run_events ?vs ex_start)" "\<not> Option.is_none (event_result (Resume 1) ?s)"
    by code_simp+
  then obtain r where r: "event_result (Resume 1) ?s = Some r" and q: "qreach ex_ring (only 1) ?s"
    using ex_run [of ?vs "only 1"] by (auto simp: Option.is_none_def)
  then show ?thesis
    using intq_one_thread_safe [OF q ex_ring_length _ r] by auto
qed

text \<open>
  C28. Two threads that read from an empty queue can make the kernel panic: the second one waits for the lock of the queue; when
  it gets the lock, a byte has arrived in the meantime, and the assertion in \<open>wait\<close> that the queue is empty fails.
\<close>

theorem intq_wait_race:
  "\<exists>s. qreach ex_ring (\<lambda>_. True) s \<and> at s 2 = Lock_ready Getc \<and> event_result (Resume 2) s = Some (Inl Assert_fail)"
proof -
  let ?vs = "[Call 1 Getc, Call 2 Getc, Handler (Putc 7), Resume 1, Handler (Putc 8)]"
  let ?s = "the (run_events ?vs ex_start)"
  have "\<not> Option.is_none (run_events ?vs ex_start)" and a: "at ?s 2 = Lock_ready Getc"
    and v: "lock_value (que ?s) = 1 \<and> q_head (que ?s) = 2 \<and> q_tail (que ?s) = 1"
    by code_simp+
  then have q: "qreach ex_ring (\<lambda>_. True) ?s"
    by (intro ex_run) simp_all
  have "qinv (move 2 Running ?s)"
    using qinv_running [OF _ a] qreach_inv [OF q ex_ring_length] by blast
  then have "event_result (Resume 2) ?s = Some (Inl Assert_fail)"
    using acquire_fails [of "move 2 Running ?s" Getc 2] a v by (simp add: move_def)
  then show ?thesis
    using q a by blast
qed

end
