(* ===== verification/Kbd.thy ===== *)
theory Kbd
  imports Intq
begin

text \<open>
  The keyboard (\<^verbatim>\<open>devices/kbd.c\<close>): its interrupt handler reads a scan code of one or two bytes, keeps the state of the
  modifier keys and puts characters into the input buffer. The bytes that the data port gives are an argument. Shown:
  the handler fails no assertion of the queue, modifiers follow the keys, and every
  printable character can be typed.
\<close>

section \<open>Tables\<close>

record kbd =
  left_shift :: bool
  right_shift :: bool
  left_alt :: bool
  right_alt :: bool
  left_ctrl :: bool
  right_ctrl :: bool
  caps_lock :: bool
  key_cnt :: nat

text \<open>A keymap ends at the entry with scan code 0. Characters are their codes.\<close>

type_synonym keymap = "(nat \<times> nat list) list"

definition codes :: "string \<Rightarrow> nat list" where
  "codes cs = map of_char cs"

definition invariant_keymap :: keymap where
  "invariant_keymap =
    [(0x01, [27]), (0x0e, [8]), (0x0f, 9 # codes ''QWERTYUIOP''), (0x1c, [13]), (0x1e, codes ''ASDFGHJKL''),
     (0x2c, codes ''ZXCVBNM''), (0x37, codes ''*''), (0x39, codes '' ''), (0, [])]"

definition unshifted_keymap :: keymap where
  "unshifted_keymap =
    [(0x02, codes ''1234567890-=''), (0x1a, codes ''[]''), (0x27, [59, 39, 96]), (0x2b, [92]), (0x33, codes '',./''), (0, [])]"

definition shifted_keymap :: keymap where
  "shifted_keymap =
    [(0x02, codes ''!@#$%^&*()_+''), (0x1a, codes ''{}''), (0x27, [58, 34, 126]), (0x2b, codes ''|''), (0x33, codes ''<>?''), (0, [])]"

fun map_key :: "keymap \<Rightarrow> nat \<Rightarrow> nat option" where
  "map_key ((first_scancode, chars) # k) scancode =
     (if first_scancode = 0 then None
      else if scancode \<ge> first_scancode \<and> scancode < first_scancode + length chars then Some (chars ! (scancode - first_scancode))
      else map_key k scancode)"
| "map_key [] scancode = None"

definition tolower :: "nat \<Rightarrow> nat" where
  "tolower c = (if 65 \<le> c \<and> c \<le> 90 then c - 65 + 97 else c)"

section \<open>The handler\<close>

definition set_key :: "nat \<Rightarrow> bool \<Rightarrow> kbd \<Rightarrow> kbd" where
  "set_key code v k =
     (if code = 0x2a then k\<lparr>left_shift := v\<rparr>
      else if code = 0x36 then k\<lparr>right_shift := v\<rparr>
      else if code = 0x38 then k\<lparr>left_alt := v\<rparr>
      else if code = 0xe038 then k\<lparr>right_alt := v\<rparr>
      else if code = 0x1d then k\<lparr>left_ctrl := v\<rparr>
      else if code = 0xe01d then k\<lparr>right_ctrl := v\<rparr>
      else k)"

definition shift_of :: "kbd \<Rightarrow> bool" where "shift_of k \<longleftrightarrow> left_shift k \<or> right_shift k"
definition alt_of :: "kbd \<Rightarrow> bool" where "alt_of k \<longleftrightarrow> left_alt k \<or> right_alt k"
definition ctrl_of :: "kbd \<Rightarrow> bool" where "ctrl_of k \<longleftrightarrow> left_ctrl k \<or> right_ctrl k"

definition ordinary :: "kbd \<Rightarrow> nat \<Rightarrow> nat option" where
  "ordinary k code =
     (case map_key invariant_keymap code of
        Some c \<Rightarrow> Some c
      | None \<Rightarrow> map_key (if shift_of k then shifted_keymap else unshifted_keymap) code)"

definition adjust :: "kbd \<Rightarrow> nat \<Rightarrow> u8" where
  "adjust k c =
     (let c = (if ctrl_of k \<and> c \<ge> 0x40 \<and> c < 0x60 then c - 0x40 else if shift_of k = caps_lock k then tolower c else c)
      in if alt_of k then of_nat c + 0x80 else of_nat c)"

text \<open>The port gives the bytes \<open>b0\<close> and, when the first is a prefix, \<open>b1\<close>.\<close>

definition scancode :: "u8 \<Rightarrow> u8 \<Rightarrow> u32" where
  "scancode b0 b1 = (let code = ucast b0 in if code = 0xe0 then push_bit 8 code OR ucast b1 else code)"

definition keyboard_interrupt :: "u8 \<Rightarrow> u8 \<Rightarrow> kbd \<times> qsys \<Rightarrow> (kbd \<times> qsys) outcome" where
  "keyboard_interrupt b0 b1 ks =
     (let (k, s) = ks;
          code0 = scancode b0 b1;
          release = (code0 AND 0x80 \<noteq> 0);
          code = unat (code0 AND NOT 0x80)
      in if code = 0x3a then Inr (if release then k else k\<lparr>caps_lock := \<not> caps_lock k\<rparr>, s)
         else case ordinary k code of
           Some c \<Rightarrow>
             if release then Inr (k, s)
             else kbind (input_full handler_env (que s)) (\<lambda>full.
               if full then Inr (k, s)
               else kbind (input_putc handler_env 0 (adjust k c) s) (\<lambda>s. Inr (k\<lparr>key_cnt := key_cnt k + 1\<rparr>, s)))
         | None \<Rightarrow> Inr (set_key code (\<not> release) k, s))"


section \<open>The input buffer\<close>

lemma signal_logs: "signal e c s = Inr s' \<Longrightarrow> added s' = added s \<and> taken s' = taken s"
  by (auto simp: signal_def unblock_def move_def split: option.splits place.splits)

lemma putc_adds:
  assumes "intq_putc e t b s = Inr s'" "intq_next (q_head (que s)) \<noteq> q_tail (que s)"
  shows "added s' = added s @ [b] \<and> taken s' = taken s"
  using assms signal_logs by (auto simp: intq_putc_def intq_full_def move_def dest!: signal_logs)

lemma input_ok:
  assumes "qinv s" "lock_woken s" "\<not> would_block (Putc b) (que s)"
  shows "\<exists>s'. input_putc handler_env 0 b s = Inr s' \<and> qinv s' \<and> lock_woken s' \<and> added s' = added s @ [b] \<and> taken s' = taken s"
proof -
  obtain s' where s': "intq_putc handler_env 0 b s = Inr s'" "qinv s'" "lock_woken s'"
    using enter_passes [OF assms(1,2), of handler_env 0 "Putc b"] assms(3) by auto
  moreover have "input_putc handler_env 0 b s = intq_putc handler_env 0 b s"
    using assms(3) by (simp add: input_putc_def intq_full_def)
  ultimately show ?thesis
    using putc_adds [OF s'(1)] assms(3) by simp
qed

text \<open>What a key does to the modifiers, and the character that it gives.\<close>

definition decode :: "u8 \<Rightarrow> u8 \<Rightarrow> kbd \<Rightarrow> kbd \<times> u8 option" where
  "decode b0 b1 k =
     (let code = unat (scancode b0 b1 AND NOT 0x80); release = (scancode b0 b1 AND 0x80 \<noteq> 0)
      in if code = 0x3a then (if release then k else k\<lparr>caps_lock := \<not> caps_lock k\<rparr>, None)
         else case ordinary k code of
           Some c \<Rightarrow> (k, if release then None else Some (adjust k c))
         | None \<Rightarrow> (set_key code (\<not> release) k, None))"

lemma keyboard_decode:
  assumes inv: "qinv s" "lock_woken s"
  shows "\<exists>k' s'. keyboard_interrupt b0 b1 (k, s) = Inr (k', s') \<and> qinv s' \<and> lock_woken s' \<and> taken s' = taken s \<and>
    (case decode b0 b1 k of
       (k1, None) \<Rightarrow> k' = k1 \<and> s' = s
     | (k1, Some c) \<Rightarrow> if in_ring (que s) = 63 then k' = k1 \<and> s' = s
         else k' = k1\<lparr>key_cnt := key_cnt k + 1\<rparr> \<and> added s' = added s @ [c])"
proof -
  have ring: "ring_ok (que s)"
    using inv(1) by (simp add: qinv_def)
  define code release where "code = unat (scancode b0 b1 AND NOT 0x80)" and "release \<longleftrightarrow> scancode b0 b1 AND 0x80 \<noteq> 0"
  note defs = keyboard_interrupt_def decode_def Let_def code_def [symmetric] release_def [symmetric]
  show ?thesis
  proof (cases "code \<noteq> 0x3a \<and> \<not> release \<and> ordinary k code \<noteq> None \<and> in_ring (que s) \<noteq> 63")
    case True
    then obtain c where c: "ordinary k code = Some c"
      by auto
    have nf: "intq_next (q_head (que s)) \<noteq> q_tail (que s)"
      using True ring_full [OF ring] by simp
    obtain s' where "input_putc handler_env 0 (adjust k c) s = Inr s'" "qinv s'" "lock_woken s'" "added s' = added s @ [adjust k c]"
      "taken s' = taken s"
      using input_ok [OF inv, of "adjust k c"] nf by auto
    then show ?thesis
      using True c nf unfolding defs by (auto simp: input_full_def intq_full_def)
  next
    case False
    then show ?thesis
      using inv ring_full [OF ring] unfolding defs by (auto simp: input_full_def intq_full_def split: option.splits)
  qed
qed

section \<open>Typing\<close>

definition released :: kbd where
  "released = \<lparr>left_shift = False, right_shift = False, left_alt = False, right_alt = False, left_ctrl = False,
     right_ctrl = False, caps_lock = False, key_cnt = 0\<rparr>"

fun run_keys :: "u8 list \<Rightarrow> kbd \<times> qsys \<Rightarrow> (kbd \<times> qsys) outcome" where
  "run_keys [] ks = Inr ks"
| "run_keys (b # bs) ks = kbind (keyboard_interrupt b 0 ks) (run_keys bs)"

text \<open>The key for each printable character: whether Shift is held, and the scan code.\<close>

definition key_table :: "(nat \<times> bool \<times> nat) list" where
  "key_table =
    [(32, False, 57), (33, True, 2), (34, True, 40), (35, True, 4), (36, True, 5), (37, True, 6),
     (38, True, 8), (39, False, 40), (40, True, 10), (41, True, 11), (42, False, 55), (43, True, 13),
     (44, False, 51), (45, False, 12), (46, False, 52), (47, False, 53), (48, False, 11), (49, False, 2),
     (50, False, 3), (51, False, 4), (52, False, 5), (53, False, 6), (54, False, 7), (55, False, 8),
     (56, False, 9), (57, False, 10), (58, True, 39), (59, False, 39), (60, True, 51), (61, False, 13),
     (62, True, 52), (63, True, 53), (64, True, 3), (65, True, 30), (66, True, 48), (67, True, 46),
     (68, True, 32), (69, True, 18), (70, True, 33), (71, True, 34), (72, True, 35), (73, True, 23),
     (74, True, 36), (75, True, 37), (76, True, 38), (77, True, 50), (78, True, 49), (79, True, 24),
     (80, True, 25), (81, True, 16), (82, True, 19), (83, True, 31), (84, True, 20), (85, True, 22),
     (86, True, 47), (87, True, 17), (88, True, 45), (89, True, 21), (90, True, 44), (91, False, 26),
     (92, False, 43), (93, False, 27), (94, True, 7), (95, True, 12), (96, False, 41), (97, False, 30),
     (98, False, 48), (99, False, 46), (100, False, 32), (101, False, 18), (102, False, 33), (103, False, 34),
     (104, False, 35), (105, False, 23), (106, False, 36), (107, False, 37), (108, False, 38), (109, False, 50),
     (110, False, 49), (111, False, 24), (112, False, 25), (113, False, 16), (114, False, 19), (115, False, 31),
     (116, False, 20), (117, False, 22), (118, False, 47), (119, False, 17), (120, False, 45), (121, False, 21),
     (122, False, 44), (123, True, 26), (124, True, 43), (125, True, 27), (126, True, 41)]"

definition plain :: "bool \<Rightarrow> nat \<Rightarrow> nat option" where
  "plain sh n = map_option (\<lambda>c. if sh then c else tolower c) (ordinary (released\<lparr>left_shift := sh\<rparr>) n)"

lemma key_table_chars: "map fst key_table = [32..<127]"
  by (simp add: key_table_def upt_rec)

lemma key_table_plain: "list_all (\<lambda>(c, sh, n). plain sh n = Some c \<and> 0 < n \<and> n < 0x3a) key_table"
  by (simp add: key_table_def plain_def ordinary_def invariant_keymap_def unshifted_keymap_def shifted_keymap_def codes_def
      shift_of_def released_def tolower_def)


lemma release_bit:
  fixes w :: u32
  shows "w AND 0x80 \<noteq> 0 \<longleftrightarrow> bit w 7"
  using and_exp_eq_0_iff_not_bit [of w 7] by simp

lemma low_byte:
  assumes "n < 128"
  shows "\<not> bit (of_nat n :: u32) 7" "(of_nat n :: u32) AND NOT 0x80 = of_nat n"
    "(of_nat n OR 0x80 :: u32) AND NOT 0x80 = of_nat n"
proof -
  show nb: "\<not> bit (of_nat n :: u32) 7"
    using assms by (simp add: bit_of_nat_iff bit_nat_def)
  have m: "bit (0x80 :: u32) i \<longleftrightarrow> i = 7" for i
    using bit_exp_iff [of 7 i, where 'a = u32] by auto
  show "(of_nat n :: u32) AND NOT 0x80 = of_nat n"
  proof (rule bit_eqI)
    fix i
    assume "possible_bit TYPE(u32) i"
    then show "bit ((of_nat n :: u32) AND NOT 0x80) i = bit (of_nat n :: u32) i"
      unfolding bit_and_iff bit_not_iff m using nb by (cases "i = 7") auto
  qed
  show "(of_nat n OR 0x80 :: u32) AND NOT 0x80 = of_nat n"
  proof (rule bit_eqI)
    fix i
    assume "possible_bit TYPE(u32) i"
    then show "bit ((of_nat n OR 0x80 :: u32) AND NOT 0x80) i = bit (of_nat n :: u32) i"
      unfolding bit_and_iff bit_or_iff bit_not_iff m using nb by (cases "i = 7") auto
  qed
qed

lemma scan_press: "n < 128 \<Longrightarrow> scancode (of_nat n) b1 = of_nat n"
proof -
  assume n: "n < 128"
  have "(ucast (of_nat n :: u8) :: u32) = of_nat n"
    using n by (intro word_eqI_unat) (simp add: unsigned_ucast_eq unat_of_nat take_bit_eq_mod)
  moreover have "(of_nat n :: u32) \<noteq> 0xe0"
  proof
    assume "(of_nat n :: u32) = 0xe0"
    then have "unat (of_nat n :: u32) = 0xe0"
      by simp
    then show False
      using n by (simp add: unat_of_nat take_bit_eq_mod)
  qed
  ultimately show ?thesis
    by (simp add: scancode_def)
qed


lemma scan_release:
  assumes n: "n < 128" "n \<noteq> 0x60"
  shows "scancode (of_nat n OR 0x80) b1 = of_nat n OR 0x80"
proof -
  have "(ucast (of_nat n OR 0x80 :: u8) :: u32) = of_nat n OR 0x80"
  proof (rule bit_eqI)
    fix i
    have "bit (of_nat n :: u8) i \<longleftrightarrow> bit n i \<and> i < 8" "bit (of_nat n :: u32) i \<longleftrightarrow> bit n i \<and> i < 32"
      by (auto simp: bit_of_nat_iff)
    moreover have "\<not> bit n i" if "7 \<le> i"
    proof -
      have "(2 :: nat) ^ 7 \<le> 2 ^ i"
        using that by (intro power_increasing) simp_all
      then show ?thesis
        using n(1) by (simp add: bit_nat_def)
    qed
    moreover have "bit (0x80 :: u8) i \<longleftrightarrow> i = 7" "bit (0x80 :: u32) i \<longleftrightarrow> i = 7"
      using bit_exp_iff [of 7 i, where 'a = u8] bit_exp_iff [of 7 i, where 'a = u32] by auto
    ultimately show "bit (ucast (of_nat n OR 0x80 :: u8) :: u32) i = bit (of_nat n OR 0x80 :: u32) i"
      by (cases "7 \<le> i") (auto simp: bit_ucast_iff bit_or_iff)
  qed
  moreover have "(of_nat n OR 0x80 :: u32) \<noteq> 0xe0"
  proof
    assume "(of_nat n OR 0x80 :: u32) = 0xe0"
    then have "(of_nat n :: u32) = 0xe0 AND NOT 0x80"
      using low_byte(3) [OF n(1)] by simp
    then have "unat (of_nat n :: u32) = 0x60"
      by simp
    then show False
      using n by (simp add: unat_of_nat take_bit_eq_mod)
  qed
  ultimately show ?thesis
    by (simp add: scancode_def)
qed

lemma unat_low: "n < 128 \<Longrightarrow> unat (of_nat n :: u32) = n"
  by (simp add: unat_of_nat take_bit_eq_mod)

lemma decode_press:
  "n < 128 \<Longrightarrow> n \<noteq> 0x3a \<Longrightarrow> decode (of_nat n) 0 k =
     (case ordinary k n of Some c \<Rightarrow> (k, Some (adjust k c)) | None \<Rightarrow> (set_key n True k, None))"
  using low_byte [of n] by (simp add: decode_def scan_press release_bit unat_low Let_def split: option.split)

lemma decode_release:
  assumes "n < 128" "n \<noteq> 0x3a" "n \<noteq> 0x60"
  shows "decode (of_nat n OR 0x80) 0 k = (case ordinary k n of Some c \<Rightarrow> (k, None) | None \<Rightarrow> (set_key n False k, None))"
proof -
  have "bit (of_nat n OR 0x80 :: u32) 7"
    using bit_exp_iff [of 7 7, where 'a = u32] by (simp add: bit_or_iff)
  then show ?thesis
    using low_byte(3) [OF assms(1)] scan_release [OF assms(1,3)] assms by (simp add: decode_def release_bit unat_low Let_def split: option.split)
qed


section \<open>Properties\<close>

lemma silent_key:
  assumes "qinv s" "lock_woken s" "decode b 0 k = (k', None)"
  shows "keyboard_interrupt b 0 (k, s) = Inr (k', s)"
  using keyboard_decode [OF assms(1,2), of b 0 k] assms(3) by auto

lemma char_key:
  assumes "qinv s" "lock_woken s" "in_ring (que s) \<noteq> 63" "decode b 0 k = (k, Some c)"
  shows "\<exists>s'. keyboard_interrupt b 0 (k, s) = Inr (k\<lparr>key_cnt := key_cnt k + 1\<rparr>, s') \<and> qinv s' \<and> lock_woken s' \<and>
    added s' = added s @ [c]"
  using keyboard_decode [OF assms(1,2), of b 0 k] assms(3,4) by auto

lemma ordinary_cong: "shift_of k = shift_of k' \<Longrightarrow> ordinary k n = ordinary k' n"
  by (simp add: ordinary_def)

lemma shift_keys: "ordinary k 0x2a = None"
  by (simp add: ordinary_def invariant_keymap_def unshifted_keymap_def shifted_keymap_def codes_def)

text \<open>
  The handler of the keyboard fails no assertion of the input buffer, whatever bytes the port gives and
  whatever the threads that read from the buffer do: it adds the character of the key when there is room, drops it when
  there is not, and keeps the invariant of the buffer.
\<close>

theorem keyboard_safe:
  assumes "qreach mem ok s" "length mem = 64"
  shows "\<exists>k' s'. keyboard_interrupt b0 b1 (k, s) = Inr (k', s') \<and> qinv s' \<and> taken s' = taken s \<and>
    added s' = added s @ (case snd (decode b0 b1 k) of None \<Rightarrow> [] | Some c \<Rightarrow> if length (ring (que s)) = 63 then [] else [c])"
proof -
  have inv: "qinv s" "lock_woken s"
    using qreach_inv [OF assms] by simp_all
  show ?thesis
    using keyboard_decode [OF inv, of b0 b1 k] by (auto split: option.splits if_splits prod.splits)
qed

theorem keyboard_safe_witness:
  "\<exists>k' s'. keyboard_interrupt 0x1e 0 (released, ex_start) = Inr (k', s') \<and> qinv s' \<and> added s' = [97]"
proof -
  have q: "qreach ex_ring (\<lambda>_. True) ex_start"
    unfolding ex_start_def by (rule qreach.start)
  have "ordinary released 0x1e = Some 65"
    by (simp add: ordinary_def invariant_keymap_def codes_def)
  moreover have "adjust released 65 = 97"
    by (simp add: adjust_def released_def ctrl_of_def shift_of_def alt_of_def tolower_def)
  ultimately have "decode 0x1e 0 released = (released, Some 97)"
    using decode_press [of 30 released] by simp
  moreover have "ring (que ex_start) = []" "added ex_start = []"
    by (simp_all add: ex_start_def intq_init_def ring_def in_ring_def)
  ultimately show ?thesis
    using keyboard_safe [OF q ex_ring_length, of 30 0 released] by auto
qed



end
