(* ===== verification/Ata.thy ===== *)
theory Ata
  imports Inode Stdlib
begin

text \<open>
  The driver of the disks (\<^verbatim>\<open>devices/disk.c\<close>) at the level of the input and output ports of an ATA controller. The
  controller is not part of the program: reading and writing ports, the passing of time and the wait for
  the interrupt of the channel are an argument, a record of functions on the state of the hardware. The names of
  channels and disks, which are only printed, and the messages are left out, but for the model and
  serial strings of a disk. The lock of a channel makes a call one step.

  Shown: on a controller that behaves as the ATA standard says, reading and writing sectors returns and does
  what the file system theories assume of \<^verbatim>\<open>disk_read\<close> and \<^verbatim>\<open>disk_write\<close>.
\<close>

section \<open>The hardware as an argument\<close>

record 'h ports =
  inb :: "'h \<Rightarrow> nat \<Rightarrow> u8 \<times> 'h"
  outb :: "'h \<Rightarrow> nat \<Rightarrow> u8 \<Rightarrow> 'h"
  insw :: "'h \<Rightarrow> nat \<Rightarrow> nat \<Rightarrow> u8 list \<times> 'h"
  outsw :: "'h \<Rightarrow> nat \<Rightarrow> u8 list \<Rightarrow> 'h"
  sleep :: "'h \<Rightarrow> nat \<Rightarrow> 'h"            \<comment> \<open>nanoseconds pass\<close>
  await :: "'h \<Rightarrow> nat \<Rightarrow> 'h option"     \<comment> \<open>the interrupt with this vector, if it ever comes\<close>

section \<open>Disks and channels\<close>

record ata_disk =
  dev_no :: nat
  is_ata :: bool
  sectors :: nat
  read_cnt :: nat
  write_cnt :: nat

record channel =
  reg_base :: nat
  irq :: nat
  expecting_interrupt :: bool
  completion_wait :: nat
  devices :: "ata_disk list"

definition reg_data :: "channel \<Rightarrow> nat" where "reg_data c = reg_base c + 0"
definition reg_error :: "channel \<Rightarrow> nat" where "reg_error c = reg_base c + 1"
definition reg_nsect :: "channel \<Rightarrow> nat" where "reg_nsect c = reg_base c + 2"
definition reg_lbal :: "channel \<Rightarrow> nat" where "reg_lbal c = reg_base c + 3"
definition reg_lbam :: "channel \<Rightarrow> nat" where "reg_lbam c = reg_base c + 4"
definition reg_lbah :: "channel \<Rightarrow> nat" where "reg_lbah c = reg_base c + 5"
definition reg_device :: "channel \<Rightarrow> nat" where "reg_device c = reg_base c + 6"
definition reg_status :: "channel \<Rightarrow> nat" where "reg_status c = reg_base c + 7"
definition reg_command :: "channel \<Rightarrow> nat" where "reg_command c = reg_status c"
definition reg_ctl :: "channel \<Rightarrow> nat" where "reg_ctl c = reg_base c + 0x206"
definition reg_alt_status :: "channel \<Rightarrow> nat" where "reg_alt_status c = reg_ctl c"

lemmas regs = reg_data_def reg_error_def reg_nsect_def reg_lbal_def reg_lbam_def reg_lbah_def reg_device_def reg_status_def
  reg_command_def reg_ctl_def reg_alt_status_def

definition STA_BSY :: u8 where "STA_BSY = 0x80"
definition STA_DRDY :: u8 where "STA_DRDY = 0x40"
definition STA_DRQ :: u8 where "STA_DRQ = 0x08"
definition CTL_SRST :: u8 where "CTL_SRST = 0x04"
definition DEV_MBS :: u8 where "DEV_MBS = 0xa0"
definition DEV_LBA :: u8 where "DEV_LBA = 0x40"
definition DEV_DEV :: u8 where "DEV_DEV = 0x10"
definition CMD_IDENTIFY_DEVICE :: u8 where "CMD_IDENTIFY_DEVICE = 0xec"
definition CMD_READ_SECTOR_RETRY :: u8 where "CMD_READ_SECTOR_RETRY = 0x20"
definition CMD_WRITE_SECTOR_RETRY :: u8 where "CMD_WRITE_SECTOR_RETRY = 0x30"

section \<open>Waiting and selecting\<close>

fun idle_loop :: "'h ports \<Rightarrow> channel \<Rightarrow> nat \<Rightarrow> 'h \<Rightarrow> 'h" where
  "idle_loop hw c 0 h = h"
| "idle_loop hw c (Suc n) h =
     (let (status, h) = inb hw h (reg_status c)
      in if status AND (STA_BSY OR STA_DRQ) = 0 then h else idle_loop hw c n (sleep hw h 10000))"

definition wait_until_idle :: "'h ports \<Rightarrow> channel \<Rightarrow> 'h \<Rightarrow> 'h" where
  "wait_until_idle hw c h = idle_loop hw c 1000 h"

fun busy_loop :: "'h ports \<Rightarrow> channel \<Rightarrow> nat \<Rightarrow> 'h \<Rightarrow> bool \<times> 'h" where
  "busy_loop hw c 0 h = (False, h)"
| "busy_loop hw c (Suc n) h =
     (let (status, h) = inb hw h (reg_alt_status c)
      in if status AND STA_BSY = 0
         then let (status, h) = inb hw h (reg_alt_status c) in (status AND STA_DRQ \<noteq> 0, h)
         else busy_loop hw c n (sleep hw h 10000000))"

definition wait_while_busy :: "'h ports \<Rightarrow> channel \<Rightarrow> 'h \<Rightarrow> bool \<times> 'h" where
  "wait_while_busy hw c h = busy_loop hw c 3000 h"

definition select_device :: "'h ports \<Rightarrow> channel \<Rightarrow> ata_disk \<Rightarrow> 'h \<Rightarrow> 'h" where
  "select_device hw c d h =
     (let dev = (if dev_no d = 1 then DEV_MBS OR DEV_DEV else DEV_MBS);
          h = outb hw h (reg_device c) dev;
          (_, h) = inb hw h (reg_alt_status c)
      in sleep hw h 400)"

definition select_device_wait :: "'h ports \<Rightarrow> channel \<Rightarrow> ata_disk \<Rightarrow> 'h \<Rightarrow> 'h" where
  "select_device_wait hw c d h = wait_until_idle hw c (select_device hw c d (wait_until_idle hw c h))"

definition select_sector :: "'h ports \<Rightarrow> channel \<Rightarrow> ata_disk \<Rightarrow> u32 \<Rightarrow> 'h \<Rightarrow> 'h outcome" where
  "select_sector hw c d sec_no h =
     kbind (kassert (unat sec_no < sectors d)) (\<lambda>_.
     kbind (kassert (sec_no < push_bit 28 1)) (\<lambda>_.
       let h = select_device_wait hw c d h;
           h = outb hw h (reg_nsect c) 1;
           h = outb hw h (reg_lbal c) (ucast sec_no);
           h = outb hw h (reg_lbam c) (ucast (drop_bit 8 sec_no));
           h = outb hw h (reg_lbah c) (ucast (drop_bit 16 sec_no))
       in Inr (outb hw h (reg_device c)
            (ucast (ucast DEV_MBS OR ucast DEV_LBA OR (if dev_no d = 1 then ucast DEV_DEV else 0) OR drop_bit 24 sec_no)))))"

section \<open>Commands and interrupts\<close>

text \<open>\<open>on\<close> says that interrupts are on.\<close>

definition issue_pio_command :: "'h ports \<Rightarrow> bool \<Rightarrow> channel \<Rightarrow> u8 \<Rightarrow> 'h \<Rightarrow> (channel \<times> 'h) outcome" where
  "issue_pio_command hw on c command h =
     kbind (kassert on) (\<lambda>_.
       Inr (c\<lparr>expecting_interrupt := True\<rparr>, outb hw h (reg_command c) command))"

definition input_sector :: "'h ports \<Rightarrow> channel \<Rightarrow> 'h \<Rightarrow> u8 list \<times> 'h" where
  "input_sector hw c h = insw hw h (reg_data c) 256"

definition output_sector :: "'h ports \<Rightarrow> channel \<Rightarrow> u8 list \<Rightarrow> 'h \<Rightarrow> 'h" where
  "output_sector hw c buf h = outsw hw h (reg_data c) buf"

fun interrupt_handler :: "'h ports \<Rightarrow> nat \<Rightarrow> channel list \<Rightarrow> 'h \<Rightarrow> (channel list \<times> 'h) outcome" where
  "interrupt_handler hw vec_no [] h = Inl Assert_fail"
| "interrupt_handler hw vec_no (c # cs) h =
     (if vec_no = irq c
      then if expecting_interrupt c
           then let (_, h) = inb hw h (reg_status c)
                in Inr (c\<lparr>completion_wait := completion_wait c + 1\<rparr> # cs, h)
           else Inr (c # cs, h)
      else kbind (interrupt_handler hw vec_no cs h) (\<lambda>(cs, h). Inr (c # cs, h)))"

text \<open>
  \<^verbatim>\<open>sema_down\<close> on the semaphore of channel number \<open>i\<close>: while it is 0 the thread sleeps until the interrupt of the channel has
  been handled.
\<close>

partial_function (option) completion_down :: "'h ports \<Rightarrow> nat \<Rightarrow> channel list \<Rightarrow> 'h \<Rightarrow> (channel list \<times> 'h) run" where
  "completion_down hw i cs h =
     (if completion_wait (cs ! i) = 0
      then Option.bind (await hw h (irq (cs ! i))) (\<lambda>h.
           rbind (Some (interrupt_handler hw (irq (cs ! i)) cs h)) (\<lambda>(cs, h). completion_down hw i cs h))
      else Some (Inr (cs[i := (cs ! i)\<lparr>completion_wait := completion_wait (cs ! i) - 1\<rparr>], h)))"

section \<open>Sectors\<close>

definition count_read :: "nat \<Rightarrow> channel \<Rightarrow> channel" where
  "count_read j c = c\<lparr>devices := (devices c)[j := (devices c ! j)\<lparr>read_cnt := read_cnt (devices c ! j) + 1\<rparr>]\<rparr>"

definition count_write :: "nat \<Rightarrow> channel \<Rightarrow> channel" where
  "count_write j c = c\<lparr>devices := (devices c)[j := (devices c ! j)\<lparr>write_cnt := write_cnt (devices c ! j) + 1\<rparr>]\<rparr>"

text \<open>Disk \<open>j\<close> of channel \<open>i\<close>.\<close>

definition ata_read :: "'h ports \<Rightarrow> bool \<Rightarrow> channel list \<Rightarrow> nat \<Rightarrow> nat \<Rightarrow> u32 \<Rightarrow> 'h \<Rightarrow> (u8 list \<times> channel list \<times> 'h) run" where
  "ata_read hw on cs i j sec_no h =
     rbind (Some (select_sector hw (cs ! i) (devices (cs ! i) ! j) sec_no h)) (\<lambda>h.
     rbind (Some (issue_pio_command hw on (cs ! i) CMD_READ_SECTOR_RETRY h)) (\<lambda>(c, h).
     rbind (completion_down hw i (cs[i := c]) h) (\<lambda>(cs, h).
       let (drq, h) = wait_while_busy hw (cs ! i) h
       in if \<not> drq then Some (Inl Kernel_panic)
          else let (buf, h) = input_sector hw (cs ! i) h
               in Some (Inr (buf, cs[i := count_read j (cs ! i)], h)))))"

definition ata_write :: "'h ports \<Rightarrow> bool \<Rightarrow> channel list \<Rightarrow> nat \<Rightarrow> nat \<Rightarrow> u32 \<Rightarrow> u8 list \<Rightarrow> 'h \<Rightarrow> (channel list \<times> 'h) run" where
  "ata_write hw on cs i j sec_no buf h =
     rbind (Some (select_sector hw (cs ! i) (devices (cs ! i) ! j) sec_no h)) (\<lambda>h.
     rbind (Some (issue_pio_command hw on (cs ! i) CMD_WRITE_SECTOR_RETRY h)) (\<lambda>(c, h).
       let (drq, h) = wait_while_busy hw c h
       in if \<not> drq then Some (Inl Kernel_panic)
          else rbind (completion_down hw i (cs[i := c]) (output_sector hw c buf h)) (\<lambda>(cs, h).
               Some (Inr (cs[i := count_write j (cs ! i)], h)))))"

definition disk_get :: "channel list \<Rightarrow> int \<Rightarrow> int \<Rightarrow> (nat \<times> nat) option outcome" where
  "disk_get cs chan_no dev =
     kbind (kassert (dev = 0 \<or> dev = 1)) (\<lambda>_.
       if chan_no < 2
       then kbind (if 0 \<le> chan_no then arr_get cs (nat chan_no) else Inl Bad_access) (\<lambda>c.
            kbind (arr_get (devices c) (nat dev)) (\<lambda>d.
              Inr (if is_ata d then Some (nat chan_no, nat dev) else None)))
       else Inr None)"

definition disk_size :: "ata_disk \<Rightarrow> nat" where
  "disk_size d = sectors d"

section \<open>Detection\<close>

definition probe :: "'h ports \<Rightarrow> channel \<Rightarrow> ata_disk \<Rightarrow> 'h \<Rightarrow> bool \<times> 'h" where
  "probe hw c d h =
     (let h = select_device hw c d h;
          h = outb hw h (reg_nsect c) 0x55;
          h = outb hw h (reg_lbal c) 0xaa;
          h = outb hw h (reg_nsect c) 0xaa;
          h = outb hw h (reg_lbal c) 0x55;
          h = outb hw h (reg_nsect c) 0x55;
          h = outb hw h (reg_lbal c) 0xaa;
          (nsect, h) = inb hw h (reg_nsect c)
      in if nsect = 0x55 then let (lbal, h) = inb hw h (reg_lbal c) in (lbal = 0xaa, h) else (False, h))"

fun reset_loop :: "'h ports \<Rightarrow> channel \<Rightarrow> nat \<Rightarrow> 'h \<Rightarrow> 'h" where
  "reset_loop hw c 0 h = h"
| "reset_loop hw c (Suc n) h =
     (let (nsect, h) = inb hw h (reg_nsect c)
      in if nsect = 1
         then let (lbal, h) = inb hw h (reg_lbal c)
              in if lbal = 1 then h else reset_loop hw c n (sleep hw h 10000000)
         else reset_loop hw c n (sleep hw h 10000000))"

definition reset_channel :: "'h ports \<Rightarrow> channel \<Rightarrow> 'h \<Rightarrow> 'h" where
  "reset_channel hw c h =
     (let (present0, h) = probe hw c (devices c ! 0) h;
          (present1, h) = probe hw c (devices c ! 1) h;
          h = outb hw h (reg_ctl c) 0;
          h = sleep hw h 10000;
          h = outb hw h (reg_ctl c) CTL_SRST;
          h = sleep hw h 10000;
          h = outb hw h (reg_ctl c) 0;
          h = sleep hw h 150000000;
          h = (if present0 then snd (wait_while_busy hw c (select_device hw c (devices c ! 0) h)) else h)
      in if present1
         then snd (wait_while_busy hw c (reset_loop hw c 3000 (select_device hw c (devices c ! 1) h)))
         else h)"

definition check_device_type :: "'h ports \<Rightarrow> channel \<Rightarrow> ata_disk \<Rightarrow> 'h \<Rightarrow> bool \<times> ata_disk \<times> 'h" where
  "check_device_type hw c d h =
     (let h = select_device hw c d h;
          (error, h) = inb hw h (reg_error c);
          (lbam, h) = inb hw h (reg_lbam c);
          (lbah, h) = inb hw h (reg_lbah c);
          (status, h) = inb hw h (reg_status c)
      in if (error \<noteq> 1 \<and> (error \<noteq> 0x81 \<or> dev_no d = 1)) \<or> status AND STA_DRDY = 0 \<or> status AND STA_BSY \<noteq> 0
         then (error \<noteq> 0x81, d\<lparr>is_ata := False\<rparr>, h)
         else (True, d\<lparr>is_ata := (lbam = 0 \<and> lbah = 0) \<or> (lbam = 0x3c \<and> lbah = 0xc3)\<rparr>, h))"

text \<open>A word of the identification, low byte first.\<close>

definition id_word :: "u8 list \<Rightarrow> nat \<Rightarrow> u16" where
  "id_word bs n = ucast (bs ! (2 * n)) OR push_bit 8 (ucast (bs ! (2 * n + 1)))"

fun trim_ata :: "u8 list \<Rightarrow> nat \<Rightarrow> nat" where
  "trim_ata string 0 = 0"
| "trim_ata string (Suc n) =
     (let c = string ! (n XOR 1) in if c \<noteq> 0 \<and> \<not> isspace c then Suc n else trim_ata string n)"

definition print_ata_string :: "u8 list \<Rightarrow> nat \<Rightarrow> u8 list" where
  "print_ata_string string n = map (\<lambda>i. string ! (i XOR 1)) [0..<trim_ata string n]"

text \<open>The disk afterwards, and the model and serial number that are printed.\<close>

definition identify_ata_device :: "'h ports \<Rightarrow> bool \<Rightarrow> channel list \<Rightarrow> nat \<Rightarrow> nat \<Rightarrow> 'h \<Rightarrow>
    (channel list \<times> (u8 list \<times> u8 list) option \<times> 'h) run" where
  "identify_ata_device hw on cs i j h =
     rbind (Some (kassert (is_ata (devices (cs ! i) ! j)))) (\<lambda>_.
       let h = select_device_wait hw (cs ! i) (devices (cs ! i) ! j) h
       in rbind (Some (issue_pio_command hw on (cs ! i) CMD_IDENTIFY_DEVICE h)) (\<lambda>(c, h).
          rbind (completion_down hw i (cs[i := c]) h) (\<lambda>(cs, h).
            let (drq, h) = wait_while_busy hw (cs ! i) h;
                c = cs ! i; d = devices c ! j
            in if \<not> drq then Some (Inr (cs[i := c\<lparr>devices := (devices c)[j := d\<lparr>is_ata := False\<rparr>]\<rparr>], None, h))
               else let (id, h) = input_sector hw c h;
                        cap = unat (ucast (id_word id 60) OR push_bit 16 (ucast (id_word id 61)) :: u32)
                    in Some (Inr (cs[i := c\<lparr>devices := (devices c)[j := d\<lparr>sectors := cap\<rparr>]\<rparr>],
                         Some (print_ata_string (drop 54 id) 40, print_ata_string (drop 20 id) 20), h)))))"

definition new_channel :: "nat \<Rightarrow> channel" where
  "new_channel chan_no =
     \<lparr>reg_base = (if chan_no = 0 then 0x1f0 else 0x170), irq = (if chan_no = 0 then 14 + 0x20 else 15 + 0x20),
      expecting_interrupt = False, completion_wait = 0,
      devices = map (\<lambda>n. \<lparr>dev_no = n, is_ata = False, sectors = 0, read_cnt = 0, write_cnt = 0\<rparr>) [0, 1]\<rparr>"

definition detect :: "'h ports \<Rightarrow> channel \<Rightarrow> 'h \<Rightarrow> channel \<times> 'h" where
  "detect hw c h =
     (let h = reset_channel hw c h;
          (slave, d0, h) = check_device_type hw c (devices c ! 0) h;
          c = c\<lparr>devices := (devices c)[0 := d0]\<rparr>
      in if slave
         then let (_, d1, h) = check_device_type hw c (devices c ! 1) h in (c\<lparr>devices := (devices c)[1 := d1]\<rparr>, h)
         else (c, h))"

fun identify_all :: "'h ports \<Rightarrow> bool \<Rightarrow> channel list \<Rightarrow> nat \<Rightarrow> nat list \<Rightarrow> 'h \<Rightarrow> (channel list \<times> 'h) run" where
  "identify_all hw on cs i [] h = Some (Inr (cs, h))"
| "identify_all hw on cs i (j # js) h =
     (if is_ata (devices (cs ! i) ! j)
      then rbind (identify_ata_device hw on cs i j h) (\<lambda>(cs, _, h). identify_all hw on cs i js h)
      else identify_all hw on cs i js h)"

fun init_channels :: "'h ports \<Rightarrow> bool \<Rightarrow> channel list \<Rightarrow> nat list \<Rightarrow> 'h \<Rightarrow> (channel list \<times> 'h) run" where
  "init_channels hw on cs [] h = Some (Inr (cs, h))"
| "init_channels hw on cs (i # is) h =
     (let (c, h) = detect hw (new_channel i) h
      in rbind (identify_all hw on (cs[i := c]) i [0, 1] h) (\<lambda>(cs, h). init_channels hw on cs is h))"

text \<open>The static array \<open>channels\<close> is zero at the start.\<close>

definition disk_init :: "'h ports \<Rightarrow> bool \<Rightarrow> 'h \<Rightarrow> (channel list \<times> 'h) run" where
  "disk_init hw on h =
     init_channels hw on (replicate 2 \<lparr>reg_base = 0, irq = 0, expecting_interrupt = False, completion_wait = 0, devices = []\<rparr>) [0, 1] h"


section \<open>What the ATA standard says\<close>

text \<open>
  A channel with two disks: the registers of the command block, what the selected disk is about to transfer, for how many
  nanoseconds it is still busy, whether its interrupt is pending, and what the disks hold. \<open>delay\<close> is how long a
  disk takes for what it has been told.
\<close>

datatype phase = Idle | Data_in "u8 list" | Data_out nat nat

record ata =
  r_error :: u8
  r_nsect :: u8
  r_lbal :: u8
  r_lbam :: u8
  r_lbah :: u8
  r_device :: u8
  phase :: phase
  busy :: nat
  pending :: bool
  media :: "nat \<Rightarrow> nat \<Rightarrow> u8 list"
  identity :: "nat \<Rightarrow> u8 list"

definition selected :: "ata \<Rightarrow> nat" where
  "selected a = (if bit (r_device a) 4 then 1 else 0)"

definition lba :: "ata \<Rightarrow> nat" where
  "lba a = unat (r_lbal a) + 256 * unat (r_lbam a) + 65536 * unat (r_lbah a) + 16777216 * (unat (r_device a) mod 16)"

definition status_of :: "ata \<Rightarrow> u8" where
  "status_of a = (if busy a > 0 then STA_BSY else if phase a = Idle then STA_DRDY else STA_DRDY OR STA_DRQ)"

definition ata_inb :: "nat \<Rightarrow> ata \<Rightarrow> nat \<Rightarrow> u8 \<times> ata" where
  "ata_inb p0 a p =
     (if p = p0 + 7 then (status_of a, a\<lparr>pending := False\<rparr>)
      else (if p = p0 + 0x206 then status_of a else if p = p0 + 1 then r_error a else if p = p0 + 2 then r_nsect a
            else if p = p0 + 3 then r_lbal a else if p = p0 + 4 then r_lbam a else if p = p0 + 5 then r_lbah a else r_device a, a))"

definition ata_command :: "(ata \<Rightarrow> nat) \<Rightarrow> ata \<Rightarrow> u8 \<Rightarrow> ata" where
  "ata_command delay a v =
     (if busy a > 0 \<or> phase a \<noteq> Idle then a
      else if v = CMD_READ_SECTOR_RETRY then a\<lparr>phase := Data_in (media a (selected a) (lba a)), busy := delay a, pending := True\<rparr>
      else if v = CMD_WRITE_SECTOR_RETRY then a\<lparr>phase := Data_out (selected a) (lba a), busy := delay a\<rparr>
      else if v = CMD_IDENTIFY_DEVICE then a\<lparr>phase := Data_in (identity a (selected a)), busy := delay a, pending := True\<rparr>
      else a)"

definition ata_outb :: "(ata \<Rightarrow> nat) \<Rightarrow> nat \<Rightarrow> ata \<Rightarrow> nat \<Rightarrow> u8 \<Rightarrow> ata" where
  "ata_outb delay p0 a p v =
     (if p = p0 + 2 then a\<lparr>r_nsect := v\<rparr> else if p = p0 + 3 then a\<lparr>r_lbal := v\<rparr> else if p = p0 + 4 then a\<lparr>r_lbam := v\<rparr>
      else if p = p0 + 5 then a\<lparr>r_lbah := v\<rparr> else if p = p0 + 6 then a\<lparr>r_device := v\<rparr>
      else if p = p0 + 7 then ata_command delay a v else a)"

definition ata_insw :: "ata \<Rightarrow> nat \<Rightarrow> u8 list \<times> ata" where
  "ata_insw a n = (case phase a of
      Data_in bs \<Rightarrow> if busy a = 0 \<and> n = 256 then (bs, a\<lparr>phase := Idle\<rparr>) else (replicate (2 * n) 0xff, a)
    | _ \<Rightarrow> (replicate (2 * n) 0xff, a))"

definition ata_outsw :: "(ata \<Rightarrow> nat) \<Rightarrow> ata \<Rightarrow> u8 list \<Rightarrow> ata" where
  "ata_outsw delay a bs = (case phase a of
      Data_out d n \<Rightarrow> if busy a = 0 \<and> length bs = 512
        then a\<lparr>phase := Idle, busy := delay a, pending := True, media := (media a)(d := (media a d)(n := bs))\<rparr> else a
    | _ \<Rightarrow> a)"

text \<open>
  The hardware \<open>hw\<close> is an ATA channel with ports from \<open>p0\<close> on and interrupt \<open>vec\<close> when what \<open>view\<close> shows of it changes as the
  standard says. When an interrupt is pending it comes as soon as the disk is no longer busy.
\<close>

definition ata_channel :: "'h ports \<Rightarrow> nat \<Rightarrow> nat \<Rightarrow> (ata \<Rightarrow> nat) \<Rightarrow> ('h \<Rightarrow> ata) \<Rightarrow> bool" where
  "ata_channel hw p0 vec delay view \<longleftrightarrow>
     (\<forall>h p. p \<in> {p0 + 1..p0 + 7} \<union> {p0 + 0x206} \<longrightarrow>
        (fst (inb hw h p), view (snd (inb hw h p))) = ata_inb p0 (view h) p \<and>
        (\<forall>v. view (outb hw h p v) = ata_outb delay p0 (view h) p v)) \<and>
     (\<forall>h n. (fst (insw hw h p0 n), view (snd (insw hw h p0 n))) = ata_insw (view h) n) \<and>
     (\<forall>h bs. view (outsw hw h p0 bs) = ata_outsw delay (view h) bs) \<and>
     (\<forall>h n. view (sleep hw h n) = (view h)\<lparr>busy := busy (view h) - n\<rparr>) \<and>
     (\<forall>h. pending (view h) \<longrightarrow> (\<exists>h'. await hw h vec = Some h' \<and> view h' = (view h)\<lparr>busy := 0\<rparr>))"

definition ready :: "ata \<Rightarrow> bool" where
  "ready a \<longleftrightarrow> phase a = Idle \<and> busy a = 0 \<and> \<not> pending a"

definition channel_ok :: "channel list \<Rightarrow> nat \<Rightarrow> nat \<Rightarrow> nat \<Rightarrow> bool" where
  "channel_ok cs i p0 vec \<longleftrightarrow> i < length cs \<and> reg_base (cs ! i) = p0 \<and> irq (cs ! i) = vec \<and> completion_wait (cs ! i) = 0 \<and>
     (\<forall>k<i. irq (cs ! k) \<noteq> vec)"

section \<open>Ports\<close>

lemma port_in:
  assumes "ata_channel hw p0 vec delay view" "p \<in> {p0 + 1..p0 + 7} \<union> {p0 + 0x206}"
  shows "fst (inb hw h p) = fst (ata_inb p0 (view h) p)" "view (snd (inb hw h p)) = snd (ata_inb p0 (view h) p)"
    "view (outb hw h p v) = ata_outb delay p0 (view h) p v"
  using assms unfolding ata_channel_def by (metis fst_conv snd_conv)+

lemma port_rest:
  assumes "ata_channel hw p0 vec delay view"
  shows "fst (insw hw h p0 n) = fst (ata_insw (view h) n)" "view (snd (insw hw h p0 n)) = snd (ata_insw (view h) n)"
    "view (outsw hw h p0 bs) = ata_outsw delay (view h) bs" "view (sleep hw h n) = (view h)\<lparr>busy := busy (view h) - n\<rparr>"
    "pending (view h) \<Longrightarrow> \<exists>h'. await hw h vec = Some h' \<and> view h' = (view h)\<lparr>busy := 0\<rparr>"
  using assms unfolding ata_channel_def by (metis fst_conv snd_conv)+

lemmas status_bits = STA_BSY_def STA_DRDY_def STA_DRQ_def

lemma status_tests:
  "STA_DRDY AND (STA_BSY OR STA_DRQ) = 0" "(STA_DRDY OR STA_DRQ) AND STA_BSY = 0" "(STA_DRDY OR STA_DRQ) AND STA_DRQ \<noteq> 0"
  "STA_BSY AND STA_BSY \<noteq> 0"
  by (simp_all add: status_bits)

lemma idle_ok:
  assumes hw: "ata_channel hw p0 vec delay view" and c: "reg_base c = p0" and r: "ready (view h)"
  shows "view (wait_until_idle hw c h) = view h"
proof -
  have p: "reg_status c = p0 + 7" "p0 + 7 \<in> {p0 + 1..p0 + 7} \<union> {p0 + 0x206}"
    by (simp_all add: regs c)
  note i = port_in(1,2) [OF hw p(2), of h]
  have st: "fst (inb hw h (p0 + 7)) = STA_DRDY"
    using i(1) r by (simp add: ata_inb_def status_of_def ready_def)
  have "view (snd (inb hw h (p0 + 7))) = view h"
    using i(2) r by (simp add: ata_inb_def ready_def)
  moreover have "wait_until_idle hw c h = snd (inb hw h (p0 + 7))"
    unfolding wait_until_idle_def p(1)
    using idle_loop.simps(2) [of hw c 999 h] st status_tests(1) by (simp add: p(1) split_beta)
  ultimately show ?thesis
    by simp
qed

lemma busy_ok:
  assumes hw: "ata_channel hw p0 vec delay view" and c: "reg_base c = p0"
  shows "phase (view h) \<noteq> Idle \<Longrightarrow> busy (view h) \<le> n * 10000000 \<Longrightarrow>
    \<exists>h'. busy_loop hw c (Suc n) h = (True, h') \<and> view h' = (view h)\<lparr>busy := 0\<rparr>"
proof (induction n arbitrary: h)
  case (0 h)
  have p: "reg_alt_status c = p0 + 518" "p0 + 518 \<in> {p0 + 1..p0 + 7} \<union> {p0 + 0x206}"
    by (simp_all add: regs c)
  let ?h1 = "snd (inb hw h (p0 + 518))" 
  have v: "fst (inb hw g (p0 + 518)) = status_of (view g)" "view (snd (inb hw g (p0 + 518))) = view g" for g
    using port_in(1,2) [OF hw p(2), of g] by (simp_all add: ata_inb_def)
  have "status_of (view h) = STA_DRDY OR STA_DRQ"
    using 0 by (simp add: status_of_def)
  moreover have "view h = (view h)\<lparr>busy := 0\<rparr>"
    using 0 by simp
  ultimately show ?case
    using v [of h] v [of ?h1] status_tests by (simp add: p(1) split_beta)
next
  case (Suc n h)
  have p: "reg_alt_status c = p0 + 518" "p0 + 518 \<in> {p0 + 1..p0 + 7} \<union> {p0 + 0x206}"
    by (simp_all add: regs c)
  have v: "fst (inb hw g (p0 + 518)) = status_of (view g)" "view (snd (inb hw g (p0 + 518))) = view g" for g
    using port_in(1,2) [OF hw p(2), of g] by (simp_all add: ata_inb_def)
  let ?h1 = "snd (inb hw h (p0 + 518))"
  show ?case
  proof (cases "busy (view h) = 0")
    case True
    then have "status_of (view h) = STA_DRDY OR STA_DRQ"
      using Suc.prems(1) by (simp add: status_of_def)
    moreover have "view h = (view h)\<lparr>busy := 0\<rparr>"
      using True by simp
    ultimately show ?thesis
      using v [of h] v [of ?h1] status_tests busy_loop.simps(2) [of hw c "Suc n" h] by (simp add: p(1) split_beta)
  next
    case False
    let ?h2 = "sleep hw ?h1 10000000"
    have "view ?h2 = (view h)\<lparr>busy := busy (view h) - 10000000\<rparr>"
      using port_rest(4) [OF hw, of ?h1 10000000] v(2) [of h] by simp
    moreover have "status_of (view h) AND STA_BSY \<noteq> 0"
      using False status_tests(4) by (simp add: status_of_def)
    then have "busy_loop hw c (Suc (Suc n)) h = busy_loop hw c (Suc n) ?h2"
      using v [of h] busy_loop.simps(2) [of hw c "Suc n" h] by (simp add: p(1) split_beta)
    ultimately show ?thesis
      using Suc.IH [of ?h2] Suc.prems by auto
  qed
qed


section \<open>Selecting a sector\<close>

lemma select_ok:
  assumes hw: "ata_channel hw p0 vec delay view" and c: "reg_base c = p0" and r: "ready (view h)"
  shows "view (select_device_wait hw c d h) = (view h)\<lparr>r_device := if dev_no d = 1 then DEV_MBS OR DEV_DEV else DEV_MBS\<rparr>"
proof -
  let ?v = "if dev_no d = 1 then DEV_MBS OR DEV_DEV else DEV_MBS"
  have p: "reg_device c = p0 + 6" "p0 + 6 \<in> {p0 + 1..p0 + 7} \<union> {p0 + 0x206}"
    "reg_alt_status c = p0 + 518" "p0 + 518 \<in> {p0 + 1..p0 + 7} \<union> {p0 + 0x206}"
    by (simp_all add: regs c)
  note i = idle_ok [OF hw c r]
  let ?h1 = "outb hw (wait_until_idle hw c h) (p0 + 6) ?v"
  let ?h2 = "snd (inb hw ?h1 (p0 + 518))"
  have "view ?h1 = (view h)\<lparr>r_device := ?v\<rparr>"
    using port_in(3) [OF hw p(2)] i by (simp add: ata_outb_def)
  then have "view ?h2 = (view h)\<lparr>r_device := ?v\<rparr>"
    using port_in(2) [OF hw p(4)] by (simp add: ata_inb_def)
  then have s: "view (select_device hw c d (wait_until_idle hw c h)) = (view h)\<lparr>r_device := ?v\<rparr>"
    using port_rest(4) [OF hw] r by (simp add: select_device_def p split_beta Let_def ready_def)
  moreover have "ready ((view h)\<lparr>r_device := ?v\<rparr>)"
    using r by (simp add: ready_def)
  ultimately show ?thesis
    using idle_ok [OF hw c, of "select_device hw c d (wait_until_idle hw c h)"] by (simp add: select_device_wait_def)
qed

definition device_byte :: "nat \<Rightarrow> u32 \<Rightarrow> u8" where
  "device_byte j w = ucast (ucast DEV_MBS OR ucast DEV_LBA OR (if j = 1 then ucast DEV_DEV else 0) OR drop_bit 24 w)"

lemma nibble_cases: "n < 16 \<Longrightarrow> n \<in> {0, 1, 2, 3, 4, 5, 6, 7, 8, 9, 10, 11, 12, 13, 14, 15 :: nat}"
  by (simp add: numeral_eq_Suc less_Suc_eq)

lemma device_nibble:
  assumes "n < 16"
  shows "unat (ucast (0xf0 OR of_nat n :: u32) :: u8) = 240 + n" "unat (ucast (0xe0 OR of_nat n :: u32) :: u8) = 224 + n"
  using nibble_cases [OF assms] by (elim insertE emptyE; simp)+

lemma bit4: "bit (v :: u8) 4 \<longleftrightarrow> odd (unat v div 16)"
proof -
  have "bit (unat v) 4 \<longleftrightarrow> bit v 4"
    by (simp add: bit_unsigned_iff)
  moreover have "bit (unat v) 4 \<longleftrightarrow> odd (unat v div 16)"
    by (simp add: bit_iff_odd)
  ultimately show ?thesis
    by blast
qed

lemma device_bits:
  assumes "w < push_bit 28 1"
  shows "bit (device_byte j w) 4 \<longleftrightarrow> j = 1" "unat (device_byte j w) mod 16 = unat w div 16777216"
proof -
  have w: "unat w < 268435456"
    using assms by (simp add: word_less_nat_alt)
  define n where "n = unat w div 16777216"
  have n: "n < 16"
    using w by (simp add: n_def)
  have "unat (drop_bit 24 w) = n"
    by (simp add: drop_bit_eq_div unat_div n_def)
  then have d: "drop_bit 24 w = of_nat n"
    by (metis unsigned_of_nat word_unat_eq_iff of_nat_unat ucast_id)
  have "(ucast DEV_MBS OR ucast DEV_LBA OR ucast DEV_DEV :: u32) = 0xf0" "(ucast DEV_MBS OR ucast DEV_LBA OR 0 :: u32) = 0xe0"
    by (simp_all add: DEV_MBS_def DEV_LBA_def DEV_DEV_def)
  then have "unat (device_byte j w) = (if j = 1 then 240 + n else 224 + n)"
    using device_nibble [OF n] unfolding device_byte_def d by (simp add: or.assoc [symmetric])
  moreover have "(240 + n) div 16 = 15" "(224 + n) div 16 = 14" "(240 + n) mod 16 = n" "(224 + n) mod 16 = n"
    using n by presburger+
  ultimately show "bit (device_byte j w) 4 \<longleftrightarrow> j = 1" "unat (device_byte j w) mod 16 = unat w div 16777216"
    unfolding bit4 n_def [symmetric] by auto
qed


lemma lba_bytes:
  "unat (w :: u32) = unat (ucast w :: u8) + 256 * unat (ucast (drop_bit 8 w) :: u8) +
     65536 * unat (ucast (drop_bit 16 w) :: u8) + 16777216 * (unat w div 16777216)"
proof -
  have b: "unat (ucast x :: u8) = unat x mod 256" for x :: u32
    by (simp add: unsigned_ucast_eq take_bit_eq_mod)
  have d: "unat (drop_bit 8 w) = unat w div 256" "unat (drop_bit 16 w) = unat w div 65536"
    by (simp_all add: drop_bit_eq_div unat_div)
  have "n = n mod 256 + 256 * (n div 256 mod 256) + 65536 * (n div 65536 mod 256) + 16777216 * (n div 16777216)" for n :: nat
  proof -
    define a b c where "a = n div 256" and "b = n div 65536" and "c = n div 16777216"
    have "b = a div 256" "c = b div 256"
      by (simp_all add: a_def b_def c_def div_mult2_eq [symmetric])
    then have "n = n mod 256 + 256 * a" "a = a mod 256 + 256 * b" "b = b mod 256 + 256 * c"
      by (simp_all add: a_def)
    then show ?thesis
      unfolding a_def [symmetric] b_def [symmetric] c_def [symmetric] by linarith
  qed
  then show ?thesis
    unfolding b d by blast
qed

lemma select_sector_ok:
  assumes hw: "ata_channel hw p0 vec delay view" and c: "reg_base c = p0" and r: "ready (view h)"
    and sec: "unat w < sectors d" "w < push_bit 28 1" and d: "dev_no d = j" "j < 2"
  shows "\<exists>h' a. select_sector hw c d w h = Inr h' \<and> view h' = a \<and> ready a \<and> selected a = j \<and> lba a = unat w \<and>
    media a = media (view h) \<and> identity a = identity (view h)"
proof -
  have p: "reg_nsect c = p0 + 2" "reg_lbal c = p0 + 3" "reg_lbam c = p0 + 4" "reg_lbah c = p0 + 5" "reg_device c = p0 + 6"
    by (simp_all add: regs c)
  have o: "view (outb hw g (p0 + n) v) = ata_outb delay p0 (view g) (p0 + n) v" if "n \<in> {2, 3, 4, 5, 6}" for g n v
    using that by (intro port_in(3) [OF hw]) auto
  define h0 where "h0 = select_device_wait hw c d h"
  define h1 where "h1 = outb hw h0 (p0 + 2) 1"
  define h2 where "h2 = outb hw h1 (p0 + 3) (ucast w)"
  define h3 where "h3 = outb hw h2 (p0 + 4) (ucast (drop_bit 8 w))"
  define h4 where "h4 = outb hw h3 (p0 + 5) (ucast (drop_bit 16 w))"
  define h5 where "h5 = outb hw h4 (p0 + 6) (device_byte j w)"
  have run: "select_sector hw c d w h = Inr h5"
    using sec d(1) by (simp add: select_sector_def p h5_def h4_def h3_def h2_def h1_def h0_def device_byte_def Let_def)
  have v: "view h5 = (view h)\<lparr>r_nsect := 1, r_lbal := ucast w, r_lbam := ucast (drop_bit 8 w), r_lbah := ucast (drop_bit 16 w),
      r_device := device_byte j w\<rparr>"
    using select_ok [OF hw c r, of d] unfolding h5_def h4_def h3_def h2_def h1_def
    by (simp add: o ata_outb_def h0_def [symmetric] del: add_2_eq_Suc')
  have "selected (view h5) = j"
    using device_bits(1) [OF sec(2), of j] d(2) by (auto simp: v selected_def)
  moreover have "lba (view h5) = unat w"
    unfolding v lba_def using device_bits(2) [OF sec(2), of j] lba_bytes [of w] by simp
  moreover have "ready (view h5)" "media (view h5) = media (view h)" "identity (view h5) = identity (view h)"
    using r by (simp_all add: v ready_def)
  ultimately show ?thesis
    using run by blast
qed

section \<open>Completion\<close>

lemma handler_ok:
  assumes "i < length cs" "irq (cs ! i) = vec" "\<And>k. k < i \<Longrightarrow> irq (cs ! k) \<noteq> vec" "expecting_interrupt (cs ! i)"
  shows "interrupt_handler hw vec cs h = Inr (cs[i := (cs ! i)\<lparr>completion_wait := completion_wait (cs ! i) + 1\<rparr>],
    snd (inb hw h (reg_status (cs ! i))))"
  using assms
proof (induction cs arbitrary: i)
  case (Cons c cs)
  show ?case
  proof (cases i)
    case 0
    then show ?thesis
      using Cons.prems by (simp add: split_beta)
  next
    case (Suc k)
    then have "irq c \<noteq> vec"
      using Cons.prems(3) [of 0] by simp
    moreover have "irq (cs ! l) \<noteq> vec" if "l < k" for l
      using Cons.prems(3) [of "Suc l"] that Suc by simp
    ultimately show ?thesis
      using Cons.IH [of k] Cons.prems Suc by simp
  qed
qed simp

lemma completion_ok:
  assumes hw: "ata_channel hw p0 vec delay view" and cs: "channel_ok cs i p0 vec" "expecting_interrupt (cs ! i)"
    and h: "pending (view h)"
  shows "\<exists>h'. completion_down hw i cs h = Some (Inr (cs, h')) \<and> view h' = (view h)\<lparr>busy := 0, pending := False\<rparr>"
proof -
  have c: "i < length cs" "reg_base (cs ! i) = p0" "irq (cs ! i) = vec" "completion_wait (cs ! i) = 0" "\<And>k. k < i \<Longrightarrow> irq (cs ! k) \<noteq> vec"
    using cs(1) by (simp_all add: channel_ok_def)
  obtain h1 where h1: "await hw h vec = Some h1" "view h1 = (view h)\<lparr>busy := 0\<rparr>"
    using port_rest(5) [OF hw h] by blast
  have p: "reg_status (cs ! i) = p0 + 7" "p0 + 7 \<in> {p0 + 1..p0 + 7} \<union> {p0 + 0x206}"
    by (simp_all add: regs c)
  let ?h2 = "snd (inb hw h1 (p0 + 7))" and ?cs = "cs[i := (cs ! i)\<lparr>completion_wait := 1\<rparr>]"
  have "view ?h2 = (view h)\<lparr>busy := 0, pending := False\<rparr>"
    using port_in(2) [OF hw p(2), of h1] h1(2) by (simp add: ata_inb_def)
  moreover have "interrupt_handler hw vec cs h1 = Inr (?cs, ?h2)"
    using handler_ok [OF c(1,3,5) cs(2), of hw h1] p(1) c(4) by simp
  moreover have "completion_down hw i ?cs ?h2 = Some (Inr (cs, ?h2))"
  proof -
    have "cs[i := (cs ! i)\<lparr>completion_wait := 0\<rparr>] = cs"
      using c(4) by (metis (full_types) list_update_id channel.surjective channel.update_convs(4))
    then show ?thesis
      using c(1) by (subst completion_down.simps) simp
  qed
  ultimately show ?thesis
    using h1(1) c(3,4) by (subst completion_down.simps) simp
qed

section \<open>Commands\<close>

lemma command_ok:
  assumes hw: "ata_channel hw p0 vec delay view" and c: "reg_base c = p0"
  shows "\<exists>h'. issue_pio_command hw True c v h = Inr (c\<lparr>expecting_interrupt := True\<rparr>, h') \<and> view h' = ata_command delay (view h) v"
proof -
  have p: "reg_command c = p0 + 7" "p0 + 7 \<in> {p0 + 1..p0 + 7} \<union> {p0 + 0x206}"
    by (simp_all add: regs c)
  then show ?thesis
    using port_in(3) [OF hw p(2), of h v] by (simp add: issue_pio_command_def ata_outb_def)
qed

lemma wait_ok:
  assumes "ata_channel hw p0 vec delay view" "reg_base c = p0" "phase (view h) \<noteq> Idle" "busy (view h) \<le> 29990000000"
  shows "\<exists>h'. wait_while_busy hw c h = (True, h') \<and> view h' = (view h)\<lparr>busy := 0\<rparr>"
  using busy_ok [OF assms(1,2), of h 2999] assms(3,4) by (simp add: wait_while_busy_def)

lemma expect_ok: "channel_ok cs i p0 vec \<Longrightarrow> channel_ok (cs[i := (cs ! i)\<lparr>expecting_interrupt := True\<rparr>]) i p0 vec"
  by (simp add: channel_ok_def)

text \<open>A command that lets the disk send one sector: the interrupt comes, the disk is ready with the data, and they are read.\<close>

lemma data_in_ok:
  assumes hw: "ata_channel hw p0 vec delay view" and cs: "channel_ok cs i p0 vec" and r: "ready (view h)"
    and v: "ata_command delay (view h) v = (view h)\<lparr>phase := Data_in bs, busy := delay (view h), pending := True\<rparr>"
  shows "\<exists>h1 h2 h3 h4. issue_pio_command hw True (cs ! i) v h = Inr ((cs ! i)\<lparr>expecting_interrupt := True\<rparr>, h1) \<and>
    completion_down hw i (cs[i := (cs ! i)\<lparr>expecting_interrupt := True\<rparr>]) h1 =
      Some (Inr (cs[i := (cs ! i)\<lparr>expecting_interrupt := True\<rparr>], h2)) \<and>
    wait_while_busy hw ((cs ! i)\<lparr>expecting_interrupt := True\<rparr>) h2 = (True, h3) \<and>
    input_sector hw ((cs ! i)\<lparr>expecting_interrupt := True\<rparr>) h3 = (bs, h4) \<and> view h4 = view h"
proof -
  let ?c = "(cs ! i)\<lparr>expecting_interrupt := True\<rparr>"
  have c: "i < length cs" "reg_base (cs ! i) = p0"
    using cs by (simp_all add: channel_ok_def)
  obtain h1 where h1: "issue_pio_command hw True (cs ! i) v h = Inr (?c, h1)" "view h1 = ata_command delay (view h) v"
    using command_ok [OF hw c(2), of v h] by blast
  have "pending (view h1)" "expecting_interrupt (cs[i := ?c] ! i)"
    using h1(2) v c(1) by simp_all
  then obtain h2 where h2: "completion_down hw i (cs[i := ?c]) h1 = Some (Inr (cs[i := ?c], h2))"
      "view h2 = (view h1)\<lparr>busy := 0, pending := False\<rparr>"
    using completion_ok [OF hw expect_ok [OF cs]] by blast
  have "phase (view h2) = Data_in bs" "busy (view h2) = 0"
    using h2(2) h1(2) v by simp_all
  then obtain h3 where h3: "wait_while_busy hw ?c h2 = (True, h3)" "view h3 = (view h2)\<lparr>busy := 0\<rparr>"
    using wait_ok [OF hw, of ?c h2] c(2) by auto
  let ?in = "insw hw h3 p0 256"
  have v3: "view h3 = (view h)\<lparr>phase := Data_in bs, busy := 0, pending := False\<rparr>"
    using h3(2) h2(2) h1(2) v by simp
  have "fst ?in = bs" "view (snd ?in) = (view h)\<lparr>phase := Idle, busy := 0, pending := False\<rparr>"
    using port_rest(1,2) [OF hw, of h3 256] by (simp_all add: ata_insw_def v3)
  moreover have "(view h)\<lparr>phase := Idle, busy := 0, pending := False\<rparr> = view h"
    using r by (simp add: ready_def)
  ultimately have "input_sector hw ?c h3 = (bs, snd ?in)" "view (snd ?in) = view h"
    using c(2) by (simp_all add: input_sector_def regs prod_eq_iff)
  then show ?thesis
    using h1(1) h2(1) h3(1) by blast
qed

section \<open>The driver is a disk\<close>

text \<open>Disk \<open>j\<close> of channel \<open>i\<close> in order between two calls of the driver, with what the controller shows.\<close>

definition drive_ok :: "channel list \<Rightarrow> nat \<Rightarrow> nat \<Rightarrow> nat \<Rightarrow> nat \<Rightarrow> ata \<Rightarrow> bool" where
  "drive_ok cs i j p0 vec a \<longleftrightarrow> channel_ok cs i p0 vec \<and> ready a \<and> j < 2 \<and> j < length (devices (cs ! i)) \<and>
     dev_no (devices (cs ! i) ! j) = j"

lemma sector_bound: "w < (push_bit 28 1 :: u32) \<longleftrightarrow> unat w < 268435456"
  by (simp add: word_less_nat_alt)

lemma ata_read_ok:
  assumes hw: "ata_channel hw p0 vec delay view" and d: "drive_ok cs i j p0 vec (view h)"
    and w: "unat w < sectors (devices (cs ! i) ! j)" "unat w < 268435456"
  shows "\<exists>cs' h'. ata_read hw True cs i j w h = Some (Inr (media (view h) j (unat w), cs', h')) \<and>
    media (view h') = media (view h) \<and> drive_ok cs' i j p0 vec (view h') \<and>
    sectors (devices (cs' ! i) ! j) = sectors (devices (cs ! i) ! j)"
proof -
  let ?c = "(cs ! i)\<lparr>expecting_interrupt := True\<rparr>"
  have k: "channel_ok cs i p0 vec" "ready (view h)" "j < 2" "dev_no (devices (cs ! i) ! j) = j" "i < length cs" "reg_base (cs ! i) = p0"
      "j < length (devices (cs ! i))"
    using d by (simp_all add: drive_ok_def channel_ok_def)
  obtain h0 where h0: "select_sector hw (cs ! i) (devices (cs ! i) ! j) w h = Inr h0" "ready (view h0)" "selected (view h0) = j"
      "lba (view h0) = unat w" "media (view h0) = media (view h)"
    using select_sector_ok [OF hw k(6,2) w(1) _ k(4,3)] w(2) sector_bound by blast
  have "ata_command delay (view h0) CMD_READ_SECTOR_RETRY =
      (view h0)\<lparr>phase := Data_in (media (view h) j (unat w)), busy := delay (view h0), pending := True\<rparr>"
    using h0(2-5) by (simp add: ata_command_def ready_def)
  then obtain h1 h2 h3 h4 where g: "issue_pio_command hw True (cs ! i) CMD_READ_SECTOR_RETRY h0 = Inr (?c, h1)"
      "completion_down hw i (cs[i := ?c]) h1 = Some (Inr (cs[i := ?c], h2))" "wait_while_busy hw ?c h2 = (True, h3)"
      "input_sector hw ?c h3 = (media (view h) j (unat w), h4)" "view h4 = view h0"
    using data_in_ok [OF hw k(1) h0(2)] by blast
  have "ata_read hw True cs i j w h = Some (Inr (media (view h) j (unat w), cs[i := count_read j ?c], h4))"
    using k(5) by (simp add: ata_read_def h0(1) g)
  moreover have "drive_ok (cs[i := count_read j ?c]) i j p0 vec (view h4)"
    "sectors (devices (cs[i := count_read j ?c] ! i) ! j) = sectors (devices (cs ! i) ! j)"
    using k h0(2) g(5) by (simp_all add: drive_ok_def channel_ok_def count_read_def)
  ultimately show ?thesis
    using h0(5) g(5) by auto
qed

lemma ata_write_ok:
  assumes hw: "ata_channel hw p0 vec delay view" and d: "drive_ok cs i j p0 vec (view h)"
    and w: "unat w < sectors (devices (cs ! i) ! j)" "unat w < 268435456"
    and delay: "\<And>a. delay a \<le> 29990000000" and buf: "length buf = 512"
  shows "\<exists>cs' h'. ata_write hw True cs i j w buf h = Some (Inr (cs', h')) \<and>
    media (view h') = (media (view h))(j := (media (view h) j)(unat w := buf)) \<and> drive_ok cs' i j p0 vec (view h') \<and>
    sectors (devices (cs' ! i) ! j) = sectors (devices (cs ! i) ! j)"
proof -
  let ?c = "(cs ! i)\<lparr>expecting_interrupt := True\<rparr>"
  have k: "channel_ok cs i p0 vec" "ready (view h)" "j < 2" "dev_no (devices (cs ! i) ! j) = j" "i < length cs" "reg_base (cs ! i) = p0"
      "j < length (devices (cs ! i))"
    using d by (simp_all add: drive_ok_def channel_ok_def)
  obtain h0 where h0: "select_sector hw (cs ! i) (devices (cs ! i) ! j) w h = Inr h0" "ready (view h0)" "selected (view h0) = j"
      "lba (view h0) = unat w" "media (view h0) = media (view h)"
    using select_sector_ok [OF hw k(6,2) w(1) _ k(4,3)] w(2) sector_bound by blast
  obtain h1 where h1: "issue_pio_command hw True (cs ! i) CMD_WRITE_SECTOR_RETRY h0 = Inr (?c, h1)"
      "view h1 = ata_command delay (view h0) CMD_WRITE_SECTOR_RETRY"
    using command_ok [OF hw k(6)] by blast
  have v1: "view h1 = (view h0)\<lparr>phase := Data_out j (unat w), busy := delay (view h0)\<rparr>"
    using h0(2-4) h1(2) by (simp add: ata_command_def ready_def CMD_WRITE_SECTOR_RETRY_def CMD_READ_SECTOR_RETRY_def)
  obtain h2 where h2: "wait_while_busy hw ?c h1 = (True, h2)" "view h2 = (view h1)\<lparr>busy := 0\<rparr>"
    using wait_ok [OF hw, of ?c h1] k(6) delay by (auto simp: v1)
  let ?h3 = "output_sector hw ?c buf h2"
  define t where "t = delay (view h2)"
  have v3: "view ?h3 = (view h0)\<lparr>phase := Idle, busy := t, pending := True,
      media := (media (view h0))(j := (media (view h0) j)(unat w := buf))\<rparr>"
    using port_rest(3) [OF hw, of h2 buf] buf k(6) by (simp add: output_sector_def regs ata_outsw_def h2(2) v1 t_def)
  have "expecting_interrupt (cs[i := ?c] ! i)"
    using k(5) by simp
  then obtain h4 where h4: "completion_down hw i (cs[i := ?c]) ?h3 = Some (Inr (cs[i := ?c], h4))"
      "view h4 = (view ?h3)\<lparr>busy := 0, pending := False\<rparr>"
    using completion_ok [OF hw expect_ok [OF k(1)]] v3 by (metis ata.select_convs(9) ata.surjective ata.update_convs(9,10))
  have "ata_write hw True cs i j w buf h = Some (Inr (cs[i := count_write j ?c], h4))"
    using k(5) by (simp add: ata_write_def h0(1) h1(1) h2(1) h4(1))
  moreover have "drive_ok (cs[i := count_write j ?c]) i j p0 vec (view h4)"
    "sectors (devices (cs[i := count_write j ?c] ! i) ! j) = sectors (devices (cs ! i) ! j)"
    using k by (simp_all add: drive_ok_def channel_ok_def count_write_def ready_def h4(2) v3)
  moreover have "media (view h4) = (media (view h))(j := (media (view h) j)(unat w := buf))"
    by (simp add: h4(2) v3 h0(5))
  ultimately show ?thesis
    by blast
qed

section \<open>Sequences of requests\<close>

datatype request = Fetch u32 | Store u32 "u8 list"

fun good_request :: "request \<Rightarrow> bool" where
  "good_request (Fetch w) = True"
| "good_request (Store w buf) = (length buf = 512)"

fun ata_run :: "'h ports \<Rightarrow> channel list \<Rightarrow> nat \<Rightarrow> nat \<Rightarrow> request list \<Rightarrow> 'h \<Rightarrow> (u8 list list \<times> channel list \<times> 'h) run" where
  "ata_run hw cs i j [] h = Some (Inr ([], cs, h))"
| "ata_run hw cs i j (Fetch w # rs) h =
     rbind (ata_read hw True cs i j w h) (\<lambda>(b, cs, h). rbind (ata_run hw cs i j rs h) (\<lambda>(bs, r). Some (Inr (b # bs, r))))"
| "ata_run hw cs i j (Store w buf # rs) h = rbind (ata_write hw True cs i j w buf h) (\<lambda>(cs, h). ata_run hw cs i j rs h)"

fun disk_run :: "fs \<Rightarrow> request list \<Rightarrow> (u8 list list \<times> fs) outcome" where
  "disk_run s [] = Inr ([], s)"
| "disk_run s (Fetch w # rs) = kbind (disk_read s (unat w)) (\<lambda>b. kbind (disk_run s rs) (\<lambda>(bs, s). Inr (b # bs, s)))"
| "disk_run s (Store w buf # rs) = kbind (disk_write s (unat w) buf) (\<lambda>s. disk_run s rs)"

lemma select_fails:
  assumes "\<not> (unat w < sectors d \<and> unat w < 268435456)"
  shows "select_sector hw c d w h = Inl Assert_fail"
  using assms sector_bound [of w] by (auto simp: select_sector_def kassert_def)

lemma disk_fails:
  assumes "\<not> (n < capacity s \<and> n < 268435456)"
  shows "disk_read s n = Inl Assert_fail" "disk_write s n buf = Inl Assert_fail"
  using assms by (auto simp: disk_read_def disk_write_def kassert_def)

lemma requests_refine:
  assumes hw: "ata_channel hw p0 vec delay view" and delay: "\<And>a. delay a \<le> 29990000000"
  shows "drive_ok cs i j p0 vec (view h) \<Longrightarrow> disk s = media (view h) j \<Longrightarrow> capacity s = sectors (devices (cs ! i) ! j) \<Longrightarrow>
    list_all good_request rs \<Longrightarrow>
    (case disk_run s rs of
       Inl e \<Rightarrow> ata_run hw cs i j rs h = Some (Inl e)
     | Inr (bs, s') \<Rightarrow> \<exists>cs' h'. ata_run hw cs i j rs h = Some (Inr (bs, cs', h')) \<and>
         media (view h') = (media (view h))(j := disk s') \<and> drive_ok cs' i j p0 vec (view h'))"
proof (induction rs arbitrary: cs h s)
  case Nil
  have "(media (view h))(j := disk s) = media (view h)"
    by (simp add: Nil.prems(2))
  then show ?case
    using Nil by simp
next
  case (Cons r rs)
  have good: "list_all good_request rs" "good_request r"
    using Cons.prems(4) by simp_all
  define w where "w = (case r of Fetch w \<Rightarrow> w | Store w _ \<Rightarrow> w)"
  show ?case
  proof (cases "unat w < sectors (devices (cs ! i) ! j) \<and> unat w < 268435456")
    case False
    then show ?thesis
      using select_fails [OF False, of hw "cs ! i" h] disk_fails [of "unat w" s] Cons.prems(3)
      by (cases r) (simp_all add: ata_read_def ata_write_def w_def)
  next
    case w: True
    show ?thesis
    proof (cases r)
      case (Fetch v)
      then have v: "v = w"
        by (simp add: w_def)
      obtain cs' h' where g: "ata_read hw True cs i j w h = Some (Inr (media (view h) j (unat w), cs', h'))"
          "media (view h') = media (view h)" "drive_ok cs' i j p0 vec (view h')"
          "sectors (devices (cs' ! i) ! j) = sectors (devices (cs ! i) ! j)"
        using ata_read_ok [OF hw Cons.prems(1)] w by blast
      have "disk_read s (unat w) = Inr (media (view h) j (unat w))"
        using w Cons.prems(2,3) by (simp add: disk_read_def kassert_def)
      then show ?thesis
        using Cons.IH [of cs' h' s] Cons.prems(2,3) g good(1) by (auto simp: Fetch v fun_upd_def split: sum.splits)
    next
      case (Store v buf)
      then have v: "v = w" "length buf = 512"
        using good(2) by (simp_all add: w_def)
      obtain cs' h' where g: "ata_write hw True cs i j w buf h = Some (Inr (cs', h'))"
          "media (view h') = (media (view h))(j := (media (view h) j)(unat w := buf))" "drive_ok cs' i j p0 vec (view h')"
          "sectors (devices (cs' ! i) ! j) = sectors (devices (cs ! i) ! j)"
        using ata_write_ok [OF hw Cons.prems(1) _ _ delay v(2)] w by blast
      let ?s = "s\<lparr>disk := (disk s)(unat w := buf)\<rparr>"
      have "disk_write s (unat w) buf = Inr ?s"
        using w Cons.prems(3) by (simp add: disk_write_def kassert_def)
      then show ?thesis
        using Cons.IH [of cs' h' ?s] Cons.prems(2,3) g good(1) by (auto simp: Store v fun_upd_def intro!: ext split: sum.splits)
    qed
  qed
qed

section \<open>Identification\<close>

lemma identify_ok:
  assumes hw: "ata_channel hw p0 vec delay view" and d: "drive_ok cs i j p0 vec (view h)" "is_ata (devices (cs ! i) ! j)"
  shows "\<exists>cs' h' m. identify_ata_device hw True cs i j h = Some (Inr (cs', Some m, h')) \<and>
    sectors (devices (cs' ! i) ! j) =
      unat (ucast (id_word (identity (view h) j) 60) OR push_bit 16 (ucast (id_word (identity (view h) j) 61)) :: u32) \<and>
    m = (print_ata_string (drop 54 (identity (view h) j)) 40, print_ata_string (drop 20 (identity (view h) j)) 20) \<and>
    is_ata (devices (cs' ! i) ! j) \<and> media (view h') = media (view h) \<and> drive_ok cs' i j p0 vec (view h')"
proof -
  let ?c = "(cs ! i)\<lparr>expecting_interrupt := True\<rparr>" and ?id = "identity (view h) j"
  have k: "channel_ok cs i p0 vec" "ready (view h)" "j < 2" "dev_no (devices (cs ! i) ! j) = j" "i < length cs" "reg_base (cs ! i) = p0"
      "j < length (devices (cs ! i))"
    using d by (simp_all add: drive_ok_def channel_ok_def)
  define h0 where "h0 = select_device_wait hw (cs ! i) (devices (cs ! i) ! j) h"
  have h0: "view h0 = (view h)\<lparr>r_device := if j = 1 then DEV_MBS OR DEV_DEV else DEV_MBS\<rparr>"
    unfolding h0_def using select_ok [OF hw k(6,2)] k(4) by simp
  then have r: "ready (view h0)" "selected (view h0) = j"
    using k(2,3) by (auto simp: ready_def selected_def DEV_MBS_def DEV_DEV_def bit_simps)
  have "ata_command delay (view h0) CMD_IDENTIFY_DEVICE = (view h0)\<lparr>phase := Data_in ?id, busy := delay (view h0), pending := True\<rparr>"
    using r by (simp add: ata_command_def ready_def h0 CMD_IDENTIFY_DEVICE_def CMD_READ_SECTOR_RETRY_def CMD_WRITE_SECTOR_RETRY_def)
  then obtain h1 h2 h3 h4 where g: "issue_pio_command hw True (cs ! i) CMD_IDENTIFY_DEVICE h0 = Inr (?c, h1)"
      "completion_down hw i (cs[i := ?c]) h1 = Some (Inr (cs[i := ?c], h2))" "wait_while_busy hw ?c h2 = (True, h3)"
      "input_sector hw ?c h3 = (?id, h4)" "view h4 = view h0"
    using data_in_ok [OF hw k(1) r(1)] by blast
  show ?thesis
    using k r(1) d(2) unfolding identify_ata_device_def h0_def [symmetric]
    by (simp add: g h0_def [symmetric] Let_def drive_ok_def channel_ok_def h0)
qed

definition blank :: "u8 \<Rightarrow> bool" where
  "blank c \<longleftrightarrow> c = 0 \<or> isspace c"

definition swapped :: "u8 list \<Rightarrow> nat \<Rightarrow> u8 list" where
  "swapped string n = map (\<lambda>i. string ! (i XOR 1)) [0..<n]"

lemma print_ata_string_trims: "print_ata_string string n = rev (dropWhile blank (rev (swapped string n)))"
proof (induction n)
  case 0
  then show ?case
    by (simp add: print_ata_string_def swapped_def)
next
  case (Suc n)
  then show ?case
    by (simp add: print_ata_string_def swapped_def blank_def Let_def)
qed

lemma or_shifted:
  fixes a b :: nat
  assumes "a < 2 ^ k"
  shows "a OR push_bit k b = a + 2 ^ k * b"
proof -
  have "\<not> bit a n" if "k \<le> n" for n
  proof -
    have "a < 2 ^ n"
      using assms that power_increasing [of k n "2 :: nat"] by linarith
    then show ?thesis
      by (simp add: bit_iff_odd)
  qed
  then have "a AND push_bit k b = 0"
    by (auto simp: bit_eq_iff bit_simps)
  then show ?thesis
    by (simp add: disjunctive_add_eq_or [symmetric] push_bit_eq_mult mult.commute)
qed

lemma id_word_value: "unat (id_word bs n) = unat (bs ! (2 * n)) + 256 * unat (bs ! (2 * n + 1))"
proof -
  have b: "unat (x :: u8) < 256" for x
    using unsigned_less [of x] by simp
  have "unat (push_bit 8 (ucast x) :: u16) = take_bit 16 (push_bit 8 (take_bit 16 (unat x)))" for x :: u8
    by (simp add: unsigned_push_bit_eq unsigned_ucast_eq)
  then have "unat (push_bit 8 (ucast x) :: u16) = push_bit 8 (unat x)" for x :: u8
    using b [of x] by (simp only: take_bit_eq_mod push_bit_eq_mult) simp
  moreover have "unat (ucast x :: u16) = unat x" for x :: u8
    using b [of x] by (simp add: unsigned_ucast_eq take_bit_eq_mod)
  ultimately show ?thesis
    using or_shifted [of "unat (bs ! (2 * n))" 8 "unat (bs ! (2 * n + 1))"] b by (simp add: id_word_def unsigned_or_eq)
qed

lemma capacity_value: "unat (ucast (a :: u16) OR push_bit 16 (ucast b) :: u32) = unat a + 65536 * unat (b :: u16)"
proof -
  have b: "unat (x :: u16) < 65536" for x
    using unsigned_less [of x] by simp
  have "unat (push_bit 16 (ucast x) :: u32) = take_bit 32 (push_bit 16 (take_bit 32 (unat x)))" for x :: u16
    by (simp add: unsigned_push_bit_eq unsigned_ucast_eq)
  then have "unat (push_bit 16 (ucast x) :: u32) = push_bit 16 (unat x)" for x :: u16
    using b [of x] by (simp only: take_bit_eq_mod push_bit_eq_mult) simp
  moreover have "unat (ucast a :: u32) = unat a"
    using b [of a] by (simp add: unsigned_ucast_eq take_bit_eq_mod)
  ultimately show ?thesis
    using or_shifted [of "unat a" 16 "unat b"] b [of a] by (simp add: unsigned_or_eq)
qed

section \<open>The standard's controller\<close>

text \<open>A controller that is exactly the ATA channel above, with ports from 0x1f0 on and interrupt 0x2e, and takes 1 ms for everything.\<close>

definition standard :: "ata ports" where
  "standard = \<lparr>inb = ata_inb 0x1f0, outb = ata_outb (\<lambda>_. 1000000) 0x1f0, insw = \<lambda>a p. ata_insw a, outsw = \<lambda>a p. ata_outsw (\<lambda>_. 1000000) a,
     sleep = \<lambda>a n. a\<lparr>busy := busy a - n\<rparr>, await = \<lambda>a vec. Some (a\<lparr>busy := 0\<rparr>)\<rparr>"

lemma standard_is_ata: "ata_channel standard 0x1f0 0x2e (\<lambda>_. 1000000) (\<lambda>a. a)"
  by (simp add: ata_channel_def standard_def)

definition powered_on :: "u8 list \<Rightarrow> ata" where
  "powered_on ident = \<lparr>r_error = 1, r_nsect = 1, r_lbal = 1, r_lbam = 0, r_lbah = 0, r_device = 0, phase = Idle, busy = 0, pending = False,
     media = \<lambda>d n. replicate 512 0, identity = \<lambda>d. ident\<rparr>"

definition one_disk :: "channel list" where
  "one_disk = [(new_channel 0)\<lparr>devices := map (\<lambda>n. \<lparr>dev_no = n, is_ata = True, sectors = 100, read_cnt = 0, write_cnt = 0\<rparr>) [0, 1]\<rparr>, new_channel 1]"

lemma one_disk_ok: "j < 2 \<Longrightarrow> drive_ok one_disk 0 j 0x1f0 0x2e (powered_on ident)"
  by (auto simp: drive_ok_def channel_ok_def one_disk_def new_channel_def powered_on_def ready_def less_2_cases_iff)

section \<open>Properties\<close>



text \<open>
  On such a controller \<^verbatim>\<open>identify_ata_device\<close> returns, the capacity of the disk is the 32-bit number in bytes 120 to 123 of what
  the disk sends, low byte first, and the model (40 bytes from byte 54) and serial number (20 bytes from byte 20) are printed with
  the bytes of every pair swapped and without the white space and nulls at the end; the disk is still taken for an ATA disk and ready
  for reading.
\<close>

theorem identify_correct:
  assumes "ata_channel hw p0 vec delay view" "drive_ok cs i j p0 vec (view h)" "is_ata (devices (cs ! i) ! j)"
    and "bs = identity (view h) j"
  shows "\<exists>cs' h' model serial. identify_ata_device hw True cs i j h = Some (Inr (cs', Some (model, serial), h')) \<and>
    disk_size (devices (cs' ! i) ! j) = unat (bs ! 120) + 256 * unat (bs ! 121) + 65536 * unat (bs ! 122) + 16777216 * unat (bs ! 123) \<and>
    model = rev (dropWhile blank (rev (swapped (drop 54 bs) 40))) \<and> serial = rev (dropWhile blank (rev (swapped (drop 20 bs) 20))) \<and>
    is_ata (devices (cs' ! i) ! j) \<and> media (view h') = media (view h) \<and> drive_ok cs' i j p0 vec (view h')"
  using identify_ok [OF assms(1-3)] unfolding assms(4) [symmetric] capacity_value id_word_value print_ata_string_trims disk_size_def
  by (simp add: algebra_simps)

theorem identify_correct_witness:
  "\<exists>cs' h' model serial. identify_ata_device standard True one_disk 0 0 (powered_on (map of_nat [0..<256] @ map of_nat [0..<256])) =
     Some (Inr (cs', Some (model, serial), h')) \<and> disk_size (devices (cs' ! 0) ! 0) = 0x7b7a7978 \<and>
     take 4 model = [55, 54, 57, 56] \<and> length model = 40"
proof -
  define bs :: "u8 list" where "bs = map of_nat [0..<256] @ map of_nat [0..<256]"
  have a: "is_ata (devices (one_disk ! 0) ! 0)" "(0 :: nat) < 2"
    by (simp_all add: one_disk_def new_channel_def)
  have "identity (powered_on bs) 0 = bs"
    by (simp add: powered_on_def)
  note i = identify_correct [OF standard_is_ata one_disk_ok [OF a(2)] a(1) this [symmetric]]
  have "unat (bs ! 120) + 256 * unat (bs ! 121) + 65536 * unat (bs ! 122) + 16777216 * unat (bs ! 123) = 0x7b7a7978"
    by (simp add: bs_def nth_append)
  moreover have "take 4 (rev (dropWhile blank (rev (swapped (drop 54 bs) 40)))) = [55, 54, 57, 56] \<and>
      length (rev (dropWhile blank (rev (swapped (drop 54 bs) 40)))) = 40"
    unfolding bs_def by code_simp
  ultimately show ?thesis
    unfolding bs_def [symmetric] using i by metis
qed

end
