(* ===== verification/Traps.thy ===== *)
theory Traps
  imports Palloc
begin

text \<open>
  Interrupts, exceptions and segments as the processor sees them: the interrupt descriptor table and the registration of handlers
  (\<^verbatim>\<open>threads/interrupt.c\<close>), the handlers of exceptions (\<^verbatim>\<open>userprog/exception.c\<close>), the segment
  descriptors and the task-state segment (\<^verbatim>\<open>userprog/gdt.c\<close>, \<^verbatim>\<open>userprog/tss.c\<close>) and the registrations of the devices and of system calls in the
  order in which \<^verbatim>\<open>main\<close> makes them. Addresses that the linker chooses (the entry points of the stubs, the tables)
  are arguments. What is written to a port is a list of outputs. Loading the registers of the
  processor and printing are left out.

  Shown: gates and descriptors have the fields the processor's manual gives them; after the start of the kernel a user
  program can invoke exactly the vectors that are meant for it; the interrupt controllers deliver their
  sixteen lines to the vectors from 0x20 on.
\<close>

section \<open>Selectors\<close>

definition SEL_NULL :: u16 where "SEL_NULL = 0x00"
definition SEL_KCSEG :: u16 where "SEL_KCSEG = 0x08"
definition SEL_KDSEG :: u16 where "SEL_KDSEG = 0x10"
definition SEL_UCSEG :: u16 where "SEL_UCSEG = 0x1B"
definition SEL_UDSEG :: u16 where "SEL_UDSEG = 0x23"
definition SEL_TSS :: u16 where "SEL_TSS = 0x28"
definition SEL_CNT :: nat where "SEL_CNT = 6"

lemmas selectors = SEL_NULL_def SEL_KCSEG_def SEL_KDSEG_def SEL_UCSEG_def SEL_UDSEG_def SEL_TSS_def SEL_CNT_def

section \<open>Gates\<close>

definition make_gate :: "u32 \<Rightarrow> int \<Rightarrow> int \<Rightarrow> u64 outcome" where
  "make_gate function dpl type =
     kbind (kassert (function \<noteq> 0)) (\<lambda>_.
     kbind (kassert (dpl \<ge> 0 \<and> dpl \<le> 3)) (\<lambda>_.
     kbind (kassert (type \<ge> 0 \<and> type \<le> 15)) (\<lambda>_.
       let e0 = (function AND 0xffff) OR push_bit 16 (ucast SEL_KCSEG) :: u32;
           e1 = (function AND 0xffff0000) OR push_bit 15 1 OR push_bit 13 (of_int dpl) OR push_bit 12 0 OR push_bit 8 (of_int type) :: u32
       in Inr (ucast e0 OR push_bit 32 (ucast e1)))))"

definition make_intr_gate :: "u32 \<Rightarrow> int \<Rightarrow> u64 outcome" where
  "make_intr_gate function dpl = make_gate function dpl 14"

definition make_trap_gate :: "u32 \<Rightarrow> int \<Rightarrow> u64 outcome" where
  "make_trap_gate function dpl = make_gate function dpl 15"

definition make_idtr_operand :: "u16 \<Rightarrow> u32 \<Rightarrow> u64" where
  "make_idtr_operand limit base_addr = ucast limit OR push_bit 16 (ucast base_addr)"

section \<open>Registering handlers\<close>

datatype handler = Timer_interrupt | Keyboard_interrupt | Serial_interrupt | Disk_interrupt | Kill | Page_fault | Syscall_handler

record traps =
  idt :: "u64 list"
  intr_handlers :: "handler option list"
  intr_names :: "string list"

definition INTR_CNT :: nat where "INTR_CNT = 256"

type_synonym outputs = "(nat \<times> u8) list"

definition pic_init :: outputs where
  "pic_init =
     [(0x21, 0xff), (0xa1, 0xff),
      (0x20, 0x11), (0x21, 0x20), (0x21, 0x04), (0x21, 0x01),
      (0xa0, 0x11), (0xa1, 0x28), (0xa1, 0x02), (0xa1, 0x01),
      (0x21, 0x00), (0xa1, 0x00)]"

definition pic_end_of_interrupt :: "nat \<Rightarrow> outputs outcome" where
  "pic_end_of_interrupt irq =
     kbind (kassert (irq \<ge> 0x20 \<and> irq < 0x30)) (\<lambda>_.
       Inr ((0x20, 0x20) # (if irq \<ge> 0x28 then [(0xa0, 0x20)] else [])))"

fun init_gates :: "(nat \<Rightarrow> u32) \<Rightarrow> nat list \<Rightarrow> u64 list outcome" where
  "init_gates intr_stubs [] = Inr []"
| "init_gates intr_stubs (i # is) =
     kbind (make_intr_gate (intr_stubs i) 0) (\<lambda>g. kbind (init_gates intr_stubs is) (\<lambda>gs. Inr (g # gs)))"

definition exception_names :: "(nat \<times> string) list" where
  "exception_names =
     [(0, ''#DE Divide Error''), (1, ''#DB Debug Exception''), (2, ''NMI Interrupt''), (3, ''#BP Breakpoint Exception''),
      (4, ''#OF Overflow Exception''), (5, ''#BR BOUND Range Exceeded Exception''), (6, ''#UD Invalid Opcode Exception''),
      (7, ''#NM Device Not Available Exception''), (8, ''#DF Double Fault Exception''), (9, ''Coprocessor Segment Overrun''),
      (10, ''#TS Invalid TSS Exception''), (11, ''#NP Segment Not Present''), (12, ''#SS Stack Fault Exception''),
      (13, ''#GP General Protection Exception''), (14, ''#PF Page-Fault Exception''), (16, ''#MF x87 FPU Floating-Point Error''),
      (17, ''#AC Alignment Check Exception''), (18, ''#MC Machine-Check Exception''), (19, ''#XF SIMD Floating-Point Exception'')]"

text \<open>The outputs, the operand of \<^verbatim>\<open>lidt\<close> and the tables; \<open>idt_addr\<close> is where the linker has put \<^verbatim>\<open>idt\<close>.\<close>

definition intr_init :: "(nat \<Rightarrow> u32) \<Rightarrow> u32 \<Rightarrow> (outputs \<times> u64 \<times> traps) outcome" where
  "intr_init intr_stubs idt_addr =
     kbind (init_gates intr_stubs [0..<INTR_CNT]) (\<lambda>gates.
       Inr (pic_init, make_idtr_operand (of_nat (8 * INTR_CNT - 1)) idt_addr,
         \<lparr>idt = gates, intr_handlers = replicate INTR_CNT None,
          intr_names = map (\<lambda>i. case map_of exception_names i of None \<Rightarrow> ''unknown'' | Some n \<Rightarrow> n) [0..<INTR_CNT]\<rparr>))"

definition register_handler :: "(nat \<Rightarrow> u32) \<Rightarrow> u8 \<Rightarrow> int \<Rightarrow> bool \<Rightarrow> handler \<Rightarrow> string \<Rightarrow> traps \<Rightarrow> traps outcome" where
  "register_handler intr_stubs vec_no dpl level handler name t =
     kbind (kassert (intr_handlers t ! unat vec_no = None)) (\<lambda>_.
     kbind (if level then make_trap_gate (intr_stubs (unat vec_no)) dpl else make_intr_gate (intr_stubs (unat vec_no)) dpl) (\<lambda>g.
       Inr (t\<lparr>idt := (idt t)[unat vec_no := g], intr_handlers := (intr_handlers t)[unat vec_no := Some handler],
              intr_names := (intr_names t)[unat vec_no := name]\<rparr>)))"

definition intr_register_ext :: "(nat \<Rightarrow> u32) \<Rightarrow> u8 \<Rightarrow> handler \<Rightarrow> string \<Rightarrow> traps \<Rightarrow> traps outcome" where
  "intr_register_ext intr_stubs vec_no handler name t =
     kbind (kassert (vec_no \<ge> 0x20 \<and> vec_no \<le> 0x2f)) (\<lambda>_. register_handler intr_stubs vec_no 0 False handler name t)"

definition intr_register_int :: "(nat \<Rightarrow> u32) \<Rightarrow> u8 \<Rightarrow> int \<Rightarrow> bool \<Rightarrow> handler \<Rightarrow> string \<Rightarrow> traps \<Rightarrow> traps outcome" where
  "intr_register_int intr_stubs vec_no dpl level handler name t =
     kbind (kassert (vec_no < 0x20 \<or> vec_no > 0x2f)) (\<lambda>_. register_handler intr_stubs vec_no dpl level handler name t)"

definition intr_name :: "traps \<Rightarrow> u8 \<Rightarrow> string" where
  "intr_name t vec = intr_names t ! unat vec"

section \<open>Who registers\<close>

definition timer_init :: "(nat \<Rightarrow> u32) \<Rightarrow> traps \<Rightarrow> (outputs \<times> traps) outcome" where
  "timer_init intr_stubs t =
     (let count = of_int ((1193180 + 100 div 2) div 100) :: u16
      in kbind (intr_register_ext intr_stubs 0x20 Timer_interrupt ''8254 Timer'' t) (\<lambda>t.
           Inr ([(0x43, 0x34), (0x40, ucast (count AND 0xff)), (0x40, ucast (drop_bit 8 count))], t)))"

definition kbd_init :: "(nat \<Rightarrow> u32) \<Rightarrow> traps \<Rightarrow> traps outcome" where
  "kbd_init intr_stubs t = intr_register_ext intr_stubs 0x21 Keyboard_interrupt ''8042 Keyboard'' t"

definition exception_init :: "(nat \<Rightarrow> u32) \<Rightarrow> traps \<Rightarrow> traps outcome" where
  "exception_init intr_stubs t =
     (let reg = intr_register_int intr_stubs
      in kbind (reg 3 3 True Kill ''#BP Breakpoint Exception'' t) (\<lambda>t.
         kbind (reg 4 3 True Kill ''#OF Overflow Exception'' t) (\<lambda>t.
         kbind (reg 5 3 True Kill ''#BR BOUND Range Exceeded Exception'' t) (\<lambda>t.
         kbind (reg 0 0 True Kill ''#DE Divide Error'' t) (\<lambda>t.
         kbind (reg 1 0 True Kill ''#DB Debug Exception'' t) (\<lambda>t.
         kbind (reg 6 0 True Kill ''#UD Invalid Opcode Exception'' t) (\<lambda>t.
         kbind (reg 7 0 True Kill ''#NM Device Not Available Exception'' t) (\<lambda>t.
         kbind (reg 11 0 True Kill ''#NP Segment Not Present'' t) (\<lambda>t.
         kbind (reg 12 0 True Kill ''#SS Stack Fault Exception'' t) (\<lambda>t.
         kbind (reg 13 0 True Kill ''#GP General Protection Exception'' t) (\<lambda>t.
         kbind (reg 16 0 True Kill ''#MF x87 FPU Floating-Point Error'' t) (\<lambda>t.
         kbind (reg 19 0 True Kill ''#XF SIMD Floating-Point Exception'' t) (\<lambda>t.
           reg 14 0 False Page_fault ''#PF Page-Fault Exception'' t)))))))))))))"

definition syscall_init :: "(nat \<Rightarrow> u32) \<Rightarrow> traps \<Rightarrow> traps outcome" where
  "syscall_init intr_stubs t = intr_register_int intr_stubs 0x30 3 True Syscall_handler ''syscall'' t"

text \<open>The registration in \<^verbatim>\<open>serial_init_queue\<close>, and those of the two channels in \<^verbatim>\<open>disk_init\<close>.\<close>

definition serial_register :: "(nat \<Rightarrow> u32) \<Rightarrow> traps \<Rightarrow> traps outcome" where
  "serial_register intr_stubs t = intr_register_ext intr_stubs (0x20 + 4) Serial_interrupt ''serial'' t"

definition disk_register :: "(nat \<Rightarrow> u32) \<Rightarrow> traps \<Rightarrow> traps outcome" where
  "disk_register intr_stubs t =
     kbind (intr_register_ext intr_stubs (14 + 0x20) Disk_interrupt ''hd0'' t) (intr_register_ext intr_stubs (15 + 0x20) Disk_interrupt ''hd1'')"

text \<open>The calls that \<^verbatim>\<open>main\<close> makes, in their order.\<close>

definition main_traps :: "(nat \<Rightarrow> u32) \<Rightarrow> u32 \<Rightarrow> (outputs \<times> traps) outcome" where
  "main_traps intr_stubs idt_addr =
     kbind (intr_init intr_stubs idt_addr) (\<lambda>(out, _, t).
     kbind (timer_init intr_stubs t) (\<lambda>(out2, t).
     kbind (kbd_init intr_stubs t) (\<lambda>t.
     kbind (exception_init intr_stubs t) (\<lambda>t.
     kbind (syscall_init intr_stubs t) (\<lambda>t.
     kbind (serial_register intr_stubs t) (\<lambda>t.
     kbind (disk_register intr_stubs t) (\<lambda>t. Inr (out @ out2, t))))))))"

section \<open>Exceptions\<close>

text \<open>The parts of an interrupt frame that are used here, and what becomes of the interrupted thread.\<close>

record frame =
  vec_no :: u32
  error_code :: u32
  cs :: u16

datatype fate = Goes_on | Thread_exit

definition kill :: "frame \<Rightarrow> fate outcome" where
  "kill f =
     (if cs f = SEL_UCSEG then Inr Thread_exit
      else if cs f = SEL_KCSEG then Inl Kernel_panic
      else Inr Thread_exit)"

definition PF_P :: u32 where "PF_P = 0x1"
definition PF_W :: u32 where "PF_W = 0x2"
definition PF_U :: u32 where "PF_U = 0x4"

text \<open>The counter afterwards, the cause that is printed (not present, writing, by a user), and the end of \<^verbatim>\<open>kill\<close>.\<close>

definition page_fault :: "bool \<Rightarrow> frame \<Rightarrow> nat \<Rightarrow> (nat \<times> (bool \<times> bool \<times> bool) \<times> fate) outcome" where
  "page_fault in_external_intr f page_fault_cnt =
     kbind (kassert (\<not> in_external_intr)) (\<lambda>_.
     let not_present = error_code f AND PF_P = 0;
         write = error_code f AND PF_W \<noteq> 0;
         user = error_code f AND PF_U \<noteq> 0
     in kbind (kill f) (\<lambda>fate. Inr (page_fault_cnt + 1, (not_present, write, user), fate)))"

text \<open>
  \<^verbatim>\<open>intr_handler\<close>: which handler an interrupt gets, and the acknowledgement of an external one. \<open>run\<close> is the effect of a handler;
  its result says whether it asked for a yield on return.
\<close>

definition dispatch :: "traps \<Rightarrow> (handler \<Rightarrow> frame \<Rightarrow> bool outcome) \<Rightarrow> frame \<Rightarrow> (outputs \<times> bool) outcome" where
  "dispatch t run f =
     (let external = vec_no f \<ge> 0x20 \<and> vec_no f < 0x30
      in kbind (if unat (vec_no f) < length (intr_handlers t) then Inr (intr_handlers t ! unat (vec_no f)) else Inl Bad_access) (\<lambda>handler.
         kbind (case handler of
                  Some h \<Rightarrow> run h f
                | None \<Rightarrow> if vec_no f = 0x27 \<or> vec_no f = 0x2f then Inr False else Inl Kernel_panic) (\<lambda>yield.
           if external then kbind (pic_end_of_interrupt (unat (vec_no f))) (\<lambda>out. Inr (out, yield)) else Inr ([], False))))"

section \<open>The task-state segment\<close>

text \<open>The members that are written; the others stay zero. \<open>cur\<close> is the address of the running thread.\<close>

record tss =
  esp0 :: u32
  ss0 :: u16
  iomap :: u16

definition tss_get :: "u32 \<Rightarrow> u32 outcome" where
  "tss_get tss = kbind (kassert (tss \<noteq> 0)) (\<lambda>_. Inr tss)"

definition tss_update :: "u32 \<Rightarrow> u32 \<Rightarrow> tss \<Rightarrow> tss outcome" where
  "tss_update tss cur t = kbind (kassert (tss \<noteq> 0)) (\<lambda>_. Inr (t\<lparr>esp0 := cur + PGSIZE\<rparr>))"

definition tss_init :: "palloc \<Rightarrow> u32 \<Rightarrow> (palloc \<times> u32 \<times> tss) outcome" where
  "tss_init s cur =
     kbind (palloc_get_page s (PAL_ASSERT OR PAL_ZERO)) (\<lambda>(s, tss).
     kbind (tss_update tss cur \<lparr>esp0 = 0, ss0 = SEL_KDSEG, iomap = 0xdfff\<rparr>) (\<lambda>t. Inr (s, tss, t)))"

section \<open>Segment descriptors\<close>

datatype seg_class = CLS_SYSTEM | CLS_CODE_DATA
datatype seg_granularity = GRAN_BYTE | GRAN_PAGE

fun class_bit :: "seg_class \<Rightarrow> u32" where
  "class_bit CLS_SYSTEM = 0"
| "class_bit CLS_CODE_DATA = 1"

fun granularity_bit :: "seg_granularity \<Rightarrow> u32" where
  "granularity_bit GRAN_BYTE = 0"
| "granularity_bit GRAN_PAGE = 1"

definition make_seg_desc :: "u32 \<Rightarrow> u32 \<Rightarrow> seg_class \<Rightarrow> int \<Rightarrow> int \<Rightarrow> seg_granularity \<Rightarrow> u64 outcome" where
  "make_seg_desc base_addr limit class type dpl granularity =
     kbind (kassert (limit \<le> 0xfffff)) (\<lambda>_.
     kbind (kassert (type \<ge> 0 \<and> type \<le> 15)) (\<lambda>_.
     kbind (kassert (dpl \<ge> 0 \<and> dpl \<le> 3)) (\<lambda>_.
       let e0 = (limit AND 0xffff) OR push_bit 16 base_addr;
           e1 = (drop_bit 16 base_addr AND 0xff) OR push_bit 8 (of_int type) OR push_bit 12 (class_bit class) OR push_bit 13 (of_int dpl) OR
             push_bit 15 1 OR (limit AND 0xf0000) OR push_bit 22 1 OR push_bit 23 (granularity_bit granularity) OR (base_addr AND 0xff000000)
       in Inr (ucast e0 OR push_bit 32 (ucast e1)))))"

definition make_code_desc :: "int \<Rightarrow> u64 outcome" where
  "make_code_desc dpl = make_seg_desc 0 0xfffff CLS_CODE_DATA 10 dpl GRAN_PAGE"

definition make_data_desc :: "int \<Rightarrow> u64 outcome" where
  "make_data_desc dpl = make_seg_desc 0 0xfffff CLS_CODE_DATA 2 dpl GRAN_PAGE"

definition make_tss_desc :: "u32 \<Rightarrow> u64 outcome" where
  "make_tss_desc laddr = make_seg_desc laddr 0x67 CLS_SYSTEM 9 0 GRAN_BYTE"

definition make_gdtr_operand :: "u16 \<Rightarrow> u32 \<Rightarrow> u64" where
  "make_gdtr_operand limit base_addr = ucast limit OR push_bit 16 (ucast base_addr)"

definition slot :: "u16 \<Rightarrow> nat" where
  "slot sel = unat sel div 8"

text \<open>\<open>tss\<close> and \<open>gdt_addr\<close> are the addresses of the task-state segment and of the table.\<close>

definition gdt_init :: "u32 \<Rightarrow> u32 \<Rightarrow> (u64 list \<times> u64) outcome" where
  "gdt_init tss gdt_addr =
     (let gdt = (replicate SEL_CNT 0)[slot SEL_NULL := 0]
      in kbind (make_code_desc 0) (\<lambda>d. let gdt = gdt[slot SEL_KCSEG := d]
      in kbind (make_data_desc 0) (\<lambda>d. let gdt = gdt[slot SEL_KDSEG := d]
      in kbind (make_code_desc 3) (\<lambda>d. let gdt = gdt[slot SEL_UCSEG := d]
      in kbind (make_data_desc 3) (\<lambda>d. let gdt = gdt[slot SEL_UDSEG := d]
      in kbind (tss_get tss) (\<lambda>tss.
         kbind (make_tss_desc tss) (\<lambda>d. let gdt = gdt[slot SEL_TSS := d]
      in Inr (gdt, make_gdtr_operand (of_nat (8 * SEL_CNT - 1)) gdt_addr))))))))"

section \<open>What the processor makes of a gate\<close>

definition gate_offset :: "u64 \<Rightarrow> u32" where
  "gate_offset g = ucast (take_bit 16 g) OR push_bit 16 (ucast (drop_bit 48 g))"

definition gate_selector :: "u64 \<Rightarrow> u16" where
  "gate_selector g = ucast (drop_bit 16 g)"

definition gate_dpl :: "u64 \<Rightarrow> u64" where
  "gate_dpl g = take_bit 2 (drop_bit 45 g)"

text \<open>Five bits: with bit 44, which is 0 for gates.\<close>

definition gate_type :: "u64 \<Rightarrow> u64" where
  "gate_type g = take_bit 5 (drop_bit 40 g)"

definition gate_present :: "u64 \<Rightarrow> bool" where
  "gate_present g \<longleftrightarrow> bit g 47"

lemma masks32: "(0xffff :: u32) = mask 16" "(0xffff0000 :: u32) = NOT (mask 16)" "(0xff :: u32) = mask 8"
  "(0xf0000 :: u32) = push_bit 16 (mask 4)" "(0xff000000 :: u32) = push_bit 24 (mask 8)"
  by (simp_all add: mask_eq_decr_exp)

definition gate_word :: "u32 \<Rightarrow> u32 \<Rightarrow> u32 \<Rightarrow> u64" where
  "gate_word fn d t = ucast ((fn AND mask 16) OR push_bit 19 1) OR
     push_bit 32 (ucast ((fn AND NOT (mask 16)) OR push_bit 15 1 OR push_bit 13 (take_bit 2 d) OR push_bit 8 (take_bit 4 t)))"

lemma bit_shifted_one: "k < LENGTH('a) \<Longrightarrow> bit (push_bit k 1 :: 'a :: len word) n \<longleftrightarrow> n = k"
  "bit (push_bit k 1 :: int) n \<longleftrightarrow> n = k" "bit (push_bit k 1 :: nat) n \<longleftrightarrow> n = k"
  by (auto simp: bit_simps)

lemma bit_flags:
  "bit (524288 :: int) n \<longleftrightarrow> n = 19" "bit (32768 :: int) n \<longleftrightarrow> n = 15" "bit (4194304 :: int) n \<longleftrightarrow> n = 22" "bit (8 :: int) n \<longleftrightarrow> n = 3"
  using bit_shifted_one(2) [of 19 n] bit_shifted_one(2) [of 15 n] bit_shifted_one(2) [of 22 n] bit_shifted_one(2) [of 3 n]
  by simp_all

lemma gate_word_fields:
  "gate_offset (gate_word fn d t) = fn" "gate_selector (gate_word fn d t) = 8" "gate_dpl (gate_word fn d t) = ucast (take_bit 2 d)"
  "gate_type (gate_word fn d t) = ucast (take_bit 4 t)" "gate_present (gate_word fn d t)"
proof -
  show "gate_offset (gate_word fn d t) = fn"
    by (rule bit_word_eqI) (auto simp: gate_offset_def gate_word_def bit_simps bit_flags)
  show "gate_selector (gate_word fn d t) = 8"
    by (rule bit_word_eqI) (auto simp: gate_selector_def gate_word_def bit_simps bit_flags)
  show "gate_dpl (gate_word fn d t) = ucast (take_bit 2 d)"
    by (rule bit_word_eqI) (auto simp: gate_dpl_def gate_word_def bit_simps bit_flags)
  show "gate_type (gate_word fn d t) = ucast (take_bit 4 t)"
    by (rule bit_word_eqI) (auto simp: gate_type_def gate_word_def bit_simps bit_flags)
  show "gate_present (gate_word fn d t)"
    by (simp add: gate_present_def gate_word_def bit_simps bit_flags)
qed

lemma of_int_bits:
  assumes "0 \<le> i" "i < 2 ^ k"
  shows "of_int i = take_bit k (of_int i :: 'a :: len word)"
proof -
  have "n < k" if "bit i n" for n
    using that assms by (metis take_bit_int_eq_self bit_take_bit_iff)
  then show ?thesis
    by (auto intro!: bit_word_eqI simp: bit_simps)
qed

lemma make_gate_ok:
  assumes "fn \<noteq> 0" "0 \<le> dpl" "dpl \<le> 3" "0 \<le> type" "type \<le> 15"
  shows "make_gate fn dpl type = Inr (gate_word fn (of_int dpl) (of_int type))"
proof -
  have "of_int dpl = take_bit 2 (of_int dpl :: u32)" "of_int type = take_bit 4 (of_int type :: u32)"
    using assms by (auto intro!: of_int_bits)
  then show ?thesis
    using assms by (simp add: make_gate_def gate_word_def SEL_KCSEG_def masks32)
qed

section \<open>What the processor makes of a descriptor\<close>

definition seg_base :: "u64 \<Rightarrow> u32" where
  "seg_base s = ucast (take_bit 16 (drop_bit 16 s)) OR push_bit 16 (ucast (take_bit 8 (drop_bit 32 s))) OR push_bit 24 (ucast (drop_bit 56 s))"

definition seg_limit :: "u64 \<Rightarrow> u32" where
  "seg_limit s = ucast (take_bit 16 s) OR push_bit 16 (ucast (take_bit 4 (drop_bit 48 s)))"

text \<open>The last byte of a segment: the limit counts bytes or pages of 4 kB.\<close>

definition seg_last :: "u64 \<Rightarrow> nat" where
  "seg_last s = (if bit s 55 then 4096 * unat (seg_limit s) + 4095 else unat (seg_limit s))"

text \<open>Five bits: with bit 44, which is 0 for system segments.\<close>

definition seg_type :: "u64 \<Rightarrow> nat" where
  "seg_type s = unat (take_bit 5 (drop_bit 40 s))"

definition seg_dpl :: "u64 \<Rightarrow> nat" where
  "seg_dpl s = unat (take_bit 2 (drop_bit 45 s))"

definition seg_present :: "u64 \<Rightarrow> bool" where
  "seg_present s \<longleftrightarrow> bit s 47"

definition seg_word :: "u32 \<Rightarrow> u32 \<Rightarrow> u32 \<Rightarrow> u32 \<Rightarrow> u32 \<Rightarrow> u32 \<Rightarrow> u64" where
  "seg_word base_addr limit c t d g = ucast ((limit AND mask 16) OR push_bit 16 base_addr) OR
     push_bit 32 (ucast ((drop_bit 16 base_addr AND mask 8) OR push_bit 8 (take_bit 4 t) OR push_bit 12 (take_bit 1 c) OR push_bit 13 (take_bit 2 d) OR
       push_bit 15 1 OR (limit AND push_bit 16 (mask 4)) OR push_bit 22 1 OR push_bit 23 (take_bit 1 g) OR (base_addr AND push_bit 24 (mask 8))))"

lemma upto32: "n < 32 \<Longrightarrow> n \<in> {0, 1, 2, 3, 4, 5, 6, 7, 8, 9, 10, 11, 12, 13, 14, 15, 16, 17, 18, 19, 20, 21, 22, 23, 24, 25, 26, 27, 28, 29, 30, 31 :: nat}"
  by (simp add: numeral_eq_Suc less_Suc_eq)

lemma seg_word_base: "seg_base (seg_word base_addr limit c t d g) = base_addr"
proof (rule bit_word_eqI)
  fix n
  assume "n < LENGTH(32)"
  then have "n \<in> {0, 1, 2, 3, 4, 5, 6, 7, 8, 9, 10, 11, 12, 13, 14, 15, 16, 17, 18, 19, 20, 21, 22, 23, 24, 25, 26, 27, 28, 29, 30, 31}"
    using upto32 by simp
  then show "bit (seg_base (seg_word base_addr limit c t d g)) n \<longleftrightarrow> bit base_addr n"
    by (elim insertE emptyE; simp add: seg_base_def seg_word_def bit_simps bit_flags)
qed

lemma seg_word_limit:
  assumes "limit \<le> 0xfffff"
  shows "seg_limit (seg_word base_addr limit c t d g) = limit"
proof (rule bit_word_eqI)
  fix n
  assume "n < LENGTH(32)"
  then have n: "n \<in> {0, 1, 2, 3, 4, 5, 6, 7, 8, 9, 10, 11, 12, 13, 14, 15, 16, 17, 18, 19, 20, 21, 22, 23, 24, 25, 26, 27, 28, 29, 30, 31}"
    using upto32 by simp
  have "take_bit 20 limit = limit"
    using assms by (intro word_eqI_unat) (simp add: unsigned_take_bit_eq word_le_nat_alt take_bit_nat_eq_self)
  then have high: "20 \<le> k \<Longrightarrow> \<not> bit limit k" for k
    by (metis bit_take_bit_iff not_less)
  show "bit (seg_limit (seg_word base_addr limit c t d g)) n \<longleftrightarrow> bit limit n"
    using n high [of n] by (elim insertE emptyE; simp add: seg_limit_def seg_word_def bit_simps bit_flags)
qed

lemma upto5: "n < 5 \<Longrightarrow> n \<in> {0, 1, 2, 3, 4 :: nat}"
  by auto

lemma seg_word_rest:
  "seg_present (seg_word base_addr limit c t d g)" "bit (seg_word base_addr limit c t d g) 55 \<longleftrightarrow> bit g 0"
  "take_bit 2 (drop_bit 45 (seg_word base_addr limit c t d g)) = ucast (take_bit 2 d)"
  "take_bit 5 (drop_bit 40 (seg_word base_addr limit c t d g)) = ucast (take_bit 4 t OR push_bit 4 (take_bit 1 c))"
proof -
  show "seg_present (seg_word base_addr limit c t d g)" "bit (seg_word base_addr limit c t d g) 55 \<longleftrightarrow> bit g 0"
    by (simp_all add: seg_present_def seg_word_def bit_simps bit_flags bit_0)
  show "take_bit 2 (drop_bit 45 (seg_word base_addr limit c t d g)) = ucast (take_bit 2 d)"
  proof (rule bit_word_eqI)
    fix n
    show "bit (take_bit 2 (drop_bit 45 (seg_word base_addr limit c t d g))) n \<longleftrightarrow> bit (ucast (take_bit 2 d) :: u64) n"
    proof (cases "n < 2")
      case True
      then have "n \<in> {0, 1}"
        by auto
      then show ?thesis
        by (elim insertE emptyE; simp add: seg_word_def bit_simps bit_flags)
    qed (simp add: bit_simps)
  qed
  show "take_bit 5 (drop_bit 40 (seg_word base_addr limit c t d g)) = ucast (take_bit 4 t OR push_bit 4 (take_bit 1 c))"
  proof (rule bit_word_eqI)
    fix n
    show "bit (take_bit 5 (drop_bit 40 (seg_word base_addr limit c t d g))) n \<longleftrightarrow> bit (ucast (take_bit 4 t OR push_bit 4 (take_bit 1 c)) :: u64) n"
    proof (cases "n < 5")
      case True
      then show ?thesis
        using upto5 [OF True] by (elim insertE emptyE; simp add: seg_word_def bit_simps bit_flags)
    qed (auto simp: bit_simps)
  qed
qed

lemma make_seg_desc_ok:
  assumes "limit \<le> 0xfffff" "0 \<le> type" "type \<le> 15" "0 \<le> dpl" "dpl \<le> 3"
  shows "make_seg_desc base_addr limit cl type dpl gran =
    Inr (seg_word base_addr limit (class_bit cl) (of_int type) (of_int dpl) (granularity_bit gran))"
proof -
  have "of_int dpl = take_bit 2 (of_int dpl :: u32)" "of_int type = take_bit 4 (of_int type :: u32)"
    using assms by (auto intro!: of_int_bits)
  moreover have "class_bit cl = take_bit 1 (class_bit cl)" "granularity_bit gran = take_bit 1 (granularity_bit gran)"
    by (cases cl; simp) (cases gran; simp)
  ultimately show ?thesis
    using assms by (simp add: make_seg_desc_def seg_word_def masks32)
qed

section \<open>The table of gates\<close>

text \<open>
  What a vector has been registered for: privilege level, whether interrupts stay on, handler and name. \<open>table\<close> is the state of
  \<^verbatim>\<open>interrupt.c\<close> for given registrations.
\<close>

type_synonym registration = "int \<times> bool \<times> handler \<times> string"

definition gate_for :: "u32 \<Rightarrow> registration option \<Rightarrow> u64" where
  "gate_for stub r = (case r of None \<Rightarrow> gate_word stub 0 14 | Some (dpl, on, _, _) \<Rightarrow> gate_word stub (of_int dpl) (if on then 15 else 14))"

definition default_name :: "nat \<Rightarrow> string" where
  "default_name i = (case map_of exception_names i of None \<Rightarrow> ''unknown'' | Some n \<Rightarrow> n)"

definition table :: "(nat \<Rightarrow> u32) \<Rightarrow> (nat \<rightharpoonup> registration) \<Rightarrow> traps" where
  "table stubs r = \<lparr>idt = map (\<lambda>i. gate_for (stubs i) (r i)) [0..<INTR_CNT], intr_handlers = map (\<lambda>i. map_option (\<lambda>(_, _, h, _). h) (r i)) [0..<INTR_CNT],
     intr_names = map (\<lambda>i. case r i of None \<Rightarrow> default_name i | Some (_, _, _, n) \<Rightarrow> n) [0..<INTR_CNT]\<rparr>"

lemma map_upt_update: "i < n \<Longrightarrow> f' = f(i := x) \<Longrightarrow> (map f [0..<n])[i := x] = map f' [0..<n]"
  by (auto intro!: nth_equalityI simp: nth_list_update)

lemma register_table:
  assumes "r (unat v) = None" "0 \<le> dpl" "dpl \<le> 3" "stubs (unat v) \<noteq> 0"
  shows "register_handler stubs v dpl on h name (table stubs r) = Inr (table stubs (r(unat v \<mapsto> (dpl, on, h, name))))"
proof -
  have v: "unat v < INTR_CNT"
    using unsigned_less [of v] by (simp add: INTR_CNT_def)
  have "(if on then make_trap_gate (stubs (unat v)) dpl else make_intr_gate (stubs (unat v)) dpl) =
      Inr (gate_for (stubs (unat v)) (Some (dpl, on, h, name)))"
    using assms by (simp add: make_trap_gate_def make_intr_gate_def make_gate_ok gate_for_def)
  then show ?thesis
    using v assms(1)
    by (auto simp: register_handler_def table_def intro!: map_upt_update ext)
qed

lemma init_gates_ok:
  assumes "\<And>i. i \<in> set is \<Longrightarrow> stubs i \<noteq> 0"
  shows "init_gates stubs is = Inr (map (\<lambda>i. gate_for (stubs i) None) is)"
  using assms by (induction "is") (simp_all add: make_intr_gate_def make_gate_ok gate_for_def)

lemma intr_init_table:
  assumes "\<And>i. i < INTR_CNT \<Longrightarrow> stubs i \<noteq> 0"
  shows "intr_init stubs a = Inr (pic_init, make_idtr_operand 2047 a, table stubs Map.empty)"
proof -
  have "init_gates stubs [0..<INTR_CNT] = Inr (map (\<lambda>i. gate_for (stubs i) None) [0..<INTR_CNT])"
    using assms by (intro init_gates_ok) simp
  moreover have "replicate INTR_CNT None = map (\<lambda>i. None) [0..<INTR_CNT]"
    by (simp add: map_replicate_const)
  moreover have "(of_nat (8 * INTR_CNT - 1) :: u16) = 2047"
    by (simp add: INTR_CNT_def)
  ultimately show ?thesis
    by (simp add: intr_init_def table_def default_name_def)
qed

lemma register_ext_table:
  assumes "r (unat v) = None" "0x20 \<le> v" "v \<le> 0x2f" "stubs (unat v) \<noteq> 0"
  shows "intr_register_ext stubs v h name (table stubs r) = Inr (table stubs (r(unat v \<mapsto> (0, False, h, name))))"
  using assms by (simp add: intr_register_ext_def register_table)

lemma register_int_table:
  assumes "r (unat v) = None" "v < 0x20 \<or> v > 0x2f" "0 \<le> dpl" "dpl \<le> 3" "stubs (unat v) \<noteq> 0"
  shows "intr_register_int stubs v dpl on h name (table stubs r) = Inr (table stubs (r(unat v \<mapsto> (dpl, on, h, name))))"
  using assms by (simp add: intr_register_int_def register_table)

text \<open>The registrations after the start of the kernel.\<close>

definition registered :: "nat \<rightharpoonup> registration" where
  "registered = [
     0x20 \<mapsto> (0, False, Timer_interrupt, ''8254 Timer''), 0x21 \<mapsto> (0, False, Keyboard_interrupt, ''8042 Keyboard''),
     3 \<mapsto> (3, True, Kill, ''#BP Breakpoint Exception''), 4 \<mapsto> (3, True, Kill, ''#OF Overflow Exception''),
     5 \<mapsto> (3, True, Kill, ''#BR BOUND Range Exceeded Exception''), 0 \<mapsto> (0, True, Kill, ''#DE Divide Error''),
     1 \<mapsto> (0, True, Kill, ''#DB Debug Exception''), 6 \<mapsto> (0, True, Kill, ''#UD Invalid Opcode Exception''),
     7 \<mapsto> (0, True, Kill, ''#NM Device Not Available Exception''), 11 \<mapsto> (0, True, Kill, ''#NP Segment Not Present''),
     12 \<mapsto> (0, True, Kill, ''#SS Stack Fault Exception''), 13 \<mapsto> (0, True, Kill, ''#GP General Protection Exception''),
     16 \<mapsto> (0, True, Kill, ''#MF x87 FPU Floating-Point Error''), 19 \<mapsto> (0, True, Kill, ''#XF SIMD Floating-Point Exception''),
     14 \<mapsto> (0, False, Page_fault, ''#PF Page-Fault Exception''), 0x30 \<mapsto> (3, True, Syscall_handler, ''syscall''),
     0x24 \<mapsto> (0, False, Serial_interrupt, ''serial''), 0x2e \<mapsto> (0, False, Disk_interrupt, ''hd0''),
     0x2f \<mapsto> (0, False, Disk_interrupt, ''hd1'')]"

lemma main_traps_table:
  assumes "\<And>i. i < INTR_CNT \<Longrightarrow> stubs i \<noteq> 0"
  shows "\<exists>out. main_traps stubs a = Inr (out, table stubs registered)"
proof -
  have s: "\<And>i. i < 256 \<Longrightarrow> stubs i \<noteq> 0"
    using assms by (simp add: INTR_CNT_def)
  show ?thesis
    unfolding main_traps_def registered_def
    by (simp add: intr_init_table [OF assms] timer_init_def kbd_init_def exception_init_def syscall_init_def serial_register_def
        disk_register_def register_ext_table register_int_table s Let_def)
qed

lemma table_nth:
  assumes "v < 256"
  shows "idt (table stubs r) ! v = gate_for (stubs v) (r v)"
    "intr_handlers (table stubs r) ! v = map_option (\<lambda>(_, _, h, _). h) (r v)"
  using assms by (simp_all add: table_def INTR_CNT_def)

section \<open>Privilege\<close>

text \<open>
  The processor lets the instruction \<^verbatim>\<open>int\<close> through a gate only if the privilege level of the gate is at least that of the
  program, and then continues at the offset of the gate, in the segment of its selector, with interrupts off behind
  a gate of type 14 and unchanged behind one of type 15.
\<close>

definition int_allowed :: "nat \<Rightarrow> u64 \<Rightarrow> bool" where
  "int_allowed cpl g \<longleftrightarrow> gate_present g \<and> cpl \<le> unat (gate_dpl g)"

definition leaves_interrupts_on :: "u64 \<Rightarrow> bool" where
  "leaves_interrupts_on g \<longleftrightarrow> gate_type g = 15"

lemma gate_for_fields:
  assumes "r = None \<or> (\<exists>dpl on h n. r = Some (dpl, on, h, n) \<and> 0 \<le> dpl \<and> dpl \<le> 3)"
  shows "gate_offset (gate_for stub r) = stub" "gate_selector (gate_for stub r) = SEL_KCSEG" "gate_present (gate_for stub r)"
    "unat (gate_dpl (gate_for stub r)) = (case r of None \<Rightarrow> 0 | Some (dpl, _) \<Rightarrow> nat dpl)"
    "gate_type (gate_for stub r) = (case r of Some (_, True, _) \<Rightarrow> 15 | _ \<Rightarrow> 14)"
proof -
  have d: "unat (gate_dpl (gate_word stub (of_int dpl) t)) = nat dpl" if "0 \<le> dpl" "dpl \<le> 3" for dpl t
  proof -
    have "dpl \<in> {0, 1, 2, 3}"
      using that by simp presburger
    then show ?thesis
      unfolding gate_word_fields by (elim insertE emptyE; simp)
  qed
  show "gate_offset (gate_for stub r) = stub" "gate_selector (gate_for stub r) = SEL_KCSEG" "gate_present (gate_for stub r)"
    "gate_type (gate_for stub r) = (case r of Some (_, True, _) \<Rightarrow> 15 | _ \<Rightarrow> 14)"
    by (auto simp: gate_for_def gate_word_fields SEL_KCSEG_def split: option.splits bool.splits)
  show "unat (gate_dpl (gate_for stub r)) = (case r of None \<Rightarrow> 0 | Some (dpl, _) \<Rightarrow> nat dpl)"
    using assms d [of 0] d by (auto simp: gate_for_def)
qed

lemma registered_levels:
  "registered v = None \<or> (\<exists>dpl on h n. registered v = Some (dpl, on, h, n) \<and> 0 \<le> dpl \<and> dpl \<le> 3)"
  by (simp add: registered_def) blast

section \<open>The interrupt controllers\<close>

text \<open>
  An 8259A: the number of the initialization word it waits for (0: none), the vector of its line 0, the register of masked
  lines, the lines in service, lowest first. A command with bit 4 set starts the initialization; the value
  0x20 ends the service of the first line.
\<close>

record pic =
  icw :: nat
  vbase :: u8
  imr :: u8
  in_service :: "nat list"

definition pic_command :: "u8 \<Rightarrow> pic \<Rightarrow> pic" where
  "pic_command v c = (if bit v 4 then c\<lparr>icw := 2, imr := 0, in_service := []\<rparr> else if v = 0x20 then c\<lparr>in_service := tl (in_service c)\<rparr> else c)"

definition pic_data :: "u8 \<Rightarrow> pic \<Rightarrow> pic" where
  "pic_data v c = (if icw c = 0 then c\<lparr>imr := v\<rparr> else if icw c = 2 then c\<lparr>icw := 3, vbase := v\<rparr> else if icw c = 3 then c\<lparr>icw := 4\<rparr> else c\<lparr>icw := 0\<rparr>)"

definition pic_out :: "pic \<times> pic \<Rightarrow> nat \<times> u8 \<Rightarrow> pic \<times> pic" where
  "pic_out = (\<lambda>(master, slave) (port, v).
     if port = 0x20 then (pic_command v master, slave) else if port = 0x21 then (pic_data v master, slave)
     else if port = 0xa0 then (master, pic_command v slave) else if port = 0xa1 then (master, pic_data v slave) else (master, slave))"

text \<open>Line \<open>n\<close> of the sixteen: those from 8 on come through the slave, which is at line 2 of the master.\<close>

definition delivered :: "nat \<Rightarrow> pic \<times> pic \<Rightarrow> nat option" where
  "delivered n = (\<lambda>(master, slave).
     if icw master \<noteq> 0 \<or> icw slave \<noteq> 0 then None
     else if n < 8 then if bit (imr master) n then None else Some (unat (vbase master) + n)
     else if bit (imr slave) (n - 8) \<or> bit (imr master) 2 then None else Some (unat (vbase slave) + (n - 8)))"

definition serve :: "nat \<Rightarrow> pic \<times> pic \<Rightarrow> pic \<times> pic" where
  "serve n = (\<lambda>(master, slave).
     if n < 8 then (master\<lparr>in_service := [n]\<rparr>, slave) else (master\<lparr>in_service := [2]\<rparr>, slave\<lparr>in_service := [n - 8]\<rparr>))"

section \<open>Properties\<close>



text \<open>
  \<^verbatim>\<open>gdt_init\<close> fills the table with the null descriptor and descriptors in which the processor finds: code and data segments of
  all 4 GB from address 0, of privilege 0 at the kernel's selectors and 3 at the user's selectors, and the task-state segment at the given
  address with a limit of 0x67.
\<close>

theorem gdt_correct:
  assumes "tss \<noteq> 0"
  shows "\<exists>gdt op. gdt_init tss gdt_addr = Inr (gdt, op) \<and> length gdt = 6 \<and> gdt ! slot SEL_NULL = 0 \<and>
    (\<forall>(sel, ty, dpl) \<in> {(SEL_KCSEG, 26, 0), (SEL_KDSEG, 18, 0), (SEL_UCSEG, 26, 3), (SEL_UDSEG, 18, 3)}.
       seg_present (gdt ! slot sel) \<and> seg_base (gdt ! slot sel) = 0 \<and> seg_last (gdt ! slot sel) = 4294967295 \<and>
       seg_type (gdt ! slot sel) = ty \<and> seg_dpl (gdt ! slot sel) = dpl) \<and>
    seg_present (gdt ! slot SEL_TSS) \<and> seg_base (gdt ! slot SEL_TSS) = tss \<and> seg_last (gdt ! slot SEL_TSS) = 0x67 \<and>
    seg_type (gdt ! slot SEL_TSS) = 9 \<and> seg_dpl (gdt ! slot SEL_TSS) = 0"
proof -
  let ?k = "seg_word 0 0xfffff 1" and ?t = "seg_word tss 0x67 0 9 0 0"
  have d: "make_code_desc 0 = Inr (?k 10 0 1)" "make_data_desc 0 = Inr (?k 2 0 1)" "make_code_desc 3 = Inr (?k 10 3 1)"
      "make_data_desc 3 = Inr (?k 2 3 1)" "make_tss_desc tss = Inr ?t"
    by (simp_all add: make_code_desc_def make_data_desc_def make_tss_desc_def make_seg_desc_ok)
  have s: "slot SEL_NULL = 0" "slot SEL_KCSEG = Suc 0" "slot SEL_KDSEG = Suc (Suc 0)" "slot SEL_UCSEG = Suc (Suc (Suc 0))"
      "slot SEL_UDSEG = Suc (Suc (Suc (Suc 0)))" "slot SEL_TSS = Suc (Suc (Suc (Suc (Suc 0))))"
    by (simp_all add: slot_def selectors)
  have n: "SEL_CNT = Suc (Suc (Suc (Suc (Suc (Suc 0)))))"
    by (simp add: SEL_CNT_def)
  have "gdt_init tss gdt_addr = Inr ([0, ?k 10 0 1, ?k 2 0 1, ?k 10 3 1, ?k 2 3 1, ?t], make_gdtr_operand 47 gdt_addr)"
    using assms by (simp add: gdt_init_def tss_get_def d s n Let_def)
  moreover have "seg_last (?k t d 1) = 4294967295" "seg_last ?t = 0x67" for t d
    by (simp_all add: seg_last_def seg_word_limit seg_word_rest)
  moreover have "seg_type (?k 10 d g) = 26" "seg_type (?k 2 d g) = 18" "seg_type ?t = 9" "seg_dpl (?k t 0 1) = 0" "seg_dpl (?k t 3 1) = 3" "seg_dpl ?t = 0" for t d g
    unfolding seg_type_def seg_dpl_def seg_word_rest by simp_all
  ultimately show ?thesis
    by (simp add: s seg_word_base seg_word_rest)
qed

theorem gdt_correct_witness:
  "\<exists>gdt op. gdt_init 0xc0104000 0xc0030000 = Inr (gdt, op) \<and> seg_dpl (gdt ! slot SEL_UCSEG) = 3 \<and> seg_base (gdt ! slot SEL_TSS) = 0xc0104000"
  using gdt_correct [of "0xc0104000" "0xc0030000"] by auto

text \<open>
  After \<^verbatim>\<open>pic_init\<close>, whatever state the two interrupt controllers were in, every one of their sixteen lines is delivered to the vector
  0x20 plus its number, and \<^verbatim>\<open>pic_end_of_interrupt\<close> for that vector leaves no line in service, on either
  controller.
\<close>

theorem pic_delivers:
  assumes "n < 16"
  shows "let cs = fold (\<lambda>w cs. pic_out cs w) pic_init cs0 in delivered n cs = Some (0x20 + n) \<and>
    (\<exists>out. pic_end_of_interrupt (0x20 + n) = Inr out \<and>
      (\<forall>c \<in> {fst, snd}. in_service (c (fold (\<lambda>w cs. pic_out cs w) out (serve n cs))) = []))"
proof -
  obtain m s where c: "cs0 = (m, s)"
    by (cases cs0)
  define cs where "cs = fold (\<lambda>w cs. pic_out cs w) pic_init cs0"
  have cs: "cs = (m\<lparr>icw := 0, vbase := 0x20, imr := 0, in_service := []\<rparr>, s\<lparr>icw := 0, vbase := 0x28, imr := 0, in_service := []\<rparr>)"
    unfolding cs_def c by (simp add: pic_init_def pic_out_def pic_command_def pic_data_def)
  show ?thesis
    using assms unfolding cs_def [symmetric] Let_def
    by (simp add: cs delivered_def serve_def pic_end_of_interrupt_def pic_out_def pic_command_def)
qed

theorem pic_delivers_witness:
  "\<forall>m s. delivered 14 (fold (\<lambda>w cs. pic_out cs w) pic_init (m, s)) = Some 0x2e"
  using pic_delivers [of 14] by (simp add: Let_def)

end
