(* ===== verification/Spec2Isabelle.thy ===== *)
theory Spec2Isabelle
  imports Vaddr Arithmetic KListSort KString Palloc SchedInv WakeList InodeRW LoaderProps ProcessRel CmdLine Stdio MallocProps Kbd Ata Traps
begin

text \<open>
  \<^bold>\<open>A verification library for the Pintos kernel of this repository\<close>
  (\<^verbatim>\<open>linuxpintos/src\<close>; all paths below are relative to it).

  \<^bold>\<open>The program.\<close> Pintos is a small 32-bit kernel. Threads are scheduled round robin by a timer interrupt
  and synchronize by semaphores, locks and condition variables (\<^verbatim>\<open>threads/\<close>). Pages come from two pools;
  every user process has a two-level page table, an executable loaded from a file, a table of file
  descriptors and a relation to its parent, through which the parent waits for its exit status
  (\<^verbatim>\<open>userprog/\<close>). Files are contiguous runs of disk sectors described by inodes; a bitmap kept in a file
  records the free sectors, and one root directory names the files (\<^verbatim>\<open>filesys/\<close>). All of it uses the
  kernel's own library: linked lists, bitmaps, strings, 64-bit division (\<^verbatim>\<open>lib/\<close>).

  \<^bold>\<open>How code becomes definitions.\<close> A function of the source is a definition with the name of the function,
  a loop inside it is a recursive function of its own. A C structure is a record. Machine words are
  words of their width where they wrap (addresses, page-table entries, bitmap elements, sizes of ELF
  headers), and natural numbers with the wrap-around written out where they index arrays. A failed
  \<^verbatim>\<open>ASSERT\<close>, a \<^verbatim>\<open>PANIC\<close>, a divide error and an access outside of an object are values of \<open>kerror\<close>, so that
  a theorem that concludes \<open>Inr\<close> says that none of them happens. State is passed explicitly. A loop that
  may not end (over a list that could be cyclic, over a string that could lack its terminator, over the
  page tables and program headers of a file that can hold anything) is a \<open>partial_function\<close> into an
  option, where None means that it does not return; theorems about such a loop say that it
  returns. No definition uses fuel. What interleaves is a step relation: \<open>kstep\<close> for the operations of the
  scheduler, \<open>rw_step\<close> for the readers and writers of an inode, \<open>family_step\<close> for processes,
  \<open>qreach\<close> for interrupt queues.

  \<^bold>\<open>Theories.\<close>
  \<^item> \<open>Prelude\<close>: machine types, failures, sequencing, arrays, little-endian numbers.
  \<^item> \<open>Vaddr\<close> (\<^verbatim>\<open>threads/vaddr.h\<close>, \<^verbatim>\<open>threads/pte.h\<close>): address fields and page-table entries as 32-bit words; the
    fields put together give the address, entries give back the page they were made for.
  \<^item> \<open>Arithmetic\<close> (\<^verbatim>\<open>lib/arithmetic.c\<close>): 64-bit division from the processor's 64-by-32-bit instruction,
    which traps when the quotient does not fit; equal to division on the integers.
  \<^item> \<open>KList\<close>, \<open>KListSort\<close> (\<^verbatim>\<open>lib/kernel/list.c\<close>): doubly linked lists in a store of elements. \<open>dll\<close> says that
    the store holds a well-formed list of given elements; each operation is described by what it does
    with that sequence and by the cells that it leaves alone. The sort is a natural merge sort on the
    pointers; it returns, is stable and leaves an ordered permutation. Locale \<open>kernel_queue\<close> is the contract
    of a queue, interpreted by pushing and popping.
  \<^item> \<open>KHash\<close> (\<^verbatim>\<open>lib/kernel/hash.c\<close>): hash tables, a family of such lists. Locale \<open>keyed_set\<close> is the contract of a
    set of elements of which no two are equal; a table keeps it while its buckets are split and merged.
  \<^item> \<open>KString\<close> (\<^verbatim>\<open>lib/string.c\<close>): block and string routines on a byte memory, with the tokenizer.
  \<^item> \<open>Stdlib\<close> (\<^verbatim>\<open>lib/stdlib.c\<close>): heap sort and binary search on arrays in memory, parsing of numbers. \<open>Stdio\<close>
    (\<^verbatim>\<open>lib/stdio.c\<close>, \<^verbatim>\<open>vprintf\<close> of \<^verbatim>\<open>lib/kernel/console.c\<close>): formatted output. Locale \<open>output_sink\<close> is the contract of the
    functions that receive the characters; they are fed with the text of the format.
  \<^item> \<open>Bitmap\<close> (\<^verbatim>\<open>lib/kernel/bitmap.c\<close>): packed bits refine an array of booleans. Locale \<open>region_allocator\<close> is
    the contract of an allocator of disjoint regions; its consequence, proved once, is that over any
    sequence of allocations and releases the held regions never overlap.
  \<^item> \<open>Palloc\<close> (\<^verbatim>\<open>threads/palloc.c\<close>): the pools of pages, two interpretations of \<open>region_allocator\<close>.
  \<^item> \<open>Malloc\<close>, \<open>MallocProps\<close> (\<^verbatim>\<open>threads/malloc.c\<close>): the allocator of blocks on top of the pages and the lists. Locale
    \<open>byte_heap\<close> is the contract of a heap of byte arrays; its consequence, proved once, is that a client reads back
    what it wrote, whatever it allocates and releases in between.
  \<^item> \<open>Sched\<close> (\<^verbatim>\<open>threads/thread.c\<close>, \<^verbatim>\<open>threads/synch.c\<close>, \<^verbatim>\<open>threads/interrupt.c\<close>, \<^verbatim>\<open>devices/timer.c\<close>): the scheduler's
    lists, semaphores, locks, condition variables, sleeping and the timer interrupt. A thread that gives up
    the processor inside of a call keeps what is left of the call as its continuation (\<open>todo\<close>).
    \<open>SchedInv\<close>: the invariants of every reachable state. \<open>WakeList\<close>: the loop that wakes sleeping threads,
    on the linked list itself.
  \<^item> \<open>Intq\<close>, \<open>Kbd\<close> (\<^verbatim>\<open>devices/intq.c\<close>, \<^verbatim>\<open>devices/input.c\<close>, \<^verbatim>\<open>devices/kbd.c\<close>): the ring buffer between threads and interrupt
    handlers with all interleavings, and the keyboard that fills it.
  \<^item> \<open>Ata\<close> (\<^verbatim>\<open>devices/disk.c\<close>): the driver of the disks over the ports of the controller, which are an argument; what the
    ATA standard says of them is the hypothesis \<open>ata_channel\<close>. The driver refines the array of sectors of \<open>Inode\<close>.
  \<^item> \<open>Traps\<close> (the rest of \<^verbatim>\<open>threads/interrupt.c\<close>, \<^verbatim>\<open>userprog/exception.c\<close>, \<^verbatim>\<open>userprog/gdt.c\<close>, \<^verbatim>\<open>userprog/tss.c\<close>): gates, segment
    descriptors, the registration of handlers in the order of the start, and the interrupt controllers; the fields that the
    processor and the controllers read are compared with what their manuals say.
  \<^item> \<open>Inode\<close>, \<open>FreeMap\<close>, \<open>Directory\<close>, \<open>Filesys\<close> (\<^verbatim>\<open>filesys/*.c\<close>, \<^verbatim>\<open>disk_read\<close> and \<^verbatim>\<open>disk_write\<close> of \<^verbatim>\<open>devices/disk.c\<close>):
    a disk of sectors of 512 bytes, inodes, open files, the free map as a file on the disk, directories of
    20-byte entries. The free map is another \<open>region_allocator\<close>; a directory interprets locale \<open>name_map\<close>.
    \<open>FilesysInv\<close>: the consistency of the whole disk and that creating and opening files keep it.
    \<open>InodeRW\<close>: the protocol of \<^verbatim>\<open>r_sema\<close> and \<^verbatim>\<open>w_sema\<close> in \<^verbatim>\<open>inode_read_at\<close> and \<^verbatim>\<open>inode_write_at\<close>, interleaved at every
    round of their loops: linearizable and free of deadlock.
  \<^item> \<open>Pagedir\<close> (\<^verbatim>\<open>userprog/pagedir.c\<close>): the page tables as bytes of pages of the allocator. Locale
    \<open>address_space\<close>: the operations implement a partial map from user pages to frames.
    \<open>Frames\<close>: what lies behind the mapped pages, and what a process sees.
  \<^item> \<open>Syscall\<close> (\<^verbatim>\<open>userprog/syscall.c\<close>, the descriptors of \<^verbatim>\<open>threads/thread.c\<close>): the checks of user pointers, every
    call and the dispatch over the memory of the process. Starting, waiting for and ending a process and
    switching off are results of the handler, which the process relations take up.
  \<^item> \<open>CmdLine\<close>, \<open>Loader\<close>, \<open>LoaderProps\<close>, \<open>ProcessRel\<close> (\<^verbatim>\<open>userprog/process.c\<close>, the relations of \<^verbatim>\<open>threads/thread.c\<close>): the
    command line, the loading of an executable with its stack, and the life of a family of processes with
    all interleavings of starting, waiting and exiting.

  \<^bold>\<open>What is parameter or left out.\<close> Interrupt-driven preemption is a step of \<open>kstep\<close>; in the other theories a
  call is one step unless the theory says otherwise, so that a lock that only makes a call one step is not
  part of its state. The comparison functions of lists and the timing and hardware behaviour are arguments of the
  definitions. Memory for kernel structures is found where the text of a theory says so.

  \<^bold>\<open>Not modelled.\<close> Assembly (\<^verbatim>\<open>threads/loader.S\<close>, \<^verbatim>\<open>threads/start.S\<close>, \<^verbatim>\<open>threads/switch.S\<close>, \<^verbatim>\<open>threads/intr-stubs.S\<close>,
  the inline assembly of \<^verbatim>\<open>threads/io.h\<close>), the serial line and the screen, the start of the
  kernel (\<^verbatim>\<open>threads/init.c\<close>), printing of statistics and faults, the user library, examples, tests and host tools.
\<close>

end
